(* ===== verification/Prelude.thy ===== *)
theory Prelude
  imports Main "HOL-Library.Monad_Syntax" "HOL-Library.Char_ord"
begin

section \<open>Shared types, list operations and automation\<close>

text \<open>
  The vocabulary every component of the editor model shares.

  \<^item> A line of text, a key sequence and a buffer are byte strings, \<open>bytes = char list\<close>
    (the source's \<^verbatim>\<open>CHAR_T\<close> is \<^verbatim>\<open>unsigned char\<close>; the order on \<open>char\<close> is the order
    of the codes).
  \<^item> A C function that works on the editor state is a function
    \<open>state \<Rightarrow> ('result \<times> state) option\<close>. \<open>None\<close> stands for \<^verbatim>\<open>abort()\<close> and for
    undefined behaviour (a null dereference, a read or write outside an object); the
    \<^verbatim>\<open>int\<close> return code is a \<open>bool\<close>, true when the C function returns non-zero, i.e. when it
    reports failure. A failing call still returns the state it leaves behind.
  \<^item> Line numbers (\<^verbatim>\<open>recno_t\<close>) and sizes are \<open>nat\<close>; wherever the source can wrap or
    subtract below zero the model says so at that place.
\<close>

type_synonym bytes = "char list"

named_theorems list_edit "facts about inserting, deleting and replacing in a list"

subsection \<open>Editing a list at an index\<close>

definition insert_at :: "nat \<Rightarrow> 'a \<Rightarrow> 'a list \<Rightarrow> 'a list" where
  "insert_at i x xs = take i xs @ x # drop i xs"

definition delete_at :: "nat \<Rightarrow> 'a list \<Rightarrow> 'a list" where
  "delete_at i xs = take i xs @ drop (Suc i) xs"

lemma length_insert_at [simp]: "length (insert_at i x xs) = Suc (length xs)"
  by (simp add: insert_at_def)

lemma length_delete_at [simp]: "i < length xs \<Longrightarrow> length (delete_at i xs) = length xs - 1"
  by (simp add: delete_at_def)

lemma delete_insert_at [list_edit]: "i \<le> length xs \<Longrightarrow> delete_at i (insert_at i x xs) = xs"
  by (simp add: insert_at_def delete_at_def)

lemma insert_delete_at [list_edit]:
  "i < length xs \<Longrightarrow> x = xs ! i \<Longrightarrow> insert_at i x (delete_at i xs) = xs"
  by (simp add: insert_at_def delete_at_def id_take_nth_drop [symmetric])

lemma nth_insert_at [list_edit]:
  "i \<le> length xs \<Longrightarrow> j \<le> length xs \<Longrightarrow>
   insert_at i x xs ! j = (if j < i then xs ! j else if j = i then x else xs ! (j - 1))"
  by (auto simp: insert_at_def nth_append nth_Cons')

lemma nth_delete_at [list_edit]:
  "i < length xs \<Longrightarrow> j < length xs - 1 \<Longrightarrow>
   delete_at i xs ! j = (if j < i then xs ! j else xs ! Suc j)"
  by (auto simp: delete_at_def nth_append)

lemma insert_at_append1 [list_edit]:
  "i \<le> length xs \<Longrightarrow> insert_at i x (xs @ ys) = insert_at i x xs @ ys"
  by (simp add: insert_at_def)

lemma delete_at_append1 [list_edit]:
  "i < length xs \<Longrightarrow> delete_at i (xs @ ys) = delete_at i xs @ ys"
  by (simp add: delete_at_def)

lemma list_update_at_end [list_edit]: "(xs @ [y])[length xs := z] = xs @ [z]"
  by simp

lemma insert_at_end [list_edit]: "i = length xs \<Longrightarrow> insert_at i x xs = xs @ [x]"
  by (simp add: insert_at_def)

lemma take_Suc_update [list_edit]:
  "i < length xs \<Longrightarrow> take (Suc i) (xs[i := x]) = take i xs @ [x]"
  by (simp add: take_Suc_conv_app_nth)

subsection \<open>The character classes of the C locale\<close>

definition is_blank :: "char \<Rightarrow> bool" where
  "is_blank c \<longleftrightarrow> c = CHR '' '' \<or> c = CHR 0x09"

definition is_digit :: "char \<Rightarrow> bool" where
  "is_digit c \<longleftrightarrow> 48 \<le> (of_char c :: nat) \<and> (of_char c :: nat) \<le> 57"

definition is_upper :: "char \<Rightarrow> bool" where
  "is_upper c \<longleftrightarrow> 65 \<le> (of_char c :: nat) \<and> (of_char c :: nat) \<le> 90"

definition is_lower :: "char \<Rightarrow> bool" where
  "is_lower c \<longleftrightarrow> 97 \<le> (of_char c :: nat) \<and> (of_char c :: nat) \<le> 122"

definition to_lower :: "char \<Rightarrow> char" where
  "to_lower c = (if is_upper c then char_of (of_char c + (32::nat)) else c)"

definition to_upper :: "char \<Rightarrow> char" where
  "to_upper c = (if is_lower c then char_of (of_char c - (32::nat)) else c)"

subsection \<open>Columns\<close>

text \<open>
  A column is a \<^verbatim>\<open>size_t\<close>. Some motions leave the column one below 0, which is the largest
  \<^verbatim>\<open>size_t\<close>, and the code adds 1 to columns: \<open>cno_next\<close> and \<open>cno_prev\<close> wrap around.
\<close>

definition SIZE_MAX :: nat where "SIZE_MAX = 18446744073709551615"

definition no_cno :: "nat \<Rightarrow> bool" where
  "no_cno c \<longleftrightarrow> c = SIZE_MAX"

definition cno_next :: "nat \<Rightarrow> nat" where
  "cno_next c = (if no_cno c then 0 else c + 1)"

definition cno_prev :: "nat \<Rightarrow> nat" where
  "cno_prev c = (if c = 0 then SIZE_MAX else c - 1)"

text \<open>Evaluation does not have to count to the largest column.\<close>

lemma no_cno_code [code]: "no_cno c = (if c < 1000 then False else c = SIZE_MAX)"
  by (simp add: no_cno_def SIZE_MAX_def)

lemma no_cno_less [simp]: "c < SIZE_MAX \<Longrightarrow> \<not> no_cno c" "no_cno SIZE_MAX"
  by (simp_all add: no_cno_def)

lemma cno_next_less [simp]: "c < SIZE_MAX \<Longrightarrow> cno_next c = c + 1"
  by (simp add: cno_next_def)

lemma cno_next_max [simp]: "cno_next SIZE_MAX = 0"
  by (simp add: cno_next_def)

lemma cno_next_prev [simp]: "c \<le> SIZE_MAX \<Longrightarrow> cno_next (cno_prev c) = c"
  by (cases "c = 0") (auto simp: cno_prev_def)

lemma cno_prev_simps [simp]: "cno_prev 0 = SIZE_MAX" "0 < c \<Longrightarrow> cno_prev c = c - 1"
  by (simp_all add: cno_prev_def)

lemma small_column [simp]: "c < 65536 \<Longrightarrow> c < SIZE_MAX"
  by (simp add: SIZE_MAX_def)

subsection \<open>The option monad\<close>

lemmas obind = bind_eq_Some_conv

lemma bind_Some_pair [simp]: "Option.bind (Some (a, b)) f = f (a, b)"
  by simp

end
