(* ===== verification/Seq.thy ===== *)
theory Seq
  imports Prelude "HOL-Library.List_Lexorder" "HOL-Library.Sublist"
begin

section \<open>Key sequences: maps and abbreviations (common/seq.c)\<close>

text \<open>
  Maps and abbreviations are one linked list of sequences, sorted so that a walk finds the
  shortest match first, and a bitmap of first characters that keeps most keys from walking it.
  The lemmas: the order the walk relies on and that every operation keeps it; an exact search
  finds an entry exactly when it is there; the search for the keys typed so far finds the shortest entry they
  complete, or says truly whether more keys could complete one; setting and deleting as updates
  of a finite map. That what is written to a file reads back is in \<open>ExArgs\<close>.
\<close>

subsection \<open>Types (common/seq.h)\<close>

datatype seq_t = SEQ_ABBREV | SEQ_COMMAND | SEQ_INPUT

record seq_flags =
  sf_funcmap :: bool
  sf_nooverwrite :: bool
  sf_screen :: bool
  sf_userdef :: bool

text \<open>A null name or output is \<open>None\<close>.\<close>

record seq =
  q_stype :: seq_t
  q_name :: "bytes option"
  q_input :: bytes
  q_output :: "bytes option"
  q_flags :: seq_flags

text \<open>The part of the global area that \<^verbatim>\<open>seq.c\<close> uses: the list and the fast-lookup bits.\<close>

record seqs =
  seqq :: "seq list"
  seqb :: "char set"

definition MAX_BIT_SEQ :: nat where "MAX_BIT_SEQ = 128"
definition sizeof_seq :: nat where "sizeof_seq = 80"

subsection \<open>Searching\<close>

text \<open>
  \<^verbatim>\<open>memcmp\<close> of the first \<open>n\<close> characters, and \<^verbatim>\<open>e_memcmp\<close>, which does the same against the characters of
  events: the difference of the first two that differ.
\<close>

fun mem_cmp :: "nat \<Rightarrow> bytes \<Rightarrow> bytes \<Rightarrow> int" where
  "mem_cmp (Suc n) (a # as) (b # bs) =
     (if a \<noteq> b then int (of_char a) - int (of_char b) else mem_cmp n as bs)"
| "mem_cmp _ _ _ = 0"

text \<open>The first character of an entry's input; the copy \<^verbatim>\<open>v_strdup\<close> makes ends in a nul.\<close>

definition q_char :: "seq \<Rightarrow> char" where
  "q_char q = (case q_input q of [] \<Rightarrow> CHR 0x00 | c # _ \<Rightarrow> c)"

text \<open>
  The loop of \<^verbatim>\<open>seq_find\<close>: the position \<^verbatim>\<open>lastqp\<close> is left at, the match, and what \<^verbatim>\<open>*ispartialp\<close> is set
  to. \<open>part\<close> says that the caller passed \<^verbatim>\<open>ispartialp\<close>.
\<close>

fun seq_find_loop ::
  "seq_t \<Rightarrow> bytes \<Rightarrow> bool \<Rightarrow> nat option \<Rightarrow> nat \<Rightarrow> seq list \<Rightarrow> nat option \<times> nat option \<times> bool" where
  "seq_find_loop ty inp part lst i [] = (lst, None, False)"
| "seq_find_loop ty inp part lst i (q # qs) =
     (if hd inp < q_char q then (lst, None, False)
      else if q_char q < hd inp \<or> q_stype q \<noteq> ty \<or> sf_funcmap (q_flags q)
      then seq_find_loop ty inp part (Some i) (Suc i) qs
      else let diff = mem_cmp (min (length (q_input q)) (length inp)) (q_input q) inp in
        if 0 < diff then (lst, None, False)
        else if diff < 0 then seq_find_loop ty inp part (Some i) (Suc i) qs
        else if length (q_input q) \<le> length inp then
          (if length (q_input q) = length inp \<or> part then (lst, Some i, False)
           else seq_find_loop ty inp part (Some i) (Suc i) qs)
        else (lst, None, part))"

text \<open>\<^verbatim>\<open>seq_find\<close>; no characters to look for is a read of what is not there.\<close>

definition seq_find :: "bytes \<Rightarrow> seq_t \<Rightarrow> bool \<Rightarrow> seq list \<Rightarrow> (nat option \<times> nat option \<times> bool) option" where
  "seq_find inp ty part qs =
     (if inp = [] \<and> qs \<noteq> [] then None else Some (seq_find_loop ty inp part None 0 qs))"

subsection \<open>Setting, deleting, saving\<close>

text \<open>
  \<^verbatim>\<open>seq_set\<close>. Each string is copied with room for a nul, in the order name, input, output; a failed
  copy frees the rest and reports failure.
\<close>

definition link_after :: "nat option \<Rightarrow> 'a \<Rightarrow> 'a list \<Rightarrow> 'a list" where
  "link_after at x xs = (case at of None \<Rightarrow> insert_at 0 x xs | Some i \<Rightarrow> insert_at (Suc i) x xs)"

definition seq_set ::
  "(nat \<Rightarrow> bool) \<Rightarrow> bytes option \<Rightarrow> bytes \<Rightarrow> bytes option \<Rightarrow> seq_t \<Rightarrow> seq_flags \<Rightarrow> seqs \<Rightarrow> (bool \<times> seqs) option" where
  "seq_set mem name inp output ty flags g =
     do {
       (lastqp, found, _) \<leftarrow> seq_find inp ty False (seqq g);
       (case found of
          Some i \<Rightarrow>
            if sf_nooverwrite flags then Some (False, g)
            else let out = (case output of None \<Rightarrow> None | Some l \<Rightarrow> if l = [] then None else Some l) in
              if out \<noteq> None \<and> \<not> mem (length (the out) + 1) then Some (True, g)
              else Some (False, g\<lparr>seqq := (seqq g)[i := (seqq g ! i)\<lparr>q_output := out\<rparr>]\<rparr>)
        | None \<Rightarrow>
            let nm = (case name of None \<Rightarrow> None | Some l \<Rightarrow> if l = [] then None else Some l) in
            if \<not> mem sizeof_seq then Some (True, g)
            else if nm \<noteq> None \<and> \<not> mem (length (the nm) + 1) then Some (True, g)
            else if \<not> mem (length inp + 1) then Some (True, g)
            else if output \<noteq> None \<and> \<not> mem (length (the output) + 1) then Some (True, g)
            else let q = \<lparr>q_stype = ty, q_name = nm, q_input = inp, q_output = output, q_flags = flags\<rparr> in
              Some (False, g\<lparr>seqq := link_after lastqp q (seqq g),
                             seqb := if of_char (q_char q) < MAX_BIT_SEQ then insert (q_char q) (seqb g)
                                     else seqb g\<rparr>))
     }"

definition seq_mdel :: "nat \<Rightarrow> seqs \<Rightarrow> seqs" where
  "seq_mdel i g = g\<lparr>seqq := delete_at i (seqq g)\<rparr>"

definition seq_delete :: "bytes \<Rightarrow> seq_t \<Rightarrow> seqs \<Rightarrow> (bool \<times> seqs) option" where
  "seq_delete inp ty g =
     do {
       (_, found, _) \<leftarrow> seq_find inp ty False (seqq g);
       (case found of None \<Rightarrow> Some (True, g) | Some i \<Rightarrow> Some (False, seq_mdel i g))
     }"

definition seq_close :: "seqs \<Rightarrow> seqs" where
  "seq_close g = g\<lparr>seqq := []\<rparr>"

text \<open>\<^verbatim>\<open>seq_save\<close>: the bytes written for one entry, and for all of a type the user defined.\<close>

definition CH_LITERAL :: char where "CH_LITERAL = CHR 0x16"

definition quoted :: "bool \<Rightarrow> char \<Rightarrow> bytes" where
  "quoted blanks ch =
     (if ch = CH_LITERAL \<or> ch = CHR ''|'' \<or> blanks \<and> is_blank ch \<or> ch = CHR 0x0A then [CH_LITERAL, ch] else [ch])"

definition save_entry :: "bytes option \<Rightarrow> seq \<Rightarrow> bytes" where
  "save_entry pre q =
     (case pre of None \<Rightarrow> [] | Some p \<Rightarrow> p) @
     concat (map (quoted True) (q_input q)) @ [CHR '' ''] @
     (case q_output q of None \<Rightarrow> [] | Some l \<Rightarrow> concat (map (quoted False) l)) @ [CHR 0x0A]"

definition seq_save :: "bytes option \<Rightarrow> seq_t \<Rightarrow> seqs \<Rightarrow> bytes" where
  "seq_save pre ty g =
     concat (map (save_entry pre) (filter (\<lambda>q. q_stype q = ty \<and> sf_userdef (q_flags q)) (seqq g)))"

subsection \<open>The order of the list\<close>

text \<open>
  The entries of a type that a search looks at are strictly sorted by input, a prefix coming
  first; the whole list is only sorted by first character.
\<close>

definition active :: "seq_t \<Rightarrow> seq \<Rightarrow> bool" where
  "active ty q \<longleftrightarrow> q_stype q = ty \<and> \<not> sf_funcmap (q_flags q)"

definition seqs_ok :: "seq list \<Rightarrow> bool" where
  "seqs_ok qs \<longleftrightarrow> (\<forall>q \<in> set qs. q_input q \<noteq> []) \<and>
     sorted_wrt (\<lambda>a b. q_char a \<le> q_char b \<and> (\<forall>ty. active ty a \<and> active ty b \<longrightarrow> q_input a < q_input b)) qs"

definition seq_lookup :: "seq_t \<Rightarrow> bytes \<Rightarrow> seq list \<Rightarrow> seq option" where
  "seq_lookup ty inp qs = find (\<lambda>q. active ty q \<and> q_input q = inp) qs"

text \<open>The comparison of the walk: less, greater, or one a prefix of the other.\<close>

lemma mem_cmp_cases:
  "0 < mem_cmp (min (length a) (length b)) a b \<longleftrightarrow> b < a \<and> \<not> prefix b a"
  "mem_cmp (min (length a) (length b)) a b < 0 \<longleftrightarrow> a < b \<and> \<not> prefix a b"
proof (induction a b rule: list_induct2')
  case (4 x xs y ys)
  have "0 < int (of_char x) - int (of_char y) \<longleftrightarrow> y < x" "int (of_char x) - int (of_char y) < 0 \<longleftrightarrow> x < y"
    by (auto simp: less_char_def)
  with 4 show "0 < mem_cmp (min (length (x # xs)) (length (y # ys))) (x # xs) (y # ys) \<longleftrightarrow>
      y # ys < x # xs \<and> \<not> prefix (y # ys) (x # xs)"
    and "mem_cmp (min (length (x # xs)) (length (y # ys))) (x # xs) (y # ys) < 0 \<longleftrightarrow>
      x # xs < y # ys \<and> \<not> prefix (x # xs) (y # ys)"
    by auto
qed (simp_all)

lemma prefix_le: "prefix a b \<Longrightarrow> a \<le> (b :: bytes)"
  by (induction a arbitrary: b) (auto simp: prefix_def)

lemma less_mismatch: "a < b \<Longrightarrow> \<not> prefix a b \<Longrightarrow> a @ x < (b :: bytes)"
  proof (induction a arbitrary: b)
  case (Cons c a)
  then show ?case by (cases b) auto
qed simp

lemma beyond:
  fixes a b c :: bytes
  assumes "a < b" "\<not> prefix a b" "b \<le> c"
  shows "a < c" "\<not> prefix a c" "\<not> prefix c a"
proof -
  show "a < c" using assms by order
  then show "\<not> prefix c a" using prefix_le by fastforce
  show "\<not> prefix a c" 
  proof
    assume "prefix a c"
    then obtain x where "c = a @ x" by (auto simp: prefix_def)
    then show False using less_mismatch [OF assms(1,2), of x] assms(3) by simp
  qed
qed

lemma hd_less: "a \<noteq> [] \<Longrightarrow> b \<noteq> [] \<Longrightarrow> hd a < hd b \<Longrightarrow> a < b \<and> \<not> prefix a (b :: bytes)"
  by (cases a; cases b) auto

text \<open>What the loop knows about an entry it stops at, skips or matches.\<close>

datatype verdict = Skip | Stop | Match

definition verdict :: "seq_t \<Rightarrow> bytes \<Rightarrow> bool \<Rightarrow> seq \<Rightarrow> verdict" where
  "verdict ty inp part q =
     (if hd inp < q_char q then Stop
      else if q_char q < hd inp \<or> \<not> active ty q then Skip
      else if inp < q_input q then Stop
      else if q_input q = inp \<or> part \<and> prefix (q_input q) inp then Match else Skip)"

lemma seq_find_loop_Cons:
  assumes "inp \<noteq> []" "q_input q \<noteq> []"
  shows "seq_find_loop ty inp part lst i (q # qs) =
    (case verdict ty inp part q of
       Skip \<Rightarrow> seq_find_loop ty inp part (Some i) (Suc i) qs
     | Stop \<Rightarrow> (lst, None, part \<and> active ty q \<and> prefix inp (q_input q))
     | Match \<Rightarrow> (lst, Some i, False))"
proof -
  let ?a = "q_input q" and ?d = "mem_cmp (min (length (q_input q)) (length inp)) (q_input q) inp"
  have d: "0 < ?d \<longleftrightarrow> inp < ?a \<and> \<not> prefix inp ?a" "?d < 0 \<longleftrightarrow> ?a < inp \<and> \<not> prefix ?a inp"
    by (rule mem_cmp_cases)+
  have h: "q_char q = hd ?a" using assms(2) by (cases ?a) (simp_all add: q_char_def)
  have np: "hd inp < hd ?a \<Longrightarrow> \<not> prefix inp ?a" using hd_less [OF assms] by blast
  have le: "prefix ?a inp \<Longrightarrow> \<not> inp < ?a" "prefix inp ?a \<Longrightarrow> ?a \<noteq> inp \<Longrightarrow> inp < ?a"
    using prefix_le [of ?a inp] prefix_le [of inp ?a] by auto
  have len: "length ?a \<le> length inp \<Longrightarrow> prefix inp ?a \<Longrightarrow> ?a = inp" "length inp < length ?a \<Longrightarrow> \<not> prefix ?a inp"
    "length ?a = length inp \<Longrightarrow> prefix ?a inp \<Longrightarrow> ?a = inp"
    by (auto simp: prefix_def)
  show ?thesis
  proof (cases "hd inp < hd ?a \<or> hd ?a < hd inp \<or> \<not> active ty q")
    case True
    then show ?thesis using np by (auto simp: verdict_def h active_def)
  next
    case act: False
    consider "inp < ?a" "\<not> prefix inp ?a" | "inp < ?a" "prefix inp ?a" "length inp < length ?a"
      | "?a < inp" "\<not> prefix ?a inp" | "?a < inp" "prefix ?a inp" "length ?a < length inp" | "?a = inp"
      using prefix_length_less [of inp ?a] prefix_length_less [of ?a inp] by (force simp: strict_prefix_def)
    then show ?thesis using act d le
      by cases (auto simp: verdict_def h active_def Let_def)
  qed
qed

text \<open>The walk skips the first \<open>k\<close> entries.\<close>

lemma seq_find_loop_spec:
  assumes "inp \<noteq> []" "\<forall>q \<in> set qs. q_input q \<noteq> []"
  shows "\<exists>k \<le> length qs. (\<forall>q \<in> set (take k qs). verdict ty inp part q = Skip) \<and>
    seq_find_loop ty inp part lst i qs =
      (if k = 0 then lst else Some (i + k - 1),
       if k < length qs \<and> verdict ty inp part (qs ! k) = Match then Some (i + k) else None,
       k < length qs \<and> verdict ty inp part (qs ! k) = Stop \<and> part \<and> active ty (qs ! k) \<and> prefix inp (q_input (qs ! k))) \<and>
    (k < length qs \<longrightarrow> verdict ty inp part (qs ! k) \<noteq> Skip)"
  using assms(2)
proof (induction qs arbitrary: lst i)
  case Nil
  then show ?case by simp
next
  case (Cons q qs)
  note step = seq_find_loop_Cons [OF assms(1), of q ty part lst i qs]
  show ?case
  proof (cases "verdict ty inp part q = Skip")
    case True
    obtain k where k: "k \<le> length qs" "\<forall>q \<in> set (take k qs). verdict ty inp part q = Skip"
      "seq_find_loop ty inp part (Some i) (Suc i) qs =
        (if k = 0 then Some i else Some (Suc i + k - 1),
         if k < length qs \<and> verdict ty inp part (qs ! k) = Match then Some (Suc i + k) else None,
         k < length qs \<and> verdict ty inp part (qs ! k) = Stop \<and> part \<and> active ty (qs ! k) \<and> prefix inp (q_input (qs ! k)))"
      "k < length qs \<longrightarrow> verdict ty inp part (qs ! k) \<noteq> Skip"
      using Cons.IH [of "Some i" "Suc i"] Cons.prems by auto
    then show ?thesis using True step Cons.prems by (intro exI [of _ "Suc k"]) simp
  next
    case False
    then show ?thesis using step Cons.prems by (intro exI [of _ 0]) (auto split: verdict.splits)
  qed
qed

lemma seqs_ok_inputs: "seqs_ok qs \<Longrightarrow> q \<in> set qs \<Longrightarrow> q_input q \<noteq> []"
  by (simp add: seqs_ok_def)

lemma seqs_ok_char: "seqs_ok qs \<Longrightarrow> i \<le> j \<Longrightarrow> j < length qs \<Longrightarrow> q_char (qs ! i) \<le> q_char (qs ! j)"
  by (cases "i = j") (auto simp: seqs_ok_def sorted_wrt_iff_nth_less)

lemma seqs_ok_less:
  "seqs_ok qs \<Longrightarrow> i < j \<Longrightarrow> j < length qs \<Longrightarrow> active ty (qs ! i) \<Longrightarrow> active ty (qs ! j) \<Longrightarrow>
   q_input (qs ! i) < q_input (qs ! j)"
  unfolding seqs_ok_def sorted_wrt_iff_nth_less by blast

lemma q_char_hd: "q_input q \<noteq> [] \<Longrightarrow> q_char q = hd (q_input q)"
  by (cases "q_input q") (simp_all add: q_char_def)

lemma skip_facts:
  assumes "verdict ty inp part q = Skip" "inp \<noteq> []" "q_input q \<noteq> []"
  shows "q_char q \<le> hd inp" "active ty q \<Longrightarrow> q_input q < inp" "active ty q \<Longrightarrow> \<not> prefix inp (q_input q)"
    and "active ty q \<Longrightarrow> part \<Longrightarrow> \<not> prefix (q_input q) inp"
proof -
  show c: "q_char q \<le> hd inp" using assms(1) by (auto simp: verdict_def split: if_splits)
  assume a: "active ty q"
  show lt: "q_input q < inp"
    using assms hd_less [OF assms(3,2)] a by (auto simp: verdict_def q_char_hd split: if_splits)
  show "\<not> prefix inp (q_input q)" using lt prefix_le by fastforce
  show "part \<Longrightarrow> \<not> prefix (q_input q) inp"
    using assms hd_less [OF assms(3,2)] a by (auto simp: verdict_def q_char_hd split: if_splits)
qed

text \<open>Nothing from where the walk stops on is at most the input.\<close>

lemma stop_facts:
  assumes ok: "seqs_ok qs" and inp: "inp \<noteq> []" and k: "k \<le> j" "j < length qs"
    and v: "verdict ty inp part (qs ! k) = Stop"
  shows "hd inp \<le> q_char (qs ! j)" and "active ty (qs ! j) \<Longrightarrow> inp < q_input (qs ! j) \<and> \<not> prefix (q_input (qs ! j)) inp"
    and "active ty (qs ! j) \<Longrightarrow> prefix inp (q_input (qs ! j)) \<Longrightarrow> active ty (qs ! k) \<and> prefix inp (q_input (qs ! k))"
proof -
  let ?q = "qs ! k" and ?r = "qs ! j"
  have ne: "q_input ?q \<noteq> []" "q_input ?r \<noteq> []" using ok k by (auto simp: seqs_ok_def)
  have c: "q_char ?q \<le> q_char ?r" by (rule seqs_ok_char [OF ok k])
  have v': "hd inp < q_char ?q \<or> q_char ?q = hd inp \<and> active ty ?q \<and> inp < q_input ?q"
    using v by (auto simp: verdict_def split: if_splits)
  then show "hd inp \<le> q_char ?r" using c by auto
  assume a: "active ty ?r"
  have "inp < q_input ?r \<and> (prefix inp (q_input ?r) \<longrightarrow> active ty ?q \<and> prefix inp (q_input ?q))"
  proof (cases "hd inp < q_char ?q")
    case True
    then have "hd inp < hd (q_input ?r)" using c ne by (simp add: q_char_hd)
    then show ?thesis using hd_less [OF inp ne(2)] by blast
  next
    case False
    then have q: "active ty ?q" "inp < q_input ?q" using v' by auto
    have "q_input ?q \<le> q_input ?r" using seqs_ok_less [OF ok _ k(2) q(1) a] k(1) by (cases "k = j") auto
    then show ?thesis using q beyond [OF q(2)] by (meson order.strict_trans2)
  qed
  then show "inp < q_input ?r \<and> \<not> prefix (q_input ?r) inp" "prefix inp (q_input ?r) \<Longrightarrow> active ty ?q \<and> prefix inp (q_input ?q)"
    using prefix_le [of "q_input ?r" inp] by auto
qed

lemma match_facts:
  assumes "verdict ty inp part q = Match"
  shows "active ty q" "q_char q = hd inp" "prefix (q_input q) inp" "\<not> part \<Longrightarrow> q_input q = inp"
  using assms by (auto simp: verdict_def split: if_splits)

lemma find_keys:
  assumes ok: "seqs_ok qs" and inp: "inp \<noteq> []"
  obtains k where "k \<le> length qs" and "\<forall>i < k. verdict ty inp part (qs ! i) = Skip"
    and "seq_find inp ty part qs = Some (if k = 0 then None else Some (k - 1),
      if k < length qs \<and> verdict ty inp part (qs ! k) = Match then Some k else None,
      k < length qs \<and> verdict ty inp part (qs ! k) = Stop \<and> part \<and> active ty (qs ! k) \<and> prefix inp (q_input (qs ! k)))"
    and "k < length qs \<longrightarrow> verdict ty inp part (qs ! k) \<noteq> Skip"
proof -
  have "\<forall>q \<in> set qs. q_input q \<noteq> []" using ok by (simp add: seqs_ok_def)
  from seq_find_loop_spec [OF inp this, of ty part None 0]
  obtain k where "k \<le> length qs" "\<forall>q \<in> set (take k qs). verdict ty inp part q = Skip"
    "seq_find_loop ty inp part None 0 qs = (if k = 0 then None else Some (k - 1),
      if k < length qs \<and> verdict ty inp part (qs ! k) = Match then Some k else None,
      k < length qs \<and> verdict ty inp part (qs ! k) = Stop \<and> part \<and> active ty (qs ! k) \<and> prefix inp (q_input (qs ! k)))"
    "k < length qs \<longrightarrow> verdict ty inp part (qs ! k) \<noteq> Skip"
    by auto
  moreover from this have "\<forall>i < k. verdict ty inp part (qs ! i) = Skip"
    by (metis in_set_conv_nth length_take min.absorb2 nth_take)
  ultimately show ?thesis by (intro that [of k]) (simp_all add: seq_find_def inp)
qed

text \<open>An exact search: everything before the place it stops at is smaller, everything from there on is not.\<close>

lemma find_exact:
  assumes ok: "seqs_ok qs" and inp: "inp \<noteq> []"
  obtains k where "k \<le> length qs" and "seq_find inp ty False qs = Some (if k = 0 then None else Some (k - 1),
      if k < length qs \<and> active ty (qs ! k) \<and> q_input (qs ! k) = inp then Some k else None, False)"
    and "\<And>i. i < k \<Longrightarrow> q_char (qs ! i) \<le> hd inp \<and> (active ty (qs ! i) \<longrightarrow> q_input (qs ! i) < inp)"
    and "\<And>j. k \<le> j \<Longrightarrow> j < length qs \<Longrightarrow> hd inp \<le> q_char (qs ! j) \<and> (active ty (qs ! j) \<longrightarrow> inp \<le> q_input (qs ! j))"
    and "\<And>j. k < j \<Longrightarrow> j < length qs \<Longrightarrow> active ty (qs ! j) \<Longrightarrow> inp < q_input (qs ! j)"
proof -
  obtain k where k: "k \<le> length qs" "\<forall>i < k. verdict ty inp False (qs ! i) = Skip"
    "seq_find inp ty False qs = Some (if k = 0 then None else Some (k - 1),
      if k < length qs \<and> verdict ty inp False (qs ! k) = Match then Some k else None,
      k < length qs \<and> verdict ty inp False (qs ! k) = Stop \<and> False \<and> active ty (qs ! k) \<and> prefix inp (q_input (qs ! k)))"
    "k < length qs \<longrightarrow> verdict ty inp False (qs ! k) \<noteq> Skip"
    by (rule find_keys [OF ok inp, of ty False]) (rule that)
  have after: "hd inp \<le> q_char (qs ! j) \<and> (active ty (qs ! j) \<longrightarrow> inp \<le> q_input (qs ! j)) \<and>
      (k < j \<longrightarrow> active ty (qs ! j) \<longrightarrow> inp < q_input (qs ! j))" if "k \<le> j" "j < length qs" for j
  proof (cases "verdict ty inp False (qs ! k) = Match")
    case True
    note m = match_facts [OF True]
    have "hd inp \<le> q_char (qs ! j)" using seqs_ok_char [OF ok that] m(2) by simp
    moreover have "k < j \<Longrightarrow> active ty (qs ! j) \<Longrightarrow> inp < q_input (qs ! j)"
      using seqs_ok_less [OF ok _ that(2) m(1)] m(4) by simp
    ultimately show ?thesis using m(4) that(1) by (cases "k = j") auto
  next
    case False
    then have "verdict ty inp False (qs ! k) = Stop" using k(4) that by (cases "verdict ty inp False (qs ! k)") auto
    then show ?thesis using stop_facts(1,2) [OF ok inp that] less_imp_le by blast
  qed
  have m: "verdict ty inp False (qs ! k) = Match \<longleftrightarrow> active ty (qs ! k) \<and> q_input (qs ! k) = inp" if "k < length qs"
  proof
    show "verdict ty inp False (qs ! k) = Match \<Longrightarrow> active ty (qs ! k) \<and> q_input (qs ! k) = inp"
      using match_facts by blast
    assume "active ty (qs ! k) \<and> q_input (qs ! k) = inp"
    then show "verdict ty inp False (qs ! k) = Match" using inp by (simp add: verdict_def q_char_hd)
  qed
  show ?thesis
  proof (rule that [OF k(1)])
    show "seq_find inp ty False qs = Some (if k = 0 then None else Some (k - 1),
      if k < length qs \<and> active ty (qs ! k) \<and> q_input (qs ! k) = inp then Some k else None, False)"
      using k(3) m by (auto simp: cong: conj_cong)
    show "q_char (qs ! i) \<le> hd inp \<and> (active ty (qs ! i) \<longrightarrow> q_input (qs ! i) < inp)" if "i < k" for i
      using skip_facts(1,2) [of ty inp False "qs ! i"] k(1,2) that inp seqs_ok_inputs [OF ok, of "qs ! i"] by auto
  qed (use after in auto)
qed

lemma lookup_at:
  assumes ok: "seqs_ok qs" and k: "k < length qs" "active ty (qs ! k)" "q_input (qs ! k) = inp"
  shows "seq_lookup ty inp qs = Some (qs ! k)"
  unfolding seq_lookup_def find_Some_iff
  using k seqs_ok_less [OF ok _ k(1) _ k(2)] by (intro exI [of _ k]) force

subsection \<open>Properties\<close>

text \<open>
  An exact search finds an entry exactly when the list holds one of that type and input.
\<close>

theorem seq_find_exact:
  assumes "seqs_ok qs" "inp \<noteq> []"
  shows "\<exists>l m. seq_find inp ty False qs = Some (l, m, False) \<and>
    (case m of None \<Rightarrow> seq_lookup ty inp qs = None
     | Some j \<Rightarrow> j < length qs \<and> seq_lookup ty inp qs = Some (qs ! j))"
proof -
  obtain k where k: "k \<le> length qs" "seq_find inp ty False qs = Some (if k = 0 then None else Some (k - 1),
      if k < length qs \<and> active ty (qs ! k) \<and> q_input (qs ! k) = inp then Some k else None, False)"
    "\<And>i. i < k \<Longrightarrow> q_char (qs ! i) \<le> hd inp \<and> (active ty (qs ! i) \<longrightarrow> q_input (qs ! i) < inp)"
    "\<And>j. k < j \<Longrightarrow> j < length qs \<Longrightarrow> active ty (qs ! j) \<Longrightarrow> inp < q_input (qs ! j)"
    by (rule find_exact [OF assms, of ty]) (rule that)
  show ?thesis
  proof (cases "k < length qs \<and> active ty (qs ! k) \<and> q_input (qs ! k) = inp")
    case True
    then show ?thesis using k(2) lookup_at [OF assms(1), of k] by simp
  next
    case False
    have "seq_lookup ty inp qs = None"
      unfolding seq_lookup_def find_None_iff
    proof
      assume "\<exists>x. x \<in> set qs \<and> active ty x \<and> q_input x = inp"
      then obtain j where "j < length qs" "active ty (qs ! j)" "q_input (qs ! j) = inp" by (auto simp: in_set_conv_nth)
      then show False using k(3) [of j] k(4) [of j] False by (cases j k rule: linorder_cases) auto
    qed
    then show ?thesis using k(2) unfolding if_not_P [OF False] by auto
  qed
qed

definition user_map :: "bytes \<Rightarrow> bytes \<Rightarrow> seq" where
  "user_map inp out = \<lparr>q_stype = SEQ_COMMAND, q_name = None, q_input = inp, q_output = Some out,
     q_flags = \<lparr>sf_funcmap = False, sf_nooverwrite = False, sf_screen = False, sf_userdef = True\<rparr>\<rparr>"

theorem seq_find_exact_witness:
  "\<exists>l m. seq_find ''ab'' SEQ_COMMAND False [user_map ''a'' ''x'', user_map ''ab'' ''y''] = Some (l, m, False) \<and> m \<noteq> None"
proof -
  let ?qs = "[user_map ''a'' ''x'', user_map ''ab'' ''y'']"
  have "seqs_ok ?qs" "seq_lookup SEQ_COMMAND ''ab'' ?qs \<noteq> None"
    by (simp_all add: seqs_ok_def user_map_def q_char_def active_def seq_lookup_def)
  then show ?thesis using seq_find_exact [of ?qs "''ab''" SEQ_COMMAND] by (auto split: option.splits)
qed

text \<open>The search for the keys typed so far.\<close>

lemma find_typed:
  assumes "seqs_ok qs" "inp \<noteq> []"
  shows "\<exists>l m p. seq_find inp ty True qs = Some (l, m, p) \<and>
    (case m of
       Some j \<Rightarrow> \<not> p \<and> j < length qs \<and> active ty (qs ! j) \<and> prefix (q_input (qs ! j)) inp \<and>
         (\<forall>q \<in> set qs. active ty q \<and> prefix (q_input q) inp \<longrightarrow> length (q_input (qs ! j)) \<le> length (q_input q))
     | None \<Rightarrow> (\<forall>q \<in> set qs. active ty q \<longrightarrow> \<not> prefix (q_input q) inp) \<and>
         (p \<longleftrightarrow> (\<exists>q \<in> set qs. active ty q \<and> prefix inp (q_input q))))"
proof -
  note ok = assms(1) and inp = assms(2)
  obtain k where k: "k \<le> length qs" "\<forall>i < k. verdict ty inp True (qs ! i) = Skip"
    "seq_find inp ty True qs = Some (if k = 0 then None else Some (k - 1),
      if k < length qs \<and> verdict ty inp True (qs ! k) = Match then Some k else None,
      k < length qs \<and> verdict ty inp True (qs ! k) = Stop \<and> True \<and> active ty (qs ! k) \<and> prefix inp (q_input (qs ! k)))"
    "k < length qs \<longrightarrow> verdict ty inp True (qs ! k) \<noteq> Skip"
    by (rule find_keys [OF ok inp, of ty True]) (rule that)
  have skipped: "\<not> prefix (q_input (qs ! i)) inp \<and> \<not> prefix inp (q_input (qs ! i))" if "i < k" "active ty (qs ! i)" for i
    using skip_facts(3,4) [of ty inp True "qs ! i"] k(1,2) that inp seqs_ok_inputs [OF ok, of "qs ! i"] by auto
  show ?thesis
  proof (cases "k < length qs \<and> verdict ty inp True (qs ! k) = Match")
    case True
    note m = match_facts [OF conjunct2 [OF True]]
    have "length (q_input (qs ! k)) \<le> length (q_input (qs ! j))"
      if "j < length qs" "active ty (qs ! j)" "prefix (q_input (qs ! j)) inp" for j
    proof (cases j k rule: linorder_cases)
      case less
      then show ?thesis using skipped that by blast
    next
      case greater
      have "q_input (qs ! k) < q_input (qs ! j)" using seqs_ok_less [OF ok greater that(1) m(1) that(2)] .
      then have "\<not> prefix (q_input (qs ! j)) (q_input (qs ! k))" using prefix_le by fastforce
      then show ?thesis using prefix_same_cases [OF that(3) m(3)] by (auto dest: prefix_length_le)
    qed simp
    then show ?thesis using k(3) True m by (auto simp: in_set_conv_nth)
  next
    case False
    have stop: "verdict ty inp True (qs ! k) = Stop" if "k < length qs"
      using k(4) that False by (cases "verdict ty inp True (qs ! k)") auto
    let ?p = "k < length qs \<and> verdict ty inp True (qs ! k) = Stop \<and> True \<and> active ty (qs ! k) \<and> prefix inp (q_input (qs ! k))"
    have none: "\<not> prefix (q_input (qs ! j)) inp" if "j < length qs" "active ty (qs ! j)" for j
      using skipped that stop_facts(2) [OF ok inp _ that(1) stop] by (cases "j < k") auto
    have "?p" if "j < length qs" "active ty (qs ! j)" "prefix inp (q_input (qs ! j))" for j
    proof -
      have "k \<le> j" using skipped [of j] that(2,3) by (cases "j < k") auto
      then show ?thesis using stop_facts(3) [OF ok inp _ that(1) stop that(2,3)] stop that(1) by auto
    qed
    then have "?p \<longleftrightarrow> (\<exists>q \<in> set qs. active ty q \<and> prefix inp (q_input q))"
      using nth_mem [of k qs] by (metis in_set_conv_nth)
    then show ?thesis using k(3) none unfolding if_not_P [OF False] by (auto simp: in_set_conv_nth)
  qed
qed

text \<open>
  The search for the keys typed so far. If some entry's input is a prefix of the keys, the
  search returns the shortest such entry; if there is none, it reports a partial match exactly
  when more keys could complete an entry.
\<close>

theorem seq_find_keys:
  assumes "seqs_ok qs" "inp \<noteq> []"
  shows "\<exists>l m p. seq_find inp ty True qs = Some (l, m, p) \<and>
    (case m of
       Some j \<Rightarrow> \<not> p \<and> j < length qs \<and> active ty (qs ! j) \<and> prefix (q_input (qs ! j)) inp \<and>
         (\<forall>q \<in> set qs. active ty q \<and> prefix (q_input q) inp \<longrightarrow> length (q_input (qs ! j)) \<le> length (q_input q))
     | None \<Rightarrow> (\<forall>q \<in> set qs. active ty q \<longrightarrow> \<not> prefix (q_input q) inp) \<and>
         (p \<longleftrightarrow> (\<exists>q \<in> set qs. active ty q \<and> prefix inp (q_input q))))"
  by (rule find_typed [OF assms])

theorem seq_find_keys_witness:
  "\<exists>l p. seq_find ''abc'' SEQ_COMMAND True [user_map ''a'' ''x'', user_map ''ab'' ''y''] = Some (l, Some 0, p)"
proof -
  let ?qs = "[user_map ''a'' ''x'', user_map ''ab'' ''y'']"
  have ok: "seqs_ok ?qs" by (simp add: seqs_ok_def user_map_def q_char_def active_def)
  obtain l m p where f: "seq_find ''abc'' SEQ_COMMAND True ?qs = Some (l, m, p)"
    "case m of
       Some j \<Rightarrow> \<not> p \<and> j < length ?qs \<and> active SEQ_COMMAND (?qs ! j) \<and> prefix (q_input (?qs ! j)) ''abc'' \<and>
         (\<forall>q \<in> set ?qs. active SEQ_COMMAND q \<and> prefix (q_input q) ''abc'' \<longrightarrow> length (q_input (?qs ! j)) \<le> length (q_input q))
     | None \<Rightarrow> (\<forall>q \<in> set ?qs. active SEQ_COMMAND q \<longrightarrow> \<not> prefix (q_input q) ''abc'') \<and>
         (p \<longleftrightarrow> (\<exists>q \<in> set ?qs. active SEQ_COMMAND q \<and> prefix ''abc'' (q_input q)))"
    using seq_find_keys [OF ok, of "''abc''" SEQ_COMMAND] by auto
  then have "m = Some 0"
    by (cases m) (auto simp: user_map_def active_def nth_Cons' less_Suc_eq split: if_splits)
  then show ?thesis using f(1) by blast
qed

subsection \<open>The list as a finite map\<close>

lemma lookup_iff:
  assumes "seqs_ok qs"
  shows "seq_lookup ty inp qs = Some q \<longleftrightarrow> q \<in> set qs \<and> active ty q \<and> q_input q = inp"
proof
  show "seq_lookup ty inp qs = Some q \<Longrightarrow> q \<in> set qs \<and> active ty q \<and> q_input q = inp"
    by (auto simp: seq_lookup_def find_Some_iff)
  assume "q \<in> set qs \<and> active ty q \<and> q_input q = inp"
  then obtain k where "k < length qs" "qs ! k = q" "active ty q" "q_input q = inp" by (auto simp: in_set_conv_nth)
  then show "seq_lookup ty inp qs = Some q" using lookup_at [OF assms, of k] by simp
qed

lemma lookup_cong:
  assumes "seqs_ok qs" "seqs_ok qs'" "\<And>q. active ty q \<Longrightarrow> q_input q = inp \<Longrightarrow> q \<in> set qs \<longleftrightarrow> q \<in> set qs'"
  shows "seq_lookup ty inp qs = seq_lookup ty inp qs'"
proof (cases "seq_lookup ty inp qs'")
  case None
  then have "seq_lookup ty inp qs = Some q \<Longrightarrow> False" for q
    using lookup_iff [OF assms(1), of ty inp q] lookup_iff [OF assms(2), of ty inp q] assms(3) [of q] by auto
  then show ?thesis using None by (cases "seq_lookup ty inp qs") auto
next
  case (Some q)
  then show ?thesis
    using lookup_iff [OF assms(1), of ty inp q] lookup_iff [OF assms(2), of ty inp q] assms(3) [of q] by auto
qed

text \<open>Keeping the place, the type and the input of an entry keeps the order.\<close>

lemma seqs_ok_update:
  assumes ok: "seqs_ok qs" and k: "k < length qs"
    and same: "q_input q = q_input (qs ! k)" "q_stype q = q_stype (qs ! k)" "q_flags q = q_flags (qs ! k)"
  shows "seqs_ok (qs[k := q])"
proof -
  have "q_char q = q_char (qs ! k)" "active ty q = active ty (qs ! k)" for ty
    using same by (simp_all add: q_char_def active_def)
  then have n: "q_char (qs[k := q] ! i) = q_char (qs ! i)" "active ty (qs[k := q] ! i) = active ty (qs ! i)"
    "q_input (qs[k := q] ! i) = q_input (qs ! i)" if "i < length qs" for i ty
    using that same(1) by (cases "i = k"; simp)+
  then show ?thesis using ok unfolding seqs_ok_def sorted_wrt_iff_nth_less all_set_conv_all_nth
    by (simp cong: conj_cong)
qed

lemma seqs_ok_delete: "seqs_ok qs \<Longrightarrow> seqs_ok (delete_at k qs)"
proof (cases "k < length qs")
  case True
  assume ok: "seqs_ok qs"
  have qs: "qs = take k qs @ qs ! k # drop (Suc k) qs" using True by (rule id_take_nth_drop)
  then have "sorted_wrt R (take k qs @ qs ! k # drop (Suc k) qs) \<Longrightarrow> sorted_wrt R (delete_at k qs)" for R
    unfolding delete_at_def sorted_wrt_append by simp
  moreover have "set (delete_at k qs) \<subseteq> set qs" by (auto simp: delete_at_def dest: in_set_takeD in_set_dropD)
  ultimately show ?thesis using ok qs unfolding seqs_ok_def by (metis (no_types, lifting) subsetD)
qed (simp add: delete_at_def)

lemma seqs_ok_insert:
  assumes ok: "seqs_ok qs" and k: "k \<le> length qs" and ne: "q_input q \<noteq> []"
    and lo: "\<And>i. i < k \<Longrightarrow> q_char (qs ! i) \<le> q_char q \<and> (active (q_stype q) (qs ! i) \<longrightarrow> q_input (qs ! i) < q_input q)"
    and hi: "\<And>j. k \<le> j \<Longrightarrow> j < length qs \<Longrightarrow> q_char q \<le> q_char (qs ! j) \<and>
      (active (q_stype q) (qs ! j) \<longrightarrow> q_input q < q_input (qs ! j))"
  shows "seqs_ok (insert_at k q qs)"
proof -
  let ?R = "\<lambda>a b. q_char a \<le> q_char b \<and> (\<forall>ty. active ty a \<and> active ty b \<longrightarrow> q_input a < q_input b)"
  have ty: "active ty q \<Longrightarrow> ty = q_stype q" for ty by (simp add: active_def)
  have "\<forall>a \<in> set (take k qs). ?R a q"
    using lo ty k by (auto simp: in_set_conv_nth)
  moreover have "\<forall>b \<in> set (drop k qs). ?R q b"
    using hi ty k by (auto simp: in_set_conv_nth)
  moreover have "sorted_wrt ?R (take k qs @ drop k qs)" using ok by (simp add: seqs_ok_def)
  then have "sorted_wrt ?R (take k qs) \<and> sorted_wrt ?R (drop k qs) \<and>
      (\<forall>a \<in> set (take k qs). \<forall>b \<in> set (drop k qs). ?R a b)" unfolding sorted_wrt_append .
  ultimately have "sorted_wrt ?R (insert_at k q qs)" unfolding insert_at_def sorted_wrt_append by simp
  moreover have "\<forall>x \<in> set (insert_at k q qs). q_input x \<noteq> []"
    using ok ne by (auto simp: seqs_ok_def insert_at_def dest: in_set_takeD in_set_dropD)
  ultimately show ?thesis by (simp add: seqs_ok_def)
qed

lemma link_after_eq: "link_after (if k = 0 then None else Some (k - 1)) q qs = insert_at k q qs"
  by (simp add: link_after_def)

lemma set_insert_at: "k \<le> length qs \<Longrightarrow> set (insert_at k q qs) = insert q (set qs)"
  by (simp add: insert_at_def) (metis Un_insert_right append_take_drop_id set_append)

lemma other_key:
  "\<not> (ty' = ty \<and> i = inp) \<Longrightarrow> active ty' x \<Longrightarrow> q_input x = i \<Longrightarrow> active ty q \<Longrightarrow> q_input q = inp \<Longrightarrow> x \<noteq> q"
  by (auto simp: active_def)

lemma in_set_update: "k < length qs \<Longrightarrow> x \<noteq> q \<Longrightarrow> x \<noteq> qs ! k \<Longrightarrow> x \<in> set (qs[k := q]) \<longleftrightarrow> x \<in> set qs"
  by (metis in_set_conv_nth length_list_update nth_list_update)

text \<open>What setting makes of the entry there was.\<close>

definition non_null :: "bytes option \<Rightarrow> bytes option" where
  "non_null x = (case x of Some l \<Rightarrow> if l = [] then None else Some l | None \<Rightarrow> None)"

definition entered :: "bytes option \<Rightarrow> bytes \<Rightarrow> bytes option \<Rightarrow> seq_t \<Rightarrow> seq_flags \<Rightarrow> seq option \<Rightarrow> seq" where
  "entered name inp output ty flags old =
     (case old of
        Some q \<Rightarrow> if sf_nooverwrite flags then q else q\<lparr>q_output := non_null output\<rparr>
      | None \<Rightarrow> \<lparr>q_stype = ty, q_name = non_null name, q_input = inp, q_output = output, q_flags = flags\<rparr>)"

text \<open>
  C28: \<open>seq_set\<close> is the update of a finite map: afterwards the input of that type stands for the new output (or the old one, if it
  must not be replaced), every other input of every type stands for what it did, and the list
  is still in order.
\<close>

theorem seq_set_map:
  assumes "seqs_ok (seqq g)" "inp \<noteq> []" "\<And>n. mem n" "\<not> sf_funcmap flags"
  shows "\<exists>g'. seq_set mem name inp output ty flags g = Some (False, g') \<and> seqs_ok (seqq g') \<and>
    (\<forall>ty' i. seq_lookup ty' i (seqq g') =
       (if ty' = ty \<and> i = inp then Some (entered name inp output ty flags (seq_lookup ty inp (seqq g)))
        else seq_lookup ty' i (seqq g)))"
proof -
  let ?qs = "seqq g"
  note ok = assms(1)
  obtain k where k: "k \<le> length ?qs" "seq_find inp ty False ?qs = Some (if k = 0 then None else Some (k - 1),
      if k < length ?qs \<and> active ty (?qs ! k) \<and> q_input (?qs ! k) = inp then Some k else None, False)"
    "\<And>i. i < k \<Longrightarrow> q_char (?qs ! i) \<le> hd inp \<and> (active ty (?qs ! i) \<longrightarrow> q_input (?qs ! i) < inp)"
    "\<And>j. k \<le> j \<Longrightarrow> j < length ?qs \<Longrightarrow> hd inp \<le> q_char (?qs ! j) \<and> (active ty (?qs ! j) \<longrightarrow> inp \<le> q_input (?qs ! j))"
    "\<And>j. k < j \<Longrightarrow> j < length ?qs \<Longrightarrow> active ty (?qs ! j) \<Longrightarrow> inp < q_input (?qs ! j)"
    by (rule find_exact [OF ok assms(2), of ty]) (rule that)
  show ?thesis
  proof (cases "k < length ?qs \<and> active ty (?qs ! k) \<and> q_input (?qs ! k) = inp")
    case True
    then have old: "seq_lookup ty inp ?qs = Some (?qs ! k)" using lookup_at [OF ok, of k ty inp] by simp
    let ?q = "entered name inp output ty flags (Some (?qs ! k))"
    let ?qs' = "?qs[k := ?q]"
    have q: "q_input ?q = inp" "q_stype ?q = q_stype (?qs ! k)" "q_flags ?q = q_flags (?qs ! k)" "active ty ?q"
      using True by (simp_all add: entered_def active_def)
    have ok': "seqs_ok ?qs'" using seqs_ok_update [OF ok, of k ?q] q True by simp
    have "seq_lookup ty' i ?qs' = seq_lookup ty' i ?qs" if "\<not> (ty' = ty \<and> i = inp)" for ty' i
    proof (rule lookup_cong [OF ok' ok])
      fix x assume x: "active ty' x" "q_input x = i"
      have "x \<noteq> ?q" by (rule other_key [OF that x q(4,1)])
      moreover have "x \<noteq> ?qs ! k" by (rule other_key [OF that x]) (use True in simp_all)
      ultimately show "x \<in> set ?qs' \<longleftrightarrow> x \<in> set ?qs" using in_set_update True by metis
    qed
    moreover have "seq_lookup ty inp ?qs' = Some ?q"
      using True q(1,4) by (simp add: lookup_iff [OF ok'] set_update_memI)
    moreover have "seq_set mem name inp output ty flags g = Some (False, g\<lparr>seqq := ?qs'\<rparr>)"
      unfolding seq_set_def k(2) if_P [OF True]
      using assms(3) by (cases "output") (simp_all add: entered_def non_null_def Let_def)
    ultimately show ?thesis using ok' old by auto
  next
    case False
    have old: "seq_lookup ty inp ?qs = None"
    proof (rule ccontr)
      assume "seq_lookup ty inp ?qs \<noteq> None"
      then obtain j where "j < length ?qs" "active ty (?qs ! j)" "q_input (?qs ! j) = inp"
        by (auto simp: lookup_iff [OF ok] in_set_conv_nth)
      then show False using k(3) [of j] k(5) [of j] False by (cases j k rule: linorder_cases) auto
    qed
    let ?q = "entered name inp output ty flags None"
    let ?qs' = "insert_at k ?q ?qs"
    have q: "q_input ?q = inp" "active ty ?q" "q_stype ?q = ty" "q_char ?q = hd inp"
      using assms(2,4) by (simp_all add: entered_def active_def q_char_hd)
    have strict: "inp < q_input (?qs ! j)" if "k \<le> j" "j < length ?qs" "active ty (?qs ! j)" for j
      using k(4) [OF that(1,2)] k(5) [OF _ that(2)] False that by (cases "j = k") auto
    have ok': "seqs_ok ?qs'"
      by (rule seqs_ok_insert [OF ok k(1)]) (use q assms(2) k(3,4) strict in auto)
    have "seq_lookup ty' i ?qs' = seq_lookup ty' i ?qs" if "\<not> (ty' = ty \<and> i = inp)" for ty' i
    proof (rule lookup_cong [OF ok' ok])
      fix x assume x: "active ty' x" "q_input x = i"
      have "x \<noteq> ?q" by (rule other_key [OF that x q(2,1)])
      then show "x \<in> set ?qs' \<longleftrightarrow> x \<in> set ?qs" by (simp add: set_insert_at [OF k(1)])
    qed
    moreover have "seq_lookup ty inp ?qs' = Some ?q"
      using q by (simp add: lookup_iff [OF ok'] set_insert_at [OF k(1)])
    moreover have "\<exists>g'. seq_set mem name inp output ty flags g = Some (False, g') \<and> seqq g' = ?qs'"
      using k(2) assms(3) unfolding seq_set_def if_not_P [OF False]
      by (auto simp: entered_def non_null_def link_after_eq Let_def)
    ultimately show ?thesis using ok' old by auto
  qed
qed

theorem seq_set_map_witness:
  "\<exists>g'. seq_set (\<lambda>_. True) None ''ab'' (Some ''z'') SEQ_COMMAND
     \<lparr>sf_funcmap = False, sf_nooverwrite = False, sf_screen = False, sf_userdef = True\<rparr>
     \<lparr>seqq = [user_map ''b'' ''x''], seqb = {}\<rparr> = Some (False, g') \<and>
   seq_lookup SEQ_COMMAND ''b'' (seqq g') = Some (user_map ''b'' ''x'')"
proof -
  have "seqs_ok (seqq \<lparr>seqq = [user_map ''b'' ''x''], seqb = {}\<rparr>)" by (simp add: seqs_ok_def user_map_def)
  moreover have "seq_lookup SEQ_COMMAND ''b'' [user_map ''b'' ''x''] = Some (user_map ''b'' ''x'')"
    by (simp add: seq_lookup_def user_map_def active_def)
  ultimately show ?thesis
    using seq_set_map [of "\<lparr>seqq = [user_map ''b'' ''x''], seqb = {}\<rparr>" "''ab''" "\<lambda>_. True"
      "\<lparr>sf_funcmap = False, sf_nooverwrite = False, sf_screen = False, sf_userdef = True\<rparr>" None "Some ''z''" SEQ_COMMAND]
    by auto
qed

text \<open>
  \<open>seq_delete\<close> removes the entry of that type and input and no other; it fails, changing nothing,
  when there is none.
\<close>

theorem seq_delete_map:
  assumes "seqs_ok (seqq g)" "inp \<noteq> []"
  shows "\<exists>g'. seq_delete inp ty g = Some (seq_lookup ty inp (seqq g) = None, g') \<and> seqs_ok (seqq g') \<and>
    (\<forall>ty' i. seq_lookup ty' i (seqq g') = (if ty' = ty \<and> i = inp then None else seq_lookup ty' i (seqq g)))"
proof -
  let ?qs = "seqq g"
  note ok = assms(1)
  obtain k where k: "k \<le> length ?qs" "seq_find inp ty False ?qs = Some (if k = 0 then None else Some (k - 1),
      if k < length ?qs \<and> active ty (?qs ! k) \<and> q_input (?qs ! k) = inp then Some k else None, False)"
    "\<And>i. i < k \<Longrightarrow> q_char (?qs ! i) \<le> hd inp \<and> (active ty (?qs ! i) \<longrightarrow> q_input (?qs ! i) < inp)"
    "\<And>j. k < j \<Longrightarrow> j < length ?qs \<Longrightarrow> active ty (?qs ! j) \<Longrightarrow> inp < q_input (?qs ! j)"
    by (rule find_exact [OF ok assms(2), of ty]) (rule that)
  have other: "j = k" if "j < length ?qs" "active ty (?qs ! j)" "q_input (?qs ! j) = inp" for j
    using k(3) [of j] k(4) [of j] that by (cases j k rule: linorder_cases) auto
  show ?thesis
  proof (cases "k < length ?qs \<and> active ty (?qs ! k) \<and> q_input (?qs ! k) = inp")
    case True
    have old: "seq_lookup ty inp ?qs = Some (?qs ! k)" using lookup_at [OF ok, of k ty inp] True by simp
    let ?qs' = "delete_at k ?qs"
    have split: "?qs = take k ?qs @ ?qs ! k # drop (Suc k) ?qs" using True by (simp add: id_take_nth_drop)
    have set': "x \<noteq> ?qs ! k \<Longrightarrow> x \<in> set ?qs' \<longleftrightarrow> x \<in> set ?qs" for x
      unfolding delete_at_def by (subst (3) split) auto
    note ok' = seqs_ok_delete [OF ok, of k]
    have "seq_lookup ty' i ?qs' = seq_lookup ty' i ?qs" if "\<not> (ty' = ty \<and> i = inp)" for ty' i
    proof (rule lookup_cong [OF ok' ok])
      fix x assume x: "active ty' x" "q_input x = i"
      have "x \<noteq> ?qs ! k" by (rule other_key [OF that x]) (use True in simp_all)
      then show "x \<in> set ?qs' \<longleftrightarrow> x \<in> set ?qs" by (rule set')
    qed
    moreover have "seq_lookup ty inp ?qs' = None"
    proof (rule ccontr)
      assume "seq_lookup ty inp ?qs' \<noteq> None"
      then obtain j where j: "j < length ?qs'" "active ty (?qs' ! j)" "q_input (?qs' ! j) = inp"
        by (auto simp: lookup_iff [OF ok'] in_set_conv_nth)
      then have "j < length ?qs - 1" using True by simp
      then have "?qs' ! j = (if j < k then ?qs ! j else ?qs ! Suc j)" using True by (simp add: nth_delete_at)
      moreover have "j < length ?qs" "Suc j < length ?qs" using \<open>j < length ?qs - 1\<close> by linarith+
      ultimately show False using other [of j] other [of "Suc j"] j(2,3) by (cases "j < k") simp_all
    qed
    moreover have "seq_delete inp ty g = Some (False, g\<lparr>seqq := ?qs'\<rparr>)"
      unfolding seq_delete_def k(2) if_P [OF True] by (simp add: seq_mdel_def)
    ultimately show ?thesis using ok' old by (intro exI [of _ "g\<lparr>seqq := ?qs'\<rparr>"]) simp
  next
    case False
    have "seq_lookup ty inp ?qs = None"
    proof (rule ccontr)
      assume "seq_lookup ty inp ?qs \<noteq> None"
      then obtain j where "j < length ?qs" "active ty (?qs ! j)" "q_input (?qs ! j) = inp"
        by (auto simp: lookup_iff [OF ok] in_set_conv_nth)
      then show False using other [of j] False by simp
    qed
    then show ?thesis using k(2) ok unfolding seq_delete_def if_not_P [OF False] by auto
  qed
qed

theorem seq_delete_map_witness:
  "\<exists>g'. seq_delete ''b'' SEQ_COMMAND \<lparr>seqq = [user_map ''b'' ''x''], seqb = {}\<rparr> = Some (False, g') \<and>
   seq_lookup SEQ_COMMAND ''b'' (seqq g') = None"
proof -
  have "seqs_ok (seqq \<lparr>seqq = [user_map ''b'' ''x''], seqb = {}\<rparr>)" by (simp add: seqs_ok_def user_map_def)
  moreover have "seq_lookup SEQ_COMMAND ''b'' [user_map ''b'' ''x''] \<noteq> None"
    by (simp add: seq_lookup_def user_map_def active_def)
  ultimately show ?thesis
    using seq_delete_map [of "\<lparr>seqq = [user_map ''b'' ''x''], seqb = {}\<rparr>" "''b''" SEQ_COMMAND] by auto
qed

end
