(* ===== verification/Recno.thy ===== *)
theory Recno
  imports Prelude
begin

section \<open>The record-number access method (db/recno)\<close>

text \<open>
  The editor keeps the file being edited, and its undo log, in databases of numbered
  records. This theory models the access method's entry points \<^verbatim>\<open>__rec_get\<close>,
  \<^verbatim>\<open>__rec_put\<close>, \<^verbatim>\<open>__rec_delete\<close> and \<^verbatim>\<open>__rec_seq\<close>, with lazy input from the
  underlying file (\<^verbatim>\<open>__rec_vpipe\<close>).

  The records on the leaf pages, in order, are the list \<open>r_recs\<close>; \<^verbatim>\<open>bt_nrecs\<close> is its
  length. How pages are searched, split and packed is not modelled, except that
  \<open>r_io\<close> says whether a page can be fetched: where it is false \<^verbatim>\<open>__rec_search\<close> returns
  null and the entry points return \<^verbatim>\<open>RET_ERROR\<close>. Fixed-length records (\<^verbatim>\<open>R_FIXLEN\<close>),
  which the editor never asks for, are left out.
\<close>

datatype ret = RET_ERROR | RET_SUCCESS | RET_SPECIAL

datatype rflag = RF_NONE | R_CURSOR | R_FIRST | R_IAFTER | R_IBEFORE | R_LAST | R_NEXT
  | R_NOOVERWRITE | R_PREV | R_SETCURSOR

record 'a recno =
  r_recs :: "'a list"
  r_input :: bytes
  r_eof :: bool
  r_inmem :: bool
  r_cursor :: "nat option"
  r_modified :: bool
  r_bval :: char
  r_io :: bool

definition max_rec_number :: nat where
  "max_rec_number = 4294967295"

abbreviation nrecs :: "'a recno \<Rightarrow> nat" where
  "nrecs t \<equiv> length (r_recs t)"

text \<open>The type of the function pointer \<^verbatim>\<open>bt_irec\<close>.\<close>

type_synonym 'a irec = "nat \<Rightarrow> 'a recno \<Rightarrow> (ret \<times> 'a recno) option"

text \<open>An in-memory tree has no input function: calling it is a call through a null pointer.\<close>

definition irec_null :: "'a irec" where
  "irec_null lim t = None"

subsection \<open>Operations\<close>

text \<open>
  \<^verbatim>\<open>__rec_iput\<close>: \<open>n\<close> counts from 0. With \<^verbatim>\<open>R_IAFTER\<close> the page index is incremented
  before the insertion; when the record named does not exist that leaves a hole in the page's
  offset array, which is undefined behaviour.
\<close>

definition rec_iput :: "nat \<Rightarrow> 'a \<Rightarrow> rflag \<Rightarrow> 'a recno \<Rightarrow> (ret \<times> 'a recno) option" where
  "rec_iput n d fl t =
     (if \<not> r_io t then Some (RET_ERROR, t)
      else case fl of
        R_IAFTER \<Rightarrow>
          if n < nrecs t then Some (RET_SUCCESS, t\<lparr>r_recs := insert_at (Suc n) d (r_recs t)\<rparr>)
          else None
      | R_IBEFORE \<Rightarrow>
          if n \<le> nrecs t then Some (RET_SUCCESS, t\<lparr>r_recs := insert_at n d (r_recs t)\<rparr>)
          else None
      | _ \<Rightarrow>
          if n < nrecs t then Some (RET_SUCCESS, t\<lparr>r_recs := (r_recs t)[n := d]\<rparr>)
          else if n = nrecs t then Some (RET_SUCCESS, t\<lparr>r_recs := r_recs t @ [d]\<rparr>)
          else None)"

text \<open>
  \<^verbatim>\<open>__rec_vpipe\<close>: read records from the file until \<open>lim\<close> of them are in the tree.
  One record is the text up to the next delimiter; at the end of the file a non-empty rest is
  a record too, after which the loop stops with \<^verbatim>\<open>nrec < lim\<close>.
\<close>

definition next_rec :: "char \<Rightarrow> bytes \<Rightarrow> bytes \<times> bytes option" where
  "next_rec b inp =
     (takeWhile (\<lambda>c. c \<noteq> b) inp,
      case dropWhile (\<lambda>c. c \<noteq> b) inp of [] \<Rightarrow> None | c # rest \<Rightarrow> Some rest)"

function vpipe_loop :: "nat \<Rightarrow> nat \<Rightarrow> bytes recno \<Rightarrow> (ret \<times> bytes recno) option" where
  "vpipe_loop nrec lim t =
     (if nrec < lim then
        (case next_rec (r_bval t) (r_input t) of
           (line, Some rest) \<Rightarrow>
             do {
               (st, t1) \<leftarrow> rec_iput nrec line RF_NONE (t\<lparr>r_input := rest\<rparr>);
               if st \<noteq> RET_SUCCESS then Some (RET_ERROR, t1)
               else vpipe_loop (Suc nrec) lim t1
             }
         | (line, None) \<Rightarrow>
             if line = [] then Some (RET_SPECIAL, t\<lparr>r_input := [], r_eof := True\<rparr>)
             else do {
               (st, t1) \<leftarrow> rec_iput nrec line RF_NONE (t\<lparr>r_input := []\<rparr>);
               if st \<noteq> RET_SUCCESS then Some (RET_ERROR, t1)
               else Some (RET_SPECIAL, t1\<lparr>r_eof := True\<rparr>)
             })
      else Some (RET_SUCCESS, t))"
  by pat_completeness auto
termination
  by (relation "measure (\<lambda>(nrec, lim, t). lim - nrec)") auto

declare vpipe_loop.simps [simp del]

definition rec_vpipe :: "bytes irec" where
  "rec_vpipe lim t = vpipe_loop (nrecs t) lim t"

text \<open>\<^verbatim>\<open>__rec_get\<close>, with no flags.\<close>

definition rec_get :: "'a irec \<Rightarrow> nat \<Rightarrow> 'a recno \<Rightarrow> (ret \<times> 'a option \<times> 'a recno) option" where
  "rec_get irec nrec t =
     (if nrec = 0 then Some (RET_ERROR, None, t)
      else do {
        (st, t1) \<leftarrow>
          (if nrecs t < nrec then
             (if r_eof t \<or> r_inmem t then Some (RET_SPECIAL, t) else irec nrec t)
           else Some (RET_SUCCESS, t));
        if st \<noteq> RET_SUCCESS then Some (st, None, t1)
        else if \<not> r_io t1 then Some (RET_ERROR, None, t1)
        else if nrec - 1 < nrecs t1 then Some (RET_SUCCESS, Some (r_recs t1 ! (nrec - 1)), t1)
        else None
      })"

text \<open>
  \<^verbatim>\<open>__rec_put\<close>: decode the flag into the record number and the flag to insert with, read the
  input up to that record, create empty records for a gap, then store.
\<close>

definition put_target :: "rflag \<Rightarrow> nat \<Rightarrow> 'a recno \<Rightarrow> (ret, nat \<times> rflag) sum" where
  "put_target fl key t =
     (case fl of
        R_CURSOR \<Rightarrow> (case r_cursor t of None \<Rightarrow> Inl RET_ERROR | Some n \<Rightarrow> Inr (n, fl))
      | R_SETCURSOR \<Rightarrow> if key = 0 then Inl RET_ERROR else Inr (key, fl)
      | R_IAFTER \<Rightarrow> if key = 0 then Inr (1, R_IBEFORE) else Inr (key, fl)
      | RF_NONE \<Rightarrow> if key = 0 then Inl RET_ERROR else Inr (key, fl)
      | R_IBEFORE \<Rightarrow> if key = 0 then Inl RET_ERROR else Inr (key, fl)
      | R_NOOVERWRITE \<Rightarrow>
          if key = 0 then Inl RET_ERROR
          else if key \<le> nrecs t then Inl RET_SPECIAL else Inr (key, fl)
      | _ \<Rightarrow> Inl RET_ERROR)"

text \<open>The loop that adds empty records while the record put is beyond the next one: each pass adds one.\<close>

fun fill_gap :: "nat \<Rightarrow> 'a \<Rightarrow> 'a recno \<Rightarrow> (ret \<times> 'a recno) option" where
  "fill_gap 0 gap t = Some (RET_SUCCESS, t)"
| "fill_gap (Suc k) gap t =
     do {
       (st, t1) \<leftarrow> rec_iput (nrecs t) gap RF_NONE t;
       if st \<noteq> RET_SUCCESS then Some (RET_ERROR, t1) else fill_gap k gap t1
     }"

definition rec_put ::
  "'a irec \<Rightarrow> 'a \<Rightarrow> rflag \<Rightarrow> nat \<Rightarrow> 'a \<Rightarrow> 'a recno \<Rightarrow> (ret \<times> 'a recno) option" where
  "rec_put irec gap fl key d t =
     (case put_target fl key t of
        Inl st \<Rightarrow> Some (st, t)
      | Inr (nrec, fl') \<Rightarrow>
          do {
            (st, t1) \<leftarrow>
              (if nrecs t < nrec then
                 do {
                   (st, t1) \<leftarrow> (if r_eof t \<or> r_inmem t then Some (RET_SUCCESS, t) else irec nrec t);
                   if st = RET_ERROR then Some (RET_ERROR, t1) else fill_gap (nrec - (nrecs t1 + 1)) gap t1
                 }
               else Some (RET_SUCCESS, t));
            if st \<noteq> RET_SUCCESS then Some (RET_ERROR, t1)
            else do {
              (st, t2) \<leftarrow> rec_iput (nrec - 1) d fl' t1;
              if st \<noteq> RET_SUCCESS then Some (st, t2)
              else Some (RET_SUCCESS,
                     (if fl' = R_SETCURSOR then t2\<lparr>r_cursor := Some nrec\<rparr> else t2)
                       \<lparr>r_modified := True\<rparr>)
            }
          })"

text \<open>
  \<^verbatim>\<open>__rec_delete\<close> and its helper \<^verbatim>\<open>rec_rdelete\<close>; the deletion does not read the input.
\<close>

definition rec_rdelete :: "nat \<Rightarrow> 'a recno \<Rightarrow> (ret \<times> 'a recno) option" where
  "rec_rdelete n t =
     (if \<not> r_io t then Some (RET_ERROR, t)
      else if n < nrecs t then Some (RET_SUCCESS, t\<lparr>r_recs := delete_at n (r_recs t)\<rparr>)
      else None)"

definition rec_delete :: "rflag \<Rightarrow> nat \<Rightarrow> 'a recno \<Rightarrow> (ret \<times> 'a recno) option" where
  "rec_delete fl key t =
     (case fl of
        RF_NONE \<Rightarrow>
          if key = 0 then Some (RET_ERROR, t)
          else if nrecs t < key then Some (RET_SPECIAL, t)
          else do {
            (st, t1) \<leftarrow> rec_rdelete (key - 1) t;
            Some (st, if st = RET_SUCCESS then t1\<lparr>r_modified := True\<rparr> else t1)
          }
      | R_CURSOR \<Rightarrow>
          (case r_cursor t of
             None \<Rightarrow> Some (RET_ERROR, t)
           | Some cur \<Rightarrow>
               if nrecs t = 0 then Some (RET_SPECIAL, t)
               else if cur = 0 then None
               else do {
                 (st, t1) \<leftarrow> rec_rdelete (cur - 1) t;
                 Some (st, if st = RET_SUCCESS
                           then t1\<lparr>r_cursor := Some (cur - 1), r_modified := True\<rparr> else t1)
               })
      | _ \<Rightarrow> Some (RET_ERROR, t))"

text \<open>\<^verbatim>\<open>__rec_seq\<close> returns the record's number and data and moves the cursor there.\<close>

definition seq_target :: "'a irec \<Rightarrow> rflag \<Rightarrow> nat \<Rightarrow> 'a recno \<Rightarrow> ((ret, nat) sum \<times> 'a recno) option" where
  "seq_target irec fl key t =
     (let last = (do {
            (st, t1) \<leftarrow> (if r_eof t \<or> r_inmem t then Some (RET_SUCCESS, t) else irec max_rec_number t);
            Some (if st = RET_ERROR then Inl RET_ERROR else Inr (nrecs t1), t1)
          })
      in case fl of
        R_CURSOR \<Rightarrow> Some (if key = 0 then Inl RET_ERROR else Inr key, t)
      | R_NEXT \<Rightarrow> Some (Inr (case r_cursor t of Some c \<Rightarrow> c + 1 | None \<Rightarrow> 1), t)
      | R_FIRST \<Rightarrow> Some (Inr 1, t)
      | R_PREV \<Rightarrow>
          (case r_cursor t of
             Some c \<Rightarrow> Some (if c - 1 = 0 then Inl RET_SPECIAL else Inr (c - 1), t)
           | None \<Rightarrow> last)
      | R_LAST \<Rightarrow> last
      | _ \<Rightarrow> Some (Inl RET_ERROR, t))"

definition rec_seq ::
  "'a irec \<Rightarrow> rflag \<Rightarrow> nat \<Rightarrow> 'a recno \<Rightarrow> (ret \<times> (nat \<times> 'a) option \<times> 'a recno) option" where
  "rec_seq irec fl key t =
     do {
       (target, t1) \<leftarrow> seq_target irec fl key t;
       case target of
         Inl st \<Rightarrow> Some (st, None, t1)
       | Inr nrec \<Rightarrow>
           do {
             (st, t2) \<leftarrow>
               (if nrecs t1 = 0 \<or> nrecs t1 < nrec then
                  do {
                    (st, t2) \<leftarrow> (if r_eof t1 \<or> r_inmem t1 then Some (RET_SUCCESS, t1) else irec nrec t1);
                    Some (if st \<noteq> RET_SUCCESS then st
                          else if nrecs t2 = 0 \<or> nrecs t2 < nrec then RET_SPECIAL
                          else RET_SUCCESS, t2)
                  }
                else Some (RET_SUCCESS, t1));
             if st \<noteq> RET_SUCCESS then Some (st, None, t2)
             else if \<not> r_io t2 then Some (RET_ERROR, None, t2)
             else if nrec = 0 then None
             else Some (RET_SUCCESS, Some (nrec, r_recs t2 ! (nrec - 1)),
                        t2\<lparr>r_cursor := Some nrec\<rparr>)
           }
     }"

subsection \<open>What a reader sees: the records read so far and those still in the file\<close>

function split_recs :: "char \<Rightarrow> bytes \<Rightarrow> bytes list" where
  "split_recs b inp =
     (case next_rec b inp of
        (line, Some rest) \<Rightarrow> line # split_recs b rest
      | (line, None) \<Rightarrow> if line = [] then [] else [line])"
  by pat_completeness auto

lemma next_rec_shorter: "next_rec b inp = (line, Some rest) \<Longrightarrow> length rest < length inp"
proof -
  assume "next_rec b inp = (line, Some rest)"
  then obtain c where "dropWhile (\<lambda>c. c \<noteq> b) inp = c # rest"
    by (auto simp: next_rec_def split: list.splits)
  then have "length rest < length (dropWhile (\<lambda>c. c \<noteq> b) inp)" by simp
  also have "\<dots> \<le> length inp" by (rule length_dropWhile_le)
  finally show ?thesis .
qed

termination split_recs
  by (relation "measure (\<lambda>(b, inp). length inp)") (auto dest: next_rec_shorter [OF sym])

declare split_recs.simps [simp del]

definition rec_view :: "bytes recno \<Rightarrow> bytes list" where
  "rec_view t = r_recs t @ split_recs (r_bval t) (r_input t)"

text \<open>
  The tree's invariant: once the end of the file was met there is no input left. The input is
  \<open>terminated\<close> when its last record ends in the delimiter.
\<close>

definition rec_ok :: "bytes recno \<Rightarrow> bool" where
  "rec_ok t \<longleftrightarrow> r_io t \<and> (r_eof t \<or> r_inmem t \<longrightarrow> r_input t = [])"

definition terminated :: "bytes recno \<Rightarrow> bool" where
  "terminated t \<longleftrightarrow> r_input t = [] \<or> last (r_input t) = r_bval t"

lemma split_recs_Nil [simp]: "split_recs b [] = []"
  by (simp add: split_recs.simps [of b "[]"] next_rec_def)

lemma split_recs_rest:
  "next_rec b inp = (line, Some rest) \<Longrightarrow> split_recs b inp = line # split_recs b rest"
  by (simp add: split_recs.simps [of b inp])

lemma next_rec_None: "next_rec b inp = (line, None) \<Longrightarrow> line = inp \<and> b \<notin> set inp"
  by (auto simp: next_rec_def takeWhile_eq_all_conv dropWhile_eq_Nil_conv split: list.splits)

lemma next_rec_Some: "next_rec b inp = (line, Some rest) \<Longrightarrow> inp = line @ b # rest"
proof -
  assume a: "next_rec b inp = (line, Some rest)"
  then obtain c where d: "dropWhile (\<lambda>c. c \<noteq> b) inp = c # rest"
    by (auto simp: next_rec_def split: list.splits)
  have "c = b" using hd_dropWhile [of "\<lambda>c. c \<noteq> b" inp] d by simp
  with a d show ?thesis
    using takeWhile_dropWhile_id [of "\<lambda>c. c \<noteq> b" inp] by (simp add: next_rec_def)
qed

lemma rec_iput_end:
  "r_io t \<Longrightarrow> n = nrecs t \<Longrightarrow>
   rec_iput n d RF_NONE t = Some (RET_SUCCESS, t\<lparr>r_recs := r_recs t @ [d]\<rparr>)"
  by (simp add: rec_iput_def)

text \<open>
  What one run of the input function does: it reads records off the input into the tree until
  there are enough, and never changes what a reader sees. When it stops early the input is
  exhausted; it then holds enough records only if the last one was unterminated.
\<close>

definition vpipe_post :: "nat \<Rightarrow> bytes recno \<Rightarrow> ret \<Rightarrow> bytes recno \<Rightarrow> bool" where
  "vpipe_post lim t st t' \<longleftrightarrow>
     rec_view t' = rec_view t \<and> rec_ok t' \<and> nrecs t \<le> nrecs t' \<and>
     r_bval t' = r_bval t \<and> r_cursor t' = r_cursor t \<and> r_inmem t' = r_inmem t \<and>
     (terminated t \<longrightarrow> terminated t') \<and>
     (if st = RET_SUCCESS then lim \<le> nrecs t' \<and> \<not> r_eof t'
      else st = RET_SPECIAL \<and> r_input t' = [] \<and> r_eof t' \<and> nrecs t' \<le> max lim (nrecs t) \<and>
           nrecs t < lim \<and> (terminated t \<longrightarrow> nrecs t' < lim))"

lemma vpipe_loop_eof:
  assumes "nrec < lim" "nrec = nrecs t" "r_io t" "next_rec (r_bval t) (r_input t) = (line, None)"
  shows "vpipe_loop nrec lim t =
     Some (RET_SPECIAL, t\<lparr>r_input := [], r_recs := r_recs t @ (if line = [] then [] else [line]),
                           r_eof := True\<rparr>)"
  using assms by (subst vpipe_loop.simps) (simp add: rec_iput_end)

lemma vpipe_loop_line:
  assumes "nrec < lim" "nrec = nrecs t" "r_io t" "next_rec (r_bval t) (r_input t) = (line, Some rest)"
  shows "vpipe_loop nrec lim t =
     vpipe_loop (Suc nrec) lim (t\<lparr>r_input := rest, r_recs := r_recs t @ [line]\<rparr>)"
  using assms by (subst vpipe_loop.simps) (simp add: rec_iput_end)

lemma vpipe_loop_spec:
  assumes "rec_ok t" and "\<not> r_eof t" and "\<not> r_inmem t" and "nrec = nrecs t"
  shows "\<exists>st t'. vpipe_loop nrec lim t = Some (st, t') \<and> vpipe_post lim t st t'"
  using assms
proof (induction "lim - nrec" arbitrary: nrec t)
  case 0
  then have "vpipe_loop nrec lim t = Some (RET_SUCCESS, t)"
    by (subst vpipe_loop.simps) simp
  with 0 show ?case by (simp add: vpipe_post_def)
next
  case (Suc k)
  then have lt: "nrec < lim" and io: "r_io t" by (simp_all add: rec_ok_def)
  obtain line ro where nr: "next_rec (r_bval t) (r_input t) = (line, ro)" by fastforce
  show ?case
  proof (cases ro)
    case None
    have li: "line = r_input t" "r_bval t \<notin> set (r_input t)"
      using next_rec_None nr None by blast+
    have "split_recs (r_bval t) (r_input t) = (if line = [] then [] else [line])"
      using nr None by (subst split_recs.simps) simp
    moreover have "terminated t \<longrightarrow> line = []"
      using li by (metis last_in_set terminated_def)
    ultimately show ?thesis
      using vpipe_loop_eof [OF lt Suc.prems(4) io nr [unfolded None]] Suc.prems lt
      by (auto simp: vpipe_post_def rec_view_def rec_ok_def terminated_def)
  next
    case (Some rest)
    let ?t = "t\<lparr>r_input := rest, r_recs := r_recs t @ [line]\<rparr>"
    have inp: "r_input t = line @ r_bval t # rest" using next_rec_Some nr Some by blast
    have "k = lim - Suc nrec" "rec_ok ?t" "\<not> r_eof ?t" "\<not> r_inmem ?t" "Suc nrec = nrecs ?t"
      using Suc.hyps(2) Suc.prems by (auto simp: rec_ok_def)
    from Suc.hyps(1) [OF this] obtain st t'
      where l: "vpipe_loop (Suc nrec) lim ?t = Some (st, t')" and p: "vpipe_post lim ?t st t'"
      by blast
    have v: "rec_view ?t = rec_view t"
      using split_recs_rest nr Some by (simp add: rec_view_def)
    have tm: "terminated ?t \<longleftrightarrow> terminated t"
      by (auto simp: terminated_def inp)
    have "vpipe_post lim t st t'"
      using p lt Suc.prems(4) unfolding vpipe_post_def v tm by (auto split: if_splits)
    with l vpipe_loop_line [OF lt Suc.prems(4) io nr [unfolded Some]] show ?thesis by simp
  qed
qed

lemma rec_vpipe_spec:
  assumes "rec_ok t" and "\<not> r_eof t" and "\<not> r_inmem t"
  obtains st t' where "rec_vpipe lim t = Some (st, t')" and "vpipe_post lim t st t'"
  using vpipe_loop_spec [OF assms refl, of lim] that unfolding rec_vpipe_def by blast

lemma view_at_eof: "rec_ok t \<Longrightarrow> r_eof t \<or> r_inmem t \<Longrightarrow> rec_view t = r_recs t"
  by (auto simp: rec_view_def rec_ok_def)

text \<open>A read of a record the reader can see, or of one beyond the last.\<close>

lemma rec_get_view:
  assumes ok: "rec_ok t" and tm: "terminated t" and n: "0 < n"
  obtains t' where "rec_ok t'" and "terminated t'" and "rec_view t' = rec_view t"
    and "rec_get rec_vpipe n t =
      (if n \<le> length (rec_view t) then Some (RET_SUCCESS, Some (rec_view t ! (n - 1)), t')
       else Some (RET_SPECIAL, None, t'))"
proof (cases "nrecs t < n \<and> \<not> (r_eof t \<or> r_inmem t)")
  case False
  have io: "r_io t" using ok by (simp add: rec_ok_def)
  have "rec_get rec_vpipe n t =
      (if n \<le> length (rec_view t) then Some (RET_SUCCESS, Some (rec_view t ! (n - 1)), t)
       else Some (RET_SPECIAL, None, t))"
  proof (cases "n \<le> nrecs t")
    case True
    then have "n - 1 < nrecs t" using n by simp
    with True n io show ?thesis
      by (simp add: rec_get_def rec_view_def nth_append)
  next
    case f: False
    with False have "rec_view t = r_recs t" using ok view_at_eof by simp
    with f False n show ?thesis by (simp add: rec_get_def)
  qed
  with ok tm that show ?thesis by blast
next
  case True
  then have e: "\<not> r_eof t" "\<not> r_inmem t" and lt: "nrecs t < n" by auto
  obtain st t' where v: "rec_vpipe n t = Some (st, t')" and p: "vpipe_post n t st t'"
    using rec_vpipe_spec [OF ok e] by blast
  have io: "r_io t'" and vw: "rec_view t' = rec_view t" using p by (auto simp: vpipe_post_def rec_ok_def)
  show ?thesis
  proof (cases "st = RET_SUCCESS")
    case True
    then have nle: "n \<le> nrecs t'" using p by (simp add: vpipe_post_def)
    have "nrecs t' \<le> length (rec_view t')" by (simp add: rec_view_def)
    then have len: "n \<le> length (rec_view t)" using nle vw by simp
    have "n - 1 < nrecs t'" using n nle by simp
    then have "rec_view t' ! (n - 1) = r_recs t' ! (n - 1)"
      by (simp add: rec_view_def nth_append)
    then have "rec_view t ! (n - 1) = r_recs t' ! (n - 1)" by (simp add: vw)
    with True \<open>n - 1 < nrecs t'\<close> v io lt e n len p tm that [of t'] show ?thesis
      by (simp add: rec_get_def vpipe_post_def)
  next
    case False
    then have "nrecs t' < n" and s: "st = RET_SPECIAL" and "r_eof t'" and "rec_ok t'"
      using p tm by (auto simp: vpipe_post_def)
    then have "\<not> n \<le> length (rec_view t)" using view_at_eof vw by (metis not_le)
    with s v lt e n p tm that [of t'] show ?thesis
      by (simp add: rec_get_def vpipe_post_def)
  qed
qed

subsection \<open>The interface the editor uses\<close>

text \<open>
  The contract of a record store, over the records it shows: what each call returns and how it
  changes the records. The editor relies on nothing else; lemmas about sequences of calls are
  proved from it once.
\<close>

locale record_store =
  fixes inv :: "'t \<Rightarrow> bool" and view :: "'t \<Rightarrow> 'a list"
    and get :: "nat \<Rightarrow> 't \<Rightarrow> (ret \<times> 'a option \<times> 't) option"
    and put :: "rflag \<Rightarrow> nat \<Rightarrow> 'a \<Rightarrow> 't \<Rightarrow> (ret \<times> 't) option"
    and del :: "nat \<Rightarrow> 't \<Rightarrow> (ret \<times> 't) option"
    and seq_last :: "'t \<Rightarrow> (ret \<times> (nat \<times> 'a) option \<times> 't) option"
  assumes get_ok: "inv t \<Longrightarrow> 0 < n \<Longrightarrow> n \<le> length (view t) \<Longrightarrow>
      get n t = Some (RET_SUCCESS, Some (view t ! (n - 1)), t)"
    and get_out: "inv t \<Longrightarrow> length (view t) < n \<Longrightarrow> get n t = Some (RET_SPECIAL, None, t)"
    and get_zero: "get 0 t = Some (RET_ERROR, None, t)"
    and put_after: "inv t \<Longrightarrow> n \<le> length (view t) \<Longrightarrow>
      \<exists>t'. put R_IAFTER n d t = Some (RET_SUCCESS, t') \<and> inv t' \<and> view t' = insert_at n d (view t)"
    and put_before: "inv t \<Longrightarrow> 0 < n \<Longrightarrow> n \<le> length (view t) + 1 \<Longrightarrow>
      \<exists>t'. put R_IBEFORE n d t = Some (RET_SUCCESS, t') \<and> inv t' \<and> view t' = insert_at (n - 1) d (view t)"
    and put_set: "inv t \<Longrightarrow> 0 < n \<Longrightarrow> n \<le> length (view t) + 1 \<Longrightarrow>
      \<exists>t'. put RF_NONE n d t = Some (RET_SUCCESS, t') \<and> inv t' \<and>
           view t' = (if n \<le> length (view t) then (view t)[n - 1 := d] else view t @ [d])"
    and del_ok: "inv t \<Longrightarrow> 0 < n \<Longrightarrow> n \<le> length (view t) \<Longrightarrow>
      \<exists>t'. del n t = Some (RET_SUCCESS, t') \<and> inv t' \<and> view t' = delete_at (n - 1) (view t)"
    and del_out: "inv t \<Longrightarrow> length (view t) < n \<Longrightarrow> del n t = Some (RET_SPECIAL, t)"
    and last_ok: "inv t \<Longrightarrow> view t \<noteq> [] \<Longrightarrow>
      \<exists>t'. seq_last t = Some (RET_SUCCESS, Some (length (view t), last (view t)), t') \<and>
           inv t' \<and> view t' = view t"
    and last_empty: "inv t \<Longrightarrow> view t = [] \<Longrightarrow> \<exists>t'. seq_last t = Some (RET_SPECIAL, None, t') \<and> inv t' \<and> view t' = []"
begin

lemma append_then_get:
  assumes "inv t" "n \<le> length (view t)"
  obtains t' where "put R_IAFTER n d t = Some (RET_SUCCESS, t')" "inv t'"
    "get (Suc n) t' = Some (RET_SUCCESS, Some d, t')"
proof -
  obtain t' where t': "put R_IAFTER n d t = Some (RET_SUCCESS, t')" "inv t'"
    "view t' = insert_at n d (view t)" using put_after [OF assms] by blast
  have "get (Suc n) t' = Some (RET_SUCCESS, Some (view t' ! (Suc n - 1)), t')"
    by (rule get_ok) (use t' assms in auto)
  then show ?thesis using that t' assms by (simp add: nth_insert_at)
qed

lemma append_then_delete:
  assumes "inv t" "n \<le> length (view t)"
  obtains t' t'' where "put R_IAFTER n d t = Some (RET_SUCCESS, t')" "inv t'"
    "del (Suc n) t' = Some (RET_SUCCESS, t'')" "view t'' = view t"
proof -
  obtain t' where t': "put R_IAFTER n d t = Some (RET_SUCCESS, t')" "inv t'"
    "view t' = insert_at n d (view t)" using put_after [OF assms] by blast
  then obtain t'' where "del (Suc n) t' = Some (RET_SUCCESS, t'')"
    "view t'' = delete_at n (view t')" using del_ok [of t' "Suc n"] assms by auto
  then show ?thesis using that t' assms by (simp add: delete_insert_at)
qed

text \<open>
  A log is written by storing at the current position, which cuts off nothing but makes the
  record at that position the new one; the records before it stay.
\<close>

lemma store_at_keeps_prefix:
  assumes "inv t" "0 < n" "n \<le> length (view t) + 1"
  obtains t' where "put RF_NONE n d t = Some (RET_SUCCESS, t')" "inv t'"
    "take (n - 1) (view t') = take (n - 1) (view t)" "view t' ! (n - 1) = d"
    "take n (view t') = take (n - 1) (view t) @ [d]"
    "length (view t') = max n (length (view t))"
proof -
  obtain t' where t': "put RF_NONE n d t = Some (RET_SUCCESS, t')" "inv t'"
    "view t' = (if n \<le> length (view t) then (view t)[n - 1 := d] else view t @ [d])"
    using put_set [OF assms] by blast
  obtain k where k: "n = Suc k" using assms(2) by (cases n) auto
  show ?thesis
  proof (rule that [OF t'(1,2)])
    show "take (n - 1) (view t') = take (n - 1) (view t)" using t' k assms by auto
    show "view t' ! (n - 1) = d" using t' k assms by (auto simp: nth_append)
    show "take n (view t') = take (n - 1) (view t) @ [d]"
      using t' k assms by (auto simp: take_Suc_update)
    show "length (view t') = max n (length (view t))" using t' k assms by auto
  qed
qed

end

text \<open>
  A tree that was read to the end of its file when it was opened (\<^verbatim>\<open>R_SNAPSHOT\<close>, the
  editor's default), or that has no file (the log), is \<open>settled\<close>: its entry points never call
  the input function, and they meet the contract whatever that function is.
\<close>

definition settled :: "'a recno \<Rightarrow> bool" where
  "settled t \<longleftrightarrow> r_io t \<and> (r_eof t \<or> r_inmem t)"

lemma settled_update [simp]:
  "settled (t\<lparr>r_recs := xs\<rparr>) = settled t" "settled (t\<lparr>r_modified := b\<rparr>) = settled t"
  "settled (t\<lparr>r_cursor := c\<rparr>) = settled t"
  by (simp_all add: settled_def)

lemma settled_io: "settled t \<Longrightarrow> r_io t"
  by (simp add: settled_def)

lemmas rec_defs = rec_get_def rec_put_def put_target_def rec_iput_def rec_delete_def
  rec_rdelete_def rec_seq_def seq_target_def

interpretation tree: record_store settled r_recs "rec_get irec" "rec_put irec gap"
  "rec_delete RF_NONE" "rec_seq irec R_LAST 0" for irec gap
proof
  fix t :: "'a recno" and n :: nat and d :: 'a
  show "rec_get irec 0 t = Some (RET_ERROR, None, t)" by (simp add: rec_get_def)
  assume s: "settled t"
  then have io: "r_io t" and e: "r_eof t \<or> r_inmem t" by (auto simp: settled_def)
  show "length (r_recs t) < n \<Longrightarrow> rec_get irec n t = Some (RET_SPECIAL, None, t)"
    using e by (simp add: rec_get_def)
  show "length (r_recs t) < n \<Longrightarrow> rec_delete RF_NONE n t = Some (RET_SPECIAL, t)"
    by (simp add: rec_delete_def)
  show "n \<le> length (r_recs t) \<Longrightarrow>
    \<exists>t'. rec_put irec gap R_IAFTER n d t = Some (RET_SUCCESS, t') \<and> settled t' \<and>
         r_recs t' = insert_at n d (r_recs t)"
    using io s e by (cases n) (auto simp: rec_defs)
  assume n: "0 < n"
  show "n \<le> length (r_recs t) \<Longrightarrow> rec_get irec n t = Some (RET_SUCCESS, Some (r_recs t ! (n - 1)), t)"
    using io n by (auto simp: rec_get_def)
  show "n \<le> length (r_recs t) \<Longrightarrow>
    \<exists>t'. rec_delete RF_NONE n t = Some (RET_SUCCESS, t') \<and> settled t' \<and>
         r_recs t' = delete_at (n - 1) (r_recs t)"
    using io n s by (auto simp: rec_defs)
  assume le: "n \<le> length (r_recs t) + 1"
  then have "n = Suc (nrecs t) \<or> n \<le> nrecs t" by auto
  then show "\<exists>t'. rec_put irec gap R_IBEFORE n d t = Some (RET_SUCCESS, t') \<and> settled t' \<and>
         r_recs t' = insert_at (n - 1) d (r_recs t)"
    and "\<exists>t'. rec_put irec gap RF_NONE n d t = Some (RET_SUCCESS, t') \<and> settled t' \<and>
         r_recs t' = (if n \<le> length (r_recs t) then (r_recs t)[n - 1 := d] else r_recs t @ [d])"
    using io n e s by (auto simp: rec_defs)
next
  fix t :: "'a recno"
  assume s: "settled t"
  then have io: "r_io t" and e: "r_eof t \<or> r_inmem t" by (auto simp: settled_def)
  show "r_recs t \<noteq> [] \<Longrightarrow> \<exists>t'. rec_seq irec R_LAST 0 t =
      Some (RET_SUCCESS, Some (length (r_recs t), last (r_recs t)), t') \<and>
      settled t' \<and> r_recs t' = r_recs t"
    using io e s by (auto simp: rec_defs last_conv_nth)
  show "r_recs t = [] \<Longrightarrow> \<exists>t'. rec_seq irec R_LAST 0 t = Some (RET_SPECIAL, None, t') \<and>
      settled t' \<and> r_recs t' = []"
    using io e s by (auto simp: rec_defs)
qed

subsection \<open>What the application sees\<close>

text \<open>
  C16: reading a record is independent of how much of the file has been read so far. Whatever
  part of a newline-terminated file is in the tree, a get of record \<open>n\<close> answers with the \<open>n\<close>th record of the file, or
  that there is none, and leaves the records as they are.
\<close>

theorem lazy_read_agrees:
  assumes "rec_ok t" "terminated t" "0 < n"
  shows "\<exists>t'. rec_view t' = rec_view t \<and> rec_get rec_vpipe n t =
    (if n \<le> length (rec_view t) then Some (RET_SUCCESS, Some (rec_view t ! (n - 1)), t')
     else Some (RET_SPECIAL, None, t'))"
  using rec_get_view [OF assms] by metis

theorem lazy_read_agrees_witness:
  "\<exists>t'. rec_get rec_vpipe 2 \<lparr>r_recs = [''a''], r_input = [CHR ''b'', CHR 0x0A], r_eof = False, r_inmem = False,
     r_cursor = None, r_modified = False, r_bval = CHR 0x0A, r_io = True\<rparr> = Some (RET_SUCCESS, Some ''b'', t')"
proof -
  let ?t = "\<lparr>r_recs = [''a''], r_input = [CHR ''b'', CHR 0x0A], r_eof = False, r_inmem = False,
     r_cursor = None, r_modified = False, r_bval = CHR 0x0A, r_io = True\<rparr>"
  have n: "next_rec (CHR 0x0A) [CHR ''b'', CHR 0x0A] = (''b'', Some [])" by (simp add: next_rec_def)
  have v: "rec_view ?t = [''a'', ''b'']" unfolding rec_view_def using split_recs_rest [OF n] by simp
  have "rec_ok ?t" "terminated ?t" by (simp_all add: rec_ok_def terminated_def)
  then show ?thesis using lazy_read_agrees [of ?t 2] unfolding v by auto
qed

text \<open>
  A last record without a newline is missed the first time. The first get that has to read it from the
  file puts it in the tree and answers that it does not exist; the same get then finds it.
\<close>

theorem unterminated_record_missed:
  assumes "r_io t" "\<not> r_eof t" "\<not> r_inmem t" "r_input t \<noteq> []" "r_bval t \<notin> set (r_input t)"
  shows "\<exists>t'. rec_get rec_vpipe (nrecs t + 1) t = Some (RET_SPECIAL, None, t') \<and>
    rec_get rec_vpipe (nrecs t + 1) t' = Some (RET_SUCCESS, Some (r_input t), t')"
proof -
  have "next_rec (r_bval t) (r_input t) = (r_input t, None)"
  proof -
    have "dropWhile (\<lambda>c. c \<noteq> r_bval t) (r_input t) = []" using assms(5) by auto
    moreover have "takeWhile (\<lambda>c. c \<noteq> r_bval t) (r_input t) = r_input t"
      using assms(5) by (auto simp: takeWhile_eq_all_conv)
    ultimately show ?thesis by (simp only: next_rec_def list.case)
  qed
  then have "vpipe_loop (nrecs t) (nrecs t + 1) t =
      Some (RET_SPECIAL, t\<lparr>r_input := [], r_recs := r_recs t @ [r_input t], r_eof := True\<rparr>)"
    using vpipe_loop_eof [of "nrecs t" "nrecs t + 1" t "r_input t"] assms(1,4) by simp
  then show ?thesis using assms(1-3) by (simp add: rec_get_def rec_vpipe_def)
qed

theorem unterminated_record_missed_witness:
  "\<exists>t'. rec_get rec_vpipe 1 \<lparr>r_recs = [], r_input = ''ab'', r_eof = False, r_inmem = False,
     r_cursor = None, r_modified = False, r_bval = CHR 0x0A, r_io = True\<rparr> = Some (RET_SPECIAL, None, t')"
  using unterminated_record_missed [of "\<lparr>r_recs = [], r_input = ''ab'', r_eof = False, r_inmem = False,
     r_cursor = None, r_modified = False, r_bval = CHR 0x0A, r_io = True\<rparr>"] by auto

end
