(* ===== verification/State.thy ===== *)
theory State
  imports Recno
begin

section \<open>The editor's state\<close>

text \<open>
  One record, \<open>ed\<close>, holds what the modelled code reads and writes: the file structure
  (\<^verbatim>\<open>EXF\<close>, common/exf.h), the current screen (\<^verbatim>\<open>SCR\<close>, common/screen.h, with the part of
  its vi private area the code touches) and the global area (\<^verbatim>\<open>GS\<close>, common/gs.h). A flag bit
  is a boolean field named after it.

  What the operating system and the allocator answer is part of the state too: \<open>mem_ok n\<close> says
  whether a request for \<open>n\<close> bytes can be met, \<open>log_opens\<close> whether \<^verbatim>\<open>dbopen\<close> can create the
  log, and \<open>r_io\<close> of a database whether its pages can be fetched. The messages shown to
  the user are not modelled.
\<close>

subsection \<open>Marks, text, operations\<close>

record mark =
  m_lno :: nat
  m_cno :: nat

record lmark =
  lm_lno :: nat
  lm_cno :: nat
  lm_name :: char
  lm_deleted :: bool
  lm_userset :: bool

datatype lnop = LINE_APPEND | LINE_DELETE | LINE_INSERT | LINE_RESET

datatype dir = NOTSET | FORWARD | BACKWARD

text \<open>A \<^verbatim>\<open>TEXT\<close>: the bytes of its line buffer up to its length, and the line it stands for.\<close>

record textbuf =
  t_lb :: bytes
  t_lno :: nat

subsection \<open>Log records\<close>

text \<open>
  A log record is a type byte followed by a \<^verbatim>\<open>MARK\<close>, by a line number and the bytes of a line,
  or by an \<^verbatim>\<open>LMARK\<close> (common/log.c, common/log.h).
\<close>

datatype log_rec =
    LOG_NOTYPE
  | LOG_CURSOR_INIT mark
  | LOG_CURSOR_END mark
  | LOG_LINE_APPEND nat bytes
  | LOG_LINE_DELETE nat bytes
  | LOG_LINE_INSERT nat bytes
  | LOG_LINE_RESET_F nat bytes
  | LOG_LINE_RESET_B nat bytes
  | LOG_MARK lmark

text \<open>The \<^verbatim>\<open>action\<close> argument of \<^verbatim>\<open>log_line\<close>.\<close>

datatype action = ACT_APPEND | ACT_DELETE | ACT_INSERT | ACT_RESET_F | ACT_RESET_B

fun line_rec :: "action \<Rightarrow> nat \<Rightarrow> bytes \<Rightarrow> log_rec" where
  "line_rec ACT_APPEND n l = LOG_LINE_APPEND n l"
| "line_rec ACT_DELETE n l = LOG_LINE_DELETE n l"
| "line_rec ACT_INSERT n l = LOG_LINE_INSERT n l"
| "line_rec ACT_RESET_F n l = LOG_LINE_RESET_F n l"
| "line_rec ACT_RESET_B n l = LOG_LINE_RESET_B n l"

subsection \<open>Screens\<close>

text \<open>
  The screen map is the list of the line numbers of its entries, from \<^verbatim>\<open>HMAP\<close> to
  \<^verbatim>\<open>TMAP\<close>. \<open>sp_paint op lno map\<close> stands for the routines that redraw a changed line
  (\<^verbatim>\<open>vs_sm_delete\<close>, \<^verbatim>\<open>vs_sm_insert\<close>, \<^verbatim>\<open>vs_sm_reset\<close>): whether they fail, and the map they
  leave.
\<close>

record scr =
  sp_lno :: nat
  sp_cno :: nat
  sp_ex :: bool
  sp_tinput :: bool
  sp_tinput_info :: bool
  sp_exwrote :: bool
  sp_tiq :: "textbuf list"
  sp_rptlchange :: nat
  sp_added :: nat
  sp_changed :: nat
  sp_deleted :: nat
  sp_yanked :: nat
  sp_joined :: nat
  sp_moved :: nat
  sp_shift :: nat
  sp_ccnt :: nat
  sp_map :: "nat list"
  sp_totalcount :: nat
  sp_n_renumber :: bool
  sp_n_refresh :: bool
  sp_n_ex_redraw :: bool
  sp_cur_invalid :: bool
  sp_ss_lno :: nat
  sp_u_ccnt :: nat
  sp_paint :: "lnop \<Rightarrow> nat \<Rightarrow> nat list \<Rightarrow> bool \<times> nat list"

subsection \<open>Cut buffers and pending global commands\<close>

record cb =
  cb_name :: char
  cb_textq :: "bytes list"
  cb_len :: nat
  cb_lmode :: bool

text \<open>
  Where the default-buffer pointer \<^verbatim>\<open>dcbp\<close> points: nowhere, at the unnamed store, at a named
  buffer, or at a buffer that was freed.
\<close>

datatype cbptr = CB_NULL | CB_STORE | CB_NAMED char | CB_FREED

record excmd =
  ec_at :: bool
  ec_global :: bool
  ec_v :: bool
  ec_rq :: "(nat \<times> nat) list"
  ec_range_lno :: nat

subsection \<open>The editor\<close>

record ed =
  has_file :: bool
  db :: "bytes recno"
  c_lp :: bytes
  c_lno :: nat
  c_nlines :: nat
  c_buf_len :: nat
  elog :: "log_rec recno"
  l_len :: nat
  l_high :: nat
  l_cur :: nat
  l_cursor :: mark
  lundo :: dir
  marks :: "lmark list"
  f_firstmodify :: bool
  f_modified :: bool
  f_nolog :: bool
  f_undo :: bool
  f_rcv_sync :: bool
  f_rcv_on :: bool
  rcv_mpath :: bool
  rcv_fails :: bool
  sync_fails :: bool
  cur :: scr
  others :: "scr list"
  cutq :: "cb list"
  dcb_store :: cb
  dcbp :: cbptr
  tmp_inuse :: bool
  tmp_blen :: nat
  ecq :: "excmd list"
  interrupted :: "nat \<Rightarrow> bool"
  mem_ok :: "nat \<Rightarrow> bool"
  log_opens :: bool

text \<open>Updating a field of the current screen.\<close>

definition upd_cur :: "(scr \<Rightarrow> scr) \<Rightarrow> ed \<Rightarrow> ed" where
  "upd_cur f s = s\<lparr>cur := f (cur s)\<rparr>"

lemma upd_cur_simps [simp]:
  "has_file (upd_cur f s) = has_file s" "db (upd_cur f s) = db s" "c_lp (upd_cur f s) = c_lp s"
  "c_lno (upd_cur f s) = c_lno s" "c_nlines (upd_cur f s) = c_nlines s"
  "c_buf_len (upd_cur f s) = c_buf_len s" "elog (upd_cur f s) = elog s" "l_len (upd_cur f s) = l_len s"
  "l_high (upd_cur f s) = l_high s" "l_cur (upd_cur f s) = l_cur s" "l_cursor (upd_cur f s) = l_cursor s"
  "lundo (upd_cur f s) = lundo s" "marks (upd_cur f s) = marks s"
  "f_firstmodify (upd_cur f s) = f_firstmodify s" "f_modified (upd_cur f s) = f_modified s"
  "f_nolog (upd_cur f s) = f_nolog s" "f_undo (upd_cur f s) = f_undo s"
  "f_rcv_sync (upd_cur f s) = f_rcv_sync s" "f_rcv_on (upd_cur f s) = f_rcv_on s"
  "rcv_mpath (upd_cur f s) = rcv_mpath s" "sync_fails (upd_cur f s) = sync_fails s"
  "rcv_fails (upd_cur f s) = rcv_fails s" "cur (upd_cur f s) = f (cur s)" "others (upd_cur f s) = others s"
  "cutq (upd_cur f s) = cutq s" "dcb_store (upd_cur f s) = dcb_store s" "dcbp (upd_cur f s) = dcbp s"
  "tmp_inuse (upd_cur f s) = tmp_inuse s" "tmp_blen (upd_cur f s) = tmp_blen s" "ecq (upd_cur f s) = ecq s"
  "interrupted (upd_cur f s) = interrupted s" "mem_ok (upd_cur f s) = mem_ok s"
  "log_opens (upd_cur f s) = log_opens s"
  by (simp_all add: upd_cur_def)

subsection \<open>Growing a buffer\<close>

text \<open>
  \<^verbatim>\<open>binc\<close> (common/util.c): the new sz of a buffer of \<open>sz\<close> bytes that must hold \<open>need\<close>, or
  nothing when the allocation fails; and the \<^verbatim>\<open>BINC_RET\<close> macro around it.
\<close>

definition binc :: "(nat \<Rightarrow> bool) \<Rightarrow> nat \<Rightarrow> nat \<Rightarrow> nat option" where
  "binc mem sz need =
     (if need \<noteq> 0 \<and> need \<le> sz then Some sz
      else let csize = sz + max need 256 in if mem csize then Some csize else None)"

definition binc_ret :: "(nat \<Rightarrow> bool) \<Rightarrow> nat \<Rightarrow> nat \<Rightarrow> nat option" where
  "binc_ret mem sz need = (if sz < need then binc mem sz need else Some sz)"

lemma binc_ret_enough: "binc_ret mem sz need = Some n \<Longrightarrow> need \<le> n"
  by (auto simp: binc_ret_def binc_def Let_def split: if_splits)

lemma binc_ret_total: "(\<And>n. mem n) \<Longrightarrow> \<exists>n. binc_ret mem sz need = Some n"
  by (auto simp: binc_ret_def binc_def Let_def)

end
