(* ===== verification/Keys.thy ===== *)
theory Keys
  imports Seq State
begin

section \<open>The key queue (common/key.c)\<close>

text \<open>
  Every key vi reads comes from one queue of events: the terminal appends to its end, maps and other functions push onto its
  front. The queue is a window of an array. \<^verbatim>\<open>v_event_get\<close> takes the next event, expanding maps on the way.

  The lemmas: what the operations do to the queue the array stands for, that \<^verbatim>\<open>v_event_get\<close> is the
  expansion of maps on that queue, and a case in which it is not.
\<close>

subsection \<open>Types (common/key.h, common/gs.h)\<close>

datatype e_event_t = E_NOTUSED | E_CHARACTER | E_EOF | E_ERR | E_INTERRUPT | E_QUIT | E_REPAINT | E_SIGHUP | E_SIGTERM
  | E_STRING | E_TIMEOUT | E_WRESIZE | E_WRITE

datatype e_key_t = K_NOTUSED | K_BACKSLASH | K_CARAT | K_CNTRLD | K_CNTRLR | K_CNTRLT | K_CNTRLZ | K_COLON | K_CR | K_ESCAPE
  | K_FORMFEED | K_HEXCHAR | K_NL | K_RIGHTBRACE | K_RIGHTPAREN | K_TAB | K_VERASE | K_VKILL | K_VLNEXT | K_VWERASE | K_ZERO

record ch_flags =
  ch_abbreviated :: bool
  ch_mapped :: bool
  ch_nomap :: bool
  ch_quoted :: bool

text \<open>
  The members of the union are separate fields: the character is looked at in events of every type. The fields for a
  screen region are not modelled.
\<close>

record event =
  e_event :: e_event_t
  e_c :: char
  e_value :: e_key_t
  e_ch :: ch_flags
  e_csp :: bytes

record ec_flags =
  ec_interrupt :: bool
  ec_mapcommand :: bool
  ec_mapinput :: bool
  ec_mapnodigit :: bool
  ec_quoted :: bool
  ec_raw :: bool
  ec_timeout :: bool

definition EC_NONE :: ec_flags where
  "EC_NONE = \<lparr>ec_interrupt = False, ec_mapcommand = False, ec_mapinput = False, ec_mapnodigit = False, ec_quoted = False,
     ec_raw = False, ec_timeout = False\<rparr>"

definition EC_INTERRUPT :: ec_flags where "EC_INTERRUPT = EC_NONE\<lparr>ec_interrupt := True\<rparr>"

definition EC_MAPCOMMAND :: ec_flags where "EC_MAPCOMMAND = EC_NONE\<lparr>ec_mapcommand := True\<rparr>"

definition CH_NONE :: ch_flags where
  "CH_NONE = \<lparr>ch_abbreviated = False, ch_mapped = False, ch_nomap = False, ch_quoted = False\<rparr>"

definition CH_MAPPED :: ch_flags where "CH_MAPPED = CH_NONE\<lparr>ch_mapped := True\<rparr>"

text \<open>
  The part of the global area that concerns keys: the array, the window, the maps, the options and the special keys. Parameters
  are the terminal (\<^verbatim>\<open>scr_event\<close>: whether its \<open>n\<close>-th call fails, and the event it gives, for the flags it
  is called with and a timeout), whether reading from script windows fails, the allocator, and what fresh memory holds.
\<close>

record gs =
  i_event :: "event list"
  i_next :: nat
  i_cnt :: nat
  g_seqs :: seqs
  g_interrupted :: bool
  o_remap :: bool
  o_timeout :: bool
  o_escapetime :: nat
  o_keytime :: nat
  special_key :: "char \<Rightarrow> e_key_t"
  g_asked :: nat
  scr_event :: "nat \<Rightarrow> ec_flags \<Rightarrow> nat \<Rightarrow> bool \<times> event"
  g_script_fails :: bool
  g_mem :: "nat \<Rightarrow> bool"
  g_junk :: event

definition sizeof_event :: nat where "sizeof_event = 56"

definition MAX_FAST_KEY :: nat where "MAX_FAST_KEY = 254"

text \<open>
  \<^verbatim>\<open>KEY_VAL\<close>: beyond the table there is one character, whose code is over any key value, which is what
  it is compared with.
\<close>

definition KEY_VAL :: "gs \<Rightarrow> char \<Rightarrow> e_key_t" where
  "KEY_VAL g c = (if (of_char c :: nat) \<le> MAX_FAST_KEY then special_key g c else K_NOTUSED)"

definition key_event :: "gs \<Rightarrow> ch_flags \<Rightarrow> char \<Rightarrow> event" where
  "key_event g fl c = \<lparr>e_event = E_CHARACTER, e_c = c, e_value = KEY_VAL g c, e_ch = fl, e_csp = []\<rparr>"

subsection \<open>The queue\<close>

text \<open>
  \<^verbatim>\<open>v_event_grow\<close>: whether it fails; old events stay in place. If memory runs out \<^verbatim>\<open>REALLOC\<close>
  frees the array, which the global area goes on pointing to: the model stops there.
\<close>

definition v_event_grow :: "nat \<Rightarrow> gs \<Rightarrow> (bool \<times> gs) option" where
  "v_event_grow add g =
     (let n = length (i_event g) in
      case binc_ret (g_mem g) (n * sizeof_event) ((n + add) * sizeof_event) of
        None \<Rightarrow> if i_event g = [] then Some (True, g) else None
      | Some olen \<Rightarrow> Some (False, g\<lparr>i_event := i_event g @ replicate (olen div sizeof_event - n) (g_junk g)\<rparr>))"

definition TERM_PUSH_SHIFT :: nat where "TERM_PUSH_SHIFT = 30"

text \<open>Writing events from a position of the array on; beyond its end there is nothing to write to.\<close>

definition put_at :: "nat \<Rightarrow> event list \<Rightarrow> event list \<Rightarrow> event list option" where
  "put_at n es arr = (if n + length es \<le> length arr then Some (take n arr @ es @ drop (n + length es) arr) else None)"

text \<open>\<^verbatim>\<open>v_event_push\<close>; the callers make the events of a string with \<open>key_event\<close>.\<close>

definition v_event_push :: "event list \<Rightarrow> gs \<Rightarrow> (bool \<times> gs) option" where
  "v_event_push es g =
     (let n = length es;
          copy = (\<lambda>g. do { arr \<leftarrow> put_at (i_next g) es (i_event g); Some (False, g\<lparr>i_cnt := i_cnt g + n, i_event := arr\<rparr>) })
      in if n \<le> i_next g \<or> i_event g \<noteq> [] \<and> i_cnt g = 0 \<and> n \<le> length (i_event g)
         then copy (if i_cnt g \<noteq> 0 then g\<lparr>i_next := i_next g - n\<rparr> else g)
         else
           let total = i_cnt g + i_next g + n + TERM_PUSH_SHIFT
           in do {
             (e, g1) \<leftarrow> (if length (i_event g) \<le> total then v_event_grow (max total 64) g else Some (False, g));
             if e then Some (True, g1)
             else do {
               arr \<leftarrow> (if i_cnt g1 \<noteq> 0
                      then put_at (TERM_PUSH_SHIFT + n) (take (i_cnt g1) (drop (i_next g1) (i_event g1))) (i_event g1)
                      else Some (i_event g1));
               copy (g1\<lparr>i_event := arr, i_next := TERM_PUSH_SHIFT\<rparr>)
             }
           })"

definition string_events :: "gs \<Rightarrow> event \<Rightarrow> event list" where
  "string_events g ev = (if e_event ev = E_STRING then map (\<lambda>c. (key_event g CH_NONE c)) (e_csp ev) else [ev])"

text \<open>\<^verbatim>\<open>v_event_append\<close>: that the array could not grow is noticed only if there was none.\<close>

definition v_event_append :: "event \<Rightarrow> gs \<Rightarrow> (bool \<times> gs) option" where
  "v_event_append ev g =
     (let es = string_events g ev;
          n = length es
      in do {
        (_, g1) \<leftarrow> (if i_event g = [] \<or> length (i_event g) - (i_next g + i_cnt g) < n
                   then v_event_grow (max n 64) g else Some (False, g));
        if i_event g1 = [] \<and> i_next g1 + i_cnt g1 = 0 then Some (True, g1\<lparr>i_cnt := i_cnt g1 + n\<rparr>)
        else do {
          arr \<leftarrow> put_at (i_next g1 + i_cnt g1) es (i_event g1);
          Some (False, g1\<lparr>i_cnt := i_cnt g1 + n, i_event := arr\<rparr>)
        }
      })"

text \<open>\<^verbatim>\<open>QREM\<close>, in \<^verbatim>\<open>size_t\<close>.\<close>

definition QREM :: "nat \<Rightarrow> gs \<Rightarrow> gs" where
  "QREM n g =
     (let cnt = (if n \<le> i_cnt g then i_cnt g - n else i_cnt g + (SIZE_MAX + 1) - n)
      in g\<lparr>i_cnt := cnt, i_next := if cnt = 0 then 0 else i_next g + n\<rparr>)"

definition MAPPED_KEYS_WAITING :: "gs \<Rightarrow> bool" where
  "MAPPED_KEYS_WAITING g \<longleftrightarrow> i_cnt g \<noteq> 0 \<and> ch_mapped (e_ch (i_event g ! i_next g))"

text \<open>\<^verbatim>\<open>v_event_flush\<close> of mapped keys: whether any were.\<close>

fun flush_loop :: "nat \<Rightarrow> gs \<Rightarrow> bool \<times> gs" where
  "flush_loop 0 g = (False, g)"
| "flush_loop (Suc n) g = (if MAPPED_KEYS_WAITING g then (True, snd (flush_loop n (QREM 1 g))) else (False, g))"

definition v_event_flush :: "gs \<Rightarrow> bool \<times> gs" where
  "v_event_flush g = flush_loop (i_cnt g) g"

subsection \<open>Getting an event\<close>

text \<open>
  The labels of \<^verbatim>\<open>v_event_get\<close>, with the local variables that are live there: the timeout, whether it has passed, and how many
  maps have been expanded.
\<close>

datatype get_at = Retry nat | Loop nat nat | Newmap nat bool nat

type_synonym got = "bool \<times> event option \<times> gs"

definition ask :: "ec_flags \<Rightarrow> nat \<Rightarrow> gs \<Rightarrow> bool \<times> event \<times> gs" where
  "ask fl timeout g = (case scr_event g (g_asked g) fl timeout of (e, ev) \<Rightarrow> (e, ev, g\<lparr>g_asked := g_asked g + 1\<rparr>))"

text \<open>From the label \<^verbatim>\<open>loop\<close>. (Syncing the files on a fatal event is not modelled.)\<close>

definition get_read :: "ec_flags \<Rightarrow> nat \<Rightarrow> nat \<Rightarrow> gs \<Rightarrow> (get_at \<times> gs + got) option" where
  "get_read fl timeout remap_cnt g =
     (let (e, ev, g1) = ask (EC_NONE\<lparr>ec_interrupt := ec_interrupt fl, ec_quoted := ec_quoted fl, ec_raw := ec_raw fl\<rparr>) timeout g;
          go = (\<lambda>ist g. if ec_interrupt fl \<or> ec_timeout fl then Some (Inr (False, Some ev, g))
                        else Some (Inl (Newmap timeout ist remap_cnt, g)));
          app = (\<lambda>g. do { (e, g2) \<leftarrow> v_event_append ev g; if e then Some (Inr (True, Some ev, g2)) else go False g2 })
      in if e then Some (Inr (True, None, g1))
         else if e_event ev \<in> {E_ERR, E_SIGHUP, E_SIGTERM} then Some (Inr (True, Some ev, g1))
         else if e_event ev = E_TIMEOUT then go True g1
         else if e_event ev = E_INTERRUPT then
           (if ec_interrupt fl then Some (Inr (False, Some ev, g1\<lparr>g_interrupted := True\<rparr>))
            else app (g1\<lparr>g_interrupted := True\<rparr>))
         else app g1)"

definition CH_NOT_DIGIT :: char where "CH_NOT_DIGIT = CHR ''a''"

definition not_digit :: "gs \<Rightarrow> got" where
  "not_digit g = (False, Some \<lparr>e_event = E_CHARACTER, e_c = CH_NOT_DIGIT, e_value = K_NOTUSED, e_ch = CH_NONE, e_csp = []\<rparr>, g)"

text \<open>From the label \<^verbatim>\<open>nomap\<close>: \<open>evp\<close> is what the pointer to the current event points to.\<close>

definition nomap :: "ec_flags \<Rightarrow> event \<Rightarrow> gs \<Rightarrow> got" where
  "nomap fl evp g =
     (if \<not> is_digit (e_c evp) \<and> ec_mapnodigit fl then not_digit g else (False, Some evp, QREM 1 g))"

text \<open>
  A map was found: it replaces its input in the queue. Without remapping, the code goes on with a pointer it
  computed before it changed the queue; if the array has been moved in between, to something freed.
\<close>

definition get_mapped :: "ec_flags \<Rightarrow> nat \<Rightarrow> nat \<Rightarrow> seq \<Rightarrow> gs \<Rightarrow> (get_at \<times> gs + got) option" where
  "get_mapped fl timeout remap_cnt qp g =
     (let ilen = length (q_input qp); g1 = QREM ilen g in
      case q_output qp of
        None \<Rightarrow> Some (Inl (Retry timeout, g1))
      | Some out \<Rightarrow>
          if ec_mapnodigit fl \<and> \<not> is_digit (hd (out @ [CHR 0x00])) then Some (Inr (not_digit g))
          else
            let cs = map e_c (take ilen (drop (i_next g) (i_event g)));
                same = (if ilen \<le> length out then Some (take ilen out = cs)
                        else if take (length out + 1) cs = out @ [CHR 0x00] then None else Some False)
            in do {
              init_nomap \<leftarrow> same;
              (if o_remap g1 then
                 let rc = remap_cnt + 1;
                     (e, ev, g2) = (if rc = 1 \<or> rc mod 10 = 0 then ask EC_INTERRUPT 0 g1 else (False, g_junk g1, g1))
                 in if (rc = 1 \<or> rc mod 10 = 0) \<and> (e \<or> e_event ev = E_INTERRUPT)
                    then Some (Inr (False, Some ((g_junk g2)\<lparr>e_event := E_INTERRUPT\<rparr>), g2\<lparr>g_interrupted := True\<rparr>))
                    else if init_nomap then do {
                      (e, g3) \<leftarrow> v_event_push (map (key_event g2 CH_MAPPED) (drop ilen out)) g2;
                      if e then Some (Inr (True, None, g3)) else do {
                      (e, g4) \<leftarrow> v_event_push (map (key_event g3 (CH_MAPPED\<lparr>ch_nomap := True\<rparr>)) (take ilen out)) g3;
                      if e then Some (Inr (True, None, g4))
                      else if i_next g4 < length (i_event g4) then Some (Inr (nomap fl (i_event g4 ! i_next g4) g4)) else None
                    }}
                    else do {
                      (e, g3) \<leftarrow> v_event_push (map (key_event g2 CH_MAPPED) out) g2;
                      if e then Some (Inr (True, None, g3)) else Some (Inl (Newmap timeout False rc, g3))
                    }
               else do {
                 (e, g2) \<leftarrow> v_event_push (map (key_event g1 (CH_MAPPED\<lparr>ch_nomap := True\<rparr>)) out) g1;
                 if e then Some (Inr (True, None, g2))
                 else if length (i_event g2) \<noteq> length (i_event g) then None
                 else Some (Inr (nomap fl (i_event g2 ! i_next g) g2))
               })
            })"

definition map_applies :: "gs \<Rightarrow> ec_flags \<Rightarrow> bool \<Rightarrow> event \<Rightarrow> bool" where
  "map_applies g fl ist ev \<longleftrightarrow> \<not> ist \<and> \<not> ch_nomap (e_ch ev) \<and> (ec_mapcommand fl \<or> ec_mapinput fl) \<and>
     \<not> (of_char (e_c ev) < MAX_BIT_SEQ \<and> e_c ev \<notin> seqb (g_seqs g))"

definition map_type :: "ec_flags \<Rightarrow> seq_t" where
  "map_type fl = (if ec_mapcommand fl then SEQ_COMMAND else SEQ_INPUT)"

definition get_newmap :: "ec_flags \<Rightarrow> nat \<Rightarrow> bool \<Rightarrow> nat \<Rightarrow> gs \<Rightarrow> (get_at \<times> gs + got) option" where
  "get_newmap fl timeout ist remap_cnt g =
     (if i_next g < length (i_event g) then
        let evp = i_event g ! i_next g in
        if e_event evp \<noteq> E_CHARACTER then Some (Inr (False, Some evp, QREM 1 g))
        else if \<not> map_applies g fl ist evp then Some (Inr (nomap fl evp g))
        else do {
          (_, qp, ispartial) \<leftarrow> seq_find (map e_c (take (i_cnt g) (drop (i_next g) (i_event g)))) (map_type fl) True (seqq (g_seqs g));
          if ispartial then
            Some (Inl (Loop (if o_timeout g then (if e_value evp = K_ESCAPE then o_escapetime g else o_keytime g) * 100 else 0)
                            remap_cnt, g))
          else (case qp of
                  None \<Rightarrow> Some (Inr (nomap fl evp g))
                | Some i \<Rightarrow> get_mapped fl timeout remap_cnt (seqq (g_seqs g) ! i) g)
        }
      else None)"

definition get_step :: "ec_flags \<Rightarrow> get_at \<Rightarrow> gs \<Rightarrow> (get_at \<times> gs + got) option" where
  "get_step fl l g =
     (case l of
        Retry timeout \<Rightarrow>
          if i_cnt g \<noteq> 0 \<and> ec_timeout fl then Some (Inr (False, None, g))
          else if i_cnt g = 0 \<or> ec_interrupt fl \<or> ec_timeout fl then
            (if g_script_fails g then Some (Inr (True, None, g)) else get_read fl timeout 0 g)
          else Some (Inl (Newmap timeout False 0, g))
      | Loop timeout remap_cnt \<Rightarrow> get_read fl timeout remap_cnt g
      | Newmap timeout ist remap_cnt \<Rightarrow> get_newmap fl timeout ist remap_cnt g)"

partial_function (option) get_run :: "ec_flags \<Rightarrow> get_at \<Rightarrow> gs \<Rightarrow> got option" where
  "get_run fl l g =
     do { r \<leftarrow> get_step fl l g;
          case r of Inl x \<Rightarrow> (case x of (l', g') \<Rightarrow> get_run fl l' g') | Inr y \<Rightarrow> Some y }"

declare get_run.simps [code]

definition v_event_get :: "ec_flags \<Rightarrow> nat \<Rightarrow> gs \<Rightarrow> got option" where
  "v_event_get fl timeout g = get_run fl (Retry timeout) g"

text \<open>\<^verbatim>\<open>INTERRUPTED\<close>.\<close>

definition INTERRUPTED :: "gs \<Rightarrow> (bool \<times> gs) option" where
  "INTERRUPTED g =
     (if g_interrupted g then Some (True, g)
      else do { (e, _, g1) \<leftarrow> v_event_get EC_INTERRUPT 0 g; Some (\<not> e \<and> g_interrupted g1, g1) })"


subsection \<open>The queue an array stands for\<close>

definition iq :: "gs \<Rightarrow> event list" where
  "iq g = take (i_cnt g) (drop (i_next g) (i_event g))"

definition gs_ok :: "gs \<Rightarrow> bool" where
  "gs_ok g \<longleftrightarrow> i_next g + i_cnt g \<le> length (i_event g) \<and> (i_cnt g = 0 \<longrightarrow> i_next g = 0) \<and> (\<forall>n. g_mem g n)"

text \<open>\<open>requeued q g g'\<close>: only the queue has changed, to \<open>q\<close>.\<close>

definition unqueued :: "gs \<Rightarrow> gs" where
  "unqueued g = g\<lparr>i_event := [], i_next := 0, i_cnt := 0\<rparr>"

definition requeued :: "event list \<Rightarrow> gs \<Rightarrow> gs \<Rightarrow> bool" where
  "requeued q g g' \<longleftrightarrow> gs_ok g' \<and> iq g' = q \<and> unqueued g' = unqueued g"

lemma unqueued_sel [simp]:
  "unqueued (g\<lparr>i_event := a\<rparr>) = unqueued g" "unqueued (g\<lparr>i_next := n\<rparr>) = unqueued g" "unqueued (g\<lparr>i_cnt := n\<rparr>) = unqueued g"
  by (simp_all add: unqueued_def)

lemma unqueued_eq:
  assumes "unqueued g' = unqueued g"
  shows "g_seqs g' = g_seqs g" "g_interrupted g' = g_interrupted g" "o_remap g' = o_remap g" "o_timeout g' = o_timeout g"
    "special_key g' = special_key g" "g_asked g' = g_asked g" "scr_event g' = scr_event g" "g_script_fails g' = g_script_fails g"
    "g_mem g' = g_mem g" "g_junk g' = g_junk g" "o_escapetime g' = o_escapetime g" "o_keytime g' = o_keytime g"
  using assms by (cases g; cases g'; simp add: unqueued_def)+

lemma requeued_refl: "gs_ok g \<Longrightarrow> requeued (iq g) g g"
  by (simp add: requeued_def)

lemma requeued_trans: "requeued q g g' \<Longrightarrow> requeued q' g' g'' \<Longrightarrow> requeued q' g g''"
  by (simp add: requeued_def)

lemma iq_cnt: "gs_ok g \<Longrightarrow> length (iq g) = i_cnt g"
  by (auto simp: iq_def gs_ok_def)

lemma requeued_fields:
  assumes "requeued q g g'"
  shows "g_seqs g' = g_seqs g" "g_interrupted g' = g_interrupted g" "o_remap g' = o_remap g" "o_timeout g' = o_timeout g"
    "special_key g' = special_key g" "g_asked g' = g_asked g" "scr_event g' = scr_event g" "g_script_fails g' = g_script_fails g"
    "g_mem g' = g_mem g" "g_junk g' = g_junk g" "o_escapetime g' = o_escapetime g" "o_keytime g' = o_keytime g"
    "key_event g' = key_event g" "map_applies g' = map_applies g" "i_cnt g' = length q" "iq g' = q" "gs_ok g'"
  using assms unqueued_eq [of g' g] iq_cnt [of g'] by (auto simp: requeued_def key_event_def KEY_VAL_def map_applies_def fun_eq_iff)

lemma iq_first: "gs_ok g \<Longrightarrow> iq g \<noteq> [] \<Longrightarrow> i_next g < length (i_event g) \<and> i_event g ! i_next g = hd (iq g)"
  by (auto simp: iq_def gs_ok_def hd_drop_conv_nth)

lemma QREM_requeued: "gs_ok g \<Longrightarrow> n \<le> i_cnt g \<Longrightarrow> requeued (drop n (iq g)) g (QREM n g)"
  by (auto simp: requeued_def QREM_def Let_def gs_ok_def iq_def drop_take ac_simps)

lemma grow_spec:
  assumes "\<forall>n. g_mem g n" "0 < add"
  obtains k where "add \<le> k" "v_event_grow add g = Some (False, g\<lparr>i_event := i_event g @ replicate k (g_junk g)\<rparr>)"
proof -
  let ?n = "length (i_event g)"
  let ?o = "?n * sizeof_event + max ((?n + add) * sizeof_event) 256"
  have "binc_ret (g_mem g) (?n * sizeof_event) ((?n + add) * sizeof_event) = Some ?o"
    using assms by (auto simp: binc_ret_def binc_def Let_def sizeof_event_def)
  moreover have "?n + add \<le> ?o div sizeof_event" by (simp add: sizeof_event_def)
  ultimately show ?thesis
    by (intro that [of "?o div sizeof_event - ?n"]) (auto simp: v_event_grow_def Let_def)
qed

lemma put_at_some: "n + length es \<le> length arr \<Longrightarrow> put_at n es arr = Some (take n arr @ es @ drop (n + length es) arr)"
  by (simp add: put_at_def)

text \<open>Copying events to before the window of an array that holds \<open>q\<close>.\<close>

lemma window_put:
  assumes "take k (drop (n + length es) arr) = q" "n + length es + k \<le> length arr" "length q = k"
  shows "\<exists>arr'. put_at n es arr = Some arr' \<and> take (length es + k) (drop n arr') = es @ q \<and> length arr' = length arr"
  using assms by (auto simp: put_at_def min_def)

lemma push_requeued:
  assumes "gs_ok g"
  shows "\<exists>g'. v_event_push es g = Some (False, g') \<and> requeued (es @ iq g) g g'"
proof -
  let ?n = "length es" and ?c = "i_cnt g"
  have room: "\<exists>g'. do { arr \<leftarrow> put_at (i_next h) es (i_event h); Some (False, h\<lparr>i_cnt := i_cnt h + ?n, i_event := arr\<rparr>) } = Some (False, g') \<and>
      requeued (es @ iq g) g g'"
    if h: "take ?c (drop (i_next h + ?n) (i_event h)) = iq g" "i_next h + ?n + ?c \<le> length (i_event h)" "i_cnt h = ?c"
      "unqueued h = unqueued g" "?c + ?n = 0 \<Longrightarrow> i_next h = 0" for h
  proof -
    obtain arr where arr: "put_at (i_next h) es (i_event h) = Some arr" "take (?n + ?c) (drop (i_next h) arr) = es @ iq g"
        "length arr = length (i_event h)"
      using window_put [OF h(1,2) iq_cnt [OF assms]] by blast
    let ?g = "h\<lparr>i_cnt := i_cnt h + ?n, i_event := arr\<rparr>"
    have "requeued (es @ iq g) g ?g"
      using arr h assms unqueued_eq(9) [OF h(4)] by (auto simp: requeued_def gs_ok_def iq_def add.commute)
    then show ?thesis using arr(1) by simp
  qed
  show ?thesis
  proof (cases "?n \<le> i_next g \<or> i_event g \<noteq> [] \<and> ?c = 0 \<and> ?n \<le> length (i_event g)")
    case True
    let ?h = "if ?c \<noteq> 0 then g\<lparr>i_next := i_next g - ?n\<rparr> else g"
    have "unqueued ?h = unqueued g" by simp
    then show ?thesis
      using room [of ?h] True assms by (auto simp: v_event_push_def Let_def iq_def gs_ok_def split: if_splits)
  next
    case False
    let ?t = "?c + i_next g + ?n + TERM_PUSH_SHIFT"
    obtain g1 where g1: "(if length (i_event g) \<le> ?t then v_event_grow (max ?t 64) g else Some (False, g)) = Some (False, g1)"
        "?t \<le> length (i_event g1)" "unqueued g1 = unqueued g" "i_next g1 = i_next g" "i_cnt g1 = ?c"
        "take ?c (drop (i_next g) (i_event g1)) = iq g"
    proof (cases "length (i_event g) \<le> ?t")
      case True
      have m: "\<forall>n. g_mem g n" "0 < max ?t 64" using assms by (simp_all add: gs_ok_def)
      obtain k where "max ?t 64 \<le> k" "v_event_grow (max ?t 64) g = Some (False, g\<lparr>i_event := i_event g @ replicate k (g_junk g)\<rparr>)"
        by (rule grow_spec [OF m])
      then show ?thesis using that True assms by (simp add: iq_def gs_ok_def)
    next
      case f: False
      then show ?thesis using that [of g] by (simp add: iq_def)
    qed
    have "\<exists>arr. (if ?c \<noteq> 0 then put_at (TERM_PUSH_SHIFT + ?n) (iq g) (i_event g1)
           else Some (i_event g1)) = Some arr \<and> take ?c (drop (TERM_PUSH_SHIFT + ?n) arr) = iq g \<and> length arr = length (i_event g1)"
      using window_put [of 0 "TERM_PUSH_SHIFT + ?n" "iq g" "i_event g1" "[]"] g1(2) iq_cnt [OF assms] by (simp add: iq_def)
    then obtain arr where arr: "(if ?c \<noteq> 0 then put_at (TERM_PUSH_SHIFT + ?n) (iq g) (i_event g1)
           else Some (i_event g1)) = Some arr" "take ?c (drop (TERM_PUSH_SHIFT + ?n) arr) = iq g" "length arr = length (i_event g1)"
      by blast
    let ?h = "g1\<lparr>i_event := arr, i_next := TERM_PUSH_SHIFT\<rparr>"
    have v: "v_event_push es g =
        do { arr \<leftarrow> put_at (i_next ?h) es (i_event ?h); Some (False, ?h\<lparr>i_cnt := i_cnt ?h + ?n, i_event := arr\<rparr>) }"
      unfolding v_event_push_def Let_def if_not_P [OF False] g1(1)
      using arr(1) g1(4-6) by (cases "?c = 0") simp_all
    have "?n \<noteq> 0" using False by auto
    then show ?thesis unfolding v by (intro room) (use g1 arr in simp_all)
  qed
qed

lemma append_requeued:
  assumes "gs_ok g"
  shows "\<exists>g'. v_event_append ev g = Some (False, g') \<and> requeued (iq g @ string_events g ev) g g'"
proof -
  let ?es = "string_events g ev"
  let ?n = "length ?es"
  let ?b = "i_event g = [] \<or> length (i_event g) - (i_next g + i_cnt g) < ?n"
  obtain k where k: "(if ?b then v_event_grow (max ?n 64) g else Some (False, g)) = Some (False, g\<lparr>i_event := i_event g @ replicate k (g_junk g)\<rparr>)"
    "i_next g + i_cnt g + ?n \<le> length (i_event g) + k" "i_event g @ replicate k (g_junk g) \<noteq> []"
  proof (cases ?b)
    case True
    have m: "\<forall>n. g_mem g n" "0 < max ?n 64" using assms by (simp_all add: gs_ok_def)
    obtain k where "max ?n 64 \<le> k" "v_event_grow (max ?n 64) g = Some (False, g\<lparr>i_event := i_event g @ replicate k (g_junk g)\<rparr>)"
      by (rule grow_spec [OF m])
    then show ?thesis using that [of k] True assms by (simp add: gs_ok_def)
  next
    case False
    have "i_next g + i_cnt g \<le> length (i_event g)" using assms by (simp add: gs_ok_def)
    then show ?thesis using that [of 0] False by auto
  qed
  let ?g1 = "g\<lparr>i_event := i_event g @ replicate k (g_junk g)\<rparr>"
  let ?p = "i_next g + i_cnt g"
  let ?arr = "take ?p (i_event ?g1) @ ?es @ drop (?p + ?n) (i_event ?g1)"
  have put: "put_at ?p ?es (i_event ?g1) = Some ?arr" using k(2) by (simp add: put_at_def)
  have le: "?p \<le> length (i_event g)" using assms by (simp add: gs_ok_def)
  have w: "take (i_cnt g + ?n) (drop (i_next g) ?arr) = iq g @ ?es"
    using le by (simp add: iq_def drop_take)
  let ?g = "?g1\<lparr>i_cnt := i_cnt g + ?n, i_event := ?arr\<rparr>"
  have "v_event_append ev g = Some (False, ?g)"
    using put k(1,3) unfolding v_event_append_def Let_def by (simp add: k(1))
  moreover have "requeued (iq g @ ?es) g ?g"
    using w k(2) le assms by (simp add: requeued_def iq_def gs_ok_def)
  ultimately show ?thesis by blast
qed

lemma mapped_waiting: "gs_ok g \<Longrightarrow> MAPPED_KEYS_WAITING g \<longleftrightarrow> iq g \<noteq> [] \<and> ch_mapped (e_ch (hd (iq g)))"
  using iq_first [of g] iq_cnt [of g] by (cases "iq g") (auto simp: MAPPED_KEYS_WAITING_def)

lemma flush_requeued:
  assumes "gs_ok g"
  shows "requeued (dropWhile (\<lambda>e. ch_mapped (e_ch e)) (iq g)) g (snd (v_event_flush g))"
    and "fst (v_event_flush g) \<longleftrightarrow> iq g \<noteq> [] \<and> ch_mapped (e_ch (hd (iq g)))"
proof -
  have "requeued (dropWhile (\<lambda>e. ch_mapped (e_ch e)) (iq g)) g (snd (flush_loop n g)) \<and>
      (0 < n \<longrightarrow> (fst (flush_loop n g) \<longleftrightarrow> iq g \<noteq> [] \<and> ch_mapped (e_ch (hd (iq g)))))"
    if "gs_ok g" "length (iq g) \<le> n" for n g
    using that
  proof (induction n arbitrary: g)
    case 0
    then show ?case using requeued_refl [of g] by simp
  next
    case (Suc n)
    show ?case
    proof (cases "MAPPED_KEYS_WAITING g")
      case True
      then obtain e es where q: "iq g = e # es" "ch_mapped (e_ch e)"
        using mapped_waiting [OF Suc.prems(1)] by (cases "iq g") auto
      have r: "requeued es g (QREM 1 g)" using QREM_requeued [OF Suc.prems(1), of 1] iq_cnt [OF Suc.prems(1)] q(1) by simp
      have "requeued (dropWhile (\<lambda>e. ch_mapped (e_ch e)) es) (QREM 1 g) (snd (flush_loop n (QREM 1 g)))"
        using Suc.IH [of "QREM 1 g"] requeued_fields(16,17) [OF r] Suc.prems(2) q(1) by simp
      then show ?thesis using requeued_trans [OF r] True q by simp
    next
      case False
      then have "dropWhile (\<lambda>e. ch_mapped (e_ch e)) (iq g) = iq g" "\<not> (iq g \<noteq> [] \<and> ch_mapped (e_ch (hd (iq g))))"
        using mapped_waiting [OF Suc.prems(1)] by (cases "iq g"; simp)+
      then show ?thesis using False requeued_refl [OF Suc.prems(1)] by simp
    qed
  qed
  from this [OF assms order_refl] iq_cnt [OF assms]
  show "requeued (dropWhile (\<lambda>e. ch_mapped (e_ch e)) (iq g)) g (snd (v_event_flush g))"
    and "fst (v_event_flush g) \<longleftrightarrow> iq g \<noteq> [] \<and> ch_mapped (e_ch (hd (iq g)))"
    by (auto simp: v_event_flush_def)
qed

end
