(* ===== verification/KeyMaps.thy ===== *)
theory KeyMaps
  imports Keys
begin

section \<open>The expansion of maps\<close>

text \<open>
  \<^verbatim>\<open>v_event_get\<close> as it is meant: the same steps on a queue that is a list. With remapping the code does
  what this specification does, for any queue, maps and terminal; without, it does in the common case, and
  there is a case where it does not.
\<close>

subsection \<open>The steps on a list of events\<close>

type_synonym lgot = "bool \<times> event option \<times> event list \<times> gs"

definition l_nomap :: "ec_flags \<Rightarrow> event \<Rightarrow> event list \<Rightarrow> gs \<Rightarrow> lgot" where
  "l_nomap fl evp q g =
     (if \<not> is_digit (e_c evp) \<and> ec_mapnodigit fl then (case not_digit g of (e, ev, g') \<Rightarrow> (e, ev, q, g'))
      else (False, Some evp, tl q, g))"

definition l_read :: "ec_flags \<Rightarrow> nat \<Rightarrow> nat \<Rightarrow> event list \<Rightarrow> gs \<Rightarrow> get_at \<times> event list \<times> gs + lgot" where
  "l_read fl timeout remap_cnt q g =
     (let (e, ev, g1) = ask (EC_NONE\<lparr>ec_interrupt := ec_interrupt fl, ec_quoted := ec_quoted fl, ec_raw := ec_raw fl\<rparr>) timeout g;
          go = (\<lambda>ist q g. if ec_interrupt fl \<or> ec_timeout fl then Inr (False, Some ev, q, g)
                          else Inl (Newmap timeout ist remap_cnt, q, g));
          q' = q @ string_events g ev
      in if e then Inr (True, None, q, g1)
         else if e_event ev \<in> {E_ERR, E_SIGHUP, E_SIGTERM} then Inr (True, Some ev, q, g1)
         else if e_event ev = E_TIMEOUT then go True q g1
         else if e_event ev = E_INTERRUPT then
           (if ec_interrupt fl then Inr (False, Some ev, q, g1\<lparr>g_interrupted := True\<rparr>)
            else go False q' (g1\<lparr>g_interrupted := True\<rparr>))
         else go False q' g1)"

definition l_mapped :: "ec_flags \<Rightarrow> nat \<Rightarrow> nat \<Rightarrow> seq \<Rightarrow> event list \<Rightarrow> gs \<Rightarrow> (get_at \<times> event list \<times> gs + lgot) option" where
  "l_mapped fl timeout remap_cnt qp q g =
     (let ilen = length (q_input qp); rest = drop ilen q; cs = map e_c (take ilen q) in
      case q_output qp of
        None \<Rightarrow> Some (Inl (Retry timeout, rest, g))
      | Some out \<Rightarrow>
          if ec_mapnodigit fl \<and> \<not> is_digit (hd (out @ [CHR 0x00])) then
            Some (Inr (case not_digit g of (e, ev, g') \<Rightarrow> (e, ev, q, g')))
          else if length out < ilen \<and> take (length out + 1) cs = out @ [CHR 0x00] then None
          else if o_remap g then
            let rc = remap_cnt + 1;
                asks = (rc = 1 \<or> rc mod 10 = 0);
                (e, ev, g2) = (if asks then ask EC_INTERRUPT 0 g else (False, g_junk g, g));
                held = map (key_event g (CH_MAPPED\<lparr>ch_nomap := True\<rparr>)) (take ilen out) @ map (key_event g CH_MAPPED) (drop ilen out) @ rest
            in if asks \<and> (e \<or> e_event ev = E_INTERRUPT)
               then Some (Inr (False, Some ((g_junk g2)\<lparr>e_event := E_INTERRUPT\<rparr>), rest, g2\<lparr>g_interrupted := True\<rparr>))
               else if take ilen out = cs
               then (if held = [] then None else Some (Inr (l_nomap fl (hd held) held g2)))
               else Some (Inl (Newmap timeout False rc, map (key_event g CH_MAPPED) out @ rest, g2))
          else
            let q' = map (key_event g (CH_MAPPED\<lparr>ch_nomap := True\<rparr>)) out @ rest
            in if q' = [] then None else Some (Inr (l_nomap fl (hd q') q' g)))"

definition l_newmap :: "ec_flags \<Rightarrow> nat \<Rightarrow> bool \<Rightarrow> nat \<Rightarrow> event list \<Rightarrow> gs \<Rightarrow> (get_at \<times> event list \<times> gs + lgot) option" where
  "l_newmap fl timeout ist remap_cnt q g =
     (if q = [] then None
      else
        let evp = hd q in
        if e_event evp \<noteq> E_CHARACTER then Some (Inr (False, Some evp, tl q, g))
        else if \<not> map_applies g fl ist evp then Some (Inr (l_nomap fl evp q g))
        else do {
          (_, qp, ispartial) \<leftarrow> seq_find (map e_c q) (map_type fl) True (seqq (g_seqs g));
          if ispartial then
            Some (Inl (Loop (if o_timeout g then (if e_value evp = K_ESCAPE then o_escapetime g else o_keytime g) * 100 else 0)
                            remap_cnt, q, g))
          else (case qp of
                  None \<Rightarrow> Some (Inr (l_nomap fl evp q g))
                | Some i \<Rightarrow> l_mapped fl timeout remap_cnt (seqq (g_seqs g) ! i) q g)
        })"

definition l_step :: "ec_flags \<Rightarrow> get_at \<Rightarrow> event list \<Rightarrow> gs \<Rightarrow> (get_at \<times> event list \<times> gs + lgot) option" where
  "l_step fl l q g =
     (case l of
        Retry timeout \<Rightarrow>
          if q \<noteq> [] \<and> ec_timeout fl then Some (Inr (False, None, q, g))
          else if q = [] \<or> ec_interrupt fl \<or> ec_timeout fl then
            (if g_script_fails g then Some (Inr (True, None, q, g)) else Some (l_read fl timeout 0 q g))
          else Some (Inl (Newmap timeout False 0, q, g))
      | Loop timeout remap_cnt \<Rightarrow> Some (l_read fl timeout remap_cnt q g)
      | Newmap timeout ist remap_cnt \<Rightarrow> l_newmap fl timeout ist remap_cnt q g)"

partial_function (option) l_run :: "ec_flags \<Rightarrow> get_at \<Rightarrow> event list \<Rightarrow> gs \<Rightarrow> lgot option" where
  "l_run fl l q g =
     do { r \<leftarrow> l_step fl l q g;
          case r of Inl x \<Rightarrow> (case x of (l', q', g') \<Rightarrow> l_run fl l' q' g') | Inr y \<Rightarrow> Some y }"

declare l_run.simps [code]

definition next_event :: "ec_flags \<Rightarrow> nat \<Rightarrow> event list \<Rightarrow> gs \<Rightarrow> lgot option" where
  "next_event fl timeout q g = l_run fl (Retry timeout) q g"

subsection \<open>The code refines the specification\<close>

fun rel_step :: "get_at \<times> event list \<times> gs + lgot \<Rightarrow> get_at \<times> gs + got \<Rightarrow> bool" where
  "rel_step (Inl (l, q, h)) (Inl (l', g)) \<longleftrightarrow> l' = l \<and> requeued q h g"
| "rel_step (Inr (e, ev, q, h)) (Inr (e', ev', g)) \<longleftrightarrow> e' = e \<and> ev' = ev \<and> requeued q h g"
| "rel_step _ _ \<longleftrightarrow> False"

lemma requeued_update:
  "requeued q h g \<Longrightarrow> requeued q (h\<lparr>g_asked := n\<rparr>) (g\<lparr>g_asked := n\<rparr>)"
  "requeued q h g \<Longrightarrow> requeued q (h\<lparr>g_interrupted := b\<rparr>) (g\<lparr>g_interrupted := b\<rparr>)"
proof -
  have 1: "unqueued (k\<lparr>g_asked := n\<rparr>) = (unqueued k)\<lparr>g_asked := n\<rparr>"
    "unqueued (k\<lparr>g_interrupted := b\<rparr>) = (unqueued k)\<lparr>g_interrupted := b\<rparr>" for k
    by (simp_all add: unqueued_def)
  show "requeued q h g \<Longrightarrow> requeued q (h\<lparr>g_asked := n\<rparr>) (g\<lparr>g_asked := n\<rparr>)"
    "requeued q h g \<Longrightarrow> requeued q (h\<lparr>g_interrupted := b\<rparr>) (g\<lparr>g_interrupted := b\<rparr>)"
    by (auto simp: requeued_def gs_ok_def iq_def 1)
qed

lemma ask_refines:
  assumes "requeued q h g" "ask fl t h = (e, ev, h1)"
  obtains g1 where "ask fl t g = (e, ev, g1)" "requeued q h1 g1"
  using assms requeued_update(1) [OF assms(1), of "g_asked h + 1"] requeued_fields(6,7) [OF assms(1)]
  by (auto simp: ask_def split: prod.splits)

lemma ask_keeps:
  assumes "ask fl t h = (e, ev, h')"
  shows "o_remap h' = o_remap h" "key_event h' = key_event h" "special_key h' = special_key h"
  using assms by (auto simp: ask_def key_event_def KEY_VAL_def fun_eq_iff split: prod.splits)

lemma append_refines:
  assumes "requeued q h g"
  obtains g1 where "v_event_append ev g = Some (False, g1)" "requeued (q @ string_events h ev) h g1"
proof -
  have ok: "gs_ok g" "iq g = q" "key_event g = key_event h" using requeued_fields [OF assms] by simp_all
  obtain g1 where g1: "v_event_append ev g = Some (False, g1)" "requeued (iq g @ string_events g ev) g g1"
    using append_requeued [OF ok(1)] by blast
  have "string_events g ev = string_events h ev" using ok(3) by (simp add: string_events_def)
  then show ?thesis using that [OF g1(1)] requeued_trans [OF assms g1(2)] ok(2) by simp
qed

lemma push_refines:
  assumes "requeued q h g"
  obtains g1 where "v_event_push es g = Some (False, g1)" "requeued (es @ q) h g1"
  using push_requeued [of g es] requeued_fields(16,17) [OF assms] requeued_trans [OF assms] that by blast

lemma QREM_refines:
  assumes "requeued q h g" "n \<le> length q"
  shows "requeued (drop n q) h (QREM n g)"
  using QREM_requeued [of g n] requeued_fields(15-17) [OF assms(1)] requeued_trans [OF assms(1)] assms(2) by simp

lemma nomap_refines:
  assumes "requeued q h g" "q \<noteq> []"
  shows "rel_step (Inr (l_nomap fl ev q h)) (Inr (nomap fl ev g))"
  using assms QREM_refines [OF assms(1), of 1]
  by (auto simp: l_nomap_def nomap_def not_digit_def drop_Suc Suc_le_eq)

lemma read_refines:
  assumes "requeued q h g"
  shows "\<exists>r. get_read fl t rc g = Some r \<and> rel_step (l_read fl t rc q h) r"
proof -
  let ?fl = "EC_NONE\<lparr>ec_interrupt := ec_interrupt fl, ec_quoted := ec_quoted fl, ec_raw := ec_raw fl\<rparr>"
  obtain e ev h1 where a: "ask ?fl t h = (e, ev, h1)" by (cases "ask ?fl t h") auto
  obtain g1 where g1: "ask ?fl t g = (e, ev, g1)" "requeued q h1 g1" by (rule ask_refines [OF assms a])
  note g2 = requeued_update(2) [OF g1(2), of True]
  have key: "string_events h1 ev = string_events h ev" "string_events (h1\<lparr>g_interrupted := True\<rparr>) ev = string_events h ev"
    using a by (auto simp: ask_def string_events_def key_event_def KEY_VAL_def split: prod.splits)
  obtain g3 where g3: "v_event_append ev g1 = Some (False, g3)" "requeued (q @ string_events h ev) h1 g3"
    using append_refines [OF g1(2), of ev] key(1) by metis
  obtain g4 where g4: "v_event_append ev (g1\<lparr>g_interrupted := True\<rparr>) = Some (False, g4)"
      "requeued (q @ string_events h ev) (h1\<lparr>g_interrupted := True\<rparr>) g4"
    using append_refines [OF g2, of ev] key(2) by metis
  show ?thesis using g1 g2 g3 g4 a by (simp add: get_read_def l_read_def)
qed

lemma mapped_refines:
  assumes r: "requeued q h g" and l: "l_mapped fl t rc qp q h = Some x" and m: "o_remap h" and n: "length (q_input qp) \<le> length q"
  shows "\<exists>y. get_mapped fl t rc qp g = Some y \<and> rel_step x y"
proof -
  let ?n = "length (q_input qp)"
  let ?rest = "drop ?n q" and ?cs = "map e_c (take ?n q)"
  have rest: "requeued ?rest h (QREM ?n g)" by (rule QREM_refines [OF r n])
  have q: "iq g = q" "i_cnt g = length q" using requeued_fields [OF r] by simp_all
  have cs: "map e_c (take ?n (drop (i_next g) (i_event g))) = ?cs"
  proof -
    have "take (length q) (drop (i_next g) (i_event g)) = q" using q by (simp add: iq_def)
    then have "take ?n (drop (i_next g) (i_event g)) = take ?n q" using n by (metis min.absorb1 take_take)
    then show ?thesis by simp
  qed
  have key: "key_event (QREM ?n g) = key_event h" "o_remap (QREM ?n g) = o_remap h" "g_junk (QREM ?n g) = g_junk h"
    using requeued_fields [OF rest] by simp_all
  show ?thesis
  proof (cases "q_output qp")
    case None
    then show ?thesis using l rest by (auto simp: l_mapped_def get_mapped_def Let_def)
  next
    case (Some out)
    show ?thesis
    proof (cases "ec_mapnodigit fl \<and> \<not> is_digit (hd (out @ [CHR 0x00]))")
      case True
      then show ?thesis using l r Some by (auto simp: l_mapped_def get_mapped_def Let_def not_digit_def)
    next
      case digit: False
      let ?rc = "rc + 1"
      let ?asks = "?rc = 1 \<or> ?rc mod 10 = 0"
      have nul: "\<not> (length out < ?n \<and> take (length out + 1) ?cs = out @ [CHR 0x00])"
        using l Some digit by (auto simp: l_mapped_def Let_def split: if_splits)
      have len: "length ?cs = ?n" using n by simp
      then have short: "length out < ?n \<Longrightarrow> take ?n out \<noteq> ?cs" by auto
      have same: "(if ?n \<le> length out then Some (take ?n out = ?cs)
          else if take (length out + 1) ?cs = out @ [CHR 0x00] then None else Some False) = Some (take ?n out = ?cs)"
        using nul short by auto
      obtain e ev h2 where a: "(if ?asks then ask EC_INTERRUPT 0 h else (False, g_junk h, h)) = (e, ev, h2)"
        by (cases "if ?asks then ask EC_INTERRUPT 0 h else (False, g_junk h, h)") auto
      obtain g2 where g2: "(if ?asks then ask EC_INTERRUPT 0 (QREM ?n g) else (False, g_junk (QREM ?n g), QREM ?n g)) = (e, ev, g2)"
          "requeued ?rest h2 g2"
      proof (cases ?asks)
        case True
        then have "ask EC_INTERRUPT 0 h = (e, ev, h2)" using a by auto
        then obtain g2 where "ask EC_INTERRUPT 0 (QREM ?n g) = (e, ev, g2)" "requeued ?rest h2 g2"
          by (rule ask_refines [OF rest])
        then show ?thesis using that True by auto
      next
        case False
        then show ?thesis using that a rest key(3) by auto
      qed
      have k1: "key_event h2 = key_event h" using a ask_keeps(2) [of EC_INTERRUPT 0 h e ev h2] by (metis prod.inject)
      have k2: "key_event h2 = key_event h" "key_event g2 = key_event h" "g_junk g2 = g_junk h2"
        using k1 requeued_fields(10,13) [OF g2(2)] by simp_all
      note ll = l [unfolded l_mapped_def Let_def Some option.case if_not_P [OF digit] if_not_P [OF nul] if_P [OF m] a prod.case]
      have gg: "get_mapped fl t rc qp g =
          (if ?asks \<and> (e \<or> e_event ev = E_INTERRUPT)
           then Some (Inr (False, Some ((g_junk g2)\<lparr>e_event := E_INTERRUPT\<rparr>), g2\<lparr>g_interrupted := True\<rparr>))
           else if take ?n out = ?cs then do {
             (e, g3) \<leftarrow> v_event_push (map (key_event g2 CH_MAPPED) (drop ?n out)) g2;
             if e then Some (Inr (True, None, g3)) else do {
             (e, g4) \<leftarrow> v_event_push (map (key_event g3 (CH_MAPPED\<lparr>ch_nomap := True\<rparr>)) (take ?n out)) g3;
             if e then Some (Inr (True, None, g4))
             else if i_next g4 < length (i_event g4) then Some (Inr (nomap fl (i_event g4 ! i_next g4) g4)) else None
           }}
           else do {
             (e, g3) \<leftarrow> v_event_push (map (key_event g2 CH_MAPPED) out) g2;
             if e then Some (Inr (True, None, g3)) else Some (Inl (Newmap t False ?rc, g3))
           })"
        unfolding get_mapped_def Let_def Some option.case if_not_P [OF digit] cs same bind.simps key(2) if_P [OF m] g2(1) prod.case
        by simp
      show ?thesis
      proof (cases "?asks \<and> (e \<or> e_event ev = E_INTERRUPT)")
        case True
        then show ?thesis using ll requeued_update(2) [OF g2(2), of True] k2(3) unfolding gg by auto
      next
        case quiet: False
        show ?thesis
        proof (cases "take ?n out = ?cs")
          case True
          obtain g3 where g3: "v_event_push (map (key_event g2 CH_MAPPED) (drop ?n out)) g2 = Some (False, g3)"
              "requeued (map (key_event g2 CH_MAPPED) (drop ?n out) @ ?rest) h2 g3"
            by (rule push_refines [OF g2(2)])
          let ?q = "map (key_event h (CH_MAPPED\<lparr>ch_nomap := True\<rparr>)) (take ?n out) @ map (key_event h CH_MAPPED) (drop ?n out) @ ?rest"
          have k3: "key_event g3 = key_event h" using requeued_fields(13) [OF g3(2)] k2 by simp
          obtain g4 where g4: "v_event_push (map (key_event g3 (CH_MAPPED\<lparr>ch_nomap := True\<rparr>)) (take ?n out)) g3 = Some (False, g4)"
              "requeued ?q h2 g4"
            using push_refines [OF g3(2)] k2 k3 by metis
          have ne: "?q \<noteq> []" using ll if_not_P [OF quiet] True by (metis option.distinct(1))
          have "i_next g4 < length (i_event g4)" "i_event g4 ! i_next g4 = hd ?q"
            using iq_first [of g4] requeued_fields(16,17) [OF g4(2)] ne by auto
          then have "get_mapped fl t rc qp g = Some (Inr (nomap fl (hd ?q) g4))"
            unfolding gg if_not_P [OF quiet] if_P [OF True] using g3(1) g4(1) by simp
          moreover have "x = Inr (l_nomap fl (hd ?q) ?q h2)"
            using ll unfolding if_not_P [OF quiet] if_P [OF True] if_not_P [OF ne] by simp
          ultimately show ?thesis using nomap_refines [OF g4(2) ne] by blast
        next
          case False
          obtain g3 where g3: "v_event_push (map (key_event g2 CH_MAPPED) out) g2 = Some (False, g3)"
              "requeued (map (key_event g2 CH_MAPPED) out @ ?rest) h2 g3"
            by (rule push_refines [OF g2(2)])
          then show ?thesis using ll k2 unfolding gg if_not_P [OF quiet] if_not_P [OF False] by auto
        qed
      qed
    qed
  qed
qed

lemma seq_find_prefix:
  assumes "seq_find inp ty True qs = Some (l, Some i, p)"
  shows "length (q_input (qs ! i)) \<le> length inp"
proof -
  have "seq_find_loop ty inp True lst k qs = (l, Some i, p) \<Longrightarrow> k \<le> i \<and> length (q_input (qs ! (i - k))) \<le> length inp" for lst k
  proof (induction qs arbitrary: lst k)
    case (Cons q qs)
    have ih: "seq_find_loop ty inp True (Some k) (Suc k) qs = (l, Some i, p) \<Longrightarrow> ?case"
      using Cons.IH [of "Some k" "Suc k"] by (auto simp: nth_Cons')
    then show ?case using Cons.prems by (auto simp: Let_def split: if_splits)
  qed simp
  from this [of None 0] show ?thesis using assms by (auto simp: seq_find_def split: if_splits)
qed

lemma newmap_refines:
  assumes r: "requeued q h g" and l: "l_newmap fl t ist rc q h = Some x" and m: "o_remap h"
  shows "\<exists>y. get_newmap fl t ist rc g = Some y \<and> rel_step x y"
proof -
  have ne: "q \<noteq> []" using l by (auto simp: l_newmap_def)
  have q: "iq g = q" "gs_ok g" using requeued_fields [OF r] by simp_all
  have w: "take (i_cnt g) (drop (i_next g) (i_event g)) = q" using q(1) by (simp add: iq_def)
  have f: "i_next g < length (i_event g)" "i_event g ! i_next g = hd q" using iq_first [OF q(2)] q(1) ne by simp_all
  note sel = requeued_fields(1,4,11,12,14) [OF r]
  have tl: "requeued (tl q) h (QREM 1 g)" using QREM_refines [OF r, of 1] ne by (simp add: drop_Suc Suc_le_eq)
  have nm: "rel_step (Inr (l_nomap fl (hd q) q h)) (Inr (nomap fl (hd q) g))" by (rule nomap_refines [OF r ne])
  consider (other) "e_event (hd q) \<noteq> E_CHARACTER" | (plain) "e_event (hd q) = E_CHARACTER" "\<not> map_applies h fl ist (hd q)"
    | (maps) "e_event (hd q) = E_CHARACTER" "map_applies h fl ist (hd q)" by blast
  then show ?thesis
  proof cases
    case other
    have "x = Inr (False, Some (hd q), tl q, h)" using l ne other by (simp add: l_newmap_def)
    moreover have "get_newmap fl t ist rc g = Some (Inr (False, Some (hd q), QREM 1 g))"
      using f other by (simp add: get_newmap_def)
    ultimately show ?thesis using tl by simp
  next
    case plain
    have "x = Inr (l_nomap fl (hd q) q h)" using l ne plain by (simp add: l_newmap_def)
    moreover have "get_newmap fl t ist rc g = Some (Inr (nomap fl (hd q) g))"
      using f plain by (simp add: get_newmap_def sel(5))
    ultimately show ?thesis using nm by simp
  next
    case maps
    obtain lq qp p where s: "seq_find (map e_c q) (map_type fl) True (seqq (g_seqs h)) = Some (lq, qp, p)"
      using ne by (cases "seq_find_loop (map_type fl) (map e_c q) True None 0 (seqq (g_seqs h))") (auto simp: seq_find_def)
    have s': "seq_find (map e_c (take (i_cnt g) (drop (i_next g) (i_event g)))) (map_type fl) True (seqq (g_seqs g)) = Some (lq, qp, p)"
      unfolding w sel(1) by (rule s)
    consider (partial) p | (none) "\<not> p" "qp = None" | (found) i where "\<not> p" "qp = Some i" by (cases qp) auto
    then show ?thesis
    proof cases
      case partial
      let ?to = "if o_timeout h then (if e_value (hd q) = K_ESCAPE then o_escapetime h else o_keytime h) * 100 else 0"
      have "x = Inl (Loop ?to rc, q, h)" using l ne maps s partial by (simp add: l_newmap_def)
      moreover have "get_newmap fl t ist rc g = Some (Inl (Loop ?to rc, g))"
        unfolding get_newmap_def using f maps s' partial by (simp add: sel(2-5))
      ultimately show ?thesis using r by simp
    next
      case none
      have "x = Inr (l_nomap fl (hd q) q h)" using l ne maps s none by (simp add: l_newmap_def)
      moreover have "get_newmap fl t ist rc g = Some (Inr (nomap fl (hd q) g))"
        unfolding get_newmap_def using f maps s' none by (simp add: sel(5))
      ultimately show ?thesis using nm by simp
    next
      case found
      have "length (q_input (seqq (g_seqs h) ! i)) \<le> length q" using seq_find_prefix [OF s [unfolded found(2)]] by simp
      moreover have "l_mapped fl t rc (seqq (g_seqs h) ! i) q h = Some x"
        using maps l ne s found by (simp add: l_newmap_def)
      ultimately obtain y where y: "get_mapped fl t rc (seqq (g_seqs h) ! i) g = Some y" "rel_step x y"
        using mapped_refines [OF r _ m] by blast
      moreover have "get_newmap fl t ist rc g = get_mapped fl t rc (seqq (g_seqs h) ! i) g"
        unfolding get_newmap_def using f maps s' found by (simp add: sel(1,5))
      ultimately show ?thesis by auto
    qed
  qed
qed

lemma step_refines:
  assumes r: "requeued q h g" and l: "l_step fl l q h = Some x" and m: "o_remap h"
  shows "\<exists>y. get_step fl l g = Some y \<and> rel_step x y"
proof (cases l)
  case (Retry t)
  show ?thesis
    using assms read_refines [OF r, of fl t 0] requeued_fields(8,15) [OF r] Retry
    by (auto simp: l_step_def get_step_def split: if_splits)
next
  case (Loop t rc)
  then show ?thesis using assms read_refines [OF r, of fl t rc] by (auto simp: l_step_def get_step_def)
next
  case (Newmap t ist rc)
  then show ?thesis using newmap_refines [OF r _ m] l by (auto simp: l_step_def get_step_def)
qed

text \<open>No step changes the options.\<close>

lemma read_remap:
  assumes "l_read fl t rc q h = Inl (l', q', h')"
  shows "o_remap h' = o_remap h"
proof -
  obtain e ev h1 where a: "ask (EC_NONE\<lparr>ec_interrupt := ec_interrupt fl, ec_quoted := ec_quoted fl, ec_raw := ec_raw fl\<rparr>) t h = (e, ev, h1)"
    by (rule prod_cases3)
  show ?thesis using assms ask_keeps(1) [OF a] by (auto simp: l_read_def a Let_def split: if_splits)
qed

lemma mapped_remap:
  assumes "l_mapped fl t rc qp q h = Some (Inl (l', q', h'))"
  shows "o_remap h' = o_remap h"
proof (cases "q_output qp")
  case None
  then show ?thesis using assms by (simp add: l_mapped_def)
next
  case (Some out)
  let ?asks = "rc + 1 = 1 \<or> (rc + 1) mod 10 = 0"
  obtain e ev h1 where a: "(if ?asks then ask EC_INTERRUPT 0 h else (False, g_junk h, h)) = (e, ev, h1)" by (rule prod_cases3)
  have "o_remap h1 = o_remap h" using a ask_keeps(1) [of EC_INTERRUPT 0 h e ev h1]
    unfolding if_distrib [where f = "\<lambda>x. x = (e, ev, h1)"] by (metis prod.inject)
  then show ?thesis using assms unfolding l_mapped_def Some Let_def option.case a prod.case by (simp split: if_splits)
qed

lemma step_remap:
  assumes "l_step fl l q h = Some (Inl (l', q', h'))"
  shows "o_remap h' = o_remap h"
proof (cases l)
  case (Retry t)
  then show ?thesis using assms read_remap [of fl t 0 q h l' q' h'] by (simp add: l_step_def split: if_splits)
next
  case (Loop t rc)
  then show ?thesis using assms read_remap [of fl t rc q h l' q' h'] by (simp add: l_step_def)
next
  case (Newmap t ist rc)
  then show ?thesis using assms mapped_remap [of fl t rc _ q h l' q' h']
    by (auto simp: l_step_def l_newmap_def Let_def split: if_splits option.splits prod.splits Option.bind_splits)
qed

definition rel_got :: "lgot \<Rightarrow> got \<Rightarrow> bool" where
  "rel_got x y \<longleftrightarrow> rel_step (Inr x) (Inr y)"

lemma run_refines:
  assumes "l_run fl l q h = Some x" "requeued q h g" "o_remap h"
  shows "\<exists>y. get_run fl l g = Some y \<and> rel_got x y"
proof -
  have "\<forall>g. requeued q h g \<longrightarrow> o_remap h \<longrightarrow> (\<exists>y. get_run fl l g = Some y \<and> rel_got x y)"
  proof (rule l_run.raw_induct [where P = "\<lambda>fl l q h x. \<forall>g. requeued q h g \<longrightarrow> o_remap h \<longrightarrow>
      (\<exists>y. get_run fl l g = Some y \<and> rel_got x y)"])
    fix run :: "ec_flags \<Rightarrow> get_at \<Rightarrow> event list \<Rightarrow> gs \<Rightarrow> lgot option" and fl l q h x
    assume ih: "\<And>fl l q h x. run fl l q h = Some x \<Longrightarrow>
        \<forall>g. requeued q h g \<longrightarrow> o_remap h \<longrightarrow> (\<exists>y. get_run fl l g = Some y \<and> rel_got x y)"
      and step: "do { r \<leftarrow> l_step fl l q h; case r of Inl x \<Rightarrow> (case x of (l', q', g') \<Rightarrow> run fl l' q' g') | Inr y \<Rightarrow> Some y } = Some x"
    show "\<forall>g. requeued q h g \<longrightarrow> o_remap h \<longrightarrow> (\<exists>y. get_run fl l g = Some y \<and> rel_got x y)"
    proof (intro allI impI)
      fix g assume g: "requeued q h g" "o_remap h"
      obtain r where r: "l_step fl l q h = Some r" using step by (cases "l_step fl l q h") auto
      obtain y where y: "get_step fl l g = Some y" "rel_step r y" using step_refines [OF g(1) r g(2)] by blast
      show "\<exists>y. get_run fl l g = Some y \<and> rel_got x y"
      proof (cases r)
        case (Inl a)
        obtain l' q' h' where a: "a = (l', q', h')" by (cases a)
        obtain g' where g': "y = Inl (l', g')" "requeued q' h' g'" using y(2) Inl a by (cases y) auto
        have "run fl l' q' h' = Some x" using step r Inl a by simp
        moreover have "o_remap h'" using step_remap r Inl a g(2) by blast
        ultimately show ?thesis using ih [of fl l' q' h' x] g' y(1) by (subst get_run.simps) auto
      next
        case (Inr a)
        then obtain b where "y = Inr b" "rel_got x b" using y(2) step r by (cases y; cases a) (auto simp: rel_got_def)
        then show ?thesis using y(1) by (subst get_run.simps) auto
      qed
    qed
  qed (rule assms(1))
  then show ?thesis using assms(2,3) by blast
qed

subsection \<open>What the specification gives\<close>

text \<open>A character no map applies to is returned as it is.\<close>

lemma next_plain:
  assumes "e_event e = E_CHARACTER" "\<not> map_applies g fl False e" "\<not> ec_mapnodigit fl \<or> is_digit (e_c e)"
    and "\<not> ec_interrupt fl" "\<not> ec_timeout fl"
  shows "next_event fl t (e # q) g = Some (False, Some e, q, g)"
  using assms
  by (auto simp: next_event_def l_run.simps [of fl "Retry t"] l_run.simps [of fl "Newmap t False 0"]
      l_step_def l_newmap_def l_nomap_def)

text \<open>The shortest map of the keys is the one that is found.\<close>

lemma find_shortest:
  assumes ok: "seqs_ok qs" and inp: "inp \<noteq> []" and q: "q \<in> set qs" "active ty q" "prefix (q_input q) inp"
    and least: "\<forall>q' \<in> set qs. active ty q' \<and> prefix (q_input q') inp \<longrightarrow> length (q_input q) \<le> length (q_input q')"
  obtains l i where "seq_find inp ty True qs = Some (l, Some i, False)" "i < length qs" "qs ! i = q"
proof -
  obtain l m p where f: "seq_find inp ty True qs = Some (l, m, p)"
    "case m of
       Some j \<Rightarrow> \<not> p \<and> j < length qs \<and> active ty (qs ! j) \<and> prefix (q_input (qs ! j)) inp \<and>
         (\<forall>q \<in> set qs. active ty q \<and> prefix (q_input q) inp \<longrightarrow> length (q_input (qs ! j)) \<le> length (q_input q))
     | None \<Rightarrow> (\<forall>q \<in> set qs. active ty q \<longrightarrow> \<not> prefix (q_input q) inp) \<and>
         (p \<longleftrightarrow> (\<exists>q \<in> set qs. active ty q \<and> prefix inp (q_input q)))"
    using find_typed [OF ok inp, of ty] by blast
  obtain i where i: "m = Some i" using f(2) q by (cases m) auto
  have j: "\<not> p" "i < length qs" "active ty (qs ! i)" "prefix (q_input (qs ! i)) inp" "length (q_input (qs ! i)) = length (q_input q)"
    using f(2) i q least by (auto intro!: le_antisym)
  have same: "q_input (qs ! i) = q_input q" using j(4,5) q(3) by (auto simp: prefix_def append_eq_append_conv)
  obtain k where k: "k < length qs" "qs ! k = q" using q(1) by (auto simp: in_set_conv_nth)
  have "i = k"
    using seqs_ok_less [OF ok, of i k ty] seqs_ok_less [OF ok, of k i ty] j k q(2) same by (cases i k rule: linorder_cases) auto
  then show ?thesis using that f(1) i j k by simp
qed

lemma next_mapped:
  assumes e: "e_event (hd q) = E_CHARACTER" "map_applies g fl False (hd q)"
    and fl: "\<not> ec_mapnodigit fl" "\<not> ec_interrupt fl" "\<not> ec_timeout fl"
    and ok: "seqs_ok (seqq (g_seqs g))" and qp: "qp \<in> set (seqq (g_seqs g))" "active (map_type fl) qp" "prefix (q_input qp) (map e_c q)"
    and least: "\<forall>qp' \<in> set (seqq (g_seqs g)). active (map_type fl) qp' \<and> prefix (q_input qp') (map e_c q) \<longrightarrow>
        length (q_input qp) \<le> length (q_input qp')"
    and out: "q_output qp = Some (c # out)" "\<not> prefix (q_input qp) (c # out)" "CHR 0x00 \<notin> set (q_input qp)"
    and remap: "o_remap g" "\<not> fst (scr_event g (g_asked g) EC_INTERRUPT 0)"
      "e_event (snd (scr_event g (g_asked g) EC_INTERRUPT 0)) \<noteq> E_INTERRUPT"
    and c: "\<not> map_applies g fl False (key_event g CH_MAPPED c)"
  shows "next_event fl t q g = Some (False, Some (key_event g CH_MAPPED c),
      map (key_event g CH_MAPPED) out @ drop (length (q_input qp)) q, g\<lparr>g_asked := g_asked g + 1\<rparr>)"
proof -
  have ne: "q \<noteq> []" using qp ok by (auto simp: seqs_ok_def)
  obtain l i where f: "seq_find (map e_c q) (map_type fl) True (seqq (g_seqs g)) = Some (l, Some i, False)"
      "i < length (seqq (g_seqs g))" "seqq (g_seqs g) ! i = qp"
    by (rule find_shortest [OF ok _ qp least]) (use ne in simp)
  let ?n = "length (q_input qp)"
  have cs: "map e_c (take ?n q) = q_input qp" using qp(3) by (metis append_eq_conv_conj prefix_def take_map)
  have np: "take ?n (c # out) \<noteq> q_input qp" using out(2) by (metis append_take_drop_id prefix_def)
  have nul: "take (length (c # out) + 1) (q_input qp) \<noteq> (c # out) @ [CHR 0x00]"
    using out(3) by (metis in_set_conv_decomp in_set_takeD)
  let ?g = "g\<lparr>g_asked := g_asked g + 1\<rparr>"
  obtain ev where a: "ask EC_INTERRUPT 0 g = (False, ev, ?g)" "e_event ev \<noteq> E_INTERRUPT"
    using remap by (cases "scr_event g (g_asked g) EC_INTERRUPT 0") (auto simp: ask_def)
  have key: "key_event ?g = key_event g" by (simp add: key_event_def KEY_VAL_def fun_eq_iff)
  have "l_mapped fl t 0 qp q g = Some (Inl (Newmap t False 1, map (key_event g CH_MAPPED) (c # out) @ drop ?n q, ?g))"
    using out(1) fl a np nul cs remap(1) by (auto simp: l_mapped_def Let_def)
  then have s: "l_step fl (Newmap t False 0) q g = Some (Inl (Newmap t False 1, map (key_event g CH_MAPPED) (c # out) @ drop ?n q, ?g))"
    using e ne f by (simp add: l_step_def l_newmap_def Let_def)
  have "\<not> map_applies ?g fl False (key_event g CH_MAPPED c)" using c by (simp add: map_applies_def)
  then have "l_step fl (Newmap t False 1) (map (key_event g CH_MAPPED) (c # out) @ drop ?n q) ?g =
      Some (Inr (False, Some (key_event g CH_MAPPED c), map (key_event g CH_MAPPED) out @ drop ?n q, ?g))"
    using fl by (auto simp: l_step_def l_newmap_def l_nomap_def key_event_def)
  then show ?thesis
    using s ne fl by (simp add: next_event_def l_run.simps [of fl "Retry t"] l_run.simps [of fl "Newmap t False 0"]
        l_run.simps [of fl "Newmap t False (Suc 0)"] l_step_def [of fl "Retry t"])
qed

subsection \<open>Properties\<close>

text \<open>
  C24: with remapping on, \<^verbatim>\<open>v_event_get\<close> does on the window of the array what the
  expansion of maps does on a list of events: it returns the same event or failure, and leaves the same queue,
  whatever the maps are and whatever the terminal sends.
\<close>

theorem event_get_refines:
  assumes "gs_ok g" "o_remap g" "next_event fl t (iq g) g = Some (e, ev, q, h)"
  shows "\<exists>g'. v_event_get fl t g = Some (e, ev, g') \<and> requeued q h g'"
  using run_refines [OF assms(3) [unfolded next_event_def] requeued_refl [OF assms(1)] assms(2)]
  by (auto simp: v_event_get_def rel_got_def)

text \<open>A global area with keys typed, maps, and a terminal that has nothing more to say.\<close>

definition keys_typed :: "bytes \<Rightarrow> seq list \<Rightarrow> bool \<Rightarrow> gs" where
  "keys_typed ks qs remap =
     (let ev = (\<lambda>c. \<lparr>e_event = E_CHARACTER, e_c = c, e_value = K_NOTUSED, e_ch = CH_NONE, e_csp = []\<rparr>) in
      \<lparr>i_event = map ev ks, i_next = 0, i_cnt = length ks, g_seqs = \<lparr>seqq = qs, seqb = set (map q_char qs)\<rparr>,
       g_interrupted = False, o_remap = remap, o_timeout = True, o_escapetime = 1, o_keytime = 6,
       special_key = (\<lambda>c. if c = CHR 0x1B then K_ESCAPE else if c = CHR 0x16 then K_VLNEXT else K_NOTUSED), g_asked = 0,
       scr_event = (\<lambda>_ _ _. (False, (ev CHR 0x00)\<lparr>e_event := E_TIMEOUT\<rparr>)), g_script_fails = False,
       g_mem = (\<lambda>_. True), g_junk = ev CHR 0x00\<rparr>)"

lemma keys_typed_ok: "gs_ok (keys_typed ks qs remap)"
  by (simp add: keys_typed_def Let_def gs_ok_def)

theorem event_get_refines_witness:
  "\<exists>ev g'. v_event_get EC_MAPCOMMAND 0 (keys_typed ''xa'' [] True) = Some (False, Some ev, g') \<and> e_c ev = CHR ''x'' \<and>
     map e_c (iq g') = ''a''"
proof -
  let ?g = "keys_typed ''xa'' [] True"
  obtain e q where q: "iq ?g = e # q" "e_c e = CHR ''x''" "map e_c q = ''a''" "e_event e = E_CHARACTER"
    by (simp add: keys_typed_def Let_def iq_def)
  have "\<not> map_applies ?g EC_MAPCOMMAND False e"
    using q(2) by (simp add: map_applies_def keys_typed_def Let_def MAX_BIT_SEQ_def)
  then have "next_event EC_MAPCOMMAND 0 (iq ?g) ?g = Some (False, Some e, q, ?g)"
    unfolding q(1) by (intro next_plain) (simp_all add: q(4) EC_MAPCOMMAND_def EC_NONE_def)
  from event_get_refines [OF keys_typed_ok _ this] show ?thesis
    using q requeued_fields(16) by (force simp: keys_typed_def Let_def)
qed

text \<open>
  When the keys waiting start with the input of a map, the shortest such map replaces
  it: the first character of its output is returned, marked as mapped, and the rest of the output goes in front of
  the rest of the keys. (The output must not start with the input, nor with a character that may be mapped again, and no
  interrupt is waiting.)
\<close>

theorem map_replaced:
  assumes "gs_ok g" "o_remap g" "iq g = q" "e_event (hd q) = E_CHARACTER" "map_applies g fl False (hd q)"
    and "\<not> ec_mapnodigit fl" "\<not> ec_interrupt fl" "\<not> ec_timeout fl"
    and "seqs_ok (seqq (g_seqs g))" "qp \<in> set (seqq (g_seqs g))" "active (map_type fl) qp" "prefix (q_input qp) (map e_c q)"
    and "\<forall>qp' \<in> set (seqq (g_seqs g)). active (map_type fl) qp' \<and> prefix (q_input qp') (map e_c q) \<longrightarrow>
        length (q_input qp) \<le> length (q_input qp')"
    and "q_output qp = Some (c # out)" "\<not> prefix (q_input qp) (c # out)" "CHR 0x00 \<notin> set (q_input qp)"
    and "\<not> fst (scr_event g (g_asked g) EC_INTERRUPT 0)" "e_event (snd (scr_event g (g_asked g) EC_INTERRUPT 0)) \<noteq> E_INTERRUPT"
    and "\<not> map_applies g fl False (key_event g CH_MAPPED c)"
  shows "\<exists>g'. v_event_get fl t g = Some (False, Some (key_event g CH_MAPPED c), g') \<and>
    requeued (map (key_event g CH_MAPPED) out @ drop (length (q_input qp)) q) (g\<lparr>g_asked := g_asked g + 1\<rparr>) g'"
  using run_refines [OF next_mapped [OF assms(4-16) assms(2,17-19), unfolded next_event_def], of g t]
    requeued_refl [OF assms(1)] assms(2,3)
  by (auto simp: v_event_get_def rel_got_def)

theorem map_replaced_witness:
  "\<exists>ev g'. v_event_get EC_MAPCOMMAND 0 (keys_typed ''abc'' [user_map ''ab'' ''xy''] True) = Some (False, Some ev, g') \<and>
     e_c ev = CHR ''x'' \<and> map e_c (iq g') = ''yc''"
proof -
  let ?g = "keys_typed ''abc'' [user_map ''ab'' ''xy''] True"
  let ?q = "iq ?g"
  have q: "map e_c ?q = ''abc''" "?q \<noteq> []" by (simp_all add: keys_typed_def Let_def iq_def)
  have hd: "e_event (hd ?q) = E_CHARACTER" "map_applies ?g EC_MAPCOMMAND False (hd ?q)"
    by (simp_all add: keys_typed_def Let_def iq_def map_applies_def EC_MAPCOMMAND_def EC_NONE_def CH_NONE_def user_map_def q_char_def)
  have fl: "\<not> ec_mapnodigit EC_MAPCOMMAND" "\<not> ec_interrupt EC_MAPCOMMAND" "\<not> ec_timeout EC_MAPCOMMAND"
    by (simp_all add: EC_MAPCOMMAND_def EC_NONE_def)
  have sq: "seqq (g_seqs ?g) = [user_map ''ab'' ''xy'']" by (simp add: keys_typed_def Let_def)
  have c: "\<not> map_applies ?g EC_MAPCOMMAND False (key_event ?g CH_MAPPED CHR ''x'')"
    by (simp add: keys_typed_def Let_def map_applies_def key_event_def MAX_BIT_SEQ_def user_map_def q_char_def)
  have t: "\<not> fst (scr_event ?g (g_asked ?g) EC_INTERRUPT 0)" "e_event (snd (scr_event ?g (g_asked ?g) EC_INTERRUPT 0)) \<noteq> E_INTERRUPT"
    "o_remap ?g" by (simp_all add: keys_typed_def Let_def)
  have m: "seqs_ok (seqq (g_seqs ?g))" "user_map ''ab'' ''xy'' \<in> set (seqq (g_seqs ?g))"
      "active (map_type EC_MAPCOMMAND) (user_map ''ab'' ''xy'')" "prefix (q_input (user_map ''ab'' ''xy'')) (map e_c ?q)"
      "q_output (user_map ''ab'' ''xy'') = Some (CHR ''x'' # ''y'')" "\<not> prefix (q_input (user_map ''ab'' ''xy'')) (CHR ''x'' # ''y'')"
      "CHR 0x00 \<notin> set (q_input (user_map ''ab'' ''xy''))"
    unfolding sq q(1) by (simp_all add: seqs_ok_def user_map_def active_def map_type_def EC_MAPCOMMAND_def EC_NONE_def)
  have l: "length (q_input (user_map ''ab'' ''xy'')) = 2"
      "\<forall>qp' \<in> set (seqq (g_seqs ?g)). active (map_type EC_MAPCOMMAND) qp' \<and> prefix (q_input qp') (map e_c ?q) \<longrightarrow>
        length (q_input (user_map ''ab'' ''xy'')) \<le> length (q_input qp')"
    unfolding sq by (simp_all add: user_map_def)
  obtain g' where g':
      "v_event_get EC_MAPCOMMAND 0 ?g = Some (False, Some (key_event ?g CH_MAPPED CHR ''x''), g')"
      "requeued (map (key_event ?g CH_MAPPED) ''y'' @ drop 2 ?q) (?g\<lparr>g_asked := g_asked ?g + 1\<rparr>) g'"
    using map_replaced [where t = 0, OF keys_typed_ok t(3) refl hd fl m(1-4) l(2) m(5-7) t(1,2) c] unfolding l(1) by blast
  have "map e_c (iq g') = ''y'' @ drop 2 (map e_c ?q)"
    using requeued_fields(16) [OF g'(2)] by (simp add: key_event_def drop_map)
  then show ?thesis using g'(1) q(1) by (auto simp: key_event_def)
qed

text \<open>
  Without remapping, when other keys wait behind the mapped ones and the output of the map is not as long
  as its input, \<^verbatim>\<open>v_event_get\<close> returns the wrong character: it looks where the queue began
  before the change. With \<^verbatim>\<open>ab\<close> mapped to \<^verbatim>\<open>x\<close> the keys \<^verbatim>\<open>abc\<close> give
  \<^verbatim>\<open>a\<close> and \<^verbatim>\<open>c\<close>.
\<close>

theorem noremap_wrong_key:
  "map_option (\<lambda>(e, ev, g). (e, map_option e_c ev, map e_c (iq g)))
     (v_event_get EC_MAPCOMMAND 0 (keys_typed ''abc'' [user_map ''ab'' ''x''] False)) =
   Some (False, Some CHR ''a'', ''c'')"
  by code_simp

text \<open>
  Flushing discards the mapped keys at the front of the queue, all of them and no others, and tells
  whether there were any.
\<close>

theorem event_flush:
  assumes "gs_ok g"
  shows "requeued (dropWhile (\<lambda>e. ch_mapped (e_ch e)) (iq g)) g (snd (v_event_flush g)) \<and>
    (fst (v_event_flush g) \<longleftrightarrow> iq g \<noteq> [] \<and> ch_mapped (e_ch (hd (iq g))))"
  using flush_requeued [OF assms] by blast

theorem event_flush_witness: "requeued [] (keys_typed [] [] True) (snd (v_event_flush (keys_typed [] [] True)))"
  using event_flush [OF keys_typed_ok, of "[]" "[]" True] by (simp add: keys_typed_def Let_def iq_def)

end
