(* ===== verification/LineRead.thy ===== *)
theory LineRead
  imports State
begin

section \<open>Reading lines (common/line.c)\<close>

text \<open>
  \<^verbatim>\<open>db_get\<close> looks for a line in the text input queue, then in the one-line cache, then in the
  database; \<^verbatim>\<open>db_last\<close> and \<^verbatim>\<open>db_exist\<close> use the cached line count. The lemmas say that over
  a coherent cache these return what the database holds, whatever the state of the caches, and
  leave them coherent.
\<close>

subsection \<open>The line cache\<close>

text \<open>\<^verbatim>\<open>db_cache_update\<close>: the returned flag is true when the buffer cannot be allocated.\<close>

definition db_cache_update :: "nat \<Rightarrow> bytes \<Rightarrow> ed \<Rightarrow> bool \<times> ed" where
  "db_cache_update lno d s =
     (let grow = c_buf_len s < length d
      in if grow \<and> \<not> mem_ok s (length d)
         then (True, s\<lparr>c_buf_len := 0, c_lp := [], c_lno := 0\<rparr>)
         else (False, s\<lparr>c_buf_len := if grow then length d else c_buf_len s,
                        c_lno := lno, c_lp := d\<rparr>))"

subsection \<open>The text input queue\<close>

definition tiq_range :: "scr \<Rightarrow> (nat \<times> nat) option" where
  "tiq_range sc = (if sp_tiq sc = [] then None
                   else Some (t_lno (hd (sp_tiq sc)), t_lno (last (sp_tiq sc))))"

text \<open>The lines the queue adds to the file, \<open>l2 - l1\<close>; \<^verbatim>\<open>recno_t\<close> arithmetic undoes itself.\<close>

definition less_tiq :: "nat \<Rightarrow> nat \<Rightarrow> nat \<Rightarrow> nat" where
  "less_tiq lno l1 l2 = nat (int lno - (int l2 - int l1))"

definition plus_tiq :: "nat \<Rightarrow> nat \<Rightarrow> nat \<Rightarrow> nat" where
  "plus_tiq n l1 l2 = nat (int n + (int l2 - int l1))"

subsection \<open>Operations\<close>

text \<open>
  The part of \<^verbatim>\<open>db_get\<close> after the label \<^verbatim>\<open>nocache\<close>: fetch from the database and refill the
  cache.
\<close>

definition db_fetch :: "nat \<Rightarrow> ed \<Rightarrow> (bool \<times> bytes \<times> ed) option" where
  "db_fetch lno s =
     do {
       (st, d, db') \<leftarrow> rec_get rec_vpipe lno (db s);
       let s1 = s\<lparr>db := db'\<rparr>;
       (case (st, d) of
          (RET_SUCCESS, Some line) \<Rightarrow>
            (let (e, s2) = db_cache_update lno line s1
             in Some (e, if e then [] else line, s2))
        | _ \<Rightarrow> Some (True, [], s1))
     }"

text \<open>
  \<^verbatim>\<open>db_get\<close>; \<open>nocache\<close> is the flag \<^verbatim>\<open>DBG_NOCACHE\<close>. (\<^verbatim>\<open>DBG_FATAL\<close> decides only whether
  a message is shown.) The result is the failure flag and the line, empty on failure.
\<close>

definition db_get_cached :: "nat \<Rightarrow> ed \<Rightarrow> (bool \<times> bytes \<times> ed) option" where
  "db_get_cached lno s =
     (if lno = c_lno s then Some (False, c_lp s, s)
      else db_fetch lno (s\<lparr>c_lno := 0\<rparr>))"

definition db_get :: "nat \<Rightarrow> bool \<Rightarrow> ed \<Rightarrow> (bool \<times> bytes \<times> ed) option" where
  "db_get lno nocache s =
     (if lno = 0 then Some (True, [], s)
      else if \<not> has_file s then Some (True, [], s)
      else if nocache then db_fetch lno s
      else if sp_tinput (cur s) then
        do {
          (l1, l2) \<leftarrow> tiq_range (cur s);
          if l1 \<le> lno \<and> lno \<le> l2 then
            do {
              tp \<leftarrow> find (\<lambda>tp. t_lno tp = lno) (sp_tiq (cur s));
              Some (False, t_lb tp, s)
            }
          else db_get_cached (if l2 < lno then less_tiq lno l1 l2 else lno) s
        }
      else db_get_cached lno s)"

text \<open>\<^verbatim>\<open>db_last\<close>: the failure flag and the number of lines.\<close>

definition db_last :: "ed \<Rightarrow> (bool \<times> nat \<times> ed) option" where
  "db_last s =
     (if \<not> has_file s then Some (True, 0, s)
      else if c_nlines s \<noteq> 0 then
        (if sp_tinput (cur s) then
           do {
             (l1, l2) \<leftarrow> tiq_range (cur s);
             Some (False, plus_tiq (c_nlines s) l1 l2, s)
           }
         else Some (False, c_nlines s, s))
      else do {
        (st, kd, db') \<leftarrow> rec_seq rec_vpipe R_LAST 0 (db s);
        let s1 = s\<lparr>db := db'\<rparr>;
        case (st, kd) of
          (RET_SUCCESS, Some (lno, d)) \<Rightarrow>
            (let (e, s2) = db_cache_update lno d s1
             in if e then Some (True, 0, s2)
                else let s3 = s2\<lparr>c_nlines := lno\<rparr>
                     in if sp_tinput (cur s3) then
                          do {
                            (l1, l2) \<leftarrow> tiq_range (cur s3);
                            Some (False, if lno < l2 then l2 else lno, s3)
                          }
                        else Some (False, lno, s3))
        | (RET_SPECIAL, _) \<Rightarrow> Some (False, 0, s1)
        | _ \<Rightarrow> Some (True, 0, s1)
      })"

text \<open>\<^verbatim>\<open>db_exist\<close>: the result is true when the line exists (or when there is no file).\<close>

definition db_exist :: "nat \<Rightarrow> ed \<Rightarrow> (bool \<times> ed) option" where
  "db_exist lno s =
     (if \<not> has_file s then Some (True, s)
      else if lno = 0 then Some (False, s)
      else if c_nlines s \<noteq> 0 then
        (if sp_tinput (cur s) then
           do {
             (l1, l2) \<leftarrow> tiq_range (cur s);
             Some (lno \<le> plus_tiq (c_nlines s) l1 l2, s)
           }
         else Some (lno \<le> c_nlines s, s))
      else do {
        (e, _, s1) \<leftarrow> db_get lno False s;
        Some (\<not> e, s1)
      })"

text \<open>
  \<^verbatim>\<open>db_eget\<close>: the failure flag, the line, and whether the failure was that the file is empty.
\<close>

definition db_eget :: "nat \<Rightarrow> ed \<Rightarrow> (bool \<times> bytes \<times> bool \<times> ed) option" where
  "db_eget lno s =
     do {
       (e, line, s1) \<leftarrow> db_get lno False s;
       if \<not> e then Some (False, line, False, s1)
       else if lno = 0 \<or> lno = 1 then
         do {
           (e2, l1, s2) \<leftarrow> db_last s1;
           if e2 then Some (True, [], False, s2)
           else if l1 \<noteq> 0 then Some (True, [], False, s2)
           else Some (True, [], True, s2)
         }
       else Some (True, [], False, s1)
     }"

text \<open>
  \<^verbatim>\<open>nonblank\<close> (common/util.c): the column of the first non-blank at or after a column; the
  result is the failure flag and the column.
\<close>

definition first_nonblank :: "nat \<Rightarrow> bytes \<Rightarrow> nat" where
  "first_nonblank off line =
     (let blanks = takeWhile is_blank (drop off line)
      in if off + length blanks < length line then off + length blanks
         else off + length blanks - 1)"

definition nonblank :: "nat \<Rightarrow> nat \<Rightarrow> ed \<Rightarrow> (bool \<times> nat \<times> ed) option" where
  "nonblank lno off s =
     do {
       (e, line, isempty, s1) \<leftarrow> db_eget lno s;
       if e then Some (\<not> isempty, 0, s1)
       else if line = [] \<or> length line \<le> off then Some (False, 0, s1)
       else Some (False, first_nonblank off line, s1)
     }"

subsection \<open>Coherence\<close>

abbreviation lines :: "ed \<Rightarrow> bytes list" where
  "lines s \<equiv> r_recs (db s)"

text \<open>
  The counts the caches hold are right (\<open>count_ok\<close>), and so is the cached text (\<open>text_ok\<close>).
  They are kept apart because the second can fail: see \<^verbatim>\<open>db_insert\<close>.
\<close>

definition count_ok :: "ed \<Rightarrow> bool" where
  "count_ok s \<longleftrightarrow> c_lno s \<le> length (lines s) \<and> (c_nlines s \<noteq> 0 \<longrightarrow> c_nlines s = length (lines s))"

definition text_ok :: "ed \<Rightarrow> bool" where
  "text_ok s \<longleftrightarrow> (c_lno s \<noteq> 0 \<longrightarrow> c_lp s = lines s ! (c_lno s - 1))"

text \<open>
  A file is being edited, its tree is settled, memory is available and the counts are right;
  \<open>ready\<close> adds that the cached text is right.
\<close>

definition base :: "ed \<Rightarrow> bool" where
  "base s \<longleftrightarrow> has_file s \<and> settled (db s) \<and> (\<forall>n. mem_ok s n) \<and> count_ok s"

definition ready :: "ed \<Rightarrow> bool" where
  "ready s \<longleftrightarrow> base s \<and> text_ok s"

text \<open>
  \<open>reads s s'\<close>: going from \<open>s\<close> to \<open>s'\<close> changed at most the caches and the tree's
  position; the records, and every other field, are the same.
\<close>

definition no_db :: "bytes recno" where
  "no_db = \<lparr>r_recs = [], r_input = [], r_eof = True, r_inmem = True, r_cursor = None,
            r_modified = False, r_bval = CHR 0x0A, r_io = True\<rparr>"

definition uncached :: "ed \<Rightarrow> ed" where
  "uncached s = s\<lparr>c_lp := [], c_lno := 0, c_nlines := 0, c_buf_len := 0, db := no_db\<rparr>"

definition reads :: "ed \<Rightarrow> ed \<Rightarrow> bool" where
  "reads s s' \<longleftrightarrow> lines s' = lines s \<and> uncached s' = uncached s"

lemma reads_refl [simp, intro]: "reads s s"
  by (simp add: reads_def)

lemma reads_trans [trans]: "reads s s' \<Longrightarrow> reads s' s'' \<Longrightarrow> reads s s''"
  by (simp add: reads_def)

lemma uncached_sel:
  "has_file (uncached s) = has_file s"
  "elog (uncached s) = elog s" "l_len (uncached s) = l_len s" "l_high (uncached s) = l_high s"
  "l_cur (uncached s) = l_cur s" "l_cursor (uncached s) = l_cursor s" "lundo (uncached s) = lundo s"
  "marks (uncached s) = marks s" "f_firstmodify (uncached s) = f_firstmodify s"
  "f_modified (uncached s) = f_modified s" "f_nolog (uncached s) = f_nolog s"
  "f_undo (uncached s) = f_undo s" "f_rcv_sync (uncached s) = f_rcv_sync s"
  "f_rcv_on (uncached s) = f_rcv_on s" "rcv_fails (uncached s) = rcv_fails s"
  "rcv_mpath (uncached s) = rcv_mpath s" "sync_fails (uncached s) = sync_fails s"
  "cur (uncached s) = cur s" "others (uncached s) = others s" "cutq (uncached s) = cutq s"
  "dcb_store (uncached s) = dcb_store s" "dcbp (uncached s) = dcbp s"
  "tmp_inuse (uncached s) = tmp_inuse s" "tmp_blen (uncached s) = tmp_blen s"
  "ecq (uncached s) = ecq s" "interrupted (uncached s) = interrupted s" "mem_ok (uncached s) = mem_ok s"
  "log_opens (uncached s) = log_opens s"
  by (simp_all add: uncached_def)

lemma reads_fields:
  assumes "reads s s'"
  shows "has_file s' = has_file s" "lines s' = lines s"
    "elog s' = elog s" "l_len s' = l_len s" "l_high s' = l_high s" "l_cur s' = l_cur s"
    "l_cursor s' = l_cursor s" "lundo s' = lundo s" "marks s' = marks s"
    "f_firstmodify s' = f_firstmodify s" "f_modified s' = f_modified s" "f_nolog s' = f_nolog s"
    "f_undo s' = f_undo s" "f_rcv_sync s' = f_rcv_sync s" "f_rcv_on s' = f_rcv_on s" "rcv_fails s' = rcv_fails s"
    "rcv_mpath s' = rcv_mpath s" "sync_fails s' = sync_fails s"
    "cur s' = cur s" "others s' = others s" "cutq s' = cutq s" "dcb_store s' = dcb_store s"
    "dcbp s' = dcbp s" "tmp_inuse s' = tmp_inuse s" "tmp_blen s' = tmp_blen s" "ecq s' = ecq s"
    "interrupted s' = interrupted s" "mem_ok s' = mem_ok s" "log_opens s' = log_opens s"
  using assms unfolding reads_def by (metis uncached_sel)+

lemma reads_cache_update [simp, intro]:
  "reads s (s\<lparr>c_lno := n\<rparr>)" "reads s (s\<lparr>c_lp := l\<rparr>)" "reads s (s\<lparr>c_buf_len := n\<rparr>)"
  "reads s (s\<lparr>c_nlines := n\<rparr>)" "r_recs d = lines s \<Longrightarrow> reads s (s\<lparr>db := d\<rparr>)"
  by (simp_all add: reads_def uncached_def)

text \<open>What a reading call keeps; afterwards the cached text is right, or is what it was.\<close>

definition keeps :: "ed \<Rightarrow> ed \<Rightarrow> bool" where
  "keeps s s' \<longleftrightarrow> base s' \<and> reads s s' \<and> (text_ok s' \<or> c_lno s' = c_lno s \<and> c_lp s' = c_lp s)"

lemma keeps_refl: "base s \<Longrightarrow> keeps s s"
  by (simp add: keeps_def)

lemma keepsD:
  assumes "keeps s s'"
  shows "base s'" "reads s s'" "text_ok s \<Longrightarrow> text_ok s'"
    and "text_ok s \<or> c_lno s \<noteq> n \<Longrightarrow> text_ok s' \<or> c_lno s' \<noteq> n"
  using assms reads_fields(2) [of s s'] by (auto simp: keeps_def text_ok_def)

lemma keeps_trans: "keeps s s' \<Longrightarrow> keeps s' s'' \<Longrightarrow> keeps s s''"
  using keepsD(3) [of s' s''] by (auto simp: keeps_def intro: reads_trans)

lemma keeps_uncache: "base s \<Longrightarrow> keeps s (s\<lparr>c_lno := 0\<rparr>)"
  by (simp add: keeps_def base_def count_ok_def text_ok_def)

lemma db_cache_update_base:
  assumes "base s" "0 < n" "n \<le> length (lines s)" "d = lines s ! (n - 1)"
  shows "\<exists>s'. db_cache_update n d s = (False, s') \<and> base s' \<and> text_ok s' \<and> reads s s' \<and>
    c_nlines s' = c_nlines s"
  using assms
  by (auto simp: db_cache_update_def base_def count_ok_def text_ok_def reads_def uncached_def Let_def)

lemma db_fetch_line:
  assumes r: "base s" and n: "0 < n" "n \<le> length (lines s)"
  shows "\<exists>s'. db_fetch n s = Some (False, lines s ! (n - 1), s') \<and> keeps s s' \<and> text_ok s'"
proof -
  have "settled (db s)" using r by (simp add: base_def)
  from tree.get_ok [OF this n]
  have g: "rec_get rec_vpipe n (db s) = Some (RET_SUCCESS, Some (lines s ! (n - 1)), db s)" .
  obtain s' where "db_cache_update n (lines s ! (n - 1)) s = (False, s')" "base s'" "text_ok s'" "reads s s'"
    using db_cache_update_base [OF r n refl] by blast
  with g show ?thesis by (simp add: db_fetch_def keeps_def)
qed

lemma db_fetch_none:
  assumes r: "base s" and n: "length (lines s) < n"
  shows "db_fetch n s = Some (True, [], s)"
  using tree.get_out [of "db s" n rec_vpipe] assms by (simp add: db_fetch_def base_def)

text \<open>
  A line that exists is found; its text is right when the cached text was, and whenever it does
  not come from the cache.
\<close>

lemma db_get_base:
  assumes r: "base s" and n: "0 < n" "n \<le> length (lines s)" and t: "\<not> sp_tinput (cur s) \<or> nc"
  shows "\<exists>l s'. db_get n nc s = Some (False, l, s') \<and> keeps s s' \<and>
    (text_ok s \<or> nc \<or> c_lno s \<noteq> n \<longrightarrow> l = lines s ! (n - 1) \<and> text_ok s')"
proof -
  have "\<exists>l s'. db_get_cached n s = Some (False, l, s') \<and> keeps s s' \<and>
      (text_ok s \<or> c_lno s \<noteq> n \<longrightarrow> l = lines s ! (n - 1) \<and> text_ok s')"
  proof (cases "n = c_lno s")
    case True
    then show ?thesis using n keeps_refl [OF r] by (auto simp: db_get_cached_def text_ok_def)
  next
    case False
    obtain s' where "db_fetch n (s\<lparr>c_lno := 0\<rparr>) = Some (False, lines s ! (n - 1), s')"
      "keeps (s\<lparr>c_lno := 0\<rparr>) s'" "text_ok s'"
      using db_fetch_line [OF keepsD(1) [OF keeps_uncache [OF r]], of n] n by auto
    with False keeps_trans [OF keeps_uncache [OF r]] show ?thesis by (auto simp: db_get_cached_def)
  qed
  moreover have "has_file s" using r by (simp add: base_def)
  ultimately show ?thesis
    using db_fetch_line [OF r n] t n by (cases nc) (auto simp: db_get_def)
qed

lemma db_get_line:
  assumes "ready s" "0 < n" "n \<le> length (lines s)" "\<not> sp_tinput (cur s) \<or> nc"
  shows "\<exists>s'. db_get n nc s = Some (False, lines s ! (n - 1), s') \<and> ready s' \<and> reads s s'"
  using db_get_base [of s n nc] assms by (auto simp: ready_def keeps_def)

lemma db_get_beyond:
  assumes r: "base s" and n: "length (lines s) < n" and t: "\<not> sp_tinput (cur s) \<or> nc"
  shows "\<exists>s'. db_get n nc s = Some (True, [], s') \<and> keeps s s'"
proof -
  have "has_file s" and "n \<noteq> 0" and "c_lno s \<noteq> n"
    using r n by (auto simp: base_def count_ok_def)
  moreover have "db_fetch n (s\<lparr>c_lno := 0\<rparr>) = Some (True, [], s\<lparr>c_lno := 0\<rparr>)"
    using db_fetch_none [OF keepsD(1) [OF keeps_uncache [OF r]]] n by simp
  ultimately show ?thesis
    using db_fetch_none [OF r n] t keeps_refl [OF r] keeps_uncache [OF r]
    by (auto simp: db_get_def db_get_cached_def)
qed

lemma db_get_zero [simp]: "db_get 0 nc s = Some (True, [], s)"
  by (simp add: db_get_def)

lemma db_last_base:
  assumes r: "base s" and t: "\<not> sp_tinput (cur s)"
  shows "\<exists>s'. db_last s = Some (False, length (lines s), s') \<and> keeps s s'"
proof (cases "c_nlines s = 0")
  case False
  then show ?thesis using r t by (auto simp: db_last_def base_def count_ok_def keeps_refl)
next
  case nl: True
  have f: "has_file s" and st: "settled (db s)" using r by (auto simp: base_def)
  show ?thesis
  proof (cases "lines s = []")
    case True
    then obtain d' where d: "rec_seq rec_vpipe R_LAST 0 (db s) = Some (RET_SPECIAL, None, d')"
      "settled d'" "r_recs d' = []"
      using tree.last_empty [OF st] by blast
    have "keeps s (s\<lparr>db := d'\<rparr>)"
      using r d True by (auto simp: keeps_def base_def count_ok_def text_ok_def)
    with d True nl f show ?thesis by (auto simp: db_last_def)
  next
    case False
    then obtain d' where d: "rec_seq rec_vpipe R_LAST 0 (db s) =
        Some (RET_SUCCESS, Some (length (lines s), last (lines s)), d')"
      "settled d'" "r_recs d' = lines s"
      using tree.last_ok [OF st] by blast
    let ?s = "s\<lparr>db := d'\<rparr>" and ?n = "length (lines s)"
    have 1: "base ?s" "reads s ?s" using r d by (auto simp: base_def count_ok_def)
    have "0 < ?n" "?n \<le> length (lines ?s)" "last (lines s) = lines ?s ! (?n - 1)"
      using False d by (auto simp: last_conv_nth)
    from db_cache_update_base [OF 1(1) this] obtain s2
      where s2: "db_cache_update ?n (last (lines s)) ?s = (False, s2)" "base s2" "text_ok s2" "reads ?s s2"
      by blast
    have l2: "lines s2 = lines s" and c2: "cur s2 = cur s" using reads_fields [OF s2(4)] d by auto
    have "base (s2\<lparr>c_nlines := ?n\<rparr>)" "text_ok (s2\<lparr>c_nlines := ?n\<rparr>)"
      using s2(2,3) l2 by (auto simp: base_def count_ok_def text_ok_def)
    moreover have "reads s (s2\<lparr>c_nlines := ?n\<rparr>)"
      using 1(2) s2(4) reads_cache_update(4) by (blast intro: reads_trans)
    ultimately show ?thesis using d s2 nl f t c2 by (simp add: db_last_def Let_def keeps_def)
  qed
qed

lemma db_exist_base:
  assumes r: "base s" and t: "\<not> sp_tinput (cur s)"
  shows "\<exists>s'. db_exist n s = Some (0 < n \<and> n \<le> length (lines s), s') \<and> keeps s s'"
proof (cases "n = 0 \<or> c_nlines s \<noteq> 0")
  case True
  then show ?thesis using r t by (auto simp: db_exist_def base_def count_ok_def keeps_refl)
next
  case False
  have f: "has_file s" using r by (simp add: base_def)
  show ?thesis
  proof (cases "n \<le> length (lines s)")
    case True
    with False db_get_base [OF r, of n False] t f show ?thesis by (auto simp: db_exist_def)
  next
    case ge: False
    with False db_get_beyond [OF r, of n False] t f show ?thesis by (auto simp: db_exist_def)
  qed
qed

lemma db_eget_base:
  assumes r: "base s" and t: "\<not> sp_tinput (cur s)"
  shows "\<exists>l s'. db_eget n s =
      (if 0 < n \<and> n \<le> length (lines s) then Some (False, l, False, s')
       else Some (True, [], n \<le> 1 \<and> lines s = [], s')) \<and> keeps s s' \<and>
      (text_ok s \<longrightarrow> l = lines s ! (n - 1))"
proof (cases "0 < n \<and> n \<le> length (lines s)")
  case True
  then show ?thesis using db_get_base [OF r, of n False] t by (auto simp: db_eget_def)
next
  case False
  then obtain s1 where g: "db_get n False s = Some (True, [], s1)" "keeps s s1"
    using db_get_beyond [OF r, of n False] t keeps_refl [OF r] by (cases "n = 0") auto
  have b1: "base s1" and t1: "\<not> sp_tinput (cur s1)" and l1: "lines s1 = lines s"
    using keepsD(1,2) [OF g(2)] reads_fields t by auto
  obtain s2 where l: "db_last s1 = Some (False, length (lines s), s2)" "keeps s s2"
    using db_last_base [OF b1 t1] l1 g(2) by (auto intro: keeps_trans)
  show ?thesis
    using g l False by (cases "n = 0 \<or> n = 1") (auto simp: db_eget_def)
qed

lemma nonblank_ready:
  assumes r: "ready s" and t: "\<not> sp_tinput (cur s)" and n: "0 < n" "n \<le> length (lines s)"
  shows "\<exists>s'. nonblank n off s =
      Some (False, if off < length (lines s ! (n - 1)) then first_nonblank off (lines s ! (n - 1)) else 0, s')
      \<and> ready s' \<and> reads s s'"
  using db_eget_base [of s n] r t n
  by (auto simp: nonblank_def ready_def dest: keepsD(1,2) keepsD(3))

text \<open>The column \<open>nonblank\<close> finds: the first non-blank at or after the start, or the last column.\<close>

lemma first_nonblank_bounds:
  assumes "off < length l"
  shows "off \<le> first_nonblank off l" and "first_nonblank off l < length l"
  using assms length_takeWhile_le [of is_blank "drop off l"]
  by (auto simp: first_nonblank_def Let_def)

lemma first_nonblank_spec:
  assumes "off < length l"
  shows "\<forall>i. off \<le> i \<and> i < first_nonblank off l \<longrightarrow> is_blank (l ! i)"
    and "is_blank (l ! first_nonblank off l) \<longrightarrow> (\<forall>i. off \<le> i \<and> i < length l \<longrightarrow> is_blank (l ! i))"
proof -
  let ?bl = "takeWhile is_blank (drop off l)"
  have bl: "\<And>i. i < length ?bl \<Longrightarrow> is_blank (l ! (off + i))"
    by (metis add.commute length_takeWhile_le nth_drop nth_mem assms less_imp_le_nat order_less_le_trans
        set_takeWhileD takeWhile_nth)
  show "\<forall>i. off \<le> i \<and> i < first_nonblank off l \<longrightarrow> is_blank (l ! i)"
  proof (intro allI impI)
    fix i assume i: "off \<le> i \<and> i < first_nonblank off l"
    then have "i - off < length ?bl" by (auto simp: first_nonblank_def Let_def split: if_splits)
    with bl [of "i - off"] i show "is_blank (l ! i)" by simp
  qed
  show "is_blank (l ! first_nonblank off l) \<longrightarrow> (\<forall>i. off \<le> i \<and> i < length l \<longrightarrow> is_blank (l ! i))"
  proof (intro impI allI)
    fix i assume b: "is_blank (l ! first_nonblank off l)" and i: "off \<le> i \<and> i < length l"
    have "\<not> off + length ?bl < length l"
    proof
      assume lt: "off + length ?bl < length l"
      then have "length ?bl < length (drop off l)" by simp
      then have "\<not> is_blank (drop off l ! length ?bl)" by (rule nth_length_takeWhile)
      with b lt show False by (simp add: first_nonblank_def)
    qed
    with i have "i - off < length ?bl" by auto
    with bl [of "i - off"] i show "is_blank (l ! i)" by simp
  qed
qed

end
