(* ===== verification/CharStream.thy ===== *)
theory CharStream
  imports LineRead
begin

section \<open>The character stream (vi/getc.c)\<close>

text \<open>
  The motions that look at text character by character read the file as a stream: the characters of
  a line, then the end of the line; a line of white space only is one empty-line item. The operations
  move a \<^verbatim>\<open>VCS\<close> one item forward or backward, or over white space.

  The lemmas relate the stream to the file: \<open>items\<close> lists everything a walk can see, a stream state
  stands at one of its places, \<open>cs_next\<close> and \<open>cs_prev\<close> go to the next and the previous place and stop at the
  ends, and the loops over white space end, at the first place that is not white space.
\<close>

subsection \<open>State\<close>

datatype cs_flag = CS_NONE | CS_EMP | CS_EOF | CS_EOL | CS_SOF

record vcs =
  cs_lno :: nat
  cs_cno :: nat
  cs_bp :: bytes
  cs_len :: nat
  cs_ch :: char
  cs_flags :: cs_flag

definition v_isempty :: "bytes \<Rightarrow> bool" where
  "v_isempty l \<longleftrightarrow> (\<forall>c \<in> set l. is_blank c)"

subsection \<open>Operations\<close>

text \<open>
  A line that was just fetched: empty, or at column \<open>cno\<close>. Reading a character beyond the line's
  end is undefined.
\<close>

definition cs_line :: "nat \<Rightarrow> vcs \<Rightarrow> vcs option" where
  "cs_line cno cs =
     (if cs_len cs = 0 \<or> v_isempty (take (cs_len cs) (cs_bp cs)) then Some (cs\<lparr>cs_cno := 0, cs_flags := CS_EMP\<rparr>)
      else if cno < length (cs_bp cs) then Some (cs\<lparr>cs_cno := cno, cs_flags := CS_NONE, cs_ch := cs_bp cs ! cno\<rparr>)
      else None)"

definition cs_init :: "vcs \<Rightarrow> ed \<Rightarrow> (bool \<times> vcs \<times> ed) option" where
  "cs_init cs s =
     do {
       (e, p, _, s1) \<leftarrow> db_eget (cs_lno cs) s;
       if e then Some (True, cs\<lparr>cs_bp := p, cs_len := length p\<rparr>, s1)
       else do {
         cs1 \<leftarrow> cs_line (cs_cno cs) (cs\<lparr>cs_bp := p, cs_len := length p\<rparr>);
         Some (False, cs1, s1)
       }
     }"

text \<open>\<^verbatim>\<open>cs_next\<close>. A failed \<^verbatim>\<open>db_get\<close> sets the length to 0 and leaves the buffer pointer alone.\<close>

definition cs_next :: "vcs \<Rightarrow> ed \<Rightarrow> (bool \<times> vcs \<times> ed) option" where
  "cs_next cs s =
     (case cs_flags cs of
        CS_NONE \<Rightarrow>
          if cs_cno cs + 1 = cs_len cs then Some (False, cs\<lparr>cs_flags := CS_EOL\<rparr>, s)
          else if cs_cno cs + 1 < length (cs_bp cs)
          then Some (False, cs\<lparr>cs_cno := cs_cno cs + 1, cs_ch := cs_bp cs ! (cs_cno cs + 1)\<rparr>, s)
          else None
      | CS_EOF \<Rightarrow> Some (False, cs, s)
      | CS_SOF \<Rightarrow> None
      | _ \<Rightarrow>
          do {
            (e, p, s1) \<leftarrow> db_get (cs_lno cs + 1) False s;
            if e then Some (False, cs\<lparr>cs_len := 0, cs_flags := CS_EOF\<rparr>, s1)
            else do {
              cs1 \<leftarrow> cs_line 0 (cs\<lparr>cs_lno := cs_lno cs + 1, cs_bp := p, cs_len := length p\<rparr>);
              Some (False, cs1, s1)
            }
          })"

text \<open>\<^verbatim>\<open>cs_prev\<close>, and its case for a line before the current one.\<close>

definition prev_line :: "vcs \<Rightarrow> ed \<Rightarrow> (bool \<times> vcs \<times> ed) option" where
  "prev_line cs s =
     (if cs_lno cs = 1 then Some (False, cs\<lparr>cs_flags := CS_SOF\<rparr>, s)
      else do {
        (e, p, s1) \<leftarrow> db_get (cs_lno cs - 1) False s;
        if e then Some (True, cs\<lparr>cs_bp := [], cs_len := 0\<rparr>, s1)
        else do {
          cs1 \<leftarrow> cs_line (length p - 1) (cs\<lparr>cs_lno := cs_lno cs - 1, cs_bp := p, cs_len := length p\<rparr>);
          Some (False, cs1, s1)
        }
      })"

definition cs_prev :: "vcs \<Rightarrow> ed \<Rightarrow> (bool \<times> vcs \<times> ed) option" where
  "cs_prev cs s =
     (case cs_flags cs of
        CS_SOF \<Rightarrow> Some (False, cs, s)
      | CS_EMP \<Rightarrow> prev_line cs s
      | CS_EOL \<Rightarrow> prev_line cs s
      | _ \<Rightarrow>
          if cs_cno cs = 0 then
            Some (False, cs\<lparr>cs_flags := if cs_lno cs = 1 then CS_SOF else CS_EOL\<rparr>, s)
          else if cs_cno cs - 1 < length (cs_bp cs)
          then Some (False, cs\<lparr>cs_cno := cs_cno cs - 1, cs_ch := cs_bp cs ! (cs_cno cs - 1)\<rparr>, s)
          else None)"

text \<open>
  The loops. \<^verbatim>\<open>cs_fblank\<close> and \<^verbatim>\<open>cs_bblank\<close> have the same body around \<^verbatim>\<open>cs_next\<close> and
  \<^verbatim>\<open>cs_prev\<close>.
\<close>

type_synonym move = "vcs \<Rightarrow> ed \<Rightarrow> (bool \<times> vcs \<times> ed) option"

partial_function (option) eat_blank :: "move \<Rightarrow> vcs \<Rightarrow> ed \<Rightarrow> (bool \<times> vcs \<times> ed) option" where
  "eat_blank mv cs s =
     do {
       (e, cs1, s1) \<leftarrow> mv cs s;
       if e then Some (True, cs1, s1)
       else if cs_flags cs1 = CS_EOL \<or> cs_flags cs1 = CS_EMP \<or> cs_flags cs1 = CS_NONE \<and> is_blank (cs_ch cs1)
       then eat_blank mv cs1 s1
       else Some (False, cs1, s1)
     }"

definition cs_fblank :: move where "cs_fblank = eat_blank cs_next"

definition cs_bblank :: move where "cs_bblank = eat_blank cs_prev"

partial_function (option) fspace_loop :: "vcs \<Rightarrow> ed \<Rightarrow> (bool \<times> vcs \<times> ed) option" where
  "fspace_loop cs s =
     do {
       (e, cs1, s1) \<leftarrow> cs_next cs s;
       if e then Some (True, cs1, s1)
       else if cs_flags cs1 \<noteq> CS_NONE \<or> \<not> is_blank (cs_ch cs1) then Some (False, cs1, s1)
       else fspace_loop cs1 s1
     }"

definition cs_fspace :: move where
  "cs_fspace cs s =
     (if cs_flags cs \<noteq> CS_NONE \<or> \<not> is_blank (cs_ch cs) then Some (False, cs, s) else fspace_loop cs s)"

subsection \<open>What a walk sees\<close>

text \<open>
  An item is a flag, a position and, for a character, the character. A walk from one item to the next
  goes down a list of items that ends in an end-of-file or start-of-file item.
\<close>

record item =
  i_flag :: cs_flag
  i_lno :: nat
  i_cno :: nat
  i_ch :: char

definition at_item :: "vcs \<Rightarrow> item \<Rightarrow> bool" where
  "at_item cs i \<longleftrightarrow> cs_flags cs = i_flag i \<and> cs_lno cs = i_lno i \<and> cs_cno cs = i_cno i \<and>
     (i_flag i = CS_NONE \<longrightarrow> cs_ch cs = i_ch i)"

definition beyond :: "item list \<Rightarrow> item list" where
  "beyond its = (case its of i # j # is \<Rightarrow> j # is | _ \<Rightarrow> its)"

definition white :: "item \<Rightarrow> bool" where
  "white i \<longleftrightarrow> i_flag i = CS_EOL \<or> i_flag i = CS_EMP \<or> i_flag i = CS_NONE \<and> is_blank (i_ch i)"

definition inner :: "item \<Rightarrow> bool" where
  "inner i \<longleftrightarrow> i_flag i = CS_NONE \<or> i_flag i = CS_EOL \<or> i_flag i = CS_EMP"

definition blank_char :: "item \<Rightarrow> bool" where
  "blank_char i \<longleftrightarrow> i_flag i = CS_NONE \<and> is_blank (i_ch i)"

text \<open>
  The contract of a direction of the stream: \<open>at cs s its\<close> says that the walk stands at the head of \<open>its\<close> and
  has the rest before it.
\<close>

locale walk =
  fixes mv :: move and stands :: "vcs \<Rightarrow> ed \<Rightarrow> item list \<Rightarrow> bool" and stop :: cs_flag
  assumes stands_item: "stands cs s its \<Longrightarrow> its \<noteq> [] \<and> at_item cs (hd its)"
    and stands_ready: "stands cs s its \<Longrightarrow> ready s \<and> \<not> sp_tinput (cur s)"
    and stands_reads: "stands cs s its \<Longrightarrow> reads s s' \<Longrightarrow> ready s' \<Longrightarrow> stands cs s' its"
    and stands_ends: "stands cs s its \<Longrightarrow> i_flag (last its) = stop \<and> (\<forall>i \<in> set (butlast its). inner i)"
    and step: "stands cs s its \<Longrightarrow> \<exists>cs' s'. mv cs s = Some (False, cs', s') \<and> stands cs' s' (beyond its) \<and> reads s s'"
    and stop: "stop = CS_EOF \<or> stop = CS_SOF"

context walk
begin

lemma stands_Cons: "stands cs s (i # is) \<Longrightarrow> at_item cs i"
  using stands_item by fastforce

lemma stands_flag: "stands cs s its \<Longrightarrow> cs_flags cs = i_flag (hd its)"
  using stands_item by (simp add: at_item_def)

lemma stands_last: "stands cs s [i] \<Longrightarrow> i_flag i = stop"
  using stands_ends by fastforce

lemma stands_not_last: "stands cs s (i # j # is) \<Longrightarrow> i_flag i \<noteq> stop"
  using stands_ends stop by (fastforce simp: inner_def)

text \<open>
  A loop that moves on while the item it is at has some property, which the final item has not, ends, at the
  first item that has it not.
\<close>

lemma loop_walk:
  assumes eq: "\<And>cs s. f cs s = do {
      (e, cs1, s1) \<leftarrow> mv cs s;
      if e then Some (True, cs1, s1) else if P cs1 then f cs1 s1 else Some (False, cs1, s1) }"
    and same: "\<And>cs i. at_item cs i \<Longrightarrow> P cs \<longleftrightarrow> Q i" and fin: "\<And>i. Q i \<Longrightarrow> i_flag i \<noteq> stop"
    and at: "stands cs s its"
  shows "\<exists>cs' s'. f cs s = Some (False, cs', s') \<and> stands cs' s' (dropWhile Q (beyond its)) \<and> reads s s'"
  using at
proof (induction "length its" arbitrary: its cs s rule: less_induct)
  case less
  obtain cs1 s1 where s1: "mv cs s = Some (False, cs1, s1)" "stands cs1 s1 (beyond its)" "reads s s1"
    using step [OF less.prems] by blast
  obtain i r where b: "beyond its = i # r" using stands_item [OF s1(2)] by (cases "beyond its") auto
  have "P cs1 \<longleftrightarrow> Q i" using same stands_Cons s1(2) b by metis
  then have f: "f cs s = (if Q i then f cs1 s1 else Some (False, cs1, s1))"
    by (subst eq) (simp add: s1(1))
  show ?case
  proof (cases "Q i")
    case False
    then show ?thesis using s1(2,3) b f by simp
  next
    case True
    have "r \<noteq> []"
    proof
      assume "r = []"
      then have "i_flag i = stop" using stands_last s1(2) b by simp
      then show False using True fin by blast
    qed
    then have len: "length (beyond its) < length its" "beyond (i # r) = r"
      using b by (auto simp: beyond_def split: list.splits)
    obtain cs' s' where "f cs1 s1 = Some (False, cs', s')"
      "stands cs' s' (dropWhile Q (beyond (beyond its)))" "reads s1 s'"
      using less.hyps [OF len(1) s1(2)] by blast
    then show ?thesis using b True f len(2) reads_trans [OF s1(3)] by auto
  qed
qed

lemma eat_blank_walk:
  assumes "stands cs s its"
  shows "\<exists>cs' s'. eat_blank mv cs s = Some (False, cs', s') \<and> stands cs' s' (dropWhile white (beyond its)) \<and> reads s s'"
  by (rule loop_walk [OF eat_blank.simps _ _ assms]) (use stop in \<open>auto simp: at_item_def white_def\<close>)

end

subsection \<open>Forward\<close>

text \<open>
  The items of a line from a column on, of the lines after line \<open>n\<close>, and the end of the file, which is reported at
  the last position.
\<close>

definition char_item :: "nat \<Rightarrow> bytes \<Rightarrow> nat \<Rightarrow> item" where
  "char_item n l c = \<lparr>i_flag = CS_NONE, i_lno = n, i_cno = c, i_ch = l ! c\<rparr>"

definition mark_item :: "cs_flag \<Rightarrow> nat \<Rightarrow> nat \<Rightarrow> item" where
  "mark_item f n c = \<lparr>i_flag = f, i_lno = n, i_cno = c, i_ch = CHR 0x00\<rparr>"

definition chars_on :: "nat \<Rightarrow> bytes \<Rightarrow> nat \<Rightarrow> item list" where
  "chars_on n l c = map (char_item n l) [c..<length l] @ [mark_item CS_EOL n (length l - 1)]"

definition line_on :: "nat \<Rightarrow> bytes \<Rightarrow> item list" where
  "line_on n l = (if v_isempty l then [mark_item CS_EMP n 0] else chars_on n l 0)"

definition lines_on :: "nat \<Rightarrow> bytes list \<Rightarrow> item list" where
  "lines_on n ls = concat (map (\<lambda>k. line_on k (ls ! (k - 1))) [n + 1..<length ls + 1]) @
     [mark_item CS_EOF (length ls) (if v_isempty (last ls) then 0 else length (last ls) - 1)]"

definition stands_on :: "vcs \<Rightarrow> ed \<Rightarrow> item list \<Rightarrow> bool" where
  "stands_on cs s its \<longleftrightarrow> ready s \<and> \<not> sp_tinput (cur s) \<and> 0 < cs_lno cs \<and> cs_lno cs \<le> length (lines s) \<and>
     (let n = cs_lno cs; l = lines s ! (n - 1) in
      case cs_flags cs of
        CS_NONE \<Rightarrow> cs_bp cs = l \<and> cs_len cs = length l \<and> \<not> v_isempty l \<and> cs_cno cs < length l \<and>
          cs_ch cs = l ! cs_cno cs \<and> its = chars_on n l (cs_cno cs) @ lines_on n (lines s)
      | CS_EOL \<Rightarrow> \<not> v_isempty l \<and> cs_cno cs = length l - 1 \<and> its = mark_item CS_EOL n (cs_cno cs) # lines_on n (lines s)
      | CS_EMP \<Rightarrow> v_isempty l \<and> cs_cno cs = 0 \<and> its = mark_item CS_EMP n 0 # lines_on n (lines s)
      | CS_EOF \<Rightarrow> n = length (lines s) \<and> cs_cno cs = (if v_isempty l then 0 else length l - 1) \<and>
          its = [mark_item CS_EOF n (cs_cno cs)]
      | CS_SOF \<Rightarrow> False)"

lemma item_simps [simp]:
  "i_flag (char_item n l c) = CS_NONE" "i_lno (char_item n l c) = n" "i_cno (char_item n l c) = c"
  "i_ch (char_item n l c) = l ! c" "i_flag (mark_item f n c) = f" "i_lno (mark_item f n c) = n"
  "i_cno (mark_item f n c) = c"
  by (simp_all add: char_item_def mark_item_def)

lemma chars_on_Cons: "c < length l \<Longrightarrow> chars_on n l c = char_item n l c # chars_on n l (Suc c)"
  by (simp add: chars_on_def upt_conv_Cons)

lemma chars_on_end: "chars_on n l (length l) = [mark_item CS_EOL n (length l - 1)]"
  by (simp add: chars_on_def)

lemma v_isempty_Nil [simp]: "v_isempty []"
  by (simp add: v_isempty_def)

lemma lines_on_Cons: "n < length ls \<Longrightarrow> lines_on n ls = line_on (n + 1) (ls ! n) @ lines_on (n + 1) ls"
  by (simp add: lines_on_def upt_conv_Cons del: upt_Suc)

lemma lines_on_end: "lines_on (length ls) ls = [mark_item CS_EOF (length ls) (if v_isempty (last ls) then 0 else length (last ls) - 1)]"
  by (simp add: lines_on_def)

lemma lines_on_not_Nil [simp]: "lines_on n ls \<noteq> []" "chars_on n l c \<noteq> []" "line_on n l \<noteq> []"
  by (simp_all add: lines_on_def chars_on_def line_on_def)

lemma lines_on_stop: "i_flag (last (lines_on n ls)) = CS_EOF" "i \<in> set (butlast (lines_on n ls)) \<Longrightarrow> inner i"
  by (auto simp: inner_def lines_on_def line_on_def chars_on_def split: if_splits)

lemma chars_on_stop: "i \<in> set (chars_on n l c) \<Longrightarrow> inner i"
  by (auto simp: inner_def chars_on_def)

lemma hd_line_on: "hd (line_on n l @ xs) = (if v_isempty l then mark_item CS_EMP n 0 else char_item n l 0)"
proof (cases "v_isempty l")
  case False
  then have "0 < length l" by auto
  then show ?thesis using False chars_on_Cons [of 0 l n] by (simp add: line_on_def)
qed (simp add: line_on_def)

text \<open>Fetching the next line, or finding that there is none.\<close>

lemma cs_line_on:
  assumes "ready s" "\<not> sp_tinput (cur s)" "n < length (lines s)" "l = lines s ! n"
  shows "\<exists>cs'. cs_line 0 (cs\<lparr>cs_lno := n + 1, cs_bp := l, cs_len := length l\<rparr>) = Some cs' \<and>
    stands_on cs' s (lines_on n (lines s))"
proof (cases "v_isempty l")
  case True
  then show ?thesis using assms by (simp add: cs_line_def stands_on_def lines_on_Cons line_on_def Let_def)
next
  case False
  then have "l \<noteq> []" by auto
  then show ?thesis using assms False by (simp add: cs_line_def stands_on_def lines_on_Cons line_on_def Let_def)
qed

lemma next_line_on:
  assumes at: "ready s" "\<not> sp_tinput (cur s)" "0 < cs_lno cs" "cs_lno cs \<le> length (lines s)"
    and fl: "cs_flags cs = CS_EOL \<or> cs_flags cs = CS_EMP"
    and c: "cs_cno cs = (if v_isempty (lines s ! (cs_lno cs - 1)) then 0 else length (lines s ! (cs_lno cs - 1)) - 1)"
  shows "\<exists>cs' s'. cs_next cs s = Some (False, cs', s') \<and> stands_on cs' s' (lines_on (cs_lno cs) (lines s)) \<and> reads s s'"
proof (cases "cs_lno cs < length (lines s)")
  case True
  obtain s1 where s1: "db_get (cs_lno cs + 1) False s = Some (False, lines s ! cs_lno cs, s1)" "ready s1" "reads s s1"
    using db_get_line [OF at(1), of "cs_lno cs + 1" False] True at(2) by auto
  note f = reads_fields [OF s1(3)]
  have t: "\<not> sp_tinput (cur s1)" "lines s1 = lines s" using f(2,19) at(2) by simp_all
  obtain cs' where "cs_line 0 (cs\<lparr>cs_lno := cs_lno cs + 1, cs_bp := lines s ! cs_lno cs, cs_len := length (lines s ! cs_lno cs)\<rparr>) = Some cs'"
    "stands_on cs' s1 (lines_on (cs_lno cs) (lines s))"
    using cs_line_on [OF s1(2) t(1), of "cs_lno cs" _ cs] True t(2) by auto
  then show ?thesis using s1 fl by (auto simp: cs_next_def)
next
  case False
  then have n: "cs_lno cs = length (lines s)" "last (lines s) = lines s ! (cs_lno cs - 1)"
    using at(3,4) by (auto simp: last_conv_nth)
  have "base s" using at(1) by (simp add: ready_def)
  then obtain s1 where s1: "db_get (cs_lno cs + 1) False s = Some (True, [], s1)" "keeps s s1"
    using db_get_beyond [of s "cs_lno cs + 1" False] n(1) at(2) by auto
  note f = reads_fields [OF keepsD(2) [OF s1(2)]]
  have t: "\<not> sp_tinput (cur s1)" "lines s1 = lines s" using f(2,19) at(2) by simp_all
  have "ready s1" using keepsD(1,3) [OF s1(2)] at(1) by (simp add: ready_def)
  then have "stands_on (cs\<lparr>cs_len := 0, cs_flags := CS_EOF\<rparr>) s1 (lines_on (cs_lno cs) (lines s))"
    using t n at(3) c by (simp add: stands_on_def lines_on_end Let_def)
  then show ?thesis using s1(1) keepsD(2) [OF s1(2)] fl by (auto simp: cs_next_def)
qed

lemma cs_next_on:
  assumes at: "stands_on cs s its"
  shows "\<exists>cs' s'. cs_next cs s = Some (False, cs', s') \<and> stands_on cs' s' (beyond its) \<and> reads s s'"
proof -
  let ?n = "cs_lno cs" and ?l = "lines s ! (cs_lno cs - 1)"
  have a: "ready s" "\<not> sp_tinput (cur s)" "0 < ?n" "?n \<le> length (lines s)" using at by (simp_all add: stands_on_def)
  have b: "beyond (i # lines_on n ls) = lines_on n ls" for i n ls
    by (cases "lines_on n ls") (use lines_on_not_Nil in \<open>simp_all add: beyond_def\<close>)
  show ?thesis
  proof (cases "cs_flags cs")
    case CS_NONE
    then have c: "cs_bp cs = ?l" "cs_len cs = length ?l" "\<not> v_isempty ?l" "cs_cno cs < length ?l" "cs_ch cs = ?l ! cs_cno cs"
      "its = chars_on ?n ?l (cs_cno cs) @ lines_on ?n (lines s)"
      using at by (simp_all add: stands_on_def Let_def)
    show ?thesis
    proof (cases "Suc (cs_cno cs) = length ?l")
      case True
      have l1: "length ?l - 1 = cs_cno cs" using True by simp
      have "chars_on ?n ?l (Suc (cs_cno cs)) = [mark_item CS_EOL ?n (cs_cno cs)]"
        unfolding True using chars_on_end [of ?n ?l] l1 by simp
      then have "beyond its = mark_item CS_EOL ?n (cs_cno cs) # lines_on ?n (lines s)"
        using c(6) chars_on_Cons [OF c(4)] by (simp add: beyond_def)
      then have "stands_on (cs\<lparr>cs_flags := CS_EOL\<rparr>) s (beyond its)"
        using c(3) a l1 by (simp add: stands_on_def Let_def)
      then show ?thesis using CS_NONE c(2) True by (simp add: cs_next_def)
    next
      case False
      then have s: "Suc (cs_cno cs) < length ?l" using c(4) by simp
      then have "beyond its = chars_on ?n ?l (Suc (cs_cno cs)) @ lines_on ?n (lines s)"
        using c(6) chars_on_Cons [OF c(4)] chars_on_Cons [OF s] by (simp add: beyond_def)
      then show ?thesis using CS_NONE c a s by (simp add: cs_next_def stands_on_def Let_def)
    qed
  next
    case CS_EMP
    then show ?thesis using next_line_on [OF a] at b by (auto simp: stands_on_def Let_def)
  next
    case CS_EOF
    then show ?thesis using at by (auto simp: cs_next_def stands_on_def beyond_def Let_def)
  next
    case CS_EOL
    then show ?thesis using next_line_on [OF a] at b by (auto simp: stands_on_def Let_def)
  next
    case CS_SOF
    then show ?thesis using at by (simp add: stands_on_def Let_def)
  qed
qed

lemma stands_on_item: "stands_on cs s its \<Longrightarrow> its \<noteq> [] \<and> at_item cs (hd its)"
  by (auto simp: stands_on_def Let_def at_item_def chars_on_Cons split: cs_flag.splits)

lemma append_stop:
  assumes "\<forall>i \<in> set xs. inner i"
  shows "i_flag (last (xs @ lines_on n ls)) = CS_EOF \<and> (\<forall>i \<in> set (butlast (xs @ lines_on n ls)). inner i)"
  using assms lines_on_stop by (simp add: butlast_append) blast

lemma stands_on_ends:
  assumes at: "stands_on cs s its"
  shows "i_flag (last its) = CS_EOF \<and> (\<forall>i \<in> set (butlast its). inner i)"
proof (cases "cs_flags cs = CS_EOF")
  case True
  then show ?thesis using at by (simp add: stands_on_def Let_def)
next
  case False
  then obtain xs where xs: "its = xs @ lines_on (cs_lno cs) (lines s)" "\<forall>i \<in> set xs. inner i"
  proof (cases "cs_flags cs")
    case CS_NONE
    show ?thesis
      by (rule that [of "chars_on (cs_lno cs) (lines s ! (cs_lno cs - 1)) (cs_cno cs)"])
        (use at CS_NONE chars_on_stop in \<open>auto simp: stands_on_def inner_def Let_def\<close>)
  next
    case CS_EMP
    show ?thesis by (rule that [of "[mark_item CS_EMP (cs_lno cs) 0]"]) (use at CS_EMP in \<open>auto simp: stands_on_def inner_def Let_def\<close>)
  next
    case CS_EOL
    show ?thesis by (rule that [of "[mark_item CS_EOL (cs_lno cs) (cs_cno cs)]"]) (use at CS_EOL in \<open>auto simp: stands_on_def inner_def Let_def\<close>)
  qed (use at in \<open>auto simp: stands_on_def inner_def Let_def\<close>)
  show ?thesis unfolding xs(1) by (rule append_stop [OF xs(2)])
qed

interpretation fwd: walk cs_next stands_on CS_EOF
proof
  fix cs s its
  assume at: "stands_on cs s its"
  show "its \<noteq> [] \<and> at_item cs (hd its)" by (rule stands_on_item [OF at])
  show "ready s \<and> \<not> sp_tinput (cur s)" using at by (simp add: stands_on_def)
  show "i_flag (last its) = CS_EOF \<and> (\<forall>i \<in> set (butlast its). inner i)" by (rule stands_on_ends [OF at])
  show "\<exists>cs' s'. cs_next cs s = Some (False, cs', s') \<and> stands_on cs' s' (beyond its) \<and> reads s s'"
    by (rule cs_next_on [OF at])
  show "stands_on cs s' its" if "reads s s'" "ready s'" for s'
  proof -
    have f: "lines s' = lines s" "cur s' = cur s" using reads_fields(2,19) [OF that(1)] by simp_all
    show ?thesis using at that(2) unfolding stands_on_def f by simp
  qed
qed simp

subsection \<open>Backward\<close>

text \<open>
  Going backward, a line is left from its first character, and what comes before line 1 is the start of the
  file. (Line 1 has no end-of-line item in front of it.)
\<close>

definition chars_back :: "nat \<Rightarrow> bytes \<Rightarrow> nat \<Rightarrow> item list" where
  "chars_back n l c = map (char_item n l) (rev [0..<Suc c]) @ (if n = 1 then [] else [mark_item CS_EOL n 0])"

definition line_back :: "nat \<Rightarrow> bytes \<Rightarrow> item list" where
  "line_back n l = (if v_isempty l then [mark_item CS_EMP n 0] else chars_back n l (length l - 1))"

definition lines_back :: "nat \<Rightarrow> bytes list \<Rightarrow> item list" where
  "lines_back n ls = concat (map (\<lambda>k. line_back k (ls ! (k - 1))) (rev [1..<n])) @ [mark_item CS_SOF 1 0]"

definition stands_back :: "vcs \<Rightarrow> ed \<Rightarrow> item list \<Rightarrow> bool" where
  "stands_back cs s its \<longleftrightarrow> ready s \<and> \<not> sp_tinput (cur s) \<and> 0 < cs_lno cs \<and> cs_lno cs \<le> length (lines s) \<and>
     (let n = cs_lno cs; l = lines s ! (n - 1) in
      case cs_flags cs of
        CS_NONE \<Rightarrow> cs_bp cs = l \<and> cs_len cs = length l \<and> \<not> v_isempty l \<and> cs_cno cs < length l \<and>
          cs_ch cs = l ! cs_cno cs \<and> its = chars_back n l (cs_cno cs) @ lines_back n (lines s)
      | CS_EOL \<Rightarrow> cs_cno cs = 0 \<and> its = mark_item CS_EOL n 0 # lines_back n (lines s)
      | CS_EMP \<Rightarrow> v_isempty l \<and> cs_cno cs = 0 \<and> its = mark_item CS_EMP n 0 # lines_back n (lines s)
      | CS_EOF \<Rightarrow> False
      | CS_SOF \<Rightarrow> n = 1 \<and> cs_cno cs = 0 \<and> its = [mark_item CS_SOF 1 0])"

lemma chars_back_0: "chars_back n l 0 = char_item n l 0 # (if n = 1 then [] else [mark_item CS_EOL n 0])"
  by (simp add: chars_back_def)

lemma chars_back_Suc: "chars_back n l (Suc c) = char_item n l (Suc c) # chars_back n l c"
  by (simp add: chars_back_def)

lemma lines_back_1 [simp]: "lines_back (Suc 0) ls = [mark_item CS_SOF 1 0]"
  by (simp add: lines_back_def)

lemma lines_back_Suc: "0 < n \<Longrightarrow> lines_back (Suc n) ls = line_back n (ls ! (n - 1)) @ lines_back n ls"
  by (simp add: lines_back_def)

lemma chars_back_not_Nil [simp]: "lines_back n ls \<noteq> []" "chars_back n l c \<noteq> []" "line_back n l \<noteq> []"
  by (simp_all add: lines_back_def chars_back_def line_back_def)

lemma beyond_Cons [simp]: "is \<noteq> [] \<Longrightarrow> beyond (i # is) = is"
  by (cases "is") (simp_all add: beyond_def)

lemma chars_back_stop: "i \<in> set (chars_back n l c) \<Longrightarrow> inner i"
  by (auto simp: inner_def chars_back_def split: if_splits)

lemma lines_back_stop:
  "i_flag (last (lines_back n ls)) = CS_SOF" "i \<in> set (butlast (lines_back n ls)) \<Longrightarrow> inner i"
  by (auto simp: inner_def lines_back_def line_back_def dest: chars_back_stop split: if_splits)

lemma stands_back_reads:
  assumes at: "stands_back cs s its" and that: "reads s s'" "ready s'"
  shows "stands_back cs s' its"
proof -
  have f: "lines s' = lines s" "cur s' = cur s" using reads_fields(2,19) [OF that(1)] by simp_all
  show ?thesis using at that(2) unfolding stands_back_def f by simp
qed

lemma prev_line_back:
  assumes at: "ready s" "\<not> sp_tinput (cur s)" "0 < cs_lno cs" "cs_lno cs \<le> length (lines s)" "cs_cno cs = 0"
  shows "\<exists>cs' s'. prev_line cs s = Some (False, cs', s') \<and> stands_back cs' s' (lines_back (cs_lno cs) (lines s)) \<and> reads s s'"
proof (cases "cs_lno cs = 1")
  case True
  then show ?thesis using at by (simp add: prev_line_def stands_back_def reads_refl)
next
  case False
  then obtain n where n: "cs_lno cs = Suc n" "0 < n" "n \<le> length (lines s)" using at(3,4) by (cases "cs_lno cs") auto
  let ?l = "lines s ! (n - 1)"
  obtain s1 where s1: "db_get n False s = Some (False, ?l, s1)" "ready s1" "reads s s1"
    using db_get_line [OF at(1) n(2,3), of False] at(2) by auto
  have t: "\<not> sp_tinput (cur s1)" "lines s1 = lines s" using reads_fields(2,19) [OF s1(3)] at(2) by simp_all
  show ?thesis
  proof (cases "v_isempty ?l")
    case True
    then show ?thesis using s1 t n by (simp add: prev_line_def cs_line_def stands_back_def lines_back_Suc line_back_def Let_def)
  next
    case False
    then have "?l \<noteq> []" by auto
    then show ?thesis using False s1 t n
      by (simp add: prev_line_def cs_line_def stands_back_def lines_back_Suc line_back_def Let_def)
  qed
qed

lemma cs_prev_back:
  assumes at: "stands_back cs s its"
  shows "\<exists>cs' s'. cs_prev cs s = Some (False, cs', s') \<and> stands_back cs' s' (beyond its) \<and> reads s s'"
proof -
  let ?n = "cs_lno cs" and ?l = "lines s ! (cs_lno cs - 1)"
  have a: "ready s" "\<not> sp_tinput (cur s)" "0 < ?n" "?n \<le> length (lines s)" using at by (simp_all add: stands_back_def)
  show ?thesis
  proof (cases "cs_flags cs")
    case CS_NONE
    then have c: "cs_bp cs = ?l" "cs_len cs = length ?l" "\<not> v_isempty ?l" "cs_cno cs < length ?l"
      "its = chars_back ?n ?l (cs_cno cs) @ lines_back ?n (lines s)"
      using at by (simp_all add: stands_back_def Let_def)
    show ?thesis
    proof (cases "cs_cno cs")
      case 0
      show ?thesis
      proof (cases "?n = 1")
        case True
        then show ?thesis using CS_NONE 0 c(5) a by (simp add: cs_prev_def chars_back_0 stands_back_def reads_refl)
      next
        case False
        then have "beyond its = mark_item CS_EOL ?n 0 # lines_back ?n (lines s)"
          using c(5) 0 by (simp add: chars_back_0)
        then show ?thesis using CS_NONE 0 a False by (simp add: cs_prev_def stands_back_def reads_refl)
      qed
    next
      case (Suc k)
      then have "beyond its = chars_back ?n ?l k @ lines_back ?n (lines s)"
        using c(5) by (simp add: chars_back_Suc)
      then show ?thesis using CS_NONE Suc c(1-4) a by (simp add: cs_prev_def stands_back_def Let_def reads_refl)
    qed
  next
    case CS_EMP
    then have "cs_cno cs = 0" "beyond its = lines_back ?n (lines s)" using at by (simp_all add: stands_back_def Let_def)
    then show ?thesis using prev_line_back [OF a] CS_EMP by (simp add: cs_prev_def)
  next
    case CS_EOF
    then show ?thesis using at by (simp add: stands_back_def Let_def)
  next
    case CS_EOL
    then have "cs_cno cs = 0" "beyond its = lines_back ?n (lines s)" using at by (simp_all add: stands_back_def Let_def)
    then show ?thesis using prev_line_back [OF a] CS_EOL by (simp add: cs_prev_def)
  next
    case CS_SOF
    then have "beyond its = its" using at by (simp add: stands_back_def beyond_def Let_def)
    then show ?thesis using at CS_SOF by (simp add: cs_prev_def reads_refl)
  qed
qed

lemma stands_back_item: "stands_back cs s its \<Longrightarrow> its \<noteq> [] \<and> at_item cs (hd its)"
proof (cases "cs_flags cs = CS_NONE")
  case True
  assume "stands_back cs s its"
  then show ?thesis using True
    by (cases "cs_cno cs") (auto simp: stands_back_def Let_def at_item_def chars_back_0 chars_back_Suc)
qed (auto simp: stands_back_def Let_def at_item_def split: cs_flag.splits)

lemma append_back_stop:
  assumes "\<forall>i \<in> set xs. inner i"
  shows "i_flag (last (xs @ lines_back n ls)) = CS_SOF \<and> (\<forall>i \<in> set (butlast (xs @ lines_back n ls)). inner i)"
  using assms lines_back_stop by (simp add: butlast_append) blast

lemma stands_back_ends:
  assumes at: "stands_back cs s its"
  shows "i_flag (last its) = CS_SOF \<and> (\<forall>i \<in> set (butlast its). inner i)"
proof (cases "cs_flags cs = CS_SOF")
  case True
  then show ?thesis using at by (simp add: stands_back_def Let_def)
next
  case False
  then obtain xs where xs: "its = xs @ lines_back (cs_lno cs) (lines s)" "\<forall>i \<in> set xs. inner i"
  proof (cases "cs_flags cs")
    case CS_NONE
    show ?thesis
      by (rule that [of "chars_back (cs_lno cs) (lines s ! (cs_lno cs - 1)) (cs_cno cs)"])
        (use at CS_NONE chars_back_stop in \<open>auto simp: stands_back_def inner_def Let_def\<close>)
  next
    case CS_EMP
    show ?thesis by (rule that [of "[mark_item CS_EMP (cs_lno cs) 0]"]) (use at CS_EMP in \<open>auto simp: stands_back_def inner_def Let_def\<close>)
  next
    case CS_EOL
    show ?thesis by (rule that [of "[mark_item CS_EOL (cs_lno cs) 0]"]) (use at CS_EOL in \<open>auto simp: stands_back_def inner_def Let_def\<close>)
  qed (use at in \<open>auto simp: stands_back_def inner_def Let_def\<close>)
  show ?thesis unfolding xs(1) by (rule append_back_stop [OF xs(2)])
qed

interpretation bwd: walk cs_prev stands_back CS_SOF
proof
  fix cs s its
  assume at: "stands_back cs s its"
  show "its \<noteq> [] \<and> at_item cs (hd its)" by (rule stands_back_item [OF at])
  show "ready s \<and> \<not> sp_tinput (cur s)" using at by (simp add: stands_back_def)
  show "i_flag (last its) = CS_SOF \<and> (\<forall>i \<in> set (butlast its). inner i)" by (rule stands_back_ends [OF at])
  show "\<exists>cs' s'. cs_prev cs s = Some (False, cs', s') \<and> stands_back cs' s' (beyond its) \<and> reads s s'"
    by (rule cs_prev_back [OF at])
  show "stands_back cs s' its" if "reads s s'" "ready s'" for s'
    by (rule stands_back_reads [OF at that])
qed simp

subsection \<open>Starting, and skipping blanks\<close>

text \<open>What lies ahead of a position and behind it.\<close>

definition ahead :: "nat \<Rightarrow> nat \<Rightarrow> bytes list \<Rightarrow> item list" where
  "ahead n c ls = (if v_isempty (ls ! (n - 1)) then [mark_item CS_EMP n 0] else chars_on n (ls ! (n - 1)) c) @ lines_on n ls"

definition behind :: "nat \<Rightarrow> nat \<Rightarrow> bytes list \<Rightarrow> item list" where
  "behind n c ls = (if v_isempty (ls ! (n - 1)) then [mark_item CS_EMP n 0] else chars_back n (ls ! (n - 1)) c) @ lines_back n ls"

lemma ahead_behind_flags:
  "i_flag (hd (ahead n c ls)) = (if v_isempty (ls ! (n - 1)) then CS_EMP else if c < length (ls ! (n - 1)) then CS_NONE else CS_EOL)"
  by (auto simp: ahead_def chars_on_def upt_conv_Cons)

lemma cs_init_spec:
  assumes r: "ready s" "\<not> sp_tinput (cur s)" and n: "0 < cs_lno cs" "cs_lno cs \<le> length (lines s)"
    and c: "v_isempty (lines s ! (cs_lno cs - 1)) \<or> cs_cno cs < length (lines s ! (cs_lno cs - 1))"
  shows "\<exists>cs' s'. cs_init cs s = Some (False, cs', s') \<and> reads s s' \<and>
    stands_on cs' s' (ahead (cs_lno cs) (cs_cno cs) (lines s)) \<and>
    stands_back cs' s' (behind (cs_lno cs) (cs_cno cs) (lines s))"
proof -
  let ?n = "cs_lno cs" and ?l = "lines s ! (cs_lno cs - 1)"
  obtain s1 where s1: "db_eget ?n s = Some (False, ?l, False, s1)" "ready s1" "reads s s1"
    using db_eget_base [of s ?n] r n by (auto simp: ready_def dest: keepsD(1,2) keepsD(3))
  have f: "lines s1 = lines s" "\<not> sp_tinput (cur s1)" using reads_fields(2,19) [OF s1(3)] r(2) by simp_all
  have "\<exists>cs'. cs_line (cs_cno cs) (cs\<lparr>cs_bp := ?l, cs_len := length ?l\<rparr>) = Some cs' \<and>
    stands_on cs' s1 (ahead ?n (cs_cno cs) (lines s)) \<and> stands_back cs' s1 (behind ?n (cs_cno cs) (lines s))"
  proof (cases "v_isempty ?l")
    case True
    then show ?thesis using s1(2) f n
      by (simp add: cs_line_def stands_on_def stands_back_def ahead_def behind_def Let_def)
  next
    case False
    then have "?l \<noteq> []" by auto
    then show ?thesis using False c s1(2) f n
      by (simp add: cs_line_def stands_on_def stands_back_def ahead_def behind_def Let_def)
  qed
  then show ?thesis using s1(1,3) by (auto simp: cs_init_def)
qed

lemma fspace_loop_eq:
  "fspace_loop cs s = do {
     (e, cs1, s1) \<leftarrow> cs_next cs s;
     if e then Some (True, cs1, s1)
     else if cs_flags cs1 = CS_NONE \<and> is_blank (cs_ch cs1) then fspace_loop cs1 s1 else Some (False, cs1, s1) }"
  by (subst fspace_loop.simps) (cases "cs_next cs s"; auto)

lemma cs_fspace_on:
  assumes at: "stands_on cs s its"
  shows "\<exists>cs' s'. cs_fspace cs s = Some (False, cs', s') \<and> stands_on cs' s' (dropWhile blank_char its) \<and> reads s s'"
proof -
  obtain i r where its: "its = i # r" "at_item cs i" using fwd.stands_item [OF at] by (cases its) auto
  have b: "(cs_flags cs \<noteq> CS_NONE \<or> \<not> is_blank (cs_ch cs)) = (\<not> blank_char i)"
    using its(2) by (auto simp: at_item_def blank_char_def)
  show ?thesis
  proof (cases "blank_char i")
    case False
    then show ?thesis using at its b by (simp add: cs_fspace_def reads_refl)
  next
    case True
    have "r \<noteq> []" using True fwd.stands_last at its(1) by (auto simp: blank_char_def)
    moreover have "\<exists>cs' s'. fspace_loop cs s = Some (False, cs', s') \<and>
        stands_on cs' s' (dropWhile blank_char (beyond its)) \<and> reads s s'"
      by (rule fwd.loop_walk [where P = "\<lambda>cs. cs_flags cs = CS_NONE \<and> is_blank (cs_ch cs)", OF _ _ _ at])
        (use fspace_loop_eq in \<open>auto simp: at_item_def blank_char_def\<close>)
    ultimately show ?thesis using True its(1) b by (simp add: cs_fspace_def)
  qed
qed

lemma cs_fblank_on:
  assumes "stands_on cs s its"
  shows "\<exists>cs' s'. cs_fblank cs s = Some (False, cs', s') \<and> stands_on cs' s' (dropWhile white (beyond its)) \<and> reads s s'"
  unfolding cs_fblank_def by (rule fwd.eat_blank_walk [OF assms])

lemma cs_bblank_back:
  assumes "stands_back cs s its"
  shows "\<exists>cs' s'. cs_bblank cs s = Some (False, cs', s') \<and> stands_back cs' s' (dropWhile white (beyond its)) \<and> reads s s'"
  unfolding cs_bblank_def by (rule bwd.eat_blank_walk [OF assms])

subsection \<open>Neighbours\<close>

text \<open>
  Two characters that follow each other are neighbours in their line, and the end of a line is where its last
  character was, so that one step back is possible from either side.
\<close>

definition i_pos :: "item \<Rightarrow> mark" where
  "i_pos i = \<lparr>m_lno = i_lno i, m_cno = i_cno i\<rparr>"

definition cs_pos :: "vcs \<Rightarrow> mark" where
  "cs_pos cs = \<lparr>m_lno = cs_lno cs, m_cno = cs_cno cs\<rparr>"

definition item_ok :: "bytes list \<Rightarrow> item \<Rightarrow> bool" where
  "item_ok ls i \<longleftrightarrow> (i_flag i = CS_NONE \<longrightarrow> i_lno i \<le> length ls \<and> 0 < i_lno i \<and>
     i_cno i < length (ls ! (i_lno i - 1)) \<and> i_ch i = ls ! (i_lno i - 1) ! i_cno i)"

definition adj_on :: "item \<Rightarrow> item \<Rightarrow> bool" where
  "adj_on i j \<longleftrightarrow> (i_flag i = CS_NONE \<longrightarrow> i_lno j = i_lno i \<and>
     (if i_flag j = CS_NONE then i_cno j = Suc (i_cno i) else i_cno j = i_cno i))"

definition adj_back :: "item \<Rightarrow> item \<Rightarrow> bool" where
  "adj_back i j \<longleftrightarrow> (i_flag i = CS_NONE \<longrightarrow> i_lno j = i_lno i \<and>
     (if i_flag j = CS_NONE then i_cno i = Suc (i_cno j) else i_cno j = i_cno i))"

lemma at_item_pos: "at_item cs i \<Longrightarrow> cs_pos cs = i_pos i"
  by (simp add: at_item_def cs_pos_def i_pos_def)

lemma adj_mark: "i_flag i \<noteq> CS_NONE \<Longrightarrow> adj_on i j" "i_flag i \<noteq> CS_NONE \<Longrightarrow> adj_back i j"
  by (simp_all add: adj_on_def adj_back_def)

lemma chars_on_adj: "successively adj_on (chars_on n l c)"
proof (induction "length l - c" arbitrary: c)
  case 0
  then show ?case by (simp add: chars_on_def)
next
  case (Suc k)
  then have c: "c < length l" by simp
  have r: "successively adj_on (chars_on n l (Suc c))" using Suc by simp
  have "adj_on (char_item n l c) (hd (chars_on n l (Suc c)))"
    using c by (cases "Suc c < length l") (auto simp: chars_on_def upt_conv_Cons adj_on_def)
  then show ?case using r by (simp add: chars_on_Cons [OF c] successively_Cons)
qed

lemma chars_back_adj: "c < length l \<Longrightarrow> successively adj_back (chars_back n l c)"
proof (induction c)
  case 0
  then show ?case by (simp add: chars_back_0 adj_back_def)
next
  case (Suc c)
  have "adj_back (char_item n l (Suc c)) (hd (chars_back n l c))"
    by (cases c) (simp_all add: chars_back_0 chars_back_Suc adj_back_def)
  then show ?case using Suc by (simp add: chars_back_Suc successively_Cons)
qed

lemma last_chars: "last (chars_on n l c) = mark_item CS_EOL n (length l - 1)" "n \<noteq> 1 \<Longrightarrow> last (chars_back n l c) = mark_item CS_EOL n 0"
  by (simp_all add: chars_on_def chars_back_def)

lemma lines_on_adj: "n \<le> length ls \<Longrightarrow> successively adj_on (lines_on n ls)"
proof (induction "length ls - n" arbitrary: n)
  case 0
  then show ?case by (simp add: lines_on_def)
next
  case (Suc k)
  then have n: "n < length ls" by simp
  then have "successively adj_on (lines_on (n + 1) ls)" using Suc by simp
  moreover have "successively adj_on (line_on (n + 1) (ls ! n))" using chars_on_adj by (simp add: line_on_def)
  moreover have "i_flag (last (line_on (n + 1) (ls ! n))) \<noteq> CS_NONE" by (simp add: line_on_def last_chars)
  ultimately show ?case unfolding lines_on_Cons [OF n] by (simp add: successively_append_iff adj_mark)
qed

lemma lines_back_adj: "0 < n \<Longrightarrow> successively adj_back (lines_back n ls)"
proof (induction n)
  case (Suc n)
  show ?case
  proof (cases "n = 0")
    case False
    let ?l = "ls ! (n - 1)"
    have "successively adj_back (lines_back n ls)" using Suc False by simp
    moreover have "successively adj_back (line_back n ?l)"
    proof (cases "v_isempty ?l")
      case False
      then have "?l \<noteq> []" by auto
      then show ?thesis using False chars_back_adj by (simp add: line_back_def)
    qed (simp add: line_back_def)
    moreover have "adj_back (last (line_back n ?l)) (hd (lines_back n ls))"
    proof (cases "v_isempty ?l")
      case True
      then show ?thesis by (simp add: line_back_def adj_mark)
    next
      case e: False
      show ?thesis
      proof (cases "n = 1")
        case True
        then show ?thesis using e by (simp add: line_back_def chars_back_def adj_back_def upt_conv_Cons)
      next
        case False
        then show ?thesis using e by (simp add: line_back_def last_chars(2) adj_mark)
      qed
    qed
    ultimately show ?thesis using False by (simp add: lines_back_Suc successively_append_iff)
  qed simp
qed simp

lemma ok_chars: "0 < n \<Longrightarrow> n \<le> length ls \<Longrightarrow> i \<in> set (chars_on n (ls ! (n - 1)) c) \<Longrightarrow> item_ok ls i"
  "0 < n \<Longrightarrow> n \<le> length ls \<Longrightarrow> c < length (ls ! (n - 1)) \<Longrightarrow> i \<in> set (chars_back n (ls ! (n - 1)) c) \<Longrightarrow> item_ok ls i"
  by (auto simp: chars_on_def chars_back_def item_ok_def split: if_splits)

lemma ok_lines:
  "i \<in> set (lines_on n ls) \<Longrightarrow> item_ok ls i" "n \<le> Suc (length ls) \<Longrightarrow> i \<in> set (lines_back n ls) \<Longrightarrow> item_ok ls i"
proof -
  have e: "item_ok ls (mark_item f n c) \<longleftrightarrow> f \<noteq> CS_NONE \<or> n \<le> length ls \<and> 0 < n \<and> c < length (ls ! (n - 1)) \<and> CHR 0x00 = ls ! (n - 1) ! c" for f n c
    by (auto simp: item_ok_def mark_item_def)
  show "item_ok ls i" if i: "i \<in> set (lines_on n ls)"
  proof (cases "i = mark_item CS_EOF (length ls) (if v_isempty (last ls) then 0 else length (last ls) - 1)")
    case False
    then obtain k where k: "n + 1 \<le> k" "k < length ls + 1" "i \<in> set (line_on k (ls ! (k - 1)))"
      using i unfolding lines_on_def by auto
    show ?thesis
    proof (cases "v_isempty (ls ! (k - 1))")
      case True
      then show ?thesis using k(3) by (simp add: line_on_def e)
    next
      case False
      then show ?thesis using k ok_chars(1) [of k ls i 0] by (simp add: line_on_def)
    qed
  qed (simp add: e)
  show "item_ok ls i" if n: "n \<le> Suc (length ls)" and i: "i \<in> set (lines_back n ls)"
  proof (cases "i = mark_item CS_SOF 1 0")
    case False
    then obtain k where k: "1 \<le> k" "k < n" "i \<in> set (line_back k (ls ! (k - 1)))" using i by (auto simp: lines_back_def)
    show ?thesis
    proof (cases "v_isempty (ls ! (k - 1))")
      case True
      then show ?thesis using k(3) by (simp add: line_back_def e)
    next
      case False
      then have "ls ! (k - 1) \<noteq> []" by auto
      then show ?thesis using False k n ok_chars(2) [of k ls "length (ls ! (k - 1)) - 1" i] by (simp add: line_back_def)
    qed
  qed (simp add: e)
qed

end
