(* ===== verification/ViTable.thy ===== *)
theory ViTable
  imports Prelude
begin

section \<open>The table of vi commands (vi/v_cmd.c)\<close>

text \<open>
  The table that gives each key its function and flags; usage and help texts are left out. An entry of
  \<open>vikeys\<close> without a function is no entry here.

  The lemmas tell which keys take a motion and which can be one.
\<close>

subsection \<open>Entries (vi/vi.h)\<close>

text \<open>
  The functions of the table; \<open>VF_delete\<close> is \<^verbatim>\<open>v_delete\<close>. They come in four groups: motions by lines, columns,
  characters and marks; motions by the units of the text, and searches; changes to the text; and the rest.
\<close>

datatype vmove =
    VF_left | VF_right | VF_down | VF_up | VF_cr | VF_zero | VF_first | VF_cfirst | VF_dollar | VF_ncol | VF_lgoto
    | VF_home | VF_middle | VF_bottom | VF_chf | VF_chF | VF_cht | VF_chT | VF_chrepeat | VF_chrrepeat | VF_match
    | VF_mark | VF_bmark | VF_fmark

datatype vtext =
    VF_wordW | VF_wordw | VF_wordE | VF_worde | VF_wordB | VF_wordb | VF_sentencef | VF_sentenceb | VF_paragraphf
    | VF_paragraphb | VF_sectionf | VF_sectionb | VF_searchf | VF_searchb | VF_searchn | VF_searchN | VF_searchw

datatype vedit =
    VF_delete | VF_yank | VF_xchar | VF_Xchar | VF_put | VF_Put | VF_change | VF_subst | VF_replace | VF_Replace
    | VF_iA | VF_iI | VF_iO | VF_ia | VF_ii | VF_io | VF_join | VF_shiftl | VF_shiftr | VF_ulcase | VF_mulcase
    | VF_increment | VF_filter | VF_undo | VF_Undo | VF_again

datatype vctl =
    VF_at | VF_ex | VF_exmode | VF_pagedown | VF_pageup | VF_hpagedown | VF_hpageup | VF_linedown | VF_lineup
    | VF_redraw | VF_screen | VF_status | VF_suspend | VF_switch | VF_tagpop | VF_tagpush | VF_z | VF_zexit

datatype vfunc = VMove vmove | VText vtext | VEdit vedit | VCtl vctl

datatype vflag = V_ABS | V_ABS_C | V_ABS_L | V_CHAR | V_CNT | V_DOT | V_KEYW | V_MOTION | V_MOVE | V_OBUF | V_RBUF | V_SECURE
  | V_CUTREQ | V_LMODE

text \<open>
  \<open>V_CUTREQ\<close> and \<open>V_LMODE\<close> are \<^verbatim>\<open>VM_CUTREQ\<close> and \<^verbatim>\<open>VM_LMODE\<close>, which
  a command may also set itself. How the relative cursor position is to be set: the \<^verbatim>\<open>VM_RCM\<close> flags, of which a
  command has one at most; the code clears them all before it sets one.
\<close>

datatype rcm = RCM_NONE | VM_RCM | VM_RCM_SET | VM_RCM_SETFNB | VM_RCM_SETLAST | VM_RCM_SETNNB

record vikeys_entry =
  vk_func :: "vfunc option"
  vk_flags :: "vflag list"
  vk_rcm :: rcm

definition vk :: "vfunc \<Rightarrow> vflag list \<Rightarrow> rcm \<Rightarrow> vikeys_entry" where
  "vk f fl r = \<lparr>vk_func = Some f, vk_flags = fl, vk_rcm = r\<rparr>"

definition no_key :: vikeys_entry where
  "no_key = \<lparr>vk_func = None, vk_flags = [], vk_rcm = RCM_NONE\<rparr>"

subsection \<open>The table\<close>

definition vikeys_control :: "(char \<times> vikeys_entry) list" where
  "vikeys_control =
    [(CHR 0x01, vk (VText VF_searchw) [V_ABS, V_CNT, V_MOVE, V_KEYW, V_CUTREQ] VM_RCM_SET),
     (CHR 0x02, vk (VCtl VF_pageup) [V_CNT] VM_RCM_SET),
     (CHR 0x04, vk (VCtl VF_hpagedown) [V_CNT] VM_RCM_SET),
     (CHR 0x05, vk (VCtl VF_linedown) [V_CNT] RCM_NONE),
     (CHR 0x06, vk (VCtl VF_pagedown) [V_CNT] VM_RCM_SET),
     (CHR 0x07, vk (VCtl VF_status) [] RCM_NONE),
     (CHR 0x08, vk (VMove VF_left) [V_CNT, V_MOVE] VM_RCM_SET),
     (CHR 0x0A, vk (VMove VF_down) [V_CNT, V_MOVE, V_LMODE] VM_RCM),
     (CHR 0x0C, vk (VCtl VF_redraw) [] RCM_NONE),
     (CHR 0x0D, vk (VMove VF_cr) [V_CNT, V_MOVE, V_LMODE] VM_RCM_SETFNB),
     (CHR 0x0E, vk (VMove VF_down) [V_CNT, V_MOVE, V_LMODE] VM_RCM),
     (CHR 0x10, vk (VMove VF_up) [V_CNT, V_MOVE, V_LMODE] VM_RCM),
     (CHR 0x12, vk (VCtl VF_redraw) [] RCM_NONE),
     (CHR 0x14, vk (VCtl VF_tagpop) [V_ABS] VM_RCM_SET),
     (CHR 0x15, vk (VCtl VF_hpageup) [V_CNT] VM_RCM_SET),
     (CHR 0x17, vk (VCtl VF_screen) [] RCM_NONE),
     (CHR 0x19, vk (VCtl VF_lineup) [V_CNT] RCM_NONE),
     (CHR 0x1A, vk (VCtl VF_suspend) [V_SECURE] RCM_NONE),
     (CHR 0x1C, vk (VCtl VF_exmode) [] RCM_NONE),
     (CHR 0x1D, vk (VCtl VF_tagpush) [V_ABS, V_KEYW] VM_RCM_SET),
     (CHR 0x1E, vk (VCtl VF_switch) [] RCM_NONE)]"

definition vikeys_sign :: "(char \<times> vikeys_entry) list" where
  "vikeys_sign =
    [(CHR '' '', vk (VMove VF_right) [V_CNT, V_MOVE] VM_RCM_SET),
     (CHR ''!'', vk (VEdit VF_filter) [V_CNT, V_DOT, V_MOTION, V_SECURE] VM_RCM_SET),
     (CHR ''#'', vk (VEdit VF_increment) [V_CHAR, V_CNT, V_DOT] VM_RCM_SET),
     (CHR ''$'', vk (VMove VF_dollar) [V_CNT, V_MOVE] VM_RCM_SETLAST),
     (CHR ''%'', vk (VMove VF_match) [V_ABS, V_CNT, V_MOVE, V_CUTREQ] VM_RCM_SET),
     (CHR ''&'', vk (VEdit VF_again) [] RCM_NONE),
     (CHR 0x27, vk (VMove VF_fmark) [V_ABS_L, V_CHAR, V_MOVE, V_LMODE] VM_RCM_SET),
     (CHR ''('', vk (VText VF_sentenceb) [V_ABS, V_CNT, V_MOVE, V_CUTREQ] VM_RCM_SET),
     (CHR '')'', vk (VText VF_sentencef) [V_ABS, V_CNT, V_MOVE, V_CUTREQ] VM_RCM_SET),
     (CHR ''+'', vk (VMove VF_down) [V_CNT, V_MOVE, V_LMODE] VM_RCM_SETFNB),
     (CHR '','', vk (VMove VF_chrrepeat) [V_CNT, V_MOVE] VM_RCM_SET),
     (CHR ''-'', vk (VMove VF_up) [V_CNT, V_MOVE, V_LMODE] VM_RCM_SETFNB),
     (CHR ''/'', vk (VText VF_searchf) [V_ABS_C, V_MOVE, V_CUTREQ] VM_RCM_SET),
     (CHR ''0'', vk (VMove VF_zero) [V_MOVE] VM_RCM_SET),
     (CHR '':'', vk (VCtl VF_ex) [] RCM_NONE),
     (CHR '';'', vk (VMove VF_chrepeat) [V_CNT, V_MOVE] VM_RCM_SET),
     (CHR ''<'', vk (VEdit VF_shiftl) [V_CNT, V_DOT, V_MOTION] VM_RCM_SET),
     (CHR ''>'', vk (VEdit VF_shiftr) [V_CNT, V_DOT, V_MOTION] VM_RCM_SET),
     (CHR ''?'', vk (VText VF_searchb) [V_ABS_C, V_MOVE, V_CUTREQ] VM_RCM_SET)]"

definition vikeys_upper :: "(char \<times> vikeys_entry) list" where
  "vikeys_upper =
    [(CHR ''@'', vk (VCtl VF_at) [V_CNT, V_RBUF] VM_RCM_SET),
     (CHR ''A'', vk (VEdit VF_iA) [V_CNT, V_DOT] VM_RCM_SET),
     (CHR ''B'', vk (VText VF_wordB) [V_CNT, V_MOVE] VM_RCM_SET),
     (CHR ''E'', vk (VText VF_wordE) [V_CNT, V_MOVE] VM_RCM_SET),
     (CHR ''F'', vk (VMove VF_chF) [V_CHAR, V_CNT, V_MOVE] VM_RCM_SET),
     (CHR ''G'', vk (VMove VF_lgoto) [V_ABS_L, V_CNT, V_MOVE, V_LMODE] VM_RCM_SETFNB),
     (CHR ''H'', vk (VMove VF_home) [V_ABS_L, V_CNT, V_MOVE, V_LMODE] VM_RCM_SETNNB),
     (CHR ''I'', vk (VEdit VF_iI) [V_CNT, V_DOT] VM_RCM_SET),
     (CHR ''J'', vk (VEdit VF_join) [V_CNT, V_DOT] VM_RCM_SET),
     (CHR ''L'', vk (VMove VF_bottom) [V_ABS_L, V_CNT, V_MOVE, V_LMODE] VM_RCM_SETNNB),
     (CHR ''M'', vk (VMove VF_middle) [V_ABS_L, V_CNT, V_MOVE, V_LMODE] VM_RCM_SETNNB),
     (CHR ''N'', vk (VText VF_searchN) [V_ABS_C, V_MOVE, V_CUTREQ] VM_RCM_SET),
     (CHR ''O'', vk (VEdit VF_iO) [V_CNT, V_DOT] VM_RCM_SET),
     (CHR ''P'', vk (VEdit VF_Put) [V_CNT, V_DOT, V_OBUF] VM_RCM_SET),
     (CHR ''Q'', vk (VCtl VF_exmode) [] RCM_NONE),
     (CHR ''R'', vk (VEdit VF_Replace) [V_CNT, V_DOT] VM_RCM_SET),
     (CHR ''T'', vk (VMove VF_chT) [V_CHAR, V_CNT, V_MOVE] VM_RCM_SET),
     (CHR ''U'', vk (VEdit VF_Undo) [] VM_RCM_SET),
     (CHR ''W'', vk (VText VF_wordW) [V_CNT, V_MOVE] VM_RCM_SET),
     (CHR ''X'', vk (VEdit VF_Xchar) [V_CNT, V_DOT, V_OBUF] VM_RCM_SET),
     (CHR ''Z'', vk (VCtl VF_zexit) [] RCM_NONE),
     (CHR ''['', vk (VText VF_sectionb) [V_ABS, V_CNT, V_MOVE] VM_RCM_SET),
     (CHR '']'', vk (VText VF_sectionf) [V_ABS, V_CNT, V_MOVE] VM_RCM_SET),
     (CHR ''^'', vk (VMove VF_first) [V_CNT, V_MOVE] VM_RCM_SET),
     (CHR ''_'', vk (VMove VF_cfirst) [V_CNT, V_MOVE] VM_RCM_SETFNB)]"

definition vikeys_lower :: "(char \<times> vikeys_entry) list" where
  "vikeys_lower =
    [(CHR 0x60, vk (VMove VF_bmark) [V_ABS_C, V_CHAR, V_MOVE, V_CUTREQ] VM_RCM_SET),
     (CHR ''a'', vk (VEdit VF_ia) [V_CNT, V_DOT] VM_RCM_SET),
     (CHR ''b'', vk (VText VF_wordb) [V_CNT, V_MOVE] VM_RCM_SET),
     (CHR ''c'', vk (VEdit VF_change) [V_CNT, V_DOT, V_MOTION, V_OBUF] VM_RCM_SET),
     (CHR ''d'', vk (VEdit VF_delete) [V_CNT, V_DOT, V_MOTION, V_OBUF] VM_RCM_SET),
     (CHR ''e'', vk (VText VF_worde) [V_CNT, V_MOVE] VM_RCM_SET),
     (CHR ''f'', vk (VMove VF_chf) [V_CHAR, V_CNT, V_MOVE] VM_RCM_SET),
     (CHR ''h'', vk (VMove VF_left) [V_CNT, V_MOVE] VM_RCM_SET),
     (CHR ''i'', vk (VEdit VF_ii) [V_CNT, V_DOT] VM_RCM_SET),
     (CHR ''j'', vk (VMove VF_down) [V_CNT, V_MOVE, V_LMODE] VM_RCM),
     (CHR ''k'', vk (VMove VF_up) [V_CNT, V_MOVE, V_LMODE] VM_RCM),
     (CHR ''l'', vk (VMove VF_right) [V_CNT, V_MOVE] VM_RCM_SET),
     (CHR ''m'', vk (VMove VF_mark) [V_CHAR] RCM_NONE),
     (CHR ''n'', vk (VText VF_searchn) [V_ABS_C, V_MOVE, V_CUTREQ] VM_RCM_SET),
     (CHR ''o'', vk (VEdit VF_io) [V_CNT, V_DOT] VM_RCM_SET),
     (CHR ''p'', vk (VEdit VF_put) [V_CNT, V_DOT, V_OBUF] VM_RCM_SET),
     (CHR ''r'', vk (VEdit VF_replace) [V_CNT, V_DOT] VM_RCM_SET),
     (CHR ''s'', vk (VEdit VF_subst) [V_CNT, V_DOT, V_OBUF] VM_RCM_SET),
     (CHR ''t'', vk (VMove VF_cht) [V_CHAR, V_CNT, V_MOVE] VM_RCM_SET),
     (CHR ''u'', vk (VEdit VF_undo) [] VM_RCM_SET),
     (CHR ''w'', vk (VText VF_wordw) [V_CNT, V_MOVE] VM_RCM_SET),
     (CHR ''x'', vk (VEdit VF_xchar) [V_CNT, V_DOT, V_OBUF] VM_RCM_SET),
     (CHR ''y'', vk (VEdit VF_yank) [V_CNT, V_DOT, V_MOTION, V_OBUF] VM_RCM_SET),
     (CHR ''z'', vk (VCtl VF_z) [V_ABS_L, V_CNT] VM_RCM_SETFNB),
     (CHR ''{'', vk (VText VF_paragraphb) [V_ABS, V_CNT, V_MOVE, V_CUTREQ] VM_RCM_SET),
     (CHR ''|'', vk (VMove VF_ncol) [V_CNT, V_MOVE] VM_RCM_SET),
     (CHR ''}'', vk (VText VF_paragraphf) [V_ABS, V_CNT, V_MOVE, V_CUTREQ] VM_RCM_SET),
     (CHR ''~'', vk (VEdit VF_ulcase) [V_CNT, V_DOT] VM_RCM_SET)]"

definition MAXVIKEY :: nat where "MAXVIKEY = 126"

definition vikeys_table :: "(char \<times> vikeys_entry) list" where
  "vikeys_table = vikeys_control @ vikeys_sign @ vikeys_upper @ vikeys_lower"

definition vikeys :: "char \<Rightarrow> vikeys_entry" where
  "vikeys c = (case map_of vikeys_table c of None \<Rightarrow> no_key | Some e \<Rightarrow> e)"

text \<open>The entry for a \<^verbatim>\<open>~\<close> that takes a motion (vi/vi.c).\<close>

definition tmotion :: vikeys_entry where
  "tmotion = vk (VEdit VF_mulcase) [V_CNT, V_DOT, V_MOTION] VM_RCM_SET"

text \<open>A pointer to an entry.\<close>

datatype vikey = VIKEY char | TMOTION

definition vikey_entry :: "vikey \<Rightarrow> vikeys_entry" where
  "vikey_entry k = (case k of VIKEY c \<Rightarrow> vikeys c | TMOTION \<Rightarrow> tmotion)"

definition kp_isset :: "vikey \<Rightarrow> vflag \<Rightarrow> bool" where
  "kp_isset k f \<longleftrightarrow> f \<in> set (vk_flags (vikey_entry k))"

subsection \<open>Which keys\<close>

lemmas vikeys_table_defs = vikeys_table_def vikeys_control_def vikeys_sign_def vikeys_upper_def vikeys_lower_def

lemma table_keys: "distinct (map fst vikeys_table)"
  by code_simp

text \<open>The keys whose entry has a flag, listed.\<close>

lemma flag_keys: "f \<in> set (vk_flags (vikeys c)) \<longleftrightarrow> c \<in> set (map fst (filter (\<lambda>(_, e). f \<in> set (vk_flags e)) vikeys_table))"
proof -
  have "c \<in> set (map fst (filter (\<lambda>(_, e). f \<in> set (vk_flags e)) vikeys_table)) \<longleftrightarrow>
      (\<exists>e. map_of vikeys_table c = Some e \<and> f \<in> set (vk_flags e))"
    using table_keys by (force simp: map_of_eq_Some_iff)
  then show ?thesis by (auto simp: vikeys_def no_key_def split: option.splits)
qed

lemma motion_keys: "map fst (filter (\<lambda>(_, e). V_MOTION \<in> set (vk_flags e)) vikeys_table) = ''!<>cdy''"
  by code_simp

lemma takes_motion: "kp_isset (VIKEY c) V_MOTION \<longleftrightarrow> c \<in> set ''!<>cdy''"
  unfolding kp_isset_def vikey_entry_def vikey.case flag_keys motion_keys ..

end
