(* ===== verification/ViCmd.thy ===== *)
theory ViCmd
  imports LineRead ViTable
begin

section \<open>Vi commands (vi/vi.h)\<close>

text \<open>
  The structure passed to the functions that implement vi commands and motions, and what they ask of the command
  table. A motion sets the end of the range and the final cursor; the command it belongs to, if any, is its
  related key.
\<close>

subsection \<open>The command structure\<close>

text \<open>
  The flags of the table entry \<^verbatim>\<open>vp_kp\<close> that are never set otherwise are read from the entry; the code copies
  them into the structure.
\<close>

record vicmd =
  vp_buffer :: char
  vp_character :: char
  vp_key :: char
  vp_kp :: vikey
  vp_count :: nat
  vp_count2 :: nat
  vp_rkp :: "vikey option"
  vc_buffer :: bool
  vc_c1reset :: bool
  vc_c1set :: bool
  vc_c2set :: bool
  vc_isdot :: bool
  vm_cutreq :: bool
  vm_ldouble :: bool
  vm_lmode :: bool
  vm_rcm :: rcm
  m_start :: mark
  m_stop :: mark
  m_final :: mark

definition ISMOTION :: "vicmd \<Rightarrow> bool" where
  "ISMOTION vp = (case vp_rkp vp of None \<Rightarrow> False | Some k \<Rightarrow> kp_isset k V_MOTION)"

definition ISCMD :: "vicmd \<Rightarrow> char \<Rightarrow> bool" where
  "ISCMD vp c \<longleftrightarrow> vp_rkp vp = Some (VIKEY c)"

text \<open>The count, 1 if none was given, and the buffer, if one was.\<close>

definition vp_cnt :: "vicmd \<Rightarrow> nat" where
  "vp_cnt vp = (if vc_c1set vp then vp_count vp else 1)"

definition vp_bufp :: "vicmd \<Rightarrow> char option" where
  "vp_bufp vp = (if vc_buffer vp then Some (vp_buffer vp) else None)"

text \<open>A command at a position: what the main loop hands to a motion.\<close>

definition vi_start :: "vikey option \<Rightarrow> nat option \<Rightarrow> mark \<Rightarrow> vicmd" where
  "vi_start rkp cnt m = \<lparr>vp_buffer = CHR 0x00, vp_character = CHR 0x00, vp_key = CHR 0x00,
     vp_kp = VIKEY CHR 0x00, vp_count = (case cnt of None \<Rightarrow> 0 | Some n \<Rightarrow> n),
     vp_count2 = 0, vp_rkp = rkp, vc_buffer = False, vc_c1reset = False, vc_c1set = (cnt \<noteq> None), vc_c2set = False,
     vc_isdot = False, vm_cutreq = False,
     vm_ldouble = False, vm_lmode = False, vm_rcm = RCM_NONE, m_start = m, m_stop = m, m_final = m\<rparr>"

lemma ISCMD_motion: "ISCMD vp c \<Longrightarrow> c \<in> set ''!<>cdy'' \<Longrightarrow> ISMOTION vp"
  by (simp add: ISCMD_def ISMOTION_def takes_motion)

subsection \<open>Errors at the ends (vi/v_util.c)\<close>

text \<open>
  \<^verbatim>\<open>v_eof\<close> looks up the last line to choose its message. The other error functions of
  vi/v_util.c only show one.
\<close>

definition v_eof :: "ed \<Rightarrow> ed option" where
  "v_eof s =
     do {
       (_, _, s1) \<leftarrow> db_last s;
       Some s1
     }"

lemma v_eof_reads:
  assumes "ready s" "\<not> sp_tinput (cur s)"
  shows "\<exists>s'. v_eof s = Some s' \<and> ready s' \<and> reads s s'"
  using db_last_base [of s] assms keepsD(1,2,3) by (fastforce simp: v_eof_def ready_def)

end
