(* ===== verification/LogWrite.thy ===== *)
theory LogWrite
  imports LineRead
begin

section \<open>Writing the undo log (common/log.c)\<close>

text \<open>
  The log is a database of records, \<open>elog\<close>. \<open>l_cur\<close> is the number of the record to be written
  next and \<open>l_high\<close> one more than the last valid one. \<open>l_cursor\<close> remembers where the cursor
  was when the current event began; its line number is 0 once the event's first record has
  been written. \<^verbatim>\<open>log_line\<close> and \<^verbatim>\<open>log_mark\<close> put a \<^verbatim>\<open>LOG_CURSOR_INIT\<close> record before
  the first change of an event, \<^verbatim>\<open>log_cursor\<close> a \<^verbatim>\<open>LOG_CURSOR_END\<close> record after the last.

  The lemmas give the log a history, the records before \<open>l_cur\<close>, and say what each call adds
  to it.
\<close>

text \<open>The sizes of the structures a record holds, on an LP64 machine.\<close>

definition sizeof_recno :: nat where "sizeof_recno = 4"
definition sizeof_mark :: nat where "sizeof_mark = 16"
definition sizeof_lmark :: nat where "sizeof_lmark = 40"

subsection \<open>Operations\<close>

text \<open>
  \<^verbatim>\<open>log_init\<close>: the returned flag is true when the log cannot be opened, in which case logging
  is turned off. A log that opened is an in-memory tree (\<^verbatim>\<open>R_EOF | R_INMEM\<close>).
\<close>

definition new_log :: "log_rec recno" where
  "new_log = \<lparr>r_recs = [], r_input = [], r_eof = True, r_inmem = True, r_cursor = None,
              r_modified = False, r_bval = CHR 0x0A, r_io = True\<rparr>"

definition log_init :: "ed \<Rightarrow> bool \<times> ed" where
  "log_init s =
     (let s1 = s\<lparr>l_len := 0, l_cursor := \<lparr>m_lno = 1, m_cno = 0\<rparr>, l_high := 1, l_cur := 1\<rparr>
      in if log_opens s then (False, s1\<lparr>elog := new_log\<rparr>) else (True, s1\<lparr>f_nolog := True\<rparr>))"

text \<open>\<^verbatim>\<open>log_end\<close>; a closed log holds nothing.\<close>

definition log_end :: "ed \<Rightarrow> ed" where
  "log_end s = s\<lparr>elog := new_log, l_len := 0, l_cursor := \<lparr>m_lno = 1, m_cno = 0\<rparr>,
                 l_high := 1, l_cur := 1\<rparr>"

text \<open>\<^verbatim>\<open>log_err\<close>, the body of \<^verbatim>\<open>LOG_ERR\<close>: close the log and start a new one.\<close>

definition log_err :: "ed \<Rightarrow> ed" where
  "log_err s = snd (log_init s)"

text \<open>
  Storing one record of \<open>size\<close> bytes at \<open>l_cur\<close>: grow the buffer, put the record, move the
  high water mark. The three writers of the log share these statements.
\<close>

definition log_put :: "nat \<Rightarrow> log_rec \<Rightarrow> ed \<Rightarrow> (bool \<times> ed) option" where
  "log_put sz r s =
     (case binc_ret (mem_ok s) (l_len s) sz of
        None \<Rightarrow> Some (True, s\<lparr>l_len := 0\<rparr>)
      | Some len \<Rightarrow>
          let s1 = s\<lparr>l_len := len\<rparr> in
          do {
            (st, log') \<leftarrow> rec_put irec_null LOG_NOTYPE RF_NONE (l_cur s1) r (elog s1);
            let s2 = s1\<lparr>elog := log'\<rparr>;
            if st = RET_ERROR then Some (True, log_err s2)
            else Some (False, s2\<lparr>l_cur := l_cur s2 + 1, l_high := l_cur s2 + 1\<rparr>)
          })"

text \<open>\<^verbatim>\<open>log_cursor1\<close>; \<open>end_rec\<close> says which of the two record types is written.\<close>

definition log_cursor1 :: "bool \<Rightarrow> ed \<Rightarrow> (bool \<times> ed) option" where
  "log_cursor1 end_rec s =
     log_put (1 + sizeof_mark)
       (if end_rec then LOG_CURSOR_END (l_cursor s) else LOG_CURSOR_INIT (l_cursor s)) s"

text \<open>\<^verbatim>\<open>log_cursor\<close>: called before each command.\<close>

definition log_cursor :: "ed \<Rightarrow> (bool \<times> ed) option" where
  "log_cursor s =
     (if f_nolog s then Some (False, s)
      else let pos = \<lparr>m_lno = sp_lno (cur s), m_cno = sp_cno (cur s)\<rparr> in
        if m_lno (l_cursor s) = 0 then log_cursor1 True (s\<lparr>l_cursor := pos\<rparr>)
        else Some (False, s\<lparr>l_cursor := pos\<rparr>))"

text \<open>The statements that put out one initial cursor record per set of changes.\<close>

definition log_begin :: "ed \<Rightarrow> (bool \<times> ed) option" where
  "log_begin s =
     (if m_lno (l_cursor s) \<noteq> 0 then
        do {
          (e, s1) \<leftarrow> log_cursor1 False s;
          if e then Some (True, s1)
          else Some (False, s1\<lparr>l_cursor := (l_cursor s1)\<lparr>m_lno := 0\<rparr>\<rparr>)
        }
      else Some (False, s))"

text \<open>\<^verbatim>\<open>log_line\<close>.\<close>

definition log_line :: "nat \<Rightarrow> action \<Rightarrow> ed \<Rightarrow> (bool \<times> ed) option" where
  "log_line lno action s =
     (if f_nolog s then Some (False, s)
      else do {
        (e, s2) \<leftarrow> log_begin (s\<lparr>f_undo := False\<rparr>);
        if e then Some (True, s2)
        else do {
          (e, line, s3) \<leftarrow> db_get lno (action = ACT_RESET_B) s2;
          if e \<and> (action \<noteq> ACT_RESET_B \<or> lno \<noteq> 1) then Some (True, s3)
          else log_put (length line + 1 + sizeof_recno)
                 (line_rec action lno (if e then [] else line)) s3
        }
      })"

text \<open>\<^verbatim>\<open>log_mark\<close>.\<close>

definition log_mark :: "lmark \<Rightarrow> ed \<Rightarrow> (bool \<times> ed) option" where
  "log_mark lm s =
     (if f_nolog s then Some (False, s)
      else do {
        (e, s1) \<leftarrow> log_begin s;
        if e then Some (True, s1)
        else log_put (1 + sizeof_lmark) (LOG_MARK lm) s1
      })"

subsection \<open>The log's history\<close>

definition hist :: "ed \<Rightarrow> log_rec list" where
  "hist s = take (l_cur s - 1) (r_recs (elog s))"

text \<open>The cursor record still to be written when the event's first change comes.\<close>

definition pend :: "ed \<Rightarrow> log_rec list" where
  "pend s = (if m_lno (l_cursor s) \<noteq> 0 then [LOG_CURSOR_INIT (l_cursor s)] else [])"

definition log_ok :: "ed \<Rightarrow> bool" where
  "log_ok s \<longleftrightarrow> settled (elog s) \<and> 0 < l_cur s \<and> l_cur s \<le> l_high s \<and>
     l_high s \<le> length (r_recs (elog s)) + 1"

text \<open>\<open>logs s s'\<close>: from \<open>s\<close> to \<open>s'\<close> at most the log and the caches changed.\<close>

definition unlogged :: "ed \<Rightarrow> ed" where
  "unlogged s = (uncached s)\<lparr>elog := new_log, l_len := 0, l_high := 0, l_cur := 0,
                             l_cursor := \<lparr>m_lno = 0, m_cno = 0\<rparr>, f_undo := False\<rparr>"

definition logs :: "ed \<Rightarrow> ed \<Rightarrow> bool" where
  "logs s s' \<longleftrightarrow> lines s' = lines s \<and> unlogged s' = unlogged s"

lemma logs_refl [simp, intro]: "logs s s"
  by (simp add: logs_def)

lemma logs_trans [trans]: "logs s s' \<Longrightarrow> logs s' s'' \<Longrightarrow> logs s s''"
  by (simp add: logs_def)

lemma reads_logs: "reads s s' \<Longrightarrow> logs s s'"
  by (simp add: reads_def logs_def unlogged_def)

lemma logs_update [simp, intro]:
  "logs s (s\<lparr>elog := t\<rparr>)" "logs s (s\<lparr>l_len := n\<rparr>)" "logs s (s\<lparr>l_high := n\<rparr>)"
  "logs s (s\<lparr>l_cur := n\<rparr>)" "logs s (s\<lparr>l_cursor := m\<rparr>)" "logs s (s\<lparr>f_undo := b\<rparr>)"
  by (simp_all add: logs_def unlogged_def uncached_def)

lemma unlogged_sel:
  "has_file (unlogged s) = has_file s" "lundo (unlogged s) = lundo s"
  "marks (unlogged s) = marks s" "f_firstmodify (unlogged s) = f_firstmodify s"
  "f_modified (unlogged s) = f_modified s" "f_nolog (unlogged s) = f_nolog s"
  "f_rcv_sync (unlogged s) = f_rcv_sync s"
  "f_rcv_on (unlogged s) = f_rcv_on s" "rcv_fails (unlogged s) = rcv_fails s"
  "rcv_mpath (unlogged s) = rcv_mpath s" "sync_fails (unlogged s) = sync_fails s"
  "cur (unlogged s) = cur s" "others (unlogged s) = others s" "cutq (unlogged s) = cutq s"
  "dcb_store (unlogged s) = dcb_store s" "dcbp (unlogged s) = dcbp s"
  "tmp_inuse (unlogged s) = tmp_inuse s" "tmp_blen (unlogged s) = tmp_blen s"
  "ecq (unlogged s) = ecq s" "interrupted (unlogged s) = interrupted s" "mem_ok (unlogged s) = mem_ok s"
  "log_opens (unlogged s) = log_opens s"
  by (simp_all add: unlogged_def uncached_def)

lemma logs_fields:
  assumes "logs s s'"
  shows "has_file s' = has_file s" "lines s' = lines s" "lundo s' = lundo s" "marks s' = marks s"
    "f_firstmodify s' = f_firstmodify s" "f_modified s' = f_modified s" "f_nolog s' = f_nolog s"
    "f_rcv_sync s' = f_rcv_sync s" "f_rcv_on s' = f_rcv_on s" "rcv_fails s' = rcv_fails s"
    "rcv_mpath s' = rcv_mpath s" "sync_fails s' = sync_fails s"
    "cur s' = cur s" "others s' = others s" "cutq s' = cutq s" "dcb_store s' = dcb_store s"
    "dcbp s' = dcbp s" "tmp_inuse s' = tmp_inuse s" "tmp_blen s' = tmp_blen s" "ecq s' = ecq s"
    "interrupted s' = interrupted s" "mem_ok s' = mem_ok s" "log_opens s' = log_opens s"
  using assms unfolding logs_def by (metis unlogged_sel)+

lemma base_log_update [simp]:
  "base (s\<lparr>elog := t\<rparr>) = base s" "base (s\<lparr>l_len := n\<rparr>) = base s" "base (s\<lparr>l_high := n\<rparr>) = base s"
  "base (s\<lparr>l_cur := n\<rparr>) = base s" "base (s\<lparr>l_cursor := m\<rparr>) = base s" "base (s\<lparr>f_undo := b\<rparr>) = base s"
  "base (s\<lparr>f_nolog := b\<rparr>) = base s" "base (s\<lparr>lundo := d\<rparr>) = base s"
  by (simp_all add: base_def count_ok_def)

lemma text_log_update [simp]:
  "text_ok (s\<lparr>elog := t\<rparr>) = text_ok s" "text_ok (s\<lparr>l_len := n\<rparr>) = text_ok s"
  "text_ok (s\<lparr>l_high := n\<rparr>) = text_ok s" "text_ok (s\<lparr>l_cur := n\<rparr>) = text_ok s"
  "text_ok (s\<lparr>l_cursor := m\<rparr>) = text_ok s" "text_ok (s\<lparr>f_undo := b\<rparr>) = text_ok s"
  "text_ok (s\<lparr>f_nolog := b\<rparr>) = text_ok s" "text_ok (s\<lparr>lundo := d\<rparr>) = text_ok s"
  by (simp_all add: text_ok_def)

lemma ready_log_update [simp]:
  "ready (s\<lparr>elog := t\<rparr>) = ready s" "ready (s\<lparr>l_len := n\<rparr>) = ready s" "ready (s\<lparr>l_high := n\<rparr>) = ready s"
  "ready (s\<lparr>l_cur := n\<rparr>) = ready s" "ready (s\<lparr>l_cursor := m\<rparr>) = ready s" "ready (s\<lparr>f_undo := b\<rparr>) = ready s"
  "ready (s\<lparr>f_nolog := b\<rparr>) = ready s" "ready (s\<lparr>lundo := d\<rparr>) = ready s"
  by (simp_all add: ready_def)

lemma log_ok_update [simp]:
  "log_ok (s\<lparr>l_cursor := m\<rparr>) = log_ok s" "log_ok (s\<lparr>f_undo := b\<rparr>) = log_ok s"
  "log_ok (s\<lparr>l_len := n\<rparr>) = log_ok s" "log_ok (s\<lparr>f_nolog := b\<rparr>) = log_ok s"
  by (simp_all add: log_ok_def)

lemma hist_update [simp]:
  "hist (s\<lparr>l_cursor := m\<rparr>) = hist s" "hist (s\<lparr>f_undo := b\<rparr>) = hist s"
  "hist (s\<lparr>l_len := n\<rparr>) = hist s" "hist (s\<lparr>f_nolog := b\<rparr>) = hist s"
  by (simp_all add: hist_def)

lemma pend_update [simp]:
  "pend (s\<lparr>f_undo := b\<rparr>) = pend s" "pend (s\<lparr>l_len := n\<rparr>) = pend s" "pend (s\<lparr>f_nolog := b\<rparr>) = pend s"
  by (simp_all add: pend_def)

lemma reads_log_fields:
  assumes "reads s s'"
  shows "log_ok s' = log_ok s" "hist s' = hist s" "pend s' = pend s"
  using reads_fields [OF assms] by (simp_all add: log_ok_def hist_def pend_def)

definition same_cache :: "ed \<Rightarrow> ed \<Rightarrow> bool" where
  "same_cache s s' \<longleftrightarrow> c_lno s' = c_lno s \<and> c_lp s' = c_lp s"

lemma same_cache_refl [simp]: "same_cache s s"
  by (simp add: same_cache_def)

lemma same_cache_trans: "same_cache s s' \<Longrightarrow> same_cache s' s'' \<Longrightarrow> same_cache s s''"
  by (simp add: same_cache_def)

lemma same_cache_text: "same_cache s s' \<Longrightarrow> lines s' = lines s \<Longrightarrow> text_ok s' = text_ok s"
  by (simp add: same_cache_def text_ok_def)

text \<open>A record is stored: the history grows by it, and what was ahead of it is cut off.\<close>

lemma log_put_spec:
  assumes l: "log_ok s" and m: "\<forall>n. mem_ok s n"
  obtains len t where
    "log_put sz r s = Some (False, s\<lparr>l_len := len, elog := t, l_cur := l_cur s + 1, l_high := l_cur s + 1\<rparr>)"
    and "settled t" and "take (l_cur s) (r_recs t) = hist s @ [r]" and "l_cur s \<le> length (r_recs t)"
proof -
  obtain len where len: "binc_ret (mem_ok s) (l_len s) sz = Some len"
    using binc_ret_total m by blast
  have st: "settled (elog s)" "0 < l_cur s" "l_cur s \<le> length (r_recs (elog s)) + 1"
    using l by (auto simp: log_ok_def)
  obtain t where t: "rec_put irec_null LOG_NOTYPE RF_NONE (l_cur s) r (elog s) = Some (RET_SUCCESS, t)"
    "settled t" "take (l_cur s) (r_recs t) = take (l_cur s - 1) (r_recs (elog s)) @ [r]"
    "length (r_recs t) = max (l_cur s) (length (r_recs (elog s)))"
    using tree.store_at_keeps_prefix [OF st] by blast
  show ?thesis
    by (rule that [of t len]) (use len t in \<open>auto simp: log_put_def hist_def Let_def\<close>)
qed

lemma log_put_ready:
  assumes "log_ok s" and "\<forall>n. mem_ok s n"
  obtains s' where "log_put sz r s = Some (False, s')" and "log_ok s'" and "hist s' = hist s @ [r]"
    and "l_high s' = l_cur s'" and "logs s s'" and "base s' = base s" and "same_cache s s'" and "l_cursor s' = l_cursor s"
    and "f_undo s' = f_undo s"
proof -
  obtain len t where e: "log_put sz r s = Some (False, s\<lparr>l_len := len, elog := t, l_cur := l_cur s + 1, l_high := l_cur s + 1\<rparr>)"
    (is "_ = Some (False, ?s)")
    and t: "settled t" "take (l_cur s) (r_recs t) = hist s @ [r]" "l_cur s \<le> length (r_recs t)"
    using log_put_spec [OF assms] by blast
  show ?thesis
  proof (rule that [OF e])
    show "log_ok ?s" using t by (simp add: log_ok_def)
    show "hist ?s = hist s @ [r]" using t by (simp add: hist_def)
    show "logs s ?s" by (simp add: logs_def unlogged_def uncached_def)
  qed (simp_all add: same_cache_def)
qed

lemma log_begin_spec:
  assumes "log_ok s" and "\<forall>n. mem_ok s n" and hi: "l_high s = l_cur s \<or> m_lno (l_cursor s) \<noteq> 0"
  obtains s' where "log_begin s = Some (False, s')" and "log_ok s'" and "hist s' = hist s @ pend s"
    and "l_high s' = l_cur s'" and "logs s s'" and "base s' = base s" and "same_cache s s'"
    and "m_lno (l_cursor s') = 0" and "f_undo s' = f_undo s"
proof (cases "m_lno (l_cursor s) = 0")
  case True
  then show ?thesis using that [of s] assms by (simp add: log_begin_def pend_def)
next
  case False
  obtain s1 where s1: "log_put (1 + sizeof_mark) (LOG_CURSOR_INIT (l_cursor s)) s = Some (False, s1)"
    "log_ok s1" "hist s1 = hist s @ [LOG_CURSOR_INIT (l_cursor s)]"
    "l_high s1 = l_cur s1" "logs s s1" "base s1 = base s" "same_cache s s1" "l_cursor s1 = l_cursor s" "f_undo s1 = f_undo s"
    using log_put_ready [OF assms(1,2)] by blast
  show ?thesis
    by (rule that [of "s1\<lparr>l_cursor := (l_cursor s1)\<lparr>m_lno := 0\<rparr>\<rparr>"])
      (use s1 False in \<open>auto simp: log_begin_def log_cursor1_def pend_def same_cache_def intro: logs_trans\<close>)
qed

text \<open>
  What the editor keeps true between and within events: the log is well formed, and within an
  event nothing lies ahead of the current position.
\<close>

definition recording :: "ed \<Rightarrow> bool" where
  "recording s \<longleftrightarrow> \<not> f_nolog s \<and> log_ok s \<and> (l_high s = l_cur s \<or> m_lno (l_cursor s) \<noteq> 0)"

lemma recordingI: "\<not> f_nolog s \<Longrightarrow> log_ok s \<Longrightarrow> l_high s = l_cur s \<Longrightarrow> recording s"
  by (simp add: recording_def)

lemma recordingD:
  "recording s \<Longrightarrow> \<not> f_nolog s" "recording s \<Longrightarrow> log_ok s"
  "recording s \<Longrightarrow> l_high s = l_cur s \<or> m_lno (l_cursor s) \<noteq> 0"
  by (simp_all add: recording_def)

lemma base_mem: "base s \<Longrightarrow> \<forall>k. mem_ok s k"
  by (simp add: base_def)

text \<open>The line that \<^verbatim>\<open>db_get\<close> finds is logged, with the cursor record that was pending.\<close>

lemma log_line_got:
  assumes r: "base s" and rec: "recording s"
    and g: "\<And>s1. base s1 \<Longrightarrow> logs s s1 \<Longrightarrow> same_cache s s1 \<Longrightarrow>
      \<exists>s2. db_get n (act = ACT_RESET_B) s1 = Some (e, l, s2) \<and> keeps s1 s2 \<and> (P \<longrightarrow> text_ok s2)"
    and e: "e \<Longrightarrow> act = ACT_RESET_B \<and> n = 1 \<and> l = []"
  obtains s' where "log_line n act s = Some (False, s')" and "base s'" and "recording s'" and "logs s s'"
    and "hist s' = hist s @ pend s @ [line_rec act n l]"
    and "m_lno (l_cursor s') = 0" and "\<not> f_undo s'" and "text_ok s' \<or> same_cache s s'" and "P \<longrightarrow> text_ok s'"
proof -
  let ?s = "s\<lparr>f_undo := False\<rparr>"
  have lu: "logs s ?s" by simp
  obtain s1 where s1: "log_begin ?s = Some (False, s1)" "log_ok s1" "hist s1 = hist s @ pend s"
    "l_high s1 = l_cur s1" "logs ?s s1" "base s1" "same_cache ?s s1" "m_lno (l_cursor s1) = 0" "\<not> f_undo s1"
    using log_begin_spec [of ?s] recordingD [OF rec] base_mem [OF r] r by auto
  have l1: "logs s s1" and c1: "same_cache s s1"
    using logs_trans [OF lu s1(5)] s1(7) by (simp_all add: same_cache_def)
  obtain s2 where s2: "db_get n (act = ACT_RESET_B) s1 = Some (e, l, s2)" "keeps s1 s2" "P \<longrightarrow> text_ok s2"
    using g [OF s1(6) l1 c1] by blast
  note k2 = keepsD(1,2) [OF s2(2)]
  note f2 = reads_fields [OF k2(2)] reads_log_fields [OF k2(2)]
  have ok2: "log_ok s2" using s1(2) f2 by simp
  note ok2 = ok2 base_mem [OF k2(1)]
  obtain s3 where s3: "log_put (length l + 1 + sizeof_recno) (line_rec act n l) s2 = Some (False, s3)"
    "log_ok s3" "hist s3 = hist s2 @ [line_rec act n l]" "l_high s3 = l_cur s3" "logs s2 s3"
    "base s3 = base s2" "same_cache s2 s3" "l_cursor s3 = l_cursor s2" "f_undo s3 = f_undo s2"
    using log_put_ready [OF ok2] by blast
  have lg: "logs s s3" using l1 reads_logs [OF k2(2)] s3(5) by (blast intro: logs_trans)
  have nl: "\<not> f_nolog s" using recordingD [OF rec] by simp
  have tx: "text_ok s2 \<longrightarrow> text_ok s3"
    using same_cache_text [OF s3(7)] logs_fields(2) [OF s3(5)] by simp
  show ?thesis
  proof (rule that [of s3])
    show "log_line n act s = Some (False, s3)"
      using nl s1(1) s2(1) s3(1) e by (cases e) (auto simp: log_line_def)
    show "recording s3" using s3(2,4) nl logs_fields(7) [OF lg] by (simp add: recording_def)
    show "hist s3 = hist s @ pend s @ [line_rec act n l]" using s3(3) s1(3) f2 by simp
    show "m_lno (l_cursor s3) = 0" using s3(8) s1(8) f2 by simp
    show "\<not> f_undo s3" using s3(9) s1(9) f2 by simp
    show "base s3" using s3(6) k2(1) by simp
    show "text_ok s3 \<or> same_cache s s3"
    proof (cases "text_ok s2")
      case False
      then have "same_cache s1 s2" using s2(2) by (simp add: keeps_def same_cache_def)
      then show ?thesis using c1 s3(7) by (blast intro: same_cache_trans)
    qed (use tx in simp)
    show "P \<longrightarrow> text_ok s3" using s2(3) tx by simp
  qed (rule lg)
qed

lemma log_line_spec:
  assumes r: "base s" and rec: "recording s" and t: "\<not> sp_tinput (cur s)"
    and n: "0 < n" "n \<le> length (lines s)" and x: "text_ok s \<or> c_lno s \<noteq> n \<or> act = ACT_RESET_B"
  obtains s' where "log_line n act s = Some (False, s')" and "base s'" and "recording s'" and "logs s s'"
    and "hist s' = hist s @ pend s @ [line_rec act n (lines s ! (n - 1))]"
    and "m_lno (l_cursor s') = 0" and "\<not> f_undo s'" and "text_ok s'"
proof (rule log_line_got [where P = True, OF r rec])
  fix s1 assume 1: "base s1" "logs s s1" "same_cache s s1"
  have f1: "lines s1 = lines s" "\<not> sp_tinput (cur s1)"
    using logs_fields [OF 1(2)] t by simp_all
  have "text_ok s1 \<or> (act = ACT_RESET_B) \<or> c_lno s1 \<noteq> n"
    using x 1(3) same_cache_text [OF 1(3) f1(1)] by (auto simp: same_cache_def)
  with db_get_base [OF 1(1), of n "act = ACT_RESET_B"] n f1
  show "\<exists>s2. db_get n (act = ACT_RESET_B) s1 = Some (False, lines s ! (n - 1), s2) \<and> keeps s1 s2 \<and> (True \<longrightarrow> text_ok s2)"
    by auto
qed (use that in auto)

text \<open>The old text of the line that a change to an empty file creates is empty.\<close>

lemma log_line_first:
  assumes r: "base s" and rec: "recording s" and t: "\<not> sp_tinput (cur s)" and n: "lines s = []"
  obtains s' where "log_line 1 ACT_RESET_B s = Some (False, s')" and "base s'" and "recording s'" and "logs s s'"
    and "hist s' = hist s @ pend s @ [LOG_LINE_RESET_B 1 []]"
    and "m_lno (l_cursor s') = 0" and "\<not> f_undo s'" and "text_ok s' \<or> same_cache s s'"
proof (rule log_line_got [where P = False and n = 1 and act = ACT_RESET_B and e = True and l = "[]", OF r rec])
  fix s1 assume 1: "base s1" "logs s s1" "same_cache s s1"
  have f1: "lines s1 = lines s" "\<not> sp_tinput (cur s1)"
    using logs_fields [OF 1(2)] t by simp_all
  show "\<exists>s2. db_get 1 (ACT_RESET_B = ACT_RESET_B) s1 = Some (True, [], s2) \<and> keeps s1 s2 \<and> (False \<longrightarrow> text_ok s2)"
    using db_get_beyond [OF 1(1), of 1 True] n f1 by auto
qed (use that in auto)

lemma log_mark_spec:
  assumes r: "base s" and rec: "recording s"
  obtains s' where "log_mark lm s = Some (False, s')" and "base s'" and "recording s'" and "logs s s'"
    and "same_cache s s'"
    and "hist s' = hist s @ pend s @ [LOG_MARK lm]" and "m_lno (l_cursor s') = 0" and "f_undo s' = f_undo s"
proof -
  note m = base_mem [OF r] and rd = recordingD [OF rec]
  obtain s1 where s1: "log_begin s = Some (False, s1)" "log_ok s1" "hist s1 = hist s @ pend s"
    "l_high s1 = l_cur s1" "logs s s1" "base s1 = base s" "same_cache s s1" "m_lno (l_cursor s1) = 0" "f_undo s1 = f_undo s"
    using log_begin_spec [OF rd(2) m rd(3)] by blast
  have m1: "\<forall>k. mem_ok s1 k" using m logs_fields [OF s1(5)] by simp
  obtain s2 where s2: "log_put (1 + sizeof_lmark) (LOG_MARK lm) s1 = Some (False, s2)"
    "log_ok s2" "hist s2 = hist s1 @ [LOG_MARK lm]" "l_high s2 = l_cur s2" "logs s1 s2"
    "base s2 = base s1" "same_cache s1 s2" "l_cursor s2 = l_cursor s1" "f_undo s2 = f_undo s1"
    using log_put_ready [OF s1(2) m1] by blast
  have lg: "logs s s2" using s1(5) s2(5) by (rule logs_trans)
  show ?thesis
  proof (rule that [of s2])
    show "log_mark lm s = Some (False, s2)" using rd s1(1) s2(1) by (simp add: log_mark_def)
    show "recording s2" using s2(2,4) rd logs_fields(7) [OF lg] by (simp add: recording_def)
    show "same_cache s s2" using s1(7) s2(7) by (rule same_cache_trans)
  qed (use s1(3,6,8,9) s2(3,6,8,9) r lg in simp_all)
qed

text \<open>A command starts: an open event is closed by its final cursor record.\<close>

definition cursor_of :: "ed \<Rightarrow> mark" where
  "cursor_of s = \<lparr>m_lno = sp_lno (cur s), m_cno = sp_cno (cur s)\<rparr>"

lemma log_cursor_spec:
  assumes m: "\<forall>k. mem_ok s k" and rec: "recording s" and c: "sp_lno (cur s) \<noteq> 0"
  obtains s' where "log_cursor s = Some (False, s')" and "base s' = base s" and "recording s'" and "logs s s'"
    and "same_cache s s'"
    and "hist s' = hist s @ (if m_lno (l_cursor s) = 0 then [LOG_CURSOR_END (cursor_of s)] else [])"
    and "l_cursor s' = cursor_of s" and "f_undo s' = f_undo s"
    and "m_lno (l_cursor s) = 0 \<Longrightarrow> l_high s' = l_cur s'"
proof (cases "m_lno (l_cursor s) = 0")
  case False
  then have "log_cursor s = Some (False, s\<lparr>l_cursor := cursor_of s\<rparr>)"
    using rec by (simp add: log_cursor_def recording_def cursor_of_def)
  from that [OF this] show ?thesis
    using rec c False by (simp add: recording_def cursor_of_def same_cache_def)
next
  case True
  note rd = recordingD [OF rec]
  let ?s = "s\<lparr>l_cursor := cursor_of s\<rparr>"
  obtain s1 where s1: "log_put (1 + sizeof_mark) (LOG_CURSOR_END (cursor_of s)) ?s = Some (False, s1)"
    "log_ok s1" "hist s1 = hist s @ [LOG_CURSOR_END (cursor_of s)]"
    "l_high s1 = l_cur s1" "logs ?s s1" "base s1 = base s" "same_cache ?s s1" "l_cursor s1 = cursor_of s" "f_undo s1 = f_undo s"
    using log_put_ready [of ?s] rd m by auto
  have lu: "logs s ?s" by simp
  have lg: "logs s s1" using lu s1(5) by (rule logs_trans)
  show ?thesis
  proof (rule that [of s1])
    show "log_cursor s = Some (False, s1)"
      using rd(1) s1(1) True by (simp add: log_cursor_def log_cursor1_def cursor_of_def Let_def)
    show "recording s1" using s1(2,4) rd(1) logs_fields(7) [OF lg] by (simp add: recording_def)
    show "same_cache s s1" using s1(7) by (simp add: same_cache_def)
  qed (use s1 True lg in simp_all)
qed

subsection \<open>Logging or not\<close>

text \<open>
  The two situations in which lines are changed: a command that is being recorded, and the
  replay of the log with logging off. \<open>logged s recs s'\<close> says what happened to the log.
\<close>

definition log_ready :: "ed \<Rightarrow> bool" where
  "log_ready s \<longleftrightarrow> f_nolog s \<or> recording s"

definition same_log :: "ed \<Rightarrow> ed \<Rightarrow> bool" where
  "same_log s s' \<longleftrightarrow> elog s' = elog s \<and> l_len s' = l_len s \<and> l_high s' = l_high s \<and> l_cur s' = l_cur s \<and>
     l_cursor s' = l_cursor s \<and> f_undo s' = f_undo s"

lemma same_log_refl [simp]: "same_log s s"
  by (simp add: same_log_def)

lemma same_log_trans: "same_log s s' \<Longrightarrow> same_log s' s'' \<Longrightarrow> same_log s s''"
  by (simp add: same_log_def)

lemma reads_same_log: "reads s s' \<Longrightarrow> same_log s s'"
  by (simp add: same_log_def reads_fields)

text \<open>The history with the cursor record that the next change will put out.\<close>

definition hp :: "ed \<Rightarrow> log_rec list" where
  "hp s = hist s @ pend s"

lemma pend_zero: "m_lno (l_cursor s) = 0 \<Longrightarrow> pend s = []"
  by (simp add: pend_def)

lemma same_log_view:
  assumes "same_log s s'" "f_nolog s' = f_nolog s"
  shows "log_ok s' = log_ok s" "hist s' = hist s" "pend s' = pend s" "hp s' = hp s" "recording s' = recording s"
  using assms by (auto simp: same_log_def log_ok_def hist_def pend_def hp_def recording_def)

definition logged :: "ed \<Rightarrow> log_rec list \<Rightarrow> ed \<Rightarrow> bool" where
  "logged s recs s' \<longleftrightarrow> f_nolog s' = f_nolog s \<and>
     (if f_nolog s then same_log s s'
      else recording s' \<and> hp s' = hp s @ recs \<and> (recs \<noteq> [] \<longrightarrow> m_lno (l_cursor s') = 0) \<and>
           (f_undo s' \<longrightarrow> f_undo s) \<and> (recs = [] \<longrightarrow> l_cursor s' = l_cursor s))"

lemma logged_trans:
  assumes "logged s r s'" "logged s' r' s''"
  shows "logged s (r @ r') s''"
  using assms by (auto simp: logged_def intro: same_log_trans split: if_splits)

lemma logged_same:
  assumes "log_ready s" "same_log s s'" "f_nolog s' = f_nolog s"
  shows "logged s [] s'"
  using assms same_log_view [OF assms(2,3)] by (auto simp: logged_def log_ready_def same_log_def)

lemma logged_ready: "logged s r s' \<Longrightarrow> log_ready s'"
  by (auto simp: logged_def log_ready_def same_log_def split: if_splits)

lemma log_line_any:
  assumes r: "base s" and l: "log_ready s" and t: "\<not> sp_tinput (cur s)"
    and n: "0 < n" "n \<le> length (lines s)" and x: "f_nolog s \<or> text_ok s \<or> c_lno s \<noteq> n \<or> act = ACT_RESET_B"
  obtains s' where "log_line n act s = Some (False, s')" and "base s'" and "logs s s'"
    and "logged s [line_rec act n (lines s ! (n - 1))] s'" and "text_ok s \<Longrightarrow> text_ok s'"
    and "f_nolog s \<Longrightarrow> s' = s" and "\<not> f_nolog s \<Longrightarrow> text_ok s' \<and> \<not> f_undo s'"
proof (cases "f_nolog s")
  case True
  then show ?thesis using that [of s] r by (simp add: log_line_def logged_def)
next
  case False
  then have rec: "recording s" using l by (simp add: log_ready_def)
  obtain s' where s': "log_line n act s = Some (False, s')" "base s'" "recording s'" "logs s s'"
    "hist s' = hist s @ pend s @ [line_rec act n (lines s ! (n - 1))]" "m_lno (l_cursor s') = 0" "\<not> f_undo s'" "text_ok s'"
    using log_line_spec [OF r rec t n] x False by blast
  show ?thesis
    by (rule that [of s'])
      (use s' False logs_fields(7) [OF s'(4)] in \<open>simp_all add: logged_def hp_def pend_zero\<close>)
qed

subsection \<open>A file just opened\<close>

text \<open>
  The state after a file with the lines \<open>ls\<close> was read: nothing cached, an empty log, the cursor
  on line 1 of a vi screen that shows that line.
\<close>

definition opened_screen :: scr where
  "opened_screen = \<lparr>sp_lno = 1, sp_cno = 0, sp_ex = False, sp_tinput = False, sp_tinput_info = False,
     sp_exwrote = False, sp_tiq = [], sp_rptlchange = 0, sp_added = 0, sp_changed = 0, sp_deleted = 0, sp_yanked = 0, sp_joined = 0, sp_moved = 0, sp_shift = 0,
     sp_ccnt = 0, sp_map = [1], sp_totalcount = 0, sp_n_renumber = False, sp_n_refresh = False,
     sp_n_ex_redraw = False, sp_cur_invalid = False, sp_ss_lno = 0, sp_u_ccnt = 0,
     sp_paint = (\<lambda>op n m. (False, m))\<rparr>"

definition opened :: "bytes list \<Rightarrow> ed" where
  "opened ls = \<lparr>has_file = True,
     db = \<lparr>r_recs = ls, r_input = [], r_eof = True, r_inmem = False, r_cursor = None,
           r_modified = False, r_bval = CHR 0x0A, r_io = True\<rparr>,
     c_lp = [], c_lno = 0, c_nlines = 0, c_buf_len = 0,
     elog = new_log, l_len = 0, l_high = 1, l_cur = 1, l_cursor = \<lparr>m_lno = 1, m_cno = 0\<rparr>,
     lundo = NOTSET, marks = [],
     f_firstmodify = True, f_modified = False, f_nolog = False, f_undo = False, f_rcv_sync = False,
     f_rcv_on = False, rcv_mpath = False, rcv_fails = False, sync_fails = False,
     cur = opened_screen, others = [], cutq = [],
     dcb_store = \<lparr>cb_name = CHR 0x00, cb_textq = [], cb_len = 0, cb_lmode = False\<rparr>,
     dcbp = CB_NULL, tmp_inuse = False, tmp_blen = 0, ecq = [],
     interrupted = (\<lambda>_. False), mem_ok = (\<lambda>_. True), log_opens = True\<rparr>"

lemma opened_sel [simp]:
  "lines (opened ls) = ls" "has_file (opened ls)" "cur (opened ls) = opened_screen" "l_cur (opened ls) = 1"
  "marks (opened ls) = []" "c_lno (opened ls) = 0" "\<not> f_nolog (opened ls)" "elog (opened ls) = new_log"
  "l_cursor (opened ls) = \<lparr>m_lno = 1, m_cno = 0\<rparr>" "f_undo (opened ls) = False" "l_high (opened ls) = 1"
  "settled (db (opened ls))" "mem_ok (opened ls) n" "others (opened ls) = []" "sp_lno opened_screen = 1" "\<not> sp_tinput opened_screen"
  by (simp_all add: opened_def settled_def opened_screen_def)

lemma opened_ready [simp]: "base (opened ls)" "text_ok (opened ls)" "ready (opened ls)"
  by (simp_all add: base_def text_ok_def ready_def count_ok_def opened_def settled_def)

lemma opened_recording [simp]: "recording (opened ls)" "log_ready (opened ls)"
  by (simp_all add: recording_def log_ready_def log_ok_def new_log_def settled_def)

end
