(* ===== verification/Words.thy ===== *)
theory Words
  imports CharStream ViCmd LogWrite
begin

section \<open>Word motions (vi/v_word.c)\<close>

text \<open>
  The motions \<^verbatim>\<open>w W e E b B\<close> over the character stream. \<open>fword\<close> is the function behind
  the first two, \<open>eword\<close> and \<open>bword\<close> those behind the others; the latter two have the same body, up to the
  direction.

  The abstract side is about lists of items: \<open>next_word\<close> goes to the next item that starts a word, \<open>next_edge\<close>
  to the next one at which a word ends in the direction of the walk. The motions with a count go there as often as
  the count says, so each of them returns, and fails exactly when it ends up where it started.
\<close>

subsection \<open>Operations\<close>

datatype which = BIGWORD | LITTLEWORD

definition inword :: "char \<Rightarrow> bool" where
  "inword c \<longleftrightarrow> is_upper c \<or> is_lower c \<or> is_digit c \<or> c = CHR ''_''"

text \<open>Where the inner loops stop; \<open>inw\<close> is their \<^verbatim>\<open>state == INWORD\<close>.\<close>

definition word_stop :: "which \<Rightarrow> bool \<Rightarrow> vcs \<Rightarrow> bool" where
  "word_stop ty inw cs \<longleftrightarrow> cs_flags cs \<noteq> CS_NONE \<or> is_blank (cs_ch cs) \<or> ty = LITTLEWORD \<and> inword (cs_ch cs) \<noteq> inw"

definition word_state :: "vcs \<Rightarrow> bool" where
  "word_state cs \<longleftrightarrow> cs_flags cs = CS_NONE \<and> inword (cs_ch cs)"

partial_function (option) skip_word ::
  "move \<Rightarrow> cs_flag \<Rightarrow> which \<Rightarrow> bool \<Rightarrow> vcs \<Rightarrow> ed \<Rightarrow> (bool \<times> vcs \<times> ed) option" where
  "skip_word mv fin ty inw cs s =
     do {
       (e, cs1, s1) \<leftarrow> mv cs s;
       if e then Some (True, cs1, s1)
       else if cs_flags cs1 = fin then Some (False, cs1, s1)
       else if word_stop ty inw cs1 then Some (False, cs1, s1)
       else skip_word mv fin ty inw cs1 s1
     }"

text \<open>
  The white space after a word: \<^verbatim>\<open>W\<close> always looks for it, \<^verbatim>\<open>w\<close> only when it stands in it.
\<close>

definition eat_white :: "move \<Rightarrow> which \<Rightarrow> move" where
  "eat_white eat ty cs s =
     (if ty = BIGWORD \<or> cs_flags cs \<noteq> CS_NONE \<or> is_blank (cs_ch cs) then eat cs s else Some (False, cs, s))"

text \<open>
  The loop of \<^verbatim>\<open>fword\<close>, up to the label \<^verbatim>\<open>ret\<close>. The last word of a motion takes the blanks after
  it along only for a delete or a yank.
\<close>

fun fword_loop :: "which \<Rightarrow> vicmd \<Rightarrow> nat \<Rightarrow> move" where
  "fword_loop ty vp 0 cs s = Some (False, cs, s)"
| "fword_loop ty vp (Suc cnt) cs s =
     do {
       (e, cs1, s1) \<leftarrow> skip_word cs_next CS_EOF ty (word_state cs) cs s;
       if e then Some (True, cs1, s1)
       else if cs_flags cs1 = CS_EOF then Some (False, cs1, s1)
       else if cnt = 0 \<and> ISMOTION vp then
         (if ISCMD vp CHR ''d'' \<or> ISCMD vp CHR ''y'' then cs_fspace cs1 s1 else Some (False, cs1, s1))
       else do {
         (e, cs2, s2) \<leftarrow> eat_white cs_fblank ty cs1 s1;
         if e then Some (True, cs2, s2)
         else if cs_flags cs2 = CS_EOF then Some (False, cs2, s2)
         else fword_loop ty vp cnt cs2 s2
       }
     }"

text \<open>
  The initial stream of a motion; the other fields are not initialised in the source and are set by \<^verbatim>\<open>cs_init\<close>.
\<close>

definition cs_start :: "mark \<Rightarrow> vcs" where
  "cs_start m = \<lparr>cs_lno = m_lno m, cs_cno = m_cno m, cs_bp = [], cs_len = 0, cs_ch = CHR 0x00, cs_flags = CS_NONE\<rparr>"

definition fword_ret :: "vicmd \<Rightarrow> vcs \<Rightarrow> ed \<Rightarrow> (bool \<times> vicmd \<times> ed) option" where
  "fword_ret vp cs s =
     (if \<not> ISMOTION vp \<and> cs_lno cs = m_lno (m_start vp) \<and> cs_cno cs = m_cno (m_start vp) then
        do { s1 \<leftarrow> v_eof s; Some (True, vp, s1) }
      else
        let stop = \<lparr>m_lno = cs_lno cs,
                    m_cno = if ISMOTION vp \<and> cs_flags cs = CS_NONE then cno_prev (cs_cno cs) else cs_cno cs\<rparr>
        in Some (False, vp\<lparr>m_stop := stop, m_final := if ISMOTION vp then m_start vp else stop\<rparr>, s))"

text \<open>An \<^verbatim>\<open>unsigned long\<close> that is decremented.\<close>

definition ulong_dec :: "nat \<Rightarrow> nat" where
  "ulong_dec n = (if n = 0 then 18446744073709551615 else n - 1)"

definition fword :: "which \<Rightarrow> vicmd \<Rightarrow> ed \<Rightarrow> (bool \<times> vicmd \<times> ed) option" where
  "fword ty vp s =
     (let cnt = vp_cnt vp in
      do {
        (e, cs, s1) \<leftarrow> cs_init (cs_start (m_start vp)) s;
        if e then Some (True, vp, s1)
        else if cs_flags cs = CS_EMP \<or> cs_flags cs = CS_NONE \<and> is_blank (cs_ch cs) then
          let one = ISMOTION vp \<and> cs_flags cs \<noteq> CS_EMP \<and> cnt = 1 in
          if one \<and> ISCMD vp CHR ''c'' then Some (False, vp, s1)
          else if one \<and> (ISCMD vp CHR ''d'' \<or> ISCMD vp CHR ''y'') then
            do {
              (e, cs2, s2) \<leftarrow> cs_fspace cs s1;
              if e then Some (True, vp, s2) else fword_ret vp cs2 s2
            }
          else
            do {
              (e, cs2, s2) \<leftarrow> cs_fblank cs s1;
              if e then Some (True, vp, s2)
              else do {
                (e, cs3, s3) \<leftarrow> fword_loop ty vp (ulong_dec cnt) cs2 s2;
                if e then Some (True, vp, s3) else fword_ret vp cs3 s3
              }
            }
        else
          do {
            (e, cs2, s2) \<leftarrow> fword_loop ty vp cnt cs s1;
            if e then Some (True, vp, s2) else fword_ret vp cs2 s2
          }
      })"

definition v_wordW :: "vicmd \<Rightarrow> ed \<Rightarrow> (bool \<times> vicmd \<times> ed) option" where "v_wordW = fword BIGWORD"

definition v_wordw :: "vicmd \<Rightarrow> ed \<Rightarrow> (bool \<times> vicmd \<times> ed) option" where "v_wordw = fword LITTLEWORD"

text \<open>
  \<^verbatim>\<open>eword\<close> and \<^verbatim>\<open>bword\<close>: the way out of the white space, and the loop, which goes one step back when it
  has run into the next word or a blank.
\<close>

definition to_word :: "move \<Rightarrow> move \<Rightarrow> move" where
  "to_word mv eat cs s =
     (if cs_flags cs = CS_NONE \<and> \<not> is_blank (cs_ch cs) then
        do {
          (e, cs1, s1) \<leftarrow> mv cs s;
          if e then Some (True, cs1, s1)
          else if cs_flags cs1 = CS_NONE \<and> \<not> is_blank (cs_ch cs1) then Some (False, cs1, s1)
          else eat cs1 s1
        }
      else eat cs s)"

fun ends_loop :: "move \<Rightarrow> move \<Rightarrow> move \<Rightarrow> cs_flag \<Rightarrow> which \<Rightarrow> nat \<Rightarrow> move" where
  "ends_loop mv bk eat fin ty 0 cs s = Some (False, cs, s)"
| "ends_loop mv bk eat fin ty (Suc cnt) cs s =
     do {
       (e, cs1, s1) \<leftarrow> skip_word mv fin ty (word_state cs) cs s;
       if e then Some (True, cs1, s1)
       else if cs_flags cs1 = fin then Some (False, cs1, s1)
       else if cnt = 0 then (if cs_flags cs1 = CS_NONE then bk cs1 s1 else Some (False, cs1, s1))
       else do {
         (e, cs2, s2) \<leftarrow> eat_white eat ty cs1 s1;
         if e then Some (True, cs2, s2)
         else if cs_flags cs2 = fin then Some (False, cs2, s2)
         else ends_loop mv bk eat fin ty cnt cs2 s2
       }
     }"

definition eword :: "which \<Rightarrow> vicmd \<Rightarrow> ed \<Rightarrow> (bool \<times> vicmd \<times> ed) option" where
  "eword ty vp s =
     do {
       (e, cs, s1) \<leftarrow> cs_init (cs_start (m_start vp)) s;
       if e then Some (True, vp, s1) else do {
       (e, cs2, s2) \<leftarrow> to_word cs_next cs_fblank cs s1;
       if e then Some (True, vp, s2) else do {
       (e, cs3, s3) \<leftarrow> ends_loop cs_next cs_prev cs_fblank CS_EOF ty (vp_cnt vp) cs2 s2;
       if e then Some (True, vp, s3)
       else if \<not> ISMOTION vp \<and> cs_lno cs3 = m_lno (m_start vp) \<and> cs_cno cs3 = m_cno (m_start vp) then
         do { s4 \<leftarrow> v_eof s3; Some (True, vp, s4) }
       else Some (False, vp\<lparr>m_stop := cs_pos cs3, m_final := if ISMOTION vp then m_start vp else cs_pos cs3\<rparr>, s3)
     }}}"

definition bword :: "which \<Rightarrow> vicmd \<Rightarrow> ed \<Rightarrow> (bool \<times> vicmd \<times> ed) option" where
  "bword ty vp s =
     do {
       (e, cs, s1) \<leftarrow> cs_init (cs_start (m_start vp)) s;
       if e then Some (True, vp, s1) else do {
       (e, cs2, s2) \<leftarrow> to_word cs_prev cs_bblank cs s1;
       if e then Some (True, vp, s2) else do {
       (e, cs3, s3) \<leftarrow> ends_loop cs_prev cs_next cs_bblank CS_SOF ty (vp_cnt vp) cs2 s2;
       if e then Some (True, vp, s3)
       else if cs_lno cs3 = m_lno (m_start vp) \<and> cs_cno cs3 = m_cno (m_start vp) then Some (True, vp, s3)
       else Some (False, vp\<lparr>m_stop := cs_pos cs3, m_final := cs_pos cs3,
              m_start := if ISMOTION vp then (m_start vp)\<lparr>m_cno := cno_prev (m_cno (m_start vp))\<rparr> else m_start vp\<rparr>, s3)
     }}}"

definition v_wordE :: "vicmd \<Rightarrow> ed \<Rightarrow> (bool \<times> vicmd \<times> ed) option" where "v_wordE = eword BIGWORD"

definition v_worde :: "vicmd \<Rightarrow> ed \<Rightarrow> (bool \<times> vicmd \<times> ed) option" where "v_worde = eword LITTLEWORD"

definition v_wordB :: "vicmd \<Rightarrow> ed \<Rightarrow> (bool \<times> vicmd \<times> ed) option" where "v_wordB = bword BIGWORD"

definition v_wordb :: "vicmd \<Rightarrow> ed \<Rightarrow> (bool \<times> vicmd \<times> ed) option" where "v_wordb = bword LITTLEWORD"

subsection \<open>Words in a list of items\<close>

text \<open>A character that is not blank, and two of them that belong to one word.\<close>

definition solid :: "item \<Rightarrow> bool" where
  "solid i \<longleftrightarrow> i_flag i = CS_NONE \<and> \<not> is_blank (i_ch i)"

definition one_word :: "which \<Rightarrow> item \<Rightarrow> item \<Rightarrow> bool" where
  "one_word ty i j \<longleftrightarrow> solid i \<and> solid j \<and> (ty = BIGWORD \<or> inword (i_ch i) = inword (i_ch j))"

text \<open>
  The next item that starts a word, or the final one; the next one, from here on, at which a word ends, or the final
  one.
\<close>

fun next_word :: "which \<Rightarrow> item list \<Rightarrow> item list" where
  "next_word ty (i # j # is) =
     (if is = [] \<or> solid j \<and> \<not> one_word ty i j then j # is else next_word ty (j # is))"
| "next_word ty its = its"

fun word_edge :: "which \<Rightarrow> item list \<Rightarrow> item list" where
  "word_edge ty (i # j # is) = (if solid i \<and> \<not> one_word ty i j then i # j # is else word_edge ty (j # is))"
| "word_edge ty its = its"

definition next_edge :: "which \<Rightarrow> item list \<Rightarrow> item list" where
  "next_edge ty its = word_edge ty (beyond its)"

text \<open>What the loops do to the list.\<close>

definition goes_on :: "which \<Rightarrow> item \<Rightarrow> item \<Rightarrow> bool" where
  "goes_on ty a i \<longleftrightarrow> solid i \<and> (ty = BIGWORD \<or> inword (i_ch i) = (i_flag a = CS_NONE \<and> inword (i_ch a)))"

definition ended :: "cs_flag \<Rightarrow> item list \<Rightarrow> bool" where
  "ended fin its \<longleftrightarrow> its \<noteq> [] \<and> i_flag (last its) = fin \<and> (fin = CS_EOF \<or> fin = CS_SOF) \<and> (\<forall>i \<in> set (butlast its). inner i)"

lemma goes_on_solid: "solid a \<Longrightarrow> goes_on ty a i \<longleftrightarrow> one_word ty a i"
  by (auto simp: goes_on_def one_word_def solid_def)

lemma goes_on_big: "solid i \<Longrightarrow> goes_on BIGWORD a i"
  by (simp add: goes_on_def)

lemma goes_on_same: "solid a \<Longrightarrow> one_word ty a i \<Longrightarrow> goes_on ty i = goes_on ty a"
  by (auto simp: goes_on_def one_word_def solid_def)

lemma solid_white: "solid i \<Longrightarrow> \<not> white i"
  by (simp add: solid_def white_def)

lemma inner_white: "inner i \<Longrightarrow> \<not> solid i \<Longrightarrow> white i"
  by (auto simp: inner_def solid_def white_def)

lemma endedD:
  assumes "ended fin its"
  shows "its = i # r \<Longrightarrow> r \<noteq> [] \<Longrightarrow> ended fin r \<and> inner i"
    and "its = [i] \<Longrightarrow> \<not> white i \<and> \<not> solid i"
  using assms by (auto simp: ended_def solid_def white_def)

lemma ended_tail: "ended fin (i # r) \<Longrightarrow> r \<noteq> [] \<Longrightarrow> ended fin r"
  using endedD(1) by blast

lemma ended_not_Nil: "ended fin its \<Longrightarrow> its \<noteq> []"
  by (simp add: ended_def)

lemma ended_last: "ended fin (i # r) \<Longrightarrow> i_flag i = fin \<longleftrightarrow> r = []"
  by (cases r) (auto simp: ended_def inner_def)

lemma ended_beyond: "ended fin its \<Longrightarrow> ended fin (beyond its)"
  by (cases its; cases "tl its") (auto simp: beyond_def ended_def)

lemma beyond_tl: "r \<noteq> [] \<Longrightarrow> beyond (i # r) = r"
  by (cases r) (simp_all add: beyond_def)

lemma next_word_white:
  assumes "ended fin (i # r)" "r \<noteq> []" "\<not> solid i"
  shows "next_word ty (i # r) = dropWhile white r"
  using assms
proof (induction r arbitrary: i)
  case (Cons j r)
  have e: "ended fin (j # r)" using Cons.prems(1) by (rule ended_tail) simp
  show ?case
  proof (cases "r = []")
    case True
    then show ?thesis using endedD(2) [OF e] by simp
  next
    case False
    then show ?thesis using Cons.IH [OF e False] Cons.prems(3) inner_white endedD(1) [OF e]
      by (auto simp: one_word_def solid_white)
  qed
qed simp

lemma next_word_word:
  assumes "ended fin (a # r)" "solid a"
  shows "next_word ty (a # r) = dropWhile white (dropWhile (goes_on ty a) r)"
  using assms
proof (induction r arbitrary: a)
  case Nil
  then show ?case using endedD(2) by blast
next
  case (Cons i r)
  have e: "ended fin (i # r)" using Cons.prems(1) by (rule ended_tail) simp
  show ?case
  proof (cases "r = []")
    case True
    then have "\<not> white i" "\<not> solid i" using endedD(2) [OF e] by simp_all
    then show ?thesis using True by (simp add: goes_on_def)
  next
    case False
    show ?thesis
    proof (cases "solid i")
      case True
      then show ?thesis
        using False Cons.IH [OF e] goes_on_solid [OF Cons.prems(2), of ty i] goes_on_same [OF Cons.prems(2)]
        by (auto simp: solid_white)
    next
      case w: False
      have "white i" using endedD(1) [OF e refl False] inner_white w by blast
      then show ?thesis using w next_word_white [OF e False w] False by (simp add: goes_on_def)
    qed
  qed
qed

lemma word_edge_suffix: "\<exists>xs. its = xs @ word_edge ty its"
proof (induction ty its rule: word_edge.induct)
  case (1 ty i j r)
  show ?case
  proof (cases "solid i \<and> \<not> one_word ty i j")
    case False
    then obtain xs where "j # r = xs @ word_edge ty (i # j # r)" using 1 by auto
    then have "i # j # r = (i # xs) @ word_edge ty (i # j # r)" by simp
    then show ?thesis by blast
  qed simp
qed simp_all

lemma word_edge_white: "ended fin its \<Longrightarrow> word_edge ty its = word_edge ty (dropWhile white its)"
proof (induction its)
  case (Cons i r)
  show ?case
  proof (cases "white i")
    case True
    then have r: "r \<noteq> []" "\<not> solid i" using Cons.prems endedD(2) solid_white by blast+
    have "word_edge ty (i # r) = word_edge ty r" using r by (cases r) simp_all
    then show ?thesis using Cons.IH [OF ended_tail [OF Cons.prems r(1)]] True by simp
  qed simp
qed simp

lemma word_edge_word:
  assumes "ended fin (a # r)" "solid a"
  shows "\<exists>i. word_edge ty (a # r) = i # dropWhile (goes_on ty a) r \<and> solid i"
  using assms
proof (induction r arbitrary: a)
  case Nil
  then show ?case using endedD(2) by blast
next
  case (Cons i r)
  have e: "ended fin (i # r)" using Cons.prems(1) by (rule ended_tail) simp
  show ?case
  proof (cases "one_word ty a i")
    case True
    have i: "solid i" using True by (simp add: one_word_def)
    then show ?thesis using Cons.IH [OF e i] True goes_on_solid [OF Cons.prems(2), of ty i]
        goes_on_same [OF Cons.prems(2) True] by simp
  next
    case False
    then show ?thesis using Cons.prems(2) goes_on_solid [OF Cons.prems(2), of ty i] by simp
  qed
qed

lemma ended_suffix: "ended fin (xs @ its) \<Longrightarrow> its \<noteq> [] \<Longrightarrow> ended fin its"
  by (induction xs) (auto intro: ended_tail)

lemma ended_dropWhile:
  assumes "ended fin its" "\<And>i. P i \<Longrightarrow> i_flag i \<noteq> fin"
  shows "ended fin (dropWhile P its)"
proof -
  have "last its \<in> set its \<and> \<not> P (last its)" using assms by (auto simp: ended_def)
  then have "dropWhile P its \<noteq> []" by auto
  then show ?thesis using ended_suffix [of fin "takeWhile P its" "dropWhile P its"] assms(1) by simp
qed

lemma white_not_fin: "ended fin its \<Longrightarrow> white i \<Longrightarrow> i_flag i \<noteq> fin"
  by (auto simp: ended_def white_def)

lemma goes_on_not_fin: "ended fin its \<Longrightarrow> goes_on ty a i \<Longrightarrow> i_flag i \<noteq> fin"
  by (auto simp: ended_def goes_on_def solid_def)

lemma ended_next_word: "ended fin its \<Longrightarrow> ended fin (next_word ty its)"
  by (induction ty its rule: next_word.induct) (auto dest: ended_tail)

lemma ended_word_edge: "ended fin its \<Longrightarrow> ended fin (word_edge ty its)"
  by (induction ty its rule: word_edge.induct) (auto dest: ended_tail)

definition at_word :: "item list \<Rightarrow> bool" where
  "at_word its \<longleftrightarrow> solid (hd its) \<or> tl its = []"

lemma at_word_dropWhile: "ended fin its \<Longrightarrow> at_word (dropWhile white its)"
proof (induction its)
  case (Cons i r)
  show ?case
  proof (cases "r = [] \<or> \<not> white i")
    case True
    then show ?thesis using Cons.prems inner_white endedD(1) [OF Cons.prems refl] by (auto simp: at_word_def)
  next
    case False
    then show ?thesis using Cons.IH ended_tail [OF Cons.prems] by simp
  qed
qed (simp add: at_word_def)

lemma word_edge_at_word:
  assumes "ended fin (a # r)" "at_word (a # r)"
  shows "\<exists>i. word_edge ty (a # r) = (if r = [] then [a] else i # dropWhile (goes_on ty a) r) \<and> (r \<noteq> [] \<longrightarrow> solid i)"
  using assms word_edge_word [OF assms(1), of ty] by (auto simp: at_word_def)

subsection \<open>The loops on the stream\<close>

context walk
begin

lemma stands_ended: "stands cs s its \<Longrightarrow> ended stop its"
  using stands_ends stands_item stop by (auto simp: ended_def)

lemma skip_walk:
  assumes at: "stands cs s (a # r)"
  shows "\<exists>cs' s'. skip_word mv stop ty (word_state cs) cs s = Some (False, cs', s') \<and>
    stands cs' s' (dropWhile (goes_on ty a) (beyond (a # r))) \<and> reads s s'"
proof (rule loop_walk [where f = "skip_word mv stop ty (word_state cs)" and Q = "goes_on ty a"
      and P = "\<lambda>cs'. cs_flags cs' \<noteq> stop \<and> \<not> word_stop ty (word_state cs) cs'", OF _ _ _ at])
  show "skip_word mv stop ty (word_state cs) cs' s' = do {
      (e, cs1, s1) \<leftarrow> mv cs' s';
      if e then Some (True, cs1, s1)
      else if cs_flags cs1 \<noteq> stop \<and> \<not> word_stop ty (word_state cs) cs1 then skip_word mv stop ty (word_state cs) cs1 s1
      else Some (False, cs1, s1) }" for cs' s'
    by (subst skip_word.simps) (cases "mv cs' s'"; auto)
  have a: "word_state cs \<longleftrightarrow> i_flag a = CS_NONE \<and> inword (i_ch a)"
    using stands_Cons [OF at] by (auto simp: at_item_def word_state_def)
  show "(cs_flags cs' \<noteq> stop \<and> \<not> word_stop ty (word_state cs) cs') = goes_on ty a i" if "at_item cs' i" for cs' i
    using that stop unfolding a by (cases ty) (auto simp: at_item_def word_stop_def goes_on_def solid_def)
  show "i_flag i \<noteq> stop" if "goes_on ty a i" for i
    using that goes_on_not_fin [OF stands_ended [OF at]] by blast
qed

lemma eat_white_walk:
  assumes at: "stands cs s (i # r)" and r: "r \<noteq> []" and i: "ty = BIGWORD \<Longrightarrow> \<not> solid i"
  shows "\<exists>cs' s'. eat_white (eat_blank mv) ty cs s = Some (False, cs', s') \<and> stands cs' s' (dropWhile white (i # r)) \<and> reads s s'"
proof (cases "solid i")
  case True
  then show ?thesis using at i stands_Cons [OF at] solid_white reads_refl
    by (cases ty) (auto simp: eat_white_def solid_def at_item_def)
next
  case False
  then have "ty = BIGWORD \<or> cs_flags cs \<noteq> CS_NONE \<or> is_blank (cs_ch cs)"
    using stands_Cons [OF at] by (auto simp: solid_def at_item_def)
  moreover have "white i" using endedD(1) [OF stands_ended [OF at] refl r] inner_white False by blast
  ultimately show ?thesis using eat_blank_walk [OF at] r by (simp add: eat_white_def beyond_tl)
qed

lemma to_word_walk:
  assumes at: "stands cs s its"
  shows "\<exists>cs' s' its'. to_word mv (eat_blank mv) cs s = Some (False, cs', s') \<and> stands cs' s' its' \<and> at_word its' \<and>
    word_edge ty its' = next_edge ty its \<and> reads s s'"
proof -
  have eat: "\<exists>cs' s' its'. eat_blank mv cs1 s1 = Some (False, cs', s') \<and> stands cs' s' its' \<and> at_word its' \<and>
      word_edge ty its' = next_edge ty its1 \<and> reads s1 s'" if "stands cs1 s1 its1" for cs1 s1 its1
    using eat_blank_walk [OF that] ended_beyond [OF stands_ended [OF that]] at_word_dropWhile word_edge_white
    unfolding next_edge_def by metis
  show ?thesis
  proof (cases "cs_flags cs = CS_NONE \<and> \<not> is_blank (cs_ch cs)")
    case False
    then have "to_word mv (eat_blank mv) cs s = eat_blank mv cs s" by (simp only: to_word_def if_False)
    then show ?thesis using eat [OF at] by simp
  next
    case True
    obtain cs1 s1 where s1: "mv cs s = Some (False, cs1, s1)" "stands cs1 s1 (beyond its)" "reads s s1"
      using step [OF at] by blast
    obtain j r where j: "beyond its = j # r" "at_item cs1 j" using stands_item [OF s1(2)] by (cases "beyond its") auto
    have sol: "cs_flags cs1 = CS_NONE \<and> \<not> is_blank (cs_ch cs1) \<longleftrightarrow> solid j"
      using j(2) by (auto simp: at_item_def solid_def)
    have t: "to_word mv (eat_blank mv) cs s = (if solid j then Some (False, cs1, s1) else eat_blank mv cs1 s1)"
      using True s1(1) sol by (simp add: to_word_def)
    show ?thesis
    proof (cases "solid j")
      case True
      then show ?thesis using t s1(2,3) j(1) unfolding next_edge_def by (auto simp: at_word_def)
    next
      case False
      have e: "ended stop (j # r)" using stands_ended [OF s1(2)] j(1) by simp
      have "next_edge ty (beyond its) = next_edge ty its"
        unfolding next_edge_def j(1) using False by (cases r) (simp_all add: beyond_def)
      then show ?thesis using t False eat [OF s1(2)] reads_trans [OF s1(3)] by (simp del: split_paired_Ex) metis
    qed
  qed
qed

end

text \<open>
  Going back. A walk with a turn knows how its items lie side by side, so that after a step from one character to the
  next the other operation leads to where the first one was.
\<close>

locale turn = walk +
  fixes bk :: move and adj :: "item \<Rightarrow> item \<Rightarrow> bool"
  assumes neighbours: "stands cs s its \<Longrightarrow> successively adj its \<and> (\<forall>i \<in> set its. item_ok (lines s) i)"
    and adj_pos: "adj i j \<Longrightarrow> i_flag i = CS_NONE \<Longrightarrow> i_flag j \<noteq> CS_NONE \<Longrightarrow> i_pos i = i_pos j"
    and turn_back: "stands cs s (j # r) \<Longrightarrow> adj i j \<Longrightarrow> item_ok (lines s) i \<Longrightarrow> i_flag i = CS_NONE \<Longrightarrow> i_flag j = CS_NONE \<Longrightarrow>
      \<exists>cs'. bk cs s = Some (False, cs', s) \<and> cs_pos cs' = i_pos i"

context turn
begin

lemma stands_pos: "stands cs s (i # r) \<Longrightarrow> cs_pos cs = i_pos i"
  using stands_Cons at_item_pos by blast

lemma edge_neighbours:
  assumes "stands cs s (a # r)" "word_edge ty (a # r) = i # j # k"
  shows "adj i j" and "item_ok (lines s) i"
proof -
  obtain xs where "a # r = xs @ i # j # k" using word_edge_suffix [of "a # r" ty] assms(2) by auto
  then show "adj i j" "item_ok (lines s) i"
    using neighbours [OF assms(1)] by (auto simp: successively_append_iff)
qed

text \<open>What follows an edge: the edges of what is left after the white space.\<close>

lemma edges_after:
  assumes "ended fin (i # j)" "j \<noteq> []"
  shows "(next_edge ty ^^ Suc n) (i # j) = (next_edge ty ^^ n) (word_edge ty (dropWhile white j))"
  using word_edge_white [OF ended_tail [OF assms]] assms(2) unfolding funpow_Suc_right
  by (simp add: next_edge_def beyond_tl)

lemma next_edge_single: "next_edge ty [i] = [i]"
  by (simp add: next_edge_def beyond_def)

lemma next_edge_fin: "(next_edge ty ^^ n) [i] = [i]"
  by (induction n) (simp_all add: next_edge_single)

text \<open>One round of a loop, from the start of a word to what comes after it.\<close>

lemma loop_round:
  assumes at: "stands cs s its" "at_word its"
  obtains i j cs1 s1 where "skip_word mv stop ty (word_state cs) cs s = Some (False, cs1, s1)" "reads s s1"
    "stands cs1 s1 j" "word_edge ty its = (if tl its = [] then j else i # j)" "tl its \<noteq> [] \<longrightarrow> solid i"
    "tl its = [] \<longrightarrow> i_flag (hd j) = stop" "tl its \<noteq> [] \<longrightarrow> adj i (hd j) \<and> item_ok (lines s) i"
    "ty = BIGWORD \<longrightarrow> \<not> solid (hd j)"
proof -
  obtain a r where its: "its = a # r" using stands_item [OF at(1)] by (cases its) auto
  have e: "ended stop (a # r)" using stands_ended at(1) its by simp
  let ?j = "dropWhile (goes_on ty a) (beyond (a # r))"
  obtain cs1 s1 where s1: "skip_word mv stop ty (word_state cs) cs s = Some (False, cs1, s1)" "stands cs1 s1 ?j" "reads s s1"
    using skip_walk [of cs s a r ty] at(1) its by auto
  have ne: "?j \<noteq> []" using stands_item [OF s1(2)] by simp
  have big: "ty = BIGWORD \<longrightarrow> \<not> solid (hd ?j)" using hd_dropWhile [OF ne] goes_on_big by metis
  show ?thesis
  proof (cases "r = []")
    case True
    then have "\<not> solid a" "i_flag a = stop" using endedD(2) [OF e] ended_last [OF e] by simp_all
    then have "?j = [a]" using True by (simp add: beyond_def goes_on_def)
    then show ?thesis using that [OF s1(1,3,2)] True its \<open>i_flag a = stop\<close> big by simp
  next
    case False
    then obtain i where i: "word_edge ty its = i # ?j" "solid i"
      using word_edge_at_word [OF e] at(2) its by (auto simp: beyond_tl)
    have "word_edge ty (a # r) = i # hd ?j # tl ?j" using i(1) ne its by simp
    then have "adj i (hd ?j)" "item_ok (lines s) i" using edge_neighbours [of cs s a r ty i] at(1) its by auto
    then show ?thesis using that [OF s1(1,3,2)] i False its big by simp
  qed
qed

lemma ends_loop_walk:
  assumes "stands cs s its" "at_word its"
  shows "\<exists>cs' s'. ends_loop mv bk (eat_blank mv) stop ty (Suc n) cs s = Some (False, cs', s') \<and> reads s s' \<and> ready s' \<and>
    cs_pos cs' = i_pos (hd ((next_edge ty ^^ n) (word_edge ty its)))"
  using assms
proof (induction n arbitrary: cs s its)
  case 0
  obtain i j cs1 s1 where l: "skip_word mv stop ty (word_state cs) cs s = Some (False, cs1, s1)" "reads s s1"
      "stands cs1 s1 j" and e: "word_edge ty its = (if tl its = [] then j else i # j)" "tl its \<noteq> [] \<longrightarrow> solid i"
      "tl its = [] \<longrightarrow> i_flag (hd j) = stop" "tl its \<noteq> [] \<longrightarrow> adj i (hd j) \<and> item_ok (lines s) i"
    by (rule loop_round [OF 0]) (rule that)
  obtain h k where j: "j = h # k" "at_item cs1 h" using stands_item [OF l(3)] by (cases j) auto
  have fl: "cs_flags cs1 = i_flag h" "cs_pos cs1 = i_pos h" using j(2) at_item_pos by (simp_all add: at_item_def)
  have rd: "ready s1" using stands_ready [OF l(3)] by simp
  show ?case
  proof (cases "i_flag h = CS_NONE")
    case True
    then have t: "tl its \<noteq> []" "cs_flags cs1 \<noteq> stop" using e(3) stop fl(1) j(1) by auto
    have "lines s1 = lines s" using l(2) by (simp add: reads_def)
    then obtain cs' where "bk cs1 s1 = Some (False, cs', s1)" "cs_pos cs' = i_pos i"
      using turn_back [of cs1 s1 h k i] l(3) j(1) e(2,4) t(1) True by (auto simp: solid_def)
    then show ?thesis using l(1,2) rd e(1) t True fl(1) by simp
  next
    case False
    then have "i_pos (hd (word_edge ty its)) = i_pos h" using e adj_pos [of i h] j(1) by (auto simp: solid_def)
    then show ?thesis using l(1,2) rd fl False by simp
  qed
next
  case (Suc n)
  obtain i j cs1 s1 where l: "skip_word mv stop ty (word_state cs) cs s = Some (False, cs1, s1)" "reads s s1"
      "stands cs1 s1 j" and e: "word_edge ty its = (if tl its = [] then j else i # j)" "tl its \<noteq> [] \<longrightarrow> solid i"
      "tl its = [] \<longrightarrow> i_flag (hd j) = stop" "tl its \<noteq> [] \<longrightarrow> adj i (hd j) \<and> item_ok (lines s) i"
      and big: "ty = BIGWORD \<longrightarrow> \<not> solid (hd j)"
    by (rule loop_round [OF Suc.prems]) (rule that)
  obtain h k where j: "j = h # k" "at_item cs1 h" using stands_item [OF l(3)] by (cases j) auto
  have ej: "ended stop (h # k)" using stands_ended [OF l(3)] j(1) by simp
  have fl: "cs_flags cs1 = i_flag h" "cs_pos cs1 = i_pos h" using j(2) at_item_pos by (simp_all add: at_item_def)
  have rd: "ready s1" using stands_ready [OF l(3)] by simp
  show ?case
  proof (cases "k = []")
    case True
    then have f: "i_flag h = stop" using ended_last [OF ej] by simp
    have "(next_edge ty ^^ Suc n) (word_edge ty its) = [h]"
    proof (cases "tl its = []")
      case True
      then show ?thesis using e(1) j(1) \<open>k = []\<close> next_edge_fin [of n ty h] by (simp add: next_edge_single)
    next
      case False
      then show ?thesis using e(1) j(1) \<open>k = []\<close> next_edge_fin [of n ty h] unfolding funpow_Suc_right
        by (simp add: next_edge_def beyond_tl)
    qed
    then show ?thesis using l(1,2) rd fl f by simp
  next
    case False
    then have t: "tl its \<noteq> []" "cs_flags cs1 \<noteq> stop" using ended_last [OF ej] e(3) j(1) fl(1) by auto
    obtain cs2 s2 where s2: "eat_white (eat_blank mv) ty cs1 s1 = Some (False, cs2, s2)"
      "stands cs2 s2 (dropWhile white j)" "reads s1 s2"
      using eat_white_walk [of cs1 s1 h k ty] l(3) j(1) False big by auto
    have ed: "ended stop (i # j)"
      using ended_word_edge [OF stands_ended [OF Suc.prems(1)], of ty] e(1) t(1) by simp
    have nx: "(next_edge ty ^^ Suc n) (word_edge ty its) = (next_edge ty ^^ n) (word_edge ty (dropWhile white j))"
      using edges_after [OF ed] e(1) t(1) j(1) by simp
    have w: "at_word (dropWhile white j)" using at_word_dropWhile [OF ended_tail [OF ed]] j(1) by simp
    have step: "ends_loop mv bk (eat_blank mv) stop ty (Suc (Suc n)) cs s =
        (if cs_flags cs2 = stop then Some (False, cs2, s2) else ends_loop mv bk (eat_blank mv) stop ty (Suc n) cs2 s2)"
      using l(1) t(2) s2(1) by simp
    have r2: "reads s s2" "ready s2" using reads_trans [OF l(2) s2(3)] stands_ready [OF s2(2)] by simp_all
    show ?thesis
    proof (cases "cs_flags cs2 = stop")
      case True
      obtain h' k' where h': "dropWhile white j = h' # k'" using stands_item [OF s2(2)] by (cases "dropWhile white j") auto
      have "i_flag h' = stop" using stands_flag [OF s2(2)] True h' by simp
      then have "dropWhile white j = [h']" using ended_last [of stop h' k'] stands_ended [OF s2(2)] h' by simp
      then show ?thesis using step True nx next_edge_fin [of n ty h'] stands_pos [of cs2 s2 h' "[]"] s2(2) r2 by simp
    next
      case False
      then show ?thesis using step nx Suc.IH [OF s2(2) w] reads_trans [OF r2(1)] by auto
    qed
  qed
qed

end

subsection \<open>Both directions turn\<close>

lemma on_neighbours:
  assumes at: "stands_on cs s its"
  shows "successively adj_on its \<and> (\<forall>i \<in> set its. item_ok (lines s) i)"
proof -
  let ?n = "cs_lno cs" and ?l = "lines s ! (cs_lno cs - 1)"
  have n: "0 < ?n" "?n \<le> length (lines s)" using at by (simp_all add: stands_on_def)
  have ls: "successively adj_on (lines_on ?n (lines s))" by (rule lines_on_adj [OF n(2)])
  have ok: "\<forall>i \<in> set (lines_on ?n (lines s)). item_ok (lines s) i" using ok_lines(1) by blast
  show ?thesis
  proof (cases "cs_flags cs")
    case CS_NONE
    then have "its = chars_on ?n ?l (cs_cno cs) @ lines_on ?n (lines s)" using at by (simp add: stands_on_def Let_def)
    then show ?thesis using ls ok chars_on_adj ok_chars(1) [OF n] by (auto simp: successively_append_iff last_chars adj_mark)
  qed (use at ls ok in \<open>auto simp: stands_on_def Let_def successively_Cons adj_mark item_ok_def\<close>)
qed

lemma back_neighbours:
  assumes at: "stands_back cs s its"
  shows "successively adj_back its \<and> (\<forall>i \<in> set its. item_ok (lines s) i)"
proof -
  let ?n = "cs_lno cs" and ?l = "lines s ! (cs_lno cs - 1)"
  have n: "0 < ?n" "?n \<le> length (lines s)" using at by (simp_all add: stands_back_def)
  have ls: "successively adj_back (lines_back ?n (lines s))" by (rule lines_back_adj [OF n(1)])
  have ok: "\<forall>i \<in> set (lines_back ?n (lines s)). item_ok (lines s) i" using ok_lines(2) [where n = ?n and ls = "lines s"] n(2) by simp
  show ?thesis
  proof (cases "cs_flags cs")
    case CS_NONE
    then have its: "its = chars_back ?n ?l (cs_cno cs) @ lines_back ?n (lines s)" and c: "cs_cno cs < length ?l"
      using at by (simp_all add: stands_back_def Let_def)
    have "adj_back (last (chars_back ?n ?l (cs_cno cs))) (hd (lines_back ?n (lines s)))"
    proof (cases "?n = 1")
      case True
      then show ?thesis by (simp add: chars_back_def adj_back_def upt_conv_Cons)
    next
      case False
      then show ?thesis by (simp add: last_chars(2) adj_mark)
    qed
    then show ?thesis using its ls ok chars_back_adj [OF c] ok_chars(2) [OF n c] by (auto simp: successively_append_iff)
  qed (use at ls ok in \<open>auto simp: stands_back_def Let_def successively_Cons adj_mark item_ok_def\<close>)
qed

interpretation fturn: turn cs_next stands_on CS_EOF cs_prev adj_on
proof
  fix cs s its i j r
  show "successively adj_on its \<and> (\<forall>i \<in> set its. item_ok (lines s) i)" if "stands_on cs s its"
    by (rule on_neighbours [OF that])
  show "i_pos i = i_pos j" if "adj_on i j" "i_flag i = CS_NONE" "i_flag j \<noteq> CS_NONE"
    using that by (simp add: adj_on_def i_pos_def)
  show "\<exists>cs'. cs_prev cs s = Some (False, cs', s) \<and> cs_pos cs' = i_pos i"
    if "stands_on cs s (j # r)" "adj_on i j" "item_ok (lines s) i" "i_flag i = CS_NONE" "i_flag j = CS_NONE"
    using that fwd.stands_Cons [OF that(1)]
    by (auto simp: stands_on_def Let_def at_item_def adj_on_def cs_prev_def cs_pos_def i_pos_def)
qed

interpretation bturn: turn cs_prev stands_back CS_SOF cs_next adj_back
proof
  fix cs s its i j r
  show "successively adj_back its \<and> (\<forall>i \<in> set its. item_ok (lines s) i)" if "stands_back cs s its"
    by (rule back_neighbours [OF that])
  show "i_pos i = i_pos j" if "adj_back i j" "i_flag i = CS_NONE" "i_flag j \<noteq> CS_NONE"
    using that by (simp add: adj_back_def i_pos_def)
  show "\<exists>cs'. cs_next cs s = Some (False, cs', s) \<and> cs_pos cs' = i_pos i"
    if "stands_back cs s (j # r)" "adj_back i j" "item_ok (lines s) i" "i_flag i = CS_NONE" "i_flag j = CS_NONE"
    using that bwd.stands_Cons [OF that(1)]
    by (auto simp: stands_back_def Let_def at_item_def adj_back_def item_ok_def cs_next_def cs_pos_def i_pos_def)
qed

subsection \<open>The motions\<close>

definition in_text :: "mark \<Rightarrow> bytes list \<Rightarrow> bool" where
  "in_text m ls \<longleftrightarrow> 0 < m_lno m \<and> m_lno m \<le> length ls \<and>
     (v_isempty (ls ! (m_lno m - 1)) \<or> m_cno m < length (ls ! (m_lno m - 1)))"

lemma start_spec:
  assumes "ready s" "\<not> sp_tinput (cur s)" "in_text m (lines s)"
  obtains cs s' where "cs_init (cs_start m) s = Some (False, cs, s')" "reads s s'"
    "stands_on cs s' (ahead (m_lno m) (m_cno m) (lines s))" "stands_back cs s' (behind (m_lno m) (m_cno m) (lines s))"
  using cs_init_spec [of s "cs_start m"] assms by (auto simp: in_text_def cs_start_def)

lemma fword_loop_on:
  assumes "stands_on cs s its" "at_word its" "\<not> ISMOTION vp"
  shows "\<exists>cs' s'. fword_loop ty vp n cs s = Some (False, cs', s') \<and> stands_on cs' s' ((next_word ty ^^ n) its) \<and> reads s s'"
  using assms(1,2)
proof (induction n arbitrary: cs s its)
  case (Suc n)
  obtain a r where its: "its = a # r" using fwd.stands_item [OF Suc.prems(1)] by (cases its) auto
  have e: "ended CS_EOF (a # r)" using fwd.stands_ended Suc.prems(1) its by simp
  let ?j = "dropWhile (goes_on ty a) (beyond (a # r))"
  obtain cs1 s1 where s1: "skip_word cs_next CS_EOF ty (word_state cs) cs s = Some (False, cs1, s1)" "stands_on cs1 s1 ?j" "reads s s1"
    using fwd.skip_walk [of cs s a r ty] Suc.prems(1) its by auto
  obtain h k where j: "?j = h # k" using fwd.stands_item [OF s1(2)] by (cases ?j) auto
  have ej: "ended CS_EOF (h # k)" using fwd.stands_ended [OF s1(2)] j by simp
  have nw: "next_word ty its = dropWhile white ?j"
  proof (cases "r = []")
    case True
    then show ?thesis using endedD(2) [OF e] its by (simp add: beyond_def goes_on_def)
  next
    case False
    then show ?thesis using Suc.prems(2) next_word_word [OF e] its by (simp add: at_word_def beyond_tl)
  qed
  have fin: "(next_word ty ^^ m) [i] = [i]" for m i by (induction m) simp_all
  have big: "\<not> solid h" if "ty = BIGWORD" using hd_dropWhile [of "goes_on ty a" "beyond (a # r)"] j goes_on_big that by fastforce
  show ?case
  proof (cases "k = []")
    case True
    then have "\<not> white h" "i_flag h = CS_EOF" using endedD(2) [OF ej] ended_last [OF ej] by simp_all
    then have "next_word ty its = [h]" using nw j True by simp
    then show ?thesis using s1 fwd.stands_flag [OF s1(2)] j True \<open>i_flag h = CS_EOF\<close> fin
      by (simp add: funpow_Suc_right del: funpow.simps)
  next
    case False
    then have fl: "cs_flags cs1 \<noteq> CS_EOF" using ended_last [OF ej] fwd.stands_flag [OF s1(2)] j by simp
    obtain cs2 s2 where s2: "eat_white cs_fblank ty cs1 s1 = Some (False, cs2, s2)" "stands_on cs2 s2 (next_word ty its)" "reads s1 s2"
      using fwd.eat_white_walk [of cs1 s1 h k ty] s1(2) j False big nw unfolding cs_fblank_def by auto
    have w: "at_word (next_word ty its)" using at_word_dropWhile [OF ej] nw j by simp
    have step: "fword_loop ty vp (Suc n) cs s = (if cs_flags cs2 = CS_EOF then Some (False, cs2, s2) else fword_loop ty vp n cs2 s2)"
      using s1(1) fl assms(3) s2(1) by simp
    have r2: "reads s s2" using reads_trans [OF s1(3) s2(3)] .
    show ?thesis
    proof (cases "cs_flags cs2 = CS_EOF")
      case True
      obtain h' k' where h': "next_word ty its = h' # k'" using fwd.stands_item [OF s2(2)] by (cases "next_word ty its") auto
      have "k' = []" using ended_last [of CS_EOF h' k'] fwd.stands_ended [OF s2(2)] fwd.stands_flag [OF s2(2)] True h' by simp
      then have "(next_word ty ^^ Suc n) its = next_word ty its" unfolding funpow_Suc_right using h' fin by simp
      then show ?thesis using step True s2(2) r2 by simp
    next
      case False
      then show ?thesis using step Suc.IH [OF s2(2) w] reads_trans [OF r2] unfolding funpow_Suc_right by auto
    qed
  qed
qed simp

lemma reads_lines: "reads s s' \<Longrightarrow> lines s' = lines s"
  by (simp add: reads_def)

lemma fword_ret_on:
  assumes "stands_on cs s (i # r)" "\<not> ISMOTION vp"
  shows "\<exists>s'. fword_ret vp cs s = Some (if i_pos i = m_start vp then (True, vp, s')
      else (False, vp\<lparr>m_stop := i_pos i, m_final := i_pos i\<rparr>, s')) \<and> reads s s' \<and> ready s'"
proof -
  have i: "cs_lno cs = i_lno i" "cs_cno cs = i_cno i" using fwd.stands_Cons [OF assms(1)] by (simp_all add: at_item_def)
  have rd: "ready s" "\<not> sp_tinput (cur s)" using fwd.stands_ready [OF assms(1)] by simp_all
  have "i_pos i = m_start vp \<longleftrightarrow> i_lno i = m_lno (m_start vp) \<and> i_cno i = m_cno (m_start vp)"
    by (cases "m_start vp") (simp add: i_pos_def)
  then show ?thesis using i rd assms(2) v_eof_reads [OF rd] by (auto simp: fword_ret_def i_pos_def Let_def)
qed

lemma head_at_word:
  assumes "stands_on cs s its" "\<not> (cs_flags cs = CS_EMP \<or> cs_flags cs = CS_NONE \<and> is_blank (cs_ch cs))" "cs_flags cs \<noteq> CS_EOL"
  shows "at_word its"
proof -
  obtain a r where its: "its = a # r" "at_item cs a" using fwd.stands_item [OF assms(1)] by (cases its) auto
  have "r \<noteq> [] \<Longrightarrow> inner a" using endedD(1) [OF fwd.stands_ended [OF assms(1)] its(1)] by simp
  then show ?thesis using its assms(2,3) by (auto simp: at_word_def solid_def inner_def at_item_def)
qed

lemma init_not_EOL: "cs_init cs s = Some (False, cs', s') \<Longrightarrow> cs_flags cs' = CS_NONE \<or> cs_flags cs' = CS_EMP"
  by (auto simp: cs_init_def cs_line_def split: Option.bind_splits if_splits)

lemma fword_spec:
  assumes rd: "ready s" "\<not> sp_tinput (cur s)" and m: "in_text (m_start vp) (lines s)" and c: "0 < vp_cnt vp" and nm: "\<not> ISMOTION vp"
    and its: "its = (next_word ty ^^ vp_cnt vp) (ahead (m_lno (m_start vp)) (m_cno (m_start vp)) (lines s))"
  shows "\<exists>s'. fword ty vp s = Some (if i_pos (hd its) = m_start vp then (True, vp, s')
      else (False, vp\<lparr>m_stop := i_pos (hd its), m_final := i_pos (hd its)\<rparr>, s')) \<and> reads s s' \<and> ready s'"
proof -
  let ?a = "ahead (m_lno (m_start vp)) (m_cno (m_start vp)) (lines s)"
  obtain cs s1 where s1: "cs_init (cs_start (m_start vp)) s = Some (False, cs, s1)" "reads s s1" "stands_on cs s1 ?a"
    using start_spec [OF rd m] by metis
  let ?w = "cs_flags cs = CS_EMP \<or> cs_flags cs = CS_NONE \<and> is_blank (cs_ch cs)"
  have ret: ?thesis if f: "fword ty vp s = fword_ret vp cs' s'" "stands_on cs' s' its" "reads s s'" for cs' s'
  proof -
    obtain i r where i: "its = i # r" using fwd.stands_item [OF f(2)] by (cases its) auto
    show ?thesis using fword_ret_on [of cs' s' i r vp] f i nm reads_trans [OF f(3)] by auto
  qed
  show ?thesis
  proof (cases ?w)
    case False
    have "at_word ?a" using head_at_word [OF s1(3) False] init_not_EOL [OF s1(1)] by auto
    then obtain cs2 s2 where l: "fword_loop ty vp (vp_cnt vp) cs s1 = Some (False, cs2, s2)" "stands_on cs2 s2 its" "reads s1 s2"
      using fword_loop_on [OF s1(3) _ nm] its by blast
    have "fword ty vp s = fword_ret vp cs2 s2" using s1(1) l(1) False by (auto simp: fword_def Let_def)
    then show ?thesis by (rule ret [OF _ l(2) reads_trans [OF s1(2) l(3)]])
  next
    case True
    obtain k where k: "vp_cnt vp = Suc k" using c by (cases "vp_cnt vp") auto
    obtain cs2 s2 where s2: "cs_fblank cs s1 = Some (False, cs2, s2)" "stands_on cs2 s2 (dropWhile white (beyond ?a))" "reads s1 s2"
      using cs_fblank_on [OF s1(3)] by blast
    obtain a r where a: "?a = a # r" "at_item cs a" using fwd.stands_item [OF s1(3)] by (cases ?a) auto
    have e: "ended CS_EOF (a # r)" using fwd.stands_ended [OF s1(3)] a(1) by simp
    have "i_flag a \<noteq> CS_EOF" "\<not> solid a" using True a(2) by (auto simp: at_item_def solid_def)
    then have nw: "next_word ty ?a = dropWhile white (beyond ?a)"
      using next_word_white [OF e] ended_last [OF e] a(1) by (simp add: beyond_tl)
    have w: "at_word (next_word ty ?a)" using at_word_dropWhile [OF ended_beyond [OF fwd.stands_ended [OF s1(3)]]] nw by simp
    obtain cs3 s3 where l: "fword_loop ty vp k cs2 s2 = Some (False, cs3, s3)" "stands_on cs3 s3 ((next_word ty ^^ k) (next_word ty ?a))" "reads s2 s3"
      using fword_loop_on [OF _ w nm] s2(2) nw by metis
    have its': "its = (next_word ty ^^ k) (next_word ty ?a)" using its k by (simp add: funpow_Suc_right del: funpow.simps)
    have "fword ty vp s = fword_ret vp cs3 s3"
      using s1(1) s2(1) l(1) True nm k by (auto simp: fword_def Let_def ulong_dec_def)
    then show ?thesis
      by (rule ret [OF _ l(2) [folded its'] reads_trans [OF s1(2) reads_trans [OF s2(3) l(3)]]])
  qed
qed

lemma eword_spec:
  assumes rd: "ready s" "\<not> sp_tinput (cur s)" and m: "in_text (m_start vp) (lines s)" and c: "0 < vp_cnt vp"
    and p: "p = i_pos (hd ((next_edge ty ^^ vp_cnt vp) (ahead (m_lno (m_start vp)) (m_cno (m_start vp)) (lines s))))"
  shows "\<exists>s'. eword ty vp s = Some (if \<not> ISMOTION vp \<and> p = m_start vp then (True, vp, s')
      else (False, vp\<lparr>m_stop := p, m_final := if ISMOTION vp then m_start vp else p\<rparr>, s')) \<and> reads s s' \<and> ready s'"
proof -
  let ?a = "ahead (m_lno (m_start vp)) (m_cno (m_start vp)) (lines s)"
  obtain n where n: "vp_cnt vp = Suc n" using c by (cases "vp_cnt vp") auto
  obtain cs s1 where s1: "cs_init (cs_start (m_start vp)) s = Some (False, cs, s1)" "reads s s1" "stands_on cs s1 ?a"
    using start_spec [OF rd m] by metis
  obtain cs2 s2 its2 where s2: "to_word cs_next cs_fblank cs s1 = Some (False, cs2, s2)" "stands_on cs2 s2 its2" "at_word its2"
      "word_edge ty its2 = next_edge ty ?a" "reads s1 s2"
    using fwd.to_word_walk [OF s1(3), of ty] unfolding cs_fblank_def by blast
  obtain cs3 s3 where s3: "ends_loop cs_next cs_prev cs_fblank CS_EOF ty (Suc n) cs2 s2 = Some (False, cs3, s3)" "reads s2 s3" "ready s3"
      "cs_pos cs3 = i_pos (hd ((next_edge ty ^^ n) (word_edge ty its2)))"
    using fturn.ends_loop_walk [OF s2(2,3), where ty = ty and n = n] unfolding cs_fblank_def by blast
  have pos: "cs_pos cs3 = p" using s3(4) s2(4) p n by (simp add: funpow_Suc_right del: funpow.simps)
  have r: "reads s s3" using reads_trans [OF s1(2) reads_trans [OF s2(5) s3(2)]] .
  have "\<not> sp_tinput (cur s3)" using reads_fields(19) [OF r] rd(2) by simp
  then obtain s4 where s4: "v_eof s3 = Some s4" "ready s4" "reads s3 s4" using v_eof_reads [OF s3(3)] by blast
  have same: "cs_lno cs3 = m_lno (m_start vp) \<and> cs_cno cs3 = m_cno (m_start vp) \<longleftrightarrow> p = m_start vp"
    unfolding pos [symmetric] by (cases "m_start vp") (simp add: cs_pos_def)
  have "eword ty vp s = (if \<not> ISMOTION vp \<and> p = m_start vp then Some (True, vp, s4)
      else Some (False, vp\<lparr>m_stop := p, m_final := if ISMOTION vp then m_start vp else p\<rparr>, s3))"
    using s1(1) s2(1) s3(1) s4(1) n by (simp add: eword_def same pos del: ends_loop.simps)
  then show ?thesis using r s3(3) s4(2) reads_trans [OF r s4(3)] by auto
qed

lemma bword_spec:
  assumes rd: "ready s" "\<not> sp_tinput (cur s)" and m: "in_text (m_start vp) (lines s)" and c: "0 < vp_cnt vp"
    and p: "p = i_pos (hd ((next_edge ty ^^ vp_cnt vp) (behind (m_lno (m_start vp)) (m_cno (m_start vp)) (lines s))))"
  shows "\<exists>s'. bword ty vp s = Some (if p = m_start vp then (True, vp, s')
      else (False, vp\<lparr>m_stop := p, m_final := p, m_start := if ISMOTION vp
         then (m_start vp)\<lparr>m_cno := cno_prev (m_cno (m_start vp))\<rparr> else m_start vp\<rparr>, s')) \<and> reads s s' \<and> ready s'"
proof -
  let ?a = "behind (m_lno (m_start vp)) (m_cno (m_start vp)) (lines s)"
  obtain n where n: "vp_cnt vp = Suc n" using c by (cases "vp_cnt vp") auto
  obtain cs s1 where s1: "cs_init (cs_start (m_start vp)) s = Some (False, cs, s1)" "reads s s1" "stands_back cs s1 ?a"
    using start_spec [OF rd m] by metis
  obtain cs2 s2 its2 where s2: "to_word cs_prev cs_bblank cs s1 = Some (False, cs2, s2)" "stands_back cs2 s2 its2" "at_word its2"
      "word_edge ty its2 = next_edge ty ?a" "reads s1 s2"
    using bwd.to_word_walk [OF s1(3), of ty] unfolding cs_bblank_def by blast
  obtain cs3 s3 where s3: "ends_loop cs_prev cs_next cs_bblank CS_SOF ty (Suc n) cs2 s2 = Some (False, cs3, s3)" "reads s2 s3" "ready s3"
      "cs_pos cs3 = i_pos (hd ((next_edge ty ^^ n) (word_edge ty its2)))"
    using bturn.ends_loop_walk [OF s2(2,3), where ty = ty and n = n] unfolding cs_bblank_def by blast
  have pos: "cs_pos cs3 = p" using s3(4) s2(4) p n by (simp add: funpow_Suc_right del: funpow.simps)
  have r: "reads s s3" using reads_trans [OF s1(2) reads_trans [OF s2(5) s3(2)]] .
  have same: "cs_lno cs3 = m_lno (m_start vp) \<and> cs_cno cs3 = m_cno (m_start vp) \<longleftrightarrow> p = m_start vp"
    unfolding pos [symmetric] by (cases "m_start vp") (simp add: cs_pos_def)
  have "bword ty vp s = (if p = m_start vp then Some (True, vp, s3)
      else Some (False, vp\<lparr>m_stop := p, m_final := p,
              m_start := if ISMOTION vp then (m_start vp)\<lparr>m_cno := cno_prev (m_cno (m_start vp))\<rparr> else m_start vp\<rparr>, s3))"
    using s1(1) s2(1) s3(1) n by (simp add: bword_def same pos del: ends_loop.simps)
  then show ?thesis using r s3(3) by auto
qed

subsection \<open>Properties\<close>

text \<open>A file for the witnesses: in its first line a word, punctuation and a word; a blank line; a third line.\<close>

abbreviation word_file :: "bytes list" where
  "word_file \<equiv> [''ab;c d'', '' '', ''ef'']"

lemma word_file_facts:
  "in_text \<lparr>m_lno = 1, m_cno = 0\<rparr> word_file" "in_text \<lparr>m_lno = 3, m_cno = 1\<rparr> word_file"
  by (simp_all add: in_text_def)

text \<open>
  C33: \<^verbatim>\<open>w\<close> and \<^verbatim>\<open>W\<close> with a count, as cursor movements, always return. They go to the
  next item of the text that starts a word, as often as the count says, or to the end of the file, change no
  line, and fail exactly when that is where the cursor was.
\<close>

theorem word_forward:
  assumes "ready s" "\<not> sp_tinput (cur s)" "in_text (m_start vp) (lines s)" "0 < vp_cnt vp" "\<not> ISMOTION vp"
    and "p = i_pos (hd ((next_word ty ^^ vp_cnt vp) (ahead (m_lno (m_start vp)) (m_cno (m_start vp)) (lines s))))"
  shows "\<exists>s'. fword ty vp s = Some (if p = m_start vp then (True, vp, s')
      else (False, vp\<lparr>m_stop := p, m_final := p\<rparr>, s')) \<and> reads s s' \<and> ready s'"
  unfolding assms(6) by (rule fword_spec [OF assms(1-5) refl])

theorem word_forward_witness:
  "\<exists>s'. fword LITTLEWORD (vi_start None (Some 4) \<lparr>m_lno = 1, m_cno = 0\<rparr>) (opened word_file) =
     Some (False, (vi_start None (Some 4) \<lparr>m_lno = 1, m_cno = 0\<rparr>)
       \<lparr>m_stop := \<lparr>m_lno = 3, m_cno = 0\<rparr>, m_final := \<lparr>m_lno = 3, m_cno = 0\<rparr>\<rparr>, s')"
proof -
  let ?vp = "vi_start None (Some 4) \<lparr>m_lno = 1, m_cno = 0\<rparr>"
  have v: "m_start ?vp = \<lparr>m_lno = 1, m_cno = 0\<rparr>" "vp_cnt ?vp = 4" "\<not> ISMOTION ?vp"
    by (simp_all add: vi_start_def vp_cnt_def ISMOTION_def)
  have p: "i_pos (hd ((next_word LITTLEWORD ^^ 4) (ahead 1 0 word_file))) = \<lparr>m_lno = 3, m_cno = 0\<rparr>" by code_simp
  show ?thesis
    using word_forward [of "opened word_file" ?vp, OF _ _ _ _ _ refl, of LITTLEWORD] v p word_file_facts
    by auto
qed

text \<open>
  C34: \<^verbatim>\<open>e\<close> and \<^verbatim>\<open>E\<close> go to the next end of a word as often as the count says. As part of a
  command they never fail and leave the final cursor at the start.
\<close>

theorem word_end:
  assumes "ready s" "\<not> sp_tinput (cur s)" "in_text (m_start vp) (lines s)" "0 < vp_cnt vp"
    and "p = i_pos (hd ((next_edge ty ^^ vp_cnt vp) (ahead (m_lno (m_start vp)) (m_cno (m_start vp)) (lines s))))"
  shows "\<exists>s'. eword ty vp s = Some (if \<not> ISMOTION vp \<and> p = m_start vp then (True, vp, s')
      else (False, vp\<lparr>m_stop := p, m_final := if ISMOTION vp then m_start vp else p\<rparr>, s')) \<and> reads s s' \<and> ready s'"
  by (rule eword_spec [OF assms])

theorem word_end_witness:
  "\<exists>s'. eword BIGWORD (vi_start None (Some 2) \<lparr>m_lno = 1, m_cno = 0\<rparr>) (opened word_file) =
     Some (False, (vi_start None (Some 2) \<lparr>m_lno = 1, m_cno = 0\<rparr>)
       \<lparr>m_stop := \<lparr>m_lno = 1, m_cno = 5\<rparr>, m_final := \<lparr>m_lno = 1, m_cno = 5\<rparr>\<rparr>, s')"
proof -
  let ?vp = "vi_start None (Some 2) \<lparr>m_lno = 1, m_cno = 0\<rparr>"
  have v: "m_start ?vp = \<lparr>m_lno = 1, m_cno = 0\<rparr>" "vp_cnt ?vp = 2" "\<not> ISMOTION ?vp"
    by (simp_all add: vi_start_def vp_cnt_def ISMOTION_def)
  have p: "i_pos (hd ((next_edge BIGWORD ^^ 2) (ahead 1 0 word_file))) = \<lparr>m_lno = 1, m_cno = 5\<rparr>" by code_simp
  show ?thesis
    using word_end [of "opened word_file" ?vp, OF _ _ _ _ refl, of BIGWORD] v p word_file_facts
    by auto
qed

text \<open>
  C35: \<^verbatim>\<open>b\<close> and \<^verbatim>\<open>B\<close> go back to the start of a word as often as the count says, or to the start of
  the file, and fail exactly when that is where the cursor was; for a command the range ends before the
  cursor.
\<close>

theorem word_back:
  assumes "ready s" "\<not> sp_tinput (cur s)" "in_text (m_start vp) (lines s)" "0 < vp_cnt vp"
    and "p = i_pos (hd ((next_edge ty ^^ vp_cnt vp) (behind (m_lno (m_start vp)) (m_cno (m_start vp)) (lines s))))"
  shows "\<exists>s'. bword ty vp s = Some (if p = m_start vp then (True, vp, s')
      else (False, vp\<lparr>m_stop := p, m_final := p, m_start := if ISMOTION vp
         then (m_start vp)\<lparr>m_cno := cno_prev (m_cno (m_start vp))\<rparr> else m_start vp\<rparr>, s')) \<and> reads s s' \<and> ready s'"
  by (rule bword_spec [OF assms])

theorem word_back_witness:
  "\<exists>s'. bword LITTLEWORD (vi_start None (Some 3) \<lparr>m_lno = 3, m_cno = 1\<rparr>) (opened word_file) =
     Some (False, (vi_start None (Some 3) \<lparr>m_lno = 3, m_cno = 1\<rparr>)
       \<lparr>m_stop := \<lparr>m_lno = 1, m_cno = 3\<rparr>, m_final := \<lparr>m_lno = 1, m_cno = 3\<rparr>\<rparr>, s')"
proof -
  let ?vp = "vi_start None (Some 3) \<lparr>m_lno = 3, m_cno = 1\<rparr>"
  have v: "m_start ?vp = \<lparr>m_lno = 3, m_cno = 1\<rparr>" "vp_cnt ?vp = 3" "\<not> ISMOTION ?vp"
    by (simp_all add: vi_start_def vp_cnt_def ISMOTION_def)
  have p: "i_pos (hd ((next_edge LITTLEWORD ^^ 3) (behind 3 1 word_file))) = \<lparr>m_lno = 1, m_cno = 3\<rparr>" by code_simp
  show ?thesis
    using word_back [of "opened word_file" ?vp, OF _ _ _ _ refl, of LITTLEWORD] v p word_file_facts
    by auto
qed

end
