(* ===== verification/ViParse.thy ===== *)
theory ViParse
  imports KeyMaps Words "HOL-Library.Word"
begin

section \<open>Reading a vi command (vi/vi.c)\<close>

text \<open>
  How vi gets a command from its keys: \<^verbatim>\<open>v_key\<close>, \<^verbatim>\<open>v_count\<close>, \<^verbatim>\<open>v_alias\<close>,
  \<^verbatim>\<open>v_keyword\<close> and the parser \<^verbatim>\<open>v_cmd\<close>.

  The lemmas: what keys that no map touches are read as; counts; and that the parser reads a written command back.
\<close>

subsection \<open>State\<close>

datatype gcret = GC_ERR | GC_ERR_NOFLUSH | GC_EVENT | GC_FATAL | GC_INTERRUPT | GC_OK

text \<open>
  The keys, the editor, the saved command and motion for \<^verbatim>\<open>.\<close>, the word under the cursor with
  the size of its buffer, two options, the favourite column (\<^verbatim>\<open>sp->rcm\<close>, \<^verbatim>\<open>VIP_RCM_LAST\<close>), and
  whether repainting the screen on demand fails.
\<close>

record vst =
  vs_gs :: gs
  vs_ed :: ed
  vs_dot :: vicmd
  vs_dotmotion :: vicmd
  vs_keyw :: bytes
  vs_klen :: nat
  o_tildeop :: bool
  o_secure :: bool
  sp_rcm :: nat
  vip_rcm_last :: bool
  repaint_fails :: "event \<Rightarrow> bool"

text \<open>\<^verbatim>\<open>memset(vp, 0, sizeof(VICMD))\<close>.\<close>

definition vp_zero :: vicmd where
  "vp_zero = vi_start None None \<lparr>m_lno = 0, m_cno = 0\<rparr>"

subsection \<open>Keys and counts\<close>

text \<open>
  \<^verbatim>\<open>v_key\<close>; \<open>quote\<close> is its local variable. On a fatal error the event is not set.
\<close>

partial_function (option) v_key_loop :: "bool \<Rightarrow> ec_flags \<Rightarrow> bool \<Rightarrow> vst \<Rightarrow> (gcret \<times> event \<times> vst) option" where
  "v_key_loop command_events fl quote v =
     do {
       (e, ev, g) \<leftarrow> v_event_get (if quote then fl\<lparr>ec_quoted := True\<rparr> else fl) 0 (vs_gs v);
       let v1 = v\<lparr>vs_gs := g\<rparr>;
       if e then Some (GC_FATAL, g_junk g, v1)
       else case ev of
         None \<Rightarrow> None
       | Some ev \<Rightarrow>
           (case e_event ev of
              E_CHARACTER \<Rightarrow>
                if e_value ev = K_VLNEXT then v_key_loop command_events fl True v1 else Some (GC_OK, ev, v1)
            | E_ERR \<Rightarrow> Some (GC_FATAL, ev, v1)
            | E_EOF \<Rightarrow> Some (GC_FATAL, ev, v1)
            | E_INTERRUPT \<Rightarrow> Some (GC_INTERRUPT, ev, v1)
            | E_REPAINT \<Rightarrow>
                if repaint_fails v ev then Some (GC_FATAL, ev, v1) else v_key_loop command_events fl False v1
            | E_WRESIZE \<Rightarrow> Some (GC_ERR, ev, v1)
            | E_QUIT \<Rightarrow> Some (if command_events then GC_EVENT else GC_ERR, ev, v1)
            | E_WRITE \<Rightarrow> Some (if command_events then GC_EVENT else GC_ERR, ev, v1)
            | E_STRING \<Rightarrow> Some (GC_ERR, ev, v1)
            | E_TIMEOUT \<Rightarrow> Some (GC_ERR, ev, v1)
            | _ \<Rightarrow> None)
     }"

declare v_key_loop.simps [code]

definition v_key :: "bool \<Rightarrow> ec_flags \<Rightarrow> vst \<Rightarrow> (gcret \<times> event \<times> vst) option" where
  "v_key command_events fl v = v_key_loop command_events fl False v"

definition EC_COUNT :: ec_flags where "EC_COUNT = EC_MAPCOMMAND\<lparr>ec_mapnodigit := True\<rparr>"

text \<open>
  \<^verbatim>\<open>v_count\<close>: the count, or nothing on failure. The sum is \<^verbatim>\<open>unsigned long\<close>; when it
  gets smaller than it was the rest of the digits are tossed.
\<close>

partial_function (option) toss_digits :: "vst \<Rightarrow> vst option" where
  "toss_digits v =
     do {
       (r, ev, v1) \<leftarrow> v_key False EC_COUNT v;
       if r \<noteq> GC_OK then Some v1
       else if is_digit (e_c ev) then toss_digits v1 else Some v1
     }"

declare toss_digits.simps [code]

definition count_add :: "64 word \<Rightarrow> char \<Rightarrow> 64 word" where
  "count_add count c = count * 10 + of_nat (of_char c) - 48"

partial_function (option) count_loop :: "char \<Rightarrow> 64 word \<Rightarrow> vst \<Rightarrow> (64 word option \<times> vst) option" where
  "count_loop c count v =
     (let tc = count_add count c in
      if tc < count then do { v1 \<leftarrow> toss_digits v; Some (None, v1) }
      else do {
        (r, ev, v1) \<leftarrow> v_key False EC_COUNT v;
        if r \<noteq> GC_OK then Some (None, v1)
        else if is_digit (e_c ev) then count_loop (e_c ev) tc v1 else Some (Some tc, v1)
      })"

declare count_loop.simps [code]

definition v_count :: "char \<Rightarrow> vst \<Rightarrow> (nat option \<times> vst) option" where
  "v_count fkey v = do { (n, v1) \<leftarrow> count_loop fkey 0 v; Some (map_option unat n, v1) }"

subsection \<open>Aliases and the word under the cursor\<close>

text \<open>\<^verbatim>\<open>v_alias\<close>: the entry, or nothing on failure.\<close>

definition v_alias :: "vicmd \<Rightarrow> vikey \<Rightarrow> vst \<Rightarrow> (vikey option \<times> vicmd \<times> vst) option" where
  "v_alias vp kp v =
     (let push = (\<lambda>c key. do {
            (e, g) \<leftarrow> v_event_push [key_event (vs_gs v) (CH_NONE\<lparr>ch_nomap := True, ch_quoted := True\<rparr>) c] (vs_gs v);
            Some (if e then None else Some (VIKEY key), vp\<lparr>vp_key := key\<rparr>, v\<lparr>vs_gs := g\<rparr>)
          })
      in if vp_key vp = CHR ''C'' then push CHR ''$'' CHR ''c''
         else if vp_key vp = CHR ''D'' then push CHR ''$'' CHR ''d''
         else if vp_key vp = CHR ''S'' then push CHR ''_'' CHR ''c''
         else if vp_key vp = CHR ''Y'' then push CHR ''_'' CHR ''y''
         else Some (Some kp, vp, v))"

definition is_space :: "char \<Rightarrow> bool" where
  "is_space c \<longleftrightarrow> c = CHR '' '' \<or> 9 \<le> (of_char c :: nat) \<and> (of_char c :: nat) \<le> 13"

text \<open>
  \<^verbatim>\<open>v_keyword\<close>, but for the refresh. The nul is written behind the word, where the buffer need not go.
\<close>

definition v_keyword :: "vst \<Rightarrow> (bool \<times> vst) option" where
  "v_keyword v =
     do {
       (e, p, s1) \<leftarrow> db_get (sp_lno (cur (vs_ed v))) False (vs_ed v);
       let v1 = v\<lparr>vs_ed := s1\<rparr>;
       let cno = sp_cno (cur (vs_ed v));
       let beg = cno + length (takeWhile is_space (drop cno p));
       if e then Some (True, v1)
       else if length p \<le> beg then Some (True, v1)
       else
         let v2 = (if beg \<noteq> cno then v1\<lparr>vs_ed := upd_cur (\<lambda>c. c\<lparr>sp_cno := beg\<rparr>) s1\<rparr> else v1);
             w = takeWhile (\<lambda>c. inword c = inword (p ! beg)) (drop beg p)
         in case binc_ret (mem_ok s1) (vs_klen v2) (length w) of
              None \<Rightarrow> Some (True, v2)
            | Some klen \<Rightarrow> if klen \<le> length w then None else Some (False, v2\<lparr>vs_keyw := w, vs_klen := klen\<rparr>)
     }"

subsection \<open>The parser\<close>

text \<open>
  What \<^verbatim>\<open>v_cmd\<close> gives: the verdict, the command, whether it has a count of its own, whether a
  key came from a map. \<open>KEY\<close> is the macro, with what follows it as an argument; <escape> cancels.
\<close>

type_synonym parsed = "gcret \<times> vicmd \<times> bool \<times> bool \<times> vst"

definition KEY :: "ec_flags \<Rightarrow> vicmd \<Rightarrow> bool \<Rightarrow> bool \<Rightarrow> vst \<Rightarrow> (char \<Rightarrow> bool \<Rightarrow> vst \<Rightarrow> parsed option) \<Rightarrow> parsed option" where
  "KEY fl vp com mapped v k =
     do {
       (r, ev, v1) \<leftarrow> v_key False fl v;
       if r \<noteq> GC_OK then Some (r, vp, com, mapped, v1)
       else if e_value ev = K_ESCAPE then Some (GC_ERR, vp, com, mapped, v1)
       else k (e_c ev) (mapped \<or> ch_mapped (e_ch ev)) v1
     }"

text \<open>The optional buffer, which may be named once, before or after the count.\<close>

definition cmd_buffer ::
  "vicmd option \<Rightarrow> vicmd \<Rightarrow> bool \<Rightarrow> char \<Rightarrow> bool \<Rightarrow> vst \<Rightarrow> (vicmd \<Rightarrow> char \<Rightarrow> bool \<Rightarrow> vst \<Rightarrow> parsed option) \<Rightarrow> parsed option" where
  "cmd_buffer ismotion vp com key mapped v k =
     (if key \<noteq> CHR 0x22 then k vp key mapped v
      else if vc_buffer vp \<or> ismotion \<noteq> None then Some (GC_ERR, vp, com, mapped, v)
      else KEY EC_NONE vp com mapped v (\<lambda>b mapped v.
        let vp1 = vp\<lparr>vp_buffer := b, vc_buffer := True\<rparr> in
        KEY EC_MAPCOMMAND vp1 com mapped v (\<lambda>key mapped v. k vp1 key mapped v)))"

definition cmd_count ::
  "vicmd \<Rightarrow> bool \<Rightarrow> char \<Rightarrow> bool \<Rightarrow> vst \<Rightarrow> (vicmd \<Rightarrow> bool \<Rightarrow> char \<Rightarrow> bool \<Rightarrow> vst \<Rightarrow> parsed option) \<Rightarrow> parsed option" where
  "cmd_count vp com key mapped v k =
     (if is_digit key \<and> key \<noteq> CHR ''0'' then
        do {
          (n, v1) \<leftarrow> v_count key v;
          case n of
            None \<Rightarrow> Some (GC_ERR, vp, com, mapped, v1)
          | Some n \<Rightarrow>
              let vp1 = vp\<lparr>vp_count := n, vc_c1set := True\<rparr> in
              KEY EC_MAPCOMMAND vp1 True mapped v1 (\<lambda>key mapped v. k vp1 True key mapped v)
        }
      else k vp False key mapped v)"

text \<open>The key \<^verbatim>\<open>.\<close>; \<open>dp\<close> says that there is a saved command to repeat, i.e. that this is no motion.\<close>

definition cmd_dot :: "bool \<Rightarrow> vicmd \<Rightarrow> bool \<Rightarrow> bool \<Rightarrow> vst \<Rightarrow> parsed" where
  "cmd_dot dp vp com mapped v =
     (let s = cur (vs_ed v); dot = vs_dot v in
      if \<not> dp then (GC_ERR, vp, com, mapped, v)
      else if sp_u_ccnt s = sp_ccnt s then (GC_OK, vp\<lparr>vp_kp := VIKEY CHR ''u'', vc_isdot := True\<rparr>, com, mapped, v)
      else if \<not> vc_isdot dot then (GC_ERR, vp, com, mapped, v)
      else
        let dot1 = (if vc_c1set vp then dot\<lparr>vc_c1set := True, vp_count := vp_count vp\<rparr> else dot);
            dot2 = (if vc_buffer vp then dot1\<lparr>vp_buffer := vp_buffer vp\<rparr> else dot1)
        in (GC_OK, dot2, com, mapped, v\<lparr>vs_dot := dot2\<rparr>))"

text \<open>What follows a key that names a command: the end of the function, from the last check to the first.\<close>

definition cmd_word :: "vikey \<Rightarrow> vicmd \<Rightarrow> bool \<Rightarrow> bool \<Rightarrow> vst \<Rightarrow> parsed option" where
  "cmd_word kp vp com mapped v =
     (if kp_isset kp V_KEYW then
        do { (e, v1) \<leftarrow> v_keyword v; Some (if e then GC_ERR else GC_OK, vp, com, mapped, v1) }
      else Some (GC_OK, vp, com, mapped, v))"

definition cmd_char :: "vicmd option \<Rightarrow> vikey \<Rightarrow> char \<Rightarrow> vicmd \<Rightarrow> bool \<Rightarrow> bool \<Rightarrow> vst \<Rightarrow> parsed option" where
  "cmd_char ismotion kp key vp com mapped v =
     (if (case ismotion of None \<Rightarrow> False | Some m \<Rightarrow> vp_key m \<noteq> key \<and> \<not> kp_isset kp V_MOVE)
      then Some (GC_ERR, vp, com, mapped, v)
      else if kp_isset kp V_CHAR then
        KEY EC_NONE vp com mapped v (\<lambda>c mapped v. cmd_word kp (vp\<lparr>vp_character := c\<rparr>) com mapped v)
      else cmd_word kp vp com mapped v)"

definition cmd_z :: "vicmd option \<Rightarrow> vikey \<Rightarrow> char \<Rightarrow> vicmd \<Rightarrow> bool \<Rightarrow> bool \<Rightarrow> vst \<Rightarrow> parsed option" where
  "cmd_z ismotion kp key vp com mapped v =
     (if vp_key vp = CHR ''z'' then
        KEY EC_NONE vp com mapped v (\<lambda>c mapped v.
          let vp1 = vp\<lparr>vp_character := c\<rparr> in
          if is_digit c then
            do {
              (n, v1) \<leftarrow> v_count c v;
              case n of
                None \<Rightarrow> Some (GC_ERR, vp1, com, mapped, v1)
              | Some n \<Rightarrow>
                  let vp2 = vp1\<lparr>vp_count2 := n, vc_c2set := True\<rparr> in
                  KEY EC_NONE vp2 com mapped v1 (\<lambda>c mapped v. cmd_char ismotion kp key (vp2\<lparr>vp_character := c\<rparr>) com mapped v)
            }
          else cmd_char ismotion kp key vp1 com mapped v)
      else cmd_char ismotion kp key vp com mapped v)"

definition cmd_double :: "vicmd option \<Rightarrow> vikey \<Rightarrow> char \<Rightarrow> vicmd \<Rightarrow> bool \<Rightarrow> bool \<Rightarrow> vst \<Rightarrow> parsed option" where
  "cmd_double ismotion kp key vp com mapped v =
     (if vp_key vp \<in> {CHR ''['', CHR '']'', CHR ''Z''} then
        KEY EC_NONE vp com mapped v (\<lambda>key mapped v.
          if vp_key vp \<noteq> key then Some (GC_ERR, vp, com, mapped, v) else cmd_z ismotion kp key vp com mapped v)
      else cmd_z ismotion kp key vp com mapped v)"

definition cmd_func :: "vicmd option \<Rightarrow> vikey \<Rightarrow> char \<Rightarrow> vicmd \<Rightarrow> bool \<Rightarrow> bool \<Rightarrow> vst \<Rightarrow> parsed option" where
  "cmd_func ismotion kp key vp com mapped v =
     (if vc_c1set vp \<and> \<not> kp_isset kp V_CNT then Some (GC_ERR, vp, com, mapped, v)
      else if ismotion = None \<and> \<not> kp_isset kp V_OBUF \<and> vc_buffer vp then Some (GC_ERR, vp, com, mapped, v)
      else if ismotion = None \<and> kp_isset kp V_RBUF then
        KEY EC_NONE vp com mapped v (\<lambda>b mapped v. cmd_double ismotion kp key (vp\<lparr>vp_buffer := b, vc_buffer := True\<rparr>) com mapped v)
      else cmd_double ismotion kp key vp com mapped v)"

definition cmd_key :: "bool \<Rightarrow> vicmd option \<Rightarrow> vicmd \<Rightarrow> bool \<Rightarrow> char \<Rightarrow> bool \<Rightarrow> vst \<Rightarrow> parsed option" where
  "cmd_key dp ismotion vp com key mapped v =
     (if MAXVIKEY < of_char key then Some (GC_ERR, vp, com, mapped, v)
      else
        let vp1 = vp\<lparr>vp_key := key\<rparr>;
            d = (key = CHR ''D'' \<and> vc_c1set vp);
            vp2 = (if d then vp1\<lparr>vp_count := 0, vc_c1set := False\<rparr> else vp1);
            com2 = (com \<and> \<not> d)
        in do {
          (kp, vp3, v1) \<leftarrow> (if vk_func (vikeys key) = None then v_alias vp2 (VIKEY key) v else Some (Some (VIKEY key), vp2, v));
          case kp of
            None \<Rightarrow> Some (GC_ERR, vp3, com2, mapped, v1)
          | Some kp \<Rightarrow>
              let kp = (if key = CHR ''~'' \<and> o_tildeop v then TMOTION else kp);
                  vp4 = vp3\<lparr>vp_kp := kp\<rparr>
              in if vk_func (vikey_entry kp) = None then
                   Some (if key \<noteq> CHR ''.'' then (GC_ERR, vp4, com2, mapped, v1) else cmd_dot dp vp4 com2 mapped v1)
                 else cmd_func ismotion kp key vp4 com2 mapped v1
        })"

text \<open>
  \<^verbatim>\<open>v_cmd\<close>; \<open>ismotion\<close> is the command a motion is read for. <escape> as the first key of a
  command is no error that discards keys.
\<close>

definition v_cmd :: "bool \<Rightarrow> vicmd \<Rightarrow> vicmd option \<Rightarrow> bool \<Rightarrow> vst \<Rightarrow> parsed option" where
  "v_cmd dp vp ismotion mapped v =
     do {
       (r, ev, v1) \<leftarrow> v_key (ismotion = None) EC_MAPCOMMAND v;
       if r \<noteq> GC_OK then Some (r, vp, False, mapped, v1)
       else if e_value ev = K_ESCAPE then
         Some (if ismotion = None then GC_ERR_NOFLUSH else GC_ERR, vp, False, mapped, v1)
       else
         cmd_buffer ismotion vp False (e_c ev) (mapped \<or> ch_mapped (e_ch ev)) v1 (\<lambda>vp key mapped v.
           cmd_count vp False key mapped v (\<lambda>vp com key mapped v.
             cmd_buffer ismotion vp com key mapped v (\<lambda>vp key mapped v.
               cmd_key dp ismotion vp com key mapped v)))
     }"

subsection \<open>Keys that are typed as they are\<close>

text \<open>
  A typed key that no map starts with and that is not special. \<open>typed cs v\<close>: these keys wait; \<open>reads_to q v v'\<close>: reading has
  left the keys \<open>q\<close>.
\<close>

definition plain_key :: "gs \<Rightarrow> char \<Rightarrow> bool" where
  "plain_key g c \<longleftrightarrow> KEY_VAL g c \<noteq> K_ESCAPE \<and> KEY_VAL g c \<noteq> K_VLNEXT \<and> of_char c < MAX_BIT_SEQ \<and> c \<notin> seqb (g_seqs g)"

definition typed :: "gs \<Rightarrow> bytes \<Rightarrow> event list" where
  "typed g cs = map (key_event g CH_NONE) cs"

definition ready_keys :: "event list \<Rightarrow> vst \<Rightarrow> bool" where
  "ready_keys q v \<longleftrightarrow> gs_ok (vs_gs v) \<and> o_remap (vs_gs v) \<and> iq (vs_gs v) = q"

definition reads_to :: "event list \<Rightarrow> vst \<Rightarrow> vst \<Rightarrow> bool" where
  "reads_to q v v' \<longleftrightarrow> (\<exists>g. v' = v\<lparr>vs_gs := g\<rparr> \<and> requeued q (vs_gs v) g)"

lemma reads_to_ready: "reads_to q v v' \<Longrightarrow> ready_keys p v \<Longrightarrow> ready_keys q v'"
  by (auto simp: reads_to_def ready_keys_def requeued_fields)

lemma reads_to_refl: "ready_keys q v \<Longrightarrow> reads_to q v v"
  using requeued_refl [of "vs_gs v"] by (auto simp: reads_to_def ready_keys_def intro: exI [of _ "vs_gs v"])

lemma reads_to_trans: "reads_to q v v' \<Longrightarrow> reads_to q' v' v'' \<Longrightarrow> reads_to q' v v''"
proof -
  assume "reads_to q v v'" "reads_to q' v' v''"
  then obtain g g' where "v' = v\<lparr>vs_gs := g\<rparr>" "requeued q (vs_gs v) g" "v'' = v'\<lparr>vs_gs := g'\<rparr>" "requeued q' g g'"
    by (auto simp: reads_to_def)
  then have "v'' = v\<lparr>vs_gs := g'\<rparr>" "requeued q' (vs_gs v) g'" using requeued_trans by auto
  then show "reads_to q' v v''" unfolding reads_to_def by blast
qed

lemma reads_to_same:
  assumes "reads_to q v v'"
  shows "plain_key (vs_gs v') = plain_key (vs_gs v)" "typed (vs_gs v') = typed (vs_gs v)" "vs_ed v' = vs_ed v"
    "o_tildeop v' = o_tildeop v" "vs_dot v' = vs_dot v" "vs_dotmotion v' = vs_dotmotion v"
proof -
  obtain g where g: "v' = v\<lparr>vs_gs := g\<rparr>" "requeued q (vs_gs v) g" using assms by (auto simp: reads_to_def)
  have "KEY_VAL g = KEY_VAL (vs_gs v)" using requeued_fields(5) [OF g(2)] by (simp add: KEY_VAL_def fun_eq_iff)
  then show "plain_key (vs_gs v') = plain_key (vs_gs v)" "typed (vs_gs v') = typed (vs_gs v)" "vs_ed v' = vs_ed v"
    "o_tildeop v' = o_tildeop v" "vs_dot v' = vs_dot v" "vs_dotmotion v' = vs_dotmotion v"
    using g(1) requeued_fields(1,13) [OF g(2)] by (simp_all add: plain_key_def typed_def fun_eq_iff)
qed

lemma plain_key_unmapped: "plain_key g c \<Longrightarrow> \<not> map_applies g fl ist (key_event g fs c)"
  by (simp add: plain_key_def map_applies_def key_event_def)

lemma event_get_next:
  assumes "gs_ok g" "o_remap g" "next_event fl t (iq g) g = Some (e, ev, q, h)"
  obtains g' where "v_event_get fl t g = Some (e, ev, g')" "requeued q h g'"
  using run_refines [OF assms(3) [unfolded next_event_def] requeued_refl [OF assms(1)] assms(2)]
  by (auto simp: v_event_get_def rel_got_def)

text \<open>A plain key is read; at the end of a count, a key that is no digit stays where it is.\<close>

lemma v_key_plain:
  assumes v: "ready_keys (typed (vs_gs v) (c # cs) @ q) v" and c: "plain_key (vs_gs v) c"
    and fl: "\<not> ec_interrupt fl" "\<not> ec_timeout fl" "\<not> ec_mapnodigit fl \<or> is_digit c"
  obtains v' where "v_key ce fl v = Some (GC_OK, key_event (vs_gs v) CH_NONE c, v')" "reads_to (typed (vs_gs v) cs @ q) v v'"
proof -
  let ?e = "key_event (vs_gs v) CH_NONE c" and ?q = "typed (vs_gs v) cs @ q"
  have q: "iq (vs_gs v) = ?e # ?q" "gs_ok (vs_gs v)" "o_remap (vs_gs v)" using v by (simp_all add: ready_keys_def typed_def)
  have n: "next_event fl 0 (iq (vs_gs v)) (vs_gs v) = Some (False, Some ?e, ?q, vs_gs v)"
    unfolding q(1) by (rule next_plain) (use fl plain_key_unmapped [OF c] in \<open>auto simp: key_event_def\<close>)
  obtain g where g: "v_event_get fl 0 (vs_gs v) = Some (False, Some ?e, g)" "requeued ?q (vs_gs v) g"
    by (rule event_get_next [OF q(2,3) n])
  have "e_event ?e = E_CHARACTER" "e_value ?e \<noteq> K_VLNEXT" using c by (simp_all add: key_event_def plain_key_def)
  then have "v_key ce fl v = Some (GC_OK, ?e, v\<lparr>vs_gs := g\<rparr>)"
    using g(1) by (simp add: v_key_def v_key_loop.simps [of ce fl])
  then show ?thesis using that g(2) by (auto simp: reads_to_def)
qed

lemma next_not_digit:
  assumes "e_event e = E_CHARACTER" "\<not> map_applies g fl False e" "ec_mapnodigit fl" "\<not> is_digit (e_c e)"
    and "\<not> ec_interrupt fl" "\<not> ec_timeout fl"
  shows "next_event fl t (e # q) g = (case not_digit g of (b, ev, g') \<Rightarrow> Some (b, ev, e # q, g'))"
  using assms
  by (simp add: next_event_def l_run.simps [of fl "Retry t"] l_run.simps [of fl "Newmap t False 0"]
      l_step_def l_newmap_def l_nomap_def not_digit_def)

lemma v_key_not_digit:
  assumes v: "ready_keys (typed (vs_gs v) (c # cs) @ q) v" and c: "plain_key (vs_gs v) c" "\<not> is_digit c"
  obtains ev v' where "v_key ce EC_COUNT v = Some (GC_OK, ev, v')" "\<not> is_digit (e_c ev)" "reads_to (typed (vs_gs v) (c # cs) @ q) v v'"
proof -
  let ?e = "key_event (vs_gs v) CH_NONE c" and ?q = "typed (vs_gs v) (c # cs) @ q"
  have q: "iq (vs_gs v) = ?q" "gs_ok (vs_gs v)" "o_remap (vs_gs v)" using v by (simp_all add: ready_keys_def)
  have n: "next_event EC_COUNT 0 (?e # typed (vs_gs v) cs @ q) (vs_gs v) =
      (case not_digit (vs_gs v) of (b, ev, g') \<Rightarrow> Some (b, ev, ?e # typed (vs_gs v) cs @ q, g'))"
    by (rule next_not_digit) (use c plain_key_unmapped [OF c(1)] in \<open>simp_all add: key_event_def EC_COUNT_def EC_MAPCOMMAND_def EC_NONE_def\<close>)
  obtain ev where ev: "next_event EC_COUNT 0 (iq (vs_gs v)) (vs_gs v) = Some (False, Some ev, ?q, vs_gs v)"
      "e_event ev = E_CHARACTER" "e_value ev = K_NOTUSED" "e_c ev = CH_NOT_DIGIT"
    using n unfolding q(1) by (simp add: typed_def not_digit_def)
  obtain g where g: "v_event_get EC_COUNT 0 (vs_gs v) = Some (False, Some ev, g)" "requeued ?q (vs_gs v) g"
    by (rule event_get_next [OF q(2,3) ev(1)])
  then have "v_key ce EC_COUNT v = Some (GC_OK, ev, v\<lparr>vs_gs := g\<rparr>)"
    using ev(2,3) by (simp add: v_key_def v_key_loop.simps [of ce EC_COUNT])
  moreover have "\<not> is_digit (e_c ev)" using ev(4) by (simp add: CH_NOT_DIGIT_def is_digit_def)
  ultimately show ?thesis using that g(2) by (auto simp: reads_to_def)
qed

subsection \<open>Counts\<close>

definition dec_val :: "nat \<Rightarrow> bytes \<Rightarrow> nat" where
  "dec_val n ds = foldl (\<lambda>n d. n * 10 + (of_char d - 48)) n ds"

lemma dec_val_simps [simp]: "dec_val n [] = n" "dec_val n (d # ds) = dec_val (n * 10 + (of_char d - 48)) ds"
  by (simp_all add: dec_val_def)

lemma dec_val_ge: "n \<le> dec_val n ds"
proof (induction ds arbitrary: n)
  case (Cons d ds)
  have "n \<le> n * 10 + (of_char d - 48)" by simp
  also have "\<dots> \<le> dec_val (n * 10 + (of_char d - 48)) ds" by (rule Cons.IH)
  finally show ?case by simp
qed simp

lemma count_add_nat:
  assumes "is_digit c" "unat n * 10 + (of_char c - 48) < 2 ^ 64"
  shows "unat (count_add n c) = unat n * 10 + (of_char c - 48)" "\<not> count_add n c < n"
proof -
  let ?d = "of_char c - 48 :: nat"
  have "48 \<le> (of_char c :: nat)" using assms(1) by (simp add: is_digit_def)
  then have "(of_nat (of_char c) :: 64 word) = of_nat ?d + 48"
    by (metis le_add_diff_inverse2 of_nat_add of_nat_numeral)
  then have "count_add n c = of_nat (unat n * 10 + ?d)" by (simp add: count_add_def)
  then have "unat (count_add n c) = (unat n * 10 + ?d) mod 2 ^ LENGTH(64)" by (simp only: unat_of_nat)
  then show u: "unat (count_add n c) = unat n * 10 + ?d" using assms(2) by (simp only: mod_less len_of_numeral_defs) simp
  then show "\<not> count_add n c < n" by (simp add: word_less_nat_alt)
qed

lemma count_loop_reads:
  assumes "ready_keys (typed (vs_gs v) (ds @ c # cs) @ q) v" "is_digit d" "list_all is_digit ds" "\<not> is_digit c"
    and "list_all (plain_key (vs_gs v)) (ds @ [c])" "dec_val (unat n) (d # ds) < 2 ^ 64"
  shows "\<exists>m v'. count_loop d n v = Some (Some m, v') \<and> unat m = dec_val (unat n) (d # ds) \<and> reads_to (typed (vs_gs v) (c # cs) @ q) v v'"
  using assms
proof (induction ds arbitrary: d n v)
  case Nil
  have a: "unat (count_add n d) = unat n * 10 + (of_char d - 48)" "\<not> count_add n d < n"
    using count_add_nat Nil.prems(2,6) by simp_all
  obtain ev v' where "v_key False EC_COUNT v = Some (GC_OK, ev, v')" "\<not> is_digit (e_c ev)" "reads_to (typed (vs_gs v) (c # cs) @ q) v v'"
    using v_key_not_digit [of v c cs q False] Nil.prems by auto
  then show ?case using a by (subst count_loop.simps) simp
next
  case (Cons e ds)
  let ?n = "count_add n d"
  have lt: "unat n * 10 + (of_char d - 48) < 2 ^ 64"
    using dec_val_ge [of "unat n * 10 + (of_char d - 48)" "e # ds"] Cons.prems(6) by (metis dec_val_simps(2) le_less_trans)
  note a = count_add_nat [OF Cons.prems(2) lt]
  have fl: "\<not> ec_interrupt EC_COUNT" "\<not> ec_timeout EC_COUNT" by (simp_all add: EC_COUNT_def EC_MAPCOMMAND_def EC_NONE_def)
  obtain v1 where v1: "v_key False EC_COUNT v = Some (GC_OK, key_event (vs_gs v) CH_NONE e, v1)"
      "reads_to (typed (vs_gs v) (ds @ c # cs) @ q) v v1"
    using v_key_plain [of v e "ds @ c # cs" q EC_COUNT False] Cons.prems fl by auto
  note same = reads_to_same(1,2) [OF v1(2)]
  have "\<exists>m v'. count_loop e ?n v1 = Some (Some m, v') \<and> unat m = dec_val (unat ?n) (e # ds) \<and>
      reads_to (typed (vs_gs v1) (c # cs) @ q) v1 v'"
  proof (rule Cons.IH)
    show "ready_keys (typed (vs_gs v1) (ds @ c # cs) @ q) v1" using reads_to_ready [OF v1(2) Cons.prems(1)] same by simp
  qed (use Cons.prems same a(1) in simp_all)
  then obtain m v' where m: "count_loop e ?n v1 = Some (Some m, v')" "unat m = dec_val (unat ?n) (e # ds)"
      "reads_to (typed (vs_gs v) (c # cs) @ q) v1 v'" using same by auto
  have "count_loop d n v = Some (Some m, v')"
    using v1(1) a(2) m(1) Cons.prems(3) by (subst count_loop.simps) (simp add: key_event_def)
  then show ?case using m a(1) reads_to_trans [OF v1(2) m(3)] by simp
qed

subsection \<open>Commands\<close>

lemma KEY_plain:
  assumes v: "ready_keys (typed (vs_gs v) (c # cs)) v" and c: "plain_key (vs_gs v) c"
    and fl: "\<not> ec_interrupt fl" "\<not> ec_timeout fl" "\<not> ec_mapnodigit fl"
  obtains v' where "\<And>vp com mapped k. KEY fl vp com mapped v k = k c mapped v'" "reads_to (typed (vs_gs v) cs) v v'"
proof -
  obtain v' where "v_key False fl v = Some (GC_OK, key_event (vs_gs v) CH_NONE c, v')" "reads_to (typed (vs_gs v) cs) v v'"
    using v_key_plain [of v c cs "[]" fl False] v c fl by auto
  then show ?thesis using that c by (simp add: KEY_def key_event_def CH_NONE_def plain_key_def)
qed

lemma ec_none: "\<not> ec_interrupt EC_NONE" "\<not> ec_timeout EC_NONE" "\<not> ec_mapnodigit EC_NONE"
  "\<not> ec_interrupt EC_MAPCOMMAND" "\<not> ec_timeout EC_MAPCOMMAND" "\<not> ec_mapnodigit EC_MAPCOMMAND"
  by (simp_all add: EC_MAPCOMMAND_def EC_NONE_def)

text \<open>
  The keys that are a command by themselves; \<open>im\<close> is the command a motion is read for. A command
  as it is typed, and what is to be read from it.
\<close>

definition lone_key :: "vicmd option \<Rightarrow> bool \<Rightarrow> char \<Rightarrow> bool" where
  "lone_key im tildeop c \<longleftrightarrow> vk_func (vikeys c) \<noteq> None \<and> c \<notin> {CHR ''['', CHR '']'', CHR ''Z'', CHR ''z''} \<and>
     \<not> kp_isset (VIKEY c) V_CHAR \<and> \<not> kp_isset (VIKEY c) V_KEYW \<and> (im = None \<longrightarrow> \<not> kp_isset (VIKEY c) V_RBUF) \<and>
     (c = CHR ''~'' \<longrightarrow> \<not> tildeop) \<and> (case im of None \<Rightarrow> True | Some m \<Rightarrow> vp_key m = c \<or> kp_isset (VIKEY c) V_MOVE)"

definition written :: "char option \<Rightarrow> bytes \<Rightarrow> char \<Rightarrow> bytes" where
  "written b ds c = (case b of None \<Rightarrow> [] | Some b \<Rightarrow> [CHR 0x22, b]) @ ds @ [c]"

definition vp_buffered :: "char option \<Rightarrow> vicmd \<Rightarrow> vicmd" where
  "vp_buffered b vp = (case b of None \<Rightarrow> vp | Some b \<Rightarrow> vp\<lparr>vp_buffer := b, vc_buffer := True\<rparr>)"

definition vp_counted :: "bytes \<Rightarrow> vicmd \<Rightarrow> vicmd" where
  "vp_counted ds vp = (if ds = [] then vp else vp\<lparr>vp_count := dec_val 0 ds, vc_c1set := True\<rparr>)"

definition vp_named :: "char \<Rightarrow> vicmd \<Rightarrow> vicmd" where
  "vp_named c vp = vp\<lparr>vp_key := c, vp_kp := VIKEY c\<rparr>"

definition a_count :: "bytes \<Rightarrow> bool" where
  "a_count ds \<longleftrightarrow> list_all is_digit ds \<and> dec_val 0 ds < 2 ^ 64 \<and> (ds \<noteq> [] \<longrightarrow> hd ds \<noteq> CHR ''0'')"

lemma table_small: "vk_func (vikeys c) \<noteq> None \<Longrightarrow> of_char c \<le> MAXVIKEY"
proof -
  have "list_all (\<lambda>(c, e). (of_char c :: nat) \<le> MAXVIKEY) vikeys_table" by code_simp
  then show "vk_func (vikeys c) \<noteq> None \<Longrightarrow> of_char c \<le> MAXVIKEY"
    by (auto simp: vikeys_def no_key_def list_all_iff split: option.splits dest!: map_of_SomeD)
qed

lemma cmd_key_lone:
  assumes c: "lone_key im (o_tildeop v) c" "c \<noteq> CHR ''D''"
    and vp: "vc_c1set vp \<longrightarrow> kp_isset (VIKEY c) V_CNT" "im = None \<and> vc_buffer vp \<longrightarrow> kp_isset (VIKEY c) V_OBUF"
  shows "cmd_key dp im vp com c mapped v = Some (GC_OK, vp_named c vp, com, mapped, v)"
proof -
  let ?vp = "vp_named c vp"
  have w: "cmd_char im (VIKEY c) c ?vp com mapped v = Some (GC_OK, ?vp, com, mapped, v)"
    using c(1) by (auto simp: cmd_char_def cmd_word_def lone_key_def split: option.splits)
  have "cmd_func im (VIKEY c) c ?vp com mapped v = Some (GC_OK, ?vp, com, mapped, v)"
    using c(1) vp w by (auto simp: cmd_func_def cmd_double_def cmd_z_def lone_key_def vp_named_def)
  moreover have "(vk_func (vikeys c) = None) = False" "(MAXVIKEY < of_char c) = False" "(c = CHR ''~'' \<and> o_tildeop v) = False"
      "(c = CHR ''D'' \<and> vc_c1set vp) = False"
    using c table_small by (auto simp: lone_key_def not_less)
  ultimately show ?thesis by (simp only: cmd_key_def Let_def if_False vikey_entry_def vp_named_def bind.simps prod.case option.case
      vikey.case vicmd.simps simp_thms)
qed

text \<open>From the first key behind the optional buffer on.\<close>

lemma count_key:
  assumes v: "ready_keys (typed (vs_gs v) (tl (ds @ [c]) @ cs)) v" and p: "list_all (plain_key (vs_gs v)) (ds @ [c])"
    and ds: "a_count ds" and c: "\<not> is_digit c \<or> c = CHR ''0'' \<and> ds = []" "c \<noteq> CHR 0x22" "c \<noteq> CHR ''D''"
    and l: "lone_key im (o_tildeop v) c" "ds \<noteq> [] \<longrightarrow> kp_isset (VIKEY c) V_CNT" "\<not> vc_c1set vp"
    and b: "im = None \<and> vc_buffer vp \<longrightarrow> kp_isset (VIKEY c) V_OBUF"
  shows "\<exists>v'. cmd_count vp False (hd (ds @ [c])) mapped v (\<lambda>vp com key mapped v.
      cmd_buffer im vp com key mapped v (\<lambda>vp key mapped v. cmd_key dp im vp com key mapped v)) =
      Some (GC_OK, vp_named c (vp_counted ds vp), ds \<noteq> [], mapped, v') \<and> reads_to (typed (vs_gs v) cs) v v'"
proof (cases ds)
  case Nil
  have "cmd_key dp im vp False c mapped v = Some (GC_OK, vp_named c vp, False, mapped, v)"
    by (rule cmd_key_lone [OF l(1) c(3)]) (use l(3) b in auto)
  then show ?thesis using Nil c v reads_to_refl by (auto simp: cmd_count_def cmd_buffer_def vp_counted_def)
next
  case (Cons d ds')
  have d: "is_digit d" "list_all is_digit ds'" "d \<noteq> CHR ''0''" "dec_val 0 (d # ds') < 2 ^ 64" "\<not> is_digit c"
    using ds c(1) Cons by (auto simp: a_count_def)
  obtain v1 where v1: "v_count d v = Some (Some (dec_val 0 (d # ds')), v1)" "reads_to (typed (vs_gs v) (c # cs)) v v1"
    using count_loop_reads [of v ds' c cs "[]" d 0] v p d Cons by (auto simp: v_count_def)
  note same = reads_to_same [OF v1(2)]
  have r1: "ready_keys (typed (vs_gs v1) (c # cs)) v1" using reads_to_ready [OF v1(2) v] same(2) by simp
  have pc: "plain_key (vs_gs v1) c" using p same(1) by simp
  obtain v2 where v2: "\<And>vp com mapped k. KEY EC_MAPCOMMAND vp com mapped v1 k = k c mapped v2" "reads_to (typed (vs_gs v1) cs) v1 v2"
    using KEY_plain [OF r1 pc ec_none(4-6)] by blast
  have t: "o_tildeop v2 = o_tildeop v" using reads_to_same(4) [OF v2(2)] same(4) by simp
  have "cmd_key dp im (vp_counted ds vp) True c mapped v2 = Some (GC_OK, vp_named c (vp_counted ds vp), True, mapped, v2)"
    by (rule cmd_key_lone) (use l c(3) b Cons t in \<open>simp_all add: vp_counted_def\<close>)
  moreover have "cmd_count vp False d mapped v (\<lambda>vp com key mapped v.
      cmd_buffer im vp com key mapped v (\<lambda>vp key mapped v. cmd_key dp im vp com key mapped v)) =
      cmd_key dp im (vp_counted ds vp) True c mapped v2"
    using d(1,3) v1(1) v2(1) c(2) Cons by (simp add: cmd_count_def cmd_buffer_def vp_counted_def Let_def)
  moreover have "reads_to (typed (vs_gs v) cs) v v2" using reads_to_trans [OF v1(2) v2(2)] same(2) by simp
  ultimately show ?thesis using Cons by auto
qed

lemma v_cmd_reads:
  assumes v: "ready_keys (typed (vs_gs v) (written b ds c @ cs)) v" and p: "list_all (plain_key (vs_gs v)) (written b ds c)"
    and ds: "a_count ds" and c: "\<not> is_digit c \<or> c = CHR ''0'' \<and> ds = []" "c \<noteq> CHR 0x22" "c \<noteq> CHR ''D''"
    and l: "lone_key im (o_tildeop v) c" "ds \<noteq> [] \<longrightarrow> kp_isset (VIKEY c) V_CNT" "\<not> vc_c1set vp" "\<not> vc_buffer vp"
    and b: "b \<noteq> None \<longrightarrow> im = None \<and> kp_isset (VIKEY c) V_OBUF"
  shows "\<exists>v'. v_cmd dp vp im mapped v = Some (GC_OK, vp_named c (vp_counted ds (vp_buffered b vp)), ds \<noteq> [], mapped, v') \<and>
    reads_to (typed (vs_gs v) cs) v v'"
proof -
  let ?k = "\<lambda>vp key mapped v. cmd_count vp False key mapped v (\<lambda>vp com key mapped v.
      cmd_buffer im vp com key mapped v (\<lambda>vp key mapped v. cmd_key dp im vp com key mapped v))"
  obtain k0 ks where w: "written b ds c = k0 # ks" by (cases "written b ds c") (auto simp: written_def)
  have p0: "plain_key (vs_gs v) k0" using p w by simp
  obtain v1 where v1: "v_key (im = None) EC_MAPCOMMAND v = Some (GC_OK, key_event (vs_gs v) CH_NONE k0, v1)"
      "reads_to (typed (vs_gs v) (ks @ cs)) v v1"
    using v_key_plain [of v k0 "ks @ cs" "[]" EC_MAPCOMMAND "im = None"] v w p0 ec_none by auto
  have start: "v_cmd dp vp im mapped v = cmd_buffer im vp False k0 mapped v1 ?k"
    using v1(1) p0 by (simp add: v_cmd_def key_event_def CH_NONE_def plain_key_def)
  note same = reads_to_same [OF v1(2)]
  have r1: "ready_keys (typed (vs_gs v1) (ks @ cs)) v1" using reads_to_ready [OF v1(2) v] same(2) by simp
  show ?thesis
  proof (cases b)
    case None
    have k: "k0 = hd (ds @ [c])" "ks = tl (ds @ [c])" using w None by (cases ds; simp add: written_def)+
    have nq: "k0 \<noteq> CHR 0x22" using k(1) c(2) ds by (cases ds) (auto simp: a_count_def is_digit_def)
    have "\<exists>v'. ?k vp (hd (ds @ [c])) mapped v1 = Some (GC_OK, vp_named c (vp_counted ds vp), ds \<noteq> [], mapped, v') \<and>
        reads_to (typed (vs_gs v1) cs) v1 v'"
      by (rule count_key) (use r1 k(2) p same ds c l b None in \<open>simp_all add: written_def\<close>)
    then show ?thesis
      using start nq k(1) None reads_to_trans [OF v1(2)] same(2) by (auto simp: cmd_buffer_def vp_buffered_def)
  next
    case (Some b')
    have k: "k0 = CHR 0x22" "ks = b' # ds @ [c]" using w Some by (simp_all add: written_def)
    have im: "im = None" using b Some by simp
    have pl: "plain_key (vs_gs v) b'" "list_all (plain_key (vs_gs v)) (ds @ [c])" using p Some by (simp_all add: written_def)
    have r1': "ready_keys (typed (vs_gs v1) (b' # ds @ c # cs)) v1" "plain_key (vs_gs v1) b'" using r1 k(2) pl(1) same(1) by simp_all
    obtain v2 where v2: "\<And>vp com mapped k. KEY EC_NONE vp com mapped v1 k = k b' mapped v2" "reads_to (typed (vs_gs v1) (ds @ c # cs)) v1 v2"
      using KEY_plain [OF r1' ec_none(1-3)] by blast
    note same2 = reads_to_same [OF v2(2)]
    obtain k1 ks1 where w1: "ds @ [c] = k1 # ks1" by (cases "ds @ [c]") auto
    have w2: "ds @ c # cs = k1 # ks1 @ cs" using w1 by (metis append.assoc append_Cons append_Nil)
    have r2: "ready_keys (typed (vs_gs v2) (k1 # ks1 @ cs)) v2" "plain_key (vs_gs v2) k1"
      using reads_to_ready [OF v2(2) r1'(1)] same2 same pl(2) w1 w2 by simp_all
    obtain v3 where v3: "\<And>vp com mapped k. KEY EC_MAPCOMMAND vp com mapped v2 k = k k1 mapped v3" "reads_to (typed (vs_gs v2) (ks1 @ cs)) v2 v3"
      using KEY_plain [OF r2 ec_none(4-6)] by blast
    note same3 = reads_to_same [OF v3(2)]
    let ?vp = "vp_buffered b vp"
    have k1: "k1 = hd (ds @ [c])" "ks1 = tl (ds @ [c])" using w1 by simp_all
    have r3: "ready_keys (typed (vs_gs v3) (ks1 @ cs)) v3" using reads_to_ready [OF v3(2) r2(1)] same3 by simp
    have "\<exists>v'. ?k ?vp (hd (ds @ [c])) mapped v3 = Some (GC_OK, vp_named c (vp_counted ds ?vp), ds \<noteq> [], mapped, v') \<and>
        reads_to (typed (vs_gs v3) cs) v3 v'"
      by (rule count_key) (use r3 k1(2) pl(2) same same2 same3 ds c l b Some in \<open>simp_all add: vp_buffered_def\<close>)
    moreover have "cmd_buffer im vp False k0 mapped v1 ?k = ?k ?vp k1 mapped v3"
      using k(1) l(4) im v2(1) v3(1) Some by (simp add: cmd_buffer_def vp_buffered_def Let_def)
    ultimately show ?thesis
      using start k1(1) reads_to_trans [OF reads_to_trans [OF reads_to_trans [OF v1(2) v2(2)] v3(2)]] same(2) same2(2) same3(2)
      by auto
  qed
qed

subsection \<open>Properties\<close>

text \<open>
  A count of which every digit is typed, and that an \<^verbatim>\<open>unsigned long\<close> holds, is read as the
  number its digits write, and the key behind it stays in the queue.
\<close>

theorem count_reads:
  assumes "ready_keys (typed (vs_gs v) (ds @ c # cs)) v" "is_digit d" "list_all is_digit ds" "\<not> is_digit c"
    and "list_all (plain_key (vs_gs v)) (ds @ [c])" "dec_val 0 (d # ds) < 2 ^ 64"
  shows "\<exists>v'. v_count d v = Some (Some (dec_val 0 (d # ds)), v') \<and> reads_to (typed (vs_gs v) (c # cs)) v v'"
  using count_loop_reads [of v ds c cs "[]" d 0] assms by (auto simp: v_count_def)

text \<open>
  C25: the parser reads back what is written: an optional buffer, an optional count and a key that is a command by
  itself give the command with that buffer, that count and that key, and no more keys are taken. The same holds
  for a motion, without a buffer, for the keys that may be the motion of the command.
\<close>

theorem command_reads:
  assumes "ready_keys (typed (vs_gs v) (written b ds c @ cs)) v" "list_all (plain_key (vs_gs v)) (written b ds c)"
    and "a_count ds" "\<not> is_digit c \<or> c = CHR ''0'' \<and> ds = []" "c \<noteq> CHR 0x22" "c \<noteq> CHR ''D''"
    and "lone_key im (o_tildeop v) c" "ds \<noteq> [] \<longrightarrow> kp_isset (VIKEY c) V_CNT" "\<not> vc_c1set vp" "\<not> vc_buffer vp"
    and "b \<noteq> None \<longrightarrow> im = None \<and> kp_isset (VIKEY c) V_OBUF"
  shows "\<exists>v'. v_cmd dp vp im mapped v = Some (GC_OK, vp_named c (vp_counted ds (vp_buffered b vp)), ds \<noteq> [], mapped, v') \<and>
    reads_to (typed (vs_gs v) cs) v v'"
  by (rule v_cmd_reads [OF assms])

text \<open>A state with keys typed.\<close>

definition at_keys :: "bytes \<Rightarrow> bytes list \<Rightarrow> vst" where
  "at_keys ks ls = \<lparr>vs_gs = keys_typed ks [] True, vs_ed = opened ls, vs_dot = vp_zero, vs_dotmotion = vp_zero, vs_keyw = [], vs_klen = 0,
     o_tildeop = False, o_secure = False, sp_rcm = 0, vip_rcm_last = False, repaint_fails = (\<lambda>_. False)\<rparr>"

lemma at_keys_typed:
  "CHR 0x1B \<notin> set ks \<Longrightarrow> CHR 0x16 \<notin> set ks \<Longrightarrow> ready_keys (typed (vs_gs (at_keys ks ls)) ks) (at_keys ks ls)"
  "plain_key (vs_gs (at_keys ks ls)) c \<longleftrightarrow> c \<notin> {CHR 0x1B, CHR 0x16} \<and> (of_char c :: nat) < MAX_BIT_SEQ"
  by (auto simp: ready_keys_def at_keys_def keys_typed_def gs_ok_def iq_def typed_def key_event_def KEY_VAL_def plain_key_def
      Let_def MAX_FAST_KEY_def MAX_BIT_SEQ_def)

lemma reads_to_keys: "reads_to (typed (vs_gs v) cs) v v' \<Longrightarrow> map e_c (iq (vs_gs v')) = cs"
  using requeued_fields(16) by (force simp: reads_to_def typed_def key_event_def comp_def)

theorem count_reads_witness:
  "\<exists>v'. v_count CHR ''1'' (at_keys ''23x'' []) = Some (Some 123, v') \<and> map e_c (iq (vs_gs v')) = ''x''"
proof -
  have p: "list_all (plain_key (vs_gs (at_keys ''23x'' []))) (''23'' @ ''x'')" by (simp add: at_keys_typed(2) MAX_BIT_SEQ_def)
  have v: "dec_val 0 (CHR ''1'' # ''23'') = 123" by simp
  have d: "is_digit CHR ''1''" "list_all is_digit ''23''" "\<not> is_digit CHR ''x''" "dec_val 0 (CHR ''1'' # ''23'') < 2 ^ 64"
    unfolding v by (simp_all add: is_digit_def)
  show ?thesis
    using count_reads [of "at_keys ''23x'' []" "''23''" "CHR ''x''" "[]" "CHR ''1''", OF _ d(1-3) p d(4)] at_keys_typed(1) [of "''23x''" "[]"]
      reads_to_keys unfolding v by (auto 0 3)
qed

theorem command_reads_witness:
  "\<exists>vp v'. v_cmd True vp_zero None False (at_keys (CHR 0x22 # ''a3dw'') []) = Some (GC_OK, vp, True, False, v') \<and>
     vp_key vp = CHR ''d'' \<and> vp_count vp = 3 \<and> vp_buffer vp = CHR ''a'' \<and> map e_c (iq (vs_gs v')) = ''w''"
proof -
  let ?v = "at_keys (CHR 0x22 # ''a3dw'') []"
  have w: "written (Some CHR ''a'') ''3'' CHR ''d'' @ ''w'' = CHR 0x22 # ''a3dw''" by (simp add: written_def)
  have p: "list_all (plain_key (vs_gs ?v)) (written (Some CHR ''a'') ''3'' CHR ''d'')"
    by (simp add: written_def at_keys_typed(2) MAX_BIT_SEQ_def)
  have r: "ready_keys (typed (vs_gs ?v) (written (Some CHR ''a'') ''3'' CHR ''d'' @ ''w'')) ?v" unfolding w by (rule at_keys_typed(1)) simp_all
  have c: "a_count ''3''" "\<not> is_digit CHR ''d''" by (simp_all add: a_count_def is_digit_def)
  have l: "lone_key None False CHR ''d''" "kp_isset (VIKEY CHR ''d'') V_CNT" "kp_isset (VIKEY CHR ''d'') V_OBUF"
    by code_simp+
  have z: "\<not> vc_c1set vp_zero" "\<not> vc_buffer vp_zero" "o_tildeop ?v = False" by (simp_all add: vp_zero_def vi_start_def at_keys_def)
  obtain v' where "v_cmd True vp_zero None False ?v =
      Some (GC_OK, vp_named CHR ''d'' (vp_counted ''3'' (vp_buffered (Some CHR ''a'') vp_zero)), True, False, v')"
      "reads_to (typed (vs_gs ?v) ''w'') ?v v'"
    using command_reads [OF r p c(1) _ _ _ _ _ z(1,2), of None True False] c(2) l z(3) by auto
  then show ?thesis using reads_to_keys by (simp add: vp_named_def vp_counted_def vp_buffered_def)
qed
text \<open>
  The test for overflow misses some: \<^verbatim>\<open>30000000000000000000\<close> is read as another number.
\<close>

theorem count_overflow_missed:
  "map_option fst (v_count CHR ''3'' (at_keys ''0000000000000000000x'' [])) = Some (Some 11553255926290448384)"
proof -
  have "map_option fst (count_loop CHR ''3'' 0 (at_keys ''0000000000000000000x'' [])) = Some (Some 11553255926290448384)"
    by code_simp
  then obtain v where "count_loop CHR ''3'' 0 (at_keys ''0000000000000000000x'' []) = Some (Some 11553255926290448384, v)"
    by auto
  then show ?thesis by (simp add: v_count_def)
qed

text \<open>
  \<^verbatim>\<open>dD\<close> is refused, but the \<^verbatim>\<open>$\<close> that stands for the motion of \<^verbatim>\<open>D\<close> stays in the queue,
  to be read as the next command.
\<close>

theorem refused_alias_stays:
  "map_option (\<lambda>(r, vp, com, mapped, v). (r, map e_c (iq (vs_gs v)))) (v_cmd False vp_zero (Some (vp_zero\<lparr>vp_key := CHR ''d''\<rparr>)) False (at_keys ''Dx'' [])) =
   Some (GC_ERR, ''$x'')"
  by code_simp

text \<open>
  A word of 256 characters under the cursor fills the buffer for it, and the nul is written
  behind its end.
\<close>

theorem keyword_overflow:
  "v_keyword ((at_keys [] [replicate 256 CHR ''a''])) = None"
  by code_simp

end
