(* ===== verification/Marks.thy ===== *)
theory Marks
  imports LogWrite
begin

section \<open>Marks (common/mark.c)\<close>

text \<open>
  The marks of a file are a list sorted by name. \<^verbatim>\<open>mark_set\<close> inserts or replaces,
  \<^verbatim>\<open>mark_get\<close> looks up, and \<^verbatim>\<open>mark_insdel\<close> moves the marks when lines come and go; a
  mark whose line is deleted is flagged and logged, so that undo can bring it back.

  The lemmas: the list stays sorted, what was set is what is found, the two names of the
  absolute mark are one mark, and the effect of an insertion or a deletion on each mark.
\<close>

definition ABSMARK1 :: char where "ABSMARK1 = CHR 0x27"
definition ABSMARK2 :: char where "ABSMARK2 = CHR 0x60"

text \<open>The statements by which every routine treats the second absolute mark as the first.\<close>

definition mark_key :: "char \<Rightarrow> char" where
  "mark_key key = (if key = ABSMARK2 then ABSMARK1 else key)"

subsection \<open>Operations\<close>

text \<open>
  \<^verbatim>\<open>mark_find\<close>: the index of the mark, or of the slot immediately before where it would go
  (\<open>None\<close> for the null pointer). The loop carries the index of the current entry and the last one.
\<close>

fun mark_find_loop :: "char \<Rightarrow> nat option \<Rightarrow> nat \<Rightarrow> lmark list \<Rightarrow> nat option" where
  "mark_find_loop key lst i [] = lst"
| "mark_find_loop key lst i (m # ms) =
     (if key \<le> lm_name m then (if lm_name m = key then Some i else lst)
      else mark_find_loop key (Some i) (Suc i) ms)"

definition mark_find :: "char \<Rightarrow> lmark list \<Rightarrow> nat option" where
  "mark_find key ms = mark_find_loop key None 0 ms"

text \<open>\<^verbatim>\<open>mark_set\<close>; \<open>userset\<close> says the user is setting the mark, not an undo.\<close>

definition mark_set :: "char \<Rightarrow> mark \<Rightarrow> bool \<Rightarrow> ed \<Rightarrow> (bool \<times> ed) option" where
  "mark_set key0 value userset s =
     (let key = mark_key key0;
          new = \<lparr>lm_lno = m_lno value, lm_cno = m_cno value, lm_name = key,
                 lm_deleted = False, lm_userset = userset\<rparr>;
          at = mark_find key (marks s)
      in case at of
           None \<Rightarrow>
             if mem_ok s sizeof_lmark then Some (False, s\<lparr>marks := insert_at 0 new (marks s)\<rparr>)
             else Some (True, s)
         | Some i \<Rightarrow>
             let lm = marks s ! i in
             if lm_name lm \<noteq> key then
               (if mem_ok s sizeof_lmark
                then Some (False, s\<lparr>marks := insert_at (Suc i) new (marks s)\<rparr>)
                else Some (True, s))
             else if \<not> userset \<and> \<not> lm_deleted lm \<and> lm_userset lm then Some (False, s)
             else Some (False, s\<lparr>marks := (marks s)[i := new]\<rparr>))"

text \<open>\<^verbatim>\<open>mark_get\<close>: the failure flag and the position.\<close>

definition mark_get :: "char \<Rightarrow> ed \<Rightarrow> (bool \<times> mark \<times> ed) option" where
  "mark_get key0 s =
     (let key = mark_key key0; none = \<lparr>m_lno = 0, m_cno = 0\<rparr>
      in case mark_find key (marks s) of
           None \<Rightarrow> Some (True, none, s)
         | Some i \<Rightarrow>
             let lm = marks s ! i in
             if lm_name lm \<noteq> key then Some (True, none, s)
             else if lm_deleted lm then Some (True, none, s)
             else do {
               (ex, s1) \<leftarrow> (if lm_lno lm \<noteq> 1 \<or> lm_cno lm \<noteq> 0 then db_exist (lm_lno lm) s
                           else Some (True, s));
               if \<not> ex then Some (True, none, s1)
               else Some (False, \<lparr>m_lno = lm_lno lm, m_cno = lm_cno lm\<rparr>, s1)
             })"

text \<open>
  \<^verbatim>\<open>mark_insdel\<close>. The deletion walks the list, logging each mark on the line; the return code of
  \<^verbatim>\<open>log_mark\<close> is ignored.
\<close>

fun mark_delete_walk :: "nat \<Rightarrow> lmark list \<Rightarrow> ed \<Rightarrow> (lmark list \<times> ed) option" where
  "mark_delete_walk lno [] s = Some ([], s)"
| "mark_delete_walk lno (m # ms) s =
     (if lno \<le> lm_lno m then
        if lm_lno m = lno then
          (let m' = m\<lparr>lm_deleted := True\<rparr> in
           do {
             (e, s1) \<leftarrow> log_mark m' s;
             (ms', s2) \<leftarrow> mark_delete_walk lno ms s1;
             Some (m' # ms', s2)
           })
        else do {
          (ms', s1) \<leftarrow> mark_delete_walk lno ms s;
          Some (m\<lparr>lm_lno := lm_lno m - 1\<rparr> # ms', s1)
        }
      else do {
        (ms', s1) \<leftarrow> mark_delete_walk lno ms s;
        Some (m # ms', s1)
      })"

definition mark_shift :: "nat \<Rightarrow> lmark \<Rightarrow> lmark" where
  "mark_shift lno m = (if lno \<le> lm_lno m then m\<lparr>lm_lno := lm_lno m + 1\<rparr> else m)"

definition mark_insdel :: "lnop \<Rightarrow> nat \<Rightarrow> ed \<Rightarrow> (bool \<times> ed) option" where
  "mark_insdel op lno s =
     (case op of
        LINE_APPEND \<Rightarrow> None
      | LINE_DELETE \<Rightarrow>
          do {
            (ms, s1) \<leftarrow> mark_delete_walk lno (marks s) s;
            Some (False, s1\<lparr>marks := ms\<rparr>)
          }
      | LINE_INSERT \<Rightarrow>
          do {
            (ex, s1) \<leftarrow> db_exist 2 s;
            (e, lline, s2) \<leftarrow> (if \<not> ex then db_last s1 else Some (False, 0, s1));
            if e then Some (True, s2)
            else if \<not> ex \<and> lline = 1 then Some (False, s2)
            else Some (False, s2\<lparr>marks := map (mark_shift lno) (marks s2)\<rparr>)
          }
      | LINE_RESET \<Rightarrow> Some (False, s))"

subsection \<open>The list by name\<close>

definition sorted_marks :: "lmark list \<Rightarrow> bool" where
  "sorted_marks ms \<longleftrightarrow> sorted_wrt (<) (map lm_name ms)"

definition mark_lookup :: "lmark list \<Rightarrow> char \<Rightarrow> lmark option" where
  "mark_lookup ms k = find (\<lambda>m. lm_name m = k) ms"

definition below :: "char \<Rightarrow> lmark list \<Rightarrow> lmark list" where
  "below k ms = takeWhile (\<lambda>m. lm_name m < k) ms"

definition from_key :: "char \<Rightarrow> lmark list \<Rightarrow> lmark list" where
  "from_key k ms = dropWhile (\<lambda>m. lm_name m < k) ms"

lemma below_from: "below k ms @ from_key k ms = ms"
  by (simp add: below_def from_key_def)

lemma from_key_hd: "from_key k ms = m # r \<Longrightarrow> k \<le> lm_name m"
  by (metis dropWhile_eq_Cons_conv from_key_def not_le)

text \<open>The loop of \<^verbatim>\<open>mark_find\<close> stops at the first entry whose name is not below the key.\<close>

definition slot :: "nat option \<Rightarrow> nat \<Rightarrow> lmark list \<Rightarrow> nat option" where
  "slot lst i lo = (if lo = [] then lst else Some (i + length lo - 1))"

lemma mark_find_loop_eq:
  "mark_find_loop key lst i ms =
     (case from_key key ms of
        [] \<Rightarrow> slot lst i (below key ms)
      | m # r \<Rightarrow> if lm_name m = key then Some (i + length (below key ms)) else slot lst i (below key ms))"
proof (induction ms arbitrary: lst i)
  case Nil
  then show ?case by (simp add: from_key_def below_def slot_def)
next
  case (Cons m ms)
  show ?case
  proof (cases "key \<le> lm_name m")
    case True
    then show ?thesis by (auto simp: from_key_def below_def slot_def)
  next
    case False
    then have f: "from_key key (m # ms) = from_key key ms" "below key (m # ms) = m # below key ms"
      by (auto simp: from_key_def below_def)
    show ?thesis using False
      by (simp add: Cons.IH f slot_def split: list.split)
  qed
qed

lemma mark_find_eq:
  "mark_find key ms =
     (case from_key key ms of
        [] \<Rightarrow> slot None 0 (below key ms)
      | m # r \<Rightarrow> if lm_name m = key then Some (length (below key ms)) else slot None 0 (below key ms))"
  by (simp add: mark_find_def mark_find_loop_eq split: list.split)

lemma lookup_below: "find (\<lambda>m. lm_name m = key) (below key ms) = None"
  by (auto simp: find_None_iff below_def dest: set_takeWhileD)

lemma find_append: "find P (xs @ ys) = (case find P xs of None \<Rightarrow> find P ys | Some x \<Rightarrow> Some x)"
  by (induction xs) auto

lemma sorted_from_key_gt:
  "sorted_marks ms \<Longrightarrow> from_key key ms = m # r \<Longrightarrow> lm_name m \<noteq> key \<Longrightarrow> \<forall>x \<in> set (m # r). key < lm_name x"
proof -
  assume s: "sorted_marks ms" and f: "from_key key ms = m # r" and ne: "lm_name m \<noteq> key"
  have "sorted_wrt (<) (map lm_name (below key ms @ m # r))"
    using s f below_from [of key ms] by (simp add: sorted_marks_def)
  then have "\<forall>x \<in> set r. lm_name m < lm_name x" by (auto simp: sorted_wrt_append)
  then show ?thesis using from_key_hd [OF f] ne by (auto intro: le_neq_trans less_trans)
qed

text \<open>A sorted list holds at most one mark of a name, where \<^verbatim>\<open>mark_find\<close> says it is.\<close>

lemma lookup_eq:
  assumes "sorted_marks ms"
  shows "mark_lookup ms key =
    (case from_key key ms of [] \<Rightarrow> None | m # r \<Rightarrow> if lm_name m = key then Some m else None)"
proof (cases "from_key key ms")
  case Nil
  then have "ms = below key ms" using below_from [of key ms] by simp
  with lookup_below [of key ms] Nil show ?thesis by (simp add: mark_lookup_def)
next
  case (Cons m r)
  then have "ms = below key ms @ m # r" using below_from [of key ms] by simp
  then have "mark_lookup ms key = find (\<lambda>m. lm_name m = key) (m # r)"
    using lookup_below [of key ms] by (metis (no_types, lifting) find_append mark_lookup_def option.simps(4))
  moreover have "lm_name m \<noteq> key \<Longrightarrow> find (\<lambda>m. lm_name m = key) (m # r) = None"
    using sorted_from_key_gt [OF assms Cons] by (auto simp: find_None_iff)
  ultimately show ?thesis using Cons by auto
qed

definition new_mark :: "char \<Rightarrow> mark \<Rightarrow> bool \<Rightarrow> lmark" where
  "new_mark key v userset = \<lparr>lm_lno = m_lno v, lm_cno = m_cno v, lm_name = key,
                             lm_deleted = False, lm_userset = userset\<rparr>"

lemma new_mark_name [simp]: "lm_name (new_mark k v u) = k"
  by (simp add: new_mark_def)

text \<open>The list \<^verbatim>\<open>mark_set\<close> leaves: the new mark between the smaller and the larger names.\<close>

definition put_mark :: "char \<Rightarrow> lmark \<Rightarrow> lmark list \<Rightarrow> lmark list" where
  "put_mark key m ms = below key ms @ m #
     (case from_key key ms of [] \<Rightarrow> [] | x # r \<Rightarrow> if lm_name x = key then r else x # r)"

definition undo_keeps :: "lmark list \<Rightarrow> char \<Rightarrow> bool \<Rightarrow> bool" where
  "undo_keeps ms key userset \<longleftrightarrow> \<not> userset \<and>
     (\<exists>m r. from_key key ms = m # r \<and> lm_name m = key \<and> \<not> lm_deleted m \<and> lm_userset m)"

lemma insert_at_mid: "insert_at (length xs) y (xs @ ys) = xs @ y # ys"
  by (simp add: insert_at_def)

lemma mark_set_eq:
  assumes m: "mem_ok s sizeof_lmark"
  shows "mark_set key v u s = Some (False,
    if undo_keeps (marks s) (mark_key key) u then s
    else s\<lparr>marks := put_mark (mark_key key) (new_mark (mark_key key) v u) (marks s)\<rparr>)"
proof -
  let ?k = "mark_key key" and ?ms = "marks s"
  let ?lo = "below ?k ?ms"
  have new: "\<lparr>lm_lno = m_lno v, lm_cno = m_cno v, lm_name = ?k, lm_deleted = False, lm_userset = u\<rparr> = new_mark ?k v u"
    by (simp add: new_mark_def)
  note md = mark_set_def [of key v u s, unfolded Let_def new]
  have lt: "x \<in> set ?lo \<Longrightarrow> lm_name x < ?k" for x by (auto simp: below_def dest: set_takeWhileD)
  show ?thesis
  proof (cases "\<exists>m r. from_key ?k ?ms = m # r \<and> lm_name m = ?k")
    case True
    then obtain x r where x: "from_key ?k ?ms = x # r" "lm_name x = ?k" by blast
    then have ms: "?ms = ?lo @ x # r" using below_from [of ?k ?ms] by simp
    have f: "mark_find ?k ?ms = Some (length ?lo)" using x by (simp add: mark_find_eq)
    have at: "?ms ! length ?lo = x" by (subst ms) simp
    have "?ms[length ?lo := new_mark ?k v u] = ?lo @ new_mark ?k v u # r"
      by (subst ms) simp
    then show ?thesis using f at x by (simp add: md undo_keeps_def put_mark_def)
  next
    case False
    have f: "mark_find ?k ?ms = slot None 0 ?lo"
      using False by (auto simp: mark_find_eq split: list.split)
    have p: "put_mark ?k (new_mark ?k v u) ?ms = ?lo @ new_mark ?k v u # from_key ?k ?ms"
      using False by (auto simp: put_mark_def split: list.split)
    have uk: "\<not> undo_keeps ?ms ?k u" using False by (auto simp: undo_keeps_def)
    show ?thesis
    proof (cases "?lo = []")
      case True
      then have "from_key ?k ?ms = ?ms" using below_from [of ?k ?ms] by simp
      then show ?thesis using f p uk True m by (simp add: md slot_def insert_at_def)
    next
      case lo: False
      have "?ms ! (length ?lo - 1) = last ?lo"
        using lo below_from [of ?k ?ms] by (metis last_conv_nth nth_append length_greater_0_conv diff_less zero_less_one)
      then have nm: "lm_name (?ms ! (length ?lo - 1)) \<noteq> ?k" using lt [of "last ?lo"] lo by auto
      have "insert_at (length ?lo) (new_mark ?k v u) ?ms = ?lo @ new_mark ?k v u # from_key ?k ?ms"
        using insert_at_mid [of ?lo _ "from_key ?k ?ms"] by (simp add: below_from)
      moreover have "Suc (length ?lo - 1) = length ?lo" using lo by simp
      ultimately show ?thesis using f p uk lo m nm by (simp add: md slot_def)
    qed
  qed
qed

lemma sorted_put_mark:
  assumes "sorted_marks ms" "lm_name m = key"
  shows "sorted_marks (put_mark key m ms)"
proof -
  have lt: "x \<in> set (below key ms) \<Longrightarrow> lm_name x < key" for x by (auto simp: below_def dest: set_takeWhileD)
  have s: "sorted_wrt (<) (map lm_name (below key ms @ from_key key ms))"
    using assms(1) by (simp add: sorted_marks_def below_from)
  show ?thesis
  proof (cases "from_key key ms")
    case Nil
    then show ?thesis using s assms(2) lt by (auto simp: put_mark_def sorted_marks_def sorted_wrt_append)
  next
    case (Cons x r)
    have "lm_name x \<noteq> key \<Longrightarrow> \<forall>y \<in> set (x # r). key < lm_name y"
      by (rule sorted_from_key_gt [OF assms(1) Cons])
    moreover have "\<forall>y \<in> set r. lm_name x < lm_name y" using s Cons by (auto simp: sorted_wrt_append)
    ultimately show ?thesis
      using s assms(2) lt Cons by (force simp: put_mark_def sorted_marks_def sorted_wrt_append)
  qed
qed

lemma lookup_put_mark:
  assumes s: "sorted_marks ms" and n: "lm_name m = key"
  shows "mark_lookup (put_mark key m ms) k = (if k = key then Some m else mark_lookup ms k)"
proof (cases "k = key")
  case True
  then show ?thesis
    using n lookup_below [of key ms] by (simp add: mark_lookup_def put_mark_def find_append)
next
  case False
  have "mark_lookup ms k = find (\<lambda>m. lm_name m = k) (below key ms @ from_key key ms)"
    by (simp add: mark_lookup_def below_from)
  then show ?thesis using False n
    by (auto simp: mark_lookup_def put_mark_def find_append split: list.split option.split)
qed

lemma mark_key_idem [simp]: "mark_key (mark_key k) = mark_key k"
  by (auto simp: mark_key_def)

lemma mark_get_eq:
  assumes "sorted_marks (marks s)"
  shows "mark_get key s =
    (let none = \<lparr>m_lno = 0, m_cno = 0\<rparr> in
     case mark_lookup (marks s) (mark_key key) of
       None \<Rightarrow> Some (True, none, s)
     | Some lm \<Rightarrow>
         if lm_deleted lm then Some (True, none, s)
         else do {
           (ex, s1) \<leftarrow> (if lm_lno lm \<noteq> 1 \<or> lm_cno lm \<noteq> 0 then db_exist (lm_lno lm) s else Some (True, s));
           if \<not> ex then Some (True, none, s1)
           else Some (False, \<lparr>m_lno = lm_lno lm, m_cno = lm_cno lm\<rparr>, s1)
         })"
proof -
  let ?k = "mark_key key" and ?ms = "marks s"
  let ?lo = "below ?k ?ms"
  show ?thesis
  proof (cases "\<exists>m r. from_key ?k ?ms = m # r \<and> lm_name m = ?k")
    case True
    then obtain x r where x: "from_key ?k ?ms = x # r" "lm_name x = ?k" by blast
    then have ms: "?ms = ?lo @ x # r" using below_from [of ?k ?ms] by simp
    have at: "?ms ! length ?lo = x" by (subst ms) simp
    have "mark_find ?k ?ms = Some (length ?lo)" using x by (simp add: mark_find_eq)
    then show ?thesis using x at by (simp add: mark_get_def lookup_eq [OF assms] Let_def)
  next
    case False
    have lt: "x \<in> set ?lo \<Longrightarrow> lm_name x < ?k" for x by (auto simp: below_def dest: set_takeWhileD)
    have f: "mark_find ?k ?ms = slot None 0 ?lo"
      using False by (auto simp: mark_find_eq split: list.split)
    have n: "mark_lookup ?ms ?k = None" using False by (auto simp: lookup_eq [OF assms] split: list.split)
    show ?thesis
    proof (cases "?lo = []")
      case True
      then show ?thesis using f n by (simp add: mark_get_def slot_def)
    next
      case lo: False
      have "?ms ! (length ?lo - 1) = last ?lo"
        using lo below_from [of ?k ?ms] by (metis last_conv_nth nth_append length_greater_0_conv diff_less zero_less_one)
      then have "lm_name (?ms ! (length ?lo - 1)) \<noteq> ?k" using lt [of "last ?lo"] lo by auto
      then show ?thesis using f n lo by (simp add: mark_get_def slot_def Let_def)
    qed
  qed
qed


subsection \<open>Lines come and go\<close>

text \<open>What the deletion of a line does to a mark, and the records it logs.\<close>

definition mark_dropped :: "nat \<Rightarrow> lmark \<Rightarrow> lmark" where
  "mark_dropped lno m =
     (if lno \<le> lm_lno m
      then if lm_lno m = lno then m\<lparr>lm_deleted := True\<rparr> else m\<lparr>lm_lno := lm_lno m - 1\<rparr>
      else m)"

definition mark_recs :: "nat \<Rightarrow> lmark list \<Rightarrow> log_rec list" where
  "mark_recs lno ms = map (\<lambda>m. LOG_MARK (m\<lparr>lm_deleted := True\<rparr>)) (filter (\<lambda>m. lm_lno m = lno) ms)"

lemma reads_recording: "reads s s' \<Longrightarrow> recording s' = recording s"
  by (simp add: recording_def reads_fields reads_log_fields)

lemma reads_hp: "reads s s' \<Longrightarrow> hp s' = hp s"
  by (simp add: hp_def reads_log_fields)

lemma mark_delete_walk_nolog:
  "f_nolog s \<Longrightarrow> mark_delete_walk lno ms s = Some (map (mark_dropped lno) ms, s)"
  by (induction ms) (auto simp: mark_dropped_def log_mark_def Let_def)

lemma mark_delete_walk_log:
  assumes "base s" and "recording s"
  shows "\<exists>s'. mark_delete_walk lno ms s = Some (map (mark_dropped lno) ms, s') \<and> base s' \<and>
    recording s' \<and> logs s s' \<and> same_cache s s' \<and> hp s' = hp s @ mark_recs lno ms \<and>
    (m_lno (l_cursor s) = 0 \<or> mark_recs lno ms \<noteq> [] \<longrightarrow> m_lno (l_cursor s') = 0) \<and>
    f_undo s' = f_undo s \<and> (mark_recs lno ms = [] \<longrightarrow> l_cursor s' = l_cursor s)"
  using assms
proof (induction ms arbitrary: s)
  case Nil
  then show ?case by (auto simp: mark_recs_def)
next
  case (Cons m ms)
  show ?case
  proof (cases "lm_lno m = lno")
    case True
    let ?m = "m\<lparr>lm_deleted := True\<rparr>"
    obtain s1 where s1: "log_mark ?m s = Some (False, s1)" "base s1" "recording s1" "logs s s1" "same_cache s s1"
      "hist s1 = hist s @ pend s @ [LOG_MARK ?m]" "m_lno (l_cursor s1) = 0" "f_undo s1 = f_undo s"
      using log_mark_spec [OF Cons.prems, of ?m] by blast
    have h: "hp s1 = hp s @ [LOG_MARK ?m]" using s1(6) pend_zero [OF s1(7)] by (simp add: hp_def)
    obtain s2 where s2: "mark_delete_walk lno ms s1 = Some (map (mark_dropped lno) ms, s2)" "base s2"
      "recording s2" "logs s1 s2" "same_cache s1 s2" "hp s2 = hp s1 @ mark_recs lno ms"
      "m_lno (l_cursor s1) = 0 \<longrightarrow> m_lno (l_cursor s2) = 0" "f_undo s2 = f_undo s1"
      using Cons.IH [OF s1(2,3)] by blast
    have "logs s s2" "same_cache s s2"
      using logs_trans [OF s1(4) s2(4)] same_cache_trans [OF s1(5) s2(5)] .
    then show ?thesis using True s1(1,7,8) s2 h
      by (intro exI [of _ s2]) (simp add: mark_dropped_def mark_recs_def Let_def)
  next
    case False
    obtain s2 where s2: "mark_delete_walk lno ms s = Some (map (mark_dropped lno) ms, s2)" "base s2"
      "recording s2" "logs s s2" "same_cache s s2" "hp s2 = hp s @ mark_recs lno ms"
      "m_lno (l_cursor s) = 0 \<or> mark_recs lno ms \<noteq> [] \<longrightarrow> m_lno (l_cursor s2) = 0" "f_undo s2 = f_undo s"
      "mark_recs lno ms = [] \<longrightarrow> l_cursor s2 = l_cursor s"
      using Cons.IH [OF Cons.prems] by blast
    then show ?thesis using False
      by (intro exI [of _ s2]) (simp add: mark_dropped_def mark_recs_def)
  qed
qed

lemma mark_delete_any:
  assumes r: "base s" and l: "log_ready s"
  obtains s' where
    "mark_insdel LINE_DELETE lno s = Some (False, s'\<lparr>marks := map (mark_dropped lno) (marks s)\<rparr>)"
    and "base s'" and "logs s s'" and "same_cache s s'" and "logged s (mark_recs lno (marks s)) s'"
proof (cases "f_nolog s")
  case True
  then show ?thesis
    using that [of s] r by (simp add: mark_insdel_def mark_delete_walk_nolog logged_def)
next
  case False
  then have rec: "recording s" using l by (simp add: log_ready_def)
  obtain s' where s': "mark_delete_walk lno (marks s) s = Some (map (mark_dropped lno) (marks s), s')" "base s'"
    "recording s'" "logs s s'" "same_cache s s'" "hp s' = hp s @ mark_recs lno (marks s)"
    "mark_recs lno (marks s) \<noteq> [] \<longrightarrow> m_lno (l_cursor s') = 0" "f_undo s' = f_undo s"
    "mark_recs lno (marks s) = [] \<longrightarrow> l_cursor s' = l_cursor s"
    using mark_delete_walk_log [OF r rec, of lno "marks s"] by blast
  show ?thesis
    by (rule that [of s'])
      (use s' False logs_fields(7) [OF s'(4)] in \<open>auto simp: mark_insdel_def logged_def\<close>)
qed

text \<open>An insertion moves the marks at or after the line, except into a file that was empty.\<close>

definition marks_inserted :: "nat \<Rightarrow> nat \<Rightarrow> lmark list \<Rightarrow> lmark list" where
  "marks_inserted cnt lno ms = (if cnt = 1 then ms else map (mark_shift lno) ms)"

lemma mark_insert_base:
  assumes r: "base s" and t: "\<not> sp_tinput (cur s)"
  shows "\<exists>s'. mark_insdel LINE_INSERT lno s =
      Some (False, s'\<lparr>marks := marks_inserted (length (lines s)) lno (marks s)\<rparr>) \<and> keeps s s'"
proof -
  obtain s1 where s1: "db_exist 2 s = Some (2 \<le> length (lines s), s1)" "keeps s s1"
    using db_exist_base [OF r t, of 2] by auto
  note k1 = keepsD(1,2) [OF s1(2)]
  have f1: "\<not> sp_tinput (cur s1)" "lines s1 = lines s" "marks s1 = marks s" using reads_fields [OF k1(2)] t by simp_all
  show ?thesis
  proof (cases "2 \<le> length (lines s)")
    case True
    then show ?thesis using s1 f1
      by (intro exI [of _ s1]) (simp add: mark_insdel_def marks_inserted_def)
  next
    case False
    obtain s2 where s2: "db_last s1 = Some (False, length (lines s), s2)" "keeps s1 s2"
      using db_last_base [OF k1(1) f1(1)] f1(2) by auto
    have k2: "keeps s s2" using s1(2) s2(2) by (rule keeps_trans)
    have m2: "marks s2 = marks s" using reads_fields [OF keepsD(2) [OF k2]] by simp
    then have "s2\<lparr>marks := marks s\<rparr> = s2" by simp
    then show ?thesis using s1 s2 False m2 k2
      by (intro exI [of _ s2]) (auto simp: mark_insdel_def marks_inserted_def)
  qed
qed

text \<open>Taking a line out and putting it back returns every mark that was not on it.\<close>

lemma shift_dropped:
  "lm_lno m \<noteq> lno \<Longrightarrow> mark_shift lno (mark_dropped lno m) = m"
  by (auto simp: mark_shift_def mark_dropped_def)

lemma sorted_map_names:
  "(\<And>m. lm_name (f m) = lm_name m) \<Longrightarrow> sorted_marks (map f ms) = sorted_marks ms"
  by (simp add: sorted_marks_def comp_def)

lemma mark_dropped_name [simp]: "lm_name (mark_dropped n m) = lm_name m"
  by (simp add: mark_dropped_def)

lemma mark_shift_name [simp]: "lm_name (mark_shift n m) = lm_name m"
  by (simp add: mark_shift_def)

subsection \<open>Setting and following marks\<close>

text \<open>
  C22: a mark the user sets is the mark found, under either name of the absolute mark, and no other mark
  changes; the list stays sorted.
\<close>

theorem mark_set_get:
  assumes "base s" "\<not> sp_tinput (cur s)" "sorted_marks (marks s)" "0 < m_lno v" "m_lno v \<le> length (lines s)"
    and "mark_key k' = mark_key k"
  shows "\<exists>s1 s2. mark_set k v True s = Some (False, s1) \<and> sorted_marks (marks s1) \<and>
    mark_get k' s1 = Some (False, v, s2) \<and>
    (\<forall>j. j \<noteq> mark_key k \<longrightarrow> mark_lookup (marks s1) j = mark_lookup (marks s) j)"
proof -
  let ?m = "new_mark (mark_key k) v True"
  let ?s1 = "s\<lparr>marks := put_mark (mark_key k) ?m (marks s)\<rparr>"
  have "mem_ok s sizeof_lmark" using assms(1) by (simp add: base_def)
  then have set: "mark_set k v True s = Some (False, ?s1)" by (simp add: mark_set_eq undo_keeps_def)
  have so: "sorted_marks (marks ?s1)" using sorted_put_mark [OF assms(3), of ?m] by simp
  have look: "mark_lookup (marks ?s1) j = (if j = mark_key k then Some ?m else mark_lookup (marks s) j)" for j
    using lookup_put_mark [OF assms(3), of ?m] by simp
  have b: "base ?s1" "lines ?s1 = lines s" using assms(1) by (simp_all add: base_def count_ok_def)
  obtain s2 where "db_exist (m_lno v) ?s1 = Some (True, s2)"
    using db_exist_base [OF b(1), of "m_lno v"] assms(2,4,5) b(2) by auto
  then have "\<exists>s2. mark_get k' ?s1 = Some (False, v, s2)"
    using mark_get_eq [OF so, of k'] look assms(6) by (auto simp: new_mark_def Let_def)
  then show ?thesis using set so look by auto
qed

theorem mark_set_get_witness:
  "\<exists>s1 s2. mark_set ABSMARK2 \<lparr>m_lno = 2, m_cno = 5\<rparr> True (opened [''a'', ''b'']) = Some (False, s1) \<and>
     mark_get ABSMARK1 s1 = Some (False, \<lparr>m_lno = 2, m_cno = 5\<rparr>, s2)"
  using mark_set_get [of "opened [''a'', ''b'']" "\<lparr>m_lno = 2, m_cno = 5\<rparr>" ABSMARK1 ABSMARK2]
  by (auto simp: mark_key_def sorted_marks_def)

text \<open>
  Marks stay on their lines: inserting a line and deleting it again leaves every mark as it was. (In a
  file of one line the insertion moves no mark: the code takes it for the first line of an empty
  file.)
\<close>

theorem marks_insert_delete:
  assumes "base s" "\<not> sp_tinput (cur s)" "log_ready s" "length (lines s) \<noteq> 1"
  shows "\<exists>s1 s2. mark_insdel LINE_INSERT n s = Some (False, s1) \<and> mark_insdel LINE_DELETE n s1 = Some (False, s2) \<and>
    marks s2 = marks s"
proof -
  obtain s0 where s0: "mark_insdel LINE_INSERT n s = Some (False, s0\<lparr>marks := marks_inserted (length (lines s)) n (marks s)\<rparr>)"
    "keeps s s0" using mark_insert_base [OF assms(1,2)] by blast
  let ?s1 = "s0\<lparr>marks := marks_inserted (length (lines s)) n (marks s)\<rparr>"
  have b: "base ?s1" using keepsD(1) [OF s0(2)] by (simp add: base_def count_ok_def)
  have "log_ready s0" using assms(3) reads_recording [OF keepsD(2) [OF s0(2)]] reads_fields(12) [OF keepsD(2) [OF s0(2)]]
    by (simp add: log_ready_def)
  then have l: "log_ready ?s1" by (simp add: log_ready_def recording_def log_ok_def)
  obtain s2 where "mark_insdel LINE_DELETE n ?s1 = Some (False, s2\<lparr>marks := map (mark_dropped n) (marks ?s1)\<rparr>)"
    by (rule mark_delete_any [OF b l, of n])
  moreover have "mark_dropped n (mark_shift n m) = m" for m
    by (auto simp: mark_dropped_def mark_shift_def)
  then have "map (mark_dropped n) (marks ?s1) = marks s"
    using assms(4) by (simp add: marks_inserted_def comp_def)
  ultimately show ?thesis using s0(1) by auto
qed

theorem marks_insert_delete_witness:
  "\<exists>s1 s2. mark_insdel LINE_INSERT 1 ((opened [''a'', ''b''])\<lparr>marks := [new_mark (CHR ''q'') \<lparr>m_lno = 2, m_cno = 0\<rparr> True]\<rparr>)
     = Some (False, s1) \<and> mark_insdel LINE_DELETE 1 s1 = Some (False, s2) \<and>
   marks s2 = [new_mark (CHR ''q'') \<lparr>m_lno = 2, m_cno = 0\<rparr> True]"
  using marks_insert_delete [of "(opened [''a'', ''b''])\<lparr>marks := [new_mark (CHR ''q'') \<lparr>m_lno = 2, m_cno = 0\<rparr> True]\<rparr>" 1]
    opened_ready(1) [of "[''a'', ''b'']"] opened_recording(1) [of "[''a'', ''b'']"]
  by (simp add: log_ready_def recording_def log_ok_def base_def count_ok_def)

end
