(* ===== verification/GlobalRange.thy ===== *)
theory GlobalRange
  imports LineRead
begin

section \<open>Ranges of pending global commands (ex/ex_global.c)\<close>

text \<open>
  While a global, \<^verbatim>\<open>v\<close> or \<^verbatim>\<open>@\<close> command runs, the lines it has still to visit are a queue of
  ranges; \<^verbatim>\<open>ex_g_insdel\<close> adjusts them when lines come and go. The lemmas say which lines the
  adjusted ranges stand for.
\<close>

definition sizeof_range :: nat where "sizeof_range = 24"

subsection \<open>Operations\<close>

text \<open>
  The inner loop of \<^verbatim>\<open>ex_g_insdel\<close> over one queue. A range that an insertion splits is
  followed by its new second half, and the loop goes on with that half. The flag of the result
  is true when the second half cannot be allocated.
\<close>

function range_walk :: "bool \<Rightarrow> lnop \<Rightarrow> nat \<Rightarrow> (nat \<times> nat) list \<Rightarrow> bool \<times> (nat \<times> nat) list" where
  "range_walk mem op lno [] = (False, [])"
| "range_walk mem op lno ((start, stop) # rs) =
     (if stop < lno then
        (let (e, rs') = range_walk mem op lno rs in (e, (start, stop) # rs'))
      else if lno \<le> start then
        (let (e, rs') = range_walk mem op lno rs
         in (e, (if op = LINE_DELETE then (start - 1, stop - 1) else (start + 1, stop + 1)) # rs'))
      else if op = LINE_DELETE then
        (let (e, rs') = range_walk mem op lno rs
         in (e, if stop - 1 < start then rs' else (start, stop - 1) # rs'))
      else if mem then
        (let (e, rs') = range_walk mem op lno ((lno + 1, stop + 1) # rs)
         in (e, (start, lno - 1) # rs'))
      else (True, (start, stop) # rs))"
  by pat_completeness auto
termination
  by (relation "measure (\<lambda>(mem, op, lno, rs).
        sum_list (map (\<lambda>(a, b). if a < lno \<and> lno \<le> b then 2 else 1) rs))") auto

text \<open>The outer loop, over the pending commands.\<close>

fun ecq_walk :: "bool \<Rightarrow> lnop \<Rightarrow> nat \<Rightarrow> excmd list \<Rightarrow> bool \<times> excmd list" where
  "ecq_walk mem op lno [] = (False, [])"
| "ecq_walk mem op lno (ec # es) =
     (if \<not> (ec_at ec \<or> ec_global ec \<or> ec_v ec) then
        (let (e, es') = ecq_walk mem op lno es in (e, ec # es'))
      else case range_walk mem op lno (ec_rq ec) of
          (True, rq) \<Rightarrow> (True, ec\<lparr>ec_rq := rq\<rparr> # es)
        | (False, rq) \<Rightarrow>
            (let (e, es') = ecq_walk mem op lno es
             in (e, ec\<lparr>ec_rq := rq, ec_range_lno := lno\<rparr> # es')))"

definition ex_g_insdel :: "lnop \<Rightarrow> nat \<Rightarrow> ed \<Rightarrow> (bool \<times> ed) option" where
  "ex_g_insdel op lno s =
     (case op of
        LINE_APPEND \<Rightarrow> None
      | LINE_RESET \<Rightarrow> Some (False, s)
      | _ \<Rightarrow> let (e, q) = ecq_walk (mem_ok s sizeof_range) op lno (ecq s)
             in Some (e, s\<lparr>ecq := q\<rparr>))"

text \<open>
  The statements of \<^verbatim>\<open>ex_g_setup\<close> that record a selected line: extend the last range when the
  line follows it, else start a new one.
\<close>

definition add_line :: "nat \<Rightarrow> (nat \<times> nat) list \<Rightarrow> (nat \<times> nat) list" where
  "add_line n rq =
     (if rq \<noteq> [] \<and> snd (last rq) = n - 1 then butlast rq @ [(fst (last rq), snd (last rq) + 1)]
      else rq @ [(n, n)])"

subsection \<open>The lines the ranges stand for\<close>

definition covers :: "(nat \<times> nat) list \<Rightarrow> nat set" where
  "covers rq = (\<Union>(a, b) \<in> set rq. {a..b})"

definition apart :: "nat \<Rightarrow> (nat \<times> nat) list \<Rightarrow> bool" where
  "apart lno rq \<longleftrightarrow> (\<forall>(a, b) \<in> set rq. 0 < a \<and> a \<le> b \<and> (b < lno \<or> lno \<le> a))"

text \<open>Where a line of the file is after line \<open>lno\<close> was inserted or deleted.\<close>

definition moved :: "lnop \<Rightarrow> nat \<Rightarrow> nat \<Rightarrow> nat" where
  "moved op lno k = (if k < lno then k else if op = LINE_DELETE then k - 1 else k + 1)"

lemma covers_Cons [simp]: "covers ((a, b) # rq) = {a..b} \<union> covers rq" "covers [] = {}"
  by (auto simp: covers_def)

lemma moved_range:
  "b < lno \<Longrightarrow> moved op lno ` {a..b} = {a..b}"
  "lno \<le> a \<Longrightarrow> moved LINE_INSERT lno ` {a..b} = {a + 1..b + 1}"
proof -
  show "b < lno \<Longrightarrow> moved op lno ` {a..b} = {a..b}" by (auto simp: moved_def image_def)
  assume "lno \<le> a"
  then have "moved LINE_INSERT lno ` {a..b} = Suc ` {a..b}" by (auto simp: moved_def image_def)
  then show "moved LINE_INSERT lno ` {a..b} = {a + 1..b + 1}" by (simp add: image_Suc_atLeastAtMost)
qed

text \<open>
  When no range straddles the inserted line, the adjusted ranges stand for exactly the same lines of text, at
  their new numbers.
\<close>

theorem range_insert_apart:
  assumes "apart lno rq"
  shows "\<exists>rq'. range_walk mem LINE_INSERT lno rq = (False, rq') \<and> covers rq' = moved LINE_INSERT lno ` covers rq"
  using assms
proof (induction rq)
  case Nil
  then show ?case by simp
next
  case (Cons r rq)
  obtain a b where r: "r = (a, b)" by (cases r)
  have "apart lno rq" using Cons.prems by (simp add: apart_def)
  then obtain rq' where "range_walk mem LINE_INSERT lno rq = (False, rq')" "covers rq' = moved LINE_INSERT lno ` covers rq"
    using Cons.IH by blast
  moreover have "b < lno \<or> lno \<le> a" using Cons.prems r by (auto simp: apart_def)
  ultimately show ?case unfolding r
    by (cases "b < lno") (auto simp: image_Un moved_range)
qed

theorem range_insert_apart_witness:
  "\<exists>rq'. range_walk True LINE_INSERT 3 [(1, 2), (3, 5)] = (False, rq') \<and> covers rq' = moved LINE_INSERT 3 ` covers [(1, 2), (3, 5)]"
  using range_insert_apart [of 3 "[(1, 2), (3, 5)]" True] by (simp add: apart_def)

text \<open>
  Deleting a line inside a range, but not its first line, takes exactly that line out of it.
\<close>

theorem range_delete_inside:
  assumes "0 < a" "a < lno" "lno \<le> b"
  shows "\<exists>rq'. range_walk mem LINE_DELETE lno [(a, b)] = (False, rq') \<and>
    covers rq' = moved LINE_DELETE lno ` ({a..b} - {lno})"
proof -
  have "moved LINE_DELETE lno ` ({a..b} - {lno}) = {a..b - 1}"
  proof
    show "moved LINE_DELETE lno ` ({a..b} - {lno}) \<subseteq> {a..b - 1}" using assms by (auto simp: moved_def)
    show "{a..b - 1} \<subseteq> moved LINE_DELETE lno ` ({a..b} - {lno})"
    proof
      fix x assume x: "x \<in> {a..b - 1}"
      show "x \<in> moved LINE_DELETE lno ` ({a..b} - {lno})"
      proof (cases "x < lno")
        case True
        then have "x = moved LINE_DELETE lno x" "x \<in> {a..b} - {lno}" using x by (auto simp: moved_def)
        then show ?thesis by blast
      next
        case False
        then have "x = moved LINE_DELETE lno (x + 1)" "x + 1 \<in> {a..b} - {lno}" using x assms by (auto simp: moved_def)
        then show ?thesis by blast
      qed
    qed
  qed
  then show ?thesis using assms by simp
qed

theorem range_delete_inside_witness:
  "\<exists>rq'. range_walk True LINE_DELETE 3 [(1, 5)] = (False, rq') \<and> covers rq' = moved LINE_DELETE 3 ` ({1..5} - {3})"
  using range_delete_inside [of 1 3 5 True] by simp

text \<open>
  Deleting the first line of a range makes the range cover the line before it, which was not selected; an insertion
  inside a range moves the second half twice, so that a selected line is lost and the range runs past its last line.
\<close>

theorem range_walk_wrong_lines:
  "range_walk True LINE_DELETE 2 [(2, 3)] = (False, [(1, 2)]) \<and>
   moved LINE_DELETE 2 ` ({2..3} - {2}) = {2} \<and>
   range_walk True LINE_INSERT 2 [(1, 3)] = (False, [(1, 1), (4, 5)]) \<and>
   moved LINE_INSERT 2 ` {1..3} = {1, 3, 4}"
proof -
  have "{2..3} - {2::nat} = {3}" "{1..3::nat} = {1, 2, 3}" by auto
  then show ?thesis by (simp add: moved_def insert_commute)
qed

end
