(* ===== verification/Screen.thy ===== *)
theory Screen
  imports LogWrite
begin

section \<open>Telling the screens about a change (vi/vs_smap.c, common/line.c)\<close>

text \<open>
  \<^verbatim>\<open>vs_change\<close> adjusts a screen's map and cursor for a changed line, or has the line
  redrawn; \<^verbatim>\<open>scr_update\<close> calls it for every screen that shows the file. What redrawing does
  to the map is the screen's \<open>sp_paint\<close>. The lemmas say that the file, the log and the
  marks are not touched.
\<close>

subsection \<open>Operations\<close>

definition map_shift :: "lnop \<Rightarrow> nat \<Rightarrow> scr \<Rightarrow> scr" where
  "map_shift op lno sc =
     (case op of
        LINE_DELETE \<Rightarrow>
          sc\<lparr>sp_map := map (\<lambda>n. n - 1) (sp_map sc),
             sp_lno := if lno \<le> sp_lno sc then sp_lno sc - 1 else sp_lno sc, sp_n_renumber := True\<rparr>
      | LINE_INSERT \<Rightarrow>
          sc\<lparr>sp_map := map (\<lambda>n. n + 1) (sp_map sc),
             sp_lno := if lno \<le> sp_lno sc then sp_lno sc + 1 else sp_lno sc, sp_n_renumber := True\<rparr>
      | _ \<Rightarrow> sc)"

text \<open>The part of \<^verbatim>\<open>vs_change\<close> for a line inside the map.\<close>

definition map_repaint :: "lnop \<Rightarrow> nat \<Rightarrow> scr \<Rightarrow> bool \<times> scr" where
  "map_repaint op lno sc =
     (let sc1 = sc\<lparr>sp_n_refresh := True, sp_ss_lno := 0,
                   sp_cur_invalid := sp_cur_invalid sc \<or> sp_lno sc = lno\<rparr>
      in if \<not> sp_tinput_info sc \<and> (sp_exwrote sc \<or> 1 < sp_totalcount sc)
         then (False, sc1\<lparr>sp_n_ex_redraw := True\<rparr>)
         else let (e, m) = sp_paint sc op lno (sp_map sc);
                  sc2 = sc1\<lparr>sp_map := m\<rparr>
              in (e, if \<not> e \<and> (op = LINE_DELETE \<or> op = LINE_INSERT)
                     then sc2\<lparr>sp_n_renumber := True\<rparr> else sc2))"

text \<open>
  \<^verbatim>\<open>vs_change\<close> after the special case: an append is an insert at the next line; the change is
  below, above or inside the map. (An empty map would be read out of bounds.)
\<close>

definition vs_place :: "nat \<Rightarrow> lnop \<Rightarrow> ed \<Rightarrow> (bool \<times> ed) option" where
  "vs_place lno1 op1 s =
     (let lno = (if op1 = LINE_APPEND then lno1 + 1 else lno1);
          op = (if op1 = LINE_APPEND then LINE_INSERT else op1);
          sc = cur s
      in if sp_map sc = [] then None
         else if last (sp_map sc) < lno then Some (False, s)
         else if lno < hd (sp_map sc) then Some (False, s\<lparr>cur := map_shift op lno sc\<rparr>)
         else let (e, sc') = map_repaint op lno sc in Some (e, s\<lparr>cur := sc'\<rparr>))"

text \<open>
  \<^verbatim>\<open>vs_change\<close>; the first line put into an empty file replaces the line the screen shows for
  it.
\<close>

definition vs_change :: "nat \<Rightarrow> lnop \<Rightarrow> ed \<Rightarrow> (bool \<times> ed) option" where
  "vs_change lno op s =
     (if op = LINE_APPEND \<and> lno = 0 \<or> op = LINE_INSERT \<and> lno = 1 then
        do {
          (ex, s1) \<leftarrow> db_exist 2 s;
          if \<not> ex then vs_place 1 LINE_RESET s1 else vs_place lno op s1
        }
      else vs_place lno op s)"

text \<open>The loop over the other screens that show the file: each is updated in place.\<close>

fun scr_walk :: "nat \<Rightarrow> lnop \<Rightarrow> scr list \<Rightarrow> ed \<Rightarrow> (bool \<times> scr list \<times> ed) option" where
  "scr_walk lno op [] s = Some (False, [], s)"
| "scr_walk lno op (tsp # ts) s =
     do {
       (e, s1) \<leftarrow> vs_change lno op (s\<lparr>cur := tsp\<rparr>);
       let s2 = s1\<lparr>cur := cur s\<rparr>;
       if e then Some (True, cur s1 # ts, s2)
       else do {
         (e2, ts', s3) \<leftarrow> scr_walk lno op ts s2;
         Some (e2, cur s1 # ts', s3)
       }
     }"

definition scr_update :: "nat \<Rightarrow> lnop \<Rightarrow> bool \<Rightarrow> ed \<Rightarrow> (bool \<times> ed) option" where
  "scr_update lno op current s =
     (if sp_ex (cur s) then Some (False, s)
      else do {
        (e, ts, s1) \<leftarrow> scr_walk lno op (others s) s;
        let s2 = s1\<lparr>others := ts\<rparr>;
        if e then Some (True, s2)
        else if current then vs_change lno op s2
        else Some (False, s2)
      })"

subsection \<open>The file is not touched\<close>

text \<open>A screen that is not taking text input, has a map, and whose lines can be redrawn.\<close>

definition screen_ok :: "scr \<Rightarrow> bool" where
  "screen_ok sc \<longleftrightarrow> \<not> sp_tinput sc \<and> sp_map sc \<noteq> [] \<and>
     (\<forall>op n m. m \<noteq> [] \<longrightarrow> \<not> fst (sp_paint sc op n m) \<and> snd (sp_paint sc op n m) \<noteq> [])"

text \<open>The fields of a screen that showing a change may write.\<close>

definition unpainted :: "scr \<Rightarrow> scr" where
  "unpainted sc = sc\<lparr>sp_map := [], sp_lno := 0, sp_n_renumber := False, sp_n_refresh := False,
                     sp_n_ex_redraw := False, sp_cur_invalid := False, sp_ss_lno := 0\<rparr>"

definition repainted :: "scr \<Rightarrow> scr \<Rightarrow> bool" where
  "repainted sc sc' \<longleftrightarrow> unpainted sc' = unpainted sc"

lemma repainted_refl [simp, intro]: "repainted sc sc"
  by (simp add: repainted_def)

lemma repainted_update [simp]:
  "repainted sc (t\<lparr>sp_map := m\<rparr>) = repainted sc t" "repainted sc (t\<lparr>sp_lno := n\<rparr>) = repainted sc t"
  "repainted sc (t\<lparr>sp_n_renumber := b\<rparr>) = repainted sc t" "repainted sc (t\<lparr>sp_n_refresh := b\<rparr>) = repainted sc t"
  "repainted sc (t\<lparr>sp_n_ex_redraw := b\<rparr>) = repainted sc t" "repainted sc (t\<lparr>sp_cur_invalid := b\<rparr>) = repainted sc t"
  "repainted sc (t\<lparr>sp_ss_lno := n\<rparr>) = repainted sc t"
  by (simp_all add: repainted_def unpainted_def)

lemma unpainted_sel:
  "sp_cno (unpainted sc) = sp_cno sc" "sp_ex (unpainted sc) = sp_ex sc" "sp_tinput (unpainted sc) = sp_tinput sc"
  "sp_tinput_info (unpainted sc) = sp_tinput_info sc" "sp_exwrote (unpainted sc) = sp_exwrote sc"
  "sp_tiq (unpainted sc) = sp_tiq sc"
  "sp_rptlchange (unpainted sc) = sp_rptlchange sc" "sp_added (unpainted sc) = sp_added sc"
  "sp_changed (unpainted sc) = sp_changed sc"
  "sp_deleted (unpainted sc) = sp_deleted sc" "sp_ccnt (unpainted sc) = sp_ccnt sc" "sp_u_ccnt (unpainted sc) = sp_u_ccnt sc"
  "sp_paint (unpainted sc) = sp_paint sc" "sp_totalcount (unpainted sc) = sp_totalcount sc"
  by (simp_all add: unpainted_def)

lemma repainted_fields:
  assumes "repainted sc sc'"
  shows "sp_cno sc' = sp_cno sc" "sp_ex sc' = sp_ex sc" "sp_tinput sc' = sp_tinput sc"
    "sp_tinput_info sc' = sp_tinput_info sc" "sp_exwrote sc' = sp_exwrote sc" "sp_tiq sc' = sp_tiq sc"
    "sp_rptlchange sc' = sp_rptlchange sc" "sp_added sc' = sp_added sc" "sp_changed sc' = sp_changed sc"
    "sp_deleted sc' = sp_deleted sc" "sp_ccnt sc' = sp_ccnt sc" "sp_u_ccnt sc' = sp_u_ccnt sc"
    "sp_paint sc' = sp_paint sc" "sp_totalcount sc' = sp_totalcount sc"
  using assms unfolding repainted_def by (metis unpainted_sel)+

lemma repainted_trans [trans]: "repainted a b \<Longrightarrow> repainted b c \<Longrightarrow> repainted a c"
  by (simp add: repainted_def)

lemma screen_ok_repainted: "screen_ok sc \<Longrightarrow> repainted sc sc' \<Longrightarrow> sp_map sc' \<noteq> [] \<Longrightarrow> screen_ok sc'"
  by (simp add: screen_ok_def repainted_fields)

lemma base_cur [simp]: "base (s\<lparr>cur := c\<rparr>) = base s" "base (s\<lparr>others := o'\<rparr>) = base s"
  by (simp_all add: base_def count_ok_def)

lemma text_cur [simp]: "text_ok (s\<lparr>cur := c\<rparr>) = text_ok s" "text_ok (s\<lparr>others := o'\<rparr>) = text_ok s"
  by (simp_all add: text_ok_def)

lemma keeps_cur:
  assumes "keeps (s\<lparr>cur := t\<rparr>) s1"
  shows "keeps (s\<lparr>cur := u\<rparr>) (s1\<lparr>cur := u\<rparr>)"
proof -
  have *: "uncached (x\<lparr>cur := c\<rparr>) = (uncached x)\<lparr>cur := c\<rparr>" for x :: ed and c by (simp add: uncached_def)
  have "uncached s1 = (uncached s)\<lparr>cur := t\<rparr>" using assms by (simp add: keeps_def reads_def *)
  then show ?thesis using assms by (simp add: keeps_def reads_def *)
qed

lemma map_shift_repainted: "repainted sc (map_shift op n sc)" "sp_map (map_shift op n sc) = [] \<longleftrightarrow> sp_map sc = []"
  by (auto simp: map_shift_def split: lnop.split)

lemma map_repaint_ok:
  assumes "screen_ok sc"
  obtains sc' where "map_repaint op n sc = (False, sc')" and "repainted sc sc'" and "sp_map sc' \<noteq> []"
proof -
  have p: "\<not> fst (sp_paint sc op n (sp_map sc))" "snd (sp_paint sc op n (sp_map sc)) \<noteq> []"
    using assms by (simp_all add: screen_ok_def)
  have m: "sp_map sc \<noteq> []" using assms by (simp add: screen_ok_def)
  show ?thesis
  proof (rule that [of "snd (map_repaint op n sc)"])
    show "map_repaint op n sc = (False, snd (map_repaint op n sc))"
      using p by (auto simp: map_repaint_def Let_def split: prod.split)
    show "repainted sc (snd (map_repaint op n sc))"
      by (auto simp: map_repaint_def Let_def split: prod.split)
    show "sp_map (snd (map_repaint op n sc)) \<noteq> []"
      using p m by (auto simp: map_repaint_def Let_def split: prod.split)
  qed
qed

lemma vs_place_spec:
  assumes ok: "screen_ok (cur s)"
  obtains c where "vs_place n op s = Some (False, s\<lparr>cur := c\<rparr>)" and "repainted (cur s) c" and "screen_ok c"
proof -
  have m: "sp_map (cur s) \<noteq> []" using ok by (simp add: screen_ok_def)
  define lno where "lno = (if op = LINE_APPEND then n + 1 else n)"
  define op1 where "op1 = (if op = LINE_APPEND then LINE_INSERT else op)"
  have e: "vs_place n op s =
      (if last (sp_map (cur s)) < lno then Some (False, s)
       else if lno < hd (sp_map (cur s)) then Some (False, s\<lparr>cur := map_shift op1 lno (cur s)\<rparr>)
       else let (e, sc') = map_repaint op1 lno (cur s) in Some (e, s\<lparr>cur := sc'\<rparr>))"
    using m by (simp only: vs_place_def lno_def op1_def Let_def if_False)
  show ?thesis
  proof (cases "last (sp_map (cur s)) < lno")
    case True
    with e have "vs_place n op s = Some (False, s\<lparr>cur := cur s\<rparr>)" by simp
    from that [OF this _ ok] show ?thesis by simp
  next
    case a: False
    show ?thesis
    proof (cases "lno < hd (sp_map (cur s))")
      case True
      with e a have "vs_place n op s = Some (False, s\<lparr>cur := map_shift op1 lno (cur s)\<rparr>)" by simp
      from that [OF this] show ?thesis
        using map_shift_repainted m screen_ok_repainted [OF ok] by blast
    next
      case False
      obtain sc' where sc: "map_repaint op1 lno (cur s) = (False, sc')" "repainted (cur s) sc'" "sp_map sc' \<noteq> []"
        using map_repaint_ok [OF ok] by blast
      with e a False have "vs_place n op s = Some (False, s\<lparr>cur := sc'\<rparr>)" by simp
      from that [OF this] show ?thesis using sc screen_ok_repainted [OF ok] by blast
    qed
  qed
qed

lemma vs_change_spec:
  assumes r: "base s" and ok: "screen_ok (cur s)"
  obtains s1 c where "vs_change n op s = Some (False, s1\<lparr>cur := c\<rparr>)" and "keeps s s1"
    and "repainted (cur s) c" and "screen_ok c"
proof -
  have t: "\<not> sp_tinput (cur s)" using ok by (simp add: screen_ok_def)
  show ?thesis
  proof (cases "op = LINE_APPEND \<and> n = 0 \<or> op = LINE_INSERT \<and> n = 1")
    case False
    then have "vs_change n op s = vs_place n op s" by (simp only: vs_change_def if_False)
    then show ?thesis using vs_place_spec [OF ok, of n op] that keeps_refl [OF r] by metis
  next
    case True
    obtain ex s1 where x: "db_exist 2 s = Some (ex, s1)" "keeps s s1"
      using db_exist_base [OF r t, of 2] by blast
    have c1: "cur s1 = cur s" using reads_fields [OF keepsD(2) [OF x(2)]] by simp
    have "vs_change n op s = (if \<not> ex then vs_place 1 LINE_RESET s1 else vs_place n op s1)"
      using True x(1) by (simp add: vs_change_def)
    moreover obtain c where "(if \<not> ex then vs_place 1 LINE_RESET s1 else vs_place n op s1) = Some (False, s1\<lparr>cur := c\<rparr>)"
      "repainted (cur s) c" "screen_ok c"
    proof (cases ex)
      case True
      have "screen_ok (cur s1)" using ok c1 by simp
      from vs_place_spec [OF this, of n op] that True c1 show ?thesis by auto
    next
      case False
      have "screen_ok (cur s1)" using ok c1 by simp
      from vs_place_spec [OF this, of 1 LINE_RESET] that False c1 show ?thesis by auto
    qed
    ultimately show ?thesis using that x(2) by metis
  qed
qed

lemma scr_walk_spec:
  assumes "base s" and "\<forall>t \<in> set ts. screen_ok t"
  shows "\<exists>ts' s1. scr_walk n op ts s = Some (False, ts', s1) \<and> keeps s s1 \<and> (\<forall>t \<in> set ts'. screen_ok t)"
  using assms
proof (induction ts arbitrary: s)
  case Nil
  then show ?case by (auto intro: keeps_refl)
next
  case (Cons t ts)
  have b: "base (s\<lparr>cur := t\<rparr>)" "screen_ok (cur (s\<lparr>cur := t\<rparr>))" using Cons.prems by simp_all
  obtain s1 c where s1: "vs_change n op (s\<lparr>cur := t\<rparr>) = Some (False, s1\<lparr>cur := c\<rparr>)"
    "keeps (s\<lparr>cur := t\<rparr>) s1" "screen_ok c"
    using vs_change_spec [OF b] by blast
  have k: "keeps s (s1\<lparr>cur := cur s\<rparr>)" using keeps_cur [OF s1(2), of "cur s"] by simp
  obtain ts' s2 where "scr_walk n op ts (s1\<lparr>cur := cur s\<rparr>) = Some (False, ts', s2)"
    "keeps (s1\<lparr>cur := cur s\<rparr>) s2" "\<forall>t \<in> set ts'. screen_ok t"
    using Cons.IH [OF keepsD(1) [OF k]] Cons.prems(2) by auto
  then show ?case using s1(1,3) keeps_trans [OF k] by auto
qed

definition screens_ok :: "ed \<Rightarrow> bool" where
  "screens_ok s \<longleftrightarrow> \<not> sp_tinput (cur s) \<and>
     (sp_ex (cur s) \<or> screen_ok (cur s) \<and> (\<forall>t \<in> set (others s). screen_ok t))"

lemma screens_tinput: "screens_ok s \<Longrightarrow> \<not> sp_tinput (cur s)"
  by (simp add: screens_ok_def)

lemma scr_update_spec:
  assumes r: "base s" and ok: "screens_ok s"
  obtains s1 c ts where "scr_update n op b s = Some (False, s1\<lparr>cur := c, others := ts\<rparr>)" and "keeps s s1"
    and "repainted (cur s) c" and "screens_ok (s1\<lparr>cur := c, others := ts\<rparr>)" and "sp_ex (cur s) \<Longrightarrow> c = cur s"
proof (cases "sp_ex (cur s)")
  case True
  then show ?thesis using that [where ?s1.0 = s and c = "cur s" and ts = "others s"] ok keeps_refl [OF r] by (simp add: scr_update_def)
next
  case False
  then have o: "screen_ok (cur s)" "\<forall>t \<in> set (others s). screen_ok t" using ok by (auto simp: screens_ok_def)
  obtain ts s1 where w: "scr_walk n op (others s) s = Some (False, ts, s1)" "keeps s s1" "\<forall>t \<in> set ts. screen_ok t"
    using scr_walk_spec [OF r o(2)] by blast
  have c1: "cur s1 = cur s" using reads_fields [OF keepsD(2) [OF w(2)]] by simp
  show ?thesis
  proof (cases b)
    case False
    have "scr_update n op b s = Some (False, s1\<lparr>cur := cur s, others := ts\<rparr>)"
      using w c1 False \<open>\<not> sp_ex (cur s)\<close> by (simp add: scr_update_def)
    from that [OF this w(2)] show ?thesis
      using w(3) o(1) \<open>\<not> sp_ex (cur s)\<close> by (simp add: screens_ok_def screen_ok_def)
  next
    case True
    have 2: "base (s1\<lparr>others := ts\<rparr>)" "screen_ok (cur (s1\<lparr>others := ts\<rparr>))"
      using keepsD(1) [OF w(2)] o(1) c1 by simp_all
    obtain s2 c where v: "vs_change n op (s1\<lparr>others := ts\<rparr>) = Some (False, s2\<lparr>cur := c\<rparr>)"
      "keeps (s1\<lparr>others := ts\<rparr>) s2" "repainted (cur (s1\<lparr>others := ts\<rparr>)) c" "screen_ok c"
      using vs_change_spec [OF 2] by blast
    have ots: "others s2 = ts" using reads_fields [OF keepsD(2) [OF v(2)]] by simp
    have "keeps s1 (s2\<lparr>others := others s1\<rparr>)"
    proof -
      have *: "uncached (x\<lparr>others := c\<rparr>) = (uncached x)\<lparr>others := c\<rparr>" for x :: ed and c by (simp add: uncached_def)
      have "uncached s2 = (uncached s1)\<lparr>others := ts\<rparr>" using v(2) by (simp add: keeps_def reads_def *)
      then show ?thesis using v(2) by (simp add: keeps_def reads_def * uncached_sel)
    qed
    then have k: "keeps s (s2\<lparr>others := others s1\<rparr>)" by (rule keeps_trans [OF w(2)])
    have e: "scr_update n op b s = Some (False, (s2\<lparr>others := others s1\<rparr>)\<lparr>cur := c, others := ts\<rparr>)"
      using w(1) v(1) True \<open>\<not> sp_ex (cur s)\<close> ots by (simp add: scr_update_def)
    show ?thesis
      by (rule that [OF e k]) (use v w(3) c1 \<open>\<not> sp_ex (cur s)\<close> in \<open>simp_all add: screens_ok_def screen_ok_def\<close>)
  qed
qed

lemma opened_screens [simp]: "screens_ok (opened ls)"
  by (simp add: screens_ok_def screen_ok_def opened_def opened_screen_def)

end
