(* ===== verification/LineEdit.thy ===== *)
theory LineEdit
  imports Marks GlobalRange Screen
begin

section \<open>Changing lines (common/line.c)\<close>

text \<open>
  \<^verbatim>\<open>db_append\<close>, \<^verbatim>\<open>db_insert\<close>, \<^verbatim>\<open>db_set\<close> and \<^verbatim>\<open>db_delete\<close> change one line of the file and
  keep everything that depends on line numbers in step: the caches, the log, the marks, the
  ranges of pending global commands, the screens.
\<close>

subsection \<open>Operations\<close>

text \<open>
  \<^verbatim>\<open>rcv_init\<close> (common/recover.c) as far as the editor's state goes: recovery is set up at the
  first modification, which reads the whole file. \<open>rcv_fails\<close> and \<open>sync_fails\<close> say whether
  the mail file can be built and the file synced.
\<close>

definition rcv_init :: "ed \<Rightarrow> (bool \<times> ed) option" where
  "rcv_init s =
     (let s1 = s\<lparr>f_firstmodify := False\<rparr>
      in if \<not> f_rcv_on s then Some (False, s1)
         else let s2 = s1\<lparr>f_rcv_on := False\<rparr>
         in if rcv_mpath s then Some (False, s2\<lparr>f_rcv_on := True\<rparr>)
         else if rcv_fails s then Some (True, s2)
         else do {
           (e, _, s3) \<leftarrow> db_last s2;
           if e \<or> sync_fails s3 then Some (True, s3) else Some (False, s3\<lparr>f_rcv_on := True\<rparr>)
         })"

text \<open>The statements that mark the file dirty.\<close>

definition file_dirty :: "ed \<Rightarrow> ed option" where
  "file_dirty s =
     do {
       (_, s1) \<leftarrow> (if f_firstmodify s then rcv_init s else Some (False, s));
       Some (s1\<lparr>f_modified := True, f_rcv_sync := True\<rparr>)
     }"

definition db_delete :: "nat \<Rightarrow> ed \<Rightarrow> (bool \<times> ed) option" where
  "db_delete lno s =
     (if \<not> has_file s then Some (True, s)
      else do {
        (e, s1) \<leftarrow> mark_insdel LINE_DELETE lno s;
        if e then Some (True, s1) else do {
        (e, s2) \<leftarrow> ex_g_insdel LINE_DELETE lno s1;
        if e then Some (True, s2) else do {
        (_, s3) \<leftarrow> log_line lno ACT_DELETE s2;
        (st, db') \<leftarrow> rec_delete RF_NONE lno (db s3);
        let s4 = s3\<lparr>db := db'\<rparr>;
        if st = RET_SPECIAL then Some (True, s4) else do {
        let s5 = s4\<lparr>c_lno := if lno \<le> c_lno s4 then 0 else c_lno s4,
                    c_nlines := if c_nlines s4 \<noteq> 0 then c_nlines s4 - 1 else 0\<rparr>;
        s6 \<leftarrow> file_dirty s5;
        scr_update lno LINE_DELETE True s6
      }}}})"

text \<open>
  The statements \<^verbatim>\<open>db_append\<close> and \<^verbatim>\<open>db_insert\<close> share after the record went into the
  database: count it, mark the file dirty, log it, move marks and ranges (both are always
  called), tell the screens.
\<close>

definition line_added :: "nat \<Rightarrow> action \<Rightarrow> nat \<Rightarrow> lnop \<Rightarrow> bool \<Rightarrow> ed \<Rightarrow> (bool \<times> ed) option" where
  "line_added new act scr_lno scr_op update s =
     do {
       s1 \<leftarrow> file_dirty (s\<lparr>c_nlines := if c_nlines s \<noteq> 0 then c_nlines s + 1 else 0\<rparr>);
       (_, s2) \<leftarrow> log_line new act s1;
       (e1, s3) \<leftarrow> mark_insdel LINE_INSERT new s2;
       (e2, s4) \<leftarrow> ex_g_insdel LINE_INSERT new s3;
       (e3, s5) \<leftarrow> scr_update scr_lno scr_op update s4;
       Some (e3 \<or> e1 \<or> e2, s5)
     }"

definition db_append :: "bool \<Rightarrow> nat \<Rightarrow> bytes \<Rightarrow> ed \<Rightarrow> (bool \<times> ed) option" where
  "db_append update lno p s =
     (if \<not> has_file s then Some (True, s)
      else do {
        (st, db') \<leftarrow> rec_put rec_vpipe [] R_IAFTER lno p (db s);
        let s1 = s\<lparr>db := db'\<rparr>;
        if st = RET_ERROR then Some (True, s1)
        else line_added (lno + 1) ACT_APPEND lno LINE_APPEND update
               (s1\<lparr>c_lno := if lno < c_lno s1 then 0 else c_lno s1\<rparr>)
      })"

definition db_insert :: "nat \<Rightarrow> bytes \<Rightarrow> ed \<Rightarrow> (bool \<times> ed) option" where
  "db_insert lno p s =
     (if \<not> has_file s then Some (True, s)
      else do {
        (st, db') \<leftarrow> rec_put rec_vpipe [] R_IBEFORE lno p (db s);
        let s1 = s\<lparr>db := db'\<rparr>;
        if st = RET_ERROR then Some (True, s1)
        else line_added lno ACT_INSERT lno LINE_INSERT True
               (s1\<lparr>c_lno := if c_lno s1 \<le> lno then 0 else c_lno s1\<rparr>)
      })"

definition db_set :: "nat \<Rightarrow> bytes \<Rightarrow> ed \<Rightarrow> (bool \<times> ed) option" where
  "db_set lno p s =
     (if \<not> has_file s then Some (True, s)
      else do {
        (_, s1) \<leftarrow> log_line lno ACT_RESET_B s;
        (st, db') \<leftarrow> rec_put rec_vpipe [] RF_NONE lno p (db s1);
        let s2 = s1\<lparr>db := db'\<rparr>;
        if st = RET_ERROR then Some (True, s2) else do {
        s3 \<leftarrow> file_dirty (s2\<lparr>c_lno := if lno = c_lno s2 then 0 else c_lno s2\<rparr>);
        (_, s4) \<leftarrow> log_line lno ACT_RESET_F s3;
        scr_update lno LINE_RESET True s4
      }})"

subsection \<open>What an edit changes\<close>

lemma range_walk_ok: "fst (range_walk True op lno rq) = False"
proof (induction "True" op lno rq rule: range_walk.induct)
  case (2 op lno start stop rs)
  then show ?case by (simp add: Let_def case_prod_unfold)
qed simp

lemma ecq_walk_ok: "fst (ecq_walk True op lno es) = False"
proof (induction es)
  case (Cons ec es)
  then show ?case using range_walk_ok [of op lno "ec_rq ec"]
    by (auto simp: Let_def split: prod.split bool.split)
qed simp

lemma ex_g_insdel_any:
  assumes "mem_ok s sizeof_range" and "op = LINE_DELETE \<or> op = LINE_INSERT"
  obtains q where "ex_g_insdel op lno s = Some (False, s\<lparr>ecq := q\<rparr>)"
proof -
  have "ex_g_insdel op lno s = Some (fst (ecq_walk True op lno (ecq s)), s\<lparr>ecq := snd (ecq_walk True op lno (ecq s))\<rparr>)"
    using assms by (auto simp: ex_g_insdel_def Let_def split: prod.split)
  then show ?thesis using that ecq_walk_ok [of op lno "ecq s"] by simp
qed

text \<open>
  The fields an edit may write: the caches, the log, the marks, the dirty and recovery flags, the
  ranges, and what a screen shows.
\<close>

definition core :: "ed \<Rightarrow> ed" where
  "core s = (unlogged s)\<lparr>marks := [], f_firstmodify := False, f_modified := False, f_rcv_sync := False,
               f_rcv_on := False, cur := unpainted (cur s), others := [], ecq := []\<rparr>"

definition edited :: "ed \<Rightarrow> ed \<Rightarrow> bool" where
  "edited s s' \<longleftrightarrow> core s' = core s \<and> (sp_ex (cur s) \<longrightarrow> cur s' = cur s)"

lemma edited_refl [simp]: "edited s s"
  by (simp add: edited_def)

lemma core_sel:
  "has_file (core s) = has_file s" "lundo (core s) = lundo s" "f_nolog (core s) = f_nolog s"
  "rcv_fails (core s) = rcv_fails s" "rcv_mpath (core s) = rcv_mpath s" "sync_fails (core s) = sync_fails s"
  "cur (core s) = unpainted (cur s)" "cutq (core s) = cutq s"
  "dcb_store (core s) = dcb_store s" "dcbp (core s) = dcbp s"
  "tmp_inuse (core s) = tmp_inuse s" "tmp_blen (core s) = tmp_blen s"
  "interrupted (core s) = interrupted s" "mem_ok (core s) = mem_ok s" "log_opens (core s) = log_opens s"
  by (simp_all add: core_def unlogged_sel)

lemma edited_fields:
  assumes "edited s s'"
  shows "has_file s' = has_file s" "lundo s' = lundo s" "f_nolog s' = f_nolog s"
    "rcv_fails s' = rcv_fails s" "rcv_mpath s' = rcv_mpath s" "sync_fails s' = sync_fails s"
    "repainted (cur s) (cur s')" "cutq s' = cutq s" "dcb_store s' = dcb_store s" "dcbp s' = dcbp s"
    "tmp_inuse s' = tmp_inuse s" "tmp_blen s' = tmp_blen s"
    "interrupted s' = interrupted s" "mem_ok s' = mem_ok s" "log_opens s' = log_opens s"
    "sp_ex (cur s) \<Longrightarrow> cur s' = cur s"
  using assms unfolding edited_def repainted_def by (metis core_sel | simp)+

lemma edited_trans [trans]:
  assumes "edited s s'" "edited s' s''"
  shows "edited s s''"
proof -
  have "sp_ex (cur s') = sp_ex (cur s)"
    using repainted_fields(2) [OF edited_fields(7) [OF assms(1)]] .
  then show ?thesis using assms by (simp add: edited_def)
qed

lemma logs_edited: "logs s s' \<Longrightarrow> edited s s'"
  by (simp add: logs_def edited_def core_def unlogged_sel) (metis unlogged_sel(12))

lemma edited_update [simp]:
  "edited s (t\<lparr>db := d\<rparr>) = edited s t" "edited s (t\<lparr>c_lno := n\<rparr>) = edited s t"
  "edited s (t\<lparr>c_nlines := n\<rparr>) = edited s t" "edited s (t\<lparr>marks := ms\<rparr>) = edited s t"
  "edited s (t\<lparr>ecq := q\<rparr>) = edited s t" "edited s (t\<lparr>f_modified := b\<rparr>) = edited s t"
  "edited s (t\<lparr>f_firstmodify := b\<rparr>) = edited s t" "edited s (t\<lparr>f_rcv_sync := b\<rparr>) = edited s t"
  "edited s (t\<lparr>f_rcv_on := b\<rparr>) = edited s t" "edited s (t\<lparr>others := ts\<rparr>) = edited s t"
  by (simp_all add: edited_def core_def unlogged_def uncached_def)

lemma edited_cur:
  assumes "edited s t" "repainted (cur t) c" "sp_ex (cur t) \<Longrightarrow> c = cur t"
  shows "edited s (t\<lparr>cur := c\<rparr>)"
proof -
  have "sp_ex (cur t) = sp_ex (cur s)"
    using repainted_fields(2) [OF edited_fields(7) [OF assms(1)]] .
  then show ?thesis using assms
    by (simp add: edited_def core_def unlogged_def uncached_def repainted_def)
qed

lemma base_flags [simp]:
  "base (s\<lparr>f_firstmodify := b\<rparr>) = base s" "base (s\<lparr>f_modified := b\<rparr>) = base s"
  "base (s\<lparr>f_rcv_sync := b\<rparr>) = base s" "base (s\<lparr>f_rcv_on := b\<rparr>) = base s"
  "base (s\<lparr>marks := ms\<rparr>) = base s" "base (s\<lparr>ecq := q\<rparr>) = base s"
  by (simp_all add: base_def count_ok_def)

lemma text_flags [simp]:
  "text_ok (s\<lparr>f_firstmodify := b\<rparr>) = text_ok s" "text_ok (s\<lparr>f_modified := b\<rparr>) = text_ok s"
  "text_ok (s\<lparr>f_rcv_sync := b\<rparr>) = text_ok s" "text_ok (s\<lparr>f_rcv_on := b\<rparr>) = text_ok s"
  "text_ok (s\<lparr>marks := ms\<rparr>) = text_ok s" "text_ok (s\<lparr>ecq := q\<rparr>) = text_ok s"
  by (simp_all add: text_ok_def)

lemma same_log_flags [simp]:
  "same_log s (t\<lparr>f_firstmodify := b\<rparr>) = same_log s t" "same_log s (t\<lparr>f_modified := b\<rparr>) = same_log s t"
  "same_log s (t\<lparr>f_rcv_sync := b\<rparr>) = same_log s t" "same_log s (t\<lparr>f_rcv_on := b\<rparr>) = same_log s t"
  "same_log s (t\<lparr>marks := ms\<rparr>) = same_log s t" "same_log s (t\<lparr>ecq := q\<rparr>) = same_log s t"
  "same_log s (t\<lparr>cur := c\<rparr>) = same_log s t" "same_log s (t\<lparr>others := ts\<rparr>) = same_log s t"
  "same_log s (t\<lparr>db := d\<rparr>) = same_log s t" "same_log s (t\<lparr>c_lno := n\<rparr>) = same_log s t"
  "same_log s (t\<lparr>c_nlines := n\<rparr>) = same_log s t"
  by (simp_all add: same_log_def)

lemma screens_flags [simp]:
  "screens_ok (s\<lparr>f_firstmodify := b\<rparr>) = screens_ok s" "screens_ok (s\<lparr>f_modified := b\<rparr>) = screens_ok s"
  "screens_ok (s\<lparr>f_rcv_sync := b\<rparr>) = screens_ok s" "screens_ok (s\<lparr>f_rcv_on := b\<rparr>) = screens_ok s"
  "screens_ok (s\<lparr>marks := ms\<rparr>) = screens_ok s" "screens_ok (s\<lparr>ecq := q\<rparr>) = screens_ok s"
  "screens_ok (s\<lparr>db := d\<rparr>) = screens_ok s" "screens_ok (s\<lparr>c_lno := n\<rparr>) = screens_ok s"
  "screens_ok (s\<lparr>c_nlines := n\<rparr>) = screens_ok s"
  by (simp_all add: screens_ok_def)

lemma logs_screens: "logs s s' \<Longrightarrow> screens_ok s' = screens_ok s"
  by (simp add: screens_ok_def logs_fields)

lemma keeps_logs: "keeps s s' \<Longrightarrow> logs s s'"
  using keepsD(2) reads_logs by blast

text \<open>What a step that reads, or flags, leaves: the \<open>quiet\<close> steps of an edit.\<close>

definition quiet :: "ed \<Rightarrow> ed \<Rightarrow> bool" where
  "quiet s s' \<longleftrightarrow> base s' \<and> lines s' = lines s \<and> edited s s' \<and> same_log s s' \<and> (text_ok s \<longrightarrow> text_ok s') \<and>
     (text_ok s \<or> text_ok s' \<or> c_lno s' = c_lno s) \<and> (screens_ok s \<longrightarrow> screens_ok s')"

lemma quiet_trans: "quiet s s' \<Longrightarrow> quiet s' s'' \<Longrightarrow> quiet s s''"
  using edited_trans [of s s' s''] same_log_trans [of s s' s''] by (auto simp: quiet_def)

lemma quiet_refl: "base s \<Longrightarrow> quiet s s"
  by (simp add: quiet_def)

lemma keeps_quiet: "keeps s s' \<Longrightarrow> quiet s s'"
  using keepsD(3) [of s s'] reads_fields(2) [of s s']
    logs_edited [of s s'] keeps_logs [of s s'] reads_same_log [of s s'] logs_screens [of s s']
  by (auto simp: quiet_def keeps_def)

lemma keeps_quiet_flags:
  assumes "keeps s s1"
  shows "quiet s (s1\<lparr>f_firstmodify := a, f_modified := b, f_rcv_sync := c, f_rcv_on := d\<rparr>)"
  using keeps_quiet [OF assms] by (simp add: quiet_def)

lemma keeps_flags_in:
  assumes "keeps (s\<lparr>f_firstmodify := a, f_rcv_on := d\<rparr>) s1"
  shows "quiet s s1" "marks s1 = marks s" "f_firstmodify s1 = a"
proof -
  have "quiet (s\<lparr>f_firstmodify := a, f_rcv_on := d\<rparr>) s1" using assms by (rule keeps_quiet)
  then show "quiet s s1"
    by (simp add: quiet_def edited_def core_def unlogged_def uncached_def same_log_def)
  note f = reads_fields [OF keepsD(2) [OF assms]]
  show "marks s1 = marks s" "f_firstmodify s1 = a" using f by simp_all
qed

lemma file_dirty_spec:
  assumes r: "base s" and t: "\<not> sp_tinput (cur s)"
  obtains s' where "file_dirty s = Some s'" and "quiet s s'" and "marks s' = marks s" and "cur s' = cur s" and "f_modified s'"
    and "\<not> f_firstmodify s'" and "f_rcv_sync s'"
proof (cases "f_firstmodify s")
  case False
  show ?thesis
    by (rule that [of "s\<lparr>f_modified := True, f_rcv_sync := True\<rparr>"])
      (use False quiet_refl [OF r] in \<open>simp_all add: file_dirty_def quiet_def\<close>)
next
  case True
  let ?s = "s\<lparr>f_firstmodify := False, f_rcv_on := False\<rparr>"
  have b: "base ?s" "\<not> sp_tinput (cur ?s)" using r t by simp_all
  obtain s1 where d: "db_last ?s = Some (False, length (lines ?s), s1)" "keeps ?s s1"
    using db_last_base [OF b] by blast
  note k = keeps_flags_in [OF d(2)]
  have c1: "cur s1 = cur s" using reads_fields [OF keepsD(2) [OF d(2)]] by simp
  obtain e s2 where i: "rcv_init s = Some (e, s2)" "quiet s s2" "marks s2 = marks s" "cur s2 = cur s" "\<not> f_firstmodify s2"
  proof -
    consider "\<not> f_rcv_on s" | "f_rcv_on s" "rcv_mpath s" | "f_rcv_on s" "\<not> rcv_mpath s" "rcv_fails s"
      | "f_rcv_on s" "\<not> rcv_mpath s" "\<not> rcv_fails s" by blast
    then show thesis
    proof cases
      case 1
      show thesis by (rule that [of False "s\<lparr>f_firstmodify := False\<rparr>"])
        (use 1 quiet_refl [OF r] in \<open>simp_all add: rcv_init_def quiet_def\<close>)
    next
      case 2
      show thesis by (rule that [of False "s\<lparr>f_firstmodify := False, f_rcv_on := True\<rparr>"])
        (use 2 quiet_refl [OF r] in \<open>simp_all add: rcv_init_def quiet_def Let_def\<close>)
    next
      case 3
      show thesis by (rule that [of True ?s])
        (use 3 quiet_refl [OF r] in \<open>simp_all add: rcv_init_def quiet_def Let_def\<close>)
    next
      case 4
      show thesis
      proof (cases "sync_fails s1")
        case True
        show thesis by (rule that [of True s1])
          (use 4 k c1 d(1) True in \<open>simp_all add: rcv_init_def Let_def\<close>)
      next
        case False
        have q: "quiet s (s1\<lparr>f_rcv_on := True\<rparr>)" using k(1) by (simp add: quiet_def)
        show thesis by (rule that [of False "s1\<lparr>f_rcv_on := True\<rparr>"])
          (use 4 k c1 q d(1) False in \<open>simp_all add: rcv_init_def Let_def\<close>)
      qed
    qed
  qed
  have q: "quiet s (s2\<lparr>f_modified := True, f_rcv_sync := True\<rparr>)" using i(2) by (simp add: quiet_def)
  show ?thesis
    by (rule that [of "s2\<lparr>f_modified := True, f_rcv_sync := True\<rparr>"])
      (use i q True in \<open>simp_all add: file_dirty_def\<close>)
qed

lemma scr_update_quiet:
  assumes r: "base s" and ok: "screens_ok s"
  obtains s' where "scr_update n op b s = Some (False, s')" and "quiet s s'" and "marks s' = marks s" and "screens_ok s'"
    and "f_modified s' = f_modified s" and "f_firstmodify s' = f_firstmodify s"
proof -
  obtain s1 c ts where u: "scr_update n op b s = Some (False, s1\<lparr>cur := c, others := ts\<rparr>)" "keeps s s1"
    "repainted (cur s) c" "screens_ok (s1\<lparr>cur := c, others := ts\<rparr>)" "sp_ex (cur s) \<Longrightarrow> c = cur s"
    using scr_update_spec [OF r ok] by blast
  note q = keeps_quiet [OF u(2)]
  note f = reads_fields [OF keepsD(2) [OF u(2)]]
  have "edited s (s1\<lparr>cur := c\<rparr>)"
    by (rule edited_cur) (use q u f in \<open>simp_all add: quiet_def\<close>)
  then have "quiet s (s1\<lparr>cur := c, others := ts\<rparr>)" using q u(4) by (simp add: quiet_def)
  then show ?thesis using that [OF u(1)] u(4) f by simp
qed

subsection \<open>The four operations\<close>

text \<open>
  \<open>changed s ls ms recs s'\<close>: from \<open>s\<close> to \<open>s'\<close> the lines became \<open>ls\<close> and the marks \<open>ms\<close>, the
  records \<open>recs\<close> were logged if anything was, and nothing outside an edit's reach was
  written.
\<close>

definition changed :: "ed \<Rightarrow> bytes list \<Rightarrow> lmark list \<Rightarrow> log_rec list \<Rightarrow> ed \<Rightarrow> bool" where
  "changed s ls ms recs s' \<longleftrightarrow> base s' \<and> lines s' = ls \<and> marks s' = ms \<and> edited s s' \<and> logged s recs s' \<and>
     screens_ok s' \<and> f_modified s' \<and> (\<not> f_nolog s \<longrightarrow> \<not> f_undo s')"

lemma quiet_logged: "quiet s s' \<Longrightarrow> log_ready s \<Longrightarrow> logged s [] s'"
  by (rule logged_same) (simp_all add: quiet_def edited_fields)

lemma quiet_text:
  "quiet s s' \<Longrightarrow> b \<or> text_ok s \<or> c_lno s \<noteq> n \<Longrightarrow> b \<or> text_ok s' \<or> c_lno s' \<noteq> n"
  by (auto simp: quiet_def)

lemma line_added_spec:
  assumes r: "base (s\<lparr>c_nlines := if c_nlines s \<noteq> 0 then c_nlines s + 1 else 0\<rparr>)" (is "base ?s")
    and l: "log_ready s" and ok: "screens_ok s"
    and n: "0 < new" "new \<le> length (lines s)" and x: "f_nolog s \<or> text_ok s \<or> c_lno s \<noteq> new"
  obtains s' where "line_added new act sl so u s = Some (False, s')"
    and "changed s (lines s) (marks_inserted (length (lines s)) new (marks s)) [line_rec act new (lines s ! (new - 1))] s'"
    and "text_ok s \<or> \<not> f_nolog s \<Longrightarrow> text_ok s'"
proof -
  note t = screens_tinput [OF ok]
  have l0: "logged s [] ?s" by (rule logged_same [OF l]) simp_all
  obtain s1 where s1: "file_dirty ?s = Some s1" "quiet ?s s1" "marks s1 = marks s" "cur s1 = cur s" "f_modified s1"
    using file_dirty_spec [OF r] t by auto
  have q1: "base s1" "lines s1 = lines s" "edited s s1" "text_ok s \<longrightarrow> text_ok s1" "screens_ok s1"
    using s1(2) ok edited_trans [of s ?s s1] by (auto simp: quiet_def text_ok_def)
  have l1: "logged s [] s1"
    using logged_trans [OF l0 quiet_logged [OF s1(2) logged_ready [OF l0]]] by simp
  have x1: "f_nolog s1 \<or> text_ok s1 \<or> c_lno s1 \<noteq> new"
  proof -
    have "f_nolog s \<or> text_ok ?s \<or> c_lno ?s \<noteq> new" using x by (simp add: text_ok_def)
    then show ?thesis using quiet_text [OF s1(2)] edited_fields(3) [OF q1(3)] by blast
  qed
  have n1: "\<not> sp_tinput (cur s1)" "new \<le> length (lines s1)" using t s1(4) n q1(2) by simp_all
  obtain s2 where s2: "log_line new act s1 = Some (False, s2)" "base s2" "logs s1 s2"
    "logged s1 [line_rec act new (lines s1 ! (new - 1))] s2" "text_ok s1 \<Longrightarrow> text_ok s2"
    "\<not> f_nolog s1 \<Longrightarrow> text_ok s2 \<and> \<not> f_undo s2"
    using log_line_any [OF q1(1) logged_ready [OF l1] n1(1) n(1) n1(2)] x1 by blast
  note f2 = logs_fields [OF s2(3)]
  have l2: "logged s [line_rec act new (lines s ! (new - 1))] s2"
    using logged_trans [OF l1 s2(4)] q1(2) by simp
  have t2: "\<not> sp_tinput (cur s2)" using n1 f2 by simp
  obtain s3 where s3: "mark_insdel LINE_INSERT new s2 =
      Some (False, s3\<lparr>marks := marks_inserted (length (lines s2)) new (marks s2)\<rparr>)" "keeps s2 s3"
    using mark_insert_base [OF s2(2) t2] by blast
  let ?ms = "marks_inserted (length (lines s)) new (marks s)"
  let ?s3 = "s3\<lparr>marks := ?ms\<rparr>"
  note k3 = keeps_quiet [OF s3(2)]
  have q3: "quiet s2 ?s3" using k3 by (simp add: quiet_def)
  have "mem_ok ?s3 sizeof_range" using k3 by (simp add: quiet_def base_def)
  then obtain q where g: "ex_g_insdel LINE_INSERT new ?s3 = Some (False, ?s3\<lparr>ecq := q\<rparr>)"
    by (rule ex_g_insdel_any [where op = LINE_INSERT and lno = new]) simp_all
  let ?s4 = "?s3\<lparr>ecq := q\<rparr>"
  have q4: "quiet s2 ?s4" using q3 by (simp add: quiet_def)
  have ok2: "screens_ok s2" using q1(5) logs_screens [OF s2(3)] by simp
  have "base ?s4" "screens_ok ?s4" using q4 ok2 by (simp_all add: quiet_def)
  then obtain s5 where s5: "scr_update sl so u ?s4 = Some (False, s5)" "quiet ?s4 s5"
    "marks s5 = marks ?s4" "screens_ok s5" "f_modified s5 = f_modified ?s4"
    by (rule scr_update_quiet)
  have q5: "quiet s2 s5" using q4 s5(2) by (rule quiet_trans)
  have fm: "f_modified s3 = f_modified s2" using reads_fields [OF keepsD(2) [OF s3(2)]] by simp
  have e5: "edited s s5"
    using edited_trans [OF edited_trans [OF q1(3) logs_edited [OF s2(3)]]] q5 by (simp add: quiet_def)
  have l5: "logged s [line_rec act new (lines s ! (new - 1))] s5"
    using logged_trans [OF l2 quiet_logged [OF q5 logged_ready [OF l2]]] by simp
  have fn: "f_nolog s1 = f_nolog s" using edited_fields(3) [OF q1(3)] .
  show ?thesis
  proof (rule that)
    show "line_added new act sl so u s = Some (False, s5)"
      using s1(1) s2(1) s3(1) g s5(1) f2(2,4) q1(2) s1(3) by (simp add: line_added_def)
    show "changed s (lines s) ?ms [line_rec act new (lines s ! (new - 1))] s5"
      using q5 e5 l5 s5(3,4,5) f2 q1(2) s1(5) s2(6) fn fm by (simp add: changed_def quiet_def same_log_def)
    show "text_ok s5" if "text_ok s \<or> \<not> f_nolog s"
      using that q1(4) s2(5,6) q5 fn by (auto simp: quiet_def)
  qed
qed

lemma db_append_spec:
  assumes r: "base s" and l: "log_ready s" and ok: "screens_ok s" and n: "n \<le> length (lines s)"
  obtains s' where "db_append u n p s = Some (False, s')"
    and "changed s (insert_at n p (lines s)) (marks_inserted (length (lines s) + 1) (n + 1) (marks s))
           [LOG_LINE_APPEND (n + 1) p] s'"
    and "text_ok s \<or> \<not> f_nolog s \<Longrightarrow> text_ok s'"
proof -
  have st: "settled (db s)" using r by (simp add: base_def)
  obtain d where d: "rec_put rec_vpipe [] R_IAFTER n p (db s) = Some (RET_SUCCESS, d)" "settled d"
    "r_recs d = insert_at n p (lines s)"
    using tree.put_after [OF st n] by blast
  let ?s = "s\<lparr>db := d, c_lno := if n < c_lno s then 0 else c_lno s\<rparr>"
  have b: "base (?s\<lparr>c_nlines := if c_nlines ?s \<noteq> 0 then c_nlines ?s + 1 else 0\<rparr>)"
    using r d(2,3) by (auto simp: base_def count_ok_def)
  have tx: "text_ok s \<longrightarrow> text_ok ?s"
    using d(3) n by (auto simp: text_ok_def nth_insert_at)
  have l0: "logged s [] ?s" by (rule logged_same [OF l]) simp_all
  have ln: "lines ?s ! (n + 1 - 1) = p" "length (lines ?s) = length (lines s) + 1"
    using d(3) n by (simp_all add: nth_insert_at)
  obtain s' where s': "line_added (n + 1) ACT_APPEND n LINE_APPEND u ?s = Some (False, s')"
    "changed ?s (lines ?s) (marks_inserted (length (lines ?s)) (n + 1) (marks ?s)) [line_rec ACT_APPEND (n + 1) (lines ?s ! (n + 1 - 1))] s'"
    "text_ok ?s \<or> \<not> f_nolog ?s \<Longrightarrow> text_ok s'"
    by (rule line_added_spec [where new = "n + 1" and act = ACT_APPEND and sl = n and so = LINE_APPEND and u = u, OF b logged_ready [OF l0]])
      (use ok n ln in auto)
  show ?thesis
  proof (rule that)
    show "db_append u n p s = Some (False, s')" using d(1) s'(1) r by (simp add: db_append_def base_def Let_def cong: if_cong split del: if_split)
    have "edited s s'" using s'(2) edited_trans [of s ?s s'] by (simp add: changed_def)
    moreover have "logged s [LOG_LINE_APPEND (n + 1) p] s'"
      using logged_trans [OF l0] s'(2) ln by (auto simp: changed_def)
    ultimately show "changed s (insert_at n p (lines s)) (marks_inserted (length (lines s) + 1) (n + 1) (marks s))
        [LOG_LINE_APPEND (n + 1) p] s'"
      using s'(2) d(3) ln by (simp add: changed_def)
    show "text_ok s'" if "text_ok s \<or> \<not> f_nolog s" using that s'(3) tx by auto
  qed
qed

lemma db_insert_spec:
  assumes r: "base s" and l: "log_ready s" and ok: "screens_ok s" and n: "0 < n" "n \<le> length (lines s) + 1"
  obtains s' where "db_insert n p s = Some (False, s')"
    and "changed s (insert_at (n - 1) p (lines s)) (marks_inserted (length (lines s) + 1) n (marks s))
           [LOG_LINE_INSERT n p] s'"
    and "text_ok s \<and> c_lno s \<le> n \<or> \<not> f_nolog s \<Longrightarrow> text_ok s'"
proof -
  have st: "settled (db s)" using r by (simp add: base_def)
  obtain d where d: "rec_put rec_vpipe [] R_IBEFORE n p (db s) = Some (RET_SUCCESS, d)" "settled d"
    "r_recs d = insert_at (n - 1) p (lines s)"
    using tree.put_before [OF st n] by blast
  let ?s = "s\<lparr>db := d, c_lno := if c_lno s \<le> n then 0 else c_lno s\<rparr>"
  have b: "base (?s\<lparr>c_nlines := if c_nlines ?s \<noteq> 0 then c_nlines ?s + 1 else 0\<rparr>)"
    using r d(2,3) by (auto simp: base_def count_ok_def)
  have l0: "logged s [] ?s" by (rule logged_same [OF l]) simp_all
  have ln: "lines ?s ! (n - 1) = p" "length (lines ?s) = length (lines s) + 1"
    using d(3) n by (simp_all add: nth_insert_at)
  obtain s' where s': "line_added n ACT_INSERT n LINE_INSERT True ?s = Some (False, s')"
    "changed ?s (lines ?s) (marks_inserted (length (lines ?s)) n (marks ?s)) [line_rec ACT_INSERT n (lines ?s ! (n - 1))] s'"
    "text_ok ?s \<or> \<not> f_nolog ?s \<Longrightarrow> text_ok s'"
    by (rule line_added_spec [where new = n and act = ACT_INSERT and sl = n and so = LINE_INSERT and u = True, OF b logged_ready [OF l0]])
      (use ok n ln in auto)
  show ?thesis
  proof (rule that)
    show "db_insert n p s = Some (False, s')" using d(1) s'(1) r by (simp add: db_insert_def base_def Let_def cong: if_cong split del: if_split)
    have "edited s s'" using s'(2) edited_trans [of s ?s s'] by (simp add: changed_def)
    moreover have "logged s [LOG_LINE_INSERT n p] s'"
      using logged_trans [OF l0] s'(2) ln by (auto simp: changed_def)
    ultimately show "changed s (insert_at (n - 1) p (lines s)) (marks_inserted (length (lines s) + 1) n (marks s))
        [LOG_LINE_INSERT n p] s'"
      using s'(2) d(3) ln by (simp add: changed_def)
    show "text_ok s'" if "text_ok s \<and> c_lno s \<le> n \<or> \<not> f_nolog s" using that s'(3) by (auto simp: text_ok_def)
  qed
qed

lemma db_delete_spec:
  assumes r: "base s" and l: "log_ready s" and ok: "screens_ok s" and n: "0 < n" "n \<le> length (lines s)"
    and x: "f_nolog s \<or> text_ok s \<or> c_lno s \<noteq> n"
  obtains s' where "db_delete n s = Some (False, s')"
    and "changed s (delete_at (n - 1) (lines s)) (map (mark_dropped n) (marks s))
           (mark_recs n (marks s) @ [LOG_LINE_DELETE n (lines s ! (n - 1))]) s'"
    and "text_ok s \<or> \<not> f_nolog s \<Longrightarrow> text_ok s'"
proof -
  have hf: "has_file s" using r by (simp add: base_def)
  obtain s1 where s1: "mark_insdel LINE_DELETE n s = Some (False, s1\<lparr>marks := map (mark_dropped n) (marks s)\<rparr>)"
    "base s1" "logs s s1" "same_cache s s1" "logged s (mark_recs n (marks s)) s1"
    using mark_delete_any [OF r l, of n] by blast
  let ?s1 = "s1\<lparr>marks := map (mark_dropped n) (marks s)\<rparr>"
  note f1 = logs_fields [OF s1(3)]
  have "mem_ok ?s1 sizeof_range" using s1(2) by (simp add: base_def)
  then obtain q where g: "ex_g_insdel LINE_DELETE n ?s1 = Some (False, ?s1\<lparr>ecq := q\<rparr>)"
    by (rule ex_g_insdel_any [where op = LINE_DELETE and lno = n]) simp_all
  let ?s2 = "?s1\<lparr>ecq := q\<rparr>"
  have l2: "logged s (mark_recs n (marks s)) ?s2"
    using logged_trans [OF s1(5) logged_same [OF logged_ready [OF s1(5)], of ?s2]] by simp
  have t2: "text_ok ?s2 = text_ok s" using same_cache_text [OF s1(4) f1(2)] by simp
  have x2: "f_nolog ?s2 \<or> text_ok ?s2 \<or> c_lno ?s2 \<noteq> n \<or> ACT_DELETE = ACT_RESET_B"
    using x s1(4) f1 t2 by (auto simp: same_cache_def)
  have b2: "base ?s2" "\<not> sp_tinput (cur ?s2)" "n \<le> length (lines ?s2)"
    using s1(2) f1 n screens_tinput [OF ok] by simp_all
  obtain s3 where s3: "log_line n ACT_DELETE ?s2 = Some (False, s3)" "base s3" "logs ?s2 s3"
    "logged ?s2 [line_rec ACT_DELETE n (lines ?s2 ! (n - 1))] s3" "text_ok ?s2 \<Longrightarrow> text_ok s3" "f_nolog ?s2 \<Longrightarrow> s3 = ?s2"
    "\<not> f_nolog ?s2 \<Longrightarrow> text_ok s3 \<and> \<not> f_undo s3"
    by (rule log_line_any [OF b2(1) logged_ready [OF l2] b2(2) n(1) b2(3) x2]) (rule that)
  note f3 = logs_fields [OF s3(3)]
  let ?recs = "mark_recs n (marks s) @ [LOG_LINE_DELETE n (lines s ! (n - 1))]"
  have l3: "logged s ?recs s3" using logged_trans [OF l2 s3(4)] f1 by simp
  have tx3: "text_ok s3" if "text_ok s \<or> \<not> f_nolog s"
  proof -
    have "text_ok ?s2 \<or> \<not> f_nolog ?s2" using that t2 f1(7) by simp
    then show ?thesis using s3(5,7) by blast
  qed
  have st: "settled (db s3)" "n \<le> length (lines s3)" using s3(2) n f1 f3 by (simp_all add: base_def)
  obtain d where d: "rec_delete RF_NONE n (db s3) = Some (RET_SUCCESS, d)" "settled d"
    "r_recs d = delete_at (n - 1) (lines s3)"
    using tree.del_ok [OF st(1) n(1) st(2)] by blast
  let ?s5 = "s3\<lparr>db := d, c_lno := if n \<le> c_lno s3 then 0 else c_lno s3,
     c_nlines := if c_nlines s3 \<noteq> 0 then c_nlines s3 - 1 else 0\<rparr>"
  have b5: "base ?s5" using s3(2) d(2,3) st(2) n by (auto simp: base_def count_ok_def)
  have tx5: "text_ok s3 \<longrightarrow> text_ok ?s5"
  proof (cases "n \<le> c_lno s3 \<or> c_lno s3 = 0")
    case False
    then have "c_lno s3 - 1 < n - 1" "c_lno s3 - 1 < length (lines s3) - 1" using st(2) by auto
    then have "lines ?s5 ! (c_lno s3 - 1) = lines s3 ! (c_lno s3 - 1)"
      using d(3) n st(2) by (simp add: nth_delete_at)
    then show ?thesis by (simp add: text_ok_def)
  qed (auto simp: text_ok_def)
  have c5: "\<not> sp_tinput (cur ?s5)" using b2(2) f3 by simp
  obtain s6 where s6: "file_dirty ?s5 = Some s6" "quiet ?s5 s6" "marks s6 = marks ?s5" "cur s6 = cur ?s5" "f_modified s6"
    using file_dirty_spec [OF b5 c5] by blast
  have ok5: "screens_ok ?s5" using ok logs_screens [OF s1(3)] logs_screens [OF s3(3)] by simp
  have "base s6" "screens_ok s6" using s6(2) ok5 by (simp_all add: quiet_def)
  then obtain s7 where s7: "scr_update n LINE_DELETE True s6 = Some (False, s7)" "quiet s6 s7"
    "marks s7 = marks s6" "screens_ok s7" "f_modified s7 = f_modified s6"
    by (rule scr_update_quiet)
  have q7: "quiet ?s5 s7" using s6(2) s7(2) by (rule quiet_trans)
  have l5: "logged s3 [] ?s5" by (rule logged_same [OF logged_ready [OF l3]]) simp_all
  have l7: "logged s ?recs s7"
    using logged_trans [OF logged_trans [OF l3 l5] quiet_logged [OF q7 logged_ready [OF l5]]] by simp
  have "edited s ?s2" using logs_edited [OF s1(3)] by simp
  then have e3: "edited s s3" using logs_edited [OF s3(3)] by (rule edited_trans)
  then have e5: "edited s ?s5" by simp
  have "edited ?s5 s7" using q7 by (simp add: quiet_def)
  with e5 have e7: "edited s s7" by (rule edited_trans)
  show ?thesis
  proof (rule that)
    show "db_delete n s = Some (False, s7)"
      using hf s1(1) g s3(1) d(1) s6(1) s7(1) by (simp add: db_delete_def Let_def cong: if_cong split del: if_split)
    show "changed s (delete_at (n - 1) (lines s)) (map (mark_dropped n) (marks s)) ?recs s7"
      using q7 e7 l7 d(3) s7(3,4,5) s6(3,5) f3 f1 s3(7) edited_fields(3) [OF e3]
      by (simp add: changed_def quiet_def same_log_def)
    show "text_ok s7" if "text_ok s \<or> \<not> f_nolog s"
      using tx3 [OF that] tx5 q7 by (simp add: quiet_def)
  qed
qed

text \<open>
  The body of \<^verbatim>\<open>db_set\<close> after the old text was logged. (Setting line 1 of an empty file
  creates it.)
\<close>

lemma db_set_rest:
  assumes b1: "base s1" and ok1: "screens_ok s1" and n: "n = 1 \<and> lines s = [] \<or> 0 < n \<and> n \<le> length (lines s)"
    and hf: "has_file s"
    and s1: "log_line n ACT_RESET_B s = Some (e, s1)" and lg: "logged s recs s1" and ed: "edited s s1"
    and ls: "lines s1 = lines s" "marks s1 = marks s" and tx: "P \<longrightarrow> text_ok s1" "\<not> f_nolog s \<longrightarrow> text_ok s1 \<or> lines s = []"
  obtains s' where "db_set n p s = Some (False, s')"
    and "changed s (if lines s = [] then [p] else (lines s)[n - 1 := p]) (marks s)
           (recs @ [LOG_LINE_RESET_F n p]) s'"
    and "P \<or> \<not> f_nolog s \<Longrightarrow> text_ok s'"
proof -
  let ?new = "if lines s = [] then [p] else (lines s)[n - 1 := p]"
  have st: "settled (db s1)" using b1 by (simp add: base_def)
  have n1: "0 < n" "n \<le> length (lines s1) + 1" using n ls by auto
  obtain d where d: "rec_put rec_vpipe [] RF_NONE n p (db s1) = Some (RET_SUCCESS, d)" "settled d"
    "r_recs d = (if n \<le> length (lines s1) then (lines s1)[n - 1 := p] else lines s1 @ [p])"
    using tree.put_set [OF st n1] by blast
  have new: "r_recs d = ?new" using d(3) n ls by auto
  have len: "n \<le> length ?new" "?new ! (n - 1) = p" "length (lines s) \<le> length ?new"
    "c_nlines s1 \<noteq> 0 \<longrightarrow> length ?new = length (lines s)"
    using n b1 ls by (auto simp: base_def count_ok_def)
  let ?s2 = "s1\<lparr>db := d, c_lno := if n = c_lno s1 then 0 else c_lno s1\<rparr>"
  have b2: "base ?s2" using b1 d(2) new len ls by (auto simp: base_def count_ok_def)
  have t2: "text_ok s1 \<or> lines s = [] \<longrightarrow> text_ok ?s2"
    using new n ls b1 by (auto simp: text_ok_def base_def count_ok_def nth_list_update)
  have c2: "\<not> sp_tinput (cur ?s2)" using screens_tinput [OF ok1] by simp
  obtain s3 where s3: "file_dirty ?s2 = Some s3" "quiet ?s2 s3" "marks s3 = marks ?s2" "cur s3 = cur ?s2" "f_modified s3"
    using file_dirty_spec [OF b2 c2] by blast
  have l2: "logged s1 [] ?s2" by (rule logged_same [OF logged_ready [OF lg]]) simp_all
  have l3: "logged s recs s3"
    using logged_trans [OF logged_trans [OF lg l2] quiet_logged [OF s3(2) logged_ready [OF l2]]] by simp
  have fn: "f_nolog s3 = f_nolog s" using l3 by (simp add: logged_def)
  have q3: "base s3" "lines s3 = ?new" "edited ?s2 s3" "text_ok ?s2 \<longrightarrow> text_ok s3" "screens_ok s3"
    using s3(2) ok1 new by (simp_all add: quiet_def)
  have x3: "f_nolog s3 \<or> text_ok s3 \<or> c_lno s3 \<noteq> n \<or> ACT_RESET_F = ACT_RESET_B"
    using tx(2) t2 q3(4) fn by blast
  have c3: "\<not> sp_tinput (cur s3)" "n \<le> length (lines s3)" using c2 s3(4) len q3(2) by simp_all
  obtain s4 where s4: "log_line n ACT_RESET_F s3 = Some (False, s4)" "base s4" "logs s3 s4"
    "logged s3 [line_rec ACT_RESET_F n (lines s3 ! (n - 1))] s4" "text_ok s3 \<Longrightarrow> text_ok s4"
    "f_nolog s3 \<Longrightarrow> s4 = s3" "\<not> f_nolog s3 \<Longrightarrow> text_ok s4 \<and> \<not> f_undo s4"
    by (rule log_line_any [OF q3(1) logged_ready [OF l3] c3(1) n1(1) c3(2) x3]) (rule that)
  note f4 = logs_fields [OF s4(3)]
  have ok4: "screens_ok s4" using q3(5) logs_screens [OF s4(3)] by simp
  obtain s5 where s5: "scr_update n LINE_RESET True s4 = Some (False, s5)" "quiet s4 s5"
    "marks s5 = marks s4" "screens_ok s5" "f_modified s5 = f_modified s4"
    using scr_update_quiet [OF s4(2) ok4] by blast
  have l4: "logged s (recs @ [LOG_LINE_RESET_F n p]) s4" using logged_trans [OF l3 s4(4)] q3(2) len by simp
  have l5: "logged s (recs @ [LOG_LINE_RESET_F n p]) s5"
    using logged_trans [OF l4 quiet_logged [OF s5(2) logged_ready [OF l4]]] by simp
  have "edited s ?s2" using ed by simp
  then have "edited s s3" using q3(3) by (rule edited_trans)
  then have "edited s s4" using logs_edited [OF s4(3)] by (rule edited_trans)
  then have e5: "edited s s5" using s5(2) by (auto simp: quiet_def intro: edited_trans)
  show ?thesis
  proof (rule that)
    show "db_set n p s = Some (False, s5)"
      using hf s1 d(1) s3(1) s4(1) s5(1) by (simp add: db_set_def Let_def cong: if_cong split del: if_split)
    show "changed s ?new (marks s) (recs @ [LOG_LINE_RESET_F n p]) s5"
      using s5 e5 l5 q3(2) f4 s3(3,5) ls s4(7) fn by (simp add: changed_def quiet_def same_log_def)
    show "text_ok s5" if "P \<or> \<not> f_nolog s"
      using that tx t2 q3(4) s4(5) s5(2) by (auto simp: quiet_def)
  qed
qed

lemma db_set_spec:
  assumes r: "base s" and l: "log_ready s" and ok: "screens_ok s" and n: "0 < n" "n \<le> length (lines s)"
  obtains s' where "db_set n p s = Some (False, s')"
    and "changed s ((lines s)[n - 1 := p]) (marks s)
           [LOG_LINE_RESET_B n (lines s ! (n - 1)), LOG_LINE_RESET_F n p] s'"
    and "text_ok s \<or> \<not> f_nolog s \<Longrightarrow> text_ok s'"
proof -
  have t: "\<not> sp_tinput (cur s)" "has_file s" "lines s \<noteq> []"
    using screens_tinput [OF ok] r n by (auto simp: base_def)
  obtain s1 where s1: "log_line n ACT_RESET_B s = Some (False, s1)" "base s1" "logs s s1"
    "logged s [line_rec ACT_RESET_B n (lines s ! (n - 1))] s1" "text_ok s \<Longrightarrow> text_ok s1"
    "f_nolog s \<Longrightarrow> s1 = s" "\<not> f_nolog s \<Longrightarrow> text_ok s1 \<and> \<not> f_undo s1"
    using log_line_any [OF r l t(1) n, of ACT_RESET_B] by blast
  note f1 = logs_fields [OF s1(3)]
  have ok1: "screens_ok s1" using ok logs_screens [OF s1(3)] by simp
  obtain s' where s': "db_set n p s = Some (False, s')"
    "changed s (if lines s = [] then [p] else (lines s)[n - 1 := p]) (marks s)
       ([line_rec ACT_RESET_B n (lines s ! (n - 1))] @ [LOG_LINE_RESET_F n p]) s'"
    "text_ok s \<or> \<not> f_nolog s \<Longrightarrow> text_ok s'"
    by (rule db_set_rest [where P = "text_ok s" and p = p, OF s1(2) ok1 _ t(2) s1(1,4) logs_edited [OF s1(3)]])
      (use n s1(5,7) f1(2,4) in \<open>blast | rule that; assumption\<close>)+
  then show ?thesis using that t(3) by simp
qed

lemma db_set_first:
  assumes r: "base s" and l: "log_ready s" and ok: "screens_ok s" and n: "lines s = []"
  obtains s' where "db_set 1 p s = Some (False, s')"
    and "changed s [p] (marks s) [LOG_LINE_RESET_B 1 [], LOG_LINE_RESET_F 1 p] s'"
    and "text_ok s \<or> \<not> f_nolog s \<Longrightarrow> text_ok s'"
proof -
  have t: "\<not> sp_tinput (cur s)" "has_file s"
    using screens_tinput [OF ok] r by (auto simp: base_def)
  have tx: "text_ok s" using r n by (simp add: base_def count_ok_def text_ok_def)
  obtain s1 where s1: "log_line 1 ACT_RESET_B s = Some (False, s1)" "base s1" "logs s s1"
    "logged s [LOG_LINE_RESET_B 1 []] s1"
  proof (cases "f_nolog s")
    case True
    then show ?thesis using that [of s] r by (simp add: log_line_def logged_def)
  next
    case False
    then have rec: "recording s" using l by (simp add: log_ready_def)
    obtain s1 where s1: "log_line 1 ACT_RESET_B s = Some (False, s1)" "base s1" "recording s1" "logs s s1"
      "hist s1 = hist s @ pend s @ [LOG_LINE_RESET_B 1 []]" "m_lno (l_cursor s1) = 0" "\<not> f_undo s1"
      using log_line_first [OF r rec t(1) n] by blast
    then show ?thesis using that [of s1] False logs_fields(7) [OF s1(4)]
      by (simp add: logged_def hp_def pend_zero)
  qed
  note f1 = logs_fields [OF s1(3)]
  have ok1: "screens_ok s1" using ok logs_screens [OF s1(3)] by simp
  have tx1: "text_ok s1" using s1(2) n f1 by (simp add: base_def count_ok_def text_ok_def)
  show ?thesis
    by (rule db_set_rest [where P = True and p = p, OF s1(2) ok1 _ t(2) s1(1,4) logs_edited [OF s1(3)]])
      (use t that f1 n tx1 in auto)
qed

subsection \<open>The operations as their callers see them\<close>

text \<open>Reading any line gives the file's line.\<close>

definition reads_back :: "bytes list \<Rightarrow> ed \<Rightarrow> bool" where
  "reads_back ls s \<longleftrightarrow> (\<forall>k. 0 < k \<and> k \<le> length ls \<longrightarrow> (\<exists>s'. db_get k False s = Some (False, ls ! (k - 1), s')))"

lemma changed_reads_back: "changed s ls ms recs s' \<Longrightarrow> text_ok s' \<Longrightarrow> reads_back ls s'"
proof -
  assume c: "changed s ls ms recs s'" and t: "text_ok s'"
  have "ready s'" "lines s' = ls" "\<not> sp_tinput (cur s')"
    using c t by (simp_all add: changed_def ready_def screens_tinput)
  then show ?thesis unfolding reads_back_def using db_get_line [of s' _ False] by blast
qed

text \<open>
  C8: \<open>db_append\<close> inserts the line after the given one: the lines, the marks and the log change accordingly,
  the file is marked modified, and every later read, through the caches, sees the new file.
\<close>

theorem db_append_effect:
  assumes "base s" "log_ready s" "screens_ok s" "text_ok s" "n \<le> length (lines s)"
  shows "\<exists>s'. db_append u n p s = Some (False, s') \<and> reads_back (insert_at n p (lines s)) s' \<and>
    changed s (insert_at n p (lines s)) (marks_inserted (length (lines s) + 1) (n + 1) (marks s))
      [LOG_LINE_APPEND (n + 1) p] s'"
  using db_append_spec [OF assms(1-3,5)] changed_reads_back assms(4) by metis

theorem db_append_effect_witness:
  "\<exists>s'. db_append True 1 ''x'' (opened [''a'', ''b'']) = Some (False, s') \<and> lines s' = [''a'', ''x'', ''b'']"
  using db_append_effect [of "opened [''a'', ''b'']" 1 True "''x''"] by (auto simp: log_ready_def changed_def insert_at_def)

text \<open>
  \<open>db_insert\<close> inserts the line before the given one, and later reads see it, provided the cached line does
  not lie beyond it or logging is on (logging the new line refills the cache).
\<close>

theorem db_insert_effect:
  assumes "base s" "log_ready s" "screens_ok s" "0 < n" "n \<le> length (lines s) + 1"
    and "text_ok s \<and> c_lno s \<le> n \<or> \<not> f_nolog s"
  shows "\<exists>s'. db_insert n p s = Some (False, s') \<and> reads_back (insert_at (n - 1) p (lines s)) s' \<and>
    changed s (insert_at (n - 1) p (lines s)) (marks_inserted (length (lines s) + 1) n (marks s))
      [LOG_LINE_INSERT n p] s'"
  using db_insert_spec [OF assms(1-5)] changed_reads_back assms(6) by metis

theorem db_insert_effect_witness:
  "\<exists>s'. db_insert 2 ''x'' (opened [''a'', ''b'']) = Some (False, s') \<and> lines s' = [''a'', ''x'', ''b'']"
  using db_insert_effect [of "opened [''a'', ''b'']" 2 "''x''"] by (auto simp: log_ready_def changed_def insert_at_def)

text \<open>
  \<open>db_set\<close> replaces the line, logs it before and after, and later reads see the new text; setting line 1 of an empty file
  makes it the file.
\<close>

theorem db_set_effect:
  assumes "base s" "log_ready s" "screens_ok s" "text_ok s"
    and "0 < n" "n \<le> length (lines s) \<or> n = 1"
    and "ls = (if lines s = [] then [p] else (lines s)[n - 1 := p])"
  shows "\<exists>s'. db_set n p s = Some (False, s') \<and> reads_back ls s' \<and>
    changed s ls (marks s) [LOG_LINE_RESET_B n (if lines s = [] then [] else lines s ! (n - 1)), LOG_LINE_RESET_F n p] s'"
proof (cases "lines s = []")
  case True
  obtain s' where "db_set 1 p s = Some (False, s')"
    "changed s [p] (marks s) [LOG_LINE_RESET_B 1 [], LOG_LINE_RESET_F 1 p] s'" "text_ok s \<or> \<not> f_nolog s \<Longrightarrow> text_ok s'"
    by (rule db_set_first [OF assms(1-3) True, of p]) (rule that)
  moreover have "n = 1" using assms(5,6) True by auto
  ultimately show ?thesis using changed_reads_back [of s "[p]" _ _ s'] assms(4,7) True by auto
next
  case False
  then have n: "n \<le> length (lines s)" using assms(5,6) by (cases "lines s") auto
  obtain s' where "db_set n p s = Some (False, s')"
    "changed s ((lines s)[n - 1 := p]) (marks s) [LOG_LINE_RESET_B n (lines s ! (n - 1)), LOG_LINE_RESET_F n p] s'"
    "text_ok s \<or> \<not> f_nolog s \<Longrightarrow> text_ok s'"
    by (rule db_set_spec [OF assms(1-3,5) n, of p]) (rule that)
  then show ?thesis using changed_reads_back [of s "(lines s)[n - 1 := p]" _ _ s'] assms(4,7) False by auto
qed

theorem db_set_effect_witness:
  "\<exists>s'. db_set 2 ''x'' (opened [''a'', ''b'']) = Some (False, s') \<and> lines s' = [''a'', ''x'']"
  using db_set_effect [of "opened [''a'', ''b'']" 2 _ "''x''"] by (auto simp: log_ready_def changed_def)

text \<open>
  \<open>db_delete\<close> removes the line, logs it after the marks that were on it, and later reads see the shorter file.
\<close>

theorem db_delete_effect:
  assumes "base s" "log_ready s" "screens_ok s" "text_ok s" "0 < n" "n \<le> length (lines s)"
  shows "\<exists>s'. db_delete n s = Some (False, s') \<and> reads_back (delete_at (n - 1) (lines s)) s' \<and>
    changed s (delete_at (n - 1) (lines s)) (map (mark_dropped n) (marks s))
      (mark_recs n (marks s) @ [LOG_LINE_DELETE n (lines s ! (n - 1))]) s'"
  using db_delete_spec [OF assms(1-3,5,6)] changed_reads_back assms(4) by metis

theorem db_delete_effect_witness:
  "\<exists>s'. db_delete 1 (opened [''a'', ''b'']) = Some (False, s') \<and> lines s' = [''b'']"
  using db_delete_effect [of "opened [''a'', ''b'']" 1] by (auto simp: log_ready_def changed_def delete_at_def)

text \<open>
  With logging off, as during an undo, \<open>db_insert\<close> leaves the text of a cached line beyond the new one in the cache: the
  next read of that line number gets the line that used to have it.
\<close>

theorem db_insert_stale_cache:
  "map_option (\<lambda>(e, s). (e, lines s, map_option (\<lambda>(e, l, s). (e, l)) (db_get 3 False s)))
     (db_insert 1 ''x'' ((opened [''a'', ''b'', ''c''])\<lparr>f_nolog := True, c_lno := 3, c_lp := ''c'', c_nlines := 3\<rparr>))
   = Some (False, [''x'', ''a'', ''b'', ''c''], Some (False, ''c''))"
  by code_simp

text \<open>
  \<open>db_delete\<close> takes a failing tree for success: when the page of the line cannot be read it reports no error, the line is
  still there, and the cached count of lines is one too small.
\<close>

theorem db_delete_error_ignored:
  "map_option (\<lambda>(e, s). (e, lines s, c_nlines s))
     (db_delete 1 ((opened [''a'', ''b''])\<lparr>f_nolog := True, c_nlines := 2, db := (db (opened [''a'', ''b'']))\<lparr>r_io := False\<rparr>\<rparr>))
   = Some (False, [''a'', ''b''], 1)"
  by code_simp

end
