(* ===== verification/LogReplay.thy ===== *)
theory LogReplay
  imports LineEdit
begin

section \<open>Replaying the log (common/log.c)\<close>

text \<open>
  \<^verbatim>\<open>log_backward\<close> undoes one event, \<^verbatim>\<open>log_forward\<close> redoes one, \<^verbatim>\<open>log_setline\<close> restores the
  current line. Each turns logging off, walks the log one record at a time with \<open>l_cur\<close>, and
  changes lines through the ordinary operations.

  The lemmas describe an event as a list of edits, each with an inverse. They show that the records an
  event leaves in the log are those of its edits, that \<^verbatim>\<open>log_backward\<close> applies the inverses
  in reverse order and \<^verbatim>\<open>log_forward\<close> the edits in order, and hence that the two walk
  back and forth through the states the file went through.
\<close>

subsection \<open>Operations\<close>

text \<open>Fetching the record at \<open>l_cur\<close>; \<open>None\<close> in the result for a failed \<^verbatim>\<open>get\<close>.\<close>

definition log_get :: "ed \<Rightarrow> (log_rec option \<times> ed) option" where
  "log_get s =
     do {
       (st, d, log') \<leftarrow> rec_get irec_null (l_cur s) (elog s);
       Some (if st = RET_SUCCESS then d else None, s\<lparr>elog := log'\<rparr>)
     }"

text \<open>The counters of reported changes.\<close>

definition rpt_deleted :: "ed \<Rightarrow> ed" where
  "rpt_deleted = upd_cur (\<lambda>c. c\<lparr>sp_deleted := sp_deleted c + 1\<rparr>)"

definition rpt_added :: "ed \<Rightarrow> ed" where
  "rpt_added = upd_cur (\<lambda>c. c\<lparr>sp_added := sp_added c + 1\<rparr>)"

definition rpt_changed :: "nat \<Rightarrow> ed \<Rightarrow> ed" where
  "rpt_changed lno =
     upd_cur (\<lambda>c. if sp_rptlchange c \<noteq> lno
                  then c\<lparr>sp_rptlchange := lno, sp_changed := sp_changed c + 1\<rparr> else c)"

text \<open>
  One arm of the \<^verbatim>\<open>switch\<close>: do \<open>m\<close>, give up when it fails, else count the change with \<open>f\<close>.
\<close>

definition counted :: "(bool \<times> ed) option \<Rightarrow> (ed \<Rightarrow> ed) \<Rightarrow> (bool \<times> ed) option" where
  "counted m f = do { (e, s) \<leftarrow> m; Some (e, if e then s else f s) }"

text \<open>The effect of a record in \<^verbatim>\<open>log_backward\<close>; an unknown type aborts.\<close>

definition undo_rec :: "log_rec \<Rightarrow> ed \<Rightarrow> (bool \<times> ed) option" where
  "undo_rec r s =
     (case r of
        LOG_NOTYPE \<Rightarrow> None
      | LOG_CURSOR_INIT m \<Rightarrow> Some (False, s)
      | LOG_CURSOR_END m \<Rightarrow> Some (False, s)
      | LOG_LINE_APPEND lno l \<Rightarrow> counted (db_delete lno s) rpt_deleted
      | LOG_LINE_INSERT lno l \<Rightarrow> counted (db_delete lno s) rpt_deleted
      | LOG_LINE_DELETE lno l \<Rightarrow> counted (db_insert lno l s) rpt_added
      | LOG_LINE_RESET_F lno l \<Rightarrow> Some (False, s)
      | LOG_LINE_RESET_B lno l \<Rightarrow> counted (db_set lno l s) (rpt_changed lno)
      | LOG_MARK lm \<Rightarrow> mark_set (lm_name lm) \<lparr>m_lno = lm_lno lm, m_cno = lm_cno lm\<rparr> False s)"

text \<open>The records that set \<^verbatim>\<open>didop\<close> going backward.\<close>

fun undo_op :: "log_rec \<Rightarrow> bool" where
  "undo_op (LOG_LINE_APPEND n l) = True"
| "undo_op (LOG_LINE_INSERT n l) = True"
| "undo_op (LOG_LINE_DELETE n l) = True"
| "undo_op (LOG_LINE_RESET_B n l) = True"
| "undo_op (LOG_MARK lm) = True"
| "undo_op _ = False"

text \<open>
  The loop of \<^verbatim>\<open>log_backward\<close>. The first argument bounds the number of rounds; each round
  moves \<open>l_cur\<close> down and record 0 does not exist, so \<open>l_cur\<close> rounds are enough. A failed
  read restarts the log and returns at once, with logging still turned off (\<^verbatim>\<open>LOG_ERR\<close>).
\<close>

fun backward_loop :: "nat \<Rightarrow> bool \<Rightarrow> mark \<Rightarrow> ed \<Rightarrow> (bool \<times> mark \<times> ed) option" where
  "backward_loop 0 didop rp s = None"
| "backward_loop (Suc k) didop rp s =
     do {
       (d, s1) \<leftarrow> log_get (s\<lparr>l_cur := l_cur s - 1\<rparr>);
       (case d of
          None \<Rightarrow> Some (True, rp, log_err s1)
        | Some r \<Rightarrow>
            (case (r, didop) of
               (LOG_CURSOR_INIT m, True) \<Rightarrow> Some (False, m, s1\<lparr>f_nolog := False\<rparr>)
             | _ \<Rightarrow> do {
                 (e, s2) \<leftarrow> undo_rec r s1;
                 if e then Some (True, rp, s2\<lparr>f_nolog := False\<rparr>)
                 else backward_loop k (didop \<or> undo_op r) rp s2
               }))
     }"

definition log_backward :: "mark \<Rightarrow> ed \<Rightarrow> (bool \<times> mark \<times> ed) option" where
  "log_backward rp s =
     (if f_nolog s then Some (True, rp, s)
      else if l_cur s = 1 then Some (True, rp, s)
      else backward_loop (l_cur s + 1) False rp (s\<lparr>f_nolog := True\<rparr>))"

text \<open>The effect of a record in \<^verbatim>\<open>log_forward\<close>.\<close>

definition redo_rec :: "log_rec \<Rightarrow> ed \<Rightarrow> (bool \<times> ed) option" where
  "redo_rec r s =
     (case r of
        LOG_NOTYPE \<Rightarrow> None
      | LOG_CURSOR_INIT m \<Rightarrow> Some (False, s)
      | LOG_CURSOR_END m \<Rightarrow> Some (False, s)
      | LOG_LINE_APPEND lno l \<Rightarrow> counted (db_insert lno l s) rpt_added
      | LOG_LINE_INSERT lno l \<Rightarrow> counted (db_insert lno l s) rpt_added
      | LOG_LINE_DELETE lno l \<Rightarrow> counted (db_delete lno s) rpt_deleted
      | LOG_LINE_RESET_B lno l \<Rightarrow> Some (False, s)
      | LOG_LINE_RESET_F lno l \<Rightarrow> counted (db_set lno l s) (rpt_changed lno)
      | LOG_MARK lm \<Rightarrow> mark_set (lm_name lm) \<lparr>m_lno = lm_lno lm, m_cno = lm_cno lm\<rparr> False s)"

fun redo_op :: "log_rec \<Rightarrow> bool" where
  "redo_op (LOG_LINE_APPEND n l) = True"
| "redo_op (LOG_LINE_INSERT n l) = True"
| "redo_op (LOG_LINE_DELETE n l) = True"
| "redo_op (LOG_LINE_RESET_F n l) = True"
| "redo_op (LOG_MARK lm) = True"
| "redo_op _ = False"

text \<open>The loop of \<^verbatim>\<open>log_forward\<close>: \<open>l_cur\<close> moves up, and no record lies beyond the last.\<close>

fun forward_loop :: "nat \<Rightarrow> bool \<Rightarrow> mark \<Rightarrow> ed \<Rightarrow> (bool \<times> mark \<times> ed) option" where
  "forward_loop 0 didop rp s = None"
| "forward_loop (Suc k) didop rp s =
     do {
       (d, s1) \<leftarrow> log_get (s\<lparr>l_cur := l_cur s + 1\<rparr>);
       (case d of
          None \<Rightarrow> Some (True, rp, log_err s1)
        | Some r \<Rightarrow>
            (case (r, didop) of
               (LOG_CURSOR_END m, True) \<Rightarrow> Some (False, m, s1\<lparr>l_cur := l_cur s1 + 1, f_nolog := False\<rparr>)
             | _ \<Rightarrow> do {
                 (e, s2) \<leftarrow> redo_rec r s1;
                 if e then Some (True, rp, s2\<lparr>f_nolog := False\<rparr>)
                 else forward_loop k (didop \<or> redo_op r) rp s2
               }))
     }"

definition log_forward :: "mark \<Rightarrow> ed \<Rightarrow> (bool \<times> mark \<times> ed) option" where
  "log_forward rp s =
     (if f_nolog s then Some (True, rp, s)
      else if l_cur s = l_high s then Some (True, rp, s)
      else forward_loop (nrecs (elog s) + 2) False rp (s\<lparr>f_nolog := True\<rparr>))"

text \<open>
  \<^verbatim>\<open>log_setline\<close>: back through the log for as long as its cursor records name the current
  line.
\<close>

fun setline_loop :: "nat \<Rightarrow> ed \<Rightarrow> (bool \<times> ed) option" where
  "setline_loop 0 s = None"
| "setline_loop (Suc k) s =
     do {
       (d, s1) \<leftarrow> log_get (s\<lparr>l_cur := l_cur s - 1\<rparr>);
       (case d of
          None \<Rightarrow> Some (True, log_err s1)
        | Some LOG_NOTYPE \<Rightarrow> None
        | Some (LOG_CURSOR_INIT m) \<Rightarrow>
            if m_lno m \<noteq> sp_lno (cur s1) \<or> l_cur s1 = 1 then Some (False, s1\<lparr>f_nolog := False\<rparr>)
            else setline_loop k s1
        | Some (LOG_CURSOR_END m) \<Rightarrow>
            if m_lno m \<noteq> sp_lno (cur s1)
            then Some (False, s1\<lparr>l_cur := l_cur s1 + 1, f_nolog := False\<rparr>)
            else setline_loop k s1
        | Some (LOG_LINE_RESET_B lno l) \<Rightarrow>
            do {
              (e, s2) \<leftarrow> (if lno = sp_lno (cur s1) then db_set lno l s1 else Some (False, s1));
              if e then Some (True, s2\<lparr>f_nolog := False\<rparr>)
              else setline_loop k (rpt_changed lno s2)
            }
        | Some (LOG_MARK lm) \<Rightarrow>
            do {
              (e, s2) \<leftarrow> mark_set (lm_name lm) \<lparr>m_lno = lm_lno lm, m_cno = lm_cno lm\<rparr> False s1;
              if e then Some (True, s2\<lparr>f_nolog := False\<rparr>) else setline_loop k s2
            }
        | Some _ \<Rightarrow> setline_loop k s1)
     }"

definition log_setline :: "ed \<Rightarrow> (bool \<times> ed) option" where
  "log_setline s =
     (if f_nolog s then Some (True, s)
      else if l_cur s = 1 then Some (True, s)
      else setline_loop (l_cur s + 1) (s\<lparr>f_nolog := True\<rparr>))"

subsection \<open>Edits that can be taken back\<close>

locale undoable =
  fixes ok :: "'e \<Rightarrow> 'x \<Rightarrow> bool" and doit :: "'e \<Rightarrow> 'x \<Rightarrow> 'x" and undoit :: "'e \<Rightarrow> 'x \<Rightarrow> 'x"
  assumes undo_do: "ok e x \<Longrightarrow> undoit e (doit e x) = x"
begin

fun oks :: "'e list \<Rightarrow> 'x \<Rightarrow> bool" where
  "oks [] x = True"
| "oks (e # es) x = (ok e x \<and> oks es (doit e x))"

definition dos :: "'e list \<Rightarrow> 'x \<Rightarrow> 'x" where
  "dos es x = fold doit es x"

definition undos :: "'e list \<Rightarrow> 'x \<Rightarrow> 'x" where
  "undos es x = foldr undoit es x"

lemma dos_simps [simp]: "dos [] x = x" "dos (e # es) x = dos es (doit e x)" "dos (es @ fs) x = dos fs (dos es x)"
  by (simp_all add: dos_def)

lemma undos_simps [simp]: "undos [] x = x" "undos (e # es) x = undoit e (undos es x)" "undos (es @ fs) x = undos es (undos fs x)"
  by (simp_all add: undos_def)

lemma oks_append [simp]: "oks (es @ fs) x = (oks es x \<and> oks fs (dos es x))"
  by (induction es arbitrary: x) auto

lemma undos_dos: "oks es x \<Longrightarrow> undos es (dos es x) = x"
  by (induction es arbitrary: x) (simp_all add: undo_do)

lemma dos_again: "oks es x \<Longrightarrow> dos es (undos es (dos es x)) = dos es x"
  by (simp add: undos_dos)

end

text \<open>
  What one of the four operations does to the lines: add a line (by \<^verbatim>\<open>db_append\<close> or by
  \<^verbatim>\<open>db_insert\<close>), delete one (with the marks that were on it), set one.
\<close>

datatype edit =
    E_ADD bool nat bytes
  | E_DEL "lmark list" nat bytes
  | E_SET nat bytes bytes

fun edit_ok :: "edit \<Rightarrow> bytes list \<Rightarrow> bool" where
  "edit_ok (E_ADD a n l) ls = (0 < n \<and> n \<le> length ls + 1)"
| "edit_ok (E_DEL ms n l) ls = (0 < n \<and> n \<le> length ls \<and> ls ! (n - 1) = l)"
| "edit_ok (E_SET n old new) ls = (0 < n \<and> n \<le> length ls \<and> ls ! (n - 1) = old)"

fun edit_do :: "edit \<Rightarrow> bytes list \<Rightarrow> bytes list" where
  "edit_do (E_ADD a n l) ls = insert_at (n - 1) l ls"
| "edit_do (E_DEL ms n l) ls = delete_at (n - 1) ls"
| "edit_do (E_SET n old new) ls = ls[n - 1 := new]"

fun edit_undo :: "edit \<Rightarrow> bytes list \<Rightarrow> bytes list" where
  "edit_undo (E_ADD a n l) ls = delete_at (n - 1) ls"
| "edit_undo (E_DEL ms n l) ls = insert_at (n - 1) l ls"
| "edit_undo (E_SET n old new) ls = ls[n - 1 := old]"

text \<open>The records an edit leaves in the log.\<close>

fun edit_recs :: "edit \<Rightarrow> log_rec list" where
  "edit_recs (E_ADD a n l) = [if a then LOG_LINE_APPEND n l else LOG_LINE_INSERT n l]"
| "edit_recs (E_DEL ms n l) = map LOG_MARK ms @ [LOG_LINE_DELETE n l]"
| "edit_recs (E_SET n old new) = [LOG_LINE_RESET_B n old, LOG_LINE_RESET_F n new]"

interpretation ev: undoable edit_ok edit_do edit_undo
proof
  fix e :: edit and x
  assume "edit_ok e x"
  then show "edit_undo e (edit_do e x) = x"
    by (cases e) (auto simp: delete_insert_at insert_delete_at)
qed

subsection \<open>What a record does to the lines\<close>

fun undo_lines :: "log_rec \<Rightarrow> bytes list \<Rightarrow> bytes list option" where
  "undo_lines (LOG_LINE_APPEND n l) ls = (if 0 < n \<and> n \<le> length ls then Some (delete_at (n - 1) ls) else None)"
| "undo_lines (LOG_LINE_INSERT n l) ls = (if 0 < n \<and> n \<le> length ls then Some (delete_at (n - 1) ls) else None)"
| "undo_lines (LOG_LINE_DELETE n l) ls = (if 0 < n \<and> n \<le> length ls + 1 then Some (insert_at (n - 1) l ls) else None)"
| "undo_lines (LOG_LINE_RESET_B n l) ls = (if 0 < n \<and> n \<le> length ls then Some (ls[n - 1 := l]) else None)"
| "undo_lines LOG_NOTYPE ls = None"
| "undo_lines _ ls = Some ls"

fun redo_lines :: "log_rec \<Rightarrow> bytes list \<Rightarrow> bytes list option" where
  "redo_lines (LOG_LINE_APPEND n l) ls = (if 0 < n \<and> n \<le> length ls + 1 then Some (insert_at (n - 1) l ls) else None)"
| "redo_lines (LOG_LINE_INSERT n l) ls = (if 0 < n \<and> n \<le> length ls + 1 then Some (insert_at (n - 1) l ls) else None)"
| "redo_lines (LOG_LINE_DELETE n l) ls = (if 0 < n \<and> n \<le> length ls then Some (delete_at (n - 1) ls) else None)"
| "redo_lines (LOG_LINE_RESET_F n l) ls = (if 0 < n \<and> n \<le> length ls then Some (ls[n - 1 := l]) else None)"
| "redo_lines LOG_NOTYPE ls = None"
| "redo_lines _ ls = Some ls"

fun run_recs :: "(log_rec \<Rightarrow> bytes list \<Rightarrow> bytes list option) \<Rightarrow> log_rec list \<Rightarrow> bytes list \<Rightarrow> bytes list option" where
  "run_recs f [] ls = Some ls"
| "run_recs f (r # rs) ls = Option.bind (f r ls) (run_recs f rs)"

lemma run_recs_append: "run_recs f (rs @ qs) ls = Option.bind (run_recs f rs ls) (run_recs f qs)"
  by (induction rs arbitrary: ls) (auto split: Option.bind_split)

lemma run_recs_marks:
  "(\<And>m l. f (LOG_MARK m) l = Some l) \<Longrightarrow> run_recs f (map LOG_MARK ms) ls = Some ls"
  by (induction ms) auto

lemma undo_edit:
  "edit_ok e ls \<Longrightarrow> run_recs undo_lines (rev (edit_recs e)) (edit_do e ls) = Some ls"
  by (cases e) (auto simp: run_recs_marks delete_insert_at insert_delete_at rev_map)

lemma redo_edit: "edit_ok e ls \<Longrightarrow> run_recs redo_lines (edit_recs e) ls = Some (edit_do e ls)"
  by (cases e) (simp_all add: run_recs_append run_recs_marks)

definition event_recs :: "edit list \<Rightarrow> log_rec list" where
  "event_recs es = concat (map edit_recs es)"

lemma event_recs_simps [simp]:
  "event_recs [] = []" "event_recs (e # es) = edit_recs e @ event_recs es"
  "event_recs (es @ fs) = event_recs es @ event_recs fs"
  by (simp_all add: event_recs_def)

lemma undo_event: "ev.oks es ls \<Longrightarrow> run_recs undo_lines (rev (event_recs es)) (ev.dos es ls) = Some ls"
  by (induction es arbitrary: ls) (simp_all add: run_recs_append undo_edit)

lemma redo_event: "ev.oks es ls \<Longrightarrow> run_recs redo_lines (event_recs es) ls = Some (ev.dos es ls)"
  by (induction es arbitrary: ls) (simp_all add: run_recs_append redo_edit)

text \<open>No record of an edit ends a replay, and each edit has one that counts.\<close>

lemma edit_recs_kind:
  "r \<in> set (edit_recs e) \<Longrightarrow> (\<forall>m. r \<noteq> LOG_CURSOR_INIT m) \<and> (\<forall>m. r \<noteq> LOG_CURSOR_END m)"
  by (cases e) auto

lemma edit_recs_op: "(\<exists>r \<in> set (edit_recs e). undo_op r) \<and> (\<exists>r \<in> set (edit_recs e). redo_op r)"
  by (cases e) auto

subsection \<open>What a record does to the editor\<close>

text \<open>A replayed record may change what an edit may, and the counters.\<close>

definition uncounted :: "ed \<Rightarrow> ed" where
  "uncounted s = upd_cur (\<lambda>c. c\<lparr>sp_rptlchange := 0, sp_added := 0, sp_changed := 0, sp_deleted := 0\<rparr>) (core s)"

definition replayed :: "ed \<Rightarrow> ed \<Rightarrow> bool" where
  "replayed s s' \<longleftrightarrow> base s' \<and> same_log s s' \<and> screens_ok s' \<and> uncounted s' = uncounted s \<and>
     (sp_ex (cur s) \<longrightarrow> sp_lno (cur s') = sp_lno (cur s))"

lemma uncounted_sel:
  "f_nolog (uncounted s) = f_nolog s" "lundo (uncounted s) = lundo s" "sp_ex (cur (uncounted s)) = sp_ex (cur s)"
  "sp_cno (cur (uncounted s)) = sp_cno (cur s)" "has_file (uncounted s) = has_file s"
  "cutq (uncounted s) = cutq s" "dcbp (uncounted s) = dcbp s" "dcb_store (uncounted s) = dcb_store s"
  by (simp_all add: uncounted_def core_def unlogged_sel unpainted_sel)

lemma replayed_fields:
  assumes "replayed s s'"
  shows "f_nolog s' = f_nolog s" "lundo s' = lundo s" "sp_ex (cur s') = sp_ex (cur s)"
    "sp_cno (cur s') = sp_cno (cur s)" "cutq s' = cutq s" "dcbp s' = dcbp s" "dcb_store s' = dcb_store s"
  using assms unfolding replayed_def by (metis uncounted_sel)+

lemma replayed_trans: "replayed s s' \<Longrightarrow> replayed s' s'' \<Longrightarrow> replayed s s''"
  using replayed_fields(3) [of s s'] by (auto simp: replayed_def intro: same_log_trans)

lemma replayed_refl: "base s \<Longrightarrow> screens_ok s \<Longrightarrow> replayed s s"
  by (simp add: replayed_def)

lemma changed_replayed:
  assumes "changed s ls ms recs s'" "f_nolog s"
  shows "replayed s s'" "lines s' = ls"
  using assms by (auto simp: changed_def replayed_def logged_def uncounted_def edited_def upd_cur_def)

definition counting :: "(ed \<Rightarrow> ed) \<Rightarrow> bool" where
  "counting f \<longleftrightarrow> (\<forall>s s'. replayed s s' \<longrightarrow> replayed s (f s') \<and> lines (f s') = lines s')"

lemma base_upd_cur [simp]: "base (upd_cur f s) = base s"
  by (simp add: base_def count_ok_def)

text \<open>The counters of a screen, given values.\<close>

definition counters :: "nat \<Rightarrow> nat \<Rightarrow> nat \<Rightarrow> nat \<Rightarrow> scr \<Rightarrow> scr" where
  "counters a b d e c = c\<lparr>sp_rptlchange := a, sp_added := b, sp_changed := d, sp_deleted := e\<rparr>"

lemma counters_simps [simp]:
  "unpainted (counters a b d e c) = counters a b d e (unpainted c)"
  "sp_ex (counters a b d e c) = sp_ex c" "sp_lno (counters a b d e c) = sp_lno c"
  "screen_ok (counters a b d e c) = screen_ok c" "sp_tinput (counters a b d e c) = sp_tinput c"
  "counters a b d e (counters a' b' d' e' c) = counters a b d e c"
  by (simp_all add: counters_def unpainted_def screen_ok_def)

lemma replayed_upd_cur:
  assumes r: "replayed s s'" and c: "f (cur s') = counters a b d e (cur s')"
  shows "replayed s (upd_cur f s')"
proof -
  have eq: "upd_cur f s' = s'\<lparr>cur := counters a b d e (cur s')\<rparr>" using c by (simp add: upd_cur_def)
  have "core (s'\<lparr>cur := counters a b d e (cur s')\<rparr>) = (core s')\<lparr>cur := counters a b d e (unpainted (cur s'))\<rparr>"
    by (simp add: core_def unlogged_def uncached_def)
  then have "uncounted (upd_cur f s') = uncounted s'"
    unfolding eq by (simp add: uncounted_def upd_cur_def core_sel counters_def)
  moreover have "screens_ok (upd_cur f s') = screens_ok s'" by (simp add: eq screens_ok_def)
  moreover have "same_log s (upd_cur f s') = same_log s s'" by (simp add: same_log_def)
  moreover have "sp_lno (cur (upd_cur f s')) = sp_lno (cur s')" by (simp add: eq)
  ultimately show ?thesis using r by (simp add: replayed_def)
qed

lemma counting_rpt: "counting rpt_deleted" "counting rpt_added" "counting (rpt_changed n)"
proof -
  have 1: "(if sp_rptlchange c \<noteq> n then c\<lparr>sp_rptlchange := n, sp_changed := sp_changed c + 1\<rparr> else c) =
      counters n (sp_added c) (if sp_rptlchange c \<noteq> n then sp_changed c + 1 else sp_changed c) (sp_deleted c) c" for c
    by (simp add: counters_def)
  have 2: "c\<lparr>sp_deleted := sp_deleted c + 1\<rparr> = counters (sp_rptlchange c) (sp_added c) (sp_changed c) (sp_deleted c + 1) c"
    "c\<lparr>sp_added := sp_added c + 1\<rparr> = counters (sp_rptlchange c) (sp_added c + 1) (sp_changed c) (sp_deleted c) c" for c
    by (simp_all add: counters_def)
  show "counting (rpt_changed n)" unfolding counting_def rpt_changed_def
    by (intro allI impI conjI, erule replayed_upd_cur, rule 1, simp)
  show "counting rpt_deleted" unfolding counting_def rpt_deleted_def
    by (intro allI impI conjI, erule replayed_upd_cur, rule 2(1), simp)
  show "counting rpt_added" unfolding counting_def rpt_added_def
    by (intro allI impI conjI, erule replayed_upd_cur, rule 2(2), simp)
qed

lemma counted_ok:
  assumes "m = Some (False, s1)" "replayed s s1" "lines s1 = ls" "counting f"
  shows "\<exists>s'. counted m f = Some (False, s') \<and> replayed s s' \<and> lines s' = ls"
  using assms by (auto simp: counted_def counting_def)

lemma db_delete_replay:
  assumes "base s" "f_nolog s" "screens_ok s" "0 < n" "n \<le> length (lines s)" "counting f"
  shows "\<exists>s'. counted (db_delete n s) f = Some (False, s') \<and> replayed s s' \<and> lines s' = delete_at (n - 1) (lines s)"
proof -
  have "log_ready s" "f_nolog s \<or> text_ok s \<or> c_lno s \<noteq> n" using assms by (simp_all add: log_ready_def)
  then obtain s1 where "db_delete n s = Some (False, s1)"
    "changed s (delete_at (n - 1) (lines s)) (map (mark_dropped n) (marks s))
       (mark_recs n (marks s) @ [LOG_LINE_DELETE n (lines s ! (n - 1))]) s1"
    using db_delete_spec [OF assms(1) _ assms(3-5)] by blast
  with changed_replayed [OF _ assms(2)] counted_ok [OF _ _ _ assms(6)] show ?thesis by blast
qed

lemma db_insert_replay:
  assumes "base s" "f_nolog s" "screens_ok s" "0 < n" "n \<le> length (lines s) + 1" "counting f"
  shows "\<exists>s'. counted (db_insert n l s) f = Some (False, s') \<and> replayed s s' \<and> lines s' = insert_at (n - 1) l (lines s)"
proof -
  have "log_ready s" using assms by (simp add: log_ready_def)
  then obtain s1 where "db_insert n l s = Some (False, s1)"
    "changed s (insert_at (n - 1) l (lines s)) (marks_inserted (length (lines s) + 1) n (marks s)) [LOG_LINE_INSERT n l] s1"
    using db_insert_spec [OF assms(1) _ assms(3-5)] by blast
  with changed_replayed [OF _ assms(2)] counted_ok [OF _ _ _ assms(6)] show ?thesis by blast
qed

lemma db_set_replay:
  assumes "base s" "f_nolog s" "screens_ok s" "0 < n" "n \<le> length (lines s)" "counting f"
  shows "\<exists>s'. counted (db_set n l s) f = Some (False, s') \<and> replayed s s' \<and> lines s' = (lines s)[n - 1 := l]"
proof -
  have "log_ready s" using assms by (simp add: log_ready_def)
  then obtain s1 where "db_set n l s = Some (False, s1)"
    "changed s ((lines s)[n - 1 := l]) (marks s) [LOG_LINE_RESET_B n (lines s ! (n - 1)), LOG_LINE_RESET_F n l] s1"
    using db_set_spec [OF assms(1) _ assms(3-5)] by blast
  with changed_replayed [OF _ assms(2)] counted_ok [OF _ _ _ assms(6)] show ?thesis by blast
qed

lemma replayed_marks:
  assumes "base s" "screens_ok s"
  shows "replayed s (s\<lparr>marks := ms\<rparr>)"
  using assms by (simp add: replayed_def uncounted_def core_def unlogged_def uncached_def upd_cur_def)

lemma mark_set_replay:
  assumes "base s" "screens_ok s"
  shows "\<exists>s'. mark_set k v u s = Some (False, s') \<and> replayed s s' \<and> lines s' = lines s"
  using assms mark_set_eq [of s k v u] replayed_marks [OF assms] replayed_refl [OF assms] base_mem [of s] by auto

lemma undo_rec_spec:
  assumes s: "base s" "f_nolog s" "screens_ok s" and u: "undo_lines r (lines s) = Some ls"
  shows "\<exists>s'. undo_rec r s = Some (False, s') \<and> replayed s s' \<and> lines s' = ls"
proof (cases r)
  case (LOG_LINE_APPEND n l)
  then show ?thesis using db_delete_replay [OF s, of n rpt_deleted] u counting_rpt by (auto simp: undo_rec_def split: if_splits)
next
  case (LOG_LINE_INSERT n l)
  then show ?thesis using db_delete_replay [OF s, of n rpt_deleted] u counting_rpt by (auto simp: undo_rec_def split: if_splits)
next
  case (LOG_LINE_DELETE n l)
  then show ?thesis using db_insert_replay [OF s, of n rpt_added l] u counting_rpt by (auto simp: undo_rec_def split: if_splits)
next
  case (LOG_LINE_RESET_B n l)
  then show ?thesis using db_set_replay [OF s, of n "rpt_changed n" l] u counting_rpt by (auto simp: undo_rec_def split: if_splits)
next
  case (LOG_MARK m)
  then show ?thesis using mark_set_replay [OF s(1,3)] u by (simp add: undo_rec_def)
qed (use s u replayed_refl in \<open>auto simp: undo_rec_def\<close>)

lemma redo_rec_spec:
  assumes s: "base s" "f_nolog s" "screens_ok s" and u: "redo_lines r (lines s) = Some ls"
  shows "\<exists>s'. redo_rec r s = Some (False, s') \<and> replayed s s' \<and> lines s' = ls"
proof (cases r)
  case (LOG_LINE_APPEND n l)
  then show ?thesis using db_insert_replay [OF s, of n rpt_added l] u counting_rpt by (auto simp: redo_rec_def split: if_splits)
next
  case (LOG_LINE_INSERT n l)
  then show ?thesis using db_insert_replay [OF s, of n rpt_added l] u counting_rpt by (auto simp: redo_rec_def split: if_splits)
next
  case (LOG_LINE_DELETE n l)
  then show ?thesis using db_delete_replay [OF s, of n rpt_deleted] u counting_rpt by (auto simp: redo_rec_def split: if_splits)
next
  case (LOG_LINE_RESET_F n l)
  then show ?thesis using db_set_replay [OF s, of n "rpt_changed n" l] u counting_rpt by (auto simp: redo_rec_def split: if_splits)
next
  case (LOG_MARK m)
  then show ?thesis using mark_set_replay [OF s(1,3)] u by (simp add: redo_rec_def)
qed (use s u replayed_refl in \<open>auto simp: redo_rec_def\<close>)

subsection \<open>Walking the log\<close>

lemma replayed_l_cur:
  assumes "replayed s s'"
  shows "replayed (s\<lparr>l_cur := n\<rparr>) (s'\<lparr>l_cur := n\<rparr>)"
proof -
  have "uncounted (s\<lparr>l_cur := n\<rparr>) = uncounted s" for s
    by (simp add: uncounted_def core_def unlogged_def uncached_def upd_cur_def)
  then show ?thesis using assms by (simp add: replayed_def same_log_def screens_ok_def)
qed

lemma log_get_ok:
  assumes "settled (elog s)" "0 < l_cur s" "l_cur s \<le> length (r_recs (elog s))"
  shows "log_get s = Some (Some (r_recs (elog s) ! (l_cur s - 1)), s)"
proof -
  have "s\<lparr>elog := elog s\<rparr> = s" by simp
  then show ?thesis using tree.get_ok [OF assms] by (simp add: log_get_def)
qed

lemma backward_run:
  assumes "base s" "f_nolog s" "screens_ok s" "settled (elog s)" "0 < l_cur s" "l_cur s \<le> length (r_recs (elog s)) + 1"
    and "hist s = pre @ rs" and "run_recs undo_lines (rev rs) (lines s) = Some ls"
    and "\<forall>r \<in> set rs. \<forall>m. r \<noteq> LOG_CURSOR_INIT m"
  shows "\<exists>s'. backward_loop (k + length rs) did rp s = backward_loop k (did \<or> (\<exists>r \<in> set rs. undo_op r)) rp s' \<and>
    lines s' = ls \<and> replayed (s\<lparr>l_cur := length pre + 1\<rparr>) s'"
  using assms
proof (induction rs arbitrary: s did rule: rev_induct)
  case Nil
  have "length (hist s) = l_cur s - 1" using Nil.prems(5,6) by (simp add: hist_def)
  then have eq: "s\<lparr>l_cur := length pre + 1\<rparr> = s" using Nil.prems(5,7) by simp
  have "replayed (s\<lparr>l_cur := length pre + 1\<rparr>) s" unfolding eq by (rule replayed_refl) (use Nil.prems in simp_all)
  then show ?case using Nil.prems by (intro exI [of _ s]) simp
next
  case (snoc r rs)
  have len: "l_cur s - 1 = length pre + length rs + 1"
    using arg_cong [OF snoc.prems(7), of length] snoc.prems(5,6) by (simp add: hist_def)
  let ?s1 = "s\<lparr>l_cur := l_cur s - 1\<rparr>"
  have at: "r_recs (elog s) ! (length pre + length rs) = r"
  proof -
    have "hist s ! (length pre + length rs) = r" using snoc.prems(7) by (simp add: nth_append)
    then show ?thesis using len by (simp add: hist_def)
  qed
  have lc: "l_cur s = length pre + length rs + 2" using len by simp
  have g: "log_get ?s1 = Some (Some r, ?s1)"
    using log_get_ok [of ?s1] snoc.prems(4,6) at by (simp add: lc)
  obtain l1 where l1: "undo_lines r (lines s) = Some l1" "run_recs undo_lines (rev rs) l1 = Some ls"
    using snoc.prems(8) by (auto simp: bind_eq_Some_conv)
  have "undo_lines r (lines ?s1) = Some l1" using l1(1) by simp
  moreover have "screens_ok ?s1" using snoc.prems(3) by (simp add: screens_ok_def)
  ultimately obtain s2 where s2: "undo_rec r ?s1 = Some (False, s2)" "replayed ?s1 s2" "lines s2 = l1"
    using undo_rec_spec [of ?s1 r l1] snoc.prems(1,2) by auto
  have f2: "elog s2 = elog s" "l_cur s2 = l_cur s - 1" "base s2" "screens_ok s2" "f_nolog s2"
    using s2(2) replayed_fields(1) [OF s2(2)] snoc.prems(2) by (auto simp: replayed_def same_log_def)
  have h2: "hist s2 = pre @ rs"
  proof -
    have "hist s2 = take (length pre + length rs) (hist s)" using f2 len by (simp add: hist_def min_def)
    then show ?thesis using snoc.prems(7) by simp
  qed
  obtain s' where s': "backward_loop (k + length rs) (did \<or> undo_op r) rp s2 =
      backward_loop k ((did \<or> undo_op r) \<or> (\<exists>r \<in> set rs. undo_op r)) rp s'"
    "lines s' = ls" "replayed (s2\<lparr>l_cur := length pre + 1\<rparr>) s'"
    using snoc.IH [of s2 "did \<or> undo_op r"] f2 h2 l1(2) s2(3) snoc.prems(4,6,9) by (auto simp: lc)
  have step: "backward_loop (k + length (rs @ [r])) did rp s = backward_loop (k + length rs) (did \<or> undo_op r) rp s2"
    using g s2(1) snoc.prems(9) by (cases r) simp_all
  have "replayed (s\<lparr>l_cur := length pre + 1\<rparr>) (s2\<lparr>l_cur := length pre + 1\<rparr>)"
    using replayed_l_cur [OF s2(2), of "length pre + 1"] by simp
  then have "replayed (s\<lparr>l_cur := length pre + 1\<rparr>) s'" using s'(3) by (rule replayed_trans)
  moreover have "((did \<or> undo_op r) \<or> (\<exists>r \<in> set rs. undo_op r)) = (did \<or> (\<exists>r \<in> set (rs @ [r]). undo_op r))" by auto
  ultimately show ?case using step s'(1,2) by (intro exI [of _ s']) simp
qed

lemma forward_run:
  assumes "base s" "f_nolog s" "screens_ok s" "settled (elog s)" "l_cur s = length pre"
    and "r_recs (elog s) = pre @ rs @ post" and "run_recs redo_lines rs (lines s) = Some ls"
    and "\<forall>r \<in> set rs. \<forall>m. r \<noteq> LOG_CURSOR_END m"
  shows "\<exists>s'. forward_loop (k + length rs) did rp s = forward_loop k (did \<or> (\<exists>r \<in> set rs. redo_op r)) rp s' \<and>
    lines s' = ls \<and> replayed (s\<lparr>l_cur := length pre + length rs\<rparr>) s'"
  using assms
proof (induction rs arbitrary: s did pre)
  case Nil
  have eq: "s\<lparr>l_cur := length pre\<rparr> = s" using Nil.prems(5) by simp
  have "replayed (s\<lparr>l_cur := length pre\<rparr>) s" unfolding eq by (rule replayed_refl) (use Nil.prems in simp_all)
  then show ?case using Nil.prems by (intro exI [of _ s]) simp
next
  case (Cons r rs)
  let ?s1 = "s\<lparr>l_cur := l_cur s + 1\<rparr>"
  have g: "log_get ?s1 = Some (Some r, ?s1)"
    using log_get_ok [of ?s1] Cons.prems(4,5,6) by simp
  obtain l1 where l1: "redo_lines r (lines s) = Some l1" "run_recs redo_lines rs l1 = Some ls"
    using Cons.prems(7) by (auto simp: bind_eq_Some_conv)
  have "redo_lines r (lines ?s1) = Some l1" using l1(1) by simp
  moreover have "screens_ok ?s1" using Cons.prems(3) by (simp add: screens_ok_def)
  ultimately obtain s2 where s2: "redo_rec r ?s1 = Some (False, s2)" "replayed ?s1 s2" "lines s2 = l1"
    using redo_rec_spec [of ?s1 r l1] Cons.prems(1,2) by auto
  have f2: "elog s2 = elog s" "l_cur s2 = l_cur s + 1" "base s2" "screens_ok s2" "f_nolog s2"
    using s2(2) replayed_fields(1) [OF s2(2)] Cons.prems(2) by (auto simp: replayed_def same_log_def)
  obtain s' where s': "forward_loop (k + length rs) (did \<or> redo_op r) rp s2 =
      forward_loop k ((did \<or> redo_op r) \<or> (\<exists>r \<in> set rs. redo_op r)) rp s'"
    "lines s' = ls" "replayed (s2\<lparr>l_cur := length (pre @ [r]) + length rs\<rparr>) s'"
    using Cons.IH [of s2 "pre @ [r]" "did \<or> redo_op r"] f2 l1(2) s2(3) Cons.prems(4,5,6,8) by auto
  have step: "forward_loop (k + length (r # rs)) did rp s = forward_loop (k + length rs) (did \<or> redo_op r) rp s2"
    using g s2(1) Cons.prems(8) by (cases r) simp_all
  let ?n = "length pre + length (r # rs)"
  have "replayed (s\<lparr>l_cur := ?n\<rparr>) (s2\<lparr>l_cur := ?n\<rparr>)"
    using replayed_l_cur [OF s2(2), of ?n] by simp
  moreover have "replayed (s2\<lparr>l_cur := ?n\<rparr>) s'" using s'(3) by simp
  ultimately have "replayed (s\<lparr>l_cur := ?n\<rparr>) s'" by (rule replayed_trans)
  moreover have "((did \<or> redo_op r) \<or> (\<exists>r \<in> set rs. redo_op r)) = (did \<or> (\<exists>r \<in> set (r # rs). redo_op r))" by auto
  ultimately show ?case using step s'(1,2) by (intro exI [of _ s']) simp
qed

subsection \<open>The history of a file\<close>

text \<open>
  An event: where the cursor was before it, its edits, where the cursor was after it. A log is a
  sequence of events, of which those before \<open>l_cur\<close> are done and those after it undone.
\<close>

type_synonym event = "mark \<times> edit list \<times> mark"

definition event_log :: "event \<Rightarrow> log_rec list" where
  "event_log e = (case e of (a, es, b) \<Rightarrow> LOG_CURSOR_INIT a # event_recs es @ [LOG_CURSOR_END b])"

definition event_ok :: "event \<Rightarrow> bytes list \<Rightarrow> bool" where
  "event_ok e ls = (case e of (a, es, b) \<Rightarrow> es \<noteq> [] \<and> ev.oks es ls \<and> m_lno a \<noteq> 0 \<and> m_lno b \<noteq> 0)"

definition event_do :: "event \<Rightarrow> bytes list \<Rightarrow> bytes list" where
  "event_do e ls = (case e of (a, es, b) \<Rightarrow> ev.dos es ls)"

definition event_undo :: "event \<Rightarrow> bytes list \<Rightarrow> bytes list" where
  "event_undo e ls = (case e of (a, es, b) \<Rightarrow> ev.undos es ls)"

interpretation tl: undoable event_ok event_do event_undo
  by unfold_locales (auto simp: event_ok_def event_do_def event_undo_def ev.undos_dos)

definition logs_of :: "event list \<Rightarrow> log_rec list" where
  "logs_of evs = concat (map event_log evs)"

lemma logs_of_simps [simp]:
  "logs_of [] = []" "logs_of (e # es) = event_log e @ logs_of es" "logs_of (es @ fs) = logs_of es @ logs_of fs"
  by (simp_all add: logs_of_def)

definition history :: "ed \<Rightarrow> bytes list \<Rightarrow> event list \<Rightarrow> event list \<Rightarrow> bool" where
  "history s ls past future \<longleftrightarrow> base s \<and> screens_ok s \<and> \<not> f_nolog s \<and> log_ok s \<and> m_lno (l_cursor s) \<noteq> 0 \<and>
     take (l_high s - 1) (r_recs (elog s)) = logs_of past @ logs_of future \<and>
     l_cur s = length (logs_of past) + 1 \<and>
     tl.oks (past @ future) ls \<and> lines s = tl.dos past ls"

lemma historyD:
  assumes "history s ls past future"
  shows "base s" "screens_ok s" "\<not> f_nolog s" "log_ok s" "m_lno (l_cursor s) \<noteq> 0"
    "l_cur s = length (logs_of past) + 1" "tl.oks (past @ future) ls" "lines s = tl.dos past ls"
    "take (l_high s - 1) (r_recs (elog s)) = logs_of past @ logs_of future"
  using assms by (simp_all add: history_def)

lemma history_split:
  assumes "history s ls past future"
  obtains rest where "r_recs (elog s) = logs_of past @ logs_of future @ rest"
    and "l_high s = length (logs_of past) + length (logs_of future) + 1"
proof (rule that)
  have ok: "l_high s \<le> length (r_recs (elog s)) + 1" "0 < l_high s"
    using historyD(4) [OF assms] by (auto simp: log_ok_def)
  show "r_recs (elog s) = logs_of past @ logs_of future @ drop (l_high s - 1) (r_recs (elog s))"
    using append_take_drop_id [of "l_high s - 1" "r_recs (elog s)", symmetric] unfolding historyD(9) [OF assms]
    by (simp only: append_assoc)
  show "l_high s = length (logs_of past) + length (logs_of future) + 1"
    using arg_cong [OF historyD(9) [OF assms], of length] ok by simp
qed

lemma event_recs_kind:
  "r \<in> set (event_recs es) \<Longrightarrow> (\<forall>m. r \<noteq> LOG_CURSOR_INIT m) \<and> (\<forall>m. r \<noteq> LOG_CURSOR_END m)"
  using edit_recs_kind by (auto simp: event_recs_def)

lemma event_recs_op:
  "es \<noteq> [] \<Longrightarrow> (\<exists>r \<in> set (event_recs es). undo_op r) \<and> (\<exists>r \<in> set (event_recs es). redo_op r)"
  using edit_recs_op by (cases es) (auto simp: event_recs_def)

text \<open>What a completed replay leaves for the history.\<close>

lemma history_replayed:
  assumes h: "history s ls past future" and r: "replayed (s\<lparr>f_nolog := True, l_cur := n\<rparr>) s'"
    and p: "past' @ future' = past @ future" and n: "length (logs_of past') + 1 = k"
    and ls: "lines s' = tl.dos past' ls"
  shows "history (s'\<lparr>l_cur := k, f_nolog := False\<rparr>) ls past' future'"
proof -
  have f: "base s'" "elog s' = elog s" "l_high s' = l_high s" "l_cursor s' = l_cursor s" "screens_ok s'"
    using r by (simp_all add: replayed_def same_log_def)
  obtain rest where sp: "l_high s = length (logs_of past) + length (logs_of future) + 1"
    using history_split [OF h] by blast
  have l: "logs_of past @ logs_of future = logs_of past' @ logs_of future'"
    using arg_cong [OF p, of logs_of] by simp
  have "length (logs_of past') + length (logs_of future') = length (logs_of past) + length (logs_of future)"
    using arg_cong [OF l, of length] by simp
  then have k: "0 < k" "k \<le> l_high s" using n sp by auto
  show ?thesis using f historyD [OF h] k n ls l p
    by (simp add: history_def log_ok_def screens_ok_def del: tl.oks_append)
qed

lemma replayed_uncounted:
  assumes "replayed (s\<lparr>f_nolog := True, l_cur := n\<rparr>) s'"
  shows "uncounted (s'\<lparr>l_cur := k, f_nolog := True\<rparr>) = uncounted (s\<lparr>f_nolog := True\<rparr>)"
proof -
  have u: "uncounted (t\<lparr>l_cur := n\<rparr>) = uncounted t" for t :: ed and n
    by (simp add: uncounted_def core_def unlogged_def uncached_def upd_cur_def)
  have f: "f_nolog s' = True" using replayed_fields(1) [OF assms] by simp
  then have "s'\<lparr>l_cur := k, f_nolog := True\<rparr> = s'\<lparr>l_cur := k\<rparr>" by simp
  then have "uncounted (s'\<lparr>l_cur := k, f_nolog := True\<rparr>) = uncounted s'" by (simp only: u)
  also have "\<dots> = uncounted (s\<lparr>f_nolog := True, l_cur := n\<rparr>)" using assms by (simp add: replayed_def)
  also have "\<dots> = uncounted (s\<lparr>f_nolog := True\<rparr>)" by (rule u)
  finally show ?thesis .
qed

lemma backward_event:
  assumes h: "history s ls (past @ [(a, es, b)]) future"
  obtains s' where "log_backward rp s = Some (False, a, s')" and "history s' ls past ((a, es, b) # future)"
    and "uncounted (s'\<lparr>f_nolog := True\<rparr>) = uncounted (s\<lparr>f_nolog := True\<rparr>)"
    and "f_undo s' = f_undo s" and "l_cursor s' = l_cursor s"
proof -
  note hd = historyD [OF h]
  obtain rest where sp: "r_recs (elog s) = logs_of past @ event_log (a, es, b) @ logs_of future @ rest"
    using history_split [OF h] by auto
  let ?s0 = "s\<lparr>f_nolog := True\<rparr>"
  have es: "es \<noteq> []" "ev.oks es (tl.dos past ls)" "lines s = ev.dos es (tl.dos past ls)"
    using hd(7,8) by (simp_all add: event_ok_def event_do_def)
  have cur: "l_cur s = length (logs_of past) + length (event_recs es) + 3"
    using hd(6) by (simp add: event_log_def)
  have hs: "hist ?s0 = (logs_of past @ [LOG_CURSOR_INIT a]) @ (event_recs es @ [LOG_CURSOR_END b])"
    using sp cur by (simp add: hist_def event_log_def)
  have un: "run_recs undo_lines (rev (event_recs es @ [LOG_CURSOR_END b])) (lines ?s0) = Some (tl.dos past ls)"
    using undo_event [OF es(2)] es(3) by simp
  have kind: "\<forall>r \<in> set (event_recs es @ [LOG_CURSOR_END b]). \<forall>m. r \<noteq> LOG_CURSOR_INIT m"
    using event_recs_kind by auto
  have pre: "base ?s0" "f_nolog ?s0" "screens_ok ?s0" "settled (elog ?s0)" "0 < l_cur ?s0"
    "l_cur ?s0 \<le> length (r_recs (elog ?s0)) + 1"
    using hd(1,2,4) by (auto simp: log_ok_def screens_ok_def)
  let ?k = "l_cur s + 1 - length (event_recs es @ [LOG_CURSOR_END b])"
  obtain s2 where s2: "backward_loop (?k + length (event_recs es @ [LOG_CURSOR_END b])) False rp ?s0 =
      backward_loop ?k (False \<or> (\<exists>r \<in> set (event_recs es @ [LOG_CURSOR_END b]). undo_op r)) rp s2"
    "lines s2 = tl.dos past ls" "replayed (?s0\<lparr>l_cur := length (logs_of past @ [LOG_CURSOR_INIT a]) + 1\<rparr>) s2"
    using backward_run [OF pre hs un kind] by blast
  have op: "(False \<or> (\<exists>r \<in> set (event_recs es @ [LOG_CURSOR_END b]). undo_op r)) = True"
    using event_recs_op [OF es(1)] by auto
  obtain k where k: "?k = Suc k" using cur by (cases ?k) auto
  have f2: "elog s2 = elog s" "l_cur s2 = length (logs_of past) + 2" "f_undo s2 = f_undo s" "l_cursor s2 = l_cursor s"
    using s2(3) by (simp_all add: replayed_def same_log_def)
  let ?s3 = "s2\<lparr>l_cur := l_cur s2 - 1\<rparr>"
  have g: "log_get ?s3 = Some (Some (LOG_CURSOR_INIT a), ?s3)"
    using log_get_ok [of ?s3] pre(4) f2 sp by (simp add: event_log_def)
  let ?s' = "?s3\<lparr>f_nolog := False\<rparr>"
  show ?thesis
  proof (rule that)
    have kk: "?k + length (event_recs es @ [LOG_CURSOR_END b]) = l_cur s + 1" using cur by simp
    have "backward_loop (l_cur s + 1) False rp ?s0 = backward_loop ?k True rp s2"
      using s2(1) unfolding kk op .
    also have "\<dots> = Some (False, a, ?s')" unfolding k using g by simp
    finally show "log_backward rp s = Some (False, a, ?s')"
      using hd(3) cur by (simp add: log_backward_def)
    have r: "replayed (s\<lparr>f_nolog := True, l_cur := length (logs_of past @ [LOG_CURSOR_INIT a]) + 1\<rparr>) s2"
      using s2(3) by simp
    have "history (s2\<lparr>l_cur := l_cur s2 - 1, f_nolog := False\<rparr>) ls past ((a, es, b) # future)"
      by (rule history_replayed [OF h r _ _ s2(2)]) (simp_all add: f2)
    then show "history ?s' ls past ((a, es, b) # future)" .
    show "uncounted (?s'\<lparr>f_nolog := True\<rparr>) = uncounted ?s0"
      using replayed_uncounted [OF r] by simp
  qed (use f2 in simp_all)
qed

lemma forward_event:
  assumes h: "history s ls past ((a, es, b) # future)"
  obtains s' where "log_forward rp s = Some (False, b, s')" and "history s' ls (past @ [(a, es, b)]) future"
    and "uncounted (s'\<lparr>f_nolog := True\<rparr>) = uncounted (s\<lparr>f_nolog := True\<rparr>)"
    and "f_undo s' = f_undo s" and "l_cursor s' = l_cursor s"
proof -
  note hd = historyD [OF h]
  obtain rest where "r_recs (elog s) = logs_of past @ logs_of ((a, es, b) # future) @ rest"
    "l_high s = length (logs_of past) + length (logs_of ((a, es, b) # future)) + 1"
    using history_split [OF h] by blast
  then have sp: "r_recs (elog s) = logs_of past @ event_log (a, es, b) @ logs_of future @ rest"
    "l_high s = length (logs_of past) + length (event_log (a, es, b)) + length (logs_of future) + 1"
    by simp_all
  let ?s0 = "s\<lparr>f_nolog := True\<rparr>"
  have es: "es \<noteq> []" "ev.oks es (lines s)"
    using hd(7,8) by (simp_all add: event_ok_def event_do_def)
  have cur: "l_cur ?s0 = length (logs_of past @ [LOG_CURSOR_INIT a])" using hd(6) by simp
  have recs: "r_recs (elog ?s0) = (logs_of past @ [LOG_CURSOR_INIT a]) @ event_recs es @ (LOG_CURSOR_END b # logs_of future @ rest)"
    using sp(1) by (simp add: event_log_def)
  have re: "run_recs redo_lines (event_recs es) (lines ?s0) = Some (ev.dos es (lines s))"
    using redo_event [OF es(2)] by simp
  have kind: "\<forall>r \<in> set (event_recs es). \<forall>m. r \<noteq> LOG_CURSOR_END m"
    using event_recs_kind by auto
  have pre: "base ?s0" "f_nolog ?s0" "screens_ok ?s0" "settled (elog ?s0)"
    using hd(1,2,4) by (auto simp: log_ok_def screens_ok_def)
  let ?k = "nrecs (elog s) + 2 - length (event_recs es)"
  have kk: "?k + length (event_recs es) = nrecs (elog s) + 2" using sp(1) by (simp add: event_log_def)
  obtain s2 where s2: "forward_loop (?k + length (event_recs es)) False rp ?s0 =
      forward_loop ?k (False \<or> (\<exists>r \<in> set (event_recs es). redo_op r)) rp s2"
    "lines s2 = ev.dos es (lines s)"
    "replayed (?s0\<lparr>l_cur := length (logs_of past @ [LOG_CURSOR_INIT a]) + length (event_recs es)\<rparr>) s2"
    using forward_run [OF pre cur recs re kind] by blast
  have op: "(False \<or> (\<exists>r \<in> set (event_recs es). redo_op r)) = True"
    using event_recs_op [OF es(1)] by auto
  obtain k where k: "?k = Suc k" using sp(1) by (cases ?k) (auto simp: event_log_def)
  have f2: "elog s2 = elog s" "l_cur s2 = length (logs_of past) + length (event_recs es) + 1"
    "f_undo s2 = f_undo s" "l_cursor s2 = l_cursor s"
    using s2(3) by (simp_all add: replayed_def same_log_def)
  let ?s3 = "s2\<lparr>l_cur := l_cur s2 + 1\<rparr>"
  have g: "log_get ?s3 = Some (Some (LOG_CURSOR_END b), ?s3)"
    using log_get_ok [of ?s3] pre(4) f2 sp by (simp add: event_log_def nth_append)
  let ?s' = "?s3\<lparr>l_cur := l_cur ?s3 + 1, f_nolog := False\<rparr>"
  show ?thesis
  proof (rule that)
    have "forward_loop (nrecs (elog s) + 2) False rp ?s0 = forward_loop ?k True rp s2"
      using s2(1) unfolding kk op .
    also have "\<dots> = Some (False, b, ?s')" unfolding k using g by simp
    finally show "log_forward rp s = Some (False, b, ?s')"
      using hd(3) cur sp(2) by (simp add: log_forward_def event_log_def)
    have r: "replayed (s\<lparr>f_nolog := True, l_cur := length (logs_of past @ [LOG_CURSOR_INIT a]) + length (event_recs es)\<rparr>) s2"
      using s2(3) by simp
    have "history (s2\<lparr>l_cur := l_cur s2 + 2, f_nolog := False\<rparr>) ls (past @ [(a, es, b)]) future"
      by (rule history_replayed [OF h r]) (use s2(2) hd(8) in \<open>simp_all add: f2 event_log_def event_do_def\<close>)
    then show "history ?s' ls (past @ [(a, es, b)]) future" by simp
    show "uncounted (?s'\<lparr>f_nolog := True\<rparr>) = uncounted ?s0"
      using replayed_uncounted [OF r] by simp
  qed (use f2 in simp_all)
qed

lemma backward_none: "history s ls [] future \<Longrightarrow> log_backward rp s = Some (True, rp, s)"
  by (simp add: history_def log_backward_def)

lemma forward_none: "history s ls past [] \<Longrightarrow> log_forward rp s = Some (True, rp, s)"
proof -
  assume h: "history s ls past []"
  obtain rest where "l_high s = length (logs_of past) + 1" using history_split [OF h] by auto
  then show ?thesis using historyD(3,6) [OF h] by (simp add: log_forward_def)
qed

subsection \<open>A new log, and a new event\<close>

lemma log_init_history:
  assumes "base s" "screens_ok s" "log_opens s" "\<not> f_nolog s"
  obtains s' where "log_init s = (False, s')" and "history s' (lines s) [] []" and "lines s' = lines s"
proof -
  have "settled new_log" by (simp add: new_log_def settled_def)
  then show ?thesis using that assms
    by (force simp: log_init_def Let_def history_def log_ok_def screens_ok_def new_log_def)
qed

lemma opened_history [simp]: "history (opened ls) ls [] []"
  by (simp add: history_def log_ok_def new_log_def settled_def)

text \<open>A state whose log holds the given events, done and undone.\<close>

definition replayable :: "bytes list \<Rightarrow> event list \<Rightarrow> event list \<Rightarrow> ed" where
  "replayable ls past future =
     (opened (tl.dos past ls))\<lparr>elog := new_log\<lparr>r_recs := logs_of past @ logs_of future\<rparr>,
        l_cur := length (logs_of past) + 1,
        l_high := length (logs_of past @ logs_of future) + 1\<rparr>"

lemma replayable_history: "tl.oks (past @ future) ls \<Longrightarrow> history (replayable ls past future) ls past future"
  by (simp add: history_def log_ok_def replayable_def settled_def new_log_def screens_ok_def screen_ok_def
      opened_screen_def)

text \<open>
  C5: \<open>log_backward\<close> takes back exactly the last event: it succeeds within the rounds given to its loop,
  returns the cursor position recorded before the event, puts the lines back to what they were
  before it, and leaves the event as the first one to be redone.
\<close>

theorem log_backward_refines:
  assumes "history s ls (past @ [(a, es, b)]) future"
  shows "\<exists>s'. log_backward rp s = Some (False, a, s') \<and> history s' ls past ((a, es, b) # future) \<and>
    lines s' = tl.dos past ls \<and> lines s = ev.dos es (lines s')"
proof -
  obtain s' where s': "log_backward rp s = Some (False, a, s')" "history s' ls past ((a, es, b) # future)"
    using backward_event [OF assms] by metis
  then show ?thesis using historyD(8) [OF assms] historyD(8) [OF s'(2)] by (auto simp: event_do_def)
qed

theorem log_backward_refines_witness:
  "\<exists>s'. log_backward \<lparr>m_lno = 9, m_cno = 9\<rparr>
      (replayable [''ab'', ''cd''] [(\<lparr>m_lno = 2, m_cno = 1\<rparr>, [E_DEL [] 1 ''ab'', E_ADD True 2 ''ef''], \<lparr>m_lno = 1, m_cno = 0\<rparr>)] [])
    = Some (False, \<lparr>m_lno = 2, m_cno = 1\<rparr>, s') \<and> lines s' = [''ab'', ''cd'']"
  using log_backward_refines [OF replayable_history, of "[]" "\<lparr>m_lno = 2, m_cno = 1\<rparr>"
      "[E_DEL [] 1 ''ab'', E_ADD True 2 ''ef'']" "\<lparr>m_lno = 1, m_cno = 0\<rparr>" "[]" "[''ab'', ''cd'']" "\<lparr>m_lno = 9, m_cno = 9\<rparr>"]
  by (auto simp: event_ok_def delete_at_def)

text \<open>
  \<open>log_forward\<close> does the first undone event again: it succeeds, returns the cursor
  position recorded after the event, applies the event's edits in order, and leaves the event as the last one
  done.
\<close>

theorem log_forward_refines:
  assumes "history s ls past ((a, es, b) # future)"
  shows "\<exists>s'. log_forward rp s = Some (False, b, s') \<and> history s' ls (past @ [(a, es, b)]) future \<and>
    lines s' = ev.dos es (lines s)"
proof -
  obtain s' where s': "log_forward rp s = Some (False, b, s')" "history s' ls (past @ [(a, es, b)]) future"
    using forward_event [OF assms] by metis
  then show ?thesis using historyD(8) [OF assms] historyD(8) [OF s'(2)] by (auto simp: event_do_def)
qed

theorem log_forward_refines_witness:
  "\<exists>s'. log_forward \<lparr>m_lno = 9, m_cno = 9\<rparr>
      (replayable [''ab'', ''cd''] [] [(\<lparr>m_lno = 2, m_cno = 1\<rparr>, [E_DEL [] 1 ''ab'', E_ADD True 2 ''ef''], \<lparr>m_lno = 1, m_cno = 0\<rparr>)])
    = Some (False, \<lparr>m_lno = 1, m_cno = 0\<rparr>, s') \<and> lines s' = [''cd'', ''ef'']"
  using log_forward_refines [OF replayable_history, of "[]" "\<lparr>m_lno = 2, m_cno = 1\<rparr>"
      "[E_DEL [] 1 ''ab'', E_ADD True 2 ''ef'']" "\<lparr>m_lno = 1, m_cno = 0\<rparr>" "[]" "[''ab'', ''cd'']" "\<lparr>m_lno = 9, m_cno = 9\<rparr>"]
  by (auto simp: event_ok_def delete_at_def insert_at_def replayable_def)

text \<open>
  At either end of the history a replay fails and changes nothing: there is nothing to undo
  before the first event and nothing to redo after the last.
\<close>

theorem replay_at_the_ends:
  "(history s ls [] future \<longrightarrow> log_backward rp s = Some (True, rp, s)) \<and>
   (history s ls past [] \<longrightarrow> log_forward rp s = Some (True, rp, s))"
  using backward_none forward_none by blast

theorem replay_at_the_ends_witness:
  "log_backward \<lparr>m_lno = 1, m_cno = 2\<rparr> (opened [''ab'']) = Some (True, \<lparr>m_lno = 1, m_cno = 2\<rparr>, opened [''ab'']) \<and>
   log_forward \<lparr>m_lno = 1, m_cno = 2\<rparr> (opened [''ab'']) = Some (True, \<lparr>m_lno = 1, m_cno = 2\<rparr>, opened [''ab''])"
  using replay_at_the_ends [of "opened [''ab'']" "[''ab'']" "[]" "\<lparr>m_lno = 1, m_cno = 2\<rparr>" "[]"] by simp

end
