(* ===== verification/Undo.thy ===== *)
theory Undo
  imports LogReplay
begin

section \<open>Undo and redo (vi/v_undo.c, ex/ex_undo.c)\<close>

text \<open>
  The commands on top of the log: \<^verbatim>\<open>u\<close> and \<^verbatim>\<open>U\<close> of vi and \<^verbatim>\<open>:undo\<close> of ex. The
  lemmas follow one command's edits into the log as a new event of the file's history, and the
  undo commands back and forth through that history.
\<close>

subsection \<open>Operations\<close>

text \<open>
  \<^verbatim>\<open>v_undo\<close>: \<open>isdot\<close> is the flag \<^verbatim>\<open>VC_ISDOT\<close>, \<open>m_final\<close> the cursor position the command
  starts with.
\<close>

definition v_undo :: "bool \<Rightarrow> mark \<Rightarrow> ed \<Rightarrow> (bool \<times> mark \<times> ed) option" where
  "v_undo isdot m_final s =
     (let s1 = upd_cur (\<lambda>c. c\<lparr>sp_u_ccnt := sp_ccnt c\<rparr>) s;
          s2 = (if \<not> f_undo s1 then s1\<lparr>f_undo := True, lundo := BACKWARD\<rparr>
                else if \<not> isdot then s1\<lparr>lundo := if lundo s1 = BACKWARD then FORWARD else BACKWARD\<rparr>
                else s1)
      in case lundo s2 of
           BACKWARD \<Rightarrow> log_backward m_final s2
         | FORWARD \<Rightarrow> log_forward m_final s2
         | NOTSET \<Rightarrow> None)"

text \<open>\<^verbatim>\<open>v_Undo\<close>.\<close>

definition v_Undo :: "mark \<Rightarrow> ed \<Rightarrow> (bool \<times> mark \<times> ed) option" where
  "v_Undo m_final s =
     do {
       (e, s1) \<leftarrow> log_setline (s\<lparr>f_undo := True, lundo := BACKWARD\<rparr>);
       Some (e, m_final\<lparr>m_cno := 0\<rparr>, s1)
     }"

text \<open>
  \<^verbatim>\<open>ex_undo\<close>: here \<open>lundo\<close> names the direction of the last replay, the other way round from
  vi, and there is no repeat.
\<close>

definition ex_undo :: "ed \<Rightarrow> (bool \<times> ed) option" where
  "ex_undo s =
     (let m = \<lparr>m_lno = sp_lno (cur s), m_cno = sp_cno (cur s)\<rparr> in
      do {
        (e, s1) \<leftarrow> mark_set ABSMARK1 m True s;
        if e then Some (True, s1)
        else do {
          let s2 = (if \<not> f_undo s1 then s1\<lparr>f_undo := True, lundo := FORWARD\<rparr> else s1);
          (e, m', s3) \<leftarrow>
            (case lundo s2 of
               BACKWARD \<Rightarrow> do {
                 (e, m', t) \<leftarrow> log_forward m s2;
                 Some (e, m', if e then t else t\<lparr>lundo := FORWARD\<rparr>)
               }
             | FORWARD \<Rightarrow> do {
                 (e, m', t) \<leftarrow> log_backward m s2;
                 Some (e, m', if e then t else t\<lparr>lundo := BACKWARD\<rparr>)
               }
             | NOTSET \<Rightarrow> None);
          if e then Some (True, s3)
          else Some (False, upd_cur (\<lambda>c. c\<lparr>sp_lno := m_lno m', sp_cno := m_cno m'\<rparr>) s3)
        }
      })"

subsection \<open>A command's edits\<close>

text \<open>
  Whatever else a command does, it changes the file by a sequence of calls of the four
  operations. \<open>cmd_ok\<close> says the call names a line that exists, \<open>cmd_do\<close> what it should do.
\<close>

datatype cmd =
    C_APPEND bool nat bytes
  | C_INSERT nat bytes
  | C_SET nat bytes
  | C_DELETE nat

fun run_cmd :: "cmd \<Rightarrow> ed \<Rightarrow> (bool \<times> ed) option" where
  "run_cmd (C_APPEND u n l) s = db_append u n l s"
| "run_cmd (C_INSERT n l) s = db_insert n l s"
| "run_cmd (C_SET n l) s = db_set n l s"
| "run_cmd (C_DELETE n) s = db_delete n s"

fun run_cmds :: "cmd list \<Rightarrow> ed \<Rightarrow> (bool \<times> ed) option" where
  "run_cmds [] s = Some (False, s)"
| "run_cmds (c # cs) s =
     do { (e, s1) \<leftarrow> run_cmd c s; if e then Some (True, s1) else run_cmds cs s1 }"

fun cmd_ok :: "cmd \<Rightarrow> bytes list \<Rightarrow> bool" where
  "cmd_ok (C_APPEND u n l) ls = (n \<le> length ls)"
| "cmd_ok (C_INSERT n l) ls = (0 < n \<and> n \<le> length ls + 1)"
| "cmd_ok (C_SET n l) ls = (0 < n \<and> n \<le> length ls)"
| "cmd_ok (C_DELETE n) ls = (0 < n \<and> n \<le> length ls)"

fun cmd_do :: "cmd \<Rightarrow> bytes list \<Rightarrow> bytes list" where
  "cmd_do (C_APPEND u n l) ls = insert_at n l ls"
| "cmd_do (C_INSERT n l) ls = insert_at (n - 1) l ls"
| "cmd_do (C_SET n l) ls = ls[n - 1 := l]"
| "cmd_do (C_DELETE n) ls = delete_at (n - 1) ls"

fun cmds_ok :: "cmd list \<Rightarrow> bytes list \<Rightarrow> bool" where
  "cmds_ok [] ls = True"
| "cmds_ok (c # cs) ls = (cmd_ok c ls \<and> cmds_ok cs (cmd_do c ls))"

definition cmds_do :: "cmd list \<Rightarrow> bytes list \<Rightarrow> bytes list" where
  "cmds_do cs ls = fold cmd_do cs ls"

text \<open>Within an event: what the history says while a command is changing the file.\<close>

definition in_event :: "ed \<Rightarrow> bytes list \<Rightarrow> event list \<Rightarrow> mark \<Rightarrow> edit list \<Rightarrow> bool" where
  "in_event s ls past a es \<longleftrightarrow> base s \<and> screens_ok s \<and> recording s \<and> text_ok s \<and>
     hp s = logs_of past @ LOG_CURSOR_INIT a # event_recs es \<and>
     tl.oks past ls \<and> ev.oks es (tl.dos past ls) \<and> lines s = ev.dos es (tl.dos past ls) \<and> m_lno a \<noteq> 0 \<and>
     (es \<noteq> [] \<longrightarrow> m_lno (l_cursor s) = 0 \<and> \<not> f_undo s)"

lemma event_starts:
  assumes h: "history s ls past future" and t: "text_ok s"
  shows "in_event s ls past (l_cursor s) []"
proof -
  obtain rest where "r_recs (elog s) = logs_of past @ logs_of future @ rest"
    using history_split [OF h] by blast
  then have "hist s = logs_of past" using historyD(6) [OF h] by (simp add: hist_def)
  then show ?thesis using historyD [OF h] t
    by (simp add: in_event_def hp_def pend_def recording_def)
qed

lemma event_step:
  assumes i: "in_event s ls past a es"
    and c: "changed s (edit_do e (lines s)) ms (edit_recs e) s'" and ok: "edit_ok e (lines s)" and t: "text_ok s'"
  shows "in_event s' ls past a (es @ [e])"
proof -
  have n: "\<not> f_nolog s" using i by (simp add: in_event_def recording_def)
  have "edit_recs e \<noteq> []" by (cases e) auto
  then show ?thesis using i c ok t n by (auto simp: in_event_def changed_def logged_def)
qed

lemma run_cmd_event:
  assumes i: "in_event s ls past a es" and ok: "cmd_ok c (lines s)"
  obtains s' e where "run_cmd c s = Some (False, s')" and "in_event s' ls past a (es @ [e])"
    and "lines s' = cmd_do c (lines s)"
proof -
  have b: "base s" "screens_ok s" "text_ok s" "log_ready s" "\<not> f_nolog s"
    using i by (auto simp: in_event_def log_ready_def recording_def)
  show ?thesis
  proof (cases c)
    case (C_APPEND u n l)
    have n: "n \<le> length (lines s)" using ok C_APPEND by simp_all
    obtain s' where s': "db_append u n l s = Some (False, s')"
      "changed s (insert_at n l (lines s)) (marks_inserted (length (lines s) + 1) (n + 1) (marks s)) [LOG_LINE_APPEND (n + 1) l] s'"
      "text_ok s \<or> \<not> f_nolog s \<Longrightarrow> text_ok s'"
      by (rule db_append_spec [OF b(1,4,2) n]) (rule that)
    have "in_event s' ls past a (es @ [E_ADD True (n + 1) l])"
      by (rule event_step [OF i]) (use s' b ok C_APPEND in auto)
    then show ?thesis using that s' C_APPEND by (simp add: changed_def)
  next
    case (C_INSERT n l)
    have n: "0 < n" "n \<le> length (lines s) + 1" using ok C_INSERT by simp_all
    obtain s' where s': "db_insert n l s = Some (False, s')"
      "changed s (insert_at (n - 1) l (lines s)) (marks_inserted (length (lines s) + 1) n (marks s)) [LOG_LINE_INSERT n l] s'"
      "text_ok s \<and> c_lno s \<le> n \<or> \<not> f_nolog s \<Longrightarrow> text_ok s'"
      by (rule db_insert_spec [OF b(1,4,2) n]) (rule that)
    have "in_event s' ls past a (es @ [E_ADD False n l])"
      by (rule event_step [OF i]) (use s' b ok C_INSERT in auto)
    then show ?thesis using that s' C_INSERT by (simp add: changed_def)
  next
    case (C_SET n l)
    have n: "0 < n" "n \<le> length (lines s)" using ok C_SET by simp_all
    obtain s' where s': "db_set n l s = Some (False, s')"
      "changed s ((lines s)[n - 1 := l]) (marks s) [LOG_LINE_RESET_B n (lines s ! (n - 1)), LOG_LINE_RESET_F n l] s'"
      "text_ok s \<or> \<not> f_nolog s \<Longrightarrow> text_ok s'"
      by (rule db_set_spec [OF b(1,4,2) n]) (rule that)
    have "in_event s' ls past a (es @ [E_SET n (lines s ! (n - 1)) l])"
      by (rule event_step [OF i]) (use s' b ok C_SET in auto)
    then show ?thesis using that s' C_SET by (simp add: changed_def)
  next
    case (C_DELETE n)
    have n: "0 < n" "n \<le> length (lines s)" using ok C_DELETE by simp_all
    have x: "f_nolog s \<or> text_ok s \<or> c_lno s \<noteq> n" using b(3) by simp
    obtain s' where s': "db_delete n s = Some (False, s')"
      "changed s (delete_at (n - 1) (lines s)) (map (mark_dropped n) (marks s))
         (mark_recs n (marks s) @ [LOG_LINE_DELETE n (lines s ! (n - 1))]) s'"
      "text_ok s \<or> \<not> f_nolog s \<Longrightarrow> text_ok s'"
      by (rule db_delete_spec [OF b(1,4,2) n x]) (rule that)
    obtain dm where "mark_recs n (marks s) = map LOG_MARK dm"
      by (rule that [of "map (\<lambda>m. m\<lparr>lm_deleted := True\<rparr>) (filter (\<lambda>m. lm_lno m = n) (marks s))"])
        (simp add: mark_recs_def)
    then have "in_event s' ls past a (es @ [E_DEL dm n (lines s ! (n - 1))])"
      by (intro event_step [OF i]) (use s' b ok C_DELETE in auto)
    then show ?thesis using that s' C_DELETE by (simp add: changed_def)
  qed
qed

lemma run_cmds_event:
  assumes "in_event s ls past a es" and "cmds_ok cs (lines s)"
  shows "\<exists>s' fs. run_cmds cs s = Some (False, s') \<and> in_event s' ls past a (es @ fs) \<and>
    length fs = length cs \<and> lines s' = cmds_do cs (lines s)"
  using assms
proof (induction cs arbitrary: s es)
  case Nil
  then show ?case by (auto simp: cmds_do_def)
next
  case (Cons c cs)
  obtain s1 e where s1: "run_cmd c s = Some (False, s1)" "in_event s1 ls past a (es @ [e])"
    "lines s1 = cmd_do c (lines s)"
    using run_cmd_event [OF Cons.prems(1), of c] Cons.prems(2) by auto
  obtain s' fs where "run_cmds cs s1 = Some (False, s')" "in_event s' ls past a ((es @ [e]) @ fs)"
    "length fs = length cs" "lines s' = cmds_do cs (lines s1)"
    using Cons.IH [OF s1(2)] Cons.prems(2) s1(3) by auto
  then show ?case using s1
    by (intro exI [of _ s'] exI [of _ "e # fs"]) (simp add: cmds_do_def)
qed

lemma event_ends:
  assumes i: "in_event s ls past a es" and ne: "es \<noteq> []" and c: "sp_lno (cur s) \<noteq> 0"
  obtains s' where "log_cursor s = Some (False, s')" and "history s' ls (past @ [(a, es, cursor_of s)]) []"
    and "text_ok s'" and "lines s' = lines s" and "\<not> f_undo s'"
proof -
  have b: "base s" "screens_ok s" "text_ok s" "recording s" "m_lno (l_cursor s) = 0" "\<not> f_undo s" "\<not> f_nolog s"
    using i ne by (auto simp: in_event_def recording_def)
  obtain s' where s': "log_cursor s = Some (False, s')" "base s' = base s" "recording s'" "logs s s'" "same_cache s s'"
    "hist s' = hist s @ [LOG_CURSOR_END (cursor_of s)]" "l_cursor s' = cursor_of s" "f_undo s' = f_undo s" "l_high s' = l_cur s'"
    using log_cursor_spec [OF base_mem [OF b(1)] b(4) c] b(5) by auto
  note f = logs_fields [OF s'(4)]
  have lo: "log_ok s'" using s'(3) by (simp add: recording_def)
  have len: "length (hist s') = l_cur s' - 1" "0 < l_cur s'" using lo by (auto simp: log_ok_def hist_def)
  have h: "hist s' = logs_of (past @ [(a, es, cursor_of s)])"
    using i s'(6) pend_zero [OF b(5)] by (simp add: in_event_def hp_def event_log_def)
  have "take (l_high s' - 1) (r_recs (elog s')) = logs_of (past @ [(a, es, cursor_of s)])"
    using h s'(9) by (simp add: hist_def)
  moreover have "l_cur s' = length (logs_of (past @ [(a, es, cursor_of s)])) + 1"
    using len unfolding h by simp
  ultimately have "history s' ls (past @ [(a, es, cursor_of s)]) []"
    using i ne b s' f lo c logs_screens [OF s'(4)]
    by (simp add: history_def in_event_def event_ok_def event_do_def cursor_of_def)
  then show ?thesis using that s' b f same_cache_text [OF s'(5) f(2)] by simp
qed


subsection \<open>The undo key\<close>

text \<open>
  One round of vi's main loop (vi/vi.c) for \<^verbatim>\<open>u\<close>: the cursor is logged, the command starts
  with its final position at the cursor, is counted, and when it succeeds the cursor goes where
  it says.
\<close>

definition u_key :: "bool \<Rightarrow> ed \<Rightarrow> (bool \<times> ed) option" where
  "u_key isdot s =
     do {
       (e, s1) \<leftarrow> log_cursor s;
       if e then Some (True, s1)
       else do {
         (e, m, s2) \<leftarrow> v_undo isdot (cursor_of s1) (upd_cur (\<lambda>c. c\<lparr>sp_ccnt := sp_ccnt c + 1\<rparr>) s1);
         if e then Some (True, s2)
         else Some (False, upd_cur (\<lambda>c. c\<lparr>sp_lno := m_lno m, sp_cno := m_cno m\<rparr>) s2)
       }
     }"

definition undoing :: "bool \<Rightarrow> ed \<Rightarrow> bool" where
  "undoing isdot s \<longleftrightarrow> \<not> f_undo s \<or> (if isdot then lundo s = BACKWARD else lundo s \<noteq> BACKWARD)"

definition redoing :: "bool \<Rightarrow> ed \<Rightarrow> bool" where
  "redoing isdot s \<longleftrightarrow> f_undo s \<and> (if isdot then lundo s = FORWARD else lundo s = BACKWARD)"

lemma v_undo_dir:
  shows "undoing isdot s \<Longrightarrow> v_undo isdot m s =
     log_backward m ((upd_cur (\<lambda>c. c\<lparr>sp_u_ccnt := sp_ccnt c\<rparr>) s)\<lparr>f_undo := True, lundo := BACKWARD\<rparr>)"
    and "redoing isdot s \<Longrightarrow> v_undo isdot m s =
     log_forward m ((upd_cur (\<lambda>c. c\<lparr>sp_u_ccnt := sp_ccnt c\<rparr>) s)\<lparr>f_undo := True, lundo := FORWARD\<rparr>)"
proof -
  let ?s = "upd_cur (\<lambda>c. c\<lparr>sp_u_ccnt := sp_ccnt c\<rparr>) s"
  have e: "f_undo s \<Longrightarrow> ?s\<lparr>f_undo := True, lundo := x\<rparr> = ?s\<lparr>lundo := x\<rparr>"
    "lundo s = x \<Longrightarrow> ?s\<lparr>lundo := x\<rparr> = ?s" for x
    by (auto intro!: ed.equality)
  show "undoing isdot s \<Longrightarrow> v_undo isdot m s = log_backward m (?s\<lparr>f_undo := True, lundo := BACKWARD\<rparr>)"
    by (auto simp: e undoing_def v_undo_def Let_def split: if_splits)
  show "redoing isdot s \<Longrightarrow> v_undo isdot m s = log_forward m (?s\<lparr>f_undo := True, lundo := FORWARD\<rparr>)"
    by (auto simp: e redoing_def v_undo_def Let_def split: if_splits)
qed

lemma history_update [simp]:
  "history (s\<lparr>f_undo := b\<rparr>) ls p q = history s ls p q" "history (s\<lparr>lundo := d\<rparr>) ls p q = history s ls p q"
  by (simp_all add: history_def log_ok_def screens_ok_def)

lemma history_cur:
  assumes "history s ls p q" "screens_ok (s\<lparr>cur := c\<rparr>)"
  shows "history (s\<lparr>cur := c\<rparr>) ls p q"
  using assms by (simp add: history_def log_ok_def)

lemma history_upd_cur:
  assumes "history s ls p q"
    and "\<And>c. sp_tinput (f c) = sp_tinput c" "\<And>c. sp_ex (f c) = sp_ex c" "\<And>c. screen_ok (f c) = screen_ok c"
  shows "history (upd_cur f s) ls p q"
  unfolding upd_cur_def
  by (rule history_cur [OF assms(1)]) (use historyD(2) [OF assms(1)] assms(2-) in \<open>simp add: screens_ok_def\<close>)

lemma screen_ok_update [simp]:
  "screen_ok (c\<lparr>sp_lno := n\<rparr>) = screen_ok c" "screen_ok (c\<lparr>sp_cno := n\<rparr>) = screen_ok c"
  "screen_ok (c\<lparr>sp_ccnt := n\<rparr>) = screen_ok c" "screen_ok (c\<lparr>sp_u_ccnt := n\<rparr>) = screen_ok c"
  by (simp_all add: screen_ok_def)

text \<open>Between events logging the cursor only remembers where it is.\<close>

lemma log_cursor_between:
  assumes h: "history s ls p q" and c: "sp_lno (cur s) \<noteq> 0"
  shows "log_cursor s = Some (False, s\<lparr>l_cursor := cursor_of s\<rparr>)" "history (s\<lparr>l_cursor := cursor_of s\<rparr>) ls p q"
  using historyD [OF h] c by (simp_all add: log_cursor_def cursor_of_def history_def log_ok_def screens_ok_def)

text \<open>The undo key walks the history.\<close>

lemma v_undo_back:
  assumes h: "history s ls (past @ [(a, es, b)]) future" and d: "undoing isdot s"
  obtains s' where "v_undo isdot m s = Some (False, a, s')" and "history s' ls past ((a, es, b) # future)"
    and "f_undo s'" and "lundo s' = BACKWARD"
proof -
  let ?s = "(upd_cur (\<lambda>c. c\<lparr>sp_u_ccnt := sp_ccnt c\<rparr>) s)\<lparr>f_undo := True, lundo := BACKWARD\<rparr>"
  have "history ?s ls (past @ [(a, es, b)]) future"
    using history_upd_cur [OF h, of "\<lambda>c. c\<lparr>sp_u_ccnt := sp_ccnt c\<rparr>"] by simp
  then obtain s' where s': "log_backward m ?s = Some (False, a, s')" "history s' ls past ((a, es, b) # future)"
    "uncounted (s'\<lparr>f_nolog := True\<rparr>) = uncounted (?s\<lparr>f_nolog := True\<rparr>)" "f_undo s' = f_undo ?s"
    by (rule backward_event)
  have "lundo (uncounted (s'\<lparr>f_nolog := True\<rparr>)) = lundo (uncounted (?s\<lparr>f_nolog := True\<rparr>))"
    using s'(3) by simp
  then have "lundo s' = BACKWARD" by (simp add: uncounted_sel)
  then show ?thesis using that s' v_undo_dir(1) [OF d] by simp
qed

lemma v_undo_forth:
  assumes h: "history s ls past ((a, es, b) # future)" and d: "redoing isdot s"
  obtains s' where "v_undo isdot m s = Some (False, b, s')" and "history s' ls (past @ [(a, es, b)]) future"
    and "f_undo s'" and "lundo s' = FORWARD"
proof -
  let ?s = "(upd_cur (\<lambda>c. c\<lparr>sp_u_ccnt := sp_ccnt c\<rparr>) s)\<lparr>f_undo := True, lundo := FORWARD\<rparr>"
  have "history ?s ls past ((a, es, b) # future)"
    using history_upd_cur [OF h, of "\<lambda>c. c\<lparr>sp_u_ccnt := sp_ccnt c\<rparr>"] by simp
  then obtain s' where s': "log_forward m ?s = Some (False, b, s')" "history s' ls (past @ [(a, es, b)]) future"
    "uncounted (s'\<lparr>f_nolog := True\<rparr>) = uncounted (?s\<lparr>f_nolog := True\<rparr>)" "f_undo s' = f_undo ?s"
    by (rule forward_event)
  have "lundo (uncounted (s'\<lparr>f_nolog := True\<rparr>)) = lundo (uncounted (?s\<lparr>f_nolog := True\<rparr>))"
    using s'(3) by simp
  then have "lundo s' = FORWARD" by (simp add: uncounted_sel)
  then show ?thesis using that s' v_undo_dir(2) [OF d] by simp
qed

text \<open>The same with the main loop around it; the cursor goes to the position the event recorded.\<close>

lemma u_key_step:
  assumes lc: "log_cursor s = Some (False, s0)" "history s0 ls p q"
    and v: "\<And>t m. history t ls p q \<Longrightarrow> f_undo t = f_undo s0 \<Longrightarrow> lundo t = lundo s0 \<Longrightarrow>
      \<exists>t'. v_undo isdot m t = Some (False, a, t') \<and> history t' ls p' q' \<and> f_undo t' \<and> lundo t' = d"
  shows "\<exists>s'. u_key isdot s = Some (False, s') \<and> history s' ls p' q' \<and> f_undo s' \<and> lundo s' = d \<and>
    cursor_of s' = a"
proof -
  let ?t = "upd_cur (\<lambda>c. c\<lparr>sp_ccnt := sp_ccnt c + 1\<rparr>) s0"
  have "history ?t ls p q"
    using history_upd_cur [OF lc(2), of "\<lambda>c. c\<lparr>sp_ccnt := sp_ccnt c + 1\<rparr>"] by simp
  then obtain t' where t': "v_undo isdot (cursor_of s0) ?t = Some (False, a, t')"
    "history t' ls p' q'" "f_undo t'" "lundo t' = d"
    using v [of ?t "cursor_of s0"] by auto
  let ?s' = "upd_cur (\<lambda>c. c\<lparr>sp_lno := m_lno a, sp_cno := m_cno a\<rparr>) t'"
  have "history ?s' ls p' q'"
    using history_upd_cur [OF t'(2), of "\<lambda>c. c\<lparr>sp_lno := m_lno a, sp_cno := m_cno a\<rparr>"] by simp
  then show ?thesis using lc(1) t' by (intro exI [of _ ?s']) (simp add: u_key_def cursor_of_def)
qed

lemma u_key_back:
  assumes h: "history s ls (past @ [(a, es, b)]) future" and c: "sp_lno (cur s) \<noteq> 0" and d: "undoing isdot s"
  shows "\<exists>s'. u_key isdot s = Some (False, s') \<and> history s' ls past ((a, es, b) # future) \<and> f_undo s' \<and>
    lundo s' = BACKWARD \<and> cursor_of s' = a"
proof (rule u_key_step [OF log_cursor_between [OF h c]])
  fix t m assume t: "history t ls (past @ [(a, es, b)]) future" "f_undo t = f_undo (s\<lparr>l_cursor := cursor_of s\<rparr>)"
    "lundo t = lundo (s\<lparr>l_cursor := cursor_of s\<rparr>)"
  then have "undoing isdot t" using d by (simp add: undoing_def)
  with v_undo_back [OF t(1)] show "\<exists>t'. v_undo isdot m t = Some (False, a, t') \<and>
      history t' ls past ((a, es, b) # future) \<and> f_undo t' \<and> lundo t' = BACKWARD" by metis
qed

lemma u_key_forth:
  assumes h: "history s ls past ((a, es, b) # future)" and c: "sp_lno (cur s) \<noteq> 0" and d: "redoing isdot s"
  shows "\<exists>s'. u_key isdot s = Some (False, s') \<and> history s' ls (past @ [(a, es, b)]) future \<and> f_undo s' \<and>
    lundo s' = FORWARD \<and> cursor_of s' = b"
proof (rule u_key_step [OF log_cursor_between [OF h c]])
  fix t m assume t: "history t ls past ((a, es, b) # future)" "f_undo t = f_undo (s\<lparr>l_cursor := cursor_of s\<rparr>)"
    "lundo t = lundo (s\<lparr>l_cursor := cursor_of s\<rparr>)"
  then have "redoing isdot t" using d by (simp add: redoing_def)
  with v_undo_forth [OF t(1)] show "\<exists>t'. v_undo isdot m t = Some (False, b, t') \<and>
      history t' ls (past @ [(a, es, b)]) future \<and> f_undo t' \<and> lundo t' = FORWARD" by metis
qed

lemma history_cursors:
  assumes "history s ls past future" "(a, es, b) \<in> set (past @ future)"
  shows "m_lno a \<noteq> 0" "m_lno b \<noteq> 0"
proof -
  have "tl.oks evs x \<Longrightarrow> (a, es, b) \<in> set evs \<Longrightarrow> m_lno a \<noteq> 0 \<and> m_lno b \<noteq> 0" for evs x
    by (induction evs arbitrary: x) (auto simp: event_ok_def)
  then show "m_lno a \<noteq> 0" "m_lno b \<noteq> 0" using historyD(7) [OF assms(1)] assms(2) by blast+
qed

text \<open>Repeating the undo.\<close>

fun u_keys :: "bool \<Rightarrow> nat \<Rightarrow> ed \<Rightarrow> (bool \<times> ed) option" where
  "u_keys isdot 0 s = Some (False, s)"
| "u_keys isdot (Suc n) s =
     do { (e, s1) \<leftarrow> u_key isdot s; if e then Some (True, s1) else u_keys isdot n s1 }"

lemma u_keys_back:
  assumes "history s ls (past @ evs) future" and "sp_lno (cur s) \<noteq> 0" and "undoing True s"
  shows "\<exists>s'. u_keys True (length evs) s = Some (False, s') \<and> history s' ls past (evs @ future) \<and> undoing True s' \<and>
    sp_lno (cur s') \<noteq> 0"
  using assms
proof (induction evs arbitrary: s future rule: rev_induct)
  case Nil
  then show ?case by auto
next
  case (snoc e evs)
  obtain a es b where e: "e = (a, es, b)" by (cases e) auto
  have h: "history s ls ((past @ evs) @ [(a, es, b)]) future" using snoc.prems(1) e by simp
  obtain s1 where s1: "u_key True s = Some (False, s1)" "history s1 ls (past @ evs) ((a, es, b) # future)"
    "f_undo s1" "lundo s1 = BACKWARD" "cursor_of s1 = a"
    using u_key_back [OF h snoc.prems(2,3)] by blast
  have "sp_lno (cur s1) \<noteq> 0" using history_cursors(1) [OF h, of a es b] s1(5) by (auto simp: cursor_of_def)
  moreover have "undoing True s1" using s1(4) by (simp add: undoing_def)
  ultimately obtain s' where "u_keys True (length evs) s1 = Some (False, s')"
    "history s' ls past (evs @ (a, es, b) # future)" "undoing True s'" "sp_lno (cur s') \<noteq> 0"
    using snoc.IH [OF s1(2)] by blast
  then show ?case using s1(1) e by (intro exI [of _ s']) simp
qed

text \<open>An event that was made is undone by the next \<^verbatim>\<open>u\<close> and done again by the one after it.\<close>

lemma event_undone:
  assumes i: "in_event s1 ls past a es" "es \<noteq> []" and c: "sp_lno (cur s1) \<noteq> 0"
  shows "\<exists>s2 s3. u_key False s1 = Some (False, s2) \<and> lines s2 = tl.dos past ls \<and> cursor_of s2 = a \<and>
    u_key False s2 = Some (False, s3) \<and> lines s3 = lines s1 \<and> cursor_of s3 = cursor_of s1"
proof -
  obtain s0 where s0: "log_cursor s1 = Some (False, s0)"
    "history s0 ls (past @ [(a, es, cursor_of s1)]) []" "lines s0 = lines s1" "\<not> f_undo s0"
    using event_ends [OF i c] by blast
  have "\<exists>s2. u_key False s1 = Some (False, s2) \<and> history s2 ls past [(a, es, cursor_of s1)] \<and> f_undo s2 \<and>
      lundo s2 = BACKWARD \<and> cursor_of s2 = a"
  proof (rule u_key_step [OF s0(1,2)])
    fix u m assume u: "history u ls (past @ [(a, es, cursor_of s1)]) []" "f_undo u = f_undo s0"
    have "undoing False u" using u(2) s0(4) by (simp add: undoing_def)
    with v_undo_back [OF u(1)] show "\<exists>t'. v_undo False m u = Some (False, a, t') \<and>
        history t' ls past [(a, es, cursor_of s1)] \<and> f_undo t' \<and> lundo t' = BACKWARD" by metis
  qed
  then obtain s2 where s2: "u_key False s1 = Some (False, s2)" "history s2 ls past [(a, es, cursor_of s1)]"
    "f_undo s2" "lundo s2 = BACKWARD" "cursor_of s2 = a" by blast
  have "m_lno a \<noteq> 0" using i(1) by (simp add: in_event_def)
  then have c2: "sp_lno (cur s2) \<noteq> 0" using arg_cong [OF s2(5), of m_lno] by (simp add: cursor_of_def)
  have "redoing False s2" using s2(3,4) by (simp add: redoing_def)
  then obtain s3 where s3: "u_key False s2 = Some (False, s3)"
    "history s3 ls (past @ [(a, es, cursor_of s1)]) []" "cursor_of s3 = cursor_of s1"
    using u_key_forth [OF s2(2) c2] by blast
  have "lines s2 = tl.dos past ls" using historyD(8) [OF s2(2)] .
  moreover have "lines s3 = lines s1" using historyD(8) [OF s3(2)] historyD(8) [OF s0(2)] s0(3) by simp
  ultimately show ?thesis using s2 s3 by blast
qed

text \<open>
  C4: undo restores and redo repeats. Whatever valid line changes a command makes to a file with a
  coherent cache, the \<open>u\<close> that follows it brings every line, and the cursor, back to
  where they were when the command began; a second \<open>u\<close> brings back the command's result and its final
  cursor.
\<close>

theorem undo_then_redo:
  assumes h: "history s ls past future" and t: "text_ok s" and cs: "cs \<noteq> []" "cmds_ok cs (lines s)"
  shows "\<exists>s1. run_cmds cs s = Some (False, s1) \<and> lines s1 = cmds_do cs (lines s) \<and>
    (sp_lno (cur s1) \<noteq> 0 \<longrightarrow>
      (\<exists>s2 s3. u_key False s1 = Some (False, s2) \<and> lines s2 = lines s \<and> cursor_of s2 = l_cursor s \<and>
        u_key False s2 = Some (False, s3) \<and> lines s3 = cmds_do cs (lines s) \<and> cursor_of s3 = cursor_of s1))"
proof -
  obtain s1 es where s1: "run_cmds cs s = Some (False, s1)" "in_event s1 ls past (l_cursor s) es"
    "length es = length cs" "lines s1 = cmds_do cs (lines s)"
    using run_cmds_event [OF event_starts [OF h t] cs(2)] by auto
  have "es \<noteq> []" using s1(3) cs(1) by auto
  then show ?thesis using s1(1,4) event_undone [OF s1(2)] historyD(8) [OF h] by auto
qed

theorem undo_then_redo_witness:
  "\<exists>s1. run_cmds [C_DELETE 2, C_APPEND True 1 ''xy'', C_SET 1 ''z''] (opened [''a'', ''b'']) = Some (False, s1) \<and>
    lines s1 = [''z'', ''xy'']"
  using undo_then_redo [OF opened_history, of "[''a'', ''b'']" "[C_DELETE 2, C_APPEND True 1 ''xy'', C_SET 1 ''z'']"]
  by (auto simp: cmds_do_def delete_at_def insert_at_def)

text \<open>
  C40: undo goes back any number of changes. After \<open>n\<close> events, \<open>u\<close> followed by \<open>n - 1\<close> repeats
  of it all succeed and leave the file as it was before the \<open>n\<close> events, all of which can then be
  redone.
\<close>

theorem undo_many:
  assumes "history s ls (past @ evs) future" and "sp_lno (cur s) \<noteq> 0" and "undoing True s"
  shows "\<exists>s'. u_keys True (length evs) s = Some (False, s') \<and> lines s' = tl.dos past ls \<and>
    history s' ls past (evs @ future)"
  using u_keys_back [OF assms] historyD(8) by blast

theorem undo_many_witness:
  "\<exists>s'. u_keys True 2 (replayable [''ab''] [(\<lparr>m_lno = 1, m_cno = 0\<rparr>, [E_SET 1 ''ab'' ''cd''], \<lparr>m_lno = 1, m_cno = 0\<rparr>),
      (\<lparr>m_lno = 1, m_cno = 0\<rparr>, [E_ADD False 1 ''ef''], \<lparr>m_lno = 1, m_cno = 0\<rparr>)] []) = Some (False, s') \<and> lines s' = [''ab'']"
  using undo_many [OF replayable_history, of "[]" "[(\<lparr>m_lno = 1, m_cno = 0\<rparr>, [E_SET 1 ''ab'' ''cd''], \<lparr>m_lno = 1, m_cno = 0\<rparr>),
      (\<lparr>m_lno = 1, m_cno = 0\<rparr>, [E_ADD False 1 ''ef''], \<lparr>m_lno = 1, m_cno = 0\<rparr>)]" "[]" "[''ab'']"]
  by (auto simp: event_ok_def undoing_def replayable_def numeral_2_eq_2)

subsection \<open>Where undo goes wrong\<close>

text \<open>
  Undo of a delete brings back a mark that had been deleted before: the deleted mark is logged again, and undoing the
  record sets it.
\<close>

theorem undo_resurrects_mark:
  "map_option (\<lambda>(e, s). (e, lines s, map (\<lambda>m. (lm_name m, lm_deleted m)) (marks s)))
     (do {
        (e, s1) \<leftarrow> db_delete 1 ((opened [''a'', ''b''])\<lparr>marks :=
           [\<lparr>lm_lno = 1, lm_cno = 0, lm_name = CHR ''q'', lm_deleted = True, lm_userset = True\<rparr>]\<rparr>);
        u_key False s1 })
   = Some (False, [''a'', ''b''], [(CHR ''q'', False)])"
  by code_simp

text \<open>
  In ex the log has no record that ends a command, so an undone command cannot be done again: the redo runs off the end of the
  log, which is thrown away, and logging stays off.
\<close>

theorem ex_redo_fails:
  "map_option (\<lambda>(e, s). (e, lines s, f_nolog s, l_cur s))
     (do {
        (e, s1) \<leftarrow> db_append True 0 ''x'' (opened []);
        (e, s2) \<leftarrow> ex_undo s1;
        ex_undo s2 })
   = Some (True, [''x''], True, 1)"
  by code_simp

end
