(* ===== verification/Space.thy ===== *)
theory Space
  imports State
begin

section \<open>Temporary space (common/mem.h)\<close>

text \<open>
  The \<^verbatim>\<open>GET_SPACE\<close>, \<^verbatim>\<open>ADD_SPACE\<close> and \<^verbatim>\<open>FREE_SPACE\<close> macros: a routine borrows the
  editor's temporary buffer if it is free and allocates one otherwise. A buffer is described by
  whether it is the shared one and by its size; a buffer of size 0 is the null pointer. Writing
  beyond the size is undefined.
\<close>

type_synonym space = "bool \<times> nat"

text \<open>\<^verbatim>\<open>GET_SPACE_RET\<close>: no buffer when the allocation fails.\<close>

definition get_space :: "nat \<Rightarrow> ed \<Rightarrow> space option \<times> ed" where
  "get_space need s =
     (if tmp_inuse s then (map_option (\<lambda>n. (False, n)) (binc_ret (mem_ok s) 0 need), s)
      else case binc_ret (mem_ok s) (tmp_blen s) need of
             None \<Rightarrow> (None, s\<lparr>tmp_blen := 0\<rparr>)
           | Some n \<Rightarrow> (Some (True, n), s\<lparr>tmp_blen := n, tmp_inuse := True\<rparr>))"

text \<open>\<^verbatim>\<open>ADD_SPACE_RET\<close>: what was written stays.\<close>

definition add_space :: "space \<Rightarrow> nat \<Rightarrow> ed \<Rightarrow> space option \<times> ed" where
  "add_space bp need s =
     (if fst bp then
        (case binc_ret (mem_ok s) (tmp_blen s) need of
           None \<Rightarrow> (None, s\<lparr>tmp_blen := 0, tmp_inuse := False\<rparr>)
         | Some n \<Rightarrow> (Some (True, n), s\<lparr>tmp_blen := n, tmp_inuse := True\<rparr>))
      else (map_option (\<lambda>n. (False, n)) (binc_ret (mem_ok s) (snd bp) need), s))"

definition free_space :: "space \<Rightarrow> ed \<Rightarrow> ed" where
  "free_space bp s = (if fst bp then s\<lparr>tmp_inuse := False\<rparr> else s)"

text \<open>Copying into a buffer: \<open>n\<close> bytes must fit, and \<open>k\<close> bytes be there to read.\<close>

definition room :: "space \<Rightarrow> nat \<Rightarrow> unit option" where
  "room bp n = (if n \<le> snd bp then Some () else None)"

definition readable :: "nat \<Rightarrow> bytes \<Rightarrow> unit option" where
  "readable k l = (if k \<le> length l then Some () else None)"

end
