(* ===== verification/Delete.thy ===== *)
theory Delete
  imports Undo Space
begin

section \<open>Deleting text (common/delete.c)\<close>

text \<open>
  \<^verbatim>\<open>del\<close> removes the text between two marks, whole lines or characters. The lemmas say what
  is left: for each of its four cases, the lines of the file as a function of the marks.
\<close>

definition INTERRUPT_CHECK :: nat where "INTERRUPT_CHECK = 100"

subsection \<open>Operations\<close>

text \<open>
  The loops that delete the lines \<open>lno\<close>, \<open>lno - 1\<close>, \<open>\<dots>\<close>, \<open>n\<close> of them, and stop early on an
  interrupt. Whether the user interrupts at a line is the editor's \<open>interrupted\<close>.
\<close>

fun del_lines :: "nat \<Rightarrow> nat \<Rightarrow> ed \<Rightarrow> (bool \<times> ed) option" where
  "del_lines 0 lno s = Some (False, s)"
| "del_lines (Suc n) lno s =
     do {
       (e, s1) \<leftarrow> db_delete lno s;
       if e then Some (True, s1)
       else let s2 = rpt_deleted s1
            in if lno mod INTERRUPT_CHECK = 0 \<and> interrupted s2 lno then Some (False, s2)
               else del_lines n (lno - 1) s2
     }"

text \<open>
  Case 2, a delete to the end of the file. Failures on the way return without giving the
  temporary buffer back. A file line 0 would be deleted by wrapping around below it; the
  marks of every caller are at least 1.
\<close>

definition del_eof :: "mark \<Rightarrow> mark \<Rightarrow> ed \<Rightarrow> (bool \<times> ed) option" where
  "del_eof fm tm s =
     do {
       (e, s1) \<leftarrow> del_lines (m_lno tm - m_lno fm) (m_lno tm) s;
       if e then Some (True, s1) else do {
       (e, p, s2) \<leftarrow> db_get (m_lno fm) False s1;
       if e then Some (True, s2) else
       (case get_space (m_cno fm) s2 of
          (None, s3) \<Rightarrow> Some (True, s3)
        | (Some bp, s3) \<Rightarrow>
            if snd bp = 0 then Some (True, s3)
            else do {
              readable (m_cno fm) p;
              (e, s4) \<leftarrow> db_set (m_lno fm) (take (m_cno fm) p) s3;
              if e then Some (True, s4) else Some (False, free_space bp s4)
            })
     }}"

text \<open>Case 3, within one line.\<close>

definition del_within :: "mark \<Rightarrow> mark \<Rightarrow> ed \<Rightarrow> (bool \<times> ed) option" where
  "del_within fm tm s =
     do {
       (e, p, s1) \<leftarrow> db_get (m_lno fm) False s;
       if e then Some (True, s1)
       else if p = [] then Some (False, s1)
       else case get_space (length p) s1 of
              (None, s2) \<Rightarrow> Some (True, s2)
            | (Some bp, s2) \<Rightarrow> do {
                readable (m_cno fm) p;
                readable (cno_next (m_cno tm)) p;
                room bp (m_cno fm + (length p - (cno_next (m_cno tm))));
                (e, s3) \<leftarrow> db_set (m_lno fm) (take (m_cno fm) p @ drop (cno_next (m_cno tm)) p) s2;
                Some (e, free_space bp s3)
              }
     }"

text \<open>
  Case 4, over several lines: the start of the first line and the end of the last become one
  line. The end of the last line is copied unless its last character is the end of the range.
  (The check for an overflowing line length rejects a column beyond the line.) \<open>release\<close> is
  what follows the labels \<^verbatim>\<open>done\<close> and \<^verbatim>\<open>err\<close>.
\<close>

definition release :: "space option \<Rightarrow> ed \<Rightarrow> ed" where
  "release bp s = (case bp of Some b \<Rightarrow> free_space b s | None \<Rightarrow> s)"

definition del_space :: "nat \<Rightarrow> space option \<Rightarrow> ed \<Rightarrow> space option \<times> ed" where
  "del_space nlen bp s = (case bp of None \<Rightarrow> get_space nlen s | Some b \<Rightarrow> add_space b nlen s)"

definition del_join :: "mark \<Rightarrow> mark \<Rightarrow> bytes \<Rightarrow> space option \<Rightarrow> ed \<Rightarrow> (bool \<times> ed) option" where
  "del_join fm tm bline bp s =
     do {
       (e, s1) \<leftarrow> db_set (m_lno fm) bline s;
       if e then Some (True, release bp s1) else do {
       (e, s2) \<leftarrow> del_lines (m_lno tm - m_lno fm) (m_lno tm) s1;
       Some (e, release bp s2)
     }}"

definition del_tail :: "mark \<Rightarrow> mark \<Rightarrow> bytes \<Rightarrow> space option \<Rightarrow> ed \<Rightarrow> (bool \<times> ed) option" where
  "del_tail fm tm start bp s =
     do {
       (e, p, s1) \<leftarrow> db_get (m_lno tm) False s;
       if e then Some (True, release bp s1)
       else if p = [] \<or> m_cno tm = length p - 1 then del_join fm tm start bp s1
       else if length p < cno_next (m_cno tm) then Some (True, release bp s1)
       else let nlen = length p - (cno_next (m_cno tm)) + length start
            in case del_space nlen bp s1 of
                 (None, s2) \<Rightarrow> Some (True, s2)
               | (Some b, s2) \<Rightarrow> do {
                   room b nlen;
                   del_join fm tm (start @ drop (cno_next (m_cno tm)) p) (Some b) s2
                 }
     }"

definition del_across :: "mark \<Rightarrow> mark \<Rightarrow> ed \<Rightarrow> (bool \<times> ed) option" where
  "del_across fm tm s =
     (if m_cno fm = 0 then del_tail fm tm [] None s
      else do {
        (e, p, s1) \<leftarrow> db_get (m_lno fm) False s;
        if e then Some (True, s1) else
        (case get_space (m_cno fm + 256) s1 of
           (None, s2) \<Rightarrow> Some (True, s2)
         | (Some bp, s2) \<Rightarrow> do {
             readable (m_cno fm) p;
             del_tail fm tm (take (m_cno fm) p) (Some bp) s2
           })
      })"

text \<open>\<^verbatim>\<open>del\<close>.\<close>

definition del :: "mark \<Rightarrow> mark \<Rightarrow> bool \<Rightarrow> ed \<Rightarrow> (bool \<times> ed) option" where
  "del fm tm lmode s =
     (if lmode then del_lines (m_lno tm + 1 - m_lno fm) (m_lno tm) s
      else do {
        (e, lno, s1) \<leftarrow> db_last s;
        if e then Some (True, s1) else do {
        (e, eof, s2) \<leftarrow>
          (if m_lno tm < lno then Some (False, False, s1)
           else if m_lno tm = lno then
             do {
               (e, p, s2) \<leftarrow> db_get lno False s1;
               Some (e, \<not> no_cno (m_cno tm) \<and> length p \<le> m_cno tm, s2)
             }
           else Some (False, True, s1));
        if e then Some (True, s2)
        else if eof then del_eof fm tm s2
        else if m_lno tm = m_lno fm then del_within fm tm s2
        else del_across fm tm s2
      }})"

subsection \<open>Editing\<close>

text \<open>
  What the routines above the line operations need of a state: a file whose caches are in
  order, a log that is recording or off, and a user who does not interrupt.
\<close>

definition editing :: "ed \<Rightarrow> bool" where
  "editing s \<longleftrightarrow> base s \<and> screens_ok s \<and> log_ready s \<and> (text_ok s \<or> f_nolog s) \<and> (\<forall>n. \<not> interrupted s n)"

text \<open>
  \<open>evolves s s'\<close>: if \<open>s\<close> was in the course of an event of the history, \<open>s'\<close> is further on in
  the same event. \<open>becomes s ls s'\<close>: the lines are now \<open>ls\<close>, by recorded edits, and the cut
  buffers are as they were.
\<close>

definition evolves :: "ed \<Rightarrow> ed \<Rightarrow> bool" where
  "evolves s s' \<longleftrightarrow> (\<forall>ls past a es. in_event s ls past a es \<longrightarrow> (\<exists>fs. in_event s' ls past a (es @ fs)))"

definition becomes :: "ed \<Rightarrow> bytes list \<Rightarrow> ed \<Rightarrow> bool" where
  "becomes s ls s' \<longleftrightarrow> editing s' \<and> lines s' = ls \<and> evolves s s' \<and> (text_ok s \<longrightarrow> text_ok s') \<and> f_nolog s' = f_nolog s \<and>
     cutq s' = cutq s \<and> dcb_store s' = dcb_store s \<and> dcbp s' = dcbp s \<and> sp_cno (cur s') = sp_cno (cur s)"

lemma evolves_refl [simp]: "evolves s s"
  unfolding evolves_def by (metis append_Nil2)

lemma evolves_trans: "evolves s s' \<Longrightarrow> evolves s' s'' \<Longrightarrow> evolves s s''"
  unfolding evolves_def by (metis append_assoc)

lemma becomes_refl: "editing s \<Longrightarrow> becomes s (lines s) s"
  by (simp add: becomes_def)

lemma becomes_trans: "becomes s ls s' \<Longrightarrow> becomes s' ls' s'' \<Longrightarrow> becomes s ls' s''"
  using evolves_trans [of s s' s''] by (simp add: becomes_def)

lemma becomesD: "becomes s ls s' \<Longrightarrow> editing s'" "becomes s ls s' \<Longrightarrow> lines s' = ls"
  "becomes s ls s' \<Longrightarrow> text_ok s \<Longrightarrow> text_ok s'"
  by (simp_all add: becomes_def)

lemma editingD:
  assumes "editing s"
  shows "base s" "screens_ok s" "log_ready s" "\<not> sp_tinput (cur s)" "\<not> interrupted s n"
    "f_nolog s \<or> text_ok s \<or> c_lno s \<noteq> k"
  using assms screens_tinput by (auto simp: editing_def)

text \<open>A step that keeps everything the history is about.\<close>

lemma same_event:
  assumes "lines s' = lines s" "base s'" "screens_ok s'" "text_ok s \<longrightarrow> text_ok s'" "same_log s s'" "f_nolog s' = f_nolog s"
  shows "evolves s s'"
  using assms same_log_view [OF assms(5,6)]
  by (auto simp: evolves_def in_event_def same_log_def intro!: exI [of _ "[]"])

lemma keeps_becomes:
  assumes "keeps s s'" "editing s"
  shows "becomes s (lines s) s'"
proof -
  note k = keepsD(1-3) [OF assms(1)]
  note f = reads_fields [OF k(2)]
  have "screens_ok s'" using editingD(2) [OF assms(2)] f by (simp add: screens_ok_def)
  moreover have "log_ready s'"
    using editingD(3) [OF assms(2)] reads_recording [OF k(2)] f by (simp add: log_ready_def)
  ultimately have e': "editing s'"
    using assms(2) k(1,3) f(12,27) by (auto simp: editing_def)
  have "evolves s s'"
    by (rule same_event) (use k f(2,12) e' reads_same_log [OF k(2)] in \<open>simp_all add: editing_def\<close>)
  then show ?thesis using e' k(3) f(2,12,19,21,22,23) by (simp add: becomes_def)
qed

lemma changed_becomes:
  assumes e: "editing s" and c: "changed s (edit_do e (lines s)) ms (edit_recs e) s'"
    and ok: "edit_ok e (lines s)" and t: "text_ok s \<or> \<not> f_nolog s \<Longrightarrow> text_ok s'"
  shows "becomes s (edit_do e (lines s)) s'"
proof -
  have "evolves s s'"
    unfolding evolves_def
  proof (intro allI impI)
    fix ls past a es assume i: "in_event s ls past a es"
    then have "text_ok s'" using t by (simp add: in_event_def)
    from event_step [OF i c ok this] show "\<exists>fs. in_event s' ls past a (es @ fs)" by blast
  qed
  moreover have "edited s s'" using c by (simp add: changed_def)
  moreover have "log_ready s'" using c logged_ready by (auto simp: changed_def)
  ultimately show ?thesis using e c t edited_fields [of s s'] repainted_fields(1) [of "cur s" "cur s'"]
    by (auto simp: becomes_def editing_def changed_def)
qed

lemma db_append_becomes:
  assumes e: "editing s" and n: "n \<le> length (lines s)"
  shows "\<exists>s'. db_append u n l s = Some (False, s') \<and> becomes s (insert_at n l (lines s)) s'"
proof -
  obtain s' where s': "db_append u n l s = Some (False, s')"
    "changed s (insert_at n l (lines s)) (marks_inserted (length (lines s) + 1) (n + 1) (marks s)) [LOG_LINE_APPEND (n + 1) l] s'"
    "text_ok s \<or> \<not> f_nolog s \<Longrightarrow> text_ok s'"
    by (rule db_append_spec [OF editingD(1,3,2) [OF e] n]) (rule that)
  have "becomes s (edit_do (E_ADD True (n + 1) l) (lines s)) s'"
    by (rule changed_becomes [OF e _ _ s'(3)]) (use s'(2) n in simp_all)
  then show ?thesis using s'(1) by auto
qed

lemma db_set_becomes:
  assumes e: "editing s" and n: "0 < n" "n \<le> length (lines s)"
  shows "\<exists>s'. db_set n l s = Some (False, s') \<and> becomes s ((lines s)[n - 1 := l]) s'"
proof -
  obtain s' where s': "db_set n l s = Some (False, s')"
    "changed s ((lines s)[n - 1 := l]) (marks s) [LOG_LINE_RESET_B n (lines s ! (n - 1)), LOG_LINE_RESET_F n l] s'"
    "text_ok s \<or> \<not> f_nolog s \<Longrightarrow> text_ok s'"
    by (rule db_set_spec [OF editingD(1,3,2) [OF e] n]) (rule that)
  have "becomes s (edit_do (E_SET n (lines s ! (n - 1)) l) (lines s)) s'"
    by (rule changed_becomes [OF e _ _ s'(3)]) (use s'(2) n in simp_all)
  then show ?thesis using s'(1) by auto
qed

lemma db_delete_becomes:
  assumes e: "editing s" and n: "0 < n" "n \<le> length (lines s)"
  shows "\<exists>s'. db_delete n s = Some (False, s') \<and> becomes s (delete_at (n - 1) (lines s)) s'"
proof -
  obtain s' where s': "db_delete n s = Some (False, s')"
    "changed s (delete_at (n - 1) (lines s)) (map (mark_dropped n) (marks s))
       (mark_recs n (marks s) @ [LOG_LINE_DELETE n (lines s ! (n - 1))]) s'"
    "text_ok s \<or> \<not> f_nolog s \<Longrightarrow> text_ok s'"
    by (rule db_delete_spec [OF editingD(1,3,2) [OF e] n editingD(6) [OF e]]) (rule that)
  let ?dm = "map (\<lambda>m. m\<lparr>lm_deleted := True\<rparr>) (filter (\<lambda>m. lm_lno m = n) (marks s))"
  have "becomes s (edit_do (E_DEL ?dm n (lines s ! (n - 1))) (lines s)) s'"
    by (rule changed_becomes [OF e _ _ s'(3)]) (use s'(2) n in \<open>simp_all add: mark_recs_def comp_def\<close>)
  then show ?thesis using s'(1) by auto
qed

lemma binc_ok: "base s \<Longrightarrow> \<exists>k. binc_ret (mem_ok s) a n = Some k"
  by (rule binc_ret_total) (simp add: base_mem)

text \<open>Counting and borrowing space do not touch the file.\<close>

lemma counters_becomes:
  assumes e: "editing s" and c: "\<exists>a b d e. f (cur s) = counters a b d e (cur s)"
  shows "becomes s (lines s) (upd_cur f s)"
proof -
  obtain a b d e where c: "f (cur s) = counters a b d e (cur s)" using c by blast
  have ok: "screens_ok (upd_cur f s)" using editingD(2) [OF e] c by (simp add: screens_ok_def)
  have tx: "text_ok (upd_cur f s) = text_ok s" by (simp add: text_ok_def)
  have lg: "same_log s (upd_cur f s)" by (simp add: same_log_def)
  have "log_ready (upd_cur f s)" using editingD(3) [OF e] same_log_view(5) [OF lg] by (simp add: log_ready_def)
  moreover have "sp_cno (f (cur s)) = sp_cno (cur s)" using c by (simp add: counters_def)
  ultimately show ?thesis using e ok tx same_event [of "upd_cur f s" s] lg
    by (simp add: becomes_def editing_def)
qed

lemma rpt_becomes:
  assumes "editing s"
  shows "becomes s (lines s) (rpt_deleted s)" "becomes s (lines s) (rpt_added s)" "becomes s (lines s) (rpt_changed n s)"
proof -
  have 1: "c\<lparr>sp_deleted := sp_deleted c + 1\<rparr> = counters (sp_rptlchange c) (sp_added c) (sp_changed c) (sp_deleted c + 1) c"
    "c\<lparr>sp_added := sp_added c + 1\<rparr> = counters (sp_rptlchange c) (sp_added c + 1) (sp_changed c) (sp_deleted c) c"
    "(if sp_rptlchange c \<noteq> n then c\<lparr>sp_rptlchange := n, sp_changed := sp_changed c + 1\<rparr> else c) =
      counters n (sp_added c) (if sp_rptlchange c \<noteq> n then sp_changed c + 1 else sp_changed c) (sp_deleted c) c" for c
    by (simp_all add: counters_def)
  show "becomes s (lines s) (rpt_deleted s)" "becomes s (lines s) (rpt_added s)" "becomes s (lines s) (rpt_changed n s)"
    unfolding rpt_deleted_def rpt_added_def rpt_changed_def
    by (rule counters_becomes [OF assms], intro exI, rule 1)+
qed

lemma tmp_becomes:
  assumes e: "editing s"
  shows "becomes s (lines s) (s\<lparr>tmp_inuse := b\<rparr>)" "becomes s (lines s) (s\<lparr>tmp_blen := n\<rparr>)"
    "becomes s (lines s) (s\<lparr>tmp_blen := n, tmp_inuse := b\<rparr>)"
proof -
  have tmp: "becomes s (lines s) (s\<lparr>tmp_blen := k, tmp_inuse := c\<rparr>)" for k c
  proof -
    let ?s = "s\<lparr>tmp_blen := k, tmp_inuse := c\<rparr>"
    have lg: "same_log s ?s" by (simp add: same_log_def)
    have b: "base ?s" "screens_ok ?s" "text_ok ?s = text_ok s"
      using editingD(1,2) [OF e] by (simp_all add: base_def count_ok_def screens_ok_def text_ok_def)
    have "log_ready ?s" using editingD(3) [OF e] same_log_view(5) [OF lg] by (simp add: log_ready_def)
    then show ?thesis using e b same_event [of ?s s] lg by (simp add: becomes_def editing_def)
  qed
  show "becomes s (lines s) (s\<lparr>tmp_blen := n, tmp_inuse := b\<rparr>)" by (rule tmp)
  show "becomes s (lines s) (s\<lparr>tmp_inuse := b\<rparr>)" using tmp [where k = "tmp_blen s" and c = b] by simp
  show "becomes s (lines s) (s\<lparr>tmp_blen := n\<rparr>)" using tmp [where k = n and c = "tmp_inuse s"] by simp
qed

lemma free_space_becomes: "editing s \<Longrightarrow> becomes s (lines s) (free_space bp s)"
  using tmp_becomes(1) becomes_refl by (simp add: free_space_def)

lemma get_space_becomes:
  assumes e: "editing s"
  obtains bp s' where "get_space n s = (Some bp, s')" and "n \<le> snd bp" and "becomes s (lines s) s'"
    and "cur s' = cur s"
proof (cases "tmp_inuse s")
  case True
  obtain k where "binc_ret (mem_ok s) 0 n = Some k" using binc_ok [OF editingD(1) [OF e]] by blast
  then show ?thesis using that [of "(False, k)" s] True becomes_refl [OF e] binc_ret_enough by (simp add: get_space_def)
next
  case False
  obtain k where "binc_ret (mem_ok s) (tmp_blen s) n = Some k" using binc_ok [OF editingD(1) [OF e]] by blast
  then show ?thesis
    using that [of "(True, k)" "s\<lparr>tmp_blen := k, tmp_inuse := True\<rparr>"] False tmp_becomes(3) [OF e] binc_ret_enough
    by (simp add: get_space_def)
qed

lemma add_space_becomes:
  assumes e: "editing s"
  obtains b1 s' where "add_space bp n s = (Some b1, s')" and "n \<le> snd b1" and "becomes s (lines s) s'"
    and "cur s' = cur s"
proof (cases "fst bp")
  case False
  obtain k where "binc_ret (mem_ok s) (snd bp) n = Some k" using binc_ok [OF editingD(1) [OF e]] by blast
  then show ?thesis using that [of "(False, k)" s] False becomes_refl [OF e] binc_ret_enough by (simp add: add_space_def)
next
  case True
  obtain k where "binc_ret (mem_ok s) (tmp_blen s) n = Some k" using binc_ok [OF editingD(1) [OF e]] by blast
  then show ?thesis
    using that [of "(True, k)" "s\<lparr>tmp_blen := k, tmp_inuse := True\<rparr>"] True tmp_becomes(3) [OF e] binc_ret_enough
    by (simp add: add_space_def)
qed

lemma db_get_becomes:
  assumes e: "editing s" and n: "0 < n" "n \<le> length (lines s)" and t: "text_ok s"
  shows "\<exists>s'. db_get n nc s = Some (False, lines s ! (n - 1), s') \<and> becomes s (lines s) s' \<and> text_ok s' \<and> cur s' = cur s"
proof -
  have "\<not> sp_tinput (cur s) \<or> nc" using editingD(4) [OF e] by simp
  from db_get_base [OF editingD(1) [OF e] n this] t
  obtain s' where s': "db_get n nc s = Some (False, lines s ! (n - 1), s')" "keeps s s'" "text_ok s'" by blast
  then show ?thesis using keeps_becomes [OF s'(2) e] reads_fields [OF keepsD(2) [OF s'(2)]] by auto
qed

subsection \<open>What is deleted\<close>

lemma del_lines_becomes:
  assumes "editing s" and "n \<le> lno" and "lno \<le> length (lines s)"
  shows "\<exists>s'. del_lines n lno s = Some (False, s') \<and> becomes s (take (lno - n) (lines s) @ drop lno (lines s)) s'"
  using assms
proof (induction n arbitrary: lno s)
  case 0
  then show ?case using becomes_refl by simp
next
  case (Suc n)
  have l: "0 < lno" using Suc.prems(2) by simp
  obtain s1 where s1: "db_delete lno s = Some (False, s1)" "becomes s (delete_at (lno - 1) (lines s)) s1"
    using db_delete_becomes [OF Suc.prems(1) l Suc.prems(3)] by blast
  note r = rpt_becomes(1) [OF becomesD(1) [OF s1(2)]]
  have b: "becomes s (delete_at (lno - 1) (lines s)) (rpt_deleted s1)"
    using becomes_trans [OF s1(2) r] becomesD(2) [OF s1(2)] by simp
  let ?ls = "delete_at (lno - 1) (lines s)"
  have ls: "lines (rpt_deleted s1) = ?ls" using becomesD(2) [OF b] .
  have "n \<le> lno - 1" "lno - 1 \<le> length (lines (rpt_deleted s1))"
    using Suc.prems(2,3) l ls by auto
  then obtain s' where s': "del_lines n (lno - 1) (rpt_deleted s1) = Some (False, s')"
    "becomes (rpt_deleted s1) (take (lno - 1 - n) ?ls @ drop (lno - 1) ?ls) s'"
    using Suc.IH [OF becomesD(1) [OF b], of "lno - 1"] ls by auto
  have "take (lno - 1 - n) ?ls @ drop (lno - 1) ?ls = take (lno - Suc n) (lines s) @ drop lno (lines s)"
    using l Suc.prems(2,3) by (auto simp: delete_at_def min_def)
  then show ?case
    using s1(1) s'(1) becomes_trans [OF b s'(2)] editingD(5) [OF becomesD(1) [OF b]] by simp
qed

text \<open>The text between two marks, and what is left when it goes.\<close>

definition without :: "mark \<Rightarrow> mark \<Rightarrow> bytes list \<Rightarrow> bytes list" where
  "without fm tm ls =
     take (m_lno fm - 1) ls @
     [take (m_cno fm) (ls ! (m_lno fm - 1)) @ drop (cno_next (m_cno tm)) (ls ! (m_lno tm - 1))] @
     drop (m_lno tm) ls"

definition marks_ok :: "mark \<Rightarrow> mark \<Rightarrow> bytes list \<Rightarrow> bool" where
  "marks_ok fm tm ls \<longleftrightarrow> 0 < m_lno fm \<and> m_lno fm \<le> m_lno tm \<and> m_lno tm \<le> length ls \<and>
     m_cno fm \<le> length (ls ! (m_lno fm - 1)) \<and> length (ls ! (m_lno tm - 1)) \<le> SIZE_MAX"

text \<open>The range reaches the end of the file: its last column is beyond the last line, and is not the one below 0.\<close>

definition to_eof :: "mark \<Rightarrow> bytes list \<Rightarrow> bool" where
  "to_eof tm ls \<longleftrightarrow> m_lno tm = length ls \<and> \<not> no_cno (m_cno tm) \<and> length (ls ! (m_lno tm - 1)) \<le> m_cno tm"

lemma del_within_becomes:
  assumes e: "editing s" and t: "text_ok s" and m: "marks_ok fm tm (lines s)" and l: "m_lno fm = m_lno tm"
    and c: "m_cno fm \<le> cno_next (m_cno tm)" "cno_next (m_cno tm) \<le> length (lines s ! (m_lno fm - 1))"
      "lines s ! (m_lno fm - 1) \<noteq> []"
  shows "\<exists>s'. del_within fm tm s = Some (False, s') \<and> becomes s (without fm tm (lines s)) s'"
proof -
  let ?p = "lines s ! (m_lno fm - 1)"
  have n: "0 < m_lno fm" "m_lno fm \<le> length (lines s)" using m by (simp_all add: marks_ok_def)
  obtain s1 where s1: "db_get (m_lno fm) False s = Some (False, ?p, s1)" "becomes s (lines s) s1"
    using db_get_becomes [OF e n t] by blast
  obtain bp s2 where s2: "get_space (length ?p) s1 = (Some bp, s2)" "length ?p \<le> snd bp" "becomes s1 (lines s1) s2"
    by (rule get_space_becomes [OF becomesD(1) [OF s1(2)]])
  have b2: "becomes s (lines s) s2" using becomes_trans [OF s1(2) s2(3)] becomesD(2) [OF s1(2)] by simp
  have l2: "lines s2 = lines s" by (rule becomesD(2) [OF b2])
  have n2: "m_lno fm \<le> length (lines s2)" using n l2 by simp
  let ?new = "take (m_cno fm) ?p @ drop (cno_next (m_cno tm)) ?p"
  obtain s3 where s3: "db_set (m_lno fm) ?new s2 = Some (False, s3)" "becomes s2 ((lines s2)[m_lno fm - 1 := ?new]) s3"
    using db_set_becomes [OF becomesD(1) [OF b2] n(1) n2] by blast
  let ?s' = "free_space bp s3"
  have b3: "becomes s ((lines s)[m_lno fm - 1 := ?new]) ?s'"
    using becomes_trans [OF becomes_trans [OF b2 s3(2)] free_space_becomes [OF becomesD(1) [OF s3(2)]]]
      becomesD(2) [OF s3(2)] l2 by simp
  note ne = c(3)
  have "del_within fm tm s = Some (False, ?s')"
    using s1(1) s2(1) s3(1) ne c s2(2) m by (simp add: del_within_def readable_def room_def)
  moreover have "(lines s)[m_lno fm - 1 := ?new] = without fm tm (lines s)"
    using n l by (simp add: without_def upd_conv_take_nth_drop)
  ultimately show ?thesis using b3 by metis
qed

lemma take_update_small: "m \<le> n \<Longrightarrow> take m (xs[n := x]) = take m xs"
  by (simp add: take_update_swap list_update_beyond)

lemma release_becomes: "editing s \<Longrightarrow> becomes s (lines s) (release bp s)"
  using free_space_becomes becomes_refl by (simp add: release_def split: option.split)

lemma del_space_becomes:
  assumes e: "editing s"
  obtains b s' where "del_space n bp s = (Some b, s')" and "n \<le> snd b" and "becomes s (lines s) s'"
proof (cases bp)
  case None
  then show ?thesis using get_space_becomes [OF e, of n] that by (auto simp: del_space_def)
next
  case (Some b0)
  then show ?thesis using add_space_becomes [OF e, of b0 n] that by (auto simp: del_space_def)
qed

lemma del_join_becomes:
  assumes e: "editing s" and m: "marks_ok fm tm (lines s)" and lt: "m_lno fm < m_lno tm"
    and new: "new = take (m_cno fm) (lines s ! (m_lno fm - 1)) @ drop (cno_next (m_cno tm)) (lines s ! (m_lno tm - 1))"
  shows "\<exists>s'. del_join fm tm new bp s = Some (False, s') \<and> becomes s (without fm tm (lines s)) s'"
proof -
  have n: "0 < m_lno fm" "m_lno fm \<le> length (lines s)" "m_lno tm \<le> length (lines s)"
    using m lt by (auto simp: marks_ok_def)
  obtain s3 where s3: "db_set (m_lno fm) new s = Some (False, s3)" "becomes s ((lines s)[m_lno fm - 1 := new]) s3"
    using db_set_becomes [OF e n(1,2)] by blast
  have l3: "lines s3 = (lines s)[m_lno fm - 1 := new]" using becomesD(2) [OF s3(2)] .
  have k: "m_lno tm - m_lno fm \<le> m_lno tm" "m_lno tm \<le> length (lines s3)" using n l3 by simp_all
  obtain s4 where s4: "del_lines (m_lno tm - m_lno fm) (m_lno tm) s3 = Some (False, s4)"
    "becomes s3 (take (m_lno tm - (m_lno tm - m_lno fm)) (lines s3) @ drop (m_lno tm) (lines s3)) s4"
    using del_lines_becomes [OF becomesD(1) [OF s3(2)] k] by blast
  have res: "take (m_lno tm - (m_lno tm - m_lno fm)) (lines s3) @ drop (m_lno tm) (lines s3) = without fm tm (lines s)"
    unfolding l3 using n lt new
    by (cases "m_lno fm") (simp_all add: without_def take_Suc_update drop_update_cancel)
  have b4: "becomes s (without fm tm (lines s)) s4"
    using becomes_trans [OF s3(2) s4(2)] res by simp
  then show ?thesis
    using s3(1) s4(1) becomes_trans [OF b4 release_becomes [OF becomesD(1) [OF b4]]] becomesD(2) [OF b4]
    by (simp add: del_join_def)
qed

lemma del_tail_becomes:
  assumes e: "editing s" and t: "text_ok s" and m: "marks_ok fm tm (lines s)" and lt: "m_lno fm < m_lno tm"
    and c: "cno_next (m_cno tm) \<le> length (lines s ! (m_lno tm - 1)) \<or> lines s ! (m_lno tm - 1) = []"
    and st: "start = take (m_cno fm) (lines s ! (m_lno fm - 1))"
  shows "\<exists>s'. del_tail fm tm start bp s = Some (False, s') \<and> becomes s (without fm tm (lines s)) s'"
proof -
  let ?p = "lines s ! (m_lno tm - 1)"
  have n: "0 < m_lno tm" "m_lno tm \<le> length (lines s)" using m lt by (auto simp: marks_ok_def)
  obtain s1 where s1: "db_get (m_lno tm) False s = Some (False, ?p, s1)" "becomes s (lines s) s1"
    using db_get_becomes [OF e n t] by blast
  note e1 = becomesD(1) [OF s1(2)] and l1 = becomesD(2) [OF s1(2)]
  have m1: "marks_ok fm tm (lines s1)" using m l1 by simp
  show ?thesis
  proof (cases "?p = [] \<or> m_cno tm = length ?p - 1")
    case True
    have "length ?p \<le> SIZE_MAX" using m by (simp add: marks_ok_def)
    then have "drop (cno_next (m_cno tm)) ?p = []" using True by (cases ?p) (auto simp: cno_next_def no_cno_def)
    then show ?thesis using del_join_becomes [OF e1 m1 lt, of start bp] True s1(1) l1 st becomes_trans [OF s1(2)]
      by (auto simp: del_tail_def)
  next
    case False
    let ?nlen = "length ?p - (cno_next (m_cno tm)) + length start"
    obtain b s2 where s2: "del_space ?nlen bp s1 = (Some b, s2)" "?nlen \<le> snd b" "becomes s1 (lines s1) s2"
      by (rule del_space_becomes [OF e1])
    have b2: "becomes s (lines s) s2" using becomes_trans [OF s1(2) s2(3)] l1 by simp
    note l2 = becomesD(2) [OF b2]
    have m2: "marks_ok fm tm (lines s2)" using m l2 by simp
    have "\<not> length ?p < cno_next (m_cno tm)" using c False by auto
    then show ?thesis
      using del_join_becomes [OF becomesD(1) [OF b2] m2 lt, of "start @ drop (cno_next (m_cno tm)) ?p" "Some b"]
        False s1(1) s2(1,2) l2 st becomes_trans [OF b2] by (auto simp: del_tail_def room_def)
  qed
qed

lemma del_across_becomes:
  assumes e: "editing s" and t: "text_ok s" and m: "marks_ok fm tm (lines s)" and lt: "m_lno fm < m_lno tm"
    and c: "cno_next (m_cno tm) \<le> length (lines s ! (m_lno tm - 1)) \<or> lines s ! (m_lno tm - 1) = []"
  shows "\<exists>s'. del_across fm tm s = Some (False, s') \<and> becomes s (without fm tm (lines s)) s'"
proof (cases "m_cno fm = 0")
  case True
  then show ?thesis using del_tail_becomes [OF e t m lt c, of "[]" None] by (simp add: del_across_def)
next
  case False
  let ?p = "lines s ! (m_lno fm - 1)"
  have n: "0 < m_lno fm" "m_lno fm \<le> length (lines s)" using m by (auto simp: marks_ok_def)
  obtain s1 where s1: "db_get (m_lno fm) False s = Some (False, ?p, s1)" "becomes s (lines s) s1" "text_ok s1"
    using db_get_becomes [OF e n t] by blast
  obtain bp s2 where s2: "get_space (m_cno fm + 256) s1 = (Some bp, s2)" "becomes s1 (lines s1) s2"
    by (rule get_space_becomes [OF becomesD(1) [OF s1(2)]])
  have l1: "lines s1 = lines s" by (rule becomesD(2) [OF s1(2)])
  have b2: "becomes s (lines s) s2" using becomes_trans [OF s1(2) s2(2)] l1 by simp
  have l2: "lines s2 = lines s" by (rule becomesD(2) [OF b2])
  have t2: "text_ok s2" using s2(1) s1(3) by (auto simp: get_space_def text_ok_def split: if_splits option.splits)
  obtain s' where "del_tail fm tm (take (m_cno fm) ?p) (Some bp) s2 = Some (False, s')"
    "becomes s2 (without fm tm (lines s)) s'"
    using del_tail_becomes [OF becomesD(1) [OF b2] t2, of fm tm "take (m_cno fm) ?p" "Some bp"] m lt c l2 by auto
  then show ?thesis using s1(1) s2(1) False m becomes_trans [OF b2]
    by (auto simp: del_across_def readable_def marks_ok_def)
qed

lemma del_eof_becomes:
  assumes e: "editing s" and t: "text_ok s" and m: "marks_ok fm tm (lines s)" and last: "m_lno tm = length (lines s)"
    and c: "length (lines s ! (m_lno tm - 1)) \<le> m_cno tm" "\<not> no_cno (m_cno tm)" and pos: "0 < m_cno fm"
  shows "\<exists>s'. del_eof fm tm s = Some (False, s') \<and> becomes s (without fm tm (lines s)) s'"
proof -
  let ?p = "lines s ! (m_lno fm - 1)"
  have n: "0 < m_lno fm" "m_lno fm \<le> m_lno tm" "m_cno fm \<le> length ?p" using m by (auto simp: marks_ok_def)
  obtain s1 where s1: "del_lines (m_lno tm - m_lno fm) (m_lno tm) s = Some (False, s1)"
    "becomes s (take (m_lno tm - (m_lno tm - m_lno fm)) (lines s) @ drop (m_lno tm) (lines s)) s1"
    using del_lines_becomes [OF e, of "m_lno tm - m_lno fm" "m_lno tm"] last by auto
  have l1: "lines s1 = take (m_lno fm) (lines s)" using becomesD(2) [OF s1(2)] n last by simp
  have n1: "m_lno fm \<le> length (lines s1)" "lines s1 ! (m_lno fm - 1) = ?p" using l1 n last by simp_all
  note e1 = becomesD(1) [OF s1(2)]
  have "\<not> sp_tinput (cur s1) \<or> False" using editingD(4) [OF e1] by simp
  from db_get_base [OF editingD(1) [OF e1] n(1) n1(1) this]
  obtain l s2 where g: "db_get (m_lno fm) False s1 = Some (False, l, s2)" "keeps s1 s2"
    "text_ok s1 \<or> False \<or> c_lno s1 \<noteq> m_lno fm \<longrightarrow> l = lines s1 ! (m_lno fm - 1) \<and> text_ok s2" by blast
  have l: "l = ?p" using g(3) n1(2) becomesD(3) [OF s1(2) t] by simp
  have b2: "becomes s (lines s1) s2" using becomes_trans [OF s1(2) keeps_becomes [OF g(2) e1]] by simp
  have l2: "lines s2 = lines s1" by (rule becomesD(2) [OF b2])
  obtain bp s3 where s3: "get_space (m_cno fm) s2 = (Some bp, s3)" "m_cno fm \<le> snd bp" "becomes s2 (lines s2) s3"
    by (rule get_space_becomes [OF becomesD(1) [OF b2]])
  have l3: "lines s3 = lines s1" using becomesD(2) [OF s3(3)] l2 by simp
  have n3: "m_lno fm \<le> length (lines s3)" using n1 l3 by simp
  obtain s4 where s4: "db_set (m_lno fm) (take (m_cno fm) ?p) s3 = Some (False, s4)"
    "becomes s3 ((lines s3)[m_lno fm - 1 := take (m_cno fm) ?p]) s4"
    using db_set_becomes [OF becomesD(1) [OF s3(3)] n(1) n3] by blast
  have "(lines s3)[m_lno fm - 1 := take (m_cno fm) ?p] = without fm tm (lines s)"
    unfolding l3 l1 using n last c by (simp add: without_def upd_conv_take_nth_drop min_def cno_next_def)
  then have "becomes s (without fm tm (lines s)) (free_space bp s4)"
    using becomes_trans [OF becomes_trans [OF becomes_trans [OF b2 s3(3)] s4(2)] free_space_becomes [OF becomesD(1) [OF s4(2)]]]
      becomesD(2) [OF s4(2)] by simp
  moreover have "del_eof fm tm s = Some (False, free_space bp s4)"
    using s1(1) g(1) s3(1,2) s4(1) pos n(3) by (simp add: del_eof_def l readable_def)
  ultimately show ?thesis by blast
qed

lemma del_chars_spec:
  assumes "editing s" "text_ok s" "marks_ok fm tm (lines s)"
    and "m_lno fm = m_lno tm \<Longrightarrow> m_cno fm \<le> cno_next (m_cno tm) \<and> lines s ! (m_lno tm - 1) \<noteq> []"
    and "if to_eof tm (lines s) then 0 < m_cno fm
         else cno_next (m_cno tm) \<le> length (lines s ! (m_lno tm - 1)) \<or> lines s ! (m_lno tm - 1) = []"
  shows "\<exists>s'. del fm tm False s = Some (False, s') \<and> becomes s (without fm tm (lines s)) s'"
proof -
  note e = assms(1) and t = assms(2) and m = assms(3)
  have n: "0 < m_lno tm" "m_lno tm \<le> length (lines s)" "m_lno fm \<le> m_lno tm" using m by (auto simp: marks_ok_def)
  obtain s1 where s1: "db_last s = Some (False, length (lines s), s1)" "keeps s s1"
    using db_last_base [OF editingD(1) [OF e] editingD(4) [OF e]] by blast
  have b1: "becomes s (lines s) s1" using keeps_becomes [OF s1(2) e] .
  note e1 = becomesD(1) [OF b1] and t1 = becomesD(3) [OF b1 t] and l1 = becomesD(2) [OF b1]
  let ?eof = "to_eof tm (lines s)"
  obtain s2 where s2: "(if m_lno tm < length (lines s) then Some (False, False, s1)
       else if m_lno tm = length (lines s) then
         do { (e, p, s2) \<leftarrow> db_get (length (lines s)) False s1; Some (e, \<not> no_cno (m_cno tm) \<and> length p \<le> m_cno tm, s2) }
       else Some (False, True, s1)) = Some (False, ?eof, s2)" "becomes s (lines s) s2"
  proof (cases "m_lno tm = length (lines s)")
    case True
    have k: "0 < length (lines s)" "length (lines s) \<le> length (lines s1)" using n True l1 by simp_all
    obtain s2 where "db_get (length (lines s)) False s1 = Some (False, lines s1 ! (length (lines s) - 1), s2)"
      "becomes s1 (lines s1) s2"
      using db_get_becomes [OF e1 k t1] by blast
    then show ?thesis using that [of s2] True becomes_trans [OF b1, of "lines s1" s2] l1
      by (simp add: to_eof_def)
  next
    case False
    then show ?thesis using that [of s1] n b1 by (simp add: to_eof_def)
  qed
  note e2 = becomesD(1) [OF s2(2)] and t2 = becomesD(3) [OF s2(2) t] and l2 = becomesD(2) [OF s2(2)]
  have m2: "marks_ok fm tm (lines s2)" using m l2 by simp
  have d: "del fm tm False s =
      (if ?eof then del_eof fm tm s2 else if m_lno tm = m_lno fm then del_within fm tm s2 else del_across fm tm s2)"
    unfolding del_def using s1(1) s2(1) by (simp split del: if_split)
  have "\<exists>s'. (if ?eof then del_eof fm tm s2 else if m_lno tm = m_lno fm then del_within fm tm s2 else del_across fm tm s2)
      = Some (False, s') \<and> becomes s2 (without fm tm (lines s2)) s'"
  proof (cases ?eof)
    case True
    then have "0 < m_cno fm" using assms(5) by (metis (full_types))
    moreover have "m_lno tm = length (lines s2)" "length (lines s2 ! (m_lno tm - 1)) \<le> m_cno tm" "\<not> no_cno (m_cno tm)"
      using True l2 by (auto simp: to_eof_def)
    ultimately show ?thesis using del_eof_becomes [OF e2 t2 m2] True l2 by simp
  next
    case False
    then have c: "cno_next (m_cno tm) \<le> length (lines s ! (m_lno tm - 1)) \<or> lines s ! (m_lno tm - 1) = []"
      using assms(5) by (metis (full_types))
    show ?thesis
    proof (cases "m_lno tm = m_lno fm")
      case True
      moreover have "cno_next (m_cno tm) \<le> length (lines s2 ! (m_lno fm - 1))" "lines s2 ! (m_lno fm - 1) \<noteq> []"
        using c True l2 assms(4) by auto
      ultimately have "\<exists>s'. del_within fm tm s2 = Some (False, s') \<and> becomes s2 (without fm tm (lines s2)) s'"
        using del_within_becomes [OF e2 t2 m2] assms(4) by simp
      then show ?thesis using True unfolding if_not_P [OF False] by simp
    next
      case ne: False
      have "cno_next (m_cno tm) \<le> length (lines s2 ! (m_lno tm - 1)) \<or> lines s2 ! (m_lno tm - 1) = []" using c l2 by auto
      then show ?thesis using del_across_becomes [OF e2 t2 m2] ne n(3) unfolding if_not_P [OF False] by simp
    qed
  qed
  then show ?thesis unfolding d [symmetric] l2 using becomes_trans [OF s2(2)] by blast
qed

text \<open>
  C6: \<open>del\<close> in character mode removes exactly the text between the two marks, both included, and
  joins what is left of the first and the last line, in every case: within a line, across
  lines, and to the end of the file. (In that last case the first mark must not be in column 0.)
  A last column one below 0, as \<open>w\<close> on an empty line has it, deletes up to the start of the last
  line.
  The edits are recorded, so \<open>u\<close> takes them back.
\<close>

theorem del_characters:
  assumes "editing s" "text_ok s" "marks_ok fm tm (lines s)"
    and "m_lno fm = m_lno tm \<Longrightarrow> m_cno fm \<le> cno_next (m_cno tm) \<and> lines s ! (m_lno tm - 1) \<noteq> []"
    and "if to_eof tm (lines s) then 0 < m_cno fm
         else cno_next (m_cno tm) \<le> length (lines s ! (m_lno tm - 1)) \<or> lines s ! (m_lno tm - 1) = []"
  shows "\<exists>s'. del fm tm False s = Some (False, s') \<and> becomes s (without fm tm (lines s)) s'"
  by (rule del_chars_spec [OF assms])

lemma opened_editing [simp]: "editing (opened ls)"
  by (simp add: editing_def) (simp add: opened_def)

theorem del_characters_witness:
  "\<exists>s'. del \<lparr>m_lno = 1, m_cno = 1\<rparr> \<lparr>m_lno = 3, m_cno = 0\<rparr> False (opened [''abc'', ''de'', ''fgh'', ''i'']) = Some (False, s') \<and>
     lines s' = [''agh'', ''i'']"
  using del_characters [of "opened [''abc'', ''de'', ''fgh'', ''i'']" "\<lparr>m_lno = 1, m_cno = 1\<rparr>" "\<lparr>m_lno = 3, m_cno = 0\<rparr>"]
  by (auto simp: marks_ok_def without_def becomes_def to_eof_def SIZE_MAX_def)

lemma del_lines_mode:
  assumes "editing s" "0 < m_lno fm" "m_lno fm \<le> m_lno tm + 1" "m_lno tm \<le> length (lines s)"
  shows "\<exists>s'. del fm tm True s = Some (False, s') \<and>
    becomes s (take (m_lno fm - 1) (lines s) @ drop (m_lno tm) (lines s)) s'"
proof -
  have k: "m_lno tm + 1 - m_lno fm \<le> m_lno tm" "m_lno tm - (m_lno tm + 1 - m_lno fm) = m_lno fm - 1"
    using assms(2,3) by auto
  show ?thesis using del_lines_becomes [OF assms(1) k(1) assms(4)] unfolding k(2) by (simp add: del_def)
qed

text \<open>
  \<open>del\<close> in line mode removes exactly the lines from the first mark to the second, by recorded
  edits.
\<close>

theorem del_whole_lines:
  assumes "editing s" "0 < m_lno fm" "m_lno fm \<le> m_lno tm + 1" "m_lno tm \<le> length (lines s)"
  shows "\<exists>s'. del fm tm True s = Some (False, s') \<and>
    becomes s (take (m_lno fm - 1) (lines s) @ drop (m_lno tm) (lines s)) s'"
  by (rule del_lines_mode [OF assms])

theorem del_whole_lines_witness:
  "\<exists>s'. del \<lparr>m_lno = 2, m_cno = 1\<rparr> \<lparr>m_lno = 3, m_cno = 0\<rparr> True (opened [''abc'', ''de'', ''fgh'', ''i'']) = Some (False, s') \<and>
     lines s' = [''abc'', ''i'']"
  using del_whole_lines [of "opened [''abc'', ''de'', ''fgh'', ''i'']" "\<lparr>m_lno = 2, m_cno = 1\<rparr>" "\<lparr>m_lno = 3, m_cno = 0\<rparr>"]
  by (auto simp: becomes_def)

text \<open>
  A delete to the end of the file from column 0 fails when the temporary buffer has never been
  used: the later lines are gone, the first line is not emptied, and the temporary buffer is left
  marked as in use.
\<close>

theorem del_eof_column_zero:
  "map_option (\<lambda>(e, s). (e, lines s, tmp_inuse s))
     (del \<lparr>m_lno = 1, m_cno = 0\<rparr> \<lparr>m_lno = 2, m_cno = 2\<rparr> False (opened [''ab'', ''cd'']))
   = Some (True, [''ab''], True)"
  by code_simp

end
