(* ===== verification/Cut.thy ===== *)
theory Cut
  imports Delete
begin

section \<open>Cut buffers (common/cut.c)\<close>

text \<open>
  \<^verbatim>\<open>cut\<close> copies a range of text into the named, numbered or unnamed cut buffers;
  \<^verbatim>\<open>cb_rotate\<close> shifts the numbered ones. The named and numbered buffers are the list \<open>cutq\<close>,
  the unnamed one is \<open>dcb_store\<close>, and \<open>dcbp\<close> is the default buffer. A buffer's text is
  the list of its lines.

  The lemmas say what a cut leaves in the buffers: the lines of a line mode cut, the pieces
  of a character mode cut, and what it leaves alone.
\<close>

definition sizeof_text :: nat where "sizeof_text = 120"
definition sizeof_cb :: nat where "sizeof_cb = 56"

subsection \<open>Finding and changing a buffer\<close>

text \<open>The \<^verbatim>\<open>CBNAME\<close> macro: an upper-case name finds the buffer of the lower-case letter.\<close>

definition cb_lookup :: "char \<Rightarrow> ed \<Rightarrow> cbptr" where
  "cb_lookup nch s =
     (let n = (if is_upper nch then to_lower nch else nch)
      in if \<exists>cb \<in> set (cutq s). cb_name cb = n then CB_NAMED n else CB_NULL)"

fun upd_first :: "char \<Rightarrow> (cb \<Rightarrow> cb) \<Rightarrow> cb list \<Rightarrow> cb list" where
  "upd_first n f [] = []"
| "upd_first n f (cb # cbs) = (if cb_name cb = n then f cb # cbs else cb # upd_first n f cbs)"

definition cb_upd :: "cbptr \<Rightarrow> (cb \<Rightarrow> cb) \<Rightarrow> ed \<Rightarrow> ed" where
  "cb_upd p f s =
     (case p of
        CB_STORE \<Rightarrow> s\<lparr>dcb_store := f (dcb_store s)\<rparr>
      | CB_NAMED n \<Rightarrow> s\<lparr>cutq := upd_first n f (cutq s)\<rparr>
      | _ \<Rightarrow> s)"

definition cb_at :: "cbptr \<Rightarrow> ed \<Rightarrow> cb option" where
  "cb_at p s =
     (case p of
        CB_STORE \<Rightarrow> Some (dcb_store s)
      | CB_NAMED n \<Rightarrow> find (\<lambda>cb. cb_name cb = n) (cutq s)
      | _ \<Rightarrow> None)"

text \<open>\<^verbatim>\<open>text_lfree\<close> on the buffer's queue, with the two assignments that always follow it.\<close>

definition cb_clear :: "cb \<Rightarrow> cb" where
  "cb_clear cb = cb\<lparr>cb_textq := [], cb_len := 0, cb_lmode := False\<rparr>"

definition cb_add :: "bytes \<Rightarrow> cb \<Rightarrow> cb" where
  "cb_add l cb = cb\<lparr>cb_textq := cb_textq cb @ [l], cb_len := cb_len cb + length l\<rparr>"

subsection \<open>Operations\<close>

text \<open>
  \<^verbatim>\<open>cb_rotate\<close>. A pointer to a buffer follows it when it is renamed; the buffer \<open>9\<close> is
  freed.
\<close>

definition rotate_name :: "char \<Rightarrow> char" where
  "rotate_name c =
     (if c = CHR ''1'' then CHR ''2'' else if c = CHR ''2'' then CHR ''3''
      else if c = CHR ''3'' then CHR ''4'' else if c = CHR ''4'' then CHR ''5''
      else if c = CHR ''5'' then CHR ''6'' else if c = CHR ''6'' then CHR ''7''
      else if c = CHR ''7'' then CHR ''8'' else if c = CHR ''8'' then CHR ''9'' else c)"

definition cb_rotate :: "ed \<Rightarrow> ed" where
  "cb_rotate s =
     s\<lparr>cutq := map (\<lambda>cb. cb\<lparr>cb_name := rotate_name (cb_name cb)\<rparr>)
                 (filter (\<lambda>cb. cb_name cb \<noteq> CHR ''9'') (cutq s)),
       dcbp := (case dcbp s of
                  CB_NAMED n \<Rightarrow> if n = CHR ''9'' then CB_FREED else CB_NAMED (rotate_name n)
                | p \<Rightarrow> p)\<rparr>"

text \<open>\<^verbatim>\<open>text_init\<close>: whether the structure and its buffer can be allocated.\<close>

definition text_init :: "nat \<Rightarrow> ed \<Rightarrow> bool" where
  "text_init total_len s \<longleftrightarrow> mem_ok s sizeof_text \<and> (total_len \<noteq> 0 \<longrightarrow> mem_ok s total_len)"

text \<open>
  \<^verbatim>\<open>cut_line\<close>. \<open>clen = None\<close> is \<^verbatim>\<open>CUT_LINE_TO_EOL\<close>. Copying beyond the line, or a length
  that wrapped below zero, is undefined.
\<close>

definition cut_line :: "nat \<Rightarrow> nat \<Rightarrow> nat option \<Rightarrow> cbptr \<Rightarrow> ed \<Rightarrow> (bool \<times> ed) option" where
  "cut_line lno fcno clen p s =
     do {
       (e, l, s1) \<leftarrow> db_get lno False s;
       let len = length l;
       if e then Some (True, s1)
       else if \<not> text_init len s1 then Some (True, s1)
       else if len = 0 then Some (False, cb_upd p (cb_add []) s1)
       else case clen of
              None \<Rightarrow> if len < fcno then None else Some (False, cb_upd p (cb_add (drop fcno l)) s1)
            | Some n \<Rightarrow> if len < fcno + n then None
                        else Some (False, cb_upd p (cb_add (take n (drop fcno l))) s1)
     }"

text \<open>The loops that cut \<open>n\<close> whole lines, from \<open>lno\<close> on.\<close>

fun cut_whole :: "nat \<Rightarrow> nat \<Rightarrow> cbptr \<Rightarrow> ed \<Rightarrow> (bool \<times> ed) option" where
  "cut_whole 0 lno p s = Some (False, s)"
| "cut_whole (Suc n) lno p s =
     do {
       (e, s1) \<leftarrow> cut_line lno 0 None p s;
       if e then Some (True, s1) else cut_whole n (lno + 1) p s1
     }"

text \<open>
  The text of one pass of \<^verbatim>\<open>cut\<close>. In character mode on one line the length is
  \<open>tm.cno - fm.cno + 1\<close>, computed in \<^verbatim>\<open>size_t\<close>: two columns short of the start it is
  \<^verbatim>\<open>CUT_LINE_TO_EOL\<close>, further back it is a huge length.
\<close>

definition cut_span :: "nat \<Rightarrow> nat \<Rightarrow> nat option option" where
  "cut_span fcno tcno =
     (if fcno \<le> cno_next tcno then Some (Some (cno_next tcno - fcno))
      else if fcno = cno_next tcno + 1 then Some None
      else None)"

definition cut_text :: "bool \<Rightarrow> mark \<Rightarrow> mark \<Rightarrow> cbptr \<Rightarrow> ed \<Rightarrow> (bool \<times> ed) option" where
  "cut_text lmode fm tm p s =
     (if lmode then
        cut_whole (m_lno tm + 1 - m_lno fm) (m_lno fm) p (cb_upd p (\<lambda>cb. cb\<lparr>cb_lmode := True\<rparr>) s)
      else if m_lno fm = m_lno tm then
        (case cut_span (m_cno fm) (m_cno tm) of
           Some clen \<Rightarrow> cut_line (m_lno fm) (m_cno fm) clen p s
         | None \<Rightarrow>
             do {
               (e, l, s1) \<leftarrow> db_get (m_lno fm) False s;
               if e \<or> \<not> text_init (length l) s1 then Some (True, s1)
               else if l = [] then Some (False, cb_upd p (cb_add []) s1) else None
             })
      else do {
        (e, s1) \<leftarrow> cut_line (m_lno fm) (m_cno fm) None p s;
        if e then Some (True, s1) else do {
        (e, s2) \<leftarrow> cut_whole (m_lno tm - m_lno fm - 1) (m_lno fm + 1) p s1;
        if e then Some (True, s2)
        else cut_line (max (m_lno tm) (m_lno fm + 1)) 0 (Some (cno_next (m_cno tm))) p s2
      }})"

text \<open>
  One pass from the label \<^verbatim>\<open>copyloop\<close>: make the buffer, or empty it unless appending; cut; set
  the default buffer. A failed cut empties the buffer and leaves no default buffer.
\<close>

definition cut_pass :: "char \<Rightarrow> bool \<Rightarrow> bool \<Rightarrow> mark \<Rightarrow> mark \<Rightarrow> cbptr \<Rightarrow> ed \<Rightarrow> (bool \<times> ed) option" where
  "cut_pass name app lmode fm tm p s =
     (if p = CB_NULL \<and> \<not> mem_ok s sizeof_cb then Some (True, s)
      else
        let q = (if p = CB_NULL then CB_NAMED name else p);
            s1 = (if p = CB_NULL
                  then s\<lparr>cutq := \<lparr>cb_name = name, cb_textq = [], cb_len = 0, cb_lmode = False\<rparr> # cutq s\<rparr>
                  else if \<not> app then cb_upd p cb_clear s else s)
        in do {
          (e, s2) \<leftarrow> cut_text lmode fm tm q s1;
          if e then Some (True, (cb_upd q cb_clear s2)\<lparr>dcbp := CB_NULL\<rparr>)
          else Some (False, s2\<lparr>dcbp := q\<rparr>)
        })"

text \<open>
  \<^verbatim>\<open>cut\<close>. The flags say whether the cut is in line mode and whether a numbered buffer is
  optional or required. \<open>upper\<close> is the value the C library's \<^verbatim>\<open>isupper\<close> returns for an
  upper-case letter: the source compares it with 1.
\<close>

record cut_flags =
  cut_linemode :: bool
  cut_numopt :: bool
  cut_numreq :: bool

definition cut :: "nat \<Rightarrow> char option \<Rightarrow> mark \<Rightarrow> mark \<Rightarrow> cut_flags \<Rightarrow> ed \<Rightarrow> (bool \<times> ed) option" where
  "cut upper namep fm tm flags s =
     (if m_lno fm = 0 \<or> m_lno tm = 0 then Some (True, s)
      else
        let lm = cut_linemode flags;
            numbered = (cut_numreq flags \<or> cut_numopt flags \<and> (lm \<or> m_lno fm \<noteq> m_lno tm))
        in case namep of
             Some nm \<Rightarrow>
               let copy_one = numbered;
                   s1 = (if copy_one then cb_rotate s else s);
                   app = (is_upper nm \<and> upper \<noteq> 0);
                   is_one = (is_upper nm \<and> upper = 1);
                   copy_def = (is_one \<and> \<not> copy_one);
                   name = (if is_one then to_lower nm else nm)
               in do {
                 (e, s2) \<leftarrow> cut_pass name app lm fm tm (cb_lookup name s1) s1;
                 if e then Some (True, s2)
                 else if copy_one then cut_pass name False lm fm tm (cb_lookup name s2) s2
                 else if copy_def then cut_pass name False lm fm tm CB_STORE s2
                 else Some (False, s2)
               }
           | None \<Rightarrow>
               if numbered then
                 let s1 = cb_rotate s
                 in cut_pass (CHR ''1'') False lm fm tm (cb_lookup (CHR ''1'') s1) s1
               else cut_pass (CHR ''1'') False lm fm tm CB_STORE s)"

text \<open>\<^verbatim>\<open>cut_close\<close>.\<close>

definition cut_close :: "ed \<Rightarrow> ed" where
  "cut_close s = s\<lparr>cutq := [], dcb_store := (dcb_store s)\<lparr>cb_textq := []\<rparr>\<rparr>"

subsection \<open>What a cut leaves in a buffer\<close>

lemma upd_first_comp:
  "(\<And>cb. cb_name (f cb) = cb_name cb) \<Longrightarrow> upd_first n g (upd_first n f cbs) = upd_first n (\<lambda>cb. g (f cb)) cbs"
  by (induction cbs) auto

lemma upd_first_id: "upd_first n (\<lambda>cb. cb) cbs = cbs"
  by (induction cbs) auto

lemma cb_upd_comp:
  "(\<And>cb. cb_name (f cb) = cb_name cb) \<Longrightarrow> cb_upd p g (cb_upd p f s) = cb_upd p (\<lambda>cb. g (f cb)) s"
  by (simp add: cb_upd_def upd_first_comp split: cbptr.split)

lemma cb_upd_id: "cb_upd p (\<lambda>cb. cb) s = s"
  by (simp add: cb_upd_def upd_first_id split: cbptr.split)

lemma cb_add_name [simp]: "cb_name (cb_add l cb) = cb_name cb" "cb_name (cb_clear cb) = cb_name cb"
  by (simp_all add: cb_add_def cb_clear_def)

text \<open>Everything but the buffers stays.\<close>

lemma cb_upd_sel [simp]:
  "db (cb_upd p f s) = db s" "cur (cb_upd p f s) = cur s" "others (cb_upd p f s) = others s"
  "f_nolog (cb_upd p f s) = f_nolog s" "interrupted (cb_upd p f s) = interrupted s" "mem_ok (cb_upd p f s) = mem_ok s"
  "dcbp (cb_upd p f s) = dcbp s" "c_lno (cb_upd p f s) = c_lno s" "c_lp (cb_upd p f s) = c_lp s"
  by (simp_all add: cb_upd_def split: cbptr.split)

lemma cb_upd_views [simp]:
  "base (cb_upd p f s) = base s" "text_ok (cb_upd p f s) = text_ok s" "screens_ok (cb_upd p f s) = screens_ok s"
  "same_log t (cb_upd p f s) = same_log t s"
  by (simp_all add: cb_upd_def base_def count_ok_def text_ok_def screens_ok_def same_log_def split: cbptr.split)

lemma keeps_cb_upd:
  assumes "keeps s s'"
  shows "keeps (cb_upd p f s) (cb_upd p f s')"
proof -
  have u: "uncached (cb_upd p f t) = cb_upd p f (uncached t)" for t
    by (simp add: cb_upd_def uncached_def split: cbptr.split)
  show ?thesis using assms by (simp add: keeps_def reads_def u)
qed

lemma text_init_ok: "base s \<Longrightarrow> text_init n s"
  by (simp add: text_init_def base_def)

lemma cut_line_get:
  assumes r: "base s" "text_ok s" and t: "\<not> sp_tinput (cur s)" and n: "0 < n" "n \<le> length (lines s)"
  obtains s1 where "db_get n False s = Some (False, lines s ! (n - 1), s1)" and "keeps s s1" and "text_ok s1"
    and "\<And>k. text_init k s1"
proof -
  have "\<not> sp_tinput (cur s) \<or> False" using t by simp
  from db_get_base [OF r(1) n this] r(2)
  obtain s1 where "db_get n False s = Some (False, lines s ! (n - 1), s1)" "keeps s s1" "text_ok s1" by auto
  then show ?thesis using that text_init_ok keepsD(1) by blast
qed

lemma cut_line_eol:
  assumes "base s" "text_ok s" "\<not> sp_tinput (cur s)" "0 < n" "n \<le> length (lines s)" "c \<le> length (lines s ! (n - 1))"
  obtains s' where "cut_line n c None p s = Some (False, s')" and "text_ok s'"
    and "keeps (cb_upd p (cb_add (drop c (lines s ! (n - 1)))) s) s'"
proof -
  obtain s1 where s1: "db_get n False s = Some (False, lines s ! (n - 1), s1)" "keeps s s1" "text_ok s1"
    "\<And>k. text_init k s1" using cut_line_get [OF assms(1-5)] by blast
  show ?thesis
    by (rule that [of "cb_upd p (cb_add (drop c (lines s ! (n - 1)))) s1"])
      (use s1 assms(6) keeps_cb_upd in \<open>simp_all add: cut_line_def Let_def\<close>)
qed

lemma cut_line_part:
  assumes "base s" "text_ok s" "\<not> sp_tinput (cur s)" "0 < n" "n \<le> length (lines s)"
    and "c + k \<le> length (lines s ! (n - 1)) \<or> lines s ! (n - 1) = []"
  obtains s' where "cut_line n c (Some k) p s = Some (False, s')" and "text_ok s'"
    and "keeps (cb_upd p (cb_add (take k (drop c (lines s ! (n - 1))))) s) s'"
proof -
  obtain s1 where s1: "db_get n False s = Some (False, lines s ! (n - 1), s1)" "keeps s s1" "text_ok s1"
    "\<And>k. text_init k s1" using cut_line_get [OF assms(1-5)] by blast
  show ?thesis
    by (rule that [of "cb_upd p (cb_add (take k (drop c (lines s ! (n - 1))))) s1"])
      (use s1 assms(6) keeps_cb_upd in \<open>auto simp: cut_line_def Let_def\<close>)
qed

definition cb_adds :: "bytes list \<Rightarrow> cb \<Rightarrow> cb" where
  "cb_adds ls cb = fold cb_add ls cb"

lemma cb_adds_simps [simp]:
  "cb_adds [] cb = cb" "cb_adds (l # ls) cb = cb_adds ls (cb_add l cb)" "cb_name (cb_adds ls cb) = cb_name cb"
  by (simp_all add: cb_adds_def) (induction ls arbitrary: cb, simp_all)

lemma cb_adds_fun:
  "cb_adds (l # ls) = (\<lambda>cb. cb_adds ls (cb_add l cb))" "cb_adds (xs @ ys) = (\<lambda>cb. cb_adds ys (cb_adds xs cb))"
  by (simp_all add: cb_adds_def fun_eq_iff)

lemma cb_adds_text:
  "cb_textq (cb_adds ls cb) = cb_textq cb @ ls" "cb_lmode (cb_adds ls cb) = cb_lmode cb"
  "cb_len (cb_adds ls cb) = cb_len cb + sum_list (map length ls)"
  by (induction ls arbitrary: cb) (simp_all add: cb_add_def)

lemma cut_whole_spec:
  assumes "base s" "text_ok s" "\<not> sp_tinput (cur s)" "0 < n" "n + k \<le> length (lines s) + 1"
  shows "\<exists>s'. cut_whole k n p s = Some (False, s') \<and> text_ok s' \<and>
    keeps (cb_upd p (cb_adds (take k (drop (n - 1) (lines s)))) s) s'"
  using assms
proof (induction k arbitrary: n s)
  case 0
  then show ?case using keeps_refl by (simp add: cb_upd_id)
next
  case (Suc k)
  let ?l = "lines s ! (n - 1)"
  obtain s1 where s1: "cut_line n 0 None p s = Some (False, s1)" "text_ok s1" "keeps (cb_upd p (cb_add ?l) s) s1"
    using cut_line_eol [OF Suc.prems(1-4), of 0 p] Suc.prems(5) by auto
  have l1: "lines s1 = lines s" and c1: "\<not> sp_tinput (cur s1)"
    using reads_fields [OF keepsD(2) [OF s1(3)]] Suc.prems(3) by simp_all
  have n1: "0 < n + 1" "n + 1 + k \<le> length (lines s1) + 1" using Suc.prems(5) l1 by simp_all
  obtain s' where s': "cut_whole k (n + 1) p s1 = Some (False, s')" "text_ok s'"
    "keeps (cb_upd p (cb_adds (take k (drop n (lines s1)))) s1) s'"
    using Suc.IH [OF keepsD(1) [OF s1(3)] s1(2) c1 n1] by auto
  have "take (Suc k) (drop (n - 1) (lines s)) = ?l # take k (drop n (lines s))"
    using Suc.prems(4,5) by (cases n) (simp_all add: Cons_nth_drop_Suc [symmetric])
  then have "cb_upd p (cb_adds (take (Suc k) (drop (n - 1) (lines s)))) s
      = cb_upd p (cb_adds (take k (drop n (lines s1)))) (cb_upd p (cb_add ?l) s)"
    using l1 by (simp add: cb_upd_comp cb_adds_fun)
  then have "keeps (cb_upd p (cb_adds (take (Suc k) (drop (n - 1) (lines s)))) s) s'"
    using keeps_trans [OF keeps_cb_upd [OF s1(3)] s'(3)] by simp
  then show ?case using s1(1) s'(1,2) by simp
qed

text \<open>The pieces of a range of text: in line mode its lines, in character mode what lies between the marks.\<close>

definition range_text :: "bool \<Rightarrow> mark \<Rightarrow> mark \<Rightarrow> bytes list \<Rightarrow> bytes list" where
  "range_text lmode fm tm ls =
     (if lmode then take (m_lno tm + 1 - m_lno fm) (drop (m_lno fm - 1) ls)
      else if m_lno fm = m_lno tm
      then [take (cno_next (m_cno tm) - m_cno fm) (drop (m_cno fm) (ls ! (m_lno fm - 1)))]
      else drop (m_cno fm) (ls ! (m_lno fm - 1))
           # take (m_lno tm - m_lno fm - 1) (drop (m_lno fm) ls)
           @ [take (cno_next (m_cno tm)) (ls ! (m_lno tm - 1))])"

definition range_ok :: "bool \<Rightarrow> mark \<Rightarrow> mark \<Rightarrow> bytes list \<Rightarrow> bool" where
  "range_ok lmode fm tm ls \<longleftrightarrow> 0 < m_lno fm \<and> m_lno fm \<le> m_lno tm \<and> m_lno tm \<le> length ls \<and>
     (\<not> lmode \<longrightarrow>
        (if m_lno fm = m_lno tm
         then m_cno fm \<le> cno_next (m_cno tm) \<and> (cno_next (m_cno tm) \<le> length (ls ! (m_lno fm - 1)) \<or> ls ! (m_lno fm - 1) = [])
         else m_cno fm \<le> length (ls ! (m_lno fm - 1)) \<and>
              (cno_next (m_cno tm) \<le> length (ls ! (m_lno tm - 1)) \<or> ls ! (m_lno tm - 1) = [])))"

definition set_lmode :: "bool \<Rightarrow> cb \<Rightarrow> cb" where
  "set_lmode b cb = (if b then cb\<lparr>cb_lmode := True\<rparr> else cb)"

lemma set_lmode_name [simp]: "cb_name (set_lmode b cb) = cb_name cb" "cb_textq (set_lmode b cb) = cb_textq cb"
  "cb_lmode (set_lmode b cb) = (b \<or> cb_lmode cb)" "cb_len (set_lmode b cb) = cb_len cb"
  by (simp_all add: set_lmode_def)

lemma cut_text_spec:
  assumes s: "base s" "text_ok s" "\<not> sp_tinput (cur s)" and ok: "range_ok lmode fm tm (lines s)"
  shows "\<exists>s'. cut_text lmode fm tm p s = Some (False, s') \<and> text_ok s' \<and>
    keeps (cb_upd p (\<lambda>cb. cb_adds (range_text lmode fm tm (lines s)) (set_lmode lmode cb)) s) s'"
proof (cases lmode)
  case True
  let ?s = "cb_upd p (\<lambda>cb. cb\<lparr>cb_lmode := True\<rparr>) s"
  have "m_lno fm + (m_lno tm + 1 - m_lno fm) \<le> length (lines ?s) + 1" "0 < m_lno fm"
    using ok by (auto simp: range_ok_def)
  then show ?thesis using cut_whole_spec [of ?s "m_lno fm" "m_lno tm + 1 - m_lno fm" p] s True
    by (simp add: cut_text_def range_text_def cb_upd_comp set_lmode_def)
next
  case lm: False
  have n: "0 < m_lno fm" "m_lno fm \<le> length (lines s)" using ok by (auto simp: range_ok_def)
  show ?thesis
  proof (cases "m_lno fm = m_lno tm")
    case True
    have c: "m_cno fm \<le> cno_next (m_cno tm)" "m_cno fm + (cno_next (m_cno tm) - m_cno fm) \<le> length (lines s ! (m_lno fm - 1)) \<or> lines s ! (m_lno fm - 1) = []"
      using ok True lm by (auto simp: range_ok_def)
    have "cut_span (m_cno fm) (m_cno tm) = Some (Some (cno_next (m_cno tm) - m_cno fm))" using c by (simp add: cut_span_def)
    then show ?thesis using cut_line_part [OF s n c(2), of p] lm True
      by (auto simp: cut_text_def range_text_def set_lmode_def)
  next
    case ne: False
    have m: "m_lno fm < m_lno tm" "m_lno tm \<le> length (lines s)" "m_cno fm \<le> length (lines s ! (m_lno fm - 1))"
      "0 + (cno_next (m_cno tm)) \<le> length (lines s ! (m_lno tm - 1)) \<or> lines s ! (m_lno tm - 1) = []"
      using ok ne lm by (auto simp: range_ok_def)
    let ?a = "drop (m_cno fm) (lines s ! (m_lno fm - 1))"
    let ?b = "take (m_lno tm - m_lno fm - 1) (drop (m_lno fm) (lines s))"
    let ?c = "take (cno_next (m_cno tm)) (lines s ! (m_lno tm - 1))"
    obtain s1 where s1: "cut_line (m_lno fm) (m_cno fm) None p s = Some (False, s1)" "text_ok s1"
      "keeps (cb_upd p (cb_add ?a) s) s1"
      using cut_line_eol [OF s n m(3), of p] by blast
    have l1: "lines s1 = lines s" and c1: "\<not> sp_tinput (cur s1)"
      using reads_fields(2,19) [OF keepsD(2) [OF s1(3)]] s(3) by simp_all
    have k1: "0 < m_lno fm + 1" "m_lno fm + 1 + (m_lno tm - m_lno fm - 1) \<le> length (lines s1) + 1"
      using l1 m by simp_all
    obtain s2 where s2: "cut_whole (m_lno tm - m_lno fm - 1) (m_lno fm + 1) p s1 = Some (False, s2)" "text_ok s2"
      "keeps (cb_upd p (cb_adds ?b) s1) s2"
      using cut_whole_spec [OF keepsD(1) [OF s1(3)] s1(2) c1 k1, of p] l1 by auto
    have l2: "lines s2 = lines s" and c2: "\<not> sp_tinput (cur s2)"
      using reads_fields(2,19) [OF keepsD(2) [OF s2(3)]] l1 c1 by simp_all
    have k2: "0 < m_lno tm" "m_lno tm \<le> length (lines s2)"
      "0 + (cno_next (m_cno tm)) \<le> length (lines s2 ! (m_lno tm - 1)) \<or> lines s2 ! (m_lno tm - 1) = []"
      using m unfolding l2 by auto
    obtain s3 where s3: "cut_line (m_lno tm) 0 (Some (cno_next (m_cno tm))) p s2 = Some (False, s3)" "text_ok s3"
      "keeps (cb_upd p (cb_add ?c) s2) s3"
      using cut_line_part [OF keepsD(1) [OF s2(3)] s2(2) c2 k2, of p] unfolding l2 by auto
    have mx: "max (m_lno tm) (m_lno fm + 1) = m_lno tm" using m by simp
    have k: "keeps (cb_upd p (cb_add ?c) (cb_upd p (cb_adds ?b) (cb_upd p (cb_add ?a) s))) s3"
      using keeps_trans [OF keeps_cb_upd [OF keeps_trans [OF keeps_cb_upd [OF s1(3)] s2(3)]] s3(3)] .
    have e: "cb_upd p (cb_add ?c) (cb_upd p (cb_adds ?b) (cb_upd p (cb_add ?a) s))
        = cb_upd p (\<lambda>cb. cb_adds (?a # ?b @ [?c]) cb) s"
      by (simp add: cb_upd_comp cb_adds_fun)
    have r: "range_text lmode fm tm (lines s) = ?a # ?b @ [?c]" using lm ne by (simp add: range_text_def)
    have sl: "set_lmode lmode = (\<lambda>cb. cb)" using lm by (simp add: set_lmode_def fun_eq_iff)
    have "cut_text lmode fm tm p s = Some (False, s3)"
      using s1(1) s2(1) s3(1) lm ne mx by (simp add: cut_text_def)
    then show ?thesis unfolding r sl using k s3(2) unfolding e by blast
  qed
qed

text \<open>A step that changes the buffers and the caches only.\<close>

definition rebuffers :: "ed \<Rightarrow> ed \<Rightarrow> bool" where
  "rebuffers s s' \<longleftrightarrow> editing s' \<and> (text_ok s \<longrightarrow> text_ok s') \<and> evolves s s' \<and> lines s' = lines s"

lemma rebuffers_refl: "editing s \<Longrightarrow> rebuffers s s"
  by (simp add: rebuffers_def)

lemma rebuffers_trans: "rebuffers s s' \<Longrightarrow> rebuffers s' s'' \<Longrightarrow> rebuffers s s''"
  using evolves_trans [of s s' s''] by (simp add: rebuffers_def)

lemma becomes_rebuffers: "becomes s (lines s) s' \<Longrightarrow> rebuffers s s'"
  by (simp add: becomes_def rebuffers_def)

lemma cutq_update_editing [simp]:
  "editing (s\<lparr>cutq := q\<rparr>) = editing s" "editing (s\<lparr>dcb_store := c\<rparr>) = editing s" "editing (s\<lparr>dcbp := p\<rparr>) = editing s"
  by (simp_all add: editing_def base_def count_ok_def screens_ok_def log_ready_def recording_def log_ok_def text_ok_def)

lemma rebuffers_update:
  assumes "rebuffers s t"
  shows "rebuffers s (t\<lparr>cutq := q\<rparr>)" "rebuffers s (t\<lparr>dcb_store := c\<rparr>)" "rebuffers s (t\<lparr>dcbp := p\<rparr>)"
proof -
  have e: "editing t" using assms by (simp add: rebuffers_def)
  have u: "editing (t\<lparr>cutq := q\<rparr>)" "editing (t\<lparr>dcb_store := c\<rparr>)" "editing (t\<lparr>dcbp := p\<rparr>)" using e by simp_all
  have b: "base (t\<lparr>cutq := q\<rparr>)" "base (t\<lparr>dcb_store := c\<rparr>)" "base (t\<lparr>dcbp := p\<rparr>)"
    and o: "screens_ok (t\<lparr>cutq := q\<rparr>)" "screens_ok (t\<lparr>dcb_store := c\<rparr>)" "screens_ok (t\<lparr>dcbp := p\<rparr>)"
    using u by (simp_all only: editing_def)
  have x: "text_ok (t\<lparr>cutq := q\<rparr>) = text_ok t" "text_ok (t\<lparr>dcb_store := c\<rparr>) = text_ok t" "text_ok (t\<lparr>dcbp := p\<rparr>) = text_ok t"
    by (simp_all add: text_ok_def)
  have "evolves t (t\<lparr>cutq := q\<rparr>)" by (rule same_event) (simp_all add: b o x same_log_def)
  moreover have "evolves t (t\<lparr>dcb_store := c\<rparr>)" by (rule same_event) (simp_all add: b o x same_log_def)
  moreover have "evolves t (t\<lparr>dcbp := p\<rparr>)" by (rule same_event) (simp_all add: b o x same_log_def)
  ultimately have "rebuffers t (t\<lparr>cutq := q\<rparr>)" "rebuffers t (t\<lparr>dcb_store := c\<rparr>)" "rebuffers t (t\<lparr>dcbp := p\<rparr>)"
    using e by (simp_all add: rebuffers_def x)
  then show "rebuffers s (t\<lparr>cutq := q\<rparr>)" "rebuffers s (t\<lparr>dcb_store := c\<rparr>)" "rebuffers s (t\<lparr>dcbp := p\<rparr>)"
    using rebuffers_trans [OF assms] by simp_all
qed

lemma rebuffers_cb_upd: "rebuffers s t \<Longrightarrow> rebuffers s (cb_upd p f t)"
  using rebuffers_update by (simp add: cb_upd_def split: cbptr.split)

lemma rebuffers_keeps: "rebuffers s t \<Longrightarrow> keeps t t' \<Longrightarrow> rebuffers s t'"
  using keeps_becomes becomes_rebuffers rebuffers_trans unfolding rebuffers_def by blast

definition has_cb :: "cbptr \<Rightarrow> ed \<Rightarrow> bool" where
  "has_cb p s \<longleftrightarrow> p = CB_STORE \<or> (\<exists>n. p = CB_NAMED n \<and> (\<exists>cb \<in> set (cutq s). cb_name cb = n))"

lemma find_name: "(\<exists>cb. find (\<lambda>cb. cb_name cb = n) cbs = Some cb) = (\<exists>cb \<in> set cbs. cb_name cb = n)"
  by (induction cbs) auto

lemma has_cb_at: "has_cb p s = (\<exists>cb. cb_at p s = Some cb)"
  by (cases p) (simp_all add: has_cb_def cb_at_def find_name)

lemma cb_at_upd:
  assumes "\<And>cb. cb_name (f cb) = cb_name cb"
  shows "cb_at p (cb_upd p f s) = map_option f (cb_at p s)"
proof -
  have "find (\<lambda>cb. cb_name cb = n) (upd_first n f cbs) = map_option f (find (\<lambda>cb. cb_name cb = n) cbs)" for n cbs
    using assms by (induction cbs) auto
  then show ?thesis by (simp add: cb_at_def cb_upd_def split: cbptr.split)
qed

lemma cb_at_keeps: "keeps s s' \<Longrightarrow> cb_at p s' = cb_at p s"
  using reads_fields [OF keepsD(2)] by (simp add: cb_at_def split: cbptr.split)

lemma cb_at_dcbp [simp]: "cb_at p (s\<lparr>dcbp := q\<rparr>) = cb_at p s"
  by (simp add: cb_at_def split: cbptr.split)

text \<open>One pass of \<open>cut\<close>: the buffer it cuts into, and its contents.\<close>

lemma cut_pass_spec:
  assumes e: "editing s" "text_ok s" and ok: "range_ok lm fm tm (lines s)" and p: "p = CB_NULL \<or> has_cb p s"
  obtains s' cb where "cut_pass name app lm fm tm p s = Some (False, s')" and "rebuffers s s'"
    and "dcbp s' = (if p = CB_NULL then CB_NAMED name else p)" and "cb_at (dcbp s') s' = Some cb"
    and "cb_textq cb = (case cb_at p s of Some c \<Rightarrow> if app then cb_textq c else [] | None \<Rightarrow> []) @ range_text lm fm tm (lines s)"
    and "cb_lmode cb = (lm \<or> app \<and> (case cb_at p s of Some c \<Rightarrow> cb_lmode c | None \<Rightarrow> False))"
proof -
  define q where "q = (if p = CB_NULL then CB_NAMED name else p)"
  define new where "new = \<lparr>cb_name = name, cb_textq = [], cb_len = 0, cb_lmode = False\<rparr>"
  define s1 where "s1 = (if p = CB_NULL then s\<lparr>cutq := new # cutq s\<rparr> else if \<not> app then cb_upd p cb_clear s else s)"
  have r1: "rebuffers s s1" unfolding s1_def
    using rebuffers_refl [OF e(1)] by (simp add: rebuffers_update rebuffers_cb_upd)
  obtain old where old: "cb_at q s1 = Some old"
    "cb_textq old = (case cb_at p s of Some c \<Rightarrow> if app then cb_textq c else [] | None \<Rightarrow> [])"
    "cb_lmode old = (app \<and> (case cb_at p s of Some c \<Rightarrow> cb_lmode c | None \<Rightarrow> False))"
  proof (cases "p = CB_NULL")
    case True
    then show ?thesis using that [of new] by (simp add: q_def s1_def cb_at_def new_def)
  next
    case False
    then obtain c where "cb_at p s = Some c" using p has_cb_at [of p s] by blast
    then show ?thesis using that [of "if app then c else cb_clear c"] False
      by (auto simp: q_def s1_def cb_at_upd cb_clear_def)
  qed
  have s1: "base s1" "text_ok s1" "\<not> sp_tinput (cur s1)" "range_ok lm fm tm (lines s1)" "lines s1 = lines s"
    using r1 e ok editingD(1,4) [of s1] by (auto simp: rebuffers_def)
  let ?f = "\<lambda>cb. cb_adds (range_text lm fm tm (lines s1)) (set_lmode lm cb)"
  obtain s2 where s2: "cut_text lm fm tm q s1 = Some (False, s2)" "text_ok s2" "keeps (cb_upd q ?f s1) s2"
    using cut_text_spec [OF s1(1-4), of q] by blast
  have r2: "rebuffers s s2" by (rule rebuffers_keeps [OF rebuffers_cb_upd [OF r1] s2(3)])
  have "cb_at q s2 = Some (?f old)" using cb_at_keeps [OF s2(3)] cb_at_upd [of ?f q s1] old(1) by simp
  moreover have "cut_pass name app lm fm tm p s = Some (False, s2\<lparr>dcbp := q\<rparr>)"
    using s2(1) base_mem [OF editingD(1) [OF e(1)]]
    unfolding cut_pass_def Let_def q_def [symmetric] new_def [symmetric] s1_def [symmetric] by simp
  ultimately show ?thesis
    by (intro that [of "s2\<lparr>dcbp := q\<rparr>" "?f old"]) (simp_all add: rebuffers_update r2 q_def cb_adds_text old s1(5))
qed

lemma cb_lookup_ok: "cb_lookup n s = CB_NULL \<or> has_cb (cb_lookup n s) s"
  by (auto simp: cb_lookup_def has_cb_def Let_def)

lemma cb_rotate_rebuffers: "rebuffers s t \<Longrightarrow> rebuffers s (cb_rotate t)"
  unfolding cb_rotate_def by (intro rebuffers_update)

lemma cut_default_lines:
  assumes "editing s" "text_ok s" "range_ok (cut_linemode flags) fm tm (lines s)"
    and "\<And>nm. namep = Some nm \<Longrightarrow> is_upper nm \<Longrightarrow> upper = 1"
  shows "\<exists>s' cb. cut upper namep fm tm flags s = Some (False, s') \<and> rebuffers s s' \<and>
    cb_at (dcbp s') s' = Some cb \<and> cb_textq cb = range_text (cut_linemode flags) fm tm (lines s) \<and>
    cb_lmode cb = cut_linemode flags"
proof -
  let ?lm = "cut_linemode flags" and ?txt = "range_text (cut_linemode flags) fm tm (lines s)"
  have nz: "m_lno fm \<noteq> 0" "m_lno tm \<noteq> 0" using assms(3) by (auto simp: range_ok_def)
  have pass: "\<exists>s' cb. cut_pass name app ?lm fm tm p t = Some (False, s') \<and> rebuffers s s' \<and> has_cb (dcbp s') s' \<and>
      (\<not> app \<longrightarrow> cb_at (dcbp s') s' = Some cb \<and> cb_textq cb = ?txt \<and> cb_lmode cb = ?lm)"
    if "rebuffers s t" "p = CB_NULL \<or> has_cb p t" for name app p t
  proof -
    have t: "editing t" "text_ok t" "range_ok ?lm fm tm (lines t)" "lines t = lines s"
      using that(1) assms(2,3) by (auto simp: rebuffers_def)
    show ?thesis
    proof (rule cut_pass_spec [OF t(1-3) that(2), of name app])
      fix s' cb
      assume a: "cut_pass name app ?lm fm tm p t = Some (False, s')" "rebuffers t s'" "cb_at (dcbp s') s' = Some cb"
        "dcbp s' = (if p = CB_NULL then CB_NAMED name else p)"
        "cb_textq cb = (case cb_at p t of Some c \<Rightarrow> if app then cb_textq c else [] | None \<Rightarrow> []) @ range_text ?lm fm tm (lines t)"
        "cb_lmode cb = (?lm \<or> app \<and> (case cb_at p t of Some c \<Rightarrow> cb_lmode c | None \<Rightarrow> False))"
      have "has_cb (dcbp s') s'" using a(3) has_cb_at [of "dcbp s'" s'] by blast
      moreover have "\<not> app \<longrightarrow> cb_textq cb = ?txt \<and> cb_lmode cb = ?lm" using a(5,6) t(4) by (auto split: option.splits)
      ultimately show ?thesis using a(1,3) rebuffers_trans [OF that(1) a(2)] by blast
    qed
  qed
  note r0 = rebuffers_refl [OF assms(1)] and rr = cb_rotate_rebuffers [OF rebuffers_refl [OF assms(1)]]
  have st: "has_cb CB_STORE t" for t by (simp add: has_cb_def)
  let ?num = "cut_numreq flags \<or> cut_numopt flags \<and> (?lm \<or> m_lno fm \<noteq> m_lno tm)"
  show ?thesis
  proof (cases namep)
    case None
    then have c: "cut upper namep fm tm flags s =
        (if ?num then cut_pass (CHR ''1'') False ?lm fm tm (cb_lookup (CHR ''1'') (cb_rotate s)) (cb_rotate s)
         else cut_pass (CHR ''1'') False ?lm fm tm CB_STORE s)"
      using nz unfolding cut_def Let_def by (simp split del: if_split)
    show ?thesis
    proof (cases ?num)
      case True
      show ?thesis unfolding c if_P [OF True]
        using pass [OF rr cb_lookup_ok [of "CHR ''1''"], of "CHR ''1''" False] by blast
    next
      case False
      show ?thesis unfolding c if_not_P [OF False]
        using pass [OF r0, of CB_STORE "CHR ''1''" False] st by blast
    qed
  next
    case (Some nm)
    define s1 where "s1 = (if ?num then cb_rotate s else s)"
    have r1: "rebuffers s s1" using r0 rr by (simp add: s1_def)
    define nm1 where "nm1 = (if is_upper nm then to_lower nm else nm)"
    obtain s2 cb where s2: "cut_pass nm1 (is_upper nm) ?lm fm tm (cb_lookup nm1 s1) s1 = Some (False, s2)"
      "rebuffers s s2" "\<not> is_upper nm \<longrightarrow> cb_at (dcbp s2) s2 = Some cb \<and> cb_textq cb = ?txt \<and> cb_lmode cb = ?lm"
      using pass [OF r1 cb_lookup_ok, of nm1 "is_upper nm"] by blast
    have c: "cut upper namep fm tm flags s =
        (if ?num then cut_pass nm1 False ?lm fm tm (cb_lookup nm1 s2) s2
         else if is_upper nm then cut_pass nm1 False ?lm fm tm CB_STORE s2 else Some (False, s2))"
    proof (cases "is_upper nm")
      case True
      then have "upper = 1" using assms(4) Some by simp
      then show ?thesis using s2(1) nz Some True unfolding cut_def Let_def nm1_def s1_def
        by (simp cong: if_cong split del: if_split)
    next
      case False
      then show ?thesis using s2(1) nz Some unfolding cut_def Let_def nm1_def s1_def
        by (simp cong: if_cong split del: if_split)
    qed
    show ?thesis
    proof (cases ?num)
      case True
      then show ?thesis using pass [OF s2(2) cb_lookup_ok, of nm1 False] unfolding c if_P [OF True] by blast
    next
      case False
      show ?thesis unfolding c if_not_P [OF False]
        using pass [OF s2(2), of CB_STORE nm1 False] st s2(2,3) by (cases "is_upper nm") auto
    qed
  qed
qed

text \<open>
  C23: whatever buffer is named and wherever the flags send the text, after \<open>cut\<close> the default buffer
  holds exactly the text of the range, piece by piece, in line mode if the cut was; the
  file is not changed. (For an upper-case name this relies on \<open>isupper\<close> returning 1.)
\<close>

theorem cut_default_buffer:
  assumes "editing s" "text_ok s" "range_ok (cut_linemode flags) fm tm (lines s)"
    and "\<And>nm. namep = Some nm \<Longrightarrow> is_upper nm \<Longrightarrow> upper = 1"
  shows "\<exists>s' cb. cut upper namep fm tm flags s = Some (False, s') \<and> rebuffers s s' \<and>
    cb_at (dcbp s') s' = Some cb \<and> cb_textq cb = range_text (cut_linemode flags) fm tm (lines s) \<and>
    cb_lmode cb = cut_linemode flags"
  by (rule cut_default_lines [OF assms])

theorem cut_default_buffer_witness:
  "\<exists>s' cb. cut 1 (Some (CHR ''B'')) \<lparr>m_lno = 1, m_cno = 1\<rparr> \<lparr>m_lno = 2, m_cno = 0\<rparr>
      \<lparr>cut_linemode = False, cut_numopt = True, cut_numreq = False\<rparr> (opened [''abc'', ''de'']) = Some (False, s') \<and>
    cb_at (dcbp s') s' = Some cb \<and> cb_textq cb = [''bc'', ''d'']"
  using cut_default_buffer [of "opened [''abc'', ''de'']" "\<lparr>cut_linemode = False, cut_numopt = True, cut_numreq = False\<rparr>"
      "\<lparr>m_lno = 1, m_cno = 1\<rparr>" "\<lparr>m_lno = 2, m_cno = 0\<rparr>" "Some (CHR ''B'')" 1]
  by (auto simp: range_ok_def range_text_def)

text \<open>
  A delete that must go into a numbered buffer and names a buffer does not reach the numbered
  buffers: they are rotated, and the second pass, meant for buffer 1, cuts into the named buffer
  again.
\<close>

theorem cut_named_misses_buffer_one:
  "map_option (\<lambda>(e, s). (e, map cb_name (cutq s), dcbp s))
     (cut 1 (Some (CHR ''a'')) \<lparr>m_lno = 1, m_cno = 0\<rparr> \<lparr>m_lno = 1, m_cno = 0\<rparr>
        \<lparr>cut_linemode = True, cut_numopt = False, cut_numreq = True\<rparr> (opened [''abc'']))
   = Some (False, ''a'', CB_NAMED (CHR ''a''))"
  by code_simp

text \<open>
  Where \<open>isupper\<close> answers with another non-zero value than 1, as C libraries may, text cut into a new
  upper-case buffer is lost: the buffer is created under the upper-case letter, which no lookup
  finds.
\<close>

theorem cut_upper_case_lost:
  "map_option (\<lambda>(e, s). (e, map cb_name (cutq s), cb_lookup (CHR ''A'') s, cb_lookup (CHR ''a'') s))
     (cut 256 (Some (CHR ''A'')) \<lparr>m_lno = 1, m_cno = 0\<rparr> \<lparr>m_lno = 1, m_cno = 0\<rparr>
        \<lparr>cut_linemode = True, cut_numopt = False, cut_numreq = False\<rparr> (opened [''abc'']))
   = Some (False, ''A'', CB_NULL, CB_NULL)"
  by code_simp

end
