(* ===== verification/Put.thy ===== *)
theory Put
  imports Cut
begin

section \<open>Putting text back (common/put.c)\<close>

text \<open>
  \<^verbatim>\<open>put\<close> copies a cut buffer into the file, before or after a mark, a number of times. The
  lemmas say what the file becomes, that cutting lines, deleting them and putting them
  back restores the file, and where the buffer for the new line is too small.
\<close>

subsection \<open>Operations\<close>

text \<open>The loop that appends the lines of a buffer after line \<open>lno\<close>; the last line number is returned.\<close>

fun put_lines :: "bytes list \<Rightarrow> nat \<Rightarrow> ed \<Rightarrow> (bool \<times> nat \<times> ed) option" where
  "put_lines [] lno s = Some (False, lno, s)"
| "put_lines (l # ls) lno s =
     do {
       (e, s1) \<leftarrow> db_append True lno l s;
       if e then Some (True, lno, s1) else put_lines ls (lno + 1) (rpt_added s1)
     }"

text \<open>\<open>cnt\<close> copies of them.\<close>

fun put_copies :: "nat \<Rightarrow> bytes list \<Rightarrow> nat \<Rightarrow> ed \<Rightarrow> (bool \<times> nat \<times> ed) option" where
  "put_copies 0 ls lno s = Some (False, lno, s)"
| "put_copies (Suc n) ls lno s =
     do {
       (e, lno1, s1) \<leftarrow> put_lines ls lno s;
       if e then Some (True, lno1, s1) else put_copies n ls lno1 s1
     }"

text \<open>
  The character mode put. The space asked for is that of one copy of the buffer's first line;
  every copy is written. \<open>tp\<close> is the null pointer for a buffer with no text, and is
  dereferenced. The second line is built in the same buffer, where the space for it is asked
  for as if the first were not there.
\<close>

definition put_chars :: "bytes list \<Rightarrow> mark \<Rightarrow> bool \<Rightarrow> nat \<Rightarrow> ed \<Rightarrow> (bool \<times> mark option \<times> ed) option" where
  "put_chars tq cp app cnt s =
     do {
       (e, p0, isempty, s1) \<leftarrow> db_eget (m_lno cp) s;
       if e \<and> \<not> isempty then Some (True, None, s1) else
       let p = (if e then [] else p0); len = length p; lno = m_lno cp in
       (case tq of
          [] \<Rightarrow> None
        | tp # rest \<Rightarrow>
            (case get_space (length tp + len + 1) s1 of
               (None, s2) \<Rightarrow> Some (True, None, s2)
             | (Some bp, s2) \<Rightarrow>
                 let split = (if len = 0 then 0 else m_cno cp + (if app then 1 else 0)) in
                 do {
                   readable split p;
                   let first = take split p @ concat (replicate cnt tp);
                   room bp (length first);
                   let tail = drop split p;
                   let rp = \<lparr>m_lno = lno,
                             m_cno = (if len = 0 then 0
                                      else sp_cno (cur s2) + (if app \<and> tp \<noteq> [] then 1 else 0))\<rparr>;
                   (if rest = [] then
                      do {
                        room bp (length (first @ tail));
                        (e, s3) \<leftarrow> db_set lno (first @ tail) s2;
                        Some (e, Some rp, free_space bp (if e then s3 else rpt_changed lno s3))
                      }
                    else
                      (case add_space bp (length (last rest) + length tail) s2 of
                         (None, s3) \<Rightarrow> Some (True, Some rp, s3)
                       | (Some bp1, s3) \<Rightarrow>
                           do {
                             room bp1 (length first + length (last rest) + length tail);
                             (e, s4) \<leftarrow> db_set lno first s3;
                             if e then Some (True, Some rp, free_space bp1 s4) else do {
                             (e, lno1, s5) \<leftarrow> put_lines (butlast rest) lno (rpt_changed lno s4);
                             if e then Some (True, Some rp, free_space bp1 s5) else do {
                             (e, s6) \<leftarrow> db_append True lno1 (last rest @ tail) s5;
                             if e then Some (True, Some rp, free_space bp1 s6)
                             else Some (False, Some rp, free_space bp1 (rpt_added s6))
                           }}}))
                 }))
     }"

text \<open>
  \<^verbatim>\<open>put\<close>, of a buffer \<open>cbp0\<close> or else of a named or the default one. The result mark is
  \<open>rp\<close> where it was written.
\<close>

definition put_choose :: "cbptr option \<Rightarrow> char option \<Rightarrow> ed \<Rightarrow> cbptr" where
  "put_choose cbp0 namep s =
     (case cbp0 of
        Some p \<Rightarrow> p
      | None \<Rightarrow> (case namep of None \<Rightarrow> dcbp s | Some nm \<Rightarrow> cb_lookup nm s))"

definition put_cb :: "cb \<Rightarrow> mark \<Rightarrow> bool \<Rightarrow> nat \<Rightarrow> ed \<Rightarrow> (bool \<times> mark option \<times> ed) option" where
  "put_cb cb cp app cnt s =
     do {
       (e, lno, s1) \<leftarrow> (if m_lno cp = 1 then db_last s else Some (False, 1, s));
       if e then Some (True, None, s1)
       else if m_lno cp = 1 \<and> lno = 0 \<and> cb_lmode cb then
         do {
           (e, _, s2) \<leftarrow> put_copies cnt (cb_textq cb) 0 s1;
           Some (e, if e then None else Some \<lparr>m_lno = 1, m_cno = 0\<rparr>, s2)
         }
       else if cb_lmode cb then
         (let l0 = (if app then m_lno cp else m_lno cp - 1) in
          do {
            (e, _, s2) \<leftarrow> put_copies cnt (cb_textq cb) l0 s1;
            if e then Some (True, Some \<lparr>m_lno = l0 + 1, m_cno = 0\<rparr>, s2)
            else do {
              (e, c, s3) \<leftarrow> nonblank (l0 + 1) 0 s2;
              Some (False, Some \<lparr>m_lno = l0 + 1, m_cno = c\<rparr>, s3)
            }
          })
       else put_chars (cb_textq cb) cp app cnt s1
     }"

definition put :: "cbptr option \<Rightarrow> char option \<Rightarrow> mark \<Rightarrow> bool \<Rightarrow> nat \<Rightarrow> ed \<Rightarrow> (bool \<times> mark option \<times> ed) option" where
  "put cbp0 namep cp app cnt s =
     (case put_choose cbp0 namep s of
        CB_NULL \<Rightarrow> Some (True, None, s)
      | CB_FREED \<Rightarrow> None
      | p \<Rightarrow> (case cb_at p s of None \<Rightarrow> None | Some cb \<Rightarrow> put_cb cb cp app cnt s))"

subsection \<open>What is put\<close>

lemma put_lines_becomes:
  assumes "editing s" and "lno \<le> length (lines s)"
  shows "\<exists>s'. put_lines ls lno s = Some (False, lno + length ls, s') \<and>
    becomes s (take lno (lines s) @ ls @ drop lno (lines s)) s'"
  using assms
proof (induction ls arbitrary: lno s)
  case Nil
  then show ?case using becomes_refl by simp
next
  case (Cons l ls)
  obtain s1 where s1: "db_append True lno l s = Some (False, s1)" "becomes s (insert_at lno l (lines s)) s1"
    using db_append_becomes [OF Cons.prems] by blast
  note r = rpt_becomes(2) [OF becomesD(1) [OF s1(2)]]
  have b: "becomes s (insert_at lno l (lines s)) (rpt_added s1)"
    using becomes_trans [OF s1(2) r] becomesD(2) [OF s1(2)] by simp
  have l1: "lines (rpt_added s1) = insert_at lno l (lines s)" by (rule becomesD(2) [OF b])
  have "lno + 1 \<le> length (lines (rpt_added s1))" using l1 Cons.prems(2) by simp
  from Cons.IH [OF becomesD(1) [OF b] this] obtain s' where s': "put_lines ls (lno + 1) (rpt_added s1) = Some (False, lno + 1 + length ls, s')"
    "becomes (rpt_added s1) (take (lno + 1) (lines (rpt_added s1)) @ ls @ drop (lno + 1) (lines (rpt_added s1))) s'"
    by blast
  have "take (lno + 1) (lines (rpt_added s1)) @ ls @ drop (lno + 1) (lines (rpt_added s1)) =
      take lno (lines s) @ (l # ls) @ drop lno (lines s)"
    unfolding l1 using Cons.prems(2) by (simp add: insert_at_def)
  then show ?case using s1(1) s'(1) becomes_trans [OF b s'(2)] by simp
qed

lemma put_copies_becomes:
  assumes "editing s" and "lno \<le> length (lines s)"
  shows "\<exists>n s'. put_copies k ls lno s = Some (False, n, s') \<and>
    becomes s (take lno (lines s) @ concat (replicate k ls) @ drop lno (lines s)) s'"
  using assms
proof (induction k arbitrary: lno s)
  case 0
  then show ?case using becomes_refl by simp
next
  case (Suc k)
  obtain s1 where s1: "put_lines ls lno s = Some (False, lno + length ls, s1)"
    "becomes s (take lno (lines s) @ ls @ drop lno (lines s)) s1"
    using put_lines_becomes [OF Suc.prems] by blast
  have l1: "lines s1 = take lno (lines s) @ ls @ drop lno (lines s)" by (rule becomesD(2) [OF s1(2)])
  have "lno + length ls \<le> length (lines s1)" using l1 Suc.prems(2) by simp
  from Suc.IH [OF becomesD(1) [OF s1(2)] this] obtain n s' where s': "put_copies k ls (lno + length ls) s1 = Some (False, n, s')"
    "becomes s1 (take (lno + length ls) (lines s1) @ concat (replicate k ls) @ drop (lno + length ls) (lines s1)) s'"
    by blast
  have "take (lno + length ls) (lines s1) @ concat (replicate k ls) @ drop (lno + length ls) (lines s1) =
      take lno (lines s) @ concat (replicate (Suc k) ls) @ drop lno (lines s)"
    unfolding l1 using Suc.prems(2) by simp
  then show ?case using s1(1) s'(1) becomes_trans [OF s1(2) s'(2)] by simp
qed

lemma nonblank_total:
  assumes "editing s"
  shows "\<exists>e c s'. nonblank n off s = Some (e, c, s') \<and> becomes s (lines s) s'"
proof -
  note b = editingD(1,4) [OF assms]
  obtain l s' where "db_eget n s = (if 0 < n \<and> n \<le> length (lines s) then Some (False, l, False, s')
       else Some (True, [], n \<le> 1 \<and> lines s = [], s'))" "keeps s s'"
    using db_eget_base [OF b(1,2), of n] by blast
  then show ?thesis using keeps_becomes [OF _ assms] by (auto simp: nonblank_def)
qed

lemma put_cb_lines:
  assumes e: "editing s" and lm: "cb_lmode cb"
    and l0: "l0 = (if lines s = [] \<and> m_lno cp = 1 then 0 else if app then m_lno cp else m_lno cp - 1)"
    and len: "l0 \<le> length (lines s)"
  shows "\<exists>rp s'. put_cb cb cp app cnt s = Some (False, Some rp, s') \<and> m_lno rp = l0 + 1 \<and>
    becomes s (take l0 (lines s) @ concat (replicate cnt (cb_textq cb)) @ drop l0 (lines s)) s'"
proof -
  obtain n s1 where s1: "(if m_lno cp = 1 then db_last s else Some (False, 1, s)) = Some (False, n, s1)"
    "becomes s (lines s) s1" "m_lno cp = 1 \<Longrightarrow> n = length (lines s)"
  proof (cases "m_lno cp = 1")
    case True
    obtain s1 where "db_last s = Some (False, length (lines s), s1)" "keeps s s1"
      using db_last_base [OF editingD(1,4) [OF e]] by blast
    then show ?thesis using that [of "length (lines s)" s1] True keeps_becomes [OF _ e] by simp
  next
    case False
    then show ?thesis using that [of 1 s] becomes_refl [OF e] by simp
  qed
  note e1 = becomesD(1) [OF s1(2)] and l1 = becomesD(2) [OF s1(2)]
  have len1: "l0 \<le> length (lines s1)" using len l1 by simp
  obtain k s2 where s2: "put_copies cnt (cb_textq cb) l0 s1 = Some (False, k, s2)"
    "becomes s1 (take l0 (lines s1) @ concat (replicate cnt (cb_textq cb)) @ drop l0 (lines s1)) s2"
    using put_copies_becomes [OF e1 len1] by blast
  have b2: "becomes s (take l0 (lines s) @ concat (replicate cnt (cb_textq cb)) @ drop l0 (lines s)) s2"
    using becomes_trans [OF s1(2) s2(2)] l1 by simp
  show ?thesis
  proof (cases "m_lno cp = 1 \<and> lines s = []")
    case True
    then show ?thesis using s1(1,3) s2(1) b2 lm l0 by (simp add: put_cb_def)
  next
    case False
    then have l0': "l0 = (if app then m_lno cp else m_lno cp - 1)" using l0 by auto
    obtain e c s3 where s3: "nonblank (l0 + 1) 0 s2 = Some (e, c, s3)" "becomes s2 (lines s2) s3"
      using nonblank_total [OF becomesD(1) [OF b2]] by blast
    have n: "\<not> (m_lno cp = 1 \<and> n = 0)" using False s1(3) by auto
    have "put_cb cb cp app cnt s = Some (False, Some \<lparr>m_lno = l0 + 1, m_cno = c\<rparr>, s3)"
      unfolding put_cb_def s1(1) using n lm s2(1) s3(1) l0' by (cases app) (auto simp: Let_def)
    then show ?thesis using becomes_trans [OF b2 s3(2)] becomesD(2) [OF b2] by simp
  qed
qed

text \<open>
  A line mode put inserts the buffer's lines, the given number of times, after the mark's line or
  before it (or makes them the file, if it was empty), and leaves the cursor on the first of
  them.
\<close>

theorem put_whole_lines:
  assumes "editing s" and "cb_at (put_choose cbp namep s) s = Some cb" and "cb_lmode cb"
    and "l0 = (if lines s = [] \<and> m_lno cp = 1 then 0 else if app then m_lno cp else m_lno cp - 1)"
    and "l0 \<le> length (lines s)"
  shows "\<exists>rp s'. put cbp namep cp app cnt s = Some (False, Some rp, s') \<and> m_lno rp = l0 + 1 \<and>
    becomes s (take l0 (lines s) @ concat (replicate cnt (cb_textq cb)) @ drop l0 (lines s)) s'"
proof -
  have "put cbp namep cp app cnt s = put_cb cb cp app cnt s"
    using assms(2) by (simp add: put_def cb_at_def split: cbptr.splits)
  then show ?thesis using put_cb_lines [OF assms(1,3,4,5)] by simp
qed

theorem put_whole_lines_witness:
  "\<exists>rp s'. put None None \<lparr>m_lno = 1, m_cno = 0\<rparr> True 2
      ((opened [''a'', ''b''])\<lparr>dcb_store := \<lparr>cb_name = CHR ''1'', cb_textq = [''x'', ''y''], cb_len = 2, cb_lmode = True\<rparr>,
         dcbp := CB_STORE\<rparr>) = Some (False, Some rp, s') \<and> m_lno rp = 2 \<and>
    lines s' = [''a'', ''x'', ''y'', ''x'', ''y'', ''b'']"
  using put_whole_lines [of "(opened [''a'', ''b''])\<lparr>dcb_store := \<lparr>cb_name = CHR ''1'', cb_textq = [''x'', ''y''], cb_len = 2, cb_lmode = True\<rparr>,
         dcbp := CB_STORE\<rparr>" None None "\<lparr>cb_name = CHR ''1'', cb_textq = [''x'', ''y''], cb_len = 2, cb_lmode = True\<rparr>"
         1 "\<lparr>m_lno = 1, m_cno = 0\<rparr>" True 2]
  by (auto simp: put_choose_def cb_at_def becomes_def numeral_2_eq_2)

text \<open>
  C7: cut, delete, put. Cutting whole lines (into any lower-case, numbered or unnamed buffer), deleting
  them, and putting the default buffer back before the line they started at restores the file.
\<close>

theorem cut_delete_put:
  assumes "editing s" "text_ok s" "cut_linemode flags" "range_ok True fm tm (lines s)"
    and "\<And>nm. namep = Some nm \<Longrightarrow> is_upper nm \<Longrightarrow> upper = 1"
  shows "\<exists>s1 s2 rp s3. cut upper namep fm tm flags s = Some (False, s1) \<and> del fm tm True s1 = Some (False, s2) \<and>
    put None None fm False 1 s2 = Some (False, Some rp, s3) \<and> lines s3 = lines s \<and> m_lno rp = m_lno fm"
proof -
  let ?ls = "lines s"
  have ok: "range_ok (cut_linemode flags) fm tm ?ls" using assms(3,4) by simp
  obtain s1 cb where s1: "cut upper namep fm tm flags s = Some (False, s1)" "rebuffers s s1"
    "cb_at (dcbp s1) s1 = Some cb" "cb_textq cb = range_text True fm tm ?ls" "cb_lmode cb"
    using cut_default_lines [where namep = namep and upper = upper, OF assms(1,2) ok] assms(3,5) by auto
  have e1: "editing s1" and l1: "lines s1 = ?ls" using s1(2) by (simp_all add: rebuffers_def)
  have n: "0 < m_lno fm" "m_lno fm \<le> m_lno tm + 1" "m_lno tm \<le> length (lines s1)"
    using assms(4) l1 by (auto simp: range_ok_def)
  obtain s2 where s2: "del fm tm True s1 = Some (False, s2)"
    "becomes s1 (take (m_lno fm - 1) (lines s1) @ drop (m_lno tm) (lines s1)) s2"
    using del_lines_mode [OF e1 n] by blast
  have l2: "lines s2 = take (m_lno fm - 1) ?ls @ drop (m_lno tm) ?ls" using becomesD(2) [OF s2(2)] l1 by simp
  have at: "cb_at (dcbp s2) s2 = Some cb"
    using s1(3) s2(2) by (simp add: becomes_def cb_at_def split: cbptr.splits)
  let ?l0 = "if lines s2 = [] \<and> m_lno fm = 1 then 0 else if False then m_lno fm else m_lno fm - 1"
  have l0: "?l0 = m_lno fm - 1" by simp
  have len: "m_lno fm - 1 \<le> length (lines s2)" using l2 n l1 by simp
  obtain rp s3 where s3: "put_cb cb fm False 1 s2 = Some (False, Some rp, s3)" "m_lno rp = m_lno fm - 1 + 1"
    "becomes s2 (take (m_lno fm - 1) (lines s2) @ concat (replicate 1 (cb_textq cb)) @ drop (m_lno fm - 1) (lines s2)) s3"
    using put_cb_lines [OF becomesD(1) [OF s2(2)] s1(5) l0 [symmetric] len] by blast
  have "put None None fm False 1 s2 = Some (False, Some rp, s3)"
    using at s3(1) by (simp add: put_def put_choose_def cb_at_def split: cbptr.splits)
  moreover have "lines s3 = ?ls"
  proof -
    have k: "m_lno fm - 1 \<le> length ?ls" "m_lno fm - 1 + (m_lno tm + 1 - m_lno fm) = m_lno tm" using n l1 by simp_all
    have "lines s3 = take (m_lno fm - 1) ?ls @ take (m_lno tm + 1 - m_lno fm) (drop (m_lno fm - 1) ?ls) @ drop (m_lno tm) ?ls"
      using becomesD(2) [OF s3(3)] s1(4) k(1) unfolding l2 by (simp add: range_text_def)
    also have "\<dots> = take (m_lno tm) ?ls @ drop (m_lno tm) ?ls"
      using take_add [of "m_lno fm - 1" "m_lno tm + 1 - m_lno fm" ?ls] unfolding k(2) by simp
    finally show ?thesis by simp
  qed
  moreover have "m_lno rp = m_lno fm" using s3(2) n by simp
  ultimately show ?thesis using s1(1) s2(1) by blast
qed

theorem cut_delete_put_witness:
  "\<exists>s1 s2 rp s3. cut 1 (Some (CHR ''a'')) \<lparr>m_lno = 2, m_cno = 0\<rparr> \<lparr>m_lno = 3, m_cno = 0\<rparr>
      \<lparr>cut_linemode = True, cut_numopt = True, cut_numreq = False\<rparr> (opened [''a'', ''b'', ''c'']) = Some (False, s1) \<and>
    del \<lparr>m_lno = 2, m_cno = 0\<rparr> \<lparr>m_lno = 3, m_cno = 0\<rparr> True s1 = Some (False, s2) \<and>
    put None None \<lparr>m_lno = 2, m_cno = 0\<rparr> False 1 s2 = Some (False, Some rp, s3) \<and> lines s3 = [''a'', ''b'', ''c'']"
  using cut_delete_put [of "opened [''a'', ''b'', ''c'']" "\<lparr>cut_linemode = True, cut_numopt = True, cut_numreq = False\<rparr>"
      "\<lparr>m_lno = 2, m_cno = 0\<rparr>" "\<lparr>m_lno = 3, m_cno = 0\<rparr>" "Some (CHR ''a'')" 1]
  by (auto simp: range_ok_def)

subsection \<open>Putting characters\<close>

text \<open>The column at which the line is split.\<close>

definition split_at :: "mark \<Rightarrow> bool \<Rightarrow> bytes \<Rightarrow> nat" where
  "split_at cp app p = (if p = [] then 0 else m_cno cp + (if app then 1 else 0))"

lemma db_eget_becomes:
  assumes e: "editing s" "text_ok s" and n: "0 < n" "n \<le> length (lines s)"
  shows "\<exists>s1. db_eget n s = Some (False, lines s ! (n - 1), False, s1) \<and> becomes s (lines s) s1 \<and>
    tmp_inuse s1 = tmp_inuse s \<and> tmp_blen s1 = tmp_blen s \<and> cur s1 = cur s"
proof -
  obtain l s1 where g: "db_eget n s = (if 0 < n \<and> n \<le> length (lines s) then Some (False, l, False, s1)
       else Some (True, [], n \<le> 1 \<and> lines s = [], s1))" "keeps s s1" "text_ok s \<longrightarrow> l = lines s ! (n - 1)"
    using db_eget_base [OF editingD(1,4) [OF e(1)], of n] by blast
  note f = reads_fields [OF keepsD(2) [OF g(2)]]
  show ?thesis using g(1,3) n e(2) keeps_becomes [OF g(2) e(1)] f(19,24,25) by simp
qed

lemma put_chars_one:
  assumes e: "editing s" "text_ok s" and n: "0 < m_lno cp" "m_lno cp \<le> length (lines s)"
    and p: "p = lines s ! (m_lno cp - 1)" and k: "k = split_at cp app p" "k \<le> length p"
  shows "\<exists>rp s'. put_chars [tp] cp app 1 s = Some (False, Some rp, s') \<and>
    becomes s ((lines s)[m_lno cp - 1 := take k p @ tp @ drop k p]) s'"
proof -
  obtain s1 where s1: "db_eget (m_lno cp) s = Some (False, p, False, s1)" "becomes s (lines s) s1"
    using db_eget_becomes [OF e n] p by blast
  obtain bp s2 where s2: "get_space (length tp + length p + 1) s1 = (Some bp, s2)"
    "length tp + length p + 1 \<le> snd bp" "becomes s1 (lines s1) s2"
    by (rule get_space_becomes [OF becomesD(1) [OF s1(2)]])
  have b2: "becomes s (lines s) s2" using becomes_trans [OF s1(2) s2(3)] becomesD(2) [OF s1(2)] by simp
  have l2: "lines s2 = lines s" by (rule becomesD(2) [OF b2])
  have n2: "m_lno cp \<le> length (lines s2)" using n l2 by simp
  let ?new = "take k p @ tp @ drop k p"
  obtain s3 where s3: "db_set (m_lno cp) ?new s2 = Some (False, s3)" "becomes s2 ((lines s2)[m_lno cp - 1 := ?new]) s3"
    using db_set_becomes [OF becomesD(1) [OF b2] n(1) n2] by blast
  have b3: "becomes s ((lines s)[m_lno cp - 1 := ?new]) s3" using becomes_trans [OF b2 s3(2)] l2 by simp
  have l3: "lines s3 = (lines s)[m_lno cp - 1 := ?new]" by (rule becomesD(2) [OF b3])
  have b4: "becomes s ((lines s)[m_lno cp - 1 := ?new]) (rpt_changed (m_lno cp) s3)"
    using becomes_trans [OF b3 rpt_becomes(3) [OF becomesD(1) [OF b3]]] l3 by simp
  let ?s' = "free_space bp (rpt_changed (m_lno cp) s3)"
  have b5: "becomes s ((lines s)[m_lno cp - 1 := ?new]) ?s'"
    using becomes_trans [OF b4 free_space_becomes [OF becomesD(1) [OF b4]]] becomesD(2) [OF b4] by simp
  have kk: "k = (if length p = 0 then 0 else m_cno cp + (if app then 1 else 0))" using k(1) by (simp add: split_at_def)
  have r: "readable k p = Some ()" "room bp (length (take k p @ tp)) = Some ()" "room bp (length ((take k p @ tp) @ drop k p)) = Some ()"
    using k(2) s2(2) by (simp_all add: readable_def room_def)
  let ?rp = "\<lparr>m_lno = m_lno cp, m_cno = (if length p = 0 then 0 else sp_cno (cur s2) + (if app \<and> tp \<noteq> [] then 1 else 0))\<rparr>"
  have "put_chars [tp] cp app 1 s = Some (False, Some ?rp, ?s')"
    using s1(1) s2(1) r s3(1) kk unfolding put_chars_def Let_def by (cases app; cases "p = []") simp_all
  then show ?thesis using b5 by blast
qed

lemma put_chars_spec:
  assumes "editing s" "text_ok s" and "cb_at (put_choose cbp namep s) s = Some cb" "\<not> cb_lmode cb" "cb_textq cb = [tp]"
    and "0 < m_lno cp" "m_lno cp \<le> length (lines s)"
    and "p = lines s ! (m_lno cp - 1)" "k = split_at cp app p" "k \<le> length p"
  shows "\<exists>rp s'. put cbp namep cp app 1 s = Some (False, Some rp, s') \<and>
    becomes s ((lines s)[m_lno cp - 1 := take k p @ tp @ drop k p]) s'"
proof -
  obtain n s1 where s1: "(if m_lno cp = 1 then db_last s else Some (False, 1, s)) = Some (False, n, s1)"
    "becomes s (lines s) s1"
  proof (cases "m_lno cp = 1")
    case True
    obtain s1 where "db_last s = Some (False, length (lines s), s1)" "keeps s s1"
      using db_last_base [OF editingD(1,4) [OF assms(1)]] by blast
    then show ?thesis using that [of "length (lines s)" s1] True keeps_becomes [OF _ assms(1)] by simp
  next
    case False
    then show ?thesis using that [of 1 s] becomes_refl [OF assms(1)] by simp
  qed
  note l1 = becomesD(2) [OF s1(2)]
  have n1: "m_lno cp \<le> length (lines s1)" "p = lines s1 ! (m_lno cp - 1)" using assms(7,8) l1 by simp_all
  obtain rp s' where s': "put_chars [tp] cp app 1 s1 = Some (False, Some rp, s')"
    "becomes s1 ((lines s1)[m_lno cp - 1 := take k p @ tp @ drop k p]) s'"
    using put_chars_one [OF becomesD(1) [OF s1(2)] becomesD(3) [OF s1(2) assms(2)] assms(6) n1(1,2) assms(9,10)] by blast
  have "put cbp namep cp app 1 s = put_cb cb cp app 1 s"
    using assms(3) by (simp add: put_def cb_at_def split: cbptr.splits)
  also have "\<dots> = Some (False, Some rp, s')"
    unfolding put_cb_def s1(1) using assms(4,5) s'(1) by simp
  finally show ?thesis using becomes_trans [OF s1(2) s'(2)] l1 by auto
qed

text \<open>
  A character mode put of one piece of text inserts it into the mark's line, before or after the mark's
  column.
\<close>

theorem put_characters:
  assumes "editing s" "text_ok s" and "cb_at (put_choose cbp namep s) s = Some cb" "\<not> cb_lmode cb" "cb_textq cb = [tp]"
    and "0 < m_lno cp" "m_lno cp \<le> length (lines s)"
    and "p = lines s ! (m_lno cp - 1)" "k = split_at cp app p" "k \<le> length p"
  shows "\<exists>rp s'. put cbp namep cp app 1 s = Some (False, Some rp, s') \<and>
    becomes s ((lines s)[m_lno cp - 1 := take k p @ tp @ drop k p]) s'"
  by (rule put_chars_spec [OF assms])

theorem put_characters_witness:
  "\<exists>rp s'. put None None \<lparr>m_lno = 1, m_cno = 0\<rparr> True 1
      ((opened [''abc''])\<lparr>dcb_store := \<lparr>cb_name = CHR ''1'', cb_textq = [''xy''], cb_len = 2, cb_lmode = False\<rparr>,
         dcbp := CB_STORE\<rparr>) = Some (False, Some rp, s') \<and> lines s' = [''axybc'']"
  using put_characters [of "(opened [''abc''])\<lparr>dcb_store := \<lparr>cb_name = CHR ''1'', cb_textq = [''xy''], cb_len = 2, cb_lmode = False\<rparr>,
         dcbp := CB_STORE\<rparr>" None None "\<lparr>cb_name = CHR ''1'', cb_textq = [''xy''], cb_len = 2, cb_lmode = False\<rparr>" "''xy''"
         "\<lparr>m_lno = 1, m_cno = 0\<rparr>" "''abc''" 1 True]
  by (auto simp: put_choose_def cb_at_def becomes_def split_at_def text_ok_def)

text \<open>
  A character mode put with a count writes beyond its buffer. The space asked for holds one copy of the text;
  when the copies are longer than that, and than the 256 bytes a new buffer has at least, the
  writes are out of bounds.
\<close>

theorem put_count_overflows:
  assumes "editing s" "text_ok s" "0 < m_lno cp" "m_lno cp \<le> length (lines s)" "tmp_inuse s \<or> tmp_blen s = 0"
    and "max (length tp + length (lines s ! (m_lno cp - 1)) + 1) 256 < cnt * length tp"
  shows "put_chars [tp] cp app cnt s = None"
proof -
  let ?p = "lines s ! (m_lno cp - 1)"
  let ?need = "length tp + length ?p + 1"
  obtain s1 where s1: "db_eget (m_lno cp) s = Some (False, ?p, False, s1)" "becomes s (lines s) s1"
    "tmp_inuse s1 = tmp_inuse s" "tmp_blen s1 = tmp_blen s"
    using db_eget_becomes [OF assms(1-4)] by blast
  have m: "mem_ok s1 k" for k using base_mem [OF editingD(1) [OF becomesD(1) [OF s1(2)]]] by simp
  have "binc_ret (mem_ok s1) 0 ?need = Some (max ?need 256)" using m by (simp add: binc_ret_def binc_def)
  then have "fst (get_space ?need s1) = Some (\<not> tmp_inuse s1, max ?need 256)"
    using assms(5) s1(3,4) by (cases "tmp_inuse s1") (simp_all add: get_space_def)
  then obtain b s2 where s2: "get_space ?need s1 = (Some (b, max ?need 256), s2)"
    by (cases "get_space ?need s1") simp
  have "length (concat (replicate cnt tp)) = cnt * length tp" by (induction cnt) simp_all
  then have "\<not> length (take k ?p @ concat (replicate cnt tp)) \<le> max ?need 256" for k using assms(6) by simp
  then have r: "room (b, max ?need 256) (length (take k ?p @ concat (replicate cnt tp))) = None" for k by (simp add: room_def)
  show ?thesis unfolding put_chars_def Let_def using s1(1) s2 r by (auto simp: readable_def)
qed

theorem put_count_overflows_witness:
  "put_chars [replicate 100 (CHR ''x'')] \<lparr>m_lno = 1, m_cno = 0\<rparr> True 3 (opened [''abc'']) = None"
proof -
  have "tmp_blen (opened [''abc'']) = 0" by (simp add: opened_def)
  then show ?thesis
    using put_count_overflows [of "opened [''abc'']" "\<lparr>m_lno = 1, m_cno = 0\<rparr>" "replicate 100 (CHR ''x'')" 3 True] by simp
qed

end
