(* ===== verification/Match.thy ===== *)
theory Match
  imports Words
begin

section \<open>Matching brackets (vi/v_match.c)\<close>

text \<open>
  The motion \<^verbatim>\<open>%\<close>: the first bracket at or after the cursor decides what to look for and in which direction;
  a counter of nested brackets of the same kind is carried along the character stream.

  The lemmas say where the walk ends, in terms of the characters of the file, and that going from a bracket to its
  match and from there again leads back.
\<close>

subsection \<open>Operations\<close>

definition match_of :: "char \<Rightarrow> (char \<times> bool) option" where
  "match_of c =
     (if c = CHR ''('' then Some (CHR '')'', True) else if c = CHR '')'' then Some (CHR ''('', False)
      else if c = CHR ''['' then Some (CHR '']'', True) else if c = CHR '']'' then Some (CHR ''['', False)
      else if c = CHR ''{'' then Some (CHR ''}'', True) else if c = CHR ''}'' then Some (CHR ''{'', False)
      else if c = CHR ''<'' then Some (CHR ''>'', True) else if c = CHR ''>'' then Some (CHR ''<'', False)
      else None)"

fun first_bracket :: "nat \<Rightarrow> bytes \<Rightarrow> nat option" where
  "first_bracket off [] = None"
| "first_bracket off (c # p) = (if match_of c \<noteq> None then Some off else first_bracket (Suc off) p)"

text \<open>The loop; the result has the counter, which is 0 if the match was found.\<close>

partial_function (option) match_loop ::
  "move \<Rightarrow> char \<Rightarrow> char \<Rightarrow> nat \<Rightarrow> vcs \<Rightarrow> ed \<Rightarrow> (bool \<times> nat \<times> vcs \<times> ed) option" where
  "match_loop gc startc matchc cnt cs s =
     do {
       (e, cs1, s1) \<leftarrow> gc cs s;
       if e then Some (True, cnt, cs1, s1)
       else if cs_flags cs1 \<noteq> CS_NONE then
         (if cs_flags cs1 = CS_EOF \<or> cs_flags cs1 = CS_SOF then Some (False, cnt, cs1, s1)
          else match_loop gc startc matchc cnt cs1 s1)
       else if cs_ch cs1 = startc then match_loop gc startc matchc (cnt + 1) cs1 s1
       else if cs_ch cs1 = matchc then
         (if cnt - 1 = 0 then Some (False, 0, cs1, s1) else match_loop gc startc matchc (cnt - 1) cs1 s1)
       else match_loop gc startc matchc cnt cs1 s1
     }"

text \<open>Whether a motion over lines becomes a line mode one.\<close>

definition match_lmode :: "vicmd \<Rightarrow> ed \<Rightarrow> (bool \<times> vicmd \<times> ed) option" where
  "match_lmode vp s =
     (let down = m_lno (m_start vp) < m_lno (m_stop vp);
          first = (if down then m_start vp else m_stop vp);
          second = (if down then m_stop vp else m_start vp)
      in do {
        (e, cno, s1) \<leftarrow> (if m_cno first \<noteq> 0 then nonblank (m_lno first) 0 s else Some (False, 0, s));
        if e then Some (True, vp, s1)
        else if m_cno first \<noteq> 0 \<and> cno < m_cno first then Some (False, vp, s1)
        else do {
          (e, p, s2) \<leftarrow> db_get (m_lno second) False s1;
          if e then Some (True, vp, s2)
          else if m_cno second < length p
          then Some (False, if v_isempty (drop (m_cno second + 1) p) then vp\<lparr>vm_lmode := True\<rparr> else vp, s2)
          else None
        }
      })"

definition v_match :: "vicmd \<Rightarrow> ed \<Rightarrow> (bool \<times> vicmd \<times> ed) option" where
  "v_match vp s =
     do {
       (e, p, _, s1) \<leftarrow> db_eget (m_lno (m_start vp)) s;
       if e then Some (True, vp, s1) else
       (case first_bracket (m_cno (m_start vp)) (drop (m_cno (m_start vp)) p) of
          None \<Rightarrow> Some (True, vp, s1)
        | Some off \<Rightarrow>
          (case match_of (p ! off) of
             None \<Rightarrow> None
           | Some (matchc, fwd) \<Rightarrow>
             do {
               (e, cs, s2) \<leftarrow> cs_init (cs_start ((m_start vp)\<lparr>m_cno := off\<rparr>)) s1;
               if e then Some (True, vp, s2) else do {
               (e, cnt, cs1, s3) \<leftarrow> match_loop (if fwd then cs_next else cs_prev) (p ! off) matchc 1 cs s2;
               if e then Some (True, vp, s3)
               else if cnt \<noteq> 0 then Some (True, vp, s3)
               else
                 let stop = cs_pos cs1; st = m_start vp;
                     right = m_lno st < m_lno stop \<or> m_lno st = m_lno stop \<and> m_cno st < m_cno stop;
                     vp1 = vp\<lparr>m_stop := stop, m_final := if right \<and> ISMOTION vp then st else stop\<rparr>
                 in if \<not> ISMOTION vp \<or> m_lno st = m_lno stop then Some (False, vp1, s3)
                    else match_lmode vp1 s3
             }}))
     }"

subsection \<open>The match in a list of items\<close>

fun find_match :: "char \<Rightarrow> char \<Rightarrow> nat \<Rightarrow> item list \<Rightarrow> item option" where
  "find_match a b d [] = None"
| "find_match a b d (i # is) =
     (if i_flag i \<noteq> CS_NONE then find_match a b d is
      else if i_ch i = a then find_match a b (d + 1) is
      else if i_ch i = b then (if d - 1 = 0 then Some i else find_match a b (d - 1) is)
      else find_match a b d is)"

context walk
begin

text \<open>The loop ends, at the match if there is one, otherwise at the end of the walk.\<close>

lemma match_loop_walk:
  assumes "stands cs s its" "0 < d"
  shows "\<exists>cnt cs' s'. match_loop mv a b d cs s = Some (False, cnt, cs', s') \<and> reads s s' \<and> ready s' \<and>
    (case find_match a b d (beyond its) of
       None \<Rightarrow> 0 < cnt
     | Some i \<Rightarrow> cnt = 0 \<and> cs_pos cs' = i_pos i)"
  using assms
proof (induction "length its" arbitrary: its cs s d rule: less_induct)
  case less
  obtain cs1 s1 where s1: "mv cs s = Some (False, cs1, s1)" "stands cs1 s1 (beyond its)" "reads s s1"
    using step [OF less.prems(1)] by blast
  obtain i r where b: "beyond its = i # r" using stands_item [OF s1(2)] by (cases "beyond its") auto
  have i: "cs_flags cs1 = i_flag i" "i_flag i = CS_NONE \<Longrightarrow> cs_ch cs1 = i_ch i" "cs_pos cs1 = i_pos i"
    using stands_Cons at_item_pos s1(2) b unfolding at_item_def by auto
  have e: "ended stop (i # r)" using stands_ended [OF s1(2)] b by simp
  have rd: "ready s1" using stands_ready [OF s1(2)] by simp
  note unf = match_loop.simps [of mv a b d cs s]
  show ?case
  proof (cases "r = []")
    case True
    then have f: "i_flag i = stop" using ended_last [OF e] by simp
    then have "i_flag i = CS_EOF \<or> i_flag i = CS_SOF" using stop by simp
    then show ?thesis using s1(1,3) rd b True i(1) less.prems(2) by (subst unf) auto
  next
    case False
    then have in_i: "inner i" using endedD(1) [OF e refl] by simp
    have len: "length (beyond its) < length its" "beyond (beyond its) = r"
      using b False by (auto simp: beyond_def split: list.splits)
    have IH: "\<exists>cnt cs' s'. match_loop mv a b d' cs1 s1 = Some (False, cnt, cs', s') \<and> reads s s' \<and> ready s' \<and>
      (case find_match a b d' r of None \<Rightarrow> 0 < cnt | Some i \<Rightarrow> cnt = 0 \<and> cs_pos cs' = i_pos i)" if "0 < d'" for d'
      using less.hyps [OF len(1) s1(2) that] len(2) reads_trans [OF s1(3)] by auto
    consider "i_flag i \<noteq> CS_NONE" | "i_flag i = CS_NONE" "i_ch i = a" | "i_flag i = CS_NONE" "i_ch i \<noteq> a" "i_ch i = b" "d - 1 = 0"
      | "i_flag i = CS_NONE" "i_ch i \<noteq> a" "i_ch i = b" "d - 1 \<noteq> 0" | "i_flag i = CS_NONE" "i_ch i \<noteq> a" "i_ch i \<noteq> b" by blast
    then show ?thesis
    proof cases
      case 1
      then show ?thesis using s1(1) b i(1) in_i IH [OF less.prems(2)] by (subst unf) (auto simp: inner_def)
    next
      case 2
      then show ?thesis using s1(1) b i(1,2) IH [of "d + 1"] by (subst unf) simp
    next
      case 3
      then show ?thesis using s1(1,3) b i rd by (subst unf) simp
    next
      case 4
      then show ?thesis using s1(1) b i(1,2) IH [of "d - 1"] by (subst unf) (auto split: option.splits)
    next
      case 5
      then show ?thesis using s1(1) b i(1,2) IH [OF less.prems(2)] by (subst unf) simp
    qed
  qed
qed

end

subsection \<open>Nesting\<close>

text \<open>
  \<open>runs\<close> follows the depth over some characters, as long as it does not come down to 0. The match is where it would
  do so for the first time. Read backward, with the brackets exchanged, the same characters lead from the last depth to the
  first.
\<close>

fun runs :: "char \<Rightarrow> char \<Rightarrow> nat \<Rightarrow> item list \<Rightarrow> nat option" where
  "runs a b d [] = Some d"
| "runs a b d (i # is) =
     (if i_ch i = a then runs a b (d + 1) is
      else if i_ch i = b then (if d \<le> 1 then None else runs a b (d - 1) is)
      else runs a b d is)"

definition chars :: "item list \<Rightarrow> item list" where
  "chars = filter (\<lambda>i. i_flag i = CS_NONE)"

lemma find_match_chars: "find_match a b d its = find_match a b d (chars its)"
  by (induction its arbitrary: d) (simp_all add: chars_def)

lemma runs_append: "runs a b d (xs @ ys) = (case runs a b d xs of None \<Rightarrow> None | Some e \<Rightarrow> runs a b e ys)"
  by (induction xs arbitrary: d) auto

lemma runs_pos: "runs a b d xs = Some e \<Longrightarrow> 0 < d \<Longrightarrow> 0 < e"
  by (induction xs arbitrary: d) (auto split: if_splits)

lemma runs_step: "0 < d \<Longrightarrow> 0 < e \<Longrightarrow> a \<noteq> b \<Longrightarrow> runs a b d [i] = Some e \<longleftrightarrow> runs b a e [i] = Some d"
  by auto

lemma runs_rev:
  assumes "0 < d" "0 < e" "a \<noteq> b" "runs a b d xs = Some e"
  shows "runs b a e (rev xs) = Some d"
  using assms
proof (induction xs arbitrary: d)
  case (Cons i xs)
  obtain f where f: "runs a b d [i] = Some f" "runs a b f xs = Some e"
    using Cons.prems(4) runs_append [of a b d "[i]" xs] by (auto simp del: runs.simps split: option.splits)
  have "0 < f" by (rule runs_pos [OF f(1) Cons.prems(1)])
  then show ?case using Cons.IH [OF _ Cons.prems(2,3) f(2)] runs_step [OF Cons.prems(1) _ Cons.prems(3)] f(1)
    by (simp add: runs_append del: runs.simps)
qed simp

definition balances :: "char \<Rightarrow> char \<Rightarrow> nat \<Rightarrow> item list \<Rightarrow> item \<Rightarrow> bool" where
  "balances a b d xs j \<longleftrightarrow> (\<exists>mid rest. xs = mid @ j # rest \<and> i_ch j = b \<and> runs a b d mid = Some 1)"

lemma find_match_split:
  assumes "\<forall>i \<in> set xs. i_flag i = CS_NONE" "0 < d" "a \<noteq> b"
  shows "find_match a b d xs = Some j \<longleftrightarrow> balances a b d xs j"
  unfolding balances_def
  using assms
proof (induction xs arbitrary: d)
  case (Cons i xs)
  have ne: "(\<exists>mid rest. i # xs = mid @ j # rest \<and> P mid) \<longleftrightarrow>
      i = j \<and> P [] \<or> (\<exists>mid rest. xs = mid @ j # rest \<and> P (i # mid))" for P
    by (auto simp: Cons_eq_append_conv)
  have IH: "find_match a b e xs = Some j \<longleftrightarrow> (\<exists>mid rest. xs = mid @ j # rest \<and> i_ch j = b \<and> runs a b e mid = Some 1)"
    if "0 < e" for e using Cons.IH [of e] Cons.prems that by simp
  show ?case
    unfolding ne using Cons.prems IH [of d] IH [of "d + 1"] IH [of "d - 1"] by (auto split: if_splits)
qed simp

text \<open>From a bracket to its match, and back.\<close>

lemma find_match_back:
  assumes all: "\<forall>i \<in> set (pre @ i # xs). i_flag i = CS_NONE" and ab: "a \<noteq> b" and i: "i_ch i = a"
    and f: "find_match a b 1 xs = Some j"
  obtains mid rest where "xs = mid @ j # rest" "i_ch j = b" "find_match b a 1 (rev mid @ i # pre) = Some i"
proof -
  obtain mid rest where m: "xs = mid @ j # rest" "i_ch j = b" "runs a b 1 mid = Some 1"
    using find_match_split [of xs 1 a b j] all ab f unfolding balances_def by auto
  have "runs b a 1 (rev mid) = Some 1" by (rule runs_rev [OF _ _ ab m(3)]) simp_all
  moreover have "\<forall>i \<in> set (rev mid @ i # pre). i_flag i = CS_NONE" using all m(1) by auto
  ultimately have "find_match b a 1 (rev mid @ i # pre) = Some i"
    using find_match_split [of "rev mid @ i # pre" 1 b a i] ab i unfolding balances_def by auto
  then show ?thesis using that m(1,2) by blast
qed

subsection \<open>The characters of the file\<close>

definition line_chars :: "nat \<Rightarrow> bytes list \<Rightarrow> item list" where
  "line_chars n ls = (if v_isempty (ls ! (n - 1)) then [] else map (char_item n (ls ! (n - 1))) [0..<length (ls ! (n - 1))])"

definition chars_before :: "nat \<Rightarrow> nat \<Rightarrow> bytes list \<Rightarrow> item list" where
  "chars_before n c ls = concat (map (\<lambda>k. line_chars k ls) [1..<n]) @ map (char_item n (ls ! (n - 1))) [0..<c]"

definition chars_after :: "nat \<Rightarrow> nat \<Rightarrow> bytes list \<Rightarrow> item list" where
  "chars_after n c ls = map (char_item n (ls ! (n - 1))) [c + 1..<length (ls ! (n - 1))] @
     concat (map (\<lambda>k. line_chars k ls) [n + 1..<length ls + 1])"

definition all_chars :: "bytes list \<Rightarrow> item list" where
  "all_chars ls = concat (map (\<lambda>k. line_chars k ls) [1..<length ls + 1])"

lemma chars_append [simp]: "chars (xs @ ys) = chars xs @ chars ys" "chars (rev xs) = rev (chars xs)"
  by (simp_all add: chars_def rev_filter)

lemma chars_mark [simp]: "f \<noteq> CS_NONE \<Longrightarrow> chars (mark_item f n c # is) = chars is" "chars [] = []"
  "chars (char_item n l c # is) = char_item n l c # chars is"
  by (simp_all add: chars_def)

lemma chars_line [simp]: "chars (map (char_item n l) xs) = map (char_item n l) xs"
  by (induction xs) (simp_all add: chars_def)

lemma chars_concat: "chars (concat xss) = concat (map chars xss)"
  by (induction xss) simp_all

lemma chars_ahead:
  assumes "\<not> v_isempty (ls ! (n - 1))" "c < length (ls ! (n - 1))"
  shows "chars (ahead n c ls) = char_item n (ls ! (n - 1)) c # chars_after n c ls"
proof -
  have "chars (line_on k (ls ! (k - 1))) = line_chars k ls" for k
    by (simp add: line_on_def chars_on_def line_chars_def)
  then have "chars (lines_on n ls) = concat (map (\<lambda>k. line_chars k ls) [n + 1..<length ls + 1])"
    by (simp add: lines_on_def chars_concat o_def del: upt_Suc)
  then show ?thesis using assms by (simp add: ahead_def chars_on_def chars_after_def upt_conv_Cons del: upt_Suc)
qed

lemma chars_behind:
  assumes "\<not> v_isempty (ls ! (n - 1))" "c < length (ls ! (n - 1))"
  shows "chars (behind n c ls) = char_item n (ls ! (n - 1)) c # rev (chars_before n c ls)"
proof -
  have "chars (line_back k (ls ! (k - 1))) = rev (line_chars k ls)" for k
  proof (cases "ls ! (k - 1)" rule: rev_cases)
    case Nil
    then show ?thesis by (simp add: line_back_def line_chars_def)
  next
    case (snoc ys y)
    then have "Suc (length (ls ! (k - 1)) - 1) = length (ls ! (k - 1))" by simp
    then show ?thesis by (simp add: line_back_def chars_back_def line_chars_def rev_map)
  qed
  then have "chars (lines_back n ls) = rev (concat (map (\<lambda>k. line_chars k ls) [1..<n]))"
    by (simp add: lines_back_def chars_concat o_def rev_concat rev_map del: upt_Suc)
  then show ?thesis using assms by (auto simp: behind_def chars_back_def chars_before_def rev_map)
qed

lemma in_line_chars:
  "i \<in> set (line_chars k ls) \<longleftrightarrow> \<not> v_isempty (ls ! (k - 1)) \<and> (\<exists>c < length (ls ! (k - 1)). i = char_item k (ls ! (k - 1)) c)"
  by (auto simp: line_chars_def)

lemma distinct_lines_chars: "distinct ks \<Longrightarrow> distinct (concat (map (\<lambda>k. line_chars k ls) ks))"
proof (induction ks)
  case (Cons k ks)
  have "distinct (line_chars k ls)"
    by (auto simp: line_chars_def distinct_map inj_on_def char_item_def)
  moreover have "set (line_chars k ls) \<inter> set (concat (map (\<lambda>k. line_chars k ls) ks)) = {}"
    using Cons.prems by (auto simp: in_line_chars char_item_def)
  ultimately show ?case using Cons by simp
qed simp

lemma all_chars_at:
  assumes "0 < n" "n \<le> length ls" "\<not> v_isempty (ls ! (n - 1))" "c < length (ls ! (n - 1))"
  shows "all_chars ls = chars_before n c ls @ char_item n (ls ! (n - 1)) c # chars_after n c ls"
proof -
  have "[1..<length ls + 1] = [1..<n] @ n # [n + 1..<length ls + 1]"
    using assms(1,2) upt_add_eq_append [of 1 n "length ls + 1 - n"] by (simp add: upt_conv_Cons del: upt_Suc)
  moreover have "[0..<length (ls ! (n - 1))] = [0..<c] @ c # [c + 1..<length (ls ! (n - 1))]"
    using assms(4) upt_add_eq_append [of 0 c "length (ls ! (n - 1)) - c"] by (simp add: upt_conv_Cons)
  ultimately show ?thesis
    using assms(3) by (simp add: all_chars_def chars_before_def chars_after_def line_chars_def del: upt_Suc)
qed

text \<open>Where a character of the file is, the others lie before and after it.\<close>

lemma all_chars_split:
  assumes "all_chars ls = xs @ j # ys"
  shows "0 < i_lno j \<and> i_lno j \<le> length ls \<and> \<not> v_isempty (ls ! (i_lno j - 1)) \<and> i_cno j < length (ls ! (i_lno j - 1)) \<and>
    i_ch j = ls ! (i_lno j - 1) ! i_cno j \<and> i_flag j = CS_NONE \<and>
    chars (ahead (i_lno j) (i_cno j) ls) = j # ys \<and> chars (behind (i_lno j) (i_cno j) ls) = j # rev xs"
proof -
  have "j \<in> set (all_chars ls)" using assms by simp
  then obtain k c where k: "1 \<le> k" "k < length ls + 1" "\<not> v_isempty (ls ! (k - 1))" "c < length (ls ! (k - 1))"
      "j = char_item k (ls ! (k - 1)) c"
    unfolding all_chars_def by (auto simp: in_line_chars simp del: upt_Suc)
  have a: "all_chars ls = chars_before k c ls @ j # chars_after k c ls" using all_chars_at [of k ls c] k by simp
  have "distinct (all_chars ls)" unfolding all_chars_def by (rule distinct_lines_chars) simp
  then have "xs = chars_before k c ls \<and> ys = chars_after k c ls"
    using a assms by (metis append_Cons_eq_iff distinct_append disjoint_iff distinct.simps(2) list.set_intros(1) not_distinct_conv_prefix)
  then show ?thesis using k chars_ahead [of ls k c] chars_behind [of ls k c] by simp
qed

subsection \<open>The motion\<close>

definition bracket_at :: "mark \<Rightarrow> bytes list \<Rightarrow> bool" where
  "bracket_at m ls \<longleftrightarrow> 0 < m_lno m \<and> m_lno m \<le> length ls \<and> m_cno m < length (ls ! (m_lno m - 1)) \<and>
     match_of (ls ! (m_lno m - 1) ! m_cno m) \<noteq> None"

text \<open>The characters in the direction of the search.\<close>

definition chars_toward :: "bool \<Rightarrow> mark \<Rightarrow> bytes list \<Rightarrow> item list" where
  "chars_toward fwd m ls =
     (if fwd then chars_after (m_lno m) (m_cno m) ls else rev (chars_before (m_lno m) (m_cno m) ls))"

lemma match_of_sym: "match_of a = Some (b, d) \<Longrightarrow> match_of b = Some (a, \<not> d) \<and> a \<noteq> b \<and> \<not> is_blank a"
  by (auto simp: match_of_def is_blank_def split: if_splits)

lemma chars_beyond:
  assumes "ended fin (i # r)" "i_flag i = CS_NONE"
  shows "find_match a b d (beyond (i # r)) = find_match a b d (tl (chars (i # r)))"
proof -
  have "r \<noteq> []" using ended_last [OF assms(1)] assms by (auto simp: ended_def)
  then show ?thesis using assms(2) find_match_chars [of a b d r] by (simp add: beyond_tl chars_def)
qed

lemma first_bracket_here: "c < length l \<Longrightarrow> match_of (l ! c) \<noteq> None \<Longrightarrow> first_bracket c (drop c l) = Some c"
  using Cons_nth_drop_Suc [of c l] by (metis first_bracket.simps(2))

lemma v_match_spec:
  assumes rd: "ready s" "\<not> sp_tinput (cur s)" and nm: "\<not> ISMOTION vp" and at: "bracket_at (m_start vp) (lines s)"
    and a: "a = lines s ! (m_lno (m_start vp) - 1) ! m_cno (m_start vp)" and b: "match_of a = Some (b, fwd)"
  shows "\<exists>s'. v_match vp s = Some (case find_match a b 1 (chars_toward fwd (m_start vp) (lines s)) of
      None \<Rightarrow> (True, vp, s') | Some j \<Rightarrow> (False, vp\<lparr>m_stop := i_pos j, m_final := i_pos j\<rparr>, s')) \<and> reads s s' \<and> ready s'"
proof -
  let ?m = "m_start vp"
  let ?n = "m_lno ?m" and ?c = "m_cno ?m" and ?l = "lines s ! (m_lno ?m - 1)"
  have n: "0 < ?n" "?n \<le> length (lines s)" "?c < length ?l" "match_of (?l ! ?c) \<noteq> None" using at by (auto simp: bracket_at_def)
  have ne: "\<not> v_isempty ?l" using n(3) a match_of_sym [OF b] nth_mem unfolding v_isempty_def by blast
  obtain s1 where s1: "db_eget ?n s = Some (False, ?l, False, s1)" "ready s1" "reads s s1"
    using db_eget_base [of s ?n] rd n by (auto simp: ready_def dest: keepsD(1,2) keepsD(3))
  have f: "lines s1 = lines s" "\<not> sp_tinput (cur s1)" using reads_fields(2,19) [OF s1(3)] rd(2) by simp_all
  obtain cs s2 where s2: "cs_init (cs_start ?m) s1 = Some (False, cs, s2)" "reads s1 s2"
      "stands_on cs s2 (ahead ?n ?c (lines s))" "stands_back cs s2 (behind ?n ?c (lines s))"
    using start_spec [OF s1(2) f(2), of ?m] f(1) n ne by (auto simp: in_text_def)
  have ab: "a \<noteq> b" using match_of_sym [OF b] by blast
  have loop: "\<exists>cnt cs' s'. match_loop (if fwd then cs_next else cs_prev) a b 1 cs s2 = Some (False, cnt, cs', s') \<and> reads s2 s' \<and> ready s' \<and>
      (case find_match a b 1 (chars_toward fwd ?m (lines s)) of None \<Rightarrow> 0 < cnt | Some i \<Rightarrow> cnt = 0 \<and> cs_pos cs' = i_pos i)"
  proof (cases fwd)
    case True
    obtain i r where i: "ahead ?n ?c (lines s) = i # r" using fwd.stands_item [OF s2(3)] by (cases "ahead ?n ?c (lines s)") auto
    have "i_flag i = CS_NONE" using ahead_behind_flags [of ?n ?c "lines s"] ne n(3) i by simp
    then have "find_match a b 1 (beyond (i # r)) = find_match a b 1 (chars_after ?n ?c (lines s))"
      using chars_beyond fwd.stands_ended [OF s2(3)] chars_ahead [OF ne n(3)] i by simp
    then show ?thesis using fwd.match_loop_walk [OF s2(3), of 1 a b] True i by (simp add: chars_toward_def)
  next
    case False
    obtain i r where i: "behind ?n ?c (lines s) = i # r" using bwd.stands_item [OF s2(4)] by (cases "behind ?n ?c (lines s)") auto
    have "i_flag i = CS_NONE" using i ne by (cases ?c) (auto simp: behind_def chars_back_0 chars_back_Suc)
    then have "find_match a b 1 (beyond (i # r)) = find_match a b 1 (rev (chars_before ?n ?c (lines s)))"
      using chars_beyond bwd.stands_ended [OF s2(4)] chars_behind [OF ne n(3)] i by simp
    then show ?thesis using bwd.match_loop_walk [OF s2(4), of 1 a b] False i by (simp add: chars_toward_def)
  qed
  then obtain cnt cs3 s3 where s3: "match_loop (if fwd then cs_next else cs_prev) a b 1 cs s2 = Some (False, cnt, cs3, s3)"
      "reads s2 s3" "ready s3"
      "case find_match a b 1 (chars_toward fwd ?m (lines s)) of None \<Rightarrow> 0 < cnt | Some i \<Rightarrow> cnt = 0 \<and> cs_pos cs3 = i_pos i" by blast
  have v: "v_match vp s = Some (if cnt \<noteq> 0 then (True, vp, s3) else (False, vp\<lparr>m_stop := cs_pos cs3, m_final := cs_pos cs3\<rparr>, s3))"
    using s1(1) s2(1) s3(1) first_bracket_here [OF n(3,4)] b a nm by (simp add: v_match_def Let_def)
  have "reads s s3" using reads_trans [OF s1(3) reads_trans [OF s2(2) s3(2)]] .
  then show ?thesis using v s3(3,4) by (auto split: option.splits)
qed

lemma toward_split:
  assumes at: "bracket_at m ls" and nb: "\<not> is_blank (ls ! (m_lno m - 1) ! m_cno m)"
  obtains i where "i_pos i = m" "i_ch i = ls ! (m_lno m - 1) ! m_cno m" "i_flag i = CS_NONE"
    "all_chars ls = chars_before (m_lno m) (m_cno m) ls @ i # chars_after (m_lno m) (m_cno m) ls"
proof -
  let ?l = "ls ! (m_lno m - 1)"
  have n: "0 < m_lno m" "m_lno m \<le> length ls" "m_cno m < length ?l" using at by (auto simp: bracket_at_def)
  have "\<not> v_isempty ?l" using n(3) nb nth_mem unfolding v_isempty_def by blast
  then have "all_chars ls = chars_before (m_lno m) (m_cno m) ls @ char_item (m_lno m) ?l (m_cno m) # chars_after (m_lno m) (m_cno m) ls"
    using all_chars_at [OF n(1,2) _ n(3)] by simp
  then show ?thesis by (rule that [rotated 3]) (simp_all add: i_pos_def)
qed

lemma all_chars_flag: "i \<in> set (all_chars ls) \<Longrightarrow> i_flag i = CS_NONE"
  unfolding all_chars_def by (auto simp: in_line_chars simp del: upt_Suc)

text \<open>The partner of a partner.\<close>

lemma partner:
  assumes at: "bracket_at m ls" and a: "a = ls ! (m_lno m - 1) ! m_cno m" and b: "match_of a = Some (b, d)"
    and f: "find_match a b 1 (chars_toward d m ls) = Some j"
  shows "bracket_at (i_pos j) ls \<and> ls ! (i_lno j - 1) ! i_cno j = b \<and>
    (\<exists>i. find_match b a 1 (chars_toward (\<not> d) (i_pos j) ls) = Some i \<and> i_pos i = m)"
proof -
  have ab: "a \<noteq> b" "\<not> is_blank a" "match_of b = Some (a, \<not> d)" using match_of_sym [OF b] by simp_all
  obtain i where i: "i_pos i = m" "i_ch i = a" "i_flag i = CS_NONE"
      "all_chars ls = chars_before (m_lno m) (m_cno m) ls @ i # chars_after (m_lno m) (m_cno m) ls"
    using toward_split [OF at] ab(2) a by metis
  let ?pre = "if d then rev (chars_before (m_lno m) (m_cno m) ls) else chars_after (m_lno m) (m_cno m) ls"
  have fl: "\<forall>i \<in> set (?pre @ i # chars_toward d m ls). i_flag i = CS_NONE"
    using all_chars_flag [of _ ls] unfolding i(4) chars_toward_def by auto
  obtain mid rest where m: "chars_toward d m ls = mid @ j # rest" "i_ch j = b" "find_match b a 1 (rev mid @ i # ?pre) = Some i"
    by (rule find_match_back [OF fl ab(1) i(2) f])
  obtain xs ys where xy: "all_chars ls = xs @ j # ys" "(if d then rev xs else ys) = rev mid @ i # ?pre"
  proof (cases d)
    case True
    then have "all_chars ls = (chars_before (m_lno m) (m_cno m) ls @ i # mid) @ j # rest"
      using i(4) m(1) by (simp add: chars_toward_def)
    then show ?thesis by (rule that) (use True in simp)
  next
    case False
    then have "chars_before (m_lno m) (m_cno m) ls = rev (mid @ j # rest)" using m(1) by (simp add: chars_toward_def rev_swap)
    then have "all_chars ls = rev rest @ j # rev mid @ i # chars_after (m_lno m) (m_cno m) ls" using i(4) by simp
    then show ?thesis by (rule that) (use False in simp)
  qed
  note sp = all_chars_split [OF xy(1)]
  have lj: "i_pos j = \<lparr>m_lno = i_lno j, m_cno = i_cno j\<rparr>" by (simp add: i_pos_def)
  have "chars_toward (\<not> d) (i_pos j) ls = (if d then rev xs else ys)"
    using sp chars_ahead [of ls "i_lno j" "i_cno j"] chars_behind [of ls "i_lno j" "i_cno j"]
    by (auto simp: chars_toward_def lj)
  then show ?thesis using sp m(2,3) xy(2) i(1) ab(3) by (auto simp: bracket_at_def lj)
qed

text \<open>A file for the witnesses.\<close>

abbreviation bracket_file :: "bytes list" where
  "bracket_file \<equiv> [''f(a[1],'', '' '', '' (b))'']"

text \<open>
  C32: \<^verbatim>\<open>%\<close> on a bracket always returns. If, going on from there in its direction, there is a partner before
  which the brackets of the kind are balanced and never outnumbered, the cursor goes to it, across lines if need be; if
  there is none, it fails; it changes no line.
\<close>

theorem match_balanced:
  assumes "ready s" "\<not> sp_tinput (cur s)" "\<not> ISMOTION vp" "bracket_at (m_start vp) (lines s)"
    and "a = lines s ! (m_lno (m_start vp) - 1) ! m_cno (m_start vp)" "match_of a = Some (b, fwd)"
  shows "\<exists>e vp' s'. v_match vp s = Some (e, vp', s') \<and> reads s s' \<and>
    (e \<longleftrightarrow> (\<nexists>j. balances a b 1 (chars_toward fwd (m_start vp) (lines s)) j)) \<and>
    (\<forall>j. balances a b 1 (chars_toward fwd (m_start vp) (lines s)) j \<longrightarrow> m_final vp' = i_pos j)"
proof -
  let ?t = "chars_toward fwd (m_start vp) (lines s)"
  have ab: "a \<noteq> b" "\<not> is_blank a" using match_of_sym [OF assms(6)] by simp_all
  obtain i where i: "all_chars (lines s) = chars_before (m_lno (m_start vp)) (m_cno (m_start vp)) (lines s) @ i #
      chars_after (m_lno (m_start vp)) (m_cno (m_start vp)) (lines s)"
    using toward_split [OF assms(4)] ab(2) assms(5) by metis
  have "\<forall>i \<in> set ?t. i_flag i = CS_NONE" using all_chars_flag [of _ "lines s"] unfolding i chars_toward_def by auto
  then have sp: "balances a b 1 ?t j \<longleftrightarrow> find_match a b 1 ?t = Some j" for j
    using find_match_split [of ?t 1 a b j] ab(1) by simp
  show ?thesis unfolding sp using v_match_spec [OF assms] by (cases "find_match a b 1 ?t") auto
qed

theorem match_balanced_witness:
  "\<exists>e vp' s'. v_match (vi_start None None \<lparr>m_lno = 1, m_cno = 1\<rparr>) (opened bracket_file) = Some (e, vp', s') \<and>
     \<not> e \<and> m_final vp' = \<lparr>m_lno = 3, m_cno = 4\<rparr>"
proof -
  let ?vp = "vi_start None None \<lparr>m_lno = 1, m_cno = 1\<rparr>"
  have v: "m_start ?vp = \<lparr>m_lno = 1, m_cno = 1\<rparr>" "\<not> ISMOTION ?vp" by (simp_all add: vi_start_def ISMOTION_def)
  have p: "bracket_at \<lparr>m_lno = 1, m_cno = 1\<rparr> bracket_file" "match_of (CHR ''('') = Some (CHR '')'', True)"
    by (simp_all add: bracket_at_def match_of_def)
  have t: "chars_toward True \<lparr>m_lno = 1, m_cno = 1\<rparr> bracket_file =
      map (char_item 1 ''f(a[1],'') [2..<7] @ map (char_item 3 '' (b))'') [0..<4] @ char_item 3 '' (b))'' 4 # []"
    by code_simp
  have r: "runs (CHR ''('') (CHR '')'') 1 (map (char_item 1 ''f(a[1],'') [2..<7] @ map (char_item 3 '' (b))'') [0..<4]) = Some 1"
    by code_simp
  have bal: "balances (CHR ''('') (CHR '')'') 1 (chars_toward True \<lparr>m_lno = 1, m_cno = 1\<rparr> bracket_file) (char_item 3 '' (b))'' 4)"
    unfolding balances_def t using r by (intro exI conjI) (rule append_assoc [symmetric], simp_all)
  have pos: "i_pos (char_item 3 l 4) = \<lparr>m_lno = 3, m_cno = 4\<rparr>" for l by (simp add: i_pos_def)
  obtain e vp' s' where m: "v_match ?vp (opened bracket_file) = Some (e, vp', s')"
      "e \<longleftrightarrow> (\<nexists>j. balances (CHR ''('') (CHR '')'') 1 (chars_toward True \<lparr>m_lno = 1, m_cno = 1\<rparr> bracket_file) j)"
      "\<forall>j. balances (CHR ''('') (CHR '')'') 1 (chars_toward True \<lparr>m_lno = 1, m_cno = 1\<rparr> bracket_file) j \<longrightarrow> m_final vp' = i_pos j"
    using match_balanced [of "opened bracket_file" ?vp "CHR ''(''" "CHR '')''" True] v p by auto
  then have "\<not> e" "m_final vp' = \<lparr>m_lno = 3, m_cno = 4\<rparr>" using bal pos by auto
  then show ?thesis using m(1) by blast
qed

text \<open>
  C31: \<^verbatim>\<open>%\<close> leads back. From a bracket on which it succeeds it goes to one on which it succeeds again and
  returns to the first.
\<close>

theorem match_returns:
  assumes "ready s" "\<not> sp_tinput (cur s)" "\<not> ISMOTION vp" "bracket_at (m_start vp) (lines s)"
    and "v_match vp s = Some (False, vp1, s1)" "ready s1"
  shows "\<exists>vp2 s2. v_match (vp1\<lparr>m_start := m_final vp1\<rparr>) s1 = Some (False, vp2, s2) \<and> m_final vp2 = m_start vp"
proof -
  let ?a = "lines s ! (m_lno (m_start vp) - 1) ! m_cno (m_start vp)"
  obtain b d where b: "match_of ?a = Some (b, d)" using assms(4) by (auto simp: bracket_at_def)
  obtain j where j: "find_match ?a b 1 (chars_toward d (m_start vp) (lines s)) = Some j"
      "vp1 = vp\<lparr>m_stop := i_pos j, m_final := i_pos j\<rparr>" "reads s s1"
    using v_match_spec [OF assms(1-4) refl b] assms(5) by (auto split: option.splits)
  note pa = partner [OF assms(4) refl b j(1)]
  have f: "lines s1 = lines s" "\<not> sp_tinput (cur s1)" using reads_fields(2,19) [OF j(3)] assms(2) by simp_all
  let ?vp = "vp1\<lparr>m_start := m_final vp1\<rparr>"
  have v: "m_start ?vp = i_pos j" "\<not> ISMOTION ?vp" using j(2) assms(3) by (simp_all add: ISMOTION_def)
  have "match_of b = Some (?a, \<not> d)" using match_of_sym [OF b] by simp
  then show ?thesis
    using v_match_spec [OF assms(6) f(2) v(2), of b ?a "\<not> d"] pa f(1) v(1) by (auto simp: i_pos_def)
qed

theorem match_returns_witness:
  "\<exists>vp1 s1 vp2 s2. v_match (vi_start None None \<lparr>m_lno = 1, m_cno = 1\<rparr>) (opened bracket_file) = Some (False, vp1, s1) \<and>
     v_match (vp1\<lparr>m_start := m_final vp1\<rparr>) s1 = Some (False, vp2, s2) \<and> m_final vp2 = \<lparr>m_lno = 1, m_cno = 1\<rparr>"
proof -
  let ?vp = "vi_start None None \<lparr>m_lno = 1, m_cno = 1\<rparr>"
  have v: "m_start ?vp = \<lparr>m_lno = 1, m_cno = 1\<rparr>" "\<not> ISMOTION ?vp" by (simp_all add: vi_start_def ISMOTION_def)
  have p: "bracket_at \<lparr>m_lno = 1, m_cno = 1\<rparr> bracket_file" "match_of (CHR ''('') = Some (CHR '')'', True)"
    by (simp_all add: bracket_at_def match_of_def)
  have "find_match (CHR ''('') (CHR '')'') 1 (chars_toward True \<lparr>m_lno = 1, m_cno = 1\<rparr> bracket_file) \<noteq> None" by code_simp
  then obtain j where j: "find_match (CHR ''('') (CHR '')'') 1 (chars_toward True \<lparr>m_lno = 1, m_cno = 1\<rparr> bracket_file) = Some j"
    by auto
  obtain vp1 s1 where m: "v_match ?vp (opened bracket_file) = Some (False, vp1, s1)" "ready s1"
    using v_match_spec [of "opened bracket_file" ?vp "CHR ''(''" "CHR '')''" True] v p j by auto
  show ?thesis using match_returns [OF _ _ v(2) _ m] v(1) p(1) m(1) by auto
qed

end
