(* ===== verification/ViOps.thy ===== *)
theory ViOps
  imports Put Undo Match
begin

section \<open>Delete, yank, put and x (vi/v_delete.c, v_yank.c, v_put.c, v_xchar.c)\<close>

text \<open>
  The commands that work on the range a motion has set, or on characters next to the cursor. They cut the range
  into a buffer, delete it, and see to it that the final cursor exists.

  The lemmas say what text is left, what the default buffer holds, that the final cursor lies in the
  text, and that a delete followed by a put restores the line.
\<close>

subsection \<open>Operations\<close>

text \<open>The length of the line the final cursor is to be on, and the cursor put on its last character at most.\<close>

definition clip_final :: "bytes \<Rightarrow> vicmd \<Rightarrow> vicmd" where
  "clip_final p vp =
     (if vm_lmode vp then vp
      else vp\<lparr>vm_rcm := VM_RCM_SET,
              m_final := if length p \<le> m_cno (m_final vp) then (m_final vp)\<lparr>m_cno := length p - 1\<rparr> else m_final vp\<rparr>)"

definition delete_final :: "vicmd \<Rightarrow> ed \<Rightarrow> (bool \<times> vicmd \<times> ed) option" where
  "delete_final vp s2 =
     do {
       (there, s3) \<leftarrow> db_exist (m_lno (m_final vp) + 1) s2;
       (e, nlines, s4) \<leftarrow> (if there then Some (False, 0, s3) else db_last s3);
       if e then Some (True, vp, s4)
       else if \<not> there \<and> nlines = 0 then Some (False, vp\<lparr>m_final := \<lparr>m_lno = 1, m_cno = 0\<rparr>\<rparr>, s4)
       else do {
         (e, p, s5) \<leftarrow> db_get (m_lno (m_final vp)) False s4;
         (e, vp1, p, s6) \<leftarrow>
           (if e then do { (e, p, s6) \<leftarrow> db_get nlines False s5;
                           Some (e, vp\<lparr>m_final := (m_final vp)\<lparr>m_lno := nlines\<rparr>\<rparr>, p, s6) }
            else Some (False, vp, p, s5));
         if e then Some (True, vp, s6)
         else
           let vp2 = clip_final p vp1
           in Some (False, if vm_ldouble vp then vp2\<lparr>vm_rcm := VM_RCM_SETFNB\<rparr> else vp2, s6)
       }
     }"

definition v_delete :: "nat \<Rightarrow> vicmd \<Rightarrow> ed \<Rightarrow> (bool \<times> vicmd \<times> ed) option" where
  "v_delete upper vp s =
     do {
       (e, s1) \<leftarrow> cut upper (vp_bufp vp) (m_start vp) (m_stop vp)
         \<lparr>cut_linemode = vm_lmode vp, cut_numopt = \<not> vm_cutreq vp, cut_numreq = vm_cutreq vp\<rparr> s;
       if e then Some (True, vp, s1) else do {
       (e, s2) \<leftarrow> del (m_start vp) (m_stop vp) (vm_lmode vp) s1;
       if e then Some (True, vp, s2) else do {
       delete_final vp s2
     }}}"

definition rpt_yanked :: "nat \<Rightarrow> ed \<Rightarrow> ed" where
  "rpt_yanked n = upd_cur (\<lambda>c. c\<lparr>sp_yanked := sp_yanked c + n\<rparr>)"

definition v_yank :: "nat \<Rightarrow> vicmd \<Rightarrow> ed \<Rightarrow> (bool \<times> vicmd \<times> ed) option" where
  "v_yank upper vp s =
     do {
       (e, s1) \<leftarrow> cut upper (vp_bufp vp) (m_start vp) (m_stop vp)
         \<lparr>cut_linemode = vm_lmode vp, cut_numopt = False, cut_numreq = False\<rparr> s;
       if e then Some (True, vp, s1) else do {
       (e, p, s2) \<leftarrow> db_get (m_lno (m_final vp)) False (rpt_yanked (m_lno (m_stop vp) + 1 - m_lno (m_start vp)) s1);
       if e then Some (True, vp, s2) else Some (False, clip_final p vp, s2)
     }}"

text \<open>
  \<^verbatim>\<open>inc_buf\<close>: a repeated put takes the next numbered buffer; \<open>sdot\<close> is the buffer of the saved dot
  command.
\<close>

definition inc_buf :: "vicmd \<Rightarrow> char \<Rightarrow> vicmd \<times> char" where
  "inc_buf vp sdot =
     (if vp_buffer vp \<in> set ''12345678''
      then let v = char_of (of_char (vp_buffer vp) + 1 :: nat) in (vp\<lparr>vp_buffer := v\<rparr>, v)
      else (vp, sdot))"

text \<open>\<^verbatim>\<open>put\<close> takes the count as an \<^verbatim>\<open>int\<close>, with which its loops count down to 0: how often they run.\<close>

definition int_count :: "nat \<Rightarrow> nat" where
  "int_count n = (let i = n mod 2 ^ 32 in if i < 2 ^ 31 then i else 0)"

lemma int_count_id [simp]: "n < 2 ^ 31 \<Longrightarrow> int_count n = n"
  by (simp add: int_count_def)

definition put_cmd :: "bool \<Rightarrow> vicmd \<Rightarrow> char \<Rightarrow> ed \<Rightarrow> (bool \<times> vicmd \<times> char \<times> ed) option" where
  "put_cmd app vp0 sdot0 s =
     (let (vp, sdot) = (if vc_isdot vp0 then inc_buf vp0 sdot0 else (vp0, sdot0)) in
      do {
        (e, rp, s1) \<leftarrow> put None (vp_bufp vp) (m_start vp) app (int_count (vp_cnt vp)) s;
        Some (e, case rp of None \<Rightarrow> vp | Some m \<Rightarrow> vp\<lparr>m_final := m\<rparr>, sdot, s1)
      })"

definition v_Put :: "vicmd \<Rightarrow> char \<Rightarrow> ed \<Rightarrow> (bool \<times> vicmd \<times> char \<times> ed) option" where "v_Put = put_cmd False"

definition v_put :: "vicmd \<Rightarrow> char \<Rightarrow> ed \<Rightarrow> (bool \<times> vicmd \<times> char \<times> ed) option" where "v_put = put_cmd True"

definition cut_none :: cut_flags where
  "cut_none = \<lparr>cut_linemode = False, cut_numopt = False, cut_numreq = False\<rparr>"

text \<open>\<^verbatim>\<open>v_xchar\<close> and \<^verbatim>\<open>v_Xchar\<close>. The column of the end of the range is added to in \<^verbatim>\<open>size_t\<close>.\<close>

definition cno_add :: "nat \<Rightarrow> nat \<Rightarrow> nat" where
  "cno_add c n = (if c + n \<le> SIZE_MAX then c + n else c + n - (SIZE_MAX + 1))"

definition cut_del :: "nat \<Rightarrow> vicmd \<Rightarrow> ed \<Rightarrow> (bool \<times> vicmd \<times> ed) option" where
  "cut_del upper vp s =
     do {
       (e, s1) \<leftarrow> cut upper (vp_bufp vp) (m_start vp) (m_stop vp) cut_none s;
       if e then Some (True, vp, s1) else do {
       (e, s2) \<leftarrow> del (m_start vp) (m_stop vp) False s1;
       Some (e, vp, s2)
     }}"

definition v_xchar :: "nat \<Rightarrow> vicmd \<Rightarrow> ed \<Rightarrow> (bool \<times> vicmd \<times> ed) option" where
  "v_xchar upper vp s =
     do {
       (e, p, _, s1) \<leftarrow> db_eget (m_lno (m_start vp)) s;
       if e then Some (True, vp, s1)
       else if p = [] then Some (True, vp, s1)
       else
         let c = m_cno (m_stop vp);
             stop = (if vc_c1set vp then cno_add c (ulong_dec (vp_count vp)) else c);
             start = m_cno (m_start vp);
             vp1 = (if length p - 1 \<le> stop
                    then vp\<lparr>m_stop := (m_stop vp)\<lparr>m_cno := length p - 1\<rparr>, m_final := (m_final vp)\<lparr>m_cno := start - 1\<rparr>\<rparr>
                    else vp\<lparr>m_stop := (m_stop vp)\<lparr>m_cno := stop\<rparr>, m_final := (m_final vp)\<lparr>m_cno := start\<rparr>\<rparr>)
         in cut_del upper vp1 s1
     }"

definition v_Xchar :: "nat \<Rightarrow> vicmd \<Rightarrow> ed \<Rightarrow> (bool \<times> vicmd \<times> ed) option" where
  "v_Xchar upper vp s =
     (if m_cno (m_start vp) = 0 then Some (True, vp, s)
      else
        let start = (m_start vp)\<lparr>m_cno := m_cno (m_start vp) - vp_cnt vp\<rparr>
        in cut_del upper (vp\<lparr>m_start := start, m_stop := (m_stop vp)\<lparr>m_cno := cno_prev (m_cno (m_stop vp))\<rparr>,
             m_final := (m_final vp)\<lparr>m_cno := m_cno start\<rparr>\<rparr>) s)"

subsection \<open>Cutting and deleting a range\<close>

text \<open>
  The ranges of characters a motion may set: from a position in the text, or at the end of a line, to a character, the end of
  the file, or the column below 0 of a line. \<open>cuts s ls txt b s'\<close>: by recorded edits the lines have become \<open>ls\<close>, and the
  default buffer holds \<open>txt\<close>.
\<close>

definition deletable :: "mark \<Rightarrow> mark \<Rightarrow> bytes list \<Rightarrow> bool" where
  "deletable fm tm ls \<longleftrightarrow> range_ok False fm tm ls \<and> marks_ok fm tm ls \<and>
     (m_lno fm = m_lno tm \<longrightarrow> ls ! (m_lno fm - 1) \<noteq> []) \<and> (to_eof tm ls \<longrightarrow> 0 < m_cno fm)"

definition cuts :: "ed \<Rightarrow> bytes list \<Rightarrow> bytes list \<Rightarrow> bool \<Rightarrow> ed \<Rightarrow> bool" where
  "cuts s ls txt lm s' \<longleftrightarrow> editing s' \<and> text_ok s' \<and> lines s' = ls \<and> evolves s s' \<and>
     (\<exists>cb. cb_at (dcbp s') s' = Some cb \<and> cb_textq cb = txt \<and> cb_lmode cb = lm)"

definition name_ok :: "nat \<Rightarrow> vicmd \<Rightarrow> bool" where
  "name_ok upper vp \<longleftrightarrow> (vc_buffer vp \<longrightarrow> is_upper (vp_buffer vp) \<longrightarrow> upper = 1)"

lemma cb_at_same: "cutq s' = cutq s \<Longrightarrow> dcb_store s' = dcb_store s \<Longrightarrow> cb_at p s' = cb_at p s"
  by (simp add: cb_at_def split: cbptr.splits)

lemma cuts_becomes:
  assumes "cuts s ls txt lm s1" "becomes s1 ls' s2"
  shows "cuts s ls' txt lm s2"
proof -
  have b: "editing s2" "text_ok s2" "lines s2 = ls'" "cb_at (dcbp s2) s2 = cb_at (dcbp s1) s1" "evolves s1 s2"
    using assms cb_at_same [of s2 s1] by (simp_all add: cuts_def becomes_def)
  have "evolves s s2" using evolves_trans [OF _ b(5)] assms(1) by (simp add: cuts_def)
  then show ?thesis using assms(1) b by (simp add: cuts_def)
qed

lemma cut_cuts:
  assumes "editing s" "text_ok s" "range_ok (cut_linemode flags) fm tm (lines s)" "name_ok upper vp"
  obtains s1 where "cut upper (vp_bufp vp) fm tm flags s = Some (False, s1)"
    "cuts s (lines s) (range_text (cut_linemode flags) fm tm (lines s)) (cut_linemode flags) s1"
proof -
  have "\<exists>s1 cb. cut upper (vp_bufp vp) fm tm flags s = Some (False, s1) \<and> rebuffers s s1 \<and>
      cb_at (dcbp s1) s1 = Some cb \<and> cb_textq cb = range_text (cut_linemode flags) fm tm (lines s) \<and> cb_lmode cb = cut_linemode flags"
    by (rule cut_default_lines [OF assms(1-3)]) (use assms(4) in \<open>auto simp: vp_bufp_def name_ok_def split: if_splits\<close>)
  then obtain s1 cb where s1: "cut upper (vp_bufp vp) fm tm flags s = Some (False, s1)"
    "rebuffers s s1" "cb_at (dcbp s1) s1 = Some cb" "cb_textq cb = range_text (cut_linemode flags) fm tm (lines s)"
    "cb_lmode cb = cut_linemode flags" by (elim exE conjE) (rule that)
  have r: "editing s1" "text_ok s1" "lines s1 = lines s" "evolves s s1" using s1(2) assms(2) by (simp_all add: rebuffers_def)
  have "\<exists>cb. cb_at (dcbp s1) s1 = Some cb \<and> cb_textq cb = range_text (cut_linemode flags) fm tm (lines s) \<and> cb_lmode cb = cut_linemode flags"
    using s1(3-5) by (intro exI conjI)
  then have "cuts s (lines s) (range_text (cut_linemode flags) fm tm (lines s)) (cut_linemode flags) s1"
    unfolding cuts_def using r by blast
  then show ?thesis by (rule that [OF s1(1)])
qed

lemma cuts_del:
  assumes c: "cuts s (lines s) txt lm s1" and d: "deletable fm tm (lines s)"
  obtains s2 where "del fm tm False s1 = Some (False, s2)" "cuts s (without fm tm (lines s)) txt lm s2"
proof -
  have e: "editing s1" "text_ok s1" "lines s1 = lines s" using c by (simp_all add: cuts_def)
  have m: "marks_ok fm tm (lines s1)" using d e(3) by (simp add: deletable_def)
  have 1: "m_lno fm = m_lno tm \<Longrightarrow> m_cno fm \<le> cno_next (m_cno tm) \<and> lines s1 ! (m_lno tm - 1) \<noteq> []"
    using d e(3) by (auto simp: deletable_def range_ok_def)
  have 2: "if to_eof tm (lines s1) then 0 < m_cno fm
      else cno_next (m_cno tm) \<le> length (lines s1 ! (m_lno tm - 1)) \<or> lines s1 ! (m_lno tm - 1) = []"
    using d e(3) by (auto simp: deletable_def range_ok_def split: if_splits)
  obtain s2 where s2: "del fm tm False s1 = Some (False, s2)" "becomes s1 (without fm tm (lines s1)) s2"
    using del_chars_spec [OF e(1,2) m 1 2] by blast
  show ?thesis by (rule that [OF s2(1)]) (use cuts_becomes [OF c s2(2)] e(3) in simp)
qed

lemma becomes_cuts:
  assumes "becomes s ls s1" "cuts s1 ls' txt lm s2"
  shows "cuts s ls' txt lm s2"
proof -
  have "evolves s s1" using assms(1) by (simp add: becomes_def)
  then have "evolves s s2" using evolves_trans [of s s1 s2] assms(2) by (simp add: cuts_def)
  then show ?thesis using assms(2) by (simp add: cuts_def)
qed

lemma keeps_cuts: "cuts s ls txt lm s1 \<Longrightarrow> keeps s1 s2 \<Longrightarrow> cuts s ls txt lm s2"
proof -
  assume c: "cuts s ls txt lm s1" and k: "keeps s1 s2"
  have "editing s1" "lines s1 = ls" using c by (simp_all add: cuts_def)
  then have "becomes s1 ls s2" using keeps_becomes [OF k] by simp
  then show ?thesis by (rule cuts_becomes [OF c])
qed

lemma cuts_get:
  assumes c: "cuts s ls txt lm s1" and n: "0 < n" "n \<le> length ls"
  obtains s2 where "db_get n False s1 = Some (False, ls ! (n - 1), s2)" "cuts s ls txt lm s2"
proof -
  have e: "editing s1" "text_ok s1" "lines s1 = ls" using c by (simp_all add: cuts_def)
  obtain s2 where s2: "db_get n False s1 = Some (False, lines s1 ! (n - 1), s2)" "becomes s1 (lines s1) s2"
    using db_get_becomes [OF e(1), of n False] n e(2,3) by auto
  show ?thesis by (rule that [of s2]) (use s2(1) cuts_becomes [OF c s2(2)] e(3) in simp_all)
qed

text \<open>\<^verbatim>\<open>v_delete\<close> after the text is gone: the final cursor.\<close>

definition clipped :: "mark \<Rightarrow> bytes list \<Rightarrow> mark" where
  "clipped m ls = m\<lparr>m_cno := min (m_cno m) (length (ls ! (m_lno m - 1)) - 1)\<rparr>"

lemma clip_final_chars: "\<not> vm_lmode vp \<Longrightarrow> p = ls ! (m_lno (m_final vp) - 1) \<Longrightarrow> m_final (clip_final p vp) = clipped (m_final vp) ls"
  by (cases "m_final vp") (auto simp: clip_final_def clipped_def min_def)

lemma clip_final_sel:
  "vp_kp (clip_final p vp) = vp_kp vp" "vm_rcm (clip_final p vp) = (if vm_lmode vp then vm_rcm vp else VM_RCM_SET)"
  by (simp_all add: clip_final_def)

lemma v_delete_chars:
  assumes e: "editing s" "text_ok s" and lm: "\<not> vm_lmode vp" and d: "deletable (m_start vp) (m_stop vp) (lines s)"
    and f: "0 < m_lno (m_final vp)" "m_lno (m_final vp) \<le> m_lno (m_start vp)" and u: "name_ok upper vp"
    and ls: "ls = without (m_start vp) (m_stop vp) (lines s)"
  shows "\<exists>vp' s'. v_delete upper vp s = Some (False, vp', s') \<and>
    cuts s ls (range_text False (m_start vp) (m_stop vp) (lines s)) False s' \<and> m_final vp' = clipped (m_final vp) ls \<and>
    vm_rcm vp' = (if vm_ldouble vp then VM_RCM_SETFNB else VM_RCM_SET) \<and> vp_kp vp' = vp_kp vp"
proof -
  let ?fm = "m_start vp" and ?tm = "m_stop vp"
  let ?fl = "\<lparr>cut_linemode = vm_lmode vp, cut_numopt = \<not> vm_cutreq vp, cut_numreq = vm_cutreq vp\<rparr>"
  have r: "range_ok (cut_linemode ?fl) ?fm ?tm (lines s)" using d lm by (simp add: deletable_def)
  obtain s1 where s1: "cut upper (vp_bufp vp) ?fm ?tm ?fl s = Some (False, s1)"
      "cuts s (lines s) (range_text False ?fm ?tm (lines s)) False s1"
    by (rule cut_cuts [OF e r u]) (use lm in simp)
  obtain s2 where s2: "del ?fm ?tm False s1 = Some (False, s2)" "cuts s ls (range_text False ?fm ?tm (lines s)) False s2"
    using cuts_del [OF s1(2) d] ls by blast
  have "m_lno ?fm \<le> length ls" using d ls by (auto simp: deletable_def marks_ok_def without_def)
  then have n: "m_lno (m_final vp) \<le> length ls" using f(2) by simp
  have b2: "base s2" "\<not> sp_tinput (cur s2)" "lines s2 = ls" using s2(2) editingD(1,4) by (auto simp: cuts_def)
  obtain s3 where s3: "db_exist (m_lno (m_final vp) + 1) s2 = Some (m_lno (m_final vp) + 1 \<le> length ls, s3)" "keeps s2 s3"
    using db_exist_base [OF b2(1), of "m_lno (m_final vp) + 1"] b2 by auto
  have c3: "cuts s ls (range_text False ?fm ?tm (lines s)) False s3" by (rule keeps_cuts [OF s2(2) s3(2)])
  have b3: "base s3" "\<not> sp_tinput (cur s3)" "lines s3 = ls" using c3 editingD(1,4) by (auto simp: cuts_def)
  obtain nl s4 where s4: "(if m_lno (m_final vp) + 1 \<le> length ls then Some (False, 0, s3) else db_last s3) = Some (False, nl, s4)"
      "keeps s3 s4" "\<not> m_lno (m_final vp) + 1 \<le> length ls \<longrightarrow> nl = length ls"
    using db_last_base [OF b3(1,2)] b3(3) keeps_refl [OF b3(1)] by (cases "m_lno (m_final vp) + 1 \<le> length ls") auto
  have c4: "cuts s ls (range_text False ?fm ?tm (lines s)) False s4" by (rule keeps_cuts [OF c3 s4(2)])
  obtain s5 where s5: "db_get (m_lno (m_final vp)) False s4 = Some (False, ls ! (m_lno (m_final vp) - 1), s5)"
      "cuts s ls (range_text False ?fm ?tm (lines s)) False s5"
    by (rule cuts_get [OF c4 f(1) n])
  have nz: "\<not> (\<not> m_lno (m_final vp) + 1 \<le> length ls \<and> nl = 0)" using s4(3) f(1) n by auto
  let ?v = "clip_final (ls ! (m_lno (m_final vp) - 1)) vp"
  let ?r = "if vm_ldouble vp then ?v\<lparr>vm_rcm := VM_RCM_SETFNB\<rparr> else ?v"
  have "delete_final vp s2 = Some (False, ?r, s5)"
  proof (cases "m_lno (m_final vp) + 1 \<le> length ls")
    case True
    then show ?thesis using s3(1) s4(1) s5(1) unfolding delete_final_def Let_def by simp
  next
    case False
    then show ?thesis using s3(1) s4(1) s5(1) nz unfolding delete_final_def Let_def by simp
  qed
  then have "v_delete upper vp s = Some (False, ?r, s5)"
    using s1(1) s2(1) lm unfolding v_delete_def by simp
  then show ?thesis using s5(2) clip_final_chars [OF lm refl] clip_final_sel [of "ls ! (m_lno (m_final vp) - 1)" vp] lm
    by (cases "vm_ldouble vp") simp_all
qed

lemma v_delete_lines:
  assumes e: "editing s" "text_ok s" and lm: "vm_lmode vp" and r: "range_ok True (m_start vp) (m_stop vp) (lines s)"
    and f: "0 < m_lno (m_final vp)" and u: "name_ok upper vp"
    and ls: "ls = take (m_lno (m_start vp) - 1) (lines s) @ drop (m_lno (m_stop vp)) (lines s)"
  shows "\<exists>vp' s'. v_delete upper vp s = Some (False, vp', s') \<and>
    cuts s ls (range_text True (m_start vp) (m_stop vp) (lines s)) True s' \<and>
    m_final vp' = (if ls = [] then \<lparr>m_lno = 1, m_cno = 0\<rparr> else (m_final vp)\<lparr>m_lno := min (m_lno (m_final vp)) (length ls)\<rparr>) \<and>
    vm_rcm vp' = (if ls \<noteq> [] \<and> vm_ldouble vp then VM_RCM_SETFNB else vm_rcm vp) \<and> vp_kp vp' = vp_kp vp"
proof -
  let ?fm = "m_start vp" and ?tm = "m_stop vp"
  let ?txt = "range_text True ?fm ?tm (lines s)"
  let ?fl = "\<lparr>cut_linemode = vm_lmode vp, cut_numopt = \<not> vm_cutreq vp, cut_numreq = vm_cutreq vp\<rparr>"
  have r': "range_ok (cut_linemode ?fl) ?fm ?tm (lines s)" using r lm by simp
  obtain s1 where s1: "cut upper (vp_bufp vp) ?fm ?tm ?fl s = Some (False, s1)" "cuts s (lines s) ?txt True s1"
    by (rule cut_cuts [OF e r' u]) (use lm in simp)
  have e1: "editing s1" "lines s1 = lines s" using s1(2) by (simp_all add: cuts_def)
  obtain s2 where s2: "del ?fm ?tm True s1 = Some (False, s2)" "becomes s1 ls s2"
    using del_lines_mode [OF e1(1), of ?fm ?tm] r e1(2) ls by (auto simp: range_ok_def)
  have c2: "cuts s ls ?txt True s2" by (rule cuts_becomes [OF s1(2) s2(2)])
  have b2: "base s2" "\<not> sp_tinput (cur s2)" "lines s2 = ls" using c2 editingD(1,4) by (auto simp: cuts_def)
  let ?n = "m_lno (m_final vp)"
  obtain s3 where s3: "db_exist (?n + 1) s2 = Some (?n + 1 \<le> length ls, s3)" "keeps s2 s3"
    using db_exist_base [OF b2(1), of "?n + 1"] b2 by auto
  have c3: "cuts s ls ?txt True s3" by (rule keeps_cuts [OF c2 s3(2)])
  have b3: "base s3" "\<not> sp_tinput (cur s3)" "lines s3 = ls" using c3 editingD(1,4) by (auto simp: cuts_def)
  have v: "v_delete upper vp s = delete_final vp s2" using s1(1) s2(1) lm unfolding v_delete_def by simp
  have clip: "m_final (clip_final p w) = m_final w" "vm_rcm (clip_final p w) = vm_rcm w" "vp_kp (clip_final p w) = vp_kp w" if "vm_lmode w" for p w
    using that by (simp_all add: clip_final_def)
  show ?thesis
  proof (cases "?n + 1 \<le> length ls")
    case True
    then have n: "?n \<le> length ls" "ls \<noteq> []" by auto
    obtain s5 where s5: "db_get ?n False s3 = Some (False, ls ! (?n - 1), s5)" "cuts s ls ?txt True s5"
      by (rule cuts_get [OF c3 f n(1)])
    let ?v = "clip_final (ls ! (?n - 1)) vp"
    have "delete_final vp s2 = Some (False, if vm_ldouble vp then ?v\<lparr>vm_rcm := VM_RCM_SETFNB\<rparr> else ?v, s5)"
      using s3(1) s5(1) True unfolding delete_final_def Let_def by simp
    then show ?thesis using v s5(2) clip [OF lm] n by (cases "vm_ldouble vp") simp_all
  next
    case False
    obtain s4 where s4: "db_last s3 = Some (False, length ls, s4)" "keeps s3 s4"
      using db_last_base [OF b3(1,2)] b3(3) by auto
    have c4: "cuts s ls ?txt True s4" by (rule keeps_cuts [OF c3 s4(2)])
    show ?thesis
    proof (cases "ls = []")
      case True
      then show ?thesis using v s3(1) s4(1) c4 unfolding delete_final_def Let_def by simp
    next
      case ne: False
      show ?thesis
      proof (cases "?n = length ls")
        case True
        obtain s5 where s5: "db_get ?n False s4 = Some (False, ls ! (?n - 1), s5)" "cuts s ls ?txt True s5"
          by (rule cuts_get [OF c4 f]) (use True in simp_all)
        let ?v = "clip_final (ls ! (?n - 1)) vp"
        have "delete_final vp s2 = Some (False, if vm_ldouble vp then ?v\<lparr>vm_rcm := VM_RCM_SETFNB\<rparr> else ?v, s5)"
          using s3(1) s4(1) s5(1) False ne unfolding delete_final_def Let_def by simp
        then show ?thesis using v s5(2) clip [OF lm] True ne by (cases "vm_ldouble vp") simp_all
      next
        case gt: False
        then have n: "length ls < ?n" using False by simp
        have b4: "base s4" "\<not> sp_tinput (cur s4)" "lines s4 = ls" using c4 editingD(1,4) by (auto simp: cuts_def)
        obtain s5 where s5: "db_get ?n False s4 = Some (True, [], s5)" "keeps s4 s5"
          using db_get_beyond [OF b4(1), of ?n False] b4(2,3) n by auto
        have c5: "cuts s ls ?txt True s5" by (rule keeps_cuts [OF c4 s5(2)])
        obtain s6 where s6: "db_get (length ls) False s5 = Some (False, ls ! (length ls - 1), s6)" "cuts s ls ?txt True s6"
          by (rule cuts_get [OF c5, of "length ls"]) (use ne in simp_all)
        let ?w = "vp\<lparr>m_final := (m_final vp)\<lparr>m_lno := length ls\<rparr>\<rparr>"
        let ?v = "clip_final (ls ! (length ls - 1)) ?w"
        have "delete_final vp s2 = Some (False, if vm_ldouble vp then ?v\<lparr>vm_rcm := VM_RCM_SETFNB\<rparr> else ?v, s6)"
          using s3(1) s4(1) s5(1) s6(1) False ne unfolding delete_final_def Let_def by simp
        then show ?thesis using v s6(2) clip [of ?w] lm n ne by (cases "vm_ldouble vp") simp_all
      qed
    qed
  qed
qed

subsection \<open>Within a line\<close>

lemma without_line:
  assumes "0 < k" "k \<le> length ls"
  shows "without \<lparr>m_lno = k, m_cno = c\<rparr> \<lparr>m_lno = k, m_cno = d\<rparr> ls =
    ls[k - 1 := take c (ls ! (k - 1)) @ drop (cno_next d) (ls ! (k - 1))]"
  using assms by (simp add: without_def upd_conv_take_nth_drop)

lemma deletable_line:
  assumes "0 < k" "k \<le> length ls" "c \<le> d + 1" "d < length (ls ! (k - 1))" "length (ls ! (k - 1)) \<le> SIZE_MAX"
  shows "deletable \<lparr>m_lno = k, m_cno = c\<rparr> \<lparr>m_lno = k, m_cno = d\<rparr> ls"
proof -
  have "d < SIZE_MAX" using assms(4,5) by simp
  moreover have "ls ! (k - 1) \<noteq> []" using assms(4) by auto
  ultimately show ?thesis using assms by (simp add: deletable_def range_ok_def marks_ok_def to_eof_def)
qed

lemma cut_del_line:
  assumes e: "editing s" "text_ok s" and u: "name_ok upper vp"
    and m: "m_start vp = \<lparr>m_lno = k, m_cno = c\<rparr>" "m_stop vp = \<lparr>m_lno = k, m_cno = d\<rparr>"
    and l: "l = lines s ! (k - 1)" "0 < k" "k \<le> length (lines s)" "c \<le> d + 1" "d < length l" "length l \<le> SIZE_MAX"
  shows "\<exists>s'. cut_del upper vp s = Some (False, vp, s') \<and>
    cuts s ((lines s)[k - 1 := take c l @ drop (d + 1) l]) [take (d + 1 - c) (drop c l)] False s'"
proof -
  have d: "deletable (m_start vp) (m_stop vp) (lines s)" using deletable_line [of k "lines s" c d] m l by simp
  have cn: "cno_next d = d + 1" using l(5,6) by simp
  have r: "range_ok (cut_linemode cut_none) (m_start vp) (m_stop vp) (lines s)"
    using d by (simp add: deletable_def cut_none_def)
  have t: "range_text False (m_start vp) (m_stop vp) (lines s) = [take (d + 1 - c) (drop c l)]"
    using m l(1) cn by (simp add: range_text_def)
  obtain s1 where s1: "cut upper (vp_bufp vp) (m_start vp) (m_stop vp) cut_none s = Some (False, s1)"
      "cuts s (lines s) [take (d + 1 - c) (drop c l)] False s1"
    by (rule cut_cuts [OF e r u]) (use t in \<open>simp add: cut_none_def\<close>)
  obtain s2 where "del (m_start vp) (m_stop vp) False s1 = Some (False, s2)"
      "cuts s (without (m_start vp) (m_stop vp) (lines s)) [take (d + 1 - c) (drop c l)] False s2"
    by (rule cuts_del [OF s1(2) d])
  then show ?thesis using s1(1) m l(1) without_line [OF l(2,3), of c d] cn by (simp add: cut_del_def)
qed

lemma cut_del_cong:
  assumes "m_start vp = m_start vp'" "m_stop vp = m_stop vp'" "vp_bufp vp = vp_bufp vp'"
  shows "map_option (\<lambda>(e, vp, s). (e, lines s)) (cut_del upper vp s) =
    map_option (\<lambda>(e, vp, s). (e, lines s)) (cut_del upper vp' s)"
proof -
  have 1: "map_option (\<lambda>(e, vp, s). (e, lines s))
      (do { (e, s1) \<leftarrow> cut upper b fm tm cut_none s;
            if e then Some (True, w, s1) else do { (e, s2) \<leftarrow> del fm tm False s1; Some (e, w, s2) }}) =
    do { (e, s1) \<leftarrow> cut upper b fm tm cut_none s;
            if e then Some (True, lines s1) else map_option (\<lambda>(e, s). (e, lines s)) (del fm tm False s1) }" for b fm tm w
    by (simp add: map_option_bind comp_def map_option_case split: prod.splits Option.bind_splits)
       (auto split: Option.bind_splits)?
  show ?thesis unfolding cut_del_def 1 assms ..
qed

lemma v_xchar_spec:
  assumes e: "editing s" "text_ok s" and u: "name_ok upper vp"
    and m: "m_start vp = \<lparr>m_lno = k, m_cno = c\<rparr>" "m_stop vp = m_start vp" "m_final vp = m_start vp"
    and l: "l = lines s ! (k - 1)" "0 < k" "k \<le> length (lines s)" "c < length l" "length l \<le> SIZE_MAX"
    and n: "0 < vp_cnt vp" "c + vp_cnt vp \<le> SIZE_MAX"
  shows "\<exists>vp' s'. v_xchar upper vp s = Some (False, vp', s') \<and>
    cuts s ((lines s)[k - 1 := take c l @ drop (c + vp_cnt vp) l]) [take (vp_cnt vp) (drop c l)] False s' \<and>
    m_final vp' = \<lparr>m_lno = k, m_cno = if length l \<le> c + vp_cnt vp then c - 1 else c\<rparr> \<and>
    (\<exists>x y. vp' = vp\<lparr>m_stop := x, m_final := y\<rparr>)"
proof -
  let ?n = "vp_cnt vp"
  obtain s1 where s1: "db_eget k s = Some (False, l, False, s1)" "becomes s (lines s) s1"
    using db_eget_becomes [OF e l(2,3)] unfolding l(1) by blast
  have t1: "text_ok s1" by (rule becomesD(3) [OF s1(2) e(2)])
  have e1: "editing s1" "lines s1 = lines s" using becomesD(1,2) [OF s1(2)] by simp_all
  have stop: "(if vc_c1set vp then cno_add c (ulong_dec (vp_count vp)) else c) = c + ?n - 1"
    using n by (auto simp: vp_cnt_def cno_add_def ulong_dec_def)
  let ?d = "min (length l - 1) (c + ?n - 1)"
  let ?vp = "vp\<lparr>m_stop := \<lparr>m_lno = k, m_cno = ?d\<rparr>,
    m_final := \<lparr>m_lno = k, m_cno = if length l - 1 \<le> c + ?n - 1 then c - 1 else c\<rparr>\<rparr>"
  have "l \<noteq> []" using l(4) by auto
  then have v: "v_xchar upper vp s = cut_del upper ?vp s1"
    using s1(1) m stop unfolding v_xchar_def Let_def by (auto simp: min_def)
  have u1: "name_ok upper ?vp" using u by (simp add: name_ok_def)
  have d: "c \<le> ?d + 1" "?d < length l" using l(4) n(1) by auto
  have mm: "m_start ?vp = \<lparr>m_lno = k, m_cno = c\<rparr>" "m_stop ?vp = \<lparr>m_lno = k, m_cno = ?d\<rparr>"
    using m(1) by simp_all
  have ll: "l = lines s1 ! (k - 1)" "k \<le> length (lines s1)" using l(1,3) e1(2) by simp_all
  obtain s' where s': "cut_del upper ?vp s1 = Some (False, ?vp, s')"
      "cuts s1 ((lines s1)[k - 1 := take c l @ drop (?d + 1) l]) [take (?d + 1 - c) (drop c l)] False s'"
    using cut_del_line [OF e1(1) t1 u1 mm ll(1) l(2) ll(2) d l(5)] by blast
  have "drop (?d + 1) l = drop (c + ?n) l" "take (?d + 1 - c) (drop c l) = take ?n (drop c l)"
    using l(4) n(1) by (auto simp: min_def)
  moreover have "length l - 1 \<le> c + ?n - 1 \<longleftrightarrow> length l \<le> c + ?n" using l(4) n(1) by auto
  ultimately show ?thesis using v s'(1) becomes_cuts [OF s1(2) s'(2)] e1(2) by (intro exI conjI) (simp_all | rule refl)+
qed

lemma cuts_yanked: "cuts s ls txt lm s1 \<Longrightarrow> cuts s ls txt lm (rpt_yanked n s1)"
proof -
  assume c: "cuts s ls txt lm s1"
  have e: "editing s1" using c by (simp add: cuts_def)
  let ?s = "rpt_yanked n s1"
  have ok: "screens_ok ?s" using editingD(2) [OF e] by (auto simp: screens_ok_def rpt_yanked_def screen_ok_def)
  have tx: "text_ok ?s = text_ok s1" by (simp add: text_ok_def rpt_yanked_def)
  have lg: "same_log s1 ?s" by (simp add: same_log_def rpt_yanked_def)
  have "f_nolog ?s = f_nolog s1" by (simp add: rpt_yanked_def)
  then have "log_ready ?s" using editingD(3) [OF e] same_log_view(5) [OF lg] by (simp add: log_ready_def)
  then have "becomes s1 (lines s1) ?s" using e ok tx same_event [of ?s s1] lg
    by (simp add: becomes_def editing_def rpt_yanked_def)
  moreover have "lines s1 = ls" using c by (simp add: cuts_def)
  ultimately show ?thesis using cuts_becomes [OF c, of ls] by simp
qed

subsection \<open>Putting it back\<close>

lemma put_back:
  assumes c: "cuts s ls [tp] False s1" and m: "0 < m_lno m" "m_lno m \<le> length ls"
    and vp: "m_start vp = m" "\<not> vc_buffer vp" "\<not> vc_isdot vp" "vp_cnt vp = 1"
    and k: "k = split_at m app (ls ! (m_lno m - 1))" "k \<le> length (ls ! (m_lno m - 1))"
  shows "\<exists>vp' s'. put_cmd app vp sdot s1 = Some (False, vp', sdot, s') \<and>
    becomes s1 (ls[m_lno m - 1 := take k (ls ! (m_lno m - 1)) @ tp @ drop k (ls ! (m_lno m - 1))]) s'"
proof -
  have e: "editing s1" "text_ok s1" "lines s1 = ls" using c by (simp_all add: cuts_def)
  obtain cb where cb: "cb_at (dcbp s1) s1 = Some cb" "cb_textq cb = [tp]" "\<not> cb_lmode cb" using c by (auto simp: cuts_def)
  have ch: "cb_at (put_choose None None s1) s1 = Some cb" using cb(1) by (simp add: put_choose_def)
  have ml: "m_lno m \<le> length (lines s1)" "ls ! (m_lno m - 1) = lines s1 ! (m_lno m - 1)" using m(2) e(3) by simp_all
  have "\<exists>rp s'. put None None m app 1 s1 = Some (False, Some rp, s') \<and>
      becomes s1 ((lines s1)[m_lno m - 1 := take k (ls ! (m_lno m - 1)) @ tp @ drop k (ls ! (m_lno m - 1))]) s'"
    by (rule put_chars_spec [OF e(1,2) ch cb(3,2) m(1) ml k])
  then show ?thesis using vp e(3) by (auto simp: put_cmd_def vp_bufp_def)
qed

lemma take_drop_back: "c \<le> d \<Longrightarrow> d < length l \<Longrightarrow> take c l @ take (d + 1 - c) (drop c l) @ drop (d + 1) l = l"
proof -
  assume a: "c \<le> d" "d < length l"
  have "take (d + 1 - c) (drop c l) @ drop (d + 1) l = drop c l"
    using a append_take_drop_id [of "d + 1 - c" "drop c l"] by simp
  then show ?thesis by simp
qed

text \<open>A count of which the \<^verbatim>\<open>int\<close> keeps nothing puts nothing, and says nothing.\<close>

lemma int_count_lost: "int_count (2 ^ 32) = 0" "int_count (2 ^ 31) = 0"
  by (simp_all add: int_count_def)

subsection \<open>Properties\<close>

text \<open>
  C26: \<^verbatim>\<open>d\<close> over characters removes exactly the text of the motion's range, by recorded edits, leaves it in the
  default buffer, whichever buffer was named, and puts the final cursor on a character that exists, in the line it was
  to be on.
\<close>

theorem delete_range:
  assumes "editing s" "text_ok s" "\<not> vm_lmode vp" "deletable (m_start vp) (m_stop vp) (lines s)"
    and "0 < m_lno (m_final vp)" "m_lno (m_final vp) \<le> m_lno (m_start vp)" "name_ok upper vp"
  shows "\<exists>vp' s'. v_delete upper vp s = Some (False, vp', s') \<and>
    cuts s (without (m_start vp) (m_stop vp) (lines s)) (range_text False (m_start vp) (m_stop vp) (lines s)) False s' \<and>
    m_final vp' = clipped (m_final vp) (without (m_start vp) (m_stop vp) (lines s))"
  using v_delete_chars [OF assms refl] by blast

lemma delete_range_start:
  "editing (opened ls)" "name_ok u (vi_start r n m)" "m_start (vi_start r n m) = m" "m_stop (vi_start r n m) = m"
  "m_final (vi_start r n m) = m" "vp_cnt (vi_start r n m) = (case n of None \<Rightarrow> 1 | Some k \<Rightarrow> k)" "\<not> vm_lmode (vi_start r n m)"
  "\<not> vc_buffer (vi_start r n m)" "\<not> vc_isdot (vi_start r n m)"
  by (simp_all add: vi_start_def name_ok_def vp_cnt_def split: option.splits)

theorem delete_range_witness:
  "\<exists>vp' s'. v_delete 1 ((vi_start None None \<lparr>m_lno = 1, m_cno = 1\<rparr>)\<lparr>m_stop := \<lparr>m_lno = 2, m_cno = 0\<rparr>\<rparr>) (opened [''abc'', ''de'']) =
     Some (False, vp', s') \<and> lines s' = [''ae'']"
proof -
  let ?vp = "(vi_start None None \<lparr>m_lno = 1, m_cno = 1\<rparr>)\<lparr>m_stop := \<lparr>m_lno = 2, m_cno = 0\<rparr>\<rparr>"
  have d: "deletable (m_start ?vp) (m_stop ?vp) [''abc'', ''de'']"
    by (simp add: vi_start_def deletable_def range_ok_def marks_ok_def to_eof_def SIZE_MAX_def)
  have w: "without (m_start ?vp) (m_stop ?vp) [''abc'', ''de''] = [''ae'']"
    by (simp add: vi_start_def without_def)
  have v: "\<not> vm_lmode ?vp" "0 < m_lno (m_final ?vp)" "m_lno (m_final ?vp) \<le> m_lno (m_start ?vp)" "name_ok 1 ?vp"
    by (simp_all add: vi_start_def name_ok_def)
  show ?thesis
    using delete_range [of "opened [''abc'', ''de'']" ?vp 1] d w v delete_range_start(1) [of "[''abc'', ''de'']"] by (auto simp: cuts_def)
qed

text \<open>
  \<^verbatim>\<open>d\<close> over lines removes them into the default buffer, and the final cursor stays in the file: on the last line
  if its line is gone, on line 1 of an empty file if nothing is left.
\<close>

theorem delete_lines:
  assumes "editing s" "text_ok s" "vm_lmode vp" "range_ok True (m_start vp) (m_stop vp) (lines s)"
    and "0 < m_lno (m_final vp)" "name_ok upper vp"
    and "ls = take (m_lno (m_start vp) - 1) (lines s) @ drop (m_lno (m_stop vp)) (lines s)"
  shows "\<exists>vp' s'. v_delete upper vp s = Some (False, vp', s') \<and>
    cuts s ls (range_text True (m_start vp) (m_stop vp) (lines s)) True s' \<and>
    m_final vp' = (if ls = [] then \<lparr>m_lno = 1, m_cno = 0\<rparr> else (m_final vp)\<lparr>m_lno := min (m_lno (m_final vp)) (length ls)\<rparr>)"
  using v_delete_lines [OF assms] by blast

theorem delete_lines_witness:
  "\<exists>vp' s'. v_delete 1 ((vi_start None None \<lparr>m_lno = 2, m_cno = 1\<rparr>)\<lparr>vm_lmode := True\<rparr>) (opened [''abc'', ''de'']) =
     Some (False, vp', s') \<and> lines s' = [''abc''] \<and> m_final vp' = \<lparr>m_lno = 1, m_cno = 1\<rparr>"
proof -
  let ?vp = "(vi_start None None \<lparr>m_lno = 2, m_cno = 1\<rparr>)\<lparr>vm_lmode := True\<rparr>"
  let ?s = "opened [''abc'', ''de'']"
  have r: "range_ok True (m_start ?vp) (m_stop ?vp) (lines ?s)" by (simp add: vi_start_def range_ok_def)
  have v: "vm_lmode ?vp" "0 < m_lno (m_final ?vp)" "name_ok 1 ?vp" "m_final ?vp = \<lparr>m_lno = 2, m_cno = 1\<rparr>"
    by (simp_all add: vi_start_def name_ok_def)
  have t: "[''abc''] = take (m_lno (m_start ?vp) - 1) (lines ?s) @ drop (m_lno (m_stop ?vp)) (lines ?s)"
    by (simp add: vi_start_def)
  obtain vp' s' where "v_delete 1 ?vp ?s = Some (False, vp', s')" "lines s' = [''abc'']"
      "m_final vp' = (m_final ?vp)\<lparr>m_lno := min (m_lno (m_final ?vp)) 1\<rparr>"
    using delete_lines [OF opened_editing opened_ready(2) v(1) r v(2,3) t] by (elim exE conjE) (simp add: cuts_def)
  then show ?thesis using v(4) by simp
qed

text \<open>
  \<^verbatim>\<open>x\<close> with a count deletes that many characters, or as many as there are, from the cursor on, keeps them
  in the default buffer, and moves the cursor only if it would be off the end of the line. (The count must not carry the column
  beyond what a \<^verbatim>\<open>size_t\<close> holds.)
\<close>

theorem x_deletes:
  assumes "editing s" "text_ok s" "name_ok upper vp"
    and "m_start vp = \<lparr>m_lno = k, m_cno = c\<rparr>" "m_stop vp = m_start vp" "m_final vp = m_start vp"
    and "l = lines s ! (k - 1)" "0 < k" "k \<le> length (lines s)" "c < length l" "length l \<le> SIZE_MAX"
    and "0 < vp_cnt vp" "c + vp_cnt vp \<le> SIZE_MAX"
  shows "\<exists>vp' s'. v_xchar upper vp s = Some (False, vp', s') \<and>
    cuts s ((lines s)[k - 1 := take c l @ drop (c + vp_cnt vp) l]) [take (vp_cnt vp) (drop c l)] False s' \<and>
    m_final vp' = \<lparr>m_lno = k, m_cno = if length l \<le> c + vp_cnt vp then c - 1 else c\<rparr>"
  using v_xchar_spec [OF assms] by blast

theorem x_deletes_witness:
  "\<exists>vp' s'. v_xchar 1 (vi_start None (Some 2) \<lparr>m_lno = 1, m_cno = 1\<rparr>) (opened [''abc'']) = Some (False, vp', s') \<and>
     lines s' = [''a''] \<and> m_final vp' = \<lparr>m_lno = 1, m_cno = 0\<rparr>"
  using x_deletes [of "opened [''abc'']" 1 "vi_start None (Some 2) \<lparr>m_lno = 1, m_cno = 1\<rparr>" 1 1 "''abc''"]
  by (auto simp: delete_range_start cuts_def SIZE_MAX_def)

text \<open>
  \<^verbatim>\<open>X\<close> with a count deletes that many characters before the cursor, or as many as there are, keeps
  them in the default buffer, and the cursor stays on its character; in the first column it fails and changes nothing.
\<close>

theorem X_deletes:
  assumes "editing s" "text_ok s" "name_ok upper vp"
    and "m_start vp = \<lparr>m_lno = k, m_cno = c\<rparr>" "m_stop vp = m_start vp" "m_final vp = m_start vp"
    and "l = lines s ! (k - 1)" "0 < k" "k \<le> length (lines s)" "c < length l" "length l \<le> SIZE_MAX"
  shows "if c = 0 then v_Xchar upper vp s = Some (True, vp, s)
    else \<exists>vp' s'. v_Xchar upper vp s = Some (False, vp', s') \<and>
      cuts s ((lines s)[k - 1 := take (c - vp_cnt vp) l @ drop c l]) [take (min c (vp_cnt vp)) (drop (c - vp_cnt vp) l)] False s' \<and>
      m_final vp' = \<lparr>m_lno = k, m_cno = c - vp_cnt vp\<rparr>"
proof (cases "c = 0")
  case True
  then show ?thesis using assms(4) by (simp add: v_Xchar_def)
next
  case False
  let ?c = "c - vp_cnt vp"
  let ?vp = "vp\<lparr>m_start := \<lparr>m_lno = k, m_cno = ?c\<rparr>, m_stop := \<lparr>m_lno = k, m_cno = c - 1\<rparr>, m_final := \<lparr>m_lno = k, m_cno = ?c\<rparr>\<rparr>"
  have v: "v_Xchar upper vp s = cut_del upper ?vp s" using False assms(4-6) by (simp add: v_Xchar_def Let_def)
  have u: "name_ok upper ?vp" using assms(3) by (simp add: name_ok_def)
  have m: "m_start ?vp = \<lparr>m_lno = k, m_cno = ?c\<rparr>" "m_stop ?vp = \<lparr>m_lno = k, m_cno = c - 1\<rparr>" by simp_all
  have d: "?c \<le> c - 1 + 1" "c - 1 < length l" "c - 1 + 1 = c" "c - ?c = min c (vp_cnt vp)" using False assms(10) by auto
  show ?thesis
    using cut_del_line [OF assms(1,2) u m assms(7-9) d(1,2) assms(11)] v False unfolding d(3,4) by auto
qed

theorem X_deletes_witness:
  "\<exists>vp' s'. v_Xchar 1 (vi_start None (Some 5) \<lparr>m_lno = 1, m_cno = 2\<rparr>) (opened [''abc'']) = Some (False, vp', s') \<and>
     lines s' = [''c''] \<and> m_final vp' = \<lparr>m_lno = 1, m_cno = 0\<rparr>"
  using X_deletes [of "opened [''abc'']" 1 "vi_start None (Some 5) \<lparr>m_lno = 1, m_cno = 2\<rparr>" 1 2 "''abc''"]
  by (auto simp: delete_range_start cuts_def SIZE_MAX_def)

text \<open>
  C27: \<^verbatim>\<open>y\<close> changes no line: it puts the text of the motion's range into the default buffer, in the mode of
  the motion.
\<close>

theorem yank_range:
  assumes "editing s" "text_ok s" "range_ok (vm_lmode vp) (m_start vp) (m_stop vp) (lines s)" "name_ok upper vp"
    and "0 < m_lno (m_final vp)" "m_lno (m_final vp) \<le> length (lines s)"
  shows "\<exists>vp' s'. v_yank upper vp s = Some (False, vp', s') \<and>
    cuts s (lines s) (range_text (vm_lmode vp) (m_start vp) (m_stop vp) (lines s)) (vm_lmode vp) s' \<and>
    m_final vp' = (if vm_lmode vp then m_final vp else clipped (m_final vp) (lines s))"
proof -
  let ?fl = "\<lparr>cut_linemode = vm_lmode vp, cut_numopt = False, cut_numreq = False\<rparr>"
  let ?n = "m_lno (m_stop vp) + 1 - m_lno (m_start vp)"
  have r: "range_ok (cut_linemode ?fl) (m_start vp) (m_stop vp) (lines s)" using assms(3) by simp
  obtain s1 where s1: "cut upper (vp_bufp vp) (m_start vp) (m_stop vp) ?fl s = Some (False, s1)"
      "cuts s (lines s) (range_text (vm_lmode vp) (m_start vp) (m_stop vp) (lines s)) (vm_lmode vp) s1"
    by (rule cut_cuts [OF assms(1,2) r assms(4)]) simp
  have c1: "cuts s (lines s) (range_text (vm_lmode vp) (m_start vp) (m_stop vp) (lines s)) (vm_lmode vp) (rpt_yanked ?n s1)"
    by (rule cuts_yanked [OF s1(2)])
  obtain s2 where s2: "db_get (m_lno (m_final vp)) False (rpt_yanked ?n s1) = Some (False, lines s ! (m_lno (m_final vp) - 1), s2)"
      "cuts s (lines s) (range_text (vm_lmode vp) (m_start vp) (m_stop vp) (lines s)) (vm_lmode vp) s2"
    by (rule cuts_get [OF c1 assms(5,6)])
  have "m_final (clip_final (lines s ! (m_lno (m_final vp) - 1)) vp) =
      (if vm_lmode vp then m_final vp else clipped (m_final vp) (lines s))"
    using clip_final_chars by (auto simp: clip_final_def)
  then show ?thesis using s1(1) s2 by (simp add: v_yank_def)
qed

theorem yank_range_witness:
  "\<exists>vp' s'. v_yank 1 ((vi_start None None \<lparr>m_lno = 1, m_cno = 1\<rparr>)\<lparr>m_stop := \<lparr>m_lno = 1, m_cno = 2\<rparr>\<rparr>) (opened [''abc'']) =
     Some (False, vp', s') \<and> lines s' = [''abc''] \<and>
     (\<exists>cb. cb_at (dcbp s') s' = Some cb \<and> cb_textq cb = [''bc''])"
proof -
  let ?vp = "(vi_start None None \<lparr>m_lno = 1, m_cno = 1\<rparr>)\<lparr>m_stop := \<lparr>m_lno = 1, m_cno = 2\<rparr>\<rparr>"
  have r: "range_ok (vm_lmode ?vp) (m_start ?vp) (m_stop ?vp) [''abc'']" "name_ok 1 ?vp" "0 < m_lno (m_final ?vp)"
      "m_lno (m_final ?vp) \<le> 1" "range_text (vm_lmode ?vp) (m_start ?vp) (m_stop ?vp) [''abc''] = [''bc'']"
    by (simp_all add: vi_start_def range_ok_def name_ok_def range_text_def SIZE_MAX_def)
  show ?thesis
    using yank_range [of "opened [''abc'']" ?vp 1] r by (auto simp: delete_range_start cuts_def)
qed

text \<open>
  With a huge count \<^verbatim>\<open>x\<close> inserts a character: the end of the range wraps around to before its start, and
  \<^verbatim>\<open>del\<close> puts the text between them in twice.
\<close>

theorem x_count_wraps:
  assumes "vp = vi_start None (Some SIZE_MAX) \<lparr>m_lno = 1, m_cno = 2\<rparr>"
  shows "map_option (\<lambda>(e, vp, s). (e, lines s)) (v_xchar 1 vp (opened [''abc''])) = Some (False, [''abbc''])"
proof -
  let ?vp = "vp\<lparr>m_stop := \<lparr>m_lno = 1, m_cno = 0\<rparr>\<rparr>"
  let ?wp = "(vi_start None None \<lparr>m_lno = 1, m_cno = 2\<rparr>)\<lparr>m_stop := \<lparr>m_lno = 1, m_cno = 0\<rparr>\<rparr>"
  have w: "cno_add 2 (ulong_dec SIZE_MAX) = 0" by (simp add: cno_add_def ulong_dec_def SIZE_MAX_def)
  have "map_option (\<lambda>(e, p, f, s). (e, p)) (db_eget 1 (opened [''abc''])) = Some (False, ''abc'')" by code_simp
  then obtain f s1 where s1: "db_eget 1 (opened [''abc'']) = Some (False, ''abc'', f, s1)" by auto
  have "map_option (\<lambda>(e, vp, s). (e, lines s)) (v_xchar 1 vp (opened [''abc''])) =
      map_option (\<lambda>(e, vp, s). (e, lines s)) (cut_del 1 ?vp s1)"
    using s1 w assms by (simp add: v_xchar_def vi_start_def)
  also have "\<dots> = map_option (\<lambda>(e, vp, s). (e, lines s)) (cut_del 1 ?wp s1)"
    by (rule cut_del_cong) (simp_all add: assms vi_start_def vp_bufp_def)
  also have "\<dots> = map_option (\<lambda>(e, vp, s). (e, lines s))
      (do { (e, p, f, s1) \<leftarrow> db_eget 1 (opened [''abc'']); cut_del 1 ?wp s1 })"
    using s1 by simp
  also have "\<dots> = Some (False, [''abbc''])" by code_simp
  finally show ?thesis .
qed

text \<open>
  Delete and put. A delete within a line, then a put at the final cursor, before it or, if the delete
  reached the end of the line, after it, restores the line.
\<close>

theorem delete_put_back:
  assumes "editing s" "text_ok s" "\<not> vm_lmode vp" "\<not> vc_buffer vp"
    and "m_start vp = \<lparr>m_lno = k, m_cno = c\<rparr>" "m_stop vp = \<lparr>m_lno = k, m_cno = d\<rparr>" "m_final vp = m_start vp"
    and "l = lines s ! (k - 1)" "0 < k" "k \<le> length (lines s)" "c \<le> d" "d < length l" "length l \<le> SIZE_MAX"
  shows "\<exists>vp1 s1 vp2 s2. v_delete upper vp s = Some (False, vp1, s1) \<and>
    lines s1 = (lines s)[k - 1 := take c l @ drop (d + 1) l] \<and>
    put_cmd (d + 1 = length l) (vi_start None None (m_final vp1)) sdot s1 = Some (False, vp2, sdot, s2) \<and> lines s2 = lines s"
proof -
  let ?p = "take c l @ drop (d + 1) l" and ?ls = "(lines s)[k - 1 := take c l @ drop (d + 1) l]"
  have dl: "deletable (m_start vp) (m_stop vp) (lines s)" using deletable_line [of k "lines s" c d] assms by simp
  have cn: "cno_next d = d + 1" using assms(12,13) by simp
  have w: "without (m_start vp) (m_stop vp) (lines s) = ?ls"
    using without_line [OF assms(9,10), of c d] assms(5,6,8) cn by simp
  have t: "range_text False (m_start vp) (m_stop vp) (lines s) = [take (d + 1 - c) (drop c l)]"
    using assms(5,6,8) cn by (simp add: range_text_def)
  obtain vp1 s1 where s1: "v_delete upper vp s = Some (False, vp1, s1)" "cuts s ?ls [take (d + 1 - c) (drop c l)] False s1"
      "m_final vp1 = clipped (m_final vp) ?ls"
    using v_delete_chars [OF assms(1-3) dl, of upper ?ls] assms(4-10) w t by (auto simp: name_ok_def)
  let ?m = "m_final vp1" and ?app = "d + 1 = length l"
  have m: "m_lno ?m = k" "m_cno ?m = min c (length ?p - 1)" using s1(3) assms(5,7,9,10) by (simp_all add: clipped_def)
  have sp: "split_at ?m ?app ?p = c" using m(2) assms(11,12) by (auto simp: split_at_def min_def)
  have cp: "c \<le> length ?p" using assms(11,12) by simp
  have ml: "0 < m_lno ?m" "m_lno ?m \<le> length ?ls" "?ls ! (m_lno ?m - 1) = ?p" using m(1) assms(9,10) by simp_all
  obtain vp2 s2 where s2: "put_cmd ?app (vi_start None None ?m) sdot s1 = Some (False, vp2, sdot, s2)"
      "becomes s1 (?ls[m_lno ?m - 1 := take c ?p @ take (d + 1 - c) (drop c l) @ drop c ?p]) s2"
    using put_back [OF s1(2) ml(1,2), of "vi_start None None ?m" c ?app sdot] sp ml(3) cp
    by (auto simp: delete_range_start)
  have t: "take c ?p = take c l" and dr: "drop c ?p = drop (d + 1) l" using assms(11,12) by simp_all
  have "take c ?p @ take (d + 1 - c) (drop c l) @ drop c ?p = lines s ! (k - 1)"
    unfolding t dr take_drop_back [OF assms(11,12)] by (rule assms(8))
  then have "lines s2 = lines s" using becomesD(2) [OF s2(2)] m(1) by simp
  then show ?thesis using s1(1,2) s2(1) by (auto simp: cuts_def)
qed

theorem delete_put_back_witness:
  "\<exists>vp1 s1 vp2 s2. v_delete 1 ((vi_start None None \<lparr>m_lno = 1, m_cno = 1\<rparr>)\<lparr>m_stop := \<lparr>m_lno = 1, m_cno = 2\<rparr>\<rparr>) (opened [''abc'']) =
       Some (False, vp1, s1) \<and> lines s1 = [''a''] \<and>
     put_cmd True (vi_start None None (m_final vp1)) CHR ''1'' s1 = Some (False, vp2, CHR ''1'', s2) \<and> lines s2 = [''abc'']"
  using delete_put_back [of "opened [''abc'']" "(vi_start None None \<lparr>m_lno = 1, m_cno = 1\<rparr>)\<lparr>m_stop := \<lparr>m_lno = 1, m_cno = 2\<rparr>\<rparr>"
      1 1 2 "''abc''" 1 "CHR ''1''"]
  by (simp add: delete_range_start SIZE_MAX_def)

end
