(* ===== verification/KeyNames.thy ===== *)
theory KeyNames
  imports Keys
begin

section \<open>How a character is shown, and the special keys (common/key.c)\<close>

text \<open>
  The bytes that display a character (\<^verbatim>\<open>v_key_name\<close>), the table the \<^verbatim>\<open>KEY_NAME\<close> and
  \<^verbatim>\<open>KEY_LEN\<close> macros read and the routine that fills it, and the start-up of the special
  keys. The lemmas: names fit the arrays they are stored in, different characters have different names,
  the table agrees with the routine, and the special keys are those of the list with the terminal's
  own keys over it.
\<close>

subsection \<open>Names\<close>

text \<open>
  The options that matter, and the two character classes of the locale. An option string that was never
  set is \<open>None\<close>.
\<close>

record kopts =
  o_print :: "bytes option"
  o_noprint :: "bytes option"
  o_altnotation :: bool
  o_octal :: bool
  lc_print :: "char \<Rightarrow> bool"
  lc_cntrl :: "char \<Rightarrow> bool"

definition MAX_CHARACTER_COLUMNS :: nat where "MAX_CHARACTER_COLUMNS = 6"

abbreviation code :: "char \<Rightarrow> nat" where "code c \<equiv> of_char c"

text \<open>The chain of comparisons under \<^verbatim>\<open>O_ALTNOTATION\<close>.\<close>

definition alt_names :: "(nat \<times> bytes) list" where
  "alt_names =
     [(0x00, ''<C-@>''), (0x01, ''<C-a>''), (0x02, ''<C-b>''), (0x03, ''<C-c>''), (0x04, ''<C-d>''),
      (0x05, ''<C-e>''), (0x06, ''<C-f>''), (0x07, ''<C-g>''), (0x08, ''<C-h>''), (0x0A, ''<NL>''),
      (0x0B, ''<C-k>''), (0x0C, ''<C-l>''), (0x0D, ''<Ret>''), (0x0E, ''<C-n>''), (0x0F, ''<C-o>''),
      (0x10, ''<C-p>''), (0x11, ''<C-q>''), (0x12, ''<C-r>''), (0x13, ''<C-s>''), (0x14, ''<C-t>''),
      (0x15, ''<C-u>''), (0x16, ''<C-v>''), (0x17, ''<C-w>''), (0x18, ''<C-x>''), (0x19, ''<C-y>''),
      (0x1A, ''<C-z>''), (0x1B, ''<Esc>''), (0x1C, ''<C-'' @ [CHR 0x5C, CHR ''>'']), (0x1D, ''<C-]>''),
      (0x1E, ''<C-^>''), (0x1F, ''<C-_>''), (0x7F, ''<Del>'')]"

definition caret_name :: "char \<Rightarrow> bytes" where
  "caret_name ch = [CHR ''^'', if code ch = 0x7f then CHR ''?'' else char_of (code CHR ''@'' + code ch)]"

definition octal_name :: "char \<Rightarrow> bytes" where
  "octal_name ch =
     CHR 0x5C # map (\<lambda>d. ''01234567'' ! d) [code ch div 64, code ch div 8 mod 8, code ch mod 8]"

definition hex_name :: "char \<Rightarrow> bytes" where
  "hex_name ch =
     CHR 0x5C # CHR ''x'' # map (\<lambda>d. ''0123456789abcdef'' ! d) [code ch div 16, code ch mod 16]"

definition v_key_name :: "kopts \<Rightarrow> char \<Rightarrow> bytes" where
  "v_key_name ko ch =
     (let listed = (\<lambda>p. case p of None \<Rightarrow> False | Some s \<Rightarrow> ch \<in> set s) in
      if listed (o_print ko) \<or> \<not> listed (o_noprint ko) \<and> lc_print ko ch then [ch]
      else if lc_cntrl ko ch \<and> (code ch < 0x20 \<or> code ch = 0x7f) then
        if o_altnotation ko then (case map_of alt_names (code ch) of Some n \<Rightarrow> n | None \<Rightarrow> caret_name ch)
        else caret_name ch
      else if o_octal ko then octal_name ch
      else hex_name ch)"

definition v_key_len :: "kopts \<Rightarrow> char \<Rightarrow> nat" where
  "v_key_len ko ch = length (v_key_name ko ch)"

text \<open>
  The table \<^verbatim>\<open>cname\<close>: an array and a length for each of the characters up to \<^verbatim>\<open>MAX_FAST_KEY\<close>.
  Filling it copies the bytes of the name, not the null byte after them.
\<close>

type_synonym cnames = "(bytes \<times> nat) list"

definition cname_set :: "bytes \<Rightarrow> bytes \<times> nat \<Rightarrow> bytes \<times> nat" where
  "cname_set n e = (n @ drop (length n) (fst e), length n)"

definition v_key_ilookup :: "kopts \<Rightarrow> cnames \<Rightarrow> cnames" where
  "v_key_ilookup ko cn = map (\<lambda>ch. cname_set (v_key_name ko (char_of ch)) (cn ! ch)) [0..<MAX_FAST_KEY + 1]"

definition KEY_LEN :: "kopts \<Rightarrow> cnames \<Rightarrow> char \<Rightarrow> nat" where
  "KEY_LEN ko cn ch = (if code ch \<le> MAX_FAST_KEY then snd (cn ! code ch) else v_key_len ko ch)"

text \<open>
  \<^verbatim>\<open>KEY_NAME\<close> as the string a message prints, up to the first null byte. (An array without one
  would be read past its end.)
\<close>

definition c_string :: "bytes \<Rightarrow> bytes option" where
  "c_string a = (if CHR 0x00 \<in> set a then Some (takeWhile (\<lambda>c. c \<noteq> CHR 0x00) a) else None)"

definition KEY_NAME :: "kopts \<Rightarrow> cnames \<Rightarrow> char \<Rightarrow> bytes option" where
  "KEY_NAME ko cn ch =
     (if code ch \<le> MAX_FAST_KEY then c_string (fst (cn ! code ch)) else Some (v_key_name ko ch))"

text \<open>The table at start-up, in memory that \<^verbatim>\<open>calloc\<close> cleared; every entry has its array.\<close>

definition cnames_new :: cnames where
  "cnames_new = replicate (MAX_FAST_KEY + 1) (replicate (MAX_CHARACTER_COLUMNS + 1) (CHR 0x00), 0)"

definition cnames_ok :: "cnames \<Rightarrow> bool" where
  "cnames_ok cn \<longleftrightarrow> length cn = MAX_FAST_KEY + 1 \<and>
     (\<forall>e \<in> set cn. length (fst e) = MAX_CHARACTER_COLUMNS + 1 \<and> snd e \<le> MAX_CHARACTER_COLUMNS)"

subsection \<open>Special keys\<close>

type_synonym keylist = "(e_key_t \<times> char) list"

text \<open>The first entries of \<^verbatim>\<open>keylist\<close>; four unused ones follow.\<close>

definition keylist_init :: keylist where
  "keylist_init =
     [(K_BACKSLASH, CHR 0x5C), (K_CARAT, CHR ''^''), (K_CNTRLD, CHR 0x04), (K_CNTRLR, CHR 0x12),
      (K_CNTRLT, CHR 0x14), (K_CNTRLZ, CHR 0x1A), (K_COLON, CHR '':''), (K_CR, CHR 0x0D),
      (K_ESCAPE, CHR 0x1B), (K_FORMFEED, CHR 0x0C), (K_HEXCHAR, CHR 0x18), (K_NL, CHR 0x0A),
      (K_RIGHTBRACE, CHR ''}''), (K_RIGHTPAREN, CHR '')''), (K_TAB, CHR 0x09), (K_VERASE, CHR 0x08),
      (K_VKILL, CHR 0x15), (K_VLNEXT, CHR 0x11), (K_VLNEXT, CHR 0x16), (K_VWERASE, CHR 0x17),
      (K_ZERO, CHR ''0'')]"

definition ADDITIONAL_CHARACTERS :: nat where "ADDITIONAL_CHARACTERS = 4"

text \<open>
  \<^verbatim>\<open>v_keyval\<close>: what the screen answers is \<open>None\<close> when it fails or the key does not
  exist. The scan stops at the first unused entry, which the list always keeps; the model has the used
  entries only, and stops when there is no room for another.
\<close>

fun keyval_scan :: "e_key_t \<Rightarrow> char \<Rightarrow> keylist \<Rightarrow> keylist option" where
  "keyval_scan val ch [] = None"
| "keyval_scan val ch ((v, c) # ks) =
     (if c = ch then Some ((val, c) # ks) else map_option (Cons (v, c)) (keyval_scan val ch ks))"

definition v_keyval :: "e_key_t \<Rightarrow> char option \<Rightarrow> keylist \<Rightarrow> keylist option" where
  "v_keyval val answer kl =
     (case answer of
        None \<Rightarrow> Some kl
      | Some ch \<Rightarrow>
          (case keyval_scan val ch kl of
             Some kl' \<Rightarrow> Some kl'
           | None \<Rightarrow> if length kl < length keylist_init + ADDITIONAL_CHARACTERS then Some (kl @ [(val, ch)]) else None))"

text \<open>The fast table: a later entry for a character overwrites an earlier one.\<close>

fun special_fill :: "keylist \<Rightarrow> (char \<Rightarrow> e_key_t) \<Rightarrow> char \<Rightarrow> e_key_t" where
  "special_fill [] sk = sk"
| "special_fill ((v, c) # ks) sk = special_fill ks (if code c \<le> MAX_FAST_KEY then sk(c := v) else sk)"

text \<open>The smallest non-printable character from 1 on, which is the message separator.\<close>

definition find_noprint :: "(char \<Rightarrow> bool) \<Rightarrow> nat option" where
  "find_noprint pr = find (\<lambda>n. \<not> pr (char_of n)) [1..<256]"

text \<open>The keys of the terminal.\<close>

record tty_keys =
  tty_veof :: "char option"
  tty_verase :: "char option"
  tty_vkill :: "char option"
  tty_vwerase :: "char option"

text \<open>
  \<^verbatim>\<open>v_key_init\<close>: the message separator (there is none when it fails), the table of names, the
  list of keys in order and the fast table. The codes of an unsigned char compare as the characters do.
\<close>

definition v_key_init ::
  "kopts \<Rightarrow> tty_keys \<Rightarrow> cnames \<Rightarrow> (char \<Rightarrow> e_key_t) \<Rightarrow> (nat option \<times> cnames \<times> keylist \<times> (char \<Rightarrow> e_key_t)) option" where
  "v_key_init ko tty cn sk =
     do {
       let cn1 = v_key_ilookup ko cn;
       k1 \<leftarrow> v_keyval K_CNTRLD (tty_veof tty) keylist_init;
       k2 \<leftarrow> v_keyval K_VERASE (tty_verase tty) k1;
       k3 \<leftarrow> v_keyval K_VKILL (tty_vkill tty) k2;
       k4 \<leftarrow> v_keyval K_VWERASE (tty_vwerase tty) k3;
       let kl = sort_key snd k4;
       Some (find_noprint (lc_print ko), cn1, kl, special_fill kl sk)
     }"

text \<open>\<^verbatim>\<open>v_key_val\<close>, a binary search in the sorted list.\<close>

function bsearch_loop :: "keylist \<Rightarrow> char \<Rightarrow> nat \<Rightarrow> nat \<Rightarrow> e_key_t option" where
  "bsearch_loop kl ch lo hi =
     (if lo < hi then
        let m = (lo + hi) div 2; c = snd (kl ! m) in
        if ch = c then Some (fst (kl ! m)) else if ch < c then bsearch_loop kl ch lo m else bsearch_loop kl ch (m + 1) hi
      else None)"
  by pat_completeness auto
termination by (relation "measure (\<lambda>(_, _, lo, hi). hi - lo)") auto

declare bsearch_loop.simps [simp del, code]

definition v_key_val :: "keylist \<Rightarrow> char \<Rightarrow> e_key_t" where
  "v_key_val kl ch = (case bsearch_loop kl ch 0 (length kl) of None \<Rightarrow> K_NOTUSED | Some v \<Rightarrow> v)"


subsection \<open>Names are read back\<close>

text \<open>The character a name stands for.\<close>

definition digit_val :: "char \<Rightarrow> nat" where
  "digit_val c = (if code c < 0x61 then code c - 0x30 else code c - 0x57)"

definition alt_char :: "bytes \<Rightarrow> char" where
  "alt_char n = char_of (case map_of (map (\<lambda>(k, v). (v, k)) alt_names) n of Some k \<Rightarrow> k | None \<Rightarrow> 0)"

definition name_char :: "bytes \<Rightarrow> char" where
  "name_char n =
     (if length n = 1 then hd n
      else if hd n = CHR ''^'' then (if n ! 1 = CHR ''?'' then char_of (0x7f :: nat) else char_of (code (n ! 1) - 64))
      else if hd n = CHR ''<'' then alt_char n
      else if n ! 1 = CHR ''x'' then char_of (digit_val (n ! 2) * 16 + digit_val (n ! 3))
      else char_of (digit_val (n ! 1) * 64 + digit_val (n ! 2) * 8 + digit_val (n ! 3)))"

lemma code_less: "code c < 256"
  by (metis of_char_mod_256 mod_less_divisor zero_less_numeral)

lemma octal_digit: "d < 8 \<Longrightarrow> digit_val (''01234567'' ! d) = d \<and> ''01234567'' ! d \<noteq> CHR ''x''"
proof -
  have "\<forall>d \<in> set [0..<8]. digit_val (''01234567'' ! d) = d \<and> ''01234567'' ! d \<noteq> CHR ''x''" by code_simp
  then show "d < 8 \<Longrightarrow> ?thesis" by simp
qed

lemma hex_digit: "d < 16 \<Longrightarrow> digit_val (''0123456789abcdef'' ! d) = d"
proof -
  have "\<forall>d \<in> set [0..<16]. digit_val (''0123456789abcdef'' ! d) = d" by code_simp
  then show "d < 16 \<Longrightarrow> ?thesis" by simp
qed

lemma oct_sum: "n div 64 * 64 + n div 8 mod 8 * 8 + n mod 8 = (n :: nat)"
proof -
  have "n div 64 * 64 + n div 8 mod 8 * 8 + n mod 8 = (n div 8 div 8 * 8 + n div 8 mod 8) * 8 + n mod 8"
    by (simp add: div_mult2_eq [symmetric])
  also have "\<dots> = n" by (simp only: div_mult_mod_eq)
  finally show ?thesis .
qed

lemma name_char_octal: "name_char (octal_name c) = c"
proof -
  have "code c div 64 < 8" "code c div 8 mod 8 < 8" "code c mod 8 < 8"
    using code_less [of c] div_less_iff_less_mult [of 64 "code c" 8] by linarith+
  note d = this [THEN octal_digit]
  note oct_sum [of "code c"]
  then show ?thesis using d by (simp add: name_char_def octal_name_def)
qed

lemma name_char_hex: "name_char (hex_name c) = c"
proof -
  have "code c div 16 < 16" "code c mod 16 < 16"
    using code_less [of c] by (auto intro: less_mult_imp_div_less)
  note d = this [THEN hex_digit]
  have "code c div 16 * 16 + code c mod 16 = code c" by simp
  then show ?thesis using d by (simp add: name_char_def hex_name_def)
qed

lemma name_char_caret: "code c < 0x20 \<or> code c = 0x7f \<Longrightarrow> name_char (caret_name c) = c"
proof -
  assume c: "code c < 0x20 \<or> code c = 0x7f"
  have *: "code c < 0x20 \<Longrightarrow> (char_of (64 + code c) :: char) \<noteq> CHR ''?''"
  proof
    assume "code c < 0x20" "(char_of (64 + code c) :: char) = CHR ''?''"
    then have "code (char_of (64 + code c)) = code CHR ''?''" by simp
    then show False using \<open>code c < 0x20\<close> by simp
  qed
  have **: "code c = 0x7f \<Longrightarrow> char_of (0x7f :: nat) = c" by (metis char_of_char)
  show ?thesis using c * ** by (auto simp: name_char_def caret_name_def)
qed

lemma name_char_alt: "map_of alt_names (code c) = Some n \<Longrightarrow> name_char n = c"
proof -
  have "\<forall>(k, n) \<in> set alt_names. name_char n = char_of k" by code_simp
  then show "map_of alt_names (code c) = Some n \<Longrightarrow> ?thesis" by (auto dest!: map_of_SomeD)
qed


lemma name_char_v_key_name: "name_char (v_key_name ko c) = c"
proof -
  have one: "name_char [c] = c" by (simp add: name_char_def)
  show ?thesis
    by (simp add: v_key_name_def Let_def one name_char_octal name_char_hex name_char_caret name_char_alt split: option.splits)
qed

lemma alt_name_len: "map_of alt_names k = Some n \<Longrightarrow> 4 \<le> length n \<and> length n \<le> 5 \<and> CHR 0x00 \<notin> set n"
proof -
  have "\<forall>(k, n) \<in> set alt_names. 4 \<le> length n \<and> length n \<le> 5 \<and> CHR 0x00 \<notin> set n" by code_simp
  then show "map_of alt_names k = Some n \<Longrightarrow> ?thesis" by (auto dest!: map_of_SomeD)
qed

lemma v_key_name_len: "1 \<le> length (v_key_name ko c) \<and> length (v_key_name ko c) \<le> 5"
  by (auto simp: v_key_name_def Let_def caret_name_def octal_name_def hex_name_def dest: alt_name_len split: option.splits)

text \<open>
  C39: The display of a character determines it: whatever the print, noprint, octal and altnotation
  options and the locale, two different characters are never shown by the same bytes. A name is never empty
  and fits, with its null byte, the array that stores it.
\<close>

theorem key_name_distinct:
  "inj (v_key_name ko) \<and> (\<forall>c. 1 \<le> length (v_key_name ko c) \<and> length (v_key_name ko c) < MAX_CHARACTER_COLUMNS)"
proof -
  have "inj (v_key_name ko)" by (rule inj_on_inverseI [where g = name_char]) (rule name_char_v_key_name)
  moreover have "1 \<le> length (v_key_name ko c) \<and> length (v_key_name ko c) < MAX_CHARACTER_COLUMNS" for c
    using v_key_name_len [of ko c] by (simp add: MAX_CHARACTER_COLUMNS_def)
  ultimately show ?thesis by blast
qed

subsection \<open>The tables\<close>

lemma cnames_new_ok: "cnames_ok cnames_new"
  by (simp add: cnames_ok_def cnames_new_def)

lemma code_char_of: "ch < 256 \<Longrightarrow> code (char_of ch) = (ch :: nat)"
  by simp

lemma ilookup_nth:
  "n \<le> MAX_FAST_KEY \<Longrightarrow> v_key_ilookup ko cn ! n = cname_set (v_key_name ko (char_of n)) (cn ! n)"
  by (simp add: v_key_ilookup_def nth_append less_Suc_eq_le del: upt_Suc)

lemma ilookup_length: "length (v_key_ilookup ko cn) = Suc MAX_FAST_KEY"
  by (simp add: v_key_ilookup_def)

lemma ilookup_ok: "cnames_ok cn \<Longrightarrow> cnames_ok (v_key_ilookup ko cn)"
proof -
  assume ok: "cnames_ok cn"
  have "length (fst (cn ! n)) = MAX_CHARACTER_COLUMNS + 1" if "n \<le> MAX_FAST_KEY" for n
    using ok that by (auto simp: cnames_ok_def all_set_conv_all_nth)
  moreover have "length (v_key_name ko c) \<le> MAX_CHARACTER_COLUMNS" for c
    using v_key_name_len [of ko c] by (simp add: MAX_CHARACTER_COLUMNS_def)
  ultimately have "length (fst (v_key_ilookup ko cn ! n)) = MAX_CHARACTER_COLUMNS + 1 \<and> snd (v_key_ilookup ko cn ! n) \<le> MAX_CHARACTER_COLUMNS"
    if "n \<le> MAX_FAST_KEY" for n using that by (simp add: ilookup_nth cname_set_def le_SucI)
  then show ?thesis by (auto simp: cnames_ok_def all_set_conv_all_nth ilookup_length less_Suc_eq_le)
qed

lemma key_len_name: "KEY_LEN ko (v_key_ilookup ko cn) c = length (v_key_name ko c)"
  by (simp add: KEY_LEN_def ilookup_nth cname_set_def v_key_len_def)

text \<open>
  After the table is filled, whatever it held, \<^verbatim>\<open>KEY_LEN\<close> of every character is the length
  of the name the routine behind it computes, and the bytes of the table up to that length are the name.
\<close>

theorem key_len_is_name:
  "KEY_LEN ko (v_key_ilookup ko cn) c = length (v_key_name ko c) \<and>
   (code c \<le> MAX_FAST_KEY \<longrightarrow> take (length (v_key_name ko c)) (fst (v_key_ilookup ko cn ! code c)) = v_key_name ko c)"
  by (simp add: KEY_LEN_def ilookup_nth cname_set_def v_key_len_def)

text \<open>
  The same is not true of the string: the null byte is not copied, so that after an option makes a name
  shorter, \<^verbatim>\<open>KEY_NAME\<close> gives the new name followed by the rest of the old one.
\<close>

theorem key_name_stale_tail:
  assumes "ko = \<lparr>o_print = None, o_noprint = None, o_altnotation = True, o_octal = False, lc_print = \<lambda>c. code c \<ge> 32, lc_cntrl = \<lambda>c. code c < 32\<rparr>"
  shows "KEY_NAME ko (v_key_ilookup ko cnames_new) (CHR 0x01) = Some ''<C-a>'' \<and>
     KEY_NAME (ko\<lparr>o_altnotation := False\<rparr>) (v_key_ilookup (ko\<lparr>o_altnotation := False\<rparr>) (v_key_ilookup ko cnames_new)) (CHR 0x01) = Some ''^A-a>''"
proof -
  have char_of_65: "char_of (65 :: nat) = CHR ''A''" by code_simp
  have n: "MAX_FAST_KEY = 254" by (simp add: MAX_FAST_KEY_def)
  have "char_of (Suc 0) = CHR 0x01" by code_simp
  moreover have "v_key_name ko (CHR 0x01) = ''<C-a>''" "v_key_name (ko\<lparr>o_altnotation := False\<rparr>) (CHR 0x01) = ''^A''"
    by (simp_all add: assms v_key_name_def alt_names_def caret_name_def char_of_65)
  ultimately show ?thesis
    by (simp add: KEY_NAME_def ilookup_nth cname_set_def cnames_new_def c_string_def n MAX_CHARACTER_COLUMNS_def numeral_eq_Suc)
qed


subsection \<open>The special keys\<close>

text \<open>What a list of keys says of a character.\<close>

definition key_of :: "keylist \<Rightarrow> char \<Rightarrow> e_key_t option" where
  "key_of kl = map_of (map (\<lambda>(v, c). (c, v)) kl)"

lemma key_of_Nil [simp]: "key_of [] = Map.empty"
  by (simp add: key_of_def)

lemma key_of_Cons [simp]: "key_of ((v, c) # kl) = (key_of kl)(c \<mapsto> v)"
  by (simp add: key_of_def)

lemma key_of_None: "key_of kl c = None \<longleftrightarrow> c \<notin> snd ` set kl"
  by (force simp: key_of_def map_of_eq_None_iff image_iff)

lemma key_of_append: "key_of (k1 @ k2) = key_of k2 ++ key_of k1"
  by (simp add: key_of_def map_of_append)

lemma key_of_Some: "distinct (map snd kl) \<Longrightarrow> key_of kl c = Some v \<longleftrightarrow> (v, c) \<in> set kl"
  by (induction kl) (auto simp: image_iff split: if_splits)

lemma key_of_nth: "distinct (map snd kl) \<Longrightarrow> i < length kl \<Longrightarrow> key_of kl (snd (kl ! i)) = Some (fst (kl ! i))"
  by (simp add: key_of_Some)

lemma key_of_sort:
  assumes "distinct (map snd kl)"
  shows "key_of (sort_key snd kl) = key_of kl"
proof
  fix c
  have "distinct (map snd (sort_key snd kl))" using assms by (simp add: distinct_map)
  from key_of_Some [OF this, of c] key_of_Some [OF assms, of c] show "key_of (sort_key snd kl) c = key_of kl c"
    by (cases "key_of kl c") (auto simp: not_None_eq [symmetric] simp del: not_None_eq)
qed

lemma keyval_scan_Some: "keyval_scan val ch kl = Some kl' \<Longrightarrow>
   key_of kl' = (key_of kl)(ch \<mapsto> val) \<and> map snd kl' = map snd kl"
  by (induction kl arbitrary: kl') (auto simp: fun_upd_twist split: if_splits)

lemma keyval_scan_None: "keyval_scan val ch kl = None \<longleftrightarrow> ch \<notin> snd ` set kl"
  by (induction kl) (auto split: if_splits)

text \<open>A list with room for \<open>n\<close> more keys.\<close>

definition key_room :: "nat \<Rightarrow> keylist \<Rightarrow> bool" where
  "key_room n kl \<longleftrightarrow> distinct (map snd kl) \<and> length kl + n \<le> length keylist_init + ADDITIONAL_CHARACTERS"

definition answered :: "char option \<Rightarrow> e_key_t \<Rightarrow> (char \<Rightarrow> e_key_t option) \<Rightarrow> char \<Rightarrow> e_key_t option" where
  "answered a val m = (case a of None \<Rightarrow> m | Some c \<Rightarrow> m(c \<mapsto> val))"

lemma v_keyval_ok:
  assumes "key_room (Suc n) kl"
  obtains kl' where "v_keyval val a kl = Some kl'" "key_room n kl'" "key_of kl' = answered a val (key_of kl)"
proof (cases a)
  case None
  then show ?thesis using that assms by (auto simp: v_keyval_def answered_def key_room_def)
next
  case (Some ch)
  show ?thesis
  proof (cases "keyval_scan val ch kl")
    case None
    then have "ch \<notin> snd ` set kl" by (simp add: keyval_scan_None)
    with that assms None Some show ?thesis
      by (auto simp: v_keyval_def answered_def key_room_def key_of_append key_of_None [symmetric] map_add_def fun_eq_iff split: option.splits)
  next
    case (Some kl')
    from keyval_scan_Some [OF this] have "length kl' = length kl" by (metis length_map)
    with that assms Some \<open>a = Some ch\<close> keyval_scan_Some [OF Some] show ?thesis
      by (auto simp: v_keyval_def answered_def key_room_def)
  qed
qed

lemma special_fill_key_of: "distinct (map snd kl) \<Longrightarrow> code c \<le> MAX_FAST_KEY \<Longrightarrow>
   special_fill kl sk c = (case key_of kl c of None \<Rightarrow> sk c | Some v \<Rightarrow> v)"
proof (induction kl arbitrary: sk)
  case (Cons k kl)
  obtain v d where k: "k = (v, d)" by force
  have "key_of kl d = None" using Cons.prems k by (simp add: key_of_None)
  then show ?case using Cons k by (auto split: option.splits)
qed simp

lemma bsearch_key_of:
  assumes "sorted (map snd kl)" "distinct (map snd kl)" "hi \<le> length kl"
    and "\<And>i. i < length kl \<Longrightarrow> snd (kl ! i) = ch \<Longrightarrow> lo \<le> i \<and> i < hi"
  shows "bsearch_loop kl ch lo hi = key_of kl ch"
  using assms
proof (induction kl ch lo hi rule: bsearch_loop.induct)
  case (1 kl ch lo hi)
  note ord = sorted_nth_mono [OF 1(3)] and nth = key_of_nth [OF 1(4)]
  show ?case
  proof (cases "lo < hi")
    case False
    then have "key_of kl ch = None" using 1(6) by (fastforce simp: key_of_None in_set_conv_nth)
    then show ?thesis using False by (simp add: bsearch_loop.simps)
  next
    case True
    define m where "m = (lo + hi) div 2"
    have m: "lo \<le> m" "m < hi" "m < length kl" using True 1(5) by (auto simp: m_def)
    consider "ch = snd (kl ! m)" | "ch < snd (kl ! m)" | "snd (kl ! m) < ch" by force
    then show ?thesis
    proof cases
      case 1
      then show ?thesis using nth [OF m(3)] True by (subst bsearch_loop.simps) (simp add: m_def Let_def)
    next
      case less: 2
      have "lo \<le> i \<and> i < m" if "i < length kl" "snd (kl ! i) = ch" for i
        using 1(6) [OF that] ord [of m i] that less by (auto simp: not_less [symmetric])
      moreover have "ch \<noteq> snd (kl ! m)" using less by simp
      ultimately show ?thesis using 1(1) [OF True refl refl] 1(3-5) less m True by (subst bsearch_loop.simps) (simp add: m_def Let_def)
    next
      case more: 3
      have "m + 1 \<le> i \<and> i < hi" if "i < length kl" "snd (kl ! i) = ch" for i
        using 1(6) [OF that] ord [of i m] that more m by (auto simp: not_less_eq_eq [symmetric])
      moreover have "ch \<noteq> snd (kl ! m)" "\<not> ch < snd (kl ! m)" using more by auto
      ultimately show ?thesis using 1(2) [OF True refl refl] 1(3-5) more m True by (subst bsearch_loop.simps) (simp add: m_def Let_def)
    qed
  qed
qed

lemma v_key_val_key_of: "sorted (map snd kl) \<Longrightarrow> distinct (map snd kl) \<Longrightarrow>
   v_key_val kl c = (case key_of kl c of None \<Rightarrow> K_NOTUSED | Some v \<Rightarrow> v)"
  by (simp add: v_key_val_def bsearch_key_of)

text \<open>The special key a character is: the terminal's keys go before those of the list, the later before the earlier.\<close>

definition special_of :: "tty_keys \<Rightarrow> char \<Rightarrow> e_key_t" where
  "special_of tty c =
     (if tty_vwerase tty = Some c then K_VWERASE
      else if tty_vkill tty = Some c then K_VKILL
      else if tty_verase tty = Some c then K_VERASE
      else if tty_veof tty = Some c then K_CNTRLD
      else case key_of keylist_init c of None \<Rightarrow> K_NOTUSED | Some v \<Rightarrow> v)"

lemma special_of_answered:
  "(case answered (tty_vwerase tty) K_VWERASE (answered (tty_vkill tty) K_VKILL (answered (tty_verase tty) K_VERASE
      (answered (tty_veof tty) K_CNTRLD (key_of keylist_init)))) c of None \<Rightarrow> K_NOTUSED | Some v \<Rightarrow> v) = special_of tty c"
  by (auto simp: special_of_def answered_def split: option.splits)

lemma keylist_init_room: "key_room 4 keylist_init"
proof -
  have "distinct (map snd keylist_init)" by code_simp
  then show ?thesis by (simp add: key_room_def ADDITIONAL_CHARACTERS_def)
qed

lemma find_noprint_None: "find_noprint pr = None \<longleftrightarrow> (\<forall>c. c \<noteq> CHR 0x00 \<longrightarrow> pr c)"
proof -
  have "find_noprint pr = None \<longleftrightarrow> (\<forall>n \<in> {1..<256 :: nat}. pr (char_of n))"
    by (auto simp: find_noprint_def find_None_iff)
  also have "\<dots> \<longleftrightarrow> (\<forall>c. c \<noteq> CHR 0x00 \<longrightarrow> pr c)"
  proof safe
    fix c assume *: "\<forall>n \<in> {1..<256 :: nat}. pr (char_of n)" and "c \<noteq> CHR 0x00"
    then have "code c \<noteq> 0" using of_char_eq_iff [where ?'a = nat, of c "CHR 0x00"] by simp
    then show "pr c" using * code_less [of c] by (metis atLeastLessThan_iff char_of_char less_one not_le)
  next
    fix n assume *: "\<forall>c. c \<noteq> CHR 0x00 \<longrightarrow> pr c" and n: "n \<in> {1..<256 :: nat}"
    then have "code (char_of n) \<noteq> code (CHR 0x00)" by simp
    then show "pr (char_of n)" using * by metis
  qed
  finally show ?thesis .
qed

text \<open>
  Start-up of the keys, with a cleared fast table: it does not run out of room in the list whatever keys
  the terminal has, fails exactly when every character is printable, and afterwards the fast
  table gives every character it covers its special meaning, as the binary search in the list does.
\<close>

theorem key_init_specials:
  "\<exists>np cn' kl sk. v_key_init ko tty cn (\<lambda>_. K_NOTUSED) = Some (np, cn', kl, sk) \<and>
     (np = None \<longleftrightarrow> (\<forall>c. c \<noteq> CHR 0x00 \<longrightarrow> lc_print ko c)) \<and>
     (\<forall>c. v_key_val kl c = special_of tty c) \<and>
     (\<forall>c. code c \<le> MAX_FAST_KEY \<longrightarrow> sk c = special_of tty c)"
proof -
  have room: "key_room (Suc (Suc (Suc (Suc 0)))) keylist_init" using keylist_init_room by (simp add: numeral_eq_Suc)
  obtain k1 where k1: "v_keyval K_CNTRLD (tty_veof tty) keylist_init = Some k1" "key_room (Suc (Suc (Suc 0))) k1"
    "key_of k1 = answered (tty_veof tty) K_CNTRLD (key_of keylist_init)" by (rule v_keyval_ok [OF room])
  obtain k2 where k2: "v_keyval K_VERASE (tty_verase tty) k1 = Some k2" "key_room (Suc (Suc 0)) k2"
    "key_of k2 = answered (tty_verase tty) K_VERASE (key_of k1)" by (rule v_keyval_ok [OF k1(2)])
  obtain k3 where k3: "v_keyval K_VKILL (tty_vkill tty) k2 = Some k3" "key_room (Suc 0) k3"
    "key_of k3 = answered (tty_vkill tty) K_VKILL (key_of k2)" by (rule v_keyval_ok [OF k2(2)])
  obtain k4 where k4: "v_keyval K_VWERASE (tty_vwerase tty) k3 = Some k4" "key_room 0 k4"
    "key_of k4 = answered (tty_vwerase tty) K_VWERASE (key_of k3)" by (rule v_keyval_ok [OF k3(2)])
  define kl where "kl = sort_key snd k4"
  have d: "distinct (map snd k4)" using k4(2) by (simp add: key_room_def)
  then have kl: "sorted (map snd kl)" "distinct (map snd kl)" "key_of kl = key_of k4"
    by (simp_all add: kl_def key_of_sort distinct_map)
  have of: "(case key_of kl c of None \<Rightarrow> K_NOTUSED | Some v \<Rightarrow> v) = special_of tty c" for c
    by (simp add: kl(3) k4(3) k3(3) k2(3) k1(3) special_of_answered)
  show ?thesis
    using k1(1) k2(1) k3(1) k4(1) kl find_noprint_None [of "lc_print ko"] of v_key_val_key_of [OF kl(1,2)] special_fill_key_of [OF kl(2), of _ "\<lambda>_. K_NOTUSED"]
    by (auto simp: v_key_init_def Let_def kl_def [symmetric])
qed


theorem key_init_specials_witness:
  "\<exists>np cn' kl sk.
     v_key_init \<lparr>o_print = None, o_noprint = None, o_altnotation = False, o_octal = False, lc_print = \<lambda>c. 32 \<le> code c, lc_cntrl = \<lambda>c. code c < 32\<rparr>
       \<lparr>tty_veof = Some (CHR 0x04), tty_verase = Some (CHR 0x7F), tty_vkill = Some (CHR 0x15), tty_vwerase = None\<rparr>
       cnames_new (\<lambda>_. K_NOTUSED) = Some (np, cn', kl, sk) \<and>
     sk (CHR 0x7F) = K_VERASE \<and> sk (CHR 0x08) = K_VERASE \<and> sk (CHR 0x15) = K_VKILL \<and>
     sk (CHR ''a'') = K_NOTUSED \<and> v_key_val kl (CHR 0x1B) = K_ESCAPE"
proof -
  let ?tty = "\<lparr>tty_veof = Some (CHR 0x04), tty_verase = Some (CHR 0x7F), tty_vkill = Some (CHR 0x15), tty_vwerase = None\<rparr>"
  have "special_of ?tty (CHR 0x7F) = K_VERASE" "special_of ?tty (CHR 0x08) = K_VERASE" "special_of ?tty (CHR 0x15) = K_VKILL"
    "special_of ?tty (CHR ''a'') = K_NOTUSED" "special_of ?tty (CHR 0x1B) = K_ESCAPE"
    by (simp_all add: special_of_def keylist_init_def)
  then show ?thesis
    using key_init_specials [where ko = "\<lparr>o_print = None, o_noprint = None, o_altnotation = False, o_octal = False, lc_print = \<lambda>c. 32 \<le> code c, lc_cntrl = \<lambda>c. code c < 32\<rparr>"
        and tty = ?tty and cn = cnames_new]
    by (auto simp: MAX_FAST_KEY_def)
qed

end
