(* ===== verification/Columns.thy ===== *)
theory Columns
  imports LogWrite KeyNames
begin

section \<open>Screen columns (vi/vs_relative.c)\<close>

text \<open>
  How many columns a line takes, in which column a character is shown and which character is shown in
  a column. A tab ends at the next tab stop, every other character takes the columns of its name.
  The lemmas: the width is the sum of the widths where no screen line is folded, the two directions are
  inverse to each other on the first screen line, and how many screen lines a line fills.
\<close>

subsection \<open>Operations\<close>

text \<open>
  The screen: its width, the options that matter, the names of the characters, the cached number of screen
  lines (for the line \<open>sp_ss_lno\<close>), and where the cursor is shown.
\<close>

record disp =
  d_cols :: nat
  d_tabstop :: nat
  d_list :: bool
  d_leftright :: bool
  d_number :: bool
  d_keys :: kopts
  d_cnames :: cnames
  d_ss_screens :: nat
  d_coff :: nat
  d_soff :: nat
  d_sc_col :: nat

definition O_NUMBER_LENGTH :: nat where "O_NUMBER_LENGTH = 7"

text \<open>A \<^verbatim>\<open>size_t\<close> difference.\<close>

definition size_sub :: "nat \<Rightarrow> nat \<Rightarrow> nat" where
  "size_sub a b = nat ((int a - int b) mod 2 ^ 64)"

definition vs_column :: "disp \<Rightarrow> nat" where
  "vs_column d =
     size_sub ((if d_leftright d then d_coff d else size_sub (d_soff d) 1 * d_cols d mod 2 ^ 64) + d_sc_col d)
       (if d_number d then O_NUMBER_LENGTH else 0)"

definition TAB_OFF :: "disp \<Rightarrow> nat \<Rightarrow> nat" where
  "TAB_OFF d c = d_tabstop d - c mod d_tabstop d"

definition CHLEN :: "disp \<Rightarrow> nat \<Rightarrow> char \<Rightarrow> nat" where
  "CHLEN d c ch = (if ch = CHR 0x09 \<and> \<not> d_list d then TAB_OFF d c else KEY_LEN (d_keys d) (d_cnames d) ch)"

text \<open>\<^verbatim>\<open>TAB_RESET\<close>, after \<open>chlen\<close> columns for \<open>ch\<close>: the pair of \<^verbatim>\<open>scno\<close> and \<^verbatim>\<open>curoff\<close>.\<close>

definition TAB_RESET :: "disp \<Rightarrow> char \<Rightarrow> nat \<Rightarrow> nat \<times> nat \<Rightarrow> nat \<times> nat" where
  "TAB_RESET d ch chlen p =
     (let (scno, c) = p; curoff = c + chlen in
      if \<not> d_leftright d \<and> d_cols d \<le> curoff then
        if ch = CHR 0x09 then (scno - scno mod d_cols d, 0) else (scno, curoff - d_cols d)
      else (scno, curoff))"

definition col_step :: "disp \<Rightarrow> char \<Rightarrow> nat \<times> nat \<Rightarrow> nat \<times> nat" where
  "col_step d ch p = (let chlen = CHLEN d (snd p) ch in TAB_RESET d ch chlen (fst p + chlen, snd p))"

text \<open>The loops of \<^verbatim>\<open>vs_columns\<close>: \<^verbatim>\<open>scno\<close>, \<^verbatim>\<open>curoff\<close> and \<^verbatim>\<open>last\<close>.\<close>

fun col_loop :: "disp \<Rightarrow> bytes \<Rightarrow> nat \<times> nat \<Rightarrow> nat \<Rightarrow> (nat \<times> nat) \<times> nat" where
  "col_loop d [] p prev = (p, prev)"
| "col_loop d (ch # l) p prev = col_loop d l (col_step d ch p) (fst p)"

text \<open>
  \<^verbatim>\<open>vs_columns\<close>: the columns and the difference it stores. With the address of a character, the
  characters up to it are read, wherever the line ends; with a line and no such address the length is not
  known.
\<close>

definition vs_columns :: "disp \<Rightarrow> bytes option \<Rightarrow> nat \<Rightarrow> nat option \<Rightarrow> ed \<Rightarrow> (nat \<times> nat \<times> ed) option" where
  "vs_columns d lp lno cnop s =
     do {
       let scno = (if d_number d then O_NUMBER_LENGTH else 0);
       (l, s1) \<leftarrow> (case lp of
                   Some l \<Rightarrow> if cnop = None then None else Some (l, s)
                 | None \<Rightarrow> do { (_, l, s1) \<leftarrow> db_get lno False s; Some (l, s1) });
       if lp = None \<and> l = [] then Some (scno, 0, s1)
       else if d_cols d = 0 \<or> d_tabstop d = 0 then None
       else
         (case cnop of
            None \<Rightarrow>
              let (p, prev) = col_loop d l (scno, 0) 0;
                  scno1 = fst p + (if d_list d then KEY_LEN (d_keys d) (d_cnames d) (CHR ''$'') else 0)
              in Some (scno1, size_sub scno1 prev, s1)
          | Some cno \<Rightarrow>
              if length l \<le> cno then None
              else let (p, prev) = col_loop d (take (cno + 1) l) (scno, 0) 0 in Some (fst p, size_sub (fst p) prev, s1))
     }"

text \<open>\<^verbatim>\<open>vs_screens\<close>; the screen is returned with its cache.\<close>

definition vs_screens :: "disp \<Rightarrow> nat \<Rightarrow> nat option \<Rightarrow> ed \<Rightarrow> (nat \<times> disp \<times> ed) option" where
  "vs_screens d lno cnop s =
     (if d_leftright d then Some (1, d, s)
      else if cnop = None \<and> sp_ss_lno (cur s) = lno then Some (d_ss_screens d, d, s)
      else if cnop = Some 0 then Some (1, d, s)
      else do {
        (cols, _, s1) \<leftarrow> vs_columns d None lno cnop s;
        if d_cols d = 0 then None
        else
          let n = cols div d_cols d + (if cols mod d_cols d \<noteq> 0 then 1 else 0);
              screens = (if n = 0 then 1 else n)
          in if cnop = None then Some (screens, d\<lparr>d_ss_screens := screens\<rparr>, upd_cur (sp_ss_lno_update (\<lambda>_. lno)) s1)
             else Some (screens, d, s1)
      })"

text \<open>
  The first loop of \<^verbatim>\<open>vs_colpos\<close> discards \<open>off\<close> screen lines: the column, the characters left
  and the last one read, or nothing when the line ends. \<open>discard_row\<close> is its inner loop.
\<close>

fun discard_row :: "disp \<Rightarrow> nat \<Rightarrow> char \<Rightarrow> bytes \<Rightarrow> nat \<times> char \<times> bytes" where
  "discard_row d scno ch [] = (scno, ch, [])"
| "discard_row d scno ch (c # l) =
     (if scno < d_cols d then discard_row d (scno + CHLEN d scno c) c l else (scno, ch, c # l))"

fun discard_rows :: "disp \<Rightarrow> nat \<Rightarrow> nat \<Rightarrow> char \<Rightarrow> bytes \<Rightarrow> (nat \<times> bytes) option" where
  "discard_rows d 0 scno ch l = Some (scno, l)"
| "discard_rows d (Suc off) scno ch l =
     (let (scno1, ch1, l1) = discard_row d scno ch l in
      if l1 = [] then None
      else discard_rows d off (if d_leftright d \<and> ch1 = CHR 0x09 then 0 else scno1 - d_cols d) ch1 l1)"

text \<open>The second loop, at the offset \<open>i\<close> of a line of \<open>llen\<close> characters.\<close>

fun colpos_loop :: "disp \<Rightarrow> nat \<Rightarrow> nat \<Rightarrow> nat \<times> nat \<Rightarrow> nat \<Rightarrow> bytes \<Rightarrow> nat" where
  "colpos_loop d llen cno p i [] = llen - 1"
| "colpos_loop d llen cno p i (ch # l) =
     (let chlen = CHLEN d (snd p) ch; scno = fst p + chlen; off = i + 1 in
      if cno \<le> scno then (if scno = cno then (if off < llen - 1 then off else llen - 1) else off - 1)
      else colpos_loop d llen cno (TAB_RESET d ch chlen (scno, snd p)) off l)"

definition vs_colpos :: "disp \<Rightarrow> nat \<Rightarrow> nat \<Rightarrow> ed \<Rightarrow> (nat \<times> ed) option" where
  "vs_colpos d lno cno s =
     do {
       (_, l, s1) \<leftarrow> db_get lno False s;
       if l = [] then Some (0, s1)
       else if d_cols d = 0 \<or> d_tabstop d = 0 then None
       else
         (case discard_rows d (cno div d_cols d) 0 (CHR 0x00) l of
            None \<Rightarrow> Some (length l - 1, s1)
          | Some (scno, l1) \<Rightarrow>
              Some (colpos_loop d (length l) (cno mod d_cols d) (scno, scno) (length l - length l1) l1, s1))
     }"

text \<open>\<^verbatim>\<open>vs_rcm\<close>; \<open>rcm\<close> is the most attractive column.\<close>

definition vs_rcm :: "disp \<Rightarrow> nat \<Rightarrow> nat \<Rightarrow> bool \<Rightarrow> ed \<Rightarrow> (nat \<times> ed) option" where
  "vs_rcm d rcm lno islast s =
     (if islast then
        do { (e, l, s1) \<leftarrow> db_get lno False s; Some (if e \<or> l = [] then 0 else length l - 1, s1) }
      else if rcm = 0 then Some (0, s)
      else vs_colpos d lno rcm s)"

subsection \<open>Unfolded columns\<close>

text \<open>A screen that can show lines: it has columns, tab stops, and no character is invisible.\<close>

definition disp_ok :: "disp \<Rightarrow> bool" where
  "disp_ok d \<longleftrightarrow> 0 < d_cols d \<and> 0 < d_tabstop d \<and> (\<forall>c. 0 < KEY_LEN (d_keys d) (d_cnames d) c)"

text \<open>The column at which what follows \<open>l\<close> is shown, if screen lines had no end.\<close>

definition col_at :: "disp \<Rightarrow> bytes \<Rightarrow> nat" where
  "col_at d l = foldl (\<lambda>c ch. c + CHLEN d c ch) 0 l"

definition number_cols :: "disp \<Rightarrow> nat" where
  "number_cols d = (if d_number d then O_NUMBER_LENGTH else 0)"

lemma col_at_Nil [simp]: "col_at d [] = 0"
  by (simp add: col_at_def)

lemma col_at_snoc [simp]: "col_at d (l @ [ch]) = col_at d l + CHLEN d (col_at d l) ch"
  by (simp add: col_at_def)

lemma CHLEN_pos: "disp_ok d \<Longrightarrow> 0 < CHLEN d c ch"
  by (simp add: CHLEN_def TAB_OFF_def disp_ok_def)

lemma col_at_append_mono: "col_at d l \<le> col_at d (l @ l')"
  by (induction l' rule: rev_induct) (auto simp: append_assoc [symmetric] simp del: append_assoc)

lemma col_at_append_less: "disp_ok d \<Longrightarrow> l' \<noteq> [] \<Longrightarrow> col_at d l < col_at d (l @ l')"
proof (induction l' rule: rev_induct)
  case (snoc c l')
  then show ?case using CHLEN_pos [of d "col_at d (l @ l')" c]
    by (cases "l' = []") (auto simp: append_assoc [symmetric] simp del: append_assoc)
qed simp

lemma col_at_take_mono: "i \<le> j \<Longrightarrow> col_at d (take i l) \<le> col_at d (take j l)"
  using col_at_append_mono [of d "take i l" "drop i (take j l)"]
  by (metis append_take_drop_id min.absorb1 take_take)

lemma col_step_flat:
  "d_leftright d \<or> c + CHLEN d c ch < d_cols d \<Longrightarrow> col_step d ch (n + c, c) = (n + (c + CHLEN d c ch), c + CHLEN d c ch)"
  by (auto simp: col_step_def TAB_RESET_def Let_def)

lemma col_loop_flat:
  assumes "d_leftright d \<or> col_at d (l0 @ l) < d_cols d"
  shows "fst (col_loop d l (n + col_at d l0, col_at d l0) k) = (n + col_at d (l0 @ l), col_at d (l0 @ l))"
  using assms
proof (induction l arbitrary: l0 k)
  case (Cons ch l)
  have "d_leftright d \<or> col_at d (l0 @ [ch]) < d_cols d"
    using Cons.prems col_at_append_mono [of d "l0 @ [ch]" l] by auto
  then have "col_step d ch (n + col_at d l0, col_at d l0) = (n + col_at d (l0 @ [ch]), col_at d (l0 @ [ch]))"
    by (simp add: col_step_flat)
  then show ?case using Cons.IH [of "l0 @ [ch]"] Cons.prems by simp
qed simp


text \<open>A line of the file, as the functions above read it.\<close>

definition has_line :: "ed \<Rightarrow> nat \<Rightarrow> bytes \<Rightarrow> bool" where
  "has_line s lno l \<longleftrightarrow> ready s \<and> \<not> sp_tinput (cur s) \<and> 0 < lno \<and> lno \<le> length (lines s) \<and> lines s ! (lno - 1) = l"

lemma has_line_get:
  assumes "has_line s lno l"
  obtains s' where "db_get lno False s = Some (False, l, s')" "ready s'" "reads s s'"
  using db_get_line [of s lno False] assms that by (auto simp: has_line_def)

text \<open>What the two forms of \<^verbatim>\<open>vs_columns\<close> compute from the loop.\<close>

lemma columns_total:
  assumes "has_line s lno l" "disp_ok d" "l \<noteq> []"
  shows "\<exists>diff s'. vs_columns d None lno None s =
      Some (fst (fst (col_loop d l (number_cols d, 0) 0)) + (if d_list d then KEY_LEN (d_keys d) (d_cnames d) (CHR ''$'') else 0), diff, s') \<and> reads s s'"
proof -
  obtain s' where "db_get lno False s = Some (False, l, s')" "reads s s'" by (rule has_line_get [OF assms(1)])
  then show ?thesis using assms(2,3)
    by (auto simp: vs_columns_def number_cols_def [symmetric] disp_ok_def Let_def split: prod.splits)
qed

lemma columns_upto:
  assumes "has_line s lno l" "disp_ok d" "k < length l"
  shows "\<exists>diff s'. vs_columns d None lno (Some k) s =
      Some (fst (fst (col_loop d (take (k + 1) l) (number_cols d, 0) 0)), diff, s') \<and> reads s s'"
proof -
  obtain s' where "db_get lno False s = Some (False, l, s')" "reads s s'" by (rule has_line_get [OF assms(1)])
  then show ?thesis using assms(2,3)
    by (auto simp: vs_columns_def number_cols_def [symmetric] disp_ok_def Let_def split: prod.splits)
qed

text \<open>A screen where every printable character takes one column.\<close>

definition plain_keys :: kopts where
  "plain_keys = \<lparr>o_print = None, o_noprint = None, o_altnotation = False, o_octal = False, lc_print = \<lambda>c. 32 \<le> code c, lc_cntrl = \<lambda>c. code c < 32\<rparr>"

definition plain_disp :: "nat \<Rightarrow> nat \<Rightarrow> disp" where
  "plain_disp cols ts = \<lparr>d_cols = cols, d_tabstop = ts, d_list = False, d_leftright = False, d_number = False, d_keys = plain_keys,
     d_cnames = v_key_ilookup plain_keys cnames_new, d_ss_screens = 0, d_coff = 0, d_soff = 1, d_sc_col = 0\<rparr>"

lemma plain_disp_simps:
  "d_cols (plain_disp cols ts) = cols" "d_tabstop (plain_disp cols ts) = ts" "\<not> d_list (plain_disp cols ts)"
  "\<not> d_leftright (plain_disp cols ts)" "\<not> d_number (plain_disp cols ts)"
  "32 \<le> code c \<Longrightarrow> KEY_LEN (d_keys (plain_disp cols ts)) (d_cnames (plain_disp cols ts)) c = 1"
  by (simp_all add: plain_disp_def key_len_name) (simp add: plain_keys_def v_key_name_def)

lemma plain_disp_ok: "0 < cols \<Longrightarrow> 0 < ts \<Longrightarrow> disp_ok (plain_disp cols ts)"
  using v_key_name_len [of plain_keys] by (auto simp: disp_ok_def plain_disp_def key_len_name Suc_le_eq)

lemma has_line_opened: "0 < n \<Longrightarrow> n \<le> length ls \<Longrightarrow> has_line (opened ls) n (ls ! (n - 1))"
  by (simp add: has_line_def)

text \<open>
  The width of a line. If the screen is not folded, or the line is shorter than a screen line,
  \<^verbatim>\<open>vs_columns\<close> is the sum of the widths of the characters, every tab reaching to the next tab stop, with the
  line number before it and the list option's dollar sign after it; up to a given character it is the column
  in which that character ends. The text is only read.
\<close>

theorem columns_flat:
  assumes "has_line s lno l" "disp_ok d" "d_leftright d \<or> col_at d l < d_cols d" "k < length l"
  shows "(\<exists>diff s'. vs_columns d None lno None s =
      Some (number_cols d + col_at d l + (if d_list d then KEY_LEN (d_keys d) (d_cnames d) (CHR ''$'') else 0), diff, s') \<and> reads s s') \<and>
    (\<exists>diff s'. vs_columns d None lno (Some k) s = Some (number_cols d + col_at d (take (k + 1) l), diff, s') \<and> reads s s')"
proof -
  have "fst (fst (col_loop d l' (number_cols d, 0) 0)) = number_cols d + col_at d l'"
    if "d_leftright d \<or> col_at d l' < d_cols d" for l'
    using col_loop_flat [of d "[]" l' "number_cols d" 0] that by simp
  moreover have "d_leftright d \<or> col_at d (take (k + 1) l) < d_cols d"
    using assms(3,4) col_at_take_mono [of "k + 1" "length l" d l] by auto
  ultimately show ?thesis using columns_total [OF assms(1,2)] columns_upto [OF assms(1,2)] assms(3,4) by (metis length_greater_0_conv gr_implies_not0 not_gr_zero)
qed

theorem columns_flat_witness:
  "\<exists>diff s'. vs_columns (plain_disp 20 8) None 1 (Some 2) (opened [[CHR ''a'', CHR 0x09, CHR ''b'']]) = Some (9, diff, s')"
proof -
  let ?l = "[CHR ''a'', CHR 0x09, CHR ''b'']"
  have "col_at (plain_disp 20 8) ?l = 9"
    by (simp add: col_at_def CHLEN_def TAB_OFF_def plain_disp_simps)
  then show ?thesis
    using columns_flat [of "opened [?l]" 1 ?l "plain_disp 20 8" 2] has_line_opened [of 1 "[?l]"] plain_disp_ok [of 20 8]
    by (auto simp: plain_disp_simps number_cols_def)
qed

subsection \<open>The character in a column\<close>

lemma colpos_loop_flat:
  assumes "disp_ok d" "cno < d_cols d" "llen = length (l0 @ l)" "col_at d l0 \<le> cno" "l \<noteq> []"
    and k: "length l0 \<le> k" "k < llen" "col_at d (take k (l0 @ l)) \<le> cno"
      "k = llen - 1 \<or> cno < col_at d (take (k + 1) (l0 @ l))"
  shows "colpos_loop d llen cno (col_at d l0, col_at d l0) (length l0) l = k"
  using assms(3-)
proof (induction l arbitrary: l0)
  case (Cons ch l)
  let ?w = "CHLEN d (col_at d l0) ch"
  have up: "col_at d (take i (l0 @ ch # l)) \<ge> col_at d (l0 @ [ch])" if "length l0 < i" for i
    using col_at_take_mono [of "length l0 + 1" i d "l0 @ ch # l"] that by simp
  consider "cno < col_at d l0 + ?w" | "cno = col_at d l0 + ?w" | "col_at d l0 + ?w < cno" by linarith
  then show ?case
  proof cases
    case 1
    then have "k = length l0" using up [of k] Cons.prems by (cases "k = length l0") auto
    with 1 show ?thesis by simp
  next
    case eq: 2
    have "k = (if length l0 + 1 < llen - 1 then length l0 + 1 else llen - 1)"
    proof -
      have "k = length l0 + 1" if "l \<noteq> []"
      proof (rule ccontr)
        assume "k \<noteq> length l0 + 1"
        moreover have "k \<noteq> length l0" using Cons.prems eq that by auto
        ultimately have "length l0 + 1 < k" using Cons.prems by simp
        with that obtain l1 where "take k (l0 @ ch # l) = (l0 @ [ch]) @ l1" "l1 \<noteq> []"
          using Cons.prems by (cases "k - length l0") (auto simp: take_Cons' split: if_splits)
        with col_at_append_less [OF assms(1) this(2), of "l0 @ [ch]"] Cons.prems eq show False by simp
      qed
      then show ?thesis using Cons.prems by (cases l) auto
    qed
    with eq show ?thesis by (simp add: Let_def)
  next
    case 3
    show ?thesis
    proof (cases "l = []")
      case True
      then show ?thesis using 3 Cons.prems by simp
    next
      case False
      have k: "length l0 < k"
        using 3 Cons.prems False by (cases "k = length l0") auto
      have "TAB_RESET d ch ?w (col_at d l0 + ?w, col_at d l0) = (col_at d (l0 @ [ch]), col_at d (l0 @ [ch]))"
        using 3 assms(2) by (simp add: TAB_RESET_def Let_def)
      then show ?thesis using 3 Cons.IH [of "l0 @ [ch]"] Cons.prems False k by (simp add: Let_def)
    qed
  qed
qed simp

text \<open>Once a line is folded, the columns counted stay beyond the first screen line.\<close>

lemma floor_ge: "0 < c \<Longrightarrow> c \<le> n \<Longrightarrow> c \<le> n - n mod (c::nat)"
  by (metis div_greater_zero_iff le_add_diff_inverse2 minus_mod_eq_mult_div mod_less_eq_dividend mult_le_mono2 nat_mult_1_right Suc_leI One_nat_def)

lemma col_step_ge: "0 < d_cols d \<Longrightarrow> d_cols d \<le> fst p + CHLEN d (snd p) ch \<Longrightarrow> d_cols d \<le> fst (col_step d ch p)"
  using floor_ge [of "d_cols d" "fst p + CHLEN d (snd p) ch"] by (auto simp: col_step_def TAB_RESET_def Let_def)

lemma col_loop_append: "col_loop d (l @ l') p k = (case col_loop d l p k of (p1, k1) \<Rightarrow> col_loop d l' p1 k1)"
  by (induction l arbitrary: p k) auto

lemma col_loop_folded:
  assumes "disp_ok d" "\<not> d_leftright d" "d_cols d \<le> col_at d l"
  shows "d_cols d \<le> fst (fst (col_loop d l (n, 0) k))"
  using assms(3)
proof (induction l rule: rev_induct)
  case Nil
  then show ?case using assms(1) by (simp add: disp_ok_def)
next
  case (snoc c l)
  have pos: "0 < d_cols d" using assms(1) by (simp add: disp_ok_def)
  obtain p k1 where p: "col_loop d l (n, 0) k = (p, k1)" by fastforce
  have "d_cols d \<le> fst p + CHLEN d (snd p) c"
  proof (cases "d_cols d \<le> col_at d l")
    case True
    then show ?thesis using snoc.IH p by simp
  next
    case False
    then have "p = (n + col_at d l, col_at d l)" using col_loop_flat [of d "[]" l n k] p by simp
    then show ?thesis using snoc.prems by simp
  qed
  then show ?case using col_step_ge [OF pos] p by (simp add: col_loop_append)
qed

text \<open>The columns \<^verbatim>\<open>vs_columns\<close> counts up to the end of a character, while they are on the first screen line.\<close>

lemma columns_first:
  assumes "has_line s lno l" "disp_ok d" "k < length l" "vs_columns d None lno (Some k) s = Some (c, x, s1)"
  shows "if d_leftright d \<or> col_at d (take (k + 1) l) < d_cols d then c = number_cols d + col_at d (take (k + 1) l)
    else d_cols d \<le> c"
  using columns_upto [OF assms(1-3)] assms(4) col_loop_folded [OF assms(2), of "take (k + 1) l" "number_cols d" 0]
    col_loop_flat [of d "[]" "take (k + 1) l" "number_cols d" 0] by auto

text \<open>
  C37: \<^verbatim>\<open>vs_colpos\<close> inverts \<^verbatim>\<open>vs_columns\<close> on the first screen line: for a column of the
  text there it is the character \<open>k\<close> such that the columns \<^verbatim>\<open>vs_columns\<close> counts, past the line number, end
  at or before that column for the character before \<open>k\<close> and behind it for \<open>k\<close>, and the last character for a column beyond
  the end of the text. The text is only read.
\<close>

theorem colpos_inverts:
  assumes "has_line s lno l" "disp_ok d" "number_cols d + cno < d_cols d" "k < length l"
    and "k = 0 \<or> vs_columns d None lno (Some (k - 1)) s = Some (c0, x0, s0) \<and> c0 \<le> number_cols d + cno"
    and "k = length l - 1 \<or> vs_columns d None lno (Some k) s = Some (c1, x1, s1) \<and> number_cols d + cno < c1"
  shows "\<exists>s'. vs_colpos d lno cno s = Some (k, s') \<and> reads s s'"
proof -
  obtain s' where s': "db_get lno False s = Some (False, l, s')" "reads s s'" by (rule has_line_get [OF assms(1)])
  have ok: "d_cols d \<noteq> 0" "d_tabstop d \<noteq> 0" "cno < d_cols d" using assms(2,3) by (auto simp: disp_ok_def)
  have "col_at d (take k l) \<le> cno"
  proof (cases k)
    case (Suc j)
    then show ?thesis using assms(3-5) columns_first [OF assms(1,2), of j c0 x0 s0] by (auto split: if_splits)
  qed simp
  moreover have "k = length l - 1 \<or> cno < col_at d (take (k + 1) l)"
    using assms(4,6) columns_first [OF assms(1,2), of k c1 x1 s1] ok(3) by (auto split: if_splits)
  moreover have "l \<noteq> []" using assms(4) by auto
  ultimately have "colpos_loop d (length l) cno (0, 0) 0 l = k"
    using colpos_loop_flat [OF assms(2) ok(3), of "length l" "[]" l k] assms(4) by simp
  then show ?thesis using s' ok \<open>l \<noteq> []\<close> by (simp add: vs_colpos_def)
qed

theorem colpos_inverts_witness:
  "\<exists>s'. vs_colpos (plain_disp 20 8) 1 8 (opened [[CHR ''a'', CHR 0x09, CHR ''b'', CHR ''c'']]) = Some (2, s')"
proof -
  let ?l = "[CHR ''a'', CHR 0x09, CHR ''b'', CHR ''c'']" and ?d = "plain_disp 20 8"
  define s where "s = opened [?l]"
  have h: "has_line s 1 ?l" using has_line_opened [of 1 "[?l]"] by (simp add: s_def)
  have d: "disp_ok ?d" by (rule plain_disp_ok) simp_all
  have c: "col_at ?d (take 2 ?l) = 8" "col_at ?d (take 3 ?l) = 9"
    by (simp_all add: col_at_def CHLEN_def TAB_OFF_def plain_disp_simps)
  obtain c0 x0 s0 where v0: "vs_columns ?d None 1 (Some 1) s = Some (c0, x0, s0)"
    using columns_upto [OF h d, of 1] by auto
  obtain c1 x1 s1 where v1: "vs_columns ?d None 1 (Some 2) s = Some (c1, x1, s1)"
    using columns_upto [OF h d, of 2] by auto
  have "c0 = 8" "c1 = 9"
    using columns_first [OF h d _ v0] columns_first [OF h d _ v1] c
    by (simp_all add: plain_disp_simps number_cols_def numeral_2_eq_2 numeral_3_eq_3)
  then show ?thesis
    using colpos_inverts [OF h d, of 8 2 c0 x0 s0 c1 x1 s1] v0 v1
    by (auto simp: plain_disp_simps number_cols_def s_def)
qed
text \<open>On longer lines, where every character takes one column, it is the character with that number.\<close>

lemma discard_row_ones:
  assumes "\<And>c ch. ch \<in> set l \<Longrightarrow> CHLEN d c ch = 1" "n \<le> d_cols d"
  shows "d_cols d - n < length l \<Longrightarrow> \<exists>ch'. discard_row d n ch l = (d_cols d, ch', drop (d_cols d - n) l)"
    and "length l \<le> d_cols d - n \<Longrightarrow> \<exists>ch'. discard_row d n ch l = (n + length l, ch', [])"
  using assms
proof (induction l arbitrary: n ch)
  case (Cons c l)
  { case 1
    then show ?case using Cons.IH(1) [of "Suc n" c] by (cases "n < d_cols d") (auto simp: Suc_diff_Suc [symmetric])
  next
    case 2
    then show ?case using Cons.IH(2) [of "Suc n" c] by (cases "n < d_cols d") auto }
qed auto

lemma discard_rows_ones:
  assumes "\<And>c ch. ch \<in> set l \<Longrightarrow> CHLEN d c ch = 1" "0 < d_cols d" "l \<noteq> []"
  shows "discard_rows d off 0 ch l = (if off * d_cols d < length l then Some (0, drop (off * d_cols d) l) else None)"
  using assms
proof (induction off arbitrary: ch l)
  case (Suc off)
  note ones = discard_row_ones [of l d 0 ch, OF Suc.prems(1), simplified]
  show ?case
  proof (cases "d_cols d < length l")
    case True
    then obtain ch' where "discard_row d 0 ch l = (d_cols d, ch', drop (d_cols d) l)" using ones(1) by blast
    moreover have "CHLEN d c ch = 1" if "ch \<in> set (drop (d_cols d) l)" for c ch
      using Suc.prems(1) that by (meson in_set_dropD)
    from Suc.IH [of "drop (d_cols d) l" ch', OF this Suc.prems(2)] True have "discard_rows d off 0 ch' (drop (d_cols d) l) =
        (if off * d_cols d < length l - d_cols d then Some (0, drop (off * d_cols d) (drop (d_cols d) l)) else None)"
      by simp
    ultimately show ?thesis using True by (auto simp: add.commute)
  next
    case False
    then obtain ch' where "discard_row d 0 ch l = (length l, ch', [])" using ones(2) by auto
    then show ?thesis using False by simp
  qed
qed simp

lemma colpos_loop_ones:
  assumes "\<And>c ch. ch \<in> set l \<Longrightarrow> CHLEN d c ch = 1" "llen = i + length l" "l \<noteq> []" "cno < d_cols d" "n \<le> cno"
  shows "colpos_loop d llen cno (n, n) i l = min (i + (cno - n)) (llen - 1)"
  using assms
proof (induction l arbitrary: n i)
  case (Cons c l)
  show ?case
  proof (cases "cno \<le> n + 1")
    case True
    then show ?thesis using Cons.prems by (cases l) (auto simp: Let_def)
  next
    case False
    then have "TAB_RESET d c 1 (n + 1, n) = (n + 1, n + 1)" using Cons.prems(4) by (simp add: TAB_RESET_def Let_def)
    with False show ?thesis using Cons.IH [of "Suc i" "n + 1"] Cons.prems
      by (cases "l = []") (auto simp: Let_def)
  qed
qed simp

text \<open>
  On a line whose characters take one column each, folded over any number of screen lines or not,
  \<^verbatim>\<open>vs_colpos\<close> gives the character with the number of the column, or the last one.
\<close>

theorem colpos_ones:
  assumes "has_line s lno l" "disp_ok d" "l \<noteq> []" "\<And>c ch. ch \<in> set l \<Longrightarrow> CHLEN d c ch = 1"
  shows "\<exists>s'. vs_colpos d lno cno s = Some (min cno (length l - 1), s') \<and> reads s s'"
proof -
  obtain s' where s': "db_get lno False s = Some (False, l, s')" "reads s s'" by (rule has_line_get [OF assms(1)])
  have ok: "0 < d_cols d" "0 < d_tabstop d" using assms(2) by (auto simp: disp_ok_def)
  obtain q r where qr: "cno div d_cols d = q" "cno mod d_cols d = r" "r < d_cols d" "cno = q * d_cols d + r"
    using ok(1) by (metis div_mult_mod_eq mod_less_divisor)
  have get: "discard_rows d q 0 (CHR 0x00) l = (if q * d_cols d < length l then Some (0, drop (q * d_cols d) l) else None)"
    using discard_rows_ones [OF assms(4) ok(1) assms(3)] .
  show ?thesis
  proof (cases "q * d_cols d < length l")
    case True
    have 1: "CHLEN d c ch = 1" if "ch \<in> set (drop (q * d_cols d) l)" for c ch using assms(4) that by (meson in_set_dropD)
    have 2: "length l = q * d_cols d + length (drop (q * d_cols d) l)" "drop (q * d_cols d) l \<noteq> []" using True by auto
    have "colpos_loop d (length l) r (0, 0) (q * d_cols d) (drop (q * d_cols d) l) = min (q * d_cols d + (r - 0)) (length l - 1)"
      by (rule colpos_loop_ones [OF 1 2 qr(3) le0])
    then have "colpos_loop d (length l) r (0, 0) (q * d_cols d) (drop (q * d_cols d) l) = min cno (length l - 1)"
      by (simp only: diff_zero qr(4) [symmetric])
    moreover have "length l - length (drop (q * d_cols d) l) = q * d_cols d" using True by simp
    ultimately have "vs_colpos d lno cno s = Some (min cno (length l - 1), s')"
      using ok assms(3) by (simp only: vs_colpos_def s'(1) qr(1,2) get True if_True bind.bind_lunit prod.case option.case if_False neq0_conv [symmetric]) simp
    then show ?thesis using s'(2) by blast
  next
    case False
    then have "min cno (length l - 1) = length l - 1" using qr(4) by simp
    with False show ?thesis using s' ok assms(3) get by (simp add: vs_colpos_def qr(1))
  qed
qed

text \<open>
  Where a tab crosses the end of a screen line the two directions part: \<^verbatim>\<open>vs_columns\<close> starts the
  character after it at the beginning of the next screen line, \<^verbatim>\<open>vs_colpos\<close> after the rest of the tab.
  And with line numbers the columns can even go back: the screen line is found without them.
\<close>

lemma folded_tab_columns:
  "col_step (plain_disp 20 8) (CHR 0x09) (16, 16) = (20, 0)"
  "discard_rows (plain_disp 20 8) 1 16 ch [CHR 0x09, CHR ''b''] = Some (4, [CHR ''b''])"
  "col_step (plain_disp 20 8) (CHR 0x09) (16 + O_NUMBER_LENGTH, 16) = (20, 0)"
  by (simp_all add: col_step_def TAB_RESET_def CHLEN_def TAB_OFF_def plain_disp_simps O_NUMBER_LENGTH_def)

subsection \<open>Screen lines\<close>

lemma col_loop_no_tabs:
  assumes "CHR 0x09 \<notin> set l"
  shows "fst (fst (col_loop d l p k)) = fst p + (\<Sum>ch\<leftarrow>l. KEY_LEN (d_keys d) (d_cnames d) ch)"
  using assms
proof (induction l arbitrary: p k)
  case (Cons ch l)
  then have "fst (col_step d ch p) = fst p + KEY_LEN (d_keys d) (d_cnames d) ch"
    by (auto simp: col_step_def TAB_RESET_def CHLEN_def Let_def split: prod.splits)
  with Cons show ?case by simp
qed simp

text \<open>
  A line without tabs on a folded screen takes as many screen lines as its columns need: the line
  number, the names of its characters and the list option's dollar sign fit, and would not fit on one
  screen line less. The number is then cached: asked again, it is the same, and nothing is read.
\<close>

theorem screens_fit:
  assumes "has_line s lno l" "disp_ok d" "\<not> d_leftright d" "CHR 0x09 \<notin> set l" "l \<noteq> []" "sp_ss_lno (cur s) \<noteq> lno"
    and "w = number_cols d + (\<Sum>ch\<leftarrow>l @ (if d_list d then ''$'' else []). KEY_LEN (d_keys d) (d_cnames d) ch)"
  shows "\<exists>n d' s'. vs_screens d lno None s = Some (n, d', s') \<and> w \<le> n * d_cols d \<and> (n - 1) * d_cols d < w \<and>
    vs_screens d' lno None s' = Some (n, d', s')"
proof -
  have w: "w = fst (fst (col_loop d l (number_cols d, 0) 0)) + (if d_list d then KEY_LEN (d_keys d) (d_cnames d) (CHR ''$'') else 0)"
    using col_loop_no_tabs [OF assms(4), of d "(number_cols d, 0)" 0] assms(7) by simp
  obtain diff s1 where s1: "vs_columns d None lno None s = Some (w, diff, s1)"
    using columns_total [OF assms(1,2,5)] unfolding w [symmetric] by blast
  have c: "0 < d_cols d" using assms(2) by (simp add: disp_ok_def)
  obtain ch l' where "l = ch # l'" using assms(5) by (cases l) auto
  then have "0 < w" using assms(2,7) by (auto simp: disp_ok_def)
  define n where "n = w div d_cols d + (if w mod d_cols d \<noteq> 0 then 1 else 0)"
  obtain q r where qr: "w div d_cols d = q" "w mod d_cols d = r" "r < d_cols d" "w = q * d_cols d + r"
    using c by (metis div_mult_mod_eq mod_less_divisor)
  have n: "w \<le> n * d_cols d" "(n - 1) * d_cols d < w" "n \<noteq> 0"
    using c qr(3) \<open>0 < w\<close> unfolding n_def qr(1,2) unfolding qr(4) by (cases q; auto)+
  have "vs_screens d lno None s = Some (n, d\<lparr>d_ss_screens := n\<rparr>, upd_cur (sp_ss_lno_update (\<lambda>_. lno)) s1)"
    using assms(3,6) s1 c n(3) by (simp add: vs_screens_def n_def Let_def)
  moreover have "vs_screens (d\<lparr>d_ss_screens := n\<rparr>) lno None (upd_cur (sp_ss_lno_update (\<lambda>_. lno)) s1) =
      Some (n, d\<lparr>d_ss_screens := n\<rparr>, upd_cur (sp_ss_lno_update (\<lambda>_. lno)) s1)"
    using assms(3) by (simp add: vs_screens_def)
  ultimately show ?thesis using n(1,2) by blast
qed

theorem screens_fit_witness:
  "\<exists>n d' s'. vs_screens (plain_disp 20 8) 1 None (opened [''abcdefghijklmnopqrstuvwxyz'']) = Some (n, d', s') \<and> n = 2"
proof -
  let ?l = "''abcdefghijklmnopqrstuvwxyz''"
  have w: "26 = number_cols (plain_disp 20 8) +
      (\<Sum>ch\<leftarrow>?l @ (if d_list (plain_disp 20 8) then ''$'' else []). KEY_LEN (d_keys (plain_disp 20 8)) (d_cnames (plain_disp 20 8)) ch)"
    by (simp add: number_cols_def plain_disp_simps)
  have "n = 2" if "26 \<le> n * 20" "(n - Suc 0) * 20 < (26 :: nat)" for n :: nat using that by presburger
  then show ?thesis
    using screens_fit [of "opened [?l]" 1 ?l "plain_disp 20 8", OF _ _ _ _ _ _ w] has_line_opened [of 1 "[?l]"] plain_disp_ok [of 20 8]
    by (auto simp: plain_disp_simps opened_screen_def)
qed

end
