(* ===== verification/LineMotions.thy ===== *)
theory LineMotions
  imports Columns Words
begin

section \<open>Motions in a line and by lines (vi/v_left.c, vi/v_right.c, vi/v_scroll.c)\<close>

text \<open>
  The motions whose target is a column of the line or another line, as commands and as the motion part of
  another command. Counts are \<^verbatim>\<open>unsigned long\<close>; where one goes through a line
  number (\<^verbatim>\<open>recno_t\<close>) only its low 32 bits are used. The lemmas: every motion that succeeds stays
  in the text, where each one goes, and what becomes of counts that do not fit.
\<close>

subsection \<open>Operations\<close>

text \<open>The conversion to \<^verbatim>\<open>recno_t\<close>.\<close>

definition to_recno :: "nat \<Rightarrow> nat" where
  "to_recno n = n mod 2 ^ 32"

type_synonym motion = "vicmd \<Rightarrow> ed \<Rightarrow> (bool \<times> vicmd \<times> ed) option"

text \<open>Statements the motions share: columns of the marks, and the end of \<^verbatim>\<open>v_first\<close> and \<^verbatim>\<open>v_ncol\<close>.\<close>

definition stop_cno :: "nat \<Rightarrow> vicmd \<Rightarrow> vicmd" where
  "stop_cno n vp = vp\<lparr>m_stop := (m_stop vp)\<lparr>m_cno := n\<rparr>\<rparr>"

definition start_dec :: "vicmd \<Rightarrow> vicmd" where
  "start_dec vp = vp\<lparr>m_start := (m_start vp)\<lparr>m_cno := size_sub (m_cno (m_start vp)) 1\<rparr>\<rparr>"

definition left_right :: "vicmd \<Rightarrow> vicmd" where
  "left_right vp =
     (if m_cno (m_start vp) < m_cno (m_stop vp) then
        if ISMOTION vp then (stop_cno (m_cno (m_stop vp) - 1) vp)\<lparr>m_final := m_start vp\<rparr>
        else vp\<lparr>m_final := m_stop vp\<rparr>
      else (if ISMOTION vp then start_dec vp else vp)\<lparr>m_final := m_stop vp\<rparr>)"

definition v_left :: motion where
  "v_left vp s =
     (if m_cno (m_start vp) = 0 then Some (True, vp, s)
      else
        let cnt = to_recno (vp_cnt vp);
            vp1 = stop_cno (m_cno (m_start vp) - cnt) vp
        in Some (False, (if ISMOTION vp then start_dec vp1 else vp1)\<lparr>m_final := m_stop vp1\<rparr>, s))"

definition v_down :: motion where
  "v_down vp s =
     do {
       let lno = to_recno (m_lno (m_start vp) + vp_cnt vp);
       (ex, s1) \<leftarrow> db_exist lno s;
       if \<not> ex then do { s2 \<leftarrow> v_eof s1; Some (True, vp, s2) }
       else
         let vp1 = vp\<lparr>m_stop := (m_stop vp)\<lparr>m_lno := lno\<rparr>\<rparr>
         in Some (False, vp1\<lparr>m_final := if ISMOTION vp then m_start vp1 else m_stop vp1\<rparr>, s1)
     }"

definition v_up :: motion where
  "v_up vp s =
     (let lno = to_recno (vp_cnt vp) in
      if m_lno (m_start vp) \<le> lno then Some (True, vp, s)
      else
        let vp1 = vp\<lparr>m_stop := (m_stop vp)\<lparr>m_lno := m_lno (m_start vp) - lno\<rparr>\<rparr>
        in Some (False, vp1\<lparr>m_final := m_stop vp1\<rparr>, s))"

text \<open>\<^verbatim>\<open>v_cfirst\<close>; \<^verbatim>\<open>ISCMD\<close> of the command it belongs to is false when there is none.\<close>

definition v_cfirst :: motion where
  "v_cfirst vp0 s =
     (let vp = (if ISMOTION vp0 then vp0\<lparr>vm_lmode := True\<rparr> else vp0) in
      if to_recno (vp_cnt vp) \<noteq> 1 then v_down (vp\<lparr>vp_count := ulong_dec (vp_count vp)\<rparr>) s
      else do {
        (e, c, s1) \<leftarrow> nonblank (m_lno (m_stop vp)) 0 s;
        let vp1 = stop_cno c vp;
        if e then Some (True, vp1, s1)
        else
          let fin = vp1\<lparr>m_final := if ISMOTION vp \<and> ISCMD vp CHR ''y'' then m_start vp1 else m_stop vp1\<rparr> in
          if m_lno (m_stop vp1) = 1 \<and> m_cno (m_stop vp1) = 0 \<and> ISCMD vp CHR ''d'' then
            do {
              (e, lno, s2) \<leftarrow> db_last s1;
              if e then Some (True, vp1, s2)
              else if lno = 0 then Some (True, vp1, s2)
              else Some (False, fin, s2)
            }
          else Some (False, fin, s1)
      })"

definition v_first :: motion where
  "v_first vp s =
     do {
       (e, c, s1) \<leftarrow> nonblank (m_lno (m_stop vp)) 0 s;
       let vp1 = stop_cno c vp;
       if e then Some (True, vp1, s1)
       else if ISMOTION vp \<and> m_cno (m_start vp1) = m_cno (m_stop vp1) then Some (True, vp1, s1)
       else Some (False, left_right vp1, s1)
     }"

definition v_ncol :: "disp \<Rightarrow> motion" where
  "v_ncol d vp s =
     (if vc_c1set vp \<and> 1 < vp_count vp then
        do {
          let vp1 = vp\<lparr>vp_count := vp_count vp - 1\<rparr>;
          (c, s1) \<leftarrow> vs_colpos d (m_lno (m_start vp)) (vp_count vp1) s;
          let vp2 = stop_cno c vp1;
          if ISMOTION vp \<and> c = m_cno (m_start vp) then Some (True, vp2, s1)
          else Some (False, left_right vp2, s1)
        }
      else if ISMOTION vp \<and> m_cno (m_start vp) = 0 then Some (True, vp, s)
      else Some (False, left_right (stop_cno 0 vp), s))"

definition v_zero :: motion where
  "v_zero vp s =
     (if ISMOTION vp \<and> m_cno (m_start vp) = 0 then Some (True, vp, s)
      else
        let vp1 = stop_cno 0 vp in
        Some (False, (if ISMOTION vp then start_dec vp1 else vp1)\<lparr>m_final := m_stop vp1\<rparr>, s))"

definition v_right :: motion where
  "v_right vp s =
     do {
       (e, l, isempty, s1) \<leftarrow> db_eget (m_lno (m_start vp)) s;
       if e \<or> l = [] then Some (True, vp, s1)
       else
         let vp1 = stop_cno ((m_cno (m_start vp) + vp_cnt vp) mod 2 ^ 64) vp in
         if m_cno (m_start vp) = length l - 1 \<and> \<not> ISMOTION vp then Some (True, vp1, s1)
         else if length l \<le> m_cno (m_stop vp1) then
           let vp2 = stop_cno (length l - 1) vp1 in
           Some (False, vp2\<lparr>m_final := if ISMOTION vp then m_start vp else m_stop vp2\<rparr>, s1)
         else if ISMOTION vp then
           Some (False, (stop_cno (size_sub (m_cno (m_stop vp1)) 1) vp1)\<lparr>m_final := m_start vp\<rparr>, s1)
         else Some (False, vp1\<lparr>m_final := m_stop vp1\<rparr>, s1)
     }"

text \<open>
  \<^verbatim>\<open>v_dollar\<close>, from the look at the line it ends in, and the part before it: a count moves down.
\<close>

definition dollar_end :: motion where
  "dollar_end vp s =
     do {
       (e, l, isempty, s1) \<leftarrow> db_eget (m_lno (m_stop vp)) s;
       if e \<and> \<not> isempty then Some (True, vp, s1)
       else if e \<or> l = [] then
         (if ISMOTION vp \<and> \<not> ISCMD vp CHR ''c'' then Some (True, vp, s1) else Some (False, vp, s1))
       else
         let vp1 = stop_cno (length l - 1) vp in
         Some (False, vp1\<lparr>m_final := if ISMOTION vp then m_start vp else m_stop vp1\<rparr>, s1)
     }"

definition v_dollar :: motion where
  "v_dollar vp s =
     (if vp_cnt vp \<noteq> 1 then
        do {
          (e, c, s1) \<leftarrow> nonblank (m_lno (m_start vp)) 0 s;
          let vp1 = stop_cno c vp;
          if e then Some (True, vp1, s1)
          else do {
            let vp2 = (if ISMOTION vp \<and> m_cno (m_start vp) \<le> c then vp1\<lparr>vm_lmode := True\<rparr> else vp1);
            (e, vp3, s2) \<leftarrow> v_down (vp2\<lparr>vp_count := ulong_dec (vp_count vp2)\<rparr>) s1;
            if e then Some (True, vp3, s2) else dollar_end vp3 s2
          }
        }
      else dollar_end vp s)"

definition goto_adjust :: "vicmd \<Rightarrow> vicmd" where
  "goto_adjust vp =
     (if \<not> ISMOTION vp then vp\<lparr>m_final := m_stop vp\<rparr>
      else
        let vp1 = vp\<lparr>m_final := m_stop vp, vm_rcm := VM_RCM_SETFNB\<rparr>; a = m_stop vp; b = m_start vp in
        if m_lno a < m_lno b \<or> m_lno a = m_lno b \<and> m_cno a < m_cno b then
          if ISCMD vp CHR ''y'' \<and> m_lno a = m_lno b then vp1\<lparr>m_final := b\<rparr> else vp1
        else vp1\<lparr>m_final := b\<rparr>)"

definition v_lgoto :: motion where
  "v_lgoto vp s =
     (if vc_c1set vp then
        do {
          (ex, s1) \<leftarrow> db_exist (to_recno (vp_count vp)) s;
          if \<not> ex then
            do {
              (e, nlines, s2) \<leftarrow> (if vp_count vp = 1 then db_last s1 else Some (False, 1, s1));
              if e then Some (True, vp, s2)
              else if nlines = 0 then Some (False, vp, s2)
              else do { s3 \<leftarrow> v_eof s2; Some (True, vp, s3) }
            }
          else Some (False, goto_adjust (vp\<lparr>m_stop := (m_stop vp)\<lparr>m_lno := to_recno (vp_count vp)\<rparr>\<rparr>), s1)
        }
      else
        do {
          (e, nlines, s1) \<leftarrow> db_last s;
          if e then Some (True, vp, s1)
          else Some (False, goto_adjust (vp\<lparr>m_stop := (m_stop vp)\<lparr>m_lno := if nlines \<noteq> 0 then nlines else 1\<rparr>\<rparr>), s1)
        })"


subsection \<open>Staying in the text\<close>

text \<open>A place in a text: a character of a line, or the first column. A motion starts where the cursor is, at such a place.\<close>

definition on_text :: "mark \<Rightarrow> bytes list \<Rightarrow> bool" where
  "on_text m ls \<longleftrightarrow> 0 < m_lno m \<and> m_lno m \<le> length ls \<and> (m_cno m = 0 \<or> m_cno m < length (ls ! (m_lno m - 1)))"

definition begins :: "vicmd \<Rightarrow> ed \<Rightarrow> bool" where
  "begins vp s \<longleftrightarrow> ready s \<and> \<not> sp_tinput (cur s) \<and> on_text (m_start vp) (lines s) \<and>
     m_stop vp = m_start vp \<and> m_final vp = m_start vp"

abbreviation start_line :: "vicmd \<Rightarrow> ed \<Rightarrow> bytes" where
  "start_line vp s \<equiv> lines s ! (m_lno (m_start vp) - 1)"

text \<open>The marks a motion leaves are in the text.\<close>

definition spans :: "vicmd \<Rightarrow> bytes list \<Rightarrow> bool" where
  "spans vp ls \<longleftrightarrow> on_text (m_start vp) ls \<and> on_text (m_stop vp) ls \<and> on_text (m_final vp) ls"

lemma spans_begin: "begins vp s \<Longrightarrow> spans vp (lines s)"
  by (simp add: begins_def spans_def)

lemma stop_cno_sel [simp]:
  "m_start (stop_cno n vp) = m_start vp" "m_stop (stop_cno n vp) = (m_stop vp)\<lparr>m_cno := n\<rparr>" "m_final (stop_cno n vp) = m_final vp"
  "ISMOTION (stop_cno n vp) = ISMOTION vp" "vp_cnt (stop_cno n vp) = vp_cnt vp" "ISCMD (stop_cno n vp) c = ISCMD vp c"
  by (simp_all add: stop_cno_def ISMOTION_def vp_cnt_def ISCMD_def)

lemma ISMOTION_count [simp]: "ISMOTION (vp\<lparr>vp_count := n\<rparr>) = ISMOTION vp"
  by (simp add: ISMOTION_def)

lemma size_dec: "0 < n \<Longrightarrow> n < 2 ^ 64 \<Longrightarrow> size_sub n 1 = n - 1"
  by (simp add: size_sub_def nat_mod_distrib of_nat_diff)

lemma size_dec_le: "0 < n \<Longrightarrow> size_sub n 1 < n"
proof -
  assume "0 < n"
  then have "size_sub n 1 = (n - 1) mod 2 ^ 64" by (simp add: size_sub_def nat_mod_distrib of_nat_diff [symmetric] nat_diff_distrib)
  then show ?thesis using \<open>0 < n\<close> by (metis One_nat_def Suc_pred le_imp_less_Suc mod_less_eq_dividend)
qed

lemma begins_eget:
  assumes "begins vp s"
  obtains s' where "db_eget (m_lno (m_start vp)) s = Some (False, start_line vp s, False, s')" "reads s s'" "ready s'"
proof -
  obtain s' where s': "db_eget (m_lno (m_start vp)) s = Some (False, start_line vp s, False, s')" "keeps s s'"
    using db_eget_base [of s "m_lno (m_start vp)"] assms by (auto simp: begins_def on_text_def ready_def)
  have "text_ok s" using assms by (simp add: begins_def ready_def)
  with keepsD(1,3) [OF s'(2)] have "ready s'" by (simp add: ready_def)
  then show thesis by (rule that [OF s'(1) keepsD(2) [OF s'(2)]])
qed

lemma begins_nonblank:
  assumes "begins vp s"
  obtains s' where "nonblank (m_lno (m_start vp)) 0 s =
    Some (False, if start_line vp s = [] then 0 else first_nonblank 0 (start_line vp s), s')" "reads s s'" "ready s'"
  using nonblank_ready [of s "m_lno (m_start vp)" 0] assms that by (auto simp: begins_def on_text_def split: if_splits)

lemma left_right_spans:
  assumes "on_text (m_start vp) ls" "m_lno (m_stop vp) = m_lno (m_start vp)" "m_cno (m_stop vp) = 0 \<or> m_cno (m_stop vp) < length (ls ! (m_lno (m_start vp) - 1))"
    and "ISMOTION vp \<Longrightarrow> m_cno (m_stop vp) \<noteq> m_cno (m_start vp)"
  shows "spans (left_right vp) ls"
  using assms size_dec_le [of "m_cno (m_start vp)"]
  by (auto simp: left_right_def spans_def on_text_def start_dec_def)

lemma spans_line:
  assumes "on_text (m_start vp) ls" "ls ! (m_lno (m_start vp) - 1) = l"
    and "m_lno (m_start vp') = m_lno (m_start vp)" "m_lno (m_stop vp') = m_lno (m_start vp)" "m_lno (m_final vp') = m_lno (m_start vp)"
    and "m_cno (m_start vp') = 0 \<or> m_cno (m_start vp') < length l" "m_cno (m_stop vp') = 0 \<or> m_cno (m_stop vp') < length l"
      "m_cno (m_final vp') = 0 \<or> m_cno (m_final vp') < length l"
  shows "spans vp' ls"
  using assms by (simp add: spans_def on_text_def)

lemma beginsD:
  assumes "begins vp s"
  shows "on_text (m_start vp) (lines s)" "m_stop vp = m_start vp" "m_final vp = m_start vp"
    "m_cno (m_start vp) = 0 \<or> m_cno (m_start vp) < length (start_line vp s)"
  using assms by (simp_all add: begins_def on_text_def)

lemma start_dec_sel [simp]:
  "m_start (start_dec vp) = (m_start vp)\<lparr>m_cno := size_sub (m_cno (m_start vp)) 1\<rparr>" "m_stop (start_dec vp) = m_stop vp"
  "m_final (start_dec vp) = m_final vp"
  by (simp_all add: start_dec_def)

lemma v_left_spans:
  assumes "begins vp s" "v_left vp s = Some (False, vp', s')"
  shows "spans vp' (lines s) \<and> reads s s'"
proof -
  note b = beginsD [OF assms(1)]
  have c: "0 < m_cno (m_start vp)" using assms(2) by (cases "m_cno (m_start vp) = 0") (simp_all add: v_left_def)
  let ?vp = "stop_cno (m_cno (m_start vp) - to_recno (vp_cnt vp)) vp"
  have r: "vp' = (if ISMOTION vp then start_dec ?vp else ?vp)\<lparr>m_final := m_stop ?vp\<rparr>" "s' = s"
    using assms(2) c by (simp_all add: v_left_def Let_def)
  have l: "m_cno (m_start vp) < length (start_line vp s)" "size_sub (m_cno (m_start vp)) 1 < length (start_line vp s)"
    using b(4) c size_dec_le [OF c] by linarith+
  have "spans vp' (lines s)"
    by (rule spans_line [OF b(1) refl]) (use l in \<open>simp_all add: r b(2) less_imp_diff_less\<close>)
  then show ?thesis by (simp add: r)
qed

lemma v_zero_spans:
  assumes "begins vp s" "v_zero vp s = Some (False, vp', s')"
  shows "spans vp' (lines s) \<and> reads s s'"
  using assms size_dec_le [of "m_cno (m_start vp)"]
  by (auto simp: v_zero_def begins_def spans_def on_text_def start_dec_def Let_def split: if_splits)

lemma v_first_spans:
  assumes "begins vp s" "v_first vp s = Some (False, vp', s')"
  shows "spans vp' (lines s) \<and> reads s s'"
proof -
  obtain s1 where s1: "nonblank (m_lno (m_start vp)) 0 s =
    Some (False, if start_line vp s = [] then 0 else first_nonblank 0 (start_line vp s), s1)" "reads s s1"
    by (rule begins_nonblank [OF assms(1)])
  let ?vp = "stop_cno (if start_line vp s = [] then 0 else first_nonblank 0 (start_line vp s)) vp"
  have "spans (left_right ?vp) (lines s)" if "ISMOTION vp \<Longrightarrow> m_cno (m_stop ?vp) \<noteq> m_cno (m_start vp)"
    using assms(1) that first_nonblank_bounds(2) [of 0 "start_line vp s"]
    by (intro left_right_spans) (auto simp: begins_def)
  with assms s1 show ?thesis by (auto simp: v_first_def begins_def Let_def split: if_splits)
qed

lemma colpos_loop_less: "i + length l = llen \<Longrightarrow> 0 < llen \<Longrightarrow> colpos_loop d llen cno p i l < llen"
  by (induction l arbitrary: p i) (auto simp: Let_def)

lemma discard_row_len: "discard_row d n ch l = (n', ch', l') \<Longrightarrow> length l' \<le> length l"
  by (induction d n ch l rule: discard_row.induct) (auto split: if_splits)

lemma discard_rows_len: "discard_rows d off n ch l = Some (n', l') \<Longrightarrow> length l' \<le> length l"
proof (induction d off n ch l rule: discard_rows.induct)
  case (2 d off n ch l)
  obtain a b c where r: "discard_row d n ch l = (a, b, c)" by (cases "discard_row d n ch l")
  then show ?case using 2 discard_row_len [OF r] by (fastforce split: if_splits)
qed simp

lemma colpos_less:
  assumes "has_line s lno l" "disp_ok d"
  obtains c s' where "vs_colpos d lno cno s = Some (c, s')" "c = 0 \<or> c < length l" "reads s s'"
proof -
  obtain s' where s': "db_get lno False s = Some (False, l, s')" "reads s s'" by (rule has_line_get [OF assms(1)])
  show ?thesis
  proof (cases "l = [] \<or> discard_rows d (cno div d_cols d) 0 (CHR 0x00) l = None")
    case True
    then show ?thesis using that [of "length l - 1" s'] s' assms(2) by (cases "l = []") (auto simp: vs_colpos_def disp_ok_def)
  next
    case False
    then obtain n l' where r: "discard_rows d (cno div d_cols d) 0 (CHR 0x00) l = Some (n, l')" by auto
    have "colpos_loop d (length l) (cno mod d_cols d) (n, n) (length l - length l') l' < length l"
      using discard_rows_len [OF r] False by (intro colpos_loop_less) auto
    then show ?thesis using that r s' assms(2) False by (auto simp: vs_colpos_def disp_ok_def)
  qed
qed

lemma v_ncol_spans:
  assumes "begins vp s" "disp_ok d" "v_ncol d vp s = Some (False, vp', s')"
  shows "spans vp' (lines s) \<and> reads s s'"
proof (cases "vc_c1set vp \<and> 1 < vp_count vp")
  case True
  have "has_line s (m_lno (m_start vp)) (start_line vp s)" using assms(1) by (simp add: begins_def on_text_def has_line_def)
  then obtain c s1 where c: "vs_colpos d (m_lno (m_start vp)) (vp_count vp - 1) s = Some (c, s1)"
    "c = 0 \<or> c < length (start_line vp s)" "reads s s1" by (rule colpos_less [OF _ assms(2)])
  let ?vp = "stop_cno c (vp\<lparr>vp_count := vp_count vp - 1\<rparr>)"
  have "spans (left_right ?vp) (lines s)" if "ISMOTION vp \<Longrightarrow> c \<noteq> m_cno (m_start vp)"
    using assms(1) c(2) that by (intro left_right_spans) (auto simp: begins_def ISMOTION_count)
  with assms c True show ?thesis by (auto simp: v_ncol_def Let_def split: if_splits)
next
  case False
  have "spans (left_right (stop_cno 0 vp)) (lines s)" if "ISMOTION vp \<Longrightarrow> 0 \<noteq> m_cno (m_start vp)"
    using assms(1) that by (intro left_right_spans) (auto simp: begins_def)
  with assms False show ?thesis by (auto simp: v_ncol_def Let_def split: if_splits)
qed

lemma v_right_spans:
  assumes "begins vp s" "m_cno (m_start vp) + vp_cnt vp < 2 ^ 64" "0 < vp_cnt vp" "v_right vp s = Some (False, vp', s')"
  shows "spans vp' (lines s) \<and> reads s s'"
proof -
  note b = beginsD [OF assms(1)]
  let ?l = "start_line vp s" and ?c = "m_cno (m_start vp) + vp_cnt vp"
  obtain s1 where g: "db_eget (m_lno (m_start vp)) s = Some (False, ?l, False, s1)" "reads s s1"
    by (rule begins_eget [OF assms(1)])
  have d: "size_sub ?c 1 = ?c - 1" using assms(2,3) by (intro size_dec) simp_all
  have v: "v_right vp s = (if ?l = [] then Some (True, vp, s1)
     else if m_cno (m_start vp) = length ?l - 1 \<and> \<not> ISMOTION vp then Some (True, stop_cno ?c vp, s1)
     else if length ?l \<le> ?c then Some (False, (stop_cno (length ?l - 1) (stop_cno ?c vp))
         \<lparr>m_final := if ISMOTION vp then m_start vp else m_stop (stop_cno (length ?l - 1) (stop_cno ?c vp))\<rparr>, s1)
     else if ISMOTION vp then Some (False, (stop_cno (?c - 1) (stop_cno ?c vp))\<lparr>m_final := m_start vp\<rparr>, s1)
     else Some (False, (stop_cno ?c vp)\<lparr>m_final := m_stop (stop_cno ?c vp)\<rparr>, s1))"
    unfolding v_right_def Let_def g(1) mod_less [OF assms(2)] by (simp add: d [unfolded One_nat_def])
  show ?thesis
  proof (intro conjI spans_line [OF b(1) refl])
    show "reads s s'" using assms(4) g(2) unfolding v by (simp split: if_splits)
  qed (use assms(4) b(4) in \<open>auto simp: v b(2) split: if_splits\<close>)
qed

lemma v_dollar_spans:
  assumes "begins vp s" "vp_cnt vp = 1" "v_dollar vp s = Some (False, vp', s')"
  shows "spans vp' (lines s) \<and> reads s s'"
proof -
  note b = beginsD [OF assms(1)]
  let ?l = "start_line vp s"
  obtain s1 where g: "db_eget (m_lno (m_start vp)) s = Some (False, ?l, False, s1)" "reads s s1"
    by (rule begins_eget [OF assms(1)])
  have v: "v_dollar vp s = (if ?l = [] then Some (ISMOTION vp \<and> \<not> ISCMD vp CHR ''c'', vp, s1)
    else Some (False, (stop_cno (length ?l - 1) vp)\<lparr>m_final := if ISMOTION vp then m_start vp else m_stop (stop_cno (length ?l - 1) vp)\<rparr>, s1))"
    unfolding v_dollar_def dollar_end_def b(2) g(1) by (simp add: assms(2) g(1) Let_def)
  show ?thesis
  proof (cases "?l = []")
    case True
    then show ?thesis using assms(3) g(2) spans_begin [OF assms(1)] by (simp add: v split: if_splits)
  next
    case False
    then have r: "vp' = (stop_cno (length ?l - 1) vp)\<lparr>m_final := if ISMOTION vp then m_start vp else m_stop (stop_cno (length ?l - 1) vp)\<rparr>" "s' = s1"
      using assms(3) by (simp_all add: v)
    have "spans vp' (lines s)" by (rule spans_line [OF b(1) refl]) (use b(4) False in \<open>simp_all add: r b(2)\<close>)
    then show ?thesis using g(2) by (simp add: r)
  qed
qed

text \<open>
  C36: Within the line, a motion that succeeds leaves all its marks in the text, the start and the end of the range
  as well as the final cursor, whether it is a command of its own or the motion of another command, and only reads the
  file. (The counts are those that do not run over the top of a \<^verbatim>\<open>size_t\<close>.)
\<close>

theorem motions_in_text:
  assumes "begins vp s" "disp_ok d" "0 < vp_cnt vp" "m_cno (m_start vp) + vp_cnt vp < 2 ^ 64"
    and "f \<in> {v_left, v_right, v_zero, v_first, v_ncol d} \<or> f = v_dollar \<and> vp_cnt vp = 1"
    and "f vp s = Some (False, vp', s')"
  shows "on_text (m_start vp') (lines s) \<and> on_text (m_stop vp') (lines s) \<and> on_text (m_final vp') (lines s) \<and> reads s s'"
  using assms(5,6) v_left_spans [OF assms(1)] v_right_spans [OF assms(1,4,3)] v_zero_spans [OF assms(1)] v_first_spans [OF assms(1)]
    v_ncol_spans [OF assms(1,2)] v_dollar_spans [OF assms(1)]
  unfolding spans_def by blast

lemma begins_opened: "on_text m ls \<Longrightarrow> begins (vi_start rkp n m) (opened ls)"
  by (simp add: begins_def vi_start_def)

theorem motions_in_text_witness:
  "\<exists>vp' s'. v_right (vi_start None (Some 2) \<lparr>m_lno = 1, m_cno = 1\<rparr>) (opened [''abcd'']) = Some (False, vp', s') \<and>
     on_text (m_final vp') [''abcd'']"
proof -
  define vp where "vp = vi_start None (Some 2) \<lparr>m_lno = 1, m_cno = 1\<rparr>"
  have b: "begins vp (opened [''abcd''])" unfolding vp_def by (rule begins_opened) (simp add: on_text_def)
  have vp: "m_start vp = \<lparr>m_lno = 1, m_cno = 1\<rparr>" "\<not> ISMOTION vp" "vp_cnt vp = 2"
    by (simp_all add: vp_def vi_start_def ISMOTION_def vp_cnt_def)
  obtain s1 where "db_eget (m_lno (m_start vp)) (opened [''abcd'']) = Some (False, start_line vp (opened [''abcd'']), False, s1)"
    by (rule begins_eget [OF b])
  then obtain vp' s' where "v_right vp (opened [''abcd'']) = Some (False, vp', s')"
    using vp by (auto simp: v_right_def Let_def)
  then show ?thesis
    using motions_in_text [OF b plain_disp_ok [of 20 8], where f = v_right] vp unfolding vp_def [symmetric] by auto
qed

text \<open>
  \<^verbatim>\<open>$\<close> with a count can leave the text: it first looks for the first non-blank of the line it
  starts on, and keeps that column when the line it ends on is empty. From a line indented by \<open>n\<close>, \<^verbatim>\<open>2$\<close> to an
  empty line puts the cursor in column \<open>n\<close> of the empty line.
\<close>

theorem dollar_leaves_text:
  assumes "begins vp s" "\<not> ISMOTION vp" "vc_c1set vp" "vp_count vp = 2" "m_lno (m_start vp) < length (lines s)"
    and "lines s ! m_lno (m_start vp) = []" "start_line vp s = replicate n (CHR '' '') @ ''x''" "m_lno (m_start vp) < 2 ^ 32 - 1"
  shows "\<exists>vp' s'. v_dollar vp s = Some (False, vp', s') \<and> m_final vp' = \<lparr>m_lno = m_lno (m_start vp) + 1, m_cno = n\<rparr>"
proof -
  obtain s1 where s1: "nonblank (m_lno (m_start vp)) 0 s = Some (False, n, s1)" "reads s s1" "ready s1"
    using begins_nonblank [OF assms(1)] assms(7) by (auto simp: first_nonblank_def is_blank_def takeWhile_tail Let_def)
  let ?n = "m_lno (m_start vp) + 1"
  have t1: "\<not> sp_tinput (cur s1)" "lines s1 = lines s" using assms(1) reads_fields [OF s1(2)] by (auto simp: begins_def)
  obtain s2 where s2: "db_exist ?n s1 = Some (True, s2)" "keeps s1 s2"
    using db_exist_base [of s1 ?n] s1(3) t1 assms(5) by (auto simp: ready_def)
  have r2: "ready s2" "\<not> sp_tinput (cur s2)" "lines s2 = lines s"
    using keepsD(1-3) [OF s2(2)] s1(3) t1 reads_fields [of s1 s2] by (auto simp: ready_def)
  obtain s3 where s3: "db_eget ?n s2 = Some (False, [], False, s3)"
    using db_eget_base [of s2 ?n] r2 assms(5,6) by (auto simp: ready_def)
  have "to_recno (m_lno (m_start vp) + (2 - 1)) = ?n" using assms(8) by (simp add: to_recno_def)
  with s1 s2 s3 assms show ?thesis
    by (simp add: v_dollar_def v_down_def dollar_end_def vp_cnt_def ulong_dec_def stop_cno_def ISMOTION_def begins_def Let_def)
qed

theorem dollar_leaves_text_witness:
  "\<exists>vp' s'. v_dollar (vi_start None (Some 2) \<lparr>m_lno = 1, m_cno = 0\<rparr>) (opened [''   x'', []]) = Some (False, vp', s') \<and>
     m_final vp' = \<lparr>m_lno = 2, m_cno = 3\<rparr>"
proof -
  have rep: "replicate 3 (CHR '' '') = ''   ''" by (simp add: numeral_3_eq_3)
  define vp where "vp = vi_start None (Some 2) \<lparr>m_lno = 1, m_cno = 0\<rparr>"
  have b: "begins vp (opened [''   x'', []])" unfolding vp_def by (rule begins_opened) (simp add: on_text_def)
  have vp: "m_start vp = \<lparr>m_lno = 1, m_cno = 0\<rparr>" "\<not> ISMOTION vp" "vc_c1set vp" "vp_count vp = 2"
    by (simp_all add: vp_def vi_start_def ISMOTION_def)
  show ?thesis using dollar_leaves_text [OF b vp(2-4), of 3] vp(1) unfolding vp_def [symmetric] by (simp add: numeral_2_eq_2 [symmetric] rep)
qed


subsection \<open>Counts of lines\<close>

lemma begins_exist:
  assumes "begins vp s"
  obtains s' where "db_exist n s = Some (0 < n \<and> n \<le> length (lines s), s')" "reads s s'" "ready s'"
proof -
  obtain s' where s': "db_exist n s = Some (0 < n \<and> n \<le> length (lines s), s')" "keeps s s'"
    using db_exist_base [of s n] assms by (auto simp: begins_def ready_def)
  have "text_ok s" using assms by (simp add: begins_def ready_def)
  with keepsD(1,3) [OF s'(2)] have "ready s'" by (simp add: ready_def)
  then show thesis by (rule that [OF s'(1) keepsD(2) [OF s'(2)]])
qed

lemma begins_eof: "begins vp s \<Longrightarrow> reads s s1 \<Longrightarrow> ready s1 \<Longrightarrow> \<exists>s2. v_eof s1 = Some s2 \<and> reads s s2"
  using v_eof_reads [of s1] reads_fields(19) [of s s1] by (metis begins_def reads_trans)

text \<open>
  \<^verbatim>\<open>j\<close> and \<^verbatim>\<open>k\<close> with a count that fits move by that number of lines, in the same column, and
  fail without moving exactly when there is no such line; \<^verbatim>\<open>G\<close> goes to the line its count names.
\<close>

theorem line_motions:
  assumes "begins vp s" "\<not> ISMOTION vp" "vc_c1set vp" "m_lno (m_start vp) + vp_count vp < 2 ^ 32" "0 < vp_count vp"
  shows "\<exists>d sd u su g sg.
     v_down vp s = Some (length (lines s) < m_lno (m_start vp) + vp_count vp, d, sd) \<and>
     v_up vp s = Some (m_lno (m_start vp) \<le> vp_count vp, u, su) \<and>
     v_lgoto vp s = Some (length (lines s) < vp_count vp, g, sg) \<and>
     (m_final d = (if length (lines s) < m_lno (m_start vp) + vp_count vp then m_start vp
       else (m_start vp)\<lparr>m_lno := m_lno (m_start vp) + vp_count vp\<rparr>)) \<and>
     (m_final u = (if m_lno (m_start vp) \<le> vp_count vp then m_start vp
       else (m_start vp)\<lparr>m_lno := m_lno (m_start vp) - vp_count vp\<rparr>)) \<and>
     (m_final g = (if length (lines s) < vp_count vp then m_start vp else (m_start vp)\<lparr>m_lno := vp_count vp\<rparr>))"
proof -
  let ?n = "m_lno (m_start vp)" and ?c = "vp_count vp"
  have fit: "to_recno (?n + ?c) = ?n + ?c" "to_recno ?c = ?c" using assms(4) by (simp_all add: to_recno_def)
  have cnt: "vp_cnt vp = ?c" "m_stop vp = m_start vp" "m_final vp = m_start vp" "lines s \<noteq> []"
    using assms(1,3) by (auto simp: vp_cnt_def begins_def on_text_def)
  obtain s1 where s1: "db_exist (?n + ?c) s = Some (0 < ?n + ?c \<and> ?n + ?c \<le> length (lines s), s1)" "reads s s1" "ready s1"
    by (rule begins_exist [OF assms(1)])
  obtain s2 where s2: "db_exist ?c s = Some (0 < ?c \<and> ?c \<le> length (lines s), s2)" "reads s s2" "ready s2"
    by (rule begins_exist [OF assms(1)])
  obtain e1 e2 where e: "v_eof s1 = Some e1" "v_eof s2 = Some e2"
    using begins_eof [OF assms(1)] s1(2,3) s2(2,3) by meson
  have one: "?c \<noteq> 1" if "length (lines s) < ?c" using that cnt(4) by (cases "lines s") auto
  have D: "\<exists>d sd. v_down vp s = Some (length (lines s) < ?n + ?c, d, sd) \<and>
      m_final d = (if length (lines s) < ?n + ?c then m_start vp else (m_start vp)\<lparr>m_lno := ?n + ?c\<rparr>)"
    using assms(2,5) s1(1) e(1) fit cnt by (auto simp: v_down_def Let_def)
  have U: "\<exists>u su. v_up vp s = Some (?n \<le> ?c, u, su) \<and>
      m_final u = (if ?n \<le> ?c then m_start vp else (m_start vp)\<lparr>m_lno := ?n - ?c\<rparr>)"
    using fit cnt by (auto simp: v_up_def Let_def)
  have G: "\<exists>g sg. v_lgoto vp s = Some (length (lines s) < ?c, g, sg) \<and>
      m_final g = (if length (lines s) < ?c then m_start vp else (m_start vp)\<lparr>m_lno := ?c\<rparr>)"
  proof (cases "length (lines s) < ?c")
    case True
    then show ?thesis using one s2(1) e(2) fit cnt assms(3) by (auto simp: v_lgoto_def)
  next
    case False
    have "goto_adjust (vp\<lparr>m_stop := x\<rparr>) = vp\<lparr>m_stop := x, m_final := x\<rparr>" for x
      using assms(2) by (simp add: goto_adjust_def ISMOTION_def)
    then show ?thesis using False s2(1) fit cnt assms(3,5) by (auto simp: v_lgoto_def)
  qed
  from D U G show ?thesis by (elim exE conjE) (intro exI conjI; assumption)
qed

theorem line_motions_witness:
  "\<exists>d sd. v_down (vi_start None (Some 1) \<lparr>m_lno = 1, m_cno = 0\<rparr>) (opened [''a'', ''b'']) = Some (False, d, sd) \<and>
     m_final d = \<lparr>m_lno = 2, m_cno = 0\<rparr>"
proof -
  define vp where "vp = vi_start None (Some 1) \<lparr>m_lno = 1, m_cno = 0\<rparr>"
  have b: "begins vp (opened [''a'', ''b''])" unfolding vp_def by (rule begins_opened) (simp add: on_text_def)
  have vp: "m_start vp = \<lparr>m_lno = 1, m_cno = 0\<rparr>" "\<not> ISMOTION vp" "vc_c1set vp" "vp_count vp = 1"
    by (simp_all add: vp_def vi_start_def ISMOTION_def)
  show ?thesis using line_motions [OF b vp(2,3)] vp(1,4) unfolding vp_def [symmetric] by (auto simp: numeral_2_eq_2 [symmetric])
qed

text \<open>
  A count of \<^verbatim>\<open>j\<close> that does not fit a line number wraps around: with 4294967295 the cursor moves one line
  up, where a count that is too big should be refused.
\<close>

theorem down_count_wraps:
  assumes "begins vp s" "\<not> ISMOTION vp" "vp_cnt vp = 4294967295" "1 < m_lno (m_start vp)" "m_lno (m_start vp) < 2 ^ 32"
  shows "\<exists>vp' s'. v_down vp s = Some (False, vp', s') \<and> m_final vp' = (m_start vp)\<lparr>m_lno := m_lno (m_start vp) - 1\<rparr>"
proof -
  let ?n = "m_lno (m_start vp) - 1"
  have "m_lno (m_start vp) + vp_cnt vp = ?n + 2 ^ 32" using assms(3,4) by simp
  then have n: "to_recno (m_lno (m_start vp) + vp_cnt vp) = ?n" using assms(5) by (simp add: to_recno_def)
  obtain s1 where s1: "db_exist ?n s = Some (0 < ?n \<and> ?n \<le> length (lines s), s1)" by (rule begins_exist [OF assms(1)])
  have "0 < ?n \<and> ?n \<le> length (lines s)" using assms(1,4) by (auto simp: begins_def on_text_def)
  with s1 n assms(1,2) show ?thesis by (simp add: v_down_def begins_def Let_def ISMOTION_def)
qed

theorem down_count_wraps_witness:
  "\<exists>vp' s'. v_down (vi_start None (Some 4294967295) \<lparr>m_lno = 2, m_cno = 0\<rparr>) (opened [''a'', ''b'']) = Some (False, vp', s') \<and>
     m_final vp' = \<lparr>m_lno = 1, m_cno = 0\<rparr>"
proof -
  define vp where "vp = vi_start None (Some 4294967295) \<lparr>m_lno = 2, m_cno = 0\<rparr>"
  have b: "begins vp (opened [''a'', ''b''])" unfolding vp_def by (rule begins_opened) (simp add: on_text_def)
  have vp: "m_start vp = \<lparr>m_lno = 2, m_cno = 0\<rparr>" "\<not> ISMOTION vp" "vp_cnt vp = 4294967295"
    by (simp_all add: vp_def vi_start_def ISMOTION_def vp_cnt_def)
  show ?thesis using down_count_wraps [OF b vp(2,3)] vp(1) unfolding vp_def [symmetric] by simp
qed

end
