(* ===== verification/CharSearch.thy ===== *)
theory CharSearch
  imports LineMotions
begin

section \<open>Searching for a character in the line (vi/v_ch.c)\<close>

text \<open>
  The motions \<^verbatim>\<open>f\<close>, \<^verbatim>\<open>F\<close>, \<^verbatim>\<open>t\<close>, \<^verbatim>\<open>T\<close> and their repetitions
  \<^verbatim>\<open>;\<close> and \<^verbatim>\<open>,\<close>, which share the last character searched for and the kind of search. The
  lemmas: which occurrence is found, that counts add up over repetitions, and two ways in which the remembered
  search is not the one the user made.
\<close>

subsection \<open>Operations\<close>

datatype cdir_t = CNOTSET | FSEARCH | fSEARCH | TSEARCH | tSEARCH

text \<open>The part of the private area that holds the last search.\<close>

record chs =
  lastckey :: char
  csearchdir :: cdir_t

type_synonym cmotion = "vicmd \<Rightarrow> chs \<Rightarrow> ed \<Rightarrow> (bool \<times> vicmd \<times> chs \<times> ed) option"

definition ch_start :: "cdir_t \<Rightarrow> vicmd \<Rightarrow> chs \<Rightarrow> chs" where
  "ch_start dir vp c = (if vc_isdot vp then c else c\<lparr>lastckey := vp_character vp\<rparr>)\<lparr>csearchdir := dir\<rparr>"

text \<open>
  The loops of \<^verbatim>\<open>v_chf\<close>, by the index of \<^verbatim>\<open>p\<close>: to the next occurrence or the end, and so for every
  count; \<open>None\<close> when the character is not found.
\<close>

function chf_scan :: "bytes \<Rightarrow> char \<Rightarrow> nat \<Rightarrow> nat" where
  "chf_scan l key p = (if p + 1 < length l \<and> l ! (p + 1) \<noteq> key then chf_scan l key (p + 1) else p + 1)"
  by pat_completeness auto
termination by (relation "measure (\<lambda>(l, key, p). length l - p)") auto

declare chf_scan.simps [simp del, code]

fun chf_loop :: "bytes \<Rightarrow> char \<Rightarrow> nat \<Rightarrow> nat \<Rightarrow> nat option" where
  "chf_loop l key 0 p = Some p"
| "chf_loop l key (Suc n) p =
     (let p1 = chf_scan l key p in if p1 = length l then None else chf_loop l key n p1)"

text \<open>\<^verbatim>\<open>v_chf\<close>; from a column beyond the line it would run past the end.\<close>

definition v_chf :: cmotion where
  "v_chf vp c s =
     do {
       let c1 = ch_start fSEARCH vp c;
       (e, l, isempty, s1) \<leftarrow> db_eget (m_lno (m_start vp)) s;
       if e \<or> l = [] then Some (True, vp, c1, s1)
       else if length l \<le> m_cno (m_start vp) then None
       else
         (case chf_loop l (vp_character vp) (vp_cnt vp) (m_cno (m_start vp)) of
            None \<Rightarrow> Some (True, vp, c1, s1)
          | Some p \<Rightarrow>
              let vp1 = stop_cno p vp in
              Some (False, vp1\<lparr>m_final := if ISMOTION vp then m_start vp1 else m_stop vp1\<rparr>, c1, s1))
     }"

definition v_cht :: cmotion where
  "v_cht vp c s =
     do {
       (e, vp1, c1, s1) \<leftarrow> v_chf vp c s;
       if e then Some (True, vp1, c1, s1)
       else
         let vp2 = stop_cno (size_sub (m_cno (m_stop vp1)) 1) vp1 in
         Some (False, if ISMOTION vp then vp2 else vp2\<lparr>m_final := m_stop vp2\<rparr>, c1\<lparr>csearchdir := tSEARCH\<rparr>, s1)
     }"

fun chF_scan :: "bytes \<Rightarrow> char \<Rightarrow> nat \<Rightarrow> nat option" where
  "chF_scan l key 0 = None"
| "chF_scan l key (Suc p) = (if l ! p \<noteq> key then chF_scan l key p else Some p)"

fun chF_loop :: "bytes \<Rightarrow> char \<Rightarrow> nat \<Rightarrow> nat \<Rightarrow> nat option" where
  "chF_loop l key 0 p = Some p"
| "chF_loop l key (Suc n) p = do { p1 \<leftarrow> chF_scan l key p; chF_loop l key n p1 }"

definition v_chF :: cmotion where
  "v_chF vp c s =
     do {
       let c1 = ch_start FSEARCH vp c;
       (e, l, isempty, s1) \<leftarrow> db_eget (m_lno (m_start vp)) s;
       if e \<or> l = [] then Some (True, vp, c1, s1)
       else if length l < m_cno (m_start vp) then None
       else
         (case chF_loop l (vp_character vp) (vp_cnt vp) (m_cno (m_start vp)) of
            None \<Rightarrow> Some (True, vp, c1, s1)
          | Some p \<Rightarrow>
              let vp1 = (stop_cno p vp)\<lparr>m_final := (m_stop vp)\<lparr>m_cno := p\<rparr>\<rparr> in
              Some (False, if ISMOTION vp then start_dec vp1 else vp1, c1, s1))
     }"

definition v_chT :: cmotion where
  "v_chT vp c s =
     do {
       (e, vp1, c1, s1) \<leftarrow> v_chF vp c s;
       if e then Some (True, vp1, c1, s1)
       else
         let vp2 = stop_cno (m_cno (m_stop vp1) + 1) vp1 in
         Some (False, vp2\<lparr>m_final := m_stop vp2\<rparr>, c1\<lparr>csearchdir := TSEARCH\<rparr>, s1)
     }"

definition v_chrepeat :: cmotion where
  "v_chrepeat vp0 c s =
     (let vp = vp0\<lparr>vp_character := lastckey c\<rparr> in
      case csearchdir c of
        CNOTSET \<Rightarrow> Some (True, vp, c, s)
      | FSEARCH \<Rightarrow> v_chF vp c s
      | fSEARCH \<Rightarrow> v_chf vp c s
      | TSEARCH \<Rightarrow> v_chT vp c s
      | tSEARCH \<Rightarrow> v_cht vp c s)"

definition v_chrrepeat :: cmotion where
  "v_chrrepeat vp0 c s =
     (let vp = vp0\<lparr>vp_character := lastckey c\<rparr> in
      if csearchdir c = CNOTSET then Some (True, vp, c, s)
      else do {
        (e, vp1, c1, s1) \<leftarrow> (case csearchdir c of FSEARCH \<Rightarrow> v_chf vp c s | fSEARCH \<Rightarrow> v_chF vp c s | TSEARCH \<Rightarrow> v_cht vp c s
                            | _ \<Rightarrow> v_chT vp c s);
        Some (e, vp1, c1\<lparr>csearchdir := csearchdir c\<rparr>, s1)
      })"

subsection \<open>Occurrences\<close>

definition after :: "char \<Rightarrow> bytes \<Rightarrow> nat \<Rightarrow> nat list" where
  "after key l p = filter (\<lambda>i. l ! i = key) [p + 1..<length l]"

definition before :: "char \<Rightarrow> bytes \<Rightarrow> nat \<Rightarrow> nat list" where
  "before key l p = rev (filter (\<lambda>i. l ! i = key) [0..<p])"

lemma after_step: "p + 1 < length l \<Longrightarrow> after key l p = (if l ! (p + 1) = key then [p + 1] else []) @ after key l (p + 1)"
  by (simp add: after_def upt_conv_Cons)

lemma after_end: "length l \<le> p + 1 \<Longrightarrow> after key l p = []"
  by (simp add: after_def)

lemma after_range: "i \<in> set (after key l p) \<Longrightarrow> p < i \<and> i < length l \<and> l ! i = key"
  by (auto simp: after_def)

lemma chf_scan_after: "p < length l \<Longrightarrow>
  (case after key l p of [] \<Rightarrow> chf_scan l key p = length l | i # r \<Rightarrow> chf_scan l key p = i \<and> after key l i = r)"
proof (induction l key p rule: chf_scan.induct)
  case (1 l key p)
  show ?case
  proof (cases "p + 1 < length l")
    case True
    then show ?thesis using 1 after_step [OF True, of key] chf_scan.simps [of l key p] by (cases "l ! (p + 1) = key") (auto split: list.splits)
  next
    case False
    then show ?thesis using 1(2) after_end [of l p key] chf_scan.simps [of l key p] by auto
  qed
qed

lemma chf_loop_after: "p < length l \<Longrightarrow>
  chf_loop l key n p = (if n \<le> length (after key l p) then Some ((p # after key l p) ! n) else None)"
proof (induction n arbitrary: p)
  case (Suc n)
  show ?case
  proof (cases "after key l p")
    case Nil
    then show ?thesis using chf_scan_after [OF Suc.prems, of key] by simp
  next
    case (Cons i r)
    then have "i < length l" "chf_scan l key p = i" "after key l i = r"
      using chf_scan_after [OF Suc.prems, of key] after_range [of i key l p] by auto
    then show ?thesis using Suc.IH [of i] Cons by simp
  qed
qed simp

lemma before_Suc: "before key l (Suc p) = (if l ! p = key then [p] else []) @ before key l p"
  by (simp add: before_def)

lemma chF_scan_before:
  "case before key l p of [] \<Rightarrow> chF_scan l key p = None | i # r \<Rightarrow> chF_scan l key p = Some i \<and> before key l i = r"
  by (induction p) (auto simp: before_Suc before_def split: list.splits)

lemma chF_loop_before: "chF_loop l key n p = (if n \<le> length (before key l p) then Some ((p # before key l p) ! n) else None)"
proof (induction n arbitrary: p)
  case (Suc n)
  then show ?case using chF_scan_before [of l key p] by (cases "before key l p") auto
qed simp


subsection \<open>Searches\<close>

text \<open>What the two searches do on the line \<open>l\<close>, leaving the state \<open>s\<close>.\<close>

definition chf_out :: "vicmd \<Rightarrow> chs \<Rightarrow> bytes \<Rightarrow> ed \<Rightarrow> bool \<times> vicmd \<times> chs \<times> ed" where
  "chf_out vp c l s =
     (let occ = after (vp_character vp) l (m_cno (m_start vp)) in
      if l = [] \<or> length occ < vp_cnt vp then (True, vp, ch_start fSEARCH vp c, s)
      else let vp1 = stop_cno ((m_cno (m_start vp) # occ) ! vp_cnt vp) vp in
        (False, vp1\<lparr>m_final := if ISMOTION vp then m_start vp1 else m_stop vp1\<rparr>, ch_start fSEARCH vp c, s))"

definition chF_out :: "vicmd \<Rightarrow> chs \<Rightarrow> bytes \<Rightarrow> ed \<Rightarrow> bool \<times> vicmd \<times> chs \<times> ed" where
  "chF_out vp c l s =
     (let occ = before (vp_character vp) l (m_cno (m_start vp)) in
      if l = [] \<or> length occ < vp_cnt vp then (True, vp, ch_start FSEARCH vp c, s)
      else let q = (m_cno (m_start vp) # occ) ! vp_cnt vp; vp1 = (stop_cno q vp)\<lparr>m_final := (m_stop vp)\<lparr>m_cno := q\<rparr>\<rparr> in
        (False, if ISMOTION vp then start_dec vp1 else vp1, ch_start FSEARCH vp c, s))"

lemma v_chf_spec:
  assumes "begins vp s"
  obtains s' where "v_chf vp c s = Some (chf_out vp c (start_line vp s) s')" "reads s s'" "ready s'"
proof -
  obtain s' where s': "db_eget (m_lno (m_start vp)) s = Some (False, start_line vp s, False, s')" "reads s s'" "ready s'"
    by (rule begins_eget [OF assms])
  moreover have "start_line vp s \<noteq> [] \<Longrightarrow> m_cno (m_start vp) < length (start_line vp s)"
    using assms by (auto simp: begins_def on_text_def)
  ultimately show ?thesis
    by (intro that [of s']; cases "start_line vp s = []") (auto simp: v_chf_def chf_loop_after chf_out_def Let_def)
qed

lemma v_chF_spec:
  assumes "begins vp s"
  obtains s' where "v_chF vp c s = Some (chF_out vp c (start_line vp s) s')" "reads s s'" "ready s'"
proof -
  obtain s' where s': "db_eget (m_lno (m_start vp)) s = Some (False, start_line vp s, False, s')" "reads s s'" "ready s'"
    by (rule begins_eget [OF assms])
  moreover have "start_line vp s \<noteq> [] \<Longrightarrow> \<not> length (start_line vp s) < m_cno (m_start vp)"
    using assms by (auto simp: begins_def on_text_def)
  ultimately show ?thesis
    by (intro that [of s']; cases "start_line vp s = []") (auto simp: v_chF_def chF_loop_before chF_out_def Let_def)
qed

text \<open>
  C38: \<^verbatim>\<open>f\<close> and \<^verbatim>\<open>F\<close> with a count go to the occurrence of the character with that number after,
  or before, the cursor, and fail exactly when there are not so many. Either becomes the search to repeat.
\<close>

theorem char_search:
  assumes "begins vp s" "\<not> ISMOTION vp" "\<not> vc_isdot vp" "0 < vp_cnt vp"
    and "l = start_line vp s" "p = m_cno (m_start vp)" "key = vp_character vp"
  shows "\<exists>f cf sf b cb sb.
     v_chf vp c s = Some (length (after key l p) < vp_cnt vp, f, cf, sf) \<and>
     v_chF vp c s = Some (length (before key l p) < vp_cnt vp, b, cb, sb) \<and>
     (vp_cnt vp \<le> length (after key l p) \<longrightarrow> m_final f = (m_start vp)\<lparr>m_cno := after key l p ! (vp_cnt vp - 1)\<rparr>) \<and>
     (vp_cnt vp \<le> length (before key l p) \<longrightarrow> m_final b = (m_start vp)\<lparr>m_cno := before key l p ! (vp_cnt vp - 1)\<rparr>) \<and>
     cf = \<lparr>lastckey = key, csearchdir = fSEARCH\<rparr> \<and> cb = \<lparr>lastckey = key, csearchdir = FSEARCH\<rparr>"
proof -
  obtain sf where f: "v_chf vp c s = Some (chf_out vp c l sf)" unfolding assms(5) by (rule v_chf_spec [OF assms(1)])
  obtain sb where b: "v_chF vp c s = Some (chF_out vp c l sb)" unfolding assms(5) by (rule v_chF_spec [OF assms(1)])
  have e: "after key [] p = []" "m_cno (m_start vp) = 0 \<or> l \<noteq> []" "m_stop vp = m_start vp"
    using assms(1,5) by (auto simp: after_def begins_def on_text_def)
  then have e': "l = [] \<Longrightarrow> before key l p = []" using assms(6) by (auto simp: before_def)
  show ?thesis
    using f b e e' assms(2-4,6,7) by (auto simp: chf_out_def chF_out_def Let_def ch_start_def nth_Cons')
qed


text \<open>Before any search.\<close>

definition ch_none :: chs where "ch_none = \<lparr>lastckey = CHR 0x00, csearchdir = CNOTSET\<rparr>"

theorem char_search_witness:
  "\<exists>f cf sf. v_chf ((vi_start None (Some 2) \<lparr>m_lno = 1, m_cno = 0\<rparr>)\<lparr>vp_character := CHR ''x''\<rparr>) ch_none (opened [''axbxc'']) = Some (False, f, cf, sf) \<and>
     m_final f = \<lparr>m_lno = 1, m_cno = 3\<rparr>"
proof -
  define vp where "vp = (vi_start None (Some 2) \<lparr>m_lno = 1, m_cno = 0\<rparr>)\<lparr>vp_character := CHR ''x''\<rparr>"
  have b: "begins vp (opened [''axbxc''])"
    using begins_opened [of "\<lparr>m_lno = 1, m_cno = 0\<rparr>" "[''axbxc'']" None "Some 2"] by (simp add: vp_def begins_def on_text_def vi_start_def)
  have vp: "m_start vp = \<lparr>m_lno = 1, m_cno = 0\<rparr>" "\<not> ISMOTION vp" "\<not> vc_isdot vp" "vp_cnt vp = 2" "vp_character vp = CHR ''x''"
    by (simp_all add: vp_def vi_start_def ISMOTION_def vp_cnt_def)
  have "after (CHR ''x'') ''axbxc'' 0 = [1, 3]" by code_simp
  moreover have "start_line vp (opened [''axbxc'']) = ''axbxc''" "m_cno (m_start vp) = 0" using vp(1) by simp_all
  moreover have "0 < vp_cnt vp" using vp(4) by simp
  ultimately show ?thesis
    using char_search [OF b vp(2,3), of _ 0 "CHR ''x''" ch_none] vp(1,4,5) unfolding vp_def [symmetric] by fastforce
qed

text \<open>A command at a place, with a count.\<close>

definition vp_at :: "mark \<Rightarrow> nat \<Rightarrow> vicmd \<Rightarrow> vicmd" where
  "vp_at m n vp = vp\<lparr>vp_count := n, vc_c1set := True, m_start := m, m_stop := m, m_final := m\<rparr>"

lemma vp_at_sel [simp]:
  "m_start (vp_at m n vp) = m" "m_stop (vp_at m n vp) = m" "m_final (vp_at m n vp) = m" "vp_cnt (vp_at m n vp) = n"
  "ISMOTION (vp_at m n vp) = ISMOTION vp" "vc_isdot (vp_at m n vp) = vc_isdot vp" "vp_character (vp_at m n vp) = vp_character vp"
  by (simp_all add: vp_at_def vp_cnt_def ISMOTION_def)

lemma after_nth: "n \<le> length (after key l p) \<Longrightarrow> p < length l \<Longrightarrow> after key l ((p # after key l p) ! n) = drop n (after key l p)"
proof (induction n arbitrary: p)
  case (Suc n)
  then obtain i r where i: "after key l p = i # r" by (cases "after key l p") auto
  then have "after key l i = r" "i < length l" using chf_scan_after [OF Suc.prems(2), of key] after_range [of i key l p] by auto
  then show ?case using Suc.IH [of i] Suc.prems i by simp
qed simp

text \<open>
  Counts add up over \<^verbatim>\<open>;\<close>: when \<^verbatim>\<open>f\<close> with the count \<open>a + b\<close> succeeds, \<^verbatim>\<open>f\<close> with
  \<open>a\<close> followed by \<^verbatim>\<open>;\<close> with \<open>b\<close> ends on the same character.
\<close>

theorem repeat_adds:
  assumes "begins (vp_at m (a + b) vp) s" "\<not> ISMOTION vp" "\<not> vc_isdot vp" "0 < a" "0 < b"
    and "v_chf (vp_at m (a + b) vp) c s = Some (False, f, cf, sf)"
  shows "\<exists>g cg sg h ch sh. v_chf (vp_at m a vp) c s = Some (False, g, cg, sg) \<and>
    v_chrepeat (vp_at (m_final g) b vp) cg sg = Some (False, h, ch, sh) \<and> m_final h = m_final f"
proof -
  let ?l = "lines s ! (m_lno m - 1)" and ?k = "vp_character vp"
  let ?at = "after ?k ?l (m_cno m)"
  have m: "on_text m (lines s)" "ready s" "\<not> sp_tinput (cur s)" using assms(1) by (auto simp: begins_def)
  obtain s1 where "v_chf (vp_at m (a + b) vp) c s = Some (chf_out (vp_at m (a + b) vp) c ?l s1)"
    using v_chf_spec [OF assms(1)] unfolding vp_at_sel(1) by blast
  with assms(2,6) have f: "?l \<noteq> []" "a + b \<le> length ?at" "m_final f = m\<lparr>m_cno := (m_cno m # ?at) ! (a + b)\<rparr>"
    by (auto simp: chf_out_def Let_def split: if_splits)
  have p: "m_cno m < length ?l" using f(1) m(1) by (auto simp: on_text_def)
  have "begins (vp_at m a vp) s" using assms(1) by (simp add: begins_def)
  then obtain sg where sg: "v_chf (vp_at m a vp) c s = Some (chf_out (vp_at m a vp) c ?l sg)" "reads s sg" "ready sg"
    using v_chf_spec [of "vp_at m a vp" s c thesis] unfolding vp_at_sel(1) by blast
  then obtain g cg where g: "v_chf (vp_at m a vp) c s = Some (False, g, cg, sg)" "m_final g = m\<lparr>m_cno := (m_cno m # ?at) ! a\<rparr>"
    "cg = \<lparr>lastckey = ?k, csearchdir = fSEARCH\<rparr>" "reads s sg" "ready sg"
    using f assms(2,3) by (auto simp: chf_out_def Let_def ch_start_def split: if_splits)
  let ?q = "(m_cno m # ?at) ! a"
  have q: "?q < length ?l" "after ?k ?l ?q = drop a ?at"
  proof -
    have "?q = ?at ! (a - 1)" "a - 1 < length ?at" using assms(4,5) f(2) by (simp_all add: nth_Cons')
    then show "?q < length ?l" using after_range [of ?q ?k ?l "m_cno m"] by (metis nth_mem)
    show "after ?k ?l ?q = drop a ?at" using f(2) p by (intro after_nth) simp_all
  qed
  let ?vq = "vp_at (m_final g) b vp"
  have lg: "lines sg = lines s" "cur sg = cur s" using reads_fields(2,19) [OF g(4)] by auto
  have bq: "begins (?vq\<lparr>vp_character := ?k\<rparr>) sg"
    using m g(2,5) lg q(1) by (simp add: begins_def on_text_def vp_at_def)
  have "b \<le> length (after ?k ?l ?q)" using q(2) f(2) by simp
  moreover have "(?q # after ?k ?l ?q) ! b = (m_cno m # ?at) ! (a + b)" using q(2) f(2) assms(4,5) by (simp add: nth_Cons' add.commute)
  moreover obtain sh where "v_chf (?vq\<lparr>vp_character := ?k\<rparr>) cg sg = Some (chf_out (?vq\<lparr>vp_character := ?k\<rparr>) cg ?l sh)"
    using v_chf_spec [OF bq] g(2) lg by (auto simp: vp_at_def)
  ultimately obtain h ch where "v_chf (?vq\<lparr>vp_character := ?k\<rparr>) cg sg = Some (False, h, ch, sh)" "m_final h = m_final f"
    using assms(2,5) f(1,3) g(2) by (auto simp: chf_out_def Let_def vp_at_def vp_cnt_def ISMOTION_def split: if_splits)
  moreover have "v_chrepeat ?vq cg sg = v_chf (?vq\<lparr>vp_character := ?k\<rparr>) cg sg" using g(3) by (simp add: v_chrepeat_def)
  ultimately show ?thesis using g(1) by auto
qed


theorem repeat_adds_witness:
  "\<exists>g cg sg h ch sh.
    v_chf (vp_at \<lparr>m_lno = 1, m_cno = 0\<rparr> 1 ((vi_start None None \<lparr>m_lno = 1, m_cno = 0\<rparr>)\<lparr>vp_character := CHR ''x''\<rparr>)) ch_none (opened [''axbxc'']) = Some (False, g, cg, sg) \<and>
    v_chrepeat (vp_at (m_final g) 1 ((vi_start None None \<lparr>m_lno = 1, m_cno = 0\<rparr>)\<lparr>vp_character := CHR ''x''\<rparr>)) cg sg = Some (False, h, ch, sh) \<and>
    m_final h = \<lparr>m_lno = 1, m_cno = 3\<rparr>"
proof -
  define vp m where "vp = (vi_start None None \<lparr>m_lno = 1, m_cno = 0\<rparr>)\<lparr>vp_character := CHR ''x''\<rparr>" and "m = \<lparr>m_lno = (1 :: nat), m_cno = (0 :: nat)\<rparr>"
  have vp: "\<not> ISMOTION vp" "\<not> vc_isdot vp" "vp_character vp = CHR ''x''" by (simp_all add: vp_def vi_start_def ISMOTION_def)
  have b: "begins (vp_at m (1 + 1) vp) (opened [''axbxc''])" by (simp add: begins_def on_text_def m_def)
  obtain s1 where s1: "v_chf (vp_at m (1 + 1) vp) ch_none (opened [''axbxc'']) = Some (chf_out (vp_at m (1 + 1) vp) ch_none ''axbxc'' s1)"
    using v_chf_spec [OF b] by (auto simp: m_def)
  have "after (CHR ''x'') ''axbxc'' 0 = [1, 3]" by code_simp
  then obtain f cf where "v_chf (vp_at m (1 + 1) vp) ch_none (opened [''axbxc'']) = Some (False, f, cf, s1)" "m_final f = \<lparr>m_lno = 1, m_cno = 3\<rparr>"
    using s1 vp by (auto simp: chf_out_def m_def Let_def)
  with repeat_adds [OF b vp(1,2), of ch_none f cf s1] show ?thesis unfolding vp_def m_def by simp
qed

subsection \<open>What is remembered\<close>

text \<open>
  A \<^verbatim>\<open>t\<close> that fails is remembered as \<^verbatim>\<open>f\<close>, so that \<^verbatim>\<open>;\<close> then goes onto the
  character. And a dot command keeps the character of the last search, as the comment in \<^verbatim>\<open>v_chf\<close> wants, but not its
  direction: after \<^verbatim>\<open>dF1\<close>, \<^verbatim>\<open>f2\<close> and \<^verbatim>\<open>.\<close>, \<^verbatim>\<open>;\<close> looks for a \<^verbatim>\<open>2\<close> backward.
\<close>

theorem failed_t_is_f:
  assumes "v_cht vp c s = Some (True, vp', c', s')"
  shows "csearchdir c' = fSEARCH"
  using assms by (auto simp: v_cht_def v_chf_def ch_start_def Let_def split: if_splits option.splits bind_splits)

theorem dot_turns_search:
  assumes "begins vp s" "vc_isdot vp"
  shows "\<exists>e vp' s'. v_chF vp c s = Some (e, vp', c\<lparr>csearchdir := FSEARCH\<rparr>, s')"
proof -
  obtain s' where "v_chF vp c s = Some (chF_out vp c (start_line vp s) s')" by (rule v_chF_spec [OF assms(1)])
  then show ?thesis using assms(2) by (auto simp: chF_out_def ch_start_def Let_def)
qed

end
