(* ===== verification/MarkMotions.thy ===== *)
theory MarkMotions
  imports LineMotions LineEdit Delete
begin

section \<open>Setting marks and moving to them (vi/v_mark.c)\<close>

text \<open>
  The commands \<^verbatim>\<open>m\<close>, \<^verbatim>\<open>`\<close> and \<^verbatim>\<open>'\<close>. The theorem joins them with the editing of
  lines: a mark that was set leads back to its character after other lines were deleted.
\<close>

subsection \<open>Operations\<close>

definition v_mark :: motion where
  "v_mark vp s = do { (e, s1) \<leftarrow> mark_set (vp_character vp) (m_start vp) True s; Some (e, vp, s1) }"

text \<open>
  The function \<^verbatim>\<open>mark\<close> after its switch statement, for a motion; \<open>bq\<close> says that \<^verbatim>\<open>cmd\<close> is
  \<^verbatim>\<open>BQMARK\<close>.
\<close>

definition mark_motion_end :: "bool \<Rightarrow> motion" where
  "mark_motion_end bq vp s =
     (if bq \<and> m_stop vp = m_start vp then Some (True, vp, s)
      else
        let vp1 = (if m_lno (m_stop vp) < m_lno (m_start vp) \<or>
                      m_lno (m_start vp) = m_lno (m_stop vp) \<and> m_cno (m_stop vp) < m_cno (m_start vp)
                   then vp\<lparr>m_start := m_stop vp, m_stop := m_start vp\<rparr> else vp);
            vp2 = vp1\<lparr>m_final := m_start vp1\<rparr>
        in if \<not> bq then Some (False, vp2, s)
        else if m_lno (m_start vp2) < m_lno (m_stop vp2) \<and> m_cno (m_stop vp2) = 0 then
          do {
            let lno = m_lno (m_stop vp2) - 1;
            (e, l, s1) \<leftarrow> db_get lno False s;
            let vp3 = vp2\<lparr>m_stop := \<lparr>m_lno = lno, m_cno = if e then 0 else length l - 1\<rparr>\<rparr>;
            if e then Some (True, vp3, s1)
            else do {
              (e, c, s2) \<leftarrow> nonblank (m_lno (m_start vp3)) 0 s1;
              Some (e, if \<not> e \<and> m_cno (m_start vp3) \<le> c then vp3\<lparr>vm_lmode := True\<rparr> else vp3, s2)
            }
          }
        else Some (False, stop_cno (size_sub (m_cno (m_stop vp2)) 1) vp2, s))"

definition mark_to :: "bool \<Rightarrow> motion" where
  "mark_to bq vp s =
     do {
       (e, m, s1) \<leftarrow> mark_get (vp_character vp) s;
       if e then Some (True, vp, s1)
       else do {
         let vp1 = vp\<lparr>m_stop := m\<rparr>;
         (e, l, s2) \<leftarrow> (if bq then db_get (m_lno m) False s1 else Some (False, [], s1));
         if bq \<and> e then Some (True, vp1, s2)
         else
           let stays = bq \<and> (m_cno m < length l \<or> m_cno m = length l \<and> l = []);
               vp2 = (if bq \<and> \<not> stays \<and> ISMOTION vp then vp1\<lparr>vm_lmode := True\<rparr> else vp1)
           in do {
             (e, vp3, s3) \<leftarrow> (if stays then Some (False, vp2, s2)
                              else do { (e, c, s3) \<leftarrow> nonblank (m_lno m) 0 s2; Some (e, stop_cno c vp2, s3) });
             if e then Some (True, vp3, s3)
             else if \<not> ISMOTION vp then Some (False, vp3\<lparr>m_final := m_stop vp3\<rparr>, s3)
             else mark_motion_end stays vp3 s3
           }
       }
     }"

definition v_bmark :: motion where "v_bmark = mark_to True"

definition v_fmark :: motion where "v_fmark = mark_to False"


subsection \<open>Marks lead back\<close>

lemma lookup_map:
  "(\<And>m. lm_name (g m) = lm_name m) \<Longrightarrow> mark_lookup (map g ms) k = map_option g (mark_lookup ms k)"
  by (induction ms) (simp_all add: mark_lookup_def)

lemma marks_same: "base s \<Longrightarrow> sorted_marks (marks s) \<Longrightarrow>
  mark_set k v True s = Some (False, s\<lparr>marks := put_mark (mark_key k) (new_mark (mark_key k) v True) (marks s)\<rparr>)"
  by (simp add: mark_set_eq undo_keeps_def base_def)

text \<open>Moving to a mark that is on a character.\<close>

lemma v_bmark_to:
  assumes "ready s" "\<not> sp_tinput (cur s)" "sorted_marks (marks s)" "mark_lookup (marks s) (mark_key (vp_character vp)) = Some lm"
    and "\<not> lm_deleted lm" "on_text \<lparr>m_lno = lm_lno lm, m_cno = lm_cno lm\<rparr> (lines s)" "\<not> ISMOTION vp"
    and "lm_cno lm < length (lines s ! (lm_lno lm - 1)) \<or> lines s ! (lm_lno lm - 1) = []"
  shows "\<exists>vp' s'. v_bmark vp s = Some (False, vp', s') \<and> m_final vp' = \<lparr>m_lno = lm_lno lm, m_cno = lm_cno lm\<rparr> \<and> reads s s'"
proof -
  have n: "0 < lm_lno lm" "lm_lno lm \<le> length (lines s)" using assms(6) by (simp_all add: on_text_def)
  have b: "base s" "text_ok s" using assms(1) by (simp_all add: ready_def)
  have "\<exists>s1. mark_get (vp_character vp) s = Some (False, \<lparr>m_lno = lm_lno lm, m_cno = lm_cno lm\<rparr>, s1) \<and> keeps s s1"
  proof (cases "lm_lno lm \<noteq> 1 \<or> lm_cno lm \<noteq> 0")
    case True
    then show ?thesis using db_exist_base [OF b(1) assms(2), of "lm_lno lm"] n assms(4,5) by (auto simp: mark_get_eq [OF assms(3)] Let_def)
  next
    case False
    then show ?thesis using keeps_refl [OF b(1)] assms(4,5) by (simp add: mark_get_eq [OF assms(3)] Let_def)
  qed
  then obtain s1 where s1: "mark_get (vp_character vp) s = Some (False, \<lparr>m_lno = lm_lno lm, m_cno = lm_cno lm\<rparr>, s1)" "keeps s s1"
    by blast
  have r1: "ready s1" "reads s s1" using keepsD(1-3) [OF s1(2)] b(2) by (simp_all add: ready_def)
  have "\<not> sp_tinput (cur s1)" "lines s1 = lines s" using reads_fields(2,19) [OF r1(2)] assms(2) by simp_all
  then obtain s2 where "db_get (lm_lno lm) False s1 = Some (False, lines s ! (lm_lno lm - 1), s2)" "reads s1 s2"
    using db_get_line [OF r1(1) n(1), of False] n(2) by auto
  then show ?thesis
    using s1(1) assms(6-8) reads_trans [OF r1(2)] by (auto simp: v_bmark_def mark_to_def on_text_def Let_def)
qed

text \<open>
  A mark leads back to its character: after \<^verbatim>\<open>m\<close> at a place and the deletion of another line, \<^verbatim>\<open>`\<close> with
  the name of the mark goes to the line that was marked, wherever that is now, in the column that was marked.
\<close>

theorem mark_leads_back:
  assumes "editing s" "text_ok s" "sorted_marks (marks s)" "on_text (m_start vp) (lines s)"
    and "m_cno (m_start vp) < length (start_line vp s) \<or> start_line vp s = []"
    and "0 < k" "k \<le> length (lines s)" "k \<noteq> m_lno (m_start vp)"
    and "\<not> ISMOTION vq" "mark_key (vp_character vq) = mark_key (vp_character vp)"
  shows "\<exists>s1 s2 vq' s3. v_mark vp s = Some (False, vp, s1) \<and> db_delete k s1 = Some (False, s2) \<and>
    v_bmark vq s2 = Some (False, vq', s3) \<and>
    m_final vq' = (m_start vp)\<lparr>m_lno := if k < m_lno (m_start vp) then m_lno (m_start vp) - 1 else m_lno (m_start vp)\<rparr> \<and>
    lines s3 ! (m_lno (m_final vq') - 1) = start_line vp s"
proof -
  let ?v = "m_start vp" and ?key = "mark_key (vp_character vp)"
  note e = editingD [OF assms(1)]
  define s1 where "s1 = s\<lparr>marks := put_mark ?key (new_mark ?key ?v True) (marks s)\<rparr>"
  have set: "v_mark vp s = Some (False, vp, s1)" using marks_same [OF e(1) assms(3)] by (simp add: v_mark_def s1_def)
  have r1: "base s1" "log_ready s1" "screens_ok s1" "text_ok s1" "lines s1 = lines s"
    using e assms(2) by (simp_all add: s1_def log_ready_def recording_def log_ok_def)
  have so: "sorted_marks (marks s1)" "mark_lookup (marks s1) ?key = Some (new_mark ?key ?v True)"
    using sorted_put_mark [OF assms(3) new_mark_name] lookup_put_mark [OF assms(3) new_mark_name] by (simp_all add: s1_def)
  obtain s2 where s2: "db_delete k s1 = Some (False, s2)"
    "changed s1 (delete_at (k - 1) (lines s1)) (map (mark_dropped k) (marks s1)) (mark_recs k (marks s1) @ [LOG_LINE_DELETE k (lines s1 ! (k - 1))]) s2"
    "text_ok s2"
    using db_delete_spec [OF r1(1-3) assms(6)] r1(4,5) assms(7) by metis
  define lm where "lm = mark_dropped k (new_mark ?key ?v True)"
  let ?n = "if k < m_lno ?v then m_lno ?v - 1 else m_lno ?v"
  have lm: "lm_lno lm = ?n" "lm_cno lm = m_cno ?v" "\<not> lm_deleted lm"
    using assms(8) by (auto simp: lm_def mark_dropped_def new_mark_def)
  have c: "lines s2 = delete_at (k - 1) (lines s)" "marks s2 = map (mark_dropped k) (marks s1)" "base s2" "screens_ok s2"
    using s2(2) r1(5) by (simp_all add: changed_def)
  have idx: "Suc (m_lno ?v - Suc (Suc 0)) = m_lno ?v - Suc 0" if "k < m_lno ?v" using that assms(6) by arith
  have "mark_lookup (marks s2) (mark_key (vp_character vq)) = Some lm"
    using c(2) so(2) lookup_map [of "mark_dropped k"] by (simp add: assms(10) lm_def)
  moreover have "sorted_marks (marks s2)" using so(1) c(2) sorted_map_names [of "mark_dropped k"] by simp
  moreover have line: "lines s2 ! (?n - 1) = start_line vp s" "0 < ?n" "?n \<le> length (lines s2)"
    using assms(4,6-8) idx by (auto simp: c(1) on_text_def nth_delete_at)
  moreover from this have "on_text \<lparr>m_lno = lm_lno lm, m_cno = lm_cno lm\<rparr> (lines s2)"
    using assms(4) lm by (auto simp: on_text_def)
  ultimately obtain vq' s3 where "v_bmark vq s2 = Some (False, vq', s3)" "m_final vq' = \<lparr>m_lno = ?n, m_cno = m_cno ?v\<rparr>" "reads s2 s3"
    using v_bmark_to [of s2 vq lm] c(3,4) s2(3) lm assms(5,9) screens_tinput by (auto simp: ready_def)
  then show ?thesis using set s2(1) line(1) reads_fields(2) [of s2 s3] by (cases ?v) auto
qed


theorem mark_leads_back_witness:
  "\<exists>s1 s2 vq' s3. v_mark ((vi_start None None \<lparr>m_lno = 3, m_cno = 1\<rparr>)\<lparr>vp_character := CHR ''q''\<rparr>) (opened [''a'', ''b'', ''cd'']) =
       Some (False, (vi_start None None \<lparr>m_lno = 3, m_cno = 1\<rparr>)\<lparr>vp_character := CHR ''q''\<rparr>, s1) \<and>
     db_delete 1 s1 = Some (False, s2) \<and>
     v_bmark ((vi_start None None \<lparr>m_lno = 1, m_cno = 0\<rparr>)\<lparr>vp_character := CHR ''q''\<rparr>) s2 = Some (False, vq', s3) \<and>
     m_final vq' = \<lparr>m_lno = 2, m_cno = 1\<rparr>"
proof -
  define vp where "vp = (vi_start None None \<lparr>m_lno = 3, m_cno = 1\<rparr>)\<lparr>vp_character := CHR ''q''\<rparr>"
  define vq where "vq = (vi_start None None \<lparr>m_lno = 1, m_cno = 0\<rparr>)\<lparr>vp_character := CHR ''q''\<rparr>"
  have v: "m_start vp = \<lparr>m_lno = 3, m_cno = 1\<rparr>" "\<not> ISMOTION vq" "vp_character vp = vp_character vq"
    by (simp_all add: vp_def vq_def vi_start_def ISMOTION_def)
  have o: "marks (opened ls) = []" for ls by (simp add: opened_def)
  show ?thesis
    using mark_leads_back [of "opened [''a'', ''b'', ''cd'']" vp 1 vq] v unfolding vp_def [symmetric] vq_def [symmetric]
    by (auto simp: on_text_def o sorted_marks_def numeral_2_eq_2 numeral_3_eq_3)
qed

end
