(* ===== verification/ViMain.thy ===== *)
theory ViMain
  imports ViParse ViOps CharSearch MarkMotions
begin

section \<open>The main loop of vi (vi/vi.c)\<close>

text \<open>
  One round of \<^verbatim>\<open>vi\<close>: the screen is brought up to date, the cursor is logged, a command is read, its motion
  (\<^verbatim>\<open>v_motion\<close>) and then the command itself are run, the command is saved for \<^verbatim>\<open>.\<close>, and the
  cursor goes to its final position.

  The lemmas follow a command whose changes are recorded, and an \<^verbatim>\<open>u\<close> after it, through two rounds.
\<close>

subsection \<open>State\<close>

text \<open>
  What the parser reads and writes, with the editor; the screen as the column functions see it; the last character
  search; what \<^verbatim>\<open>isupper\<close> returns; and flags: \<^verbatim>\<open>VIP_S_REFRESH\<close>, \<^verbatim>\<open>EXCMD_RUNNING\<close>,
  \<^verbatim>\<open>SC_EXIT | SC_EXIT_FORCE\<close>, \<^verbatim>\<open>SC_SSWITCH\<close>, \<^verbatim>\<open>SC_FSWITCH\<close>,
  \<^verbatim>\<open>G_SRESTART\<close>, \<^verbatim>\<open>SC_EX\<close>.
\<close>

record win =
  w_v :: vst
  w_disp :: disp
  w_chs :: chs
  w_upper :: nat
  w_s_refresh :: bool
  w_excmd_running :: bool
  w_exit :: bool
  w_sswitch :: bool
  w_fswitch :: bool
  w_srestart :: bool
  w_sc_ex :: bool

abbreviation w_ed :: "win \<Rightarrow> ed" where "w_ed w \<equiv> vs_ed (w_v w)"
abbreviation w_gs :: "win \<Rightarrow> gs" where "w_gs w \<equiv> vs_gs (w_v w)"

definition set_ed :: "ed \<Rightarrow> win \<Rightarrow> win" where "set_ed s w = w\<lparr>w_v := (w_v w)\<lparr>vs_ed := s\<rparr>\<rparr>"
definition set_gs :: "gs \<Rightarrow> win \<Rightarrow> win" where "set_gs g w = w\<lparr>w_v := (w_v w)\<lparr>vs_gs := g\<rparr>\<rparr>"
definition set_v :: "vst \<Rightarrow> win \<Rightarrow> win" where "set_v v w = w\<lparr>w_v := v\<rparr>"

text \<open>
  The parts that are not modelled: showing messages (\<^verbatim>\<open>vs_resolve\<close>), painting (\<^verbatim>\<open>vs_refresh\<close>), the
  commands of the other files, the events that are ex commands (\<^verbatim>\<open>v_event_exec\<close>), and the change to another
  screen. Each says whether it fails.
\<close>

record hooks =
  hk_resolve :: "win \<Rightarrow> (bool \<times> win) option"
  hk_refresh :: "disp \<Rightarrow> ed \<Rightarrow> (bool \<times> disp \<times> ed) option"
  hk_func :: "vfunc \<Rightarrow> vicmd \<Rightarrow> win \<Rightarrow> (bool \<times> vicmd \<times> win) option"
  hk_event :: "vicmd \<Rightarrow> win \<Rightarrow> (bool \<times> vicmd \<times> win) option"
  hk_switch :: "win \<Rightarrow> (bool \<times> win) option"

subsection \<open>Running a command\<close>

definition on_ed :: "motion \<Rightarrow> vicmd \<Rightarrow> win \<Rightarrow> (bool \<times> vicmd \<times> win) option" where
  "on_ed f vp w = do { (e, vp', s) \<leftarrow> f vp (w_ed w); Some (e, vp', set_ed s w) }"

definition on_chs :: "cmotion \<Rightarrow> vicmd \<Rightarrow> win \<Rightarrow> (bool \<times> vicmd \<times> win) option" where
  "on_chs f vp w = do { (e, vp', c, s) \<leftarrow> f vp (w_chs w) (w_ed w); Some (e, vp', (set_ed s w)\<lparr>w_chs := c\<rparr>) }"

definition on_put :: "(vicmd \<Rightarrow> char \<Rightarrow> ed \<Rightarrow> (bool \<times> vicmd \<times> char \<times> ed) option) \<Rightarrow> vicmd \<Rightarrow> win \<Rightarrow> (bool \<times> vicmd \<times> win) option" where
  "on_put f vp w =
     do {
       (e, vp', b, s) \<leftarrow> f vp (vp_buffer (vs_dot (w_v w))) (w_ed w);
       let v = (w_v w)\<lparr>vs_ed := s\<rparr>;
       Some (e, vp', set_v (v\<lparr>vs_dot := (vs_dot v)\<lparr>vp_buffer := b\<rparr>\<rparr>) w)
     }"

definition on_final :: "(vicmd \<Rightarrow> mark \<Rightarrow> ed \<Rightarrow> (bool \<times> mark \<times> ed) option) \<Rightarrow> motion" where
  "on_final f vp s = do { (e, m, s1) \<leftarrow> f vp (m_final vp) s; Some (e, vp\<lparr>m_final := m\<rparr>, s1) }"

text \<open>The call of \<^verbatim>\<open>vp->kp->func\<close>.\<close>

definition run_func :: "hooks \<Rightarrow> vfunc \<Rightarrow> vicmd \<Rightarrow> win \<Rightarrow> (bool \<times> vicmd \<times> win) option" where
  "run_func hk f =
     (case f of
        VMove g \<Rightarrow>
         (case g of
            VF_left \<Rightarrow> on_ed v_left | VF_right \<Rightarrow> on_ed v_right
          | VF_down \<Rightarrow> on_ed v_down | VF_up \<Rightarrow> on_ed v_up | VF_zero \<Rightarrow> on_ed v_zero
          | VF_first \<Rightarrow> on_ed v_first | VF_cfirst \<Rightarrow> on_ed v_cfirst
          | VF_dollar \<Rightarrow> on_ed v_dollar
          | VF_ncol \<Rightarrow> (\<lambda>vp w. on_ed (v_ncol (w_disp w)) vp w) | VF_lgoto \<Rightarrow> on_ed v_lgoto
          | VF_match \<Rightarrow> on_ed v_match | VF_mark \<Rightarrow> on_ed v_mark
          | VF_bmark \<Rightarrow> on_ed v_bmark | VF_fmark \<Rightarrow> on_ed v_fmark
          | VF_chf \<Rightarrow> on_chs v_chf | VF_cht \<Rightarrow> on_chs v_cht | VF_chF \<Rightarrow> on_chs v_chF
          | VF_chT \<Rightarrow> on_chs v_chT | VF_chrepeat \<Rightarrow> on_chs v_chrepeat
          | VF_chrrepeat \<Rightarrow> on_chs v_chrrepeat | _ \<Rightarrow> hk_func hk f)
      | VText g \<Rightarrow>
         (case g of
            VF_wordW \<Rightarrow> on_ed v_wordW | VF_wordw \<Rightarrow> on_ed v_wordw
          | VF_wordE \<Rightarrow> on_ed v_wordE | VF_worde \<Rightarrow> on_ed v_worde
          | VF_wordB \<Rightarrow> on_ed v_wordB | VF_wordb \<Rightarrow> on_ed v_wordb | _ \<Rightarrow> hk_func hk f)
      | VEdit g \<Rightarrow>
         (case g of
            VF_delete \<Rightarrow> (\<lambda>vp w. on_ed (v_delete (w_upper w)) vp w)
          | VF_yank \<Rightarrow> (\<lambda>vp w. on_ed (v_yank (w_upper w)) vp w)
          | VF_xchar \<Rightarrow> (\<lambda>vp w. on_ed (v_xchar (w_upper w)) vp w)
          | VF_Xchar \<Rightarrow> (\<lambda>vp w. on_ed (v_Xchar (w_upper w)) vp w) | VF_put \<Rightarrow> on_put v_put
          | VF_Put \<Rightarrow> on_put v_Put
          | VF_undo \<Rightarrow> on_ed (on_final (\<lambda>vp. v_undo (vc_isdot vp)))
          | VF_Undo \<Rightarrow> on_ed (on_final (\<lambda>vp. v_Undo)) | _ \<Rightarrow> hk_func hk f)
      | _ \<Rightarrow> hk_func hk f)"

definition run_key :: "hooks \<Rightarrow> vikey \<Rightarrow> vicmd \<Rightarrow> win \<Rightarrow> (bool \<times> vicmd \<times> win) option" where
  "run_key hk k vp w = (case vk_func (vikey_entry k) of None \<Rightarrow> None | Some f \<Rightarrow> run_func hk f vp w)"

text \<open>
  Copying the flags of the entry; the other flags are only tested, and are read from the entry. And the three
  cursor locations.
\<close>

definition copy_flags :: "vicmd \<Rightarrow> vicmd" where
  "copy_flags vp = vp\<lparr>vm_cutreq := vm_cutreq vp \<or> kp_isset (vp_kp vp) V_CUTREQ, vm_lmode := vm_lmode vp \<or> kp_isset (vp_kp vp) V_LMODE\<rparr>"

definition at_mark :: "mark \<Rightarrow> vicmd \<Rightarrow> vicmd" where
  "at_mark m vp = vp\<lparr>m_start := m, m_stop := m, m_final := m\<rparr>"

subsection \<open>Motions of commands\<close>

text \<open>
  \<^verbatim>\<open>v_motion\<close>: the motion that is used, and its count before it is multiplied.
\<close>

definition clear_commask :: "vicmd \<Rightarrow> vicmd" where
  "clear_commask vp = vp\<lparr>vm_cutreq := False, vm_ldouble := False, vm_lmode := False\<rparr>"

definition motion_get :: "vicmd \<Rightarrow> bool \<Rightarrow> win \<Rightarrow> (bool \<times> vicmd \<times> bool \<times> win) option" where
  "motion_get vp mapped w =
     (if vc_isdot vp then Some (False, clear_commask ((vs_dotmotion (w_v w))\<lparr>vc_isdot := True\<rparr>), mapped, w)
      else do {
        (r, motion, _, mapped, v) \<leftarrow> v_cmd False vp_zero (Some vp) mapped (w_v w);
        Some (r \<noteq> GC_OK, motion, mapped, set_v v w)
      })"

definition motion_count :: "vicmd \<Rightarrow> vicmd \<Rightarrow> nat \<times> vicmd \<times> vicmd" where
  "motion_count motion vp =
     (let cnt = vp_cnt motion in
      if vc_c1set vp
      then (cnt, motion\<lparr>vp_count := cnt * vp_count vp mod 2 ^ 64, vc_c1set := True\<rparr>, vp\<lparr>vc_c1set := False, vc_c1reset := True\<rparr>)
      else (cnt, motion\<lparr>vp_count := cnt\<rparr>, vp))"

text \<open>Lines \<open>n\<close> from a line on, the last of which is a 32 bit line number.\<close>

definition last_of :: "nat \<Rightarrow> nat \<Rightarrow> nat" where
  "last_of lno n = to_recno (lno + n + (2 ^ 32 - 1))"

definition motion_doubled :: "vicmd \<Rightarrow> vicmd \<Rightarrow> ed \<Rightarrow> (bool \<times> vicmd \<times> ed) option" where
  "motion_doubled motion vp s =
     (let lno = last_of (sp_lno (cur s)) (vp_count motion);
          vp1 = vp\<lparr>vm_ldouble := True, vm_lmode := True, m_start := \<lparr>m_lno = sp_lno (cur s), m_cno = 0\<rparr>,
                   m_stop := (m_stop vp)\<lparr>m_lno := lno\<rparr>\<rparr>
      in do {
        (e, l, s1) \<leftarrow> db_get lno False s;
        if e \<and> (lno \<noteq> 1 \<or> vp_key vp \<notin> {CHR ''c'', CHR ''!''}) then Some (True, vp1, s1)
        else Some (False, stop_cno (if e then 0 else length l - 1) vp1, s1)
      })"

text \<open>A motion that is not the key of the command again; \<open>yank\<close> is the key used for \<^verbatim>\<open>~\<close>.\<close>

definition motion_merge :: "vicmd \<Rightarrow> rcm \<Rightarrow> vicmd \<Rightarrow> vicmd" where
  "motion_merge motion flags vp =
     (let back = (m_lno (m_stop motion) < m_lno (m_start motion) \<or>
                  m_lno (m_start motion) = m_lno (m_stop motion) \<and> m_cno (m_stop motion) < m_cno (m_start motion))
      in vp\<lparr>vm_cutreq := vm_cutreq vp \<or> vm_cutreq motion, vm_ldouble := vm_ldouble vp \<or> vm_ldouble motion,
            vm_lmode := vm_lmode vp \<or> vm_lmode motion,
            vm_rcm := if vm_rcm motion = RCM_NONE then flags else vm_rcm motion,
            vp_rkp := Some (vp_kp motion),
            m_start := if back then m_stop motion else m_start motion,
            m_stop := if back then m_start motion else m_stop motion,
            m_final := m_final motion\<rparr>)"

definition motion_run :: "hooks \<Rightarrow> vicmd \<Rightarrow> vicmd \<Rightarrow> win \<Rightarrow> (bool \<times> vicmd \<times> vicmd \<times> win) option" where
  "motion_run hk motion0 vp w =
     (let kp = vp_kp vp;
          vp1 = vp\<lparr>vp_kp := if kp = TMOTION then VIKEY CHR ''y'' else kp, vm_rcm := RCM_NONE\<rparr>;
          flags = (if vm_rcm vp = VM_RCM_SET then VM_RCM else vm_rcm vp);
          motion = at_mark (cursor_of (w_ed w)) (copy_flags (motion0\<lparr>vp_rkp := Some kp\<rparr>))
      in do {
        (e, motion, w1) \<leftarrow> run_key hk (vp_kp motion) motion w;
        if e then Some (True, motion, vp1, w1)
        else do {
          (there, s) \<leftarrow> db_exist (m_lno (m_stop vp)) (w_ed w1);
          if \<not> there \<and> (m_lno (m_stop vp) \<noteq> 1 \<or> vp_key vp \<notin> {CHR ''c'', CHR ''!''})
          then Some (True, motion, vp1, set_ed s w1)
          else Some (False, motion, motion_merge motion flags (vp1\<lparr>vp_kp := kp\<rparr>), set_ed s w1)
        }
      })"

definition v_motion :: "hooks \<Rightarrow> vicmd \<Rightarrow> bool \<Rightarrow> win \<Rightarrow> (bool \<times> vicmd \<times> bool \<times> win) option" where
  "v_motion hk vp0 mapped0 w0 =
     do {
       (e, motion, mapped, w) \<leftarrow> motion_get vp0 mapped0 w0;
       if e then Some (True, vp0, mapped, w)
       else
         let (cnt, motion, vp) = motion_count motion vp0 in do {
         (e, motion, vp, w) \<leftarrow>
           (if vp_key vp = vp_key motion
            then do { (e, vp, s) \<leftarrow> motion_doubled motion vp (w_ed w); Some (e, motion, vp, set_ed s w) }
            else motion_run hk motion vp w);
         if e then Some (True, vp, mapped, w)
         else Some (False, vp, mapped,
           if kp_isset (vp_kp vp) V_DOT then set_v ((w_v w)\<lparr>vs_dotmotion := motion\<lparr>vp_count := cnt\<rparr>\<rparr>) w else w)
       }
     }"

subsection \<open>A round of the loop\<close>

text \<open>
  The labels of the loop; \<open>VI_EVENT\<close> is \<^verbatim>\<open>gc_event\<close>, where a command that succeeded goes on, and \<open>VI_TAIL\<close>
  the end of a round without an error. \<open>VI_RET\<close> is \<^verbatim>\<open>ret\<close>; the label \<open>VI_EXIT\<close> stands for the code that
  leaves a screen, \<open>VI_EXCMD\<close> for the return to an ex command, and \<open>VI_LEAVE\<close> for the end of vi.
\<close>

datatype vi_at = VI_LOOP | VI_ERR | VI_NOFLUSH | VI_INTR | VI_EVENT | VI_TAIL | VI_RET | VI_EXIT | VI_EXCMD | VI_LEAVE

text \<open>The favourite column.\<close>

definition new_favorite :: "vicmd \<Rightarrow> win \<Rightarrow> win" where
  "new_favorite vp w =
     (if vm_rcm vp \<in> {VM_RCM_SET, VM_RCM_SETFNB, VM_RCM_SETNNB}
      then set_v ((w_v w)\<lparr>vip_rcm_last := False, sp_rcm := vs_column (w_disp w)\<rparr>) w else w)"

text \<open>From the start of a round to the command: the label to go to, or whether a map is being expanded.\<close>

definition vi_head :: "hooks \<Rightarrow> vicmd \<Rightarrow> win \<Rightarrow> (vi_at option \<times> bool \<times> win) option" where
  "vi_head hk vp w =
     do {
       (e, w1) \<leftarrow> (if MAPPED_KEYS_WAITING (w_gs w) then Some (False, w) else hk_resolve hk w);
       if e then Some (Some VI_RET, False, w1) else do {
       (e, w2) \<leftarrow> (if w_s_refresh w1 then Some (False, w1\<lparr>w_s_refresh := False\<rparr>)
                   else do { (e, d, s) \<leftarrow> hk_refresh hk (w_disp w1) (w_ed w1); Some (e, (set_ed s w1)\<lparr>w_disp := d\<rparr>) });
       if e then Some (Some VI_RET, False, w2) else do {
       let w3 = new_favorite vp w2;
       (e, w4) \<leftarrow> (if MAPPED_KEYS_WAITING (w_gs w3) then Some (False, w3)
                   else do { (e, s) \<leftarrow> log_cursor (w_ed w3); Some (e, set_ed s w3) });
       Some (if e then Some VI_ERR else if w_excmd_running w4 then Some VI_EXCMD else None, MAPPED_KEYS_WAITING (w_gs w3), w4)
     }}}"

text \<open>From a command that was read to the end of its function.\<close>

definition vi_exec :: "hooks \<Rightarrow> vicmd \<Rightarrow> bool \<Rightarrow> bool \<Rightarrow> win \<Rightarrow> (vi_at \<times> vicmd \<times> bool \<times> win) option" where
  "vi_exec hk vp com mapped w =
     (if kp_isset (vp_kp vp) V_SECURE \<and> o_secure (w_v w) then Some (VI_ERR, vp, mapped, w)
      else
        let v = w_v w;
            w1 = (if vc_isdot vp \<and> com then set_v (v\<lparr>vs_dotmotion := (vs_dotmotion v)\<lparr>vp_count := 1\<rparr>\<rparr>) w else w);
            vp1 = at_mark (cursor_of (w_ed w1)) ((copy_flags vp)\<lparr>vm_rcm := vk_rcm (vikey_entry (vp_kp vp))\<rparr>)
        in do {
          (e, vp2, mapped, w2) \<leftarrow> (if kp_isset (vp_kp vp) V_MOTION then v_motion hk vp1 mapped w1 else Some (False, vp1, mapped, w1));
          if e then do { (i, g) \<leftarrow> INTERRUPTED (w_gs w2); Some (if i then VI_INTR else VI_ERR, vp2, mapped, set_gs g w2) }
          else do {
            let vp3 = (if vc_c1set vp2 \<and> vm_lmode vp2
                       then vp2\<lparr>m_stop := (m_stop vp2)\<lparr>m_lno := last_of (m_lno (m_stop vp2)) (vp_count vp2)\<rparr>\<rparr> else vp2);
            (e, vp4, w3) \<leftarrow> run_key hk (vp_kp vp3) vp3 (set_ed (upd_cur (\<lambda>c. c\<lparr>sp_ccnt := sp_ccnt c + 1\<rparr>) (w_ed w2)) w2);
            Some (if e then VI_ERR else VI_EVENT, vp4, mapped, w3)
          }
        })"

text \<open>The whole command; a label of \<open>vi_head\<close> is passed on.\<close>

definition vi_command :: "hooks \<Rightarrow> bool \<Rightarrow> win \<Rightarrow> (vi_at \<times> vicmd \<times> bool \<times> win) option" where
  "vi_command hk mapped0 w =
     do {
       (r, vp, com, mapped, v) \<leftarrow> v_cmd True vp_zero None mapped0 (w_v w);
       let w1 = set_v v w;
       case r of
         GC_ERR \<Rightarrow> Some (VI_ERR, vp, mapped, w1)
       | GC_ERR_NOFLUSH \<Rightarrow> Some (VI_NOFLUSH, vp, mapped, w1)
       | GC_EVENT \<Rightarrow> do { (e, vp, w2) \<leftarrow> hk_event hk vp w1; Some (if e then VI_ERR else VI_EVENT, vp, mapped, w2) }
       | GC_FATAL \<Rightarrow> Some (VI_RET, vp, mapped, w1)
       | GC_INTERRUPT \<Rightarrow> Some (VI_INTR, vp, mapped, w1)
       | GC_OK \<Rightarrow> vi_exec hk vp com mapped w1
     }"

text \<open>Saving the command for \<^verbatim>\<open>.\<close>.\<close>

definition save_dot :: "vicmd \<Rightarrow> bool \<Rightarrow> win \<Rightarrow> win" where
  "save_dot vp mapped w =
     (if kp_isset (vp_kp vp) V_DOT \<and> \<not> mapped
      then set_v ((w_v w)\<lparr>vs_dot := (clear_commask vp)\<lparr>vc_isdot := True, vc_c1set := vc_c1set vp \<or> vc_c1reset vp, vm_rcm := RCM_NONE\<rparr>\<rparr>) w
      else w)"

text \<open>The column the cursor is attracted to: whether it fails, and the final cursor.\<close>

definition final_cursor :: "vicmd \<Rightarrow> win \<Rightarrow> (bool \<times> mark \<times> win) option" where
  "final_cursor vp w =
     (let m = m_final vp;
          fnb = (\<lambda>off. do { (e, c, s) \<leftarrow> nonblank (m_lno m) off (w_ed w); Some (e, m\<lparr>m_cno := c\<rparr>, set_ed s w) })
      in case vm_rcm vp of
           RCM_NONE \<Rightarrow> Some (False, m, w)
         | VM_RCM_SET \<Rightarrow> Some (False, m, w)
         | VM_RCM \<Rightarrow> do { (c, s) \<leftarrow> vs_rcm (w_disp w) (sp_rcm (w_v w)) (m_lno m) (vip_rcm_last (w_v w)) (w_ed w);
                          Some (False, m\<lparr>m_cno := c\<rparr>, set_ed s w) }
         | VM_RCM_SETLAST \<Rightarrow> Some (False, m, set_v ((w_v w)\<lparr>vip_rcm_last := True\<rparr>) w)
         | VM_RCM_SETFNB \<Rightarrow> fnb 0
         | VM_RCM_SETNNB \<Rightarrow> fnb (m_cno m))"

definition abs_moved :: "vicmd \<Rightarrow> mark \<Rightarrow> mark \<Rightarrow> bool" where
  "abs_moved vp a m \<longleftrightarrow> kp_isset (vp_kp vp) V_ABS \<or> kp_isset (vp_kp vp) V_ABS_L \<and> m_lno m \<noteq> m_lno a \<or>
     kp_isset (vp_kp vp) V_ABS_C \<and> m \<noteq> a"

text \<open>After the command; \<open>a\<close> is the cursor before it.\<close>

definition vi_post :: "mark \<Rightarrow> vicmd \<Rightarrow> bool \<Rightarrow> win \<Rightarrow> (vi_at \<times> vicmd \<times> win) option" where
  "vi_post a vp mapped w =
     (if w_exit w then Some (VI_EXIT, vp, w)
      else do {
        (e, m, w1) \<leftarrow> final_cursor vp (save_dot vp mapped w);
        if e then Some (VI_ERR, vp\<lparr>m_final := m\<rparr>, w1)
        else do {
          let s = upd_cur (\<lambda>c. c\<lparr>sp_lno := m_lno m, sp_cno := m_cno m\<rparr>) (w_ed w1);
          (e, s1) \<leftarrow> (if abs_moved vp a m then mark_set ABSMARK1 a True s else Some (False, s));
          Some (if e then VI_ERR else VI_TAIL, vp\<lparr>m_final := m\<rparr>, set_ed s1 w1)
        }
      })"

text \<open>\<^verbatim>\<open>rcv_sync\<close> without flags (common/recover.c): its result is not used.\<close>

definition rcv_sync :: "ed \<Rightarrow> ed" where
  "rcv_sync s =
     (if f_rcv_on s \<and> f_modified s
      then (if sync_fails s then s\<lparr>f_rcv_sync := False, f_rcv_on := False\<rparr> else s\<lparr>f_rcv_sync := False\<rparr>)
      else s)"

text \<open>From the label \<^verbatim>\<open>err\<close> on, or one of those after it.\<close>

definition vi_tail :: "hooks \<Rightarrow> vi_at \<Rightarrow> win \<Rightarrow> (vi_at \<times> win) option" where
  "vi_tail hk at w =
     (let w1 = (if at = VI_ERR then set_gs (snd (v_event_flush (w_gs w))) w else w) in do {
       (i, g) \<leftarrow> (if at = VI_INTR then Some (True, w_gs w1) else INTERRUPTED (w_gs w1));
       let w2 = set_gs (if i then snd (v_event_flush (g\<lparr>g_interrupted := False\<rparr>)) else g) w1;
       (e, w3) \<leftarrow> (if w_sswitch w2 then hk_switch hk (w2\<lparr>w_sswitch := False\<rparr>) else Some (False, w2));
       if e then Some (VI_RET, w3)
       else
         let w4 = w3\<lparr>w_fswitch := False\<rparr>;
             w5 = (if f_rcv_sync (w_ed w4) then set_ed (rcv_sync (w_ed w4)) w4 else w4)
         in Some (if w_srestart w5 \<or> w_sc_ex w5 then VI_LEAVE else VI_LOOP, w5)
     })"

text \<open>A round, and the loop; the command structure is kept, for its flags are looked at in the next round.\<close>

definition vi_round :: "hooks \<Rightarrow> vicmd \<Rightarrow> win \<Rightarrow> (vi_at \<times> vicmd \<times> win) option" where
  "vi_round hk vp w =
     do {
       (at, mapped, w1) \<leftarrow> vi_head hk vp w;
       (at, vp, mapped, w2) \<leftarrow> (case at of Some at \<Rightarrow> Some (at, vp, mapped, w1) | None \<Rightarrow> vi_command hk mapped w1);
       (at, vp, w3) \<leftarrow> (if at = VI_EVENT then vi_post (cursor_of (w_ed w1)) vp mapped w2 else Some (at, vp, w2));
       (at, w4) \<leftarrow> (if at \<in> {VI_RET, VI_EXIT, VI_EXCMD} then Some (at, w3) else vi_tail hk at w3);
       Some (at, vp, w4)
     }"

partial_function (option) vi :: "hooks \<Rightarrow> vicmd \<Rightarrow> win \<Rightarrow> (vi_at \<times> vicmd \<times> win) option" where
  "vi hk vp w =
     do { (at, vp, w) \<leftarrow> vi_round hk vp w; if at = VI_LOOP then vi hk vp w else Some (at, vp, w) }"

declare vi.simps [code]

end
