(* ===== verification/ViLoop.thy ===== *)
theory ViLoop
  imports ViMain
begin

section \<open>Commands and undo through the main loop\<close>

text \<open>
  Rounds of the main loop in a calm environment: no messages, no interrupts, no maps. What a round
  does before and after the command, the round of an \<^verbatim>\<open>u\<close>, and rounds of commands whose changes are recorded.
\<close>

subsection \<open>A calm environment\<close>

text \<open>The terminal reports no interrupts; the keys wait in the queue.\<close>

definition no_interrupts :: "gs \<Rightarrow> bool" where
  "no_interrupts g \<longleftrightarrow> \<not> g_script_fails g \<and> \<not> g_interrupted g \<and>
     (\<forall>n. fst (scr_event g n EC_INTERRUPT 0) = False \<and> e_event (snd (scr_event g n EC_INTERRUPT 0)) = E_TIMEOUT)"

definition typed_in :: "bytes \<Rightarrow> win \<Rightarrow> bool" where
  "typed_in cs w \<longleftrightarrow> ready_keys (typed (w_gs w) cs) (w_v w) \<and> list_all (plain_key (w_gs w)) cs \<and> no_interrupts (w_gs w)"

text \<open>Nothing but editing goes on.\<close>

definition at_ease :: "win \<Rightarrow> bool" where
  "at_ease w \<longleftrightarrow> \<not> w_excmd_running w \<and> \<not> w_exit w \<and> \<not> w_sswitch w \<and> \<not> w_srestart w \<and> \<not> w_sc_ex w"

text \<open>
  Painting reads lines, so the cache may change, and it changes the screen map and the flags for painting, but nothing else;
  there are no messages to show.
\<close>

definition paints :: "scr \<Rightarrow> scr \<Rightarrow> bool" where
  "paints c c' \<longleftrightarrow> (screen_ok c \<longrightarrow> screen_ok c') \<and>
     c' = c\<lparr>sp_map := sp_map c', sp_ss_lno := sp_ss_lno c', sp_cur_invalid := sp_cur_invalid c', sp_n_renumber := sp_n_renumber c',
            sp_n_refresh := sp_n_refresh c', sp_n_ex_redraw := sp_n_ex_redraw c'\<rparr>"

definition redrawn :: "ed \<Rightarrow> ed \<Rightarrow> bool" where
  "redrawn s s' \<longleftrightarrow> (\<exists>c. paints (cur s) c \<and> keeps (s\<lparr>cur := c\<rparr>) s')"

definition calm :: "hooks \<Rightarrow> bool" where
  "calm hk \<longleftrightarrow> (\<forall>w. hk_resolve hk w = Some (False, w)) \<and>
     (\<forall>d s. base s \<longrightarrow> (\<exists>d' s'. hk_refresh hk d s = Some (False, d', s') \<and> redrawn s s'))"

text \<open>What a round leaves alone outside of the editor's state and the keys.\<close>

definition same_ui :: "win \<Rightarrow> win \<Rightarrow> bool" where
  "same_ui w w' \<longleftrightarrow> at_ease w' = at_ease w \<and> o_tildeop (w_v w') = o_tildeop (w_v w) \<and> o_secure (w_v w') = o_secure (w_v w) \<and>
     w_upper w' = w_upper w"

lemma same_ui_refl [simp]: "same_ui w w"
  by (simp add: same_ui_def)

lemma same_ui_trans: "same_ui w w' \<Longrightarrow> same_ui w' w'' \<Longrightarrow> same_ui w w''"
  by (simp add: same_ui_def)

lemma win_sel [simp]:
  "w_v (set_ed s w) = (w_v w)\<lparr>vs_ed := s\<rparr>" "w_v (set_gs g w) = (w_v w)\<lparr>vs_gs := g\<rparr>" "w_v (set_v v w) = v"
  "w_upper (set_ed s w) = w_upper w" "w_upper (set_gs g w) = w_upper w" "w_upper (set_v v w) = w_upper w"
  "w_disp (set_ed s w) = w_disp w" "w_disp (set_gs g w) = w_disp w" "w_disp (set_v v w) = w_disp w"
  "at_ease (set_ed s w) = at_ease w" "at_ease (set_gs g w) = at_ease w" "at_ease (set_v v w) = at_ease w"
  "at_ease (w\<lparr>w_disp := d\<rparr>) = at_ease w" "at_ease (w\<lparr>w_s_refresh := b\<rparr>) = at_ease w" "at_ease (w\<lparr>w_fswitch := b\<rparr>) = at_ease w"
  "at_ease (w\<lparr>w_chs := c\<rparr>) = at_ease w"
  by (simp_all add: set_ed_def set_gs_def set_v_def at_ease_def)

lemma new_favorite_sel [simp]:
  "w_gs (new_favorite vp w) = w_gs w" "w_ed (new_favorite vp w) = w_ed w" "same_ui w (new_favorite vp w)"
  "at_ease (new_favorite vp w) = at_ease w" "vs_dot (w_v (new_favorite vp w)) = vs_dot (w_v w)"
  "w_upper (new_favorite vp w) = w_upper w" "o_tildeop (w_v (new_favorite vp w)) = o_tildeop (w_v w)"
  "o_secure (w_v (new_favorite vp w)) = o_secure (w_v w)"
  by (simp_all add: new_favorite_def same_ui_def)

lemma typed_in_cong: "w_gs w' = w_gs w \<Longrightarrow> typed_in cs w' = typed_in cs w"
  by (simp add: typed_in_def ready_keys_def)

lemma typed_in_unmapped: "typed_in cs w \<Longrightarrow> \<not> MAPPED_KEYS_WAITING (w_gs w)"
  using iq_first [of "w_gs w"] iq_cnt [of "w_gs w"]
  by (cases cs) (auto simp: typed_in_def ready_keys_def MAPPED_KEYS_WAITING_def typed_def key_event_def CH_NONE_def)

lemma requeued_typed_in:
  assumes "typed_in cs w" "requeued (typed (w_gs w) cs') (w_gs w) g" "set cs' \<subseteq> set cs" "w_gs w' = g"
  shows "typed_in cs' w'"
proof -
  note f = requeued_fields [OF assms(2)]
  have "KEY_VAL g = KEY_VAL (w_gs w)" using f(5) by (simp add: KEY_VAL_def fun_eq_iff)
  then have "plain_key g = plain_key (w_gs w)" "typed g cs' = typed (w_gs w) cs'" using f(1,13) by (simp_all add: plain_key_def typed_def fun_eq_iff)
  then show ?thesis using assms f by (auto simp: typed_in_def ready_keys_def no_interrupts_def list_all_iff)
qed

lemma reads_to_typed_in:
  assumes "typed_in cs w" "reads_to (typed (w_gs w) cs') (w_v w) v" "set cs' \<subseteq> set cs"
  shows "typed_in cs' (set_v v w)"
proof -
  obtain g where "v = (w_v w)\<lparr>vs_gs := g\<rparr>" "requeued (typed (w_gs w) cs') (w_gs w) g" using assms(2) by (auto simp: reads_to_def)
  then show ?thesis by (intro requeued_typed_in [OF assms(1) _ assms(3)]) simp_all
qed

lemma INTERRUPTED_quiet:
  assumes "no_interrupts g"
  shows "INTERRUPTED g = Some (False, g\<lparr>g_asked := g_asked g + 1\<rparr>)"
proof -
  obtain ev where ev: "scr_event g (g_asked g) EC_INTERRUPT 0 = (False, ev)" "e_event ev = E_TIMEOUT"
    using assms unfolding no_interrupts_def by (metis prod.collapse)
  have f: "EC_NONE\<lparr>ec_interrupt := ec_interrupt EC_INTERRUPT, ec_quoted := ec_quoted EC_INTERRUPT, ec_raw := ec_raw EC_INTERRUPT\<rparr> = EC_INTERRUPT"
    by (simp add: EC_INTERRUPT_def EC_NONE_def)
  have "get_step EC_INTERRUPT (Retry 0) g = Some (Inr (False, Some ev, g\<lparr>g_asked := g_asked g + 1\<rparr>))"
    using assms ev unfolding get_step_def get_read_def f by (simp add: ask_def no_interrupts_def EC_INTERRUPT_def EC_NONE_def Let_def)
  then have "v_event_get EC_INTERRUPT 0 g = Some (False, Some ev, g\<lparr>g_asked := g_asked g + 1\<rparr>)"
    by (simp add: v_event_get_def get_run.simps [of EC_INTERRUPT "Retry 0"])
  then show ?thesis using assms by (simp add: INTERRUPTED_def no_interrupts_def)
qed

lemma asked_typed_in:
  assumes "typed_in cs w" "w_gs w' = (w_gs w)\<lparr>g_asked := n\<rparr>"
  shows "typed_in cs w'"
proof -
  have "KEY_VAL (w_gs w') = KEY_VAL (w_gs w)" using assms(2) by (simp add: KEY_VAL_def fun_eq_iff)
  then have "plain_key (w_gs w') = plain_key (w_gs w)" "typed (w_gs w') cs = typed (w_gs w) cs"
    using assms(2) by (simp_all add: plain_key_def typed_def key_event_def fun_eq_iff)
  then show ?thesis using assms by (simp add: typed_in_def ready_keys_def gs_ok_def iq_def no_interrupts_def)
qed


subsection \<open>Steps that are recorded\<close>

text \<open>By recorded changes the lines have become \<open>ls\<close>.\<close>

definition recorded :: "ed \<Rightarrow> bytes list \<Rightarrow> ed \<Rightarrow> bool" where
  "recorded s ls s' \<longleftrightarrow> editing s' \<and> text_ok s' \<and> lines s' = ls \<and> evolves s s'"

lemma recordedD: "recorded s ls s' \<Longrightarrow> editing s'" "recorded s ls s' \<Longrightarrow> text_ok s'" "recorded s ls s' \<Longrightarrow> lines s' = ls"
  "recorded s ls s' \<Longrightarrow> evolves s s'"
  by (simp_all add: recorded_def)

lemma cuts_recorded: "cuts s ls txt lm s' \<Longrightarrow> recorded s ls s'"
  by (simp add: cuts_def recorded_def)

lemma becomes_recorded: "becomes s ls s' \<Longrightarrow> text_ok s \<Longrightarrow> recorded s ls s'"
  by (simp add: becomes_def recorded_def)

lemma recorded_trans: "recorded s ls s' \<Longrightarrow> recorded s' ls' s'' \<Longrightarrow> recorded s ls' s''"
  using evolves_trans [of s s' s''] by (simp add: recorded_def)

lemma recorded_keeps: "recorded s ls s' \<Longrightarrow> keeps s' s'' \<Longrightarrow> recorded s ls s''"
  using becomes_recorded [OF keeps_becomes [of s' s'']] recorded_trans [of s ls s' _ s''] by (auto simp: recorded_def)

lemma editing_cur:
  assumes "editing s" "screens_ok (s\<lparr>cur := c\<rparr>)" "text_ok s"
  shows "recorded s (lines s) (s\<lparr>cur := c\<rparr>)"
proof -
  have lg: "same_log s (s\<lparr>cur := c\<rparr>)" by (simp add: same_log_def)
  have b: "base (s\<lparr>cur := c\<rparr>)" "text_ok (s\<lparr>cur := c\<rparr>)" using assms by (simp_all add: editing_def base_def count_ok_def text_ok_def)
  have "log_ready (s\<lparr>cur := c\<rparr>)" using editingD(3) [OF assms(1)] same_log_view(5) [OF lg] by (simp add: log_ready_def)
  then show ?thesis using assms b same_event [of "s\<lparr>cur := c\<rparr>" s] lg by (simp add: recorded_def editing_def)
qed

lemma recorded_cur: "recorded s ls s' \<Longrightarrow> screens_ok (s'\<lparr>cur := c\<rparr>) \<Longrightarrow> recorded s ls (s'\<lparr>cur := c\<rparr>)"
  using editing_cur [of s' c] recorded_trans [of s ls s'] by (auto simp: recorded_def)

lemma recorded_upd_cur:
  assumes "recorded s ls s'" "\<And>c. sp_tinput (f c) = sp_tinput c" "\<And>c. sp_ex (f c) = sp_ex c" "\<And>c. screen_ok (f c) = screen_ok c"
  shows "recorded s ls (upd_cur f s')"
  unfolding upd_cur_def
  by (rule recorded_cur [OF assms(1)]) (use assms in \<open>simp add: recorded_def editing_def screens_ok_def\<close>)

lemma paints_sel:
  assumes "paints c c'"
  shows "sp_tinput c' = sp_tinput c" "sp_ex c' = sp_ex c" "sp_lno c' = sp_lno c" "sp_cno c' = sp_cno c" "screen_ok c \<Longrightarrow> screen_ok c'"
proof -
  obtain m l a b d e where "c' = c\<lparr>sp_map := m, sp_ss_lno := l, sp_cur_invalid := a, sp_n_renumber := b, sp_n_refresh := d, sp_n_ex_redraw := e\<rparr>"
    using assms unfolding paints_def by blast
  then show "sp_tinput c' = sp_tinput c" "sp_ex c' = sp_ex c" "sp_lno c' = sp_lno c" "sp_cno c' = sp_cno c" by simp_all
  show "screen_ok c \<Longrightarrow> screen_ok c'" using assms by (simp add: paints_def)
qed

lemma history_keeps:
  assumes "history s ls p q" "keeps s s'"
  shows "history s' ls p q"
proof -
  note f = reads_fields [OF keepsD(2) [OF assms(2)]]
  have "log_ok s' = log_ok s" using same_log_view(1) [OF reads_same_log [OF keepsD(2) [OF assms(2)]] f(12)] .
  moreover have "screens_ok s' = screens_ok s" using f(19,20) by (simp add: screens_ok_def)
  ultimately show ?thesis using assms(1) keepsD(1) [OF assms(2)] f unfolding history_def by metis
qed

lemma redrawn_recorded:
  assumes r: "recorded t ls s" and p: "redrawn s s'"
  shows "recorded t ls s'" "cursor_of s' = cursor_of s" "f_undo s' = f_undo s" "lundo s' = lundo s"
proof -
  obtain c where c: "paints (cur s) c" "keeps (s\<lparr>cur := c\<rparr>) s'" using p by (auto simp: redrawn_def)
  note f = reads_fields [OF keepsD(2) [OF c(2)]] and cs = paints_sel [OF c(1)]
  have "screens_ok (s\<lparr>cur := c\<rparr>)" using recordedD(1) [OF r] cs by (auto simp: editing_def screens_ok_def)
  with r c(2) show "recorded t ls s'" by (blast intro: recorded_cur recorded_keeps)
  show "cursor_of s' = cursor_of s" "f_undo s' = f_undo s" "lundo s' = lundo s" using f(8,13,19) cs by (simp_all add: cursor_of_def)
qed

lemma redrawn_history:
  assumes "history s ls p q" "redrawn s s'"
  shows "history s' ls p q"
proof -
  obtain c where c: "paints (cur s) c" "keeps (s\<lparr>cur := c\<rparr>) s'" using assms(2) by (auto simp: redrawn_def)
  have "screens_ok (s\<lparr>cur := c\<rparr>)" using historyD(2) [OF assms(1)] paints_sel [OF c(1)] by (auto simp: screens_ok_def)
  then show ?thesis using history_keeps [OF history_cur [OF assms(1)] c(2)] by blast
qed

lemma redrawn_same: "base s \<Longrightarrow> redrawn s s"
  unfolding redrawn_def by (intro exI [of _ "cur s"]) (simp add: paints_def keeps_refl)

lemma rcv_sync_recorded:
  assumes "recorded s ls s'"
  shows "recorded s ls (rcv_sync s')"
proof -
  let ?t = "rcv_sync s'"
  have lg: "same_log s' ?t" "f_nolog ?t = f_nolog s'" "lines ?t = lines s'" by (simp_all add: rcv_sync_def same_log_def)
  have b: "base ?t" "text_ok ?t" "screens_ok ?t" using assms
    by (auto simp: recorded_def editing_def rcv_sync_def base_def count_ok_def text_ok_def screens_ok_def)
  have "log_ready ?t" using editingD(3) [OF recordedD(1) [OF assms]] same_log_view(5) [OF lg(1,2)] lg(2) by (simp add: log_ready_def)
  moreover have "interrupted ?t = interrupted s'" by (simp add: rcv_sync_def)
  ultimately have "recorded s' (lines s') ?t" using assms b lg same_event [of ?t s'] by (simp add: recorded_def editing_def)
  then show ?thesis using recorded_trans [OF assms] recordedD(3) [OF assms] by simp
qed

lemma rcv_sync_history: "history s ls p q \<Longrightarrow> history (rcv_sync s) ls p q"
proof -
  have "base (rcv_sync s) = base s" "screens_ok (rcv_sync s) = screens_ok s" "log_ok (rcv_sync s) = log_ok s"
    by (simp_all add: rcv_sync_def base_def count_ok_def screens_ok_def log_ok_def)
  moreover assume "history s ls p q"
  ultimately show "history (rcv_sync s) ls p q" unfolding history_def by (simp add: rcv_sync_def)
qed


subsection \<open>Before and after a command\<close>

lemma vi_head_ok:
  assumes hk: "calm hk" and w: "typed_in cs w" "at_ease w" "base (w_ed w)"
    and lc: "\<And>s. redrawn (w_ed w) s \<Longrightarrow> \<exists>s'. log_cursor s = Some (False, s') \<and> Q s'"
  obtains w' where "vi_head hk vp w = Some (None, False, w')" "Q (w_ed w')" "same_ui w w'" "typed_in cs w'" "vs_dot (w_v w') = vs_dot (w_v w)"
proof -
  obtain d s where d: "hk_refresh hk (w_disp w) (w_ed w) = Some (False, d, s)" "redrawn (w_ed w) s"
    using hk w(3) unfolding calm_def by blast
  define w2 where "w2 = (if w_s_refresh w then w\<lparr>w_s_refresh := False\<rparr> else (set_ed s w)\<lparr>w_disp := d\<rparr>)"
  have w2: "w_gs w2 = w_gs w" "same_ui w w2" "redrawn (w_ed w) (w_ed w2)" "vs_dot (w_v w2) = vs_dot (w_v w)"
    using d(2) redrawn_same [OF w(3)] by (simp_all add: w2_def same_ui_def set_ed_def at_ease_def)
  have r: "hk_resolve hk w = Some (False, w)" using hk by (simp add: calm_def)
  have p: "(if w_s_refresh w then Some (False, w\<lparr>w_s_refresh := False\<rparr>)
      else do { (e, d, s) \<leftarrow> hk_refresh hk (w_disp w) (w_ed w); Some (e, (set_ed s w)\<lparr>w_disp := d\<rparr>) }) = Some (False, w2)"
    using d(1) by (simp add: w2_def)
  obtain s' where s': "log_cursor (w_ed w2) = Some (False, s')" "Q s'" using lc [OF w2(3)] by (elim exE conjE)
  let ?w = "set_ed s' (new_favorite vp w2)"
  have t: "typed_in cs ?w" "typed_in cs (new_favorite vp w2)"
    using typed_in_cong [of ?w w cs] typed_in_cong [of "new_favorite vp w2" w cs] w(1) w2(1) by simp_all
  have e: "\<not> w_excmd_running ?w" using w(2) w2(2) by (auto simp: same_ui_def at_ease_def new_favorite_def set_v_def set_ed_def)
  have "vi_head hk vp w = Some (None, False, ?w)"
    using r p s'(1) e typed_in_unmapped [OF w(1)] typed_in_unmapped [OF t(2)] unfolding vi_head_def by (simp add: Let_def)
  moreover have "same_ui w ?w" using w2(2) by (simp add: same_ui_def)
  ultimately show ?thesis using that [of ?w] s'(2) t(1) w2(4) by simp
qed

lemma vi_tail_ok:
  assumes "typed_in cs w" "at_ease w"
  obtains w' where "vi_tail hk VI_TAIL w = Some (VI_LOOP, w')" "typed_in cs w'" "same_ui w w'" "vs_dot (w_v w') = vs_dot (w_v w)"
    "w_ed w' = (if f_rcv_sync (w_ed w) then rcv_sync (w_ed w) else w_ed w)"
proof -
  let ?g = "(w_gs w)\<lparr>g_asked := g_asked (w_gs w) + 1\<rparr>"
  let ?w1 = "(set_gs ?g w)\<lparr>w_fswitch := False\<rparr>"
  let ?w = "if f_rcv_sync (w_ed w) then set_ed (rcv_sync (w_ed w)) ?w1 else ?w1"
  have "no_interrupts (w_gs w)" using assms(1) by (simp add: typed_in_def)
  then have "vi_tail hk VI_TAIL w = Some (VI_LOOP, ?w)"
    using assms(2) by (simp add: vi_tail_def INTERRUPTED_quiet at_ease_def set_gs_def set_ed_def Let_def)
  moreover have "typed_in cs ?w" by (rule asked_typed_in [OF assms(1)]) (simp add: set_gs_def set_ed_def)
  ultimately show ?thesis using that [of ?w] by (simp add: same_ui_def set_gs_def set_ed_def at_ease_def)
qed

text \<open>A round in parts.\<close>

lemma vi_round_parts:
  assumes "vi_head hk vp w = Some (None, False, w1)" "vi_command hk False w1 = Some (VI_EVENT, vp2, mapped, w2)"
    and "vi_post (cursor_of (w_ed w1)) vp2 mapped w2 = Some (VI_TAIL, vp3, w3)" "vi_tail hk VI_TAIL w3 = Some (VI_LOOP, w4)"
  shows "vi_round hk vp w = Some (VI_LOOP, vp3, w4)"
  using assms by (simp add: vi_round_def)

lemma vi_command_reads:
  assumes w: "typed_in (written b ds c @ cs) w" and ds: "a_count ds" and c: "\<not> is_digit c \<or> c = CHR ''0'' \<and> ds = []" "c \<noteq> CHR 0x22" "c \<noteq> CHR ''D''"
    and l: "lone_key None (o_tildeop (w_v w)) c" "ds \<noteq> [] \<longrightarrow> kp_isset (VIKEY c) V_CNT" "b \<noteq> None \<longrightarrow> kp_isset (VIKEY c) V_OBUF"
  obtains w' where "vi_command hk False w = vi_exec hk (vp_named c (vp_counted ds (vp_buffered b vp_zero))) (ds \<noteq> []) False w'"
    "typed_in cs w'" "same_ui w w'" "w_ed w' = w_ed w" "vs_dot (w_v w') = vs_dot (w_v w)"
proof -
  let ?v = "w_v w"
  have r: "ready_keys (typed (w_gs w) (written b ds c @ cs)) ?v" "list_all (plain_key (w_gs w)) (written b ds c)"
    using w by (simp_all add: typed_in_def)
  have z: "\<not> vc_c1set vp_zero" "\<not> vc_buffer vp_zero" by (simp_all add: vp_zero_def vi_start_def)
  obtain v' where v': "v_cmd True vp_zero None False ?v =
      Some (GC_OK, vp_named c (vp_counted ds (vp_buffered b vp_zero)), ds \<noteq> [], False, v')" "reads_to (typed (w_gs w) cs) ?v v'"
    using v_cmd_reads [OF r ds c l(1,2) z] l(3) by blast
  have t: "typed_in cs (set_v v' w)" by (rule reads_to_typed_in [OF w v'(2)]) auto
  note same = reads_to_same [OF v'(2)]
  have "o_secure v' = o_secure ?v" using v'(2) by (auto simp: reads_to_def)
  then show ?thesis using that [of "set_v v' w"] v'(1) t same by (simp add: vi_command_def same_ui_def)
qed

subsection \<open>Undo\<close>

text \<open>A round for a typed \<^verbatim>\<open>u\<close>, when logging the cursor leads to a history with an event to undo.\<close>

lemma vi_round_u:
  assumes hk: "calm hk" and w: "typed_in (CHR ''u'' # cs) w" "at_ease w" "base (w_ed w)"
    and lc: "\<And>s. redrawn (w_ed w) s \<Longrightarrow>
      \<exists>s'. log_cursor s = Some (False, s') \<and> history s' ls (past @ [(a, es, m)]) future \<and> undoing False s'"
  obtains vp' w' where "vi_round hk vp w = Some (VI_LOOP, vp', w')" "history (w_ed w') ls past ((a, es, m) # future)"
    "cursor_of (w_ed w') = a" "typed_in cs w'" "same_ui w w'"
proof -
  obtain w1 where w1: "vi_head hk vp w = Some (None, False, w1)" "history (w_ed w1) ls (past @ [(a, es, m)]) future \<and> undoing False (w_ed w1)"
      "same_ui w w1" "typed_in (CHR ''u'' # cs) w1"
    by (rule vi_head_ok [OF hk w lc])
  have u: "\<not> is_digit CHR ''u'' \<or> CHR ''u'' = CHR ''0'' \<and> [] = ([]::bytes)" "a_count []" by (simp_all add: is_digit_def a_count_def)
  have kp: "vk_func (vikey_entry (VIKEY CHR ''u'')) = Some (VEdit VF_undo)" "vk_flags (vikey_entry (VIKEY CHR ''u'')) = []"
      "vk_rcm (vikey_entry (VIKEY CHR ''u'')) = VM_RCM_SET" by code_simp+
  have l: "lone_key None t CHR ''u''" for t by (cases t) code_simp+
  let ?vp = "vp_named CHR ''u'' vp_zero"
  obtain w2 where w2: "vi_command hk False w1 = vi_exec hk ?vp False False w2" "typed_in cs w2" "same_ui w1 w2" "w_ed w2 = w_ed w1"
    using vi_command_reads [of None "[]" "CHR ''u''" cs w1 hk, OF _ u(2,1) _ _ l] w1(4)
    by (auto simp: written_def vp_counted_def vp_buffered_def)
  let ?vp1 = "at_mark (cursor_of (w_ed w1)) ((copy_flags ?vp)\<lparr>vm_rcm := VM_RCM_SET\<rparr>)"
  let ?s = "upd_cur (\<lambda>c. c\<lparr>sp_ccnt := sp_ccnt c + 1\<rparr>) (w_ed w1)"
  have h: "history ?s ls (past @ [(a, es, m)]) future" "undoing False ?s"
    using history_upd_cur [of "w_ed w1" ls _ _ "\<lambda>c. c\<lparr>sp_ccnt := sp_ccnt c + 1\<rparr>"] w1(2) by (simp_all add: undoing_def)
  obtain s' where s': "v_undo False (m_final ?vp1) ?s = Some (False, a, s')" "history s' ls past ((a, es, m) # future)"
    by (rule v_undo_back [OF h])
  have nf: "\<not> kp_isset (VIKEY CHR ''u'') f" for f by (simp add: kp_isset_def kp)
  let ?w3 = "set_ed s' (set_ed ?s w2)" and ?vp2 = "?vp1\<lparr>m_final := a\<rparr>"
  have run: "run_key hk (VIKEY CHR ''u'') ?vp1 (set_ed ?s w2) = Some (False, ?vp2, ?w3)"
    using s'(1) by (simp add: run_key_def kp run_func_def on_ed_def on_final_def at_mark_def copy_flags_def vp_named_def vp_zero_def vi_start_def)
  have "vi_exec hk ?vp False False w2 = Some (VI_EVENT, ?vp2, False, ?w3)"
    using nf run w2(4) unfolding vi_exec_def
    by (simp add: vp_named_def vp_zero_def vi_start_def Let_def kp at_mark_def copy_flags_def)
  then have c: "vi_command hk False w1 = Some (VI_EVENT, ?vp2, False, ?w3)" using w2(1) by simp
  let ?t = "upd_cur (\<lambda>c. c\<lparr>sp_lno := m_lno a, sp_cno := m_cno a\<rparr>) s'"
  have e: "at_ease w2" using w2(3) w1(3) w(2) by (simp add: same_ui_def)
  have po: "vi_post (cursor_of (w_ed w1)) ?vp2 False ?w3 = Some (VI_TAIL, ?vp2, set_ed ?t ?w3)"
    using nf e by (simp add: vi_post_def save_dot_def final_cursor_def abs_moved_def at_mark_def copy_flags_def vp_named_def at_ease_def set_ed_def)
  have t3: "typed_in cs (set_ed ?t ?w3)" using typed_in_cong [of "set_ed ?t ?w3" w2 cs] w2(2) by simp
  have e3: "at_ease (set_ed ?t ?w3)" using e by simp
  obtain w4 where w4: "vi_tail hk VI_TAIL (set_ed ?t ?w3) = Some (VI_LOOP, w4)" "typed_in cs w4" "same_ui (set_ed ?t ?w3) w4"
      "w_ed w4 = (if f_rcv_sync (w_ed (set_ed ?t ?w3)) then rcv_sync (w_ed (set_ed ?t ?w3)) else w_ed (set_ed ?t ?w3))"
    by (rule vi_tail_ok [OF t3 e3])
  have ht: "history ?t ls past ((a, es, m) # future)" using history_upd_cur [OF s'(2), of "\<lambda>c. c\<lparr>sp_lno := m_lno a, sp_cno := m_cno a\<rparr>"] by simp
  have "history (w_ed w4) ls past ((a, es, m) # future)" "cursor_of (w_ed w4) = a"
    using w4(4) ht rcv_sync_history [OF ht] by (simp_all add: cursor_of_def rcv_sync_def)
  moreover have "same_ui w w4" using w1(3) w2(3) w4(3) by (simp add: same_ui_def)
  ultimately show ?thesis using that vi_round_parts [OF w1(1) c po w4(1)] w4(2) by blast
qed


subsection \<open>Commands that are recorded\<close>

text \<open>Between commands: the history, and a coherent cache.\<close>

definition at_command :: "bytes list \<Rightarrow> event list \<Rightarrow> event list \<Rightarrow> bytes \<Rightarrow> win \<Rightarrow> bool" where
  "at_command ls past future cs w \<longleftrightarrow> typed_in cs w \<and> at_ease w \<and> history (w_ed w) ls past future \<and> text_ok (w_ed w) \<and>
     (\<forall>n. \<not> interrupted (w_ed w) n) \<and> sp_lno (cur (w_ed w)) \<noteq> 0"

text \<open>After a command: it is in the log, but not yet at an end.\<close>

definition after_command :: "bytes list \<Rightarrow> event list \<Rightarrow> mark \<Rightarrow> edit list \<Rightarrow> bytes \<Rightarrow> win \<Rightarrow> bool" where
  "after_command ls past a es cs w \<longleftrightarrow> typed_in cs w \<and> at_ease w \<and> in_event (w_ed w) ls past a es \<and> editing (w_ed w) \<and>
     sp_lno (cur (w_ed w)) \<noteq> 0"

text \<open>The start of a command: the cursor is logged, nothing has been changed.\<close>

definition starts :: "win \<Rightarrow> bytes \<Rightarrow> bytes list \<Rightarrow> event list \<Rightarrow> win \<Rightarrow> bool" where
  "starts w ks ls past w1 \<longleftrightarrow> typed_in ks w1 \<and> same_ui w w1 \<and> editing (w_ed w1) \<and> text_ok (w_ed w1) \<and>
     lines (w_ed w1) = lines (w_ed w) \<and> cursor_of (w_ed w1) = cursor_of (w_ed w) \<and> in_event (w_ed w1) ls past (cursor_of (w_ed w)) [] \<and>
     vs_dot (w_v w1) = vs_dot (w_v w)"

lemma in_event_editing: "in_event s ls past a es \<Longrightarrow> \<forall>n. \<not> interrupted s n \<Longrightarrow> editing s"
  by (simp add: in_event_def editing_def log_ready_def)

lemma vi_head_starts:
  assumes hk: "calm hk" and w: "at_command ls past future ks w"
  obtains w1 where "vi_head hk vp w = Some (None, False, w1)" "starts w ks ls past w1"
proof -
  have h: "history (w_ed w) ls past future" "text_ok (w_ed w)" "\<forall>n. \<not> interrupted (w_ed w) n" "sp_lno (cur (w_ed w)) \<noteq> 0"
    using w by (simp_all add: at_command_def)
  let ?Q = "\<lambda>s'. text_ok s' \<and> lines s' = lines (w_ed w) \<and> cursor_of s' = cursor_of (w_ed w) \<and> in_event s' ls past (cursor_of (w_ed w)) [] \<and>
      (\<forall>n. \<not> interrupted s' n)"
  have lc: "\<exists>s'. log_cursor s = Some (False, s') \<and> ?Q s'" if p: "redrawn (w_ed w) s" for s
  proof -
    obtain c where c: "paints (cur (w_ed w)) c" "keeps ((w_ed w)\<lparr>cur := c\<rparr>) s" using p by (auto simp: redrawn_def)
    note f = reads_fields [OF keepsD(2) [OF c(2)]] and cs = paints_sel [OF c(1)]
    have e: "cursor_of s = cursor_of (w_ed w)" "lines s = lines (w_ed w)" "interrupted s = interrupted (w_ed w)" "sp_lno (cur s) \<noteq> 0"
      using f(2,19,27) cs h(4) by (simp_all add: cursor_of_def)
    have t: "text_ok s" using keepsD(3) [OF c(2)] h(2) by (simp add: text_ok_def)
    note l = log_cursor_between [OF redrawn_history [OF h(1) p] e(4)]
    let ?s = "s\<lparr>l_cursor := cursor_of s\<rparr>"
    have "in_event ?s ls past (l_cursor ?s) []" by (rule event_starts [OF l(2)]) (use t in \<open>simp add: text_ok_def\<close>)
    then show ?thesis using l(1) e t h(3) by (auto simp: text_ok_def cursor_of_def)
  qed
  have w3: "typed_in ks w" "at_ease w" "base (w_ed w)" using w historyD(1) [OF h(1)] by (simp_all add: at_command_def)
  obtain w1 where w1: "vi_head hk vp w = Some (None, False, w1)" "?Q (w_ed w1)" "same_ui w w1" "typed_in ks w1"
      "vs_dot (w_v w1) = vs_dot (w_v w)"
    by (rule vi_head_ok [OF hk w3 lc])
  have "editing (w_ed w1)" by (rule in_event_editing) (use w1(2) in blast)+
  with w1(2-5) have "starts w ks ls past w1" unfolding starts_def by blast
  then show ?thesis by (rule that [OF w1(1)])
qed

text \<open>The end of a command: where the cursor goes.\<close>

definition lands :: "vicmd \<Rightarrow> bytes list \<Rightarrow> mark" where
  "lands vp ls =
     (if vm_rcm vp = VM_RCM_SETFNB
      then (m_final vp)\<lparr>m_cno := let l = ls ! (m_lno (m_final vp) - 1) in if l = [] then 0 else first_nonblank 0 l\<rparr>
      else m_final vp)"

definition landing :: "vicmd \<Rightarrow> bytes list \<Rightarrow> bool" where
  "landing vp ls \<longleftrightarrow> 0 < m_lno (m_final vp) \<and> (\<forall>f \<in> {V_ABS, V_ABS_C, V_ABS_L}. \<not> kp_isset (vp_kp vp) f) \<and>
     (vm_rcm vp = VM_RCM_SET \<or> vm_rcm vp = VM_RCM_SETFNB \<and> m_lno (m_final vp) \<le> length ls)"

lemma save_dot_sel [simp]:
  "w_gs (save_dot vp mapped w) = w_gs w" "w_ed (save_dot vp mapped w) = w_ed w" "same_ui w (save_dot vp mapped w)"
  "at_ease (save_dot vp mapped w) = at_ease w" "w_upper (save_dot vp mapped w) = w_upper w"
  "o_tildeop (w_v (save_dot vp mapped w)) = o_tildeop (w_v w)" "o_secure (w_v (save_dot vp mapped w)) = o_secure (w_v w)"
  by (simp_all add: save_dot_def same_ui_def)

lemma final_cursor_lands:
  assumes r: "recorded s ls (w_ed w)" and l: "landing vp ls"
  obtains s' where "final_cursor vp w = Some (False, lands vp ls, set_ed s' w)" "recorded s ls s'"
proof (cases "vm_rcm vp = VM_RCM_SETFNB")
  case True
  have b: "base (w_ed w)" "text_ok (w_ed w)" "\<not> sp_tinput (cur (w_ed w))" "lines (w_ed w) = ls"
    using r editingD(1,4) by (auto simp: recorded_def)
  have n: "0 < m_lno (m_final vp)" "m_lno (m_final vp) \<le> length (lines (w_ed w))" using l True b(4) by (auto simp: landing_def)
  have "ready (w_ed w)" using b by (simp add: ready_def)
  then obtain s' where s': "nonblank (m_lno (m_final vp)) 0 (w_ed w) =
      Some (False, if 0 < length (lines (w_ed w) ! (m_lno (m_final vp) - 1)) then first_nonblank 0 (lines (w_ed w) ! (m_lno (m_final vp) - 1)) else 0, s')"
      "ready s'" "reads (w_ed w) s'"
    using nonblank_ready [OF _ b(3) n, of 0] by blast
  have "keeps (w_ed w) s'" using s'(2,3) by (simp add: keeps_def ready_def)
  from recorded_keeps [OF r this] show ?thesis using that [of s'] s'(1) True b(4) by (simp add: final_cursor_def lands_def Let_def)
next
  case False
  then have "final_cursor vp w = Some (False, lands vp ls, set_ed (w_ed w) w)"
    using l by (auto simp: landing_def final_cursor_def lands_def set_ed_def)
  then show ?thesis using r by (rule that)
qed

lemma vi_post_recorded:
  assumes r: "recorded s ls (w_ed w)" and l: "landing vp ls" and w: "typed_in cs w" "at_ease w"
  obtains vp' w' where "vi_post a vp False w = Some (VI_TAIL, vp', w')" "recorded s ls (w_ed w')" "cursor_of (w_ed w') = lands vp ls"
    "typed_in cs w'" "same_ui w w'" "vs_dot (w_v w') = vs_dot (w_v (save_dot vp False w))"
proof -
  let ?w = "save_dot vp False w" and ?m = "lands vp ls"
  have r': "recorded s ls (w_ed ?w)" using r by simp
  obtain s1 where s1: "final_cursor vp ?w = Some (False, ?m, set_ed s1 ?w)" "recorded s ls s1" by (rule final_cursor_lands [OF r' l])
  let ?s = "upd_cur (\<lambda>c. c\<lparr>sp_lno := m_lno ?m, sp_cno := m_cno ?m\<rparr>) s1"
  have ab: "\<not> abs_moved vp a m" for m using l by (simp add: landing_def abs_moved_def)
  have "vi_post a vp False w = Some (VI_TAIL, vp\<lparr>m_final := ?m\<rparr>, set_ed ?s (set_ed s1 ?w))"
    using s1(1) ab w(2) by (simp add: vi_post_def at_ease_def)
  moreover have "recorded s ls ?s" by (rule recorded_upd_cur [OF s1(2)]) simp_all
  moreover have "typed_in cs (set_ed ?s (set_ed s1 ?w))" using typed_in_cong [of "set_ed ?s (set_ed s1 ?w)" w cs] w(1) by simp
  ultimately show ?thesis using that [of _ "set_ed ?s (set_ed s1 ?w)"] by (simp add: cursor_of_def same_ui_def)
qed

text \<open>A round of a command whose changes are recorded.\<close>

lemma vi_round_recorded:
  assumes hk: "calm hk" and w: "at_command ls past future ks w"
    and c: "\<And>w1. starts w ks ls past w1 \<Longrightarrow> \<exists>vp2 w2. vi_command hk False w1 = Some (VI_EVENT, vp2, False, w2) \<and>
      typed_in cs w2 \<and> same_ui w1 w2 \<and> recorded (w_ed w1) lsn (w_ed w2) \<and> landing vp2 lsn \<and> lands vp2 lsn = m \<and> P vp2 w2"
  obtains vp' w' fs vp2 w2 where "vi_round hk vp w = Some (VI_LOOP, vp', w')" "after_command ls past (cursor_of (w_ed w)) fs cs w'" "same_ui w w'"
    "lines (w_ed w') = lsn" "cursor_of (w_ed w') = m" "vs_dot (w_v w') = vs_dot (w_v (save_dot vp2 False w2))" "P vp2 w2"
proof -
  obtain w1 where w1: "vi_head hk vp w = Some (None, False, w1)" "starts w ks ls past w1" by (rule vi_head_starts [OF hk w])
  obtain vp2 w2 where w2: "vi_command hk False w1 = Some (VI_EVENT, vp2, False, w2)" "typed_in cs w2" "same_ui w1 w2"
      "recorded (w_ed w1) lsn (w_ed w2)" "landing vp2 lsn" "lands vp2 lsn = m" "P vp2 w2"
    using c [OF w1(2)] by (elim exE conjE)
  have ui: "same_ui w w1" "at_ease w" using w1(2) w by (simp_all add: starts_def at_command_def)
  have e2: "at_ease w2" using ui w2(3) by (simp add: same_ui_def)
  obtain vp3 w3 where w3: "vi_post (cursor_of (w_ed w1)) vp2 False w2 = Some (VI_TAIL, vp3, w3)" "recorded (w_ed w1) lsn (w_ed w3)"
      "cursor_of (w_ed w3) = lands vp2 lsn" "typed_in cs w3" "same_ui w2 w3" "vs_dot (w_v w3) = vs_dot (w_v (save_dot vp2 False w2))"
    by (rule vi_post_recorded [OF w2(4,5,2) e2])
  have e3: "at_ease w3" using e2 w3(5) by (simp add: same_ui_def)
  obtain w4 where w4: "vi_tail hk VI_TAIL w3 = Some (VI_LOOP, w4)" "typed_in cs w4" "same_ui w3 w4" "vs_dot (w_v w4) = vs_dot (w_v w3)"
      "w_ed w4 = (if f_rcv_sync (w_ed w3) then rcv_sync (w_ed w3) else w_ed w3)"
    by (rule vi_tail_ok [OF w3(4) e3])
  have r4: "recorded (w_ed w1) lsn (w_ed w4)" using w4(5) w3(2) rcv_sync_recorded [OF w3(2)] by simp
  have c4: "cursor_of (w_ed w4) = lands vp2 lsn" using w4(5) w3(3) by (simp add: cursor_of_def rcv_sync_def)
  have "in_event (w_ed w1) ls past (cursor_of (w_ed w)) []" using w1(2) by (simp add: starts_def)
  then obtain fs where "in_event (w_ed w4) ls past (cursor_of (w_ed w)) ([] @ fs)" using recordedD(4) [OF r4] unfolding evolves_def by blast
  moreover have "sp_lno (cur (w_ed w4)) \<noteq> 0"
    using arg_cong [OF c4, of m_lno] w2(5) by (auto simp: cursor_of_def landing_def lands_def split: if_splits)
  moreover have "at_ease w4" "same_ui w w4" using ui w2(3) w3(5) w4(3) by (simp_all add: same_ui_def)
  ultimately have "after_command ls past (cursor_of (w_ed w)) fs cs w4" using recordedD(1) [OF r4] w4(2) by (simp add: after_command_def)
  then show ?thesis
    using that [OF vi_round_parts [OF w1(1) w2(1) w3(1) w4(1)]] \<open>same_ui w w4\<close> recordedD(3) [OF r4] c4 w2(6,7) w3(6) w4(4) by simp
qed

text \<open>An \<^verbatim>\<open>u\<close> after a command that changed something.\<close>

lemma after_command_u:
  assumes hk: "calm hk" and w: "after_command ls past a es (CHR ''u'' # cs) w" "es \<noteq> []"
  obtains vp' w' where "vi_round hk vp w = Some (VI_LOOP, vp', w')" "lines (w_ed w') = tl.dos past ls" "cursor_of (w_ed w') = a"
    "typed_in cs w'" "history (w_ed w') ls past [(a, es, cursor_of (w_ed w))]" "same_ui w w'"
proof -
  have e: "in_event (w_ed w) ls past a es" "editing (w_ed w)" "sp_lno (cur (w_ed w)) \<noteq> 0" "typed_in (CHR ''u'' # cs) w" "at_ease w"
    using w(1) by (simp_all add: after_command_def)
  have r: "recorded (w_ed w) (lines (w_ed w)) (w_ed w)" using e(1,2) by (simp add: recorded_def in_event_def)
  have lc: "\<exists>s'. log_cursor s = Some (False, s') \<and> history s' ls (past @ [(a, es, cursor_of (w_ed w))]) [] \<and> undoing False s'"
    if p: "redrawn (w_ed w) s" for s
  proof -
    note q = redrawn_recorded [OF r p]
    obtain fs where fs: "in_event s ls past a (es @ fs)" using recordedD(4) [OF q(1)] e(1) unfolding evolves_def by blast
    obtain c where c: "paints (cur (w_ed w)) c" "keeps ((w_ed w)\<lparr>cur := c\<rparr>) s" using p by (auto simp: redrawn_def)
    note f = reads_fields [OF keepsD(2) [OF c(2)]] and cs = paints_sel [OF c(1)]
    have lg: "same_log (w_ed w) s" "f_nolog s = f_nolog (w_ed w)" "lines s = lines (w_ed w)" using f by (simp_all add: same_log_def)
    have "in_event s ls past a es"
      using e(1) same_log_view [OF lg(1,2)] lg q(1) by (simp add: in_event_def recorded_def editing_def same_log_def)
    moreover have "sp_lno (cur s) \<noteq> 0" using q(2) e(3) by (simp add: cursor_of_def)
    ultimately show ?thesis using event_ends [of s ls past a es] w(2) q(2) by (metis undoing_def)
  qed
  have b: "base (w_ed w)" using editingD(1) [OF e(2)] .
  obtain vp' w' where w': "vi_round hk vp w = Some (VI_LOOP, vp', w')" "history (w_ed w') ls past [(a, es, cursor_of (w_ed w))]"
      "cursor_of (w_ed w') = a" "typed_in cs w'" "same_ui w w'"
    by (rule vi_round_u [OF hk e(4,5) b lc])
  show ?thesis by (rule that [OF w'(1) historyD(8) [OF w'(2)] w'(3,4,2,5)])
qed

end
