(* ===== verification/ViTyped.thy ===== *)
theory ViTyped
  imports ViLoop
begin

section \<open>Typed commands\<close>

text \<open>
  Commands as they are typed, run by the main loop: \<^verbatim>\<open>x\<close>, the doubled \<^verbatim>\<open>dd\<close>, and
  \<^verbatim>\<open>d\<close> with a motion within the line, with their buffers and counts, each followed by a \<^verbatim>\<open>u\<close>.
\<close>

subsection \<open>Motions within a line as ranges\<close>

text \<open>
  What a motion spans in a line, from a column on: the first and the last character of the range.
\<close>

definition motion_span :: "char \<Rightarrow> nat \<Rightarrow> nat \<Rightarrow> bytes \<Rightarrow> (nat \<times> nat) option" where
  "motion_span m n c l =
     (if m = CHR ''h'' then (if c = 0 then None else Some (c - n, c - 1))
      else if m = CHR ''l'' then Some (c, min (c + n) (length l) - 1)
      else if m = CHR ''0'' then (if c = 0 then None else Some (0, c - 1))
      else if m = CHR ''^'' then
        let f = first_nonblank 0 l in
        if f = c then None else if f < c then Some (f, c - 1) else Some (c, f - 1)
      else if m = CHR ''$'' \<and> n = 1 then Some (c, length l - 1)
      else None)"

text \<open>The bounds lie in the line.\<close>

lemma motion_span_bounds:
  assumes "motion_span m n c l = Some (a, b)" "c < length l" "0 < n"
  shows "a \<le> b" "b < length l"
proof -
  have "first_nonblank 0 l < length l" using first_nonblank_bounds(2) [of 0 l] assms(2) by (cases "l = []") auto
  then show "a \<le> b" "b < length l" using assms by (auto simp: motion_span_def Let_def split: if_splits)
qed

definition span_of :: "vicmd \<Rightarrow> nat \<Rightarrow> nat \<Rightarrow> nat \<Rightarrow> bool" where
  "span_of mv k a b \<longleftrightarrow> m_final mv = \<lparr>m_lno = k, m_cno = a\<rparr> \<and>
     (m_start mv = \<lparr>m_lno = k, m_cno = a\<rparr> \<and> m_stop mv = \<lparr>m_lno = k, m_cno = b\<rparr> \<or>
      m_start mv = \<lparr>m_lno = k, m_cno = b\<rparr> \<and> m_stop mv = \<lparr>m_lno = k, m_cno = a\<rparr>)"

definition marks_only :: "vicmd \<Rightarrow> vicmd \<Rightarrow> bool" where
  "marks_only mv mv' \<longleftrightarrow> at_mark \<lparr>m_lno = 0, m_cno = 0\<rparr> mv' = at_mark \<lparr>m_lno = 0, m_cno = 0\<rparr> mv"

definition motion_at :: "vicmd \<Rightarrow> ed \<Rightarrow> nat \<Rightarrow> nat \<Rightarrow> bytes \<Rightarrow> nat \<Rightarrow> bool" where
  "motion_at mv s k c l n \<longleftrightarrow> begins mv s \<and> m_start mv = \<lparr>m_lno = k, m_cno = c\<rparr> \<and> l = lines s ! (k - 1) \<and> c < length l \<and>
     ISMOTION mv \<and> vp_cnt mv = n \<and> 0 < n \<and> n < 2 ^ 32 \<and> c + n < 2 ^ 64"

definition runs_to :: "char \<Rightarrow> vicmd \<Rightarrow> ed \<Rightarrow> nat \<Rightarrow> nat \<Rightarrow> nat \<Rightarrow> bool" where
  "runs_to m mv s k a b \<longleftrightarrow> (\<exists>f g mv' s'. vk_func (vikeys m) = Some f \<and> (\<forall>hk. run_func hk f = on_ed g) \<and>
     g mv s = Some (False, mv', s') \<and> keeps s s' \<and> marks_only mv mv' \<and> span_of mv' k a b)"

lemma runs_toI:
  assumes "vk_func (vikeys m) = Some f" "\<And>hk. run_func hk f = on_ed g" "g mv s = Some (False, mv', s')" "keeps s s'"
    "marks_only mv mv'" "span_of mv' k a b"
  shows "runs_to m mv s k a b"
  using assms unfolding runs_to_def by blast

lemma motion_atD:
  assumes "motion_at mv s k c l n"
  shows "begins mv s" "m_start mv = \<lparr>m_lno = k, m_cno = c\<rparr>" "m_stop mv = \<lparr>m_lno = k, m_cno = c\<rparr>" "m_final mv = \<lparr>m_lno = k, m_cno = c\<rparr>"
    "start_line mv s = l" "c < length l" "l \<noteq> []" "ISMOTION mv" "vp_cnt mv = n" "c \<noteq> 0 \<Longrightarrow> size_sub c 1 = c - 1"
    "size_sub (c + n) 1 = c + n - 1" "to_recno n = n" "keeps s s" "0 < n" "c + n < 2 ^ 64"
  using assms size_dec [of c] size_dec [of "c + n"] keeps_refl [of s]
  by (auto simp: motion_at_def begins_def to_recno_def ready_def)

lemma ready_keeps: "reads s s' \<Longrightarrow> ready s' \<Longrightarrow> keeps s s'"
  by (simp add: keeps_def ready_def)

lemma marks_only_simps [simp]:
  "marks_only mv (stop_cno n mv)" "marks_only mv (start_dec (stop_cno n mv))" "marks_only mv (left_right (stop_cno n mv))"
  "marks_only mv (mv'\<lparr>m_final := m\<rparr>) = marks_only mv mv'"
  by (simp_all add: marks_only_def at_mark_def start_dec_def stop_cno_def left_right_def)

lemma run_func_line:
  "run_func hk (VMove VF_left) = on_ed v_left" "run_func hk (VMove VF_right) = on_ed v_right" "run_func hk (VMove VF_zero) = on_ed v_zero"
  "run_func hk (VMove VF_first) = on_ed v_first" "run_func hk (VMove VF_dollar) = on_ed v_dollar"
  by (simp_all add: run_func_def)

lemma line_keys:
  "vk_func (vikeys CHR ''h'') = Some (VMove VF_left)" "vk_func (vikeys CHR ''l'') = Some (VMove VF_right)" "vk_func (vikeys CHR ''0'') = Some (VMove VF_zero)"
  "vk_func (vikeys CHR ''^'') = Some (VMove VF_first)" "vk_func (vikeys CHR ''$'') = Some (VMove VF_dollar)"
  by code_simp+

lemma stop_cno_again: "stop_cno x (stop_cno y mv) = stop_cno x mv"
  by (simp add: stop_cno_def)

lemma h_runs:
  assumes m: "motion_at mv s k c l n" and c: "c \<noteq> 0"
  shows "runs_to CHR ''h'' mv s k (c - n) (c - 1)"
proof (rule runs_toI [OF line_keys(1) run_func_line(1)])
  note d = motion_atD [OF m]
  let ?mv = "(start_dec (stop_cno (c - n) mv))\<lparr>m_final := m_stop (stop_cno (c - n) mv)\<rparr>"
  show "v_left mv s = Some (False, ?mv, s)" using d(2,8,9,12) c by (simp add: v_left_def)
  show "span_of ?mv k (c - n) (c - 1)" using d c by (auto simp: span_of_def start_dec_def)
qed (use motion_atD(13) [OF m] in simp_all)

lemma zero_runs:
  assumes m: "motion_at mv s k c l n" and c: "c \<noteq> 0"
  shows "runs_to CHR ''0'' mv s k 0 (c - 1)"
proof (rule runs_toI [OF line_keys(3) run_func_line(3)])
  note d = motion_atD [OF m]
  let ?mv = "(start_dec (stop_cno 0 mv))\<lparr>m_final := m_stop (stop_cno 0 mv)\<rparr>"
  show "v_zero mv s = Some (False, ?mv, s)" using d(2,8) c by (simp add: v_zero_def)
  show "span_of ?mv k 0 (c - 1)" using d c by (auto simp: span_of_def start_dec_def)
qed (use motion_atD(13) [OF m] in simp_all)

lemma l_runs:
  assumes m: "motion_at mv s k c l n"
  shows "runs_to CHR ''l'' mv s k c (min (c + n) (length l) - 1)"
proof -
  note d = motion_atD [OF m]
  obtain s1 where s1: "db_eget k s = Some (False, l, False, s1)" "reads s s1" "ready s1"
    using begins_eget [OF d(1)] d(2,5) by auto
  let ?mv = "(stop_cno (min (c + n) (length l) - 1) mv)\<lparr>m_final := m_start mv\<rparr>"
  show ?thesis
  proof (rule runs_toI [OF line_keys(2) run_func_line(2)])
    show "v_right mv s = Some (False, ?mv, s1)"
      using s1(1) d(2,3,7-9,11,14,15) by (auto simp: v_right_def stop_cno_again min_def Let_def)
    show "span_of ?mv k c (min (c + n) (length l) - 1)" using d(2,3) by (auto simp: span_of_def)
  qed (use ready_keeps [OF s1(2,3)] in simp_all)
qed

lemma dollar_runs:
  assumes m: "motion_at mv s k c l 1"
  shows "runs_to CHR ''$'' mv s k c (length l - 1)"
proof -
  note d = motion_atD [OF m]
  obtain s1 where s1: "db_eget k s = Some (False, l, False, s1)" "reads s s1" "ready s1"
    using begins_eget [OF d(1)] d(2,5) by auto
  let ?mv = "(stop_cno (length l - 1) mv)\<lparr>m_final := m_start mv\<rparr>"
  show ?thesis
  proof (rule runs_toI [OF line_keys(5) run_func_line(5)])
    show "v_dollar mv s = Some (False, ?mv, s1)" using s1(1) d(2,3,7-9) by (simp add: v_dollar_def dollar_end_def)
    show "span_of ?mv k c (length l - 1)" using d(2,3) by (auto simp: span_of_def)
  qed (use ready_keeps [OF s1(2,3)] in simp_all)
qed

lemma first_runs:
  assumes m: "motion_at mv s k c l n" and f: "f = first_nonblank 0 l" "f \<noteq> c"
  shows "runs_to CHR ''^'' mv s k (min f c) (max f c - 1)"
proof -
  note d = motion_atD [OF m]
  obtain s1 where s1: "nonblank k 0 s = Some (False, f, s1)" "reads s s1" "ready s1"
    using begins_nonblank [OF d(1)] d(2,5,7) f(1) by auto
  let ?mv = "left_right (stop_cno f mv)"
  show ?thesis
  proof (rule runs_toI [OF line_keys(4) run_func_line(4)])
    show "v_first mv s = Some (False, ?mv, s1)" using s1(1) d(2,3) f(2) by (simp add: v_first_def)
    show "span_of ?mv k (min f c) (max f c - 1)"
      using d(2,3,4,8,10) f(2) by (cases "f < c") (auto simp: span_of_def left_right_def start_dec_def)
  qed (use ready_keeps [OF s1(2,3)] in simp_all)
qed

lemma span_runs:
  assumes "motion_span m n c l = Some (a, b)" "motion_at mv s k c l n"
  shows "runs_to m mv s k a b"
  using assms h_runs [OF assms(2)] zero_runs [OF assms(2)] l_runs [OF assms(2)] dollar_runs [of mv s k c l] first_runs [OF assms(2) refl]
  by (auto simp: motion_span_def Let_def min_def max_def split: if_splits)


subsection \<open>Counts\<close>

definition count_val :: "bytes \<Rightarrow> nat" where
  "count_val ds = (if ds = [] then 1 else dec_val 0 ds)"

lemma char_of_nat_48: "char_of (48::nat) = CHR ''0''"
  by code_simp

lemma count_val_pos: "a_count ds \<Longrightarrow> 0 < count_val ds"
proof (cases ds)
  case (Cons d ds')
  assume a: "a_count ds"
  then have "is_digit d" "d \<noteq> CHR ''0''" using Cons by (simp_all add: a_count_def)
  moreover have "(of_char d :: nat) = 48 \<Longrightarrow> d = CHR ''0''" by (metis char_of_char char_of_nat_48)
  ultimately have "0 < (of_char d - 48 :: nat)" by (auto simp: is_digit_def le_less)
  then show ?thesis using dec_val_ge [of "of_char d - 48" ds'] Cons by (simp add: count_val_def)
qed (simp add: count_val_def)

text \<open>The command structure for a key with a buffer and a count, at the cursor.\<close>

definition typed_cmd :: "char \<Rightarrow> bytes \<Rightarrow> char option \<Rightarrow> vicmd" where
  "typed_cmd c ds b = vp_named c (vp_counted ds (vp_buffered b vp_zero))"

lemma typed_cmd_sel [simp]:
  "vp_key (typed_cmd c ds b) = c" "vp_kp (typed_cmd c ds b) = VIKEY c" "vc_isdot (typed_cmd c ds b) = False"
  "vc_c1set (typed_cmd c ds b) = (ds \<noteq> [])" "vc_buffer (typed_cmd c ds b) = (b \<noteq> None)" "vm_lmode (typed_cmd c ds b) = False"
  "vm_cutreq (typed_cmd c ds b) = False" "vm_ldouble (typed_cmd c ds b) = False" "vm_rcm (typed_cmd c ds b) = RCM_NONE"
  "vp_rkp (typed_cmd c ds b) = None" "vc_c1reset (typed_cmd c ds b) = False"
  "ds \<noteq> [] \<Longrightarrow> vp_count (typed_cmd c ds b) = dec_val 0 ds" "b = Some x \<Longrightarrow> vp_buffer (typed_cmd c ds b) = x"
  by (simp_all add: typed_cmd_def vp_named_def vp_counted_def vp_buffered_def vp_zero_def vi_start_def split: option.splits)

lemma typed_cmd_cnt: "vp_cnt (typed_cmd c ds b) = count_val ds"
  by (simp add: vp_cnt_def count_val_def)

text \<open>Copied flags and marks do not change the rest.\<close>

lemma at_mark_sel [simp]:
  "vp_key (at_mark m vp) = vp_key vp" "vp_kp (at_mark m vp) = vp_kp vp" "vc_isdot (at_mark m vp) = vc_isdot vp"
  "vc_c1set (at_mark m vp) = vc_c1set vp" "vc_c1reset (at_mark m vp) = vc_c1reset vp" "vc_buffer (at_mark m vp) = vc_buffer vp"
  "vp_buffer (at_mark m vp) = vp_buffer vp" "vm_lmode (at_mark m vp) = vm_lmode vp" "vm_cutreq (at_mark m vp) = vm_cutreq vp"
  "vm_ldouble (at_mark m vp) = vm_ldouble vp" "vm_rcm (at_mark m vp) = vm_rcm vp" "vp_rkp (at_mark m vp) = vp_rkp vp"
  "vp_count (at_mark m vp) = vp_count vp" "m_start (at_mark m vp) = m" "m_stop (at_mark m vp) = m" "m_final (at_mark m vp) = m"
  "vp_cnt (at_mark m vp) = vp_cnt vp" "ISMOTION (at_mark m vp) = ISMOTION vp"
  by (simp_all add: at_mark_def vp_cnt_def ISMOTION_def)

lemma copy_flags_sel [simp]:
  "vp_key (copy_flags vp) = vp_key vp" "vp_kp (copy_flags vp) = vp_kp vp" "vc_isdot (copy_flags vp) = vc_isdot vp"
  "vc_c1set (copy_flags vp) = vc_c1set vp" "vc_c1reset (copy_flags vp) = vc_c1reset vp" "vc_buffer (copy_flags vp) = vc_buffer vp"
  "vp_buffer (copy_flags vp) = vp_buffer vp" "vm_lmode (copy_flags vp) = (vm_lmode vp \<or> kp_isset (vp_kp vp) V_LMODE)"
  "vm_cutreq (copy_flags vp) = (vm_cutreq vp \<or> kp_isset (vp_kp vp) V_CUTREQ)" "vm_ldouble (copy_flags vp) = vm_ldouble vp"
  "vm_rcm (copy_flags vp) = vm_rcm vp" "vp_rkp (copy_flags vp) = vp_rkp vp" "vp_count (copy_flags vp) = vp_count vp"
  "vp_cnt (copy_flags vp) = vp_cnt vp" "ISMOTION (copy_flags vp) = ISMOTION vp"
  by (simp_all add: copy_flags_def vp_cnt_def ISMOTION_def)

lemma name_ok_cong: "vc_buffer vp' = vc_buffer vp \<Longrightarrow> vp_buffer vp' = vp_buffer vp \<Longrightarrow> name_ok u vp' = name_ok u vp"
  by (simp add: name_ok_def)

text \<open>A letter names a buffer, in upper case only if \<^verbatim>\<open>isupper\<close> returns 1.\<close>

definition buffer_ok :: "char option \<Rightarrow> win \<Rightarrow> bool" where
  "buffer_ok b w \<longleftrightarrow> (\<forall>x. b = Some x \<longrightarrow> is_upper x \<longrightarrow> w_upper w = 1)"

lemma buffer_ok_name: "buffer_ok b w \<Longrightarrow> name_ok (w_upper w) (typed_cmd c ds b)"
  by (auto simp: buffer_ok_def name_ok_def)

subsection \<open>Commands without a motion\<close>

lemma recorded_refl: "editing s \<Longrightarrow> text_ok s \<Longrightarrow> recorded s (lines s) s"
  by (simp add: recorded_def)

text \<open>The state a command's function starts in.\<close>

abbreviation counted_ed :: "win \<Rightarrow> ed" where
  "counted_ed w \<equiv> upd_cur (\<lambda>c. c\<lparr>sp_ccnt := sp_ccnt c + 1\<rparr>) (w_ed w)"

lemma counted_recorded:
  assumes "editing (w_ed w)" "text_ok (w_ed w)"
  shows "recorded (w_ed w) (lines (w_ed w)) (counted_ed w)"
  by (rule recorded_upd_cur) (use assms in \<open>simp_all add: recorded_def\<close>)

text \<open>The command structure \<^verbatim>\<open>vi\<close> hands on.\<close>

definition start_cmd :: "char \<Rightarrow> bytes \<Rightarrow> char option \<Rightarrow> win \<Rightarrow> vicmd" where
  "start_cmd c ds b w = at_mark (cursor_of (w_ed w)) ((copy_flags (typed_cmd c ds b))\<lparr>vm_rcm := vk_rcm (vikeys c)\<rparr>)"

lemma start_cmd_sel [simp]:
  "vp_key (start_cmd c ds b w) = c" "vp_kp (start_cmd c ds b w) = VIKEY c" "vc_isdot (start_cmd c ds b w) = False"
  "vc_c1set (start_cmd c ds b w) = (ds \<noteq> [])" "vm_lmode (start_cmd c ds b w) = kp_isset (VIKEY c) V_LMODE"
  "vm_cutreq (start_cmd c ds b w) = kp_isset (VIKEY c) V_CUTREQ" "vm_ldouble (start_cmd c ds b w) = False"
  "vm_rcm (start_cmd c ds b w) = vk_rcm (vikeys c)" "m_start (start_cmd c ds b w) = cursor_of (w_ed w)"
  "m_stop (start_cmd c ds b w) = cursor_of (w_ed w)" "m_final (start_cmd c ds b w) = cursor_of (w_ed w)"
  by (simp_all add: start_cmd_def)

lemma start_cmd_cnt: "vp_cnt (start_cmd c ds b w) = count_val ds"
  by (simp add: start_cmd_def vp_cnt_def count_val_def)

lemma start_cmd_name: "buffer_ok b w \<Longrightarrow> name_ok (w_upper w) (start_cmd c ds b w')"
  by (auto simp: start_cmd_def buffer_ok_def name_ok_def)

lemma vi_exec_simple:
  assumes k: "\<not> kp_isset (VIKEY c) V_SECURE" "\<not> kp_isset (VIKEY c) V_MOTION" "\<not> kp_isset (VIKEY c) V_LMODE"
    and r: "run_key hk (VIKEY c) (start_cmd c ds b w) (set_ed (counted_ed w) w) = Some (False, vp', w')"
  shows "vi_exec hk (typed_cmd c ds b) com False w = Some (VI_EVENT, vp', False, w')"
  using assms unfolding vi_exec_def by (simp add: Let_def vikey_entry_def start_cmd_def)

lemma vi_exec_motion:
  assumes k: "\<not> kp_isset (VIKEY c) V_SECURE" "kp_isset (VIKEY c) V_MOTION"
    and v: "v_motion hk (start_cmd c ds b w) False w = Some (False, vp2, False, w2)" "\<not> vc_c1set vp2"
    and r: "run_key hk (vp_kp vp2) vp2 (set_ed (counted_ed w2) w2) = Some (False, vp', w')"
  shows "vi_exec hk (typed_cmd c ds b) com False w = Some (VI_EVENT, vp', False, w')"
  using assms unfolding vi_exec_def by (simp add: Let_def vikey_entry_def start_cmd_def)

subsection \<open>Motions of commands\<close>

lemma motion_get_typed:
  assumes w: "typed_in (written None es m @ cs) w" and es: "a_count es"
    and m: "\<not> is_digit m \<or> m = CHR ''0'' \<and> es = []" "m \<noteq> CHR 0x22" "m \<noteq> CHR ''D''"
    and l: "lone_key (Some vp) (o_tildeop (w_v w)) m" "es \<noteq> [] \<longrightarrow> kp_isset (VIKEY m) V_CNT" and d: "\<not> vc_isdot vp"
  obtains w' where "motion_get vp False w = Some (False, typed_cmd m es None, False, w')" "typed_in cs w'" "same_ui w w'" "w_ed w' = w_ed w"
    "vs_dot (w_v w') = vs_dot (w_v w)"
proof -
  have r: "ready_keys (typed (w_gs w) (written None es m @ cs)) (w_v w)" "list_all (plain_key (w_gs w)) (written None es m)"
    using w by (simp_all add: typed_in_def)
  have z: "\<not> vc_c1set vp_zero" "\<not> vc_buffer vp_zero" by (simp_all add: vp_zero_def vi_start_def)
  obtain v' where v': "v_cmd False vp_zero (Some vp) False (w_v w) =
      Some (GC_OK, vp_named m (vp_counted es (vp_buffered None vp_zero)), es \<noteq> [], False, v')" "reads_to (typed (w_gs w) cs) (w_v w) v'"
    using v_cmd_reads [OF r es m l z] by blast
  have t: "typed_in cs (set_v v' w)" by (rule reads_to_typed_in [OF w v'(2)]) auto
  have "o_secure v' = o_secure (w_v w)" using v'(2) by (auto simp: reads_to_def)
  then show ?thesis using that [of "set_v v' w"] v'(1) t d reads_to_same [OF v'(2)]
    by (simp add: motion_get_def same_ui_def typed_cmd_def)
qed

text \<open>What a motion leaves of the command it belongs to.\<close>

definition same_cmd :: "vicmd \<Rightarrow> vicmd \<Rightarrow> bool" where
  "same_cmd vp vp' \<longleftrightarrow> vp_key vp' = vp_key vp \<and> vp_kp vp' = vp_kp vp \<and> vc_buffer vp' = vc_buffer vp \<and> vp_buffer vp' = vp_buffer vp \<and>
     m_start vp' = m_start vp \<and> m_stop vp' = m_stop vp \<and> m_final vp' = m_final vp \<and> vm_lmode vp' = vm_lmode vp \<and>
     vm_cutreq vp' = vm_cutreq vp \<and> vm_ldouble vp' = vm_ldouble vp \<and> vm_rcm vp' = vm_rcm vp"

lemma motion_count_typed:
  assumes n: "n = count_val es * vp_cnt vp" "n < 2 ^ 64"
  obtains mv vp' where "motion_count (typed_cmd m es None) vp = (count_val es, mv, vp')" "vp_cnt mv = n" "vp_count mv = n"
    "vp_key mv = m" "vp_kp mv = VIKEY m" "\<not> vm_lmode mv" "\<not> vm_cutreq mv" "\<not> vm_ldouble mv" "vm_rcm mv = RCM_NONE"
    "same_cmd vp vp'" "\<not> vc_c1set vp'"
proof (cases "vc_c1set vp")
  case True
  then show ?thesis using that n typed_cmd_cnt [of m es None] by (simp add: motion_count_def vp_cnt_def same_cmd_def Let_def)
next
  case False
  then show ?thesis using that n typed_cmd_cnt [of m es None]
    by (cases "es = []") (simp_all add: motion_count_def vp_cnt_def same_cmd_def count_val_def Let_def)
qed

lemma v_motion_parts:
  assumes "motion_get vp False w = Some (False, mo, mapped, w1)" "motion_count mo vp = (cnt, mv, vp1)"
    and "if vp_key vp1 = vp_key mv
      then do { (e, vp, s) \<leftarrow> motion_doubled mv vp1 (w_ed w1); Some (e, mv, vp, set_ed s w1) } = Some (False, mv2, vp2, w2)
      else motion_run hk mv vp1 w1 = Some (False, mv2, vp2, w2)"
  shows "v_motion hk vp False w = Some (False, vp2, mapped,
    if kp_isset (vp_kp vp2) V_DOT then set_v ((w_v w2)\<lparr>vs_dotmotion := mv2\<lparr>vp_count := cnt\<rparr>\<rparr>) w2 else w2)"
  using assms unfolding v_motion_def by (simp split: if_splits)


text \<open>The doubled command.\<close>

lemma last_of_small:
  assumes "0 < n" "k + n - 1 < 2 ^ 32"
  shows "last_of k n = k + n - 1"
proof -
  obtain j where j: "n = Suc j" using assms(1) by (cases n) auto
  have "last_of k n = ((k + j) + 2 ^ 32) mod 2 ^ 32" unfolding last_of_def to_recno_def j by (rule arg_cong [of _ _ "\<lambda>x. x mod 2 ^ 32"]) simp
  also have "\<dots> = k + j" unfolding mod_add_self2 using assms(2) j by (intro mod_less) simp
  finally show ?thesis using j by simp
qed

lemma v_motion_double:
  assumes w: "typed_in (written None es c @ cs) w" "editing (w_ed w)" "text_ok (w_ed w)" and es: "a_count es"
    and c: "\<not> is_digit c" "c \<noteq> CHR 0x22" "c \<noteq> CHR ''D''" "lone_key (Some vp) (o_tildeop (w_v w)) c" "es \<noteq> [] \<longrightarrow> kp_isset (VIKEY c) V_CNT"
    and vp: "vp_key vp = c" "\<not> vc_isdot vp" and n: "n = count_val es * vp_cnt vp" "0 < n" "n < 2 ^ 64"
    and k: "0 < sp_lno (cur (w_ed w))" "sp_lno (cur (w_ed w)) + n - 1 \<le> length (lines (w_ed w))" "length (lines (w_ed w)) < 2 ^ 32"
  obtains vp' w' where "v_motion hk vp False w = Some (False, vp', False, w')" "typed_in cs w'" "same_ui w w'"
    "recorded (w_ed w) (lines (w_ed w)) (w_ed w')" "vs_dot (w_v w') = vs_dot (w_v w)" "vp_kp vp' = vp_kp vp" "vc_buffer vp' = vc_buffer vp" "vp_buffer vp' = vp_buffer vp"
    "vm_lmode vp'" "vm_ldouble vp'" "\<not> vc_c1set vp'" "m_start vp' = \<lparr>m_lno = sp_lno (cur (w_ed w)), m_cno = 0\<rparr>"
    "m_lno (m_stop vp') = sp_lno (cur (w_ed w)) + n - 1" "m_final vp' = m_final vp" "vm_rcm vp' = vm_rcm vp"
proof -
  let ?k = "sp_lno (cur (w_ed w))"
  obtain w1 where w1: "motion_get vp False w = Some (False, typed_cmd c es None, False, w1)" "typed_in cs w1" "same_ui w w1"
      "w_ed w1 = w_ed w" "vs_dot (w_v w1) = vs_dot (w_v w)"
    by (rule motion_get_typed [OF w(1) es _ c(2-5) vp(2)]) (use c(1) in blast)
  obtain mv vp1 where mv: "motion_count (typed_cmd c es None) vp = (count_val es, mv, vp1)" "vp_cnt mv = n" "vp_count mv = n"
      "vp_key mv = c" "vp_kp mv = VIKEY c" "same_cmd vp vp1" "\<not> vc_c1set vp1"
    by (rule motion_count_typed [OF n(1,3)])
  have ln: "last_of ?k n = ?k + n - 1" using n(2) k(2,3) by (intro last_of_small) simp_all
  obtain s1 where s1: "db_get (?k + n - 1) False (w_ed w) = Some (False, lines (w_ed w) ! (?k + n - 2), s1)" "becomes (w_ed w) (lines (w_ed w)) s1"
    using db_get_becomes [OF w(2), of "?k + n - 1" False] k n(2) w(3) by (auto simp: numeral_2_eq_2)
  let ?vp = "stop_cno (length (lines (w_ed w) ! (?k + n - 2)) - 1) (vp1\<lparr>vm_ldouble := True, vm_lmode := True,
      m_start := \<lparr>m_lno = ?k, m_cno = 0\<rparr>, m_stop := (m_stop vp1)\<lparr>m_lno := ?k + n - 1\<rparr>\<rparr>)"
  have dbl: "motion_doubled mv vp1 (w_ed w1) = Some (False, ?vp, s1)"
    using s1(1) w1(4) ln mv(3) by (simp add: motion_doubled_def)
  have m: "v_motion hk vp False w = Some (False, ?vp, False,
      if kp_isset (vp_kp ?vp) V_DOT then set_v ((w_v (set_ed s1 w1))\<lparr>vs_dotmotion := mv\<lparr>vp_count := count_val es\<rparr>\<rparr>) (set_ed s1 w1) else set_ed s1 w1)"
    by (rule v_motion_parts [OF w1(1) mv(1)]) (use dbl mv(4,6) vp(1) in \<open>simp add: same_cmd_def\<close>)
  let ?w = "if kp_isset (vp_kp ?vp) V_DOT then set_v ((w_v (set_ed s1 w1))\<lparr>vs_dotmotion := mv\<lparr>vp_count := count_val es\<rparr>\<rparr>) (set_ed s1 w1) else set_ed s1 w1"
  have "typed_in cs ?w" using typed_in_cong [of ?w w1 cs] w1(2) by simp
  moreover have "recorded (w_ed w) (lines (w_ed w)) (w_ed ?w)" using becomes_recorded [OF s1(2) w(3)] by simp
  ultimately show ?thesis using that [OF m] w1(3,5) mv(6,7) by (simp add: same_cmd_def same_ui_def stop_cno_def)
qed


text \<open>A motion within the line.\<close>

lemma motion_merge_span:
  assumes "span_of mv k a b" "a \<le> b"
  shows "m_start (motion_merge mv f vp) = \<lparr>m_lno = k, m_cno = a\<rparr>" "m_stop (motion_merge mv f vp) = \<lparr>m_lno = k, m_cno = b\<rparr>"
    "m_final (motion_merge mv f vp) = \<lparr>m_lno = k, m_cno = a\<rparr>"
  using assms by (auto simp: motion_merge_def span_of_def Let_def)

lemma motion_merge_sel [simp]:
  "vp_kp (motion_merge mv f vp) = vp_kp vp" "vc_buffer (motion_merge mv f vp) = vc_buffer vp" "vp_buffer (motion_merge mv f vp) = vp_buffer vp"
  "vc_c1set (motion_merge mv f vp) = vc_c1set vp" "vm_lmode (motion_merge mv f vp) = (vm_lmode vp \<or> vm_lmode mv)"
  "vm_ldouble (motion_merge mv f vp) = (vm_ldouble vp \<or> vm_ldouble mv)"
  by (simp_all add: motion_merge_def Let_def)

lemma marks_only_sel:
  assumes "marks_only mv mv'"
  shows "vm_lmode mv' = vm_lmode mv" "vm_ldouble mv' = vm_ldouble mv" "vm_cutreq mv' = vm_cutreq mv" "vm_rcm mv' = vm_rcm mv" "vp_kp mv' = vp_kp mv"
  using arg_cong [OF assms [unfolded marks_only_def], of vm_lmode] arg_cong [OF assms [unfolded marks_only_def], of vm_ldouble]
    arg_cong [OF assms [unfolded marks_only_def], of vm_cutreq] arg_cong [OF assms [unfolded marks_only_def], of vm_rcm]
    arg_cong [OF assms [unfolded marks_only_def], of vp_kp]
  by simp_all

lemma vp_cnt_rkp [simp]: "vp_cnt (mv\<lparr>vp_rkp := r\<rparr>) = vp_cnt mv"
  by (simp add: vp_cnt_def)

lemma line_motion_keys:
  assumes "motion_span m n c l = Some (a, b)"
  shows "\<not> kp_isset (VIKEY m) V_LMODE" "vp_key vp = CHR ''d'' \<Longrightarrow> lone_key (Some vp) t m" "m \<noteq> CHR 0x22" "m \<noteq> CHR ''D''" "m \<noteq> CHR ''d''"
    "m \<noteq> CHR ''0'' \<Longrightarrow> \<not> is_digit m" "m \<noteq> CHR ''0'' \<Longrightarrow> kp_isset (VIKEY m) V_CNT"
proof -
  have m: "m \<in> set ''hl0^$''" using assms by (auto simp: motion_span_def split: if_splits)
  have "list_all (\<lambda>m. \<not> kp_isset (VIKEY m) V_LMODE \<and> vk_func (vikeys m) \<noteq> None \<and> \<not> kp_isset (VIKEY m) V_CHAR \<and> \<not> kp_isset (VIKEY m) V_KEYW \<and>
      kp_isset (VIKEY m) V_MOVE \<and> m \<noteq> CHR 0x22 \<and> m \<notin> set ''dD[]Zz~'' \<and> (m \<noteq> CHR ''0'' \<longrightarrow> \<not> is_digit m \<and> kp_isset (VIKEY m) V_CNT)) ''hl0^$''"
    by code_simp
  with m have "\<not> kp_isset (VIKEY m) V_LMODE \<and> vk_func (vikeys m) \<noteq> None \<and> \<not> kp_isset (VIKEY m) V_CHAR \<and> \<not> kp_isset (VIKEY m) V_KEYW \<and>
      kp_isset (VIKEY m) V_MOVE \<and> m \<noteq> CHR 0x22 \<and> m \<notin> set ''dD[]Zz~'' \<and> (m \<noteq> CHR ''0'' \<longrightarrow> \<not> is_digit m \<and> kp_isset (VIKEY m) V_CNT)"
    unfolding list_all_iff by blast
  then show "\<not> kp_isset (VIKEY m) V_LMODE" "vp_key vp = CHR ''d'' \<Longrightarrow> lone_key (Some vp) t m" "m \<noteq> CHR 0x22" "m \<noteq> CHR ''D''" "m \<noteq> CHR ''d''"
    "m \<noteq> CHR ''0'' \<Longrightarrow> \<not> is_digit m" "m \<noteq> CHR ''0'' \<Longrightarrow> kp_isset (VIKEY m) V_CNT"
    by (simp_all add: lone_key_def)
qed

lemma motion_run_span:
  assumes w: "editing (w_ed w)" "text_ok (w_ed w)" and k: "cursor_of (w_ed w) = \<lparr>m_lno = k, m_cno = c\<rparr>" "0 < k" "k \<le> length (lines (w_ed w))"
    and l: "l = lines (w_ed w) ! (k - 1)" "c < length l" and mv: "vp_kp mv = VIKEY m" "vp_cnt mv = n" "\<not> vm_lmode mv" "\<not> vm_ldouble mv" "vm_rcm mv = RCM_NONE"
    and n: "0 < n" "n < 2 ^ 32" "c + n < 2 ^ 64" and sp: "motion_span m n c l = Some (a, b)"
    and vp: "vp_kp vp = VIKEY CHR ''d''" "m_stop vp = \<lparr>m_lno = k, m_cno = c\<rparr>" "\<not> vm_lmode vp" "\<not> vm_ldouble vp"
  obtains mv' vp' s' where "motion_run hk mv vp w = Some (False, mv', vp', set_ed s' w)" "recorded (w_ed w) (lines (w_ed w)) s'"
    "vp_kp vp' = vp_kp vp" "vc_buffer vp' = vc_buffer vp" "vp_buffer vp' = vp_buffer vp" "vc_c1set vp' = vc_c1set vp" "\<not> vm_lmode vp'" "\<not> vm_ldouble vp'"
    "m_start vp' = \<lparr>m_lno = k, m_cno = a\<rparr>" "m_stop vp' = \<lparr>m_lno = k, m_cno = b\<rparr>" "m_final vp' = \<lparr>m_lno = k, m_cno = a\<rparr>"
proof -
  let ?mv = "at_mark (cursor_of (w_ed w)) (copy_flags (mv\<lparr>vp_rkp := Some (vp_kp vp)\<rparr>))"
  have kd: "kp_isset (VIKEY CHR ''d'') V_MOTION" by code_simp
  note mk = line_motion_keys [OF sp] and ab = motion_span_bounds [OF sp l(2) n(1)]
  have "motion_at ?mv (w_ed w) k c l n"
    using w k l mv(2) n vp(1) kd editingD(1,4) [OF w(1)]
    by (simp add: motion_at_def begins_def ready_def on_text_def ISMOTION_def)
  then obtain f g mv' s1 where r: "vk_func (vikeys m) = Some f" "\<And>hk. run_func hk f = on_ed g" "g ?mv (w_ed w) = Some (False, mv', s1)"
      "keeps (w_ed w) s1" "marks_only ?mv mv'" "span_of mv' k a b"
    using span_runs [OF sp] unfolding runs_to_def by blast
  have run: "run_key hk (vp_kp ?mv) ?mv w = Some (False, mv', set_ed s1 w)"
    using r(1-3) mv(1) by (simp add: run_key_def vikey_entry_def on_ed_def)
  have r1: "recorded (w_ed w) (lines (w_ed w)) s1" by (rule recorded_keeps [OF recorded_refl [OF w] r(4)])
  have b1: "base s1" "\<not> sp_tinput (cur s1)" "lines s1 = lines (w_ed w)" using r1 editingD(1,4) by (auto simp: recorded_def)
  obtain s2 where s2: "db_exist k s1 = Some (True, s2)" "keeps s1 s2" using db_exist_base [OF b1(1), of k] b1(2,3) k(2,3) by auto
  let ?f = "if vm_rcm vp = VM_RCM_SET then VM_RCM else vm_rcm vp"
  let ?vp = "motion_merge mv' ?f (vp\<lparr>vm_rcm := RCM_NONE, vp_kp := VIKEY CHR ''d''\<rparr>)"
  have m: "motion_run hk mv vp w = Some (False, mv', ?vp, set_ed s2 w)"
    using run s2(1) vp(1,2) unfolding motion_run_def by (simp add: Let_def set_ed_def)
  have "\<not> vm_lmode mv'" "\<not> vm_ldouble mv'" using marks_only_sel [OF r(5)] mv mk(1) by simp_all
  then show ?thesis using that [OF m recorded_keeps [OF r1 s2(2)]] motion_merge_span [OF r(6) ab(1)] vp by simp
qed

lemma v_motion_span:
  assumes w: "typed_in (written None es m @ cs) w" "editing (w_ed w)" "text_ok (w_ed w)" and es: "a_count es" "m = CHR ''0'' \<longrightarrow> es = []"
    and k: "cursor_of (w_ed w) = \<lparr>m_lno = k, m_cno = c\<rparr>" "0 < k" "k \<le> length (lines (w_ed w))"
    and l: "l = lines (w_ed w) ! (k - 1)" "c < length l"
    and n: "n = count_val es * vp_cnt vp" "0 < n" "n < 2 ^ 32" "c + n < 2 ^ 64" and sp: "motion_span m n c l = Some (a, b)"
    and vp: "vp_key vp = CHR ''d''" "vp_kp vp = VIKEY CHR ''d''" "m_stop vp = \<lparr>m_lno = k, m_cno = c\<rparr>" "\<not> vm_lmode vp" "\<not> vm_ldouble vp" "\<not> vc_isdot vp"
  obtains vp' w' where "v_motion hk vp False w = Some (False, vp', False, w')" "typed_in cs w'" "same_ui w w'"
    "recorded (w_ed w) (lines (w_ed w)) (w_ed w')" "vp_kp vp' = vp_kp vp" "vc_buffer vp' = vc_buffer vp" "vp_buffer vp' = vp_buffer vp"
    "\<not> vm_lmode vp'" "\<not> vm_ldouble vp'" "\<not> vc_c1set vp'" "m_start vp' = \<lparr>m_lno = k, m_cno = a\<rparr>"
    "m_stop vp' = \<lparr>m_lno = k, m_cno = b\<rparr>" "m_final vp' = \<lparr>m_lno = k, m_cno = a\<rparr>"
proof -
  note mk = line_motion_keys [OF sp]
  obtain w1 where w1: "motion_get vp False w = Some (False, typed_cmd m es None, False, w1)" "typed_in cs w1" "same_ui w w1" "w_ed w1 = w_ed w"
    by (rule motion_get_typed [OF w(1) es(1) _ mk(3,4) mk(2) [OF vp(1)] _ vp(6)]) (use es(2) mk(6,7) in auto)
  have n64: "n < 2 ^ 64" using n(3) by simp
  obtain mv vp1 where mv: "motion_count (typed_cmd m es None) vp = (count_val es, mv, vp1)" "vp_cnt mv = n"
      "vp_key mv = m" "vp_kp mv = VIKEY m" "\<not> vm_lmode mv" "\<not> vm_ldouble mv" "vm_rcm mv = RCM_NONE" "same_cmd vp vp1" "\<not> vc_c1set vp1"
    by (rule motion_count_typed [OF n(1) n64])
  have e1: "editing (w_ed w1)" "text_ok (w_ed w1)" "cursor_of (w_ed w1) = \<lparr>m_lno = k, m_cno = c\<rparr>" "k \<le> length (lines (w_ed w1))"
    "l = lines (w_ed w1) ! (k - 1)" using w(2,3) k l w1(4) by simp_all
  have v1: "vp_kp vp1 = VIKEY CHR ''d''" "m_stop vp1 = \<lparr>m_lno = k, m_cno = c\<rparr>" "\<not> vm_lmode vp1" "\<not> vm_ldouble vp1"
    using mv(8) vp by (simp_all add: same_cmd_def)
  obtain mv2 vp2 s2 where s2: "motion_run hk mv vp1 w1 = Some (False, mv2, vp2, set_ed s2 w1)" "recorded (w_ed w1) (lines (w_ed w1)) s2"
      "vp_kp vp2 = vp_kp vp1" "vc_buffer vp2 = vc_buffer vp1" "vp_buffer vp2 = vp_buffer vp1" "vc_c1set vp2 = vc_c1set vp1" "\<not> vm_lmode vp2" "\<not> vm_ldouble vp2"
      "m_start vp2 = \<lparr>m_lno = k, m_cno = a\<rparr>" "m_stop vp2 = \<lparr>m_lno = k, m_cno = b\<rparr>" "m_final vp2 = \<lparr>m_lno = k, m_cno = a\<rparr>"
    by (rule motion_run_span [OF e1(1,2,3) k(2) e1(4,5) l(2) mv(4,2,5,6,7) n(2-4) sp v1])
  let ?w = "if kp_isset (vp_kp vp2) V_DOT then set_v ((w_v (set_ed s2 w1))\<lparr>vs_dotmotion := mv2\<lparr>vp_count := count_val es\<rparr>\<rparr>) (set_ed s2 w1) else set_ed s2 w1"
  have m: "v_motion hk vp False w = Some (False, vp2, False, ?w)"
    by (rule v_motion_parts [OF w1(1) mv(1)]) (use s2(1) mv(3,8) vp(1) mk(5) in \<open>auto simp: same_cmd_def\<close>)
  have "typed_in cs ?w" using typed_in_cong [of ?w w1 cs] w1(2) by simp
  then show ?thesis using that [OF m] w1(3,4) mv(8,9) s2 by (simp add: same_cmd_def same_ui_def)
qed


subsection \<open>A command and its undo\<close>

text \<open>
  Two rounds: in the first the lines become \<open>lsn\<close> and the cursor goes to \<open>m\<close>; in the second both are
  as before again. The keys \<open>cs\<close> are left.
\<close>

definition changes_then_back :: "hooks \<Rightarrow> vicmd \<Rightarrow> win \<Rightarrow> bytes list \<Rightarrow> mark \<Rightarrow> bytes \<Rightarrow> bool" where
  "changes_then_back hk vp w lsn m cs \<longleftrightarrow> (\<exists>vp1 w1 vp2 w2.
     vi_round hk vp w = Some (VI_LOOP, vp1, w1) \<and> lines (w_ed w1) = lsn \<and> cursor_of (w_ed w1) = m \<and>
     vi_round hk vp1 w1 = Some (VI_LOOP, vp2, w2) \<and> lines (w_ed w2) = lines (w_ed w) \<and> cursor_of (w_ed w2) = cursor_of (w_ed w) \<and>
     typed_in cs w2)"

lemma command_then_u:
  assumes hk: "calm hk" and w: "at_command ls past future ks w" and ne: "lsn \<noteq> lines (w_ed w)"
    and c: "\<And>w1. starts w ks ls past w1 \<Longrightarrow> \<exists>vp2 w2. vi_command hk False w1 = Some (VI_EVENT, vp2, False, w2) \<and>
      typed_in (CHR ''u'' # cs) w2 \<and> same_ui w1 w2 \<and> recorded (w_ed w1) lsn (w_ed w2) \<and> landing vp2 lsn \<and> lands vp2 lsn = m"
  shows "changes_then_back hk vp w lsn m cs"
proof -
  have c': "\<And>w1. starts w ks ls past w1 \<Longrightarrow> \<exists>vp2 w2. vi_command hk False w1 = Some (VI_EVENT, vp2, False, w2) \<and>
      typed_in (CHR ''u'' # cs) w2 \<and> same_ui w1 w2 \<and> recorded (w_ed w1) lsn (w_ed w2) \<and> landing vp2 lsn \<and> lands vp2 lsn = m \<and> True"
    using c by simp
  obtain vp1 w1 fs vp2 w2 where w1: "vi_round hk vp w = Some (VI_LOOP, vp1, w1)"
      "after_command ls past (cursor_of (w_ed w)) fs (CHR ''u'' # cs) w1" "same_ui w w1" "lines (w_ed w1) = lsn" "cursor_of (w_ed w1) = m"
    by (rule vi_round_recorded [OF hk w c'])
  have h: "lines (w_ed w) = tl.dos past ls" using w historyD(8) by (auto simp: at_command_def)
  have "fs \<noteq> []" using w1(2,4) ne h by (auto simp: after_command_def in_event_def)
  then obtain vp3 w3 where "vi_round hk vp1 w1 = Some (VI_LOOP, vp3, w3)" "lines (w_ed w3) = tl.dos past ls"
      "cursor_of (w_ed w3) = cursor_of (w_ed w)" "typed_in cs w3"
    using after_command_u [OF hk w1(2)] by metis
  then show ?thesis using w1(1,4,5) h unfolding changes_then_back_def by auto
qed

lemma x_command:
  assumes st: "starts w (written b ds CHR ''x'' @ cs) ls past w1" and ds: "a_count ds" and b: "buffer_ok b w" and cu: "cursor_of (w_ed w) = \<lparr>m_lno = k, m_cno = c\<rparr>"
    and l: "l = lines (w_ed w) ! (k - 1)" "0 < k" "k \<le> length (lines (w_ed w))" "c < length l" "length l \<le> SIZE_MAX"
    and n: "n = count_val ds" "c + n \<le> SIZE_MAX"
  shows "\<exists>vp2 w2. vi_command hk False w1 = Some (VI_EVENT, vp2, False, w2) \<and> typed_in cs w2 \<and> same_ui w1 w2 \<and>
    recorded (w_ed w1) ((lines (w_ed w))[k - 1 := take c l @ drop (c + n) l]) (w_ed w2) \<and>
    landing vp2 ((lines (w_ed w))[k - 1 := take c l @ drop (c + n) l]) \<and>
    lands vp2 ((lines (w_ed w))[k - 1 := take c l @ drop (c + n) l]) = \<lparr>m_lno = k, m_cno = if length l \<le> c + n then c - 1 else c\<rparr>"
proof -
  let ?x = "CHR ''x''" and ?ls = "(lines (w_ed w))[k - 1 := take c l @ drop (c + n) l]"
  have s: "typed_in (written b ds ?x @ cs) w1" "same_ui w w1" "editing (w_ed w1)" "text_ok (w_ed w1)" "lines (w_ed w1) = lines (w_ed w)"
    "cursor_of (w_ed w1) = cursor_of (w_ed w)" using st by (simp_all add: starts_def)
  have kx: "lone_key None t ?x" "kp_isset (VIKEY ?x) V_CNT" "kp_isset (VIKEY ?x) V_OBUF" for t by (cases t) code_simp+
  have kn: "\<not> kp_isset (VIKEY ?x) V_SECURE" "\<not> kp_isset (VIKEY ?x) V_MOTION" "\<not> kp_isset (VIKEY ?x) V_LMODE"
    "\<forall>f \<in> {V_ABS, V_ABS_C, V_ABS_L}. \<not> kp_isset (VIKEY ?x) f" "vk_rcm (vikeys ?x) = VM_RCM_SET" "vk_func (vikeys ?x) = Some (VEdit VF_xchar)"
    by code_simp+
  obtain w2 where w2: "vi_command hk False w1 = vi_exec hk (typed_cmd ?x ds b) (ds \<noteq> []) False w2" "typed_in cs w2" "same_ui w1 w2" "w_ed w2 = w_ed w1"
    using vi_command_reads [OF s(1) ds, of hk] kx unfolding typed_cmd_def by (auto simp: is_digit_def)
  let ?vp = "start_cmd ?x ds b w2" and ?s = "counted_ed w2"
  have r2: "recorded (w_ed w1) (lines (w_ed w)) ?s" using counted_recorded [of w2] s(3-5) w2(4) by simp
  have e: "editing ?s" "text_ok ?s" "lines ?s = lines (w_ed w)" using r2 by (simp_all add: recorded_def)
  have u: "name_ok (w_upper w2) ?vp" by (rule start_cmd_name) (use b s(2) w2(3) in \<open>simp add: buffer_ok_def same_ui_def\<close>)
  have m: "m_start ?vp = \<lparr>m_lno = k, m_cno = c\<rparr>" "m_stop ?vp = m_start ?vp" "m_final ?vp = m_start ?vp" using cu s(6) w2(4) by simp_all
  have cn: "vp_cnt ?vp = n" using n(1) by (simp add: start_cmd_cnt)
  obtain vp' s' where r: "v_xchar (w_upper w2) ?vp ?s = Some (False, vp', s')" "cuts ?s ?ls [take n (drop c l)] False s'"
      "m_final vp' = \<lparr>m_lno = k, m_cno = if length l \<le> c + n then c - 1 else c\<rparr>" "\<exists>x y. vp' = ?vp\<lparr>m_stop := x, m_final := y\<rparr>"
    using v_xchar_spec [OF e(1,2) u m, of l] l n(2) cn count_val_pos [OF ds] n(1) e(3) by auto
  have "run_key hk (VIKEY ?x) ?vp (set_ed ?s w2) = Some (False, vp', set_ed s' (set_ed ?s w2))"
    using r(1) by (simp add: run_key_def vikey_entry_def kn(6) run_func_def on_ed_def)
  from vi_exec_simple [OF kn(1-3) this]
  have x: "vi_command hk False w1 = Some (VI_EVENT, vp', False, set_ed s' (set_ed ?s w2))" using w2(1) by simp
  have v: "vp_kp vp' = VIKEY ?x" "vm_rcm vp' = VM_RCM_SET" using r(4) kn(5) by auto
  have ld: "landing vp' ?ls" "lands vp' ?ls = m_final vp'" using r(3) l(2) kn(4) unfolding landing_def lands_def v by simp_all
  have "typed_in cs (set_ed s' (set_ed ?s w2))" using typed_in_cong [of "set_ed s' (set_ed ?s w2)" w2 cs] w2(2) by simp
  then show ?thesis using x w2(3) recorded_trans [OF r2 cuts_recorded [OF r(2)]] ld r(3) by (simp add: same_ui_def)
qed


text \<open>What is known of a \<^verbatim>\<open>d\<close> whose motion has been run.\<close>

lemma d_key:
  "lone_key None t CHR ''d''" "kp_isset (VIKEY CHR ''d'') V_CNT" "kp_isset (VIKEY CHR ''d'') V_OBUF" "\<not> kp_isset (VIKEY CHR ''d'') V_SECURE"
  "kp_isset (VIKEY CHR ''d'') V_MOTION" "\<not> kp_isset (VIKEY CHR ''d'') V_LMODE" "\<forall>f \<in> {V_ABS, V_ABS_C, V_ABS_L}. \<not> kp_isset (VIKEY CHR ''d'') f"
  "vk_rcm (vikeys CHR ''d'') = VM_RCM_SET" "vk_func (vikeys CHR ''d'') = Some (VEdit VF_delete)"
  "vp_key vp = CHR ''d'' \<Longrightarrow> lone_key (Some vp) t CHR ''d''"
proof -
  show "lone_key None t CHR ''d''" by (cases t) code_simp+
  have "vk_func (vikeys CHR ''d'') \<noteq> None \<and> \<not> kp_isset (VIKEY CHR ''d'') V_CHAR \<and> \<not> kp_isset (VIKEY CHR ''d'') V_KEYW" by code_simp
  then show "vp_key vp = CHR ''d'' \<Longrightarrow> lone_key (Some vp) t CHR ''d''" by (simp add: lone_key_def)
qed code_simp+

lemma d_start:
  assumes st: "starts w (written b ds CHR ''d'' @ ks) ls past w1" and ds: "a_count ds"
  obtains w2 where "vi_command hk False w1 = vi_exec hk (typed_cmd CHR ''d'' ds b) (ds \<noteq> []) False w2" "typed_in ks w2" "same_ui w1 w2"
    "w_ed w2 = w_ed w1"
proof -
  have "typed_in (written b ds CHR ''d'' @ ks) w1" using st by (simp add: starts_def)
  then show ?thesis
    by (rule vi_command_reads [OF _ ds _ _ _ d_key(1), of b ks w1 hk]) (use that d_key(2,3) in \<open>simp_all add: is_digit_def typed_cmd_def\<close>)
qed

lemma d_ends:
  assumes w2: "vi_command hk False w1 = vi_exec hk (typed_cmd CHR ''d'' ds b) com False w2" "same_ui w1 w2"
    and m: "v_motion hk (start_cmd CHR ''d'' ds b w2) False w2 = Some (False, vp2, False, w3)" "\<not> vc_c1set vp2" "vp_kp vp2 = VIKEY CHR ''d''"
      "typed_in cs w3" "same_ui w2 w3" "recorded (w_ed w1) lsm (counted_ed w3)"
    and d: "v_delete (w_upper w3) vp2 (counted_ed w3) = Some (False, vp', s')" "cuts (counted_ed w3) lsn txt lm s'"
      "vp_kp vp' = vp_kp vp2" "0 < m_lno (m_final vp')" "vm_rcm vp' = VM_RCM_SET \<or> vm_rcm vp' = VM_RCM_SETFNB \<and> m_lno (m_final vp') \<le> length lsn"
  shows "\<exists>w4. vi_command hk False w1 = Some (VI_EVENT, vp', False, w4) \<and> typed_in cs w4 \<and> same_ui w1 w4 \<and>
    recorded (w_ed w1) lsn (w_ed w4) \<and> landing vp' lsn"
proof -
  let ?w = "set_ed s' (set_ed (counted_ed w3) w3)"
  have "run_key hk (vp_kp vp2) vp2 (set_ed (counted_ed w3) w3) = Some (False, vp', ?w)"
    using d(1) by (simp add: run_key_def vikey_entry_def d_key(9) m(3) run_func_def on_ed_def)
  from vi_exec_motion [OF d_key(4,5) m(1,2) this]
  have "vi_command hk False w1 = Some (VI_EVENT, vp', False, ?w)" using w2(1) by simp
  moreover have "typed_in cs ?w" using typed_in_cong [of ?w w3 cs] m(4) by simp
  moreover have "landing vp' lsn" using d(3-5) d_key(7) m(3) by (simp add: landing_def)
  ultimately show ?thesis using w2(2) m(5) recorded_trans [OF m(6) cuts_recorded [OF d(2)]] by (intro exI [of _ ?w]) (simp add: same_ui_def)
qed

lemma dd_command:
  assumes st: "starts w (written b ds CHR ''d'' @ written None es CHR ''d'' @ cs) ls past w1" and ds: "a_count ds" "a_count es" and b: "buffer_ok b w"
    and cu: "cursor_of (w_ed w) = \<lparr>m_lno = k, m_cno = c\<rparr>" "0 < k" and n: "n = count_val es * count_val ds" "n < 2 ^ 64"
    and k: "k + n - 1 \<le> length (lines (w_ed w))" "length (lines (w_ed w)) < 2 ^ 32"
    and ln: "lsn = take (k - 1) (lines (w_ed w)) @ drop (k + n - 1) (lines (w_ed w))"
  shows "\<exists>vp2 w2. vi_command hk False w1 = Some (VI_EVENT, vp2, False, w2) \<and> typed_in cs w2 \<and> same_ui w1 w2 \<and>
    recorded (w_ed w1) lsn (w_ed w2) \<and> landing vp2 lsn \<and>
    lands vp2 lsn = (if lsn = [] then \<lparr>m_lno = 1, m_cno = 0\<rparr>
      else \<lparr>m_lno = min k (length lsn), m_cno = let l = lsn ! (min k (length lsn) - 1) in if l = [] then 0 else first_nonblank 0 l\<rparr>)"
proof -
  let ?d = "CHR ''d''"
  have s: "same_ui w w1" "editing (w_ed w1)" "text_ok (w_ed w1)" "lines (w_ed w1) = lines (w_ed w)" "cursor_of (w_ed w1) = cursor_of (w_ed w)"
    using st by (simp_all add: starts_def)
  obtain w2 where w2: "vi_command hk False w1 = vi_exec hk (typed_cmd ?d ds b) (ds \<noteq> []) False w2" "typed_in (written None es ?d @ cs) w2"
      "same_ui w1 w2" "w_ed w2 = w_ed w1" by (rule d_start [OF st ds(1)])
  let ?vp = "start_cmd ?d ds b w2"
  have e2: "editing (w_ed w2)" "text_ok (w_ed w2)" using s(2,3) w2(4) by simp_all
  have kk: "sp_lno (cur (w_ed w2)) = k" "0 < n" "n = count_val es * vp_cnt ?vp"
    using cu(1) s(5) w2(4) count_val_pos ds n(1) by (simp_all add: cursor_of_def start_cmd_cnt)
  obtain vp2 w3 where m: "v_motion hk ?vp False w2 = Some (False, vp2, False, w3)" "typed_in cs w3" "same_ui w2 w3"
      "recorded (w_ed w2) (lines (w_ed w2)) (w_ed w3)" "vp_kp vp2 = VIKEY ?d" "vc_buffer vp2 = vc_buffer ?vp" "vp_buffer vp2 = vp_buffer ?vp"
      "vm_lmode vp2" "vm_ldouble vp2" "\<not> vc_c1set vp2" "m_start vp2 = \<lparr>m_lno = k, m_cno = 0\<rparr>"
      "m_lno (m_stop vp2) = k + n - 1" "m_final vp2 = \<lparr>m_lno = k, m_cno = c\<rparr>" "vm_rcm vp2 = VM_RCM_SET"
    by (rule v_motion_double [OF w2(2) e2 ds(2) _ _ _ d_key(10) _ _ _ kk(3,2) n(2)])
      (use d_key(2,8) kk(1) cu s(4,5) w2(4) k in \<open>simp_all add: is_digit_def\<close>)
  have r3: "recorded (w_ed w1) (lines (w_ed w)) (counted_ed w3)"
    using recorded_upd_cur [OF m(4), of "\<lambda>c. c\<lparr>sp_ccnt := sp_ccnt c + 1\<rparr>"] w2(4) s(4) by simp
  note e3 = recordedD [OF r3]
  have u: "name_ok (w_upper w3) vp2"
    using start_cmd_name [of b w3 ?d ds w2] b s(1) w2(3) m(3) name_ok_cong [OF m(6,7)] by (simp add: buffer_ok_def same_ui_def)
  have rg: "range_ok True (m_start vp2) (m_stop vp2) (lines (counted_ed w3))" using m(11,12) cu(2) kk(2) k(1) e3(3) by (simp add: range_ok_def)
  have ls3: "lsn = take (m_lno (m_start vp2) - 1) (lines (counted_ed w3)) @ drop (m_lno (m_stop vp2)) (lines (counted_ed w3))"
    using ln m(11,12) e3(3) by simp
  obtain vp' s' where d: "v_delete (w_upper w3) vp2 (counted_ed w3) = Some (False, vp', s')"
      "cuts (counted_ed w3) lsn (range_text True (m_start vp2) (m_stop vp2) (lines (counted_ed w3))) True s'"
      "m_final vp' = (if lsn = [] then \<lparr>m_lno = 1, m_cno = 0\<rparr> else (m_final vp2)\<lparr>m_lno := min (m_lno (m_final vp2)) (length lsn)\<rparr>)"
      "vm_rcm vp' = (if lsn \<noteq> [] \<and> vm_ldouble vp2 then VM_RCM_SETFNB else vm_rcm vp2)" "vp_kp vp' = vp_kp vp2"
    using v_delete_lines [OF e3(1,2) m(8) rg _ u ls3] m(13) cu(2) by auto
  have f: "0 < m_lno (m_final vp')" "vm_rcm vp' = VM_RCM_SET \<or> vm_rcm vp' = VM_RCM_SETFNB \<and> m_lno (m_final vp') \<le> length lsn"
    using d(3,4) m(9,13,14) cu(2) by (auto split: if_splits)
  have "lands vp' lsn = (if lsn = [] then \<lparr>m_lno = 1, m_cno = 0\<rparr>
      else \<lparr>m_lno = min k (length lsn), m_cno = let l = lsn ! (min k (length lsn) - 1) in if l = [] then 0 else first_nonblank 0 l\<rparr>)"
    using d(3,4) m(9,13,14) by (simp add: lands_def)
  with d_ends [OF w2(1,3) m(1,10,5,2,3) r3 d(1,2,5) f] show ?thesis by blast
qed

lemma d_span_command:
  assumes st: "starts w (written b ds CHR ''d'' @ written None es m @ cs) ls past w1" and ds: "a_count ds" "a_count es" "m = CHR ''0'' \<longrightarrow> es = []"
    and b: "buffer_ok b w" and cu: "cursor_of (w_ed w) = \<lparr>m_lno = k, m_cno = c\<rparr>"
    and l: "l = lines (w_ed w) ! (k - 1)" "0 < k" "k \<le> length (lines (w_ed w))" "c < length l" "length l \<le> SIZE_MAX"
    and n: "n = count_val es * count_val ds" "n < 2 ^ 32" "c + n < 2 ^ 64" and sp: "motion_span m n c l = Some (a, e)"
    and ln: "l' = take a l @ drop (e + 1) l" "lsn = (lines (w_ed w))[k - 1 := l']"
  shows "\<exists>vp2 w2. vi_command hk False w1 = Some (VI_EVENT, vp2, False, w2) \<and> typed_in cs w2 \<and> same_ui w1 w2 \<and>
    recorded (w_ed w1) lsn (w_ed w2) \<and> landing vp2 lsn \<and> lands vp2 lsn = \<lparr>m_lno = k, m_cno = min a (length l' - 1)\<rparr>"
proof -
  let ?d = "CHR ''d''"
  have s: "same_ui w w1" "editing (w_ed w1)" "text_ok (w_ed w1)" "lines (w_ed w1) = lines (w_ed w)" "cursor_of (w_ed w1) = cursor_of (w_ed w)"
    using st by (simp_all add: starts_def)
  obtain w2 where w2: "vi_command hk False w1 = vi_exec hk (typed_cmd ?d ds b) (ds \<noteq> []) False w2" "typed_in (written None es m @ cs) w2"
      "same_ui w1 w2" "w_ed w2 = w_ed w1" by (rule d_start [OF st ds(1)])
  let ?vp = "start_cmd ?d ds b w2"
  have e2: "editing (w_ed w2)" "text_ok (w_ed w2)" "cursor_of (w_ed w2) = \<lparr>m_lno = k, m_cno = c\<rparr>" "k \<le> length (lines (w_ed w2))"
    "l = lines (w_ed w2) ! (k - 1)" using s(2-5) w2(4) cu l by simp_all
  have nn: "0 < n" "n = count_val es * vp_cnt ?vp" using count_val_pos ds n(1) by (simp_all add: start_cmd_cnt)
  note ab = motion_span_bounds [OF sp l(4) nn(1)]
  obtain vp2 w3 where m: "v_motion hk ?vp False w2 = Some (False, vp2, False, w3)" "typed_in cs w3" "same_ui w2 w3"
      "recorded (w_ed w2) (lines (w_ed w2)) (w_ed w3)" "vp_kp vp2 = VIKEY ?d" "vc_buffer vp2 = vc_buffer ?vp" "vp_buffer vp2 = vp_buffer ?vp"
      "\<not> vm_lmode vp2" "\<not> vm_ldouble vp2" "\<not> vc_c1set vp2" "m_start vp2 = \<lparr>m_lno = k, m_cno = a\<rparr>"
      "m_stop vp2 = \<lparr>m_lno = k, m_cno = e\<rparr>" "m_final vp2 = \<lparr>m_lno = k, m_cno = a\<rparr>"
    by (rule v_motion_span [OF w2(2) e2(1,2) ds(2,3) e2(3) l(2) e2(4,5) l(4) nn(2,1) n(2,3) sp]) (use e2(3) d_key(6) in simp_all)
  have r3: "recorded (w_ed w1) (lines (w_ed w)) (counted_ed w3)"
    using recorded_upd_cur [OF m(4), of "\<lambda>c. c\<lparr>sp_ccnt := sp_ccnt c + 1\<rparr>"] w2(4) s(4) by simp
  note e3 = recordedD [OF r3]
  have u: "name_ok (w_upper w3) vp2"
    using start_cmd_name [of b w3 ?d ds w2] b s(1) w2(3) m(3) name_ok_cong [OF m(6,7)] by (simp add: buffer_ok_def same_ui_def)
  have dl: "deletable (m_start vp2) (m_stop vp2) (lines (counted_ed w3))"
    using deletable_line [OF l(2,3), of a e] ab l m(11,12) e3(3) by simp
  have "cno_next e = e + 1" using ab(2) l(5) by simp
  then have wt: "lsn = without (m_start vp2) (m_stop vp2) (lines (counted_ed w3))"
    using without_line [OF l(2,3), of a e] m(11,12) e3(3) l(1) ln by simp
  obtain vp' s' where d: "v_delete (w_upper w3) vp2 (counted_ed w3) = Some (False, vp', s')"
      "cuts (counted_ed w3) lsn (range_text False (m_start vp2) (m_stop vp2) (lines (counted_ed w3))) False s'"
      "m_final vp' = clipped (m_final vp2) lsn" "vm_rcm vp' = VM_RCM_SET" "vp_kp vp' = vp_kp vp2"
    using v_delete_chars [OF e3(1,2) m(8) dl _ _ u wt] m(9,11,13) l(2) by auto
  have f: "m_final vp' = \<lparr>m_lno = k, m_cno = min a (length l' - 1)\<rparr>" using d(3) m(13) ln(2) l(2,3) by (simp add: clipped_def)
  then have "lands vp' lsn = \<lparr>m_lno = k, m_cno = min a (length l' - 1)\<rparr>" using d(4) by (simp add: lands_def)
  moreover have "0 < m_lno (m_final vp')" "vm_rcm vp' = VM_RCM_SET \<or> vm_rcm vp' = VM_RCM_SETFNB \<and> m_lno (m_final vp') \<le> length lsn"
    using f l(2) d(4) by simp_all
  ultimately show ?thesis using d_ends [OF w2(1,3) m(1,10,5,2,3) r3 d(1,2,5)] by blast
qed


subsection \<open>Properties\<close>

lemma cut_out_changes:
  assumes "a < b" "a < length l"
  shows "take a l @ drop b l \<noteq> l"
proof -
  have "length (take a l @ drop b l) < length l" using assms by auto
  then show ?thesis by force
qed

text \<open>
  C3: \<^verbatim>\<open>x\<close> and its undo. \<^verbatim>\<open>x\<close>, typed with a buffer and a count, or without, deletes that many
  characters from the cursor, or as many as there are, and leaves the cursor in the line; an \<^verbatim>\<open>u\<close> after
  it restores the line and the cursor; the keys typed after it are left.
\<close>

theorem x_then_u:
  assumes "calm hk" "at_command ls past future (written b ds CHR ''x'' @ CHR ''u'' # cs) w" "a_count ds" "buffer_ok b w"
    and "cursor_of (w_ed w) = \<lparr>m_lno = k, m_cno = c\<rparr>" "l = lines (w_ed w) ! (k - 1)" "0 < k" "k \<le> length (lines (w_ed w))"
    and "c < length l" "length l \<le> SIZE_MAX" "n = count_val ds" "c + n \<le> SIZE_MAX"
  shows "changes_then_back hk vp w ((lines (w_ed w))[k - 1 := take c l @ drop (c + n) l])
    \<lparr>m_lno = k, m_cno = if length l \<le> c + n then c - 1 else c\<rparr> cs"
proof (rule command_then_u [OF assms(1,2)])
  have "take c l @ drop (c + n) l \<noteq> l"
    by (rule cut_out_changes) (use assms(9,11) count_val_pos [OF assms(3)] in simp_all)
  then show "(lines (w_ed w))[k - 1 := take c l @ drop (c + n) l] \<noteq> lines (w_ed w)"
    using assms(6-8) by (metis One_nat_def Suc_pred less_eq_Suc_le nth_list_update_eq)
qed (rule x_command [OF _ assms(3-12)])

text \<open>
  C2: \<^verbatim>\<open>dd\<close> and its undo. The counts before and after the first \<^verbatim>\<open>d\<close> multiply; that many lines go,
  the cursor goes to the first nonblank of the line that follows, or of the last line, and an \<^verbatim>\<open>u\<close> restores
  the lines and the cursor.
\<close>

theorem dd_then_u:
  assumes "calm hk" "at_command ls past future (written b ds CHR ''d'' @ written None es CHR ''d'' @ CHR ''u'' # cs) w"
    and "a_count ds" "a_count es" "buffer_ok b w" "cursor_of (w_ed w) = \<lparr>m_lno = k, m_cno = c\<rparr>" "0 < k"
    and "n = count_val es * count_val ds" "n < 2 ^ 64" "k + n - 1 \<le> length (lines (w_ed w))" "length (lines (w_ed w)) < 2 ^ 32"
    and "lsn = take (k - 1) (lines (w_ed w)) @ drop (k + n - 1) (lines (w_ed w))"
  shows "changes_then_back hk vp w lsn
    (if lsn = [] then \<lparr>m_lno = 1, m_cno = 0\<rparr>
     else \<lparr>m_lno = min k (length lsn), m_cno = let l = lsn ! (min k (length lsn) - 1) in if l = [] then 0 else first_nonblank 0 l\<rparr>) cs"
proof (rule command_then_u [OF assms(1,2)])
  have "0 < n" using assms(3,4,8) count_val_pos by simp
  then show "lsn \<noteq> lines (w_ed w)" unfolding assms(12) by (intro cut_out_changes) (use assms(7,10) in simp_all)
qed (rule dd_command [OF _ assms(3-12)])

text \<open>
  C1: \<^verbatim>\<open>d\<close> with a motion within the line, and its undo. For \<^verbatim>\<open>h\<close>, \<^verbatim>\<open>l\<close>, \<^verbatim>\<open>0\<close>, \<^verbatim>\<open>^\<close>
  and \<^verbatim>\<open>$\<close>, with the product of the counts, the characters the motion spans are deleted and the cursor goes
  where they began; an \<^verbatim>\<open>u\<close> restores the line and the cursor.
\<close>

theorem d_motion_then_u:
  assumes "calm hk" "at_command ls past future (written b ds CHR ''d'' @ written None es m @ CHR ''u'' # cs) w"
    and "a_count ds" "a_count es" "m = CHR ''0'' \<longrightarrow> es = []" "buffer_ok b w" "cursor_of (w_ed w) = \<lparr>m_lno = k, m_cno = c\<rparr>"
    and "l = lines (w_ed w) ! (k - 1)" "0 < k" "k \<le> length (lines (w_ed w))" "c < length l" "length l \<le> SIZE_MAX"
    and "n = count_val es * count_val ds" "n < 2 ^ 32" "c + n < 2 ^ 64" "motion_span m n c l = Some (a, e)" "l' = take a l @ drop (e + 1) l"
  shows "changes_then_back hk vp w ((lines (w_ed w))[k - 1 := l']) \<lparr>m_lno = k, m_cno = min a (length l' - 1)\<rparr> cs"
proof (rule command_then_u [OF assms(1,2)])
  have "0 < n" using assms(3,4,13) count_val_pos by simp
  then have "a \<le> e" "e < length l" using motion_span_bounds [OF assms(16,11)] by simp_all
  then have "l' \<noteq> l" unfolding assms(17) by (intro cut_out_changes) simp_all
  then show "(lines (w_ed w))[k - 1 := l'] \<noteq> lines (w_ed w)"
    using assms(8-10) by (metis One_nat_def Suc_pred less_eq_Suc_le nth_list_update_eq)
qed (rule d_span_command [OF _ assms(3-17) refl])

text \<open>An editor with a file opened and keys typed.\<close>

definition idle_hooks :: hooks where
  "idle_hooks = \<lparr>hk_resolve = (\<lambda>w. Some (False, w)), hk_refresh = (\<lambda>d s. Some (False, d, s)), hk_func = (\<lambda>_ vp w. Some (True, vp, w)),
     hk_event = (\<lambda>vp w. Some (False, vp, w)), hk_switch = (\<lambda>w. Some (False, w))\<rparr>"

definition typing :: "bytes \<Rightarrow> bytes list \<Rightarrow> nat \<Rightarrow> nat \<Rightarrow> win" where
  "typing ks ls k c = \<lparr>w_v = (at_keys ks ls)\<lparr>vs_ed := upd_cur (\<lambda>s. s\<lparr>sp_lno := k, sp_cno := c\<rparr>) (opened ls)\<rparr>, w_disp = plain_disp 80 8,
     w_chs = \<lparr>lastckey = CHR 0x00, csearchdir = CNOTSET\<rparr>, w_upper = 1, w_s_refresh = False, w_excmd_running = False, w_exit = False,
     w_sswitch = False, w_fswitch = False, w_srestart = False, w_sc_ex = False\<rparr>"

lemma idle_calm: "calm idle_hooks"
  by (simp add: calm_def idle_hooks_def redrawn_same)

lemma typing_sel [simp]:
  "lines (w_ed (typing ks ls k c)) = ls" "cursor_of (w_ed (typing ks ls k c)) = \<lparr>m_lno = k, m_cno = c\<rparr>" "buffer_ok b (typing ks ls k c)"
  by (simp_all add: typing_def cursor_of_def buffer_ok_def at_keys_def)

lemma typing_at_command:
  assumes "list_all (\<lambda>c. c \<notin> {CHR 0x1B, CHR 0x16} \<and> (of_char c :: nat) < MAX_BIT_SEQ) ks" "0 < k"
  shows "at_command ls [] [] ks (typing ks ls k c)"
proof -
  let ?f = "\<lambda>s. s\<lparr>sp_lno := k, sp_cno := c\<rparr>"
  have g: "w_gs (typing ks ls k c) = vs_gs (at_keys ks ls)" by (simp add: typing_def at_keys_def)
  have "CHR 0x1B \<notin> set ks" "CHR 0x16 \<notin> set ks" using assms(1) by (auto simp: list_all_iff)
  then have "ready_keys (typed (vs_gs (at_keys ks ls)) ks) (at_keys ks ls)" by (rule at_keys_typed(1))
  moreover have "list_all (plain_key (vs_gs (at_keys ks ls))) ks" using assms(1) by (simp add: at_keys_typed(2) list_all_iff)
  moreover have "no_interrupts (vs_gs (at_keys ks ls))" by (simp add: no_interrupts_def at_keys_def keys_typed_def Let_def)
  ultimately have t: "typed_in ks (typing ks ls k c)" unfolding typed_in_def ready_keys_def g by simp
  have h: "history (upd_cur ?f (opened ls)) ls [] []" by (rule history_upd_cur [OF opened_history]) simp_all
  have "text_ok (upd_cur ?f (opened ls))" using opened_ready(2) [of ls] by (simp add: text_ok_def)
  moreover have "interrupted (opened ls) = (\<lambda>_. False)" by (simp add: opened_def)
  ultimately show ?thesis using t h assms(2) by (simp add: at_command_def at_ease_def typing_def at_keys_def)
qed

theorem x_then_u_witness:
  "changes_then_back idle_hooks vp_zero (typing ''2xuj'' [''abcd''] 1 1) [''ad''] \<lparr>m_lno = 1, m_cno = 1\<rparr> ''j''"
proof -
  have w: "at_command [''abcd''] [] [] (written None ''2'' CHR ''x'' @ CHR ''u'' # ''j'') (typing ''2xuj'' [''abcd''] 1 1)"
    using typing_at_command [of "''2xuj''" 1 "[''abcd'']" 1] by (simp add: written_def MAX_BIT_SEQ_def)
  have "a_count ''2''" "2 = count_val ''2''" by (simp_all add: a_count_def is_digit_def count_val_def)
  then show ?thesis using x_then_u [OF idle_calm w, of 1 1 "''abcd''" 2 vp_zero] by (simp add: SIZE_MAX_def)
qed

theorem dd_then_u_witness:
  "changes_then_back idle_hooks vp_zero (typing ''d2du'' [''a'', ''b'', '' c''] 1 0) ['' c''] \<lparr>m_lno = 1, m_cno = 1\<rparr> []"
proof -
  have w: "at_command [''a'', ''b'', '' c''] [] [] (written None [] CHR ''d'' @ written None ''2'' CHR ''d'' @ CHR ''u'' # [])
      (typing ''d2du'' [''a'', ''b'', '' c''] 1 0)"
    using typing_at_command [of "''d2du''" 1 "[''a'', ''b'', '' c'']" 0] by (simp add: written_def MAX_BIT_SEQ_def)
  have c: "a_count ''2''" "a_count []" "count_val ''2'' * count_val [] = 2" by (simp_all add: a_count_def is_digit_def count_val_def)
  have "first_nonblank 0 '' c'' = 1" by code_simp
  then show ?thesis using dd_then_u [OF idle_calm w c(2,1), of 1 0 2 "['' c'']" vp_zero] c(3) by simp
qed

theorem d_motion_then_u_witness:
  "changes_then_back idle_hooks vp_zero (typing ''d$u'' [''abcd''] 1 1) [''a''] \<lparr>m_lno = 1, m_cno = 0\<rparr> []"
proof -
  have w: "at_command [''abcd''] [] [] (written None [] CHR ''d'' @ written None [] CHR ''$'' @ CHR ''u'' # []) (typing ''d$u'' [''abcd''] 1 1)"
    using typing_at_command [of "''d$u''" 1 "[''abcd'']" 1] by (simp add: written_def MAX_BIT_SEQ_def)
  have c: "a_count []" "count_val [] * count_val [] = 1" "motion_span CHR ''$'' 1 1 ''abcd'' = Some (1, 3)"
    by (simp_all add: a_count_def count_val_def motion_span_def)
  show ?thesis using d_motion_then_u [OF idle_calm w c(1,1), of 1 1 "''abcd''" 1 1 3 "''a''" vp_zero] c(2,3) by (simp add: SIZE_MAX_def)
qed

end
