(* ===== verification/MPool.thy ===== *)
theory MPool
  imports Prelude
begin

section \<open>The page cache (db/mpool/mpool.c)\<close>

text \<open>
  The memory pool below the database of lines: pages of a file are cached in buckets that are on a hash chain and on
  a chain in the order of their last use. A page that a client holds is pinned; the first page of that chain that is
  not pinned is written out, if it is dirty, and its bucket is used again, when the cache is full.

  The lemmas: the chains stay consistent; a client sees the contents of the file through the cache as if there
  were none; pinned pages stay; the cache grows over its limit only when every page is pinned; errors.
\<close>

subsection \<open>State (include/mpool.h)\<close>

text \<open>
  Buckets are named by their addresses; \<open>bkts\<close> is the memory they are in. The chains are lists of addresses. The
  file is its bytes. \<open>mp_io n\<close> says what becomes of the \<open>n\<close>-th read or write: it may fail, a write
  after some bytes; \<open>mp_mem\<close> whether memory can be had. The filters are given with their cookie.
\<close>

record bkt =
  b_page :: bytes
  b_pgno :: nat
  b_dirty :: bool
  b_pinned :: bool
  b_inuse :: bool

record mpool =
  bkts :: "nat \<Rightarrow> bkt option"
  next_adr :: nat
  lqh :: "nat list"
  hqh :: "nat \<Rightarrow> nat list"
  curcache :: nat
  maxcache :: nat
  npages :: nat
  pagesize :: nat
  mp_file :: bytes
  pgin :: "(nat \<Rightarrow> bytes \<Rightarrow> bytes) option"
  pgout :: "(nat \<Rightarrow> bytes \<Rightarrow> bytes) option"
  mp_ops :: nat
  mp_io :: "nat \<Rightarrow> nat option"
  mp_mem :: "nat \<Rightarrow> bool"
  fsync_fails :: bool

definition HASHSIZE :: nat where "HASHSIZE = 128"

definition HASHKEY :: "nat \<Rightarrow> nat" where "HASHKEY pgno = (pgno + (HASHSIZE - 1)) mod HASHSIZE"

definition MAX_PAGE_NUMBER :: nat where "MAX_PAGE_NUMBER = 4294967295"

definition sizeof_bkt :: nat where "sizeof_bkt = 48"

text \<open>A counter of type \<^verbatim>\<open>pgno_t\<close>, which is \<^verbatim>\<open>u_int32_t\<close>, going up and down.\<close>

definition pg_inc :: "nat \<Rightarrow> nat" where "pg_inc n = (n + 1) mod 2 ^ 32"
definition pg_dec :: "nat \<Rightarrow> nat" where "pg_dec n = (n + (2 ^ 32 - 1)) mod 2 ^ 32"

definition upd_bkt :: "nat \<Rightarrow> (bkt \<Rightarrow> bkt) \<Rightarrow> mpool \<Rightarrow> mpool" where
  "upd_bkt a f p = p\<lparr>bkts := (bkts p)(a := map_option f (bkts p a))\<rparr>"

text \<open>\<^verbatim>\<open>TAILQ_REMOVE\<close>: of something that is not on the list it is undefined.\<close>

definition tq_remove :: "nat \<Rightarrow> nat list \<Rightarrow> nat list option" where
  "tq_remove a xs = (if a \<in> set xs then Some (remove1 a xs) else None)"

text \<open>Taking a bucket off its two queues; putting one on them.\<close>

definition dequeue :: "nat \<Rightarrow> mpool \<Rightarrow> mpool option" where
  "dequeue a p =
     do {
       b \<leftarrow> bkts p a;
       let h = HASHKEY (b_pgno b);
       hq \<leftarrow> tq_remove a (hqh p h);
       lq \<leftarrow> tq_remove a (lqh p);
       Some (p\<lparr>hqh := (hqh p)(h := hq), lqh := lq\<rparr>)
     }"

definition enqueue :: "nat \<Rightarrow> mpool \<Rightarrow> mpool option" where
  "enqueue a p =
     do {
       b \<leftarrow> bkts p a;
       let h = HASHKEY (b_pgno b);
       Some (p\<lparr>hqh := (hqh p)(h := a # hqh p h), lqh := lqh p @ [a]\<rparr>)
     }"

definition free_bkt :: "nat \<Rightarrow> mpool \<Rightarrow> mpool" where
  "free_bkt a p = p\<lparr>bkts := (bkts p)(a := None), curcache := pg_dec (curcache p)\<rparr>"

subsection \<open>The file\<close>

text \<open>
  \<^verbatim>\<open>pread\<close> and \<^verbatim>\<open>pwrite\<close> of a page: how many bytes were read, nothing on an error, and the bytes; a
  write says whether it was complete, and beyond the end of the file leaves a hole of zeros.
\<close>

definition write_at :: "nat \<Rightarrow> bytes \<Rightarrow> bytes \<Rightarrow> bytes" where
  "write_at off pg f = take off (f @ replicate (off - length f) (CHR 0x00)) @ pg @ drop (off + length pg) f"

definition mp_pread :: "nat \<Rightarrow> mpool \<Rightarrow> bytes option \<times> mpool" where
  "mp_pread off p =
     (case mp_io p (mp_ops p) of
        Some _ \<Rightarrow> None
      | None \<Rightarrow> Some (take (pagesize p) (drop off (mp_file p))), p\<lparr>mp_ops := mp_ops p + 1\<rparr>)"

definition mp_pwrite :: "nat \<Rightarrow> bytes \<Rightarrow> mpool \<Rightarrow> bool \<times> mpool" where
  "mp_pwrite off pg p =
     (let q = p\<lparr>mp_ops := mp_ops p + 1\<rparr> in
      case mp_io p (mp_ops p) of
        Some k \<Rightarrow> (False, q\<lparr>mp_file := if k = 0 then mp_file p else write_at off (take k pg) (mp_file p)\<rparr>)
      | None \<Rightarrow> (True, q\<lparr>mp_file := write_at off pg (mp_file p)\<rparr>))"

subsection \<open>Operations\<close>

definition filter_page :: "(nat \<Rightarrow> bytes \<Rightarrow> bytes) option \<Rightarrow> bkt \<Rightarrow> bkt" where
  "filter_page f b = (case f of None \<Rightarrow> b | Some g \<Rightarrow> b\<lparr>b_page := g (b_pgno b) (b_page b)\<rparr>)"

text \<open>\<^verbatim>\<open>mpool_open\<close>, of a regular file; \<open>mpool_filter\<close>.\<close>

definition mpool_open :: "bytes \<Rightarrow> nat \<Rightarrow> nat \<Rightarrow> (nat \<Rightarrow> nat option) \<Rightarrow> (nat \<Rightarrow> bool) \<Rightarrow> bool \<Rightarrow> mpool option" where
  "mpool_open f psz maxc io mem fs =
     (if psz = 0 then None
      else Some \<lparr>bkts = (\<lambda>_. None), next_adr = 0, lqh = [], hqh = (\<lambda>_. []), curcache = 0, maxcache = maxc,
        npages = (length f div psz) mod 2 ^ 32, pagesize = psz, mp_file = f, pgin = None, pgout = None, mp_ops = 0, mp_io = io, mp_mem = mem,
        fsync_fails = fs\<rparr>)"

definition mpool_filter ::
  "(nat \<Rightarrow> bytes \<Rightarrow> bytes) option \<Rightarrow> (nat \<Rightarrow> bytes \<Rightarrow> bytes) option \<Rightarrow> mpool \<Rightarrow> mpool" where
  "mpool_filter i out p = p\<lparr>pgin := i, pgout := out\<rparr>"

text \<open>\<^verbatim>\<open>mpool_write\<close>: whether it fails.\<close>

definition mpool_write :: "nat \<Rightarrow> mpool \<Rightarrow> (bool \<times> mpool) option" where
  "mpool_write a p0 =
     do {
       let p = upd_bkt a (filter_page (pgout p0)) p0;
       b \<leftarrow> bkts p a;
       let (ok, p1) = mp_pwrite (pagesize p * b_pgno b) (b_page b) p;
       Some (if \<not> ok then (True, p1)
             else (False, upd_bkt a (\<lambda>b. (filter_page (pgin p1) b)\<lparr>b_dirty := False\<rparr>) p1))
     }"

text \<open>\<^verbatim>\<open>mpool_look\<close>: the bucket of a page, if it is cached.\<close>

fun look_loop :: "mpool \<Rightarrow> nat \<Rightarrow> nat list \<Rightarrow> nat option option" where
  "look_loop p pgno [] = Some None"
| "look_loop p pgno (a # as) =
     do { b \<leftarrow> bkts p a; if b_pgno b = pgno \<and> b_inuse b then Some (Some a) else look_loop p pgno as }"

definition mpool_look :: "nat \<Rightarrow> mpool \<Rightarrow> nat option option" where
  "mpool_look pgno p = look_loop p pgno (hqh p (HASHKEY pgno))"

text \<open>\<^verbatim>\<open>mpool_bkt\<close>: a bucket, if there is memory and a page that has to be written could be.\<close>

fun unpinned_loop :: "mpool \<Rightarrow> nat list \<Rightarrow> nat option option" where
  "unpinned_loop p [] = Some None"
| "unpinned_loop p (a # as) = do { b \<leftarrow> bkts p a; if \<not> b_pinned b then Some (Some a) else unpinned_loop p as }"

definition new_bkt :: "mpool \<Rightarrow> nat option \<times> mpool" where
  "new_bkt p =
     (if \<not> mp_mem p (sizeof_bkt + pagesize p) then (None, p)
      else let a = next_adr p in
        (Some a, p\<lparr>bkts := (bkts p)(a \<mapsto> \<lparr>b_page = replicate (pagesize p) (CHR 0xFF), b_pgno = 4294967295,
                      b_dirty = False, b_pinned = False, b_inuse = False\<rparr>),
                  next_adr := a + 1, curcache := pg_inc (curcache p)\<rparr>))"

definition clear_flags :: "bkt \<Rightarrow> bkt" where
  "clear_flags b = b\<lparr>b_dirty := False, b_pinned := False, b_inuse := False\<rparr>"

definition mpool_bkt :: "mpool \<Rightarrow> (nat option \<times> mpool) option" where
  "mpool_bkt p =
     (if curcache p < maxcache p then Some (new_bkt p)
      else do {
        v \<leftarrow> unpinned_loop p (lqh p);
        case v of
          None \<Rightarrow> Some (new_bkt p)
        | Some a \<Rightarrow> do {
            b \<leftarrow> bkts p a;
            (e, p1) \<leftarrow> (if b_dirty b then mpool_write a p else Some (False, p));
            if e then Some (None, p1)
            else do { p2 \<leftarrow> dequeue a p1; Some (Some a, upd_bkt a clear_flags p2) }
          }
      })"

text \<open>\<^verbatim>\<open>mpool_new\<close>: \<open>req\<close> is the page number that is asked for, if one is. The page gets its number.\<close>

definition mpool_new :: "nat option \<Rightarrow> mpool \<Rightarrow> ((nat \<times> nat) option \<times> mpool) option" where
  "mpool_new req p =
     (if npages p = MAX_PAGE_NUMBER then None
      else do {
        (a, p1) \<leftarrow> mpool_bkt p;
        case a of
          None \<Rightarrow> Some (None, p1)
        | Some a \<Rightarrow> do {
            let pgno = (case req of Some n \<Rightarrow> n | None \<Rightarrow> npages p1);
            let p2 = upd_bkt a (\<lambda>b. b\<lparr>b_pgno := pgno, b_dirty := False, b_pinned := True, b_inuse := True\<rparr>) (p1\<lparr>npages := npages p1 + 1\<rparr>);
            p3 \<leftarrow> enqueue a p2;
            Some (Some (a, pgno), p3)
          }
      })"

definition mpool_delete :: "nat \<Rightarrow> mpool \<Rightarrow> mpool option" where
  "mpool_delete a p = do { p1 \<leftarrow> dequeue a p; Some (free_bkt a p1) }"

text \<open>\<^verbatim>\<open>mpool_get\<close>: the bucket whose page is returned, or nothing on an error.\<close>

definition mpool_get :: "nat \<Rightarrow> bool \<Rightarrow> mpool \<Rightarrow> (nat option \<times> mpool) option" where
  "mpool_get pgno ignorepin p =
     do {
       c \<leftarrow> mpool_look pgno p;
       case c of
         Some a \<Rightarrow> do {
           p1 \<leftarrow> dequeue a p;
           p2 \<leftarrow> enqueue a p1;
           Some (Some a, upd_bkt a (\<lambda>b. b\<lparr>b_pinned := True\<rparr>) p2)
         }
       | None \<Rightarrow> do {
           (x, p1) \<leftarrow> mpool_bkt p;
           case x of
             None \<Rightarrow> Some (None, p1)
           | Some a \<Rightarrow>
               let (r, p2) = mp_pread (pagesize p1 * pgno) p1 in
               (case r of
                  None \<Rightarrow> Some (None, free_bkt a p2)
                | Some bs \<Rightarrow>
                    if bs \<noteq> [] \<and> length bs \<noteq> pagesize p2 then Some (None, free_bkt a p2)
                    else do {
                      let pg = (if bs = [] then replicate (pagesize p2) (CHR 0x00) else bs);
                      let p3 = upd_bkt a (\<lambda>b. b\<lparr>b_page := pg, b_pgno := pgno, b_pinned := b_pinned b \<or> \<not> ignorepin, b_inuse := True\<rparr>) p2;
                      p4 \<leftarrow> enqueue a p3;
                      Some (Some a, upd_bkt a (filter_page (pgin p4)) p4)
                    })
         }
     }"

definition mpool_put :: "nat \<Rightarrow> bool \<Rightarrow> mpool \<Rightarrow> mpool option" where
  "mpool_put a dirty p =
     (if bkts p a = None then None else Some (upd_bkt a (\<lambda>b. b\<lparr>b_pinned := False, b_dirty := b_dirty b \<or> dirty\<rparr>) p))"

text \<open>\<^verbatim>\<open>mpool_sync\<close>: whether it fails; \<open>mpool_close\<close> frees every bucket.\<close>

fun sync_loop :: "nat list \<Rightarrow> mpool \<Rightarrow> (bool \<times> mpool) option" where
  "sync_loop [] p = Some (False, p)"
| "sync_loop (a # as) p =
     do {
       b \<leftarrow> bkts p a;
       (e, p1) \<leftarrow> (if b_dirty b then mpool_write a p else Some (False, p));
       if e then Some (True, p1) else sync_loop as p1
     }"

definition mpool_sync :: "mpool \<Rightarrow> (bool \<times> mpool) option" where
  "mpool_sync p = do { (e, p1) \<leftarrow> sync_loop (lqh p) p; Some (e \<or> fsync_fails p1, p1) }"

definition mpool_close :: "mpool \<Rightarrow> mpool" where
  "mpool_close p = p\<lparr>bkts := \<lambda>a. if a \<in> set (lqh p) then None else bkts p a, lqh := []\<rparr>"

subsection \<open>What a client sees\<close>

text \<open>
  A page as the file has it, through the filter; a page as a client sees it, which is the cached one where there is one.
\<close>

definition file_page :: "mpool \<Rightarrow> nat \<Rightarrow> bytes" where
  "file_page p n =
     (let bs = take (pagesize p) (drop (pagesize p * n) (mp_file p)) in if bs = [] then replicate (pagesize p) (CHR 0x00) else bs)"

definition stored :: "mpool \<Rightarrow> nat \<Rightarrow> bytes" where
  "stored p n = (case pgin p of None \<Rightarrow> file_page p n | Some g \<Rightarrow> g n (file_page p n))"

definition entry :: "mpool \<Rightarrow> nat \<Rightarrow> bkt \<Rightarrow> bool" where
  "entry p a b \<longleftrightarrow> a \<in> set (lqh p) \<and> bkts p a = Some b"

definition seen :: "mpool \<Rightarrow> nat \<Rightarrow> bytes" where
  "seen p n =
     (case List.find (\<lambda>a. case bkts p a of Some b \<Rightarrow> b_pgno b = n | None \<Rightarrow> False) (lqh p) of
        None \<Rightarrow> stored p n
      | Some a \<Rightarrow> b_page (the (bkts p a)))"

text \<open>
  The invariant of the queues, with the buckets \<open>X\<close> that an operation has taken off them; and that of the pages: a page
  that nobody holds and that is not to be written is the one of the file.
\<close>

definition queues_ok :: "nat set \<Rightarrow> mpool \<Rightarrow> bool" where
  "queues_ok X p \<longleftrightarrow> distinct (lqh p) \<and> X \<subseteq> dom (bkts p) \<and> set (lqh p) = dom (bkts p) - X \<and> finite (dom (bkts p))
     \<and> (\<forall>a\<in>dom (bkts p). a < next_adr p) \<and> curcache p = card (dom (bkts p)) \<and> curcache p < 2 ^ 32
     \<and> (\<forall>h. distinct (hqh p h) \<and> set (hqh p h) = {a. \<exists>b. entry p a b \<and> HASHKEY (b_pgno b) = h})"

definition filters_ok :: "mpool \<Rightarrow> bool" where
  "filters_ok p \<longleftrightarrow>
     (case (pgin p, pgout p) of
        (None, None) \<Rightarrow> True
      | (Some i, Some out) \<Rightarrow>
          (\<forall>n pg. length pg = pagesize p \<longrightarrow> length (i n pg) = pagesize p \<and> length (out n pg) = pagesize p \<and> i n (out n pg) = pg)
      | _ \<Rightarrow> False)"

definition page_ok :: "mpool \<Rightarrow> bkt \<Rightarrow> bool" where
  "page_ok p b \<longleftrightarrow> b_inuse b \<and> length (b_page b) = pagesize p \<and> (\<not> b_pinned b \<longrightarrow> \<not> b_dirty b \<longrightarrow> b_page b = stored p (b_pgno b))"

definition pages_ok :: "mpool \<Rightarrow> bool" where
  "pages_ok p \<longleftrightarrow> 0 < pagesize p \<and> pagesize p dvd length (mp_file p) \<and> filters_ok p \<and> (\<forall>a b. entry p a b \<longrightarrow> page_ok p b)
     \<and> (\<forall>a b a' b'. entry p a b \<longrightarrow> entry p a' b' \<longrightarrow> b_pgno b = b_pgno b' \<longrightarrow> a = a')"

definition pool_ok :: "mpool \<Rightarrow> bool" where
  "pool_ok p \<longleftrightarrow> queues_ok {} p \<and> pages_ok p"

lemma find_first: "List.find P xs = Some x \<Longrightarrow> x \<in> set xs \<and> P x"
  by (induction xs) (auto split: if_splits)

lemma seen_cached:
  assumes "pages_ok p" "entry p a b"
  shows "seen p (b_pgno b) = b_page b"
proof -
  let ?P = "\<lambda>c. case bkts p c of Some b' \<Rightarrow> b_pgno b' = b_pgno b | None \<Rightarrow> False"
  have "?P a" "a \<in> set (lqh p)" using assms(2) by (auto simp: entry_def)
  then obtain c where c: "List.find ?P (lqh p) = Some c" by (cases "List.find ?P (lqh p)") (auto simp: find_None_iff)
  obtain b' where b': "entry p c b'" "b_pgno b' = b_pgno b"
    using find_first [OF c] by (auto simp: entry_def split: option.splits)
  have "c = a" using assms b' unfolding pages_ok_def by blast
  thus ?thesis using c assms(2) by (simp add: seen_def entry_def)
qed

lemma seen_stored: "(\<And>a b. entry p a b \<Longrightarrow> b_pgno b \<noteq> n) \<Longrightarrow> seen p n = stored p n"
  by (fastforce simp: seen_def entry_def find_None_iff split: option.splits dest: find_first)

lemma seen_eqI:
  assumes "pages_ok p" "pages_ok q"
    and "\<And>a b. entry p a b \<Longrightarrow> b_pgno b = n \<Longrightarrow> (\<exists>a' b'. entry q a' b' \<and> b_pgno b' = n \<and> b_page b' = b_page b) \<or>
            ((\<forall>a' b'. entry q a' b' \<longrightarrow> b_pgno b' \<noteq> n) \<and> stored q n = b_page b)"
    and "(\<And>a b. entry p a b \<Longrightarrow> b_pgno b \<noteq> n) \<Longrightarrow>
            (\<exists>a' b'. entry q a' b' \<and> b_pgno b' = n \<and> b_page b' = stored p n) \<or>
            ((\<forall>a' b'. entry q a' b' \<longrightarrow> b_pgno b' \<noteq> n) \<and> stored q n = stored p n)"
  shows "seen q n = seen p n"
proof (cases "\<exists>a b. entry p a b \<and> b_pgno b = n")
  case True
  then obtain a b where b: "entry p a b" "b_pgno b = n" by blast
  show ?thesis using assms(3) [OF b] seen_cached [OF assms(1) b(1)] b(2) seen_cached [OF assms(2)] seen_stored [of q n] by metis
next
  case False
  have 1: "(\<exists>a' b'. entry q a' b' \<and> b_pgno b' = n \<and> b_page b' = stored p n) \<or>
      ((\<forall>a' b'. entry q a' b' \<longrightarrow> b_pgno b' \<noteq> n) \<and> stored q n = stored p n)"
    by (rule assms(4)) (use False in blast)
  have 2: "seen p n = stored p n" by (rule seen_stored) (use False in blast)
  show ?thesis using 1 unfolding 2
  proof (elim disjE exE conjE)
    fix a' b' assume "entry q a' b'" "b_pgno b' = n" "b_page b' = stored p n"
    thus "seen q n = stored p n" using seen_cached [OF assms(2)] by metis
  next
    assume "\<forall>a' b'. entry q a' b' \<longrightarrow> b_pgno b' \<noteq> n" "stored q n = stored p n"
    thus "seen q n = stored p n" using seen_stored [of q n] by metis
  qed
qed

subsection \<open>Looking\<close>

lemma look_loop_eq:
  assumes "\<And>a. a \<in> set as \<Longrightarrow> \<exists>b. bkts p a = Some b \<and> b_inuse b"
  shows "look_loop p n as = Some (List.find (\<lambda>a. case bkts p a of Some b \<Rightarrow> b_pgno b = n | None \<Rightarrow> False) as)"
  using assms
proof (induction as)
  case (Cons c as)
  obtain b where "bkts p c = Some b" "b_inuse b" using Cons.prems by fastforce
  thus ?case using Cons by simp
qed simp

lemma unpinned_loop_eq:
  assumes "\<And>a. a \<in> set as \<Longrightarrow> \<exists>b. bkts p a = Some b"
  shows "unpinned_loop p as = Some (List.find (\<lambda>a. case bkts p a of Some b \<Rightarrow> \<not> b_pinned b | None \<Rightarrow> False) as)"
  using assms
proof (induction as)
  case (Cons c as)
  obtain b where "bkts p c = Some b" using Cons.prems by fastforce
  thus ?case using Cons by simp
qed simp

lemma mpool_look_spec:
  assumes "pool_ok p"
  shows "(\<exists>a b. mpool_look n p = Some (Some a) \<and> entry p a b \<and> b_pgno b = n) \<or>
    (mpool_look n p = Some None \<and> (\<forall>a b. entry p a b \<longrightarrow> b_pgno b \<noteq> n))"
proof -
  let ?P = "\<lambda>a. case bkts p a of Some b \<Rightarrow> b_pgno b = n | None \<Rightarrow> False"
  have s: "set (hqh p (HASHKEY n)) = {a. \<exists>b. entry p a b \<and> HASHKEY (b_pgno b) = HASHKEY n}"
    using assms by (simp add: pool_ok_def queues_ok_def)
  have i: "\<exists>b. bkts p a = Some b \<and> b_inuse b" if "a \<in> set (hqh p (HASHKEY n))" for a
    using that assms unfolding s by (auto simp: pool_ok_def pages_ok_def page_ok_def entry_def)
  have e: "mpool_look n p = Some (List.find ?P (hqh p (HASHKEY n)))" unfolding mpool_look_def by (rule look_loop_eq [OF i])
  show ?thesis
  proof (cases "List.find ?P (hqh p (HASHKEY n))")
    case None
    hence "\<forall>a b. entry p a b \<longrightarrow> b_pgno b \<noteq> n" using s by (auto simp: find_None_iff entry_def split: option.splits)
    thus ?thesis using e None by simp
  next
    case (Some a)
    have "a \<in> set (hqh p (HASHKEY n))" "?P a" using find_first [OF Some] by auto
    then obtain b where "entry p a b" "b_pgno b = n" unfolding s by (auto simp: entry_def)
    thus ?thesis using e Some by auto
  qed
qed

subsection \<open>Writing a page\<close>

lemma length_write_at: "length (write_at off pg f) = off + length pg + (length f - (off + length pg))"
  by (simp add: write_at_def)

lemma dvd_write_at:
  assumes "psz dvd length f" "length pg = psz"
  shows "psz dvd length (write_at (psz * n) pg f)"
  using assms by (simp add: length_write_at dvd_diff_nat)

definition block :: "nat \<Rightarrow> nat \<Rightarrow> bytes \<Rightarrow> bytes" where "block psz n f = take psz (drop (psz * n) f)"

lemma block_end: "psz dvd length f \<Longrightarrow> psz * m < length f \<Longrightarrow> psz * m + psz \<le> length f"
proof -
  assume "psz dvd length f" "psz * m < length f"
  then obtain k where k: "length f = psz * k" "m < k" by (auto simp: dvd_def)
  hence "psz * Suc m \<le> psz * k" by (intro mult_le_mono2) simp
  thus ?thesis using k by simp
qed

lemma block_write_same: "length pg = psz \<Longrightarrow> block psz n (write_at (psz * n) pg f) = pg"
  by (simp add: block_def write_at_def)

lemma block_write_below:
  assumes "psz dvd length f" "m < n"
  shows "block psz m (write_at (psz * n) pg f) = (if psz * m < length f then block psz m f else replicate psz (CHR 0x00))"
proof -
  have "psz * Suc m \<le> psz * n" using assms(2) by (intro mult_le_mono2) simp
  hence l: "psz * m + psz \<le> psz * n" by simp
  hence mn: "min psz (psz * n - psz * m) = psz" by (simp add: min_def)
  have "block psz m (write_at (psz * n) pg f) = take psz (drop (psz * m) (f @ replicate (psz * n - length f) (CHR 0x00)))"
    using l by (simp add: block_def write_at_def drop_take mn)
  also have "\<dots> = (if psz * m < length f then block psz m f else replicate psz (CHR 0x00))"
    using block_end [OF assms(1), of m] l by (auto simp: block_def min_def not_less)
  finally show ?thesis .
qed

lemma block_write_above:
  assumes "length pg = psz" "n < m"
  shows "block psz m (write_at (psz * n) pg f) = block psz m f"
proof -
  have "psz * Suc n \<le> psz * m" using assms(2) by (intro mult_le_mono2) simp
  hence "psz * n + psz \<le> psz * m" by simp
  moreover have "psz * n - length f + min (length f) (psz * n) = psz * n" by (simp add: min_def)
  ultimately show ?thesis using assms(1) by (simp add: block_def write_at_def add.commute)
qed

lemma file_page_block: "file_page p n = (let bs = block (pagesize p) n (mp_file p) in if bs = [] then replicate (pagesize p) (CHR 0x00) else bs)"
  by (simp add: file_page_def block_def)

lemma file_page_write:
  assumes "0 < pagesize p" "pagesize p dvd length (mp_file p)" "length pg = pagesize p"
    and q: "pagesize q = pagesize p" "mp_file q = write_at (pagesize p * n) pg (mp_file p)"
  shows "file_page q m = (if m = n then pg else file_page p m)"
proof -
  consider "m = n" | "m < n" | "n < m" by linarith
  thus ?thesis
  proof cases
    case 1 thus ?thesis using assms by (auto simp: file_page_block block_write_same)
  next
    case 2
    thus ?thesis using assms block_write_below [OF assms(2) 2, of pg]
      by (auto simp: file_page_block Let_def) (auto simp: block_def)
  next
    case 3 thus ?thesis using assms by (simp add: file_page_block block_write_above Let_def)
  qed
qed

lemma length_file_page: "0 < pagesize p \<Longrightarrow> pagesize p dvd length (mp_file p) \<Longrightarrow> length (file_page p n) = pagesize p"
  using block_end [of "pagesize p" "mp_file p" n] by (auto simp: file_page_def Let_def)

lemma length_stored: "pages_ok p \<Longrightarrow> length (stored p n) = pagesize p"
  using length_file_page [of p n]
  by (auto simp: stored_def pages_ok_def filters_ok_def split: option.splits)

subsection \<open>Changing buckets\<close>

text \<open>What one page becomes when it is written: through the filter.\<close>

definition out_page :: "mpool \<Rightarrow> nat \<Rightarrow> bytes \<Rightarrow> bytes" where
  "out_page p n pg = (case pgout p of None \<Rightarrow> pg | Some g \<Rightarrow> g n pg)"

lemma bkts_upd_bkt [simp]: "bkts (upd_bkt a f p) = (bkts p)(a := map_option f (bkts p a))"
  by (simp add: upd_bkt_def)

lemma upd_bkt_sel [simp]:
  "lqh (upd_bkt a f p) = lqh p" "hqh (upd_bkt a f p) = hqh p" "curcache (upd_bkt a f p) = curcache p"
  "maxcache (upd_bkt a f p) = maxcache p" "npages (upd_bkt a f p) = npages p" "pagesize (upd_bkt a f p) = pagesize p"
  "mp_file (upd_bkt a f p) = mp_file p" "pgin (upd_bkt a f p) = pgin p" "pgout (upd_bkt a f p) = pgout p"
  "next_adr (upd_bkt a f p) = next_adr p" "mp_ops (upd_bkt a f p) = mp_ops p" "mp_io (upd_bkt a f p) = mp_io p"
  by (simp_all add: upd_bkt_def)

lemma entry_upd_bkt:
  "entry (upd_bkt a f p) c b' \<longleftrightarrow> (if c = a then \<exists>b. entry p a b \<and> b' = f b else entry p c b')"
  by (auto simp: entry_def)

lemma filter_page_sel [simp]:
  "b_pgno (filter_page g b) = b_pgno b" "b_dirty (filter_page g b) = b_dirty b" "b_pinned (filter_page g b) = b_pinned b"
  "b_inuse (filter_page g b) = b_inuse b"
  by (simp_all add: filter_page_def split: option.splits)

text \<open>The queues do not see what is in a bucket but for its page number.\<close>

lemma queues_ok_cong:
  assumes "queues_ok X p" "lqh q = lqh p" "hqh q = hqh p" "next_adr q = next_adr p" "curcache q = curcache p"
    and "\<And>a. map_option b_pgno (bkts q a) = map_option b_pgno (bkts p a)"
  shows "queues_ok X q"
proof -
  have d: "dom (bkts q) = dom (bkts p)" 
  proof (rule set_eqI)
    fix a show "a \<in> dom (bkts q) \<longleftrightarrow> a \<in> dom (bkts p)" using assms(6) [of a] by (cases "bkts p a"; cases "bkts q a") auto
  qed
  have e: "(\<exists>b. entry q a b \<and> HASHKEY (b_pgno b) = h) \<longleftrightarrow> (\<exists>b. entry p a b \<and> HASHKEY (b_pgno b) = h)" for a h
    using assms(6) [of a] assms(2) by (cases "bkts p a"; cases "bkts q a") (auto simp: entry_def)
  show ?thesis using assms(1) unfolding queues_ok_def by (simp add: d e assms(2-5))
qed

lemma stored_cong: "pagesize q = pagesize p \<Longrightarrow> mp_file q = mp_file p \<Longrightarrow> pgin q = pgin p \<Longrightarrow> stored q n = stored p n"
  by (cases "pgin p") (simp_all add: stored_def file_page_def)

lemma filters_ok_cong: "pagesize q = pagesize p \<Longrightarrow> pgin q = pgin p \<Longrightarrow> pgout q = pgout p \<Longrightarrow> filters_ok q = filters_ok p"
  by (cases "pgin p"; cases "pgout p") (simp_all add: filters_ok_def)

text \<open>An operation that changes neither the file nor the filters keeps the pages if it keeps each of them.\<close>

lemma pages_ok_cong:
  assumes "pages_ok p" "pagesize q = pagesize p" "mp_file q = mp_file p" "pgin q = pgin p" "pgout q = pgout p"
    and "\<And>a b. entry q a b \<Longrightarrow> page_ok p b"
    and "\<And>a b a' b'. entry q a b \<Longrightarrow> entry q a' b' \<Longrightarrow> b_pgno b = b_pgno b' \<Longrightarrow> a = a'"
  shows "pages_ok q"
proof -
  have "page_ok q b = page_ok p b" for b by (simp add: page_ok_def stored_cong [OF assms(2-4)] assms(2))
  hence "\<forall>a b. entry q a b \<longrightarrow> page_ok q b" using assms(6) by simp
  moreover have "filters_ok q" using assms(1) filters_ok_cong [OF assms(2,4,5)] by (simp add: pages_ok_def)
  moreover have "0 < pagesize q \<and> pagesize q dvd length (mp_file q)" using assms(1-3) by (simp add: pages_ok_def)
  moreover have "\<forall>a b a' b'. entry q a b \<longrightarrow> entry q a' b' \<longrightarrow> b_pgno b = b_pgno b' \<longrightarrow> a = a'" using assms(7) by blast
  ultimately show ?thesis unfolding pages_ok_def by blast
qed

definition written :: "nat \<Rightarrow> bkt \<Rightarrow> mpool \<Rightarrow> mpool" where
  "written a b p = p\<lparr>bkts := (bkts p)(a \<mapsto> b\<lparr>b_dirty := False\<rparr>), mp_ops := mp_ops p + 1,
     mp_file := write_at (pagesize p * b_pgno b) (out_page p (b_pgno b) (b_page b)) (mp_file p)\<rparr>"

lemma entry_written: "bkts p a = Some b \<Longrightarrow> entry (written a b p) c b' \<longleftrightarrow> (if c = a then a \<in> set (lqh p) \<and> b' = b\<lparr>b_dirty := False\<rparr> else entry p c b')"
  by (auto simp: entry_def written_def)

lemma length_out_page: "pages_ok p \<Longrightarrow> length pg = pagesize p \<Longrightarrow> length (out_page p n pg) = pagesize p"
  by (auto simp: pages_ok_def filters_ok_def out_page_def split: option.splits)

lemma stored_written:
  assumes "pages_ok p" "length (b_page b) = pagesize p"
  shows "stored (written a b p) n = (if n = b_pgno b then b_page b else stored p n)"
proof -
  have f: "file_page (written a b p) n = (if n = b_pgno b then out_page p (b_pgno b) (b_page b) else file_page p n)"
    by (rule file_page_write) (use assms length_out_page [OF assms, of "b_pgno b"] in \<open>auto simp: written_def pages_ok_def\<close>)
  have i: "pgin (written a b p) = pgin p" by (simp add: written_def)
  show ?thesis using assms unfolding stored_def f i
    by (auto simp: out_page_def pages_ok_def filters_ok_def split: option.splits)
qed

lemma pages_ok_written:
  assumes p: "pages_ok p" "entry p a b"
  shows "pages_ok (written a b p)"
proof -
  have b: "bkts p a = Some b" "a \<in> set (lqh p)" "page_ok p b" using p by (auto simp: entry_def pages_ok_def)
  have l: "length (b_page b) = pagesize p" using b by (simp add: page_ok_def)
  have inj: "\<And>c b'. entry p c b' \<Longrightarrow> b_pgno b' = b_pgno b \<Longrightarrow> c = a" using p by (metis pages_ok_def)
  have s: "pagesize (written a b p) = pagesize p" "pgin (written a b p) = pgin p" "pgout (written a b p) = pgout p"
    by (simp_all add: written_def)
  have 1: "page_ok (written a b p) b'" if "entry (written a b p) c b'" for c b'
  proof (cases "c = a")
    case True thus ?thesis using that b l by (simp add: entry_written page_ok_def stored_written [OF p(1) l] s)
  next
    case False
    hence e: "entry p c b'" using that b by (simp add: entry_written)
    hence "b_pgno b' \<noteq> b_pgno b" using inj False by blast
    thus ?thesis using p(1) e by (simp add: page_ok_def stored_written [OF p(1) l] s pages_ok_def)
  qed
  have e: "\<exists>b0. entry p c b0 \<and> b_pgno b0 = b_pgno b'" if "entry (written a b p) c b'" for c b'
    using that p(2) unfolding entry_written [OF b(1)] by (cases "c = a") auto
  have 2: "c = c'" if "entry (written a b p) c b'" "entry (written a b p) c' b''" "b_pgno b' = b_pgno b''" for c c' b' b''
    using e [OF that(1)] e [OF that(2)] that(3) p(1) unfolding pages_ok_def by metis
  have 3: "pagesize p dvd length (mp_file (written a b p))"
    using p(1) length_out_page [OF p(1) l] by (simp add: written_def dvd_write_at pages_ok_def)
  show ?thesis using 1 2 3 p(1) filters_ok_cong [OF s] unfolding pages_ok_def s by blast
qed

text \<open>
  A failing read or write: the writes here fail before anything is written; and with a filter none fails, because of
  what \<open>mpool_write\<close> then leaves in the bucket (see the end).
\<close>

definition io_ok :: "mpool \<Rightarrow> bool" where
  "io_ok p \<longleftrightarrow> (\<forall>n k. mp_io p n = Some k \<longrightarrow> k = 0 \<and> pgout p = None)"

lemma mpool_write_spec:
  assumes p: "pages_ok p" "io_ok p" "entry p a b"
  shows "mpool_write a p = Some (if mp_io p (mp_ops p) = None then (False, written a b p) else (True, p\<lparr>mp_ops := mp_ops p + 1\<rparr>))"
proof (cases "mp_io p (mp_ops p)")
  case None
  have b: "bkts p a = Some b" "page_ok p b" using p by (auto simp: entry_def pages_ok_def)
  have i: "filter_page (pgin p) (filter_page (pgout p) b) = b"
    using p(1) b(2) by (auto simp: pages_ok_def filters_ok_def page_ok_def filter_page_def split: option.splits)
  have o: "b_page (filter_page (pgout p) b) = out_page p (b_pgno b) (b_page b)"
    by (simp add: filter_page_def out_page_def split: option.splits)
  show ?thesis using None b(1) i
    by (simp add: mpool_write_def upd_bkt_def mp_pwrite_def Let_def o written_def)
next
  case (Some k)
  hence "k = 0" "pgout p = None" using p(2) by (auto simp: io_ok_def)
  thus ?thesis using Some p(3) by (simp add: mpool_write_def upd_bkt_def mp_pwrite_def Let_def entry_def filter_page_def fun_upd_idem)
qed

subsection \<open>The queues\<close>

definition dequeued :: "nat \<Rightarrow> bkt \<Rightarrow> mpool \<Rightarrow> mpool" where
  "dequeued a b p = p\<lparr>hqh := (hqh p)(HASHKEY (b_pgno b) := remove1 a (hqh p (HASHKEY (b_pgno b)))), lqh := remove1 a (lqh p)\<rparr>"

definition enqueued :: "nat \<Rightarrow> bkt \<Rightarrow> mpool \<Rightarrow> mpool" where
  "enqueued a b p = p\<lparr>hqh := (hqh p)(HASHKEY (b_pgno b) := a # hqh p (HASHKEY (b_pgno b))), lqh := lqh p @ [a]\<rparr>"

lemma queues_sel [simp]:
  "bkts (dequeued a b p) = bkts p" "mp_file (dequeued a b p) = mp_file p" "pagesize (dequeued a b p) = pagesize p"
  "pgin (dequeued a b p) = pgin p" "pgout (dequeued a b p) = pgout p" "curcache (dequeued a b p) = curcache p"
  "maxcache (dequeued a b p) = maxcache p" "mp_ops (dequeued a b p) = mp_ops p" "mp_io (dequeued a b p) = mp_io p"
  "next_adr (dequeued a b p) = next_adr p" "npages (dequeued a b p) = npages p" "mp_mem (dequeued a b p) = mp_mem p"
  "bkts (enqueued a b p) = bkts p" "mp_file (enqueued a b p) = mp_file p" "pagesize (enqueued a b p) = pagesize p"
  "pgin (enqueued a b p) = pgin p" "pgout (enqueued a b p) = pgout p" "curcache (enqueued a b p) = curcache p"
  "maxcache (enqueued a b p) = maxcache p" "mp_ops (enqueued a b p) = mp_ops p" "mp_io (enqueued a b p) = mp_io p"
  "next_adr (enqueued a b p) = next_adr p" "npages (enqueued a b p) = npages p" "mp_mem (enqueued a b p) = mp_mem p"
  by (simp_all add: dequeued_def enqueued_def)

lemma entry_enqueued: "bkts p a = Some b \<Longrightarrow> entry (enqueued a b p) c b' \<longleftrightarrow> entry p c b' \<or> (c = a \<and> b' = b)"
  by (auto simp: entry_def enqueued_def)

lemma entry_dequeued: "distinct (lqh p) \<Longrightarrow> entry (dequeued a b p) c b' \<longleftrightarrow> c \<noteq> a \<and> entry p c b'"
  by (auto simp: entry_def dequeued_def)

lemma entry_unique: "entry p a b \<Longrightarrow> entry p a b' \<longleftrightarrow> b' = b"
  by (auto simp: entry_def)

lemma dequeue_spec:
  assumes q: "queues_ok X p" and e: "entry p a b"
  shows "dequeue a p = Some (dequeued a b p)" "queues_ok (insert a X) (dequeued a b p)"
proof -
  have m: "a \<in> set (hqh p (HASHKEY (b_pgno b)))" "a \<in> set (lqh p)" "bkts p a = Some b" "a \<notin> X"
    using q e by (auto simp: queues_ok_def entry_def)
  show "dequeue a p = Some (dequeued a b p)"
    using m by (simp add: dequeue_def tq_remove_def dequeued_def Let_def)
  have d: "distinct (lqh p)" using q by (simp add: queues_ok_def)
  have h: "distinct (hqh p h) \<and> set (hqh p h) = {a. \<exists>b. entry p a b \<and> HASHKEY (b_pgno b) = h}" for h
    using q by (simp add: queues_ok_def)
  have h': "distinct (hqh (dequeued a b p) h) \<and>
      set (hqh (dequeued a b p) h) = {c. \<exists>b'. entry (dequeued a b p) c b' \<and> HASHKEY (b_pgno b') = h}" for h
  proof (cases "h = HASHKEY (b_pgno b)")
    case True thus ?thesis using h [of h] d by (auto simp: entry_dequeued) (auto simp: dequeued_def)
  next
    case False
    hence "hqh (dequeued a b p) h = hqh p h" by (simp add: dequeued_def)
    thus ?thesis using h [of h] False by (auto simp: entry_dequeued [OF d] entry_unique [OF e])
  qed
  show "queues_ok (insert a X) (dequeued a b p)"
    using q m h' unfolding queues_ok_def by (auto simp: dequeued_def)
qed

lemma enqueue_spec:
  assumes q: "queues_ok X p" and b: "bkts p a = Some b" "a \<in> X"
  shows "enqueue a p = Some (enqueued a b p)" "queues_ok (X - {a}) (enqueued a b p)"
proof -
  show "enqueue a p = Some (enqueued a b p)" using b by (simp add: enqueue_def enqueued_def Let_def)
  have n: "a \<notin> set (lqh p)" "\<not> entry p a b'" for b' using q b by (auto simp: queues_ok_def entry_def)
  have h: "distinct (hqh p h) \<and> set (hqh p h) = {a. \<exists>b. entry p a b \<and> HASHKEY (b_pgno b) = h}" for h
    using q by (simp add: queues_ok_def)
  have h': "distinct (hqh (enqueued a b p) h) \<and>
      set (hqh (enqueued a b p) h) = {c. \<exists>b'. entry (enqueued a b p) c b' \<and> HASHKEY (b_pgno b') = h}" for h
    using h [of h] n by (auto simp: entry_enqueued [OF b(1)]) (auto simp: enqueued_def split: if_splits)
  show "queues_ok (X - {a}) (enqueued a b p)"
    using q n b h' unfolding queues_ok_def by (auto simp: enqueued_def)
qed

subsection \<open>Getting a bucket\<close>

lemma seen_cong:
  assumes "pages_ok p" "pages_ok q" "\<And>n. stored q n = stored p n"
    and "\<And>n pg. (\<exists>a b. entry q a b \<and> b_pgno b = n \<and> b_page b = pg) = (\<exists>a b. entry p a b \<and> b_pgno b = n \<and> b_page b = pg)"
  shows "seen q n = seen p n"
  by (rule seen_eqI [OF assms(1,2)]) (use assms(3,4) in metis)+

lemma seen_written:
  assumes "pages_ok p" "entry p a b"
  shows "seen (written a b p) n = seen p n"
proof -
  have b: "bkts p a = Some b" "a \<in> set (lqh p)" "length (b_page b) = pagesize p"
    using assms by (auto simp: entry_def pages_ok_def page_ok_def)
  note w = pages_ok_written [OF assms] stored_written [OF assms(1) b(3), of a n]
  have e: "entry (written a b p) a (b\<lparr>b_dirty := False\<rparr>)" using b by (simp add: entry_written)
  show ?thesis
  proof (cases "n = b_pgno b")
    case True thus ?thesis using seen_cached [OF w(1) e] seen_cached [OF assms] by simp
  next
    case False
    show ?thesis
    proof (rule seen_eqI [OF assms(1) w(1)])
      fix c b' assume c: "entry p c b'" "b_pgno b' = n"
      hence "c \<noteq> a" using False assms(2) by (auto simp: entry_def)
      hence "entry (written a b p) c b'" using c b(1) by (simp add: entry_written)
      thus "(\<exists>a' b''. entry (written a b p) a' b'' \<and> b_pgno b'' = n \<and> b_page b'' = b_page b') \<or>
          (\<forall>a' b''. entry (written a b p) a' b'' \<longrightarrow> b_pgno b'' \<noteq> n) \<and> stored (written a b p) n = b_page b'"
        using c by blast
    next
      assume o: "\<And>c b'. entry p c b' \<Longrightarrow> b_pgno b' \<noteq> n"
      have "\<forall>c b'. entry (written a b p) c b' \<longrightarrow> b_pgno b' \<noteq> n"
        using o False unfolding entry_written [OF b(1)] by (auto split: if_splits)
      thus "(\<exists>a' b''. entry (written a b p) a' b'' \<and> b_pgno b'' = n \<and> b_page b'' = stored p n) \<or>
          (\<forall>a' b''. entry (written a b p) a' b'' \<longrightarrow> b_pgno b'' \<noteq> n) \<and> stored (written a b p) n = stored p n"
        using w(2) False by simp
    qed
  qed
qed

lemma queues_written: "queues_ok X p \<Longrightarrow> bkts p a = Some b \<Longrightarrow> queues_ok X (written a b p)"
  by (rule queues_ok_cong) (auto simp: written_def)

text \<open>The parameters an operation does not touch; the pages that clients hold.\<close>

definition same_pool :: "mpool \<Rightarrow> mpool \<Rightarrow> bool" where
  "same_pool p q \<longleftrightarrow> maxcache q = maxcache p \<and> pagesize q = pagesize p \<and> pgin q = pgin p \<and> pgout q = pgout p \<and> mp_io q = mp_io p
     \<and> npages q = npages p \<and> mp_mem q = mp_mem p"

definition pins_stay :: "mpool \<Rightarrow> mpool \<Rightarrow> bool" where
  "pins_stay p q \<longleftrightarrow> (\<forall>a b. entry p a b \<longrightarrow> b_pinned b \<longrightarrow> entry q a b)"

lemma evicted:
  assumes p: "pages_ok p" "queues_ok {} p" "entry p a b" and s: "stored p (b_pgno b) = b_page b"
  defines "q \<equiv> upd_bkt a clear_flags (dequeued a b p)"
  shows "queues_ok {a} q" "pages_ok q" "seen q n = seen p n" "entry q c b' \<longleftrightarrow> c \<noteq> a \<and> entry p c b'" "curcache q = curcache p"
    "bkts q a = Some (clear_flags b)" "stored q n = stored p n"
proof -
  have d: "distinct (lqh p)" using p(2) by (simp add: queues_ok_def)
  have e: "entry q c b' \<longleftrightarrow> c \<noteq> a \<and> entry p c b'" for c b'
    by (auto simp: q_def entry_upd_bkt entry_dequeued [OF d])
  show "entry q c b' \<longleftrightarrow> c \<noteq> a \<and> entry p c b'" by (rule e)
  have st: "stored q m = stored p m" for m by (rule stored_cong) (simp_all add: q_def)
  thus "stored q n = stored p n" .
  show P: "pages_ok q"
    by (rule pages_ok_cong [OF p(1)]) (use p(1) e in \<open>auto simp: q_def pages_ok_def\<close>)
  show "queues_ok {a} q"
    by (rule queues_ok_cong [OF dequeue_spec(2) [OF p(2,3)]]) (auto simp: q_def clear_flags_def option.map_comp comp_def)
  show "curcache q = curcache p" by (simp add: q_def)
  show "bkts q a = Some (clear_flags b)" using p(3) by (simp add: q_def entry_def)
  show "seen q n = seen p n"
  proof (rule seen_eqI [OF p(1) P])
    fix c b' assume c: "entry p c b'" "b_pgno b' = n"
    show "(\<exists>a' b''. entry q a' b'' \<and> b_pgno b'' = n \<and> b_page b'' = b_page b') \<or>
        (\<forall>a' b''. entry q a' b'' \<longrightarrow> b_pgno b'' \<noteq> n) \<and> stored q n = b_page b'"
    proof (cases "c = a")
      case True
      hence "b' = b" using c(1) p(3) by (simp add: entry_def)
      moreover have "\<forall>a' b''. entry q a' b'' \<longrightarrow> b_pgno b'' \<noteq> n" using e c True p(1) unfolding pages_ok_def by metis
      ultimately show ?thesis using s c(2) st by simp
    qed (use c e in blast)
  next
    assume "\<And>c b'. entry p c b' \<Longrightarrow> b_pgno b' \<noteq> n"
    thus "(\<exists>a' b''. entry q a' b'' \<and> b_pgno b'' = n \<and> b_page b'' = stored p n) \<or>
        (\<forall>a' b''. entry q a' b'' \<longrightarrow> b_pgno b'' \<noteq> n) \<and> stored q n = stored p n" using e st by blast
  qed
qed

definition fails :: "mpool \<Rightarrow> bool" where
  "fails p \<longleftrightarrow> (\<exists>n. mp_io p n \<noteq> None) \<or> \<not> mp_mem p (sizeof_bkt + pagesize p)"

definition some_unpinned :: "mpool \<Rightarrow> bool" where
  "some_unpinned p \<longleftrightarrow> (\<exists>a b. entry p a b \<and> \<not> b_pinned b)"

definition cache_limit :: "mpool \<Rightarrow> nat" where
  "cache_limit p = (if some_unpinned p then max (curcache p) (maxcache p) else curcache p + 1)"

text \<open>What holds after a bucket was asked for.\<close>

definition bkt_result :: "mpool \<Rightarrow> nat option \<Rightarrow> mpool \<Rightarrow> bool" where
  "bkt_result p r q \<longleftrightarrow> same_pool p q \<and> pins_stay p q \<and> pages_ok q \<and> (\<forall>n. seen q n = seen p n)
     \<and> (\<forall>c b. entry q c b \<longrightarrow> (\<exists>b0. entry p c b0 \<and> b_pgno b0 = b_pgno b)) \<and> curcache q \<le> cache_limit p
     \<and> (case r of
          None \<Rightarrow> queues_ok {} q \<and> fails p
        | Some a \<Rightarrow> queues_ok {a} q \<and> (\<exists>b. bkts q a = Some b \<and> \<not> b_dirty b \<and> \<not> b_pinned b \<and> length (b_page b) = pagesize q))"

lemma new_bkt_result:
  assumes p: "pool_ok p" "curcache p + 1 < 2 ^ 32" and l: "curcache p + 1 \<le> cache_limit p"
  shows "\<exists>r q. new_bkt p = (r, q) \<and> bkt_result p r q"
proof (cases "mp_mem p (sizeof_bkt + pagesize p)")
  case False
  thus ?thesis using p l by (auto simp: new_bkt_def bkt_result_def pool_ok_def same_pool_def pins_stay_def fails_def)
next
  case True
  define a where "a = next_adr p"
  define b where "b = \<lparr>b_page = replicate (pagesize p) (CHR 0xFF), b_pgno = 4294967295, b_dirty = False, b_pinned = False, b_inuse = False\<rparr>"
  define q where "q = p\<lparr>bkts := (bkts p)(a \<mapsto> b), next_adr := a + 1, curcache := curcache p + 1\<rparr>"
  have q: "queues_ok {} p" "pages_ok p" using p(1) by (simp_all add: pool_ok_def)
  have f: "\<And>c. c \<in> dom (bkts p) \<Longrightarrow> c < a" "a \<notin> dom (bkts p)" "finite (dom (bkts p))" "set (lqh p) = dom (bkts p)"
    using q(1) unfolding queues_ok_def a_def by blast+
  have n: "new_bkt p = (Some a, q)"
    using True p(2) by (simp add: new_bkt_def Let_def q_def a_def b_def pg_inc_def)
  have s: "lqh q = lqh p" "hqh q = hqh p" "curcache q = curcache p + 1" "next_adr q = a + 1" "mp_file q = mp_file p" "pagesize q = pagesize p"
    "pgin q = pgin p" "pgout q = pgout p" "bkts q = (bkts p)(a \<mapsto> b)" by (simp_all add: q_def)
  have e: "entry q c b' = entry p c b'" for c b' using f(2,4) by (auto simp: entry_def s)
  have P: "pages_ok q" by (rule pages_ok_cong [OF q(2) s(6,5,7,8)]) (use q(2) e in \<open>auto simp: pages_ok_def\<close>)
  have S: "seen q m = seen p m" for m by (rule seen_cong [OF q(2) P]) (simp_all add: e stored_cong [OF s(6,5,7)])
  have d: "dom (bkts q) = insert a (dom (bkts p))" by (simp add: s)
  have Q: "queues_ok {a} q"
    using q(1) f p(2) unfolding queues_ok_def d e s by (auto simp: less_Suc_eq)
  have "bkt_result p (Some a) q"
    using P S Q e l unfolding bkt_result_def same_pool_def pins_stay_def s by (auto simp: q_def b_def)
  thus ?thesis using n by blast
qed

lemma mpool_bkt_result:
  assumes p: "pool_ok p" "io_ok p" "curcache p + 1 < 2 ^ 32"
  shows "\<exists>r q. mpool_bkt p = Some (r, q) \<and> bkt_result p r q"
proof -
  let ?P = "\<lambda>a. case bkts p a of Some b \<Rightarrow> \<not> b_pinned b | None \<Rightarrow> False"
  have q: "queues_ok {} p" "pages_ok p" using p(1) by (simp_all add: pool_ok_def)
  have i: "\<exists>b. bkts p a = Some b" if "a \<in> set (lqh p)" for a using that q(1) by (auto simp: queues_ok_def)
  have u: "unpinned_loop p (lqh p) = Some (List.find ?P (lqh p))" by (rule unpinned_loop_eq [OF i])
  show ?thesis
  proof (cases "curcache p < maxcache p \<or> List.find ?P (lqh p) = None")
    case True
    have "curcache p + 1 \<le> cache_limit p"
    proof (cases "curcache p < maxcache p")
      case False
      hence "\<not> some_unpinned p" using True by (auto simp: some_unpinned_def entry_def find_None_iff)
      thus ?thesis by (simp add: cache_limit_def)
    qed (simp add: cache_limit_def)
    from new_bkt_result [OF p(1,3) this] obtain r q where r: "new_bkt p = (r, q)" "bkt_result p r q" by blast
    have "mpool_bkt p = Some (r, q)" using True r(1) u by (auto simp: mpool_bkt_def)
    thus ?thesis using r(2) by blast
  next
    case False
    then obtain a where a: "List.find ?P (lqh p) = Some a" "\<not> curcache p < maxcache p" by auto
    obtain b where b: "entry p a b" "\<not> b_pinned b" using find_first [OF a(1)] by (auto simp: entry_def split: option.splits)
    have bk: "bkts p a = Some b" "page_ok p b" using b(1) q(2) by (auto simp: entry_def pages_ok_def)
    have un: "some_unpinned p" using b by (auto simp: some_unpinned_def)
    define p1 where "p1 = (if b_dirty b then written a b p else p)"
    define b1 where "b1 = b\<lparr>b_dirty := False\<rparr>"
    have B: "mpool_bkt p = (if b_dirty b \<and> mp_io p (mp_ops p) \<noteq> None then Some (None, p\<lparr>mp_ops := mp_ops p + 1\<rparr>)
        else do { p2 \<leftarrow> dequeue a p1; Some (Some a, upd_bkt a clear_flags p2) })"
      using a u bk(1) by (simp add: mpool_bkt_def mpool_write_spec [OF q(2) p(2) b(1)] p1_def)
    show ?thesis
    proof (cases "b_dirty b \<and> mp_io p (mp_ops p) \<noteq> None")
      case True
      define q where "q = p\<lparr>mp_ops := mp_ops p + 1\<rparr>"
      have e: "entry q c b' = entry p c b'" for c b' by (simp add: q_def entry_def)
      have P: "pages_ok q" by (rule pages_ok_cong [OF \<open>pages_ok p\<close>]) (use \<open>pages_ok p\<close> e in \<open>auto simp: q_def pages_ok_def\<close>)
      have Q: "queues_ok {} q" by (rule queues_ok_cong [OF \<open>queues_ok {} p\<close>]) (simp_all add: q_def)
      have st: "stored q n = stored p n" for n by (rule stored_cong) (simp_all add: q_def)
      have S: "seen q m = seen p m" for m by (rule seen_cong [OF \<open>pages_ok p\<close> P]) (simp_all only: e st)
      have "bkt_result p None q" using P Q S e True un
        by (auto simp: bkt_result_def same_pool_def pins_stay_def fails_def cache_limit_def) (auto simp: q_def)
      thus ?thesis using B True q_def by auto
    next
      case False
      have sp: "same_pool p p1" "curcache p1 = curcache p" by (simp_all add: p1_def same_pool_def written_def)
      have e1: "entry p1 c b' \<longleftrightarrow> (if c = a then b' = b1 else entry p c b')" for c b'
        using b(1) entry_written [OF bk(1)] entry_unique [OF b(1)] by (auto simp: p1_def b1_def entry_def)
      have P1: "pages_ok p1" "queues_ok {} p1" "\<And>n. seen p1 n = seen p n"
        using q pages_ok_written [OF q(2) b(1)] queues_written [OF q(1) bk(1)] seen_written [OF q(2) b(1)] by (simp_all add: p1_def)
      have st: "stored p1 (b_pgno b1) = b_page b1"
        using bk(2) b(2) stored_written [OF q(2), of b a] by (auto simp: p1_def b1_def page_ok_def)
      have E: "entry p1 a b1" by (simp add: e1)
      define q' where "q' = upd_bkt a clear_flags (dequeued a b1 p1)"
      note v = evicted [OF P1(1,2) E st, folded q'_def]
      have r: "mpool_bkt p = Some (Some a, q')" using B False by (simp add: dequeue_spec(1) [OF P1(2) E] q'_def)
      have sp': "same_pool p q'" using sp(1) by (simp add: same_pool_def q'_def upd_bkt_def dequeued_def)
      have l: "length (b_page b) = pagesize q'" using sp' bk(2) by (simp add: same_pool_def page_ok_def)
      have "bkt_result p (Some a) q'"
        unfolding bkt_result_def option.case pins_stay_def
      proof (intro conjI allI impI)
        show "same_pool p q'" by (rule sp')
        show "pages_ok q'" by (rule v(2))
        show "seen q' n = seen p n" for n using v(3) P1(3) by simp
        show "queues_ok {a} q'" by (rule v(1))
        show "curcache q' \<le> cache_limit p" using v(5) sp(2) un by (simp add: cache_limit_def)
        show "\<exists>b. bkts q' a = Some b \<and> \<not> b_dirty b \<and> \<not> b_pinned b \<and> length (b_page b) = pagesize q'"
          using v(6) l by (simp add: clear_flags_def b1_def)
        show "entry q' c b'" if "entry p c b'" "b_pinned b'" for c b'
          using that b entry_unique [OF b(1)] by (auto simp: v(4) e1)
        show "\<exists>b0. entry p c b0 \<and> b_pgno b0 = b_pgno b'" if "entry q' c b'" for c b'
          using that by (auto simp: v(4) e1)
      qed
      thus ?thesis using r by blast
    qed
  qed
qed

subsection \<open>Getting a page\<close>

lemma placed:
  assumes q: "queues_ok {a} q" "pages_ok q" "bkts q a \<noteq> None" and b: "page_ok q b" "\<And>c b'. entry q c b' \<Longrightarrow> b_pgno b' \<noteq> b_pgno b"
  defines "r \<equiv> enqueued a b (upd_bkt a (\<lambda>_. b) q)"
  shows "queues_ok {} r" "pages_ok r" "entry r c b' \<longleftrightarrow> entry q c b' \<or> c = a \<and> b' = b"
    "seen r n = (if n = b_pgno b then b_page b else seen q n)"
proof -
  define u where "u = upd_bkt a (\<lambda>_. b) q"
  have na: "a \<notin> set (lqh q)" using q(1) by (simp add: queues_ok_def)
  have eu: "entry u c b' = entry q c b'" for c b' using na by (auto simp: u_def entry_upd_bkt entry_def)
  have bu: "bkts u a = Some b" using q(3) by (auto simp: u_def)
  have e: "entry r c b' \<longleftrightarrow> entry q c b' \<or> c = a \<and> b' = b" for c b'
    unfolding r_def u_def [symmetric] entry_enqueued [OF bu] eu by blast
  thus "entry r c b' \<longleftrightarrow> entry q c b' \<or> c = a \<and> b' = b" .
  have du: "dom (bkts u) = dom (bkts q)" using q(3) by (auto simp: u_def)
  have Qu: "queues_ok {a} u"
    using q(1) unfolding queues_ok_def eu du by (auto simp: u_def)
  show "queues_ok {} r" using enqueue_spec(2) [OF Qu bu] by (simp add: r_def u_def)
  have st: "stored r n = stored q n" for n by (rule stored_cong) (simp_all add: r_def)
  show P: "pages_ok r"
  proof (rule pages_ok_cong [OF q(2)])
    have inj: "c = c'" if "entry q c x" "entry q c' x'" "b_pgno x = b_pgno x'" for c x c' x'
      using that q(2) unfolding pages_ok_def by blast
    show "c = c'" if "entry r c x" "entry r c' x'" "b_pgno x = b_pgno x'" for c x c' x'
      using that inj b(2) unfolding e by metis
    show "page_ok q x" if "entry r c x" for c x using that b(1) q(2) by (auto simp: e pages_ok_def)
  qed (simp_all add: r_def)
  show "seen r n = (if n = b_pgno b then b_page b else seen q n)"
  proof (cases "n = b_pgno b")
    case True
    have "entry r a b" by (simp add: e)
    thus ?thesis using seen_cached [OF P] True by simp
  next
    case False
    have "seen r n = seen q n"
    proof (rule seen_eqI [OF q(2) P])
      fix c b' assume "entry q c b'" "b_pgno b' = n"
      thus "(\<exists>a' b''. entry r a' b'' \<and> b_pgno b'' = n \<and> b_page b'' = b_page b') \<or>
          (\<forall>a' b''. entry r a' b'' \<longrightarrow> b_pgno b'' \<noteq> n) \<and> stored r n = b_page b'" using e by blast
    next
      assume "\<And>c b'. entry q c b' \<Longrightarrow> b_pgno b' \<noteq> n"
      thus "(\<exists>a' b''. entry r a' b'' \<and> b_pgno b'' = n \<and> b_page b'' = stored q n) \<or>
          (\<forall>a' b''. entry r a' b'' \<longrightarrow> b_pgno b'' \<noteq> n) \<and> stored r n = stored q n" using e st False by auto
    qed
    thus ?thesis using False by simp
  qed
qed

lemma freed:
  assumes q: "queues_ok {a} q" "pages_ok q"
  shows "queues_ok {} (free_bkt a q)" "pages_ok (free_bkt a q)" "entry (free_bkt a q) c b \<longleftrightarrow> entry q c b"
    "seen (free_bkt a q) n = seen q n" "curcache (free_bkt a q) \<le> curcache q"
proof -
  define r where "r = free_bkt a q"
  have na: "a \<notin> set (lqh q)" "a \<in> dom (bkts q)" "finite (dom (bkts q))" "curcache q = card (dom (bkts q))" "curcache q < 2 ^ 32"
    using q(1) by (auto simp: queues_ok_def)
  have "0 < card (dom (bkts q))" using na(2,3) card_gt_0_iff by blast
  hence c: "curcache r = curcache q - 1" "0 < curcache q" using na by (auto simp: r_def free_bkt_def pg_dec_def mod_if)
  have e: "entry r c b = entry q c b" for c b using na by (auto simp: r_def free_bkt_def entry_def)
  have s: "pagesize r = pagesize q" "mp_file r = mp_file q" "pgin r = pgin q" "pgout r = pgout q" "lqh r = lqh q" "hqh r = hqh q" "next_adr r = next_adr q"
    by (simp_all add: r_def free_bkt_def)
  have d: "dom (bkts r) = dom (bkts q) - {a}" by (auto simp: r_def free_bkt_def)
  show "entry (free_bkt a q) c b \<longleftrightarrow> entry q c b" using e by (simp add: r_def)
  show "curcache (free_bkt a q) \<le> curcache q" using c by (simp add: r_def)
  show "queues_ok {} (free_bkt a q)"
    using q(1) c(2) na unfolding r_def [symmetric] queues_ok_def e d s c(1) by (auto simp: card_Diff_singleton)
  show P: "pages_ok (free_bkt a q)"
    unfolding r_def [symmetric] by (rule pages_ok_cong [OF q(2) s(1-4)]) (use q(2) e in \<open>auto simp: pages_ok_def\<close>)
  show "seen (free_bkt a q) n = seen q n"
    unfolding r_def [symmetric] by (rule seen_cong [OF q(2) P [folded r_def]]) (simp_all only: e stored_cong [OF s(1-3)])
qed

lemma block_read:
  assumes "pages_ok p"
  shows "take (pagesize p) (drop (pagesize p * n) (mp_file p)) = [] \<and> file_page p n = replicate (pagesize p) (CHR 0x00) \<or>
    length (take (pagesize p) (drop (pagesize p * n) (mp_file p))) = pagesize p \<and>
    file_page p n = take (pagesize p) (drop (pagesize p * n) (mp_file p)) \<and> take (pagesize p) (drop (pagesize p * n) (mp_file p)) \<noteq> []"
proof (cases "pagesize p * n < length (mp_file p)")
  case True
  hence "pagesize p * n + pagesize p \<le> length (mp_file p)" using assms block_end by (auto simp: pages_ok_def)
  thus ?thesis using assms by (auto simp: file_page_def pages_ok_def)
qed (simp add: file_page_def)

text \<open>What holds after a page was asked for.\<close>

definition get_result :: "nat \<Rightarrow> bool \<Rightarrow> mpool \<Rightarrow> nat option \<Rightarrow> mpool \<Rightarrow> bool" where
  "get_result n ip p r q \<longleftrightarrow>
     pool_ok q \<and> same_pool p q \<and> pins_stay p q \<and> (\<forall>m. seen q m = seen p m) \<and> curcache q \<le> max (curcache p) (cache_limit p)
     \<and> (case r of
          None \<Rightarrow> fails p
        | Some a \<Rightarrow> (\<exists>b. entry q a b \<and> b_pgno b = n \<and> b_page b = seen p n \<and> (\<not> ip \<longrightarrow> b_pinned b)))"

lemma get_hit:
  assumes p: "pool_ok p" "entry p a b" "b_pgno b = n" and l: "mpool_look n p = Some (Some a)"
  shows "\<exists>q. mpool_get n ip p = Some (Some a, q) \<and> get_result n ip p (Some a) q"
proof -
  have q: "queues_ok {} p" "pages_ok p" using p(1) by (simp_all add: pool_ok_def)
  have bk: "bkts p a = Some b" "page_ok p b" using p(2) q(2) by (auto simp: entry_def pages_ok_def)
  note d = dequeue_spec [OF q(1) p(2)]
  have bd: "bkts (dequeued a b p) a = Some b" using bk by simp
  note e = enqueue_spec [OF d(2) bd]
  define m where "m = enqueued a b (dequeued a b p)"
  define b' where "b' = b\<lparr>b_pinned := True\<rparr>"
  define r where "r = upd_bkt a (\<lambda>b. b\<lparr>b_pinned := True\<rparr>) m"
  have g: "mpool_get n ip p = Some (Some a, r)" by (simp add: mpool_get_def l d(1) e(1) r_def m_def)
  have dl: "distinct (lqh p)" using q(1) by (simp add: queues_ok_def)
  have em: "entry m c x = entry p c x" for c x
    unfolding m_def using entry_unique [OF p(2)] p(2) by (auto simp: entry_enqueued entry_dequeued [OF dl] bk)
  have er: "entry r c x \<longleftrightarrow> (if c = a then x = b' else entry p c x)" for c x
    using p(2) entry_unique [OF p(2)] by (auto simp: r_def entry_upd_bkt em b'_def)
  have st: "stored r k = stored p k" for k by (rule stored_cong) (simp_all add: r_def m_def)
  have inj: "c = c'" if "entry p c x" "entry p c' x'" "b_pgno x = b_pgno x'" for c x c' x'
    using that q(2) unfolding pages_ok_def by blast
  have P: "pages_ok r"
  proof (rule pages_ok_cong [OF q(2)])
    show "page_ok p x" if "entry r c x" for c x
      using that bk(2) q(2) by (auto simp: er b'_def page_ok_def pages_ok_def split: if_splits)
    show "c = c'" if "entry r c x" "entry r c' x'" "b_pgno x = b_pgno x'" for c x c' x'
      using that inj p(2) unfolding er b'_def by (fastforce split: if_splits)
  qed (simp_all add: r_def m_def)
  have Q: "queues_ok {} r"
  proof (rule queues_ok_cong)
    show "queues_ok {} m" using e(2) by (simp add: m_def)
  qed (auto simp: r_def option.map_comp comp_def)
  have S: "seen r k = seen p k" for k
  proof (rule seen_cong [OF q(2) P st])
    show "(\<exists>c x. entry r c x \<and> b_pgno x = k' \<and> b_page x = pg) = (\<exists>c x. entry p c x \<and> b_pgno x = k' \<and> b_page x = pg)" for k' pg
    proof -
      have 1: "\<exists>y. entry p c y \<and> b_pgno y = b_pgno x \<and> b_page y = b_page x" if "entry r c x" for c x
        using that p(2) by (cases "c = a") (auto simp: er b'_def)
      have 2: "\<exists>y. entry r c y \<and> b_pgno y = b_pgno x \<and> b_page y = b_page x" if "entry p c x" for c x
        using that entry_unique [OF p(2)] by (cases "c = a") (auto simp: er b'_def)
      show ?thesis using 1 2 by metis
    qed
  qed
  have pin: "b_pinned b \<Longrightarrow> b' = b" by (simp add: b'_def)
  have "get_result n ip p (Some a) r"
    using P Q S p(3) seen_cached [OF q(2) p(2)] pin entry_unique [OF p(2)]
    unfolding get_result_def pool_ok_def pins_stay_def er
    by (auto simp: b'_def same_pool_def r_def m_def upd_bkt_def enqueued_def dequeued_def)
  thus ?thesis using g by blast
qed

lemma get_miss:
  assumes p: "pool_ok p" "io_ok p" "curcache p + 1 < 2 ^ 32" and l: "mpool_look n p = Some None" "\<And>a b. entry p a b \<Longrightarrow> b_pgno b \<noteq> n"
  shows "\<exists>r q. mpool_get n ip p = Some (r, q) \<and> get_result n ip p r q"
proof -
  from mpool_bkt_result [OF p] obtain x p1 where x: "mpool_bkt p = Some (x, p1)" "bkt_result p x p1" by blast
  have B: "same_pool p p1" "pins_stay p p1" "pages_ok p1" "\<And>n. seen p1 n = seen p n"
    "\<And>c b. entry p1 c b \<Longrightarrow> \<exists>b0. entry p c b0 \<and> b_pgno b0 = b_pgno b" "curcache p1 \<le> cache_limit p"
    using x(2) by (simp_all add: bkt_result_def)
  show ?thesis
  proof (cases x)
    case None
    have "get_result n ip p None p1" using x(2) None by (auto simp: get_result_def bkt_result_def pool_ok_def)
    thus ?thesis using x(1) l None by (auto simp: mpool_get_def)
  next
    case (Some a)
    obtain b where b: "queues_ok {a} p1" "bkts p1 a = Some b" "\<not> b_dirty b" "\<not> b_pinned b" "length (b_page b) = pagesize p1"
      using x(2) Some by (auto simp: bkt_result_def)
    define p2 where "p2 = p1\<lparr>mp_ops := mp_ops p1 + 1\<rparr>"
    have e2: "entry p2 c y = entry p1 c y" for c y by (simp add: p2_def entry_def)
    have st2: "stored p2 m = stored p1 m" for m by (rule stored_cong) (simp_all add: p2_def)
    have P2: "pages_ok p2" by (rule pages_ok_cong [OF B(3)]) (use B(3) e2 in \<open>auto simp: p2_def pages_ok_def\<close>)
    have Q2: "queues_ok {a} p2" by (rule queues_ok_cong [OF b(1)]) (simp_all add: p2_def)
    have S2: "seen p2 m = seen p m" for m
      using seen_cong [OF B(3) P2 st2, of m] B(4) by (simp only: e2)
    have sp2: "same_pool p p2" using B(1) by (simp add: same_pool_def p2_def)
    have ln: "b_pgno y \<noteq> n" if "entry p2 c y" for c y using that e2 B(5) l(2) by metis
    have sn: "stored p2 n = seen p n" using seen_stored [of p2 n] ln S2 by metis
    let ?bs = "take (pagesize p2) (drop (pagesize p2 * n) (mp_file p2))"
    have rd: "mp_pread (pagesize p1 * n) p1 = (case mp_io p1 (mp_ops p1) of Some _ \<Rightarrow> None | None \<Rightarrow> Some ?bs, p2)"
      by (simp add: mp_pread_def p2_def split: option.splits)
    show ?thesis
    proof (cases "mp_io p1 (mp_ops p1)")
      case (Some k)
      hence f: "fails p" using B(1) by (auto simp: fails_def same_pool_def)
      note fr = freed [OF Q2 P2]
      have "curcache (free_bkt a p2) \<le> cache_limit p" using fr(5) B(6) by (simp add: p2_def)
      hence "get_result n ip p None (free_bkt a p2)"
        using fr(1-4) f S2 sp2 B(2) by (auto simp: get_result_def pool_ok_def pins_stay_def e2) (auto simp: same_pool_def free_bkt_def)
      thus ?thesis using x(1) l \<open>x = Some a\<close> rd Some by (auto simp: mpool_get_def)
    next
      case None
      define b3 where "b3 = b\<lparr>b_page := file_page p2 n, b_pgno := n, b_pinned := b_pinned b \<or> \<not> ip, b_inuse := True\<rparr>"
      define b' where "b' = filter_page (pgin p2) b3"
      define r where "r = enqueued a b' (upd_bkt a (\<lambda>_. b') p2)"
      have pg: "b_page b' = stored p2 n" by (simp add: b'_def filter_page_def stored_def b3_def split: option.splits)
      have bs: "b_pgno b' = n" "b_inuse b'" "\<not> b_dirty b'" "b_pinned b' \<longleftrightarrow> \<not> ip" using b by (simp_all add: b'_def b3_def)
      have ok: "page_ok p2 b'" using bs pg length_stored [OF P2] by (simp add: page_ok_def)
      have bk2: "bkts p2 a = Some b" using b(2) by (simp add: p2_def)
      note pl = placed [OF Q2 P2 _ ok, folded r_def]
      have eq: "upd_bkt a (filter_page (pgin p2)) (enqueued a b3 (upd_bkt a
          (\<lambda>b. b\<lparr>b_page := file_page p2 n, b_pgno := n, b_pinned := b_pinned b \<or> \<not> ip, b_inuse := True\<rparr>) p2)) = r"
        using bk2 by (simp add: r_def upd_bkt_def enqueued_def b'_def b3_def)
      have en: "enqueue a (upd_bkt a (\<lambda>b. b\<lparr>b_page := file_page p2 n, b_pgno := n, b_pinned := b_pinned b \<or> \<not> ip, b_inuse := True\<rparr>) p2)
          = Some (enqueued a b3 (upd_bkt a (\<lambda>b. b\<lparr>b_page := file_page p2 n, b_pgno := n, b_pinned := b_pinned b \<or> \<not> ip, b_inuse := True\<rparr>) p2))"
        using bk2 by (simp add: enqueue_def enqueued_def Let_def b3_def)
      have G: "mpool_get n ip p = Some (Some a, r)"
        using block_read [OF P2, of n]
      proof (elim disjE conjE)
        assume "?bs = []" "file_page p2 n = replicate (pagesize p2) (CHR 0x00)"
        thus ?thesis using en eq x(1) l(1) \<open>x = Some a\<close> rd None by (simp add: mpool_get_def)
      next
        assume "length ?bs = pagesize p2" "file_page p2 n = ?bs" "?bs \<noteq> []"
        thus ?thesis using en eq x(1) l(1) \<open>x = Some a\<close> rd None by (simp add: mpool_get_def)
      qed
      have nn: "b_pgno y \<noteq> b_pgno b'" if "entry p2 c y" for c y using ln [OF that] bs by simp
      have n2: "bkts p2 a \<noteq> None" using bk2 by simp
      note PL = pl [OF n2 nn]
      have er: "entry r c y \<longleftrightarrow> entry p1 c y \<or> c = a \<and> y = b'" for c y
        using placed(3) [OF Q2 P2 n2 ok nn] by (simp add: e2 r_def)
      have sn_r: "seen r m = (if m = b_pgno b' then b_page b' else seen p2 m)" for m
        unfolding r_def by (rule placed(4) [OF Q2 P2 n2 ok nn])
      have e': "entry r a b'" by (simp add: er)
      have "get_result n ip p (Some a) r"
        unfolding get_result_def option.case
      proof (intro conjI allI)
        show "pool_ok r" using PL(1,2) by (simp add: pool_ok_def)
        show "same_pool p r" using sp2 by (simp add: same_pool_def r_def upd_bkt_def enqueued_def)
        show "pins_stay p r" using B(2) by (simp add: pins_stay_def er)
        show "seen r m = seen p m" for m
        proof (cases "m = n")
          case True
          thus ?thesis using sn_r [of m] sn pg by (simp only: bs(1) simp_thms if_True)
        next
          case False
          thus ?thesis using sn_r [of m] S2 by (simp only: bs(1) simp_thms if_False)
        qed
        show "curcache r \<le> max (curcache p) (cache_limit p)" using B(6) by (simp add: r_def p2_def)
        show "\<exists>b. entry r a b \<and> b_pgno b = n \<and> b_page b = seen p n \<and> (\<not> ip \<longrightarrow> b_pinned b)"
          by (intro exI [of _ b'] conjI e' bs(1)) (simp_all add: bs(4) pg sn)
      qed
      thus ?thesis using G by blast
    qed
  qed
qed

lemma mpool_get_spec:
  assumes p: "pool_ok p" "io_ok p" "curcache p + 1 < 2 ^ 32"
  shows "\<exists>r q. mpool_get n ip p = Some (r, q) \<and> get_result n ip p r q"
  using mpool_look_spec [OF p(1), of n] get_hit [OF p(1)] get_miss [OF p] by metis

text \<open>
  When a page is not cached, the bucket of the first page that nobody holds is used if the cache is full, and a new one
  otherwise. Exactly then may \<open>mpool_get\<close> fail: the bucket is to be written and cannot be, there is no memory for a new one, or
  the page cannot be read, the read coming after the write.
\<close>

definition reused_bkt :: "mpool \<Rightarrow> nat option" where
  "reused_bkt p =
     (if curcache p < maxcache p then None
      else List.find (\<lambda>a. case bkts p a of Some b \<Rightarrow> \<not> b_pinned b | None \<Rightarrow> False) (lqh p))"

definition bkt_dirty :: "nat \<Rightarrow> mpool \<Rightarrow> bool" where
  "bkt_dirty a p = (case bkts p a of Some b \<Rightarrow> b_dirty b | None \<Rightarrow> False)"

definition page_cached :: "nat \<Rightarrow> mpool \<Rightarrow> bool" where
  "page_cached n p = list_ex (\<lambda>a. case bkts p a of Some b \<Rightarrow> b_pgno b = n | None \<Rightarrow> False) (lqh p)"

definition get_fails :: "nat \<Rightarrow> mpool \<Rightarrow> bool" where
  "get_fails n p \<longleftrightarrow> \<not> page_cached n p \<and>
     (case reused_bkt p of
        None \<Rightarrow> \<not> mp_mem p (sizeof_bkt + pagesize p) \<or> mp_io p (mp_ops p) \<noteq> None
      | Some a \<Rightarrow> mp_io p (mp_ops p) \<noteq> None \<or> bkt_dirty a p \<and> mp_io p (mp_ops p + 1) \<noteq> None)"

lemma get_reads:
  assumes "mpool_look n p = Some None" "mpool_bkt p = Some (Some a, p1)" "pages_ok p1" "mpool_get n ip p = Some (r, q)"
  shows "r = None \<longleftrightarrow> mp_io p1 (mp_ops p1) \<noteq> None"
proof (cases "mp_io p1 (mp_ops p1)")
  case None
  let ?bs = "take (pagesize p1) (drop (pagesize p1 * n) (mp_file p1))"
  have "\<not> (?bs \<noteq> [] \<and> length ?bs \<noteq> pagesize p1)" using block_read [OF assms(3), of n] by blast
  then show ?thesis using assms(1,2,4) None by (auto simp: mpool_get_def mp_pread_def Let_def bind_eq_Some_conv split: if_splits)
next
  case (Some k)
  then show ?thesis using assms(1,2,4) by (auto simp: mpool_get_def mp_pread_def)
qed

lemma bkt_fails:
  assumes p: "pool_ok p" "io_ok p"
  shows "(reused_bkt p = None \<longrightarrow>
      (if mp_mem p (sizeof_bkt + pagesize p) then \<exists>a p1. mpool_bkt p = Some (Some a, p1) \<and> mp_io p1 = mp_io p \<and> mp_ops p1 = mp_ops p
       else mpool_bkt p = Some (None, p))) \<and>
    (\<forall>v. reused_bkt p = Some v \<longrightarrow>
      (if bkt_dirty v p \<and> mp_io p (mp_ops p) \<noteq> None then \<exists>p1. mpool_bkt p = Some (None, p1)
       else \<exists>p1. mpool_bkt p = Some (Some v, p1) \<and> mp_io p1 = mp_io p \<and> mp_ops p1 = mp_ops p + (if bkt_dirty v p then 1 else 0)))"
proof -
  let ?P = "\<lambda>a. case bkts p a of Some b \<Rightarrow> \<not> b_pinned b | None \<Rightarrow> False"
  have q: "queues_ok {} p" "pages_ok p" using p(1) by (simp_all add: pool_ok_def)
  have i: "\<exists>b. bkts p a = Some b" if "a \<in> set (lqh p)" for a using that q(1) by (auto simp: queues_ok_def)
  have u: "unpinned_loop p (lqh p) = Some (List.find ?P (lqh p))" by (rule unpinned_loop_eq [OF i])
  show ?thesis
  proof (intro conjI impI allI)
    assume "reused_bkt p = None"
    then have "mpool_bkt p = Some (new_bkt p)" using u by (auto simp: mpool_bkt_def reused_bkt_def split: if_splits)
    then show "if mp_mem p (sizeof_bkt + pagesize p) then \<exists>a p1. mpool_bkt p = Some (Some a, p1) \<and> mp_io p1 = mp_io p \<and> mp_ops p1 = mp_ops p
       else mpool_bkt p = Some (None, p)" by (simp add: new_bkt_def Let_def)
  next
    fix v assume "reused_bkt p = Some v"
    then have a: "List.find ?P (lqh p) = Some v" "\<not> curcache p < maxcache p" by (auto simp: reused_bkt_def split: if_splits)
    obtain b where b: "entry p v b" "\<not> b_pinned b" using find_first [OF a(1)] by (auto simp: entry_def split: option.splits)
    have bk: "bkts p v = Some b" "v \<in> set (lqh p)" using b(1) by (simp_all add: entry_def)
    define p1 where "p1 = (if b_dirty b then written v b p else p)"
    have B: "mpool_bkt p = (if b_dirty b \<and> mp_io p (mp_ops p) \<noteq> None then Some (None, p\<lparr>mp_ops := mp_ops p + 1\<rparr>)
        else do { p2 \<leftarrow> dequeue v p1; Some (Some v, upd_bkt v clear_flags p2) })"
      using a u bk(1) by (simp add: mpool_bkt_def mpool_write_spec [OF q(2) p(2) b(1)] p1_def)
    have E: "queues_ok {} p1" "\<exists>b1. entry p1 v b1"
      using q(1) queues_written [OF q(1) bk(1)] b(1) entry_written [OF bk(1)] bk(2) by (auto simp: p1_def)
    then obtain b1 where b1: "entry p1 v b1" by blast
    have io: "mp_io p1 = mp_io p" "mp_ops p1 = mp_ops p + (if b_dirty b then 1 else 0)" by (simp_all add: p1_def written_def)
    show "if bkt_dirty v p \<and> mp_io p (mp_ops p) \<noteq> None then \<exists>p1. mpool_bkt p = Some (None, p1)
       else \<exists>p1. mpool_bkt p = Some (Some v, p1) \<and> mp_io p1 = mp_io p \<and> mp_ops p1 = mp_ops p + (if bkt_dirty v p then 1 else 0)"
      using B io dequeue_spec(1) [OF E(1) b1] bk by (auto simp: bkt_dirty_def dequeued_def upd_bkt_def)
  qed
qed

lemma get_fails_iff:
  assumes p: "pool_ok p" "io_ok p" "curcache p + 1 < 2 ^ 32" and g: "mpool_get n ip p = Some (r, q)"
  shows "r = None \<longleftrightarrow> get_fails n p"
proof -
  have c: "page_cached n p \<longleftrightarrow> (\<exists>a b. entry p a b \<and> b_pgno b = n)"
    by (auto simp: page_cached_def list_ex_iff entry_def split: option.splits)
  consider (hit) a where "mpool_look n p = Some (Some a)" "page_cached n p" | (miss) "mpool_look n p = Some None" "\<not> page_cached n p"
    using mpool_look_spec [OF p(1), of n] c by blast
  then show ?thesis
  proof cases
    case hit
    then show ?thesis using g by (auto simp: mpool_get_def get_fails_def bind_eq_Some_conv)
  next
    case miss
    obtain x p1 where x: "mpool_bkt p = Some (x, p1)" "bkt_result p x p1" using mpool_bkt_result [OF p] by blast
    have ok: "pages_ok p1" using x(2) by (simp add: bkt_result_def)
    have n: "r = None" if "x = None" using g miss(1) x(1) that by (auto simp: mpool_get_def)
    have s: "r = None \<longleftrightarrow> mp_io p1 (mp_ops p1) \<noteq> None" if "x \<noteq> None"
      using get_reads [OF miss(1) _ ok g] x(1) that by auto
    show ?thesis
    proof (cases "reused_bkt p")
      case None
      then show ?thesis using bkt_fails [OF p(1,2)] x(1) n s miss(2) by (cases x) (auto simp: get_fails_def split: if_splits)
    next
      case (Some v)
      then show ?thesis using bkt_fails [OF p(1,2)] x(1) n s miss(2) by (cases x) (auto simp: get_fails_def split: if_splits)
    qed
  qed
qed

text \<open>C19: when a read or a write fails, or there is no memory, mpool_get still returns, and leaves a pool that is consistent,
  in which nothing that was seen of the file has changed and every page that was held is. It returns nothing exactly when something it
  needs fails: for a page that is not cached, the memory for a new bucket or the write of the dirty page it throws out, and the read. (The
  writes that fail leave no byte in the file, and there is no output filter: failed_write_spoils_page shows what happens with one.)\<close>
theorem mpool_get_fails_safely:
  assumes "pool_ok p" "curcache p + 1 < 2 ^ 32" "pgout p = None" "\<And>k j. mp_io p k = Some j \<Longrightarrow> j = 0"
  shows "\<exists>r q. mpool_get n ip p = Some (r, q) \<and> pool_ok q \<and> (\<forall>m. seen q m = seen p m) \<and> pins_stay p q
    \<and> (r = None \<longleftrightarrow> get_fails n p)"
proof -
  have io: "io_ok p" using assms(3,4) by (auto simp: io_ok_def)
  from mpool_get_spec [OF assms(1) io assms(2), of n ip] obtain r q where
    r: "mpool_get n ip p = Some (r, q)" "get_result n ip p r q" by blast
  thus ?thesis using get_fails_iff [OF assms(1) io assms(2) r(1)] by (auto simp: get_result_def)
qed

text \<open>C21: the cache stays within its limit for as long as there is a page that nobody holds; if every page is held it grows by one
  bucket.\<close>
theorem mpool_cache_bounded:
  assumes "pool_ok p" "curcache p + 1 < 2 ^ 32" "\<And>k. mp_io p k = None"
  shows "\<exists>r q. mpool_get n ip p = Some (r, q) \<and> length (lqh q) = curcache q
    \<and> curcache q \<le> (if some_unpinned p then max (curcache p) (maxcache p) else curcache p + 1)"
proof -
  have "io_ok p" using assms(3) by (simp add: io_ok_def)
  from mpool_get_spec [OF assms(1) this assms(2), of n ip] obtain r q where
    r: "mpool_get n ip p = Some (r, q)" "get_result n ip p r q" by blast
  have "queues_ok {} q" using r(2) by (simp add: get_result_def pool_ok_def)
  hence "length (lqh q) = curcache q" by (auto simp: queues_ok_def distinct_card [symmetric])
  thus ?thesis using r by (auto simp: get_result_def cache_limit_def)
qed

subsection \<open>Writing everything out\<close>

definition unsaved :: "bkt \<Rightarrow> bool" where "unsaved b \<longleftrightarrow> b_pinned b \<and> \<not> b_dirty b"

definition synced :: "nat list \<Rightarrow> mpool \<Rightarrow> mpool \<Rightarrow> bool" where
  "synced as p q \<longleftrightarrow> pool_ok q \<and> same_pool p q \<and> (\<forall>n. seen q n = seen p n) \<and> (\<forall>n. stored p n = seen p n \<longrightarrow> stored q n = seen p n)
     \<and> (\<forall>a\<in>set as. \<forall>b. entry p a b \<longrightarrow> \<not> unsaved b \<longrightarrow> stored q (b_pgno b) = seen p (b_pgno b))"

lemma synced_written:
  assumes p: "pool_ok p" "entry p a b" "b_dirty b"
  shows "synced [a] p (written a b p)"
proof -
  have q: "pages_ok p" "queues_ok {} p" using p(1) by (simp_all add: pool_ok_def)
  have b: "bkts p a = Some b" "length (b_page b) = pagesize p" using p(2) q(1) by (auto simp: entry_def pages_ok_def page_ok_def)
  have s: "seen p (b_pgno b) = b_page b" by (rule seen_cached [OF q(1) p(2)])
  show ?thesis
    using pages_ok_written [OF q(1) p(2)] queues_written [OF q(2) b(1)] seen_written [OF q(1) p(2)] stored_written [OF q(1) b(2)] s
      entry_unique [OF p(2)]
    by (auto simp: synced_def pool_ok_def same_pool_def) (auto simp: written_def)
qed

lemma synced_clean:
  assumes p: "pool_ok p" "entry p a b" "\<not> b_dirty b"
  shows "synced [a] p p"
proof -
  have q: "pages_ok p" "queues_ok {} p" using p(1) by (simp_all add: pool_ok_def)
  have s: "seen p (b_pgno b) = b_page b" by (rule seen_cached [OF q(1) p(2)])
  have "page_ok p b" using p(2) q(1) by (simp add: pages_ok_def)
  thus ?thesis using p s entry_unique [OF p(2)] by (auto simp: synced_def same_pool_def page_ok_def unsaved_def)
qed

lemma sync_loop_spec:
  assumes "pool_ok p" "\<And>k. mp_io p k = None" "set as \<subseteq> set (lqh p)" "distinct as"
  shows "\<exists>q. sync_loop as p = Some (False, q) \<and> synced as p q \<and> fsync_fails q = fsync_fails p"
  using assms
proof (induction as arbitrary: p)
  case Nil thus ?case by (simp add: synced_def same_pool_def)
next
  case (Cons a as)
  have q: "pages_ok p" "queues_ok {} p" using Cons.prems(1) by (simp_all add: pool_ok_def)
  obtain b where b: "bkts p a = Some b" "entry p a b"
    using Cons.prems(3) q(2) by (auto simp: queues_ok_def entry_def)
  define p1 where "p1 = (if b_dirty b then written a b p else p)"
  have io: "io_ok p" using Cons.prems(2) by (simp add: io_ok_def)
  have w: "sync_loop (a # as) p = sync_loop as p1"
    using b(1) Cons.prems(2) by (simp add: mpool_write_spec [OF q(1) io b(2)] p1_def)
  have s1: "synced [a] p p1" using synced_written [OF Cons.prems(1) b(2)] synced_clean [OF Cons.prems(1) b(2)] by (simp add: p1_def)
  have l: "lqh p1 = lqh p" "fsync_fails p1 = fsync_fails p" by (simp_all add: p1_def written_def)
  have "pool_ok p1" "\<And>k. mp_io p1 k = None" using s1 Cons.prems(2) by (auto simp: synced_def same_pool_def)
  from Cons.IH [OF this] obtain q where
    r: "sync_loop as p1 = Some (False, q)" "synced as p1 q" "fsync_fails q = fsync_fails p1"
    using Cons.prems(3,4) l by auto
  have e: "entry p1 c b'" if "entry p c b'" "c \<in> set as" for c b'
    using that b(1) Cons.prems(4) by (auto simp: p1_def entry_written)
  have "synced (a # as) p q"
    using s1 r(2) e unfolding synced_def same_pool_def by simp
  thus ?case using w r l by auto
qed

text \<open>C20: after mpool_sync the file holds every page that is seen, changed or not: the file opened anew, by a pool with any
  limit, shows the same pages. (A page that is held and not yet given back as changed is not written.)\<close>
theorem mpool_sync_reopen:
  assumes "pool_ok p" "\<And>k. mp_io p k = None" "\<forall>a b. entry p a b \<longrightarrow> \<not> unsaved b"
  shows "\<exists>q r. mpool_sync p = Some (fsync_fails p, q) \<and> pool_ok q \<and> mpool_open (mp_file q) (pagesize q) maxc io mem fs = Some r
    \<and> (\<forall>n. seen (mpool_filter (pgin q) (pgout q) r) n = seen p n)"
proof -
  have q: "pages_ok p" "queues_ok {} p" using assms(1) by (simp_all add: pool_ok_def)
  from sync_loop_spec [OF assms(1,2) order_refl] obtain q where
    r: "sync_loop (lqh p) p = Some (False, q)" "synced (lqh p) p q" "fsync_fails q = fsync_fails p"
    using \<open>queues_ok {} p\<close> by (auto simp: queues_ok_def)
  have st: "stored q n = seen p n" for n
  proof (cases "\<exists>a b. entry p a b \<and> b_pgno b = n")
    case True
    then obtain a b where "entry p a b" "b_pgno b = n" by blast
    thus ?thesis using r(2) assms(3) unfolding synced_def by (metis entry_def)
  next
    case False
    hence "seen p n = stored p n" by (intro seen_stored) blast
    thus ?thesis using r(2) by (simp add: synced_def)
  qed
  have z: "0 < pagesize q" "pool_ok q" using r(2) by (simp_all add: synced_def pool_ok_def pages_ok_def)
  obtain r' where r': "mpool_open (mp_file q) (pagesize q) maxc io mem fs = Some r'" using z(1) by (simp add: mpool_open_def)
  define t where "t = mpool_filter (pgin q) (pgout q) r'"
  have t: "lqh t = []" "pagesize t = pagesize q" "mp_file t = mp_file q" "pgin t = pgin q"
    using r' by (auto simp: t_def mpool_filter_def mpool_open_def split: if_splits)
  have "seen t n = stored t n" for n by (rule seen_stored) (simp add: entry_def t(1))
  moreover have "stored t n = stored q n" for n by (rule stored_cong [OF t(2-4)])
  ultimately have sn: "seen t n = seen p n" for n using st by simp
  have "mpool_sync p = Some (fsync_fails p, q)" using r(1,3) by (simp add: mpool_sync_def)
  thus ?thesis using z(2) r' sn unfolding t_def by blast
qed

subsection \<open>Changing pages\<close>

text \<open>A client that holds a page writes into it.\<close>

definition client_write :: "nat \<Rightarrow> bytes \<Rightarrow> mpool \<Rightarrow> mpool" where
  "client_write a pg p = upd_bkt a (\<lambda>b. b\<lparr>b_page := pg\<rparr>) p"

lemma put_changed:
  assumes p: "pool_ok p" "bkts p a = Some b" "length pg = pagesize p"
  shows "\<exists>q. mpool_put a True (client_write a pg p) = Some q \<and> pool_ok q
    \<and> (\<forall>m. seen q m = (if m = b_pgno b then pg else seen p m)) \<and> same_pool p q \<and> curcache q = curcache p \<and> fsync_fails q = fsync_fails p
    \<and> (\<forall>c x. entry q c x \<longrightarrow> entry p c x \<or> \<not> unsaved x)"
proof -
  have q: "pages_ok p" "queues_ok {} p" using p(1) by (simp_all add: pool_ok_def)
  have E: "entry p a b" using p(2) q(2) by (auto simp: entry_def queues_ok_def)
  define b' where "b' = b\<lparr>b_page := pg, b_dirty := True, b_pinned := False\<rparr>"
  define r where "r = upd_bkt a (\<lambda>b. b\<lparr>b_pinned := False, b_dirty := b_dirty b \<or> True\<rparr>) (client_write a pg p)"
  have g: "mpool_put a True (client_write a pg p) = Some r" using p(2) by (simp add: mpool_put_def r_def client_write_def)
  have er: "entry r c x \<longleftrightarrow> (if c = a then x = b' else entry p c x)" for c x
    using E entry_unique [OF E] by (auto simp: r_def client_write_def entry_upd_bkt b'_def)
  have pa: "pagesize r = pagesize p" "mp_file r = mp_file p" "pgin r = pgin p" "pgout r = pgout p" by (simp_all add: r_def client_write_def)
  note st = stored_cong [OF pa(1-3)]
  have inj: "c = c'" if "entry p c x" "entry p c' x'" "b_pgno x = b_pgno x'" for c x c' x'
    using that q(1) unfolding pages_ok_def by blast
  have bk: "page_ok p b" using E q(1) by (auto simp: pages_ok_def)
  have P: "pages_ok r"
  proof (rule pages_ok_cong [OF q(1) pa])
    show "page_ok p x" if "entry r c x" for c x
      using that bk q(1) p(3) by (auto simp: er b'_def page_ok_def pages_ok_def split: if_splits)
    show "c = c'" if "entry r c x" "entry r c' x'" "b_pgno x = b_pgno x'" for c x c' x'
      using that inj E unfolding er b'_def by (fastforce split: if_splits)
  qed
  have Q: "queues_ok {} r"
    by (rule queues_ok_cong [OF q(2)]) (auto simp: r_def client_write_def option.map_comp comp_def)
  have e': "entry r a b'" by (simp add: er)
  have S: "seen r m = (if m = b_pgno b then pg else seen p m)" for m
  proof (cases "m = b_pgno b")
    case True
    thus ?thesis using seen_cached [OF P e'] by (simp add: b'_def)
  next
    case False
    have "seen r m = seen p m"
    proof (rule seen_eqI [OF q(1) P])
      fix c x assume "entry p c x" "b_pgno x = m"
      moreover hence "c \<noteq> a" using False entry_unique [OF E] by auto
      ultimately show "(\<exists>a' b''. entry r a' b'' \<and> b_pgno b'' = m \<and> b_page b'' = b_page x) \<or>
          (\<forall>a' b''. entry r a' b'' \<longrightarrow> b_pgno b'' \<noteq> m) \<and> stored r m = b_page x" using er by metis
    next
      assume "\<And>c x. entry p c x \<Longrightarrow> b_pgno x \<noteq> m"
      hence "\<forall>a' b''. entry r a' b'' \<longrightarrow> b_pgno b'' \<noteq> m" using False by (auto simp: er b'_def)
      thus "(\<exists>a' b''. entry r a' b'' \<and> b_pgno b'' = m \<and> b_page b'' = stored p m) \<or>
          (\<forall>a' b''. entry r a' b'' \<longrightarrow> b_pgno b'' \<noteq> m) \<and> stored r m = stored p m" using st by blast
    qed
    thus ?thesis using False by simp
  qed
  have F: "same_pool p r" "curcache r = curcache p" "fsync_fails r = fsync_fails p"
    by (simp_all add: same_pool_def r_def client_write_def upd_bkt_def)
  have U: "entry r c x \<Longrightarrow> entry p c x \<or> \<not> unsaved x" for c x by (auto simp: er b'_def unsaved_def split: if_splits)
  show ?thesis using g P Q S F U unfolding pool_ok_def by blast
qed

lemma get_succeeds:
  assumes "pool_ok p" "curcache p + 1 < 2 ^ 32" "\<And>k. mp_io p k = None" "\<And>k. mp_mem p k"
  shows "\<exists>a q b. mpool_get n ip p = Some (Some a, q) \<and> pool_ok q \<and> bkts q a = Some b \<and> b_pgno b = n \<and> b_page b = seen p n
    \<and> (\<not> ip \<longrightarrow> b_pinned b) \<and> (\<forall>m. seen q m = seen p m) \<and> pins_stay p q \<and> same_pool p q \<and> curcache q \<le> max (max (curcache p) (maxcache p)) (curcache p + 1)"
proof -
  have "io_ok p" using assms(3) by (simp add: io_ok_def)
  from mpool_get_spec [OF assms(1) this assms(2), of n ip] obtain r q where
    r: "mpool_get n ip p = Some (r, q)" "get_result n ip p r q" by blast
  have "\<not> fails p" using assms(3,4) by (simp add: fails_def)
  thus ?thesis using r by (cases r) (auto simp: get_result_def entry_def cache_limit_def split: if_splits)
qed

text \<open>C17: mpool_get is transparent: whatever is cached, the page that it returns is the one a client sees, and what is
  seen of every page, the page itself included, stays as it was, as do the pages that are pinned; pages are written and
  read on the way, and nothing of it is lost.\<close>
theorem mpool_get_transparent:
  assumes "pool_ok p" "curcache p + 1 < 2 ^ 32" "\<And>k. mp_io p k = None" "\<And>k. mp_mem p k"
  shows "\<exists>a q b. mpool_get n ip p = Some (Some a, q) \<and> pool_ok q \<and> bkts q a = Some b \<and> b_pgno b = n \<and> b_page b = seen p n
    \<and> (\<not> ip \<longrightarrow> b_pinned b) \<and> (\<forall>m. seen q m = seen p m) \<and> pins_stay p q"
  using get_succeeds [OF assms, of n ip] by blast

text \<open>C18: a page that is got, changed and put back as changed is what a later mpool_get of it returns, though another page was got in
  between and the changed one may have been written out to make room for it; no other page has changed.\<close>
theorem mpool_write_read:
  assumes p: "pool_ok p" "curcache p + 3 < 2 ^ 32" "maxcache p + 3 < 2 ^ 32" "\<And>k. mp_io p k = None" "\<And>k. mp_mem p k"
    and pg: "length pg = pagesize p"
  shows "\<exists>a p1 p2 k p3 c p4 b. mpool_get n False p = Some (Some a, p1) \<and> mpool_put a True (client_write a pg p1) = Some p2
    \<and> mpool_get m False p2 = Some (Some k, p3) \<and> mpool_get n False p3 = Some (Some c, p4)
    \<and> bkts p4 c = Some b \<and> b_page b = pg \<and> pool_ok p4 \<and> (\<forall>j. j \<noteq> n \<longrightarrow> seen p4 j = seen p j)"
proof -
  obtain a p1 b1 where 1: "mpool_get n False p = Some (Some a, p1)" "pool_ok p1" "bkts p1 a = Some b1" "b_pgno b1 = n"
      "\<And>j. seen p1 j = seen p j" "same_pool p p1" "curcache p1 \<le> max (max (curcache p) (maxcache p)) (curcache p + 1)"
    using get_succeeds [OF p(1) _ p(4,5), of n False] p(2) by auto
  have l: "length pg = pagesize p1" using pg 1(6) by (simp add: same_pool_def)
  obtain p2 where 2: "mpool_put a True (client_write a pg p1) = Some p2" "pool_ok p2" "\<And>j. seen p2 j = (if j = n then pg else seen p1 j)"
      "same_pool p1 p2" "curcache p2 = curcache p1"
    using put_changed [OF 1(2,3) l] 1(4) by auto
  have s2: "\<And>k. mp_io p2 k = None" "\<And>k. mp_mem p2 k" "maxcache p2 = maxcache p" "curcache p2 + 2 < 2 ^ 32"
    using 1(6,7) 2(4,5) p by (auto simp: same_pool_def)
  obtain k p3 where 3: "mpool_get m False p2 = Some (Some k, p3)" "pool_ok p3" "\<And>j. seen p3 j = seen p2 j" "same_pool p2 p3"
      "curcache p3 \<le> max (max (curcache p2) (maxcache p2)) (curcache p2 + 1)"
    using get_succeeds [OF 2(2) _ s2(1,2), of m False] s2(4) by auto
  have s3: "\<And>k. mp_io p3 k = None" "\<And>k. mp_mem p3 k" "curcache p3 + 1 < 2 ^ 32"
    using 3(4,5) s2 p(3) by (auto simp: same_pool_def)
  obtain c p4 b where "mpool_get n False p3 = Some (Some c, p4)" "pool_ok p4" "bkts p4 c = Some b" "b_page b = seen p3 n" "\<And>j. seen p4 j = seen p3 j"
    using get_succeeds [OF 3(2) s3(3,1,2), of n False] by auto
  thus ?thesis using 1 2 3 by auto
qed

text \<open>\<open>mpool_new\<close> gives a page of its own number that was not cached; nothing else that is seen changes.\<close>

lemma mpool_new_spec:
  assumes p: "pool_ok p" "io_ok p" "curcache p + 1 < 2 ^ 32" "npages p \<noteq> MAX_PAGE_NUMBER"
    and n: "n = (case req of Some m \<Rightarrow> m | None \<Rightarrow> npages p)" "\<And>a b. entry p a b \<Longrightarrow> b_pgno b \<noteq> n"
  shows "\<exists>r q. mpool_new req p = Some (r, q) \<and> pool_ok q \<and> pins_stay p q \<and> (\<forall>m. m \<noteq> n \<longrightarrow> seen q m = seen p m)
    \<and> (case r of None \<Rightarrow> fails p \<and> npages q = npages p
       | Some (a, k) \<Rightarrow> k = n \<and> npages q = npages p + 1 \<and> (\<exists>b. entry q a b \<and> b_pgno b = n \<and> b_pinned b))"
proof -
  from mpool_bkt_result [OF p(1-3)] obtain x p1 where x: "mpool_bkt p = Some (x, p1)" "bkt_result p x p1" by blast
  have B: "same_pool p p1" "pins_stay p p1" "pages_ok p1" "\<And>n. seen p1 n = seen p n"
    "\<And>c b. entry p1 c b \<Longrightarrow> \<exists>b0. entry p c b0 \<and> b_pgno b0 = b_pgno b"
    using x(2) by (simp_all add: bkt_result_def)
  have np: "npages p1 = npages p" using B(1) by (simp add: same_pool_def)
  show ?thesis
  proof (cases x)
    case None
    hence "mpool_new req p = Some (None, p1)" using x(1) p(4) by (simp add: mpool_new_def)
    thus ?thesis using x(2) None np by (auto simp: bkt_result_def pool_ok_def)
  next
    case (Some a)
    obtain b where b: "queues_ok {a} p1" "bkts p1 a = Some b" "length (b_page b) = pagesize p1"
      using x(2) Some by (auto simp: bkt_result_def)
    define p2 where "p2 = p1\<lparr>npages := npages p1 + 1\<rparr>"
    define b' where "b' = b\<lparr>b_pgno := n, b_dirty := False, b_pinned := True, b_inuse := True\<rparr>"
    define r where "r = enqueued a b' (upd_bkt a (\<lambda>_. b') p2)"
    have e2: "entry p2 c y = entry p1 c y" for c y by (simp add: p2_def entry_def)
    have st2: "stored p2 m = stored p1 m" for m by (rule stored_cong) (simp_all add: p2_def)
    have P2: "pages_ok p2" by (rule pages_ok_cong [OF B(3)]) (use B(3) e2 in \<open>auto simp: p2_def pages_ok_def\<close>)
    have Q2: "queues_ok {a} p2" by (rule queues_ok_cong [OF b(1)]) (simp_all add: p2_def)
    have S2: "seen p2 m = seen p m" for m
      using seen_cong [OF B(3) P2 st2, of m] B(4) by (simp only: e2)
    have ok: "page_ok p2 b'" using b(3) by (simp add: page_ok_def b'_def p2_def)
    have n2: "bkts p2 a \<noteq> None" using b(2) by (simp add: p2_def)
    have nn: "b_pgno y \<noteq> b_pgno b'" if "entry p2 c y" for c y using that e2 B(5) n(2) by (metis b'_def bkt.select_convs(2) bkt.surjective bkt.update_convs)
    have er: "entry r c y \<longleftrightarrow> entry p1 c y \<or> c = a \<and> y = b'" for c y
      using placed(3) [OF Q2 P2 n2 ok nn] by (simp add: e2 r_def)
    have sr: "seen r m = (if m = b_pgno b' then b_page b' else seen p2 m)" for m
      unfolding r_def by (rule placed(4) [OF Q2 P2 n2 ok nn])
    have "queues_ok {} r" "pages_ok r" unfolding r_def by (rule placed(1,2) [OF Q2 P2 n2 ok nn]; assumption)+
    hence R: "pool_ok r" by (simp add: pool_ok_def)
    have k: "(case req of Some m \<Rightarrow> m | None \<Rightarrow> npages p1) = n" using n(1) np by (simp split: option.splits)
    have G: "mpool_new req p = Some (Some (a, n), r)"
      using x(1) p(4) Some b(2) k
      by (simp add: mpool_new_def Let_def r_def b'_def p2_def enqueue_def enqueued_def upd_bkt_def)
    have pn: "b_pgno b' = n" "b_pinned b'" by (simp_all add: b'_def)
    have "pins_stay p r" using B(2) er by (simp add: pins_stay_def)
    moreover have "seen r m = seen p m" if "m \<noteq> n" for m using sr [of m] S2 pn(1) that by metis
    moreover have "npages r = npages p + 1" using np by (simp add: r_def p2_def)
    ultimately show ?thesis using G R er pn by auto
  qed
qed

text \<open>\<open>mpool_delete\<close> drops a page, and with it what was not written.\<close>

lemma mpool_delete_spec:
  assumes p: "pool_ok p" "bkts p a = Some b"
  shows "\<exists>q. mpool_delete a p = Some q \<and> pool_ok q \<and> curcache q < curcache p
    \<and> (\<forall>m. seen q m = (if m = b_pgno b then stored p m else seen p m))"
proof -
  have q: "pages_ok p" "queues_ok {} p" using p(1) by (simp_all add: pool_ok_def)
  have E: "entry p a b" using p(2) q(2) by (auto simp: entry_def queues_ok_def)
  note d = dequeue_spec [OF q(2) E]
  define p1 where "p1 = dequeued a b p"
  have dl: "distinct (lqh p)" using q(2) by (simp add: queues_ok_def)
  have e1: "entry p1 c x \<longleftrightarrow> c \<noteq> a \<and> entry p c x" for c x by (simp add: p1_def entry_dequeued [OF dl])
  have P1: "pages_ok p1" by (rule pages_ok_cong [OF q(1)]) (use q(1) e1 in \<open>auto simp: p1_def pages_ok_def\<close>)
  have st: "stored p1 m = stored p m" for m by (rule stored_cong) (simp_all add: p1_def)
  have Q1: "queues_ok {a} p1" using d(2) by (simp add: p1_def)
  note f = freed [OF Q1 P1]
  have inj: "c = a" if "entry p c x" "b_pgno x = b_pgno b" for c x using that q(1) E unfolding pages_ok_def by blast
  have S: "seen p1 m = (if m = b_pgno b then stored p m else seen p m)" for m
  proof (cases "m = b_pgno b")
    case True
    have "seen p1 m = stored p1 m" by (rule seen_stored) (use e1 inj True in blast)
    thus ?thesis using st True by simp
  next
    case False
    have "seen p1 m = seen p m"
    proof (rule seen_eqI [OF q(1) P1])
      fix c x assume "entry p c x" "b_pgno x = m"
      moreover hence "c \<noteq> a" using False entry_unique [OF E] by auto
      ultimately show "(\<exists>a' b''. entry p1 a' b'' \<and> b_pgno b'' = m \<and> b_page b'' = b_page x) \<or>
          (\<forall>a' b''. entry p1 a' b'' \<longrightarrow> b_pgno b'' \<noteq> m) \<and> stored p1 m = b_page x" using e1 by metis
    next
      assume "\<And>c x. entry p c x \<Longrightarrow> b_pgno x \<noteq> m"
      thus "(\<exists>a' b''. entry p1 a' b'' \<and> b_pgno b'' = m \<and> b_page b'' = stored p m) \<or>
          (\<forall>a' b''. entry p1 a' b'' \<longrightarrow> b_pgno b'' \<noteq> m) \<and> stored p1 m = stored p m" using e1 st by auto
    qed
    thus ?thesis using False by simp
  qed
  have g: "mpool_delete a p = Some (free_bkt a p1)" using d(1) by (simp add: mpool_delete_def p1_def)
  have c: "curcache (free_bkt a p1) < curcache p"
  proof -
    have "0 < card (dom (bkts p))" using q(2) p(2) card_gt_0_iff by (fastforce simp: queues_ok_def)
    thus ?thesis using q(2) by (auto simp: free_bkt_def pg_dec_def p1_def queues_ok_def mod_if)
  qed
  show ?thesis using g f(1,2) c by (auto simp: pool_ok_def f(4) S)
qed

subsection \<open>A pool\<close>

lemma opened_pool_ok:
  assumes "mpool_open f psz maxc io mem fs = Some p" "psz dvd length f"
  shows "pool_ok p"
  using assms
  by (auto simp: mpool_open_def pool_ok_def queues_ok_def pages_ok_def filters_ok_def entry_def split: if_splits)

definition small_pool :: mpool where
  "small_pool = the (mpool_open ''abcd'' 2 1 (\<lambda>_. None) (\<lambda>_. True) False)"

lemma small_pool_ok: "pool_ok small_pool" "mp_io small_pool = (\<lambda>_. None)" "mp_mem small_pool = (\<lambda>_. True)" "curcache small_pool = 0"
    "pagesize small_pool = 2" "pgout small_pool = None" "maxcache small_pool = 1" "\<not> entry small_pool a b" "lqh small_pool = []"
proof -
  have s: "mpool_open ''abcd'' 2 1 (\<lambda>_. None) (\<lambda>_. True) False = Some small_pool" by (simp add: small_pool_def mpool_open_def)
  show "pool_ok small_pool" by (rule opened_pool_ok [OF s]) simp
  show "mp_io small_pool = (\<lambda>_. None)" "mp_mem small_pool = (\<lambda>_. True)" "curcache small_pool = 0"
    "pagesize small_pool = 2" "pgout small_pool = None" "maxcache small_pool = 1" "\<not> entry small_pool a b" "lqh small_pool = []"
    by (simp_all add: small_pool_def mpool_open_def entry_def)
qed

text \<open>The pool after page 1 was asked for: its bucket is the first.\<close>

definition held_pool :: mpool where
  "held_pool = snd (the (mpool_get 1 False small_pool))"

lemma held_pool_ok: "pool_ok held_pool" "bkts held_pool 0 = Some \<lparr>b_page = ''cd'', b_pgno = 1, b_dirty = False, b_pinned = True, b_inuse = True\<rparr>"
    "pagesize held_pool = 2" "mp_io held_pool = (\<lambda>_. None)" "curcache held_pool = 1" "fsync_fails held_pool = False" "maxcache held_pool = 1"
proof -
  have g: "mpool_get 1 False small_pool = Some (Some 0, held_pool)"
    by (simp add: held_pool_def small_pool_def mpool_open_def mpool_get_def mpool_look_def mpool_bkt_def new_bkt_def mp_pread_def Let_def
      enqueue_def upd_bkt_def)
  have "io_ok small_pool" by (simp add: io_ok_def small_pool_ok)
  from mpool_get_spec [OF small_pool_ok(1) this, of 1 False] show "pool_ok held_pool"
    by (simp add: g [simplified] small_pool_ok get_result_def)
  show "bkts held_pool 0 = Some \<lparr>b_page = ''cd'', b_pgno = 1, b_dirty = False, b_pinned = True, b_inuse = True\<rparr>"
    "pagesize held_pool = 2" "mp_io held_pool = (\<lambda>_. None)" "curcache held_pool = 1" "fsync_fails held_pool = False" "maxcache held_pool = 1"
    by (simp_all add: held_pool_def small_pool_def mpool_open_def mpool_get_def mpool_look_def mpool_bkt_def new_bkt_def mp_pread_def Let_def
      enqueue_def upd_bkt_def pg_inc_def filter_page_def)
qed

lemma mpool_get_transparent_witness:
  "\<exists>a q b. mpool_get 1 False small_pool = Some (Some a, q) \<and> pool_ok q \<and> bkts q a = Some b \<and> b_pgno b = 1 \<and> b_page b = seen small_pool 1"
  using mpool_get_transparent [of small_pool 1 False] by (auto simp: small_pool_ok)

text \<open>A pool whose first read fails.\<close>

lemma mpool_get_fails_safely_witness:
  "\<exists>q. mpool_get 1 False (small_pool\<lparr>mp_io := [0 \<mapsto> 0]\<rparr>) = Some (None, q) \<and> pool_ok q \<and> (\<forall>m. seen q m = seen small_pool m)"
proof -
  let ?p = "small_pool\<lparr>mp_io := [0 \<mapsto> 0]\<rparr>"
  have h: "pool_ok ?p" "curcache ?p + 1 < 2 ^ 32" "pgout ?p = None" "mp_ops ?p = 0"
    by (rule opened_pool_ok [of "''abcd''" 2 1 "[0 \<mapsto> 0]" "\<lambda>_. True" False])
      (simp_all add: small_pool_ok, simp_all add: small_pool_def mpool_open_def)
  have j: "j = 0" if "mp_io ?p k = Some j" for k j using that by (simp split: if_splits)
  have f: "get_fails 1 ?p" using h(4) by (simp add: get_fails_def page_cached_def reused_bkt_def small_pool_ok)
  have st: "stored ?p m = stored small_pool m" for m by (rule stored_cong) simp_all
  have sn: "seen ?p m = seen small_pool m" for m unfolding seen_def st by (simp cong: option.case_cong)
  obtain r q where r: "mpool_get 1 False ?p = Some (r, q)" "pool_ok q" "\<forall>m. seen q m = seen ?p m" "r = None \<longleftrightarrow> get_fails 1 ?p"
    using mpool_get_fails_safely [of ?p 1 False, OF h(1-3)] j by blast
  show ?thesis using r(1-3) r(4) f unfolding sn by blast
qed
lemma mpool_cache_bounded_witness:
  "\<exists>r q. mpool_get 0 False held_pool = Some (r, q) \<and> length (lqh q) = curcache q \<and> curcache q \<le> 2"
  using mpool_cache_bounded [of held_pool 0 False] by (auto simp: held_pool_ok split: if_splits)

lemma mpool_write_read_witness:
  "\<exists>a p1 p2 k p3 c p4 b. mpool_get 1 False small_pool = Some (Some a, p1) \<and> mpool_put a True (client_write a ''xy'' p1) = Some p2
    \<and> mpool_get 0 False p2 = Some (Some k, p3) \<and> mpool_get 1 False p3 = Some (Some c, p4) \<and> bkts p4 c = Some b \<and> b_page b = ''xy''"
  using mpool_write_read [OF small_pool_ok(1), of "''xy''" 1 0] by (auto simp: small_pool_ok)

lemma held_pool_entry: "entry held_pool a b \<Longrightarrow> a = 0"
  by (simp add: entry_def held_pool_def small_pool_def mpool_open_def mpool_get_def mpool_look_def mpool_bkt_def new_bkt_def mp_pread_def Let_def
      enqueue_def upd_bkt_def pg_inc_def filter_page_def)

text \<open>The same pool after the page was given back changed.\<close>

lemma mpool_sync_reopen_witness:
  "\<exists>p q r. mpool_put 0 True (client_write 0 ''xy'' held_pool) = Some p \<and> mpool_sync p = Some (False, q)
    \<and> mpool_open (mp_file q) (pagesize q) 5 (\<lambda>_. None) (\<lambda>_. True) False = Some r \<and> seen (mpool_filter (pgin q) (pgout q) r) 1 = ''xy''"
proof -
  obtain p where p: "mpool_put 0 True (client_write 0 ''xy'' held_pool) = Some p" "pool_ok p" "\<And>m. seen p m = (if m = 1 then ''xy'' else seen held_pool m)"
      "same_pool held_pool p" "fsync_fails p = False"
    using put_changed [OF held_pool_ok(1,2), of "''xy''"] by (auto simp: held_pool_ok)
  have u: "\<not> unsaved b" if "entry p a b" for a b
    using that p(1) held_pool_entry [of a b] held_pool_ok(2)
    by (auto simp: mpool_put_def client_write_def entry_def upd_bkt_def unsaved_def held_pool_def split: if_splits)
  have "\<And>k. mp_io p k = None" using p(4) by (simp add: same_pool_def held_pool_ok)
  hence "\<exists>q r. mpool_sync p = Some (fsync_fails p, q) \<and> pool_ok q \<and> mpool_open (mp_file q) (pagesize q) 5 (\<lambda>_. None) (\<lambda>_. True) False = Some r
      \<and> (\<forall>n. seen (mpool_filter (pgin q) (pgout q) r) n = seen p n)"
    by (rule mpool_sync_reopen [OF p(2)]) (use u in blast)
  thus ?thesis using p by auto
qed

text \<open>
  The bug: a write that fails leaves the page in the cache as the output filter made it, and marked as holding
  data of the client; here the filter turns the page round.
\<close>

definition turned_pool :: mpool where
  "turned_pool = (mpool_filter (Some (\<lambda>_. rev)) (Some (\<lambda>_. rev)) small_pool)\<lparr>mp_io := [1 \<mapsto> 0]\<rparr>"

lemma failed_write_spoils_page:
  "do { (_, p1) \<leftarrow> mpool_get 1 False turned_pool; p2 \<leftarrow> mpool_put 0 True p1; (e, p3) \<leftarrow> mpool_sync p2;
        b1 \<leftarrow> bkts p1 0; b3 \<leftarrow> bkts p3 0; Some (b_page b1, e, b_page b3) }
   = Some (''dc'', True, ''cd'')"
  by (simp add: turned_pool_def small_pool_def mpool_filter_def mpool_open_def mpool_get_def mpool_look_def mpool_bkt_def new_bkt_def
      mp_pread_def Let_def enqueue_def upd_bkt_def filter_page_def mpool_put_def mpool_sync_def mpool_write_def mp_pwrite_def)

end
