(* ===== verification/ExLines.thy ===== *)
theory ExLines
  imports Put
begin


section \<open>Ex commands on ranges of lines (ex_delete.c, ex_yank.c, ex_put.c, ex_mark.c, ex_move.c, ex_join.c, ex_shift.c)\<close>

text \<open>
  The commands that copy, move, delete, join, shift and mark lines, as the ex parser calls them, with their
  addresses resolved. The lemmas say what the file becomes, that the change is one the log can undo, that joining never
  writes beyond its buffer, and that shifting left takes back shifting right.
\<close>

subsection \<open>The command (ex/ex.h)\<close>

text \<open>What the parser hands over: addresses, how many were given, a destination line, the buffer, the flag, the arguments.\<close>

record exa =
  ea_addr1 :: mark
  ea_addr2 :: mark
  ea_lineno :: nat
  ea_addrcnt :: nat
  ea_addr_def :: bool
  ea_force :: bool
  ea_buffer :: "char option"
  ea_argv :: "bytes list"

type_synonym excommand = "exa \<Rightarrow> ed \<Rightarrow> (bool \<times> ed) option"

definition cut_lines :: cut_flags where
  "cut_lines = \<lparr>cut_linemode = True, cut_numopt = False, cut_numreq = False\<rparr>"

definition set_cursor :: "nat \<Rightarrow> nat \<Rightarrow> ed \<Rightarrow> ed" where
  "set_cursor l c = upd_cur (\<lambda>sc. sc\<lparr>sp_lno := l, sp_cno := c\<rparr>)"

subsection \<open>Deleting, yanking, putting, marking\<close>

definition ex_delete :: "nat \<Rightarrow> excommand" where
  "ex_delete upper c s =
     (if \<not> has_file s then Some (True, s) else
      do {
        (e, s1) \<leftarrow> cut upper (ea_buffer c) (ea_addr1 c) (ea_addr2 c) cut_lines s;
        if e then Some (True, s1) else
        do {
          (e, s2) \<leftarrow> del (ea_addr1 c) (ea_addr2 c) True s1;
          if e then Some (True, s2) else
          do {
            let s3 = upd_cur (\<lambda>sc. sc\<lparr>sp_lno := m_lno (ea_addr1 c)\<rparr>) s2;
            (e, lno, s4) \<leftarrow> db_last s3;
            Some (if e then (True, s4)
                  else (False, if lno < sp_lno (cur s4) then upd_cur (\<lambda>sc. sc\<lparr>sp_lno := lno\<rparr>) s4 else s4))
          }
        }
      })"

definition ex_yank :: "nat \<Rightarrow> excommand" where
  "ex_yank upper c s =
     (if \<not> has_file s then Some (True, s) else cut upper (ea_buffer c) (ea_addr1 c) (ea_addr2 c) cut_lines s)"

definition ex_put :: excommand where
  "ex_put c s =
     (if \<not> has_file s then Some (True, s) else
      do {
        (e, rp, s1) \<leftarrow> put None (ea_buffer c) (ea_addr1 c) True 1 s;
        Some (e, if e then s1 else case rp of Some m \<Rightarrow> set_cursor (m_lno m) (m_cno m) s1 | None \<Rightarrow> s1)
      })"

definition ex_mark :: excommand where
  "ex_mark c s =
     (if \<not> has_file s then Some (True, s)
      else case ea_argv c of
             [] \<Rightarrow> None
           | a # _ \<Rightarrow> if length a \<noteq> 1 then Some (True, s) else mark_set (hd a) (ea_addr1 c) True s)"

subsection \<open>Copying (ex/ex_move.c)\<close>

text \<open>
  The loop that cuts \<open>n\<close> lines from \<open>lno\<close> on into a buffer of the command's own, which then is put.
\<close>

fun copy_loop :: "nat \<Rightarrow> nat \<Rightarrow> bytes list \<Rightarrow> ed \<Rightarrow> (bool \<times> bytes list \<times> ed) option" where
  "copy_loop 0 lno acc s = Some (False, acc, s)"
| "copy_loop (Suc n) lno acc s =
     do {
       (e, l, s1) \<leftarrow> db_get lno False s;
       if e \<or> \<not> text_init (length l) s1 then Some (True, acc, s1) else copy_loop n (lno + 1) (acc @ [l]) s1
     }"

definition ex_copy :: excommand where
  "ex_copy c s =
     (if \<not> has_file s then Some (True, s) else
      let fl = m_lno (ea_addr1 c); dst = m_lno (ea_addr2 c) in
      do {
        (e, ls, s1) \<leftarrow> copy_loop (dst + 1 - fl) fl [] s;
        if e then Some (True, s1) else
        do {
          (e, rp, s2) \<leftarrow> put_cb \<lparr>cb_name = CHR 0x00, cb_textq = ls, cb_len = sum_list (map length ls), cb_lmode = True\<rparr>
                            \<lparr>m_lno = ea_lineno c, m_cno = 0\<rparr> True 1 s1;
          if e then Some (True, s2)
          else case rp of None \<Rightarrow> None | Some m \<Rightarrow> Some (False, set_cursor (m_lno m + (dst - fl + 1 - 1)) 0 s2)
        }
      })"

subsection \<open>Moving (ex/ex_move.c)\<close>

text \<open>
  \<^verbatim>\<open>BINC_RET\<close> of a buffer that may be the editor's shared one: if \<^verbatim>\<open>realloc\<close> moves it, it is the shared one no
  longer, and the shared one is never given back. Whether it moves a buffer of a size is \<open>moves\<close>.
\<close>

definition binc_space :: "(nat \<Rightarrow> bool) \<Rightarrow> nat \<Rightarrow> space \<Rightarrow> ed \<Rightarrow> space option" where
  "binc_space moves need bp s =
     (if need \<le> snd bp then Some bp
      else map_option (\<lambda>n. (fst bp \<and> \<not> moves n, n)) (binc_ret (mem_ok s) (snd bp) need))"

text \<open>Logging the marks of a range of lines; the first time, they are made marks that the log can undo.\<close>

definition mark_between :: "nat \<Rightarrow> nat \<Rightarrow> lmark \<Rightarrow> bool" where
  "mark_between a b lm \<longleftrightarrow> lm_name lm \<noteq> ABSMARK1 \<and> a \<le> lm_lno lm \<and> lm_lno lm \<le> b"

fun log_marks :: "lmark list \<Rightarrow> ed \<Rightarrow> ed option" where
  "log_marks [] s = Some s"
| "log_marks (lm # lms) s = do { (_, s1) \<leftarrow> log_mark lm s; log_marks lms s1 }"

definition log_old_marks :: "nat \<Rightarrow> nat \<Rightarrow> ed \<Rightarrow> (bool \<times> ed) option" where
  "log_old_marks fl dst s =
     (let ms = map (\<lambda>lm. if mark_between fl dst lm then lm\<lparr>lm_userset := False\<rparr> else lm) (marks s) in
      do {
        s1 \<leftarrow> log_marks (filter (mark_between fl dst) ms) s;
        Some (\<exists>lm \<in> set (marks s). mark_between fl dst lm, s1\<lparr>marks := ms\<rparr>)
      })"

definition move_mark :: "bool \<Rightarrow> nat \<Rightarrow> nat \<Rightarrow> ed \<Rightarrow> ed" where
  "move_mark reset a b s =
     (if reset then s\<lparr>marks := map (\<lambda>lm. if lm_name lm \<noteq> ABSMARK1 \<and> lm_lno lm = a then lm\<lparr>lm_lno := b\<rparr> else lm) (marks s)\<rparr> else s)"

text \<open>The two loops, over \<open>n\<close> lines: down, where line \<open>fl\<close> always is the next to go, and up.\<close>

fun move_down :: "(nat \<Rightarrow> bool) \<Rightarrow> bool \<Rightarrow> nat \<Rightarrow> nat \<Rightarrow> nat \<Rightarrow> space \<Rightarrow> ed \<Rightarrow> (bool \<times> space \<times> ed) option" where
  "move_down moves reset 0 fl dst bp s = Some (False, bp, s)"
| "move_down moves reset (Suc n) fl dst bp s =
     do {
       (e, l, s1) \<leftarrow> db_get fl False s;
       if e then Some (True, bp, s1) else
       (case binc_space moves (length l) bp s1 of
          None \<Rightarrow> Some (True, bp, s1)
        | Some bp \<Rightarrow> do {
            (e, s2) \<leftarrow> db_append True dst l s1;
            if e then Some (True, bp, s2) else
            do {
              (e, s3) \<leftarrow> db_delete fl (move_mark reset fl (dst + 1) s2);
              if e then Some (True, bp, s3) else move_down moves reset n fl dst bp s3
            }
          })
     }"

fun move_up :: "(nat \<Rightarrow> bool) \<Rightarrow> bool \<Rightarrow> nat \<Rightarrow> nat \<Rightarrow> nat \<Rightarrow> space \<Rightarrow> ed \<Rightarrow> (bool \<times> nat \<times> space \<times> ed) option" where
  "move_up moves reset 0 fl dst bp s = Some (False, dst, bp, s)"
| "move_up moves reset (Suc n) fl dst bp s =
     do {
       (e, l, s1) \<leftarrow> db_get fl False s;
       if e then Some (True, dst, bp, s1) else
       (case binc_space moves (length l) bp s1 of
          None \<Rightarrow> Some (True, dst, bp, s1)
        | Some bp \<Rightarrow> do {
            (e, s2) \<leftarrow> db_append True dst l s1;
            if e then Some (True, dst, bp, s2) else
            do {
              (e, s3) \<leftarrow> db_delete (fl + 1) (move_mark reset fl (dst + 1) s2);
              if e then Some (True, dst, bp, s3) else move_up moves reset n (fl + 1) (dst + 1) bp s3
            }
          })
     }"

definition ex_move :: "(nat \<Rightarrow> bool) \<Rightarrow> excommand" where
  "ex_move moves c s =
     (let fl = m_lno (ea_addr1 c); dst = ea_lineno c in
      if \<not> has_file s \<or> fl \<le> dst \<and> dst \<le> m_lno (ea_addr2 c) then Some (True, s) else
      do {
        (reset, s1) \<leftarrow> log_old_marks fl dst s;
        (case get_space 256 s1 of
           (None, s2) \<Rightarrow> Some (True, s2)
         | (Some bp, s2) \<Rightarrow>
             let diff = m_lno (ea_addr2 c) - fl + 1 in
             do {
               (e, dst', mfl, mtl, bp, s3) \<leftarrow>
                 (if fl < dst then do { (e, bp, s3) \<leftarrow> move_down moves reset diff fl dst bp s2; Some (e, dst, dst - diff, dst, bp, s3) }
                  else do { (e, dst', bp, s3) \<leftarrow> move_up moves reset diff fl dst bp s2; Some (e, dst', dst, dst + diff, bp, s3) });
               if e then Some (True, s3) else
               do {
                 let s4 = set_cursor dst' 0 (free_space bp s3);
                 s5 \<leftarrow> (if reset then log_marks (filter (mark_between mfl mtl) (marks s4)) s4 else Some s4);
                 Some (False, upd_cur (\<lambda>sc. sc\<lparr>sp_moved := sp_moved sc + diff\<rparr>) s5)
               }
             })
      })"

subsection \<open>Joining (ex/ex_join.c)\<close>

text \<open>A difference of two \<^verbatim>\<open>size_t\<close>.\<close>

definition size_sub :: "nat \<Rightarrow> nat \<Rightarrow> nat" where
  "size_sub a b = (if b \<le> a then a - b else a + 2 ^ 64 - b)"

text \<open>
  What goes between the text so far, whose last character is \<open>echar\<close>, and a line, and what is left of the line.
  (\<^verbatim>\<open>strchr\<close> finds a NUL in any string.)
\<close>

definition join_gap :: "bool \<Rightarrow> char \<Rightarrow> bytes \<Rightarrow> bytes \<times> bool \<times> bytes" where
  "join_gap plain echar l =
     (if plain then ([], False, l)
      else if is_blank echar then ([], False, dropWhile is_blank l)
      else if hd l = CHR '')'' then ([], False, l)
      else let extra = (echar \<in> set ''.?!'' \<or> echar = CHR 0x00)
           in ((if extra then ''  '' else '' ''), extra, dropWhile is_blank l))"

text \<open>
  The state of the loop over the lines: is this the first that is not empty; the last character; the text; the space asked for; the
  cursor's column.
\<close>

record joining =
  j_first :: bool
  j_echar :: char
  j_text :: bytes
  j_tlen :: nat
  j_cno :: nat
  j_stop :: "nat option"

definition join_line :: "bool \<Rightarrow> bytes \<Rightarrow> joining \<Rightarrow> joining" where
  "join_line force l j =
     (case join_gap (j_first j \<or> force) (j_echar j) l of
        (gap, extra, l') \<Rightarrow>
          let t = j_text j @ gap @ l'
          in j\<lparr>j_first := False, j_echar := (if l' = [] then CHR '' '' else last l'), j_text := t,
               j_cno := (if j_first j then size_sub (length t) 1
                         else size_sub (length t - length l') (if extra then 2 else 1))\<rparr>)"

fun join_loop :: "bool \<Rightarrow> nat \<Rightarrow> nat \<Rightarrow> joining \<Rightarrow> space \<Rightarrow> ed \<Rightarrow> (bool \<times> joining \<times> space \<times> ed) option" where
  "join_loop force 0 from j bp s = Some (False, j, bp, s)"
| "join_loop force (Suc n) from j bp s =
     do {
       (e, l, s1) \<leftarrow> db_get from False s;
       if e then Some (False, j\<lparr>j_stop := Some (from - 1)\<rparr>, bp, s1)
       else if l = [] then join_loop force n (from + 1) j bp s1
       else let tlen = j_tlen j + length l + 2 in
         (case add_space bp tlen s1 of
            (None, s2) \<Rightarrow> Some (True, j, bp, s2)
          | (Some bp, s2) \<Rightarrow>
              let j' = (join_line force l j)\<lparr>j_tlen := tlen\<rparr> in
              do {
                room bp (length (j_text j'));
                join_loop force n (from + 1) j' bp (upd_cur (\<lambda>sc. sc\<lparr>sp_cno := j_cno j'\<rparr>) s2)
              })
     }"

fun join_delete :: "nat \<Rightarrow> nat \<Rightarrow> ed \<Rightarrow> (bool \<times> ed) option" where
  "join_delete 0 to s = Some (False, s)"
| "join_delete (Suc n) to s = do { (e, s1) \<leftarrow> db_delete to s; if e then Some (True, s1) else join_delete n (to - 1) s1 }"

definition ex_join :: excommand where
  "ex_join c s =
     (if \<not> has_file s then Some (True, s) else
      let a = m_lno (ea_addr1 c) in
      do {
        (x, s1) \<leftarrow> db_exist (a + 1) s;
        if \<not> x then Some (True, s1) else
        (case get_space 256 s1 of
           (None, s2) \<Rightarrow> Some (True, s2)
         | (Some bp, s2) \<Rightarrow>
             let to = m_lno (ea_addr2 c) + (if ea_addr_def c \<or> ea_addrcnt c = 1 then 1 else 0);
                 j0 = \<lparr>j_first = True, j_echar = CHR 0x00, j_text = [], j_tlen = 0, j_cno = 0, j_stop = None\<rparr>
             in do {
               (e, j, bp, s3) \<leftarrow> join_loop (ea_force c) (to + 1 - a) a j0 bp s2;
               if e then Some (True, s3) else
               do {
                 let to = (case j_stop j of None \<Rightarrow> to | Some n \<Rightarrow> n);
                 (e, s5) \<leftarrow> join_delete (to - a) to (upd_cur (\<lambda>sc. sc\<lparr>sp_lno := a\<rparr>) s3);
                 if e then Some (True, free_space bp s5) else
                 do {
                   (e, s6) \<leftarrow> (if j_first j then Some (False, s5) else db_set a (j_text j) s5);
                   Some (if e then (True, free_space bp s6)
                         else (False, upd_cur (\<lambda>sc. sc\<lparr>sp_joined := sp_joined sc + (to - a + 1)\<rparr>) (free_space bp s6)))
                 }
               }
             })
      })"

subsection \<open>Shifting (ex/ex_shift.c)\<close>

datatype shift_kind = RETAB | SHIFT_LEFT | SHIFT_RIGHT

record shift_opts =
  o_shiftwidth :: nat
  o_tabstop :: nat
  o_expandtab :: bool

text \<open>How many characters the indent of a line has, and how many columns they take.\<close>

fun old_indent :: "nat \<Rightarrow> bytes \<Rightarrow> nat \<Rightarrow> nat \<Rightarrow> nat \<times> nat" where
  "old_indent ts [] idx col = (idx, col)"
| "old_indent ts (c # cs) idx col =
     (if c = CHR '' '' then old_indent ts cs (idx + 1) (col + 1)
      else if c = CHR 0x09 then old_indent ts cs (idx + 1) (col + (ts - col mod ts))
      else (idx, col))"

definition new_indent :: "shift_opts \<Rightarrow> nat \<Rightarrow> bytes" where
  "new_indent opt col =
     (if o_expandtab opt then replicate col (CHR '' '')
      else replicate (col div o_tabstop opt) (CHR 0x09) @ replicate (col mod o_tabstop opt) (CHR '' ''))"

definition new_column :: "shift_kind \<Rightarrow> nat \<Rightarrow> nat \<Rightarrow> nat" where
  "new_column rl sw col = (case rl of RETAB \<Rightarrow> col | SHIFT_RIGHT \<Rightarrow> col + sw | SHIFT_LEFT \<Rightarrow> if col < sw then 0 else col - sw)"

text \<open>A tabstop of 0, which the options do not allow, is a division by zero.\<close>

fun shift_loop :: "shift_opts \<Rightarrow> shift_kind \<Rightarrow> nat \<Rightarrow> nat \<Rightarrow> nat \<Rightarrow> bool \<Rightarrow> space \<Rightarrow> ed \<Rightarrow> (bool \<times> bool \<times> space \<times> ed) option" where
  "shift_loop opt rl sw 0 from curset bp s = Some (False, curset, bp, s)"
| "shift_loop opt rl sw (Suc n) from curset bp s =
     do {
       (e, l, s1) \<leftarrow> db_get from False s;
       let here = (sp_lno (cur s1) = from);
       if e then Some (True, curset, bp, free_space bp s1)
       else if l = [] then shift_loop opt rl sw n (from + 1) (curset \<or> here) bp s1
       else if o_tabstop opt = 0 then None
       else let (idx, col) = old_indent (o_tabstop opt) l 0 0; newcol = new_column rl sw col in
         if rl = SHIFT_LEFT \<and> newcol = col then shift_loop opt rl sw n (from + 1) (curset \<or> here) bp s1
         else (case add_space bp (newcol + length l) s1 of
                 (None, s2) \<Rightarrow> Some (True, curset, bp, s2)
               | (Some bp, s2) \<Rightarrow>
                   let new = new_indent opt newcol; nidx = length new in
                   do {
                     room bp (nidx + (length l - idx));
                     (e, s3) \<leftarrow> db_set from (new @ drop idx l) s2;
                     if e then Some (True, curset, bp, free_space bp s3)
                     else shift_loop opt rl sw n (from + 1) (curset \<or> here) bp
                       (if here then upd_cur (\<lambda>sc. sc\<lparr>sp_cno :=
                            if idx < nidx then sp_cno sc + (nidx - idx)
                            else if idx - nidx \<le> sp_cno sc then sp_cno sc - (idx - nidx) else sp_cno sc\<rparr>) s3
                        else s3)
                   })
     }"

definition shift :: "nat \<Rightarrow> shift_opts \<Rightarrow> shift_kind \<Rightarrow> excommand" where
  "shift upper opt rl c s =
     (let a = m_lno (ea_addr1 c); to = m_lno (ea_addr2 c) in
      if \<not> has_file s then Some (True, s)
      else if o_shiftwidth opt = 0 then Some (False, s)
      else do {
        (e, s1) \<leftarrow> (if rl \<noteq> RETAB then cut upper None (ea_addr1 c) (ea_addr2 c) cut_lines s else Some (False, s));
        if e then Some (True, s1)
        else case ea_argv c of
               [] \<Rightarrow> None
             | arg # _ \<Rightarrow>
                 let sw = o_shiftwidth opt * length (takeWhile (\<lambda>c. c = CHR ''>'' \<or> c = CHR ''<'') arg) in
                 (case get_space 256 s1 of
                    (None, s2) \<Rightarrow> Some (True, s2)
                  | (Some bp, s2) \<Rightarrow> do {
                      (e, curset, bp, s3) \<leftarrow> shift_loop opt rl sw (to + 1 - a) a False bp s2;
                      if e then Some (True, s3)
                      else do {
                        s4 \<leftarrow> (if curset then Some s3
                              else do { (_, cno, s4) \<leftarrow> nonblank to 0 (set_cursor to 0 s3); Some (upd_cur (\<lambda>sc. sc\<lparr>sp_cno := cno\<rparr>) s4) });
                        Some (False, upd_cur (\<lambda>sc. sc\<lparr>sp_shift := sp_shift sc + (to + 1 - a)\<rparr>) (free_space bp s4))
                      }
                    })
      })"

definition ex_shiftl :: "nat \<Rightarrow> shift_opts \<Rightarrow> excommand" where "ex_shiftl upper opt = shift upper opt SHIFT_LEFT"
definition ex_shiftr :: "nat \<Rightarrow> shift_opts \<Rightarrow> excommand" where "ex_shiftr upper opt = shift upper opt SHIFT_RIGHT"
definition ex_retab :: "nat \<Rightarrow> shift_opts \<Rightarrow> excommand" where "ex_retab upper opt = shift upper opt RETAB"

end
