(* ===== verification/ExMove.thy ===== *)
theory ExMove
  imports ExLines
begin

section \<open>Deleting, copying and moving lines\<close>

text \<open>
  What the commands of \<open>ExLines\<close> that move whole lines do to the file, as edits the log can undo.
\<close>


subsection \<open>What a command does to the file\<close>

text \<open>
  \<open>edits s ls s'\<close>: by recorded edits the lines have become \<open>ls\<close>; the cursor and the buffers may be others.
\<close>

definition edits :: "ed \<Rightarrow> bytes list \<Rightarrow> ed \<Rightarrow> bool" where
  "edits s ls s' \<longleftrightarrow> editing s' \<and> (text_ok s \<longrightarrow> text_ok s') \<and> evolves s s' \<and> lines s' = ls"

lemma edits_refl: "editing s \<Longrightarrow> edits s (lines s) s"
  by (simp add: edits_def)

lemma edits_trans: "edits s ls s' \<Longrightarrow> edits s' ls' s'' \<Longrightarrow> edits s ls' s''"
  using evolves_trans [of s s' s''] by (simp add: edits_def)

lemma becomes_edits: "becomes s ls s' \<Longrightarrow> edits s ls s'"
  by (simp add: becomes_def edits_def)

lemma rebuffers_edits: "rebuffers s s' \<Longrightarrow> edits s (lines s) s'"
  by (simp add: rebuffers_def edits_def)

lemma editsD: "edits s ls s' \<Longrightarrow> editing s'" "edits s ls s' \<Longrightarrow> lines s' = ls" "edits s ls s' \<Longrightarrow> text_ok s \<Longrightarrow> text_ok s'"
  by (simp_all add: edits_def)

lemma edits_becomes: "edits s ls s' \<Longrightarrow> becomes s' ls' s'' \<Longrightarrow> edits s ls' s''"
  by (blast intro: edits_trans becomes_edits)

lemma edits_upd_cur:
  assumes "edits s ls s'" "\<And>c. screen_ok (f c) = screen_ok c" "\<And>c. sp_tinput (f c) = sp_tinput c" "\<And>c. sp_ex (f c) = sp_ex c"
  shows "edits s ls (upd_cur f s')"
proof -
  have e: "editing s'" "lines s' = ls" using assms(1) by (simp_all add: edits_def)
  have ok: "screens_ok (upd_cur f s')" using editingD(2) [OF e(1)] assms(2-4) by (simp add: screens_ok_def)
  have tx: "text_ok (upd_cur f s') = text_ok s'" by (simp add: text_ok_def)
  have lg: "same_log s' (upd_cur f s')" by (simp add: same_log_def)
  have "log_ready (upd_cur f s')" using editingD(3) [OF e(1)] same_log_view(5) [OF lg] by (simp add: log_ready_def)
  moreover have "evolves s' (upd_cur f s')" by (rule same_event) (use e(1) ok tx lg in \<open>simp_all add: editing_def\<close>)
  ultimately have "edits s' ls (upd_cur f s')" using e ok tx by (simp add: edits_def editing_def)
  thus ?thesis by (rule edits_trans [OF assms(1)])
qed

lemma screen_ok_counts [simp]:
  "screen_ok (c\<lparr>sp_moved := n\<rparr>) = screen_ok c" "screen_ok (c\<lparr>sp_joined := n\<rparr>) = screen_ok c" "screen_ok (c\<lparr>sp_shift := n\<rparr>) = screen_ok c"
  by (simp_all add: screen_ok_def)

lemma edits_set_cursor: "edits s ls s' \<Longrightarrow> edits s ls (set_cursor l c s')"
  unfolding set_cursor_def by (rule edits_upd_cur) simp_all

text \<open>
  What one command has changed is one event for the undo command: when the main loop has logged the cursor after it,
  \<^verbatim>\<open>u\<close> restores every line and the cursor.
\<close>

lemma edits_undone:
  assumes h: "history s ls past future" and t: "text_ok s" and e: "edits s ls' s'" and d: "ls' \<noteq> lines s" and c: "sp_lno (cur s') \<noteq> 0"
  shows "\<exists>s1 s2. log_cursor s' = Some (False, s1) \<and> u_key False s1 = Some (False, s2) \<and> lines s2 = lines s \<and> cursor_of s2 = l_cursor s"
proof -
  obtain fs where fs: "in_event s' ls past (l_cursor s) fs"
    using event_starts [OF h t] e unfolding edits_def evolves_def by fastforce
  have l0: "lines s = tl.dos past ls" using event_starts [OF h t] by (simp add: in_event_def)
  have "fs \<noteq> []" using fs e d l0 by (auto simp: in_event_def edits_def)
  from event_ends [OF fs this c] obtain s1 where s1: "log_cursor s' = Some (False, s1)"
    "history s1 ls (past @ [(l_cursor s, fs, cursor_of s')]) []" "\<not> f_undo s1" "lines s1 = lines s'" by blast
  have c1: "sp_lno (cur s1) \<noteq> 0"
  proof -
    obtain x where "log_cursor s' = Some x" using s1(1) by blast
    have b: "base s'" "recording s'" using fs by (simp_all add: in_event_def)
    obtain t where "log_cursor s' = Some (False, t)" "logs s' t"
      using log_cursor_spec [OF base_mem [OF b(1)] b(2) c] by blast
    thus ?thesis using s1(1) c logs_fields(13) [of s' s1] by simp
  qed
  have "undoing False s1" using s1(3) by (simp add: undoing_def)
  from u_key_back [OF s1(2) c1 this] obtain s2 where s2: "u_key False s1 = Some (False, s2)"
    "history s2 ls past [(l_cursor s, fs, cursor_of s')]" "cursor_of s2 = l_cursor s" by blast
  have "lines s2 = tl.dos past ls" using historyD [OF s2(2)] by (simp add: history_def)
  thus ?thesis using s1(1) s2 l0 by auto
qed

subsection \<open>Deleting and copying\<close>

lemma ex_delete_spec:
  assumes e: "editing s" "text_ok s" and r: "0 < m_lno (ea_addr1 c)" "m_lno (ea_addr1 c) \<le> m_lno (ea_addr2 c)" "m_lno (ea_addr2 c) \<le> length (lines s)"
    and u: "\<And>nm. ea_buffer c = Some nm \<Longrightarrow> is_upper nm \<Longrightarrow> upper = 1"
  defines "ls \<equiv> take (m_lno (ea_addr1 c) - 1) (lines s) @ drop (m_lno (ea_addr2 c)) (lines s)"
  shows "\<exists>s'. ex_delete upper c s = Some (False, s') \<and> edits s ls s' \<and> sp_lno (cur s') = min (m_lno (ea_addr1 c)) (length ls)"
proof -
  let ?a = "ea_addr1 c" and ?b = "ea_addr2 c"
  have hf: "has_file s" using editingD(1) [OF e(1)] by (simp add: base_def)
  have ro: "range_ok (cut_linemode cut_lines) ?a ?b (lines s)" using r by (simp add: range_ok_def cut_lines_def)
  have "\<exists>s1 cb. cut upper (ea_buffer c) ?a ?b cut_lines s = Some (False, s1) \<and> rebuffers s s1 \<and>
      cb_at (dcbp s1) s1 = Some cb \<and> cb_textq cb = range_text (cut_linemode cut_lines) ?a ?b (lines s) \<and> cb_lmode cb = cut_linemode cut_lines"
    by (rule cut_default_lines [OF e ro]) (rule u)
  then obtain s1 where s1: "cut upper (ea_buffer c) ?a ?b cut_lines s = Some (False, s1)" "rebuffers s s1" by (elim exE conjE) (rule that)
  note b1 = rebuffers_edits [OF s1(2)]
  have p: "m_lno ?a \<le> m_lno ?b + 1" "m_lno ?b \<le> length (lines s1)" using r editsD(2) [OF b1] by simp_all
  obtain s2 where s2: "del ?a ?b True s1 = Some (False, s2)" "becomes s1 (take (m_lno ?a - 1) (lines s1) @ drop (m_lno ?b) (lines s1)) s2"
    using del_lines_mode [OF editsD(1) [OF b1] r(1) p] by blast
  have b2: "edits s ls s2" using edits_becomes [OF b1 s2(2)] editsD(2) [OF b1] by (simp add: ls_def)
  let ?s3 = "upd_cur (\<lambda>sc. sc\<lparr>sp_lno := m_lno ?a\<rparr>) s2"
  have b3: "edits s ls ?s3" by (rule edits_upd_cur [OF b2]) simp_all
  obtain s4 where s4: "db_last ?s3 = Some (False, length (lines ?s3), s4)" "keeps ?s3 s4"
    using db_last_base [OF editingD(1,4) [OF editsD(1) [OF b3]]] by blast
  have c4: "cur s4 = cur ?s3" using reads_fields [OF keepsD(2) [OF s4(2)]] by simp
  have b4: "edits s ls s4" using edits_becomes [OF b3 keeps_becomes [OF s4(2) editsD(1) [OF b3]]] editsD(2) [OF b3] by simp
  have l3: "length (lines ?s3) = length ls" using editsD(2) [OF b3] by simp
  let ?s5 = "if length ls < sp_lno (cur s4) then upd_cur (\<lambda>sc. sc\<lparr>sp_lno := length ls\<rparr>) s4 else s4"
  have "edits s ls ?s5" using b4 edits_upd_cur [OF b4, of "\<lambda>sc. sc\<lparr>sp_lno := length ls\<rparr>"] by simp
  moreover have "sp_lno (cur ?s5) = min (m_lno ?a) (length ls)" using c4 by simp
  moreover have "ex_delete upper c s = Some (False, ?s5)"
    using hf s1(1) s2(1) s4(1) l3 by (simp add: ex_delete_def Let_def)
  ultimately show ?thesis by blast
qed

lemma copy_loop_spec:
  assumes "editing s" "text_ok s" "0 < lno" "lno + n \<le> length (lines s) + 1"
  shows "\<exists>s'. copy_loop n lno acc s = Some (False, acc @ take n (drop (lno - 1) (lines s)), s') \<and> becomes s (lines s) s'"
  using assms
proof (induction n arbitrary: lno acc s)
  case 0
  thus ?case using becomes_refl by simp
next
  case (Suc n)
  have n: "0 < lno" "lno \<le> length (lines s)" using Suc.prems(3,4) by auto
  obtain s1 where s1: "db_get lno False s = Some (False, lines s ! (lno - 1), s1)" "becomes s (lines s) s1"
    using db_get_becomes [OF Suc.prems(1) n Suc.prems(2)] by blast
  note b = becomesD [OF s1(2)]
  have ti: "text_init (length (lines s ! (lno - 1))) s1" using text_init_ok editingD(1) [OF b(1)] by blast
  obtain s' where s': "copy_loop n (lno + 1) (acc @ [lines s ! (lno - 1)]) s1 =
      Some (False, (acc @ [lines s ! (lno - 1)]) @ take n (drop (lno + 1 - 1) (lines s1)), s')" "becomes s1 (lines s1) s'"
    using Suc.IH [OF b(1) b(3) [OF Suc.prems(2)], of "lno + 1" "acc @ [lines s ! (lno - 1)]"] Suc.prems(4) b(2) by auto
  have "drop (lno - 1) (lines s) = lines s ! (lno - 1) # drop lno (lines s)" using Cons_nth_drop_Suc [of "lno - 1" "lines s"] n by simp
  hence "take (Suc n) (drop (lno - 1) (lines s)) = lines s ! (lno - 1) # take n (drop lno (lines s))" by (simp only: take_Suc_Cons)
  moreover have "becomes s (lines s) s'" using becomes_trans [OF s1(2) s'(2)] b(2) by simp
  ultimately show ?case using s1(1) ti s'(1) b(2) by simp
qed

lemma ex_copy_spec:
  assumes e: "editing s" "text_ok s" and r: "0 < m_lno (ea_addr1 c)" "m_lno (ea_addr1 c) \<le> m_lno (ea_addr2 c)" "m_lno (ea_addr2 c) \<le> length (lines s)"
    and d: "ea_lineno c \<le> length (lines s)"
  defines "blk \<equiv> take (m_lno (ea_addr2 c) + 1 - m_lno (ea_addr1 c)) (drop (m_lno (ea_addr1 c) - 1) (lines s))"
  shows "\<exists>s'. ex_copy c s = Some (False, s') \<and>
    edits s (take (ea_lineno c) (lines s) @ blk @ drop (ea_lineno c) (lines s)) s' \<and>
    sp_lno (cur s') = ea_lineno c + length blk \<and> sp_cno (cur s') = 0"
proof -
  let ?a = "m_lno (ea_addr1 c)" and ?b = "m_lno (ea_addr2 c)" and ?d = "ea_lineno c"
  have hf: "has_file s" using editingD(1) [OF e(1)] by (simp add: base_def)
  obtain s1 where s1: "copy_loop (?b + 1 - ?a) ?a [] s = Some (False, blk, s1)" "becomes s (lines s) s1"
    using copy_loop_spec [OF e r(1), of "?b + 1 - ?a" "[]"] r by (auto simp: blk_def)
  note b1 = becomesD [OF s1(2)]
  let ?cb = "\<lparr>cb_name = CHR 0x00, cb_textq = blk, cb_len = sum_list (map length blk), cb_lmode = True\<rparr>"
  have l0: "?d = (if lines s1 = [] \<and> m_lno \<lparr>m_lno = ?d, m_cno = 0\<rparr> = 1 then 0 else if True then m_lno \<lparr>m_lno = ?d, m_cno = 0\<rparr> else m_lno \<lparr>m_lno = ?d, m_cno = 0\<rparr> - 1)"
    using d b1(2) r by auto
  have lm: "cb_lmode ?cb" and len: "?d \<le> length (lines s1)" using d b1(2) by simp_all
  obtain rp s2 where s2: "put_cb ?cb \<lparr>m_lno = ?d, m_cno = 0\<rparr> True 1 s1 = Some (False, Some rp, s2)" "m_lno rp = ?d + 1"
      "becomes s1 (take ?d (lines s1) @ concat (replicate 1 (cb_textq ?cb)) @ drop ?d (lines s1)) s2"
    using put_cb_lines [OF b1(1) lm l0 len, of 1] by blast
  have b2: "edits s (take ?d (lines s) @ blk @ drop ?d (lines s)) s2"
    using edits_becomes [OF becomes_edits [OF s1(2)] s2(3)] b1(2) by simp
  let ?s3 = "set_cursor (m_lno rp + (?b - ?a + 1 - 1)) 0 s2"
  have "ex_copy c s = Some (False, ?s3)" using hf s1(1) s2(1) by (simp add: ex_copy_def Let_def)
  moreover have "edits s (take ?d (lines s) @ blk @ drop ?d (lines s)) ?s3" by (rule edits_set_cursor [OF b2])
  moreover have "length blk = ?b - ?a + 1" using r by (simp add: blk_def)
  hence "sp_lno (cur ?s3) = ?d + length blk" "sp_cno (cur ?s3) = 0" using s2(2) by (simp_all add: set_cursor_def)
  ultimately show ?thesis by blast
qed

subsection \<open>Moving\<close>

text \<open>
  Marks that are logged outside the change of a line are not part of what the theory of undo describes as an event, so
  a move of lines with marks on them is shown to be one event only when there are none: \<open>b\<close> says so.
\<close>

definition shifts_to :: "bool \<Rightarrow> ed \<Rightarrow> bytes list \<Rightarrow> ed \<Rightarrow> bool" where
  "shifts_to b s ls s' \<longleftrightarrow> editing s' \<and> (text_ok s \<longrightarrow> text_ok s') \<and> (b \<longrightarrow> evolves s s') \<and> lines s' = ls"

lemma edits_shifts: "edits s ls s' \<Longrightarrow> shifts_to b s ls s'"
  by (simp add: edits_def shifts_to_def)

lemma shifts_refl: "editing s \<Longrightarrow> shifts_to b s (lines s) s"
  by (simp add: shifts_to_def)

lemma shifts_trans: "shifts_to b s ls s' \<Longrightarrow> shifts_to b s' ls' s'' \<Longrightarrow> shifts_to b s ls' s''"
  using evolves_trans [of s s' s''] by (simp add: shifts_to_def)

lemma shiftsD: "shifts_to b s ls s' \<Longrightarrow> editing s'" "shifts_to b s ls s' \<Longrightarrow> lines s' = ls" "shifts_to b s ls s' \<Longrightarrow> text_ok s \<Longrightarrow> text_ok s'"
  by (simp_all add: shifts_to_def)

lemma shifts_becomes: "shifts_to b s ls s' \<Longrightarrow> becomes s' ls' s'' \<Longrightarrow> shifts_to b s ls' s''"
  by (blast intro: shifts_trans edits_shifts becomes_edits)

lemma marks_shifts: "editing s \<Longrightarrow> shifts_to False s (lines s) (s\<lparr>marks := ms\<rparr>)"
  using same_log_view(5) [of s "s\<lparr>marks := ms\<rparr>"]
  by (simp add: shifts_to_def editing_def base_def count_ok_def screens_ok_def text_ok_def log_ready_def same_log_def)

lemma log_mark_shifts:
  assumes "editing s"
  shows "\<exists>s'. log_mark lm s = Some (False, s') \<and> shifts_to False s (lines s) s' \<and> marks s' = marks s \<and> cur s' = cur s"
proof (cases "f_nolog s")
  case True thus ?thesis using shifts_refl [OF assms] by (simp add: log_mark_def)
next
  case False
  hence r: "recording s" using editingD(3) [OF assms] by (simp add: log_ready_def)
  obtain s' where s': "log_mark lm s = Some (False, s')" "base s'" "recording s'" "logs s s'" "same_cache s s'"
    using log_mark_spec [OF editingD(1) [OF assms] r] by blast
  note f = logs_fields [OF s'(4)]
  have "screens_ok s'" using editingD(2) [OF assms] logs_screens [OF s'(4)] by simp
  hence "editing s'" using assms s'(2,3) f(7,21) same_cache_text [OF s'(5) f(2)] by (auto simp: editing_def log_ready_def)
  thus ?thesis using s'(1) f(2,4,13) same_cache_text [OF s'(5) f(2)] by (simp add: shifts_to_def)
qed

lemma log_marks_shifts:
  assumes "editing s"
  shows "\<exists>s'. log_marks lms s = Some s' \<and> shifts_to False s (lines s) s' \<and> marks s' = marks s \<and> cur s' = cur s"
  using assms
proof (induction lms arbitrary: s)
  case Nil thus ?case using shifts_refl by simp
next
  case (Cons lm lms)
  obtain s1 where s1: "log_mark lm s = Some (False, s1)" "shifts_to False s (lines s) s1" "marks s1 = marks s" "cur s1 = cur s"
    using log_mark_shifts [OF Cons.prems] by blast
  obtain s' where "log_marks lms s1 = Some s'" "shifts_to False s1 (lines s1) s'" "marks s' = marks s1" "cur s' = cur s1"
    using Cons.IH [OF shiftsD(1) [OF s1(2)]] by blast
  thus ?case using s1 shifts_trans [of False s "lines s" s1 "lines s1" s'] shiftsD(2) [OF s1(2)] by auto
qed

lemma log_old_marks_shifts:
  assumes "editing s"
  shows "\<exists>s'. log_old_marks a b s = Some (\<exists>lm \<in> set (marks s). mark_between a b lm, s') \<and>
    shifts_to (\<not> (\<exists>lm \<in> set (marks s). mark_between a b lm)) s (lines s) s' \<and> cur s' = cur s"
proof (cases "\<exists>lm \<in> set (marks s). mark_between a b lm")
  case False
  hence m: "map (\<lambda>lm. if mark_between a b lm then lm\<lparr>lm_userset := False\<rparr> else lm) (marks s) = marks s"
    by (intro map_idI) auto
  have f: "filter (mark_between a b) (marks s) = []" using False by (simp add: filter_empty_conv)
  have "log_old_marks a b s = Some (False, s)" using False unfolding log_old_marks_def m Let_def f by simp
  thus ?thesis using shifts_refl [OF assms] False by auto
next
  case True
  let ?ms = "map (\<lambda>lm. if mark_between a b lm then lm\<lparr>lm_userset := False\<rparr> else lm) (marks s)"
  obtain s1 where s1: "log_marks (filter (mark_between a b) ?ms) s = Some s1" "shifts_to False s (lines s) s1" "cur s1 = cur s"
    using log_marks_shifts [OF assms] by blast
  have "log_old_marks a b s = Some (True, s1\<lparr>marks := ?ms\<rparr>)" using True s1(1) by (simp add: log_old_marks_def Let_def)
  thus ?thesis using shifts_trans [OF s1(2) marks_shifts [OF shiftsD(1) [OF s1(2)]]] shiftsD(2) [OF s1(2)] s1(3) True by simp
qed

lemma move_mark_shifts: "editing s \<Longrightarrow> shifts_to (\<not> reset) s (lines s) (move_mark reset a b s)"
  using marks_shifts shifts_refl [of s True] by (cases reset) (auto simp: move_mark_def)

lemma binc_space_ok: "editing s \<Longrightarrow> \<exists>b. binc_space moves n bp s = Some b"
  using binc_ok [OF editingD(1)] by (fastforce simp: binc_space_def)

text \<open>The body of both loops: the line \<open>x\<close> is added after line \<open>d\<close> and deleted where it was, which now is line \<open>k\<close>.\<close>

lemma move_step:
  assumes e: "editing s" "text_ok s" and n: "0 < n" "n \<le> length (lines s)" and d: "d \<le> length (lines s)"
    and k: "0 < k" "k \<le> length (lines s) + 1"
  obtains s1 bp' s2 s3 where "db_get n False s = Some (False, lines s ! (n - 1), s1)"
    "binc_space moves (length (lines s ! (n - 1))) bp s1 = Some bp'"
    "db_append True d (lines s ! (n - 1)) s1 = Some (False, s2)"
    "db_delete k (move_mark reset n (d + 1) s2) = Some (False, s3)"
    "shifts_to (\<not> reset) s (delete_at (k - 1) (insert_at d (lines s ! (n - 1)) (lines s))) s3"
proof -
  obtain s1 where s1: "db_get n False s = Some (False, lines s ! (n - 1), s1)" "becomes s (lines s) s1"
    using db_get_becomes [OF e(1) n e(2)] by blast
  note b1 = becomesD [OF s1(2)]
  obtain bp' where bp: "binc_space moves (length (lines s ! (n - 1))) bp s1 = Some bp'" using binc_space_ok [OF b1(1)] by blast
  obtain s2 where s2: "db_append True d (lines s ! (n - 1)) s1 = Some (False, s2)" "becomes s1 (insert_at d (lines s ! (n - 1)) (lines s1)) s2"
    using db_append_becomes [OF b1(1), of d] d b1(2) by auto
  note b2 = becomesD [OF s2(2)]
  let ?t = "move_mark reset n (d + 1) s2"
  have t: "shifts_to (\<not> reset) s2 (lines s2) ?t" by (rule move_mark_shifts [OF b2(1)])
  have kt: "k \<le> length (lines ?t)" using k(2) d b1(2) b2(2) shiftsD(2) [OF t] by simp
  obtain s3 where s3: "db_delete k ?t = Some (False, s3)" "becomes ?t (delete_at (k - 1) (lines ?t)) s3"
    using db_delete_becomes [OF shiftsD(1) [OF t] k(1) kt] by blast
  have "shifts_to (\<not> reset) s (lines s2) s2"
    using edits_shifts [OF becomes_edits [OF becomes_trans [OF s1(2) s2(2)]]] b2(2) by simp
  from shifts_becomes [OF shifts_trans [OF this t] s3(2)]
  have "shifts_to (\<not> reset) s (delete_at (k - 1) (insert_at d (lines s ! (n - 1)) (lines s))) s3"
    using shiftsD(2) [OF t] b1(2) b2(2) by simp
  thus ?thesis using that s1(1) bp s2(1) s3(1) by blast
qed

lemma move_down_spec:
  assumes "editing s" "text_ok s" "lines s = A @ B @ M @ Z" "n = length A + 1" "d = length (A @ B @ M)"
  shows "\<exists>bp' s'. move_down moves reset (length B) n d bp s = Some (False, bp', s') \<and>
    shifts_to (\<not> reset) s (A @ M @ B @ Z) s'"
  using assms
proof (induction B arbitrary: M bp s)
  case Nil
  thus ?case using shifts_refl [OF Nil.prems(1)] by simp
next
  case (Cons x B)
  have x: "lines s ! (n - 1) = x" "0 < n" "n \<le> length (lines s)" "d \<le> length (lines s)" "n \<le> length (lines s) + 1"
    using Cons.prems(3-5) by (simp_all add: nth_append)
  obtain s1 bp1 s2 s3 where st: "db_get n False s = Some (False, lines s ! (n - 1), s1)"
    "binc_space moves (length (lines s ! (n - 1))) bp s1 = Some bp1"
    "db_append True d (lines s ! (n - 1)) s1 = Some (False, s2)"
    "db_delete n (move_mark reset n (d + 1) s2) = Some (False, s3)"
    "shifts_to (\<not> reset) s (delete_at (n - 1) (insert_at d (lines s ! (n - 1)) (lines s))) s3"
    by (rule move_step [OF Cons.prems(1,2) x(2,3,4) x(2,5)])
  have ls: "delete_at (n - 1) (insert_at d x (lines s)) = A @ B @ (M @ [x]) @ Z"
    using Cons.prems(3-5) by (simp add: insert_at_def delete_at_def)
  have s3: "lines s3 = A @ B @ (M @ [x]) @ Z" "text_ok s3" "editing s3"
    using shiftsD [OF st(5)] Cons.prems(2) ls x(1) by simp_all
  have dd: "d = length (A @ B @ M @ [x])" using Cons.prems(5) by simp
  obtain bp' s' where r: "move_down moves reset (length B) n d bp1 s3 = Some (False, bp', s')"
    "shifts_to (\<not> reset) s3 (A @ (M @ [x]) @ B @ Z) s'"
    using Cons.IH [OF s3(3,2,1) Cons.prems(4) dd] by blast
  show ?case using shifts_trans [OF st(5) r(2)] r(1) st(1-4) by simp
qed

lemma move_up_spec:
  assumes "editing s" "text_ok s" "lines s = A @ M @ B @ Z" "d = length A" "n = length (A @ M) + 1"
  shows "\<exists>bp' s'. move_up moves reset (length B) n d bp s = Some (False, d + length B, bp', s') \<and>
    shifts_to (\<not> reset) s (A @ B @ M @ Z) s'"
  using assms
proof (induction B arbitrary: A d n bp s)
  case Nil
  thus ?case using shifts_refl [OF Nil.prems(1)] by simp
next
  case (Cons x B)
  have x: "lines s ! (n - 1) = x" "0 < n" "n \<le> length (lines s)" "d \<le> length (lines s)" "0 < n + 1" "n + 1 \<le> length (lines s) + 1"
    using Cons.prems(3-5) by (simp_all add: nth_append)
  obtain s1 bp1 s2 s3 where st: "db_get n False s = Some (False, lines s ! (n - 1), s1)"
    "binc_space moves (length (lines s ! (n - 1))) bp s1 = Some bp1"
    "db_append True d (lines s ! (n - 1)) s1 = Some (False, s2)"
    "db_delete (n + 1) (move_mark reset n (d + 1) s2) = Some (False, s3)"
    "shifts_to (\<not> reset) s (delete_at (n + 1 - 1) (insert_at d (lines s ! (n - 1)) (lines s))) s3"
    by (rule move_step [OF Cons.prems(1,2) x(2,3,4) x(5,6)])
  have ls: "delete_at (n + 1 - 1) (insert_at d x (lines s)) = (A @ [x]) @ M @ B @ Z"
    using Cons.prems(3-5) by (simp add: insert_at_def delete_at_def)
  have s3: "lines s3 = (A @ [x]) @ M @ B @ Z" "text_ok s3" "editing s3"
    using shiftsD [OF st(5)] Cons.prems(2) ls x(1) by simp_all
  have dn: "d + 1 = length (A @ [x])" "n + 1 = length ((A @ [x]) @ M) + 1" using Cons.prems(4,5) by simp_all
  obtain bp' s' where r: "move_up moves reset (length B) (n + 1) (d + 1) bp1 s3 = Some (False, d + 1 + length B, bp', s')"
    "shifts_to (\<not> reset) s3 ((A @ [x]) @ B @ M @ Z) s'"
    using Cons.IH [OF s3(3,2,1) dn] by blast
  show ?case using shifts_trans [OF st(5) r(2)] r(1) st(1-4) by simp
qed

definition moved :: "nat \<Rightarrow> nat \<Rightarrow> nat \<Rightarrow> 'a list \<Rightarrow> 'a list" where
  "moved a b d ls =
     (let blk = take (b + 1 - a) (drop (a - 1) ls) in
      if b < d then take (a - 1) ls @ take (d - b) (drop b ls) @ blk @ drop d ls
      else take d ls @ blk @ take (a - 1 - d) (drop d ls) @ drop b ls)"

lemma split_at_two: "a \<le> b \<Longrightarrow> b \<le> length ls \<Longrightarrow> ls = take a ls @ take (b - a) (drop a ls) @ drop b ls"
  by (metis append_take_drop_id drop_drop le_add_diff_inverse2)

lemma ex_move_spec:
  assumes e: "editing s" "text_ok s" and r: "0 < a" "a \<le> b" "b \<le> length (lines s)"
    and d: "d \<le> length (lines s)" "d < a \<or> b < d"
    and c: "m_lno (ea_addr1 c) = a" "m_lno (ea_addr2 c) = b" "ea_lineno c = d"
  shows "\<exists>s'. ex_move moves c s = Some (False, s') \<and>
    shifts_to (\<not> (\<exists>lm \<in> set (marks s). mark_between a d lm)) s (moved a b d (lines s)) s' \<and>
    sp_lno (cur s') = (if b < d then d else d + (b + 1 - a)) \<and> sp_cno (cur s') = 0"
proof -
  let ?reset = "\<exists>lm \<in> set (marks s). mark_between a d lm"
  have hf: "has_file s" using editingD(1) [OF e(1)] by (simp add: base_def)
  obtain s1 where s1: "log_old_marks a d s = Some (?reset, s1)" "shifts_to (\<not> ?reset) s (lines s) s1"
    using log_old_marks_shifts [OF e(1), of a d] by blast
  obtain bp s2 where s2: "get_space 256 s1 = (Some bp, s2)" "becomes s1 (lines s1) s2"
    using get_space_becomes [OF shiftsD(1) [OF s1(2)], of 256] by blast
  have l2: "editing s2" "text_ok s2" "lines s2 = lines s" "shifts_to (\<not> ?reset) s (lines s) s2"
    using shifts_becomes [OF s1(2) s2(2)] becomesD [OF s2(2)] shiftsD(2,3) [OF s1(2)] e(2) by auto
  let ?blk = "take (b + 1 - a) (drop (a - 1) (lines s))"
  have diff: "b - a + 1 = length ?blk" "length ?blk = b + 1 - a" using r by simp_all
  obtain d' mfl mtl bp' s3 where s3: "(if a < d then do { (e, bp, s3) \<leftarrow> move_down moves ?reset (b - a + 1) a d bp s2; Some (e, d, d - (b - a + 1), d, bp, s3) }
      else do { (e, dst', bp, s3) \<leftarrow> move_up moves ?reset (b - a + 1) a d bp s2; Some (e, dst', d, d + (b - a + 1), bp, s3) })
      = Some (False, d', mfl, mtl, bp', s3)" "shifts_to (\<not> ?reset) s2 (moved a b d (lines s)) s3" "d' = (if b < d then d else d + (b + 1 - a))"
  proof (cases "b < d")
    case True
    have "lines s = take (a - 1) (lines s) @ ?blk @ drop b (lines s)"
      using split_at_two [of "a - 1" b "lines s"] r by simp
    moreover have "drop b (lines s) = take (d - b) (drop b (lines s)) @ drop d (lines s)"
      using append_take_drop_id [of "d - b" "drop b (lines s)"] True by (simp add: add.commute)
    ultimately have sp: "lines s2 = take (a - 1) (lines s) @ ?blk @ take (d - b) (drop b (lines s)) @ drop d (lines s)" using l2(3) by metis
    have n: "a = length (take (a - 1) (lines s)) + 1" "d = length (take (a - 1) (lines s) @ ?blk @ take (d - b) (drop b (lines s)))"
      using r d True by simp_all
    obtain bp' s3 where m: "move_down moves ?reset (length ?blk) a d bp s2 = Some (False, bp', s3)"
      "shifts_to (\<not> ?reset) s2 (take (a - 1) (lines s) @ take (d - b) (drop b (lines s)) @ ?blk @ drop d (lines s)) s3"
      using move_down_spec [OF l2(1,2) sp n, of moves ?reset bp] by blast
    show ?thesis by (rule that [of d _ _ bp' s3]) (use m True r diff in \<open>simp_all add: moved_def Let_def\<close>)
  next
    case False
    hence da: "d < a" using d by simp
    have "lines s = take d (lines s) @ take (a - 1 - d) (drop d (lines s)) @ drop (a - 1) (lines s)"
      using split_at_two [of d "a - 1" "lines s"] r da by simp
    moreover have "drop (a - 1) (lines s) = ?blk @ drop b (lines s)"
      using append_take_drop_id [of "b + 1 - a" "drop (a - 1) (lines s)"] r by (simp add: add.commute)
    ultimately have sp: "lines s2 = take d (lines s) @ take (a - 1 - d) (drop d (lines s)) @ ?blk @ drop b (lines s)" using l2(3) by metis
    have n: "d = length (take d (lines s))" "a = length (take d (lines s) @ take (a - 1 - d) (drop d (lines s))) + 1"
      using r d da by simp_all
    obtain bp' s3 where m: "move_up moves ?reset (length ?blk) a d bp s2 = Some (False, d + length ?blk, bp', s3)"
      "shifts_to (\<not> ?reset) s2 (take d (lines s) @ ?blk @ take (a - 1 - d) (drop d (lines s)) @ drop b (lines s)) s3"
      using move_up_spec [OF l2(1,2) sp n, of moves ?reset bp] by blast
    show ?thesis by (rule that [of "d + length ?blk" _ _ bp' s3]) (use m False da diff in \<open>simp_all add: moved_def Let_def\<close>)
  qed
  let ?s4 = "set_cursor d' 0 (free_space bp' s3)"
  have l3: "shifts_to (\<not> ?reset) s (moved a b d (lines s)) s3" by (rule shifts_trans [OF l2(4) s3(2)])
  note l4 = shifts_becomes [OF l3 free_space_becomes [OF shiftsD(1) [OF l3], of bp']]
  have l5: "shifts_to (\<not> ?reset) s (moved a b d (lines s)) ?s4"
    using shifts_trans [OF l4 edits_shifts [OF edits_set_cursor [OF edits_refl [OF shiftsD(1) [OF l4]], of d' 0]]] shiftsD(2) [OF l4] shiftsD(2) [OF l3] by simp
  obtain s5 where s5: "(if ?reset then log_marks (filter (mark_between mfl mtl) (marks ?s4)) ?s4 else Some ?s4) = Some s5"
    "shifts_to (\<not> ?reset) ?s4 (lines ?s4) s5" "cur s5 = cur ?s4"
  proof (cases ?reset)
    case True
    thus ?thesis using that log_marks_shifts [OF shiftsD(1) [OF l5]] by auto
  next
    case False
    thus ?thesis using that [of ?s4] shifts_refl [OF shiftsD(1) [OF l5]] by simp
  qed
  have l6: "shifts_to (\<not> ?reset) s (moved a b d (lines s)) s5" using shifts_trans [OF l5 s5(2)] shiftsD(2) [OF l5] by simp
  let ?s6 = "upd_cur (\<lambda>sc. sc\<lparr>sp_moved := sp_moved sc + (b - a + 1)\<rparr>) s5"
  have "edits s5 (lines s5) ?s6" by (rule edits_upd_cur [OF edits_refl [OF shiftsD(1) [OF l6]]]) simp_all
  hence l7: "shifts_to (\<not> ?reset) s (moved a b d (lines s)) ?s6"
    using shifts_trans [OF l6 edits_shifts] shiftsD(2) [OF l6] by simp
  have "ex_move moves c s = Some (False, ?s6)"
    using hf c d s1(1) s2(1) s3(1) s5(1) unfolding ex_move_def c Let_def by auto
  moreover have "sp_lno (cur ?s6) = d'" "sp_cno (cur ?s6) = 0" using s5(3) by (simp_all add: set_cursor_def)
  ultimately show ?thesis using l7 s3(3) by auto
qed

end
