(* ===== verification/ExJoin.thy ===== *)
theory ExJoin
  imports ExMove
begin

section \<open>Joining lines\<close>

text \<open>
  The loop of \<^verbatim>\<open>ex_join\<close> builds the text that a fold over the lines specifies, within the space it asks for.
\<close>


subsection \<open>The text\<close>

text \<open>The text of joined lines: each line that is not empty is put after the text before it.\<close>

definition glue :: "bool \<Rightarrow> bytes \<Rightarrow> bytes \<Rightarrow> bytes" where
  "glue force t l =
     (if l = [] then t else if t = [] then l else case join_gap force (last t) l of (gap, _, l') \<Rightarrow> t @ gap @ l')"

definition joins :: "bool \<Rightarrow> bytes list \<Rightarrow> bytes" where
  "joins force = foldl (glue force) []"

text \<open>The invariant of the loop: the last character is known up to the kind of blank, the text fits, the cursor is in it.\<close>

definition joining_ok :: "joining \<Rightarrow> bool" where
  "joining_ok j \<longleftrightarrow> (j_first j \<longleftrightarrow> j_text j = []) \<and> length (j_text j) \<le> j_tlen j \<and>
     (j_text j \<noteq> [] \<longrightarrow> j_echar j = last (j_text j) \<or> is_blank (j_echar j) \<and> is_blank (last (j_text j)))"

lemma blank_space [simp]: "is_blank (CHR '' '')"
  by (simp add: is_blank_def)

lemma join_gap_blank: "is_blank c \<Longrightarrow> is_blank d \<Longrightarrow> join_gap b c l = join_gap b d l"
  by (simp add: join_gap_def)

lemma join_line_ok:
  fixes force :: bool
  assumes j: "joining_ok j" and l: "l \<noteq> []"
  defines "j' \<equiv> (join_line force l j)\<lparr>j_tlen := j_tlen j + length l + 2\<rparr>"
  shows "joining_ok j'" "j_text j' = glue force (j_text j) l" "j_text j' \<noteq> []" "j_cno j' < length (j_text j')" "j_stop j' = j_stop j"
    "j_tlen j' = j_tlen j + length l + 2"
proof -
  obtain gap extra l' where g: "join_gap (j_first j \<or> force) (j_echar j) l = (gap, extra, l')" by (cases "join_gap (j_first j \<or> force) (j_echar j) l")
  have J: "j_text j' = j_text j @ gap @ l'" "\<not> j_first j'" "j_echar j' = (if l' = [] then CHR '' '' else last l')"
    "j_cno j' = (if j_first j then size_sub (length (j_text j @ gap @ l')) 1
       else size_sub (length (j_text j @ gap @ l') - length l') (if extra then 2 else 1))"
    "j_stop j' = j_stop j" "j_tlen j' = j_tlen j + length l + 2"
    by (simp_all add: j'_def join_line_def g Let_def)
  have G: "gap = [] \<and> l' = l \<or> is_blank (j_echar j) \<and> gap = [] \<and> \<not> j_first j \<or> gap \<noteq> [] \<and> last gap = CHR '' ''"
    "length gap \<le> 2" "length l' \<le> length l" "extra \<longrightarrow> length gap = 2"
    using g length_dropWhile_le [of is_blank l] by (auto simp: join_gap_def Let_def split: if_splits)
  have f: "j_first j \<Longrightarrow> gap = [] \<and> l' = l \<and> j_text j = []" using g j by (auto simp: join_gap_def joining_ok_def)
  have nf: "\<not> j_first j \<Longrightarrow> j_text j \<noteq> []" using j by (simp add: joining_ok_def)
  show ne: "j_text j' \<noteq> []" using f nf l J(1) by (cases "j_first j") auto
  have ech: "j_echar j' = last (j_text j') \<or> is_blank (j_echar j') \<and> is_blank (last (j_text j'))"
  proof (cases "l' = []")
    case False thus ?thesis using J by simp
  next
    case True
    hence nl: "\<not> j_first j" "l' \<noteq> l" using f l by auto
    from G(1) nl show ?thesis
    proof (elim disjE conjE)
      assume b: "is_blank (j_echar j)" "gap = []"
      have "is_blank (last (j_text j))" using j b nf [OF nl(1)] by (auto simp: joining_ok_def)
      thus ?thesis using J True b by simp
    next
      assume "gap \<noteq> []" "last gap = CHR '' ''"
      thus ?thesis using J True by simp
    qed simp
  qed
  have tl: "length (j_text j') \<le> j_tlen j'"
    using J(1,6) G(2,3) j by (simp add: joining_ok_def)
  show "joining_ok j'" using J(2) ne ech tl by (simp add: joining_ok_def)
  show "j_text j' = glue force (j_text j) l"
  proof (cases "j_first j")
    case True thus ?thesis using f J(1) l by (simp add: glue_def)
  next
    case False
    have "join_gap force (last (j_text j)) l = (gap, extra, l')"
      using j nf [OF False] g False join_gap_blank [of "last (j_text j)" "j_echar j" force l] by (auto simp: joining_ok_def)
    thus ?thesis using J(1) l nf [OF False] by (simp add: glue_def)
  qed
  show "j_stop j' = j_stop j" "j_tlen j' = j_tlen j + length l + 2" by (rule J(5), rule J(6))
  show "j_cno j' < length (j_text j')"
  proof (cases "j_first j")
    case True thus ?thesis using f l J by (cases l) (simp_all add: size_sub_def)
  next
    case False
    have "0 < length (j_text j)" using nf [OF False] by simp
    thus ?thesis using False J G(4) by (cases "j_text j") (auto simp: size_sub_def)
  qed
qed

lemma join_loop_spec:
  assumes "editing s" "text_ok s" "0 < from" "from \<le> length (lines s) + 1" "joining_ok j" "j_text j \<noteq> [] \<longrightarrow> sp_cno (cur s) < length (j_text j)"
  shows "\<exists>j' bp' s'. join_loop force n from j bp s = Some (False, j', bp', s') \<and> edits s (lines s) s' \<and>
    j_text j' = foldl (glue force) (j_text j) (take n (drop (from - 1) (lines s))) \<and> joining_ok j' \<and>
    (j_text j' \<noteq> [] \<longrightarrow> sp_cno (cur s') < length (j_text j')) \<and>
    j_stop j' = (if from + n \<le> length (lines s) + 1 then j_stop j else Some (length (lines s)))"
  using assms
proof (induction n arbitrary: "from" j bp s)
  case 0
  thus ?case using edits_refl by simp
next
  case (Suc n)
  show ?case
  proof (cases "from \<le> length (lines s)")
    case False
    hence fr: "from - 1 = length (lines s)" "length (lines s) < from" using Suc.prems(4) by auto
    have "\<not> sp_tinput (cur s) \<or> False" using editingD(4) [OF Suc.prems(1)] by simp
    from db_get_beyond [OF editingD(1) [OF Suc.prems(1)] fr(2) this]
    obtain s' where s': "db_get from False s = Some (True, [], s')" "keeps s s'" by blast
    have "cur s' = cur s" using reads_fields [OF keepsD(2) [OF s'(2)]] by simp
    thus ?thesis using s'(1) becomes_edits [OF keeps_becomes [OF s'(2) Suc.prems(1)]] fr Suc.prems(5,6)
      by (auto simp: joining_ok_def)
  next
    case True
    obtain s1 where s1: "db_get from False s = Some (False, lines s ! (from - 1), s1)" "becomes s (lines s) s1" "cur s1 = cur s"
      using db_get_becomes [OF Suc.prems(1,3) True Suc.prems(2)] by blast
    note b1 = becomesD [OF s1(2)]
    let ?l = "lines s ! (from - 1)"
    have dr: "drop (from - 1) (lines s) = ?l # drop from (lines s)" using Cons_nth_drop_Suc [of "from - 1" "lines s"] True Suc.prems(3) by simp
    have tk: "foldl (glue force) t (take (Suc n) (drop (from - 1) (lines s))) = foldl (glue force) (glue force t ?l) (take n (drop (from + 1 - 1) (lines s)))" for t
      by (simp only: dr take_Suc_Cons foldl_Cons add_diff_cancel_right')
    have fr: "0 < from + 1" "from + 1 \<le> length (lines s1) + 1" using True b1(2) by simp_all
    show ?thesis
    proof (cases "?l = []")
      case l: True
      have cc: "j_text j \<noteq> [] \<longrightarrow> sp_cno (cur s1) < length (j_text j)" using Suc.prems(6) s1(3) by simp
      obtain j' bp' s' where r: "join_loop force n (from + 1) j bp s1 = Some (False, j', bp', s')" "edits s1 (lines s1) s'"
        "j_text j' = foldl (glue force) (j_text j) (take n (drop (from + 1 - 1) (lines s1)))" "joining_ok j'"
        "j_text j' \<noteq> [] \<longrightarrow> sp_cno (cur s') < length (j_text j')"
        "j_stop j' = (if from + 1 + n \<le> length (lines s1) + 1 then j_stop j else Some (length (lines s1)))"
        using Suc.IH [OF b1(1) b1(3) [OF Suc.prems(2)] fr Suc.prems(5) cc, of bp] by blast
      have "glue force (j_text j) ?l = j_text j" using l by (simp add: glue_def)
      thus ?thesis unfolding tk using r s1(1) l b1(2) edits_trans [OF becomes_edits [OF s1(2)] r(2)] by auto
    next
      case l: False
      let ?j = "(join_line force ?l j)\<lparr>j_tlen := j_tlen j + length ?l + 2\<rparr>"
      note jo = join_line_ok [OF Suc.prems(5) l, of force]
      obtain b2 s2 where s2: "add_space bp (j_tlen j + length ?l + 2) s1 = (Some b2, s2)" "j_tlen j + length ?l + 2 \<le> snd b2" "becomes s1 (lines s1) s2"
        using add_space_becomes [OF b1(1)] by blast
      note b2 = becomesD [OF s2(3)]
      let ?s3 = "upd_cur (\<lambda>sc. sc\<lparr>sp_cno := j_cno ?j\<rparr>) s2"
      have rm: "room b2 (length (j_text ?j)) = Some ()" using jo(1,6) s2(2) by (simp add: room_def joining_ok_def)
      have e3: "edits s1 (lines s1) ?s3" by (rule edits_upd_cur [OF becomes_edits [OF s2(3)]]) simp_all
      have t3: "text_ok ?s3" "lines ?s3 = lines s" using editsD [OF e3] b1 Suc.prems(2) by simp_all
      have fr3: "from + 1 \<le> length (lines ?s3) + 1" using True t3 by simp
      have cc: "j_text ?j \<noteq> [] \<longrightarrow> sp_cno (cur ?s3) < length (j_text ?j)" using jo(4) by simp
      obtain j' bp' s' where r: "join_loop force n (from + 1) ?j b2 ?s3 = Some (False, j', bp', s')" "edits ?s3 (lines ?s3) s'"
        "j_text j' = foldl (glue force) (j_text ?j) (take n (drop (from + 1 - 1) (lines ?s3)))" "joining_ok j'"
        "j_text j' \<noteq> [] \<longrightarrow> sp_cno (cur s') < length (j_text j')"
        "j_stop j' = (if from + 1 + n \<le> length (lines ?s3) + 1 then j_stop ?j else Some (length (lines ?s3)))"
        using Suc.IH [OF editsD(1) [OF e3] t3(1) fr(1) fr3 jo(1) cc, of b2] by blast
      have ed: "edits s (lines s) s'" using edits_trans [OF edits_trans [OF becomes_edits [OF s1(2)] e3] r(2)] t3(2) by simp
      have run: "join_loop force (Suc n) from j bp s = Some (False, j', bp', s')"
        using s1(1) l s2(1) rm r(1) by (simp add: Let_def)
      show ?thesis unfolding tk
        using run ed r(3-6) jo(2,5) t3(2) by (auto simp del: foldl.simps)
    qed
  qed
qed

lemma glue_empty: "glue force t l = [] \<longleftrightarrow> t = [] \<and> l = []"
  by (auto simp: glue_def split: prod.splits)

lemma foldl_glue_empty: "foldl (glue force) t ls = [] \<longleftrightarrow> t = [] \<and> (\<forall>l \<in> set ls. l = [])"
  by (induction ls arbitrary: t) (auto simp: glue_empty)

lemma join_delete_becomes:
  assumes "editing s" and "n \<le> k" and "k \<le> length (lines s)"
  shows "\<exists>s'. join_delete n k s = Some (False, s') \<and> becomes s (take (k - n) (lines s) @ drop k (lines s)) s'"
  using assms
proof (induction n arbitrary: k s)
  case 0
  thus ?case using becomes_refl by simp
next
  case (Suc n)
  have l: "0 < k" using Suc.prems(2) by simp
  obtain s1 where s1: "db_delete k s = Some (False, s1)" "becomes s (delete_at (k - 1) (lines s)) s1"
    using db_delete_becomes [OF Suc.prems(1) l Suc.prems(3)] by blast
  note b = becomesD [OF s1(2)]
  let ?ls = "delete_at (k - 1) (lines s)"
  have "n \<le> k - 1" "k - 1 \<le> length (lines s1)" using Suc.prems(2,3) l b(2) by auto
  then obtain s' where s': "join_delete n (k - 1) s1 = Some (False, s')" "becomes s1 (take (k - 1 - n) ?ls @ drop (k - 1) ?ls) s'"
    using Suc.IH [OF b(1), of "k - 1"] b(2) by auto
  have "take (k - 1 - n) ?ls @ drop (k - 1) ?ls = take (k - Suc n) (lines s) @ drop k (lines s)"
    using l Suc.prems(2,3) by (auto simp: delete_at_def min_def)
  thus ?case using s1(1) s'(1) becomes_trans [OF s1(2) s'(2)] by auto
qed

lemma ex_join_spec:
  assumes e: "editing s" "text_ok s" and a: "m_lno (ea_addr1 c) = a" "0 < a" "a < length (lines s)"
    and b: "b = m_lno (ea_addr2 c) + (if ea_addr_def c \<or> ea_addrcnt c = 1 then 1 else 0)" "a \<le> b"
  defines "k \<equiv> min b (length (lines s))"
  defines "t \<equiv> joins (ea_force c) (take (k + 1 - a) (drop (a - 1) (lines s)))"
  shows "\<exists>s'. ex_join c s = Some (False, s') \<and> edits s (take (a - 1) (lines s) @ [t] @ drop k (lines s)) s' \<and>
    (t \<noteq> [] \<longrightarrow> sp_cno (cur s') < length t)"
proof -
  have hf: "has_file s" using editingD(1) [OF e(1)] by (simp add: base_def)
  obtain s1 where s1: "db_exist (a + 1) s = Some (True, s1)" "keeps s s1"
    using db_exist_base [OF editingD(1,4) [OF e(1)], of "a + 1"] a(3) by auto
  note k1 = keeps_becomes [OF s1(2) e(1)]
  obtain bp s2 where s2: "get_space 256 s1 = (Some bp, s2)" "becomes s1 (lines s1) s2"
    using get_space_becomes [OF becomesD(1) [OF k1]] by blast
  have b2: "becomes s (lines s) s2" using becomes_trans [OF k1 s2(2)] becomesD(2) [OF k1] by simp
  note d2 = becomesD [OF b2]
  let ?j0 = "\<lparr>j_first = True, j_echar = CHR 0x00, j_text = [], j_tlen = 0, j_cno = 0, j_stop = None\<rparr>"
  have j0: "joining_ok ?j0" "j_text ?j0 \<noteq> [] \<longrightarrow> sp_cno (cur s2) < length (j_text ?j0)" by (simp_all add: joining_ok_def)
  have fr: "a \<le> length (lines s2) + 1" using a(3) d2(2) by simp
  obtain j bp' s3 where r: "join_loop (ea_force c) (b + 1 - a) a ?j0 bp s2 = Some (False, j, bp', s3)" "edits s2 (lines s2) s3"
    "j_text j = foldl (glue (ea_force c)) (j_text ?j0) (take (b + 1 - a) (drop (a - 1) (lines s2)))" "joining_ok j"
    "j_text j \<noteq> [] \<longrightarrow> sp_cno (cur s3) < length (j_text j)"
    "j_stop j = (if a + (b + 1 - a) \<le> length (lines s2) + 1 then j_stop ?j0 else Some (length (lines s2)))"
    using join_loop_spec [OF d2(1) d2(3) [OF e(2)] a(2) fr j0, of "ea_force c" "b + 1 - a" bp] by blast
  have kk: "(case j_stop j of None \<Rightarrow> b | Some n \<Rightarrow> n) = k" using r(6) b(2) d2(2) by (simp add: k_def min_def)
  have tk: "take (b + 1 - a) (drop (a - 1) (lines s)) = take (k + 1 - a) (drop (a - 1) (lines s))"
    using a by (simp add: k_def min_def)
  have tt: "j_text j = t" using r(3) tk d2(2) by (simp add: t_def joins_def)
  let ?s4 = "upd_cur (\<lambda>sc. sc\<lparr>sp_lno := a\<rparr>) s3"
  have e3: "edits s (lines s) s3" using edits_trans [OF becomes_edits [OF b2] r(2)] d2(2) by simp
  have e4: "edits s (lines s) ?s4" by (rule edits_upd_cur [OF e3]) simp_all
  have kb: "k - a \<le> k" "k \<le> length (lines ?s4)" "a \<le> k" using editsD(2) [OF e4] a b(2) unfolding k_def by auto
  obtain s5 where s5: "join_delete (k - a) k ?s4 = Some (False, s5)" "becomes ?s4 (take (k - (k - a)) (lines ?s4) @ drop k (lines ?s4)) s5"
    using join_delete_becomes [OF editsD(1) [OF e4] kb(1,2)] by blast
  have l5: "lines s5 = take a (lines s) @ drop k (lines s)" using becomesD(2) [OF s5(2)] editsD(2) [OF e4] kb(3) by simp
  have e5: "edits s (take a (lines s) @ drop k (lines s)) s5" using edits_becomes [OF e4 s5(2)] l5 by (simp add: edits_def)
  let ?ls = "take (a - 1) (lines s) @ [t] @ drop k (lines s)"
  obtain s6 where s6: "(if j_first j then Some (False, s5) else db_set a (j_text j) s5) = Some (False, s6)" "edits s ?ls s6"
     "\<not> j_first j \<longrightarrow> becomes s5 ?ls s6"
  proof (cases "j_first j")
    case True
    hence "t = []" using r(4) tt by (simp add: joining_ok_def)
    hence em: "\<forall>l \<in> set (take (k + 1 - a) (drop (a - 1) (lines s))). l = []" by (simp add: t_def joins_def foldl_glue_empty)
    have "lines s ! (a - 1) \<in> set (take (k + 1 - a) (drop (a - 1) (lines s)))"
      using a kb by (intro in_set_conv_nth [THEN iffD2] exI [of _ 0]) (simp add: k_def)
    hence "lines s ! (a - 1) = t" using em \<open>t = []\<close> by blast
    hence "take a (lines s) = take (a - 1) (lines s) @ [t]" using a take_Suc_conv_app_nth [of "a - 1" "lines s"] by simp
    thus ?thesis using that [of s5] True e5 by simp
  next
    case False
    have n: "a \<le> length (lines s5)" using l5 a by simp
    obtain s6 where s6: "db_set a (j_text j) s5 = Some (False, s6)" "becomes s5 ((lines s5)[a - 1 := j_text j]) s6"
      using db_set_becomes [OF editsD(1) [OF e5] a(2) n] by blast
    have "take a (lines s) = take (a - 1) (lines s) @ [lines s ! (a - 1)]" using a take_Suc_conv_app_nth [of "a - 1" "lines s"] by simp
    hence "(lines s5)[a - 1 := j_text j] = ?ls" unfolding l5 tt using a by (simp add: list_update_append)
    thus ?thesis using that [of s6] False s6 edits_becomes [OF e5 s6(2)] by simp
  qed
  let ?s7 = "upd_cur (\<lambda>sc. sc\<lparr>sp_joined := sp_joined sc + (k - a + 1)\<rparr>) (free_space bp' s6)"
  have e7: "edits s ?ls ?s7"
    by (rule edits_upd_cur [OF edits_becomes [OF s6(2) free_space_becomes [OF editsD(1) [OF s6(2)], unfolded editsD(2) [OF s6(2)]]]]) simp_all
  have run: "ex_join c s = Some (False, ?s7)"
    using hf s1(1) s2(1) r(1) kk s5(1) s6(1) unfolding ex_join_def Let_def a(1) b(1) [symmetric] by simp
  have "sp_cno (cur s5) = sp_cno (cur s3)" using s5(2) by (simp add: becomes_def)
  moreover have "sp_cno (cur s6) = sp_cno (cur s5)" using s6(1,3) by (cases "j_first j") (simp_all add: becomes_def)
  moreover have "sp_cno (cur (free_space bp' s6)) = sp_cno (cur s6)" by (simp add: free_space_def)
  ultimately have "sp_cno (cur ?s7) = sp_cno (cur s3)" by simp
  hence "t \<noteq> [] \<longrightarrow> sp_cno (cur ?s7) < length t" using r(5) tt by simp
  thus ?thesis using run e7 by blast
qed

end
