(* ===== verification/ExShift.thy ===== *)
theory ExShift
  imports ExJoin
begin

section \<open>Shifting lines, and the commands on ranges of lines\<close>

text \<open>
  Indents and their columns; the theorems about the commands of \<open>ExLines\<close>; two ways in which moving lines goes wrong.
\<close>


subsection \<open>Shifting\<close>

definition shifted :: "shift_opts \<Rightarrow> shift_kind \<Rightarrow> nat \<Rightarrow> bytes \<Rightarrow> bytes" where
  "shifted opt rl sw l =
     (if l = [] then []
      else case old_indent (o_tabstop opt) l 0 0 of
             (idx, col) \<Rightarrow> if rl = SHIFT_LEFT \<and> new_column rl sw col = col then l
                           else new_indent opt (new_column rl sw col) @ drop idx l)"

text \<open>The text of a line behind its indent, and the columns of the indent, every tab going to the next tab stop.\<close>

definition line_text :: "bytes \<Rightarrow> bytes" where
  "line_text l = dropWhile is_blank l"

definition indent_cols :: "nat \<Rightarrow> bytes \<Rightarrow> nat" where
  "indent_cols ts l = foldl (\<lambda>col c. if c = CHR 0x09 then (col div ts + 1) * ts else col + 1) 0 (takeWhile is_blank l)"

text \<open>A line that keeps its text and is indented by \<open>k\<close> columns more; empty lines stay empty.\<close>

definition indented :: "nat \<Rightarrow> nat \<Rightarrow> bytes \<Rightarrow> bytes \<Rightarrow> bool" where
  "indented ts k l l' \<longleftrightarrow>
     (if l = [] then l' = [] else line_text l' = line_text l \<and> indent_cols ts l' = indent_cols ts l + k)"

lemma length_new_indent: "length (new_indent opt col) \<le> col"
proof (cases "o_expandtab opt")
  case False
  have "col div o_tabstop opt + col mod o_tabstop opt \<le> col"
  proof (cases "o_tabstop opt = 0")
    case False
    have "col div o_tabstop opt * 1 \<le> col div o_tabstop opt * o_tabstop opt" using False by (intro mult_le_mono2) simp
    thus ?thesis using div_mult_mod_eq [of col "o_tabstop opt"] by linarith
  qed simp
  thus ?thesis using False by (simp add: new_indent_def)
qed (simp add: new_indent_def)

lemma old_indent_idx:
  "old_indent ts l i c = (idx, col) \<Longrightarrow> i \<le> idx \<and> idx - i \<le> length l \<and> (drop (idx - i) l = [] \<or> hd (drop (idx - i) l) \<notin> {CHR '' '', CHR 0x09})"
proof (induction l arbitrary: i c)
  case (Cons x l)
  show ?case
  proof (cases "x \<in> {CHR '' '', CHR 0x09}")
    case True
    obtain c' where "old_indent ts l (i + 1) c' = (idx, col)" using Cons.prems True by (auto split: if_splits)
    from Cons.IH [OF this] show ?thesis by (auto simp: Suc_le_eq Suc_diff_Suc [symmetric])
  next
    case False
    thus ?thesis using Cons.prems by auto
  qed
qed simp

lemma old_indent_spaces:
  "old_indent ts (replicate n (CHR '' '') @ r) i c = old_indent ts r (i + n) (c + n)"
  by (induction n arbitrary: i c) simp_all

lemma old_indent_tabs:
  assumes "0 < ts" "c mod ts = 0"
  shows "old_indent ts (replicate n (CHR 0x09) @ r) i c = old_indent ts r (i + n) (c + n * ts)"
  using assms(2)
proof (induction n arbitrary: i c)
  case (Suc n)
  have m: "(c + ts) mod ts = 0" using Suc.prems by simp
  show ?case using Suc.IH [OF m, of "i + 1"] Suc.prems by (simp add: ac_simps)
qed simp

text \<open>The indent that is written takes the columns that were asked for.\<close>

lemma old_new_indent:
  assumes "0 < o_tabstop opt" "r = [] \<or> hd r \<notin> {CHR '' '', CHR 0x09}"
  shows "old_indent (o_tabstop opt) (new_indent opt col @ r) 0 0 = (length (new_indent opt col), col)"
proof -
  have e: "old_indent ts r i c = (i, c)" for ts i c using assms(2) by (cases r) auto
  show ?thesis using assms(1)
    by (simp add: new_indent_def old_indent_spaces old_indent_tabs e)
qed

lemma shifted_right_left:
  assumes "0 < o_tabstop opt" "0 < sw"
  shows "shifted opt SHIFT_LEFT sw (shifted opt SHIFT_RIGHT sw l) = shifted opt RETAB sw l"
proof (cases "l = []")
  case False
  obtain idx col where i: "old_indent (o_tabstop opt) l 0 0 = (idx, col)" by (cases "old_indent (o_tabstop opt) l 0 0") auto
  let ?r = "drop idx l"
  have r: "?r = [] \<or> hd ?r \<notin> {CHR '' '', CHR 0x09}" using old_indent_idx [OF i] by simp
  have R: "shifted opt SHIFT_RIGHT sw l = new_indent opt (col + sw) @ ?r" using False i by (simp add: shifted_def new_column_def)
  have o: "old_indent (o_tabstop opt) (new_indent opt (col + sw) @ ?r) 0 0 = (length (new_indent opt (col + sw)), col + sw)"
    by (rule old_new_indent [OF assms(1) r])
  have ne: "new_indent opt (col + sw) @ ?r \<noteq> []"
  proof
    assume "new_indent opt (col + sw) @ ?r = []"
    hence "old_indent (o_tabstop opt) (new_indent opt (col + sw) @ ?r) 0 0 = (0, 0)" by simp
    thus False using o assms(2) by simp
  qed
  have "shifted opt SHIFT_LEFT sw (new_indent opt (col + sw) @ ?r) = new_indent opt col @ ?r"
    using ne o assms(2) by (auto simp: shifted_def new_column_def)
  thus ?thesis using R False i by (simp add: shifted_def new_column_def)
qed (simp add: shifted_def)

lemma next_stop: "0 < ts \<Longrightarrow> c + (ts - c mod ts) = (c div ts + 1) * (ts::nat)"
proof -
  assume "0 < ts"
  then have "c mod ts < ts" by simp
  moreover have "c = c div ts * ts + c mod ts" by simp
  ultimately show ?thesis unfolding distrib_right mult_1 by linarith
qed

lemma old_indent_cols:
  assumes "0 < ts"
  shows "old_indent ts l i c = (i + length (takeWhile is_blank l),
    foldl (\<lambda>col c. if c = CHR 0x09 then (col div ts + 1) * ts else col + 1) c (takeWhile is_blank l))"
  by (induction l arbitrary: i c) (auto simp: is_blank_def next_stop [OF assms])

lemma old_indent_line: "0 < ts \<Longrightarrow> old_indent ts l 0 0 = (length (takeWhile is_blank l), indent_cols ts l)"
  by (simp add: old_indent_cols indent_cols_def)

lemma shifted_line:
  assumes "0 < o_tabstop opt" "l \<noteq> []" "rl \<noteq> SHIFT_LEFT"
  shows "shifted opt rl sw l = new_indent opt (new_column rl sw (indent_cols (o_tabstop opt) l)) @ line_text l"
  using assms by (simp add: shifted_def old_indent_line line_text_def dropWhile_eq_drop)

lemma dropWhile_twice: "dropWhile P (dropWhile P l) = dropWhile P l"
  by (induction l) auto

lemma new_indent_line:
  assumes "0 < o_tabstop opt"
  shows "line_text (new_indent opt col @ line_text l) = line_text l"
    "indent_cols (o_tabstop opt) (new_indent opt col @ line_text l) = col"
proof -
  have "\<forall>c \<in> set (new_indent opt col). is_blank c" by (auto simp: new_indent_def is_blank_def)
  then show "line_text (new_indent opt col @ line_text l) = line_text l"
    by (simp add: line_text_def dropWhile_append2 dropWhile_twice)
  have "line_text l = [] \<or> hd (line_text l) \<notin> {CHR '' '', CHR 0x09}"
    using hd_dropWhile [of is_blank l] by (auto simp: line_text_def is_blank_def)
  from old_new_indent [OF assms this, of col] show "indent_cols (o_tabstop opt) (new_indent opt col @ line_text l) = col"
    using assms by (simp add: old_indent_line)
qed

lemma shifted_indented:
  assumes "0 < o_tabstop opt"
  shows "indented (o_tabstop opt) sw l (shifted opt SHIFT_RIGHT sw l)" "indented (o_tabstop opt) 0 l (shifted opt RETAB sw l)"
  using assms new_indent_line [OF assms] shifted_line [OF assms, of l]
  by (auto simp: indented_def new_column_def) (simp_all add: shifted_def)

lemma nth_mapped_range:
  assumes "0 < a" "a \<le> b" "b \<le> length ls" "i < length ls"
  shows "(take (a - 1) ls @ map f (take (b + 1 - a) (drop (a - 1) ls)) @ drop b ls) ! i = (if a - 1 \<le> i \<and> i < b then f (ls ! i) else ls ! i)"
  using assms by (auto simp: nth_append)

lemma shift_loop_spec:
  assumes "editing s" "text_ok s" "0 < from" "from + n \<le> length (lines s) + 1" "0 < o_tabstop opt"
  shows "\<exists>cs bp' s'. shift_loop opt rl sw n from curset bp s = Some (False, cs, bp', s') \<and>
    edits s (take (from - 1) (lines s) @ map (shifted opt rl sw) (take n (drop (from - 1) (lines s))) @ drop (from - 1 + n) (lines s)) s'"
  using assms(1-4)
proof (induction n arbitrary: "from" curset bp s)
  case 0
  thus ?case using edits_refl by simp
next
  case (Suc n)
  have fr: "from \<le> length (lines s)" using Suc.prems(3,4) by simp
  obtain s1 where s1: "db_get from False s = Some (False, lines s ! (from - 1), s1)" "becomes s (lines s) s1" "cur s1 = cur s"
    using db_get_becomes [OF Suc.prems(1,3) fr Suc.prems(2)] by blast
  note b1 = becomesD [OF s1(2)]
  let ?l = "lines s ! (from - 1)" and ?f = "shifted opt rl sw"
  obtain idx col where i: "old_indent (o_tabstop opt) ?l 0 0 = (idx, col)" by (cases "old_indent (o_tabstop opt) ?l 0 0") auto
  let ?nc = "new_column rl sw col"
  have dr: "drop (from - 1) (lines s) = ?l # drop from (lines s)" using Cons_nth_drop_Suc [of "from - 1" "lines s"] fr Suc.prems(3) by simp
  define L where "L = take (from - 1) (lines s) @ ?f ?l # drop from (lines s)"
  have step: "\<exists>cs b2 s2. shift_loop opt rl sw (Suc n) from curset bp s = shift_loop opt rl sw n (from + 1) cs b2 s2 \<and> edits s L s2"
  proof (cases "?l = [] \<or> rl = SHIFT_LEFT \<and> ?nc = col")
    case True
    have "?f ?l = ?l" using True i by (auto simp: shifted_def)
    hence "L = lines s" unfolding L_def using dr append_take_drop_id [of "from - 1" "lines s"] by simp
    hence "edits s L s1" using becomes_edits [OF s1(2)] by simp
    moreover have "shift_loop opt rl sw (Suc n) from curset bp s = shift_loop opt rl sw n (from + 1) (curset \<or> sp_lno (cur s1) = from) bp s1"
      using s1(1) True i assms(5) by (auto simp: Let_def)
    ultimately show ?thesis by blast
  next
    case False
    have nl: "?l \<noteq> []" and nc: "(rl = SHIFT_LEFT \<and> ?nc = col) = False" using False by blast+
    obtain b2 s2 where s2: "add_space bp (?nc + length ?l) s1 = (Some b2, s2)" "?nc + length ?l \<le> snd b2" "becomes s1 (lines s1) s2"
      using add_space_becomes [OF b1(1)] by blast
    note b2 = becomesD [OF s2(3)]
    let ?new = "new_indent opt ?nc"
    have rm: "room b2 (length ?new + (length ?l - idx)) = Some ()"
      using s2(2) length_new_indent [of opt ?nc] by (simp add: room_def)
    have n2: "from \<le> length (lines s2)" using fr b1(2) b2(2) by simp
    obtain s3 where s3: "db_set from (?new @ drop idx ?l) s2 = Some (False, s3)" "becomes s2 ((lines s2)[from - 1 := ?new @ drop idx ?l]) s3"
      using db_set_becomes [OF b2(1) Suc.prems(3) n2] by blast
    have fl: "?f ?l = ?new @ drop idx ?l" using False i by (auto simp: shifted_def)
    have "(lines s)[from - 1 := ?f ?l] = L" unfolding L_def using fr Suc.prems(3) by (simp add: upd_conv_take_nth_drop)
    hence e3: "edits s L s3"
      using edits_becomes [OF edits_becomes [OF becomes_edits [OF s1(2)] s2(3)] s3(2)] b1(2) b2(2) fl by simp
    let ?s4 = "if sp_lno (cur s1) = from then upd_cur (\<lambda>sc. sc\<lparr>sp_cno := if idx < length ?new then sp_cno sc + (length ?new - idx)
        else if idx - length ?new \<le> sp_cno sc then sp_cno sc - (idx - length ?new) else sp_cno sc\<rparr>) s3 else s3"
    have "screen_ok (sc\<lparr>sp_cno := x\<rparr>) = screen_ok sc" for sc x by simp
    hence e4: "edits s L ?s4" using e3 by (simp add: edits_upd_cur)
    have "shift_loop opt rl sw (Suc n) from curset bp s = shift_loop opt rl sw n (from + 1) (curset \<or> sp_lno (cur s1) = from) b2 ?s4"
      using s1(1) nl nc i assms(5) s2(1) rm s3(1) by (auto simp: Let_def)
    thus ?thesis using e4 by blast
  qed
  then obtain cs b2 s2 where s2: "shift_loop opt rl sw (Suc n) from curset bp s = shift_loop opt rl sw n (from + 1) cs b2 s2" "edits s L s2" by blast
  have t2: "editing s2" "text_ok s2" "0 < from + 1" "from + 1 + n \<le> length (lines s2) + 1"
    using editsD [OF s2(2)] Suc.prems by (simp_all add: L_def)
  obtain cs' bp' s' where r: "shift_loop opt rl sw n (from + 1) cs b2 s2 = Some (False, cs', bp', s')"
    "edits s2 (take (from + 1 - 1) (lines s2) @ map ?f (take n (drop (from + 1 - 1) (lines s2))) @ drop (from + 1 - 1 + n) (lines s2)) s'"
    using Suc.IH [OF t2] by blast
  have l2: "lines s2 = L" by (rule editsD(2) [OF s2(2)])
  have tl: "length (take (from - 1) (lines s)) = from - 1" using fr by simp
  have "take from L = take (from - 1) (lines s) @ [?f ?l]" "drop from L = drop from (lines s)" "drop (from + n) L = drop (from + n) (lines s)"
    unfolding L_def using tl Suc.prems(3) by (simp_all add: take_Cons' drop_Cons' add.commute split: nat_diff_split)
  hence "take (from + 1 - 1) (lines s2) @ map ?f (take n (drop (from + 1 - 1) (lines s2))) @ drop (from + 1 - 1 + n) (lines s2)
      = take (from - 1) (lines s) @ map ?f (take (Suc n) (drop (from - 1) (lines s))) @ drop (from - 1 + Suc n) (lines s)"
    unfolding l2 dr using Suc.prems(3) by simp
  thus ?case using s2(1) r edits_trans [OF s2(2) r(2)] by auto
qed

lemma shift_spec:
  assumes e: "editing s" "text_ok s" and r: "0 < m_lno (ea_addr1 c)" "m_lno (ea_addr1 c) \<le> m_lno (ea_addr2 c)" "m_lno (ea_addr2 c) \<le> length (lines s)"
    and o: "0 < o_tabstop opt" "0 < o_shiftwidth opt" and v: "ea_argv c = arg # rest"
  defines "a \<equiv> m_lno (ea_addr1 c)" and "b \<equiv> m_lno (ea_addr2 c)"
  defines "sw \<equiv> o_shiftwidth opt * length (takeWhile (\<lambda>c. c = CHR ''>'' \<or> c = CHR ''<'') arg)"
  shows "\<exists>s'. shift upper opt rl c s = Some (False, s') \<and>
    edits s (take (a - 1) (lines s) @ map (shifted opt rl sw) (take (b + 1 - a) (drop (a - 1) (lines s))) @ drop b (lines s)) s'"
proof -
  let ?ls = "take (a - 1) (lines s) @ map (shifted opt rl sw) (take (b + 1 - a) (drop (a - 1) (lines s))) @ drop b (lines s)"
  have hf: "has_file s" using editingD(1) [OF e(1)] by (simp add: base_def)
  obtain s1 where s1: "(if rl \<noteq> RETAB then cut upper None (ea_addr1 c) (ea_addr2 c) cut_lines s else Some (False, s)) = Some (False, s1)"
    "edits s (lines s) s1"
  proof (cases "rl = RETAB")
    case True thus ?thesis using that [of s] edits_refl [OF e(1)] by simp
  next
    case False
    have ro: "range_ok (cut_linemode cut_lines) (ea_addr1 c) (ea_addr2 c) (lines s)" using r by (simp add: range_ok_def cut_lines_def)
    have "\<exists>s1 cb. cut upper None (ea_addr1 c) (ea_addr2 c) cut_lines s = Some (False, s1) \<and> rebuffers s s1 \<and>
        cb_at (dcbp s1) s1 = Some cb \<and> cb_textq cb = range_text (cut_linemode cut_lines) (ea_addr1 c) (ea_addr2 c) (lines s) \<and> cb_lmode cb = cut_linemode cut_lines"
      by (rule cut_default_lines [OF e ro]) simp
    then obtain s1 where "cut upper None (ea_addr1 c) (ea_addr2 c) cut_lines s = Some (False, s1)" "rebuffers s s1" by (elim exE conjE) (rule that)
    thus ?thesis using that [of s1] False rebuffers_edits by simp
  qed
  obtain bp s2 where s2: "get_space 256 s1 = (Some bp, s2)" "becomes s1 (lines s1) s2"
    using get_space_becomes [OF editsD(1) [OF s1(2)]] by blast
  have e2: "edits s (lines s) s2" using edits_becomes [OF s1(2) s2(2)] editsD(2) [OF s1(2)] by simp
  note d2 = editsD [OF e2]
  have fr: "0 < a" "a + (b + 1 - a) \<le> length (lines s2) + 1" using r d2(2) by (simp_all add: a_def b_def)
  obtain cs bp' s3 where s3: "shift_loop opt rl sw (b + 1 - a) a False bp s2 = Some (False, cs, bp', s3)"
    "edits s2 (take (a - 1) (lines s2) @ map (shifted opt rl sw) (take (b + 1 - a) (drop (a - 1) (lines s2))) @ drop (a - 1 + (b + 1 - a)) (lines s2)) s3"
    using shift_loop_spec [OF d2(1) d2(3) [OF e(2)] fr o(1)] by blast
  have "a - 1 + (b + 1 - a) = b" using r by (simp add: a_def b_def)
  hence e3: "edits s ?ls s3" using edits_trans [OF e2 s3(2)] d2(2) by simp
  obtain s4 where s4: "(if cs then Some s3 else do { (_, cno, s4) \<leftarrow> nonblank b 0 (set_cursor b 0 s3); Some (upd_cur (\<lambda>sc. sc\<lparr>sp_cno := cno\<rparr>) s4) }) = Some s4"
    "edits s ?ls s4"
  proof (cases cs)
    case True thus ?thesis using that e3 by simp
  next
    case False
    have ec: "edits s ?ls (set_cursor b 0 s3)" by (rule edits_set_cursor [OF e3])
    obtain x y s4 where n: "nonblank b 0 (set_cursor b 0 s3) = Some (x, y, s4)" "becomes (set_cursor b 0 s3) (lines (set_cursor b 0 s3)) s4"
      using nonblank_total [OF editsD(1) [OF ec]] by blast
    have "edits s ?ls s4" using edits_becomes [OF ec n(2)] editsD(2) [OF ec] by simp
    hence "edits s ?ls (upd_cur (\<lambda>sc. sc\<lparr>sp_cno := y\<rparr>) s4)" by (rule edits_upd_cur) simp_all
    thus ?thesis using that False n(1) by simp
  qed
  have e5: "edits s ?ls (free_space bp' s4)"
    using edits_becomes [OF s4(2) free_space_becomes [OF editsD(1) [OF s4(2)]]] editsD(2) [OF s4(2)] by simp
  let ?s6 = "upd_cur (\<lambda>sc. sc\<lparr>sp_shift := sp_shift sc + (b + 1 - a)\<rparr>) (free_space bp' s4)"
  have "edits s ?ls ?s6" by (rule edits_upd_cur [OF e5]) simp_all
  moreover have "shift upper opt rl c s = Some (False, ?s6)"
    using hf o(2) v s1(1) s2(1) s3(1) s4(1) unfolding shift_def Let_def a_def [symmetric] b_def [symmetric] by (simp add: sw_def)
  ultimately show ?thesis by blast
qed

subsection \<open>The commands\<close>


text \<open>C10: j joins the addressed lines to one, by the rules for white space, also when fewer lines are left than were asked
  for; it never writes beyond its buffer, and leaves the cursor within the line.\<close>
theorem ex_join_joins:
  assumes "editing s" "text_ok s" "0 < m_lno (ea_addr1 c)" "m_lno (ea_addr1 c) < length (lines s)"
    and "b = m_lno (ea_addr2 c) + (if ea_addr_def c \<or> ea_addrcnt c = 1 then 1 else 0)" "m_lno (ea_addr1 c) \<le> b"
    and "t = joins (ea_force c) (take (min b (length (lines s)) + 1 - m_lno (ea_addr1 c)) (drop (m_lno (ea_addr1 c) - 1) (lines s)))"
  shows "\<exists>s'. ex_join c s = Some (False, s') \<and>
    edits s (take (m_lno (ea_addr1 c) - 1) (lines s) @ [t] @ drop (min b (length (lines s))) (lines s)) s' \<and>
    (t \<noteq> [] \<longrightarrow> sp_cno (cur s') < length t)"
  using ex_join_spec [OF assms(1,2) refl assms(3,4,5,6)] assms(7) by blast

text \<open>
  C12: \<^verbatim>\<open>>\<close> indents every addressed line that is not empty by the shift width, once for every character of the command,
  and keeps its text; \<^verbatim>\<open><\<close> by as much then brings every line back to its text and its indent, written anew as \<^verbatim>\<open>retab\<close>
  writes it; no other line changes.
\<close>
theorem shift_right_left:
  assumes "editing s" "text_ok s" "0 < m_lno (ea_addr1 c)" "m_lno (ea_addr1 c) \<le> m_lno (ea_addr2 c)" "m_lno (ea_addr2 c) \<le> length (lines s)"
    and "0 < o_tabstop opt" "0 < o_shiftwidth opt" "ea_argv c = arg # rest" "hd arg \<in> {CHR ''>'', CHR ''<''}" "arg \<noteq> []"
  defines "a \<equiv> m_lno (ea_addr1 c)" and "b \<equiv> m_lno (ea_addr2 c)"
    and "cols \<equiv> o_shiftwidth opt * length (takeWhile (\<lambda>c. c = CHR ''>'' \<or> c = CHR ''<'') arg)"
  shows "\<exists>s1 s2 s3. ex_shiftr upper opt c s = Some (False, s1) \<and> ex_shiftl upper opt c s1 = Some (False, s2) \<and>
    ex_retab upper opt c s = Some (False, s3) \<and> lines s2 = lines s3 \<and>
    length (lines s1) = length (lines s) \<and> length (lines s2) = length (lines s) \<and>
    (\<forall>i < length (lines s).
       if a - 1 \<le> i \<and> i < b
       then indented (o_tabstop opt) cols (lines s ! i) (lines s1 ! i) \<and> indented (o_tabstop opt) 0 (lines s ! i) (lines s2 ! i)
       else lines s1 ! i = lines s ! i \<and> lines s2 ! i = lines s ! i)"
proof -
  let ?a = "m_lno (ea_addr1 c)" and ?b = "m_lno (ea_addr2 c)"
  define sw where "sw = o_shiftwidth opt * length (takeWhile (\<lambda>c. c = CHR ''>'' \<or> c = CHR ''<'') arg)"
  have sw: "0 < sw" using assms(7,9,10) by (cases arg) (auto simp: sw_def)
  let ?f = "\<lambda>rl ls. take (?a - 1) ls @ map (shifted opt rl sw) (take (?b + 1 - ?a) (drop (?a - 1) ls)) @ drop ?b ls"
  obtain s1 where s1: "ex_shiftr upper opt c s = Some (False, s1)" "edits s (?f SHIFT_RIGHT (lines s)) s1"
    using shift_spec [OF assms(1-8)] unfolding ex_shiftr_def sw_def by blast
  obtain s3 where s3: "ex_retab upper opt c s = Some (False, s3)" "edits s (?f RETAB (lines s)) s3"
    using shift_spec [OF assms(1-8)] unfolding ex_retab_def sw_def by blast
  have l1: "?b \<le> length (lines s1)" "text_ok s1" using editsD [OF s1(2)] assms(2-5) by simp_all
  obtain s2 where s2: "ex_shiftl upper opt c s1 = Some (False, s2)" "edits s1 (?f SHIFT_LEFT (lines s1)) s2"
    using shift_spec [OF editsD(1) [OF s1(2)] l1(2) assms(3,4) l1(1) assms(6-8)] unfolding ex_shiftl_def sw_def by blast
  have len: "length (take (?a - 1) (lines s)) = ?a - 1" "length (map (shifted opt SHIFT_RIGHT sw) (take (?b + 1 - ?a) (drop (?a - 1) (lines s)))) = ?b + 1 - ?a"
    using assms(3-5) by simp_all
  have twice: "?f SHIFT_LEFT (?f SHIFT_RIGHT ls) = ?f RETAB ls"
    if "length ls = length (lines s)" for ls
  proof -
    let ?x = "take (?a - 1) ls" and ?m = "take (?b + 1 - ?a) (drop (?a - 1) ls)" and ?z = "drop ?b ls"
    let ?y = "map (shifted opt SHIFT_RIGHT sw) ?m"
    have l: "length ?x = ?a - 1" "length ?y = ?b + 1 - ?a" "?b - length ?x = ?b + 1 - ?a" "?b + 1 - ?a - (?b + 1 - ?a) = 0"
      using assms(3-5) that by auto
    have "take (?a - 1) (?x @ ?y @ ?z) = ?x" "drop (?a - 1) (?x @ ?y @ ?z) = ?y @ ?z" using l(1) by simp_all
    moreover have "take (?b + 1 - ?a) (?y @ ?z) = ?y" using l(2) by simp
    moreover have "drop ?b (?x @ ?y @ ?z) = ?z"
    proof -
      have "?b = length (?x @ ?y)" using l(1,2) assms(3,4) by simp
      thus ?thesis by (metis append.assoc append_eq_conv_conj)
    qed
    ultimately show ?thesis using shifted_right_left [OF assms(6) sw] by (simp only: map_map comp_def)
  qed
  have l23: "lines s2 = lines s3"
    unfolding editsD(2) [OF s2(2)] editsD(2) [OF s1(2)] editsD(2) [OF s3(2)] by (rule twice) (rule refl)
  have same: "length (?f rl (lines s)) = length (lines s)" for rl using assms(3-5) by simp
  have "lines s1 = ?f SHIFT_RIGHT (lines s)" "lines s2 = ?f RETAB (lines s)"
    using editsD(2) [OF s1(2)] editsD(2) [OF s3(2)] l23 by simp_all
  then have "length (lines s1) = length (lines s)" "length (lines s2) = length (lines s)"
    "\<And>i. i < length (lines s) \<Longrightarrow> lines s1 ! i = (if ?a - 1 \<le> i \<and> i < ?b then shifted opt SHIFT_RIGHT sw (lines s ! i) else lines s ! i)"
    "\<And>i. i < length (lines s) \<Longrightarrow> lines s2 ! i = (if ?a - 1 \<le> i \<and> i < ?b then shifted opt RETAB sw (lines s ! i) else lines s ! i)"
    using same nth_mapped_range [OF assms(3-5)] by (simp_all only:)
  then show ?thesis using s1(1) s2(1) s3(1) l23 shifted_indented [OF assms(6), where sw = sw]
    unfolding a_def b_def cols_def sw_def [symmetric] by simp
qed


text \<open>C11: co(py) inserts the addressed lines after the destination, which may lie within them, with the cursor on the last line copied;
  deleting those lines again restores the file.\<close>
theorem copy_then_delete:
  assumes "editing s" "text_ok s" "0 < m_lno (ea_addr1 c)" "m_lno (ea_addr1 c) \<le> m_lno (ea_addr2 c)" "m_lno (ea_addr2 c) \<le> length (lines s)"
    and "ea_lineno c \<le> length (lines s)" "n = m_lno (ea_addr2 c) + 1 - m_lno (ea_addr1 c)"
    and "d = c\<lparr>ea_addr1 := \<lparr>m_lno = ea_lineno c + 1, m_cno = 0\<rparr>, ea_addr2 := \<lparr>m_lno = ea_lineno c + n, m_cno = 0\<rparr>, ea_buffer := None\<rparr>"
  shows "\<exists>s1 s2. ex_copy c s = Some (False, s1) \<and> sp_lno (cur s1) = ea_lineno c + n \<and>
    lines s1 = take (ea_lineno c) (lines s) @ take n (drop (m_lno (ea_addr1 c) - 1) (lines s)) @ drop (ea_lineno c) (lines s) \<and>
    ex_delete upper d s1 = Some (False, s2) \<and> lines s2 = lines s"
proof -
  let ?blk = "take n (drop (m_lno (ea_addr1 c) - 1) (lines s))"
  obtain s1 where s1: "ex_copy c s = Some (False, s1)" "edits s (take (ea_lineno c) (lines s) @ ?blk @ drop (ea_lineno c) (lines s)) s1"
    "sp_lno (cur s1) = ea_lineno c + length ?blk"
    using ex_copy_spec [OF assms(1-6)] assms(7) by blast
  have l: "length ?blk = n" "0 < n" using assms(3-5,7) by simp_all
  note e1 = editsD [OF s1(2)]
  have r: "0 < m_lno (ea_addr1 d)" "m_lno (ea_addr1 d) \<le> m_lno (ea_addr2 d)" "m_lno (ea_addr2 d) \<le> length (lines s1)"
    using l e1(2) assms(6) by (simp_all add: assms(8))
  have u: "ea_buffer d = Some nm \<Longrightarrow> is_upper nm \<Longrightarrow> upper = 1" for nm by (simp add: assms(8))
  have "\<exists>s'. ex_delete upper d s1 = Some (False, s') \<and>
      edits s1 (take (m_lno (ea_addr1 d) - 1) (lines s1) @ drop (m_lno (ea_addr2 d)) (lines s1)) s' \<and>
      sp_lno (cur s') = min (m_lno (ea_addr1 d)) (length (take (m_lno (ea_addr1 d) - 1) (lines s1) @ drop (m_lno (ea_addr2 d)) (lines s1)))"
    by (rule ex_delete_spec [OF e1(1) e1(3) [OF assms(2)] r]) (rule u)
  then obtain s2 where s2: "ex_delete upper d s1 = Some (False, s2)"
    "edits s1 (take (m_lno (ea_addr1 d) - 1) (lines s1) @ drop (m_lno (ea_addr2 d)) (lines s1)) s2" by blast
  have "take (ea_lineno c) (lines s1) @ drop (ea_lineno c + n) (lines s1) = lines s"
    unfolding e1(2) using l(1) assms(6) by simp
  hence "lines s2 = lines s" using editsD(2) [OF s2(2)] by (simp add: assms(8))
  thus ?thesis using s1 s2(1) e1(2) l(1) by auto
qed

subsection \<open>Examples\<close>

text \<open>A command with addresses, a destination, no buffer, and arguments.\<close>

definition addressed :: "nat \<Rightarrow> nat \<Rightarrow> nat \<Rightarrow> bytes list \<Rightarrow> exa" where
  "addressed a b d args = \<lparr>ea_addr1 = \<lparr>m_lno = a, m_cno = 0\<rparr>, ea_addr2 = \<lparr>m_lno = b, m_cno = 0\<rparr>, ea_lineno = d, ea_addrcnt = 2,
     ea_addr_def = False, ea_force = False, ea_buffer = None, ea_argv = args\<rparr>"

lemma opened_cursor [simp]: "cursor_of (opened ls) = \<lparr>m_lno = 1, m_cno = 0\<rparr>"
  by (simp add: cursor_of_def opened_screen_def)


lemma ex_join_joins_witness:
  "\<exists>s'. ex_join ((addressed 2 9 0 [])\<lparr>ea_force := False\<rparr>) (opened [''a'', ''b.'', '''', ''  c'', '')d'', ''e'']) = Some (False, s') \<and>
    lines s' = [''a'', ''b.  c)d e'']"
  using ex_join_joins [of "opened [''a'', ''b.'', '''', ''  c'', '')d'', ''e'']" "addressed 2 9 0 []" 9]
  by (auto simp: addressed_def joins_def glue_def join_gap_def is_blank_def edits_def)

lemma shift_right_left_witness:
  "\<exists>s1 s2. ex_shiftr 1 \<lparr>o_shiftwidth = 4, o_tabstop = 8, o_expandtab = False\<rparr> (addressed 1 2 0 [''>>'']) (opened [''  a'', [], ''b'']) = Some (False, s1) \<and>
    ex_shiftl 1 \<lparr>o_shiftwidth = 4, o_tabstop = 8, o_expandtab = False\<rparr> (addressed 1 2 0 [''>>'']) s1 = Some (False, s2) \<and>
    line_text (lines s1 ! 0) = ''a'' \<and> indent_cols 8 (lines s1 ! 0) = 10 \<and> lines s1 ! 1 = [] \<and> lines s1 ! 2 = ''b'' \<and>
    line_text (lines s2 ! 0) = ''a'' \<and> indent_cols 8 (lines s2 ! 0) = 2 \<and> lines s2 ! 1 = [] \<and> lines s2 ! 2 = ''b''"
proof -
  define s opt where "s = opened [''  a'', [], ''b'']" and "opt = \<lparr>o_shiftwidth = 4, o_tabstop = 8, o_expandtab = False\<rparr>"
  have s: "editing s" "text_ok s" "lines s = [''  a'', [], ''b'']" by (simp_all add: s_def)
  have o: "o_tabstop opt = 8" "o_shiftwidth opt = 4" by (simp_all add: opt_def)
  define ea where "ea = addressed 1 2 0 [''>>'']"
  have c: "m_lno (ea_addr1 ea) = 1" "m_lno (ea_addr2 ea) = 2" "ea_argv ea = [''>>'']" by (simp_all add: ea_def addressed_def)
  have w: "length (takeWhile (\<lambda>c. c = CHR ''>'' \<or> c = CHR ''<'') ''>>'') = 2" by simp
  have h: "0 < (1::nat)" "1 \<le> (2::nat)" "2 \<le> length (lines s)" "0 < (8::nat)" "0 < (4::nat)" "[''>>''] = [''>>'']"
    "hd ''>>'' \<in> {CHR ''>'', CHR ''<''}" "''>>'' \<noteq> []" by (simp_all add: s(3))
  have t: "line_text ''  a'' = ''a''" "indent_cols 8 ''  a'' = 2" by (simp_all add: line_text_def indent_cols_def is_blank_def)
  have "\<exists>s1 s2. ex_shiftr 1 opt ea s = Some (False, s1) \<and> ex_shiftl 1 opt ea s1 = Some (False, s2) \<and>
    (\<forall>i < length (lines s). if 1 - 1 \<le> i \<and> i < 2
       then indented 8 (4 * 2) (lines s ! i) (lines s1 ! i) \<and> indented 8 0 (lines s ! i) (lines s2 ! i)
       else lines s1 ! i = lines s ! i \<and> lines s2 ! i = lines s ! i)"
    using shift_right_left [OF s(1,2), of ea opt "''>>''" "[]" 1, unfolded c o w, OF h] by blast
  then obtain s1 s2 where r: "ex_shiftr 1 opt ea s = Some (False, s1)" "ex_shiftl 1 opt ea s1 = Some (False, s2)"
    and i: "\<forall>i < length (lines s). if 1 - 1 \<le> i \<and> i < 2
       then indented 8 (4 * 2) (lines s ! i) (lines s1 ! i) \<and> indented 8 0 (lines s ! i) (lines s2 ! i)
       else lines s1 ! i = lines s ! i \<and> lines s2 ! i = lines s ! i"
    by blast
  show ?thesis using r i [rule_format, of 0] i [rule_format, of 1] i [rule_format, of 2]
    unfolding s_def [symmetric] opt_def [symmetric] ea_def [symmetric] by (auto simp: s(3) indented_def t)
qed
lemma copy_then_delete_witness:
  "\<exists>s1 s2. ex_copy (addressed 1 2 1 []) (opened [''a'', ''b'']) = Some (False, s1) \<and> lines s1 = [''a'', ''a'', ''b'', ''b''] \<and>
    ex_delete 1 (addressed 2 3 1 []) s1 = Some (False, s2) \<and> lines s2 = [''a'', ''b'']"
  using copy_then_delete [of "opened [''a'', ''b'']" "addressed 1 2 1 []" 2 "addressed 2 3 1 []" 1]
  by (auto simp: addressed_def eval_nat_numeral)

text \<open>
  Marks on lines that are moved down go with them. On lines that are moved up they do not: which marks to carry along is
  decided by the lines between the source and the destination, counted upwards, and there are none. Such a mark is deleted.
\<close>

definition mark_a :: "nat \<Rightarrow> lmark" where
  "mark_a n = \<lparr>lm_lno = n, lm_cno = 0, lm_name = CHR ''a'', lm_deleted = False, lm_userset = True\<rparr>"

lemma move_up_drops_mark:
  "map_option (\<lambda>(e, s). (lines s, map (\<lambda>m. (lm_lno m, lm_deleted m)) (marks s)))
     (ex_move (\<lambda>_. False) (addressed 1 1 2 []) ((opened [''a'', ''b''])\<lparr>marks := [mark_a 1]\<rparr>)) = Some ([''b'', ''a''], [(2, False)])"
  "map_option (\<lambda>(e, s). (lines s, map (\<lambda>m. (lm_lno m, lm_deleted m)) (marks s)))
     (ex_move (\<lambda>_. False) (addressed 2 2 0 []) ((opened [''a'', ''b''])\<lparr>marks := [mark_a 2]\<rparr>)) = Some ([''b'', ''a''], [(3, True)])"
  by code_simp+

text \<open>
  The buffer for the line is the editor's shared one; when a long line makes it grow and \<^verbatim>\<open>realloc\<close> moves it, the
  shared one has been freed, and stays marked as in use for ever.
\<close>

lemma move_loses_shared_buffer:
  "map_option (\<lambda>(e, s). (e, tmp_inuse s))
     (ex_move (\<lambda>_. True) (addressed 1 1 2 []) (opened [replicate 300 (CHR ''x''), ''b''])) = Some (False, True)"
  by code_simp

end
