(* ===== verification/ViCase.thy ===== *)
theory ViCase
  imports ExMove ViOps
begin

section \<open>Upper and lower case (vi/v_ulcase.c)\<close>

text \<open>
  \<^verbatim>\<open>~\<close> with a count, and \<^verbatim>\<open>~\<close> as an operator on the range of a motion. The class of a character and its
  other case are those of ASCII.

  The lemmas say that the command ends whatever its count is, which characters it toggles, where the cursor is, and that
  a second one takes it all back; every change is a recorded edit. Two ways in which it goes wrong are shown by examples: on an empty line
  the count runs down without leaving the line, and the operator looks at the byte behind its copy of a line.
\<close>

subsection \<open>Operations\<close>

definition toggle :: "char \<Rightarrow> char" where
  "toggle c = (if is_lower c then to_upper c else if is_upper c then to_lower c else c)"

text \<open>
  \<^verbatim>\<open>ulcase\<close> on the bytes \<open>scno\<close> to \<open>ecno\<close> of the copy; \<open>junk\<close> is what the buffer holds behind it. Bytes beyond the
  buffer are undefined.
\<close>

definition any_letter :: "(nat \<Rightarrow> char) \<Rightarrow> bytes \<Rightarrow> nat \<Rightarrow> nat \<Rightarrow> bool" where
  "any_letter junk lp scno ecno =
     list_ex (\<lambda>i. let c = (if i < length lp then lp ! i else junk (i - length lp)) in is_lower c \<or> is_upper c) [scno..<ecno + 1]"

definition ulcase :: "(nat \<Rightarrow> char) \<Rightarrow> nat \<Rightarrow> bytes \<Rightarrow> nat \<Rightarrow> nat \<Rightarrow> ed \<Rightarrow> (bool \<times> ed) option" where
  "ulcase junk lno lp scno ecno s =
     (case get_space (length lp) s of
        (None, s1) \<Rightarrow> Some (True, s1)
      | (Some bp, s1) \<Rightarrow>
          do {
            _ \<leftarrow> (if scno \<le> ecno then room bp (ecno + 1) else Some ());
            let text = map (\<lambda>i. if scno \<le> i \<and> i \<le> ecno then toggle (lp ! i) else lp ! i) [0..<length lp];
            (e, s2) \<leftarrow> (if any_letter junk lp scno ecno then db_set lno text s1 else Some (False, s1));
            Some (e, free_space bp s2)
          })"

text \<open>
  The loop of \<^verbatim>\<open>v_ulcase\<close>; \<open>fcno\<close> is the column of the final cursor. The result is the failure flag, the
  line and that column. All of it is \<^verbatim>\<open>size_t\<close> arithmetic.
\<close>

function ulcase_loop :: "(nat \<Rightarrow> char) \<Rightarrow> nat \<Rightarrow> nat \<Rightarrow> nat \<Rightarrow> nat \<Rightarrow> ed \<Rightarrow> (bool \<times> nat \<times> nat \<times> ed) option" where
  "ulcase_loop junk lno cno cnt fcno s =
     (if cnt = 0 then Some (False, lno, fcno, s)
      else case db_get lno False s of
        None \<Rightarrow> None
      | Some (e, p, s1) \<Rightarrow>
          if e then Some (if lno = 1 then (True, lno, fcno, s1) else (False, lno - 1, fcno, s1))
          else if p = [] then ulcase_loop junk lno 0 (cnt - 1) 0 s1
          else if length p \<le> cno_add cno cnt then
            (let cnt' = (cnt + cno - length p) mod (SIZE_MAX + 1) in
             case ulcase junk lno p cno (length p - 1) s1 of
               None \<Rightarrow> None
             | Some (e, s2) \<Rightarrow>
                 if e then Some (True, lno, length p - 1, s2)
                 else ulcase_loop junk (if cnt' = 0 then lno else lno + 1) 0 cnt' (length p - 1) s2)
          else
            (let lcnt = cno_prev (cno_add cno cnt) in
             case ulcase junk lno p cno lcnt s1 of
               None \<Rightarrow> None
             | Some (e, s2) \<Rightarrow> Some (e, lno, cno_next lcnt, s2)))"
  by pat_completeness auto

termination
proof (relation "measures [\<lambda>(junk, lno, cno, cnt, fcno, s). if cno = 0 then 0 else 1, \<lambda>(junk, lno, cno, cnt, fcno, s). cnt]", goal_cases)
  case (3 junk lno cno cnt fcno s r e q p s1 cnt' r2 e2 s2)
  have "(cnt - length p) mod (SIZE_MAX + 1) \<le> cnt - length p" by simp
  moreover have "cnt - length p < cnt" using 3 by (cases p) simp_all
  ultimately have "(cnt - length p) mod (SIZE_MAX + 1) < cnt" by (rule le_less_trans)
  thus ?case using 3 by auto
qed auto

declare ulcase_loop.simps [simp del]

definition v_ulcase :: "(nat \<Rightarrow> char) \<Rightarrow> vicmd \<Rightarrow> ed \<Rightarrow> (bool \<times> vicmd \<times> ed) option" where
  "v_ulcase junk vp s =
     do {
       (e, lno, fcno, s1) \<leftarrow> ulcase_loop junk (m_lno (m_start vp)) (m_cno (m_start vp)) (vp_cnt vp) (m_cno (m_final vp)) s;
       let m = (m_final vp)\<lparr>m_cno := fcno\<rparr>;
       Some (e, vp\<lparr>m_final := if e then m else m\<lparr>m_lno := lno\<rparr>\<rparr>, s1)
     }"

text \<open>The operator. The end of the range is inclusive, and the length of the line where the line is taken whole.\<close>

fun mulcase_loop :: "(nat \<Rightarrow> char) \<Rightarrow> vicmd \<Rightarrow> nat \<Rightarrow> nat \<Rightarrow> ed \<Rightarrow> (bool \<times> ed) option" where
  "mulcase_loop junk vp n lno s =
     do {
       (e, p, s1) \<leftarrow> db_get lno False s;
       if e then Some (True, s1) else do {
       (e, s2) \<leftarrow> (if p = [] then Some (False, s1)
                   else ulcase junk lno p (if lno = m_lno (m_start vp) then m_cno (m_start vp) else 0)
                          (if \<not> vm_lmode vp \<and> lno = m_lno (m_stop vp) then m_cno (m_stop vp) else length p) s1);
       if e then Some (True, s2)
       else case n of 0 \<Rightarrow> Some (False, s2) | Suc n' \<Rightarrow> mulcase_loop junk vp n' (lno + 1) s2
     }}"

definition v_mulcase :: "(nat \<Rightarrow> char) \<Rightarrow> vicmd \<Rightarrow> ed \<Rightarrow> (bool \<times> vicmd \<times> ed) option" where
  "v_mulcase junk vp s =
     do {
       (e, s1) \<leftarrow> mulcase_loop junk vp (m_lno (m_stop vp) - m_lno (m_start vp)) (m_lno (m_start vp)) s;
       Some (e, vp, s1)
     }"

subsection \<open>Toggling within a line\<close>

definition toggles :: "nat \<Rightarrow> nat \<Rightarrow> bytes \<Rightarrow> bytes" where
  "toggles c n l = take c l @ map toggle (take n (drop c l)) @ drop (c + n) l"

lemma length_toggles [simp]: "length (toggles c n l) = length l"
  by (simp add: toggles_def)

lemma toggle_other: "\<not> is_lower c \<Longrightarrow> \<not> is_upper c \<Longrightarrow> toggle c = c"
  by (simp add: toggle_def)

lemma toggles_map: "map (\<lambda>i. if c \<le> i \<and> i < c + n then toggle (l ! i) else l ! i) [0..<length l] = toggles c n l"
  by (rule nth_equalityI) (auto simp: toggles_def nth_append)

lemma toggles_same:
  assumes "\<And>i. c \<le> i \<Longrightarrow> i < c + n \<Longrightarrow> i < length l \<Longrightarrow> \<not> is_lower (l ! i) \<and> \<not> is_upper (l ! i)"
  shows "toggles c n l = l"
  unfolding toggles_map [symmetric] by (rule nth_equalityI) (use assms toggle_other in auto)

text \<open>What the commands do to the lines from the cursor on, and where the cursor ends.\<close>

fun toggled :: "nat \<Rightarrow> nat \<Rightarrow> bytes list \<Rightarrow> bytes list" where
  "toggled c n [] = []"
| "toggled c n (l # ls) =
     (if n = 0 \<or> l = [] then l # ls else toggles c n l # toggled 0 (n - (length l - c)) ls)"

fun toggle_end :: "nat \<Rightarrow> nat \<Rightarrow> nat \<Rightarrow> nat \<Rightarrow> bytes list \<Rightarrow> nat \<times> nat" where
  "toggle_end lno c n f [] = (if n = 0 then (lno, f) else (lno - 1, f))"
| "toggle_end lno c n f (l # ls) =
     (if n = 0 then (lno, f)
      else if l = [] then (lno, 0)
      else if c + n < length l then (lno, c + n)
      else toggle_end (if c + n = length l then lno else lno + 1) 0 (c + n - length l) (length l - 1) ls)"

lemma ulcase_spec:
  assumes e: "editing s" "text_ok s" and n: "0 < lno" "lno \<le> length (lines s)" and l: "l = lines s ! (lno - 1)"
    and r: "c \<le> d" "d < length l"
  shows "\<exists>s'. ulcase junk lno l c d s = Some (False, s') \<and> becomes s ((lines s)[lno - 1 := toggles c (Suc d - c) l]) s'"
proof -
  obtain bp s1 where g: "get_space (length l) s = (Some bp, s1)" "length l \<le> snd bp" "becomes s (lines s) s1"
    by (rule get_space_becomes [OF e(1)])
  note b1 = becomesD [OF g(3)]
  have t: "map (\<lambda>i. if c \<le> i \<and> i \<le> d then toggle (l ! i) else l ! i) [0..<length l] = toggles c (Suc d - c) l"
    unfolding toggles_map [symmetric] using r by auto
  have "\<exists>s2. (if any_letter junk l c d then db_set lno (toggles c (Suc d - c) l) s1 else Some (False, s1)) = Some (False, s2) \<and>
      becomes s ((lines s)[lno - 1 := toggles c (Suc d - c) l]) s2"
  proof (cases "any_letter junk l c d")
    case True
    obtain s2 where "db_set lno (toggles c (Suc d - c) l) s1 = Some (False, s2)"
      "becomes s1 ((lines s1)[lno - 1 := toggles c (Suc d - c) l]) s2"
      using db_set_becomes [OF b1(1), of lno] n b1(2) by auto
    thus ?thesis using True becomes_trans [OF g(3)] b1(2) by auto
  next
    case False
    have "toggles c (Suc d - c) l = l"
      by (rule toggles_same) (use False r in \<open>auto simp: any_letter_def list_ex_iff Let_def less_Suc_eq\<close>)
    thus ?thesis using False g(3) l n by simp
  qed
  then obtain s2 where s2: "(if any_letter junk l c d then db_set lno (toggles c (Suc d - c) l) s1 else Some (False, s1)) = Some (False, s2)"
      "becomes s ((lines s)[lno - 1 := toggles c (Suc d - c) l]) s2" by blast
  have "room bp (d + 1) = Some ()" using g(2) r by (simp add: room_def)
  hence "ulcase junk lno l c d s = Some (False, free_space bp s2)"
    using g(1) s2(1) r(1) unfolding ulcase_def by (cases "any_letter junk l c d") (simp_all add: t Let_def del: upt_Suc)
  moreover have "becomes s ((lines s)[lno - 1 := toggles c (Suc d - c) l]) (free_space bp s2)"
    using becomes_trans [OF s2(2) free_space_becomes [OF becomesD(1) [OF s2(2)]]] becomesD(2) [OF s2(2)] by simp
  ultimately show ?thesis by blast
qed

subsection \<open>The command\<close>

lemma toggled_0 [simp]: "toggled c 0 ls = ls"
  by (cases ls) simp_all

lemma toggle_end_0 [simp]: "toggle_end lno c 0 f ls = (lno, f)"
  by (cases ls) simp_all

text \<open>On an empty line the count runs down and nothing else happens.\<close>

lemma ulcase_loop_empty:
  assumes "editing s" "text_ok s" "0 < lno" "lno \<le> length (lines s)" "lines s ! (lno - 1) = []"
  shows "\<exists>s'. ulcase_loop junk lno c n f s = Some (False, lno, if n = 0 then f else 0, s') \<and> becomes s (lines s) s'"
  using assms
proof (induction n arbitrary: c f s)
  case 0
  thus ?case using becomes_refl by (subst ulcase_loop.simps) simp
next
  case (Suc n)
  obtain s1 where s1: "db_get lno False s = Some (False, [], s1)" "becomes s (lines s) s1" "text_ok s1"
    using db_get_becomes [OF Suc.prems(1,3,4,2), of False] Suc.prems(5) by auto
  note b = becomesD [OF s1(2)]
  obtain s' where s': "ulcase_loop junk lno 0 n 0 s1 = Some (False, lno, if n = 0 then 0 else 0, s')" "becomes s1 (lines s1) s'"
    using Suc.IH [of s1 0 0] b s1(3) Suc.prems(3-5) by auto
  have "ulcase_loop junk lno c (Suc n) f s = Some (False, lno, 0, s')"
    by (subst ulcase_loop.simps) (use s1(1) s'(1) in simp)
  thus ?case using becomes_trans [OF s1(2)] s'(2) b(2) by auto
qed

lemma drop_line:
  assumes "drop (lno - 1) ls = l # rest" "0 < lno"
  shows "lno \<le> length ls \<and> l = ls ! (lno - 1) \<and> rest = drop lno ls"
proof -
  have n: "lno - 1 < length ls" using assms(1) by (metis drop_eq_Nil leI list.distinct(1))
  have "drop (lno - 1) ls = ls ! (lno - 1) # drop (Suc (lno - 1)) ls" by (rule Cons_nth_drop_Suc [OF n, symmetric])
  thus ?thesis using assms n by simp
qed

lemma ulcase_loop_spec:
  assumes "editing s" "text_ok s" "0 < lno" "drop (lno - 1) (lines s) = ls" "ls = [] \<Longrightarrow> lno \<noteq> 1"
    "c + n \<le> SIZE_MAX" "\<And>l ls'. ls = l # ls' \<Longrightarrow> l \<noteq> [] \<Longrightarrow> c < length l"
  shows "\<exists>s'. ulcase_loop junk lno c n f s = Some (False, fst (toggle_end lno c n f ls), snd (toggle_end lno c n f ls), s') \<and>
    becomes s (take (lno - 1) (lines s) @ toggled c n ls) s'"
  using assms
proof (induction ls arbitrary: lno c n f s)
  case Nil
  have tk: "take (lno - 1) (lines s) = lines s" using Nil.prems(4) by simp
  show ?case
  proof (cases "n = 0")
    case True
    thus ?thesis using becomes_refl [OF Nil.prems(1)] tk by (subst ulcase_loop.simps) simp
  next
    case False
    have "length (lines s) < lno" using Nil.prems(3,4) by auto
    then obtain s1 where s1: "db_get lno False s = Some (True, [], s1)" "keeps s s1"
      using db_get_beyond [OF editingD(1) [OF Nil.prems(1)], of lno False] editingD(4) [OF Nil.prems(1)] by blast
    have "ulcase_loop junk lno c n f s = Some (False, lno - 1, f, s1)"
      by (subst ulcase_loop.simps) (use False s1(1) Nil.prems(5) in simp)
    thus ?thesis using False tk keeps_becomes [OF s1(2) Nil.prems(1)] by simp
  qed
next
  case (Cons l ls)
  have n: "0 < lno" "lno \<le> length (lines s)" "l = lines s ! (lno - 1)" "ls = drop lno (lines s)"
    using drop_line [OF Cons.prems(4,3)] Cons.prems(3) by simp_all
  have cl: "l \<noteq> [] \<Longrightarrow> c < length l" using Cons.prems(7) by blast
  have whole: "lines s = take (lno - 1) (lines s) @ l # ls" using Cons.prems(4) append_take_drop_id [of "lno - 1" "lines s"] by simp
  consider (zero) "n = 0" | (empty) "n \<noteq> 0" "l = []" | (short) "n \<noteq> 0" "l \<noteq> []" "c + n < length l" | (long) "n \<noteq> 0" "l \<noteq> []" "length l \<le> c + n"
    by linarith
  thus ?case
  proof cases
    case zero
    thus ?thesis using becomes_refl [OF Cons.prems(1)] whole by (subst ulcase_loop.simps) simp
  next
    case empty
    thus ?thesis using ulcase_loop_empty [OF Cons.prems(1,2) n(1,2), of junk c n f] n(3) whole by simp
  next
    case short
    obtain s1 where s1: "db_get lno False s = Some (False, l, s1)" "becomes s (lines s) s1" "text_ok s1"
      using db_get_becomes [OF Cons.prems(1) n(1,2) Cons.prems(2), of False] n(3) by auto
    note b = becomesD [OF s1(2)]
    have cn: "cno_add c n = c + n" "cno_prev (c + n) = c + n - 1" using Cons.prems(6) short(1) by (simp_all add: cno_add_def)
    have nx: "cno_next (c + n - 1) = c + n" using Cons.prems(6) short(1) by simp
    have d: "Suc (c + n - 1) - c = n" "c \<le> c + n - 1" "c + n - 1 < length l" using short by simp_all
    obtain s' where s': "ulcase junk lno l c (c + n - 1) s1 = Some (False, s')"
        "becomes s1 ((lines s1)[lno - 1 := toggles c n l]) s'"
      using ulcase_spec [OF b(1) s1(3) n(1) _ _ d(2,3), of junk] n b(2) unfolding d(1) by auto
    have "ulcase_loop junk lno c n f s = Some (False, lno, c + n, s')"
      by (subst ulcase_loop.simps) (use short s1(1) s'(1) cn nx in simp)
    moreover have "(lines s)[lno - 1 := toggles c n l] = take (lno - 1) (lines s) @ toggles c n l # ls"
      using n by (simp add: upd_conv_take_nth_drop)
    ultimately show ?thesis using short becomes_trans [OF s1(2)] s'(2) b(2) cl by simp
  next
    case long
    obtain s1 where s1: "db_get lno False s = Some (False, l, s1)" "becomes s (lines s) s1" "text_ok s1"
      using db_get_becomes [OF Cons.prems(1) n(1,2) Cons.prems(2), of False] n(3) by auto
    note b = becomesD [OF s1(2)]
    have cn: "cno_add c n = c + n" using Cons.prems(6) by (simp add: cno_add_def)
    have c: "c < length l" using cl long by blast
    have tg: "toggles c (length l - c) l = toggles c n l" using long c by (simp add: toggles_def)
    have m: "(n + c - length l) mod (SIZE_MAX + 1) = c + n - length l" using Cons.prems(6) by (simp add: add.commute)
    have d: "Suc (length l - 1) - c = length l - c" "c \<le> length l - 1" "length l - 1 < length l" using c by simp_all
    obtain s2 where s2: "ulcase junk lno l c (length l - 1) s1 = Some (False, s2)"
        "becomes s1 ((lines s1)[lno - 1 := toggles c n l]) s2"
      using ulcase_spec [OF b(1) s1(3) n(1) _ _ d(2,3), of junk] n b(2) unfolding d(1) tg by auto
    have up: "(lines s)[lno - 1 := toggles c n l] = take (lno - 1) (lines s) @ toggles c n l # ls"
      using n by (simp add: upd_conv_take_nth_drop)
    have b2: "becomes s (take (lno - 1) (lines s) @ toggles c n l # ls) s2"
      using becomes_trans [OF s1(2)] s2(2) b(2) up by simp
    note e2 = becomesD [OF b2]
    have run: "ulcase_loop junk lno c n f s =
        ulcase_loop junk (if c + n - length l = 0 then lno else lno + 1) 0 (c + n - length l) (length l - 1) s2"
      by (subst ulcase_loop.simps) (use long s1(1) s2(1) cn m in \<open>simp add: Let_def\<close>)
    show ?thesis
    proof (cases "c + n = length l")
      case True
      hence "ulcase_loop junk lno c n f s = Some (False, lno, length l - 1, s2)"
        unfolding run by (subst ulcase_loop.simps) simp
      thus ?thesis using b2 long True c by simp
    next
      case False
      have len: "length (take (lno - 1) (lines s)) = lno - 1" using n by simp
      have "\<exists>s'. ulcase_loop junk (lno + 1) 0 (c + n - length l) (length l - 1) s2 =
            Some (False, fst (toggle_end (lno + 1) 0 (c + n - length l) (length l - 1) ls), snd (toggle_end (lno + 1) 0 (c + n - length l) (length l - 1) ls), s') \<and>
          becomes s2 (take (lno + 1 - 1) (lines s2) @ toggled 0 (c + n - length l) ls) s'"
      proof (rule Cons.IH)
        show "drop (lno + 1 - 1) (lines s2) = ls" using e2(2) len n(1) by simp
      qed (use e2(1,3) Cons.prems(2,6) n(1) in simp_all)
      then obtain s' where s': "ulcase_loop junk (lno + 1) 0 (c + n - length l) (length l - 1) s2 =
            Some (False, fst (toggle_end (lno + 1) 0 (c + n - length l) (length l - 1) ls), snd (toggle_end (lno + 1) 0 (c + n - length l) (length l - 1) ls), s')"
          "becomes s2 (take lno (lines s2) @ toggled 0 (c + n - length l) ls) s'" by auto
      have tk: "take lno (lines s2) = take (lno - 1) (lines s) @ [toggles c n l]" using e2(2) len n(1) by simp
      have df: "c + n - length l = n - (length l - c)" using c by simp
      have "becomes s (take (lno - 1) (lines s) @ toggled c n (l # ls)) s'"
        using becomes_trans [OF b2 s'(2)] tk long by (simp add: df)
      thus ?thesis using run s'(1) False long by simp
    qed
  qed
qed

lemma of_char_small [simp]: "n < 256 \<Longrightarrow> of_char (char_of n :: char) = (n :: nat)"
  by simp

lemma toggle_toggle [simp]: "toggle (toggle c) = c"
proof (cases "is_lower c \<or> is_upper c")
  case True
  define n :: nat where "n = of_char c"
  have c: "c = char_of n" "n < 256" by (simp_all add: n_def)
  consider "97 \<le> n" "n \<le> 122" | "65 \<le> n" "n \<le> 90" using True by (auto simp: n_def is_lower_def is_upper_def)
  thus ?thesis
  proof cases
    case 1
    have "is_lower c" using 1 by (simp add: is_lower_def n_def)
    hence "toggle c = char_of (n - 32)" by (simp add: toggle_def to_upper_def n_def)
    moreover have "toggle (char_of (n - 32)) = char_of n"
    proof -
      obtain m where m: "n = m + 32" using 1 le_Suc_ex [of 32 n] by (auto simp: add.commute)
      have "65 \<le> m" "m \<le> 90" using 1 m by simp_all
      thus ?thesis by (simp add: m toggle_def is_lower_def is_upper_def to_lower_def)
    qed
    ultimately show ?thesis using c(1) by simp
  next
    case 2
    have "is_upper c" "\<not> is_lower c" using 2 by (simp_all add: is_lower_def is_upper_def n_def)
    hence "toggle c = char_of (n + 32)" by (simp add: toggle_def to_lower_def n_def)
    moreover have "toggle (char_of (n + 32)) = char_of n"
      using 2 by (simp add: toggle_def is_lower_def is_upper_def to_upper_def)
    ultimately show ?thesis using c(1) by simp
  qed
next
  case False
  thus ?thesis by (simp add: toggle_other)
qed

lemma nth_toggles: "i < length l \<Longrightarrow> toggles c n l ! i = (if c \<le> i \<and> i < c + n then toggle (l ! i) else l ! i)"
  by (simp flip: toggles_map)

lemma toggles_twice [simp]: "toggles c n (toggles c n l) = l"
  by (rule nth_equalityI) (simp_all add: nth_toggles)

lemma toggled_twice [simp]: "toggled c n (toggled c n ls) = ls"
proof (induction c n ls rule: toggled.induct)
  case (2 c n l ls)
  have "toggles c n l = [] \<longleftrightarrow> l = []" using length_toggles [of c n l] by (metis length_0_conv)
  thus ?case using 2 by auto
qed simp

text \<open>
  The command returns for every count, and a second one from the same place restores every line. An
  empty line ends it, the rest of the count being lost there.
\<close>

lemma ulcase_twice:
  assumes e: "editing s" "text_ok s" and k: "0 < m_lno (m_start vp)" "m_lno (m_start vp) \<le> length (lines s)"
    and l: "l = lines s ! (m_lno (m_start vp) - 1)" "l \<noteq> [] \<Longrightarrow> m_cno (m_start vp) < length l"
    and n: "m_cno (m_start vp) + vp_cnt vp \<le> SIZE_MAX"
  shows "\<exists>vp' s' vp'' s''. v_ulcase junk vp s = Some (False, vp', s') \<and>
    edits s (take (m_lno (m_start vp) - 1) (lines s) @ toggled (m_cno (m_start vp)) (vp_cnt vp) (drop (m_lno (m_start vp) - 1) (lines s))) s' \<and>
    (m_lno (m_final vp'), m_cno (m_final vp')) =
      toggle_end (m_lno (m_start vp)) (m_cno (m_start vp)) (vp_cnt vp) (m_cno (m_final vp)) (drop (m_lno (m_start vp) - 1) (lines s)) \<and>
    v_ulcase junk vp s' = Some (False, vp'', s'') \<and> edits s (lines s) s''"
proof -
  let ?k = "m_lno (m_start vp)" and ?c = "m_cno (m_start vp)" and ?n = "vp_cnt vp" and ?f = "m_cno (m_final vp)"
  have run: "\<exists>vp' s'. v_ulcase junk vp t = Some (False, vp', s') \<and> becomes t (take (?k - 1) (lines t) @ toggled ?c ?n (drop (?k - 1) (lines t))) s' \<and>
      (m_lno (m_final vp'), m_cno (m_final vp')) = toggle_end ?k ?c ?n ?f (drop (?k - 1) (lines t))"
    if t: "editing t" "text_ok t" "?k \<le> length (lines t)" "lines t ! (?k - 1) \<noteq> [] \<Longrightarrow> ?c < length (lines t ! (?k - 1))" for t
  proof -
    have d: "drop (?k - 1) (lines t) = lines t ! (?k - 1) # drop ?k (lines t)"
      using Cons_nth_drop_Suc [of "?k - 1" "lines t"] k t(3) by simp
    obtain s' where s': "ulcase_loop junk ?k ?c ?n ?f t = Some (False, fst (toggle_end ?k ?c ?n ?f (drop (?k - 1) (lines t))),
          snd (toggle_end ?k ?c ?n ?f (drop (?k - 1) (lines t))), s')"
        "becomes t (take (?k - 1) (lines t) @ toggled ?c ?n (drop (?k - 1) (lines t))) s'"
    proof -
      have "\<exists>s'. ulcase_loop junk ?k ?c ?n ?f t = Some (False, fst (toggle_end ?k ?c ?n ?f (drop (?k - 1) (lines t))),
          snd (toggle_end ?k ?c ?n ?f (drop (?k - 1) (lines t))), s') \<and>
        becomes t (take (?k - 1) (lines t) @ toggled ?c ?n (drop (?k - 1) (lines t))) s'"
        by (rule ulcase_loop_spec [OF t(1,2) k(1) refl _ n]) (use d t(4) in simp_all)
      thus ?thesis using that by blast
    qed
    thus ?thesis by (simp add: v_ulcase_def)
  qed
  obtain vp' s' where s': "v_ulcase junk vp s = Some (False, vp', s')"
      "becomes s (take (?k - 1) (lines s) @ toggled ?c ?n (drop (?k - 1) (lines s))) s'"
      "(m_lno (m_final vp'), m_cno (m_final vp')) = toggle_end ?k ?c ?n ?f (drop (?k - 1) (lines s))"
    using run [OF e k(2)] l by blast
  note b = becomesD [OF s'(2)]
  have d: "drop (?k - 1) (lines s) = l # drop ?k (lines s)" using Cons_nth_drop_Suc [of "?k - 1" "lines s"] k l(1) by simp
  have len: "length (take (?k - 1) (lines s)) = ?k - 1" using k by simp
  have at: "drop (?k - 1) (lines s') = toggled ?c ?n (drop (?k - 1) (lines s))" "take (?k - 1) (lines s') = take (?k - 1) (lines s)"
    using b(2) len by simp_all
  then obtain l' ls' where l': "drop (?k - 1) (lines s') = l' # ls'" "length l' = length l" using d by (auto split: if_splits)
  have at': "?k \<le> length (lines s')" "lines s' ! (?k - 1) = l'" using drop_line [OF l'(1) k(1)] by simp_all
  obtain vp'' s'' where s'': "v_ulcase junk vp s' = Some (False, vp'', s'')"
      "becomes s' (take (?k - 1) (lines s') @ toggled ?c ?n (drop (?k - 1) (lines s'))) s''"
    using run [OF b(1) b(3) [OF e(2)] at'(1)] at'(2) l l'(2) by fastforce
  have "take (?k - 1) (lines s') @ toggled ?c ?n (drop (?k - 1) (lines s')) = lines s" unfolding at by simp
  hence "edits s (lines s) s''" using edits_becomes [OF becomes_edits [OF s'(2)] s''(2)] by simp
  thus ?thesis using s' s''(1) becomes_edits [OF s'(2)] by blast
qed

subsection \<open>The lines as one text\<close>

text \<open>The count meets no empty line: those of the lines that start before it runs out have characters.\<close>

definition no_gap :: "nat \<Rightarrow> bytes list \<Rightarrow> bool" where
  "no_gap p ls \<longleftrightarrow> (\<forall>j < length ls. length (concat (take j ls)) < p \<longrightarrow> ls ! j \<noteq> [])"

lemma no_gap_rec: "no_gap p [] = True" "no_gap p (l # ls) = ((0 < p \<longrightarrow> l \<noteq> []) \<and> no_gap (p - length l) ls)"
  unfolding no_gap_def by (simp_all add: All_less_Suc2 less_diff_conv add.commute)

lemma no_gap_Cons: "no_gap p (l # ls) \<Longrightarrow> (0 < p \<longrightarrow> l \<noteq> []) \<and> no_gap (p - length l) ls"
  by (simp add: no_gap_rec)

lemma toggles_append:
  "c \<le> length l \<Longrightarrow> toggles c n (l @ r) = toggles c n l @ toggles 0 (n - (length l - c)) r"
  by (cases "c + n \<le> length l") (auto simp: toggles_def add.commute)

lemma toggles_0 [simp]: "toggles c 0 l = l"
  by (simp add: toggles_def)

lemma toggled_concat:
  "no_gap (c + n) ls \<Longrightarrow> ls \<noteq> [] \<Longrightarrow> c < length (hd ls) \<Longrightarrow> concat (toggled c n ls) = toggles c n (concat ls)"
proof (induction ls arbitrary: c n)
  case (Cons l ls)
  have g: "no_gap (n - (length l - c)) ls" using no_gap_Cons [OF Cons.prems(1)] Cons.prems(3) by (simp add: add.commute)
  have "concat (toggled 0 (n - (length l - c)) ls) = toggles 0 (n - (length l - c)) (concat ls)"
  proof (cases "n - (length l - c) = 0 \<or> ls = []")
    case True
    then show ?thesis by (auto simp: toggles_def)
  next
    case False
    then have "hd ls \<noteq> []" using g no_gap_Cons [of "n - (length l - c)" "hd ls" "tl ls"] by (cases ls) auto
    then show ?thesis using Cons.IH [of 0 "n - (length l - c)"] g False by simp
  qed
  then show ?case using Cons.prems(3) by (cases "n = 0") (auto simp: toggles_append)
qed simp

lemma toggled_lengths [simp]: "map length (toggled c n ls) = map length ls"
  by (induction c n ls rule: toggled.induct) simp_all

text \<open>The line that holds the character in front of the offset \<open>p\<close> of the whole text.\<close>

definition holds :: "nat \<Rightarrow> bytes list \<Rightarrow> nat \<Rightarrow> bool" where
  "holds p ls j \<longleftrightarrow> j < length ls \<and> length (concat (take j ls)) < p \<and> p \<le> length (concat (take (j + 1) ls))"

lemma toggle_end_holds:
  "0 < n \<Longrightarrow> no_gap (c + n) ls \<Longrightarrow> ls \<noteq> [] \<Longrightarrow> c < length (hd ls) \<Longrightarrow> p = min (c + n) (length (concat ls)) \<Longrightarrow>
   \<exists>j. holds p ls j \<and> toggle_end lno c n f ls = (lno + j, min (length (ls ! j) - 1) (p - length (concat (take j ls))))"
proof (induction ls arbitrary: lno c n f p)
  case (Cons l ls)
  have l: "c < length l" "l \<noteq> []" using Cons.prems(4) by auto
  consider "c + n \<le> length l \<or> ls = []" | "length l < c + n" "ls \<noteq> []" by linarith
  then show ?case
  proof cases
    case 1
    then have "holds p (l # ls) 0" using Cons.prems(1,5) l by (auto simp: holds_def)
    moreover have "toggle_end lno c n f (l # ls) = (lno, min (length l - 1) p)"
      using 1 Cons.prems(1,5) l by auto
    ultimately show ?thesis by force
  next
    case 2
    let ?n = "c + n - length l"
    have g: "no_gap (0 + ?n) ls" using no_gap_Cons [OF Cons.prems(2)] by simp
    then have "0 < length (hd ls)" using no_gap_Cons [of ?n "hd ls" "tl ls"] 2 by (cases ls) auto
    then obtain j where j: "holds (min ?n (length (concat ls))) ls j"
      "toggle_end (lno + 1) 0 ?n (length l - 1) ls =
        (lno + 1 + j, min (length (ls ! j) - 1) (min ?n (length (concat ls)) - length (concat (take j ls))))"
      using Cons.IH [of ?n 0 "min ?n (length (concat ls))" "lno + 1" "length l - 1"] g 2 by auto
    have p: "p = length l + min ?n (length (concat ls))" using Cons.prems(5) 2 by simp
    have "holds p (l # ls) (Suc j)" using j(1) unfolding p holds_def by simp
    moreover have "toggle_end lno c n f (l # ls) = (lno + Suc j, min (length ((l # ls) ! Suc j) - 1) (p - length (concat (take (Suc j) (l # ls)))))"
      using j(2) Cons.prems(1) 2 l unfolding p by simp
    ultimately show ?thesis by blast
  qed
qed simp


text \<open>
  C13: \<^verbatim>\<open>~\<close> with a count that meets no empty line returns, and has toggled the case of as many characters as the count says, from the
  cursor on, across lines and up to the end of the file, and nothing else. The cursor is left behind the last of them,
  or on it at the end of its line. A second \<^verbatim>\<open>~\<close> with the same count from the same place restores every
  line. (The count must not carry the column beyond what a \<^verbatim>\<open>size_t\<close> holds.)
\<close>

theorem ulcase_toggles:
  fixes s vp
  defines "k \<equiv> m_lno (m_start vp)" and "c \<equiv> m_cno (m_start vp)" and "n \<equiv> vp_cnt vp"
  defines "ls \<equiv> drop (k - 1) (lines s)"
  assumes e: "editing s" "text_ok s" and k: "0 < k" "k \<le> length (lines s)" and c: "c < length (lines s ! (k - 1))"
    and n: "0 < n" "c + n \<le> SIZE_MAX" and g: "no_gap (c + n) ls"
  shows "\<exists>vp' s' vp'' s'' j. v_ulcase junk vp s = Some (False, vp', s') \<and> edits s (lines s') s' \<and>
    map length (lines s') = map length (lines s) \<and> take (k - 1) (lines s') = take (k - 1) (lines s) \<and>
    concat (drop (k - 1) (lines s')) = toggles c n (concat ls) \<and>
    holds (min (c + n) (length (concat ls))) ls j \<and> m_lno (m_final vp') = k + j \<and>
    m_cno (m_final vp') = min (length (ls ! j) - 1) (min (c + n) (length (concat ls)) - length (concat (take j ls))) \<and>
    v_ulcase junk vp s' = Some (False, vp'', s'') \<and> edits s (lines s) s''"
proof -
  obtain vp' s' vp'' s'' where r: "v_ulcase junk vp s = Some (False, vp', s')"
    "edits s (take (k - 1) (lines s) @ toggled c n ls) s'"
    "(m_lno (m_final vp'), m_cno (m_final vp')) = toggle_end k c n (m_cno (m_final vp)) ls"
    "v_ulcase junk vp s' = Some (False, vp'', s'')" "edits s (lines s) s''"
    using ulcase_twice [of s vp "lines s ! (k - 1)" junk] e k c n(2) unfolding k_def c_def n_def ls_def by blast
  have ne: "ls \<noteq> []" "hd ls = lines s ! (k - 1)" using k by (simp_all add: ls_def hd_drop_conv_nth)
  have l': "lines s' = take (k - 1) (lines s) @ toggled c n ls" by (rule editsD(2) [OF r(2)])
  have tk: "length (take (k - 1) (lines s)) = k - 1" using k by simp
  have "map length (lines s') = map length (take (k - 1) (lines s) @ ls)" unfolding l' by simp
  then have "map length (lines s') = map length (lines s)" by (simp add: ls_def)
  moreover have "take (k - 1) (lines s') = take (k - 1) (lines s)" "drop (k - 1) (lines s') = toggled c n ls"
    unfolding l' using tk by simp_all
  moreover have hc: "c < length (hd ls)" unfolding ne(2) by (rule c)
  moreover have "concat (toggled c n ls) = toggles c n (concat ls)" by (rule toggled_concat [OF g ne(1) hc])
  moreover obtain j where "holds (min (c + n) (length (concat ls))) ls j"
    "toggle_end k c n (m_cno (m_final vp)) ls = (k + j, min (length (ls ! j) - 1) (min (c + n) (length (concat ls)) - length (concat (take j ls))))"
    using toggle_end_holds [OF n(1) g ne(1) hc refl, of k "m_cno (m_final vp)"] by blast
  ultimately show ?thesis using r(1,2,3,4,5) l' by (intro exI [of _ vp'] exI [of _ s'] exI [of _ vp''] exI [of _ s''] exI [of _ j]) simp
qed

theorem ulcase_toggles_witness:
  "\<exists>vp' s'. v_ulcase (\<lambda>_. CHR 0x00) (vi_start None (Some 4) \<lparr>m_lno = 1, m_cno = 1\<rparr>) (opened [''aBc'', ''De'', []]) = Some (False, vp', s') \<and>
     concat (lines s') = ''abCdE'' \<and> map length (lines s') = [3, 2, 0] \<and> m_final vp' = \<lparr>m_lno = 2, m_cno = 1\<rparr>"
proof -
  let ?vp = "vi_start None (Some 4) \<lparr>m_lno = 1, m_cno = 1\<rparr>" and ?ls = "[''aBc'', ''De'', []] :: bytes list"
  have v: "m_lno (m_start ?vp) = 1" "m_cno (m_start ?vp) = 1" "vp_cnt ?vp = 4"
    by (simp_all add: delete_range_start)
  have t: "toggles 1 4 (concat ?ls) = ''abCdE''" by code_simp
  have g: "no_gap (1 + 4) ?ls" by (simp add: no_gap_rec)
  have h: "j = 1" if "holds 5 ?ls j" for j
  proof -
    have "j < 3" using that by (simp add: holds_def)
    then have "j = 0 \<or> j = 1 \<or> j = 2" by linarith
    then show ?thesis using that by (auto simp: holds_def)
  qed
  define s where "s = opened ?ls"
  have s: "editing s" "text_ok s" "lines s = ?ls" by (simp_all add: s_def)
  have l: "0 < (1::nat)" "1 \<le> length (lines s)" "1 < length (lines s ! (1 - 1))" "0 < (4::nat)" "1 + 4 \<le> SIZE_MAX"
    "no_gap (1 + 4) (drop (1 - 1) (lines s))" using g by (simp_all add: s(3) SIZE_MAX_def)
  obtain vp' s' j where r: "v_ulcase (\<lambda>_. CHR 0x00) ?vp s = Some (False, vp', s')" "map length (lines s') = map length (lines s)"
    "concat (drop (1 - 1) (lines s')) = toggles 1 4 (concat (drop (1 - 1) (lines s)))"
    and j: "holds (min (1 + 4) (length (concat (drop (1 - 1) (lines s))))) (drop (1 - 1) (lines s)) j" "m_lno (m_final vp') = 1 + j"
    "m_cno (m_final vp') = min (length (drop (1 - 1) (lines s) ! j) - 1)
       (min (1 + 4) (length (concat (drop (1 - 1) (lines s)))) - length (concat (take j (drop (1 - 1) (lines s)))))"
    using ulcase_toggles [of s ?vp "\<lambda>_. CHR 0x00", unfolded v, OF s(1,2) l] by blast
  have m: "min (1 + 4) (length (concat (drop (1 - 1) (lines s)))) = 5" by (simp add: s(3))
  have "j = 1" using j(1) h unfolding m by (simp add: s(3) del: One_nat_def)
  then have "m_lno (m_final vp') = 2" "m_cno (m_final vp') = 1" using j(2,3) by (simp_all add: s(3))
  then show ?thesis using r t unfolding s_def [symmetric] by (auto simp: s(3) intro!: mark.equality)
qed

text \<open>
  The operator passes the length of the line as the index of its last byte. If the buffer for the copy is just as
  long as the line, the byte behind it is not the program's.
\<close>

lemma mulcase_reads_behind:
  assumes "\<not> tmp_inuse s" "tmp_blen s = length l" "c \<le> length l"
  shows "ulcase junk lno l c (length l) s = None"
  using assms by (simp add: ulcase_def get_space_def binc_ret_def room_def)

end
