(* ===== verification/ViNumber.thy ===== *)
theory ViNumber
  imports ExMove ViOps
begin

section \<open>Numbers under the cursor (vi/v_increment.c, and of common/util.c the reading of numbers)\<close>

text \<open>
  \<^verbatim>\<open>#\<close> adds a count to the number at the cursor, or takes it off, and writes the number back in the notation it was
  found in. The lemmas say that the value of what is written is the sum, that a sum which
  does not fit is refused with nothing changed, and that notation and width are kept. A sign at the end of a line
  makes the command look at the byte behind the line.
\<close>

subsection \<open>Characters and values\<close>

definition is_space :: "char \<Rightarrow> bool" where
  "is_space c \<longleftrightarrow> c = CHR '' '' \<or> 9 \<le> (of_char c :: nat) \<and> (of_char c :: nat) \<le> 13"

text \<open>\<^verbatim>\<open>ishex\<close> searches a string for the character, and finds the byte 0 at its end.\<close>

definition ishex :: "char \<Rightarrow> bool" where
  "ishex c \<longleftrightarrow> is_digit c \<or> c \<in> set ''abcdefABCDEF'' \<or> c = CHR 0x00"

definition isoctal :: "char \<Rightarrow> bool" where
  "isoctal c \<longleftrightarrow> is_digit c \<and> c \<noteq> CHR ''8'' \<and> c \<noteq> CHR ''9''"

datatype nresult = NUM_ERR | NUM_OK | NUM_OVER | NUM_UNDER

definition LONG_MAX :: int where "LONG_MAX = 9223372036854775807"
definition LONG_MIN :: int where "LONG_MIN = - 9223372036854775808"
definition ULONG_MAX :: int where "ULONG_MAX = 18446744073709551615"

text \<open>The digits \<^verbatim>\<open>strtol\<close> knows, and their value.\<close>

definition is_xdigit :: "char \<Rightarrow> bool" where
  "is_xdigit c \<longleftrightarrow> is_digit c \<or> (97 \<le> (of_char c :: nat) \<and> (of_char c :: nat) \<le> 102) \<or>
     (65 \<le> (of_char c :: nat) \<and> (of_char c :: nat) \<le> 70)"

definition digit_val :: "char \<Rightarrow> nat" where
  "digit_val c = (if is_digit c then of_char c - 48 else if is_lower c then of_char c - 87 else of_char c - 55)"

definition num_of :: "nat \<Rightarrow> bytes \<Rightarrow> nat" where
  "num_of b cs = foldl (\<lambda>n c. n * b + digit_val c) 0 cs"

definition strtol :: "bytes \<Rightarrow> int" where
  "strtol w =
     (case w of
        [] \<Rightarrow> 0
      | c # cs \<Rightarrow>
          if c = CHR ''-'' then - int (num_of 10 (takeWhile is_digit cs))
          else int (num_of 10 (takeWhile is_digit (if c = CHR ''+'' then cs else w))))"

definition strtoul :: "nat \<Rightarrow> bytes \<Rightarrow> int" where
  "strtoul rdx w = int (num_of rdx (if rdx = 16 then takeWhile is_xdigit (drop 2 w) else takeWhile isoctal w))"

definition nget_uslong :: "nat \<Rightarrow> bytes \<Rightarrow> nresult + int" where
  "nget_uslong rdx w = (let v = strtoul rdx w in if ULONG_MAX < v then Inl NUM_OVER else Inr v)"

definition nget_slong :: "bytes \<Rightarrow> nresult + int" where
  "nget_slong w =
     (let v = strtol w in if LONG_MAX < v then Inl NUM_OVER else if v < LONG_MIN then Inl NUM_UNDER else Inr v)"

definition NNFITS :: "int \<Rightarrow> int \<Rightarrow> int \<Rightarrow> bool" where "NNFITS mn v add \<longleftrightarrow> mn - v \<le> add"
definition NPFITS :: "int \<Rightarrow> int \<Rightarrow> int \<Rightarrow> bool" where "NPFITS mx v add \<longleftrightarrow> add \<le> mx - v"

subsection \<open>Notations\<close>

datatype fmt = DEC | SDEC | HEXC | HEXL | OCTAL

function num_str :: "nat \<Rightarrow> bool \<Rightarrow> nat \<Rightarrow> bytes" where
  "num_str b up n =
     (let d = n mod b; c = char_of (if d < 10 then d + 48 else if up then d + 55 else d + 87) in
      if b < 2 \<or> n < b then [c] else num_str b up (n div b) @ [c])"
  by pat_completeness auto
termination by (relation "measure (\<lambda>(b, up, n). n)") auto

definition pad :: "nat \<Rightarrow> bytes \<Rightarrow> bytes" where
  "pad k cs = replicate (k - length cs) (CHR ''0'') @ cs"

text \<open>\<^verbatim>\<open>snprintf\<close> into an array of 100 bytes; \<open>wlen\<close> is the width of a hexadecimal or octal number.\<close>

definition formatted :: "fmt \<Rightarrow> nat \<Rightarrow> int \<Rightarrow> bytes" where
  "formatted f wlen v =
     (case f of
        DEC \<Rightarrow> (if v < 0 then ''-'' else []) @ num_str 10 False (nat \<bar>v\<bar>)
      | SDEC \<Rightarrow> (if v < 0 then ''-'' else ''+'') @ num_str 10 False (nat \<bar>v\<bar>)
      | HEXC \<Rightarrow> ''0X'' @ pad wlen (num_str 16 True (nat v))
      | HEXL \<Rightarrow> ''0x'' @ pad wlen (num_str 16 False (nat v))
      | OCTAL \<Rightarrow> pad wlen (let ds = num_str 8 False (nat v) in if hd ds = CHR ''0'' then ds else CHR ''0'' # ds))"

definition snprintf100 :: "fmt \<Rightarrow> nat \<Rightarrow> int \<Rightarrow> bytes" where
  "snprintf100 f wlen v = take 99 (formatted f wlen v)"

subsection \<open>Finding the number\<close>

text \<open>
  The guess at the base from the first characters, and the index of the first digit; nothing if there is no number. (A
  sign that ends the line is not looked at here.)
\<close>

definition guess_base :: "bytes \<Rightarrow> nat \<Rightarrow> (nat \<times> nat \<times> fmt) option" where
  "guess_base p beg =
     (let wlen = length p - beg;
          decimal = (if is_digit (p ! beg) then Some (10, beg, DEC) else None)
      in if p ! beg = CHR ''0'' \<and> 2 < wlen \<and> (p ! (beg + 1) = CHR ''X'' \<or> p ! (beg + 1) = CHR ''x'') then
           (if ishex (p ! (beg + 2)) then Some (16, beg + 2, if p ! (beg + 1) = CHR ''X'' then HEXC else HEXL) else decimal)
         else if p ! beg = CHR ''0'' \<and> 1 < wlen then
           (if isoctal (p ! (beg + 1)) then Some (8, beg + 1, OCTAL) else decimal)
         else if p ! beg = CHR ''+'' \<or> p ! beg = CHR ''-'' then
           (if 1 < wlen \<and> is_digit (p ! (beg + 1)) then Some (10, beg + 1, SDEC) else None)
         else decimal)"

text \<open>The rest of the word from the second digit on: how many characters belong to it, and the base and notation in the end.\<close>

fun scan_word :: "nat \<Rightarrow> fmt \<Rightarrow> bytes \<Rightarrow> nat \<times> nat \<times> fmt" where
  "scan_word rdx f [] = (0, rdx, f)"
| "scan_word rdx f (c # cs) =
     (if rdx = 8 \<and> isoctal c \<or> rdx = 10 \<and> is_digit c \<or> rdx = 16 \<and> ishex c
      then (case scan_word rdx f cs of (n, b, g) \<Rightarrow> (n + 1, b, g))
      else if rdx = 8 \<and> (c = CHR ''8'' \<or> c = CHR ''9'')
      then (case scan_word 10 DEC cs of (n, b, g) \<Rightarrow> (n + 1, b, g))
      else (0, rdx, f))"

definition find_number :: "bytes \<Rightarrow> nat \<Rightarrow> (nat \<times> nat \<times> fmt) option" where
  "find_number p beg =
     (case guess_base p beg of
        None \<Rightarrow> None
      | Some (rdx, e, f) \<Rightarrow> (case scan_word rdx f (drop (e + 1) p) of (n, b, g) \<Rightarrow> Some (b, e + 1 + n, g)))"

text \<open>The new number: an error, or its text. Octal and hexadecimal numbers are unsigned.\<close>

definition new_number :: "bool \<Rightarrow> int \<Rightarrow> nat \<Rightarrow> fmt \<Rightarrow> bytes \<Rightarrow> nresult + bytes" where
  "new_number down change rdx f w =
     (if rdx = 10 then
        (case nget_slong w of
           Inl e \<Rightarrow> Inl e
         | Inr lval \<Rightarrow>
             let ltmp = (if down then - change else change) in
             if 0 < lval \<and> 0 < ltmp \<and> \<not> NPFITS LONG_MAX lval ltmp then Inl NUM_OVER
             else if lval < 0 \<and> ltmp < 0 \<and> \<not> NNFITS LONG_MIN lval ltmp then Inl NUM_UNDER
             else let v = lval + ltmp in Inr (snprintf100 (if v = 0 \<and> f = SDEC then DEC else f) (length w) v))
      else
        (case nget_uslong rdx w of
           Inl e \<Rightarrow> Inl e
         | Inr ulval \<Rightarrow>
             if \<not> down \<and> \<not> NPFITS ULONG_MAX ulval change then Inl NUM_OVER
             else if down \<and> ulval < change then Inl NUM_UNDER
             else Inr (snprintf100 f (if rdx = 16 then length w - 2 else length w)
                         (if down then ulval - change else ulval + change))))"

subsection \<open>The command\<close>

text \<open>
  \<^verbatim>\<open>v_increment\<close>. The line is read in the cache of the file; \<open>junk\<close> is what that buffer holds behind it. A digit there,
  behind a sign that ends the line, makes the length of the rest of the line wrap around, and a move
  of that length is undefined. \<open>refresh\<close> is \<^verbatim>\<open>vs_refresh\<close>; the command goes on with its pointer into the cache, so that
  the model stops if another line is cached then.
\<close>

definition behind_line :: "(nat \<Rightarrow> char) \<Rightarrow> bytes \<Rightarrow> nat \<Rightarrow> ed \<Rightarrow> unit option" where
  "behind_line junk p beg s =
     (if beg + 1 = length p \<and> (p ! beg = CHR ''+'' \<or> p ! beg = CHR ''-'') \<and> (c_buf_len s \<le> length p \<or> is_digit (junk 0))
      then None else Some ())"

definition to_number :: "(ed \<Rightarrow> ed option) \<Rightarrow> nat \<Rightarrow> bytes \<Rightarrow> nat \<Rightarrow> nat \<Rightarrow> ed \<Rightarrow> ed option" where
  "to_number refresh lno p cno beg s =
     (if beg = cno then Some s
      else do {
        s1 \<leftarrow> refresh (upd_cur (\<lambda>c. c\<lparr>sp_cno := beg\<rparr>) s);
        if c_lno s1 = lno \<and> c_lp s1 = p then Some s1 else None
      })"

definition v_increment :: "(ed \<Rightarrow> ed option) \<Rightarrow> (nat \<Rightarrow> char) \<Rightarrow> vicmd \<Rightarrow> ed \<Rightarrow> (bool \<times> vicmd \<times> ed) option" where
  "v_increment refresh junk vp0 s =
     (let vp = (if vp_character vp0 = CHR ''#'' then vp0\<lparr>vp_character := CHR ''+''\<rparr> else vp0);
          lno = m_lno (m_start vp); cno = m_cno (m_start vp)
      in if vp_character vp \<noteq> CHR ''+'' \<and> vp_character vp \<noteq> CHR ''-'' then Some (True, vp, s)
      else if vc_c1set vp \<and> LONG_MAX < int (vp_count vp) then Some (True, vp, s)
      else do {
        (e, p, _, s1) \<leftarrow> db_eget lno s;
        let beg = cno + length (takeWhile is_space (drop cno p));
        if e \<or> length p \<le> beg then Some (True, vp, s1)
        else do {
          s2 \<leftarrow> to_number refresh lno p cno beg s1;
          _ \<leftarrow> behind_line junk p beg s2;
          case find_number p beg of
            None \<Rightarrow> Some (True, vp, s2)
          | Some (rdx, en, f) \<Rightarrow>
              (case get_space (length p + 50) s2 of
                 (None, s3) \<Rightarrow> Some (True, vp, s3)
               | (Some bp, s3) \<Rightarrow>
                   (case new_number (vp_character vp = CHR ''-'') (int (vp_cnt vp)) rdx f (take (en - beg) (drop beg p)) of
                      Inl _ \<Rightarrow> Some (True, vp, free_space bp s3)
                    | Inr nbuf \<Rightarrow>
                        let line = take beg p @ nbuf @ drop en p in
                        do {
                          _ \<leftarrow> room bp (length line);
                          (e, s4) \<leftarrow> db_set lno line s3;
                          Some (e, vp, free_space bp s4)
                        }))
        }
      })"

subsection \<open>Writing and reading back\<close>

lemma digit_chars:
  fixes d :: nat and up :: bool
  assumes "d < 16"
  defines "c \<equiv> char_of (if d < 10 then d + 48 else if up then d + 55 else d + 87)"
  shows "is_xdigit c \<and> digit_val c = d \<and> (d < 8 \<longrightarrow> isoctal c) \<and> (d < 10 \<longrightarrow> is_digit c)"
proof -
  have n: "(of_char c :: nat) = (if d < 10 then d + 48 else if up then d + 55 else d + 87)" using assms(1) by (simp add: c_def)
  have "c = CHR ''8'' \<Longrightarrow> (of_char c :: nat) = 56" "c = CHR ''9'' \<Longrightarrow> (of_char c :: nat) = 57" by simp_all
  thus ?thesis using n assms(1)
    by (auto simp: is_xdigit_def digit_val_def isoctal_def is_digit_def is_lower_def split: if_splits)
qed

lemma num_of_Nil [simp]: "num_of b [] = 0"
  by (simp add: num_of_def)

lemma num_of_snoc [simp]: "num_of b (cs @ [c]) = num_of b cs * b + digit_val c"
  by (simp add: num_of_def)

lemma digit_zero [simp]: "digit_val (CHR ''0'') = 0" "is_digit (CHR ''0'')" "isoctal (CHR ''0'')" "is_xdigit (CHR ''0'')"
  by code_simp+

lemma num_of_zeros [simp]: "num_of b (replicate k (CHR ''0'') @ cs) = num_of b cs" "num_of b (CHR ''0'' # cs) = num_of b cs"
proof -
  have z: "num_of b (CHR ''0'' # cs) = num_of b cs" for cs by (simp add: num_of_def)
  show "num_of b (CHR ''0'' # cs) = num_of b cs" by (rule z)
  show "num_of b (replicate k (CHR ''0'') @ cs) = num_of b cs" by (induction k) (simp_all add: z)
qed

declare num_str.simps [simp del]

lemma num_str_spec:
  assumes b: "2 \<le> b" "b \<le> 16"
  shows "num_str b up n \<noteq> [] \<and> num_of b (num_str b up n) = n \<and>
    (\<forall>c \<in> set (num_str b up n). is_xdigit c \<and> (b \<le> 8 \<longrightarrow> isoctal c) \<and> (b \<le> 10 \<longrightarrow> is_digit c))"
proof (induction n rule: less_induct)
  case (less n)
  define d where "d = n mod b"
  define c where "c = char_of (if d < 10 then d + 48 else if up then d + 55 else d + 87 :: nat)"
  have d: "d < b" "d < 16" using b by (simp_all add: d_def less_le_trans [of _ b])
  have c: "is_xdigit c" "digit_val c = d" "d < 8 \<longrightarrow> isoctal c" "d < 10 \<longrightarrow> is_digit c"
    using digit_chars [OF d(2), of up] by (simp_all add: c_def)
  have step: "num_str b up n = (if n < b then [] else num_str b up (n div b)) @ [c]"
    using b by (subst num_str.simps) (simp add: Let_def c_def d_def)
  show ?case
  proof (cases "n < b")
    case True
    hence "d = n" by (simp add: d_def)
    thus ?thesis using True step c d(1) num_of_snoc [of b "[]" c] by auto
  next
    case False
    have "n div b < n" using b False by simp
    note ih = less.IH [OF this]
    have "n div b * b + d = n" by (simp add: d_def)
    thus ?thesis using step False ih c d(1) by auto
  qed
qed

lemma num_str_length: "2 \<le> b \<Longrightarrow> n < b ^ k \<Longrightarrow> 0 < k \<Longrightarrow> length (num_str b up n) \<le> k"
proof (induction k arbitrary: n)
  case (Suc k)
  show ?case
  proof (cases "n < b")
    case True
    thus ?thesis by (subst num_str.simps) (simp add: Let_def)
  next
    case False
    have k: "0 < k" using False Suc.prems(2) by (cases k) auto
    have "n div b < b ^ k" using Suc.prems(1,2) by (simp add: less_mult_imp_div_less mult.commute)
    hence "length (num_str b up (n div b)) \<le> k" using Suc.IH Suc.prems(1) k by blast
    thus ?thesis using False Suc.prems(1) by (subst num_str.simps) (simp add: Let_def)
  qed
qed simp

text \<open>The value of a number in a notation, the range of the notation, and what of the notation is kept.\<close>

definition num_val :: "fmt \<Rightarrow> bytes \<Rightarrow> int" where
  "num_val f w = (case f of DEC \<Rightarrow> strtol w | SDEC \<Rightarrow> strtol w | HEXC \<Rightarrow> strtoul 16 w | HEXL \<Rightarrow> strtoul 16 w | OCTAL \<Rightarrow> strtoul 8 w)"

definition unsigned_fmt :: "fmt \<Rightarrow> bool" where
  "unsigned_fmt f \<longleftrightarrow> f \<noteq> DEC \<and> f \<noteq> SDEC"

definition fits :: "fmt \<Rightarrow> int \<Rightarrow> bool" where
  "fits f v \<longleftrightarrow> (if unsigned_fmt f then 0 \<le> v \<and> v \<le> ULONG_MAX else LONG_MIN \<le> v \<and> v \<le> LONG_MAX)"

definition same_notation :: "fmt \<Rightarrow> bytes \<Rightarrow> bytes \<Rightarrow> bool" where
  "same_notation f w w' \<longleftrightarrow>
     (case f of
        DEC \<Rightarrow> hd w' = CHR ''-'' \<or> is_digit (hd w')
      | SDEC \<Rightarrow> hd w' = CHR ''-'' \<or> hd w' = CHR ''+'' \<or> w' = ''0''
      | HEXC \<Rightarrow> take 2 w' = ''0X'' \<and> length w \<le> length w'
      | HEXL \<Rightarrow> take 2 w' = ''0x'' \<and> length w \<le> length w'
      | OCTAL \<Rightarrow> hd w' = CHR ''0'' \<and> length w \<le> length w')"

lemma takeWhile_all: "(\<And>c. c \<in> set cs \<Longrightarrow> P c) \<Longrightarrow> takeWhile P cs = cs"
  by (simp add: takeWhile_eq_all_conv)

lemma num_of_takeWhile: "\<forall>c \<in> set cs. P c \<Longrightarrow> num_of b (takeWhile P cs) = num_of b cs"
  by (metis takeWhile_eq_all_conv)

lemma pad_props: "num_of b (pad k cs) = num_of b cs" "k \<le> length (pad k cs)" "length (pad k cs) = max k (length cs)"
  by (simp_all add: pad_def)

lemma formatted_val:
  assumes "unsigned_fmt f \<Longrightarrow> 0 \<le> v"
  shows "num_val f (formatted f k v) = v"
proof -
  have t: "strtol (''-'' @ num_str 10 False n) = - int n" "strtol (''+'' @ num_str 10 False n) = int n"
      "strtol (num_str 10 False n) = int n" for n
  proof -
    note sp = num_str_spec [of 10 False n]
    have tv: "num_of 10 (takeWhile is_digit (num_str 10 False n)) = n"
      using sp num_of_takeWhile [of "num_str 10 False n" is_digit 10] by auto
    obtain c cs where c: "num_str 10 False n = c # cs" using sp by (cases "num_str 10 False n") auto
    have "is_digit c" using sp c by simp
    hence "c \<noteq> CHR ''-''" "c \<noteq> CHR ''+''" by (auto simp: is_digit_def)
    thus "strtol (num_str 10 False n) = int n" using tv unfolding c by (simp only: strtol_def list.case if_False refl)
    show "strtol (''-'' @ num_str 10 False n) = - int n" "strtol (''+'' @ num_str 10 False n) = int n"
      using tv by (simp_all add: strtol_def)
  qed
  have h: "strtoul 16 (x # y # pad k (num_str 16 up n)) = int n" for x y up n
  proof -
    note sp = num_str_spec [of 16 up n]
    have "\<forall>c \<in> set (pad k (num_str 16 up n)). is_xdigit c" using sp by (auto simp: pad_def split: if_splits)
    thus ?thesis using sp pad_props(1) num_of_takeWhile by (simp add: strtoul_def)
  qed
  have oc: "strtoul 8 (pad k (let ds = num_str 8 False n in if hd ds = CHR ''0'' then ds else CHR ''0'' # ds)) = int n" for n
  proof -
    note sp = num_str_spec [of 8 False n]
    let ?a = "let ds = num_str 8 False n in if hd ds = CHR ''0'' then ds else CHR ''0'' # ds"
    have "num_of 8 ?a = n" using sp by (simp add: Let_def)
    moreover have "\<forall>c \<in> set (pad k ?a). isoctal c" using sp by (auto simp: pad_def Let_def split: if_splits)
    ultimately show ?thesis using num_of_takeWhile [of "pad k ?a" isoctal 8] by (simp add: strtoul_def pad_props(1))
  qed
  show ?thesis
    using assms t h oc by (cases f) (simp_all add: num_val_def formatted_def unsigned_fmt_def)
qed

lemma formatted_length:
  assumes "\<bar>v\<bar> \<le> ULONG_MAX"
  shows "length (formatted f k v) \<le> max (k + 2) 25"
proof -
  have n: "nat \<bar>v\<bar> \<le> 18446744073709551615" "nat v \<le> 18446744073709551615" using assms by (simp_all add: ULONG_MAX_def)
  have "length (num_str 10 False (nat \<bar>v\<bar>)) \<le> 20" by (rule num_str_length) (use n in simp_all)
  moreover have h: "length (num_str 16 up (nat v)) \<le> 16" for up by (rule num_str_length) (use n in simp_all)
  have "length (num_str 16 True (nat v)) \<le> 23" "length (num_str 16 False (nat v)) \<le> 23" using h [of True] h [of False] by linarith+
  moreover have "length (num_str 8 False (nat v)) \<le> 22" by (rule num_str_length) (use n in simp_all)
  ultimately show ?thesis by (cases f; cases "v < 0") (auto simp add: formatted_def pad_props(3) Let_def max_def)
qed

lemma formatted_notation:
  assumes "k = (if f = HEXC \<or> f = HEXL then length w - 2 else length w)" "f = HEXC \<or> f = HEXL \<Longrightarrow> 2 \<le> length w"
  shows "same_notation f w (formatted (if v = 0 \<and> f = SDEC then DEC else f) k v)"
proof -
  obtain c cs where c: "num_str 10 False (nat \<bar>v\<bar>) = c # cs"
    using num_str_spec [of 10 False "nat \<bar>v\<bar>"] by (cases "num_str 10 False (nat \<bar>v\<bar>)") auto
  have d: "is_digit c" using num_str_spec [of 10 False "nat \<bar>v\<bar>"] c by simp
  have z: "num_str 10 False 0 = ''0''" by code_simp
  have h: "hd (pad j (CHR ''0'' # x)) = CHR ''0''" for j x by (cases "j - length (CHR ''0'' # x)") (simp_all add: pad_def)
  have a: "\<exists>x. (let ds = num_str 8 False n in if hd ds = CHR ''0'' then ds else CHR ''0'' # ds) = CHR ''0'' # x" for n
    using num_str_spec [of 8 False n] by (cases "num_str 8 False n") (auto simp: Let_def)
  show ?thesis
  proof (cases f)
    case OCTAL
    obtain x where "(let ds = num_str 8 False (nat v) in if hd ds = CHR ''0'' then ds else CHR ''0'' # ds) = CHR ''0'' # x"
      using a by blast
    thus ?thesis using OCTAL assms(1) h pad_props(3) by (simp add: same_notation_def formatted_def)
  qed (use assms c d z in \<open>auto simp: same_notation_def formatted_def pad_props(3)\<close>)
qed

subsection \<open>Finding the number again\<close>

definition fmt_base :: "fmt \<Rightarrow> nat" where
  "fmt_base f = (case f of DEC \<Rightarrow> 10 | SDEC \<Rightarrow> 10 | HEXC \<Rightarrow> 16 | HEXL \<Rightarrow> 16 | OCTAL \<Rightarrow> 8)"

lemma scan_word_spec:
  "scan_word r f cs = (n, b, g) \<Longrightarrow> r = fmt_base f \<Longrightarrow>
     n \<le> length cs \<and> b = fmt_base g \<and> (g = HEXC \<or> g = HEXL \<longrightarrow> f = g)"
proof (induction cs arbitrary: r f n b g)
  case (Cons c cs)
  obtain n1 b1 g1 where r1: "scan_word r f cs = (n1, b1, g1)" by (metis prod_cases3)
  obtain n2 b2 g2 where r2: "scan_word 10 DEC cs = (n2, b2, g2)" by (metis prod_cases3)
  note ih = Cons.IH [OF r1 Cons.prems(2)] Cons.IH [OF r2]
  have "fmt_base DEC = 10" by (simp add: fmt_base_def)
  thus ?case using Cons.prems ih r1 r2 by (auto split: if_splits)
qed simp

lemma guess_base_spec:
  assumes "guess_base p beg = Some (r, e, f)" "beg < length p"
  shows "r = fmt_base f \<and> beg \<le> e \<and> e < length p \<and> (f = HEXC \<or> f = HEXL \<longrightarrow> e = beg + 2) \<and>
    \<not> (beg + 1 = length p \<and> (p ! beg = CHR ''+'' \<or> p ! beg = CHR ''-''))"
  using assms by (auto simp: guess_base_def fmt_base_def Let_def is_digit_def split: if_splits)

lemma find_number_spec:
  assumes "find_number p beg = Some (r, en, f)" "beg < length p"
  shows "r = fmt_base f \<and> beg < en \<and> en \<le> length p \<and> (f = HEXC \<or> f = HEXL \<longrightarrow> beg + 2 \<le> en) \<and>
    \<not> (beg + 1 = length p \<and> (p ! beg = CHR ''+'' \<or> p ! beg = CHR ''-''))"
proof -
  obtain b e g where g: "guess_base p beg = Some (b, e, g)" using assms(1) by (cases "guess_base p beg") (auto simp: find_number_def)
  obtain n where n: "scan_word b g (drop (e + 1) p) = (n, r, f)" "en = e + 1 + n"
    using assms(1) g by (auto simp: find_number_def split: prod.splits)
  show ?thesis using guess_base_spec [OF g assms(2)] scan_word_spec [OF n(1)] n(2) by auto
qed

text \<open>The sum in range is written so that it reads back; out of range it is refused.\<close>

lemma new_number_spec:
  fixes down :: bool and ch :: int and f :: fmt and w :: bytes
  assumes c: "0 \<le> ch" "ch \<le> LONG_MAX" and l: "length w \<le> 97" "f = HEXC \<or> f = HEXL \<Longrightarrow> 2 \<le> length w"
  defines "v \<equiv> num_val f w" and "d \<equiv> (if down then - ch else ch)"
  shows "if fits f v \<and> fits f (v + d)
    then \<exists>w'. new_number down ch (fmt_base f) f w = Inr w' \<and> num_val f w' = v + d \<and> same_notation f w w' \<and> length w' \<le> length w + 27
    else \<exists>e. new_number down ch (fmt_base f) f w = Inl e"
proof -
  define k where "k = (if f = HEXC \<or> f = HEXL then length w - 2 else length w)"
  define w' where "w' = formatted (if v + d = 0 \<and> f = SDEC then DEC else f) k (v + d)"
  have k: "k \<le> 97" using l(1) by (auto simp: k_def)
  have snp: "snprintf100 (if v + d = 0 \<and> f = SDEC then DEC else f) k (v + d) = w'" "length w' \<le> length w + 27" if "fits f (v + d)"
  proof -
    have "\<bar>v + d\<bar> \<le> ULONG_MAX" using that by (auto simp: fits_def ULONG_MAX_def LONG_MAX_def LONG_MIN_def split: if_splits)
    hence len: "length w' \<le> max (k + 2) 25" unfolding w'_def by (rule formatted_length)
    have "k \<le> length w" by (auto simp: k_def)
    thus "length w' \<le> length w + 27" using len by linarith
    have "length w' \<le> 99" using len k by linarith
    thus "snprintf100 (if v + d = 0 \<and> f = SDEC then DEC else f) k (v + d) = w'" by (simp add: snprintf100_def w'_def)
  qed
  have val: "num_val f w' = v + d" if "fits f (v + d)"
  proof -
    have "num_val (if v + d = 0 \<and> f = SDEC then DEC else f) w' = v + d"
      unfolding w'_def by (rule formatted_val) (use that in \<open>auto simp: fits_def unsigned_fmt_def split: if_splits\<close>)
    thus ?thesis by (auto simp: num_val_def split: if_splits)
  qed
  have nt: "same_notation f w w'" unfolding w'_def by (rule formatted_notation) (use l(2) in \<open>simp_all add: k_def\<close>)
  have "new_number down ch (fmt_base f) f w =
      (if fits f v \<and> fits f (v + d) then Inr (snprintf100 (if v + d = 0 \<and> f = SDEC then DEC else f) k (v + d)) else Inl NUM_OVER) \<or>
      \<not> (fits f v \<and> fits f (v + d)) \<and> new_number down ch (fmt_base f) f w = Inl NUM_UNDER"
  proof (cases "unsigned_fmt f")
    case True
    hence f: "f = HEXC \<or> f = HEXL \<or> f = OCTAL" "v = strtoul (fmt_base f) w" "0 \<le> v" "fmt_base f \<noteq> 10"
      by (cases f; simp add: unsigned_fmt_def v_def num_val_def fmt_base_def strtoul_def)+
    have kb: "k = (if fmt_base f = 16 then length w - 2 else length w)" using f(1) by (auto simp: k_def fmt_base_def)
    have sd: "f \<noteq> SDEC" using f(1) by auto
    show ?thesis using c f kb sd True
      by (auto simp: new_number_def nget_uslong_def Let_def fits_def d_def NPFITS_def LONG_MAX_def ULONG_MAX_def)
  next
    case False
    hence f: "f = DEC \<or> f = SDEC" "v = strtol w" "fmt_base f = 10" "k = length w"
      by (cases f; simp add: unsigned_fmt_def v_def num_val_def fmt_base_def k_def)+
    show ?thesis using c f False
      by (auto simp: new_number_def nget_slong_def Let_def fits_def d_def NPFITS_def NNFITS_def LONG_MAX_def LONG_MIN_def)
  qed
  thus ?thesis using snp val nt by auto
qed

subsection \<open>The command on the file\<close>

lemma db_fetch_in_cache:
  assumes "db_fetch n s = Some (False, l, s')"
  shows "c_lno s' = n \<and> c_lp s' = l"
proof -
  obtain st d db' where r: "rec_get rec_vpipe n (db s) = Some (st, d, db')" using assms by (cases "rec_get rec_vpipe n (db s)") (auto simp: db_fetch_def)
  show ?thesis
    using assms by (cases st; cases d) (auto simp: db_fetch_def r db_cache_update_def Let_def split: if_splits)
qed

lemma db_get_in_cache:
  assumes "db_get n False s = Some (False, l, s')" "\<not> sp_tinput (cur s)"
  shows "c_lno s' = n \<and> c_lp s' = l"
proof -
  have "db_get_cached n s = Some (False, l, s')" using assms by (simp add: db_get_def split: if_splits)
  thus ?thesis using db_fetch_in_cache [of n "s\<lparr>c_lno := 0\<rparr>" l s'] by (auto simp: db_get_cached_def split: if_splits)
qed

lemma db_eget_in_cache:
  "db_eget n s = Some (False, l, b, s') \<Longrightarrow> \<not> sp_tinput (cur s) \<Longrightarrow> c_lno s' = n \<and> c_lp s' = l"
  using db_get_in_cache [of n s l s'] by (auto simp: db_eget_def obind split: if_splits prod.splits)

text \<open>Painting that changes neither the file nor the line in the cache.\<close>

definition paints :: "(ed \<Rightarrow> ed option) \<Rightarrow> bool" where
  "paints refresh \<longleftrightarrow> (\<forall>t. editing t \<and> text_ok t \<longrightarrow>
     (\<exists>t'. refresh t = Some t' \<and> edits t (lines t) t' \<and> c_lno t' = c_lno t \<and> c_lp t' = c_lp t))"

text \<open>
  C14: On a number, \<^verbatim>\<open>#+\<close> and \<^verbatim>\<open>#-\<close> replace its text by one that reads, in the notation of the number, as the value plus
  or less the count, with the rest of the line as it was; if the value or the result is out of the range of the
  notation the command fails and the file is as it was. (A number may have at most 97 characters: longer ones are cut off
  by the array the new text is written to.)
\<close>

theorem increment_adds:
  assumes e: "editing s" "text_ok s" and k: "0 < k" "k \<le> length (lines s)" and p: "p = lines s ! (k - 1)"
    and m: "m_start vp = \<lparr>m_lno = k, m_cno = c\<rparr>" and ch: "vp_character vp \<in> set ''#+-''" and n: "int (vp_cnt vp) \<le> LONG_MAX"
    and beg: "beg = c + length (takeWhile is_space (drop c p))" "beg < length p"
    and f: "find_number p beg = Some (r, en, f)" and w: "w = take (en - beg) (drop beg p)" "length w \<le> 97"
    and rf: "paints refresh"
    and v: "v = num_val f w" "d = (if vp_character vp = CHR ''-'' then - int (vp_cnt vp) else int (vp_cnt vp))"
  shows "\<exists>vp' s'. if fits f v \<and> fits f (v + d)
    then \<exists>w'. v_increment refresh junk vp s = Some (False, vp', s') \<and>
      edits s ((lines s)[k - 1 := take beg p @ w' @ drop en p]) s' \<and> num_val f w' = v + d \<and> same_notation f w w'
    else v_increment refresh junk vp s = Some (True, vp', s') \<and> edits s (lines s) s'"
proof -
  define vp1 where "vp1 = (if vp_character vp = CHR ''#'' then vp\<lparr>vp_character := CHR ''+''\<rparr> else vp)"
  have v1: "m_start vp1 = \<lparr>m_lno = k, m_cno = c\<rparr>" "vp_cnt vp1 = vp_cnt vp" "vp_character vp1 = CHR ''+'' \<or> vp_character vp1 = CHR ''-''"
      "(vp_character vp1 = CHR ''-'') = (vp_character vp = CHR ''-'')"
    using m ch by (auto simp: vp1_def vp_cnt_def)
  have cnt: "\<not> (vc_c1set vp1 \<and> LONG_MAX < int (vp_count vp1))" using n v1(2) by (auto simp: vp_cnt_def)
  obtain s1 where s1: "db_eget k s = Some (False, p, False, s1)" "becomes s (lines s) s1"
    using db_eget_becomes [OF e k] p by blast
  note b1 = becomesD [OF s1(2)]
  have c1: "c_lno s1 = k" "c_lp s1 = p" using db_eget_in_cache [OF s1(1) editingD(4) [OF e(1)]] by simp_all
  obtain s2 where s2: "to_number refresh k p c beg s1 = Some s2" "edits s (lines s) s2"
  proof (cases "beg = c")
    case True
    thus ?thesis using that [of s1] becomes_edits [OF s1(2)] by (simp add: to_number_def)
  next
    case False
    let ?t = "upd_cur (\<lambda>c. c\<lparr>sp_cno := beg\<rparr>) s1"
    have t: "edits s (lines s) ?t" by (rule edits_upd_cur [OF becomes_edits [OF s1(2)]]) simp_all
    obtain t' where t': "refresh ?t = Some t'" "edits ?t (lines ?t) t'" "c_lno t' = c_lno ?t" "c_lp t' = c_lp ?t"
      using rf [unfolded paints_def, rule_format, of ?t] editsD(1) [OF t] editsD(3) [OF t e(2)] by blast
    have "edits s (lines s) t'" using edits_trans [OF t t'(2)] editsD(2) [OF t] by simp
    thus ?thesis using that [of t'] False t'(1,3,4) c1 by (simp add: to_number_def)
  qed
  note b2 = editsD [OF s2(2)]
  note fn = find_number_spec [OF f beg(2)]
  have bl: "behind_line junk p beg s2 = Some ()" using fn unfolding behind_line_def by (simp only: de_Morgan_conj) auto
  obtain bp s3 where g: "get_space (length p + 50) s2 = (Some bp, s3)" "length p + 50 \<le> snd bp" "becomes s2 (lines s2) s3"
    by (rule get_space_becomes [OF b2(1)])
  have b3: "edits s (lines s) s3" using edits_becomes [OF s2(2) g(3)] b2(2) by simp
  note e3 = editsD [OF b3]
  have lw: "length w = en - beg" using w(1) fn by (auto simp: min_def)
  have hx: "f = HEXC \<or> f = HEXL \<Longrightarrow> 2 \<le> length w" using fn lw by auto
  define nn where "nn = new_number (vp_character vp1 = CHR ''-'') (int (vp_cnt vp1)) r f w"
  have spec: "if fits f v \<and> fits f (v + d)
      then \<exists>w'. nn = Inr w' \<and> num_val f w' = v + d \<and> same_notation f w w' \<and> length w' \<le> length w + 27
      else \<exists>e. nn = Inl e"
    using new_number_spec [OF _ n w(2) hx, where down = "vp_character vp = CHR ''-''"] fn v v1(2,4) by (simp add: nn_def)
  have run: "v_increment refresh junk vp s = (case nn of
        Inl _ \<Rightarrow> Some (True, vp1, free_space bp s3)
      | Inr nbuf \<Rightarrow> do { _ \<leftarrow> room bp (length (take beg p @ nbuf @ drop en p));
          (e, s4) \<leftarrow> db_set k (take beg p @ nbuf @ drop en p) s3; Some (e, vp1, free_space bp s4) })"
    unfolding v_increment_def Let_def vp1_def [symmetric] nn_def w(1)
    using v1(3) cnt s1(1) beg(2) s2(1) bl f g(1) by (auto simp: v1(1) simp flip: beg(1) split: sum.split)
  show ?thesis
  proof (cases "fits f v \<and> fits f (v + d)")
    case True
    then obtain w' where w': "nn = Inr w'" "num_val f w' = v + d" "same_notation f w w'" "length w' \<le> length w + 27" using spec by auto
    let ?l = "take beg p @ w' @ drop en p"
    have "beg < en" "en \<le> length p" using fn by blast+
    hence "length ?l \<le> length p + 50" using w'(4) lw by simp
    hence "room bp (length ?l) = Some ()" using g(2) by (simp add: room_def)
    moreover obtain s4 where s4: "db_set k ?l s3 = Some (False, s4)" "becomes s3 ((lines s3)[k - 1 := ?l]) s4"
      using db_set_becomes [OF e3(1) k(1)] k(2) e3(2) by auto
    moreover have "edits s ((lines s)[k - 1 := ?l]) (free_space bp s4)"
    proof -
      have e4: "edits s ((lines s)[k - 1 := ?l]) s4" using edits_becomes [OF b3 s4(2)] e3(2) by simp
      show ?thesis using edits_becomes [OF e4 free_space_becomes [OF editsD(1) [OF e4]]] editsD(2) [OF e4] by simp
    qed
    ultimately show ?thesis using run w' True by auto
  next
    case False
    have "edits s (lines s) (free_space bp s3)"
      using edits_becomes [OF b3 free_space_becomes [OF e3(1)]] e3(2) by simp
    moreover obtain er where "nn = Inl er" using False spec by auto
    ultimately show ?thesis using run False by auto
  qed
qed

theorem increment_adds_witness:
  "\<exists>vp' s' w'. v_increment Some (\<lambda>_. CHR 0x00) ((vi_start None (Some 3) \<lparr>m_lno = 1, m_cno = 2\<rparr>)\<lparr>vp_character := CHR ''-''\<rparr>)
     (opened [''a 0x0fz'']) = Some (False, vp', s') \<and> lines s' = [''a '' @ w' @ ''z''] \<and> num_val HEXL w' = 12"
proof -
  let ?vp = "(vi_start None (Some 3) \<lparr>m_lno = 1, m_cno = 2\<rparr>)\<lparr>vp_character := CHR ''-''\<rparr>"
  have v: "m_start ?vp = \<lparr>m_lno = 1, m_cno = 2\<rparr>" "vp_cnt ?vp = 3" "vp_character ?vp = CHR ''-''"
    by (simp_all add: delete_range_start vi_start_def vp_cnt_def)
  have f: "find_number ''a 0x0fz'' 2 = Some (16, 6, HEXL)" "num_val HEXL ''0x0f'' = 15" "is_space (CHR ''0'') = False" by code_simp+
  have r: "paints Some" by (simp add: paints_def edits_refl)
  show ?thesis
    using increment_adds [of "opened [''a 0x0fz'']" 1 "''a 0x0fz''" ?vp 2 2 16 6 HEXL "''0x0f''" Some 15 "- 3" "(\<lambda>_. CHR 0x00)"] v f r
    by (auto simp: LONG_MAX_def ULONG_MAX_def fits_def unsigned_fmt_def edits_def)
qed

text \<open>A sign at the end of a line, and a digit of some longer line behind it: the command goes on with a length below 0.\<close>

lemma increment_behind_line:
  assumes "c_lno s = 1" "has_file s" "\<not> sp_tinput (cur s)" "c_lp s = ''a+''" "is_digit (junk 0)"
    and "m_start vp = \<lparr>m_lno = 1, m_cno = 1\<rparr>" "vp_character vp = CHR ''+''" "vp_cnt vp = 1" "\<not> vc_c1set vp"
  shows "v_increment refresh junk vp s = None"
proof -
  have "is_space (CHR ''+'') = False" by code_simp
  thus ?thesis using assms
    by (simp add: v_increment_def db_eget_def db_get_def db_get_cached_def Let_def to_number_def behind_line_def)
qed

text \<open>A number with more zeros in front than the array holds loses its digits.\<close>

lemma increment_cuts_long:
  "new_number False 1 16 HEXL (''0x'' @ replicate 100 (CHR ''0'') @ ''1'') = Inr (''0x'' @ replicate 97 (CHR ''0''))"
proof -
  have n: "num_str 16 False 2 = ''2''" by code_simp
  have "\<forall>c \<in> set (replicate 100 (CHR ''0'') @ ''1''). is_xdigit c" by (auto simp: is_xdigit_def is_digit_def)
  hence "num_of 16 (takeWhile is_xdigit (replicate 100 (CHR ''0'') @ ''1'')) = num_of 16 ''1''"
    using num_of_takeWhile [of "replicate 100 (CHR ''0'') @ ''1''" is_xdigit 16] num_of_zeros(1) by (simp only:)
  moreover have "num_of 16 ''1'' = 1" by code_simp
  ultimately have v: "strtoul 16 (''0x'' @ replicate 100 (CHR ''0'') @ ''1'') = 1"
    by (simp only: strtoul_def append_Cons append_Nil drop_Suc_Cons drop_0 if_True refl numeral_2_eq_2 of_nat_1)
  define w where "w = replicate 100 (CHR ''0'') @ ''1''"
  have w: "strtoul 16 (CHR ''0'' # CHR ''x'' # w) = 1" "length w = 101" using v by (simp_all add: w_def)
  show ?thesis unfolding w_def [symmetric]
    by (simp add: new_number_def nget_uslong_def w ULONG_MAX_def NPFITS_def snprintf100_def formatted_def pad_def n)
qed

end
