(* ===== verification/ViReplace.thy ===== *)
theory ViReplace
  imports ViNumber ViParse
begin

section \<open>Replacing characters (vi/v_replace.c, and of vi/v_txt.c the indent)\<close>

text \<open>
  \<^verbatim>\<open>r\<close>: a key is read, and takes the place of as many characters as the count says; a carriage return, or a newline,
  splits the line. The lemmas say what the file becomes and where the cursor is, that the
  command fails before it reads a key if there are too few characters, and how the second line is indented. A count close to
  the largest number makes the end of the range wrap around, and the command writes beyond its buffer.
\<close>

subsection \<open>Operations\<close>

text \<open>The keys, the file, the character and its class as the window keeps them for a repetition, and the forced exit.\<close>

record vrep =
  vr_gs :: gs
  vr_ed :: ed
  rlast :: char
  rvalue :: e_key_t
  vr_exit_force :: bool

text \<open>
  \<^verbatim>\<open>v_txt_auto\<close>: the blanks at the start of a line, or of a text that is given, are put before a text that is
  \<open>lb\<close> in a buffer of size \<open>lb_len\<close>. The result is the failure flag, the text, its buffer, and the autoindent count.
\<close>

definition v_txt_auto :: "nat \<Rightarrow> bytes option \<Rightarrow> bytes \<Rightarrow> nat \<Rightarrow> nat \<Rightarrow> ed \<Rightarrow> (bool \<times> bytes \<times> nat \<times> nat \<times> ed) option" where
  "v_txt_auto lno aitp lb lb_len ai s =
     (if aitp = None \<and> lno = 0 then Some (False, lb, lb_len, 0, s)
      else do {
        (e, t, s1) \<leftarrow> (case aitp of None \<Rightarrow> db_get lno False s | Some t \<Rightarrow> Some (False, t, s));
        let nlen = length (takeWhile is_blank t);
        Some (if e then (True, lb, lb_len, ai, s1)
              else if nlen = 0 then (False, lb, lb_len, ai, s1)
              else case binc_ret (mem_ok s1) lb_len (length lb + nlen) of
                     None \<Rightarrow> (True, lb, 0, ai, s1)
                   | Some n \<Rightarrow> (False, take nlen t @ lb, n, nlen, s1))
      })"

text \<open>
  The replacement character, from the label \<^verbatim>\<open>next\<close>. The first component is what the command returns, if it
  ends here; \<open>repaint\<close> is \<^verbatim>\<open>vs_repaint\<close>.
\<close>

partial_function (option) replace_key :: "(event \<Rightarrow> ed \<Rightarrow> (bool \<times> ed) option) \<Rightarrow> bool \<Rightarrow> vrep \<Rightarrow> (bool option \<times> bool \<times> vrep) option" where
  "replace_key repaint quote v =
     do {
       (e, ev, g) \<leftarrow> v_event_get EC_NONE 0 (vr_gs v);
       let v1 = v\<lparr>vr_gs := g\<rparr>;
       if e then Some (Some True, quote, v1)
       else case ev of
         None \<Rightarrow> None
       | Some ev \<Rightarrow>
           (case e_event ev of
              E_CHARACTER \<Rightarrow>
                if \<not> quote \<and> e_value ev = K_VLNEXT then replace_key repaint True v1
                else if \<not> quote \<and> e_value ev = K_ESCAPE then Some (Some False, quote, v1)
                else Some (None, quote, v1\<lparr>rlast := e_c ev, rvalue := e_value ev\<rparr>)
            | E_ERR \<Rightarrow> Some (Some True, quote, v1\<lparr>vr_exit_force := True\<rparr>)
            | E_EOF \<Rightarrow> Some (Some True, quote, v1\<lparr>vr_exit_force := True\<rparr>)
            | E_INTERRUPT \<Rightarrow> Some (Some False, quote, v1)
            | E_WRESIZE \<Rightarrow> Some (Some False, quote, v1)
            | E_REPAINT \<Rightarrow>
                (case repaint ev (vr_ed v1) of
                   None \<Rightarrow> None
                 | Some (e, s) \<Rightarrow> if e then Some (Some True, quote, v1\<lparr>vr_ed := s\<rparr>) else replace_key repaint quote (v1\<lparr>vr_ed := s\<rparr>))
            | E_QUIT \<Rightarrow> Some (Some False, quote, v1)
            | E_WRITE \<Rightarrow> Some (Some False, quote, v1)
            | E_STRING \<Rightarrow> Some (Some False, quote, v1)
            | E_TIMEOUT \<Rightarrow> Some (Some False, quote, v1)
            | _ \<Rightarrow> None)
     }"

declare replace_key.simps [code]

text \<open>
  The line is split: the failure flag and the column of the cursor on the new line. \<open>ai\<close> is the option \<^verbatim>\<open>autoindent\<close>.
\<close>

definition replace_nl :: "bool \<Rightarrow> nat \<Rightarrow> nat \<Rightarrow> nat \<Rightarrow> bytes \<Rightarrow> ed \<Rightarrow> (bool \<times> nat \<times> ed) option" where
  "replace_nl autoindent lno cno cnt p s =
     do {
       (e, s1) \<leftarrow> db_set lno (take cno p) s;
       if e then Some (True, 0, s1) else
       do {
         let rest = drop (cno + cnt) p;
         let rest = (if autoindent then dropWhile is_blank rest else rest);
         if \<not> text_init (length rest) s1 then Some (True, 0, s1) else
         do {
           (e, lb, _, ai, s2) \<leftarrow> (if rest \<noteq> [] \<and> autoindent then v_txt_auto lno None rest (length rest) 0 s1
                                  else Some (False, rest, length rest, 0, s1));
           if e then Some (True, 0, s2) else
           do {
             (e, s3) \<leftarrow> db_append True lno lb s2;
             Some (e, ai - 1, s3)
           }
         }
       }
     }"

text \<open>What the line becomes; \<open>m\<close> is the last character to be replaced. The result is the failure flag, and where the cursor goes.\<close>

definition replace_text :: "bool \<Rightarrow> bool \<Rightarrow> e_key_t \<Rightarrow> char \<Rightarrow> nat \<Rightarrow> mark \<Rightarrow> nat \<Rightarrow> bytes \<Rightarrow> ed \<Rightarrow> (bool \<times> mark \<times> ed) option" where
  "replace_text autoindent quote val c cno m cnt p s =
     (if \<not> quote \<and> val = K_CR \<or> val = K_NL
      then do { (e, col, s1) \<leftarrow> replace_nl autoindent (m_lno m) cno cnt p s; Some (e, \<lparr>m_lno = m_lno m + 1, m_cno = col\<rparr>, s1) }
      else do { (e, s1) \<leftarrow> db_set (m_lno m) (take cno p @ replicate cnt c @ drop (cno + cnt) p) s; Some (e, m, s1) })"

text \<open>
  \<^verbatim>\<open>v_replace\<close>. While the screen is refreshed and a key is read, the command keeps its pointer into the cache of the
  file; the model stops if another line is there afterwards. So it does where a column or a length has wrapped around.
\<close>

definition v_replace :: "bool \<Rightarrow> (ed \<Rightarrow> (bool \<times> ed) option) \<Rightarrow> (event \<Rightarrow> ed \<Rightarrow> (bool \<times> ed) option) \<Rightarrow> vicmd \<Rightarrow> vrep \<Rightarrow>
    (bool \<times> vicmd \<times> vrep) option" where
  "v_replace autoindent refresh repaint vp v =
     (let lno = m_lno (m_start vp); cno = m_cno (m_start vp); cnt = vp_cnt vp in
      do {
        (e, p, s1) \<leftarrow> db_get lno False (vr_ed v);
        if e \<or> p = [] then Some (True, vp, v\<lparr>vr_ed := s1\<rparr>)
        else
          let stop = cno_prev (cno_add cno cnt);
              vp1 = vp\<lparr>m_stop := \<lparr>m_lno = lno, m_cno = stop\<rparr>\<rparr>
          in if length p - 1 < stop then Some (True, vp1, v\<lparr>vr_ed := s1\<rparr>)
          else do {
            (r, quote, v2) \<leftarrow> (if vc_isdot vp then Some (None, False, v\<lparr>vr_ed := s1\<rparr>)
              else do { (e, s2) \<leftarrow> refresh s1;
                        if e then Some (Some True, False, v\<lparr>vr_ed := s2\<rparr>) else replace_key repaint False (v\<lparr>vr_ed := s2\<rparr>) });
            case r of Some e \<Rightarrow> Some (e, vp1, v2)
            | None \<Rightarrow>
                (case get_space (length p) (vr_ed v2) of
                   (None, s3) \<Rightarrow> Some (True, vp1, v2\<lparr>vr_ed := s3\<rparr>)
                 | (Some bp, s3) \<Rightarrow>
                     if \<not> (c_lno s3 = lno \<and> c_lp s3 = p) \<or> length p < cno + cnt then None
                     else do {
                       (e, m, s4) \<leftarrow> replace_text autoindent quote (rvalue v2) (rlast v2) cno (m_stop vp1) cnt p s3;
                       Some (e, vp1\<lparr>m_stop := m, m_final := m\<rparr>, v2\<lparr>vr_ed := free_space bp s4\<rparr>)
                     })
          }
      })"

subsection \<open>Reading the character\<close>

lemma replace_key_plain:
  assumes g: "gs_ok (vr_gs v)" "o_remap (vr_gs v)" and q: "iq (vr_gs v) = key_event (vr_gs v) CH_NONE c # q" and c: "plain_key (vr_gs v) c"
  shows "\<exists>h. replace_key repaint False v = Some (None, False, v\<lparr>vr_gs := h, rlast := c, rvalue := KEY_VAL (vr_gs v) c\<rparr>) \<and> requeued q (vr_gs v) h"
proof -
  let ?e = "key_event (vr_gs v) CH_NONE c"
  have n: "next_event EC_NONE 0 (iq (vr_gs v)) (vr_gs v) = Some (False, Some ?e, q, vr_gs v)"
    unfolding q by (rule next_plain) (use plain_key_unmapped [OF c] in \<open>auto simp: key_event_def EC_NONE_def\<close>)
  obtain h where h: "v_event_get EC_NONE 0 (vr_gs v) = Some (False, Some ?e, h)" "requeued q (vr_gs v) h"
    by (rule event_get_next [OF g n])
  have "e_event ?e = E_CHARACTER" "e_value ?e = KEY_VAL (vr_gs v) c" "e_c ?e = c" "KEY_VAL (vr_gs v) c \<noteq> K_VLNEXT" "KEY_VAL (vr_gs v) c \<noteq> K_ESCAPE"
    using c by (simp_all add: key_event_def plain_key_def)
  hence "replace_key repaint False v = Some (None, False, v\<lparr>vr_gs := h, rlast := c, rvalue := KEY_VAL (vr_gs v) c\<rparr>)"
    using h(1) by (subst replace_key.simps) simp
  thus ?thesis using h(2) by blast
qed

subsection \<open>What is written\<close>

lemma get_space_cache: "get_space n s = (x, s') \<Longrightarrow> c_lno s' = c_lno s \<and> c_lp s' = c_lp s"
  by (auto simp: get_space_def split: if_splits option.splits)

lemma v_txt_auto_spec:
  assumes e: "editing s" "text_ok s" and n: "0 < lno" "lno \<le> length (lines s)"
  defines "ind \<equiv> takeWhile is_blank (lines s ! (lno - 1))"
  shows "\<exists>blen s'. v_txt_auto lno None lb lb_len 0 s = Some (False, ind @ lb, blen, length ind, s') \<and> becomes s (lines s) s'"
proof -
  obtain s1 where s1: "db_get lno False s = Some (False, lines s ! (lno - 1), s1)" "becomes s (lines s) s1"
    using db_get_becomes [OF e(1) n e(2), of False] by blast
  define t where "t = lines s ! (lno - 1)"
  have ind: "ind = takeWhile is_blank t" by (simp add: ind_def t_def)
  have "take (length ind) t = ind" unfolding ind by (metis takeWhile_eq_take)
  moreover obtain k where "binc_ret (mem_ok s1) lb_len (length lb + length ind) = Some k"
    using binc_ok [OF editingD(1) [OF becomesD(1) [OF s1(2)]]] by blast
  ultimately show ?thesis using s1 n(1)
    unfolding v_txt_auto_def Let_def t_def [symmetric] by (auto simp flip: ind)
qed

text \<open>The lines that take the place of the line, and the column of the cursor on the last of them.\<close>

definition replaced :: "bool \<Rightarrow> bool \<Rightarrow> nat \<Rightarrow> nat \<Rightarrow> char \<Rightarrow> bytes \<Rightarrow> bytes list \<times> nat" where
  "replaced splits autoindent cno cnt c l =
     (if \<not> splits then ([take cno l @ replicate cnt c @ drop (cno + cnt) l], cno + cnt - 1)
      else let rest = (if autoindent then dropWhile is_blank (drop (cno + cnt) l) else drop (cno + cnt) l);
               ind = (if autoindent \<and> rest \<noteq> [] then takeWhile is_blank (take cno l) else [])
           in ([take cno l, ind @ rest], length ind - 1))"

lemma replace_nl_spec:
  assumes e: "editing s" "text_ok s" and k: "0 < k" "k \<le> length (lines s)" "l = lines s ! (k - 1)"
  shows "\<exists>s'. replace_nl ai k c n l s = Some (False, snd (replaced True ai c n x l), s') \<and>
    becomes s (take (k - 1) (lines s) @ fst (replaced True ai c n x l) @ drop k (lines s)) s'"
proof -
  define rest where "rest = (if ai then dropWhile is_blank (drop (c + n) l) else drop (c + n) l)"
  define ind where "ind = (if ai \<and> rest \<noteq> [] then takeWhile is_blank (take c l) else [])"
  obtain s1 where s1: "db_set k (take c l) s = Some (False, s1)" "becomes s ((lines s)[k - 1 := take c l]) s1"
    using db_set_becomes [OF e(1) k(1,2)] by blast
  note b1 = becomesD [OF s1(2)]
  have at: "lines s1 ! (k - 1) = take c l" "k \<le> length (lines s1)" using b1(2) k by simp_all
  have ti: "text_init (length rest) s1" using text_init_ok editingD(1) [OF b1(1)] by blast
  obtain blen s2 where s2: "(if rest \<noteq> [] \<and> ai then v_txt_auto k None rest (length rest) 0 s1 else Some (False, rest, length rest, 0, s1)) =
      Some (False, ind @ rest, blen, length ind, s2)" "becomes s1 (lines s1) s2"
    using v_txt_auto_spec [OF b1(1) b1(3) [OF e(2)] k(1) at(2), of rest "length rest"] becomes_refl [OF b1(1)] at(1)
    by (cases "rest \<noteq> [] \<and> ai") (auto simp: ind_def)
  note b2 = becomesD [OF s2(2)]
  obtain s3 where s3: "db_append True k (ind @ rest) s2 = Some (False, s3)" "becomes s2 (insert_at k (ind @ rest) (lines s2)) s3"
    using db_append_becomes [OF b2(1)] b2(2) at(2) by metis
  have "insert_at k (ind @ rest) (lines s2) = take (k - 1) (lines s) @ [take c l, ind @ rest] @ drop k (lines s)"
    using b1(2) b2(2) k by (simp add: insert_at_def upd_conv_take_nth_drop)
  hence "becomes s (take (k - 1) (lines s) @ [take c l, ind @ rest] @ drop k (lines s)) s3"
    using becomes_trans [OF becomes_trans [OF s1(2) s2(2)]] s3(2) by metis
  moreover have "replaced True ai c n x l = ([take c l, ind @ rest], length ind - 1)"
    by (simp add: replaced_def rest_def ind_def Let_def)
  moreover have "replace_nl ai k c n l s = Some (False, length ind - 1, s3)"
    using s1(1) ti s2(1) s3(1) unfolding replace_nl_def Let_def rest_def [symmetric] by simp
  ultimately show ?thesis by simp
qed

subsection \<open>The command\<close>

definition splits_line :: "gs \<Rightarrow> char \<Rightarrow> bool" where
  "splits_line g c \<longleftrightarrow> KEY_VAL g c = K_CR \<or> KEY_VAL g c = K_NL"

text \<open>
  C15: \<^verbatim>\<open>r\<close> with a key that is not mapped: if the line has as many characters from the cursor on as the count says, they
  are replaced by the character, or the line is split in their place and, with \<^verbatim>\<open>autoindent\<close>, the rest indented like
  the line; the cursor is on the last character replaced, or of the indent; the key is read and no other. If there
  are fewer, the command fails, and no key is read.
\<close>

theorem replace_typed:
  assumes e: "editing (vr_ed v)" "text_ok (vr_ed v)" and k: "0 < k" "k \<le> length (lines (vr_ed v))" and l: "l = lines (vr_ed v) ! (k - 1)"
    and m: "m_start vp = \<lparr>m_lno = k, m_cno = c\<rparr>" "c < length l" "\<not> vc_isdot vp" and n: "0 < vp_cnt vp" "c + vp_cnt vp \<le> SIZE_MAX"
    and g: "gs_ok (vr_gs v)" "o_remap (vr_gs v)" "iq (vr_gs v) = key_event (vr_gs v) CH_NONE x # q" "plain_key (vr_gs v) x"
    and rf: "paints (\<lambda>t. case refresh t of Some (False, t') \<Rightarrow> Some t' | _ \<Rightarrow> None)"
  shows "\<exists>vp' v'. if c + vp_cnt vp \<le> length l
    then v_replace ai refresh repaint vp v = Some (False, vp', v') \<and>
      edits (vr_ed v) (take (k - 1) (lines (vr_ed v)) @ fst (replaced (splits_line (vr_gs v) x) ai c (vp_cnt vp) x l) @ drop k (lines (vr_ed v))) (vr_ed v') \<and>
      m_final vp' = \<lparr>m_lno = if splits_line (vr_gs v) x then k + 1 else k, m_cno = snd (replaced (splits_line (vr_gs v) x) ai c (vp_cnt vp) x l)\<rparr> \<and>
      requeued q (vr_gs v) (vr_gs v')
    else v_replace ai refresh repaint vp v = Some (True, vp', v') \<and> edits (vr_ed v) (lines (vr_ed v)) (vr_ed v') \<and> vr_gs v' = vr_gs v"
proof -
  let ?n = "vp_cnt vp" and ?s = "vr_ed v" and ?x = "splits_line (vr_gs v) x"
  obtain s1 where s1: "db_get k False ?s = Some (False, l, s1)" "becomes ?s (lines ?s) s1" "text_ok s1"
    using db_get_becomes [OF e(1) k e(2), of False] l by blast
  note b1 = becomesD [OF s1(2)]
  have c1: "c_lno s1 = k" "c_lp s1 = l" using db_get_in_cache [OF s1(1) editingD(4) [OF e(1)]] by simp_all
  have st: "cno_prev (cno_add c ?n) = c + ?n - 1" using n by (simp add: cno_add_def)
  have ne: "l \<noteq> []" using m(2) by auto
  define vp1 where "vp1 = vp\<lparr>m_stop := \<lparr>m_lno = k, m_cno = c + ?n - 1\<rparr>\<rparr>"
  show ?thesis
  proof (cases "c + ?n \<le> length l")
    case False
    hence lt: "length l - 1 < c + ?n - 1" using m(2) by linarith
    hence "v_replace ai refresh repaint vp v = Some (True, vp1, v\<lparr>vr_ed := s1\<rparr>)"
      using s1(1) ne st m(1) by (simp add: v_replace_def Let_def vp1_def)
    thus ?thesis using False becomes_edits [OF s1(2)] by auto
  next
    case True
    obtain s2 where s2: "refresh s1 = Some (False, s2)" "edits s1 (lines s1) s2" "c_lno s2 = c_lno s1" "c_lp s2 = c_lp s1"
      using rf [unfolded paints_def, rule_format, of s1] b1(1) s1(3) by (auto split: option.splits bool.splits)
    let ?v2 = "v\<lparr>vr_ed := s2\<rparr>"
    obtain h where h: "replace_key repaint False ?v2 = Some (None, False, ?v2\<lparr>vr_gs := h, rlast := x, rvalue := KEY_VAL (vr_gs v) x\<rparr>)"
        "requeued q (vr_gs v) h"
      using replace_key_plain [of ?v2 x q repaint] g by auto
    have b2: "edits ?s (lines ?s) s2" using edits_trans [OF becomes_edits [OF s1(2)] s2(2)] b1(2) by simp
    note e2 = editsD [OF b2]
    obtain bp s3 where g3: "get_space (length l) s2 = (Some bp, s3)" "becomes s2 (lines s2) s3"
      by (rule get_space_becomes [OF e2(1)])
    have c3: "c_lno s3 = k" "c_lp s3 = l" using get_space_cache [OF g3(1)] s2(3,4) c1 by simp_all
    have b3: "edits ?s (lines ?s) s3" using edits_becomes [OF b2 g3(2)] e2(2) by simp
    note e3 = editsD [OF b3]
    define ls where "ls = take (k - 1) (lines ?s) @ fst (replaced ?x ai c ?n x l) @ drop k (lines ?s)"
    define mk where "mk = \<lparr>m_lno = if ?x then k + 1 else k, m_cno = snd (replaced ?x ai c ?n x l)\<rparr>"
    obtain s4 where s4: "replace_text ai False (KEY_VAL (vr_gs v) x) x c (m_stop vp1) ?n l s3 = Some (False, mk, s4)"
        "becomes s3 ls s4"
    proof (cases ?x)
      case True
      obtain s4 where "replace_nl ai k c ?n l s3 = Some (False, snd (replaced True ai c ?n x l), s4)"
          "becomes s3 (take (k - 1) (lines s3) @ fst (replaced True ai c ?n x l) @ drop k (lines s3)) s4"
        using replace_nl_spec [OF e3(1) e3(3) [OF e(2)] k(1), of l ai c ?n x] k(2) l e3(2) by auto
      thus ?thesis using that True e3(2) by (simp add: splits_line_def ls_def mk_def replace_text_def vp1_def)
    next
      case False
      obtain s4 where "db_set k (take c l @ replicate ?n x @ drop (c + ?n) l) s3 = Some (False, s4)"
          "becomes s3 ((lines s3)[k - 1 := take c l @ replicate ?n x @ drop (c + ?n) l]) s4"
        using db_set_becomes [OF e3(1) k(1)] k(2) e3(2) by auto
      moreover have "(lines ?s)[k - 1 := take c l @ replicate ?n x @ drop (c + ?n) l] = ls"
        using False k by (simp add: ls_def replaced_def upd_conv_take_nth_drop)
      ultimately show ?thesis using that False e3(2) by (simp add: splits_line_def mk_def replaced_def vp1_def replace_text_def)
    qed
    have ge: "\<not> length l - 1 < c + ?n - 1" using True by linarith
    have run: "v_replace ai refresh repaint vp v = Some (False, vp1\<lparr>m_stop := mk, m_final := mk\<rparr>,
        v\<lparr>vr_gs := h, rlast := x, rvalue := KEY_VAL (vr_gs v) x, vr_ed := free_space bp s4\<rparr>)"
      using s1(1) ne st m(1,3) True ge s2(1) h(1) g3(1) c3 s4(1)
      unfolding v_replace_def Let_def by (simp add: vp1_def)
    have "edits ?s ls (free_space bp s4)"
    proof -
      have e4: "edits ?s ls s4" by (rule edits_becomes [OF b3 s4(2)])
      show ?thesis using edits_becomes [OF e4 free_space_becomes [OF editsD(1) [OF e4]]] editsD(2) [OF e4] by simp
    qed
    thus ?thesis using run True h(2) by (auto simp: ls_def mk_def)
  qed
qed

theorem replace_typed_witness:
  "\<exists>vp' v'. v_replace True (\<lambda>t. Some (False, t)) (\<lambda>_ t. Some (False, t)) (vi_start None (Some 2) \<lparr>m_lno = 1, m_cno = 1\<rparr>)
       \<lparr>vr_gs = vs_gs (at_keys ''-'' []), vr_ed = opened [''abcd''], rlast = CHR 0x00, rvalue = K_NOTUSED, vr_exit_force = False\<rparr> =
       Some (False, vp', v') \<and>
     lines (vr_ed v') = [''a--d''] \<and> m_final vp' = \<lparr>m_lno = 1, m_cno = 2\<rparr> \<and> map e_c (iq (vr_gs v')) = []"
proof -
  let ?vp = "vi_start None (Some 2) \<lparr>m_lno = 1, m_cno = 1\<rparr>" and ?g = "vs_gs (at_keys ''-'' [])"
  let ?v = "\<lparr>vr_gs = ?g, vr_ed = opened [''abcd''], rlast = CHR 0x00, rvalue = K_NOTUSED, vr_exit_force = False\<rparr>"
  have v: "m_start ?vp = \<lparr>m_lno = 1, m_cno = 1\<rparr>" "vp_cnt ?vp = 2" "\<not> vc_isdot ?vp"
    by (simp_all add: delete_range_start)
  have g: "gs_ok ?g" "o_remap ?g" "iq ?g = [key_event ?g CH_NONE (CHR ''-'')]" "plain_key ?g (CHR ''-'')"
    using at_keys_typed(1) [of "''-''" "[]"] at_keys_typed(2) [of "''-''" "[]" "CHR ''-''"]
    by (simp_all add: ready_keys_def typed_def MAX_BIT_SEQ_def)
  have sp: "\<not> splits_line ?g (CHR ''-'')"
    by (simp add: splits_line_def at_keys_def keys_typed_def KEY_VAL_def Let_def MAX_FAST_KEY_def)
  have r: "paints (\<lambda>t. case Some (False, t) of Some (False, t') \<Rightarrow> Some t' | _ \<Rightarrow> None)" by (simp add: paints_def edits_refl)
  have rp: "replaced False True 1 2 (CHR ''-'') ''abcd'' = ([''a--d''], 2)" by code_simp
  obtain vp' v' where "v_replace True (\<lambda>t. Some (False, t)) (\<lambda>_ t. Some (False, t)) ?vp ?v = Some (False, vp', v')"
      "lines (vr_ed v') = [''a--d'']" "m_final vp' = \<lparr>m_lno = 1, m_cno = 2\<rparr>" "requeued [] ?g (vr_gs v')"
    using replace_typed [of ?v 1 "''abcd''" ?vp 1 "CHR ''-''" "[]" "\<lambda>t. Some (False, t)" True "(\<lambda>_ t. Some (False, t))", OF _ _ _ _ _ v(1) _ v(3) _ _ _ _ _ _ r] v g sp rp
    by (auto simp: SIZE_MAX_def edits_def)
  moreover have "iq (vr_gs v') = []" by (rule requeued_fields(16)) fact
  ultimately show ?thesis by auto
qed

text \<open>A count for which the end of the range wraps around to a column of the line: the command writes beyond its buffer.\<close>

lemma replace_count_wraps:
  assumes e: "editing (vr_ed v)" "text_ok (vr_ed v)" and k: "0 < k" "k \<le> length (lines (vr_ed v))" "l = lines (vr_ed v) ! (k - 1)" "2 < length l" "length l \<le> SIZE_MAX"
    and vp: "m_start vp = \<lparr>m_lno = k, m_cno = 2\<rparr>" "vc_isdot vp" "vp_cnt vp = SIZE_MAX"
  shows "v_replace ai refresh repaint vp v = None"
proof -
  obtain s1 where s1: "db_get k False (vr_ed v) = Some (False, l, s1)" "becomes (vr_ed v) (lines (vr_ed v)) s1"
    using db_get_becomes [OF e(1) k(1,2) e(2), of False] k(3) by blast
  have "l \<noteq> []" "cno_prev (cno_add 2 SIZE_MAX) = 0" "length l < 2 + SIZE_MAX"
    using k(4,5) by (auto simp: cno_add_def)
  moreover obtain bp s3 where "get_space (length l) s1 = (Some bp, s3)"
    by (rule get_space_becomes [OF becomesD(1) [OF s1(2)]])
  ultimately show ?thesis using s1(1) vp by (simp add: v_replace_def Let_def)
qed

end
