(* ===== verification/Paragraphs.thy ===== *)
theory Paragraphs
  imports LineMotions
begin

section \<open>Paragraphs and sections (vi/v_paragraph.c, vi/v_section.c)\<close>

text \<open>
  The motions over paragraphs and sections, which both look at the starts of lines: for empty lines after text,
  for form feeds, for braces, and for the macros the options name. The lemmas say which line each motion leads
  to, how far a count goes, what happens at the ends of the file, and that a backward motion is a forward motion in the file
  upside down.
\<close>

subsection \<open>Macros at the start of a line\<close>

text \<open>
  The list of macros is a string of pairs of characters, and with an odd length is run off. The second character of a macro
  is compared with the third of the line, which in a line of two characters is the byte behind it: \<open>junk\<close>
  is what the cache holds there, and the byte must be within the buffer. \<open>None\<close> is undefined.
\<close>

definition byte_at :: "char \<Rightarrow> nat \<Rightarrow> bytes \<Rightarrow> nat \<Rightarrow> char option" where
  "byte_at junk buflen p i = (if i < length p then Some (p ! i) else if i < buflen then Some junk else None)"

definition macro_match :: "char \<Rightarrow> nat \<Rightarrow> bytes \<Rightarrow> char \<Rightarrow> char \<Rightarrow> bool option" where
  "macro_match junk buflen p a b =
     (if a \<noteq> p ! 1 then Some False
      else if b = CHR '' '' \<and> length p = 2 then Some True
      else map_option (\<lambda>c. b = c) (byte_at junk buflen p 2))"

text \<open>Counts are \<^verbatim>\<open>recno_t\<close>.\<close>

definition recno_dec :: "nat \<Rightarrow> nat" where
  "recno_dec n = (if n = 0 then 2 ^ 32 - 1 else n - 1)"

definition no_text :: "bytes \<Rightarrow> bool" where
  "no_text p \<longleftrightarrow> p = [] \<or> v_isempty p"

datatype pstate = P_INTEXT | P_INBLANK

text \<open>\<^verbatim>\<open>INTEXT_CHECK\<close>: whether the line is found, the state, and the count.\<close>

fun macro_dec :: "(char \<Rightarrow> char \<Rightarrow> bool option) \<Rightarrow> pstate \<Rightarrow> bytes \<Rightarrow> nat \<Rightarrow> (bool \<times> pstate \<times> nat) option" where
  "macro_dec mm st [] n = Some (False, st, n)"
| "macro_dec mm st [a] n = None"
| "macro_dec mm st (a # b # ps) n =
     do {
       m \<leftarrow> mm a b;
       if \<not> m then macro_dec mm st ps n
       else
         let n1 = recno_dec n; n2 = recno_dec n1 in
         if n1 = 0 then Some (True, st, 0)
         else if st = P_INTEXT then (if n2 = 0 then Some (True, st, 0) else macro_dec mm st ps n2)
         else macro_dec mm st ps n1
     }"

definition intext_check :: "bytes \<Rightarrow> char \<Rightarrow> nat \<Rightarrow> bytes \<Rightarrow> nat \<Rightarrow> (bool \<times> pstate \<times> nat) option" where
  "intext_check ps junk buflen p n =
     (if no_text p \<and> recno_dec n = 0 then Some (True, P_INTEXT, 0)
      else
        let st = (if no_text p then P_INBLANK else P_INTEXT);
            n = (if no_text p then recno_dec n else n)
        in do {
          c \<leftarrow> byte_at junk buflen p 0;
          if c = CHR 0x0C then
            (let n1 = recno_dec n; n2 = recno_dec n1 in
             Some (if n1 = 0 then (True, st, 0)
                   else if st = P_INTEXT then (if n2 = 0 then (True, st, 0) else (False, st, n2))
                   else (False, st, n1)))
          else if c \<noteq> CHR ''.'' \<or> length p < 2 then Some (False, st, n)
          else macro_dec (macro_match junk buflen p) st ps n
        })"

subsection \<open>Paragraphs\<close>

text \<open>
  The search from line \<open>lno\<close>, whose length is \<open>len\<close>; \<open>next_lno\<close> is the next line of the direction. The result: whether a
  line was found, the line, the line before it and its length.
\<close>

partial_function (option) para_loop ::
  "bytes \<Rightarrow> (nat \<Rightarrow> char) \<Rightarrow> (nat \<Rightarrow> nat) \<Rightarrow> pstate \<Rightarrow> nat \<Rightarrow> nat \<Rightarrow> nat \<Rightarrow> ed \<Rightarrow> (bool \<times> nat \<times> nat \<times> nat \<times> ed) option" where
  "para_loop ps junk next_lno st cnt lno len s =
     (let lno1 = next_lno lno in
      do {
        (e, p, s1) \<leftarrow> db_get lno1 False s;
        if e then Some (False, lno1, lno, len, s1)
        else case st of
          P_INTEXT \<Rightarrow>
            do {
              (found, st1, cnt1) \<leftarrow> intext_check ps (junk lno1) (c_buf_len s1) p cnt;
              if found then Some (True, lno1, lno, len, s1)
              else para_loop ps junk next_lno st1 cnt1 lno1 (length p) s1
            }
        | P_INBLANK \<Rightarrow>
            if no_text p then para_loop ps junk next_lno P_INBLANK cnt lno1 (length p) s1
            else if recno_dec cnt = 0 then Some (True, lno1, lno, len, s1)
            else para_loop ps junk next_lno P_INTEXT (recno_dec cnt) lno1 (length p) s1
      })"

declare para_loop.simps [code]

text \<open>The number of changes between text and blank lines a count stands for.\<close>

definition para_changes :: "nat \<Rightarrow> bool \<Rightarrow> nat" where
  "para_changes cnt intext = (let n = to_recno (2 * to_recno cnt) in if intext then recno_dec n else n)"

text \<open>Whether a forward motion takes whole lines: it starts at or before the first non-blank.\<close>

definition whole_lines :: "vicmd \<Rightarrow> ed \<Rightarrow> (bool \<times> vicmd \<times> ed) option" where
  "whole_lines vp s =
     (if \<not> ISMOTION vp then Some (False, vp, s)
      else if m_cno (m_start vp) = 0 then Some (False, vp\<lparr>vm_lmode := True\<rparr>, s)
      else do {
        (e, c, s1) \<leftarrow> nonblank (m_lno (m_start vp)) 0 s;
        let vp1 = vp\<lparr>m_stop := (m_start vp)\<lparr>m_cno := if e then 0 else c\<rparr>\<rparr>;
        Some (e, if \<not> e \<and> m_cno (m_start vp) \<le> c then vp1\<lparr>vm_lmode := True\<rparr> else vp1, s1)
      })"

text \<open>From the label \<^verbatim>\<open>eof\<close>; a line that could not be read has length 0.\<close>

definition para_eof :: "nat \<Rightarrow> vicmd \<Rightarrow> ed \<Rightarrow> (bool \<times> vicmd \<times> ed) option" where
  "para_eof lno vp s =
     (let rest = (\<lambda>len s.
            let vp1 = (if ISMOTION vp \<and> ISCMD vp CHR ''d'' then vp\<lparr>vm_rcm := VM_RCM_SETFNB\<rparr> else vp);
                stop = \<lparr>m_lno = lno - 1, m_cno = len - 1\<rparr>
            in Some (False, vp1\<lparr>m_stop := stop, m_final := if ISMOTION vp then m_start vp else stop\<rparr>, s))
      in if m_lno (m_start vp) = lno \<or> m_lno (m_start vp) = lno - 1 then
           do {
             (e, p, isempty, s1) \<leftarrow> db_eget (m_lno (m_start vp)) s;
             if e then Some (if isempty then (False, vp\<lparr>m_start := (m_start vp)\<lparr>m_cno := 0\<rparr>\<rparr>, s1) else (True, vp, s1))
             else if m_start vp = m_stop vp then do { s2 \<leftarrow> v_eof s1; Some (True, vp, s2) }
             else rest (length p) s1
           }
         else rest 0 s)"

definition v_paragraphf :: "bytes \<Rightarrow> (nat \<Rightarrow> char) \<Rightarrow> motion" where
  "v_paragraphf ps junk vp0 s =
     do {
       (e, vp, s1) \<leftarrow> whole_lines vp0 s;
       if e then Some (True, vp, s1) else
       do {
         let lno = m_lno (m_start vp);
         (e, p, s2) \<leftarrow> db_get lno False s1;
         if e then para_eof lno vp s2 else
         do {
           let intext = (\<not> no_text p);
           (found, lno1, lastlno, lastlen, s3) \<leftarrow>
             para_loop ps junk (\<lambda>n. n + 1) (if intext then P_INTEXT else P_INBLANK) (para_changes (vp_cnt vp) intext) lno (length p) s2;
           if \<not> found then para_eof lno1 vp s3
           else Some (False,
             if ISMOTION vp then vp\<lparr>m_stop := \<lparr>m_lno = lastlno, m_cno = lastlen - 1\<rparr>, m_final := m_start vp\<rparr>
             else vp\<lparr>m_stop := \<lparr>m_lno = lno1, m_cno = 0\<rparr>, m_final := \<lparr>m_lno = lno1, m_cno = 0\<rparr>\<rparr>, s3)
         }
       }
     }"



text \<open>\<^verbatim>\<open>v_buildps\<close>: whether it fails, and the list; \<open>mem\<close> says whether memory can be had.\<close>

definition v_buildps :: "(nat \<Rightarrow> bool) \<Rightarrow> bytes option \<Rightarrow> bytes option \<Rightarrow> bytes \<Rightarrow> bool \<times> bytes" where
  "v_buildps mem p_p s_p ps =
     (let t = (case p_p of None \<Rightarrow> [] | Some x \<Rightarrow> x) @ (case s_p of None \<Rightarrow> [] | Some x \<Rightarrow> x)
      in if t = [] then (False, ps)
         else if \<not> mem (length t + 1) then (True, ps)
         else (False, t))"

subsection \<open>Sections\<close>

text \<open>
  The search for a section. A closing brace counts only for forward motions of a command, and is the only line that is
  part of the range: the flag of the result is false for it.
\<close>

partial_function (option) sect_loop ::
  "bytes \<Rightarrow> (nat \<Rightarrow> char) \<Rightarrow> (nat \<Rightarrow> nat) \<Rightarrow> bool \<Rightarrow> nat \<Rightarrow> nat \<Rightarrow> ed \<Rightarrow> (bool option \<times> nat \<times> ed) option" where
  "sect_loop secs junk next_lno closing cnt lno s =
     (let lno1 = next_lno lno in
      do {
        (e, p, s1) \<leftarrow> db_get lno1 False s;
        if e then Some (None, lno1, s1)
        else if p = [] then sect_loop secs junk next_lno closing cnt lno1 s1
        else if hd p = CHR ''{'' \<or> closing \<and> hd p = CHR ''}'' then
          (if recno_dec cnt = 0 then Some (Some (hd p = CHR ''{''), lno1, s1)
           else sect_loop secs junk next_lno closing (recno_dec cnt) lno1 s1)
        else if hd p = CHR 0x0C then
          (if recno_dec cnt = 0 then Some (Some True, lno1, s1)
           else sect_loop secs junk next_lno closing (recno_dec cnt) lno1 s1)
        else if hd p \<noteq> CHR ''.'' \<or> length p < 2 then sect_loop secs junk next_lno closing cnt lno1 s1
        else do {
          (found, _, n) \<leftarrow> macro_dec (macro_match (junk lno1) (c_buf_len s1) p) P_INBLANK secs cnt;
          if found then Some (Some True, lno1, s1) else sect_loop secs junk next_lno closing n lno1 s1
        }
      })"

declare sect_loop.simps [code]

definition v_sectionf :: "bytes option \<Rightarrow> (nat \<Rightarrow> char) \<Rightarrow> motion" where
  "v_sectionf o_sections junk vp0 s =
     (case o_sections of
        None \<Rightarrow> Some (True, vp0, s)
      | Some secs \<Rightarrow>
          do {
            (e, vp, s1) \<leftarrow> whole_lines vp0 s;
            if e then Some (True, vp, s1) else
            do {
              (found, lno, s2) \<leftarrow> sect_loop secs junk (\<lambda>n. n + 1) (ISMOTION vp) (to_recno (vp_cnt vp)) (m_lno (m_start vp)) s1;
              if found = None \<and> m_lno (m_start vp) = lno - 1 then do { s3 \<leftarrow> v_eof s2; Some (True, vp, s3) }
              else do {
                (e, stop, s3) \<leftarrow> (if found = None \<or> found = Some True \<and> ISMOTION vp
                   then do { (e, p, s3) \<leftarrow> db_get (lno - 1) False s2; Some (e, \<lparr>m_lno = lno - 1, m_cno = length p - 1\<rparr>, s3) }
                   else Some (False, \<lparr>m_lno = lno, m_cno = 0\<rparr>, s2));
                if e then Some (True, vp, s3)
                else Some (False, vp\<lparr>m_stop := stop,
                   m_final := if \<not> ISMOTION vp then stop
                              else if vm_lmode vp then (m_start vp)\<lparr>m_cno := 0\<rparr> else m_start vp\<rparr>, s3)
              }
            }
          })"

definition v_sectionb :: "bytes option \<Rightarrow> (nat \<Rightarrow> char) \<Rightarrow> motion" where
  "v_sectionb o_sections junk vp s =
     (if m_lno (m_start vp) \<le> 1 then Some (True, vp, s)
      else case o_sections of
        None \<Rightarrow> Some (True, vp, s)
      | Some secs \<Rightarrow>
          do {
            (found, lno, s1) \<leftarrow> sect_loop secs junk (\<lambda>n. n - 1) False (to_recno (vp_cnt vp)) (m_lno (m_start vp)) s;
            let stop = \<lparr>m_lno = if found = None then 1 else lno, m_cno = 0\<rparr>;
            let vp1 = vp\<lparr>m_stop := stop, m_final := stop\<rparr>;
            Some (False,
              if m_cno (m_start vp) = 0
              then vp1\<lparr>vm_rcm := VM_RCM_SETFNB, m_start := (m_start vp)\<lparr>m_lno := m_lno (m_start vp) - 1\<rparr>, vm_lmode := True\<rparr>
              else vp1\<lparr>m_start := (m_start vp)\<lparr>m_cno := m_cno (m_start vp) - 1\<rparr>\<rparr>, s1)
          })"

subsection \<open>Walking over lines\<close>

text \<open>
  Every line is worth a number of boundaries, which may depend on the line before it in the direction of the walk; the
  walk ends on the line with which the count is reached.
\<close>

fun walk_to :: "(bytes \<Rightarrow> bytes \<Rightarrow> nat) \<Rightarrow> nat \<Rightarrow> bytes \<Rightarrow> bytes list \<Rightarrow> nat option" where
  "walk_to w n prev [] = None"
| "walk_to w n prev (l # ls) = (if n \<le> w prev l then Some 0 else map_option Suc (walk_to w (n - w prev l) l ls))"

text \<open>What a line is worth as the start of a section, and as a boundary of paragraphs.\<close>

fun macro_hits :: "bytes \<Rightarrow> bytes \<Rightarrow> nat" where
  "macro_hits (a # b # ps) l = (if a = l ! 1 \<and> (if length l = 2 then b = CHR '' '' else b = l ! 2) then 1 else 0) + macro_hits ps l"
| "macro_hits ps l = 0"

definition sect_worth :: "bytes \<Rightarrow> bool \<Rightarrow> bytes \<Rightarrow> bytes \<Rightarrow> nat" where
  "sect_worth secs closing prev l =
     (if l = [] then 0
      else if hd l = CHR ''{'' \<or> closing \<and> hd l = CHR ''}'' \<or> hd l = CHR 0x0C then 1
      else if hd l = CHR ''.'' \<and> 2 \<le> length l then macro_hits secs l else 0)"

definition para_worth :: "bytes \<Rightarrow> bytes \<Rightarrow> bytes \<Rightarrow> nat" where
  "para_worth ps prev l =
     (if no_text prev then 0
      else if no_text l \<or> hd l = CHR 0x0C then 1
      else if hd l = CHR ''.'' \<and> 2 \<le> length l then macro_hits ps l else 0)"

text \<open>The bytes behind a line do no harm if they are no form feed and in no macro.\<close>

definition harmless :: "bytes \<Rightarrow> char \<Rightarrow> bool" where
  "harmless ps c \<longleftrightarrow> c \<noteq> CHR 0x0C \<and> c \<notin> set ps"

lemma macro_match_hit:
  assumes "harmless ps junk" "2 < buflen" "2 \<le> length p" "b \<in> set ps"
  shows "macro_match junk buflen p a b = Some (a = p ! 1 \<and> (if length p = 2 then b = CHR '' '' else b = p ! 2))"
  using assms by (auto simp: macro_match_def byte_at_def harmless_def)

lemma recno_dec_Suc [simp]: "recno_dec (Suc n) = n"
  by (simp add: recno_dec_def)

lemma macro_dec_blank:
  assumes "harmless qs junk" "2 < buflen" "2 \<le> length p" "even (length ps)" "set ps \<subseteq> set qs" "0 < k"
  shows "macro_dec (macro_match junk buflen p) P_INBLANK ps k =
    (if k \<le> macro_hits ps p then Some (True, P_INBLANK, 0) else Some (False, P_INBLANK, k - macro_hits ps p))"
  using assms
proof (induction ps p arbitrary: k rule: macro_hits.induct)
  case (1 a b ps l)
  obtain k' where k: "k = Suc k'" using 1(7) by (cases k) auto
  have m: "macro_match junk buflen l a b = Some (a = l ! 1 \<and> (if length l = 2 then b = CHR '' '' else b = l ! 2))"
    by (rule macro_match_hit [of qs]) (use 1(2-6) in auto)
  show ?case
  proof (cases "a = l ! 1 \<and> (if length l = 2 then b = CHR '' '' else b = l ! 2)")
    case True
    hence h: "macro_hits (a # b # ps) l = Suc (macro_hits ps l)" by simp
    show ?thesis using m True 1 k unfolding h by (cases k') (simp_all add: Let_def)
  next
    case False
    hence h: "macro_hits (a # b # ps) l = macro_hits ps l" by auto
    show ?thesis using m False 1 unfolding h by (simp only: macro_dec.simps bind.bind_lunit if_True not_False_eq_True if_False) simp
  qed
qed simp_all

lemma macro_dec_text:
  assumes "harmless qs junk" "2 < buflen" "2 \<le> length p" "even (length ps)" "set ps \<subseteq> set qs" "0 < k"
  shows "macro_dec (macro_match junk buflen p) P_INTEXT ps (2 * k - 1) =
    (if k \<le> macro_hits ps p then Some (True, P_INTEXT, 0) else Some (False, P_INTEXT, 2 * (k - macro_hits ps p) - 1))"
  using assms
proof (induction ps p arbitrary: k rule: macro_hits.induct)
  case (1 a b ps l)
  obtain k' where k: "k = Suc k'" using 1(7) by (cases k) auto
  have m: "macro_match junk buflen l a b = Some (a = l ! 1 \<and> (if length l = 2 then b = CHR '' '' else b = l ! 2))"
    by (rule macro_match_hit [of qs]) (use 1(2-6) in auto)
  show ?case
  proof (cases "a = l ! 1 \<and> (if length l = 2 then b = CHR '' '' else b = l ! 2)")
    case True
    hence h: "macro_hits (a # b # ps) l = Suc (macro_hits ps l)" by simp
    have ih: "0 < k' \<Longrightarrow> macro_dec (macro_match junk buflen l) P_INTEXT ps (2 * k' - 1) =
        (if k' \<le> macro_hits ps l then Some (True, P_INTEXT, 0) else Some (False, P_INTEXT, 2 * (k' - macro_hits ps l) - 1))"
      by (rule 1(1)) (use 1(2-6) in auto)
    show ?thesis
    proof (cases k')
      case 0
      thus ?thesis using m True k unfolding h by (simp add: Let_def)
    next
      case (Suc j)
      define i where "i = 2 * k' - 1"
      have d: "2 * k - 1 = Suc (Suc i)" "0 < k'" "i \<noteq> 0" using k Suc by (simp_all add: i_def)
      show ?thesis using m True ih [OF d(2), folded i_def] d(3) k unfolding h d(1) by (simp add: Let_def)
    qed
  next
    case False
    hence h: "macro_hits (a # b # ps) l = macro_hits ps l" by auto
    show ?thesis using m False 1 unfolding h by simp
  qed
qed simp_all

lemma blank_head: "no_text p \<Longrightarrow> p \<noteq> [] \<Longrightarrow> p ! 0 \<noteq> CHR 0x0C \<and> p ! 0 \<noteq> CHR ''.''"
  by (cases p) (auto simp: no_text_def v_isempty_def is_blank_def)

lemma intext_check_spec:
  fixes p prev :: bytes
  assumes h: "harmless ps junk" "2 < buflen" "even (length ps)" "0 < k" and prev: "\<not> no_text prev"
  defines "w \<equiv> para_worth ps prev p"
  shows "\<exists>st. intext_check ps junk buflen p (2 * k - 1) =
    (if k \<le> w then Some (True, st, 0)
     else Some (False, if no_text p then P_INBLANK else P_INTEXT, if no_text p then 2 * (k - w) else 2 * (k - w) - 1))"
proof -
  obtain k' where k: "k = Suc k'" using h(4) by (cases k) auto
  show ?thesis
  proof (cases "no_text p")
    case True
    have w: "w = 1" using prev True by (simp add: w_def para_worth_def)
    obtain c where c: "byte_at junk buflen p 0 = Some c" "c \<noteq> CHR 0x0C" "c \<noteq> CHR ''.'' \<or> length p < 2"
      using h(1,2) blank_head [OF True] by (cases "p = []") (auto simp: byte_at_def harmless_def)
    show ?thesis using True c w k by (auto simp: intext_check_def Let_def)
  next
    case False
    hence p: "p \<noteq> []" by (simp add: no_text_def)
    hence c: "byte_at junk buflen p 0 = Some (hd p)" by (simp add: byte_at_def hd_conv_nth)
    consider "hd p = CHR 0x0C" | "hd p \<noteq> CHR 0x0C" "hd p = CHR ''.''" "2 \<le> length p" | "hd p \<noteq> CHR 0x0C" "hd p \<noteq> CHR ''.'' \<or> length p < 2"
      by linarith
    thus ?thesis
    proof cases
      case 1
      have w: "w = 1" using prev 1 by (simp add: w_def para_worth_def)
      show ?thesis using False c 1 w k by (cases k') (auto simp: intext_check_def Let_def)
    next
      case 2
      have w: "w = macro_hits ps p" using prev 2 False by (simp add: w_def para_worth_def)
      show ?thesis using False c 2 macro_dec_text [OF h(1,2) 2(3) h(3) subset_refl h(4)] unfolding w
        by (auto simp: intext_check_def Let_def)
    next
      case 3
      have w: "w = 0" using prev 3 False by (auto simp: w_def para_worth_def)
      show ?thesis using False c 3 w h(4) by (auto simp: intext_check_def Let_def)
    qed
  qed
qed

text \<open>The lines ahead of a line in a direction.\<close>

fun ahead :: "(nat \<Rightarrow> nat) \<Rightarrow> nat \<Rightarrow> bytes list \<Rightarrow> bytes list \<Rightarrow> bool" where
  "ahead nx lno ls [] = (nx lno = 0 \<or> length ls < nx lno)"
| "ahead nx lno ls (l # rest) = (0 < nx lno \<and> nx lno \<le> length ls \<and> ls ! (nx lno - 1) = l \<and> ahead nx (nx lno) ls rest)"

lemma ahead_down: "k + length rest = length ls \<Longrightarrow> drop k ls = rest \<Longrightarrow> ahead (\<lambda>n. n + 1) k ls rest"
proof (induction rest arbitrary: k)
  case (Cons l rest)
  have k: "k < length ls" using Cons.prems(1) by simp
  have "ls ! k = l" "drop (Suc k) ls = rest" using Cons.prems(2) Cons_nth_drop_Suc [OF k] by simp_all
  thus ?case using Cons.IH [of "k + 1"] Cons.prems(1) k by simp
qed simp

lemma ahead_up: "k \<le> length ls \<Longrightarrow> ahead (\<lambda>n. n - 1) (Suc k) ls (rev (take k ls))"
proof (induction k)
  case (Suc j)
  have r: "rev (take (Suc j) ls) = ls ! j # rev (take j ls)" using Suc.prems by (simp add: take_Suc_conv_app_nth)
  have "ahead (\<lambda>n. n - 1) (Suc j) ls (rev (take j ls))" using Suc by (metis Suc_leD)
  thus ?case using Suc.prems unfolding r by simp
qed simp

lemma db_get_buffer:
  assumes "db_get n False s = Some (False, l, s')" "\<not> sp_tinput (cur s)"
  shows "c_buf_len s \<le> c_buf_len s'"
proof -
  have f: "c_buf_len t \<le> c_buf_len s'" if g: "db_fetch n t = Some (False, l, s')" for t
  proof -
    obtain st d db' where r: "rec_get rec_vpipe n (db t) = Some (st, d, db')" using g by (cases "rec_get rec_vpipe n (db t)") (auto simp: db_fetch_def)
    show ?thesis using g by (cases st; cases d) (auto simp: db_fetch_def r db_cache_update_def Let_def split: if_splits)
  qed
  have "db_get_cached n s = Some (False, l, s')" using assms by (simp add: db_get_def split: if_splits)
  thus ?thesis using f [of "s\<lparr>c_lno := 0\<rparr>"] by (auto simp: db_get_cached_def split: if_splits)
qed

text \<open>One step of a walk: the next line is read, or there is none.\<close>

lemma ahead_end:
  assumes "ready s" "\<not> sp_tinput (cur s)" "ahead nx lno (lines s) []"
  shows "\<exists>s'. db_get (nx lno) False s = Some (True, [], s') \<and> ready s' \<and> reads s s'"
proof (cases "nx lno = 0")
  case True
  thus ?thesis using assms(1) by auto
next
  case False
  obtain s' where s': "db_get (nx lno) False s = Some (True, [], s')" "keeps s s'"
    using db_get_beyond [of s "nx lno" False] assms False by (auto simp: ready_def)
  have "ready s'" using keepsD(1,3) [OF s'(2)] assms(1) by (simp add: ready_def)
  thus ?thesis using s' keepsD(2) [OF s'(2)] by blast
qed

lemma ahead_next:
  assumes "ready s" "\<not> sp_tinput (cur s)" "ahead nx lno (lines s) (l # rest)" "2 < c_buf_len s"
  shows "\<exists>s'. db_get (nx lno) False s = Some (False, l, s') \<and> ready s' \<and> reads s s' \<and> \<not> sp_tinput (cur s') \<and> 2 < c_buf_len s' \<and>
    ahead nx (nx lno) (lines s') rest"
proof -
  obtain s' where s': "db_get (nx lno) False s = Some (False, l, s')" "ready s'" "reads s s'"
    using db_get_line [of s "nx lno" False] assms(1-3) by auto
  have "lines s' = lines s" "cur s' = cur s" using reads_fields [OF s'(3)] by simp_all
  moreover have "2 < c_buf_len s'" using db_get_buffer [OF s'(1) assms(2)] assms(4) by simp
  ultimately show ?thesis using s' assms(2,3) by auto
qed

subsection \<open>The searches\<close>

abbreviation para_state :: "bytes \<Rightarrow> pstate" where
  "para_state prev \<equiv> if no_text prev then P_INBLANK else P_INTEXT"

abbreviation para_count :: "bytes \<Rightarrow> nat \<Rightarrow> nat" where
  "para_count prev k \<equiv> if no_text prev then 2 * k else 2 * k - 1"

lemma walk_to_less: "walk_to w k prev ls = Some i \<Longrightarrow> i < length ls"
  by (induction w k prev ls arbitrary: i rule: walk_to.induct) (auto split: if_splits)

lemma para_loop_spec:
  assumes "ready s" "\<not> sp_tinput (cur s)" "ahead nx lno (lines s) rest" "2 < c_buf_len s"
    and h: "\<And>n. harmless ps (junk n)" "even (length ps)" "0 < k"
  shows "\<exists>s' a b. reads s s' \<and> ready s' \<and>
    para_loop ps junk nx (para_state prev) (para_count prev k) lno (length prev) s =
      (case walk_to (para_worth ps) k prev rest of
         Some i \<Rightarrow> Some (True, (nx ^^ Suc i) lno, (nx ^^ i) lno, length ((prev # rest) ! i), s')
       | None \<Rightarrow> Some (False, (nx ^^ Suc (length rest)) lno, a, b, s'))"
  using assms
proof (induction rest arbitrary: lno prev k s)
  case Nil
  obtain s' where s': "db_get (nx lno) False s = Some (True, [], s')" "ready s'" "reads s s'"
    using ahead_end [OF Nil.prems(1-3)] by blast
  thus ?case by (subst para_loop.simps) (auto simp: Let_def)
next
  case (Cons l rest)
  obtain s1 where s1: "db_get (nx lno) False s = Some (False, l, s1)" "ready s1" "reads s s1" "\<not> sp_tinput (cur s1)"
      "2 < c_buf_len s1" "ahead nx (nx lno) (lines s1) rest"
    using ahead_next [OF Cons.prems(1-4)] by blast
  note ih = Cons.IH [OF s1(2,4,6,5) Cons.prems(5,6)]
  have go: "(nx ^^ n) (nx x) = (nx ^^ Suc n) x" for n x by (simp only: funpow_Suc_right o_apply)
  show ?case
  proof (cases "no_text prev")
    case True
    have w: "para_worth ps prev l = 0" using True by (simp add: para_worth_def)
    have d: "recno_dec (2 * k) = 2 * k - 1" "2 * k - 1 \<noteq> 0" using Cons.prems(7) by (simp_all add: recno_dec_def)
    obtain s' a b where "reads s1 s'" "ready s'" "para_loop ps junk nx (para_state l) (para_count l k) (nx lno) (length l) s1 =
      (case walk_to (para_worth ps) k l rest of
         Some i \<Rightarrow> Some (True, (nx ^^ Suc i) (nx lno), (nx ^^ i) (nx lno), length ((l # rest) ! i), s')
       | None \<Rightarrow> Some (False, (nx ^^ Suc (length rest)) (nx lno), a, b, s'))"
      using ih [OF Cons.prems(7), of l] by blast
    moreover have "para_loop ps junk nx (para_state prev) (para_count prev k) lno (length prev) s =
        para_loop ps junk nx (para_state l) (para_count l k) (nx lno) (length l) s1"
      using True s1(1) d by (subst para_loop.simps) (simp add: Let_def)
    ultimately show ?thesis using reads_trans [OF s1(3)] w Cons.prems(7) unfolding go
      by (auto split: option.split)
  next
    case False
    let ?w = "para_worth ps prev l"
    obtain st where st: "intext_check ps (junk (nx lno)) (c_buf_len s1) l (2 * k - 1) =
        (if k \<le> ?w then Some (True, st, 0)
         else Some (False, para_state l, para_count l (k - ?w)))"
      using intext_check_spec [OF Cons.prems(5) s1(5) Cons.prems(6,7) False, of "nx lno" l] by auto
    show ?thesis
    proof (cases "k \<le> ?w")
      case True
      have "para_loop ps junk nx (para_state prev) (para_count prev k) lno (length prev) s = Some (True, nx lno, lno, length prev, s1)"
        using True False s1(1) st by (subst para_loop.simps) (simp add: Let_def)
      thus ?thesis using True s1(2,3) by auto
    next
      case nf: False
      obtain s' a b where "reads s1 s'" "ready s'" "para_loop ps junk nx (para_state l) (para_count l (k - ?w)) (nx lno) (length l) s1 =
        (case walk_to (para_worth ps) (k - ?w) l rest of
           Some i \<Rightarrow> Some (True, (nx ^^ Suc i) (nx lno), (nx ^^ i) (nx lno), length ((l # rest) ! i), s')
         | None \<Rightarrow> Some (False, (nx ^^ Suc (length rest)) (nx lno), a, b, s'))"
        using ih [of "k - ?w" l] nf by auto
      moreover have "para_loop ps junk nx (para_state prev) (para_count prev k) lno (length prev) s =
          para_loop ps junk nx (para_state l) (para_count l (k - ?w)) (nx lno) (length l) s1"
        using nf False s1(1) st by (subst para_loop.simps) (simp add: Let_def)
      ultimately show ?thesis using reads_trans [OF s1(3)] nf unfolding go by (auto split: option.split)
    qed
  qed
qed

lemma sect_loop_spec:
  assumes "ready s" "\<not> sp_tinput (cur s)" "ahead nx lno (lines s) rest" "2 < c_buf_len s"
    and h: "\<And>n. harmless secs (junk n)" "even (length secs)" "0 < k"
  shows "\<exists>s'. reads s s' \<and> ready s' \<and> sect_loop secs junk nx closing k lno s =
      (case walk_to (sect_worth secs closing) k prev rest of
         Some i \<Rightarrow> Some (Some (hd (rest ! i) \<noteq> CHR ''}''), (nx ^^ Suc i) lno, s')
       | None \<Rightarrow> Some (None, (nx ^^ Suc (length rest)) lno, s'))"
  using assms
proof (induction rest arbitrary: lno prev k s)
  case Nil
  obtain s' where s': "db_get (nx lno) False s = Some (True, [], s')" "ready s'" "reads s s'"
    using ahead_end [OF Nil.prems(1-3)] by blast
  thus ?case by (subst sect_loop.simps) (auto simp: Let_def)
next
  case (Cons l rest)
  obtain s1 where s1: "db_get (nx lno) False s = Some (False, l, s1)" "ready s1" "reads s s1" "\<not> sp_tinput (cur s1)"
      "2 < c_buf_len s1" "ahead nx (nx lno) (lines s1) rest"
    using ahead_next [OF Cons.prems(1-4)] by blast
  let ?w = "sect_worth secs closing prev l"
  have go: "(nx ^^ n) (nx x) = (nx ^^ Suc n) x" for n x by (simp only: funpow_Suc_right o_apply)
  have step: "sect_loop secs junk nx closing k lno s =
      (if k \<le> ?w then Some (Some (hd l \<noteq> CHR ''}''), nx lno, s1) else sect_loop secs junk nx closing (k - ?w) (nx lno) s1)"
  proof -
    obtain k' where k: "k = Suc k'" using Cons.prems(7) by (cases k) auto
    consider "l = []" | "l \<noteq> []" "hd l = CHR ''{'' \<or> closing \<and> hd l = CHR ''}'' \<or> hd l = CHR 0x0C"
      | "l \<noteq> []" "\<not> (hd l = CHR ''{'' \<or> closing \<and> hd l = CHR ''}'' \<or> hd l = CHR 0x0C)" "hd l \<noteq> CHR ''.'' \<or> length l < 2"
      | "l \<noteq> []" "\<not> (hd l = CHR ''{'' \<or> closing \<and> hd l = CHR ''}'' \<or> hd l = CHR 0x0C)" "hd l = CHR ''.''" "2 \<le> length l"
      by linarith
    thus ?thesis
    proof cases
      case 1
      thus ?thesis using s1(1) k by (subst sect_loop.simps) (simp add: Let_def sect_worth_def)
    next
      case 2
      have w: "?w = 1" using 2 by (simp add: sect_worth_def)
      show ?thesis unfolding w k using 2 s1(1) by (subst sect_loop.simps) (cases k'; auto simp: Let_def)
    next
      case 3
      have w: "?w = 0" using 3 by (auto simp: sect_worth_def)
      show ?thesis unfolding w using 3 s1(1) Cons.prems(7) by (subst sect_loop.simps) (auto simp: Let_def)
    next
      case 4
      have w: "?w = macro_hits secs l" using 4 by (simp add: sect_worth_def)
      show ?thesis unfolding w using 4 s1(1) macro_dec_blank [OF Cons.prems(5) s1(5) 4(4) Cons.prems(6) subset_refl Cons.prems(7), of "nx lno"]
        by (subst sect_loop.simps) (auto simp: Let_def)
    qed
  qed
  show ?case
  proof (cases "k \<le> ?w")
    case True
    thus ?thesis using step s1(2,3) by auto
  next
    case False
    obtain s' where "reads s1 s'" "ready s'" "sect_loop secs junk nx closing (k - ?w) (nx lno) s1 =
      (case walk_to (sect_worth secs closing) (k - ?w) l rest of
         Some i \<Rightarrow> Some (Some (hd (rest ! i) \<noteq> CHR ''}''), (nx ^^ Suc i) (nx lno), s')
       | None \<Rightarrow> Some (None, (nx ^^ Suc (length rest)) (nx lno), s'))"
      using Cons.IH [OF s1(2,4,6,5) Cons.prems(5,6), of "k - ?w" l] False by auto
    thus ?thesis using step False reads_trans [OF s1(3)] unfolding go by (auto split: option.split)
  qed
qed

lemma down_lines: "((\<lambda>n. n + 1) ^^ i) k = k + (i::nat)"
  by (induction i) simp_all

lemma up_lines: "((\<lambda>n. n - 1) ^^ i) k = k - (i::nat)"
  by (induction i) simp_all

text \<open>Where a motion that is a command of its own goes, if it goes anywhere.\<close>

definition jumps :: "(bool \<times> vicmd \<times> ed) option \<Rightarrow> ed \<Rightarrow> mark option \<Rightarrow> bool" where
  "jumps r s m \<longleftrightarrow> (\<exists>vp s'. r = Some (m = None, vp, s') \<and> reads s s' \<and> ready s' \<and> (\<forall>x. m = Some x \<longrightarrow> m_stop vp = x \<and> m_final vp = x))"

lemma para_changes_count:
  assumes "0 < n" "2 * n < 2 ^ 32"
  shows "para_changes n (\<not> no_text l) = para_count l n"
  using assms by (auto simp: para_changes_def to_recno_def recno_dec_def)

lemma begins_read:
  assumes "begins vp s" "2 < c_buf_len s"
  obtains s' where "db_get (m_lno (m_start vp)) False s = Some (False, start_line vp s, s')" "reads s s'" "ready s'"
    "\<not> sp_tinput (cur s')" "2 < c_buf_len s'" "lines s' = lines s"
proof -
  have b: "ready s" "\<not> sp_tinput (cur s)" "0 < m_lno (m_start vp)" "m_lno (m_start vp) \<le> length (lines s)"
    using assms(1) by (simp_all add: begins_def on_text_def)
  obtain s' where s': "db_get (m_lno (m_start vp)) False s = Some (False, start_line vp s, s')" "ready s'" "reads s s'"
    using db_get_line [of s "m_lno (m_start vp)" False] b by blast
  show ?thesis
    using that [OF s'(1,3,2)] db_get_buffer [OF s'(1) b(2)] reads_fields(2,19) [OF s'(3)] b(2) assms(2) by simp
qed

lemma paragraphf_goes:
  assumes b: "begins vp0 s" and vp: "whole_lines vp0 s = Some (False, vp, s)" "m_start vp = m_start vp0" "vp_cnt vp = vp_cnt vp0"
    and h: "\<And>n. harmless ps (junk n)" "even (length ps)" "2 < c_buf_len s" "0 < vp_cnt vp0" "2 * vp_cnt vp0 < 2 ^ 32"
  shows "\<exists>s'. reads s s' \<and> ready s' \<and> v_paragraphf ps junk vp0 s =
    (case walk_to (para_worth ps) (vp_cnt vp0) (start_line vp0 s) (drop (m_lno (m_start vp0)) (lines s)) of
       Some i \<Rightarrow> Some (False,
         if ISMOTION vp then vp\<lparr>m_stop := \<lparr>m_lno = m_lno (m_start vp0) + i, m_cno = length (lines s ! (m_lno (m_start vp0) - 1 + i)) - 1\<rparr>,
            m_final := m_start vp0\<rparr>
         else vp\<lparr>m_stop := \<lparr>m_lno = m_lno (m_start vp0) + i + 1, m_cno = 0\<rparr>, m_final := \<lparr>m_lno = m_lno (m_start vp0) + i + 1, m_cno = 0\<rparr>\<rparr>, s')
     | None \<Rightarrow> para_eof (length (lines s) + 1) vp s')"
proof -
  let ?k = "m_lno (m_start vp0)" and ?l = "start_line vp0 s"
  have k: "0 < ?k" "?k \<le> length (lines s)" using b by (simp_all add: begins_def on_text_def)
  obtain s1 where s1: "db_get ?k False s = Some (False, ?l, s1)" "reads s s1" "ready s1" "\<not> sp_tinput (cur s1)" "2 < c_buf_len s1" "lines s1 = lines s"
    by (rule begins_read [OF b h(3)])
  have a: "ahead (\<lambda>n. n + 1) ?k (lines s1) (drop ?k (lines s))" using k by (intro ahead_down) (simp_all add: s1(6))
  obtain s' x y where s': "reads s1 s'" "ready s'"
    "para_loop ps junk (\<lambda>n. n + 1) (para_state ?l) (para_count ?l (vp_cnt vp0)) ?k (length ?l) s1 =
      (case walk_to (para_worth ps) (vp_cnt vp0) ?l (drop ?k (lines s)) of
         Some i \<Rightarrow> Some (True, ((\<lambda>n. n + 1) ^^ Suc i) ?k, ((\<lambda>n. n + 1) ^^ i) ?k, length ((?l # drop ?k (lines s)) ! i), s')
       | None \<Rightarrow> Some (False, ((\<lambda>n. n + 1) ^^ Suc (length (drop ?k (lines s)))) ?k, x, y, s'))"
    using para_loop_spec [where junk = junk and prev = ?l, OF s1(3,4) a s1(5) h(1,2,4)] by blast
  have l: "?l # drop ?k (lines s) = drop (?k - 1) (lines s)" using Cons_nth_drop_Suc [of "?k - 1" "lines s"] k by simp
  have n: "(?l # drop ?k (lines s)) ! i = lines s ! (?k - 1 + i)" for i unfolding l using k by simp
  have e: "?k + Suc (length (drop ?k (lines s))) = length (lines s) + 1" using k by simp
  have st: "(if \<not> no_text ?l then P_INTEXT else P_INBLANK) = para_state ?l" by simp
  have g: "v_paragraphf ps junk vp0 s = (case walk_to (para_worth ps) (vp_cnt vp0) ?l (drop ?k (lines s)) of
       Some i \<Rightarrow> Some (False,
         if ISMOTION vp then vp\<lparr>m_stop := \<lparr>m_lno = ?k + i, m_cno = length (lines s ! (?k - 1 + i)) - 1\<rparr>, m_final := m_start vp0\<rparr>
         else vp\<lparr>m_stop := \<lparr>m_lno = ?k + i + 1, m_cno = 0\<rparr>, m_final := \<lparr>m_lno = ?k + i + 1, m_cno = 0\<rparr>\<rparr>, s')
     | None \<Rightarrow> para_eof (length (lines s) + 1) vp s')"
    unfolding v_paragraphf_def vp(1) bind.bind_lunit prod.case if_False Let_def vp(2,3) s1(1) st para_changes_count [OF h(4,5)] s'(3)
      down_lines n e
    by (auto split: option.split)
  show ?thesis using reads_trans [OF s1(2) s'(1)] s'(2) g by blast
qed

lemma para_eof_end:
  assumes "ready s" "\<not> sp_tinput (cur s)" "0 < m_lno (m_start vp)" "m_lno (m_start vp) \<le> length (lines s)"
    "m_stop vp = m_start vp" "\<not> ISMOTION vp"
  shows "jumps (para_eof (length (lines s) + 1) vp s) s
    (if m_lno (m_start vp) = length (lines s) then None else Some \<lparr>m_lno = length (lines s), m_cno = 0\<rparr>)"
proof (cases "m_lno (m_start vp) = length (lines s)")
  case True
  obtain l s1 where s1: "db_eget (m_lno (m_start vp)) s = Some (False, l, False, s1)" "keeps s s1"
    using db_eget_base [of s "m_lno (m_start vp)"] assms by (auto simp: ready_def)
  have r: "ready s1" using keepsD(1,3) [OF s1(2)] assms(1) by (simp add: ready_def)
  obtain s2 where s2: "v_eof s1 = Some s2" "ready s2" "reads s1 s2"
    using v_eof_reads [OF r] reads_fields(19) [OF keepsD(2) [OF s1(2)]] assms(2) by auto
  show ?thesis using True s1(1) s2 assms(5) reads_trans [OF keepsD(2) [OF s1(2)] s2(3)] by (auto simp: jumps_def para_eof_def Let_def)
next
  case False
  thus ?thesis using assms by (auto simp: jumps_def para_eof_def Let_def)
qed

lemma paragraphf_jumps:
  assumes "begins vp s" "\<not> ISMOTION vp"
    and "\<And>n. harmless ps (junk n)" "even (length ps)" "2 < c_buf_len s" "0 < vp_cnt vp" "2 * vp_cnt vp < 2 ^ 32"
  shows "jumps (v_paragraphf ps junk vp s) s
    (case walk_to (para_worth ps) (vp_cnt vp) (start_line vp s) (drop (m_lno (m_start vp)) (lines s)) of
       Some i \<Rightarrow> Some \<lparr>m_lno = m_lno (m_start vp) + i + 1, m_cno = 0\<rparr>
     | None \<Rightarrow> if m_lno (m_start vp) = length (lines s) then None else Some \<lparr>m_lno = length (lines s), m_cno = 0\<rparr>)"
proof -
  have w: "whole_lines vp s = Some (False, vp, s)" using assms(2) by (simp add: whole_lines_def)
  let ?w = "walk_to (para_worth ps) (vp_cnt vp) (start_line vp s) (drop (m_lno (m_start vp)) (lines s))"
  obtain s' where s': "reads s s'" "ready s'" "v_paragraphf ps junk vp s = (case ?w of
       Some i \<Rightarrow> Some (False, vp\<lparr>m_stop := \<lparr>m_lno = m_lno (m_start vp) + i + 1, m_cno = 0\<rparr>,
          m_final := \<lparr>m_lno = m_lno (m_start vp) + i + 1, m_cno = 0\<rparr>\<rparr>, s')
     | None \<Rightarrow> para_eof (length (lines s) + 1) vp s')"
    using paragraphf_goes [where junk = junk, OF assms(1) w refl refl assms(3-7), unfolded if_not_P [OF assms(2)]] by blast
  have f: "lines s' = lines s" "cur s' = cur s" using reads_fields(2,19) [OF s'(1)] by simp_all
  show ?thesis
  proof (cases ?w)
    case None
    have "jumps (para_eof (length (lines s') + 1) vp s') s'
      (if m_lno (m_start vp) = length (lines s') then None else Some \<lparr>m_lno = length (lines s'), m_cno = 0\<rparr>)"
      by (rule para_eof_end) (use assms(1,2) s'(2) f in \<open>simp_all add: begins_def on_text_def\<close>)
    thus ?thesis unfolding s'(3) None option.case f jumps_def using reads_trans [OF s'(1)] by blast
  next
    case (Some i)
    show ?thesis unfolding s'(3) Some option.case jumps_def using s'(1,2) by auto
  qed
qed

text \<open>
  As the motion of a command from the start of a line it takes the lines up to the one before that, and lines are cut whole.
\<close>

lemma paragraphf_cuts:
  assumes "begins vp s" "ISMOTION vp" "m_cno (m_start vp) = 0"
    and "\<And>n. harmless ps (junk n)" "even (length ps)" "2 < c_buf_len s" "0 < vp_cnt vp" "2 * vp_cnt vp < 2 ^ 32"
    and "walk_to (para_worth ps) (vp_cnt vp) (start_line vp s) (drop (m_lno (m_start vp)) (lines s)) = Some i"
  shows "\<exists>vp' s'. v_paragraphf ps junk vp s = Some (False, vp', s') \<and> reads s s' \<and> vm_lmode vp' \<and>
    m_start vp' = m_start vp \<and> m_final vp' = m_start vp \<and> m_lno (m_stop vp') = m_lno (m_start vp) + i"
proof -
  let ?vp = "vp\<lparr>vm_lmode := True\<rparr>"
  have w: "whole_lines vp s = Some (False, ?vp, s)" using assms(2,3) by (simp add: whole_lines_def)
  have m: "m_start ?vp = m_start vp" "vp_cnt ?vp = vp_cnt vp" "ISMOTION ?vp = ISMOTION vp"
    by (simp_all add: vp_cnt_def ISMOTION_def)
  show ?thesis using paragraphf_goes [where junk = junk, OF assms(1) w m(1,2) assms(4-8)] assms(2,9) m(3) by auto
qed


lemma sectionf_goes:
  assumes b: "begins vp0 s" and vp: "whole_lines vp0 s = Some (False, vp, s)" "m_start vp = m_start vp0" "vp_cnt vp = vp_cnt vp0"
    and h: "\<And>n. harmless secs (junk n)" "even (length secs)" "2 < c_buf_len s" "0 < vp_cnt vp0" "vp_cnt vp0 < 2 ^ 32"
    and w: "w = walk_to (sect_worth secs (ISMOTION vp)) (vp_cnt vp0) [] (drop (m_lno (m_start vp0)) (lines s))"
    and at: "at = (case w of
       Some i \<Rightarrow> if ISMOTION vp \<and> hd (lines s ! (m_lno (m_start vp0) + i)) \<noteq> CHR ''}'' then m_lno (m_start vp0) + i else m_lno (m_start vp0) + i + 1
     | None \<Rightarrow> length (lines s))"
    and stop: "stop = \<lparr>m_lno = at, m_cno = if w = None \<or> ISMOTION vp \<and> w \<noteq> None \<and> at = m_lno (m_start vp0) + the w then length (lines s ! (at - 1)) - 1 else 0\<rparr>"
  shows "if w = None \<and> m_lno (m_start vp0) = length (lines s) then jumps (v_sectionf (Some secs) junk vp0 s) s None
    else \<exists>s'. reads s s' \<and> ready s' \<and> v_sectionf (Some secs) junk vp0 s = Some (False, vp\<lparr>m_stop := stop,
      m_final := if \<not> ISMOTION vp then stop else if vm_lmode vp then (m_start vp)\<lparr>m_cno := 0\<rparr> else m_start vp\<rparr>, s')"
proof -
  let ?k = "m_lno (m_start vp0)"
  have k: "0 < ?k" "?k \<le> length (lines s)" and r: "ready s" "\<not> sp_tinput (cur s)" using b by (simp_all add: begins_def on_text_def)
  have c: "to_recno (vp_cnt vp0) = vp_cnt vp0" using h(5) by (simp add: to_recno_def)
  have a: "ahead (\<lambda>n. n + 1) ?k (lines s) (drop ?k (lines s))" using k by (intro ahead_down) simp_all
  have e: "?k + Suc (length (drop ?k (lines s))) = length (lines s) + 1" using k by simp
  have n: "drop ?k (lines s) ! i = lines s ! (?k + i)" for i using k by simp
  obtain s1 where s1: "reads s s1" "ready s1"
    "sect_loop secs junk (\<lambda>n. n + 1) (ISMOTION vp) (vp_cnt vp0) ?k s =
      (case w of Some i \<Rightarrow> Some (Some (hd (lines s ! (?k + i)) \<noteq> CHR ''}''), ?k + Suc i, s1) | None \<Rightarrow> Some (None, length (lines s) + 1, s1))"
    using sect_loop_spec [where junk = junk and prev = "[]" and closing = "ISMOTION vp", OF r a h(3,1,2,4)] unfolding w down_lines n e by blast
  have f: "lines s1 = lines s" "\<not> sp_tinput (cur s1)" using reads_fields(2,19) [OF s1(1)] r(2) by simp_all
  have end_of: "\<exists>s2. db_get m False s1 = Some (False, lines s ! (m - 1), s2) \<and> ready s2 \<and> reads s s2"
    if "0 < m" "m \<le> length (lines s)" for m
    using db_get_line [OF s1(2), of m False] that f reads_trans [OF s1(1)] by auto
  show ?thesis
  proof (cases w)
    case None
    show ?thesis
    proof (cases "?k = length (lines s)")
      case True
      obtain s2 where s2: "v_eof s1 = Some s2" "ready s2" "reads s1 s2" using v_eof_reads [OF s1(2) f(2)] by blast
      have "v_sectionf (Some secs) junk vp0 s = Some (True, vp, s2)"
        using vp c s1(3) None True s2(1) by (simp add: v_sectionf_def)
      thus ?thesis using None True s2(2) reads_trans [OF s1(1) s2(3)] by (simp add: jumps_def)
    next
      case False
      obtain s2 where s2: "db_get (length (lines s)) False s1 = Some (False, lines s ! (length (lines s) - 1), s2)" "ready s2" "reads s s2"
        using end_of [of "length (lines s)"] k by (cases "lines s = []") auto
      have "v_sectionf (Some secs) junk vp0 s = Some (False, vp\<lparr>m_stop := stop,
          m_final := if \<not> ISMOTION vp then stop else if vm_lmode vp then (m_start vp)\<lparr>m_cno := 0\<rparr> else m_start vp\<rparr>, s2)"
        using vp c s1(3) None False s2(1) by (simp add: v_sectionf_def at stop)
      thus ?thesis using None False s2(2,3) by auto
    qed
  next
    case (Some i)
    have i: "?k + i < length (lines s)" using walk_to_less [OF Some [unfolded w]] by simp
    show ?thesis
    proof (cases "ISMOTION vp \<and> hd (lines s ! (?k + i)) \<noteq> CHR ''}''")
      case True
      obtain s2 where s2: "db_get (?k + i) False s1 = Some (False, lines s ! (?k + i - 1), s2)" "ready s2" "reads s s2"
        using end_of [of "?k + i"] k i by auto
      have "v_sectionf (Some secs) junk vp0 s = Some (False, vp\<lparr>m_stop := stop,
          m_final := if \<not> ISMOTION vp then stop else if vm_lmode vp then (m_start vp)\<lparr>m_cno := 0\<rparr> else m_start vp\<rparr>, s2)"
        using vp c s1(3) Some True s2(1) by (simp add: v_sectionf_def at stop)
      thus ?thesis using Some s2(2,3) by auto
    next
      case False
      have "v_sectionf (Some secs) junk vp0 s = Some (False, vp\<lparr>m_stop := stop,
          m_final := if \<not> ISMOTION vp then stop else if vm_lmode vp then (m_start vp)\<lparr>m_cno := 0\<rparr> else m_start vp\<rparr>, s1)"
        using vp c s1(3) Some False by (auto simp: v_sectionf_def at stop)
      thus ?thesis using Some s1(1,2) by auto
    qed
  qed
qed

lemma sectionf_jumps:
  assumes "begins vp s" "\<not> ISMOTION vp"
    and "\<And>n. harmless secs (junk n)" "even (length secs)" "2 < c_buf_len s" "0 < vp_cnt vp" "vp_cnt vp < 2 ^ 32"
  shows "jumps (v_sectionf (Some secs) junk vp s) s
    (case walk_to (sect_worth secs False) (vp_cnt vp) [] (drop (m_lno (m_start vp)) (lines s)) of
       Some i \<Rightarrow> Some \<lparr>m_lno = m_lno (m_start vp) + i + 1, m_cno = 0\<rparr>
     | None \<Rightarrow> if m_lno (m_start vp) = length (lines s) then None
               else Some \<lparr>m_lno = length (lines s), m_cno = length (last (lines s)) - 1\<rparr>)"
proof -
  let ?k = "m_lno (m_start vp)"
  have v: "whole_lines vp s = Some (False, vp, s)" using assms(2) by (simp add: whole_lines_def)
  have ne: "lines s \<noteq> []" using assms(1) by (auto simp: begins_def on_text_def)
  note g = sectionf_goes [where junk = junk, OF assms(1) v refl refl assms(3-7) refl refl refl]
  show ?thesis
  proof (cases "walk_to (sect_worth secs False) (vp_cnt vp) [] (drop ?k (lines s))")
    case None
    thus ?thesis using g assms(2) ne by (cases "?k = length (lines s)") (auto simp: jumps_def last_conv_nth)
  next
    case (Some i)
    thus ?thesis using g assms(2) by (auto simp: jumps_def)
  qed
qed

lemma sectionb_goes:
  assumes b: "begins vp s" and h: "\<And>n. harmless secs (junk n)" "even (length secs)" "2 < c_buf_len s" "0 < vp_cnt vp" "vp_cnt vp < 2 ^ 32"
  shows "jumps (v_sectionb (Some secs) junk vp s) s
    (if m_lno (m_start vp) = 1 then None
     else Some \<lparr>m_lno = (case walk_to (sect_worth secs False) (vp_cnt vp) [] (rev (take (m_lno (m_start vp) - 1) (lines s))) of
       Some i \<Rightarrow> m_lno (m_start vp) - 1 - i | None \<Rightarrow> 1), m_cno = 0\<rparr>)"
proof -
  let ?k = "m_lno (m_start vp)"
  let ?w = "walk_to (sect_worth secs False) (vp_cnt vp) [] (rev (take (?k - 1) (lines s)))"
  have k: "0 < ?k" "?k \<le> length (lines s)" and r: "ready s" "\<not> sp_tinput (cur s)" using b by (simp_all add: begins_def on_text_def)
  have c: "to_recno (vp_cnt vp) = vp_cnt vp" using h(5) by (simp add: to_recno_def)
  have "Suc (?k - 1) = ?k" using k(1) by simp
  hence a: "ahead (\<lambda>n. n - 1) ?k (lines s) (rev (take (?k - 1) (lines s)))" using ahead_up [of "?k - 1" "lines s"] k by auto
  obtain s1 where s1: "reads s s1" "ready s1"
    "sect_loop secs junk (\<lambda>n. n - 1) False (vp_cnt vp) ?k s =
      (case ?w of Some i \<Rightarrow> Some (Some (hd (rev (take (?k - 1) (lines s)) ! i) \<noteq> CHR ''}''), ?k - Suc i, s1)
       | None \<Rightarrow> Some (None, ?k - Suc (length (rev (take (?k - 1) (lines s)))), s1))"
    using sect_loop_spec [where junk = junk and prev = "[]" and closing = False, OF r a h(3,1,2,4)] unfolding up_lines by blast
  show ?thesis
  proof (cases "?k = 1")
    case True
    thus ?thesis using r by (simp add: jumps_def v_sectionb_def)
  next
    case False
    show ?thesis using False k(1) c s1 by (cases ?w) (auto simp: jumps_def v_sectionb_def Let_def)
  qed
qed

subsection \<open>The motions\<close>


text \<open>
  The section motions go to the line the count leads to, where a line that starts with a brace, a form feed, or a macro
  the option names is worth one; without one, to the end of the file, or its first line. They fail only on the last
  line and on the first one. The loops end, whatever the file holds.
\<close>
theorem section_motions:
  assumes "begins vp s" "\<not> ISMOTION vp"
    and "\<And>n. harmless secs (junk n)" "even (length secs)" "2 < c_buf_len s" "0 < vp_cnt vp" "vp_cnt vp < 2 ^ 32"
    and "k = m_lno (m_start vp)"
  shows "jumps (v_sectionf (Some secs) junk vp s) s
      (case walk_to (sect_worth secs False) (vp_cnt vp) [] (drop k (lines s)) of
         Some i \<Rightarrow> Some \<lparr>m_lno = k + i + 1, m_cno = 0\<rparr>
       | None \<Rightarrow> if k = length (lines s) then None else Some \<lparr>m_lno = length (lines s), m_cno = length (last (lines s)) - 1\<rparr>) \<and>
    jumps (v_sectionb (Some secs) junk vp s) s
      (if k = 1 then None
       else Some \<lparr>m_lno = (case walk_to (sect_worth secs False) (vp_cnt vp) [] (rev (take (k - 1) (lines s))) of Some i \<Rightarrow> k - 1 - i | None \<Rightarrow> 1), m_cno = 0\<rparr>)"
  unfolding assms(8) by (intro conjI sectionf_jumps sectionb_goes assms(1-7))

definition read_once :: "bytes list \<Rightarrow> ed" where
  "read_once ls = (opened ls)\<lparr>c_buf_len := 256\<rparr>"

lemma begins_read_once: "on_text m ls \<Longrightarrow> begins (vi_start None n m) (read_once ls)"
  using begins_opened [of m ls None n]
  by (simp add: read_once_def begins_def ready_def base_def count_ok_def text_ok_def vi_start_def)


theorem section_motions_witness:
  "jumps (v_sectionb (Some ''NHSH'') (\<lambda>_. CHR ''x'') (vi_start None None \<lparr>m_lno = 4, m_cno = 0\<rparr>) (read_once [''a'', ''{'', ''}'', ''b'']))
     (read_once [''a'', ''{'', ''}'', ''b'']) (Some \<lparr>m_lno = 2, m_cno = 0\<rparr>)"
proof -
  define vp s where "vp = vi_start None None \<lparr>m_lno = 4, m_cno = 0\<rparr>" and "s = read_once [''a'', ''{'', ''}'', ''b'']"
  have b: "begins vp s" unfolding vp_def s_def by (rule begins_read_once) (simp add: on_text_def)
  have vp: "\<not> ISMOTION vp" "vp_cnt vp = 1" "4 = m_lno (m_start vp)" by (simp_all add: vp_def ISMOTION_def vp_cnt_def vi_start_def)
  have s: "lines s = [''a'', ''{'', ''}'', ''b'']" "2 < c_buf_len s" by (simp_all add: s_def read_once_def opened_def)
  have h: "harmless ''NHSH'' (CHR ''x'')" "even (length ''NHSH'')" "0 < vp_cnt vp" "vp_cnt vp < 2 ^ 32" by (simp_all add: harmless_def vp(2))
  have w: "walk_to (sect_worth ''NHSH'' False) 1 [] (rev (take (4 - 1) [''a'', ''{'', ''}'', ''b''])) = Some 1"
    by (simp add: sect_worth_def)
  have "jumps (v_sectionb (Some ''NHSH'') (\<lambda>_. CHR ''x'') vp s) s (Some \<lparr>m_lno = 2, m_cno = 0\<rparr>)"
    using conjunct2 [OF section_motions [where junk = "\<lambda>_. CHR ''x''", OF b vp(1) h(1,2) s(2) h(3,4) vp(3)]]
    unfolding s(1) vp(2) w by simp
  then show ?thesis unfolding vp_def s_def .
qed

text \<open>
  Without another boundary \<^verbatim>\<open>}\<close> was to go to the end of the last line. The read that fails there makes the length 0, and
  the cursor ends up in the first column. On the last line \<^verbatim>\<open>}\<close> fails wherever the cursor is.
\<close>

lemma paragraph_to_eof:
  assumes "begins vp s" "\<not> ISMOTION vp" "vp_cnt vp = 1" "2 < c_buf_len s"
    and "walk_to (para_worth []) 1 (start_line vp s) (drop (m_lno (m_start vp)) (lines s)) = None"
  shows "jumps (v_paragraphf [] (\<lambda>_. CHR ''x'') vp s) s
    (if m_lno (m_start vp) = length (lines s) then None else Some \<lparr>m_lno = length (lines s), m_cno = 0\<rparr>)"
  using paragraphf_jumps [OF assms(1,2), of "[]" "\<lambda>_. CHR ''x''"] assms(3-5) by (simp add: harmless_def)

lemma paragraph_to_eof_witness:
  "jumps (v_paragraphf [] (\<lambda>_. CHR ''x'') (vi_start None None \<lparr>m_lno = 1, m_cno = 0\<rparr>) (read_once [''ab'', ''cd''])) (read_once [''ab'', ''cd''])
     (Some \<lparr>m_lno = 2, m_cno = 0\<rparr>)"
proof -
  define vp s where "vp = vi_start None None \<lparr>m_lno = 1, m_cno = 0\<rparr>" and "s = read_once [''ab'', ''cd'']"
  have b: "begins vp s" unfolding vp_def s_def by (rule begins_read_once) (simp add: on_text_def)
  have vp: "\<not> ISMOTION vp" "vp_cnt vp = 1" "m_lno (m_start vp) = 1" by (simp_all add: vp_def ISMOTION_def vp_cnt_def vi_start_def)
  have s: "lines s = [''ab'', ''cd'']" "2 < c_buf_len s" by (simp_all add: s_def read_once_def opened_def)
  have w: "walk_to (para_worth []) 1 (start_line vp s) (drop (m_lno (m_start vp)) (lines s)) = None"
    unfolding s vp(3) by (simp add: para_worth_def no_text_def v_isempty_def is_blank_def)
  have "jumps (v_paragraphf [] (\<lambda>_. CHR ''x'') vp s) s (Some \<lparr>m_lno = 2, m_cno = 0\<rparr>)"
    using paragraph_to_eof [OF b vp(1,2) s(2) w] unfolding vp(3) s(1) by (simp add: eval_nat_numeral(2,3))
  then show ?thesis unfolding vp_def s_def .
qed

text \<open>The byte behind a line of two characters decides whether \<^verbatim>\<open>.L\<close> is taken for the macro \<^verbatim>\<open>LP\<close>.\<close>

lemma macro_reads_behind:
  "macro_match (CHR ''P'') 256 ''.L'' (CHR ''L'') (CHR ''P'') = Some True"
  "macro_match (CHR ''x'') 256 ''.L'' (CHR ''L'') (CHR ''P'') = Some False"
  by (simp_all add: macro_match_def byte_at_def)

end
