(* ===== verification/ExArgs.thy ===== *)
theory ExArgs
  imports Seq
begin

section \<open>Reading the lines of saved maps (ex/ex.c, ex/ex_mkexrc.c)\<close>

text \<open>
  The part of \<^verbatim>\<open>ex_cmd\<close> that reads \<^verbatim>\<open>map\<close> and \<^verbatim>\<open>abbreviate\<close> commands from a start-up file, where
  only the literal-next character quotes: the name of the command, the search for the end of
  the command, which drops some of the quotes, and the two words of the syntax \<^verbatim>\<open>W\<close>, which drops
  the others. The lemmas: what \<^verbatim>\<open>:mkexrc\<close> writes for a sequence is read back as that sequence,
  and the outputs for which it is not.
\<close>

definition is_alpha :: "char \<Rightarrow> bool" where
  "is_alpha c \<longleftrightarrow> is_upper c \<or> is_lower c"

definition ex_name :: "bytes \<Rightarrow> bytes \<times> bytes" where
  "ex_name cp = (takeWhile is_alpha cp, dropWhile is_alpha cp)"

text \<open>The end of the command: its text, with the quotes that did their work dropped, and what follows it.\<close>

function ex_scan :: "bytes \<Rightarrow> bytes \<times> bytes" where
  "ex_scan [] = ([], [])"
| "ex_scan (ch # cp) =
     (if ch = CH_LITERAL \<and> cp \<noteq> [] then
        (let tmp = hd cp in
         if tmp = CHR 0x0A \<or> tmp = CHR ''|'' then
           (let (t, r) = ex_scan (drop 1 cp) in (tmp # t, r))
         else (let (t, r) = ex_scan cp in (ch # t, r)))
      else if ch = CHR 0x0A \<or> ch = CHR ''|'' then ([], cp)
      else (let (t, r) = ex_scan cp in (ch # t, r)))"
  by pat_completeness auto
termination by (relation "measure length") auto

text \<open>The first word of a \<^verbatim>\<open>W\<close> argument, up to an unquoted blank, and the string after it.\<close>

function ex_word :: "bytes \<Rightarrow> bytes \<times> bytes" where
  "ex_word [] = ([], [])"
| "ex_word (ch # cp) =
     (if ch = CH_LITERAL \<and> cp \<noteq> [] then (let (w, r) = ex_word (drop 1 cp) in (hd cp # w, r))
      else if is_blank ch then ([], cp)
      else (let (w, r) = ex_word cp in (ch # w, r)))"
  by pat_completeness auto
termination by (relation "measure length") auto

function ex_string :: "bytes \<Rightarrow> bytes" where
  "ex_string [] = []"
| "ex_string (ch # cp) =
     (if ch = CH_LITERAL \<and> cp \<noteq> [] then hd cp # ex_string (drop 1 cp) else ch # ex_string cp)"
  by pat_completeness auto
termination by (relation "measure length") auto

text \<open>The two arguments of the syntax \<^verbatim>\<open>W\<close>; \<open>None\<close> is a usage error. Memory for them can always be had here.\<close>

definition ex_words :: "bytes \<Rightarrow> bytes list option" where
  "ex_words cp =
     (let (word, cp) = ex_word cp; cp = dropWhile is_blank cp in
      if cp = [] then None else Some [word, ex_string cp])"

text \<open>
  The syntaxes \<^verbatim>\<open>!W\<close>, with which a force flag is looked for, and \<^verbatim>\<open>W\<close>: the flag, and no arguments or two.
\<close>

definition ex_word_args :: "bool \<Rightarrow> bytes \<Rightarrow> (bool \<times> bytes list) option" where
  "ex_word_args force_ok cp =
     (let force = (force_ok \<and> cp \<noteq> [] \<and> hd cp = CHR ''!'');
          cp = dropWhile is_blank (if force then drop 1 cp else cp) in
      if cp = [] then Some (force, []) else map_option (Pair force) (ex_words cp))"

text \<open>A \<^verbatim>\<open>map\<close> or \<^verbatim>\<open>abbreviate\<close> command: its name, its force flag and arguments, and the commands after it.\<close>

definition ex_word_command :: "bytes \<Rightarrow> bytes \<times> (bool \<times> bytes list) option \<times> bytes" where
  "ex_word_command cp =
     (let (name, cp) = ex_name cp; (text, save_cmd) = ex_scan cp in
      (name, ex_word_args (name = ''map'') text, save_cmd))"

text \<open>The command \<^verbatim>\<open>:mkexrc\<close> has \<^verbatim>\<open>seq_save\<close> write in front of the sequences of a type.\<close>

definition mkexrc_prefix :: "seq_t \<Rightarrow> bytes" where
  "mkexrc_prefix ty =
     (case ty of SEQ_ABBREV \<Rightarrow> ''abbreviate '' | SEQ_COMMAND \<Rightarrow> ''map '' | SEQ_INPUT \<Rightarrow> ''map! '')"

declare ex_scan.simps [simp del] ex_word.simps [simp del] ex_string.simps [simp del]

lemma ex_scan_Nil [simp]: "ex_scan [] = ([], [])" and ex_word_Nil [simp]: "ex_word [] = ([], [])"
  and ex_string_Nil [simp]: "ex_string [] = []"
  by (simp_all add: ex_scan.simps ex_word.simps ex_string.simps)

lemma literal_char [simp]:
  "\<not> is_blank CH_LITERAL" "CH_LITERAL \<noteq> CHR 0x0A" "CH_LITERAL \<noteq> CHR ''|''" "CHR 0x0A \<noteq> CH_LITERAL"
  "CHR ''|'' \<noteq> CH_LITERAL" "CHR '' '' \<noteq> CH_LITERAL" "CHR ''!'' \<noteq> CH_LITERAL" "is_blank (CHR '' '')"
  by (simp_all add: is_blank_def CH_LITERAL_def)

subsection \<open>The end of a command\<close>

lemma scan_literal:
  "cp = [] \<or> hd cp \<noteq> CHR 0x0A \<and> hd cp \<noteq> CHR ''|'' \<Longrightarrow>
   ex_scan (CH_LITERAL # cp) = (let (t, r) = ex_scan cp in (CH_LITERAL # t, r))"
  by (cases cp) (simp_all add: ex_scan.simps(2) [of CH_LITERAL])

lemma scan_plain:
  "c \<noteq> CH_LITERAL \<Longrightarrow> c \<noteq> CHR 0x0A \<Longrightarrow> c \<noteq> CHR ''|'' \<Longrightarrow> ex_scan (c # cp) = (let (t, r) = ex_scan cp in (c # t, r))"
  by (simp add: ex_scan.simps(2))

lemma scan_escaped:
  "c = CHR 0x0A \<or> c = CHR ''|'' \<Longrightarrow> ex_scan (CH_LITERAL # c # cp) = (let (t, r) = ex_scan cp in (c # t, r))"
  by (auto simp add: ex_scan.simps(2) [of CH_LITERAL])

text \<open>What is left of the quoting once the command has been delimited.\<close>

definition kept_quotes :: "bool \<Rightarrow> char \<Rightarrow> bytes" where
  "kept_quotes blanks ch = (if ch = CH_LITERAL \<or> blanks \<and> is_blank ch then [CH_LITERAL, ch] else [ch])"

lemma quoted_not_end:
  "quoted b c \<noteq> [] \<and> hd (quoted b c) \<noteq> CHR 0x0A \<and> hd (quoted b c) \<noteq> CHR ''|''"
  by (simp add: quoted_def)

lemma hd_quoted:
  assumes "l \<noteq> []"
  shows "concat (map (quoted b) l) @ rest \<noteq> []
    \<and> hd (concat (map (quoted b) l) @ rest) \<noteq> CHR 0x0A \<and> hd (concat (map (quoted b) l) @ rest) \<noteq> CHR ''|''"
  using assms quoted_not_end by (cases l) auto

lemma scan_quoted:
  assumes "l = [] \<or> last l \<noteq> CH_LITERAL \<or> rest = [] \<or> hd rest \<noteq> CHR 0x0A \<and> hd rest \<noteq> CHR ''|''"
  shows "ex_scan (concat (map (quoted b) l) @ rest) =
    (let (t, r) = ex_scan rest in (concat (map (kept_quotes b) l) @ t, r))"
  using assms
proof (induction l)
  case Nil
  show ?case by simp
next
  case (Cons c l)
  let ?more = "concat (map (quoted b) l) @ rest"
  have ih: "ex_scan ?more = (let (t, r) = ex_scan rest in (concat (map (kept_quotes b) l) @ t, r))"
    using Cons by (auto split: if_splits)
  consider (lit) "c = CH_LITERAL" | (bar) "c = CHR 0x0A \<or> c = CHR ''|''"
    | (blank) "c \<noteq> CH_LITERAL" "c \<noteq> CHR 0x0A" "c \<noteq> CHR ''|''" by blast
  then show ?case
  proof cases
    case lit
    have m: "?more = [] \<or> hd ?more \<noteq> CHR 0x0A \<and> hd ?more \<noteq> CHR ''|''"
      using Cons.prems hd_quoted [of l b rest] lit by (cases "l = []") auto
    have "ex_scan (CH_LITERAL # CH_LITERAL # ?more) = (let (t, r) = ex_scan ?more in (CH_LITERAL # CH_LITERAL # t, r))"
      using scan_literal [OF m] scan_literal [of "CH_LITERAL # ?more"] by (simp add: split_def Let_def)
    with lit show ?thesis using ih
      by (simp add: quoted_def [of b CH_LITERAL] kept_quotes_def [of b CH_LITERAL] split_def Let_def)
  next
    case bar
    then have "\<not> is_blank c" "c \<noteq> CH_LITERAL" by (auto simp: is_blank_def CH_LITERAL_def)
    then show ?thesis using ih bar scan_escaped [OF bar, of ?more]
      by (auto simp add: quoted_def [of b c] kept_quotes_def [of b c] split_def Let_def)
  next
    case blank
    then have two: "ex_scan (CH_LITERAL # c # ?more) = (let (t, r) = ex_scan ?more in (CH_LITERAL # c # t, r))"
      using scan_literal [of "c # ?more"] scan_plain [OF blank, of ?more] by (simp add: split_def Let_def)
    consider "quoted b c = [c]" "kept_quotes b c = [c]" | "quoted b c = [CH_LITERAL, c]" "kept_quotes b c = [CH_LITERAL, c]"
      using blank by (cases "b \<and> is_blank c") (simp_all add: quoted_def kept_quotes_def)
    then show ?thesis
      using ih two scan_plain [OF blank, of ?more] by cases (simp_all add: split_def Let_def)
  qed
qed

subsection \<open>The words\<close>

lemma word_kept: "ex_word (concat (map (kept_quotes True) l) @ CHR '' '' # rest) = (l, rest)"
  by (induction l) (simp_all add: kept_quotes_def ex_word.simps(2))

lemma string_kept: "ex_string (concat (map (kept_quotes False) l)) = l"
  by (induction l) (simp_all add: kept_quotes_def ex_string.simps(2))

lemma kept_not_blank:
  assumes "l \<noteq> []" "b \<or> \<not> is_blank (hd l)"
  shows "concat (map (kept_quotes b) l) @ rest \<noteq> [] \<and> \<not> is_blank (hd (concat (map (kept_quotes b) l) @ rest))"
  using assms by (cases l) (auto simp: kept_quotes_def)

lemma dropWhile_blank_id: "cp = [] \<or> \<not> is_blank (hd cp) \<Longrightarrow> dropWhile is_blank cp = cp"
  by (cases cp) auto

lemma word_args_two:
  assumes "ex_word cp = (w, r)" "cp \<noteq> []" "\<not> is_blank (hd cp)" "r \<noteq> []" "\<not> is_blank (hd r)"
  shows "ex_word_args f (CHR '' '' # cp) = Some (False, [w, ex_string r])"
    "ex_word_args True (CHR ''!'' # CHR '' '' # cp) = Some (True, [w, ex_string r])"
  using assms by (auto simp: ex_word_args_def ex_words_def Let_def dropWhile_blank_id)

lemma word_args_kept:
  assumes "i \<noteq> []" "l \<noteq> []" "\<not> is_blank (hd l)" "g \<longrightarrow> f"
  shows "ex_word_args f ((if g then ''!'' else []) @ CHR '' '' # concat (map (kept_quotes True) i) @ CHR '' '' #
    concat (map (kept_quotes False) l)) = Some (g, [i, l])"
proof -
  let ?out = "concat (map (kept_quotes False) l)"
  let ?in = "concat (map (kept_quotes True) i) @ CHR '' '' # ?out"
  have o: "?out \<noteq> [] \<and> \<not> is_blank (hd ?out)" using kept_not_blank [of l False "[]"] assms by simp
  have i: "?in \<noteq> [] \<and> \<not> is_blank (hd ?in)" using kept_not_blank [of i True "CHR '' '' # ?out"] assms by simp
  show ?thesis
    using word_args_two [OF word_kept conjunct1 [OF i] conjunct2 [OF i] conjunct1 [OF o] conjunct2 [OF o]]
      string_kept [of l] assms by auto
qed

subsection \<open>Saved sequences\<close>

lemma alpha_names: "list_all is_alpha ''abbreviate''" "list_all is_alpha ''map''" "\<not> is_alpha (CHR '' '')" "\<not> is_alpha (CHR ''!'')"
  by (simp_all add: is_alpha_def is_upper_def is_lower_def)

lemma ex_name_append:
  assumes "list_all is_alpha n" "\<not> is_alpha c"
  shows "ex_name (n @ c # cp) = (n, c # cp)"
  using assms by (induction n) (auto simp: ex_name_def)

lemma ex_name_prefix:
  "ex_name (mkexrc_prefix ty @ cp) =
    (if ty = SEQ_ABBREV then ''abbreviate'' else ''map'', (if ty = SEQ_INPUT then ''!'' else []) @ CHR '' '' # cp)"
  using ex_name_append [OF alpha_names(1,3), of cp] ex_name_append [OF alpha_names(2,3), of cp]
    ex_name_append [OF alpha_names(2,4), of "CHR '' '' # cp"]
  by (cases ty) (simp_all add: mkexrc_prefix_def)

lemma scan_save_entry:
  assumes "q_output q = Some l" "l = [] \<or> last l \<noteq> CH_LITERAL"
  shows "ex_scan ((if f then ''!'' else []) @ CHR '' '' # save_entry None q @ onward) =
    ((if f then ''!'' else []) @ CHR '' '' # concat (map (kept_quotes True) (q_input q)) @ CHR '' '' #
     concat (map (kept_quotes False) l), onward)"
proof -
  have nl: "ex_scan (CHR 0x0A # onward) = ([], onward)" by (simp add: ex_scan.simps(2))
  have out: "ex_scan (CHR '' '' # concat (map (quoted False) l) @ CHR 0x0A # onward)
      = (CHR '' '' # concat (map (kept_quotes False) l), onward)"
    using assms scan_quoted [of l "CHR 0x0A # onward" False] by (subst ex_scan.simps(2)) (auto simp: nl)
  have inp: "ex_scan (save_entry None q @ onward) = (concat (map (kept_quotes True) (q_input q)) @ CHR '' '' #
      concat (map (kept_quotes False) l), onward)"
    using assms scan_quoted [of "q_input q" "CHR '' '' # concat (map (quoted False) l) @ CHR 0x0A # onward" True] out
    by (simp add: save_entry_def)
  have "ex_scan (CHR '' '' # save_entry None q @ onward) = (CHR '' '' # concat (map (kept_quotes True) (q_input q)) @ CHR '' '' #
      concat (map (kept_quotes False) l), onward)"
    by (subst ex_scan.simps(2)) (simp add: inp)
  then show ?thesis by (cases f) (simp_all add: scan_plain)
qed

lemma save_entry_prefix: "save_entry (Some p) q = p @ save_entry None q"
  by (simp add: save_entry_def)

text \<open>
  C29: a map or abbreviation survives \<^verbatim>\<open>:mkexrc\<close>: from the line written for it, in front of whatever
  else the file holds, the parser of start-up files reads the command it was made with, the
  force flag exactly for an input map, its input and its output, whatever blanks, bars, newlines
  and literal-next characters they hold, and goes on with what follows the line. The output may
  not be empty, start with a blank or end in a literal-next character.
\<close>

theorem seq_save_reads_back:
  assumes "q_input q \<noteq> []" "q_output q = Some l" "l \<noteq> []" "\<not> is_blank (hd l)" "last l \<noteq> CH_LITERAL"
  shows "ex_word_command (save_entry (Some (mkexrc_prefix (q_stype q))) q @ onward) =
    (if q_stype q = SEQ_ABBREV then ''abbreviate'' else ''map'',
     Some (q_stype q = SEQ_INPUT, [q_input q, l]), onward)"
  using scan_save_entry [of q l "q_stype q = SEQ_INPUT" onward]
    word_args_kept [of "q_input q" l "q_stype q = SEQ_INPUT" "q_stype q \<noteq> SEQ_ABBREV"] assms
  by (auto simp: ex_word_command_def save_entry_prefix ex_name_prefix split: if_splits)

lemma seq_save_reads_back_witness:
  "ex_word_command (save_entry (Some (mkexrc_prefix SEQ_COMMAND)) (user_map [CHR 0x16, CHR '' '', CHR ''|''] ''a |b'') @ ''map c d'') =
    (''map'', Some (False, [[CHR 0x16, CHR '' '', CHR ''|''], ''a |b'']), ''map c d'')"
  using seq_save_reads_back [of "user_map [CHR 0x16, CHR '' '', CHR ''|''] ''a |b''" "''a |b''" "''map c d''"]
  by (simp add: user_map_def is_blank_def CH_LITERAL_def)

text \<open>
  The outputs the theorem leaves out: nothing, which no command makes, is a usage error; a leading blank
  disappears; and a last literal-next character quotes the newline, so that the next line becomes part of the output.
\<close>

lemma saved_empty_output:
  "ex_word_command (save_entry (Some ''map '') (user_map ''g'' []) @ onward) = (''map'', None, onward)"
  by code_simp

lemma saved_leading_blank:
  "ex_word_command (save_entry (Some ''map '') (user_map ''g'' '' x'') @ onward) = (''map'', Some (False, [''g'', ''x'']), onward)"
  by code_simp

lemma saved_last_literal:
  "ex_word_command (save_entry (Some ''map '') (user_map ''g'' [CH_LITERAL]) @ ''map h x'' @ CHR 0x0A # onward) =
    (''map'', Some (False, [''g'', CHR 0x0A # ''map h x'']), onward)"
  by code_simp

end
