(* ===== verification/Spec2Isabelle.thy ===== *)
theory Spec2Isabelle
  imports ViTyped KeyNames MPool ExShift ViCase ViReplace Paragraphs ExArgs
begin

section \<open>A verification library for the OpenVi editor\<close>

text \<open>
  OpenVi is a port of OpenBSD's vi. An editor session is a stack of three machines. At the bottom a database of numbered
  records (src/db) holds the lines of the file, a second one of the same kind the undo log. On top of it src/common
  keeps everything that depends on line numbers in step with the lines: a cache of the last line read and of the number
  of lines, the marks, the log, the cut buffers, the ranges of pending global commands, and the screens that show the
  file. On top of that src/vi reads keys from a queue that expands maps, parses them into commands, runs commands with
  their motions, and ends each command by closing its event in the log. This library follows one path through all three
  completely, from typed keys to the lines of the file and back by \<^verbatim>\<open>u\<close>, and models the components along it as
  they are written.

  \<^bold>\<open>How C is rendered.\<close> A C function is a HOL function of the same name on an explicit state, in \<open>option\<close>. \<open>None\<close> is
  \<^verbatim>\<open>abort()\<close>, undefined behaviour (a null dereference, an access outside an object), or a loop that does not end; an
  \<^verbatim>\<open>int\<close> result is a \<open>bool\<close>, true for non-zero, which is failure; the state a failing call leaves is part of its
  result. So a theorem of the form \<open>\<exists>s'. f s = Some (False, s') \<and> \<dots>\<close> says that the code returns, succeeds and is free of
  undefined behaviour. Line numbers and counts are \<open>nat\<close> with the conversions of the source (\<^verbatim>\<open>recno_t\<close> has 32 bits,
  \<^verbatim>\<open>unsigned long\<close> 64) written out where it makes them. Flag words are records of booleans. What the system decides
  is an oracle in the state: whether memory can be had, whether a page can be read, which keys the terminal
  delivers, whether the user interrupts, what painting does to the screen map. Messages to the user are not modelled.

  \<^bold>\<open>Theories, from the bottom up.\<close>

  \<^item> \<open>Prelude\<close>: bytes, the insertion and deletion of list elements, character classes, the allocation macros.
  \<^item> \<open>Recno\<close> (src/db/recno: rec_get.c, rec_put.c, rec_delete.c, rec_seq.c): the record store as a list of records with
    a reader that fetches records of the underlying file when they are asked for. Reading lazily answers as if all had
    been read.
  \<^item> \<open>State\<close>, \<open>Space\<close> (src/common: exf.h, screen.h, gs.h, log.h, mem.h): the record \<open>ed\<close> of everything the code below
    reads or writes, and the temporary buffers.
  \<^item> \<open>LineRead\<close>, \<open>LineEdit\<close> (src/common/line.c): reading over the caches, and the four changes of a line. A predicate of
    coherence (\<open>ready\<close>) is kept by every operation; each change has one theorem about lines, marks, log and later
    reads.
  \<^item> \<open>Marks\<close> (src/common/mark.c), \<open>GlobalRange\<close> (src/ex/ex_global.c), \<open>Screen\<close> (src/vi/vs_smap.c): what is adjusted when
    lines come and go.
  \<^item> \<open>LogWrite\<close>, \<open>LogReplay\<close> (src/common/log.c): the log as a list of records with a cursor. An abstract history
    \<open>history s ls past future\<close>, of states of the file the log can lead back and forth through, is the specification;
    \<^verbatim>\<open>log_backward\<close> and \<^verbatim>\<open>log_forward\<close> refine moving one event between past and future.
  \<^item> \<open>Undo\<close> (src/vi/v_undo.c, src/ex/ex_undo.c): the commands over the log.
  \<^item> \<open>Delete\<close>, \<open>Cut\<close>, \<open>Put\<close> (src/common: delete.c, cut.c, put.c): removing, copying and inserting text between marks,
    every case of the code, as recorded edits.
  \<^item> \<open>Seq\<close>, \<open>Keys\<close>, \<open>KeyMaps\<close>, \<open>KeyNames\<close> (src/common: seq.c, key.c): maps and abbreviations as a sorted list that
    implements a finite map; the queue of keys as a window of an array that implements a list; the expansion of
    maps; the names of characters.
  \<^item> \<open>ExArgs\<close> (src/ex: ex.c, ex_mkexrc.c): how the lines of saved maps and abbreviations are delimited and split into their
    arguments when a start-up file is read.
  \<^item> \<open>CharStream\<close> (src/vi/getc.c), \<open>Words\<close> (v_word.c), \<open>Match\<close> (v_match.c), \<open>Columns\<close> (vs_relative.c), \<open>LineMotions\<close>
    (v_left.c, v_right.c, v_scroll.c), \<open>CharSearch\<close> (v_ch.c), \<open>MarkMotions\<close> (v_mark.c),
    \<open>Paragraphs\<close> (v_paragraph.c, v_section.c): the motions. The walk over
    characters is specified by a list of items of the whole file and a place in it.
  \<^item> \<open>ViTable\<close> (src/vi/v_cmd.c), \<open>ViCmd\<close> (vi.h, v_util.c), \<open>ViParse\<close> (vi.c: getcmd, getcount, getkeyword and the rest of
    the parser): the command table as data, commands, and reading them from the queue.
  \<^item> \<open>MPool\<close> (src/db/mpool: mpool.c): the cache of pages below the database. A client sees the file through it as if
    there were none; its chains stay consistent; pages in use stay; it keeps within its size while it can; its errors.
  \<^item> \<open>ExLines\<close>, \<open>ExMove\<close>, \<open>ExJoin\<close>, \<open>ExShift\<close> (src/ex: ex_delete.c, ex_yank.c, ex_put.c, ex_mark.c, ex_move.c, ex_join.c,
    ex_shift.c): the commands on ranges of lines, with their addresses resolved, as recorded edits.
  \<^item> \<open>ViCase\<close> (v_ulcase.c), \<open>ViNumber\<close> (v_increment.c), \<open>ViReplace\<close> (v_replace.c, and v_txt_auto of v_txt.c): the commands
    \<^verbatim>\<open>~\<close>, \<^verbatim>\<open>#\<close> and \<^verbatim>\<open>r\<close>.
  \<^item> \<open>ViOps\<close> (v_delete.c, v_yank.c, v_put.c, v_xchar.c), \<open>ViMain\<close>, \<open>ViLoop\<close>, \<open>ViTyped\<close> (vi.c): commands that change text,
    the main loop, and the theorems about sequences of typed commands.

  \<^bold>\<open>Interfaces.\<close> The laws a client rests on are locales, which the components discharge by interpretation: a store of
  numbered records (\<open>record_store\<close> in \<open>Recno\<close>), an edit with an inverse (\<open>undoable\<close> in \<open>LogReplay\<close>), a walk over the
  characters of the file in one direction (\<open>walk\<close> in \<open>CharStream\<close>, extended by \<open>turn\<close> in \<open>Words\<close>).

  \<^bold>\<open>Loops, fuel and bounds.\<close> Loops are structural recursion where the code counts or walks a list. The walks over
  characters carry fuel, and are started with more than the characters of the file, which the lemmas show is enough: a motion
  always returns. The reader of keys and the main loop, which may wait for ever, are \<^theory_text>\<open>partial_function\<close>s, and the theorems
  about them state that they return. Theorems about the editor assume that memory and pages can be had where they say
  that a call succeeds, and that lines and counts fit the types that hold them.

  \<^bold>\<open>What modelling showed.\<close> Where the code does not do what it means to, the model keeps what it does, and the lemmas
  about intended behaviour carry the condition that excludes the case. Cases with a theorem of their own are in the theories
  next to the operation: a count that overflows unnoticed and a word that overflows the buffer (\<open>ViParse\<close>), a tab on a
  folded line (\<open>Columns\<close>), \<^verbatim>\<open>$\<close> and \<^verbatim>\<open>j\<close> with large counts (\<open>LineMotions\<close>), a failed \<^verbatim>\<open>t\<close>
  (\<open>CharSearch\<close>), a global range whose first line goes (\<open>GlobalRange\<close>), a key lost without remapping (\<open>KeyMaps\<close>), saved
  maps that read back differently (\<open>ExArgs\<close>), a count that \<^verbatim>\<open>p\<close> loses (\<open>ViOps\<close>), an
  error of the database that is taken for success (\<open>LineEdit\<close>), a name that keeps the tail of a longer one (\<open>KeyNames\<close>), a
  page that is spoiled when its bucket could not be written (\<open>MPool\<close>), marks lost and a buffer lost by \<^verbatim>\<open>move\<close> (\<open>ExShift\<close>), a
  count that runs down on an empty line and a byte read behind a copy (\<open>ViCase\<close>), a sign at the end of a line and a long
  number that is cut short (\<open>ViNumber\<close>), a count that wraps around (\<open>ViReplace\<close>), \<^verbatim>\<open>}\<close> at the end of the file and
  macros read behind a line (\<open>Paragraphs\<close>).

  \<^bold>\<open>Not modelled.\<close> Painting the screen and the curses layer (output); the text input loop v_txt.c, which interleaves
  with painting at every key; parsing of ex commands but for the part in \<open>ExArgs\<close>, searching and substituting, and the file and shell commands; options,
  messages, recovery files and start-up; the regular expression and B-tree libraries and the layout of pages; the
  portability layer. Where modelled code calls into these, the call is a parameter. The main loop (\<open>ViMain\<close>) calls the
  functions that are modelled below it; the others, \<^verbatim>\<open>~\<close>, \<^verbatim>\<open>#\<close> and \<^verbatim>\<open>r\<close> with them, are a parameter of it.
\<close>

end
